(* ===== verification/Pinpoint_Prelude.thy ===== *)
theory Pinpoint_Prelude
  imports Main "HOL-Library.Word" "HOL-Library.Multiset"
begin

text \<open>
  The shared layer of the development: the names the models use for Go's machine types, the
  fact collections the component proofs draw on, and the generic lemmas about lists, options,
  maps and cyclic indices that more than one component needs.

  \<^item> \<open>go_int32\<close>, \<open>go_int64\<close>, \<open>go_uint64\<close> are Go's fixed-width integers as words: addition wraps as
    Go's atomics do.
  \<^item> A Go \<open>string\<close> is a sequence of bytes and is modelled by HOL's \<open>string\<close>, whose characters are
    bytes as well.
  \<^item> \<open>time\<close> is a point on the wall clock, in nanoseconds since Go's zero \<open>time.Time\<close>, so the zero
    value is 0 and \<open>Truncate\<close> is rounding down to a multiple.
\<close>

section \<open>Types\<close>

type_synonym go_int32 = "32 word"
type_synonym go_int64 = "64 word"
type_synonym go_uint64 = "64 word"
type_synonym time = int
type_synonym duration = int

section \<open>Fact collections\<close>

named_theorems queue_simps \<open>unfolding facts of the ring buffer and the sharded span queue\<close>

section \<open>Lists and options\<close>

lemma mset_option_list_update:
  assumes "i < length xs"
  shows "mset (xs[i := x]) + {#xs ! i#} = add_mset x (mset xs)"
proof -
  have "xs ! i \<in># mset xs" using assms by simp
  then show ?thesis using assms by (simp add: mset_update)
qed

lemma sum_list_map_update:
  fixes f :: "'a \<Rightarrow> 'b::ab_group_add"
  assumes "i < length xs"
  shows "sum_list (map f (xs[i := x])) = sum_list (map f xs) - f (xs ! i) + f x"
  using assms
proof (induction xs arbitrary: i)
  case Nil
  then show ?case by simp
next
  case (Cons a xs)
  then show ?case by (cases i) (simp_all add: algebra_simps)
qed

lemma sum_list_map_update_add:
  fixes f :: "'a \<Rightarrow> 'b::comm_monoid_add"
  assumes "i < length xs"
  shows "sum_list (map f (xs[i := x])) + f (xs ! i) = sum_list (map f xs) + f x"
  using assms
proof (induction xs arbitrary: i)
  case Nil
  then show ?case by simp
next
  case (Cons a xs)
  show ?case
  proof (cases i)
    case 0
    then show ?thesis by (simp add: ac_simps)
  next
    case (Suc j)
    with Cons have "sum_list (map f (xs[j := x])) + f (xs ! j) = sum_list (map f xs) + f x"
      by simp
    with Suc show ?thesis by (simp add: add.assoc)
  qed
qed

lemma member_le_sum_list_map:
  fixes f :: "'a \<Rightarrow> nat"
  assumes "i < length xs"
  shows "f (xs ! i) \<le> sum_list (map f xs)"
  using assms by (simp add: elem_le_sum_list [of i "map f xs", simplified])

lemma list_all_update:
  "list_all P xs \<Longrightarrow> P x \<Longrightarrow> list_all P (xs[i := x])"
  using set_update_subset_insert [of xs i x] by (auto simp: list_all_iff)

lemma upt_split_at:
  assumes "[0..<n] = pre @ i # post"
  shows "pre = [0..<i]" and "i < n"
proof -
  let ?k = "length pre"
  have k: "?k < n" using arg_cong [OF assms, of length] by simp
  have "[0..<n] ! ?k = i" by (simp add: assms)
  with k have i: "i = ?k" by simp
  have "take ?k [0..<n] = pre" by (simp add: assms)
  with i k show "pre = [0..<i]" and "i < n" by simp_all
qed

section \<open>Cyclic indices\<close>

lemma wrap_once_mod:
  assumes "a < n" and "b \<le> n"
  shows "(if n \<le> a + b then a + b - n else a + b) = (if b = n then a else (a + b) mod (n::nat))"
  using assms by (auto simp: mod_if)

text \<open>The distance from \<open>i\<close> forward to \<open>j\<close> on a cycle of \<open>n\<close> positions.\<close>

definition cyc_dist :: "nat \<Rightarrow> nat \<Rightarrow> nat \<Rightarrow> nat" where
  "cyc_dist n i j = (j + n - i) mod n"

lemma cyc_dist_less: "k < n \<Longrightarrow> cyc_dist n i j < n"
  by (simp add: cyc_dist_def)

lemma cyc_dist_reaches:
  assumes "i < n" and "j < n"
  shows "(i + cyc_dist n i j) mod n = j"
proof -
  have "(i + (j + n - i) mod n) mod n = (i + (j + n - i)) mod n"
    by (simp add: mod_add_right_eq)
  also have "\<dots> = j"
    using assms by simp
  finally show ?thesis by (simp add: cyc_dist_def)
qed

lemma cyc_dist_step:
  assumes "i < n" and "j < n" and "k < cyc_dist n i j"
  shows "cyc_dist n (((i + k) mod n + 1) mod n) j < cyc_dist n i j"
proof -
  let ?d = "cyc_dist n i j"
  have d: "?d < n" using assms by (intro cyc_dist_less)
  define m where "m = ((i + k) mod n + 1) mod n"
  have m: "m = (i + (k + 1)) mod n"
    by (simp add: m_def mod_simps)
  have mn: "m < n" using assms by (simp add: m_def)
  have "(m + (?d - (k + 1))) mod n = (i + (k + 1) + (?d - (k + 1))) mod n"
    by (simp add: m mod_simps)
  also have "\<dots> = (i + ?d) mod n" using assms by simp
  also have "\<dots> = j" using assms by (simp add: cyc_dist_reaches)
  finally have reach: "(m + (?d - (k + 1))) mod n = j" .
  have "cyc_dist n m j = ?d - (k + 1)"
  proof -
    define e where "e = ?d - (k + 1)"
    have e: "e < n" and j: "(m + e) mod n = j" using d reach by (simp_all add: e_def)
    have "(j + n - m) mod n = e"
    proof (cases "m + e < n")
      case True
      with j have "j = m + e" by simp
      with e show ?thesis by simp
    next
      case False
      with mn e j have "j = m + e - n" by (auto simp: mod_if split: if_splits)
      with False mn e show ?thesis by simp
    qed
    then have "(j + n - m) mod n = ?d - (k + 1)" by (simp add: e_def)
    then show ?thesis by (simp add: cyc_dist_def)
  qed
  then show ?thesis using assms by (simp add: m_def)
qed

section \<open>Scanners: a position in a string as the suffix from there\<close>

lemma drop_ConsD:
  assumes "drop n xs = c # cs"
  shows "n < length xs \<and> xs ! n = c \<and> drop (Suc n) xs = cs"
proof -
  have n: "n < length xs" using assms by (metis drop_all leI list.distinct(1))
  with assms show ?thesis by (simp add: Cons_nth_drop_Suc [symmetric])
qed

lemma drop_NilD: "drop n xs = [] \<Longrightarrow> length xs \<le> n"
  by simp

lemma take_drop_prefix: "drop n xs = ys @ zs \<Longrightarrow> take (n + length ys) xs = take n xs @ ys"
  by (simp add: take_add)

lemma drop_drop_prefix: "drop n xs = ys @ zs \<Longrightarrow> drop (n + length ys) xs = zs"
  by (metis add.commute append_eq_conv_conj drop_drop)

end
