(* ===== verification/Go_Strings.thy ===== *)
theory Go_Strings
  imports Pinpoint_Prelude
begin

text \<open>
  The part of Go's \<^verbatim>\<open>strings\<close>, \<^verbatim>\<open>strconv\<close> and \<^verbatim>\<open>unicode/utf8\<close> packages that the agent's string code
  uses, over byte strings: decimal formatting and parsing, \<open>Index\<close>, \<open>Cut\<close>, \<open>HasPrefix\<close>, \<open>TrimSpace\<close> and
  rune boundaries. They are the language's standard library and stand in for it in the components; the
  agent's own helpers over them (\<^verbatim>\<open>objectname.go\<close>, \<^verbatim>\<open>agent.go\<close>) follow at the end.
\<close>

section \<open>Bytes\<close>

abbreviation byte_of :: "char \<Rightarrow> nat" where
  "byte_of \<equiv> of_char"

definition isDigit :: "char \<Rightarrow> bool" where
  "isDigit ch \<longleftrightarrow> 48 \<le> byte_of ch \<and> byte_of ch \<le> 57"

definition isLetter :: "char \<Rightarrow> bool" where
  "isLetter ch \<longleftrightarrow> (97 \<le> byte_of ch \<and> byte_of ch \<le> 122) \<or> (65 \<le> byte_of ch \<and> byte_of ch \<le> 90)"

definition digit_char :: "nat \<Rightarrow> char" where
  "digit_char d = char_of (48 + d)"

definition digit_val :: "char \<Rightarrow> nat" where
  "digit_val c = byte_of c - 48"

lemma byte_digit_char [simp]: "d < 10 \<Longrightarrow> byte_of (digit_char d) = 48 + d"
  by (simp add: digit_char_def)

lemma isDigit_digit_char [simp]: "d < 10 \<Longrightarrow> isDigit (digit_char d)"
  by (simp add: isDigit_def)

lemma digit_val_digit_char [simp]: "d < 10 \<Longrightarrow> digit_val (digit_char d) = d"
  by (simp add: digit_val_def)

section \<open>Decimal numbers: strconv\<close>

fun itoa_nat :: "nat \<Rightarrow> string" where
  "itoa_nat n = (if n < 10 then [digit_char n] else itoa_nat (n div 10) @ [digit_char (n mod 10)])"

declare itoa_nat.simps [simp del]

definition FormatInt :: "int \<Rightarrow> string" where
  "FormatInt n = (if n < 0 then CHR ''-'' # itoa_nat (nat (- n)) else itoa_nat (nat n))"

fun digits_val :: "nat \<Rightarrow> string \<Rightarrow> nat" where
  "digits_val acc [] = acc"
| "digits_val acc (c # cs) = digits_val (10 * acc + digit_val c) cs"

text \<open>
  \<open>strconv.ParseInt(s, 10, bitSize)\<close>: an optional sign, at least one digit and nothing else, and a value
  of the given width; every error is \<open>None\<close>.
\<close>

definition parse_sign :: "string \<Rightarrow> int \<times> string" where
  "parse_sign s = (case s of [] \<Rightarrow> (1, [])
     | c # cs \<Rightarrow> if c = CHR ''+'' then (1, cs) else if c = CHR ''-'' then (- 1, cs) else (1, s))"

definition ParseInt :: "nat \<Rightarrow> string \<Rightarrow> int option" where
  "ParseInt bits s =
     (let (sg, ds) = parse_sign s; v = sg * int (digits_val 0 ds)
      in if ds = [] \<or> \<not> list_all isDigit ds then None
         else if - (2 ^ (bits - 1)) \<le> v \<and> v < 2 ^ (bits - 1) then Some v else None)"

lemma itoa_nat_not_Nil [simp]: "itoa_nat n \<noteq> []"
  by (subst itoa_nat.simps) simp

lemma itoa_nat_digits: "list_all isDigit (itoa_nat n)"
proof (induction n rule: itoa_nat.induct)
  case (1 n)
  then show ?case by (subst itoa_nat.simps) simp
qed

lemma digits_val_append: "digits_val acc (xs @ ys) = digits_val (digits_val acc xs) ys"
  by (induction acc xs rule: digits_val.induct) auto

lemma digits_val_itoa: "digits_val 0 (itoa_nat n) = n"
proof (induction n rule: itoa_nat.induct)
  case (1 n)
  show ?case
  proof (cases "n < 10")
    case True
    then show ?thesis by (subst itoa_nat.simps) simp
  next
    case False
    with 1 have "digits_val 0 (itoa_nat (n div 10)) = n div 10" by simp
    with False show ?thesis by (subst itoa_nat.simps) (simp add: digits_val_append)
  qed
qed

lemma isDigit_not_sign: "isDigit c \<Longrightarrow> c \<noteq> CHR ''+'' \<and> c \<noteq> CHR ''-''"
  by (auto simp: isDigit_def)

lemma parse_sign_itoa: "parse_sign (itoa_nat n) = (1, itoa_nat n)"
proof -
  obtain c cs where c: "itoa_nat n = c # cs" by (cases "itoa_nat n") auto
  then have "isDigit c" using itoa_nat_digits [of n] by simp
  then show ?thesis by (auto simp: parse_sign_def c dest: isDigit_not_sign)
qed

lemma length_itoa: "n < 10 ^ k \<Longrightarrow> 0 < k \<Longrightarrow> length (itoa_nat n) \<le> k"
proof (induction n arbitrary: k rule: itoa_nat.induct)
  case (1 n)
  show ?case
  proof (cases "n < 10")
    case False
    then obtain j where k: "k = Suc j" "0 < j" using "1.prems" by (cases k; cases "k - 1") auto
    then have "n div 10 < 10 ^ j" using "1.prems"(1) by (simp add: less_mult_imp_div_less mult.commute)
    then show ?thesis using "1.IH" [OF False, of j] k False by (simp add: itoa_nat.simps [of n])
  qed (use "1.prems" in \<open>simp add: itoa_nat.simps [of n]\<close>)
qed

lemma ParseInt_FormatInt:
  assumes "- (2 ^ (bits - 1)) \<le> n" and "n < 2 ^ (bits - 1)"
  shows "ParseInt bits (FormatInt n) = Some n"
proof (cases "n < 0")
  case True
  then have "parse_sign (FormatInt n) = (- 1, itoa_nat (nat (- n)))"
    by (simp add: FormatInt_def parse_sign_def)
  with True assms show ?thesis by (simp add: ParseInt_def itoa_nat_digits digits_val_itoa)
next
  case False
  then show ?thesis
    using assms by (simp add: ParseInt_def FormatInt_def parse_sign_itoa itoa_nat_digits digits_val_itoa)
qed

lemma ParseInt_bounds:
  "ParseInt bits s = Some v \<Longrightarrow> - (2 ^ (bits - 1)) \<le> v \<and> v < 2 ^ (bits - 1)"
  by (auto simp: ParseInt_def Let_def split: prod.splits if_splits)

section \<open>strings.HasPrefix, Index and Cut\<close>

fun HasPrefix :: "string \<Rightarrow> string \<Rightarrow> bool" where
  "HasPrefix s [] = True"
| "HasPrefix [] (p # ps) = False"
| "HasPrefix (c # cs) (p # ps) = (c = p \<and> HasPrefix cs ps)"

lemma HasPrefix_iff: "HasPrefix s p \<longleftrightarrow> (\<exists>t. s = p @ t)"
  by (induction s p rule: HasPrefix.induct) auto

text \<open>The offset of the first occurrence of \<open>sep\<close>; Go's -1 is \<open>None\<close>.\<close>

fun Index :: "string \<Rightarrow> string \<Rightarrow> nat option" where
  "Index [] sep = (if sep = [] then Some 0 else None)"
| "Index (c # cs) sep =
     (if HasPrefix (c # cs) sep then Some 0 else map_option Suc (Index cs sep))"

lemma Index_Some:
  "Index s sep = Some i \<Longrightarrow> take (length sep) (drop i s) = sep \<and> i + length sep \<le> length s"
proof (induction s sep arbitrary: i rule: Index.induct)
  case (1 sep)
  then show ?case by (auto split: if_splits)
next
  case (2 c cs sep)
  show ?case
  proof (cases "HasPrefix (c # cs) sep")
    case True
    then obtain t where t: "c # cs = sep @ t" by (auto simp: HasPrefix_iff)
    then have "length sep \<le> length (c # cs)" by (metis le_add1 length_append)
    moreover have "i = 0" using True 2(2) by simp
    moreover have "take (length sep) (c # cs) = sep" by (simp add: t)
    ultimately show ?thesis by simp
  next
    case False
    with 2 show ?thesis by auto
  qed
qed

text \<open>\<open>strings.Cut(s, sep)\<close> for a one-byte separator.\<close>

fun Cut :: "char \<Rightarrow> string \<Rightarrow> string \<times> string \<times> bool" where
  "Cut sep [] = ([], [], False)"
| "Cut sep (c # cs) =
     (if c = sep then ([], cs, True)
      else let (before, after, found) = Cut sep cs in (c # before, after, found))"

lemma Cut_append: "sep \<notin> set xs \<Longrightarrow> Cut sep (xs @ sep # ys) = (xs, ys, True)"
  by (induction xs) auto

lemma Cut_none: "sep \<notin> set xs \<Longrightarrow> Cut sep xs = (xs, [], False)"
  by (induction xs) auto

lemma Cut_found: "Cut sep s = (a, b, True) \<Longrightarrow> s = a @ sep # b \<and> sep \<notin> set a"
  by (induction sep s arbitrary: a b rule: Cut.induct) (auto split: if_splits prod.splits)

section \<open>strings.ToLower, ToUpper and Split\<close>

text \<open>
  \<open>strings.ToLower\<close> and \<open>ToUpper\<close> as far as the agent compares their results, with ASCII names: the ASCII letters, and the
  characters beyond them whose lower or upper case is one (U+0130 and U+212A; U+0131 and U+017F). Other characters keep
  their bytes, where Go may give another character that is not ASCII either.
\<close>

definition to_lower :: "char \<Rightarrow> char" where
  "to_lower c = (if 65 \<le> byte_of c \<and> byte_of c \<le> 90 then char_of (byte_of c + 32) else c)"

definition to_upper :: "char \<Rightarrow> char" where
  "to_upper c = (if 97 \<le> byte_of c \<and> byte_of c \<le> 122 then char_of (byte_of c - 32) else c)"

function ToLower :: "string \<Rightarrow> string" where
  "ToLower s = (case s of [] \<Rightarrow> []
     | c # cs \<Rightarrow> if HasPrefix s [CHR 0xC4, CHR 0xB0] then CHR ''i'' # ToLower (drop 2 s)
         else if HasPrefix s [CHR 0xE2, CHR 0x84, CHR 0xAA] then CHR ''k'' # ToLower (drop 3 s)
         else to_lower c # ToLower cs)"
  by pat_completeness auto
termination
  by (relation "measure length") auto

function ToUpper :: "string \<Rightarrow> string" where
  "ToUpper s = (case s of [] \<Rightarrow> []
     | c # cs \<Rightarrow> if HasPrefix s [CHR 0xC4, CHR 0xB1] then CHR ''I'' # ToUpper (drop 2 s)
         else if HasPrefix s [CHR 0xC5, CHR 0xBF] then CHR ''S'' # ToUpper (drop 2 s)
         else to_upper c # ToUpper cs)"
  by pat_completeness auto
termination
  by (relation "measure length") auto

declare ToLower.simps [simp del] ToUpper.simps [simp del]

lemma case_Nil [simp]: "ToLower [] = []" "ToUpper [] = []"
  by (simp_all add: ToLower.simps [of "[]"] ToUpper.simps [of "[]"])

fun split_on :: "char \<Rightarrow> string \<Rightarrow> string list" where
  "split_on sep [] = [[]]"
| "split_on sep (c # cs) =
     (if c = sep then [] # split_on sep cs
      else case split_on sep cs of t # ts \<Rightarrow> (c # t) # ts | [] \<Rightarrow> [[c]])"

section \<open>strings.TrimSpace\<close>

text \<open>
  The encodings of the runes \<open>unicode.IsSpace\<close> accepts: the six ASCII ones, U+0085 and U+00A0, and the
  space separators and line and paragraph separators beyond Latin-1.
\<close>

definition space_encodings :: "string list" where
  "space_encodings =
     [[CHR 0x09], [CHR 0x0A], [CHR 0x0B], [CHR 0x0C], [CHR 0x0D], [CHR 0x20], [CHR 0xC2, CHR 0x85], [CHR 0xC2, CHR 0xA0],
      [CHR 0xE1, CHR 0x9A, CHR 0x80]]
     @ map (\<lambda>b. [CHR 0xE2, CHR 0x80, b]) [CHR 0x80, CHR 0x81, CHR 0x82, CHR 0x83, CHR 0x84, CHR 0x85, CHR 0x86, CHR 0x87,
         CHR 0x88, CHR 0x89, CHR 0x8A, CHR 0xA8, CHR 0xA9, CHR 0xAF]
     @ [[CHR 0xE2, CHR 0x81, CHR 0x9F], [CHR 0xE3, CHR 0x80, CHR 0x80]]"

definition leading_space :: "string \<Rightarrow> string option" where
  "leading_space s = find (HasPrefix s) space_encodings"

lemma space_encodings_not_Nil: "[] \<notin> set space_encodings"
  by (auto simp: space_encodings_def)

lemma leading_space_Some:
  assumes "leading_space s = Some e"
  shows "HasPrefix s e" and "e \<in> set space_encodings" and "e \<noteq> []"
  using assms space_encodings_not_Nil by (auto simp: leading_space_def find_Some_iff in_set_conv_nth)

function TrimLeftSpace :: "string \<Rightarrow> string" where
  "TrimLeftSpace s = (case leading_space s of None \<Rightarrow> s | Some e \<Rightarrow> TrimLeftSpace (drop (length e) s))"
  by pat_completeness auto
termination
proof (relation "measure length", simp)
  fix s e assume "leading_space s = Some e"
  from leading_space_Some [OF this] show "(drop (length e) s, s) \<in> measure length"
    by (auto simp: HasPrefix_iff)
qed

declare TrimLeftSpace.simps [simp del]

definition trailing_space :: "string \<Rightarrow> string option" where
  "trailing_space s = find (\<lambda>e. HasPrefix (rev s) (rev e)) space_encodings"

function TrimRightSpace :: "string \<Rightarrow> string" where
  "TrimRightSpace s =
     (case trailing_space s of None \<Rightarrow> s | Some e \<Rightarrow> TrimRightSpace (take (length s - length e) s))"
  by pat_completeness auto
termination
proof (relation "measure length", simp)
  fix s e assume "trailing_space s = Some e"
  then have "HasPrefix (rev s) (rev e)" and "e \<noteq> []"
    using space_encodings_not_Nil by (auto simp: trailing_space_def find_Some_iff in_set_conv_nth)
  then have "0 < length e" and "length e \<le> length s"
    by (auto simp: HasPrefix_iff dest: arg_cong [of _ _ length])
  then have "0 < length e \<and> length e \<le> length s" by simp
  then have "length s - length e < length s" by linarith
  then show "(take (length s - length e) s, s) \<in> measure length" by simp
qed

declare TrimRightSpace.simps [simp del]

definition TrimSpace :: "string \<Rightarrow> string" where
  "TrimSpace s = TrimRightSpace (TrimLeftSpace s)"

definition graphic :: "char \<Rightarrow> bool" where
  "graphic c \<longleftrightarrow> 0x21 \<le> byte_of c \<and> byte_of c \<le> 0x7E"

lemma space_encodings_graphic: "e \<in> set space_encodings \<Longrightarrow> \<not> graphic (hd e) \<and> \<not> graphic (last e)"
  by (auto simp: space_encodings_def graphic_def)

lemma TrimLeftSpace_graphic: "s \<noteq> [] \<Longrightarrow> graphic (hd s) \<Longrightarrow> TrimLeftSpace s = s"
proof -
  assume s: "s \<noteq> []" "graphic (hd s)"
  have "\<not> HasPrefix s e" if "e \<in> set space_encodings" for e
    using s that space_encodings_graphic [OF that] space_encodings_not_Nil by (cases e) (auto simp: HasPrefix_iff)
  then have "leading_space s = None" by (auto simp: leading_space_def find_None_iff)
  then show ?thesis by (simp add: TrimLeftSpace.simps [of s])
qed

lemma TrimRightSpace_graphic: "s \<noteq> [] \<Longrightarrow> graphic (last s) \<Longrightarrow> TrimRightSpace s = s"
proof -
  assume s: "s \<noteq> []" "graphic (last s)"
  have "\<not> HasPrefix (rev s) (rev e)" if e: "e \<in> set space_encodings" for e
  proof
    assume "HasPrefix (rev s) (rev e)"
    then obtain t where "rev s = rev e @ t" by (auto simp: HasPrefix_iff)
    then have "s = rev t @ e" by (metis rev_append rev_rev_ident)
    moreover have "e \<noteq> []" using e space_encodings_not_Nil by auto
    ultimately show False using s space_encodings_graphic [OF e] by simp
  qed
  then have "trailing_space s = None" by (auto simp: trailing_space_def find_None_iff)
  then show ?thesis by (simp add: TrimRightSpace.simps [of s])
qed

lemma TrimSpace_graphic: "s \<noteq> [] \<Longrightarrow> graphic (hd s) \<Longrightarrow> graphic (last s) \<Longrightarrow> TrimSpace s = s"
  by (simp add: TrimSpace_def TrimLeftSpace_graphic TrimRightSpace_graphic)

lemma TrimSpace_spaces:
  "TrimSpace [] = []" "TrimSpace (CHR '' '' # s) = TrimSpace s" "graphic c \<Longrightarrow> TrimRightSpace (c # s @ '' '') = TrimRightSpace (c # s)"
proof -
  show "TrimSpace [] = []"
    by (simp add: TrimSpace_def TrimLeftSpace.simps [of "[]"] TrimRightSpace.simps [of "[]"] leading_space_def trailing_space_def
        space_encodings_def)
  have "leading_space (CHR '' '' # s) = Some '' ''" by (simp add: leading_space_def space_encodings_def)
  then show "TrimSpace (CHR '' '' # s) = TrimSpace s" by (simp add: TrimSpace_def TrimLeftSpace.simps [of "CHR '' '' # s"])
  have "trailing_space (c # s @ '' '') = Some '' ''" by (simp add: trailing_space_def space_encodings_def)
  then show "TrimRightSpace (c # s @ '' '') = TrimRightSpace (c # s)" by (simp add: TrimRightSpace.simps [of "c # s @ '' ''"])
qed

section \<open>Ids and printable text (objectname.go)\<close>

definition is_id_char :: "char \<Rightarrow> bool" where
  "is_id_char c \<longleftrightarrow> isLetter c \<or> isDigit c \<or> c = CHR ''.'' \<or> c = CHR ''-'' \<or> c = CHR ''_''"

fun isIDChars :: "string \<Rightarrow> bool" where
  "isIDChars [] = True"
| "isIDChars (c # cs) = (if is_id_char c then isIDChars cs else False)"

fun isPrintableASCII :: "string \<Rightarrow> bool" where
  "isPrintableASCII [] = True"
| "isPrintableASCII (c # cs) = (if byte_of c < 0x20 \<or> byte_of c > 0x7E then False else isPrintableASCII cs)"

definition IsValidId :: "string \<Rightarrow> nat \<Rightarrow> bool" where
  "IsValidId value maxLen = (if length value = 0 \<or> length value > maxLen then False else isIDChars value)"

lemma isIDChars_iff: "isIDChars s \<longleftrightarrow> list_all is_id_char s"
  by (induction s) auto

lemma isPrintableASCII_iff: "isPrintableASCII s \<longleftrightarrow> list_all (\<lambda>c. 0x20 \<le> byte_of c \<and> byte_of c \<le> 0x7E) s"
  by (induction s) auto

lemma isIDChars_append [simp]: "isIDChars (s @ t) \<longleftrightarrow> isIDChars s \<and> isIDChars t"
  by (simp add: isIDChars_iff)

lemma id_char_printable: "is_id_char c \<Longrightarrow> 0x20 \<le> byte_of c \<and> byte_of c \<le> 0x7E"
  by (auto simp: is_id_char_def isLetter_def isDigit_def)

lemma isIDChars_printable: "isIDChars s \<Longrightarrow> isPrintableASCII s"
  by (auto simp: isIDChars_iff isPrintableASCII_iff list_all_iff dest: id_char_printable)

lemma isIDChars_itoa: "isIDChars (itoa_nat n)"
  using itoa_nat_digits [of n] by (auto simp: isIDChars_iff list_all_iff is_id_char_def)

section \<open>Cutting at a rune boundary (agent.go)\<close>

text \<open>\<open>utf8.RuneStart\<close>: every byte but a continuation byte.\<close>

definition RuneStart :: "char \<Rightarrow> bool" where
  "RuneStart c \<longleftrightarrow> \<not> (0x80 \<le> byte_of c \<and> byte_of c \<le> 0xBF)"

fun rune_cut :: "string \<Rightarrow> nat \<Rightarrow> nat" where
  "rune_cut str 0 = 0"
| "rune_cut str (Suc n) = (if \<not> RuneStart (str ! Suc n) then rune_cut str n else Suc n)"

definition abbreviateString :: "string \<Rightarrow> nat \<Rightarrow> string" where
  "abbreviateString str len =
     (if length str \<le> len then str
      else take (rune_cut str len) str @ ''...('' @ FormatInt (int (length str)) @ '')'')"

lemma rune_cut_le: "rune_cut str n \<le> n"
  by (induction n) auto

lemma rune_cut_boundary: "rune_cut str n = 0 \<or> RuneStart (str ! rune_cut str n)"
  by (induction n) auto

lemma rune_cut_maximal: "rune_cut str n < k \<Longrightarrow> k \<le> n \<Longrightarrow> \<not> RuneStart (str ! k)"
  by (induction n) (auto simp: le_Suc_eq split: if_splits)

end
