(* ===== verification/Trace_Context.thy ===== *)
theory Trace_Context
  imports Go_Strings
begin

text \<open>
  The distributed trace context: transaction ids (\<^verbatim>\<open>src/tracer.go\<close>), the header carriers of \<^verbatim>\<open>net/http\<close>, and
  the reading of the inbound headers (\<^verbatim>\<open>src/span.go\<close>: \<open>splitTransactionId\<close>, \<open>sameClusterNamespace\<close>,
  \<open>continueHeaders\<close>). A reader is the function its \<open>Get\<close> computes, \<open>None\<close> for an absent header; int64 values
  are 64-bit words.
\<close>

section \<open>Transaction ids\<close>

record TransactionId =
  AgentId :: string
  StartTime :: go_int64
  Sequence :: go_int64

definition FormatInt64 :: "go_int64 \<Rightarrow> string" where
  "FormatInt64 w = FormatInt (sint w)"

definition ParseInt64 :: "string \<Rightarrow> go_int64 option" where
  "ParseInt64 s = map_option word_of_int (ParseInt 64 s)"

definition TransactionId_String :: "TransactionId \<Rightarrow> string" where
  "TransactionId_String tid =
     AgentId tid @ ''^'' @ FormatInt64 (StartTime tid) @ ''^'' @ FormatInt64 (Sequence tid)"

definition splitTransactionId :: "string \<Rightarrow> TransactionId option" where
  "splitTransactionId tid =
     (let (agentId, rest, ok) = Cut CHR ''^'' tid
      in if \<not> ok \<or> agentId = [] \<or> \<not> isIDChars agentId then None
         else let (start, sq, ok) = Cut CHR ''^'' rest
              in if \<not> ok then None
                 else case ParseInt64 start of None \<Rightarrow> None
                 | Some startTime \<Rightarrow>
                     (case ParseInt64 (fst (Cut CHR ''^'' sq)) of None \<Rightarrow> None
                      | Some sequence \<Rightarrow> Some \<lparr>AgentId = agentId, StartTime = startTime, Sequence = sequence\<rparr>))"

lemma FormatInt_chars: "c \<in> set (FormatInt n) \<Longrightarrow> isDigit c \<or> c = CHR ''-''"
  using itoa_nat_digits by (auto simp: FormatInt_def list_all_iff split: if_splits)

lemma caret_not_FormatInt: "CHR ''^'' \<notin> set (FormatInt64 w)"
  by (auto simp: FormatInt64_def isDigit_def dest!: FormatInt_chars)

lemma ParseInt64_FormatInt64 [simp]: "ParseInt64 (FormatInt64 w) = Some w"
  using sint_ge [of w] sint_lt [of w] by (simp add: ParseInt64_def FormatInt64_def ParseInt_FormatInt)

lemma caret_not_id: "isIDChars s \<Longrightarrow> CHR ''^'' \<notin> set s"
  by (auto simp: isIDChars_iff list_all_iff is_id_char_def isLetter_def isDigit_def)

lemma split_String:
  assumes "AgentId tid \<noteq> []" and "isIDChars (AgentId tid)"
  shows "splitTransactionId (TransactionId_String tid) = Some tid"
  using assms caret_not_id [OF assms(2)]
  by (simp add: splitTransactionId_def TransactionId_String_def Cut_append Cut_none caret_not_FormatInt)

lemma split_AgentId: "splitTransactionId s = Some tid \<Longrightarrow> AgentId tid \<noteq> [] \<and> isIDChars (AgentId tid)"
  by (auto simp: splitTransactionId_def Let_def split: prod.splits if_splits option.splits)

section \<open>Header names and the net/http carriers\<close>

definition HeaderTraceId :: string where "HeaderTraceId = ''Pinpoint-TraceID''"
definition HeaderSpanId :: string where "HeaderSpanId = ''Pinpoint-SpanID''"
definition HeaderParentSpanId :: string where "HeaderParentSpanId = ''Pinpoint-pSpanID''"
definition HeaderSampled :: string where "HeaderSampled = ''Pinpoint-Sampled''"
definition HeaderFlags :: string where "HeaderFlags = ''Pinpoint-Flags''"
definition HeaderParentApplicationName :: string where "HeaderParentApplicationName = ''Pinpoint-pAppName''"
definition HeaderParentApplicationType :: string where "HeaderParentApplicationType = ''Pinpoint-pAppType''"
definition HeaderParentApplicationNamespace :: string where
  "HeaderParentApplicationNamespace = ''Pinpoint-pAppNamespace''"
definition HeaderParentServiceName :: string where "HeaderParentServiceName = ''Pinpoint-pServiceName''"
definition HeaderHost :: string where "HeaderHost = ''Pinpoint-Host''"

lemmas header_defs = HeaderTraceId_def HeaderSpanId_def HeaderParentSpanId_def HeaderSampled_def HeaderFlags_def
  HeaderParentApplicationName_def HeaderParentApplicationType_def HeaderParentApplicationNamespace_def
  HeaderParentServiceName_def HeaderHost_def

definition injectedHeaders :: "string list" where
  "injectedHeaders = [HeaderTraceId, HeaderSpanId, HeaderParentSpanId, HeaderSampled, HeaderFlags,
     HeaderParentApplicationName, HeaderParentApplicationType, HeaderParentApplicationNamespace,
     HeaderParentServiceName, HeaderHost]"

text \<open>
  \<^verbatim>\<open>textproto.CanonicalMIMEHeaderKey\<close>: a name of header field bytes only has the first letter and every letter
  after a hyphen raised and the others lowered; any other name is left alone.
\<close>

definition validHeaderFieldByte :: "char \<Rightarrow> bool" where
  "validHeaderFieldByte c \<longleftrightarrow> isLetter c \<or> isDigit c \<or> byte_of c \<in> {33, 35, 36, 37, 38, 39, 42, 43, 45, 46, 94, 95, 96, 124, 126}"

definition raise_letter :: "char \<Rightarrow> char" where
  "raise_letter c = (if 97 \<le> byte_of c \<and> byte_of c \<le> 122 then char_of (byte_of c - 32) else c)"

definition lower_letter :: "char \<Rightarrow> char" where
  "lower_letter c = (if 65 \<le> byte_of c \<and> byte_of c \<le> 90 then char_of (byte_of c + 32) else c)"

fun canonical_letters :: "bool \<Rightarrow> string \<Rightarrow> string" where
  "canonical_letters upper [] = []"
| "canonical_letters upper (c # cs) =
     (let c' = (if upper then raise_letter c else lower_letter c) in c' # canonical_letters (c' = CHR ''-'') cs)"

definition CanonicalMIMEHeaderKey :: "string \<Rightarrow> string" where
  "CanonicalMIMEHeaderKey s = (if list_all validHeaderFieldByte s then canonical_letters True s else s)"

definition canonicalHeaderKeys :: "string \<rightharpoonup> string" where
  "canonicalHeaderKeys = map_of (map (\<lambda>k. (k, CanonicalMIMEHeaderKey k)) injectedHeaders)"

definition canonicalHeaderKey :: "string \<Rightarrow> string" where
  "canonicalHeaderKey key =
     (case canonicalHeaderKeys key of Some c \<Rightarrow> c | None \<Rightarrow> CanonicalMIMEHeaderKey key)"

type_synonym http_header = "string \<rightharpoonup> string list"
type_synonym reader = "string \<Rightarrow> string option"

definition httpHeaderReader_Get :: "http_header \<Rightarrow> reader" where
  "httpHeaderReader_Get r key =
     (case r (canonicalHeaderKey key) of Some (v # vs) \<Rightarrow> Some v | _ \<Rightarrow> None)"

text \<open>
  A writer owns eight value cells; \<open>Set\<close> hands out a fresh one-element slice of them and, when they are
  used up, a slice of its own, so no value slice is ever shared. \<open>None\<close> is a nil header map.
\<close>

record httpHeaderWriter =
  header_map :: "http_header option"
  used :: nat

definition HttpHeaderWriter :: "http_header option \<Rightarrow> httpHeaderWriter" where
  "HttpHeaderWriter m = \<lparr>header_map = m, used = 0\<rparr>"

definition httpHeaderWriter_Set :: "string \<Rightarrow> string \<Rightarrow> httpHeaderWriter \<Rightarrow> httpHeaderWriter" where
  "httpHeaderWriter_Set key value w =
     (case header_map w of None \<Rightarrow> w
      | Some m \<Rightarrow>
          if used w < 8 then w\<lparr>header_map := Some (m(canonicalHeaderKey key \<mapsto> [value])), used := used w + 1\<rparr>
          else w\<lparr>header_map := Some (m(canonicalHeaderKey key \<mapsto> [value]))\<rparr>)"

lemma canonicalHeaderKey_eq: "canonicalHeaderKey key = CanonicalMIMEHeaderKey key"
  by (auto simp: canonicalHeaderKey_def canonicalHeaderKeys_def split: option.splits dest: map_of_SomeD)

lemma canonical_headers_distinct: "distinct (map CanonicalMIMEHeaderKey injectedHeaders)"
  by code_simp

lemma canonical_header_inj:
  "a \<in> set injectedHeaders \<Longrightarrow> b \<in> set injectedHeaders \<Longrightarrow>
   canonicalHeaderKey a = canonicalHeaderKey b \<longleftrightarrow> a = b"
  using canonical_headers_distinct by (auto simp: canonicalHeaderKey_eq distinct_map inj_on_def)

lemma httpHeaderWriter_Set_h:
  "header_map (httpHeaderWriter_Set k v w) = map_option (\<lambda>m. m(canonicalHeaderKey k \<mapsto> [v])) (header_map w)"
  by (simp add: httpHeaderWriter_Set_def split: option.splits)

section \<open>Carriers as an interface\<close>

text \<open>
  What \<open>Inject\<close> and the reading of the headers rely on: a carrier to which a list of assignments is written
  returns, for a Pinpoint header, the last value written and else what it held.
\<close>

locale carrier =
  fixes put :: "string \<Rightarrow> string \<Rightarrow> 'c \<Rightarrow> 'c"
    and look :: "'c \<Rightarrow> string \<Rightarrow> string option"
    and ok :: "'c \<Rightarrow> bool"
  assumes ok_put: "ok c \<Longrightarrow> ok (put k v c)"
    and look_put: "ok c \<Longrightarrow> k \<in> set injectedHeaders \<Longrightarrow> k' \<in> set injectedHeaders \<Longrightarrow>
      look (put k v c) k' = (if k' = k then Some v else look c k')"
begin

definition put_all :: "(string \<times> string) list \<Rightarrow> 'c \<Rightarrow> 'c" where
  "put_all kvs c = fold (\<lambda>(k, v). put k v) kvs c"

lemma ok_put_all: "ok c \<Longrightarrow> ok (put_all kvs c)"
  unfolding put_all_def by (induction kvs arbitrary: c) (auto simp: ok_put split: prod.splits)

lemma look_put_all:
  "ok c \<Longrightarrow> fst ` set kvs \<subseteq> set injectedHeaders \<Longrightarrow> k \<in> set injectedHeaders \<Longrightarrow> distinct (map fst kvs) \<Longrightarrow>
   look (put_all kvs c) k = (case map_of kvs k of Some v \<Rightarrow> Some v | None \<Rightarrow> look c k)"
proof (induction kvs arbitrary: c)
  case Nil
  then show ?case by (simp add: put_all_def)
next
  case (Cons kv kvs)
  obtain a b where kv: "kv = (a, b)" by (cases kv)
  have "look (put_all (kv # kvs) c) k = look (put_all kvs (put a b c)) k" by (simp add: put_all_def kv)
  also have "\<dots> = (case map_of kvs k of Some v \<Rightarrow> Some v | None \<Rightarrow> look (put a b c) k)"
    using Cons by (auto simp: ok_put)
  also have "look (put a b c) k = (if k = a then Some b else look c k)"
    using Cons.prems kv look_put by simp
  finally have step: "look (put_all (kv # kvs) c) k =
      (case map_of kvs k of Some v \<Rightarrow> Some v | None \<Rightarrow> if k = a then Some b else look c k)" .
  have "map_of kvs a = None" using Cons.prems(4) by (simp add: kv map_of_eq_None_iff)
  with step show ?case by (simp add: kv)
qed

end

definition http_look :: "httpHeaderWriter \<Rightarrow> reader" where
  "http_look w = httpHeaderReader_Get (case header_map w of None \<Rightarrow> Map.empty | Some m \<Rightarrow> m)"

interpretation http: carrier httpHeaderWriter_Set http_look "\<lambda>w. header_map w \<noteq> None"
proof
  fix c :: httpHeaderWriter and k v k' :: string
  show "header_map c \<noteq> None \<Longrightarrow> header_map (httpHeaderWriter_Set k v c) \<noteq> None" by (auto simp: httpHeaderWriter_Set_h)
  assume "header_map c \<noteq> None" and "k \<in> set injectedHeaders" "k' \<in> set injectedHeaders"
  then show "http_look (httpHeaderWriter_Set k v c) k' = (if k' = k then Some v else http_look c k')"
    using canonical_header_inj [of k' k] by (auto simp: http_look_def httpHeaderReader_Get_def httpHeaderWriter_Set_h)
qed

section \<open>Reading the inbound headers\<close>

record inboundTrace =
  tid :: string
  in_spanId :: string
  in_parentSpanId :: string
  txId :: TransactionId
  continued :: bool

definition zero_txId :: TransactionId where
  "zero_txId = \<lparr>AgentId = [], StartTime = 0, Sequence = 0\<rparr>"

definition sameClusterNamespace :: "string \<Rightarrow> reader \<Rightarrow> bool" where
  "sameClusterNamespace mine Get =
     (if mine = [] then True
      else case Get HeaderParentApplicationNamespace of None \<Rightarrow> True | Some parent \<Rightarrow> parent = mine)"

text \<open>The value part of \<open>v, _ = reader.Get(k)\<close>.\<close>

definition get_value :: "reader \<Rightarrow> string \<Rightarrow> string" where
  "get_value Get k = (case Get k of None \<Rightarrow> [] | Some v \<Rightarrow> v)"

definition continueHeaders :: "reader \<Rightarrow> string \<Rightarrow> inboundTrace" where
  "continueHeaders Get clusterNamespace =
     (let inb = \<lparr>tid = get_value Get HeaderTraceId, in_spanId = [], in_parentSpanId = [], txId = zero_txId, continued = False\<rparr>
      in case splitTransactionId (tid inb) of None \<Rightarrow> inb
         | Some t \<Rightarrow>
           let inb = inb\<lparr>in_spanId := get_value Get HeaderSpanId\<rparr>
           in if Get HeaderSpanId = None then inb
              else let inb = inb\<lparr>in_parentSpanId := get_value Get HeaderParentSpanId\<rparr>
                   in if Get HeaderParentSpanId = None then inb
                      else if \<not> sameClusterNamespace clusterNamespace Get then inb
                      else inb\<lparr>txId := t, continued := True\<rparr>)"

definition IsInjected :: "reader \<Rightarrow> bool" where
  "IsInjected Get = (if Get HeaderTraceId \<noteq> None then True else Get HeaderSampled \<noteq> None)"

lemma continueHeaders_continued:
  "continued (continueHeaders Get ns) \<longleftrightarrow>
     splitTransactionId (get_value Get HeaderTraceId) \<noteq> None \<and> Get HeaderSpanId \<noteq> None
     \<and> Get HeaderParentSpanId \<noteq> None \<and> sameClusterNamespace ns Get"
  by (auto simp: continueHeaders_def Let_def split: option.splits)

lemma continueHeaders_fields:
  assumes "continued (continueHeaders Get ns)"
  shows "splitTransactionId (get_value Get HeaderTraceId) = Some (txId (continueHeaders Get ns))"
    and "in_spanId (continueHeaders Get ns) = get_value Get HeaderSpanId"
    and "in_parentSpanId (continueHeaders Get ns) = get_value Get HeaderParentSpanId"
  using assms by (auto simp: continueHeaders_def Let_def split: option.splits if_splits)

end
