(* ===== verification/Error_Rules.thy ===== *)
theory Error_Rules
  imports Go_Strings
begin

unbundle bit_operations_syntax

text \<open>
  Which errors fail a transaction: the error value as the agent can inspect it (\<^verbatim>\<open>src/errors.go\<close>), the
  \<open>Span.IgnoreErrors\<close> rules and the \<open>Span.ErrorMark\<close> mask (\<^verbatim>\<open>src/config.go\<close>). The methods of a user's error
  type are the fields of \<open>error_env\<close>, parameters of everything below: nothing is assumed of them, so a cause
  chain may be cyclic.
\<close>

section \<open>Inspecting an error\<close>

record 'e error_env =
  nil_pointer :: "'e \<Rightarrow> bool"
  error_text :: "'e \<Rightarrow> string"
  type_string :: "'e \<Rightarrow> string"
  type_name :: "'e \<Rightarrow> string"
  cause_method :: "'e \<Rightarrow> 'e option option"
  unwrap_method :: "'e \<Rightarrow> 'e option"
  join_method :: "'e \<Rightarrow> 'e option list option"
  own_stack :: "'e \<Rightarrow> nat list option"
  same_type :: "'e \<Rightarrow> 'e \<Rightarrow> bool"
  compare_values :: "'e \<Rightarrow> 'e \<Rightarrow> bool option"

definition errorMessage :: "'e error_env \<Rightarrow> 'e \<Rightarrow> string" where
  "errorMessage E err = (if nil_pointer E err then ''<nil>'' else error_text E err)"

definition unwrapCause :: "'e error_env \<Rightarrow> 'e \<Rightarrow> 'e option" where
  "unwrapCause E err =
     (case cause_method E err of Some c \<Rightarrow> c
      | None \<Rightarrow>
         (case unwrap_method E err of Some c \<Rightarrow> Some c
          | None \<Rightarrow> (case join_method E err of Some (e # es) \<Rightarrow> e | _ \<Rightarrow> None)))"

definition nextCause :: "'e error_env \<Rightarrow> 'e \<Rightarrow> 'e option" where
  "nextCause E err =
     (if nil_pointer E err then None
      else case unwrapCause E err of None \<Rightarrow> None
           | Some cause \<Rightarrow> if nil_pointer E cause then None else Some cause)"

definition errorCallStack :: "'e error_env \<Rightarrow> 'e \<Rightarrow> nat list option" where
  "errorCallStack E err = (if nil_pointer E err then None else own_stack E err)"

text \<open>\<open>compare_values\<close> is \<open>None\<close> where Go's \<open>==\<close> panics, which the deferred recover turns into false.\<close>

definition sameError :: "'e error_env \<Rightarrow> 'e \<Rightarrow> 'e \<Rightarrow> bool" where
  "sameError E a b =
     (if \<not> same_type E a b then False
      else case compare_values E a b of None \<Rightarrow> False | Some same \<Rightarrow> same)"

definition errorNameOf :: "'e error_env \<Rightarrow> 'e \<Rightarrow> string list \<Rightarrow> string" where
  "errorNameOf E e errorName = (case errorName of n # _ \<Rightarrow> n | [] \<Rightarrow> type_name E e)"

section \<open>Error categories\<close>

type_synonym ErrorCategory = go_int32

definition ErrorCategoryUnknown :: ErrorCategory where "ErrorCategoryUnknown = push_bit 0 1"
definition ErrorCategoryException :: ErrorCategory where "ErrorCategoryException = push_bit 1 1"
definition ErrorCategoryHttpStatus :: ErrorCategory where "ErrorCategoryHttpStatus = push_bit 2 1"
definition ErrorCategorySql :: ErrorCategory where "ErrorCategorySql = push_bit 3 1"

lemmas category_defs = ErrorCategoryUnknown_def ErrorCategoryException_def ErrorCategoryHttpStatus_def
  ErrorCategorySql_def

definition allErrorCategories :: ErrorCategory where
  "allErrorCategories =
     ErrorCategoryUnknown OR ErrorCategoryException OR ErrorCategoryHttpStatus OR ErrorCategorySql"

definition firstErrorCategory :: "ErrorCategory list \<Rightarrow> ErrorCategory" where
  "firstErrorCategory category = (case category of c # _ \<Rightarrow> c | [] \<Rightarrow> ErrorCategoryUnknown)"

definition errorCategoryBit :: "string \<Rightarrow> ErrorCategory" where
  "errorCategoryBit token =
     (let t = ToLower token
      in if t = ''exception'' then ErrorCategoryException
         else if t = ''http-status'' then ErrorCategoryHttpStatus
         else if t = ''sql'' then ErrorCategorySql
         else 0)"

fun mask_tokens :: "string list \<Rightarrow> ErrorCategory \<Rightarrow> ErrorCategory" where
  "mask_tokens [] m = m"
| "mask_tokens (tok # toks) m =
     (let token = TrimSpace tok
      in if token = [] then mask_tokens toks m
         else let b = errorCategoryBit token
              in if b \<noteq> 0 then mask_tokens toks (m OR b) else mask_tokens toks m)"

fun toErrorCategoryMask_from :: "string list \<Rightarrow> ErrorCategory \<Rightarrow> ErrorCategory" where
  "toErrorCategoryMask_from [] m = m"
| "toErrorCategoryMask_from (entry # entries) m =
     toErrorCategoryMask_from entries (mask_tokens (split_on CHR '','' entry) m)"

definition toErrorCategoryMask :: "string list \<Rightarrow> ErrorCategory" where
  "toErrorCategoryMask entries = toErrorCategoryMask_from entries 0"

definition parseErrorMarkMask :: "string list \<Rightarrow> string list \<Rightarrow> ErrorCategory" where
  "parseErrorMarkMask mark exclude =
     (let marked = (if length mark > 0 then toErrorCategoryMask mark else allErrorCategories);
          excluded = toErrorCategoryMask exclude
      in (marked AND NOT excluded) OR ErrorCategoryUnknown)"

definition marksError :: "ErrorCategory \<Rightarrow> ErrorCategory \<Rightarrow> bool" where
  "marksError errorMarkMask category =
     (if errorMarkMask = 0 then True else errorMarkMask AND category \<noteq> 0)"

section \<open>Span.IgnoreErrors\<close>

record ignoreErrorRule =
  typeName :: string
  messageContains :: string

fun parseIgnoreErrorRules :: "string list \<Rightarrow> ignoreErrorRule list" where
  "parseIgnoreErrorRules [] = []"
| "parseIgnoreErrorRules (e # es) =
     (let (typ, msg, found) = Cut CHR '':'' e; typ = TrimSpace typ; msg = TrimSpace msg
      in if typ = [] \<and> msg = [] then parseIgnoreErrorRules es
         else \<lparr>typeName = typ, messageContains = msg\<rparr> # parseIgnoreErrorRules es)"

definition maxCauserDepth :: nat where "maxCauserDepth = 64"

definition rule_matches :: "'e error_env \<Rightarrow> string \<Rightarrow> 'e \<Rightarrow> ignoreErrorRule \<Rightarrow> bool" where
  "rule_matches E errName e r \<longleftrightarrow>
     \<not> (typeName r \<noteq> [] \<and> typeName r \<noteq> errName \<and> typeName r \<noteq> type_string E e)
     \<and> \<not> (messageContains r \<noteq> [] \<and> Index (errorMessage E e) (messageContains r) = None)"

fun ignore_walk :: "'e error_env \<Rightarrow> ignoreErrorRule list \<Rightarrow> string \<Rightarrow> nat \<Rightarrow> 'e option \<Rightarrow> bool" where
  "ignore_walk E rules errName 0 e = False"
| "ignore_walk E rules errName (Suc k) None = False"
| "ignore_walk E rules errName (Suc k) (Some e) =
     (if list_ex (rule_matches E errName e) rules then True
      else ignore_walk E rules errName k (nextCause E e))"

definition ignoreError :: "'e error_env \<Rightarrow> ignoreErrorRule list \<Rightarrow> 'e \<Rightarrow> string \<Rightarrow> bool" where
  "ignoreError E rules err errName =
     (if rules = [] then False else ignore_walk E rules errName maxCauserDepth (Some err))"

text \<open>The \<open>k\<close>-th error of the chain below \<open>e\<close>.\<close>

fun cause_at :: "'e error_env \<Rightarrow> nat \<Rightarrow> 'e \<Rightarrow> 'e option" where
  "cause_at E 0 e = Some e"
| "cause_at E (Suc k) e = (case nextCause E e of None \<Rightarrow> None | Some c \<Rightarrow> cause_at E k c)"

lemma ignore_walk_iff:
  "ignore_walk E rules errName k (Some e) \<longleftrightarrow>
     (\<exists>i < k. \<exists>c. cause_at E i e = Some c \<and> list_ex (rule_matches E errName c) rules)"
proof (induction k arbitrary: e)
  case (Suc k)
  have none: "ignore_walk E rules errName k None = False" by (cases k) auto
  show ?case
    by (cases "nextCause E e") (simp_all add: Suc none Ex_less_Suc2)
qed simp

lemma ignore_walk_step:
  "ignore_walk E rules errName (Suc k) (Some e) \<longleftrightarrow>
     list_ex (rule_matches E errName e) rules
     \<or> (\<exists>c. nextCause E e = Some c \<and> ignore_walk E rules errName k (Some c))"
  by (cases k; cases "nextCause E e") auto

lemma errorCategoryBit_Nil [simp]: "errorCategoryBit [] = 0"
  by (simp add: errorCategoryBit_def)

text \<open>The categories a list of entries names.\<close>

definition names_category :: "string list \<Rightarrow> nat \<Rightarrow> bool" where
  "names_category entries n \<longleftrightarrow>
     list_ex (\<lambda>entry. list_ex (\<lambda>tok. bit (errorCategoryBit (TrimSpace tok)) n) (split_on CHR '','' entry)) entries"

lemma bit_mask_tokens:
  "bit (mask_tokens toks m) n \<longleftrightarrow> bit m n \<or> list_ex (\<lambda>tok. bit (errorCategoryBit (TrimSpace tok)) n) toks"
  by (induction toks arbitrary: m) (auto simp: Let_def bit_or_iff)

lemma bit_toErrorCategoryMask_from:
  "bit (toErrorCategoryMask_from entries m) n \<longleftrightarrow> bit m n \<or> names_category entries n"
  by (induction entries arbitrary: m) (auto simp: names_category_def bit_mask_tokens)

lemma bit_toErrorCategoryMask: "bit (toErrorCategoryMask entries) n \<longleftrightarrow> names_category entries n"
  by (simp add: toErrorCategoryMask_def bit_toErrorCategoryMask_from)

definition category :: "nat \<Rightarrow> ErrorCategory" where "category n = push_bit n 1"

lemma and_category: "n < 32 \<Longrightarrow> m AND category n \<noteq> 0 \<longleftrightarrow> bit m n"
  by (simp add: category_def and_exp_eq_0_iff_not_bit push_bit_of_1)

lemma bit_category: "n < 32 \<Longrightarrow> bit (category k) n \<longleftrightarrow> n = k"
  by (auto simp: category_def bit_exp_iff)

lemma category_eqs:
  "ErrorCategoryUnknown = category 0" "ErrorCategoryException = category 1"
  "ErrorCategoryHttpStatus = category 2" "ErrorCategorySql = category 3"
  by (simp_all add: category_defs category_def)

lemma bit_allErrorCategories: "n < 32 \<Longrightarrow> bit allErrorCategories n \<longleftrightarrow> n < 4"
  by (auto simp: allErrorCategories_def category_eqs bit_or_iff bit_category)

section \<open>Properties\<close>

text \<open>
  The error mark: the mask resolved from \<open>Span.ErrorMark\<close> and \<open>Span.ErrorMarkExclude\<close> always lets an
  unclassified failure fail the transaction, and lets an exception, an HTTP status or the SQL count do so
  exactly when the mark list is empty or names the category and the exclude list does not.
\<close>

theorem parseErrorMarkMask_marks:
  "marksError (parseErrorMarkMask mark exclude) ErrorCategoryUnknown
   \<and> (\<forall>n \<in> {1, 2, 3}. marksError (parseErrorMarkMask mark exclude) (category n) \<longleftrightarrow>
        (mark = [] \<or> names_category mark n) \<and> \<not> names_category exclude n)"
proof -
  let ?m = "parseErrorMarkMask mark exclude"
  have b: "bit ?m n \<longleftrightarrow> n = 0 \<or> (if mark = [] then n < 4 else names_category mark n) \<and> \<not> names_category exclude n"
    if "n < 32" for n
    using that
    by (simp add: parseErrorMarkMask_def Let_def bit_or_iff bit_and_iff bit_not_iff_eq category_eqs bit_category
        bit_toErrorCategoryMask bit_allErrorCategories)
      auto
  then have "?m \<noteq> 0" by (metis bit_0_eq bot_apply bot_bool_def zero_less_numeral)
  then show ?thesis
    using b by (auto simp: marksError_def category_eqs and_category)
qed

theorem parseErrorMarkMask_marks_witness:
  "marksError (parseErrorMarkMask [''exception, SQL''] [''sql'']) (category 1) \<longleftrightarrow>
     names_category [''exception, SQL''] 1 \<and> \<not> names_category [''sql''] 1"
  using parseErrorMarkMask_marks [of "[''exception, SQL'']" "[''sql'']"] by simp

text \<open>
  \<open>ignoreError\<close> decides by the first 64 links of the cause chain, whatever the user's error does in
  \<open>Unwrap\<close> or \<open>Cause\<close> (it may well cycle): the error is ignored exactly when one of them matches a rule.
\<close>

theorem ignoreError_iff:
  "ignoreError E rules err errName \<longleftrightarrow>
     (\<exists>i < 64. \<exists>c. cause_at E i err = Some c \<and> list_ex (rule_matches E errName c) rules)"
  by (cases "rules = []") (auto simp: ignoreError_def ignore_walk_iff maxCauserDepth_def)

end
