(* ===== verification/Error_Chain.thy ===== *)
theory Error_Chain
  imports Error_Rules
begin

text \<open>
  Exception chains (\<^verbatim>\<open>src/errors.go\<close>, and \<open>canAddErrorChain\<close> of \<^verbatim>\<open>src/span.go\<close>): the entries a span keeps of the
  errors recorded on it, each under an exception id and a depth within its chain. \<open>chain_state\<close> is the part
  of the span that \<open>errorChainsLock\<close> guards; every operation here runs under that lock, so it is atomic.
\<close>

section \<open>State\<close>

record 'e exception =
  exceptionId :: int
  depth :: int
  className :: string
  err :: 'e
  errorTime :: time
  pcs :: "nat list"

text \<open>\<open>errorChains\<close> is \<open>None\<close> once \<open>EndSpan\<close> has taken the chains (a nil slice).\<close>

record 'e chain_state =
  errorChains :: "'e exception list option"
  errorChainDrop :: nat
  errorChainDropLog :: bool
  refusedChainHeads :: "'e list"
  refusedChainNext :: nat

definition new_chain_state :: "'e chain_state" where
  "new_chain_state = \<lparr>errorChains = Some [], errorChainDrop = 0, errorChainDropLog = False,
     refusedChainHeads = [], refusedChainNext = 0\<rparr>"

definition minErrorChainEntry :: nat where "minErrorChainEntry = 10"
definition noExceptionChainId :: int where "noExceptionChainId = 0"
definition maxRefusedChainHeads :: nat where "maxRefusedChainHeads = 8"

definition entries :: "'e chain_state \<Rightarrow> 'e exception list" where
  "entries s = (case errorChains s of None \<Rightarrow> [] | Some es \<Rightarrow> es)"

text \<open>\<open>maxChain\<close> is the span's \<open>cfg.errorMaxChainDepth\<close>.\<close>

definition canAddErrorChain :: "nat \<Rightarrow> 'e chain_state \<Rightarrow> bool \<times> 'e chain_state" where
  "canAddErrorChain maxChain s =
     (case errorChains s of None \<Rightarrow> (False, s)
      | Some es \<Rightarrow>
          if length es < max minErrorChainEntry maxChain then (True, s)
          else (False, s\<lparr>errorChainDrop := errorChainDrop s + 1, errorChainDropLog := True\<rparr>))"

definition findError :: "'e error_env \<Rightarrow> 'e chain_state \<Rightarrow> 'e \<Rightarrow> 'e exception option" where
  "findError E s e = find (\<lambda>chain. sameError E (err chain) e) (entries s)"

definition isRefusedChainHead :: "'e error_env \<Rightarrow> 'e chain_state \<Rightarrow> 'e \<Rightarrow> bool" where
  "isRefusedChainHead E s e = list_ex (\<lambda>head. sameError E e head) (refusedChainHeads s)"

definition addRefusedChainHead :: "'e error_env \<Rightarrow> 'e \<Rightarrow> 'e chain_state \<Rightarrow> 'e chain_state" where
  "addRefusedChainHead E e s =
     (if isRefusedChainHead E s e then s
      else if length (refusedChainHeads s) < maxRefusedChainHeads
      then s\<lparr>refusedChainHeads := refusedChainHeads s @ [e]\<rparr>
      else s\<lparr>refusedChainHeads := (refusedChainHeads s)[refusedChainNext s := e],
             refusedChainNext := (refusedChainNext s + 1) mod maxRefusedChainHeads\<rparr>)"

text \<open>
  The walk down the causes in \<open>getExceptionChainId\<close>: the id of the chain whose head is met, and whether a
  refused head was met before.
\<close>

fun join_walk :: "'e error_env \<Rightarrow> 'e chain_state \<Rightarrow> nat \<Rightarrow> 'e \<Rightarrow> bool \<Rightarrow> int option \<times> bool" where
  "join_walk E s 0 e refused = (None, refused)"
| "join_walk E s (Suc k) e refused =
     (case nextCause E e of None \<Rightarrow> (None, refused)
      | Some c \<Rightarrow>
          (case findError E s c of
             Some ec \<Rightarrow>
               if depth ec = 0 then (Some (exceptionId ec), refused)
               else join_walk E s k c (refused \<or> isRefusedChainHead E s c)
           | None \<Rightarrow> join_walk E s k c (refused \<or> isRefusedChainHead E s c)))"

text \<open>
  \<open>permit\<close> is the answer of the rate limiter: \<open>None\<close> without one, else what \<open>Allow\<close> returns. \<open>gen\<close> is the
  agent's \<open>exceptionIdGen\<close>. The result is the id, whether it heads new entries, and the two states.
\<close>

definition getExceptionChainId ::
  "'e error_env \<Rightarrow> nat \<Rightarrow> bool option \<Rightarrow> 'e \<Rightarrow> int \<Rightarrow> 'e chain_state \<Rightarrow> (int \<times> bool) \<times> int \<times> 'e chain_state" where
  "getExceptionChainId E maxChain permit e gen s =
     (case findError E s e of
        Some ec \<Rightarrow> ((exceptionId ec, False), gen, s)
      | None \<Rightarrow>
          (case join_walk E s maxChain e (isRefusedChainHead E s e) of
             (Some eid, _) \<Rightarrow> ((eid, True), gen, s)
           | (None, refused) \<Rightarrow>
               if refused then ((noExceptionChainId, False), gen, s)
               else if permit = Some False then ((noExceptionChainId, False), gen, addRefusedChainHead E e s)
               else ((gen + 1, True), gen + 1, s)))"

definition append_entry :: "'e exception \<Rightarrow> 'e chain_state \<Rightarrow> 'e chain_state" where
  "append_entry x s = s\<lparr>errorChains := map_option (\<lambda>es. es @ [x]) (errorChains s)\<rparr>"

text \<open>The loop of \<open>addCauserCallStack\<close> with \<open>k\<close> rounds left, at depth \<open>d\<close>.\<close>

fun add_causes ::
  "'e error_env \<Rightarrow> nat \<Rightarrow> int \<Rightarrow> time \<Rightarrow> nat \<Rightarrow> int \<Rightarrow> 'e \<Rightarrow> 'e chain_state \<Rightarrow> 'e chain_state" where
  "add_causes E maxChain eid t 0 d e s = s"
| "add_causes E maxChain eid t (Suc k) d e s =
     (case nextCause E e of None \<Rightarrow> s
      | Some c \<Rightarrow>
          (let (can, s1) = canAddErrorChain maxChain s
           in if \<not> can \<or> findError E s1 c \<noteq> None then s1
              else add_causes E maxChain eid t k (d + 1) c
                (append_entry \<lparr>exceptionId = eid, depth = d, className = type_name E c, err = c, errorTime = t,
                   pcs = (case errorCallStack E c of None \<Rightarrow> [] | Some p \<Rightarrow> p)\<rparr> s1)))"

definition addCauserCallStack ::
  "'e error_env \<Rightarrow> nat \<Rightarrow> 'e \<Rightarrow> int \<Rightarrow> time \<Rightarrow> 'e chain_state \<Rightarrow> 'e chain_state" where
  "addCauserCallStack E maxChain e eid t s = add_causes E maxChain eid t (maxChain - 1) 1 e s"

definition shift_chain :: "int \<Rightarrow> int \<Rightarrow> 'e exception list \<Rightarrow> 'e exception list" where
  "shift_chain eid added es = map (\<lambda>ec. if exceptionId ec = eid then ec\<lparr>depth := depth ec + added\<rparr> else ec) es"

text \<open>
  \<open>stack\<close> is what \<open>runtime.Callers\<close> returns, the frames of the goroutine from the caller of \<open>SetError\<close>.
\<close>

definition traceCallStack ::
  "'e error_env \<Rightarrow> nat \<Rightarrow> bool option \<Rightarrow> nat list \<Rightarrow> 'e \<Rightarrow> string \<Rightarrow> nat \<Rightarrow> time \<Rightarrow> int \<Rightarrow> 'e chain_state
   \<Rightarrow> int \<times> int \<times> 'e chain_state" where
  "traceCallStack E maxChain permit stack e name stackDepth t gen s =
     (let (can, s) = canAddErrorChain maxChain s
      in if \<not> can then (noExceptionChainId, gen, s)
         else let ((eid, newId), gen, s) = getExceptionChainId E maxChain permit e gen s
              in if newId then
                   let callstack = (case errorCallStack E e of Some p \<Rightarrow> p | None \<Rightarrow> take stackDepth stack);
                       name = (if name = [] then type_name E e else name);
                       existing = length (entries s);
                       s = append_entry \<lparr>exceptionId = eid, depth = 0, className = name, err = e, errorTime = t,
                             pcs = callstack\<rparr> s;
                       s = addCauserCallStack E maxChain e eid t s;
                       added = int (length (entries s) - existing);
                       es = entries s
                   in (eid, gen, s\<lparr>errorChains :=
                        Some (shift_chain eid added (take existing es) @ drop existing es)\<rparr>)
                 else (eid, gen, s))"

section \<open>Invariant\<close>

definition chain_size :: "'e exception list \<Rightarrow> int \<Rightarrow> nat" where
  "chain_size es eid = length (filter (\<lambda>ec. exceptionId ec = eid) es)"

text \<open>
  Of every chain the depths are \<open>0, 1, \<dots>, n - 1\<close>, each once; ids lie between 1 and the generator; no entry
  repeats the error of an earlier one; and the entries respect the cap.
\<close>

definition depths_ok :: "'e exception list \<Rightarrow> bool" where
  "depths_ok es \<longleftrightarrow> (\<forall>eid. mset (map depth (filter (\<lambda>ec. exceptionId ec = eid) es)) = mset (map int [0..<chain_size es eid]))"

definition ids_ok :: "int \<Rightarrow> 'e exception list \<Rightarrow> bool" where
  "ids_ok gen es \<longleftrightarrow> (\<forall>ec \<in> set es. 1 \<le> exceptionId ec \<and> exceptionId ec \<le> gen)"

definition errors_once :: "'e error_env \<Rightarrow> 'e exception list \<Rightarrow> bool" where
  "errors_once E es \<longleftrightarrow> (\<forall>j < length es. \<forall>i < j. \<not> sameError E (err (es ! i)) (err (es ! j)))"

definition refused_ok :: "'e chain_state \<Rightarrow> bool" where
  "refused_ok s \<longleftrightarrow> length (refusedChainHeads s) \<le> maxRefusedChainHeads \<and> refusedChainNext s < maxRefusedChainHeads"

definition chain_inv :: "'e error_env \<Rightarrow> nat \<Rightarrow> int \<Rightarrow> 'e chain_state \<Rightarrow> bool" where
  "chain_inv E maxChain gen s \<longleftrightarrow>
     0 \<le> gen \<and> length (entries s) \<le> max minErrorChainEntry maxChain \<and> depths_ok (entries s)
     \<and> ids_ok gen (entries s) \<and> errors_once E (entries s) \<and> refused_ok s"

section \<open>Preservation\<close>

lemma canAddErrorChain_sel [simp]:
  "entries (snd (canAddErrorChain m s)) = entries s"
  "errorChains (snd (canAddErrorChain m s)) = errorChains s"
  "refused_ok (snd (canAddErrorChain m s)) = refused_ok s"
  "fst (canAddErrorChain m s) \<longleftrightarrow> errorChains s \<noteq> None \<and> length (entries s) < max minErrorChainEntry m"
  by (auto simp: canAddErrorChain_def entries_def refused_ok_def split: option.splits)

lemma findError_entries: "entries s = entries s' \<Longrightarrow> findError E s e = findError E s' e"
  by (simp add: findError_def)

lemma findError_None: "findError E s e = None \<longleftrightarrow> (\<forall>ec \<in> set (entries s). \<not> sameError E (err ec) e)"
  by (auto simp: findError_def find_None_iff)

lemma findError_SomeD: "findError E s e = Some ec \<Longrightarrow> ec \<in> set (entries s) \<and> sameError E (err ec) e"
  by (auto simp: findError_def find_Some_iff)

lemma entries_append [simp]: "errorChains s \<noteq> None \<Longrightarrow> entries (append_entry x s) = entries s @ [x]"
  by (auto simp: append_entry_def entries_def)

lemma append_entry_sel [simp]:
  "errorChains (append_entry x s) \<noteq> None \<longleftrightarrow> errorChains s \<noteq> None" "refused_ok (append_entry x s) = refused_ok s"
  by (auto simp: append_entry_def refused_ok_def)

lemma errors_once_append:
  "errors_once E (es @ [x]) \<longleftrightarrow> errors_once E es \<and> (\<forall>ec \<in> set es. \<not> sameError E (err ec) (err x))"
  by (auto simp: errors_once_def nth_append less_Suc_eq all_set_conv_all_nth)

text \<open>What a walk down the causes adds: consecutive depths under one id, each error new.\<close>

definition extends :: "'e error_env \<Rightarrow> nat \<Rightarrow> int \<Rightarrow> int \<Rightarrow> 'e chain_state \<Rightarrow> 'e chain_state \<Rightarrow> bool" where
  "extends E m eid d s s' \<longleftrightarrow>
     (\<exists>new. entries s' = entries s @ new \<and> map depth new = map (\<lambda>i. d + int i) [0..<length new]
        \<and> list_all (\<lambda>ec. exceptionId ec = eid) new)
     \<and> (errors_once E (entries s) \<longrightarrow> errors_once E (entries s'))
     \<and> length (entries s') \<le> max (length (entries s)) (max minErrorChainEntry m)
     \<and> errorChains s' \<noteq> None \<and> refused_ok s' = refused_ok s"

lemma extends_refl: "errorChains s \<noteq> None \<Longrightarrow> entries s' = entries s \<Longrightarrow> errorChains s' = errorChains s
  \<Longrightarrow> refused_ok s' = refused_ok s \<Longrightarrow> extends E m eid d s s'"
  by (auto simp: extends_def)

lemma extends_step:
  assumes "extends E m eid (d + 1) (append_entry x s) s'"
    and "errorChains s \<noteq> None" "exceptionId x = eid" "depth x = d"
    and "length (entries s) < max minErrorChainEntry m"
    and "\<forall>ec \<in> set (entries s). \<not> sameError E (err ec) (err x)"
  shows "extends E m eid d s s'"
proof -
  obtain new where n: "entries s' = (entries s @ [x]) @ new"
    "map depth new = map (\<lambda>i. d + 1 + int i) [0..<length new]" "list_all (\<lambda>ec. exceptionId ec = eid) new"
    using assms(1,2) by (auto simp: extends_def)
  have "entries s' = entries s @ (x # new)" using n(1) by simp
  moreover have "map depth (x # new) = map (\<lambda>i. d + int i) [0..<length (x # new)]"
    using n(2) assms(4) by (simp add: upt_conv_Cons map_Suc_upt [symmetric] del: upt_Suc)
  moreover have "list_all (\<lambda>ec. exceptionId ec = eid) (x # new)" using n(3) assms(3) by simp
  ultimately show ?thesis
    using assms(1,2,5,6) unfolding extends_def by (auto simp: errors_once_append)
qed

lemma add_causes_extends:
  "errorChains s \<noteq> None \<Longrightarrow> extends E m eid d s (add_causes E m eid t k d e s)"
proof (induction k arbitrary: d e s)
  case 0
  then show ?case by (simp add: extends_refl)
next
  case (Suc k)
  obtain can s1 where c: "canAddErrorChain m s = (can, s1)" by (cases "canAddErrorChain m s")
  have s1: "entries s1 = entries s" "errorChains s1 = errorChains s" "refused_ok s1 = refused_ok s"
    "can \<Longrightarrow> length (entries s) < max minErrorChainEntry m"
    using canAddErrorChain_sel [of m s] c by auto
  have to_s: "extends E m eid d s1 s' = extends E m eid d s s'" for s' by (simp add: extends_def s1)
  have refl: "extends E m eid d s s1" using Suc.prems s1 by (intro extends_refl) auto
  show ?case
  proof (cases "nextCause E e")
    case None
    then show ?thesis using Suc.prems by (simp add: extends_refl)
  next
    case (Some c')
    show ?thesis
    proof (cases "\<not> can \<or> findError E s1 c' \<noteq> None")
      case True
      then show ?thesis using refl by (simp add: Some c)
    next
      case False
      let ?x = "\<lparr>exceptionId = eid, depth = d, className = type_name E c', err = c', errorTime = t,
        pcs = (case errorCallStack E c' of None \<Rightarrow> [] | Some p \<Rightarrow> p)\<rparr>"
      have "extends E m eid (d + 1) (append_entry ?x s1) (add_causes E m eid t k (d + 1) c' (append_entry ?x s1))"
        using Suc.IH Suc.prems s1(2) by (metis append_entry_sel(1))
      then have "extends E m eid d s1 (add_causes E m eid t k (d + 1) c' (append_entry ?x s1))"
        by (rule extends_step) (use False Suc.prems s1 in \<open>auto simp: findError_None\<close>)
      with False show ?thesis by (simp add: Some c to_s)
    qed
  qed
qed

text \<open>Shifting a chain below newly added links keeps the depths contiguous.\<close>

lemma ints_append: "mset (map int [0..<a]) + image_mset (\<lambda>x. x + int a) (mset (map int [0..<k])) = mset (map int [0..<a + k])"
proof -
  have "[0..<a + k] = [0..<a] @ map (\<lambda>i. i + a) [0..<k]"
    using upt_add_eq_append [of 0 a k] map_add_upt [of a k] by (simp add: add.commute)
  moreover have "map (\<lambda>x. x + int a) (map int [0..<k]) = map int (map (\<lambda>i. i + a) [0..<k])" by simp
  then have "image_mset (\<lambda>x. x + int a) (mset (map int [0..<k])) = mset (map int (map (\<lambda>i. i + a) [0..<k]))"
    by (metis mset_map)
  ultimately show ?thesis by (metis map_append mset_append)
qed

lemma depths_ok_join:
  assumes "depths_ok es" and d: "map depth new = map int [0..<length new]" and i: "list_all (\<lambda>ec. exceptionId ec = eid) new"
  shows "depths_ok (shift_chain eid (int (length new)) es @ new)"
  unfolding depths_ok_def
proof
  fix id
  let ?P = "\<lambda>ec. exceptionId ec = id"
  let ?sh = "\<lambda>ec. if exceptionId ec = eid then ec\<lparr>depth := depth ec + int (length new)\<rparr> else ec"
  have f: "filter ?P (shift_chain eid (int (length new)) es) = map ?sh (filter ?P es)"
    unfolding shift_chain_def by (induction es) auto
  have es: "mset (map depth (filter ?P es)) = mset (map int [0..<chain_size es id])"
    using assms(1) by (simp add: depths_ok_def)
  show "mset (map depth (filter ?P (shift_chain eid (int (length new)) es @ new)))
      = mset (map int [0..<chain_size (shift_chain eid (int (length new)) es @ new) id])"
  proof (cases "id = eid")
    case True
    have new: "filter ?P new = new" using i True by (simp add: list_all_iff)
    have "map depth (map ?sh (filter ?P es)) = map (\<lambda>x. x + int (length new)) (map depth (filter ?P es))"
      using True by (induction es) auto
    then have "mset (map depth (map ?sh (filter ?P es)))
        = image_mset (\<lambda>x. x + int (length new)) (mset (map depth (filter ?P es)))"
      by (metis mset_map)
    then show ?thesis
      using ints_append [of "length new" "chain_size es id"] es d
      by (simp add: f new chain_size_def add.commute)
  next
    case False
    have "filter ?P new = []" using i False by (auto simp: list_all_iff filter_empty_conv)
    moreover have "map ?sh (filter ?P es) = filter ?P es" using False by (induction es) auto
    ultimately show ?thesis using es by (simp add: f chain_size_def)
  qed
qed

lemma shift_chain_sel:
  "map err (shift_chain eid a es) = map err es" "map exceptionId (shift_chain eid a es) = map exceptionId es"
  "length (shift_chain eid a es) = length es"
  by (simp_all add: shift_chain_def)

lemma errors_once_errs: "errors_once E es = (\<forall>j < length (map err es). \<forall>i < j. \<not> sameError E (map err es ! i) (map err es ! j))"
  by (simp add: errors_once_def)

lemma ids_ok_ids: "ids_ok gen es = (\<forall>i \<in> set (map exceptionId es). 1 \<le> i \<and> i \<le> gen)"
  by (simp add: ids_ok_def)

lemma join_walk_known:
  "join_walk E s k e r = (Some eid, r') \<Longrightarrow> \<exists>ec \<in> set (entries s). exceptionId ec = eid"
  by (induction E s k e r rule: join_walk.induct)
    (auto split: option.splits if_splits dest: findError_SomeD)

lemma addRefusedChainHead_sel [simp]:
  "entries (addRefusedChainHead E e s) = entries s" "errorChains (addRefusedChainHead E e s) = errorChains s"
  "refused_ok s \<Longrightarrow> refused_ok (addRefusedChainHead E e s)"
  by (auto simp: addRefusedChainHead_def entries_def refused_ok_def maxRefusedChainHeads_def)

lemma getExceptionChainId_cases:
  assumes "getExceptionChainId E m permit e gen s = ((eid, newId), gen', s')"
  shows "entries s' = entries s" and "errorChains s' = errorChains s" and "gen \<le> gen'"
    and "newId \<Longrightarrow> findError E s e = None"
    and "newId \<Longrightarrow> (\<exists>ec \<in> set (entries s). exceptionId ec = eid) \<and> gen' = gen \<or> eid = gen + 1 \<and> gen' = gen + 1"
    and "refused_ok s \<Longrightarrow> refused_ok s'"
  using assms
  by (auto simp: getExceptionChainId_def split: option.splits prod.splits if_splits dest: join_walk_known)

lemma chain_inv_entries:
  "chain_inv E m gen s \<Longrightarrow> entries s' = entries s \<Longrightarrow> refused_ok s' \<Longrightarrow> gen \<le> gen' \<Longrightarrow> chain_inv E m gen' s'"
  by (auto simp: chain_inv_def ids_ok_def dest: order_trans)

lemma traceCallStack_inv:
  assumes inv: "chain_inv E m gen s"
    and r: "traceCallStack E m permit stack e name sd t gen s = (eid, gen', s')"
  shows "chain_inv E m gen' s'"
proof -
  obtain can s0 where c: "canAddErrorChain m s = (can, s0)" by (cases "canAddErrorChain m s")
  have s0: "entries s0 = entries s" "errorChains s0 = errorChains s" "refused_ok s0 = refused_ok s"
    "can \<longleftrightarrow> errorChains s \<noteq> None \<and> length (entries s) < max minErrorChainEntry m"
    using canAddErrorChain_sel [of m s] c by auto
  obtain eid1 newId gen1 s1 where g: "getExceptionChainId E m permit e gen s0 = ((eid1, newId), gen1, s1)"
    by (metis prod.collapse)
  note G = getExceptionChainId_cases [OF g]
  have ro: "refused_ok s0" "refused_ok s1" using inv s0(3) G(6) by (auto simp: chain_inv_def)
  show ?thesis
  proof (cases "can \<and> newId")
    case False
    then have "entries s' = entries s \<and> refused_ok s' \<and> gen \<le> gen'"
      using r G ro s0 by (auto simp: traceCallStack_def c g split: if_splits)
    with inv show ?thesis by (auto intro: chain_inv_entries)
  next
    case True
    let ?x = "\<lparr>exceptionId = eid1, depth = 0, className = (if name = [] then type_name E e else name), err = e,
      errorTime = t, pcs = (case errorCallStack E e of Some p \<Rightarrow> p | None \<Rightarrow> take sd stack)\<rparr>"
    let ?s2 = "addCauserCallStack E m e eid1 t (append_entry ?x s1)"
    have live: "errorChains s1 \<noteq> None" using True s0 G(2) by simp
    have "extends E m eid1 1 (append_entry ?x s1) ?s2"
      unfolding addCauserCallStack_def by (rule add_causes_extends) (use live in \<open>simp only: append_entry_sel simp_thms\<close>)
    then have "extends E m eid1 (0 + 1) (append_entry ?x s1) ?s2" by (simp only: add_0)
    then have ext: "extends E m eid1 0 s1 ?s2"
      by (rule extends_step) (use live True s0 G in \<open>auto simp: findError_None\<close>)
    then obtain new where new: "entries ?s2 = entries s @ new" "map depth new = map int [0..<length new]"
      "list_all (\<lambda>ec. exceptionId ec = eid1) new"
      using G(1) s0(1) by (auto simp: extends_def)
    have res: "eid = eid1" "gen' = gen1" "entries s' = shift_chain eid1 (int (length new)) (entries s) @ new"
      "refused_ok s' = refused_ok s1"
      using r True ext by (auto simp: traceCallStack_def c g Let_def G(1) s0(1) new(1) entries_def [of "_\<lparr>errorChains := _\<rparr>"]
          refused_ok_def extends_def)
    have ids: "1 \<le> eid1 \<and> eid1 \<le> gen1" "gen \<le> gen1"
      using G(5) True inv G(3) s0(1) by (auto simp: chain_inv_def ids_ok_def)
    have "errors_once E (entries s @ new)" "length (entries s @ new) \<le> max minErrorChainEntry m"
      using ext inv G(1) s0(1) new(1) by (auto simp: extends_def chain_inv_def)
    moreover have "ids_ok gen1 (entries s @ new)"
      using ids inv new(3) by (fastforce simp: ids_ok_def chain_inv_def list_all_iff)
    ultimately show ?thesis
      using depths_ok_join [of "entries s" new eid1] inv new ids ro(2) res
      by (simp add: chain_inv_def errors_once_errs ids_ok_ids shift_chain_sel del: length_map)
  qed
qed

section \<open>A chain is a line of causes\<close>

abbreviation cause_step :: "'e error_env \<Rightarrow> 'e \<Rightarrow> 'e \<Rightarrow> bool" where
  "cause_step E x y \<equiv> nextCause E x = Some y"

text \<open>\<open>b\<close> is a cause of \<open>a\<close>, directly or through others, up to the comparison of errors.\<close>

definition causes_of :: "'e error_env \<Rightarrow> 'e \<Rightarrow> 'e \<Rightarrow> bool" where
  "causes_of E a b \<longleftrightarrow> (\<exists>c. (cause_step E)\<^sup>+\<^sup>+ a c \<and> (b = c \<or> sameError E b c))"

definition links_ok :: "'e error_env \<Rightarrow> 'e exception list \<Rightarrow> bool" where
  "links_ok E es \<longleftrightarrow> (\<forall>x \<in> set es. \<forall>y \<in> set es. exceptionId y = exceptionId x \<and> depth y = depth x + 1 \<longrightarrow> causes_of E (err x) (err y))"

lemma add_causes_line:
  assumes "errorChains s \<noteq> None" "entries (add_causes E m eid t k d e s) = entries s @ new"
  shows "successively (cause_step E) (e # map err new) \<and> (\<forall>c \<in> set (map err new). \<forall>ec \<in> set (entries s). \<not> sameError E (err ec) c)"
  using assms
proof (induction k arbitrary: d e s new)
  case (Suc k)
  obtain can s1 where c: "canAddErrorChain m s = (can, s1)" by (cases "canAddErrorChain m s")
  have s1: "entries s1 = entries s" "errorChains s1 = errorChains s" using canAddErrorChain_sel [of m s] c by auto
  show ?case
  proof (cases "nextCause E e = None \<or> \<not> can \<or> findError E s1 (the (nextCause E e)) \<noteq> None")
    case True
    then have "entries (add_causes E m eid t (Suc k) d e s) = entries s" using s1(1) c by (cases "nextCause E e") auto
    then show ?thesis using Suc.prems(2) by simp
  next
    case False
    then obtain c' where c': "nextCause E e = Some c'" "can" "findError E s1 c' = None" by auto
    let ?x = "\<lparr>exceptionId = eid, depth = d, className = type_name E c', err = c', errorTime = t,
      pcs = (case errorCallStack E c' of None \<Rightarrow> [] | Some p \<Rightarrow> p)\<rparr>"
    let ?s2 = "append_entry ?x s1"
    have live: "errorChains ?s2 \<noteq> None" using Suc.prems(1) s1(2) by (metis append_entry_sel(1))
    have e2: "entries ?s2 = entries s @ [?x]" using Suc.prems(1) s1 by simp
    have run: "add_causes E m eid t (Suc k) d e s = add_causes E m eid t k (d + 1) c' ?s2" using c' by (simp add: c)
    obtain rest where rest: "entries (add_causes E m eid t k (d + 1) c' ?s2) = entries ?s2 @ rest"
      using add_causes_extends [OF live, of E m eid "d + 1" t k c'] by (auto simp: extends_def)
    have new: "new = ?x # rest" using Suc.prems(2) run rest e2 by simp
    show ?thesis using Suc.IH [OF live rest] c'(1,3) by (auto simp: new e2 findError_None s1(1))
  qed
qed simp

lemma join_walk_head:
  "join_walk E s k e r = (Some eid, r') \<Longrightarrow>
   \<exists>c ec. (cause_step E)\<^sup>+\<^sup>+ e c \<and> findError E s c = Some ec \<and> depth ec = 0 \<and> exceptionId ec = eid"
proof (induction k arbitrary: e r)
  case (Suc k)
  then obtain c where c: "nextCause E e = Some c" by (cases "nextCause E e") auto
  show ?case
  proof (cases "\<exists>ec. findError E s c = Some ec \<and> depth ec = 0")
    case True
    then show ?thesis using Suc.prems c by auto
  next
    case False
    then have "join_walk E s k c (r \<or> isRefusedChainHead E s c) = (Some eid, r')"
      using Suc.prems c by (auto split: option.splits if_splits)
    from Suc.IH [OF this] obtain c2 ec where h: "(cause_step E)\<^sup>+\<^sup>+ c c2" "findError E s c2 = Some ec" "depth ec = 0" "exceptionId ec = eid"
      by blast
    have "(cause_step E)\<^sup>+\<^sup>+ e c2" by (rule tranclp_into_tranclp2 [OF c h(1)])
    with h(2-4) show ?thesis by blast
  qed
qed simp

lemma line_reaches:
  assumes "successively (cause_step E) (e # line)" "(cause_step E)\<^sup>+\<^sup>+ e c" "c \<notin> set line"
  shows "(cause_step E)\<^sup>+\<^sup>+ (last (e # line)) c"
  using assms
proof (induction line arbitrary: e)
  case (Cons a line)
  have "nextCause E e = Some a" using Cons.prems(1) by simp
  moreover have "c \<noteq> a" using Cons.prems(3) by simp
  ultimately have "(cause_step E)\<^sup>+\<^sup>+ a c" using Cons.prems(2) by (auto dest!: tranclpD dest: rtranclpD)
  with Cons show ?case by simp
qed simp

lemma depths_ok_entry:
  assumes "depths_ok es"
  shows "x \<in> set es \<Longrightarrow> 0 \<le> depth x"
    and "x \<in> set es \<Longrightarrow> y \<in> set es \<Longrightarrow> exceptionId x = exceptionId y \<Longrightarrow> depth x = depth y \<Longrightarrow> x = y"
proof -
  have m: "mset (map depth (filter (\<lambda>ec. exceptionId ec = i) es)) = mset (map int [0..<chain_size es i])" for i
    using assms by (simp add: depths_ok_def)
  show "0 \<le> depth x" if "x \<in> set es"
  proof -
    have "depth x \<in> set (map depth (filter (\<lambda>ec. exceptionId ec = exceptionId x) es))" using that by simp
    then have "depth x \<in> set (map int [0..<chain_size es (exceptionId x)])" using m mset_eq_setD by metis
    then show ?thesis by auto
  qed
  show "x = y" if "x \<in> set es" "y \<in> set es" "exceptionId x = exceptionId y" "depth x = depth y"
  proof -
    have "distinct (map depth (filter (\<lambda>ec. exceptionId ec = exceptionId y) es))"
      using mset_eq_imp_distinct_iff [OF m [of "exceptionId y"]] by (simp add: distinct_map)
    then show ?thesis using that by (auto simp: distinct_map dest: inj_onD)
  qed
qed

lemma links_join:
  assumes old: "links_ok E es" "depths_ok es"
    and new: "map depth new = map int [0..<length new]" "list_all (\<lambda>ec. exceptionId ec = eid) new"
    and line: "successively (cause_step E) (map err new)"
    and head: "\<And>y. y \<in> set es \<Longrightarrow> exceptionId y = eid \<Longrightarrow> depth y = 0 \<Longrightarrow> new \<noteq> [] \<Longrightarrow> causes_of E (err (last new)) (err y)"
  shows "links_ok E (shift_chain eid (int (length new)) es @ new)"
  unfolding links_ok_def
proof (intro ballI impI, elim conjE)
  fix x y
  assume x: "x \<in> set (shift_chain eid (int (length new)) es @ new)" and y: "y \<in> set (shift_chain eid (int (length new)) es @ new)"
    and id: "exceptionId y = exceptionId x" and d: "depth y = depth x + 1"
  have newi: "\<exists>i < length new. z = new ! i \<and> depth z = int i \<and> exceptionId z = eid" if z: "z \<in> set new" for z
  proof -
    obtain i where i: "i < length new" "z = new ! i" using z by (auto simp: in_set_conv_nth)
    then have "depth z = int i" using arg_cong [OF new(1), of "\<lambda>xs. xs ! i"] by simp
    then show ?thesis using i new(2) z by (auto simp: list_all_iff)
  qed
  have shifted: "\<exists>z \<in> set es. exceptionId w = exceptionId z \<and> err w = err z \<and> 0 \<le> depth z
      \<and> depth w = (if exceptionId z = eid then depth z + int (length new) else depth z)"
    if w: "w \<in> set (shift_chain eid (int (length new)) es)" for w
  proof -
    obtain z where "z \<in> set es" "w = (if exceptionId z = eid then z\<lparr>depth := depth z + int (length new)\<rparr> else z)"
      using w unfolding shift_chain_def set_map by blast
    then show ?thesis using depths_ok_entry(1) [OF old(2)] by (intro bexI [of _ z]) auto
  qed
  consider "x \<in> set new" "y \<in> set new" | "x \<in> set new" "y \<in> set (shift_chain eid (int (length new)) es)"
    | "x \<in> set (shift_chain eid (int (length new)) es)" "y \<in> set new"
    | "x \<in> set (shift_chain eid (int (length new)) es)" "y \<in> set (shift_chain eid (int (length new)) es)"
    using x y by auto
  then show "causes_of E (err x) (err y)"
  proof cases
    case 1
    obtain i j where ij: "i < length new" "x = new ! i" "depth x = int i" "j < length new" "y = new ! j" "depth y = int j"
      using newi [OF 1(1)] newi [OF 1(2)] by blast
    then have "j = Suc i" using d by simp
    then have "cause_step E (err x) (err y)" using line ij by (auto simp: successively_conv_nth)
    then show ?thesis unfolding causes_of_def by blast
  next
    case 2
    obtain i where i: "i < length new" "x = new ! i" "depth x = int i" "exceptionId x = eid" using newi [OF 2(1)] by blast
    obtain z where z: "z \<in> set es" "exceptionId y = exceptionId z" "err y = err z" "0 \<le> depth z"
      "depth y = (if exceptionId z = eid then depth z + int (length new) else depth z)" using shifted [OF 2(2)] by blast
    have zid: "exceptionId z = eid" using z(2) id i(4) by simp
    then have "depth z = 0" "i = length new - 1" using z(4,5) d i(1,3) by auto
    moreover have "new \<noteq> []" using i(1) by auto
    ultimately have "causes_of E (err (last new)) (err z)" "x = last new"
      using head [OF z(1) zid] i(2) by (simp_all add: last_conv_nth)
    then show ?thesis using z(3) by simp
  next
    case 3
    then show ?thesis using newi [OF 3(2)] shifted [OF 3(1)] id d by auto
  next
    case 4
    obtain u v where "u \<in> set es" "exceptionId x = exceptionId u" "err x = err u" "depth x = (if exceptionId u = eid then depth u + int (length new) else depth u)"
      "v \<in> set es" "exceptionId y = exceptionId v" "err y = err v" "depth y = (if exceptionId v = eid then depth v + int (length new) else depth v)"
      using shifted [OF 4(1)] shifted [OF 4(2)] by blast
    then show ?thesis using old(1) id d by (auto simp: links_ok_def split: if_splits)
  qed
qed

text \<open>What a recorded error adds: nothing, or a line of causes from it, ending above the chain it joins.\<close>

lemma traceCallStack_links:
  assumes inv: "chain_inv E m gen s" and links: "links_ok E (entries s)" "\<forall>ec \<in> set (entries s). g0 < exceptionId ec" "g0 \<le> gen"
    and r: "traceCallStack E m permit stack e name sd t gen s = (eid, gen', s')"
  shows "links_ok E (entries s') \<and> (\<forall>ec \<in> set (entries s'). g0 < exceptionId ec) \<and> gen \<le> gen'"
proof -
  obtain can s0 where c: "canAddErrorChain m s = (can, s0)" by (cases "canAddErrorChain m s")
  have s0: "entries s0 = entries s" "errorChains s0 = errorChains s"
    "can \<longleftrightarrow> errorChains s \<noteq> None \<and> length (entries s) < max minErrorChainEntry m"
    using canAddErrorChain_sel [of m s] c by auto
  obtain eid1 newId gen1 s1 where g: "getExceptionChainId E m permit e gen s0 = ((eid1, newId), gen1, s1)"
    by (metis prod.collapse)
  note G = getExceptionChainId_cases [OF g]
  show ?thesis
  proof (cases "can \<and> newId")
    case False
    then have "entries s' = entries s \<and> gen \<le> gen'" using r G s0 by (auto simp: traceCallStack_def c g split: if_splits)
    with links show ?thesis by simp
  next
    case True
    let ?x = "\<lparr>exceptionId = eid1, depth = 0, className = (if name = [] then type_name E e else name), err = e,
      errorTime = t, pcs = (case errorCallStack E e of Some p \<Rightarrow> p | None \<Rightarrow> take sd stack)\<rparr>"
    let ?s2 = "addCauserCallStack E m e eid1 t (append_entry ?x s1)"
    have live: "errorChains s1 \<noteq> None" using True s0 G(2) by simp
    have live2: "errorChains (append_entry ?x s1) \<noteq> None" using live by (metis append_entry_sel(1))
    have e1: "entries (append_entry ?x s1) = entries s @ [?x]" using live G(1) s0(1) by simp
    obtain added where added: "entries ?s2 = (entries s @ [?x]) @ added" "map depth added = map (\<lambda>i. 1 + int i) [0..<length added]"
      "list_all (\<lambda>ec. exceptionId ec = eid1) added"
      using add_causes_extends [OF live2, of E m eid1 1 t "m - 1" e] e1 by (auto simp: extends_def addCauserCallStack_def)
    have ln: "successively (cause_step E) (e # map err added)" "\<forall>c \<in> set (map err added). \<forall>ec \<in> set (entries s). \<not> sameError E (err ec) c"
      using add_causes_line [OF live2, of E m eid1 t "m - 1" 1 e added] added(1) e1 by (auto simp: addCauserCallStack_def)
    let ?new = "?x # added"
    have res: "gen' = gen1" "entries s' = shift_chain eid1 (int (length ?new)) (entries s) @ ?new"
      using r True added(1) by (auto simp: traceCallStack_def c g Let_def G(1) s0(1) entries_def [of "_\<lparr>errorChains := _\<rparr>"])
    have depths: "map depth ?new = map int [0..<length ?new]"
      using added(2) by (simp add: upt_conv_Cons map_Suc_upt [symmetric] del: upt_Suc)
    have ids: "list_all (\<lambda>ec. exceptionId ec = eid1) ?new" using added(3) by simp
    have origin: "(\<exists>c ec. (cause_step E)\<^sup>+\<^sup>+ e c \<and> findError E s c = Some ec \<and> depth ec = 0 \<and> exceptionId ec = eid1) \<or> eid1 = gen + 1"
    proof (cases "join_walk E s0 m e (isRefusedChainHead E s0 e)")
      case (Pair found r)
      show ?thesis
      proof (cases found)
        case None
        then show ?thesis using g True by (auto simp: getExceptionChainId_def Pair split: option.splits if_splits)
      next
        case (Some i)
        have "i = eid1" using g True by (auto simp: getExceptionChainId_def Pair Some split: option.splits)
        then show ?thesis using join_walk_head [of E s0] Pair Some findError_entries [OF s0(1)] by metis
      qed
    qed
    have head: "causes_of E (err (last ?new)) (err y)" if y: "y \<in> set (entries s)" "exceptionId y = eid1" "depth y = 0" for y
    proof -
      have "exceptionId y \<le> gen" using inv y(1) by (auto simp: chain_inv_def ids_ok_def)
      then obtain c ec where ce: "(cause_step E)\<^sup>+\<^sup>+ e c" "findError E s c = Some ec" "depth ec = 0" "exceptionId ec = eid1"
        using origin y(2) by auto
      have ec: "ec \<in> set (entries s)" "sameError E (err ec) c" using findError_SomeD [OF ce(2)] by auto
      have "y = ec" by (rule depths_ok_entry(2) [of "entries s"]) (use inv y ec ce in \<open>auto simp: chain_inv_def\<close>)
      moreover have "c \<notin> set (map err added)" using ln(2) ec by blast
      then have "(cause_step E)\<^sup>+\<^sup>+ (last (e # map err added)) c" by (rule line_reaches [OF ln(1) ce(1)])
      moreover have "last (e # map err added) = err (last ?new)" by (simp add: last_map)
      ultimately show ?thesis using ec(2) by (auto simp: causes_of_def)
    qed
    have "links_ok E (entries s')"
      unfolding res(2) by (rule links_join [OF links(1) _ depths ids]) (use inv ln(1) head in \<open>auto simp: chain_inv_def\<close>)
    moreover have "g0 < eid1" using origin links(2,3) findError_SomeD by fastforce
    then have "\<forall>ec \<in> set (entries s'). g0 < exceptionId ec"
      using links(2) ids by (auto simp: res(2) shift_chain_def list_all_iff)
    ultimately show ?thesis using G(3) res(1) by simp
  qed
qed

section \<open>Properties\<close>

text \<open>
  A span's life as the sequence of \<open>traceCallStack\<close> calls it sees; before each of them other spans may have
  drawn ids from the shared generator.
\<close>

record 'e trace_call =
  others :: nat
  granted :: "bool option"
  frames :: "nat list"
  failed :: 'e
  given_name :: string
  stack_depth :: nat
  at_time :: time

fun record_errors :: "'e error_env \<Rightarrow> nat \<Rightarrow> 'e trace_call list \<Rightarrow> int \<Rightarrow> 'e chain_state \<Rightarrow> int \<times> 'e chain_state" where
  "record_errors E m [] gen s = (gen, s)"
| "record_errors E m (c # cs) gen s =
     (case traceCallStack E m (granted c) (frames c) (failed c) (given_name c) (stack_depth c) (at_time c)
        (gen + int (others c)) s of
        (eid, gen', s') \<Rightarrow> record_errors E m cs gen' s')"

lemma record_errors_inv:
  "chain_inv E m gen s \<Longrightarrow> case record_errors E m cs gen s of (gen', s') \<Rightarrow> chain_inv E m gen' s'"
proof (induction cs arbitrary: gen s)
  case (Cons c cs)
  obtain eid gen' s' where r: "traceCallStack E m (granted c) (frames c) (failed c) (given_name c) (stack_depth c)
      (at_time c) (gen + int (others c)) s = (eid, gen', s')"
    by (metis prod.collapse)
  have "chain_inv E m (gen + int (others c)) s" using Cons.prems by (auto simp: chain_inv_def ids_ok_def)
  from traceCallStack_inv [OF this r] Cons.IH [of gen' s'] show ?case by (simp add: r)
qed simp

lemma record_errors_links:
  "chain_inv E m gen s \<Longrightarrow> links_ok E (entries s) \<Longrightarrow> \<forall>ec \<in> set (entries s). g0 < exceptionId ec \<Longrightarrow> g0 \<le> gen \<Longrightarrow>
   record_errors E m cs gen s = (gen', s') \<Longrightarrow> links_ok E (entries s') \<and> (\<forall>ec \<in> set (entries s'). g0 < exceptionId ec)"
proof (induction cs arbitrary: gen s)
  case (Cons c cs)
  obtain eid gen1 s1 where r: "traceCallStack E m (granted c) (frames c) (failed c) (given_name c) (stack_depth c)
      (at_time c) (gen + int (others c)) s = (eid, gen1, s1)"
    by (metis prod.collapse)
  have inv: "chain_inv E m (gen + int (others c)) s" using Cons.prems(1) by (auto simp: chain_inv_def ids_ok_def)
  have g0: "g0 \<le> gen + int (others c)" using Cons.prems(4) by simp
  note L = traceCallStack_links [OF inv Cons.prems(2,3) g0 r]
  show ?case
    by (rule Cons.IH [OF traceCallStack_inv [OF inv r]]) (use L g0 Cons.prems(5) r in auto)
qed simp

lemma new_chain_inv: "0 \<le> gen \<Longrightarrow> chain_inv E m gen new_chain_state"
  by (simp add: chain_inv_def new_chain_state_def entries_def depths_ok_def chain_size_def ids_ok_def errors_once_def
      refused_ok_def maxRefusedChainHeads_def)

text \<open>
  (C34) What a span reports of its errors is well formed, for any sequence of errors, any user error types and whatever ids other spans draw
  meanwhile: in every exception chain the depths are \<open>0, 1, \<dots>\<close> without gap or repetition (also after a chain was shifted
  below a later wrapper), and each link is a cause of the one above it, so two unrelated errors never share a chain id; the ids are
  drawn from the generator while these errors are recorded, no two entries hold the same error, and the entries stay within
  \<open>max(10, Error.MaxChainDepth)\<close>.
\<close>

theorem recorded_chains_wellformed:
  assumes "0 \<le> gen" and "record_errors E m calls gen new_chain_state = (gen', s)"
  shows "(\<forall>eid. mset (map depth (filter (\<lambda>ec. exceptionId ec = eid) (entries s))) = mset (map int [0..<chain_size (entries s) eid]))
    \<and> (\<forall>x \<in> set (entries s). \<forall>y \<in> set (entries s). exceptionId y = exceptionId x \<and> depth y = depth x + 1 \<longrightarrow> causes_of E (err x) (err y))
    \<and> (\<forall>ec \<in> set (entries s). gen < exceptionId ec \<and> exceptionId ec \<le> gen')
    \<and> (\<forall>j < length (entries s). \<forall>i < j. \<not> sameError E (err (entries s ! i)) (err (entries s ! j)))
    \<and> length (entries s) \<le> max 10 m"
proof -
  have none: "entries (new_chain_state :: 'a chain_state) = []" by (simp add: new_chain_state_def entries_def)
  have "chain_inv E m gen' s" using record_errors_inv [OF new_chain_inv [OF assms(1), of E m], of calls] assms(2) by simp
  moreover have "links_ok E (entries s) \<and> (\<forall>ec \<in> set (entries s). gen < exceptionId ec)"
    by (rule record_errors_links [OF new_chain_inv [OF assms(1)] _ _ order_refl assms(2)]) (simp_all add: none links_ok_def)
  ultimately show ?thesis
    by (simp add: chain_inv_def depths_ok_def errors_once_def minErrorChainEntry_def links_ok_def ids_ok_def)
qed

text \<open>Errors as numbers, each wrapping its predecessor; the witnesses use them.\<close>

definition counting_errors :: "nat error_env" where
  "counting_errors = \<lparr>nil_pointer = (\<lambda>_. False), error_text = (\<lambda>_. ''e''), type_string = (\<lambda>_. ''*E''),
     type_name = (\<lambda>_. ''E''), cause_method = (\<lambda>_. None), unwrap_method = (\<lambda>n. if n = 0 then None else Some (n - 1)),
     join_method = (\<lambda>_. None), own_stack = (\<lambda>_. None), same_type = (\<lambda>_ _. True), compare_values = (\<lambda>a b. Some (a = b))\<rparr>"

definition call_of :: "nat \<Rightarrow> nat trace_call" where
  "call_of n = \<lparr>others = 0, granted = None, frames = [], failed = n, given_name = [], stack_depth = 0, at_time = 0\<rparr>"

theorem recorded_chains_wellformed_witness:
  "let s = snd (record_errors counting_errors 5 [call_of 2, call_of 4] 0 new_chain_state)
   in map (\<lambda>ec. (exceptionId ec, depth ec, err ec)) (entries s) =
        [(1, 2, 2), (1, 3, 1), (1, 4, 0), (1, 0, 4), (1, 1, 3)]
      \<and> (\<forall>ec \<in> set (entries s). 0 < exceptionId ec) \<and> length (entries s) \<le> max 10 5"
proof -
  let ?r = "record_errors counting_errors 5 [call_of 2, call_of 4] 0 new_chain_state"
  have "map (\<lambda>ec. (exceptionId ec, depth ec, err ec)) (entries (snd ?r)) =
      [(1, 2, 2), (1, 3, 1), (1, 4, 0), (1, 0, 4), (1, 1, 3)]"
    by code_simp
  moreover have "(\<forall>ec \<in> set (entries (snd ?r)). 0 < exceptionId ec) \<and> length (entries (snd ?r)) \<le> max 10 5"
    using recorded_chains_wellformed [of 0 counting_errors 5 "[call_of 2, call_of 4]" "fst ?r" "snd ?r"] by simp
  ultimately show ?thesis by (simp add: Let_def)
qed

text \<open>
  A chain id is only ever handed out for an error that is on record: when \<open>traceCallStack\<close> returns an id,
  the span holds an entry of that chain for the error, and an error not seen before is its outermost
  link, at depth 0.
\<close>

theorem traceCallStack_records:
  assumes "traceCallStack E m permit stack e name sd t gen s = (eid, gen', s')" and "eid \<noteq> noExceptionChainId"
  shows "\<exists>ec \<in> set (entries s'). exceptionId ec = eid \<and>
    (if findError E s e = None then err ec = e \<and> depth ec = 0 else sameError E (err ec) e)"
proof -
  obtain can s0 where c: "canAddErrorChain m s = (can, s0)" by (cases "canAddErrorChain m s")
  have s0: "entries s0 = entries s" "errorChains s0 = errorChains s"
    and can: "can \<longleftrightarrow> errorChains s \<noteq> None \<and> length (entries s) < max minErrorChainEntry m"
    using canAddErrorChain_sel [of m s] c by auto
  have f: "findError E s0 e = findError E s e" using s0 by (intro findError_entries)
  obtain eid1 newId gen1 s1 where g: "getExceptionChainId E m permit e gen s0 = ((eid1, newId), gen1, s1)"
    by (metis prod.collapse)
  note G = getExceptionChainId_cases [OF g]
  show ?thesis
  proof (cases "can \<and> newId")
    case False
    with assms have eid: "can" "\<not> newId" "eid = eid1" "s' = s1" by (auto simp: traceCallStack_def c g split: if_splits)
    with g assms(2) obtain ec where "findError E s e = Some ec" "exceptionId ec = eid"
      by (auto simp: getExceptionChainId_def f [symmetric] split: option.splits prod.splits if_splits)
    with findError_SomeD [of E s e ec] show ?thesis using eid G(1) s0 by auto
  next
    case True
    let ?x = "\<lparr>exceptionId = eid1, depth = 0, className = (if name = [] then type_name E e else name), err = e,
      errorTime = t, pcs = (case errorCallStack E e of Some p \<Rightarrow> p | None \<Rightarrow> take sd stack)\<rparr>"
    let ?s2 = "addCauserCallStack E m e eid1 t (append_entry ?x s1)"
    have live: "errorChains s1 \<noteq> None" using True can s0 G(2) by simp
    have "extends E m eid1 1 (append_entry ?x s1) ?s2"
      unfolding addCauserCallStack_def by (rule add_causes_extends) (use live in \<open>simp only: append_entry_sel simp_thms\<close>)
    then obtain new where "entries ?s2 = (entries s @ [?x]) @ new"
      using live G(1) s0(1) by (auto simp: extends_def)
    then have "?x \<in> set (drop (length (entries s)) (entries ?s2))" by simp
    moreover have "entries s' = shift_chain eid1 (int (length (entries ?s2) - length (entries s))) (take (length (entries s)) (entries ?s2))
        @ drop (length (entries s)) (entries ?s2)" "eid = eid1"
      using assms(1) True
      by (auto simp: traceCallStack_def c g Let_def G(1) s0(1) entries_def [of "_\<lparr>errorChains := _\<rparr>"])
    ultimately show ?thesis using G(4) True f by (intro bexI [of _ ?x]) auto
  qed
qed

theorem traceCallStack_records_witness:
  "\<exists>ec \<in> set (entries (snd (snd (traceCallStack counting_errors 5 None [] 2 [] 0 0 0 new_chain_state)))).
     exceptionId ec = 1 \<and> err ec = 2 \<and> depth ec = 0"
proof -
  let ?r = "traceCallStack counting_errors 5 None [] 2 [] 0 0 0 new_chain_state"
  have "fst ?r = 1" by code_simp
  then have "?r = (1, fst (snd ?r), snd (snd ?r))" by (metis prod.collapse)
  moreover have "findError counting_errors new_chain_state (2 :: nat) = None" by code_simp
  ultimately show ?thesis
    using traceCallStack_records [of counting_errors 5 None "[]" 2 "[]" 0 0 0 new_chain_state 1 "fst (snd ?r)" "snd (snd ?r)"]
    by (simp add: noExceptionChainId_def)
qed

lemma addRefusedChainHead_head:
  assumes "refused_ok s" and "sameError E e e"
  shows "isRefusedChainHead E (addRefusedChainHead E e s) e"
proof (cases "isRefusedChainHead E s e \<or> length (refusedChainHeads s) < maxRefusedChainHeads")
  case True
  then show ?thesis using assms(2) by (auto simp: addRefusedChainHead_def isRefusedChainHead_def)
next
  case False
  then have "refusedChainNext s < length (refusedChainHeads s)" using assms(1) by (auto simp: refused_ok_def)
  then have "e \<in> set ((refusedChainHeads s)[refusedChainNext s := e])" by (rule set_update_memI)
  then show ?thesis using False assms(2) by (auto simp: addRefusedChainHead_def isRefusedChainHead_def list_ex_iff)
qed

lemma join_walk_refused: "join_walk E s k e True = (j, r) \<Longrightarrow> r"
  by (induction k arbitrary: e j r) (auto split: option.splits if_splits)

text \<open>
  A refusal by the rate limiter sticks to its error: once \<open>getExceptionChainId\<close> has refused a new chain
  for an error (one that compares equal to itself), asking again for it gives no id, whatever the limiter
  would answer then, and leaves the generator and the state alone.
\<close>

theorem refused_chain_sticks:
  assumes "chain_inv E m gen s" and "sameError E e e" and "findError E s e = None"
    and "fst (join_walk E s m e (isRefusedChainHead E s e)) = None"
    and "getExceptionChainId E m (Some False) e gen s = (r, gen', s')"
  shows "r = (noExceptionChainId, False)
    \<and> getExceptionChainId E m permit e gen' s' = ((noExceptionChainId, False), gen', s')"
proof -
  have ok: "refused_ok s" using assms(1) by (simp add: chain_inv_def)
  obtain rf where w: "join_walk E s m e (isRefusedChainHead E s e) = (None, rf)"
    using assms(4) by (metis prod.collapse)
  then have r: "r = (noExceptionChainId, False)" "gen' = gen" and s': "s' = s \<or> s' = addRefusedChainHead E e s"
    and "rf \<Longrightarrow> s' = s" "\<not> rf \<Longrightarrow> s' = addRefusedChainHead E e s"
    using assms(3,5) by (auto simp: getExceptionChainId_def split: if_splits)
  have ent: "entries s' = entries s" using s' by auto
  have same: "findError E s' x = findError E s x" for x by (rule findError_entries [OF ent])
  have walk: "fst (join_walk E s k x c) = None \<Longrightarrow> fst (join_walk E s' k x b) = None" for k x b c
    by (induction k arbitrary: x b c) (auto simp: same split: option.splits if_splits)
  obtain rf' where w': "join_walk E s' m e (isRefusedChainHead E s' e) = (None, rf')"
    using walk [of m e "isRefusedChainHead E s e"] w by (metis fst_conv prod.collapse)
  have "rf'"
  proof (cases rf)
    case True
    with \<open>rf \<Longrightarrow> s' = s\<close> w w' show ?thesis by simp
  next
    case False
    then have "isRefusedChainHead E s' e"
      using addRefusedChainHead_head [OF ok assms(2)] \<open>\<not> rf \<Longrightarrow> s' = addRefusedChainHead E e s\<close> by simp
    with w' join_walk_refused [of E s' m e None rf'] show ?thesis by simp
  qed
  then show ?thesis using r assms(3) by (simp add: getExceptionChainId_def same w')
qed

theorem refused_chain_sticks_witness:
  "getExceptionChainId counting_errors 5 (Some True) 3 0
     (snd (snd (getExceptionChainId counting_errors 5 (Some False) 3 0 new_chain_state)))
   = ((noExceptionChainId, False), 0, snd (snd (getExceptionChainId counting_errors 5 (Some False) 3 0 new_chain_state)))"
proof -
  let ?g = "getExceptionChainId counting_errors 5 (Some False) (3 :: nat) 0 new_chain_state"
  have "fst (snd ?g) = 0" by code_simp
  then have g: "?g = (fst ?g, 0, snd (snd ?g))" by (metis prod.collapse)
  have "sameError counting_errors (3 :: nat) 3" "findError counting_errors new_chain_state (3 :: nat) = None"
    "fst (join_walk counting_errors new_chain_state 5 (3 :: nat) (isRefusedChainHead counting_errors new_chain_state 3)) = None"
    by code_simp+
  then show ?thesis
    using refused_chain_sticks [OF new_chain_inv [of 0 counting_errors 5] _ _ _ g, of "Some True"]
    by simp
qed

end
