(* ===== verification/Span_Event.thy ===== *)
theory Span_Event
  imports Go_Strings Error_Rules
begin

text \<open>
  Annotations (\<^verbatim>\<open>src/annotation.go\<close>) and the span event record with its own setters (\<^verbatim>\<open>src/span_event.go\<close>).
  Times are milliseconds, read from the clock by the caller. The setters that also reach into the span
  (\<open>end\<close>, \<open>SetError\<close>) are in \<^verbatim>\<open>Span\<close>. The protobuf form of an annotation is in \<^verbatim>\<open>Span_Message\<close>.
\<close>

section \<open>Annotations\<close>

datatype annotationValue =
    AInt go_int32 go_int32
  | ALong go_int32 go_int64
  | AString go_int32 string
  | AStringString go_int32 string string
  | AIntStringString go_int32 go_int32 string string
  | ABytesStringString go_int32 string string string
  | ALongIntIntByteByteString go_int32 go_int64 go_int32 go_int32 go_int32 go_int32 string

record annotation =
  vals :: "annotationValue list"
  sealed :: bool

definition new_annotation :: annotation where
  "new_annotation = \<lparr>vals = [], sealed = False\<rparr>"

definition annotation_append :: "annotationValue \<Rightarrow> annotation \<Rightarrow> annotation" where
  "annotation_append v a = (if sealed a then a else a\<lparr>vals := vals a @ [v]\<rparr>)"

definition seal :: "annotation \<Rightarrow> annotation" where
  "seal a = a\<lparr>sealed := True\<rparr>"

definition AppendInt :: "go_int32 \<Rightarrow> go_int32 \<Rightarrow> annotation \<Rightarrow> annotation" where
  "AppendInt key i = annotation_append (AInt key i)"

definition AppendLong :: "go_int32 \<Rightarrow> go_int64 \<Rightarrow> annotation \<Rightarrow> annotation" where
  "AppendLong key l = annotation_append (ALong key l)"

definition AppendString :: "go_int32 \<Rightarrow> string \<Rightarrow> annotation \<Rightarrow> annotation" where
  "AppendString key s = annotation_append (AString key s)"

definition AppendStringString :: "go_int32 \<Rightarrow> string \<Rightarrow> string \<Rightarrow> annotation \<Rightarrow> annotation" where
  "AppendStringString key s1 s2 = annotation_append (AStringString key s1 s2)"

definition AppendIntStringString :: "go_int32 \<Rightarrow> go_int32 \<Rightarrow> string \<Rightarrow> string \<Rightarrow> annotation \<Rightarrow> annotation" where
  "AppendIntStringString key i s1 s2 = annotation_append (AIntStringString key i s1 s2)"

definition AppendBytesStringString :: "go_int32 \<Rightarrow> string \<Rightarrow> string \<Rightarrow> string \<Rightarrow> annotation \<Rightarrow> annotation" where
  "AppendBytesStringString key bs s1 s2 = annotation_append (ABytesStringString key bs s1 s2)"

definition AppendLongIntIntByteByteString ::
  "go_int32 \<Rightarrow> go_int64 \<Rightarrow> go_int32 \<Rightarrow> go_int32 \<Rightarrow> go_int32 \<Rightarrow> go_int32 \<Rightarrow> string \<Rightarrow> annotation \<Rightarrow> annotation" where
  "AppendLongIntIntByteByteString key l i1 i2 b1 b2 s = annotation_append (ALongIntIntByteByteString key l i1 i2 b1 b2 s)"

definition AnnotationExceptionChainId :: go_int32 where "AnnotationExceptionChainId = - 52"
definition AnnotationSqlId :: go_int32 where "AnnotationSqlId = 20"
definition AnnotationSqlUid :: go_int32 where "AnnotationSqlUid = 25"

definition maxAnnotationListItems :: nat where "maxAnnotationListItems = 32"

text \<open>\<open>AnnotationList\<close>: the loop with \<open>n - i\<close> items to go.\<close>

fun annotation_list_from :: "nat \<Rightarrow> (nat \<Rightarrow> string) \<Rightarrow> nat \<Rightarrow> nat \<Rightarrow> string" where
  "annotation_list_from n item i 0 = []"
| "annotation_list_from n item i (Suc k) =
     (if i = maxAnnotationListItems then '', ...('' @ FormatInt (int n - int maxAnnotationListItems) @ '' more)''
      else (if i \<noteq> 0 then '', '' else []) @ item i @ annotation_list_from n item (i + 1) k)"

definition AnnotationList :: "int \<Rightarrow> (nat \<Rightarrow> string) \<Rightarrow> string" where
  "AnnotationList n item = annotation_list_from (nat n) item 0 (nat n)"

section \<open>Span events\<close>

definition noneSpanId :: go_int64 where "noneSpanId = - 1"
definition noneAsyncId :: go_int32 where "noneAsyncId = 0"
definition ServiceTypeGoApp :: go_int32 where "ServiceTypeGoApp = 1800"
definition ServiceTypeGoFunction :: go_int32 where "ServiceTypeGoFunction = 1801"
definition ServiceTypeAsync :: go_int32 where "ServiceTypeAsync = 100"
definition maxErrorMessageSize :: nat where "maxErrorMessageSize = 256"

record spanEvent =
  ev_serviceType :: go_int32
  sequence :: int
  ev_depth :: int
  ev_startTime :: int
  startElapsed :: int
  endElapsed :: int
  ev_operationName :: string
  nextSpanId :: go_int64
  ev_annotations :: annotation
  ev_endPoint :: string
  destinationId :: string
  ev_errorFuncId :: go_int32
  ev_errorString :: string
  ev_asyncId :: go_int32
  asyncSeqGen :: go_int32
  ev_apiId :: go_int32
  isTimeFixed :: bool
  ev_finished :: bool

definition defaultSpanEvent :: "int \<Rightarrow> string \<Rightarrow> int \<Rightarrow> int \<Rightarrow> spanEvent" where
  "defaultSpanEvent now op sq d =
     \<lparr>ev_serviceType = ServiceTypeGoFunction, sequence = sq, ev_depth = d, ev_startTime = now, startElapsed = 0,
      endElapsed = 0, ev_operationName = op, nextSpanId = noneSpanId, ev_annotations = new_annotation,
      ev_endPoint = [], destinationId = [], ev_errorFuncId = 0, ev_errorString = [], ev_asyncId = noneAsyncId,
      asyncSeqGen = 0, ev_apiId = 0, isTimeFixed = False, ev_finished = False\<rparr>"

text \<open>A setter of a finished event does nothing (\<open>warnIfFinished\<close>).\<close>

definition unless_finished :: "(spanEvent \<Rightarrow> spanEvent) \<Rightarrow> spanEvent \<Rightarrow> spanEvent" where
  "unless_finished f se = (if ev_finished se then se else f se)"

definition ev_SetServiceType :: "go_int32 \<Rightarrow> spanEvent \<Rightarrow> spanEvent" where
  "ev_SetServiceType typ = unless_finished (\<lambda>se. se\<lparr>ev_serviceType := typ\<rparr>)"

definition SetDestination :: "string \<Rightarrow> spanEvent \<Rightarrow> spanEvent" where
  "SetDestination dest = unless_finished (\<lambda>se. se\<lparr>destinationId := dest\<rparr>)"

definition ev_SetEndPoint :: "string \<Rightarrow> spanEvent \<Rightarrow> spanEvent" where
  "ev_SetEndPoint ep = unless_finished (\<lambda>se. se\<lparr>ev_endPoint := ep\<rparr>)"

definition ev_annotate :: "(annotation \<Rightarrow> annotation) \<Rightarrow> spanEvent \<Rightarrow> spanEvent" where
  "ev_annotate f = unless_finished (\<lambda>se. se\<lparr>ev_annotations := f (ev_annotations se)\<rparr>)"

definition FixDuration :: "int \<Rightarrow> int \<Rightarrow> spanEvent \<Rightarrow> spanEvent" where
  "FixDuration start stop =
     unless_finished (\<lambda>se. se\<lparr>ev_startTime := start, endElapsed := max (stop - start) 0, isTimeFixed := True\<rparr>)"

text \<open>
  The event's own part of \<open>end\<close>; the first \<open>end\<close> also gives the depth back to the span (\<open>end_depth\<close>).
\<close>

definition ev_end :: "int \<Rightarrow> spanEvent \<Rightarrow> spanEvent" where
  "ev_end now se =
     (if ev_finished se then se
      else se\<lparr>ev_finished := True,
             endElapsed := (if isTimeFixed se then endElapsed se else max (now - ev_startTime se) 0),
             ev_annotations := seal (ev_annotations se)\<rparr>)"

definition end_depth :: "spanEvent \<Rightarrow> int" where
  "end_depth se = (if ev_finished se then 0 else 1)"

text \<open>A setter or \<open>end\<close> moves no event: sequence and depth are those it was created with.\<close>

definition same_position :: "spanEvent \<Rightarrow> spanEvent \<Rightarrow> bool" where
  "same_position a b \<longleftrightarrow> sequence a = sequence b \<and> ev_depth a = ev_depth b"

lemma ev_end_sel [simp]:
  "sequence (ev_end now se) = sequence se" "ev_depth (ev_end now se) = ev_depth se" "ev_finished (ev_end now se)"
  by (simp_all add: ev_end_def)

lemma annotation_append_sealed [simp]: "sealed a \<Longrightarrow> annotation_append v a = a"
  by (simp add: annotation_append_def)

end
