(* ===== verification/Url_Stat.thy ===== *)
theory Url_Stat
  imports Pinpoint_Prelude "HOL-Library.AList"
begin

text \<open>
  URL statistics (\<^verbatim>\<open>src/url_stat.go\<close>): the histograms, the snapshot of one 30 second tick, and \<open>urlStats\<close>, which
  collects the tick in progress, keeps the closed ticks in order until a send takes them and refuses to reopen a tick
  that was sent or evicted. Go's map from keys to entries is an association list with distinct keys. Counts and
  millisecond totals are integers: a tick's int32 bucket and int64 total do not overflow within 30 seconds.
\<close>

section \<open>Entries recorded by a request\<close>

record UrlStatEntry =
  Url :: string
  Method :: string

definition urlStatUnknown :: string where "urlStatUnknown = ''/NULL''"

definition mergeUrlStat :: "UrlStatEntry option \<Rightarrow> UrlStatEntry \<Rightarrow> UrlStatEntry" where
  "mergeUrlStat dst stat =
     (let keep = (case dst of None \<Rightarrow> False | Some d \<Rightarrow> Url d \<noteq> urlStatUnknown);
          stat' = (if Url stat = [] then stat\<lparr>Url := urlStatUnknown\<rparr> else stat)
      in case dst of Some d \<Rightarrow> if keep then stat'\<lparr>Url := Url d\<rparr> else stat' | None \<Rightarrow> stat')"

record urlStat_record =
  us_entry :: UrlStatEntry
  us_endTime :: time
  us_elapsed :: int
  us_statusErr :: int

section \<open>Histograms\<close>

definition urlStatBucketSize :: nat where "urlStatBucketSize = 8"
definition urlStatBucketBounds :: "int list" where "urlStatBucketBounds = [100, 300, 500, 1000, 3000, 5000, 8000]"

fun bucket_from :: "nat \<Rightarrow> int list \<Rightarrow> int \<Rightarrow> nat" where
  "bucket_from i [] t = i"
| "bucket_from i (b # bs) t = (if t < b then i else bucket_from (Suc i) bs t)"

definition getBucket :: "int \<Rightarrow> nat" where
  "getBucket t = bucket_from 0 urlStatBucketBounds t"

record urlStatHistogram =
  hg_total :: int
  hg_max :: int
  histogram :: "nat list"

definition empty_histogram :: urlStatHistogram where
  "empty_histogram = \<lparr>hg_total = 0, hg_max = 0, histogram = replicate urlStatBucketSize 0\<rparr>"

definition histogram_add :: "int \<Rightarrow> urlStatHistogram \<Rightarrow> urlStatHistogram" where
  "histogram_add el hg =
     (let e = max el 0; b = getBucket e
      in \<lparr>hg_total = hg_total hg + e, hg_max = (if hg_max hg < e then e else hg_max hg),
          histogram = (histogram hg)[b := histogram hg ! b + 1]\<rparr>)"

definition histogram_merge :: "urlStatHistogram \<Rightarrow> urlStatHistogram \<Rightarrow> urlStatHistogram" where
  "histogram_merge hg other =
     \<lparr>hg_total = hg_total hg + hg_total other, hg_max = (if hg_max hg < hg_max other then hg_max other else hg_max hg),
      histogram = map2 (+) (histogram hg) (histogram other)\<rparr>"

definition histogram_isEmpty :: "urlStatHistogram \<Rightarrow> bool" where
  "histogram_isEmpty hg \<longleftrightarrow> histogram hg = replicate urlStatBucketSize 0"

section \<open>The snapshot of a tick\<close>

definition urlStatCollectInterval :: duration where "urlStatCollectInterval = 30000000000"

definition Truncate :: "time \<Rightarrow> duration \<Rightarrow> time" where
  "Truncate t d = t - t mod d"

record urlKey =
  key_method :: string
  key_url :: string
  key_tick :: time

definition displayUrl :: "urlKey \<Rightarrow> string" where
  "displayUrl k = (if key_method k = [] then key_url k else key_method k @ '' '' @ key_url k)"

record eachUrlStat =
  each_url :: string
  totalHistogram :: urlStatHistogram
  failedHistogram :: urlStatHistogram
  tickTime :: time

definition newEachUrlStat :: "string \<Rightarrow> time \<Rightarrow> eachUrlStat" where
  "newEachUrlStat u t =
     \<lparr>each_url = u, totalHistogram = empty_histogram, failedHistogram = empty_histogram, tickTime = t\<rparr>"

text \<open>The two options a snapshot fixes when it is made.\<close>

record url_config =
  urlStatWithMethod :: bool
  urlStatLimitSize :: nat

record urlStatSnapshot =
  urlMap :: "(urlKey \<times> eachUrlStat) list"
  snap_config :: url_config
  snap_tick :: time

definition newSnapshot :: "url_config \<Rightarrow> urlStatSnapshot" where
  "newSnapshot c = \<lparr>urlMap = [], snap_config = c, snap_tick = 0\<rparr>"

definition snapshot_isEmpty :: "urlStatSnapshot \<Rightarrow> bool" where
  "snapshot_isEmpty s \<longleftrightarrow> length (urlMap s) = 0"

definition record_tick :: "urlStat_record \<Rightarrow> time" where
  "record_tick us = Truncate (us_endTime us) urlStatCollectInterval"

definition record_key :: "url_config \<Rightarrow> urlStat_record \<Rightarrow> urlKey" where
  "record_key c us =
     \<lparr>key_method = (if urlStatWithMethod c then Method (us_entry us) else []), key_url = Url (us_entry us),
      key_tick = record_tick us\<rparr>"

definition each_record :: "urlStat_record \<Rightarrow> eachUrlStat \<Rightarrow> eachUrlStat" where
  "each_record us e =
     (let e = e\<lparr>totalHistogram := histogram_add (us_elapsed us) (totalHistogram e)\<rparr>
      in if us_statusErr us \<noteq> 0 then e\<lparr>failedHistogram := histogram_add (us_elapsed us) (failedHistogram e)\<rparr> else e)"

definition snapshot_add :: "urlStat_record \<Rightarrow> urlStatSnapshot \<Rightarrow> urlStatSnapshot" where
  "snapshot_add us s =
     (if us_endTime us = 0 then s
      else
        let k = record_key (snap_config s) us; known = map_of (urlMap s) k
        in if known = None \<and> length (urlMap s) \<ge> urlStatLimitSize (snap_config s) then s
           else
             let e = (case known of Some e \<Rightarrow> e | None \<Rightarrow> newEachUrlStat (displayUrl k) (key_tick k))
             in s\<lparr>urlMap := AList.update k (each_record us e) (urlMap s),
                  snap_tick := (if snap_tick s < key_tick k then key_tick k else snap_tick s)\<rparr>)"

definition merge_entry :: "urlKey \<times> eachUrlStat \<Rightarrow> (urlKey \<times> eachUrlStat) list \<Rightarrow> (urlKey \<times> eachUrlStat) list" where
  "merge_entry ks m =
     (case map_of m (fst ks) of
        Some e \<Rightarrow> AList.update (fst ks)
                  (e\<lparr>totalHistogram := histogram_merge (totalHistogram e) (totalHistogram (snd ks)),
                     failedHistogram := histogram_merge (failedHistogram e) (failedHistogram (snd ks))\<rparr>) m
      | None \<Rightarrow> AList.update (fst ks) (snd ks) m)"

definition snapshot_merge :: "urlStatSnapshot \<Rightarrow> urlStatSnapshot \<Rightarrow> urlStatSnapshot" where
  "snapshot_merge s other =
     s\<lparr>urlMap := fold merge_entry (urlMap other) (urlMap s),
       snap_tick := (if snap_tick s < snap_tick other then snap_tick other else snap_tick s)\<rparr>"

section \<open>The statistics of an agent\<close>

definition maxCompletedUrlStatSnapshots :: nat where "maxCompletedUrlStatSnapshots = 5"

record urlStats =
  us_snapshot :: urlStatSnapshot
  us_completed :: "urlStatSnapshot list"
  retiredThrough :: time
  completedWake :: bool

definition newUrlStats :: "url_config \<Rightarrow> urlStats" where
  "newUrlStats c = \<lparr>us_snapshot = newSnapshot c, us_completed = [], retiredThrough = 0, completedWake = False\<rparr>"

text \<open>\<open>slices.SortFunc\<close> by tick; the ticks are distinct, so stability plays no part.\<close>

definition completeLocked :: "urlStatSnapshot \<Rightarrow> urlStats \<Rightarrow> urlStats" where
  "completeLocked s st =
     (let c = sort_key snap_tick (us_completed st @ [s]);
          st = (if length c > maxCompletedUrlStatSnapshots
                then st\<lparr>retiredThrough := snap_tick (c ! 0), us_completed := drop 1 c\<rparr>
                else st\<lparr>us_completed := c\<rparr>)
      in st\<lparr>completedWake := True\<rparr>)"

text \<open>The loop over the closed ticks: the first of the record's tick takes it, \<open>None\<close> when there is none.\<close>

fun add_completed :: "urlStat_record \<Rightarrow> urlStatSnapshot list \<Rightarrow> urlStatSnapshot list option" where
  "add_completed us [] = None"
| "add_completed us (c # cs) =
     (if record_tick us = snap_tick c then Some (snapshot_add us c # cs)
      else map_option ((#) c) (add_completed us cs))"

text \<open>\<open>c\<close> is the configuration \<open>newSnapshot\<close> would load.\<close>

definition urlStats_add :: "url_config \<Rightarrow> urlStat_record \<Rightarrow> urlStats \<Rightarrow> urlStats" where
  "urlStats_add c us st =
     (if us_endTime us = 0 then st
      else let t = record_tick us
        in if retiredThrough st \<noteq> 0 \<and> \<not> t > retiredThrough st then st
           else case add_completed us (us_completed st) of Some cs \<Rightarrow> st\<lparr>us_completed := cs\<rparr>
           | None \<Rightarrow>
               if \<not> snapshot_isEmpty (us_snapshot st) \<and> t < snap_tick (us_snapshot st)
               then completeLocked (snapshot_add us (newSnapshot c)) st
               else
                 let st = (if length (urlMap (us_snapshot st)) > 0 \<and> t > snap_tick (us_snapshot st)
                           then (completeLocked (us_snapshot st) st)\<lparr>us_snapshot := newSnapshot c\<rparr> else st)
                 in st\<lparr>us_snapshot := snapshot_add us (us_snapshot st)\<rparr>)"

definition tickIsOverLocked :: "time \<Rightarrow> urlStats \<Rightarrow> bool" where
  "tickIsOverLocked now st \<longleftrightarrow>
     \<not> snapshot_isEmpty (us_snapshot st) \<and> now > snap_tick (us_snapshot st) + urlStatCollectInterval"

definition takeSnapshot :: "url_config \<Rightarrow> time \<Rightarrow> bool \<Rightarrow> urlStats \<Rightarrow> urlStatSnapshot \<times> urlStats" where
  "takeSnapshot c now includeInProgress st =
     (let fresh = newSnapshot c;
          (taken, st) = (if includeInProgress \<or> tickIsOverLocked now st
                         then (us_snapshot st, st\<lparr>us_snapshot := fresh\<rparr>) else (fresh, st));
          taken = fold (\<lambda>closed t. snapshot_merge t closed) (us_completed st) taken;
          st = st\<lparr>us_completed := []\<rparr>
      in (taken,
          if \<not> snapshot_isEmpty taken \<and> snap_tick taken > retiredThrough st
          then st\<lparr>retiredThrough := snap_tick taken\<rparr> else st))"

section \<open>Invariants\<close>

text \<open>A snapshot holds one tick, each key once, and no more keys than its limit.\<close>

definition snap_ok :: "urlStatSnapshot \<Rightarrow> bool" where
  "snap_ok s \<longleftrightarrow>
     distinct (map fst (urlMap s)) \<and> (\<forall>k \<in> fst ` set (urlMap s). key_tick k = snap_tick s)
     \<and> length (urlMap s) \<le> urlStatLimitSize (snap_config s)"

definition closed_ok :: "time \<Rightarrow> urlStatSnapshot list \<Rightarrow> bool" where
  "closed_ok retired cs \<longleftrightarrow>
     sorted (map snap_tick cs) \<and> distinct (map snap_tick cs)
     \<and> (\<forall>s \<in> set cs. snap_ok s \<and> urlMap s \<noteq> [] \<and> retired < snap_tick s)"

text \<open>The tick in progress is newer than every closed one, and nothing is closed while nothing is in progress.\<close>

definition current_ok :: "urlStats \<Rightarrow> bool" where
  "current_ok st \<longleftrightarrow>
     snap_ok (us_snapshot st) \<and> 0 < urlStatLimitSize (snap_config (us_snapshot st))
     \<and> (if urlMap (us_snapshot st) = [] then us_completed st = [] \<and> snap_tick (us_snapshot st) = 0
        else retiredThrough st < snap_tick (us_snapshot st)
          \<and> (\<forall>s \<in> set (us_completed st). snap_tick s < snap_tick (us_snapshot st)))"

definition url_inv :: "urlStats \<Rightarrow> bool" where
  "url_inv st \<longleftrightarrow>
     closed_ok (retiredThrough st) (us_completed st) \<and> current_ok st
     \<and> length (us_completed st) \<le> maxCompletedUrlStatSnapshots \<and> 0 \<le> retiredThrough st"

lemma snap_ok_new [simp]: "snap_ok (newSnapshot c)" "urlMap (newSnapshot c) = []" "snap_config (newSnapshot c) = c"
  "snap_tick (newSnapshot c) = 0"
  by (simp_all add: snap_ok_def newSnapshot_def)

lemma length_update_alist:
  "length (AList.update k v m) = (if map_of m k = None then Suc (length m) else length m)"
  by (induction m) auto

lemma update_not_Nil [simp]: "AList.update k v m \<noteq> []"
  by (cases m) auto

text \<open>Adding a record of the snapshot's own tick, or the first record.\<close>

lemma snapshot_add_config [simp]: "snap_config (snapshot_add us s) = snap_config s"
  by (simp add: snapshot_add_def Let_def)

lemma snapshot_add_cases:
  obtains "snapshot_add us s = s" "us_endTime us \<noteq> 0 \<Longrightarrow>
      map_of (urlMap s) (record_key (snap_config s) us) = None \<and> length (urlMap s) \<ge> urlStatLimitSize (snap_config s)"
  | e where "us_endTime us \<noteq> 0"
    "snapshot_add us s = s\<lparr>urlMap := AList.update (record_key (snap_config s) us) (each_record us e) (urlMap s),
       snap_tick := max (snap_tick s) (record_tick us)\<rparr>"
    "map_of (urlMap s) (record_key (snap_config s) us) = None \<and> length (urlMap s) < urlStatLimitSize (snap_config s)
       \<and> e = newEachUrlStat (displayUrl (record_key (snap_config s) us)) (record_tick us)
     \<or> map_of (urlMap s) (record_key (snap_config s) us) = Some e"
proof (cases "us_endTime us = 0 \<or> (map_of (urlMap s) (record_key (snap_config s) us) = None
    \<and> length (urlMap s) \<ge> urlStatLimitSize (snap_config s))")
  case True
  then have "snapshot_add us s = s" by (auto simp: snapshot_add_def Let_def)
  with True that(1) show thesis by blast
next
  case False
  have key: "key_tick (record_key (snap_config s) us) = record_tick us" by (simp add: record_key_def)
  show thesis
  proof (cases "map_of (urlMap s) (record_key (snap_config s) us)")
    case None
    with False key that(2) [of "newEachUrlStat (displayUrl (record_key (snap_config s) us)) (record_tick us)"] show thesis
      by (simp add: snapshot_add_def Let_def max_def)
  next
    case (Some e)
    with False key that(2) [of e] show thesis by (simp add: snapshot_add_def Let_def max_def)
  qed
qed

lemma snapshot_add_ok:
  assumes "snap_ok s" "urlMap s \<noteq> [] \<longrightarrow> record_tick us = snap_tick s" "urlMap s = [] \<longrightarrow> snap_tick s = 0"
    and "0 < record_tick us"
  shows "snap_ok (snapshot_add us s)"
    and "urlMap s \<noteq> [] \<Longrightarrow> snap_tick (snapshot_add us s) = snap_tick s \<and> urlMap (snapshot_add us s) \<noteq> []"
    and "\<lbrakk>urlMap s = []; us_endTime us \<noteq> 0; 0 < urlStatLimitSize (snap_config s)\<rbrakk> \<Longrightarrow>
      snap_tick (snapshot_add us s) = record_tick us \<and> urlMap (snapshot_add us s) \<noteq> []"
proof -
  show "snap_ok (snapshot_add us s)"
  proof (cases rule: snapshot_add_cases [of us s])
    case (2 e)
    have "length (AList.update (record_key (snap_config s) us) (each_record us e) (urlMap s))
        \<le> urlStatLimitSize (snap_config s)"
      using assms(1) 2(3) by (auto simp: length_update_alist snap_ok_def)
    moreover have "max (snap_tick s) (record_tick us) = record_tick us" using assms(2-4) by fastforce
    ultimately show ?thesis
      using assms(1,2) by (auto simp: 2(2) snap_ok_def dom_update distinct_update record_key_def)
  qed (use assms(1) in simp)
  show "urlMap s \<noteq> [] \<Longrightarrow> snap_tick (snapshot_add us s) = snap_tick s \<and> urlMap (snapshot_add us s) \<noteq> []"
    using assms(2) by (cases rule: snapshot_add_cases [of us s]) auto
  show "\<lbrakk>urlMap s = []; us_endTime us \<noteq> 0; 0 < urlStatLimitSize (snap_config s)\<rbrakk> \<Longrightarrow>
      snap_tick (snapshot_add us s) = record_tick us \<and> urlMap (snapshot_add us s) \<noteq> []"
    using assms(3,4) by (cases rule: snapshot_add_cases [of us s]) auto
qed

lemma add_completed_ok:
  assumes "closed_ok r cs" "add_completed us cs = Some cs'" "0 < record_tick us"
  shows "closed_ok r cs' \<and> map snap_tick cs' = map snap_tick cs"
  using assms
proof (induction cs arbitrary: cs')
  case (Cons c cs)
  have c: "snap_ok c" "urlMap c \<noteq> []" "r < snap_tick c" and cs: "closed_ok r cs"
    using Cons.prems(1) by (auto simp: closed_ok_def)
  show ?case
  proof (cases "record_tick us = snap_tick c")
    case True
    then show ?thesis
      using Cons.prems c snapshot_add_ok(1,2) [of c us] by (auto simp: closed_ok_def)
  next
    case False
    then obtain ds where ds: "add_completed us cs = Some ds" "cs' = c # ds" using Cons.prems(2) by auto
    from Cons.IH [OF cs ds(1) Cons.prems(3)] have "closed_ok r ds" "map snap_tick ds = map snap_tick cs" by auto
    moreover from this(2) have "snap_tick ` set ds = snap_tick ` set cs" by (metis image_set)
    ultimately show ?thesis
      using Cons.prems(1) ds(2) by (auto simp: closed_ok_def)
  qed
qed simp

lemma add_completed_None: "add_completed us cs = None \<Longrightarrow> record_tick us \<notin> snap_tick ` set cs"
  by (induction cs) (auto split: if_splits)

lemma closed_ok_insert:
  assumes "closed_ok r cs" "snap_ok s" "urlMap s \<noteq> []" "r < snap_tick s" "snap_tick s \<notin> snap_tick ` set cs"
  shows "closed_ok r (sort_key snap_tick (cs @ [s]))"
proof -
  have "distinct (map snap_tick (sort_key snap_tick (cs @ [s]))) = distinct (map snap_tick (cs @ [s]))"
    by (metis mset_eq_imp_distinct_iff mset_map mset_sort)
  with assms show ?thesis by (auto simp: closed_ok_def)
qed

lemma closed_ok_drop:
  assumes "closed_ok r (s # cs)"
  shows "closed_ok (snap_tick s) cs"
  using assms by (auto simp: closed_ok_def order.not_eq_order_implies_strict image_iff)

lemma completeLocked_ok:
  assumes "closed_ok (retiredThrough st) (us_completed st)" "length (us_completed st) \<le> maxCompletedUrlStatSnapshots"
    and "snap_ok s" "urlMap s \<noteq> []" "retiredThrough st < snap_tick s" "snap_tick s \<notin> snap_tick ` set (us_completed st)"
    and "0 \<le> retiredThrough st"
  shows "closed_ok (retiredThrough (completeLocked s st)) (us_completed (completeLocked s st))
    \<and> length (us_completed (completeLocked s st)) \<le> maxCompletedUrlStatSnapshots
    \<and> 0 \<le> retiredThrough (completeLocked s st) \<and> retiredThrough st \<le> retiredThrough (completeLocked s st)
    \<and> us_snapshot (completeLocked s st) = us_snapshot st
    \<and> (\<forall>b. (\<forall>c \<in> set (us_completed st). snap_tick c < b) \<and> snap_tick s < b \<longrightarrow>
         retiredThrough (completeLocked s st) < b \<and> (\<forall>c \<in> set (us_completed (completeLocked s st)). snap_tick c < b))"
proof -
  define c where "c = sort_key snap_tick (us_completed st @ [s])"
  have ok: "closed_ok (retiredThrough st) c" unfolding c_def by (rule closed_ok_insert) (use assms in auto)
  have len: "length c = Suc (length (us_completed st))" by (simp add: c_def)
  then obtain x xs where c: "c = x # xs" by (cases c) auto
  have set: "set c = insert s (set (us_completed st))" by (simp add: c_def)
  show ?thesis
  proof (cases "length c > maxCompletedUrlStatSnapshots")
    case True
    then have st': "completeLocked s st = st\<lparr>retiredThrough := snap_tick x, us_completed := xs, completedWake := True\<rparr>"
      by (simp add: completeLocked_def Let_def c_def [symmetric] c)
    moreover have "retiredThrough st < snap_tick x" using ok c by (auto simp: closed_ok_def)
    ultimately show ?thesis
      using closed_ok_drop [of "retiredThrough st" x xs] ok c set assms(2,7) len by auto
  next
    case False
    then have "completeLocked s st = st\<lparr>us_completed := c, completedWake := True\<rparr>"
      by (simp add: completeLocked_def Let_def c_def [symmetric])
    then show ?thesis using ok set False assms(5,7) by auto
  qed
qed

definition record_ok :: "urlStat_record \<Rightarrow> bool" where
  "record_ok us \<longleftrightarrow> urlStatCollectInterval \<le> us_endTime us"

lemma record_ok_tick: "record_ok us \<Longrightarrow> 0 < record_tick us \<and> us_endTime us \<noteq> 0"
  by (auto simp: record_ok_def record_tick_def Truncate_def urlStatCollectInterval_def)

lemma url_inv_new: "0 < urlStatLimitSize c \<Longrightarrow> url_inv (newUrlStats c)"
  by (simp add: url_inv_def newUrlStats_def closed_ok_def current_ok_def)

text \<open>The tick a record extends is one in progress or closed, or a new one that no send and no eviction has retired.\<close>

lemma urlStats_add_inv:
  assumes inv: "url_inv st" and us: "record_ok us" and c: "0 < urlStatLimitSize c"
  shows "url_inv (urlStats_add c us st) \<and> retiredThrough st \<le> retiredThrough (urlStats_add c us st)"
proof -
  note t = record_ok_tick [OF us]
  let ?cur = "us_snapshot st" and ?t = "record_tick us"
  have kept: "closed_ok (retiredThrough st) (us_completed st)" "length (us_completed st) \<le> maxCompletedUrlStatSnapshots"
      "0 \<le> retiredThrough st" and cur: "current_ok st"
    using inv by (auto simp: url_inv_def)
  consider (late) "retiredThrough st \<noteq> 0" "?t \<le> retiredThrough st"
    | (closed) cs where "retiredThrough st < ?t" "add_completed us (us_completed st) = Some cs"
    | (older) "retiredThrough st < ?t" "add_completed us (us_completed st) = None" "urlMap ?cur \<noteq> []" "?t < snap_tick ?cur"
    | (newer) "retiredThrough st < ?t" "add_completed us (us_completed st) = None" "urlMap ?cur \<noteq> []" "?t > snap_tick ?cur"
    | (same) "retiredThrough st < ?t" "add_completed us (us_completed st) = None" "urlMap ?cur \<noteq> [] \<longrightarrow> ?t = snap_tick ?cur"
    using t kept(3) by (cases "add_completed us (us_completed st)") fastforce+
  then show ?thesis
  proof cases
    case late
    then have "urlStats_add c us st = st" using t by (simp add: urlStats_add_def Let_def)
    with inv show ?thesis by simp
  next
    case (closed cs)
    then have st': "urlStats_add c us st = st\<lparr>us_completed := cs\<rparr>" using t by (simp add: urlStats_add_def Let_def)
    from add_completed_ok [OF kept(1) closed(2)] t have cs: "closed_ok (retiredThrough st) cs"
      "map snap_tick cs = map snap_tick (us_completed st)" by auto
    then have img: "snap_tick ` set cs = snap_tick ` set (us_completed st)" and len: "length cs = length (us_completed st)"
      by (metis image_set, metis length_map)
    have "(\<forall>s \<in> set cs. snap_tick s < b) = (\<forall>x \<in> snap_tick ` set cs. x < b)" for b by auto
    then have "(\<forall>s \<in> set cs. snap_tick s < b) = (\<forall>s \<in> set (us_completed st). snap_tick s < b)" for b
      by (simp add: img)
    moreover have "cs = [] \<longleftrightarrow> us_completed st = []" using len by auto
    ultimately show ?thesis using st' cs inv len by (simp add: url_inv_def current_ok_def)
  next
    case older
    then have st': "urlStats_add c us st = completeLocked (snapshot_add us (newSnapshot c)) st"
      using t by (simp add: urlStats_add_def Let_def snapshot_isEmpty_def)
    have s: "snap_ok (snapshot_add us (newSnapshot c))" "urlMap (snapshot_add us (newSnapshot c)) \<noteq> []"
      "snap_tick (snapshot_add us (newSnapshot c)) = ?t"
      using snapshot_add_ok(1,3) [of "newSnapshot c" us] t c by auto
    from completeLocked_ok [OF kept(1,2) s(1,2) _ _ kept(3)] s(3) older(1) add_completed_None [OF older(2)]
    show ?thesis
      using older cur by (auto simp: st' url_inv_def current_ok_def split: if_splits)
  next
    case newer
    define st1 where "st1 = completeLocked ?cur st"
    have st': "urlStats_add c us st = st1\<lparr>us_snapshot := snapshot_add us (newSnapshot c)\<rparr>"
      using t newer by (auto simp: urlStats_add_def Let_def snapshot_isEmpty_def st1_def)
    have curr: "snap_ok ?cur" "retiredThrough st < snap_tick ?cur" "\<forall>s \<in> set (us_completed st). snap_tick s < snap_tick ?cur"
      using cur newer(3) by (auto simp: current_ok_def)
    have s: "snap_ok (snapshot_add us (newSnapshot c))" "urlMap (snapshot_add us (newSnapshot c)) \<noteq> []"
      "snap_tick (snapshot_add us (newSnapshot c)) = ?t"
      using snapshot_add_ok(1,3) [of "newSnapshot c" us] t c by auto
    have below: "\<forall>s \<in> set (us_completed st). snap_tick s < ?t" using curr(3) newer(4) by fastforce
    have fresh: "snap_tick ?cur \<notin> snap_tick ` set (us_completed st)" using curr(3) by auto
    have st1: "closed_ok (retiredThrough st1) (us_completed st1)" "length (us_completed st1) \<le> maxCompletedUrlStatSnapshots"
      "0 \<le> retiredThrough st1" "retiredThrough st \<le> retiredThrough st1" "retiredThrough st1 < ?t"
      "\<forall>s \<in> set (us_completed st1). snap_tick s < ?t"
      using completeLocked_ok [OF kept(1,2) curr(1) newer(3) curr(2) fresh kept(3)] below newer(4)
      unfolding st1_def by blast+
    then show ?thesis using s c by (simp add: st' url_inv_def current_ok_def)
  next
    case same
    then have st': "urlStats_add c us st = st\<lparr>us_snapshot := snapshot_add us ?cur\<rparr>"
      using t by (auto simp: urlStats_add_def Let_def snapshot_isEmpty_def)
    have ok: "snap_ok ?cur" "0 < urlStatLimitSize (snap_config ?cur)" "urlMap ?cur = [] \<longrightarrow> snap_tick ?cur = 0"
      using cur by (auto simp: current_ok_def)
    show ?thesis
      using snapshot_add_ok [OF ok(1) same(3) ok(3)] t ok(2) same inv
      by (cases "urlMap ?cur = []") (auto simp: st' url_inv_def current_ok_def)
  qed
qed

text \<open>What a send takes.\<close>

definition ticks_of :: "urlStatSnapshot \<Rightarrow> time set" where
  "ticks_of s = key_tick ` fst ` set (urlMap s)"

lemma merge_entry_keys: "fst ` set (merge_entry ks m) = insert (fst ks) (fst ` set m)"
  by (auto simp: merge_entry_def dom_update split: option.splits)

lemma merge_entry_distinct: "distinct (map fst m) \<Longrightarrow> distinct (map fst (merge_entry ks m))"
  by (auto simp: merge_entry_def distinct_update split: option.splits)

lemma fold_merge_keys: "fst ` set (fold merge_entry kss m) = fst ` set kss \<union> fst ` set m"
  by (induction kss arbitrary: m) (auto simp: merge_entry_keys)

lemma fold_merge_distinct: "distinct (map fst m) \<Longrightarrow> distinct (map fst (fold merge_entry kss m))"
  by (induction kss arbitrary: m) (auto simp: merge_entry_distinct)

lemma snapshot_merge_simps:
  "ticks_of (snapshot_merge s other) = ticks_of other \<union> ticks_of s"
  "snap_tick (snapshot_merge s other) = max (snap_tick s) (snap_tick other)"
  by (auto simp: ticks_of_def snapshot_merge_def fold_merge_keys image_Un max_def)

abbreviation merge_all :: "urlStatSnapshot list \<Rightarrow> urlStatSnapshot \<Rightarrow> urlStatSnapshot" where
  "merge_all cs s \<equiv> fold (\<lambda>closed t. snapshot_merge t closed) cs s"

lemma merge_all_ticks: "ticks_of (merge_all cs s) = (\<Union>c \<in> set cs. ticks_of c) \<union> ticks_of s"
  by (induction cs arbitrary: s) (auto simp: snapshot_merge_simps)

lemma merge_all_tick: "snap_tick s \<le> snap_tick (merge_all cs s) \<and> (\<forall>c \<in> set cs. snap_tick c \<le> snap_tick (merge_all cs s))"
proof (induction cs arbitrary: s)
  case (Cons c cs)
  from Cons.IH [of "snapshot_merge s c"] show ?case by (auto simp: snapshot_merge_simps)
qed simp

lemma merge_all_tick_bound:
  "snap_tick s < b \<Longrightarrow> \<forall>c \<in> set cs. snap_tick c < b \<Longrightarrow> snap_tick (merge_all cs s) < b"
  by (induction cs arbitrary: s) (auto simp: snapshot_merge_simps)

lemma ticks_of_ok: "snap_ok s \<Longrightarrow> ticks_of s \<subseteq> {snap_tick s}"
  by (auto simp: snap_ok_def ticks_of_def)

lemma ticks_of_empty: "ticks_of s = {} \<longleftrightarrow> urlMap s = []"
  by (simp add: ticks_of_def)

lemma takeSnapshot_ok:
  assumes inv: "url_inv st" and c: "0 < urlStatLimitSize c" and take: "takeSnapshot c now incl st = (taken, st')"
  shows "url_inv st' \<and> retiredThrough st \<le> retiredThrough st'
    \<and> ticks_of taken \<subseteq> {x. retiredThrough st < x \<and> x \<le> retiredThrough st'}"
proof -
  define cur where "cur = us_snapshot st"
  define whole where "whole = (incl \<or> tickIsOverLocked now st)"
  define base where "base = (if whole then cur else newSnapshot c)"
  have taken: "taken = merge_all (us_completed st) base"
    using take by (auto simp: takeSnapshot_def Let_def base_def whole_def cur_def split: if_splits)
  have st': "us_completed st' = []" "us_snapshot st' = (if whole then newSnapshot c else cur)"
      "retiredThrough st' = (if urlMap taken \<noteq> [] \<and> snap_tick taken > retiredThrough st then snap_tick taken else retiredThrough st)"
    using take taken
    by (auto simp: takeSnapshot_def Let_def base_def whole_def cur_def snapshot_isEmpty_def split: if_splits)
  have closed: "\<forall>s \<in> set (us_completed st). snap_ok s \<and> retiredThrough st < snap_tick s"
      and cur: "snap_ok cur" "urlMap cur \<noteq> [] \<Longrightarrow> retiredThrough st < snap_tick cur"
        "urlMap cur \<noteq> [] \<Longrightarrow> \<forall>s \<in> set (us_completed st). snap_tick s < snap_tick cur"
    using inv by (auto simp: url_inv_def closed_ok_def current_ok_def cur_def)
  have base: "snap_ok base" "urlMap base \<noteq> [] \<Longrightarrow> retiredThrough st < snap_tick base"
    using cur by (auto simp: base_def)
  have ticks: "x \<le> snap_tick taken \<and> retiredThrough st < x" if "x \<in> ticks_of taken" for x
  proof -
    from that consider s where "s \<in> set (us_completed st)" "x \<in> ticks_of s" | "x \<in> ticks_of base"
      unfolding taken merge_all_ticks by auto
    then show ?thesis
    proof cases
      case 1
      then have "x = snap_tick s" using closed ticks_of_ok by blast
      with 1 closed merge_all_tick [of base "us_completed st"] show ?thesis by (auto simp: taken)
    next
      case 2
      then have "x = snap_tick base" "urlMap base \<noteq> []" using base(1) ticks_of_ok ticks_of_empty by blast+
      with base(2) merge_all_tick [of base "us_completed st"] show ?thesis by (auto simp: taken)
    qed
  qed
  have sub: "ticks_of taken \<subseteq> {x. retiredThrough st < x \<and> x \<le> retiredThrough st'}"
  proof
    fix x assume x: "x \<in> ticks_of taken"
    then have "urlMap taken \<noteq> []" using ticks_of_empty by blast
    with ticks [OF x] st'(3) show "x \<in> {x. retiredThrough st < x \<and> x \<le> retiredThrough st'}" by auto
  qed
  have "retiredThrough st' < snap_tick cur" if "\<not> whole" "urlMap cur \<noteq> []"
  proof -
    have "0 < snap_tick cur" using inv cur(2) [OF that(2)] by (simp add: url_inv_def)
    then have "snap_tick taken < snap_tick cur"
      unfolding taken by (intro merge_all_tick_bound) (use that cur(3) in \<open>auto simp: base_def\<close>)
    with cur(2) [OF that(2)] st'(3) show ?thesis by simp
  qed
  then have "current_ok st'"
    using inv c st' cur(1) by (auto simp: current_ok_def url_inv_def cur_def)
  with st' inv sub show ?thesis by (auto simp: url_inv_def closed_ok_def)
qed

section \<open>Properties\<close>

datatype url_op = Add url_config urlStat_record | Take url_config time bool

fun op_ok :: "url_op \<Rightarrow> bool" where
  "op_ok (Add c us) = (0 < urlStatLimitSize c \<and> record_ok us)"
| "op_ok (Take c now incl) = (0 < urlStatLimitSize c)"

fun url_do :: "url_op \<Rightarrow> urlStats \<times> urlStatSnapshot list \<Rightarrow> urlStats \<times> urlStatSnapshot list" where
  "url_do (Add c us) (st, sent) = (urlStats_add c us st, sent)"
| "url_do (Take c now incl) (st, sent) = (case takeSnapshot c now incl st of (taken, st') \<Rightarrow> (st', sent @ [taken]))"

definition sent_in_order :: "urlStatSnapshot list \<Rightarrow> bool" where
  "sent_in_order sent \<longleftrightarrow> sorted_wrt (\<lambda>a b. \<forall>x \<in> ticks_of a. \<forall>y \<in> ticks_of b. x < y) sent"

definition url_run_inv :: "urlStats \<times> urlStatSnapshot list \<Rightarrow> bool" where
  "url_run_inv p \<longleftrightarrow>
     url_inv (fst p) \<and> sent_in_order (snd p) \<and> (\<forall>s \<in> set (snd p). \<forall>x \<in> ticks_of s. x \<le> retiredThrough (fst p))"

lemma url_do_inv:
  assumes "url_run_inv p" "op_ok op"
  shows "url_run_inv (url_do op p)"
proof -
  obtain st sent where p: "p = (st, sent)" by (cases p)
  show ?thesis
  proof (cases op)
    case (Add c us)
    with assms p urlStats_add_inv [of st us c] show ?thesis by (fastforce simp: url_run_inv_def)
  next
    case (Take c now incl)
    obtain taken st' where take: "takeSnapshot c now incl st = (taken, st')" by (cases "takeSnapshot c now incl st")
    from assms p Take have "url_inv st" "0 < urlStatLimitSize c" by (auto simp: url_run_inv_def)
    from takeSnapshot_ok [OF this take] show ?thesis
      using assms(1) p Take take by (fastforce simp: url_run_inv_def sent_in_order_def sorted_wrt_append)
  qed
qed

lemma url_run_inv: "url_run_inv p \<Longrightarrow> list_all op_ok ops \<Longrightarrow> url_run_inv (fold url_do ops p)"
  by (induction ops arbitrary: p) (auto simp: url_do_inv)

text \<open>
  No tick is sent twice. Over any interleaving of records - on time, late, for ticks closed, retired or new - with
  sends, every message holds only ticks strictly newer than those of the messages before it, so the collector never
  overwrites one part of a tick's counts with another. The configuration keeps the limit positive.
\<close>

theorem url_ticks_sent_once:
  assumes "list_all op_ok ops" "0 < urlStatLimitSize c"
  shows "sorted_wrt (\<lambda>a b. \<forall>x \<in> ticks_of a. \<forall>y \<in> ticks_of b. x < y) (snd (fold url_do ops (newUrlStats c, [])))"
proof -
  have "url_run_inv (newUrlStats c, [])"
    using assms(2) by (simp add: url_run_inv_def url_inv_new sent_in_order_def)
  from url_run_inv [OF this assms(1)] show ?thesis by (simp add: url_run_inv_def sent_in_order_def)
qed

definition request_at :: "time \<Rightarrow> urlStat_record" where
  "request_at t = \<lparr>us_entry = \<lparr>Url = ''/a'', Method = ''GET''\<rparr>, us_endTime = t, us_elapsed = 120, us_statusErr = 0\<rparr>"

definition two_urls :: url_config where
  "two_urls = \<lparr>urlStatWithMethod = False, urlStatLimitSize = 2\<rparr>"

definition busy_ops :: "url_op list" where
  "busy_ops = map (\<lambda>t. Add two_urls (request_at (t * 30000000000))) [5, 7, 6] @
     [Take two_urls 0 False, Add two_urls (request_at 150000000000), Take two_urls 0 True]"

theorem url_ticks_sent_once_witness:
  "map (\<lambda>s. map (key_tick \<circ> fst) (urlMap s)) (snd (fold url_do busy_ops (newUrlStats two_urls, [])))
     = [[150000000000, 180000000000], [210000000000]]
   \<and> sorted_wrt (\<lambda>a b. \<forall>x \<in> ticks_of a. \<forall>y \<in> ticks_of b. x < y) (snd (fold url_do busy_ops (newUrlStats two_urls, [])))"
proof (rule conjI)
  show "map (\<lambda>s. map (key_tick \<circ> fst) (urlMap s)) (snd (fold url_do busy_ops (newUrlStats two_urls, [])))
     = [[150000000000, 180000000000], [210000000000]]"
    by code_simp
  have "list_all op_ok busy_ops"
    by (simp add: busy_ops_def two_urls_def record_ok_def request_at_def urlStatCollectInterval_def)
  then show "sorted_wrt (\<lambda>a b. \<forall>x \<in> ticks_of a. \<forall>y \<in> ticks_of b. x < y)
      (snd (fold url_do busy_ops (newUrlStats two_urls, [])))"
    by (rule url_ticks_sent_once) (simp add: two_urls_def)
qed

text \<open>Counting the records a histogram, a snapshot and the whole state hold.\<close>

definition hits_of :: "eachUrlStat \<Rightarrow> nat" where
  "hits_of e = sum_list (histogram (totalHistogram e))"

definition map_hits :: "(urlKey \<times> eachUrlStat) list \<Rightarrow> nat" where
  "map_hits m = sum_list (map (\<lambda>ke. hits_of (snd ke)) m)"

definition snap_hits :: "urlStatSnapshot \<Rightarrow> nat" where
  "snap_hits s = map_hits (urlMap s)"

definition url_hits :: "urlStats \<Rightarrow> nat" where
  "url_hits st = snap_hits (us_snapshot st) + sum_list (map snap_hits (us_completed st))"

text \<open>Every histogram has its eight buckets.\<close>

definition entry_sized :: "eachUrlStat \<Rightarrow> bool" where
  "entry_sized e \<longleftrightarrow> length (histogram (totalHistogram e)) = urlStatBucketSize"

definition map_sized :: "(urlKey \<times> eachUrlStat) list \<Rightarrow> bool" where
  "map_sized m \<longleftrightarrow> distinct (map fst m) \<and> (\<forall>ke \<in> set m. entry_sized (snd ke))"

lemma map_hits_update:
  "distinct (map fst m) \<Longrightarrow>
   map_hits (AList.update k v m) + (case map_of m k of None \<Rightarrow> 0 | Some e \<Rightarrow> hits_of e) = map_hits m + hits_of v"
  unfolding map_hits_def by (induction m) (auto simp: map_of_eq_None_iff split: option.splits)

lemma map_sized_update: "map_sized m \<Longrightarrow> entry_sized v \<Longrightarrow> map_sized (AList.update k v m)"
proof -
  have "\<forall>ke \<in> set m. entry_sized (snd ke) \<Longrightarrow> entry_sized v \<Longrightarrow> \<forall>ke \<in> set (AList.update k v m). entry_sized (snd ke)"
    by (induction m) auto
  then show "map_sized m \<Longrightarrow> entry_sized v \<Longrightarrow> map_sized (AList.update k v m)"
    by (simp add: map_sized_def distinct_update)
qed

lemma map_sized_lookup: "map_sized m \<Longrightarrow> map_of m k = Some e \<Longrightarrow> entry_sized e"
  by (auto simp: map_sized_def dest: map_of_SomeD)

lemma sum_map2_plus: "length xs = length ys \<Longrightarrow> sum_list (map2 (+) xs ys) = sum_list xs + sum_list (ys :: nat list)"
  by (induction xs ys rule: list_induct2) auto

lemma getBucket_bound: "getBucket t < urlStatBucketSize"
  by (simp add: getBucket_def urlStatBucketBounds_def urlStatBucketSize_def)

lemma each_record_hits:
  assumes "entry_sized e"
  shows "hits_of (each_record us e) = Suc (hits_of e) \<and> entry_sized (each_record us e)"
proof -
  have "length (histogram (totalHistogram e)) = urlStatBucketSize" using assms by (simp add: entry_sized_def)
  with getBucket_bound [of "max (us_elapsed us) 0"]
    sum_list_map_update_add [of "getBucket (max (us_elapsed us) 0)" "histogram (totalHistogram e)" "\<lambda>x. x"
      "histogram (totalHistogram e) ! getBucket (max (us_elapsed us) 0) + 1"]
  show ?thesis by (simp add: each_record_def entry_sized_def hits_of_def histogram_add_def Let_def)
qed

lemma merge_entry_hits:
  assumes "map_sized m" "entry_sized (snd ks)"
  shows "map_hits (merge_entry ks m) = map_hits m + hits_of (snd ks) \<and> map_sized (merge_entry ks m)"
proof (cases "map_of m (fst ks)")
  case None
  then show ?thesis
    using assms map_hits_update [of m "fst ks" "snd ks"] map_sized_update [OF assms, of "fst ks"]
    by (simp add: merge_entry_def map_sized_def)
next
  case (Some e)
  define e' where "e' = e\<lparr>totalHistogram := histogram_merge (totalHistogram e) (totalHistogram (snd ks)),
                     failedHistogram := histogram_merge (failedHistogram e) (failedHistogram (snd ks))\<rparr>"
  have e': "hits_of e' = hits_of e + hits_of (snd ks)" "entry_sized e'"
    using map_sized_lookup [OF assms(1) Some] assms(2)
    by (simp_all add: e'_def hits_of_def histogram_merge_def sum_map2_plus entry_sized_def)
  have "merge_entry ks m = AList.update (fst ks) e' m" by (simp add: merge_entry_def Some e'_def)
  then show ?thesis
    using map_hits_update [of m "fst ks" e'] map_sized_update [OF assms(1) e'(2)] Some e'(1) assms(1)
    by (simp add: map_sized_def)
qed

lemma fold_merge_hits:
  "map_sized m \<Longrightarrow> map_sized kss \<Longrightarrow>
   map_hits (fold merge_entry kss m) = map_hits m + map_hits kss \<and> map_sized (fold merge_entry kss m)"
proof (induction kss arbitrary: m)
  case (Cons ks kss)
  from Cons.prems(2) have ks: "entry_sized (snd ks)" "map_sized kss" by (auto simp: map_sized_def)
  with Cons.IH [of "merge_entry ks m"] merge_entry_hits [OF Cons.prems(1) ks(1)] show ?case
    by (simp add: map_hits_def [of "ks # kss"] map_hits_def [of kss, symmetric])
qed (simp add: map_hits_def)

lemma merge_all_hits:
  "map_sized (urlMap s) \<Longrightarrow> \<forall>c \<in> set cs. map_sized (urlMap c) \<Longrightarrow>
   snap_hits (merge_all cs s) = snap_hits s + sum_list (map snap_hits cs)"
proof (induction cs arbitrary: s)
  case (Cons c cs)
  have "snap_hits (snapshot_merge s c) = snap_hits s + snap_hits c \<and> map_sized (urlMap (snapshot_merge s c))"
    using fold_merge_hits [of "urlMap s" "urlMap c"] Cons.prems by (simp add: snap_hits_def snapshot_merge_def)
  with Cons.IH [of "snapshot_merge s c"] Cons.prems(2) show ?case by simp
qed simp

text \<open>An accepted record is one more hit, in the snapshot it goes to.\<close>

lemma snapshot_add_hits:
  assumes "map_sized (urlMap s)"
  shows "map_sized (urlMap (snapshot_add us s))
    \<and> snap_hits (snapshot_add us s) = snap_hits s + (if snapshot_add us s = s then 0 else 1)"
proof (cases rule: snapshot_add_cases [of us s])
  case 1
  then show ?thesis using assms by simp
next
  case (2 e)
  have "entry_sized e"
    using 2(3) map_sized_lookup [OF assms]
    by (auto simp: entry_sized_def newEachUrlStat_def empty_histogram_def)
  note e = each_record_hits [OF this, of us]
  have "hits_of e = (case map_of (urlMap s) (record_key (snap_config s) us) of None \<Rightarrow> 0 | Some e \<Rightarrow> hits_of e)"
    using 2(3) by (auto simp: hits_of_def newEachUrlStat_def empty_histogram_def sum_list_replicate)
  with map_hits_update [of "urlMap s" "record_key (snap_config s) us" "each_record us e"] e assms
  have hits: "snap_hits (snapshot_add us s) = Suc (snap_hits s)"
    by (simp add: snap_hits_def 2(2) map_sized_def)
  then have "snapshot_add us s \<noteq> s" by auto
  with hits map_sized_update [OF assms] e show ?thesis by (simp add: 2(2))
qed

definition all_sized :: "urlStats \<Rightarrow> bool" where
  "all_sized st \<longleftrightarrow> map_sized (urlMap (us_snapshot st)) \<and> (\<forall>s \<in> set (us_completed st). map_sized (urlMap s))"

definition with_room :: "urlStats \<Rightarrow> bool" where
  "with_room st \<longleftrightarrow>
     length (us_completed st) < maxCompletedUrlStatSnapshots
     \<and> (\<forall>s \<in> insert (us_snapshot st) (set (us_completed st)). length (urlMap s) < urlStatLimitSize (snap_config s))"

lemma map_sized_new [simp]: "map_sized []" "snap_hits (newSnapshot c) = 0"
  by (simp_all add: map_sized_def snap_hits_def map_hits_def)

lemma snapshot_add_accepts:
  assumes "map_sized (urlMap s)" "us_endTime us \<noteq> 0" "length (urlMap s) < urlStatLimitSize (snap_config s)"
  shows "snap_hits (snapshot_add us s) = Suc (snap_hits s)"
proof (cases rule: snapshot_add_cases [of us s])
  case (2 e)
  then show ?thesis
    using snapshot_add_hits [OF assms(1), of us] map_hits_update [of "urlMap s" "record_key (snap_config s) us" "each_record us e"]
      each_record_hits [of e us] assms(1) map_sized_lookup [OF assms(1)]
    by (fastforce simp: snap_hits_def map_sized_def hits_of_def newEachUrlStat_def empty_histogram_def entry_sized_def)
qed (use assms in simp)

lemma add_completed_hits:
  assumes "\<forall>s \<in> set cs. map_sized (urlMap s)" "add_completed us cs = Some cs'" "us_endTime us \<noteq> 0"
    and "\<forall>s \<in> set cs. length (urlMap s) < urlStatLimitSize (snap_config s)"
  shows "sum_list (map snap_hits cs') = Suc (sum_list (map snap_hits cs))"
  using assms
proof (induction cs arbitrary: cs')
  case (Cons c cs)
  then show ?case by (auto simp: snapshot_add_accepts split: if_splits)
qed simp

lemma add_completed_sized:
  "\<forall>s \<in> set cs. map_sized (urlMap s) \<Longrightarrow> add_completed us cs = Some cs' \<Longrightarrow> \<forall>s \<in> set cs'. map_sized (urlMap s)"
proof (induction cs arbitrary: cs')
  case (Cons c cs)
  have "map_sized (urlMap (snapshot_add us c))" using snapshot_add_hits [of c us] Cons.prems(1) by simp
  with Cons show ?case by (auto split: if_splits)
qed simp

lemma completeLocked_hits:
  "length (us_completed st) < maxCompletedUrlStatSnapshots \<Longrightarrow>
   us_snapshot (completeLocked s st) = us_snapshot st
   \<and> sum_list (map snap_hits (us_completed (completeLocked s st))) = snap_hits s + sum_list (map snap_hits (us_completed st))"
proof -
  assume "length (us_completed st) < maxCompletedUrlStatSnapshots"
  moreover have "sum_list (map snap_hits (sort_key snap_tick (us_completed st @ [s])))
      = sum_list (map snap_hits (us_completed st @ [s]))"
    by (metis mset_map mset_sort sum_mset_sum_list)
  ultimately show ?thesis by (simp add: completeLocked_def Let_def)
qed

lemma completeLocked_sized:
  "all_sized st \<Longrightarrow> map_sized (urlMap s) \<Longrightarrow> all_sized (completeLocked s st)"
  by (auto simp: all_sized_def completeLocked_def Let_def dest!: in_set_dropD)

lemma urlStats_add_sized: "all_sized st \<Longrightarrow> all_sized (urlStats_add c us st)"
proof -
  assume st: "all_sized st"
  have new: "map_sized (urlMap (snapshot_add us s))" if "map_sized (urlMap s)" for s
    using snapshot_add_hits [OF that] by simp
  have sn: "all_sized (x\<lparr>us_snapshot := snapshot_add us (us_snapshot x)\<rparr>)" if "all_sized x" for x
    using that new by (simp add: all_sized_def)
  have fresh: "all_sized (x\<lparr>us_snapshot := newSnapshot c\<rparr>)" if "all_sized x" for x
    using that by (simp add: all_sized_def)
  have cur: "map_sized (urlMap (us_snapshot st))" and closed: "\<forall>s \<in> set (us_completed st). map_sized (urlMap s)"
    using st by (simp_all add: all_sized_def)
  have put: "all_sized (st\<lparr>us_completed := cs\<rparr>)" if "add_completed us (us_completed st) = Some cs" for cs
    using add_completed_sized [OF closed that] cur by (simp add: all_sized_def)
  have late: "all_sized (completeLocked (snapshot_add us (newSnapshot c)) st)"
    by (rule completeLocked_sized [OF st]) (use new [of "newSnapshot c"] in simp)
  have cut: "all_sized (completeLocked (us_snapshot st) st)" by (rule completeLocked_sized [OF st cur])
  have turn: "all_sized ((completeLocked (us_snapshot st) st)\<lparr>us_snapshot := newSnapshot c\<rparr>)" by (rule fresh [OF cut])
  show ?thesis
    unfolding urlStats_add_def Let_def
    using st put late sn [OF turn] sn [OF st] by (simp split: option.split if_split)
qed

lemma urlStats_add_hits:
  assumes "all_sized st" "with_room st" "us_endTime us \<noteq> 0" "0 < urlStatLimitSize c" "retiredThrough st < record_tick us"
  shows "url_hits (urlStats_add c us st) = Suc (url_hits st)"
proof -
  have cur: "map_sized (urlMap (us_snapshot st))" "length (us_completed st) < maxCompletedUrlStatSnapshots"
      "length (urlMap (us_snapshot st)) < urlStatLimitSize (snap_config (us_snapshot st))"
    using assms(1,2) by (auto simp: all_sized_def with_room_def)
  have fresh: "snap_hits (snapshot_add us (newSnapshot c)) = Suc 0"
    using snapshot_add_accepts [of "newSnapshot c" us] assms(3,4) by simp
  show ?thesis
  proof (cases "add_completed us (us_completed st)")
    case (Some cs)
    with add_completed_hits [OF _ Some assms(3)] assms show ?thesis
      by (simp add: urlStats_add_def Let_def url_hits_def all_sized_def with_room_def)
  next
    case None
    then show ?thesis
      using assms(3,5) cur fresh snapshot_add_accepts [OF cur(1) assms(3) cur(3)] completeLocked_hits [OF cur(2)]
      by (auto simp: urlStats_add_def Let_def url_hits_def)
  qed
qed

lemma takeSnapshot_hits:
  assumes "all_sized st" "takeSnapshot c now incl st = (taken, st')"
  shows "snap_hits taken + url_hits st' = url_hits st \<and> all_sized st'"
proof -
  define base where "base = (if incl \<or> tickIsOverLocked now st then us_snapshot st else newSnapshot c)"
  have taken: "taken = merge_all (us_completed st) base"
    using assms(2) by (auto simp: takeSnapshot_def Let_def base_def split: if_splits)
  have st': "us_completed st' = []" "us_snapshot st' = (if incl \<or> tickIsOverLocked now st then newSnapshot c else us_snapshot st)"
    using assms(2) by (auto simp: takeSnapshot_def Let_def split: if_splits)
  have "snap_hits taken = snap_hits base + sum_list (map snap_hits (us_completed st))"
    unfolding taken by (rule merge_all_hits) (use assms(1) in \<open>auto simp: all_sized_def base_def\<close>)
  with st' assms(1) show ?thesis by (auto simp: url_hits_def base_def all_sized_def)
qed

lemma run_sized: "all_sized (fst p) \<Longrightarrow> all_sized (fst (fold url_do ops p))"
proof (induction ops arbitrary: p)
  case (Cons op ops)
  have "all_sized (fst (url_do op p))"
  proof (cases op)
    case (Add c us)
    with Cons.prems show ?thesis by (cases p) (simp add: urlStats_add_sized)
  next
    case (Take c now incl)
    obtain taken st' where "takeSnapshot c now incl (fst p) = (taken, st')" by (cases "takeSnapshot c now incl (fst p)")
    with Take Cons.prems takeSnapshot_hits show ?thesis by (cases p) auto
  qed
  with Cons.IH show ?case by simp
qed simp

text \<open>
  Requests are neither lost nor counted twice on their way to a message. In every state a run reaches, a send moves the
  records of the closed ticks, and of the tick in progress when it is taken, into the message and keeps the rest, and a
  record for a tick not yet retired raises the number held by one, as long as the five closed ticks and the limits on
  distinct URLs are not exhausted.
\<close>

theorem url_records_conserved:
  assumes "st = fst (fold url_do ops (newUrlStats c, []))"
  shows "(\<forall>d now incl taken st'. takeSnapshot d now incl st = (taken, st') \<longrightarrow> snap_hits taken + url_hits st' = url_hits st)
    \<and> (\<forall>d us. with_room st \<and> us_endTime us \<noteq> 0 \<and> 0 < urlStatLimitSize d \<and> retiredThrough st < record_tick us \<longrightarrow>
         url_hits (urlStats_add d us st) = Suc (url_hits st))"
proof -
  have "all_sized st" unfolding assms by (rule run_sized) (simp add: all_sized_def newUrlStats_def)
  then show ?thesis using takeSnapshot_hits urlStats_add_hits by blast
qed

theorem url_records_conserved_witness:
  "url_hits (urlStats_add two_urls (request_at 400000000000) (fst (fold url_do busy_ops (newUrlStats two_urls, [])))) = 1"
proof -
  let ?st = "fst (fold url_do busy_ops (newUrlStats two_urls, []))"
  have "us_completed ?st = [] \<and> urlMap (us_snapshot ?st) = [] \<and> snap_config (us_snapshot ?st) = two_urls
      \<and> retiredThrough ?st = 210000000000"
    by code_simp
  then have "with_room ?st" "url_hits ?st = 0" "retiredThrough ?st < record_tick (request_at 400000000000)"
    by (simp_all add: with_room_def two_urls_def maxCompletedUrlStatSnapshots_def url_hits_def snap_hits_def map_hits_def
        record_tick_def request_at_def Truncate_def urlStatCollectInterval_def)
  with url_records_conserved [OF refl, of busy_ops two_urls] show ?thesis
    by (auto simp: request_at_def two_urls_def)
qed

end
