(* ===== verification/Span.thy ===== *)
theory Span
  imports Trace_Context Error_Chain Span_Event Url_Stat
begin

unbundle bit_operations_syntax

text \<open>
  The sampled span (\<^verbatim>\<open>src/span.go\<close>): the event stack and its positions, chunks, errors, the injected and
  extracted trace context, goroutine tracers and the end of the span. The trace-wide fields that a goroutine
  tracer writes through \<open>traceRoot\<close> (\<open>err\<close>, \<open>statusErr\<close>, \<open>sqlCount\<close>, \<open>loggingInfo\<close>) form the record \<open>root\<close>, shared
  by every span of a trace. The int32 position counters are integers: \<open>span_inv\<close> bounds them by the configured limits,
  themselves int32, so they never wrap. A chunk handed to \<open>enqueueSpan\<close> is appended to \<open>outbox\<close>.
\<close>

section \<open>State\<close>

record spanConfig =
  spanMaxEventSequence :: int
  spanMaxEventDepth :: int
  spanEventChunkSize :: nat
  errorMarkMask :: ErrorCategory
  errorIgnoreRules :: "ignoreErrorRule list"
  errorTraceCallStack :: bool
  errorCallStackDepth :: nat
  errorMaxChainDepth :: nat
  cfg_collectUrlStat :: bool

record spanChunk =
  eventChunk :: "spanEvent list"
  final :: bool
  keyTime :: int
  chunk_endPoint :: string

record 'e span =
  cfg :: spanConfig
  sp_txId :: TransactionId
  spanId :: go_int64
  parentSpanId :: go_int64
  parentAppName :: string
  parentAppType :: int
  parentServiceName :: string
  rpcName :: string
  endPoint :: string
  remoteAddr :: string
  acceptorHost :: string
  annotations :: annotation
  apiId :: go_int32
  eventSequence :: int
  eventDepth :: int
  eventOverflow :: int
  eventOverflowLog :: bool
  overflowDestination :: string
  serviceType :: go_int32
  spanEvents :: "spanEvent list"
  txIdStr :: string
  spanIdStr :: string
  startTime :: int
  elapsed :: int
  operationName :: string
  flags :: int
  errorFuncId :: go_int32
  errorString :: string
  recovered :: bool
  asyncId :: go_int32
  asyncSequence :: go_int32
  eventStack :: "spanEvent list"
  chains :: "'e chain_state"
  finished :: bool
  urlStat :: "UrlStatEntry option"
  outbox :: "spanChunk list"

record root =
  root_err :: go_int32
  root_statusErr :: go_int32
  root_sqlCount :: go_int32
  root_loggingInfo :: go_int32

text \<open>What the agent supplies: metadata ids, the limiter's answer and the call stack, and its identity.\<close>

record 'e agent_env =
  errs :: "'e error_env"
  cacheError :: "string \<Rightarrow> go_int32"
  cacheSpanApi :: "string \<Rightarrow> nat \<Rightarrow> go_int32"
  limiter :: "bool option"
  callers :: "nat list"
  appName :: string
  appTypeStr :: string
  serviceName :: string
  clusterNamespace :: string

definition apiTypeDefault :: nat where "apiTypeDefault = 0"
definition apiTypeWebRequest :: nat where "apiTypeWebRequest = 100"
definition apiTypeInvocation :: nat where "apiTypeInvocation = 200"
definition defaultEventChunkSize :: nat where "defaultEventChunkSize = 20"

definition defaultSpan :: "spanConfig \<Rightarrow> int \<Rightarrow> 'e span" where
  "defaultSpan c now =
     \<lparr>cfg = c, sp_txId = zero_txId, spanId = 0, parentSpanId = - 1, parentAppName = [], parentAppType = - 1,
      parentServiceName = [], rpcName = [], endPoint = [], remoteAddr = [], acceptorHost = [],
      annotations = new_annotation, apiId = 0, eventSequence = 0, eventDepth = 1, eventOverflow = 0,
      eventOverflowLog = False, overflowDestination = [], serviceType = ServiceTypeGoApp, spanEvents = [],
      txIdStr = [], spanIdStr = [], startTime = now, elapsed = 0, operationName = [], flags = 0, errorFuncId = 0,
      errorString = [], recovered = False, asyncId = noneAsyncId, asyncSequence = 0, eventStack = [],
      chains = new_chain_state, finished = False, urlStat = None, outbox = []\<rparr>"

definition newSampledSpan :: "'e agent_env \<Rightarrow> spanConfig \<Rightarrow> int \<Rightarrow> string \<Rightarrow> string \<Rightarrow> 'e span" where
  "newSampledSpan A c now operation rpc =
     (defaultSpan c now)\<lparr>operationName := operation, rpcName := rpc, apiId := cacheSpanApi A operation apiTypeWebRequest\<rparr>"

definition isAsyncSpan :: "'e span \<Rightarrow> bool" where
  "isAsyncSpan sp \<longleftrightarrow> asyncId sp \<noteq> noneAsyncId"

section \<open>The event stack\<close>

definition stack_push :: "spanEvent \<Rightarrow> spanEvent list \<Rightarrow> spanEvent list" where
  "stack_push v buf = buf @ [v]"

definition stack_pop :: "spanEvent list \<Rightarrow> (spanEvent \<times> spanEvent list) option" where
  "stack_pop buf = (if length buf > 0 then Some (buf ! (length buf - 1), take (length buf - 1) buf) else None)"

definition stack_peek :: "spanEvent list \<Rightarrow> spanEvent option" where
  "stack_peek buf = (if length buf > 0 then Some (buf ! (length buf - 1)) else None)"

definition stack_bottom :: "spanEvent list \<Rightarrow> spanEvent option" where
  "stack_bottom buf = (if length buf > 0 then Some (buf ! 0) else None)"

text \<open>\<open>endAll\<close>: the ended events, most recent first, and the depths they give back.\<close>

definition stack_endAll :: "int \<Rightarrow> spanEvent list \<Rightarrow> spanEvent list" where
  "stack_endAll now buf = map (ev_end now) (rev buf)"

definition stack_depths :: "spanEvent list \<Rightarrow> int" where
  "stack_depths buf = sum_list (map end_depth buf)"

section \<open>Chunks\<close>

fun compress :: "int \<Rightarrow> int \<Rightarrow> spanEvent list \<Rightarrow> spanEvent list" where
  "compress prevStart prevDepth [] = []"
| "compress prevStart prevDepth (se # ses) =
     se\<lparr>startElapsed := ev_startTime se - prevStart,
        ev_depth := (if prevDepth = ev_depth se then 0 else ev_depth se)\<rparr>
     # compress (ev_startTime se) (ev_depth se) ses"

definition optimizeSpanEvents :: "'e span \<Rightarrow> spanChunk \<Rightarrow> spanChunk" where
  "optimizeSpanEvents sp chunk =
     (if length (eventChunk chunk) < 1 then chunk
      else case sort_key sequence (eventChunk chunk) of
        [] \<Rightarrow> chunk
      | se # ses \<Rightarrow>
          (let key = (if final chunk
                      then if isAsyncSpan sp then min (startTime sp) (ev_startTime se) else startTime sp
                      else ev_startTime se)
           in chunk\<lparr>keyTime := key,
                eventChunk := se\<lparr>startElapsed := ev_startTime se - key\<rparr> # compress (ev_startTime se) (ev_depth se) ses\<rparr>))"

definition newEventChunk :: "bool \<Rightarrow> 'e span \<Rightarrow> spanChunk \<times> 'e span" where
  "newEventChunk fin sp =
     (\<lparr>eventChunk = spanEvents sp, final = fin, keyTime = 0, chunk_endPoint = endPoint sp\<rparr>, sp\<lparr>spanEvents := []\<rparr>)"

definition chunk_enqueue :: "spanChunk \<Rightarrow> 'e span \<Rightarrow> 'e span" where
  "chunk_enqueue chunk sp = sp\<lparr>outbox := outbox sp @ [optimizeSpanEvents sp chunk]\<rparr>"

definition appendEndedSpanEvent :: "spanEvent \<Rightarrow> 'e span \<Rightarrow> 'e span" where
  "appendEndedSpanEvent se sp =
     (let sp = sp\<lparr>spanEvents := spanEvents sp @ [se]\<rparr>
      in if \<not> finished sp \<and> length (spanEvents sp) \<ge> spanEventChunkSize (cfg sp)
         then let (chunk, sp) = newEventChunk False sp in chunk_enqueue chunk sp
         else sp)"

section \<open>Starting and ending events\<close>

definition reserveEventPosition :: "'e span \<Rightarrow> (int \<times> int) \<times> 'e span" where
  "reserveEventPosition sp =
     ((eventSequence sp, eventDepth sp),
      sp\<lparr>eventSequence := eventSequence sp + 1, eventDepth := eventDepth sp + 1\<rparr>)"

definition releaseEventPosition :: "int \<Rightarrow> 'e span \<Rightarrow> 'e span" where
  "releaseEventPosition sq sp =
     sp\<lparr>eventDepth := eventDepth sp - 1,
        eventSequence := (if eventSequence sp = sq + 1 then sq else eventSequence sp)\<rparr>"

definition over_limit :: "spanConfig \<Rightarrow> int \<Rightarrow> int \<Rightarrow> bool" where
  "over_limit c sq d \<longleftrightarrow> sq \<ge> spanMaxEventSequence c \<or> d - 1 > spanMaxEventDepth c"

definition NewSpanEvent :: "'e agent_env \<Rightarrow> int \<Rightarrow> string \<Rightarrow> 'e span \<Rightarrow> 'e span" where
  "NewSpanEvent A now op sp =
     (if finished sp then sp
      else let ((sq, d), sp) = reserveEventPosition sp
           in if over_limit (cfg sp) sq d
              then let sp = releaseEventPosition sq sp
                   in sp\<lparr>eventOverflow := eventOverflow sp + 1, eventOverflowLog := True\<rparr>
              else let se = (defaultSpanEvent now op sq d)\<lparr>ev_apiId := cacheSpanApi A op apiTypeDefault\<rparr>
                   in sp\<lparr>eventStack := stack_push se (eventStack sp)\<rparr>)"

section \<open>Errors\<close>

definition markSpanError :: "spanConfig \<Rightarrow> ErrorCategory \<Rightarrow> root \<Rightarrow> bool \<times> root" where
  "markSpanError c cat r =
     (if \<not> marksError (errorMarkMask c) cat then (False, r)
      else (True, r\<lparr>root_err := root_err r OR cat\<rparr>))"

text \<open>
  A span, the trace-wide fields and the agent's exception id generator, as an operation that may record an
  error changes them together.
\<close>

type_synonym 'e traced = "'e span \<times> root \<times> int"

text \<open>\<open>SetError\<close> of an event: the changed event, and the changed span, trace and generator.\<close>

definition ev_SetError ::
  "'e agent_env \<Rightarrow> 'e option \<Rightarrow> string list \<Rightarrow> spanEvent \<Rightarrow> 'e traced \<Rightarrow> spanEvent \<times> 'e traced" where
  "ev_SetError A err_opt names se st =
     (case (err_opt, st) of (None, _) \<Rightarrow> (se, st)
      | (Some e, sp, r, gen) \<Rightarrow>
          if ev_finished se \<or> finished sp then (se, st)
          else let errName = errorNameOf (errs A) e names;
                   se = se\<lparr>ev_errorFuncId := cacheError A errName,
                          ev_errorString := abbreviateString (errorMessage (errs A) e) maxErrorMessageSize\<rparr>;
                   r = (if ignoreError (errs A) (errorIgnoreRules (cfg sp)) e errName then r
                        else snd (markSpanError (cfg sp) ErrorCategoryException r))
               in if errorTraceCallStack (cfg sp)
                  then let (eid, gen, cs) = traceCallStack (errs A) (errorMaxChainDepth (cfg sp)) (limiter A) (callers A)
                             e errName (errorCallStackDepth (cfg sp)) (ev_startTime se) gen (chains sp);
                           se = (if eid \<noteq> noExceptionChainId
                                 then ev_annotate (AppendLong AnnotationExceptionChainId (word_of_int eid)) se else se)
                       in (se, sp\<lparr>chains := cs\<rparr>, r, gen)
                  else (se, sp, r, gen))"

text \<open>\<open>SetError\<close> of the span; on a goroutine tracer it goes to the event at the bottom of its stack.\<close>

definition SetError :: "'e agent_env \<Rightarrow> 'e option \<Rightarrow> string list \<Rightarrow> 'e traced \<Rightarrow> 'e traced" where
  "SetError A err_opt names st =
     (case (err_opt, st) of (None, _) \<Rightarrow> st
      | (Some e, sp, r, gen) \<Rightarrow>
          if finished sp then st
          else case (isAsyncSpan sp, stack_bottom (eventStack sp)) of
            (True, Some se) \<Rightarrow>
              (let (se, sp, r, gen) = ev_SetError A err_opt names se st
               in (sp\<lparr>eventStack := (eventStack sp)[0 := se]\<rparr>, r, gen))
          | _ \<Rightarrow>
              (let errName = errorNameOf (errs A) e names;
                   sp = sp\<lparr>errorFuncId := cacheError A errName,
                          errorString := abbreviateString (errorMessage (errs A) e) maxErrorMessageSize\<rparr>;
                   r = (if ignoreError (errs A) (errorIgnoreRules (cfg sp)) e errName then r
                        else snd (markSpanError (cfg sp) ErrorCategoryException r))
               in (sp, r, gen)))"

text \<open>\<open>SetError\<close> of the recorder handed out during overflow.\<close>

definition overflow_SetError :: "'e agent_env \<Rightarrow> 'e option \<Rightarrow> string list \<Rightarrow> 'e span \<Rightarrow> root \<Rightarrow> root" where
  "overflow_SetError A err_opt names sp r =
     (case err_opt of None \<Rightarrow> r
      | Some e \<Rightarrow>
          if finished sp then r
          else if ignoreError (errs A) (errorIgnoreRules (cfg sp)) e (errorNameOf (errs A) e names) then r
          else snd (markSpanError (cfg sp) ErrorCategoryException r))"

definition SetFailure :: "ErrorCategory list \<Rightarrow> 'e span \<Rightarrow> root \<Rightarrow> root" where
  "SetFailure cats sp r =
     (if finished sp then r
      else let (ok, r) = markSpanError (cfg sp) (firstErrorCategory cats) r
           in if \<not> ok then r else r\<lparr>root_statusErr := 1\<rparr>)"

section \<open>Ending an event\<close>

text \<open>
  The body of \<open>EndSpanEvent\<close>. A recovered panic is its value and the error recorded for it; the last component
  of the result is the panic the call ends with.
\<close>

definition finish_event :: "int \<Rightarrow> spanEvent \<Rightarrow> 'e span \<Rightarrow> 'e span" where
  "finish_event now se sp = appendEndedSpanEvent (ev_end now se) (sp\<lparr>eventDepth := eventDepth sp - end_depth se\<rparr>)"

definition endSpanEvent ::
  "'e agent_env \<Rightarrow> int \<Rightarrow> ('p \<times> 'e) option \<Rightarrow> 'e traced \<Rightarrow> 'e traced \<times> 'p option" where
  "endSpanEvent A now rec st =
     (case st of (sp, r, gen) \<Rightarrow>
        if eventOverflow sp > 0 then
          ((sp\<lparr>eventOverflow := eventOverflow sp - 1,
              overflowDestination := (if eventOverflow sp = 1 then [] else overflowDestination sp)\<rparr>, r, gen),
           map_option fst rec)
        else case stack_pop (eventStack sp) of
          Some (se, buf) \<Rightarrow>
            (let sp = sp\<lparr>eventStack := buf\<rparr>
             in case rec of
                  Some (v, e) \<Rightarrow>
                    (let (se, st) = ev_SetError A (Some e) [''panic''] se (sp, r, gen);
                         (sp, r, gen) = SetError A (Some e) [] st;
                         sp = sp\<lparr>recovered := True\<rparr>
                     in ((finish_event now se sp, r, gen), Some v))
                | None \<Rightarrow> ((finish_event now se sp, r, gen), None))
        | None \<Rightarrow> (st, map_option fst rec))"

text \<open>
  \<open>EndSpanEvent\<close> as a deferred call: \<open>pending\<close> is the panic unwinding the stack, if any. It is recovered only
  outside overflow and once per span; a panic not recovered goes on by itself.
\<close>

definition EndSpanEvent ::
  "'e agent_env \<Rightarrow> int \<Rightarrow> ('p \<times> 'e) option \<Rightarrow> 'e traced \<Rightarrow> 'e traced \<times> 'p option" where
  "EndSpanEvent A now pending st =
     (if finished (fst st) then (st, map_option fst pending)
      else if eventOverflow (fst st) = 0 \<and> \<not> recovered (fst st)
      then endSpanEvent A now pending st
      else (fst (endSpanEvent A now (None :: ('p \<times> 'e) option) st), map_option fst pending))"

section \<open>Ending the span\<close>

record 'e end_result =
  exceptionMeta :: "'e exception list option"
  responseTime :: "int option"
  urlStatRecord :: "(UrlStatEntry \<times> int \<times> int \<times> go_int32) option"

text \<open>\<open>accepted\<close> is the answer of \<open>enqueueSpan\<close> to the final chunk.\<close>

definition EndSpan :: "int \<Rightarrow> bool \<Rightarrow> root \<Rightarrow> 'e span \<Rightarrow> 'e end_result \<times> 'e span" where
  "EndSpan now accepted r sp =
     (if finished sp then (\<lparr>exceptionMeta = None, responseTime = None, urlStatRecord = None\<rparr>, sp)
      else
        let sp = sp\<lparr>finished := True, elapsed := max (now - startTime sp) 0\<rparr>;
            resp = (if isAsyncSpan sp then None else Some (elapsed sp));
            leftover = stack_endAll now (eventStack sp);
            sp = sp\<lparr>eventDepth := eventDepth sp - stack_depths (eventStack sp), eventStack := []\<rparr>;
            sp = fold appendEndedSpanEvent leftover sp;
            taken = entries (chains sp);
            sp = sp\<lparr>chains := (chains sp)\<lparr>errorChains := None\<rparr>\<rparr>;
            (chunk, sp) = newEventChunk True sp;
            sp = chunk_enqueue chunk sp;
            exc = (if accepted \<and> length taken > 0 then Some taken else None);
            url = (case urlStat sp of None \<Rightarrow> None
                   | Some entry \<Rightarrow> Some (entry, now, elapsed sp, root_statusErr r OR root_err r))
        in (\<lparr>exceptionMeta = exc, responseTime = resp, urlStatRecord = url\<rparr>,
            sp\<lparr>annotations := seal (annotations sp)\<rparr>))"

section \<open>Setters\<close>

definition unless_ended :: "('e span \<Rightarrow> 'e span) \<Rightarrow> 'e span \<Rightarrow> 'e span" where
  "unless_ended f sp = (if finished sp then sp else f sp)"

definition SetServiceType :: "go_int32 \<Rightarrow> 'e span \<Rightarrow> 'e span" where
  "SetServiceType typ = unless_ended (\<lambda>sp. sp\<lparr>serviceType := typ\<rparr>)"

definition SetRpcName :: "string \<Rightarrow> 'e span \<Rightarrow> 'e span" where
  "SetRpcName rpc = unless_ended (\<lambda>sp. sp\<lparr>rpcName := rpc\<rparr>)"

definition SetRemoteAddress :: "string \<Rightarrow> 'e span \<Rightarrow> 'e span" where
  "SetRemoteAddress a = unless_ended (\<lambda>sp. sp\<lparr>remoteAddr := a\<rparr>)"

definition SetEndPoint :: "string \<Rightarrow> 'e span \<Rightarrow> 'e span" where
  "SetEndPoint ep = unless_ended (\<lambda>sp.
     let sp = sp\<lparr>endPoint := ep\<rparr> in if acceptorHost sp = [] then sp\<lparr>acceptorHost := ep\<rparr> else sp)"

definition SetAcceptorHost :: "string \<Rightarrow> 'e span \<Rightarrow> 'e span" where
  "SetAcceptorHost host = unless_ended (\<lambda>sp. sp\<lparr>acceptorHost := host\<rparr>)"

definition annotate :: "(annotation \<Rightarrow> annotation) \<Rightarrow> 'e span \<Rightarrow> 'e span" where
  "annotate f = unless_ended (\<lambda>sp. sp\<lparr>annotations := f (annotations sp)\<rparr>)"

definition SetLogging :: "go_int32 \<Rightarrow> 'e span \<Rightarrow> root \<Rightarrow> root" where
  "SetLogging logInfo sp r = (if finished sp then r else r\<lparr>root_loggingInfo := logInfo\<rparr>)"

definition RecordUrlStat :: "UrlStatEntry \<Rightarrow> 'e span \<Rightarrow> 'e span" where
  "RecordUrlStat stat = unless_ended (\<lambda>sp.
     if cfg_collectUrlStat (cfg sp) then sp\<lparr>urlStat := Some (mergeUrlStat (urlStat sp) stat)\<rparr> else sp)"

text \<open>Setters of the recorder \<open>SpanEvent()\<close> returns: the top event, or the destination kept during overflow.\<close>

definition on_top :: "(spanEvent \<Rightarrow> spanEvent) \<Rightarrow> 'e span \<Rightarrow> 'e span" where
  "on_top f sp =
     (if eventOverflow sp > 0 \<or> eventStack sp = [] then sp
      else sp\<lparr>eventStack := butlast (eventStack sp) @ [f (last (eventStack sp))]\<rparr>)"

definition SpanEvent_SetDestination :: "string \<Rightarrow> 'e span \<Rightarrow> 'e span" where
  "SpanEvent_SetDestination dest sp =
     (if eventOverflow sp > 0 then sp\<lparr>overflowDestination := dest\<rparr> else on_top (SetDestination dest) sp)"

section \<open>Goroutine tracers\<close>

definition newSpanEventGoroutine :: "'e agent_env \<Rightarrow> int \<Rightarrow> 'e span \<Rightarrow> spanEvent \<times> 'e span" where
  "newSpanEventGoroutine A now sp =
     (let ((sq, d), sp) = reserveEventPosition sp
      in ((defaultSpanEvent now [] sq d)\<lparr>ev_apiId := cacheSpanApi A ''Goroutine Invocation'' apiTypeInvocation,
            ev_serviceType := ServiceTypeAsync\<rparr>, sp))"

text \<open>
  The loop \<open>for se.asyncId == noneAsyncId\<close>: the int32 generator may wrap to 0 once, and the value after that
  is 1.
\<close>

definition draw_asyncId :: "go_int32 \<Rightarrow> go_int32 \<Rightarrow> go_int32 \<times> go_int32" where
  "draw_asyncId current gen =
     (if current \<noteq> noneAsyncId then (current, gen)
      else if gen + 1 \<noteq> noneAsyncId then (gen + 1, gen + 1) else (gen + 2, gen + 2))"

text \<open>\<open>None\<close> is the noop tracer.\<close>

definition NewGoroutineTracer ::
  "'e agent_env \<Rightarrow> int \<Rightarrow> go_int32 \<Rightarrow> 'e span \<Rightarrow> 'e span option \<times> 'e span \<times> go_int32" where
  "NewGoroutineTracer A now gen sp =
     (if finished sp \<or> eventOverflow sp > 0 then (None, sp, gen)
      else case stack_peek (eventStack sp) of None \<Rightarrow> (None, sp, gen)
      | Some se \<Rightarrow>
          if ev_finished se then (None, sp, gen)
          else let (aid, gen) = draw_asyncId (ev_asyncId se) gen;
                   se = se\<lparr>ev_asyncId := aid, asyncSeqGen := asyncSeqGen se + 1\<rparr>;
                   sp = on_top (\<lambda>_. se) sp;
                   child = (defaultSpan (cfg sp) now)\<lparr>sp_txId := sp_txId sp, spanId := spanId sp,
                              asyncId := ev_asyncId se, asyncSequence := asyncSeqGen se\<rparr>;
                   (first, child) = newSpanEventGoroutine A now child
               in (Some (child\<lparr>eventStack := stack_push first (eventStack child)\<rparr>), sp, gen))"

section \<open>The trace context going out and coming in\<close>

text \<open>
  Random draws are lists: \<open>generateSpanId\<close> and \<open>nextSpanId\<close> take the first acceptable one, \<open>None\<close> while they
  are still drawing.
\<close>

definition generateSpanId :: "go_int64 list \<Rightarrow> go_int64 option" where
  "generateSpanId draws = find (\<lambda>i. i \<noteq> noneSpanId) draws"

definition next_span_id :: "go_int64 list \<Rightarrow> go_int64 \<Rightarrow> go_int64 \<Rightarrow> go_int64 option" where
  "next_span_id draws sid psid = find (\<lambda>i. i \<noteq> noneSpanId \<and> i \<noteq> sid \<and> i \<noteq> psid \<and> i \<noteq> - 1) draws"

text \<open>
  \<open>Inject\<close> with a non-nil writer and \<open>nid\<close> the id drawn for the callee: the header assignments in order, and
  the span with the link recorded on its top event. Nothing is written after the end of the span.
\<close>

definition Inject :: "'e agent_env \<Rightarrow> go_int64 \<Rightarrow> 'e span \<Rightarrow> (string \<times> string) list \<times> 'e span" where
  "Inject A nid sp =
     (if finished sp then ([], sp)
      else
        let top = (if eventOverflow sp = 0 then stack_peek (eventStack sp) else None);
            sp = (if txIdStr sp = [] then sp\<lparr>txIdStr := TransactionId_String (sp_txId sp)\<rparr> else sp);
            sp = (if spanIdStr sp = [] then sp\<lparr>spanIdStr := FormatInt64 (spanId sp)\<rparr> else sp);
            live = (case top of None \<Rightarrow> None | Some se \<Rightarrow> if ev_finished se then None else Some se);
            dest = (case live of Some se \<Rightarrow> destinationId se | None \<Rightarrow> overflowDestination sp);
            sp = (case live of None \<Rightarrow> sp
                  | Some se \<Rightarrow>
                      on_top (\<lambda>_. se\<lparr>nextSpanId := nid,
                        ev_endPoint := (if ev_endPoint se = [] then destinationId se else ev_endPoint se)\<rparr>) sp)
        in ([(HeaderTraceId, txIdStr sp), (HeaderSpanId, FormatInt64 nid), (HeaderParentSpanId, spanIdStr sp),
             (HeaderFlags, FormatInt (flags sp)), (HeaderParentApplicationName, appName A),
             (HeaderParentApplicationType, appTypeStr A)]
            @ (if serviceName A \<noteq> [] then [(HeaderParentServiceName, serviceName A)] else [])
            @ (if clusterNamespace A \<noteq> [] then [(HeaderParentApplicationNamespace, clusterNamespace A)] else [])
            @ (if dest \<noteq> [] then [(HeaderHost, dest)] else []),
            sp))"

text \<open>
  \<open>span_extract\<close> (\<open>extract\<close> in the source): \<open>newTx\<close> is the transaction id drawn when the trace starts here, \<open>gid\<close> the span id drawn then or
  when the header's cannot be read.
\<close>

definition span_extract :: "reader \<Rightarrow> inboundTrace \<Rightarrow> TransactionId \<Rightarrow> go_int64 \<Rightarrow> 'e span \<Rightarrow> 'e span" where
  "span_extract Get inb newTx gid sp =
     (if \<not> continued inb then sp\<lparr>sp_txId := newTx, spanId := gid, parentSpanId := - 1\<rparr>
      else
        let sp = sp\<lparr>sp_txId := txId inb\<rparr>;
            sp = (case ParseInt64 (in_spanId inb) of Some v \<Rightarrow> sp\<lparr>spanId := v\<rparr> | None \<Rightarrow> sp\<lparr>spanId := gid\<rparr>);
            sp = (if in_parentSpanId inb \<noteq> []
                  then case ParseInt64 (in_parentSpanId inb) of
                         Some v \<Rightarrow> sp\<lparr>parentSpanId := v\<rparr> | None \<Rightarrow> sp\<lparr>parentSpanId := - 1\<rparr>
                  else sp);
            sp = (case ParseInt 32 (get_value Get HeaderFlags) of Some v \<Rightarrow> sp\<lparr>flags := v\<rparr> | None \<Rightarrow> sp);
            sp = sp\<lparr>parentAppName := get_value Get HeaderParentApplicationName\<rparr>;
            papptype = get_value Get HeaderParentApplicationType;
            sp = (if papptype \<noteq> []
                  then case ParseInt 16 papptype of Some v \<Rightarrow> sp\<lparr>parentAppType := v\<rparr> | None \<Rightarrow> sp
                  else sp);
            sp = sp\<lparr>parentServiceName := get_value Get HeaderParentServiceName\<rparr>;
            host = get_value Get HeaderHost
        in if host \<noteq> [] then sp\<lparr>acceptorHost := host, endPoint := host, remoteAddr := host\<rparr> else sp)"

end
