(* ===== verification/Span_Invariants.thy ===== *)
theory Span_Invariants
  imports Span
begin

text \<open>
  The invariant of the sampled span (\<^verbatim>\<open>src/span.go\<close>) under every operation of its API, in any order, and what it
  gives at the end of the span.
\<close>

section \<open>The invariant\<close>

definition events_of :: "'e span \<Rightarrow> spanEvent list" where
  "events_of sp = eventStack sp @ spanEvents sp @ concat (map eventChunk (outbox sp))"

definition sequences_of :: "'e span \<Rightarrow> int multiset" where
  "sequences_of sp = mset (map sequence (events_of sp))"

text \<open>The numbers \<open>0, \<dots>, k - 1\<close>, each once.\<close>

definition numbered :: "int \<Rightarrow> int multiset" where
  "numbered k = mset (map int [0..<nat k])"

definition positions_ok :: "'e span \<Rightarrow> bool" where
  "positions_ok sp \<longleftrightarrow>
     0 \<le> eventSequence sp \<and> eventDepth sp = 1 + int (length (eventStack sp))
     \<and> map ev_depth (eventStack sp) = map (\<lambda>i. 1 + int i) [0..<length (eventStack sp)]
     \<and> list_all (\<lambda>se. \<not> ev_finished se) (eventStack sp)
     \<and> sequences_of sp = numbered (eventSequence sp)"

definition overflow_ok :: "'e span \<Rightarrow> bool" where
  "overflow_ok sp \<longleftrightarrow>
     0 \<le> eventOverflow sp
     \<and> (eventOverflow sp > 0 \<longrightarrow> over_limit (cfg sp) (eventSequence sp) (eventDepth sp))"

definition chunks_ok :: "'e span \<Rightarrow> bool" where
  "chunks_ok sp \<longleftrightarrow>
     length (spanEvents sp) < spanEventChunkSize (cfg sp)
     \<and> list_all (\<lambda>c. \<not> final c \<and> length (eventChunk c) = spanEventChunkSize (cfg sp)) (outbox sp)"

definition limits_ok :: "'e span \<Rightarrow> bool" where
  "limits_ok sp \<longleftrightarrow>
     eventSequence sp \<le> max 1 (spanMaxEventSequence (cfg sp))
     \<and> eventDepth sp \<le> max 0 (spanMaxEventDepth (cfg sp)) + 2"

text \<open>The invariant of an open span.\<close>

definition span_inv :: "'e span \<Rightarrow> bool" where
  "span_inv sp \<longleftrightarrow> \<not> finished sp \<and> positions_ok sp \<and> overflow_ok sp \<and> limits_ok sp \<and> chunks_ok sp"

lemma numbered_0 [simp]: "numbered 0 = {#}"
  by (simp add: numbered_def)

lemma numbered_Suc: "0 \<le> k \<Longrightarrow> numbered (k + 1) = add_mset k (numbered k)"
  by (simp add: numbered_def nat_add_distrib)

lemma sequences_of_cong:
  "map sequence (eventStack sp) = map sequence (eventStack sp') \<Longrightarrow> spanEvents sp = spanEvents sp' \<Longrightarrow> outbox sp = outbox sp'
   \<Longrightarrow> sequences_of sp = sequences_of sp'"
  unfolding sequences_of_def events_of_def by (metis map_append)

lemma sequences_of_stack:
  "sequences_of (sp\<lparr>eventStack := xs\<rparr>) + mset (map sequence (eventStack sp)) = sequences_of sp + mset (map sequence xs)"
  by (simp add: sequences_of_def events_of_def)

section \<open>Chunks keep the events\<close>

lemma sequence_compress [simp]: "map sequence (compress st d ses) = map sequence ses"
  by (induction st d ses rule: compress.induct) auto

lemma length_compress [simp]: "length (compress st d ses) = length ses"
  by (induction st d ses rule: compress.induct) auto

lemma sort_key_Nil_iff [simp]: "sort_key f xs = [] \<longleftrightarrow> xs = []"
  by (metis length_0_conv length_sort)

lemma map_sort_key: "map f (sort_key f xs) = sort (map f xs)"
  by (rule properties_for_sort [symmetric]) simp_all

lemma optimize_sequences:
  "map sequence (eventChunk (optimizeSpanEvents sp chunk)) = sort (map sequence (eventChunk chunk))"
proof (cases "sort_key sequence (eventChunk chunk)")
  case Nil
  then show ?thesis by (simp add: optimizeSpanEvents_def)
next
  case (Cons se ses)
  have "map sequence (se # ses) = sort (map sequence (eventChunk chunk))"
    by (metis Cons map_sort_key)
  moreover have "eventChunk chunk \<noteq> []" using Cons by auto
  ultimately show ?thesis by (simp add: optimizeSpanEvents_def Cons Let_def)
qed

lemma optimize_sel [simp]:
  "final (optimizeSpanEvents sp chunk) = final chunk"
  "length (eventChunk (optimizeSpanEvents sp chunk)) = length (eventChunk chunk)"
proof -
  show "final (optimizeSpanEvents sp chunk) = final chunk"
    by (simp add: optimizeSpanEvents_def Let_def split: list.splits)
  show "length (eventChunk (optimizeSpanEvents sp chunk)) = length (eventChunk chunk)"
    by (metis length_map length_sort optimize_sequences)
qed

lemma sequences_enqueued:
  "sequences_of (chunk_enqueue chunk sp) = sequences_of sp + mset (map sequence (eventChunk chunk))"
proof -
  have "mset (map sequence (eventChunk (optimizeSpanEvents sp chunk))) = mset (map sequence (eventChunk chunk))"
    by (simp add: optimize_sequences del: mset_map)
  then show ?thesis by (simp add: sequences_of_def events_of_def chunk_enqueue_def)
qed

section \<open>Preservation\<close>

text \<open>An operation that leaves the positions, the limits and the collected events alone keeps the invariant.\<close>

definition place :: "spanEvent \<Rightarrow> int \<times> int \<times> bool" where
  "place se = (sequence se, ev_depth se, ev_finished se)"

definition frame :: "'e span \<Rightarrow> 'e span \<Rightarrow> bool" where
  "frame sp sp' \<longleftrightarrow>
     map place (eventStack sp') = map place (eventStack sp) \<and> eventSequence sp' = eventSequence sp
     \<and> eventDepth sp' = eventDepth sp \<and> eventOverflow sp' = eventOverflow sp \<and> cfg sp' = cfg sp
     \<and> finished sp' = finished sp \<and> spanEvents sp' = spanEvents sp \<and> outbox sp' = outbox sp"

lemma frame_refl [simp]: "frame sp sp"
  by (simp add: frame_def)

lemma frame_trans: "frame a b \<Longrightarrow> frame b c \<Longrightarrow> frame a c"
  by (simp add: frame_def)

lemma place_maps:
  "map place xs = map place ys \<Longrightarrow>
   map sequence xs = map sequence ys \<and> map ev_depth xs = map ev_depth ys \<and> map ev_finished xs = map ev_finished ys"
proof -
  assume a: "map place xs = map place ys"
  have "sequence = fst \<circ> place" "ev_depth = fst \<circ> snd \<circ> place" "ev_finished = snd \<circ> snd \<circ> place"
    by (auto simp: place_def)
  with a show ?thesis by (metis map_map)
qed

lemma list_all_finished: "list_all (\<lambda>se. \<not> ev_finished se) xs \<longleftrightarrow> list_all Not (map ev_finished xs)"
  by (simp add: list_all_iff)

lemma span_inv_frame:
  assumes "span_inv sp" and "frame sp sp'"
  shows "span_inv sp'"
proof -
  have "map sequence (eventStack sp') = map sequence (eventStack sp)" "map ev_depth (eventStack sp') = map ev_depth (eventStack sp)"
    "map ev_finished (eventStack sp') = map ev_finished (eventStack sp)" "length (eventStack sp') = length (eventStack sp)"
    using assms(2) place_maps [of "eventStack sp'" "eventStack sp"] by (auto simp: frame_def dest: map_eq_imp_length_eq)
  with assms sequences_of_cong [of sp' sp] show ?thesis
    by (auto simp: span_inv_def positions_ok_def overflow_ok_def limits_ok_def chunks_ok_def frame_def list_all_finished)
qed

lemma over_limit_release [simp]:
  "releaseEventPosition (eventSequence sp) (snd (reserveEventPosition sp)) = sp"
  by (simp add: releaseEventPosition_def reserveEventPosition_def)

lemma NewSpanEvent_inv:
  assumes "span_inv sp"
  shows "span_inv (NewSpanEvent A now op sp)"
proof (cases "over_limit (cfg sp) (eventSequence sp) (eventDepth sp)")
  case True
  then have "NewSpanEvent A now op sp = sp\<lparr>eventOverflow := eventOverflow sp + 1, eventOverflowLog := True\<rparr>"
    using assms by (simp add: NewSpanEvent_def span_inv_def reserveEventPosition_def releaseEventPosition_def)
  with assms True show ?thesis
    by (simp add: span_inv_def positions_ok_def overflow_ok_def limits_ok_def chunks_ok_def sequences_of_def events_of_def)
next
  case False
  with assms have "eventOverflow sp = 0" by (auto simp: span_inv_def overflow_ok_def)
  moreover have "sequences_of (NewSpanEvent A now op sp) = add_mset (eventSequence sp) (sequences_of sp)"
    using assms False by (simp add: NewSpanEvent_def span_inv_def reserveEventPosition_def sequences_of_def events_of_def
        stack_push_def defaultSpanEvent_def)
  ultimately show ?thesis using assms False
    by (simp add: NewSpanEvent_def span_inv_def reserveEventPosition_def positions_ok_def overflow_ok_def limits_ok_def chunks_ok_def
        stack_push_def defaultSpanEvent_def numbered_Suc over_limit_def)
qed

text \<open>Ending the top event.\<close>

lemma append_inv:
  assumes "\<not> finished sp" "chunks_ok sp"
  shows "chunks_ok (appendEndedSpanEvent se sp)"
    and "sequences_of (appendEndedSpanEvent se sp) = add_mset (sequence se) (sequences_of sp)"
proof -
  let ?c = "\<lparr>eventChunk = spanEvents sp @ [se], final = False, keyTime = 0, chunk_endPoint = endPoint sp\<rparr>"
  show "sequences_of (appendEndedSpanEvent se sp) = add_mset (sequence se) (sequences_of sp)"
    using sequences_enqueued [of ?c "sp\<lparr>spanEvents := []\<rparr>"]
    by (auto simp: appendEndedSpanEvent_def newEventChunk_def Let_def sequences_of_def events_of_def)
  show "chunks_ok (appendEndedSpanEvent se sp)"
    using assms by (auto simp: appendEndedSpanEvent_def newEventChunk_def Let_def chunks_ok_def chunk_enqueue_def)
qed

lemma append_sel [simp]:
  "eventStack (appendEndedSpanEvent se sp) = eventStack sp"
  "eventSequence (appendEndedSpanEvent se sp) = eventSequence sp"
  "eventDepth (appendEndedSpanEvent se sp) = eventDepth sp"
  "eventOverflow (appendEndedSpanEvent se sp) = eventOverflow sp"
  "cfg (appendEndedSpanEvent se sp) = cfg sp"
  "finished (appendEndedSpanEvent se sp) = finished sp"
  by (simp_all add: appendEndedSpanEvent_def newEventChunk_def chunk_enqueue_def Let_def)

lemma pop_snoc [simp]: "stack_pop (xs @ [x]) = Some (x, xs)"
  by (simp add: stack_pop_def nth_append)

lemma pop_Nil [simp]: "stack_pop [] = None"
  by (simp add: stack_pop_def)

lemma finish_event_inv:
  assumes inv: "span_inv sp" and ov: "eventOverflow sp = 0" and st: "eventStack sp = xs @ [x]"
    and pl: "place se = place x" and fr: "frame (sp\<lparr>eventStack := xs\<rparr>) sp'"
  shows "span_inv (finish_event now se sp')"
    and "map place (eventStack (finish_event now se sp')) = map place xs"
    and "eventOverflow (finish_event now se sp') = 0"
proof -
  have len: "length (eventStack sp') = length xs" and stk: "map place (eventStack sp') = map place xs"
    using fr by (auto simp: frame_def dest: map_eq_imp_length_eq)
  have seqs: "sequences_of sp = add_mset (sequence se) (sequences_of sp')"
    using sequences_of_stack [of xs sp] sequences_of_cong [of sp' "sp\<lparr>eventStack := xs\<rparr>"] fr st pl place_maps [OF stk]
    by (simp add: frame_def place_def)
  have depths: "map ev_depth xs = map (\<lambda>i. 1 + int i) [0..<length xs]" and fin: "\<not> ev_finished x" "list_all (\<lambda>se. \<not> ev_finished se) xs"
    using inv st by (auto simp: span_inv_def positions_ok_def)
  let ?sp = "sp'\<lparr>eventDepth := eventDepth sp' - end_depth se\<rparr>"
  have "\<not> finished ?sp" "chunks_ok ?sp" "sequences_of ?sp = sequences_of sp'"
    using inv fr by (auto simp: span_inv_def chunks_ok_def frame_def sequences_of_def events_of_def)
  note ap = append_inv [OF this(1,2), of "ev_end now se"] this(3)
  show "span_inv (finish_event now se sp')"
    using inv ov fr ap seqs depths fin len place_maps [OF stk] st pl
    by (simp add: span_inv_def positions_ok_def overflow_ok_def limits_ok_def finish_event_def frame_def end_depth_def
        place_def list_all_finished)
  show "map place (eventStack (finish_event now se sp')) = map place xs"
    using stk by (simp add: finish_event_def)
  show "eventOverflow (finish_event now se sp') = 0"
    using fr ov by (simp add: finish_event_def frame_def)
qed

lemma place_setters [simp]:
  "place (ev_SetServiceType typ se) = place se" "place (SetDestination d se) = place se"
  "place (ev_SetEndPoint ep se) = place se" "place (ev_annotate f se) = place se" "place (FixDuration a b se) = place se"
  by (simp_all add: place_def ev_SetServiceType_def SetDestination_def ev_SetEndPoint_def ev_annotate_def
      FixDuration_def unless_finished_def)

lemma chains_self [simp]: "\<exists>cs. (sp :: 'e span) = sp\<lparr>chains := cs\<rparr>"
  by (rule exI [of _ "chains sp"]) simp

lemma ev_SetError_frame:
  assumes "ev_SetError A eo names se (sp, r, gen) = (se', sp', r', gen')"
  shows "place se' = place se" and "\<exists>cs. sp' = sp\<lparr>chains := cs\<rparr>"
proof -
  have upd: "place (se\<lparr>ev_errorFuncId := a, ev_errorString := b\<rparr>) = place se" for a b by (simp add: place_def)
  have "place se' = place se \<and> (\<exists>cs. sp' = sp\<lparr>chains := cs\<rparr>)"
    using assms
    by (auto simp: ev_SetError_def Let_def upd split: option.splits if_splits prod.splits)
  then show "place se' = place se" "\<exists>cs. sp' = sp\<lparr>chains := cs\<rparr>" by auto
qed

lemma SetError_frame:
  assumes "SetError A eo names (sp, r, gen) = (sp', r', gen')"
  shows "frame sp sp'"
proof (cases "eo = None \<or> finished sp")
  case True
  then show ?thesis using assms by (cases eo) (auto simp: SetError_def)
next
  case False
  then obtain e where e: "eo = Some e" by auto
  show ?thesis
  proof (cases "isAsyncSpan sp \<and> eventStack sp \<noteq> []")
    case True
    obtain se' sp1 r1 g1 where v: "ev_SetError A eo names (eventStack sp ! 0) (sp, r, gen) = (se', sp1, r1, g1)"
      by (metis prod.collapse)
    have b: "stack_bottom (eventStack sp) = Some (eventStack sp ! 0)" using True by (simp add: stack_bottom_def)
    have "sp' = sp1\<lparr>eventStack := (eventStack sp1)[0 := se']\<rparr>"
      using assms False True v by (simp add: SetError_def e b Let_def)
    moreover obtain cs where "sp1 = sp\<lparr>chains := cs\<rparr>" "place se' = place (eventStack sp ! 0)"
      using ev_SetError_frame [OF v] by auto
    moreover have "map place ((eventStack sp)[0 := se']) = map place (eventStack sp)"
      using True \<open>place se' = _\<close> by (cases "eventStack sp") auto
    ultimately show ?thesis by (simp add: frame_def)
  next
    case no: False
    then have "isAsyncSpan sp \<Longrightarrow> stack_bottom (eventStack sp) = None" by (auto simp: stack_bottom_def)
    then show ?thesis using assms False
      by (cases "isAsyncSpan sp") (auto simp: SetError_def e Let_def frame_def)
  qed
qed

lemma on_top_snoc:
  "eventStack sp = xs @ [x] \<Longrightarrow> eventOverflow sp = 0 \<Longrightarrow> on_top f sp = sp\<lparr>eventStack := xs @ [f x]\<rparr>"
  by (simp add: on_top_def)

lemma on_top_frame:
  assumes "\<And>se. se \<in> set (eventStack sp) \<Longrightarrow> place (f se) = place se"
  shows "frame sp (on_top f sp)"
proof (cases "eventStack sp" rule: rev_cases)
  case Nil
  then show ?thesis by (simp add: on_top_def)
next
  case (snoc xs x)
  with assms show ?thesis by (simp add: on_top_def frame_def)
qed

lemma setter_frames [simp]:
  "frame sp (SetServiceType typ sp)" "frame sp (SetRpcName rpc sp)" "frame sp (SetRemoteAddress a sp)"
  "frame sp (SetEndPoint ep sp)" "frame sp (SetAcceptorHost host sp)" "frame sp (annotate g sp)"
  "frame sp (RecordUrlStat stat sp)"
  by (simp_all add: SetServiceType_def SetRpcName_def SetRemoteAddress_def SetEndPoint_def SetAcceptorHost_def
      annotate_def RecordUrlStat_def Let_def frame_def unless_ended_def)

lemma SetDestination_frame [simp]: "frame sp (SpanEvent_SetDestination d sp)"
proof (cases "eventOverflow sp > 0")
  case True
  then show ?thesis by (simp add: SpanEvent_SetDestination_def frame_def)
next
  case False
  then show ?thesis using on_top_frame [of sp "SetDestination d"] by (simp add: SpanEvent_SetDestination_def)
qed

lemma endSpanEvent_inv:
  assumes inv: "span_inv sp"
  shows "span_inv (fst (fst (endSpanEvent A now rec (sp, r, gen))))"
proof (cases "eventOverflow sp > 0")
  case True
  then have "over_limit (cfg sp) (eventSequence sp) (eventDepth sp)" using inv by (simp add: span_inv_def overflow_ok_def)
  with inv True show ?thesis
    by (auto simp: endSpanEvent_def span_inv_def positions_ok_def overflow_ok_def limits_ok_def chunks_ok_def sequences_of_def events_of_def)
next
  case False
  then have ov: "eventOverflow sp = 0" using inv by (simp add: span_inv_def overflow_ok_def)
  show ?thesis
  proof (cases "eventStack sp" rule: rev_cases)
    case Nil
    then show ?thesis using inv ov by (simp add: endSpanEvent_def)
  next
    case (snoc xs x)
    let ?sp = "sp\<lparr>eventStack := xs\<rparr>"
    show ?thesis
    proof (cases rec)
      case None
      then show ?thesis
        using finish_event_inv(1) [OF inv ov snoc, of x ?sp] by (simp add: endSpanEvent_def ov snoc)
    next
      case (Some ve)
      obtain v e where ve: "ve = (v, e)" by (cases ve)
      obtain se1 sp1 r1 g1 where a: "ev_SetError A (Some e) [''panic''] x (?sp, r, gen) = (se1, sp1, r1, g1)"
        by (metis prod.collapse)
      obtain sp2 r2 g2 where b: "SetError A (Some e) [] (sp1, r1, g1) = (sp2, r2, g2)" by (metis prod.collapse)
      obtain cs where "sp1 = ?sp\<lparr>chains := cs\<rparr>" using ev_SetError_frame [OF a] by auto
      then have "frame ?sp sp1" by (simp add: frame_def)
      with SetError_frame [OF b] have "frame ?sp (sp2\<lparr>recovered := True\<rparr>)" by (simp add: frame_def)
      with finish_event_inv(1) [OF inv ov snoc ev_SetError_frame(1) [OF a]] show ?thesis
        by (simp add: endSpanEvent_def ov snoc Some ve a b)
    qed
  qed
qed

section \<open>Histories\<close>

text \<open>
  The calls an instrumented application may make on one tracer before it ends, each with the clock reading
  and the answers of the agent it meets.
\<close>

datatype ('e, 'p) span_op =
    DoNewSpanEvent int string
  | DoEndSpanEvent int "('p \<times> 'e) option"
  | DoSpanError "'e option" "string list"
  | DoEventError "'e option" "string list"
  | DoSetFailure "ErrorCategory list"
  | DoSetServiceType go_int32
  | DoSetRpcName string
  | DoSetRemoteAddress string
  | DoSetEndPoint string
  | DoSetAcceptorHost string
  | DoAnnotate annotationValue
  | DoSetLogging go_int32
  | DoRecordUrlStat UrlStatEntry
  | DoEventServiceType go_int32
  | DoEventDestination string
  | DoEventEndPoint string
  | DoEventAnnotate annotationValue
  | DoFixDuration int int
  | DoInject go_int64
  | DoNewGoroutineTracer int go_int32

text \<open>\<open>SetError\<close> of the recorder \<open>SpanEvent()\<close> returns.\<close>

definition SpanEvent_SetError :: "'e agent_env \<Rightarrow> 'e option \<Rightarrow> string list \<Rightarrow> 'e traced \<Rightarrow> 'e traced" where
  "SpanEvent_SetError A eo names st =
     (case st of (sp, r, gen) \<Rightarrow>
        if eventOverflow sp > 0 then (sp, overflow_SetError A eo names sp r, gen)
        else case stack_peek (eventStack sp) of None \<Rightarrow> st
        | Some se \<Rightarrow>
            (let (se, sp, r, gen) = ev_SetError A eo names se st in (on_top (\<lambda>_. se) sp, r, gen)))"

fun span_do :: "'e agent_env \<Rightarrow> ('e, 'p) span_op \<Rightarrow> 'e traced \<Rightarrow> 'e traced" where
  "span_do A (DoNewSpanEvent now op) (sp, r, gen) = (NewSpanEvent A now op sp, r, gen)"
| "span_do A (DoEndSpanEvent now pending) st = fst (EndSpanEvent A now pending st)"
| "span_do A (DoSpanError eo names) st = SetError A eo names st"
| "span_do A (DoEventError eo names) st = SpanEvent_SetError A eo names st"
| "span_do A (DoSetFailure cats) (sp, r, gen) = (sp, SetFailure cats sp r, gen)"
| "span_do A (DoSetServiceType typ) (sp, r, gen) = (SetServiceType typ sp, r, gen)"
| "span_do A (DoSetRpcName rpc) (sp, r, gen) = (SetRpcName rpc sp, r, gen)"
| "span_do A (DoSetRemoteAddress a) (sp, r, gen) = (SetRemoteAddress a sp, r, gen)"
| "span_do A (DoSetEndPoint ep) (sp, r, gen) = (SetEndPoint ep sp, r, gen)"
| "span_do A (DoSetAcceptorHost host) (sp, r, gen) = (SetAcceptorHost host sp, r, gen)"
| "span_do A (DoAnnotate v) (sp, r, gen) = (annotate (annotation_append v) sp, r, gen)"
| "span_do A (DoSetLogging l) (sp, r, gen) = (sp, SetLogging l sp r, gen)"
| "span_do A (DoRecordUrlStat stat) (sp, r, gen) = (RecordUrlStat stat sp, r, gen)"
| "span_do A (DoEventServiceType typ) (sp, r, gen) = (on_top (ev_SetServiceType typ) sp, r, gen)"
| "span_do A (DoEventDestination d) (sp, r, gen) = (SpanEvent_SetDestination d sp, r, gen)"
| "span_do A (DoEventEndPoint ep) (sp, r, gen) = (on_top (ev_SetEndPoint ep) sp, r, gen)"
| "span_do A (DoEventAnnotate v) (sp, r, gen) = (on_top (ev_annotate (annotation_append v)) sp, r, gen)"
| "span_do A (DoFixDuration a b) (sp, r, gen) = (on_top (FixDuration a b) sp, r, gen)"
| "span_do A (DoInject nid) (sp, r, gen) = (snd (Inject A nid sp), r, gen)"
| "span_do A (DoNewGoroutineTracer now agen) (sp, r, gen) = (fst (snd (NewGoroutineTracer A now agen sp)), r, gen)"

definition span_run :: "'e agent_env \<Rightarrow> ('e, 'p) span_op list \<Rightarrow> 'e traced \<Rightarrow> 'e traced" where
  "span_run A ops st = fold (span_do A) ops st"

lemma peek_snoc: "stack_peek (xs @ [x]) = Some x"
  by (simp add: stack_peek_def nth_append)

lemma peek_Nil [simp]: "stack_peek [] = None"
  by (simp add: stack_peek_def)

lemma SpanEvent_SetError_frame:
  "frame sp (fst (SpanEvent_SetError A eo names (sp, r, gen)))"
proof (cases "eventOverflow sp > 0 \<or> eventStack sp = []")
  case True
  then show ?thesis by (auto simp: SpanEvent_SetError_def)
next
  case False
  then obtain xs x where x: "eventStack sp = xs @ [x]" by (metis rev_exhaust)
  obtain se' sp1 r1 g1 where v: "ev_SetError A eo names x (sp, r, gen) = (se', sp1, r1, g1)" by (metis prod.collapse)
  obtain cs where cs: "sp1 = sp\<lparr>chains := cs\<rparr>" using ev_SetError_frame(2) [OF v] by auto
  have "fst (SpanEvent_SetError A eo names (sp, r, gen)) = on_top (\<lambda>_. se') sp1"
    using False by (simp add: SpanEvent_SetError_def x peek_snoc v)
  moreover have "on_top (\<lambda>_. se') sp1 = sp1\<lparr>eventStack := xs @ [se']\<rparr>" using False x cs by (simp add: on_top_def)
  ultimately show ?thesis using x cs ev_SetError_frame(1) [OF v] by (simp add: frame_def)
qed

lemma Inject_frame: "frame sp (snd (Inject A nid sp))"
proof -
  show ?thesis
  proof (cases "finished sp \<or> eventOverflow sp \<noteq> 0 \<or> eventStack sp = []")
    case True
    then show ?thesis by (auto simp: Inject_def Let_def frame_def)
  next
    case False
    then obtain xs x where "eventStack sp = xs @ [x]" by (metis rev_exhaust)
    with False show ?thesis by (auto simp: Inject_def Let_def frame_def peek_snoc on_top_def place_def)
  qed
qed

lemma NewGoroutineTracer_frame: "frame sp (fst (snd (NewGoroutineTracer A now g sp)))"
proof (cases "finished sp \<or> eventOverflow sp > 0 \<or> eventStack sp = []")
  case True
  then show ?thesis by (auto simp: NewGoroutineTracer_def)
next
  case False
  then obtain xs x where "eventStack sp = xs @ [x]" by (metis rev_exhaust)
  with False show ?thesis
    by (auto simp: NewGoroutineTracer_def Let_def frame_def peek_snoc on_top_def place_def split: prod.splits)
qed

lemma span_do_inv:
  assumes "span_inv (fst st)"
  shows "span_inv (fst (span_do A op st))"
proof -
  obtain sp r gen where st: "st = (sp, r, gen)" by (cases st)
  have inv: "span_inv sp" using assms st by simp
  have fr: "span_inv sp'" if "frame sp sp'" for sp' by (rule span_inv_frame [OF inv that])
  have se: "frame sp (fst (SetError A eo names (sp, r, gen)))" for eo names
    using SetError_frame [of A eo names sp r gen "fst (SetError A eo names (sp, r, gen))"
        "fst (snd (SetError A eo names (sp, r, gen)))" "snd (snd (SetError A eo names (sp, r, gen)))"] by simp
  show ?thesis
    unfolding st
  proof (cases op)
    case (DoEndSpanEvent now pending)
    then show "span_inv (fst (span_do A op (sp, r, gen)))"
      by (simp add: EndSpanEvent_def endSpanEvent_inv [OF inv] inv)
  qed (use fr se inv in \<open>simp_all add: NewSpanEvent_inv on_top_frame SpanEvent_SetError_frame Inject_frame NewGoroutineTracer_frame\<close>)
qed

lemma span_run_inv: "span_inv (fst st) \<Longrightarrow> span_inv (fst (span_run A ops st))"
  unfolding span_run_def by (induction ops arbitrary: st) (auto simp: span_do_inv)

lemma defaultSpan_inv: "spanEventChunkSize c > 0 \<Longrightarrow> span_inv (defaultSpan c now)"
  by (simp add: defaultSpan_def span_inv_def positions_ok_def overflow_ok_def limits_ok_def chunks_ok_def sequences_of_def
      events_of_def numbered_def)

lemma newSampledSpan_inv: "spanEventChunkSize c > 0 \<Longrightarrow> span_inv (newSampledSpan A c now operation rpc)"
  by (rule span_inv_frame [OF defaultSpan_inv]) (auto simp: newSampledSpan_def frame_def)

lemma span_extract_frame: "frame sp (span_extract Get inb newTx gid sp)"
  by (auto simp: span_extract_def Let_def frame_def split: option.splits)

text \<open>A fresh goroutine tracer holds its one event, open.\<close>

lemma NewGoroutineTracer_child_inv:
  assumes "NewGoroutineTracer A now g sp = (Some child, sp', g')" and "spanEventChunkSize (cfg sp) > 0"
  shows "span_inv child \<and> isAsyncSpan child \<and> length (eventStack child) = 1"
proof -
  obtain se where se: "stack_peek (eventStack sp) = Some se" "\<not> finished sp" "\<not> ev_finished se" "\<not> eventOverflow sp > 0"
    using assms(1) by (auto simp: NewGoroutineTracer_def split: if_splits option.splits)
  have cfg: "cfg (on_top f sp) = cfg sp" for f by (simp add: on_top_def)
  have nz: "gen + 1 = noneAsyncId \<Longrightarrow> gen + 2 \<noteq> noneAsyncId" for gen :: go_int32
  proof -
    assume "gen + 1 = noneAsyncId"
    moreover have "gen + 2 = (gen + 1) + 1" by simp
    ultimately have "gen + 2 = 1" by (simp only: noneAsyncId_def add_0)
    then show ?thesis by (metis noneAsyncId_def zero_neq_one)
  qed
  then have "fst (draw_asyncId (ev_asyncId se) g) \<noteq> noneAsyncId" by (simp add: draw_asyncId_def)
  then show ?thesis
    using assms se
    by (auto simp: NewGoroutineTracer_def Let_def newSpanEventGoroutine_def reserveEventPosition_def defaultSpan_def cfg
        isAsyncSpan_def stack_push_def span_inv_def positions_ok_def overflow_ok_def limits_ok_def chunks_ok_def sequences_of_def
        events_of_def numbered_def defaultSpanEvent_def split: prod.splits)
qed

section \<open>The end of the span\<close>

lemma append_finished:
  "finished sp \<Longrightarrow> appendEndedSpanEvent se sp = sp\<lparr>spanEvents := spanEvents sp @ [se]\<rparr>"
  by (simp add: appendEndedSpanEvent_def Let_def)

lemma fold_append_finished:
  "finished sp \<Longrightarrow> fold appendEndedSpanEvent ses sp = sp\<lparr>spanEvents := spanEvents sp @ ses\<rparr>"
  by (induction ses arbitrary: sp) (auto simp: append_finished)

lemma optimize_cong:
  "isAsyncSpan sp = isAsyncSpan sp' \<Longrightarrow> startTime sp = startTime sp' \<Longrightarrow> optimizeSpanEvents sp c = optimizeSpanEvents sp' c"
  by (simp add: optimizeSpanEvents_def split: list.split)

definition final_chunk :: "int \<Rightarrow> 'e span \<Rightarrow> spanChunk" where
  "final_chunk now sp = optimizeSpanEvents sp
     \<lparr>eventChunk = spanEvents sp @ stack_endAll now (eventStack sp), final = True, keyTime = 0, chunk_endPoint = endPoint sp\<rparr>"

lemma EndSpan_sel:
  assumes "\<not> finished sp"
  shows "outbox (snd (EndSpan now acc r sp)) = outbox sp @ [final_chunk now sp]"
    and "eventSequence (snd (EndSpan now acc r sp)) = eventSequence sp"
    and "eventStack (snd (EndSpan now acc r sp)) = []"
    and "spanEvents (snd (EndSpan now acc r sp)) = []"
    and "finished (snd (EndSpan now acc r sp))"
    and "eventDepth (snd (EndSpan now acc r sp)) = eventDepth sp - stack_depths (eventStack sp)"
proof -
  let ?sp1 = "sp\<lparr>finished := True, elapsed := max (now - startTime sp) 0,
    eventDepth := eventDepth sp - stack_depths (eventStack sp), eventStack := []\<rparr>"
  have f: "fold appendEndedSpanEvent ses ?sp1 = ?sp1\<lparr>spanEvents := spanEvents sp @ ses\<rparr>" for ses
    using fold_append_finished [of ?sp1 ses] by simp
  have "snd (EndSpan now acc r sp) =
      (chunk_enqueue \<lparr>eventChunk = spanEvents sp @ stack_endAll now (eventStack sp), final = True, keyTime = 0,
          chunk_endPoint = endPoint sp\<rparr>
        (?sp1\<lparr>chains := (chains sp)\<lparr>errorChains := None\<rparr>, spanEvents := []\<rparr>))\<lparr>annotations := seal (annotations sp)\<rparr>"
    using assms f by (simp add: EndSpan_def Let_def newEventChunk_def chunk_enqueue_def)
  moreover have "optimizeSpanEvents (?sp1\<lparr>chains := (chains sp)\<lparr>errorChains := None\<rparr>, spanEvents := []\<rparr>) c
      = optimizeSpanEvents sp c" for c
    by (rule optimize_cong) (simp_all add: isAsyncSpan_def)
  ultimately show "outbox (snd (EndSpan now acc r sp)) = outbox sp @ [final_chunk now sp]"
    "eventSequence (snd (EndSpan now acc r sp)) = eventSequence sp" "eventStack (snd (EndSpan now acc r sp)) = []"
    "spanEvents (snd (EndSpan now acc r sp)) = []" "finished (snd (EndSpan now acc r sp))"
    "eventDepth (snd (EndSpan now acc r sp)) = eventDepth sp - stack_depths (eventStack sp)"
    by (simp_all add: chunk_enqueue_def final_chunk_def)
qed

section \<open>Properties\<close>

text \<open>
  (C1) A span reports every event exactly once. For any calls on a sampled span in any order (nested, unbalanced,
  overflowing, failing or panicking), once \<open>EndSpan\<close> has run the chunks handed to the sender carry the
  sequence numbers \<open>0, \<dots>, n - 1\<close> of the \<open>n\<close> recorded events, each once; every chunk but the last is a full
  non-final chunk of \<open>Span.EventChunkSize\<close> events, the last one is final, and \<open>n\<close> respects the limit.
\<close>

theorem span_reports_every_event:
  assumes "spanEventChunkSize c > 0"
    and "span_run A ops (span_extract Get inb newTx gid (newSampledSpan A c now0 operation rpc), r, gen) = (sp, r', gen')"
  shows "let box = outbox (snd (EndSpan now acc r' sp)); k = eventSequence sp
    in mset (map sequence (concat (map eventChunk box))) = mset (map int [0..<nat k])
       \<and> box \<noteq> [] \<and> final (last box)
       \<and> list_all (\<lambda>ch. \<not> final ch \<and> length (eventChunk ch) = spanEventChunkSize (cfg sp)) (butlast box)
       \<and> 0 \<le> k \<and> k \<le> max 1 (spanMaxEventSequence (cfg sp))"
proof -
  have "span_inv (span_extract Get inb newTx gid (newSampledSpan A c now0 operation rpc))"
    using newSampledSpan_inv [OF assms(1)] span_extract_frame by (rule span_inv_frame)
  then have inv: "span_inv sp" using span_run_inv [of "(_, r, gen)" A ops] assms(2) by (metis fst_conv)
  have seqs: "mset (map sequence (eventChunk (final_chunk now sp))) =
      mset (map sequence (spanEvents sp)) + mset (map sequence (eventStack sp))"
    by (simp add: final_chunk_def optimize_sequences stack_endAll_def comp_def del: mset_map) simp
  have "mset (map sequence (concat (map eventChunk (outbox sp @ [final_chunk now sp])))) = sequences_of sp"
    using seqs by (simp add: sequences_of_def events_of_def)
  with inv show ?thesis
    by (simp add: Let_def EndSpan_sel span_inv_def positions_ok_def limits_ok_def chunks_ok_def numbered_def
        final_chunk_def del: mset_map)
qed

text \<open>A small configuration and an agent for the witnesses.\<close>

definition small_config :: spanConfig where
  "small_config = \<lparr>spanMaxEventSequence = 4, spanMaxEventDepth = 2, spanEventChunkSize = 2, errorMarkMask = 0,
     errorIgnoreRules = [], errorTraceCallStack = True, errorCallStackDepth = 8, errorMaxChainDepth = 4,
     cfg_collectUrlStat = True\<rparr>"

definition plain_agent :: "nat agent_env" where
  "plain_agent = \<lparr>errs = counting_errors, cacheError = (\<lambda>_. 7), cacheSpanApi = (\<lambda>_ _. 9), limiter = None, callers = [],
     appName = ''shop'', appTypeStr = ''1800'', serviceName = [], clusterNamespace = []\<rparr>"

definition zero_root :: root where
  "zero_root = \<lparr>root_err = 0, root_statusErr = 0, root_sqlCount = 0, root_loggingInfo = 0\<rparr>"

definition fresh_span :: "nat span" where
  "fresh_span = span_extract (\<lambda>_. None) (continueHeaders (\<lambda>_. None) []) zero_txId 5
     (newSampledSpan plain_agent small_config 0 ''op'' ''/'')"

definition sample_ops :: "(nat, nat) span_op list" where
  "sample_ops = [DoNewSpanEvent 1 ''a'', DoNewSpanEvent 2 ''b'', DoEventError (Some 2) [], DoNewSpanEvent 3 ''c'',
     DoNewSpanEvent 4 ''d'', DoEndSpanEvent 5 None, DoEndSpanEvent 6 None, DoEndSpanEvent 7 (Some (3, 1))]"

theorem span_reports_every_event_witness:
  "let st = span_run plain_agent sample_ops (fresh_span, zero_root, 0)
   in eventSequence (fst st) = 3
      \<and> mset (map sequence (concat (map eventChunk (outbox (snd (EndSpan 9 True (fst (snd st)) (fst st)))))))
          = mset [0, 1, 2]"
proof -
  let ?st = "span_run plain_agent sample_ops (fresh_span, zero_root, 0)"
  have k: "eventSequence (fst ?st) = 3" by code_simp
  have "spanEventChunkSize small_config > 0" by (simp add: small_config_def)
  from span_reports_every_event [OF this, of plain_agent sample_ops "\<lambda>_. None" "continueHeaders (\<lambda>_. None) []" zero_txId 5 0
      "''op''" "''/''" zero_root 0 "fst ?st" "fst (snd ?st)" "snd (snd ?st)" 9 True]
  have "mset (map sequence (concat (map eventChunk (outbox (snd (EndSpan 9 True (fst (snd ?st)) (fst ?st)))))))
      = mset (map int [0..<nat 3])"
    by (simp add: Let_def k fresh_span_def [symmetric] del: mset_map)
  also have "map int [0..<nat 3] = [0, 1, 2]" by (simp add: upt_rec)
  finally show ?thesis using k by (simp add: Let_def)
qed

section \<open>Balanced calls\<close>

text \<open>Instrumented code as the tree of its calls; each one is bracketed by \<open>NewSpanEvent\<close> and \<open>EndSpanEvent\<close>.\<close>

datatype call = Call string "call list"

primrec run_call :: "'e agent_env \<Rightarrow> int \<Rightarrow> call \<Rightarrow> 'e traced \<Rightarrow> 'e traced"
  and run_calls :: "'e agent_env \<Rightarrow> int \<Rightarrow> call list \<Rightarrow> 'e traced \<Rightarrow> 'e traced" where
  "run_call A now (Call op kids) st =
     fst (EndSpanEvent A now (None :: (unit \<times> 'e) option)
       (run_calls A now kids (NewSpanEvent A now op (fst st), snd st)))"
| "run_calls A now [] st = st"
| "run_calls A now (c # cs) st = run_calls A now cs (run_call A now c st)"

definition same_stack :: "'e span \<Rightarrow> 'e span \<Rightarrow> bool" where
  "same_stack sp sp' \<longleftrightarrow>
     map place (eventStack sp') = map place (eventStack sp) \<and> eventOverflow sp' = eventOverflow sp
     \<and> eventDepth sp' = eventDepth sp"

lemma EndSpanEvent_plain:
  "\<not> finished (fst st) \<Longrightarrow> fst (EndSpanEvent A now (None :: ('p \<times> 'e) option) st) = fst (endSpanEvent A now (None :: ('p \<times> 'e) option) st)"
  by (simp add: EndSpanEvent_def)

lemma end_pops:
  assumes "span_inv sp" and "eventOverflow sp = 0" and "eventStack sp = xs @ [x]"
  shows "let sp' = fst (fst (endSpanEvent A now (None :: ('p \<times> 'e) option) (sp, r, gen)))
    in span_inv sp' \<and> map place (eventStack sp') = map place xs \<and> eventOverflow sp' = 0"
  using finish_event_inv [OF assms, of x "sp\<lparr>eventStack := xs\<rparr>" now] assms
  by (simp add: endSpanEvent_def Let_def)

lemma span_inv_depth: "span_inv sp \<Longrightarrow> eventDepth sp = 1 + int (length (eventStack sp))"
  by (simp add: span_inv_def positions_ok_def)

lemma same_stackI:
  "span_inv sp \<Longrightarrow> span_inv sp' \<Longrightarrow> map place (eventStack sp') = map place (eventStack sp) \<Longrightarrow> eventOverflow sp' = eventOverflow sp
   \<Longrightarrow> same_stack sp sp'"
  by (auto simp: same_stack_def span_inv_depth dest: map_eq_imp_length_eq)

text \<open>One bracket around work that keeps the stack keeps the stack.\<close>

lemma bracket_same_stack:
  assumes inv: "span_inv sp" and mid: "span_inv sp1" "same_stack (NewSpanEvent A now op sp) sp1"
  shows "let sp' = fst (fst (EndSpanEvent A now (None :: ('p \<times> 'e) option) (sp1, r, gen))) in span_inv sp' \<and> same_stack sp sp'"
proof -
  let ?sp' = "fst (fst (endSpanEvent A now (None :: ('p \<times> 'e) option) (sp1, r, gen)))"
  have e: "fst (fst (EndSpanEvent A now (None :: ('p \<times> 'e) option) (sp1, r, gen))) = ?sp'"
    using mid(1) by (simp add: EndSpanEvent_plain span_inv_def)
  have inv': "span_inv ?sp'" by (rule endSpanEvent_inv [OF mid(1)])
  have nf: "\<not> finished sp" using inv by (simp add: span_inv_def)
  show ?thesis
  proof (cases "over_limit (cfg sp) (eventSequence sp) (eventDepth sp)")
    case True
    then have "NewSpanEvent A now op sp = sp\<lparr>eventOverflow := eventOverflow sp + 1, eventOverflowLog := True\<rparr>"
      using nf by (simp add: NewSpanEvent_def reserveEventPosition_def releaseEventPosition_def)
    with mid(2) have "eventOverflow sp1 = eventOverflow sp + 1" "map place (eventStack sp1) = map place (eventStack sp)"
      by (simp_all add: same_stack_def)
    moreover have "0 \<le> eventOverflow sp" using inv by (simp add: span_inv_def overflow_ok_def)
    ultimately have "map place (eventStack ?sp') = map place (eventStack sp) \<and> eventOverflow ?sp' = eventOverflow sp"
      by (simp add: endSpanEvent_def)
    then show ?thesis using e inv inv' by (simp add: same_stackI)
  next
    case False
    then have ov: "eventOverflow sp = 0" using inv by (auto simp: span_inv_def overflow_ok_def)
    have "map place (eventStack sp1) = map place (eventStack sp) @ [(eventSequence sp, eventDepth sp, False)]" "eventOverflow sp1 = 0"
      using mid(2) False nf ov
      by (simp_all add: same_stack_def NewSpanEvent_def reserveEventPosition_def stack_push_def place_def defaultSpanEvent_def)
    moreover from this obtain xs x where x: "eventStack sp1 = xs @ [x]"
      by (metis map_is_Nil_conv rev_exhaust snoc_eq_iff_butlast)
    ultimately have "map place xs = map place (eventStack sp)" by simp
    moreover have "let sp' = ?sp' in span_inv sp' \<and> map place (eventStack sp') = map place xs \<and> eventOverflow sp' = 0"
      by (rule end_pops [OF mid(1) \<open>eventOverflow sp1 = 0\<close> x])
    ultimately have "map place (eventStack ?sp') = map place (eventStack sp) \<and> eventOverflow ?sp' = eventOverflow sp"
      using ov by (simp add: Let_def)
    then show ?thesis using e inv inv' by (simp add: same_stackI)
  qed
qed

lemma same_stack_trans: "same_stack a b \<Longrightarrow> same_stack b c \<Longrightarrow> same_stack a c"
  by (simp add: same_stack_def)

definition keeps_stack :: "('e traced \<Rightarrow> 'e traced) \<Rightarrow> bool" where
  "keeps_stack f \<longleftrightarrow> (\<forall>st. span_inv (fst st) \<longrightarrow> span_inv (fst (f st)) \<and> same_stack (fst st) (fst (f st)))"

lemma keeps_stack_comp: "keeps_stack f \<Longrightarrow> keeps_stack g \<Longrightarrow> keeps_stack (\<lambda>st. g (f st))"
  unfolding keeps_stack_def by (blast intro: same_stack_trans)

lemma run_calls_keeps_stack:
  "(\<And>c. c \<in> set cs \<Longrightarrow> keeps_stack (run_call A now c)) \<Longrightarrow> keeps_stack (run_calls A now cs)"
proof (induction cs)
  case Nil
  then show ?case by (simp add: keeps_stack_def same_stack_def)
next
  case (Cons c cs)
  then have "keeps_stack (\<lambda>st. run_calls A now cs (run_call A now c st))"
    by (intro keeps_stack_comp [of "run_call A now c" "run_calls A now cs"]) simp_all
  then show ?case by (simp add: keeps_stack_def)
qed

lemma run_call_keeps_stack:
  fixes A :: "'e agent_env"
  shows "keeps_stack (run_call A now c)"
proof (induction c)
  case (Call op kids)
  then have kids: "keeps_stack (run_calls A now kids)" by (intro run_calls_keeps_stack)
  show ?case
    unfolding keeps_stack_def
  proof (intro allI impI)
    fix st :: "'e traced" assume inv: "span_inv (fst st)"
    let ?st1 = "run_calls A now kids (NewSpanEvent A now op (fst st), snd st)"
    have "span_inv (fst ?st1) \<and> same_stack (NewSpanEvent A now op (fst st)) (fst ?st1)"
      using kids NewSpanEvent_inv [OF inv] unfolding keeps_stack_def by (metis fst_conv)
    then show "span_inv (fst (run_call A now (Call op kids) st)) \<and> same_stack (fst st) (fst (run_call A now (Call op kids) st))"
      using bracket_same_stack [OF inv, of "fst ?st1" A now op "fst (snd ?st1)" "snd (snd ?st1)"] by (simp add: Let_def)
  qed
qed

text \<open>
  Balanced instrumentation leaves the call stack as it found it, overflow included: however deep and long
  the bracketed calls go past \<open>Span.MaxCallStackDepth\<close> and \<open>Span.MaxCallStackSequence\<close>, afterwards the same events are open at the same
  positions, the depth is the same and exactly the overflow placeholders of before are pending, so no end pops an
  event of an enclosing call.
\<close>

theorem balanced_calls_restore_stack:
  assumes "spanEventChunkSize c > 0"
  shows "let sp = fst (span_run A ops (newSampledSpan A c now0 operation rpc, r, gen));
             sp' = fst (run_calls A now calls (span_run A ops (newSampledSpan A c now0 operation rpc, r, gen)))
    in map (\<lambda>se. (sequence se, ev_depth se)) (eventStack sp') = map (\<lambda>se. (sequence se, ev_depth se)) (eventStack sp)
       \<and> eventDepth sp' = eventDepth sp \<and> eventOverflow sp' = eventOverflow sp"
proof -
  let ?st = "span_run A ops (newSampledSpan A c now0 operation rpc, r, gen)"
  have "span_inv (fst ?st)" by (rule span_run_inv) (simp add: newSampledSpan_inv assms)
  then have "same_stack (fst ?st) (fst (run_calls A now calls ?st))"
    using run_calls_keeps_stack [OF run_call_keeps_stack] unfolding keeps_stack_def by metis
  moreover have "map (\<lambda>se. (sequence se, ev_depth se)) xs = map (\<lambda>(a, b, c). (a, b)) (map place xs)" for xs
    by (simp add: place_def)
  ultimately show ?thesis by (simp add: same_stack_def Let_def del: map_map)
qed

theorem balanced_calls_restore_stack_witness:
  "let st = span_run plain_agent sample_ops (newSampledSpan plain_agent small_config 0 ''op'' ''/'', zero_root, 0);
       st' = run_calls plain_agent 8 [Call ''x'' [Call ''y'' [], Call ''z'' [Call ''w'' []]]] st
   in eventDepth (fst st') = eventDepth (fst st) \<and> eventOverflow (fst st') = eventOverflow (fst st)
      \<and> eventDepth (fst st) = 2"
proof -
  have "eventDepth (fst (span_run plain_agent sample_ops (newSampledSpan plain_agent small_config 0 ''op'' ''/'', zero_root, 0))) = 2"
    by code_simp
  moreover have "spanEventChunkSize small_config > 0" by (simp add: small_config_def)
  note balanced_calls_restore_stack [OF this, of plain_agent sample_ops 0 "''op''" "''/''" zero_root 0 8
      "[Call ''x'' [Call ''y'' [], Call ''z'' [Call ''w'' []]]]"]
  ultimately show ?thesis by (simp add: Let_def)
qed

section \<open>Panics\<close>

text \<open>
  A panic is never swallowed and never altered: whatever the state of the span (open, ended, overflowed,
  already recovered, without an open event), a deferred \<open>EndSpanEvent\<close> ends with the very panic value that was
  unwinding the stack, and without one it raises none.
\<close>

theorem EndSpanEvent_repanics: "snd (EndSpanEvent A now pending st) = map_option fst pending"
proof -
  have "snd (endSpanEvent A now pending st) = map_option fst pending"
    by (cases pending) (auto simp: endSpanEvent_def Let_def split: prod.splits option.splits)
  then show ?thesis by (simp add: EndSpanEvent_def)
qed

section \<open>After the end\<close>

text \<open>
  \<open>sp\<close> is the ended span \<open>sp0\<close>, up to \<open>overflowDestination\<close>: \<open>overflowSpanEvent.SetDestination\<close> writes it without looking
  at the end of the span, and only \<open>Inject\<close>, which an ended span refuses, reads it.
\<close>

definition ended_as :: "'e span \<Rightarrow> 'e span \<Rightarrow> bool" where
  "ended_as sp0 sp \<longleftrightarrow> finished sp \<and> eventStack sp = [] \<and> sp\<lparr>overflowDestination := overflowDestination sp0\<rparr> = sp0"

lemma span_do_ended:
  assumes "ended_as sp0 sp"
  shows "ended_as sp0 (fst (span_do A op (sp, r, gen))) \<and> snd (span_do A op (sp, r, gen)) = (r, gen)"
proof -
  have f: "finished sp" "eventStack sp = []" using assms by (simp_all add: ended_as_def)
  have top: "on_top g sp = sp" for g using f by (simp add: on_top_def)
  have SE: "SetError A eo names (sp, r, gen) = (sp, r, gen)" for eo names
    using f by (cases eo) (simp_all add: SetError_def)
  have EE: "SpanEvent_SetError A eo names (sp, r, gen) = (sp, r, gen)" for eo names
    using f by (cases eo) (simp_all add: SpanEvent_SetError_def overflow_SetError_def)
  show ?thesis
    using assms f
    by (cases op) (simp_all add: top SE EE EndSpanEvent_def NewSpanEvent_def SetFailure_def SetServiceType_def SetRpcName_def
        SetRemoteAddress_def SetEndPoint_def SetAcceptorHost_def annotate_def SetLogging_def RecordUrlStat_def unless_ended_def
        SpanEvent_SetDestination_def Inject_def NewGoroutineTracer_def ended_as_def)
qed

lemma span_run_ended:
  "ended_as sp0 (fst st) \<Longrightarrow> ended_as sp0 (fst (span_run A ops st)) \<and> snd (span_run A ops st) = snd st"
  unfolding span_run_def
proof (induction ops arbitrary: st)
  case (Cons op ops)
  then show ?case using span_do_ended [of sp0 "fst st" A op "fst (snd st)" "snd (snd st)"] by simp
qed simp

lemma EndSpan_ended:
  "finished sp \<Longrightarrow> EndSpan now acc r sp = (\<lparr>exceptionMeta = None, responseTime = None, urlStatRecord = None\<rparr>, sp)"
  by (simp add: EndSpan_def)

text \<open>
  (C37) An ended span is inert: whatever is called on it, every field of the span stays as \<open>EndSpan\<close> left it (the names and
  addresses, the service type, the annotations, the events and error chains, the chunks handed to the sender, the URL
  statistics), with the one exception of \<open>overflowDestination\<close>, which \<open>SetDestination\<close> of the overflow recorder still writes;
  the trace's error state and the exception ids stay too, no trace context is injected, no goroutine tracer is created, and a
  second \<open>EndSpan\<close> reports no response time, no URL statistics and no exceptions.
\<close>

theorem ended_span_is_inert:
  assumes "\<not> finished sp"
  shows "let sp1 = snd (EndSpan now acc r sp); (sp2, r2, gen2) = span_run A ops (sp1, r, gen)
    in sp2\<lparr>overflowDestination := overflowDestination sp1\<rparr> = sp1 \<and> finished sp2 \<and> eventStack sp2 = [] \<and> r2 = r \<and> gen2 = gen
       \<and> Inject A nid sp2 = ([], sp2) \<and> NewGoroutineTracer A t agen sp2 = (None, sp2, agen)
       \<and> EndSpan now' acc' r2 sp2 = (\<lparr>exceptionMeta = None, responseTime = None, urlStatRecord = None\<rparr>, sp2)"
proof -
  let ?sp1 = "snd (EndSpan now acc r sp)"
  have "ended_as ?sp1 ?sp1" by (simp add: ended_as_def EndSpan_sel [OF assms])
  then have "ended_as ?sp1 (fst (span_run A ops (?sp1, r, gen))) \<and> snd (span_run A ops (?sp1, r, gen)) = (r, gen)"
    using span_run_ended [of ?sp1 "(?sp1, r, gen)"] by simp
  moreover obtain sp2 r2 gen2 where "span_run A ops (?sp1, r, gen) = (sp2, r2, gen2)" by (metis prod.collapse)
  ultimately show ?thesis by (simp add: Let_def ended_as_def EndSpan_ended Inject_def NewGoroutineTracer_def)
qed

theorem ended_span_is_inert_witness:
  "let sp1 = snd (EndSpan 9 True zero_root fresh_span); (sp2, r2, gen2) = span_run plain_agent sample_ops (sp1, zero_root, 0)
   in sp2\<lparr>overflowDestination := overflowDestination sp1\<rparr> = sp1 \<and> r2 = zero_root"
proof -
  have "\<not> finished fresh_span" by code_simp
  from ended_span_is_inert [OF this, of 9 True zero_root plain_agent sample_ops 0] show ?thesis
    by (auto simp: Let_def split: prod.splits)
qed

section \<open>What a chunk encodes\<close>

text \<open>The collector's reading of a chunk: a depth of 0 repeats the previous one, start times add up from the key time.\<close>

fun expand_depths :: "int \<Rightarrow> spanEvent list \<Rightarrow> int list" where
  "expand_depths prev [] = []"
| "expand_depths prev (se # ses) =
     (let d = (if ev_depth se = 0 then prev else ev_depth se) in d # expand_depths d ses)"

fun start_times :: "int \<Rightarrow> spanEvent list \<Rightarrow> int list" where
  "start_times t [] = []"
| "start_times t (se # ses) = (t + startElapsed se) # start_times (t + startElapsed se) ses"

lemma expand_compress: "list_all (\<lambda>se. ev_depth se \<noteq> 0) ses \<Longrightarrow> expand_depths d (compress t d ses) = map ev_depth ses"
  by (induction t d ses rule: compress.induct) (auto simp: Let_def)

lemma start_times_compress: "start_times t (compress t d ses) = map ev_startTime ses"
  by (induction t d ses rule: compress.induct) auto

text \<open>
  The compression of a chunk loses nothing: read back by the collector's rules, an optimized chunk gives the
  depths and the start times of its events in sequence order, for final and non-final chunks and for goroutine
  tracers, whose key time may move back to the first event.
\<close>

theorem optimizeSpanEvents_roundtrip:
  assumes "list_all (\<lambda>se. ev_depth se \<noteq> 0) (eventChunk chunk)"
  shows "let out = optimizeSpanEvents sp chunk; ses = sort_key sequence (eventChunk chunk)
    in map sequence (eventChunk out) = map sequence ses
       \<and> expand_depths 0 (eventChunk out) = map ev_depth ses
       \<and> start_times (keyTime out) (eventChunk out) = map ev_startTime ses"
proof (cases "sort_key sequence (eventChunk chunk)")
  case Nil
  then show ?thesis by (simp add: optimizeSpanEvents_def)
next
  case (Cons se ses)
  have "set (se # ses) = set (eventChunk chunk)" by (metis Cons set_sort)
  then have nz: "ev_depth se \<noteq> 0" "list_all (\<lambda>se. ev_depth se \<noteq> 0) ses"
    using assms unfolding list_all_iff by (metis list.set_intros)+
  have "eventChunk chunk \<noteq> []" using Cons by auto
  then show ?thesis using nz by (simp add: optimizeSpanEvents_def Cons Let_def expand_compress start_times_compress)
qed

theorem optimizeSpanEvents_roundtrip_witness:
  "let mk = (\<lambda>q d t. (defaultSpanEvent t ''op'' q d));
       out = optimizeSpanEvents fresh_span
         \<lparr>eventChunk = [mk 2 2 30, mk 1 2 20, mk 0 1 10], final = False, keyTime = 0, chunk_endPoint = []\<rparr>
   in map ev_depth (eventChunk out) = [1, 2, 0] \<and> expand_depths 0 (eventChunk out) = [1, 2, 2]
      \<and> start_times (keyTime out) (eventChunk out) = [10, 20, 30]"
proof -
  let ?mk = "\<lambda>q d t. (defaultSpanEvent t ''op'' q d)"
  let ?c = "\<lparr>eventChunk = [?mk 2 2 30, ?mk 1 2 20, ?mk 0 1 10], final = False, keyTime = 0, chunk_endPoint = []\<rparr>"
  have "list_all (\<lambda>se. ev_depth se \<noteq> 0) (eventChunk ?c)" by (simp add: defaultSpanEvent_def)
  from optimizeSpanEvents_roundtrip [OF this, of fresh_span]
  have "expand_depths 0 (eventChunk (optimizeSpanEvents fresh_span ?c)) = [1, 2, 2]"
    "start_times (keyTime (optimizeSpanEvents fresh_span ?c)) (eventChunk (optimizeSpanEvents fresh_span ?c)) = [10, 20, 30]"
    by (simp_all add: Let_def defaultSpanEvent_def)
  moreover have "map ev_depth (eventChunk (optimizeSpanEvents fresh_span ?c)) = [1, 2, 0]" by code_simp
  ultimately show ?thesis by (simp add: Let_def)
qed

section \<open>Concurrent reservations\<close>

text \<open>
  Several goroutines of one call stack may run \<open>NewSpanEvent\<close> at once. Its atomic steps are the reservation, the
  release of a refused position and the push of an accepted one; \<open>held\<close> are the sequence numbers reserved and not
  yet decided, \<open>recorded\<close> those of the events pushed.
\<close>

inductive reserve_step ::
  "'e span \<times> int list \<times> int list \<Rightarrow> 'e span \<times> int list \<times> int list \<Rightarrow> bool" where
  reserve: "reserve_step (sp, held, recorded) (snd (reserveEventPosition sp), fst (fst (reserveEventPosition sp)) # held, recorded)"
| refuse: "reserve_step (sp, xs @ q # ys, recorded) (releaseEventPosition q sp, xs @ ys, recorded)"
| push_event: "reserve_step (sp, xs @ q # ys, recorded) (sp, xs @ ys, q # recorded)"
| end_event: "reserve_step (sp, held, recorded) (sp\<lparr>eventDepth := eventDepth sp - 1\<rparr>, held, recorded)"

inductive_cases reserve_stepE: "reserve_step s s'"

definition reserved_ok :: "'e span \<times> int list \<times> int list \<Rightarrow> bool" where
  "reserved_ok s \<longleftrightarrow> (case s of (sp, held, recorded) \<Rightarrow>
     distinct (held @ recorded) \<and> (\<forall>q \<in> set (held @ recorded). 0 \<le> q \<and> q < eventSequence sp) \<and> 0 \<le> eventSequence sp)"

lemma reserve_step_ok: "reserve_step s s' \<Longrightarrow> reserved_ok s \<Longrightarrow> reserved_ok s'"
proof (induction rule: reserve_step.induct)
  case (reserve sp held recorded)
  then have "\<forall>p \<in> set (held @ recorded). 0 \<le> p \<and> p < eventSequence sp" by (simp add: reserved_ok_def)
  then have "\<forall>p \<in> set (held @ recorded). 0 \<le> p \<and> p < eventSequence sp + 1 \<and> p \<noteq> eventSequence sp" by fastforce
  with reserve show ?case by (auto simp: reserved_ok_def reserveEventPosition_def)
next
  case (refuse sp xs q ys recorded)
  then have old: "\<forall>p \<in> set (xs @ ys @ recorded). 0 \<le> p \<and> p < eventSequence sp \<and> p \<noteq> q" "distinct (xs @ ys @ recorded)"
    "0 \<le> q" "0 \<le> eventSequence sp"
    by (auto simp: reserved_ok_def)
  then have "\<forall>p \<in> set (xs @ ys @ recorded). 0 \<le> p \<and> p < eventSequence (releaseEventPosition q sp)"
    by (fastforce simp: releaseEventPosition_def)
  with old show ?case by (auto simp: reserved_ok_def releaseEventPosition_def)
next
  case (push_event sp xs q ys recorded)
  then show ?case by (auto simp: reserved_ok_def)
next
  case (end_event sp held recorded)
  then show ?case by (auto simp: reserved_ok_def)
qed

text \<open>
  No sequence number is handed to two events, in any interleaving of reservations, refusals, pushes and ends
  from any number of goroutines, although a refused number is rolled back when it is still the last.
\<close>

theorem recorded_sequences_unique:
  assumes "reserve_step\<^sup>*\<^sup>* (newSampledSpan A c now operation rpc, [], []) (sp, held, recorded)"
  shows "distinct recorded \<and> (\<forall>q \<in> set recorded. 0 \<le> q \<and> q < eventSequence sp)"
proof -
  have "reserved_ok (newSampledSpan A c now operation rpc, [], [])"
    by (simp add: reserved_ok_def newSampledSpan_def defaultSpan_def)
  with assms have "reserved_ok (sp, held, recorded)"
    by (induction rule: rtranclp_induct) (auto dest: reserve_step_ok)
  then show ?thesis by (auto simp: reserved_ok_def)
qed

theorem recorded_sequences_unique_witness:
  "\<exists>sp. reserve_step\<^sup>*\<^sup>* (newSampledSpan plain_agent small_config 0 ''op'' ''/'', [], []) (sp, [], [1, 0]) \<and> distinct [1, 0 :: int]"
proof -
  let ?sp0 = "newSampledSpan plain_agent small_config 0 ''op'' ''/''"
  let ?sp1 = "snd (reserveEventPosition ?sp0)" and ?sp2 = "snd (reserveEventPosition (snd (reserveEventPosition ?sp0)))"
  have q: "fst (fst (reserveEventPosition ?sp0)) = 0" "fst (fst (reserveEventPosition ?sp1)) = 1"
    by (simp_all add: reserveEventPosition_def newSampledSpan_def defaultSpan_def)
  have "reserve_step (?sp0, [], []) (?sp1, [0], [])" using reserve_step.reserve [of ?sp0 "[]" "[]"] q by simp
  moreover have "reserve_step (?sp1, [0], []) (?sp2, [1, 0], [])" using reserve_step.reserve [of ?sp1 "[0]" "[]"] q by simp
  moreover have "reserve_step (?sp2, [1, 0], []) (?sp2, [1], [0])" using reserve_step.push_event [of ?sp2 "[1]" 0 "[]" "[]"] by simp
  moreover have "reserve_step (?sp2, [1], [0]) (?sp2, [], [1, 0])" using reserve_step.push_event [of ?sp2 "[]" 1 "[]" "[0]"] by simp
  ultimately have run: "reserve_step\<^sup>*\<^sup>* (?sp0, [], []) (?sp2, [], [1, 0])" by (meson rtranclp.rtrancl_refl rtranclp.rtrancl_into_rtrancl)
  from recorded_sequences_unique [OF this] have "distinct [1, 0 :: int]" by simp
  with run show ?thesis by blast
qed

end
