(* ===== verification/Utf8.thy ===== *)
theory Utf8
  imports Go_Strings
begin

text \<open>
  Valid UTF-8, as Go's \<^verbatim>\<open>utf8.ValidString\<close> defines it, and the claim the agent's text limits rest on: a cut at a rune start
  leaves valid text valid, so \<^verbatim>\<open>abbreviateString\<close> (\<^verbatim>\<open>src/agent.go\<close>) and the bind value writers (\<^verbatim>\<open>src/sql_driver.go\<close>) never
  hand protobuf a string it refuses.
\<close>

definition in_range :: "nat \<Rightarrow> nat \<Rightarrow> char \<Rightarrow> bool" where
  "in_range lo hi c \<longleftrightarrow> lo \<le> byte_of c \<and> byte_of c \<le> hi"

definition lead_width :: "char \<Rightarrow> nat" where
  "lead_width c = (if byte_of c < 0x80 then 1 else if in_range 0xC2 0xDF c then 2 else if in_range 0xE0 0xEF c then 3
     else if in_range 0xF0 0xF4 c then 4 else 0)"

text \<open>The second byte of the longer encodings excludes overlong forms, surrogates and code points past \<open>U+10FFFF\<close>.\<close>

definition second_ok :: "char \<Rightarrow> char \<Rightarrow> bool" where
  "second_ok c c1 \<longleftrightarrow>
     in_range (if byte_of c = 0xE0 then 0xA0 else if byte_of c = 0xF0 then 0x90 else 0x80)
       (if byte_of c = 0xED then 0x9F else if byte_of c = 0xF4 then 0x8F else 0xBF) c1"

text \<open>The width of the encoded rune a string starts with, 0 when it starts with none.\<close>

fun rune_width :: "string \<Rightarrow> nat" where
  "rune_width [] = 0"
| "rune_width (c # cs) =
     (let w = lead_width c
      in if w - 1 \<le> length cs \<and> list_all (in_range 0x80 0xBF) (take (w - 1) cs) \<and> (1 < w \<longrightarrow> second_ok c (hd cs))
         then w else 0)"

lemma rune_width_le: "rune_width s \<le> length s"
  by (cases s) (auto simp: Let_def)

function ValidString :: "string \<Rightarrow> bool" where
  "ValidString s = (if s = [] then True else if rune_width s = 0 then False else ValidString (drop (rune_width s) s))"
  by pat_completeness auto
termination
  by (relation "measure length") auto

declare ValidString.simps [simp del]

lemma ValidString_Nil [simp]: "ValidString []"
  by (simp add: ValidString.simps [of "[]"])

lemma ValidString_rune:
  "ValidString s \<Longrightarrow> s \<noteq> [] \<Longrightarrow> rune_width s \<noteq> 0" "ValidString s \<Longrightarrow> s \<noteq> [] \<Longrightarrow> ValidString (drop (rune_width s) s)"
  by (simp_all add: ValidString.simps [of s] split: if_splits)

lemma rune_width_append:
  assumes "rune_width s \<noteq> 0"
  shows "rune_width (s @ t) = rune_width s"
proof (cases s)
  case (Cons c cs)
  then have len: "lead_width c - 1 \<le> length cs" using assms by (auto simp: Let_def split: if_splits)
  then have "1 < lead_width c \<Longrightarrow> hd (cs @ t) = hd cs" by (cases cs) auto
  with len show ?thesis by (simp add: Cons Let_def)
qed (use assms in simp)

lemma rune_width_inner:
  assumes "0 < i" "i < rune_width s"
  shows "\<not> RuneStart (s ! i)"
proof (cases s)
  case (Cons c cs)
  then have "list_all (in_range 0x80 0xBF) (take (lead_width c - 1) cs)" "i - 1 < lead_width c - 1" "lead_width c - 1 \<le> length cs"
    using assms by (auto simp: Let_def split: if_splits)
  then have "in_range 0x80 0xBF (cs ! (i - 1))" by (auto simp: list_all_length)
  then show ?thesis using assms(1) by (simp add: Cons nth_Cons' in_range_def RuneStart_def)
qed (use assms in simp)

lemma rune_width_take:
  assumes "rune_width s \<le> k" "rune_width s \<noteq> 0"
  shows "rune_width (take k s) = rune_width s"
proof (cases s)
  case (Cons c cs)
  have w: "rune_width s = lead_width c" using assms(2) by (auto simp: Cons Let_def split: if_splits)
  obtain j where k: "k = Suc j" using assms by (cases k) auto
  have "lead_width c - 1 \<le> j" using assms(1) w k by simp
  moreover from this have "1 < lead_width c \<Longrightarrow> hd (take j cs) = hd cs" by (cases cs; cases j) auto
  ultimately show ?thesis using assms(2) by (auto simp: Cons k Let_def min_def split: if_splits)
qed (use assms in simp)

lemma ValidString_append: "ValidString s \<Longrightarrow> ValidString t \<Longrightarrow> ValidString (s @ t)"
proof (induction s rule: ValidString.induct)
  case (1 s)
  show ?case
  proof (cases "s = []")
    case False
    then have w: "rune_width s \<noteq> 0" "ValidString (drop (rune_width s) s)" using ValidString_rune [OF "1.prems"(1) False] by auto
    then have "ValidString (drop (rune_width s) s @ t)" using 1 False by simp
    then show ?thesis
      using w rune_width_append [of s t] rune_width_le [of s] by (simp add: ValidString.simps [of "s @ t"])
  qed (use "1.prems" in simp)
qed

lemma ValidString_take:
  "ValidString s \<Longrightarrow> k \<le> length s \<Longrightarrow> k = 0 \<or> k = length s \<or> RuneStart (s ! k) \<Longrightarrow> ValidString (take k s)"
proof (induction s arbitrary: k rule: ValidString.induct)
  case (1 s)
  show ?case
  proof (cases "s = [] \<or> k = 0 \<or> k = length s")
    case False
    define w where "w = rune_width s"
    have w: "w \<noteq> 0" "ValidString (drop w s)" using ValidString_rune [OF "1.prems"(1)] False by (auto simp: w_def)
    have start: "RuneStart (s ! k)" "k < length s" "0 < k" using "1.prems" False by auto
    then have wk: "w \<le> k" using rune_width_inner [of k s] by (fastforce simp: w_def)
    have wl: "w \<le> length s" by (simp add: w_def rune_width_le)
    have "ValidString (take (k - w) (drop w s))"
      using "1.IH" [of "k - w"] w False start wk wl by (simp add: w_def)
    moreover have "rune_width (take k s) = w" using rune_width_take [of s k] w wk by (simp add: w_def)
    moreover have "drop w (take k s) = take (k - w) (drop w s)" by (simp add: drop_take)
    ultimately show ?thesis using w(1) by (simp add: ValidString.simps [of "take k s"])
  qed (use "1.prems" in auto)
qed

lemma ValidString_ascii: "list_all (\<lambda>c. byte_of c < 0x80) s \<Longrightarrow> ValidString s"
proof (induction s)
  case (Cons c s)
  then have "rune_width (c # s) = 1" by (simp add: Let_def lead_width_def)
  then show ?case using Cons by (simp add: ValidString.simps [of "c # s"])
qed simp

lemma ValidString_itoa: "ValidString (itoa_nat n)"
  using itoa_nat_digits [of n] by (intro ValidString_ascii) (auto simp: list_all_iff isDigit_def)

lemma ValidString_cut: "ValidString s \<Longrightarrow> n \<le> length s \<Longrightarrow> ValidString (take (rune_cut s n) s)"
  by (rule ValidString_take) (use rune_cut_le [of s n] rune_cut_boundary [of s n] in auto)

text \<open>
  Abbreviating valid UTF-8 text gives valid UTF-8 text of at most the limit plus the marker, whatever the limit.
\<close>

theorem abbreviate_keeps_utf8:
  assumes "ValidString s"
  shows "ValidString (abbreviateString s n) \<and> length (abbreviateString s n) \<le> n + 5 + length (itoa_nat (length s))"
proof (cases "length s \<le> n")
  case False
  have "ValidString (take (rune_cut s n) s)" using False assms by (intro ValidString_cut) auto
  moreover have "ValidString ''...(''" "ValidString '')''" by code_simp+
  moreover have "ValidString (FormatInt (int (length s)))" by (simp add: FormatInt_def ValidString_itoa)
  ultimately have "ValidString (abbreviateString s n)" using False unfolding abbreviateString_def by (simp only: if_False ValidString_append)
  then show ?thesis using False rune_cut_le [of s n] by (auto simp: abbreviateString_def FormatInt_def)
qed (use assms in \<open>simp add: abbreviateString_def\<close>)

theorem abbreviate_keeps_utf8_witness:
  "abbreviateString [CHR ''a'', CHR 0xC3, CHR 0xA9, CHR ''b''] 2 = ''a...(4)''
   \<and> ValidString (abbreviateString [CHR ''a'', CHR 0xC3, CHR 0xA9, CHR ''b''] 2)"
proof
  show "abbreviateString [CHR ''a'', CHR 0xC3, CHR 0xA9, CHR ''b''] 2 = ''a...(4)''" by code_simp
  have "ValidString [CHR ''a'', CHR 0xC3, CHR 0xA9, CHR ''b'']" by code_simp
  from abbreviate_keeps_utf8 [OF this, of 2] show "ValidString (abbreviateString [CHR ''a'', CHR 0xC3, CHR 0xA9, CHR ''b''] 2)"
    by simp
qed

end
