(* ===== verification/Valid_Utf8.thy ===== *)
theory Valid_Utf8
  imports Utf8
begin

text \<open>
  \<^verbatim>\<open>validUTF8\<close> (\<^verbatim>\<open>src/agent.go\<close>), through which every text of the host goes at the protobuf boundary: protobuf refuses to encode a
  message with an invalid string, and loses whatever else the message carries.
\<close>

text \<open>\<open>strings.ToValidUTF8\<close>: every run of bytes that are no part of an encoded rune becomes one replacement.\<close>

function ToValidUTF8 :: "string \<Rightarrow> bool \<Rightarrow> string \<Rightarrow> string" where
  "ToValidUTF8 rep invalid s =
     (if s = [] then []
      else if rune_width s = 0 then (if invalid then [] else rep) @ ToValidUTF8 rep True (tl s)
      else take (rune_width s) s @ ToValidUTF8 rep False (drop (rune_width s) s))"
  by pat_completeness auto
termination
  by (relation "measure (\<lambda>(rep, invalid, s). length s)") auto

declare ToValidUTF8.simps [simp del]

definition RuneError :: string where
  "RuneError = [CHR 0xEF, CHR 0xBF, CHR 0xBD]"

definition validUTF8 :: "string \<Rightarrow> string" where
  "validUTF8 s = (if ValidString s then s else ToValidUTF8 RuneError False s)"

lemma ToValidUTF8_Nil [simp]: "ToValidUTF8 rep b [] = []"
  by (simp add: ToValidUTF8.simps)

lemma ValidString_RuneError: "ValidString RuneError"
  by code_simp

lemma ValidString_one:
  assumes "rune_width s \<noteq> 0"
  shows "ValidString (take (rune_width s) s)"
proof -
  have "rune_width (take (rune_width s) s) = rune_width s" using rune_width_take [of s "rune_width s"] assms by simp
  then show ?thesis by (simp add: ValidString.simps [of "take (rune_width s) s"])
qed

lemma ValidString_ToValidUTF8: "ValidString rep \<Longrightarrow> ValidString (ToValidUTF8 rep b s)"
proof (induction rep b s rule: ToValidUTF8.induct)
  case (1 rep b s)
  then show ?case
    by (cases "s = []"; cases "rune_width s = 0") (auto simp: ToValidUTF8.simps [of rep b s] intro!: ValidString_append ValidString_one)
qed

lemma ToValidUTF8_valid: "ValidString s \<Longrightarrow> ToValidUTF8 rep b s = s"
proof (induction rep b s rule: ToValidUTF8.induct)
  case (1 rep b s)
  show ?case
  proof (cases "s = []")
    case False
    then have "rune_width s \<noteq> 0" "ValidString (drop (rune_width s) s)" using ValidString_rune [OF "1.prems"] by auto
    then show ?thesis using 1 False by (simp add: ToValidUTF8.simps [of rep b s])
  qed simp
qed

lemma validUTF8_valid [simp]: "ValidString (validUTF8 s)"
  by (simp add: validUTF8_def ValidString_ToValidUTF8 ValidString_RuneError)

lemma validUTF8_same: "ValidString s \<Longrightarrow> validUTF8 s = s"
  by (simp add: validUTF8_def)

text \<open>A text and its repair agree on their valid runes: what is kept is the text less its invalid bytes.\<close>

function valid_runes :: "string \<Rightarrow> string" where
  "valid_runes s = (if s = [] then [] else if rune_width s = 0 then valid_runes (tl s)
     else take (rune_width s) s @ valid_runes (drop (rune_width s) s))"
  by pat_completeness auto
termination
  by (relation "measure length") auto

declare valid_runes.simps [simp del]

lemma ToValidUTF8_keeps: "ToValidUTF8 [] b s = valid_runes s"
proof (induction s arbitrary: b rule: valid_runes.induct)
  case (1 s)
  then show ?case by (simp add: ToValidUTF8.simps [of "[]" b s] valid_runes.simps [of s])
qed

end
