(* ===== verification/Span_Message.thy ===== *)
theory Span_Message
  imports Span_Invariants Valid_Utf8
begin

text \<open>
  The messages a span becomes on the wire (\<^verbatim>\<open>src/grpc_span.go\<close>, \<^verbatim>\<open>src/annotation.go\<close>): a dequeued chunk is converted to a
  \<^verbatim>\<open>PSpan\<close> or a \<^verbatim>\<open>PSpanChunk\<close>. The generated protobuf structs are records with the fields the agent sets; the slabs they are
  allocated from hold no state between messages. Shown: every string of a message is valid UTF-8, so that protobuf
  encodes it, and the message carries the events of the chunk.
\<close>

section \<open>Annotations\<close>

datatype PAnnotationValue =
    PIntValue go_int32
  | PLongValue go_int64
  | PStringValue string
  | PStringStringValue string string
  | PIntStringStringValue go_int32 string string
  | PBytesStringStringValue string string string
  | PLongIntIntByteByteStringValue go_int64 go_int32 go_int32 go_int32 go_int32 string

record PAnnotation =
  pa_key :: go_int32
  pa_value :: PAnnotationValue

fun toProtoInto :: "annotationValue \<Rightarrow> PAnnotation" where
  "toProtoInto (AInt key i) = \<lparr>pa_key = key, pa_value = PIntValue i\<rparr>"
| "toProtoInto (ALong key l) = \<lparr>pa_key = key, pa_value = PLongValue l\<rparr>"
| "toProtoInto (AString key s) = \<lparr>pa_key = key, pa_value = PStringValue (validUTF8 s)\<rparr>"
| "toProtoInto (AStringString key s1 s2) = \<lparr>pa_key = key, pa_value = PStringStringValue (validUTF8 s1) (validUTF8 s2)\<rparr>"
| "toProtoInto (AIntStringString key i s1 s2) = \<lparr>pa_key = key, pa_value = PIntStringStringValue i (validUTF8 s1) (validUTF8 s2)\<rparr>"
| "toProtoInto (ABytesStringString key b s1 s2) = \<lparr>pa_key = key, pa_value = PBytesStringStringValue b (validUTF8 s1) (validUTF8 s2)\<rparr>"
| "toProtoInto (ALongIntIntByteByteString key l i1 i2 b1 b2 s) =
     \<lparr>pa_key = key, pa_value = PLongIntIntByteByteStringValue l i1 i2 b1 b2 (validUTF8 s)\<rparr>"

definition getListInto :: "annotation \<Rightarrow> PAnnotation list" where
  "getListInto a = map toProtoInto (vals a)"

definition AnnotationApi :: go_int32 where "AnnotationApi = 12"

definition annotationsWithApi :: "annotation \<Rightarrow> go_int32 \<Rightarrow> string \<Rightarrow> PAnnotation list" where
  "annotationsWithApi a api op =
     (if api \<noteq> 0 \<or> op = [] then getListInto a else map toProtoInto (vals a) @ [toProtoInto (AString AnnotationApi op)])"

section \<open>Events and spans\<close>

definition clampToInt32 :: "int \<Rightarrow> go_int32" where
  "clampToInt32 ms = word_of_int (min (max ms (- (2 ^ 31))) (2 ^ 31 - 1))"

record PMessageEvent =
  pm_nextSpanId :: go_int64
  pm_endPoint :: string
  pm_destinationId :: string

record PSpanEvent =
  pe_sequence :: int
  pe_depth :: int
  pe_startElapsed :: go_int32
  pe_endElapsed :: go_int32
  pe_serviceType :: go_int32
  pe_annotation :: "PAnnotation list"
  pe_apiId :: go_int32
  pe_asyncEvent :: go_int32
  pe_exceptionInfo :: "(go_int32 \<times> string) option"
  pe_nextEvent :: "PMessageEvent option"

definition makePSpanEvent :: "spanEvent \<Rightarrow> PSpanEvent" where
  "makePSpanEvent event =
     \<lparr>pe_sequence = sequence event, pe_depth = ev_depth event, pe_startElapsed = clampToInt32 (startElapsed event),
      pe_endElapsed = clampToInt32 (endElapsed event), pe_serviceType = ev_serviceType event,
      pe_annotation = annotationsWithApi (ev_annotations event) (ev_apiId event) (ev_operationName event), pe_apiId = ev_apiId event,
      pe_asyncEvent = ev_asyncId event,
      pe_exceptionInfo = (if ev_errorString event \<noteq> [] then Some (ev_errorFuncId event, validUTF8 (ev_errorString event)) else None),
      pe_nextEvent = (if destinationId event \<noteq> []
        then Some \<lparr>pm_nextSpanId = (if nextSpanId event \<noteq> noneSpanId then nextSpanId event else 0),
          pm_endPoint = validUTF8 (ev_endPoint event), pm_destinationId = validUTF8 (destinationId event)\<rparr> else None)\<rparr>"

definition makePSpanEventList :: "spanChunk \<Rightarrow> PSpanEvent list" where
  "makePSpanEventList chunk = map makePSpanEvent (eventChunk chunk)"

record PParentInfo =
  pp_parentApplicationName :: string
  pp_parentApplicationType :: go_int32
  pp_acceptorHost :: string
  pp_parentServiceName :: string

record PAcceptEvent =
  pc_rpc :: string
  pc_endPoint :: string
  pc_remoteAddr :: string
  pc_parentInfo :: "PParentInfo option"

record PSpan =
  ps_version :: int
  ps_transactionId :: TransactionId
  ps_spanId :: go_int64
  ps_parentSpanId :: go_int64
  ps_startTime :: int
  ps_elapsed :: go_int32
  ps_serviceType :: go_int32
  ps_acceptEvent :: PAcceptEvent
  ps_annotation :: "PAnnotation list"
  ps_apiId :: go_int32
  ps_flag :: go_int32
  ps_spanEvent :: "PSpanEvent list"
  ps_err :: go_int32
  ps_applicationServiceType :: go_int32
  ps_loggingTransactionInfo :: go_int32
  ps_exceptionInfo :: "(go_int32 \<times> string) option"

record PSpanChunk =
  pk_version :: int
  pk_transactionId :: TransactionId
  pk_spanId :: go_int64
  pk_keyTime :: int
  pk_endPoint :: string
  pk_spanEvent :: "PSpanEvent list"
  pk_applicationServiceType :: go_int32
  pk_localAsyncId :: "(go_int32 \<times> go_int32) option"

datatype PSpanMessage = MessageSpan PSpan | MessageSpanChunk PSpanChunk

definition unknownAddress :: string where "unknownAddress = ''UNKNOWN''"

definition cmp_Or :: "string \<Rightarrow> string \<Rightarrow> string" where
  "cmp_Or a b = (if a \<noteq> [] then a else b)"

definition parent_info :: "'e span \<Rightarrow> PParentInfo option" where
  "parent_info span =
     (if parentAppName span \<noteq> []
      then Some \<lparr>pp_parentApplicationName = validUTF8 (parentAppName span), pp_parentApplicationType = word_of_int (parentAppType span),
        pp_acceptorHost = validUTF8 (acceptorHost span), pp_parentServiceName = validUTF8 (parentServiceName span)\<rparr>
      else None)"

definition makePSpan :: "go_int32 \<Rightarrow> root \<Rightarrow> 'e span \<Rightarrow> spanChunk \<Rightarrow> PSpanMessage" where
  "makePSpan appType r span chunk =
     MessageSpan
       \<lparr>ps_version = 1, ps_transactionId = sp_txId span, ps_spanId = spanId span, ps_parentSpanId = parentSpanId span,
        ps_startTime = startTime span, ps_elapsed = clampToInt32 (elapsed span), ps_serviceType = serviceType span,
        ps_acceptEvent = \<lparr>pc_rpc = validUTF8 (rpcName span), pc_endPoint = validUTF8 (cmp_Or (endPoint span) unknownAddress),
          pc_remoteAddr = validUTF8 (cmp_Or (remoteAddr span) unknownAddress), pc_parentInfo = parent_info span\<rparr>,
        ps_annotation = annotationsWithApi (annotations span) (apiId span) (operationName span), ps_apiId = apiId span,
        ps_flag = word_of_int (flags span), ps_spanEvent = makePSpanEventList chunk, ps_err = root_err r,
        ps_applicationServiceType = appType, ps_loggingTransactionInfo = root_loggingInfo r,
        ps_exceptionInfo = (if errorString span \<noteq> [] then Some (errorFuncId span, validUTF8 (errorString span)) else None)\<rparr>"

definition makePSpanChunk :: "go_int32 \<Rightarrow> 'e span \<Rightarrow> spanChunk \<Rightarrow> PSpanMessage" where
  "makePSpanChunk appType span chunk =
     MessageSpanChunk
       \<lparr>pk_version = 1, pk_transactionId = sp_txId span, pk_spanId = spanId span, pk_keyTime = keyTime chunk,
        pk_endPoint = validUTF8 (chunk_endPoint chunk), pk_spanEvent = makePSpanEventList chunk, pk_applicationServiceType = appType,
        pk_localAsyncId = (if isAsyncSpan span then Some (asyncId span, asyncSequence span) else None)\<rparr>"

definition makePSpanMessage :: "go_int32 \<Rightarrow> root \<Rightarrow> 'e span \<Rightarrow> spanChunk \<Rightarrow> PSpanMessage" where
  "makePSpanMessage appType r span chunk =
     (if \<not> final chunk \<or> isAsyncSpan span then makePSpanChunk appType span chunk else makePSpan appType r span chunk)"

text \<open>A nil chunk, or one without its span, is left out.\<close>

definition makePSpanMessageBatch :: "go_int32 \<Rightarrow> (root \<times> 'e span \<times> spanChunk) option list \<Rightarrow> PSpanMessage list" where
  "makePSpanMessageBatch appType chunks = List.map_filter (map_option (\<lambda>(r, span, chunk). makePSpanMessage appType r span chunk)) chunks"

section \<open>Every string of a message is valid\<close>

fun annotation_strings :: "PAnnotationValue \<Rightarrow> string list" where
  "annotation_strings (PStringValue s) = [s]"
| "annotation_strings (PStringStringValue s1 s2) = [s1, s2]"
| "annotation_strings (PIntStringStringValue i s1 s2) = [s1, s2]"
| "annotation_strings (PBytesStringStringValue b s1 s2) = [s1, s2]"
| "annotation_strings (PLongIntIntByteByteStringValue l i1 i2 b1 b2 s) = [s]"
| "annotation_strings _ = []"

definition annotations_strings :: "PAnnotation list \<Rightarrow> string list" where
  "annotations_strings as = concat (map (\<lambda>a. annotation_strings (pa_value a)) as)"

definition event_strings :: "PSpanEvent \<Rightarrow> string list" where
  "event_strings e = annotations_strings (pe_annotation e) @ (case pe_exceptionInfo e of Some (_, s) \<Rightarrow> [s] | None \<Rightarrow> [])
     @ (case pe_nextEvent e of Some m \<Rightarrow> [pm_endPoint m, pm_destinationId m] | None \<Rightarrow> [])"

definition accept_strings :: "PAcceptEvent \<Rightarrow> string list" where
  "accept_strings a = [pc_rpc a, pc_endPoint a, pc_remoteAddr a] @ (case pc_parentInfo a of None \<Rightarrow> []
     | Some p \<Rightarrow> [pp_parentApplicationName p, pp_acceptorHost p, pp_parentServiceName p])"

fun message_strings :: "PSpanMessage \<Rightarrow> string list" where
  "message_strings (MessageSpan p) = AgentId (ps_transactionId p) # accept_strings (ps_acceptEvent p) @ annotations_strings (ps_annotation p)
     @ concat (map event_strings (ps_spanEvent p)) @ (case ps_exceptionInfo p of Some (_, s) \<Rightarrow> [s] | None \<Rightarrow> [])"
| "message_strings (MessageSpanChunk p) =
     AgentId (pk_transactionId p) # pk_endPoint p # concat (map event_strings (pk_spanEvent p))"

definition all_valid :: "string list \<Rightarrow> bool" where
  "all_valid ss \<longleftrightarrow> list_all ValidString ss"

lemma all_valid_simps [simp]:
  "all_valid []" "all_valid (s # ss) \<longleftrightarrow> ValidString s \<and> all_valid ss" "all_valid (xs @ ys) \<longleftrightarrow> all_valid xs \<and> all_valid ys"
  "all_valid (concat xss) \<longleftrightarrow> list_all all_valid xss"
  by (auto simp: all_valid_def list_all_iff)

lemma toProtoInto_valid: "all_valid (annotation_strings (pa_value (toProtoInto v)))"
  by (cases v) simp_all

lemma annotations_valid: "all_valid (annotations_strings (annotationsWithApi a api op))"
  by (auto simp: annotations_strings_def annotationsWithApi_def getListInto_def list_all_iff toProtoInto_valid)

lemma event_valid: "all_valid (event_strings (makePSpanEvent e))"
  by (simp add: event_strings_def makePSpanEvent_def annotations_valid)

lemma events_valid: "list_all all_valid (map event_strings (makePSpanEventList chunk))"
  by (simp add: makePSpanEventList_def list_all_iff event_valid)

lemma accept_valid: "all_valid (accept_strings \<lparr>pc_rpc = validUTF8 a, pc_endPoint = validUTF8 b, pc_remoteAddr = validUTF8 c, pc_parentInfo = parent_info sp\<rparr>)"
  by (simp add: accept_strings_def parent_info_def)

lemma isIDChars_valid: "isIDChars s \<Longrightarrow> ValidString s"
  unfolding isIDChars_iff by (rule ValidString_ascii) (use id_char_printable in \<open>fastforce simp: list_all_iff\<close>)

lemma message_valid:
  assumes "ValidString (AgentId (sp_txId sp))"
  shows "all_valid (message_strings (makePSpanMessage appType r sp chunk))"
  using assms by (simp add: makePSpanMessage_def makePSpan_def makePSpanChunk_def accept_valid annotations_valid events_valid)

text \<open>The transaction id is set once, by the extraction of the inbound headers, from an accepted id or the agent's own.\<close>

lemma extracted_txId:
  assumes "isIDChars (AgentId newTx)"
  shows "isIDChars (AgentId (sp_txId (span_extract Get (continueHeaders Get ns) newTx gid sp)))"
proof (cases "continued (continueHeaders Get ns)")
  case True
  then show ?thesis
    using split_AgentId [OF continueHeaders_fields(1) [OF True]] by (simp add: span_extract_def Let_def split: option.split)
qed (simp add: span_extract_def assms)

lemma kept_txId [simp]:
  "sp_txId (on_top f sp) = sp_txId sp" "sp_txId (NewSpanEvent A now op sp) = sp_txId sp" "sp_txId (appendEndedSpanEvent se sp) = sp_txId sp"
  "sp_txId (finish_event now se sp) = sp_txId sp" "sp_txId (snd (Inject A nid sp)) = sp_txId sp"
  "sp_txId (SpanEvent_SetDestination d sp) = sp_txId sp" "sp_txId (fst (snd (NewGoroutineTracer A now gen sp))) = sp_txId sp"
  "sp_txId (SetServiceType typ sp) = sp_txId sp" "sp_txId (SetRpcName rpc sp) = sp_txId sp" "sp_txId (SetRemoteAddress a sp) = sp_txId sp"
  "sp_txId (SetEndPoint ep sp) = sp_txId sp" "sp_txId (SetAcceptorHost host sp) = sp_txId sp" "sp_txId (annotate g sp) = sp_txId sp"
  "sp_txId (RecordUrlStat stat sp) = sp_txId sp"
proof -
  show top: "sp_txId (on_top f sp) = sp_txId sp" for f and sp :: "'a span" by (simp add: on_top_def)
  show app: "sp_txId (appendEndedSpanEvent se sp) = sp_txId sp" for se and sp :: "'a span"
    by (simp add: appendEndedSpanEvent_def newEventChunk_def chunk_enqueue_def Let_def)
  show "sp_txId (finish_event now se sp) = sp_txId sp" by (simp add: finish_event_def app)
  show "sp_txId (NewSpanEvent A now op sp) = sp_txId sp"
    by (simp add: NewSpanEvent_def reserveEventPosition_def releaseEventPosition_def Let_def)
  show "sp_txId (snd (Inject A nid sp)) = sp_txId sp" by (simp add: Inject_def Let_def top split: option.split)
  show "sp_txId (SpanEvent_SetDestination d sp) = sp_txId sp" by (simp add: SpanEvent_SetDestination_def top)
  show "sp_txId (fst (snd (NewGoroutineTracer A now gen sp))) = sp_txId sp"
    by (simp add: NewGoroutineTracer_def Let_def top split: option.split prod.split)
qed (simp_all add: SetServiceType_def SetRpcName_def SetRemoteAddress_def SetEndPoint_def SetAcceptorHost_def annotate_def RecordUrlStat_def
    unless_ended_def Let_def)

lemma ev_SetError_txId: "sp_txId (fst (snd (ev_SetError A eo names se st))) = sp_txId (fst st)"
  by (cases st; cases eo) (simp_all add: ev_SetError_def Let_def split: prod.split)

lemma SetError_txId: "sp_txId (fst (SetError A eo names st)) = sp_txId (fst st)"
proof -
  obtain sp r gen where st: "st = (sp, r, gen)" by (rule prod_cases3)
  have "sp_txId (fst (snd (ev_SetError A eo names se (sp, r, gen)))) = sp_txId sp" for se
    using ev_SetError_txId [of A eo names se "(sp, r, gen)"] by simp
  then show ?thesis
    by (cases eo; cases "isAsyncSpan sp"; cases "stack_bottom (eventStack sp)") (auto simp: st SetError_def Let_def split: prod.splits, metis fst_conv snd_conv)
qed

lemma endSpanEvent_txId: "sp_txId (fst (fst (endSpanEvent A now rec st))) = sp_txId (fst st)"
proof -
  obtain sp r gen where st: "st = (sp, r, gen)" by (rule prod_cases3)
  show ?thesis
  proof (cases "stack_pop (eventStack sp)")
    case (Some x)
    obtain se buf where x: "x = (se, buf)" by (cases x)
    let ?sp = "sp\<lparr>eventStack := buf\<rparr>"
    have "sp_txId (fst (SetError A (Some e) [] (snd (ev_SetError A (Some e) [''panic''] se (?sp, r, gen))))) = sp_txId sp" for e
      using SetError_txId [of A "Some e" "[]" "snd (ev_SetError A (Some e) [''panic''] se (?sp, r, gen))"]
        ev_SetError_txId [of A "Some e" "[''panic'']" se "(?sp, r, gen)"] by simp
    then show ?thesis
      by (cases rec) (auto simp: st endSpanEvent_def Some x Let_def split: prod.splits, metis fst_conv snd_conv)
  qed (simp add: st endSpanEvent_def)
qed

lemma span_do_txId: "sp_txId (fst (span_do A op st)) = sp_txId (fst st)"
proof -
  obtain sp r gen where st: "st = (sp, r, gen)" by (rule prod_cases3)
  have top: "sp_txId (fst (SpanEvent_SetError A eo names (sp, r, gen))) = sp_txId sp" for eo names
    using ev_SetError_txId [of A eo names _ "(sp, r, gen)"]
    by (auto simp: SpanEvent_SetError_def split: option.splits prod.splits) (metis fst_conv snd_conv kept_txId(1))
  show ?thesis
    by (cases op) (simp_all add: st top SetError_txId EndSpanEvent_def endSpanEvent_txId)
qed

lemma span_run_txId: "sp_txId (fst (span_run A ops st)) = sp_txId (fst st)"
  unfolding span_run_def by (induction ops arbitrary: st) (simp_all add: span_do_txId)

text \<open>
  (C14) Whatever bytes the host hands the agent, as names, addresses, annotations, errors or inbound headers, every string of the message
  a chunk of the span becomes is valid UTF-8: protobuf accepts it, and no span takes its batch down.
\<close>

theorem wire_strings_valid:
  assumes "isIDChars (AgentId newTx)"
  shows "case span_run A ops (span_extract Get (continueHeaders Get ns) newTx gid sp, r, gen) of
    (sp', r', _) \<Rightarrow> list_all ValidString (message_strings (makePSpanMessage appType r' sp' chunk))"
proof -
  let ?st = "(span_extract Get (continueHeaders Get ns) newTx gid sp, r, gen)"
  obtain sp' r' gen' where run: "span_run A ops ?st = (sp', r', gen')" by (metis prod_cases3)
  have "ValidString (AgentId (sp_txId sp'))"
    using span_run_txId [of A ops ?st] extracted_txId [OF assms, of Get ns gid sp] by (simp add: run isIDChars_valid)
  from message_valid [OF this] show ?thesis by (simp add: run all_valid_def)
qed

section \<open>The events of a message\<close>

text \<open>Read by the collector: a depth of 0 repeats the one before, and every start is counted from the one before, the first from the base.\<close>

fun message_events :: "PSpanMessage \<Rightarrow> PSpanEvent list" where
  "message_events (MessageSpan p) = ps_spanEvent p"
| "message_events (MessageSpanChunk p) = pk_spanEvent p"

fun message_base :: "PSpanMessage \<Rightarrow> int" where
  "message_base (MessageSpan p) = ps_startTime p"
| "message_base (MessageSpanChunk p) = pk_keyTime p"

fun wire_depths :: "int \<Rightarrow> PSpanEvent list \<Rightarrow> int list" where
  "wire_depths prev [] = []"
| "wire_depths prev (e # es) = (let d = (if pe_depth e = 0 then prev else pe_depth e) in d # wire_depths d es)"

fun wire_starts :: "int \<Rightarrow> PSpanEvent list \<Rightarrow> int list" where
  "wire_starts t [] = []"
| "wire_starts t (e # es) = (let s = t + sint (pe_startElapsed e) in s # wire_starts s es)"

lemma clamp_bounds: "sint (clampToInt32 ms) = min (max ms (- (2 ^ 31))) (2 ^ 31 - 1)"
  unfolding clampToInt32_def int_word_sint by (simp add: min_def max_def)

lemma clamp_in_range: "- (2 ^ 31) \<le> ms \<Longrightarrow> ms < 2 ^ 31 \<Longrightarrow> sint (clampToInt32 ms) = ms"
  by (simp add: clamp_bounds)

definition short_elapsed :: "spanEvent \<Rightarrow> bool" where
  "short_elapsed se \<longleftrightarrow> - (2 ^ 31) \<le> startElapsed se \<and> startElapsed se < 2 ^ 31"

lemma wire_starts_events: "list_all short_elapsed ses \<Longrightarrow> wire_starts t (map makePSpanEvent ses) = start_times t ses"
  by (induction ses arbitrary: t) (auto simp: short_elapsed_def makePSpanEvent_def clamp_in_range Let_def)

lemma wire_depths_events: "wire_depths d (map makePSpanEvent ses) = expand_depths d ses"
  by (induction ses arbitrary: d) (auto simp: makePSpanEvent_def Let_def)

lemma message_of:
  "message_events (makePSpanMessage appType r sp chunk) = map makePSpanEvent (eventChunk chunk)"
  "message_base (makePSpanMessage appType r sp chunk) = (if \<not> final chunk \<or> isAsyncSpan sp then keyTime chunk else startTime sp)"
  by (simp_all add: makePSpanMessage_def makePSpan_def makePSpanChunk_def makePSpanEventList_def)

lemma final_key:
  assumes "eventChunk chunk \<noteq> []" "final chunk" "\<not> isAsyncSpan sp"
  shows "keyTime (optimizeSpanEvents sp chunk) = startTime sp"
proof -
  have "sort_key sequence (eventChunk chunk) \<noteq> []" using assms(1) by (metis set_empty set_sort)
  then show ?thesis using assms by (auto simp: optimizeSpanEvents_def Let_def split: list.split)
qed

lemma optimized_final: "final (optimizeSpanEvents sp chunk) = final chunk"
  by (simp add: optimizeSpanEvents_def Let_def split: list.split)

lemma optimized_empty: "eventChunk chunk = [] \<Longrightarrow> optimizeSpanEvents sp chunk = chunk"
  by (simp add: optimizeSpanEvents_def)

text \<open>
  (C12) A chunk survives its way to the collector: through the compression and the protobuf message, the events read back in sequence
  order with their depths and start times, for spans, for chunks sent ahead of them and for goroutine tracers. An event must
  start within 24 days of the one before; beyond that the message saturates instead of wrapping.
\<close>

theorem wire_events_roundtrip:
  assumes "list_all (\<lambda>se. ev_depth se \<noteq> 0) (eventChunk chunk)" "list_all short_elapsed (eventChunk (optimizeSpanEvents sp chunk))"
  shows "let m = makePSpanMessage appType r sp (optimizeSpanEvents sp chunk); ses = sort_key sequence (eventChunk chunk)
    in map pe_sequence (message_events m) = map sequence ses \<and> wire_depths 0 (message_events m) = map ev_depth ses
       \<and> wire_starts (message_base m) (message_events m) = map ev_startTime ses"
proof -
  let ?out = "optimizeSpanEvents sp chunk"
  let ?m = "makePSpanMessage appType r sp ?out"
  have read: "map sequence (eventChunk ?out) = map sequence (sort_key sequence (eventChunk chunk))"
    "expand_depths 0 (eventChunk ?out) = map ev_depth (sort_key sequence (eventChunk chunk))"
    "start_times (keyTime ?out) (eventChunk ?out) = map ev_startTime (sort_key sequence (eventChunk chunk))"
    using optimizeSpanEvents_roundtrip [OF assms(1), of sp] by (simp_all add: Let_def)
  have "map pe_sequence (message_events ?m) = map sequence (eventChunk ?out)" by (simp add: message_of makePSpanEvent_def comp_def)
  moreover have "wire_depths 0 (message_events ?m) = expand_depths 0 (eventChunk ?out)" by (simp add: message_of wire_depths_events)
  moreover have "start_times (message_base ?m) (eventChunk ?out) = start_times (keyTime ?out) (eventChunk ?out)"
    using final_key [of chunk sp] by (cases "eventChunk chunk = []") (simp_all add: message_of optimized_final optimized_empty)
  then have "wire_starts (message_base ?m) (message_events ?m) = start_times (keyTime ?out) (eventChunk ?out)"
    using wire_starts_events [OF assms(2)] by (simp add: message_of)
  ultimately show ?thesis using read by (simp add: Let_def)
qed

definition late_chunk :: spanChunk where
  "late_chunk = \<lparr>eventChunk = [defaultSpanEvent 30 ''b'' 1 2, defaultSpanEvent 10 ''a'' 0 1], final = True, keyTime = 0, chunk_endPoint = []\<rparr>"

theorem wire_strings_valid_witness:
  "case span_run plain_agent sample_ops
     (span_extract (\<lambda>_. None) (continueHeaders (\<lambda>_. None) []) \<lparr>AgentId = ''agent'', StartTime = 1, Sequence = 2\<rparr> 3
        (fresh_span\<lparr>rpcName := [CHR 0xFF]\<rparr>), zero_root, 0) of
   (sp', r', _) \<Rightarrow> list_all ValidString (message_strings (makePSpanMessage 1800 r' sp' late_chunk))"
  by (rule wire_strings_valid) code_simp

theorem wire_events_roundtrip_witness:
  "let m = makePSpanMessage 1800 zero_root fresh_span (optimizeSpanEvents fresh_span late_chunk)
   in wire_starts (message_base m) (message_events m) = [10, 30] \<and> wire_depths 0 (message_events m) = [1, 2]"
proof -
  have "list_all (\<lambda>se. ev_depth se \<noteq> 0) (eventChunk late_chunk)" by (simp add: late_chunk_def defaultSpanEvent_def)
  moreover have "list_all short_elapsed (eventChunk (optimizeSpanEvents fresh_span late_chunk))" by code_simp
  ultimately show ?thesis
    using wire_events_roundtrip [of late_chunk fresh_span 1800 zero_root] by (simp add: Let_def late_chunk_def defaultSpanEvent_def)
qed

end
