(* ===== verification/Span_Queue.thy ===== *)
theory Span_Queue
  imports Pinpoint_Prelude
begin

text \<open>
  The bounded multi-producer, single-consumer span queue of \<^verbatim>\<open>span_queue.go\<close>: a ring buffer per shard
  (\<open>shard\<close>), a queue of shards (\<open>spanQueue\<close>), and the interleaved system of producers, the consumer
  and \<open>close\<close> (\<open>queue_step\<close>), whose steps are the critical sections of the source. A ring is related to
  the list of its resident chunks (\<open>shard_list\<close>), which is the abstraction the laws are stated over.
\<close>

section \<open>Rings: spanQueueShard\<close>

text \<open>
  \<open>cells\<close> holds \<open>*spanChunk\<close>, so a cell is an option: \<open>None\<close> is the nil a dequeue leaves behind.
  \<open>drops\<close> is an \<open>atomic.Int64\<close>.
\<close>

record 'c shard =
  cells :: "'c option list"
  head :: nat
  size_of :: nat
  drops :: go_int64

definition next_pos :: "'c shard \<Rightarrow> nat \<Rightarrow> nat" where
  "next_pos s position = (if position + 1 = length (cells s) then 0 else position + 1)"

definition push :: "'c \<Rightarrow> 'c shard \<Rightarrow> 'c shard" where
  "push chunk s =
     (let tail = head s + size_of s;
          tail = (if tail \<ge> length (cells s) then tail - length (cells s) else tail)
      in s\<lparr>cells := (cells s)[tail := Some chunk], size_of := size_of s + 1\<rparr>)"

definition shard_tryEnqueue :: "'c \<Rightarrow> bool \<Rightarrow> 'c shard \<Rightarrow> bool \<times> 'c shard" where
  "shard_tryEnqueue chunk closed s =
     (if size_of s = length (cells s) \<or> closed then (False, s) else (True, push chunk s))"

definition drop_head :: "'c shard \<Rightarrow> 'c shard" where
  "drop_head s = s\<lparr>cells := (cells s)[head s := None], head := next_pos s (head s),
                   size_of := size_of s - 1\<rparr>"

definition enqueueOrOverwrite :: "'c \<Rightarrow> bool \<Rightarrow> 'c shard \<Rightarrow> bool \<times> 'c shard" where
  "enqueueOrOverwrite chunk closed s =
     (if closed then (False, s)
      else
        let s = (if size_of s = length (cells s)
                 then (drop_head s)\<lparr>drops := drops s + 1\<rparr> else s)
        in (True, push chunk s))"

definition shard_tryDequeue :: "'c shard \<Rightarrow> 'c option \<times> 'c shard" where
  "shard_tryDequeue s =
     (if size_of s = 0 then (None, s) else (cells s ! head s, drop_head s))"

text \<open>A shard as \<open>newSpanQueue\<close> makes it: \<open>shardCap\<close> nil cells.\<close>

definition new_shard :: "nat \<Rightarrow> 'c shard" where
  "new_shard shardCap = \<lparr>cells = replicate shardCap None, head = 0, size_of = 0, drops = 0\<rparr>"

section \<open>The abstraction of a ring to a list\<close>

definition slot :: "'c shard \<Rightarrow> nat \<Rightarrow> nat" where
  "slot s i = (head s + i) mod length (cells s)"

definition shard_list :: "'c shard \<Rightarrow> 'c list" where
  "shard_list s = map (\<lambda>i. the (cells s ! slot s i)) [0..<size_of s]"

text \<open>
  The invariant: the head is in range, the size fits, the occupied slots hold chunks and, so that a
  dequeued chunk is not retained, the free ones are nil.
\<close>

definition shard_wf :: "'c shard \<Rightarrow> bool" where
  "shard_wf s \<longleftrightarrow>
     head s < length (cells s) \<and> size_of s \<le> length (cells s) \<and>
     (\<forall>i < length (cells s). (cells s ! slot s i = None) = (size_of s \<le> i))"

lemma length_shard_list [simp]: "length (shard_list s) = size_of s"
  by (simp add: shard_list_def)

lemma slot_less: "shard_wf s \<Longrightarrow> slot s i < length (cells s)"
  unfolding slot_def by (rule mod_less_divisor) (auto simp: shard_wf_def)

lemma slot_0: "shard_wf s \<Longrightarrow> slot s 0 = head s"
  by (simp add: shard_wf_def slot_def)

lemma slot_inj:
  assumes "shard_wf s" and "i < length (cells s)" and "j < length (cells s)" and "slot s i = slot s j"
  shows "i = j"
proof -
  have h: "head s < length (cells s)" using assms(1) by (simp add: shard_wf_def)
  show ?thesis
    using assms(2-4) h by (auto simp: slot_def mod_if split: if_splits)
qed

lemma slot_Suc_not_head:
  assumes wf: "shard_wf s" and "Suc i < length (cells s)"
  shows "slot s (Suc i) \<noteq> head s"
proof
  assume "slot s (Suc i) = head s"
  then have eq: "slot s (Suc i) = slot s 0" by (simp add: slot_0 [OF wf])
  have "0 < length (cells s)" using assms(2) by (cases "cells s") auto
  from slot_inj [OF wf assms(2) this eq] show False by simp
qed

lemma nth_shard_list:
  assumes "shard_wf s" and "i < size_of s"
  shows "cells s ! slot s i = Some (shard_list s ! i)"
proof -
  have "i < length (cells s)" using assms by (simp add: shard_wf_def)
  with assms have "cells s ! slot s i \<noteq> None" by (simp add: shard_wf_def)
  with assms(2) show ?thesis by (auto simp: shard_list_def)
qed

lemma push_tail:
  assumes "shard_wf s" and "size_of s < length (cells s)"
  shows "push chunk s = s\<lparr>cells := (cells s)[slot s (size_of s) := Some chunk], size_of := size_of s + 1\<rparr>"
proof -
  have "head s < length (cells s)" using assms by (simp add: shard_wf_def)
  with assms(2) have "slot s (size_of s) =
      (if head s + size_of s \<ge> length (cells s) then head s + size_of s - length (cells s)
       else head s + size_of s)"
    by (auto simp: slot_def mod_if)
  then show ?thesis by (simp add: push_def Let_def)
qed

lemma next_pos_slot:
  assumes "shard_wf s"
  shows "next_pos s (head s) = slot s 1"
  using assms by (auto simp: next_pos_def slot_def shard_wf_def mod_if)

lemma push_wf:
  assumes wf: "shard_wf s" and room: "size_of s < length (cells s)"
  shows "shard_wf (push chunk s)"
proof -
  let ?t = "slot s (size_of s)"
  have t: "?t < length (cells s)" using wf by (rule slot_less)
  have slots: "slot (push chunk s) i = slot s i" for i
    using wf room by (simp add: push_tail slot_def)
  have "(cells (push chunk s) ! slot s i = None) = (size_of s + 1 \<le> i)" if i: "i < length (cells s)" for i
  proof (cases "i = size_of s")
    case True
    with t show ?thesis using wf room by (simp add: push_tail)
  next
    case False
    then have "slot s i \<noteq> ?t" using slot_inj [OF wf i room] by blast
    then have "cells (push chunk s) ! slot s i = cells s ! slot s i"
      using wf room by (simp add: push_tail)
    then show ?thesis using wf i False by (auto simp: shard_wf_def)
  qed
  then show ?thesis
    unfolding shard_wf_def slots using wf room by (simp add: push_tail shard_wf_def)
qed

lemma push_list:
  assumes wf: "shard_wf s" and room: "size_of s < length (cells s)"
  shows "shard_list (push chunk s) = shard_list s @ [chunk]"
proof -
  let ?t = "slot s (size_of s)"
  have t: "?t < length (cells s)" using wf by (rule slot_less)
  have slots: "slot (push chunk s) i = slot s i" for i
    using wf room by (simp add: push_tail slot_def)
  have "cells (push chunk s) ! slot s i = cells s ! slot s i" if "i < size_of s" for i
  proof -
    have "slot s i \<noteq> ?t" using slot_inj [OF wf _ room, of i] that room by force
    then show ?thesis using wf room by (simp add: push_tail)
  qed
  moreover have "cells (push chunk s) ! ?t = Some chunk" and "size_of (push chunk s) = size_of s + 1"
    using wf room t by (simp_all add: push_tail)
  ultimately show ?thesis by (simp add: shard_list_def slots)
qed

lemma slot_drop_head:
  assumes "shard_wf s"
  shows "slot (drop_head s) i = slot s (Suc i)"
  using assms
  by (simp add: drop_head_def slot_def next_pos_slot mod_add_left_eq [of "head s + 1" _ i, simplified])

lemma drop_head_wf:
  assumes wf: "shard_wf s" and ne: "0 < size_of s"
  shows "shard_wf (drop_head s)"
proof -
  let ?n = "length (cells s)"
  have h: "head s < ?n" using wf by (simp add: shard_wf_def)
  have "(cells (drop_head s) ! slot s (Suc i) = None) = (size_of s - 1 \<le> i)" if i: "i < ?n" for i
  proof (cases "Suc i < ?n")
    case True
    then have "slot s (Suc i) \<noteq> head s" by (rule slot_Suc_not_head [OF wf])
    then have "cells (drop_head s) ! slot s (Suc i) = cells s ! slot s (Suc i)"
      by (simp add: drop_head_def)
    then show ?thesis using wf True ne by (auto simp: shard_wf_def)
  next
    case False
    with i have Suc_i: "Suc i = ?n" by simp
    then have "slot s (Suc i) = head s" using h by (simp add: slot_def)
    then show ?thesis using Suc_i wf h by (auto simp: drop_head_def shard_wf_def)
  qed
  then show ?thesis
    unfolding shard_wf_def slot_drop_head [OF wf]
    using wf by (auto simp: drop_head_def next_pos_slot slot_less shard_wf_def)
qed

lemma drop_head_list:
  assumes wf: "shard_wf s" and ne: "0 < size_of s"
  shows "shard_list (drop_head s) = tl (shard_list s)"
proof -
  have "cells (drop_head s) ! slot s (Suc i) = cells s ! slot s (Suc i)" if "Suc i < size_of s" for i
  proof -
    have "Suc i < length (cells s)" using that wf by (simp add: shard_wf_def)
    then have "slot s (Suc i) \<noteq> head s" by (rule slot_Suc_not_head [OF wf])
    then show ?thesis by (simp add: drop_head_def)
  qed
  moreover have "size_of (drop_head s) = size_of s - 1" by (simp add: drop_head_def)
  ultimately show ?thesis
    by (intro nth_equalityI) (auto simp: shard_list_def slot_drop_head [OF wf] nth_tl)
qed

section \<open>The bounded FIFO contract\<close>

text \<open>
  What the queue relies on in a shard, whatever holds the chunks: \<open>offer\<close> appends while there is room
  and refuses when full, \<open>force\<close> always appends and gives up the oldest when full, \<open>poll\<close> takes the
  oldest. \<open>fifo_step\<close> is the same contract as a machine over lists; its output is what a poll
  delivered and what a force dropped.
\<close>

datatype 'a fifo_op = Offer 'a | Force 'a | Poll

record 'a fifo_out =
  accepted :: "'a list"
  delivered :: "'a list"
  dropped :: "'a list"

fun fifo_step :: "nat \<Rightarrow> 'a list \<Rightarrow> 'a fifo_op \<Rightarrow> 'a fifo_out \<times> 'a list" where
  "fifo_step n xs (Offer x) =
     (if length xs < n then (\<lparr>accepted = [x], delivered = [], dropped = []\<rparr>, xs @ [x])
      else (\<lparr>accepted = [], delivered = [], dropped = []\<rparr>, xs))"
| "fifo_step n xs (Force x) =
     (if length xs < n then (\<lparr>accepted = [x], delivered = [], dropped = []\<rparr>, xs @ [x])
      else (\<lparr>accepted = [x], delivered = [], dropped = take 1 xs\<rparr>, tl xs @ [x]))"
| "fifo_step n xs Poll = (\<lparr>accepted = [], delivered = take 1 xs, dropped = []\<rparr>, tl xs)"

fun fifo_run :: "nat \<Rightarrow> 'a list \<Rightarrow> 'a fifo_op list \<Rightarrow> 'a fifo_out list \<times> 'a list" where
  "fifo_run n xs [] = ([], xs)"
| "fifo_run n xs (p # ps) =
     (let (out, xs') = fifo_step n xs p; (outs, xs'') = fifo_run n xs' ps in (out # outs, xs''))"

locale bounded_fifo =
  fixes abs :: "'q \<Rightarrow> 'a list"
    and cap :: "'q \<Rightarrow> nat"
    and invar :: "'q \<Rightarrow> bool"
    and offer :: "'a \<Rightarrow> 'q \<Rightarrow> bool \<times> 'q"
    and force :: "'a \<Rightarrow> 'q \<Rightarrow> bool \<times> 'q"
    and poll :: "'q \<Rightarrow> 'a option \<times> 'q"
  assumes cap_pos: "invar q \<Longrightarrow> 0 < cap q"
    and bounded: "invar q \<Longrightarrow> length (abs q) \<le> cap q"
    and offer_full: "invar q \<Longrightarrow> length (abs q) = cap q \<Longrightarrow> offer x q = (False, q)"
    and offer_room: "invar q \<Longrightarrow> length (abs q) < cap q \<Longrightarrow>
      fst (offer x q) \<and> abs (snd (offer x q)) = abs q @ [x]"
    and force_abs: "invar q \<Longrightarrow> fst (force x q) \<and>
      abs (snd (force x q)) = (if length (abs q) = cap q then tl (abs q) else abs q) @ [x]"
    and poll_fst: "invar q \<Longrightarrow> fst (poll q) = (case abs q of [] \<Rightarrow> None | x # xs \<Rightarrow> Some x)"
    and poll_abs: "invar q \<Longrightarrow> abs (snd (poll q)) = tl (abs q)"
    and cap_offer: "invar q \<Longrightarrow> cap (snd (offer x q)) = cap q"
    and cap_force: "invar q \<Longrightarrow> cap (snd (force x q)) = cap q"
    and cap_poll: "invar q \<Longrightarrow> cap (snd (poll q)) = cap q"
    and invar_offer: "invar q \<Longrightarrow> invar (snd (offer x q))"
    and invar_force: "invar q \<Longrightarrow> invar (snd (force x q))"
    and invar_poll: "invar q \<Longrightarrow> invar (snd (poll q))"
begin

fun do_op :: "'q \<Rightarrow> 'a fifo_op \<Rightarrow> 'a fifo_out \<times> 'q" where
  "do_op q (Offer x) = (let (ok, q') = offer x q
     in (\<lparr>accepted = (if ok then [x] else []), delivered = [], dropped = []\<rparr>, q'))"
| "do_op q (Force x) = (let (ok, q') = force x q
     in (\<lparr>accepted = (if ok then [x] else []), delivered = [],
          dropped = (if length (abs q) = cap q then take 1 (abs q) else [])\<rparr>, q'))"
| "do_op q Poll = (let (r, q') = poll q
     in (\<lparr>accepted = [], delivered = (case r of None \<Rightarrow> [] | Some x \<Rightarrow> [x]), dropped = []\<rparr>, q'))"

lemma do_op_step:
  assumes "invar q"
  shows "fst (do_op q p) = fst (fifo_step (cap q) (abs q) p)"
    and "abs (snd (do_op q p)) = snd (fifo_step (cap q) (abs q) p)"
    and "invar (snd (do_op q p))" and "cap (snd (do_op q p)) = cap q"
proof -
  have room: "length (abs q) \<noteq> cap q \<Longrightarrow> length (abs q) < cap q"
    using bounded [OF assms] by simp
  show "fst (do_op q p) = fst (fifo_step (cap q) (abs q) p)"
    using assms room
    by (cases p; cases "length (abs q) = cap q")
      (auto simp: offer_full case_prod_beta offer_room force_abs poll_fst split: list.splits)
  show "abs (snd (do_op q p)) = snd (fifo_step (cap q) (abs q) p)"
    using assms room
    by (cases p; cases "length (abs q) = cap q")
      (auto simp: offer_full case_prod_beta offer_room force_abs poll_abs)
  show "invar (snd (do_op q p))" and "cap (snd (do_op q p)) = cap q"
    using assms
    by (cases p; simp add: case_prod_beta invar_offer invar_force invar_poll cap_offer cap_force cap_poll)+
qed

fun run :: "'q \<Rightarrow> 'a fifo_op list \<Rightarrow> 'a fifo_out list \<times> 'q" where
  "run q [] = ([], q)"
| "run q (p # ps) = (let (out, q') = do_op q p; (outs, q'') = run q' ps in (out # outs, q''))"

lemma run_refines:
  assumes "invar q"
  shows "fst (run q ps) = fst (fifo_run (cap q) (abs q) ps) \<and>
    abs (snd (run q ps)) = snd (fifo_run (cap q) (abs q) ps) \<and> invar (snd (run q ps))"
  using assms
proof (induction ps arbitrary: q)
  case Nil
  then show ?case by simp
next
  case (Cons p ps)
  note step = do_op_step [OF Cons.prems, of p]
  from Cons.IH [OF step(3)] step show ?case by (simp add: case_prod_beta)
qed

end

section \<open>Every shard is a bounded FIFO\<close>

lemma size_push [simp]: "size_of (push c s) = size_of s + 1"
  by (simp add: push_def Let_def)

lemma length_cells_push [simp]: "length (cells (push c s)) = length (cells s)"
  by (simp add: push_def Let_def)

lemma drop_head_sel [simp]:
  "size_of (drop_head s) = size_of s - 1" "length (cells (drop_head s)) = length (cells s)"
  "drops (drop_head s) = drops s"
  by (simp_all add: drop_head_def)

lemma drops_push [simp]: "drops (push c s) = drops s"
  by (simp add: push_def Let_def)

lemma shard_wf_drops [simp]: "shard_wf (s\<lparr>drops := d\<rparr>) = shard_wf s"
  by (simp add: shard_wf_def slot_def)

lemma shard_list_drops [simp]: "shard_list (s\<lparr>drops := d\<rparr>) = shard_list s"
  by (simp add: shard_list_def slot_def)

lemma shard_wf_bounds: "shard_wf s \<Longrightarrow> 0 < length (cells s) \<and> size_of s \<le> length (cells s)"
  by (auto simp: shard_wf_def)

lemma new_shard_wf: "0 < n \<Longrightarrow> shard_wf (new_shard n)"
  by (simp add: shard_wf_def new_shard_def slot_def)

lemma shard_list_empty_iff: "shard_list s = [] \<longleftrightarrow> size_of s = 0"
  by (metis length_0_conv length_shard_list)

lemma shard_tryDequeue_fst:
  assumes "shard_wf s"
  shows "fst (shard_tryDequeue s) = (case shard_list s of [] \<Rightarrow> None | x # xs \<Rightarrow> Some x)"
proof (cases "shard_list s")
  case Nil
  then show ?thesis by (simp add: shard_tryDequeue_def flip: shard_list_empty_iff)
next
  case (Cons x xs)
  then have "0 < size_of s" by (metis length_greater_0_conv length_shard_list list.distinct(1))
  with nth_shard_list [OF assms this] Cons show ?thesis
    by (simp add: shard_tryDequeue_def slot_0 [OF assms])
qed

lemma enqueueOrOverwrite_open:
  assumes wf: "shard_wf s"
  shows "fst (enqueueOrOverwrite c False s)"
    and "shard_list (snd (enqueueOrOverwrite c False s)) =
      (if size_of s = length (cells s) then tl (shard_list s) else shard_list s) @ [c]"
    and "shard_wf (snd (enqueueOrOverwrite c False s))"
    and "drops (snd (enqueueOrOverwrite c False s)) =
      drops s + (if size_of s = length (cells s) then 1 else 0)"
    and "length (cells (snd (enqueueOrOverwrite c False s))) = length (cells s)"
  using wf shard_wf_bounds [OF wf]
  by (auto simp: enqueueOrOverwrite_def Let_def push_list push_wf drop_head_wf drop_head_list)

lemma shard_tryEnqueue_open:
  assumes wf: "shard_wf s"
  shows "fst (shard_tryEnqueue c False s) \<longleftrightarrow> size_of s < length (cells s)"
    and "shard_list (snd (shard_tryEnqueue c False s)) =
      shard_list s @ (if size_of s < length (cells s) then [c] else [])"
    and "shard_wf (snd (shard_tryEnqueue c False s))"
    and "drops (snd (shard_tryEnqueue c False s)) = drops s"
    and "length (cells (snd (shard_tryEnqueue c False s))) = length (cells s)"
  using wf shard_wf_bounds [OF wf] by (auto simp: shard_tryEnqueue_def push_list push_wf)

lemma shard_tryEnqueue_full: "size_of s = length (cells s) \<Longrightarrow> shard_tryEnqueue c closed s = (False, s)"
  by (simp add: shard_tryEnqueue_def)

lemma shard_tryDequeue_laws:
  assumes wf: "shard_wf s"
  shows "shard_list (snd (shard_tryDequeue s)) = tl (shard_list s)"
    and "shard_wf (snd (shard_tryDequeue s))"
    and "drops (snd (shard_tryDequeue s)) = drops s"
    and "length (cells (snd (shard_tryDequeue s))) = length (cells s)"
  using wf by (auto simp: shard_tryDequeue_def drop_head_wf drop_head_list shard_list_def [of s])

interpretation ring: bounded_fifo shard_list "\<lambda>s. length (cells s)" shard_wf
  "\<lambda>c. shard_tryEnqueue c False" "\<lambda>c. enqueueOrOverwrite c False" shard_tryDequeue
  by unfold_locales
    (use shard_wf_bounds in \<open>auto simp: shard_tryEnqueue_open enqueueOrOverwrite_open
      shard_tryDequeue_fst shard_tryDequeue_laws shard_tryEnqueue_full\<close>)

section \<open>The sharded queue: spanQueue\<close>

text \<open>
  \<open>wake\<close> is the one-slot token channel, \<open>done_ch\<close> whether the \<open>done\<close> channel is closed; \<open>closed\<close> and
  \<open>saturated\<close> are the atomic flags and \<open>cursor\<close> the consumer's sweep start.
\<close>

record 'c spanQueue =
  shards :: "'c shard list"
  capacity :: nat
  wake :: bool
  done_ch :: bool
  closed :: bool
  saturated :: bool
  cursor :: nat

definition spanQueueMaxShards :: nat where "spanQueueMaxShards = 32"
definition spanQueueMinShardCap :: nat where "spanQueueMinShardCap = 32"

definition newSpanQueue :: "int \<Rightarrow> 'c spanQueue" where
  "newSpanQueue n =
     (let cap = nat (max n 1);
          shardCount = min (max (cap div spanQueueMinShardCap) 1) spanQueueMaxShards;
          base = cap div shardCount;
          extra = cap mod shardCount
      in \<lparr>shards = map (\<lambda>i. new_shard (if i < extra then base + 1 else base)) [0..<shardCount],
          capacity = cap, wake = False, done_ch = False, closed = False, saturated = False,
          cursor = 0\<rparr>)"

definition set_shard :: "nat \<Rightarrow> 'c shard \<Rightarrow> 'c spanQueue \<Rightarrow> 'c spanQueue" where
  "set_shard i s q = q\<lparr>shards := (shards q)[i := s]\<rparr>"

definition notify :: "'c spanQueue \<Rightarrow> 'c spanQueue" where
  "notify q = q\<lparr>wake := True\<rparr>"

text \<open>The scan of \<open>enqueue\<close> over the shards after the first choice, at the offsets given.\<close>

fun scan :: "'c \<Rightarrow> nat \<Rightarrow> nat list \<Rightarrow> 'c spanQueue \<Rightarrow> 'c spanQueue option" where
  "scan chunk first [] q = None"
| "scan chunk first (i # is) q =
     (let sh = (first + i) mod length (shards q);
          (ok, s) = shard_tryEnqueue chunk (closed q) (shards q ! sh)
      in if ok then Some (set_shard sh s q) else scan chunk first is q)"

text \<open>
  \<open>enqueue\<close> with the shard \<open>first\<close> that \<open>rand.IntN\<close> drew as an argument.
\<close>

definition enqueue :: "nat \<Rightarrow> 'c \<Rightarrow> 'c spanQueue \<Rightarrow> bool \<times> 'c spanQueue" where
  "enqueue first chunk q =
     (if closed q then (False, q)
      else
        let (ok, s) = shard_tryEnqueue chunk (closed q) (shards q ! first) in
        if ok then
          let q = set_shard first s q;
              q = (if saturated q then q\<lparr>saturated := False\<rparr> else q)
          in (True, notify q)
        else
          let scanned = (if saturated q then None else scan chunk first [1..<length (shards q)] q) in
          case scanned of
            Some q' \<Rightarrow> (True, notify q')
          | None \<Rightarrow>
              let q = (if saturated q then q else q\<lparr>saturated := True\<rparr>);
                  (ok, s) = enqueueOrOverwrite chunk (closed q) (shards q ! first)
              in if ok then (True, notify (set_shard first s q)) else (False, q))"

text \<open>The sweep of \<open>tryDequeue\<close> over the offsets given, from the cursor.\<close>

fun sweep :: "nat list \<Rightarrow> 'c spanQueue \<Rightarrow> 'c option \<times> 'c spanQueue" where
  "sweep [] q = (None, q)"
| "sweep (i # is) q =
     (let n = length (shards q);
          sh = (cursor q + i) mod n
      in case shard_tryDequeue (shards q ! sh) of
           (Some chunk, s) \<Rightarrow> (Some chunk, (set_shard sh s q)\<lparr>cursor := (sh + 1) mod n\<rparr>)
         | (None, s) \<Rightarrow> sweep is q)"

definition tryDequeue :: "'c spanQueue \<Rightarrow> 'c option \<times> 'c spanQueue" where
  "tryDequeue q = sweep [0..<length (shards q)] q"

definition close :: "'c spanQueue \<Rightarrow> 'c spanQueue" where
  "close q = q\<lparr>closed := True, done_ch := True\<rparr>"

definition dropCount :: "'c spanQueue \<Rightarrow> go_int64" where
  "dropCount q = sum_list (map drops (shards q))"

section \<open>Invariant and bounds of the queue\<close>

definition resident :: "'c spanQueue \<Rightarrow> nat" where
  "resident q = sum_list (map size_of (shards q))"

definition residents :: "'c spanQueue \<Rightarrow> 'c multiset" where
  "residents q = sum_list (map (\<lambda>s. mset (shard_list s)) (shards q))"

definition queue_wf :: "'c spanQueue \<Rightarrow> bool" where
  "queue_wf q \<longleftrightarrow>
     shards q \<noteq> [] \<and> cursor q < length (shards q) \<and> list_all shard_wf (shards q) \<and>
     sum_list (map (\<lambda>s. length (cells s)) (shards q)) = capacity q"

lemma set_shard_sel [simp]:
  "shards (set_shard i s q) = (shards q)[i := s]" "capacity (set_shard i s q) = capacity q"
  "wake (set_shard i s q) = wake q" "done_ch (set_shard i s q) = done_ch q"
  "closed (set_shard i s q) = closed q" "saturated (set_shard i s q) = saturated q"
  "cursor (set_shard i s q) = cursor q"
  by (simp_all add: set_shard_def)

lemma notify_sel [simp]:
  "shards (notify q) = shards q" "capacity (notify q) = capacity q" "wake (notify q)"
  "done_ch (notify q) = done_ch q" "closed (notify q) = closed q"
  "saturated (notify q) = saturated q" "cursor (notify q) = cursor q"
  by (simp_all add: notify_def)

lemma queue_wf_shard: "queue_wf q \<Longrightarrow> i < length (shards q) \<Longrightarrow> shard_wf (shards q ! i)"
  by (simp add: queue_wf_def list_all_length)

lemma queue_wf_set_shard:
  assumes "queue_wf q" and "i < length (shards q)" and "shard_wf s"
    and "length (cells s) = length (cells (shards q ! i))"
  shows "queue_wf (set_shard i s q)"
proof -
  have "sum_list (map (\<lambda>s. length (cells s)) ((shards q)[i := s])) = capacity q"
    using sum_list_map_update_add [OF assms(2), of "\<lambda>s. length (cells s)" s] assms
    by (simp add: queue_wf_def)
  with assms show ?thesis by (simp add: queue_wf_def list_all_update)
qed

lemma queue_wf_flags [simp]:
  "queue_wf (q\<lparr>wake := w\<rparr>) = queue_wf q" "queue_wf (q\<lparr>saturated := b\<rparr>) = queue_wf q"
  "queue_wf (q\<lparr>closed := b\<rparr>) = queue_wf q" "queue_wf (q\<lparr>done_ch := b\<rparr>) = queue_wf q"
  "queue_wf (notify q) = queue_wf q"
  by (simp_all add: queue_wf_def notify_def)

lemma residents_set_shard:
  assumes "i < length (shards q)"
  shows "residents (set_shard i s q) + mset (shard_list (shards q ! i)) = residents q + mset (shard_list s)"
  using sum_list_map_update_add [OF assms, of "\<lambda>s. mset (shard_list s)" s]
  by (simp add: residents_def)

lemma residents_flags [simp]:
  "residents (q\<lparr>wake := w\<rparr>) = residents q" "residents (q\<lparr>saturated := b\<rparr>) = residents q"
  "residents (q\<lparr>closed := b\<rparr>) = residents q" "residents (q\<lparr>done_ch := b\<rparr>) = residents q"
  "residents (q\<lparr>cursor := k\<rparr>) = residents q" "residents (notify q) = residents q"
  by (simp_all add: residents_def notify_def)

lemma dropCount_set_shard:
  assumes "i < length (shards q)"
  shows "dropCount (set_shard i s q) = dropCount q - drops (shards q ! i) + drops s"
  using assms by (simp add: dropCount_def sum_list_map_update)

lemma dropCount_flags [simp]:
  "dropCount (q\<lparr>wake := w\<rparr>) = dropCount q" "dropCount (q\<lparr>saturated := b\<rparr>) = dropCount q"
  "dropCount (q\<lparr>closed := b\<rparr>) = dropCount q" "dropCount (q\<lparr>done_ch := b\<rparr>) = dropCount q"
  "dropCount (q\<lparr>cursor := k\<rparr>) = dropCount q" "dropCount (notify q) = dropCount q"
  by (simp_all add: dropCount_def notify_def)

lemma size_residents: "size (residents q) = resident q"
proof -
  have "size (sum_list (map (\<lambda>s. mset (shard_list s)) xs)) = sum_list (map size_of xs)" for xs :: "'a shard list"
    by (induction xs) auto
  then show ?thesis by (simp add: residents_def resident_def)
qed

lemma resident_le_capacity:
  assumes "queue_wf q"
  shows "resident q \<le> capacity q"
proof -
  have "list_all shard_wf xs \<Longrightarrow> sum_list (map size_of xs) \<le> sum_list (map (\<lambda>s. length (cells s)) xs)"
    for xs :: "'a shard list"
    by (induction xs) (auto dest!: shard_wf_bounds)
  with assms show ?thesis by (fastforce simp: queue_wf_def resident_def)
qed

lemma resident_zero_iff: "resident q = 0 \<longleftrightarrow> (\<forall>i < length (shards q). size_of (shards q ! i) = 0)"
  by (simp add: resident_def all_set_conv_all_nth)

section \<open>newSpanQueue splits the capacity exactly\<close>

lemma sum_list_shares:
  "e \<le> n \<Longrightarrow> sum_list (map (\<lambda>i. if i < e then b + 1 else b) [0..<n]) = n * b + (e::nat)"
proof (induction n arbitrary: e)
  case 0
  then show ?case by simp
next
  case (Suc n)
  show ?case
  proof (cases "e \<le> n")
    case True
    with Suc.IH [OF True] show ?thesis by simp
  next
    case False
    with Suc.prems have e: "e = Suc n" by simp
    have "map (\<lambda>i. if i < Suc n then b + 1 else b) [0..<n] = map (\<lambda>i. if i < n then b + 1 else b) [0..<n]"
      by auto
    then have "sum_list (map (\<lambda>i. if i < Suc n then b + 1 else b) [0..<n]) = n * b + n"
      by (simp only: Suc.IH [OF order_refl])
    with e show ?thesis by simp
  qed
qed

definition shard_count :: "nat \<Rightarrow> nat" where
  "shard_count cap = min (max (cap div 32) 1) 32"

definition shard_share :: "nat \<Rightarrow> nat \<Rightarrow> nat" where
  "shard_share cap i = (if i < cap mod shard_count cap then cap div shard_count cap + 1
                        else cap div shard_count cap)"

lemma newSpanQueue_eq:
  "newSpanQueue n = \<lparr>shards = map (\<lambda>i. new_shard (shard_share (nat (max n 1)) i))
       [0..<shard_count (nat (max n 1))], capacity = nat (max n 1), wake = False, done_ch = False,
     closed = False, saturated = False, cursor = 0\<rparr>"
  unfolding newSpanQueue_def Let_def shard_share_def shard_count_def spanQueueMinShardCap_def
    spanQueueMaxShards_def ..

lemma shard_count_bounds: "0 < shard_count cap" "shard_count cap \<le> 32" "0 < cap \<Longrightarrow> shard_count cap \<le> cap"
  by (auto simp: shard_count_def)

lemma shard_share_pos:
  assumes "0 < cap"
  shows "0 < shard_share cap i"
proof -
  have "0 < cap div shard_count cap"
    using assms shard_count_bounds [of cap] by (simp add: div_greater_zero_iff)
  then show ?thesis by (simp add: shard_share_def)
qed

lemma sum_shard_share: "sum_list (map (shard_share cap) [0..<shard_count cap]) = cap"
proof -
  have "sum_list (map (shard_share cap) [0..<shard_count cap])
      = shard_count cap * (cap div shard_count cap) + cap mod shard_count cap"
    unfolding shard_share_def
    by (rule sum_list_shares) (simp add: shard_count_bounds less_imp_le)
  then show ?thesis by simp
qed

lemma newSpanQueue_wf: "queue_wf (newSpanQueue n)"
proof -
  let ?cap = "nat (max n 1)"
  have "map (\<lambda>s. length (cells s)) (shards (newSpanQueue n)) = map (shard_share ?cap) [0..<shard_count ?cap]"
    by (simp add: newSpanQueue_eq new_shard_def)
  then have "sum_list (map (\<lambda>s. length (cells s)) (shards (newSpanQueue n))) = ?cap"
    by (metis sum_shard_share)
  moreover have "list_all shard_wf (shards (newSpanQueue n))"
    by (simp add: list_all_length newSpanQueue_eq new_shard_wf shard_share_pos)
  ultimately show ?thesis
    using shard_count_bounds(1) [of ?cap] by (simp add: queue_wf_def newSpanQueue_eq)
qed

section \<open>enqueue\<close>

lemma scan_None:
  "closed q = False \<Longrightarrow> scan c first is q = None \<longleftrightarrow>
     (\<forall>i\<in>set is. size_of (shards q ! ((first + i) mod length (shards q)))
        = length (cells (shards q ! ((first + i) mod length (shards q)))))"
  by (induction "is") (auto simp: shard_tryEnqueue_def Let_def)

lemma scan_Some:
  assumes "scan c first is q = Some q'"
  shows "\<exists>i\<in>set is. let sh = (first + i) mod length (shards q); s = shards q ! sh
     in size_of s \<noteq> length (cells s) \<and> \<not> closed q \<and> q' = set_shard sh (push c s) q"
  using assms
  by (induction "is") (auto simp: shard_tryEnqueue_def Let_def split: if_splits)

text \<open>
  The two ways an \<open>enqueue\<close> on an open queue ends: some shard took the chunk with room to spare, or the
  first choice was overwritten, which needs it to be full and, unless the hint was set, every other
  shard too.
\<close>

lemma enqueue_open_cases:
  assumes wf: "queue_wf q" and op: "\<not> closed q" and first: "first < length (shards q)"
  obtains (room) sh sat where "sh < length (shards q)"
      and "size_of (shards q ! sh) < length (cells (shards q ! sh))"
      and "enqueue first c q = (True, notify ((set_shard sh (push c (shards q ! sh)) q)\<lparr>saturated := sat\<rparr>))"
    | (overwrite) "size_of (shards q ! first) = length (cells (shards q ! first))"
      and "saturated q \<or> (\<forall>i < length (shards q). size_of (shards q ! i) = length (cells (shards q ! i)))"
      and "enqueue first c q = (True, notify ((set_shard first
             (snd (enqueueOrOverwrite c False (shards q ! first))) q)\<lparr>saturated := True\<rparr>))"
proof (cases "size_of (shards q ! first) = length (cells (shards q ! first))")
  case False
  have "size_of (shards q ! first) < length (cells (shards q ! first))"
    using False shard_wf_bounds [OF queue_wf_shard [OF wf first]] by simp
  moreover have "enqueue first c q
      = (True, notify ((set_shard first (push c (shards q ! first)) q)\<lparr>saturated := False\<rparr>))"
    using False op by (simp add: enqueue_def shard_tryEnqueue_def set_shard_def Let_def)
  ultimately show thesis using first room by blast
next
  case full: True
  have flag: "q\<lparr>saturated := saturated q\<rparr> = q" by simp
  show thesis
  proof (cases "saturated q")
    case True
    have "enqueue first c q = (True, notify ((set_shard first
           (snd (enqueueOrOverwrite c False (shards q ! first))) q)\<lparr>saturated := True\<rparr>))"
      using full op True
      by (simp add: enqueue_def shard_tryEnqueue_full set_shard_def Let_def enqueueOrOverwrite_def)
    with full True show thesis using overwrite by blast
  next
    case unsat: False
    let ?scan = "scan c first [1..<length (shards q)] q"
    show thesis
    proof (cases ?scan)
      case None
      have all: "size_of (shards q ! i) = length (cells (shards q ! i))" if i: "i < length (shards q)" for i
      proof (cases "i = first")
        case True
        with full show ?thesis by simp
      next
        case False
        define d where "d = cyc_dist (length (shards q)) first i"
        have d: "(first + d) mod length (shards q) = i" and "d < length (shards q)"
          using first i by (simp_all add: d_def cyc_dist_reaches cyc_dist_less)
        moreover from d False first have "d \<noteq> 0" by (metis add.right_neutral mod_less)
        ultimately have "d \<in> set [1..<length (shards q)]" by simp
        with None op d show ?thesis by (auto simp: scan_None)
      qed
      have "enqueue first c q = (True, notify ((set_shard first
             (snd (enqueueOrOverwrite c False (shards q ! first))) q)\<lparr>saturated := True\<rparr>))"
        using full op unsat None
        by (simp add: enqueue_def shard_tryEnqueue_full set_shard_def Let_def enqueueOrOverwrite_def)
      with full all show thesis using overwrite by blast
    next
      case (Some q')
      from scan_Some [OF Some] obtain i where
        i: "size_of (shards q ! ((first + i) mod length (shards q)))
            \<noteq> length (cells (shards q ! ((first + i) mod length (shards q))))"
        and q': "q' = set_shard ((first + i) mod length (shards q))
            (push c (shards q ! ((first + i) mod length (shards q)))) q"
        by (auto simp: Let_def)
      let ?sh = "(first + i) mod length (shards q)"
      have sh: "?sh < length (shards q)" using first by (cases "shards q") auto
      have "size_of (shards q ! ?sh) < length (cells (shards q ! ?sh))"
        using i shard_wf_bounds [OF queue_wf_shard [OF wf sh]] by simp
      moreover have "enqueue first c q = (True, notify (q'\<lparr>saturated := saturated q\<rparr>))"
        using full op unsat Some q' by (simp add: enqueue_def shard_tryEnqueue_full set_shard_def Let_def)
      ultimately show thesis using sh q' room by metis
    qed
  qed
qed

lemma full_resident:
  assumes "queue_wf q" and "\<forall>i < length (shards q). size_of (shards q ! i) = length (cells (shards q ! i))"
  shows "resident q = capacity q"
proof -
  have "map size_of (shards q) = map (\<lambda>s. length (cells s)) (shards q)"
    using assms(2) by (simp add: list_eq_iff_nth_eq)
  then have "resident q = sum_list (map (\<lambda>s. length (cells s)) (shards q))"
    by (simp only: resident_def)
  with assms(1) show ?thesis by (simp add: queue_wf_def)
qed

text \<open>What one \<open>enqueue\<close> on an open queue does to the resident chunks, the drop counter and the flags.\<close>

lemma enqueue_open:
  assumes wf: "queue_wf q" and op: "\<not> closed q" and first: "first < length (shards q)"
  shows "fst (enqueue first c q)"
    and "queue_wf (snd (enqueue first c q))"
    and "wake (snd (enqueue first c q))"
    and "\<exists>lost. residents (snd (enqueue first c q)) + lost = add_mset c (residents q) \<and>
           dropCount (snd (enqueue first c q)) = dropCount q + of_nat (size lost) \<and> size lost \<le> 1 \<and>
           (lost \<noteq> {#} \<longrightarrow> size_of (shards q ! first) = length (cells (shards q ! first)) \<and>
              lost = {#hd (shard_list (shards q ! first))#} \<and> (saturated q \<or> resident q = capacity q))"
proof -
  have "fst (enqueue first c q) \<and> queue_wf (snd (enqueue first c q)) \<and> wake (snd (enqueue first c q)) \<and>
    (\<exists>lost. residents (snd (enqueue first c q)) + lost = add_mset c (residents q) \<and>
           dropCount (snd (enqueue first c q)) = dropCount q + of_nat (size lost) \<and> size lost \<le> 1 \<and>
           (lost \<noteq> {#} \<longrightarrow> size_of (shards q ! first) = length (cells (shards q ! first)) \<and>
              lost = {#hd (shard_list (shards q ! first))#} \<and> (saturated q \<or> resident q = capacity q)))"
    (is "?ok \<and> ?wf \<and> ?wk \<and> ?acc")
    using wf op first
  proof (cases rule: enqueue_open_cases [of q first c])
    case (room sh sat)
    let ?s = "shards q ! sh"
    have swf: "shard_wf ?s" using wf room(1) by (rule queue_wf_shard)
    have "residents (set_shard sh (push c ?s) q) = add_mset c (residents q)"
      using residents_set_shard [OF room(1), of "push c ?s"] by (simp add: push_list [OF swf room(2)])
    moreover have "dropCount (set_shard sh (push c ?s) q) = dropCount q"
      by (simp add: dropCount_set_shard [OF room(1)])
    moreover have "queue_wf (set_shard sh (push c ?s) q)"
      using wf room by (intro queue_wf_set_shard push_wf swf) auto
    ultimately show ?thesis using room(3) by (auto intro!: exI [of _ "{#}"])
  next
    case overwrite
    let ?s = "shards q ! first"
    let ?s' = "snd (enqueueOrOverwrite c False ?s)"
    have swf: "shard_wf ?s" using wf first by (rule queue_wf_shard)
    note ow = enqueueOrOverwrite_open [OF swf, of c]
    obtain x xs where xs: "shard_list ?s = x # xs"
      using overwrite(1) shard_wf_bounds [OF swf] by (metis length_shard_list list.exhaust list.size(3) less_irrefl)
    have "residents (set_shard first ?s' q) + mset (x # xs) = residents q + mset (xs @ [c])"
      using residents_set_shard [OF first, of ?s'] ow(2) overwrite(1) xs by simp
    then have res: "residents (set_shard first ?s' q) + {#x#} = add_mset c (residents q)"
      by (simp add: algebra_simps)
    have drop: "dropCount (set_shard first ?s' q) = dropCount q + 1"
      using overwrite(1) by (simp add: dropCount_set_shard [OF first] ow(4))
    have wf': "queue_wf (set_shard first ?s' q)"
      using wf first ow by (intro queue_wf_set_shard) auto
    have "saturated q \<or> resident q = capacity q"
      using overwrite(2) full_resident [OF wf] by blast
    moreover have "hd (shard_list ?s) = x" by (simp add: xs)
    ultimately show ?thesis
      using res drop wf' overwrite(1,3) by (intro conjI exI [of _ "{#x#}"]) simp_all
  qed
  then show ?ok and ?wf and ?wk and ?acc by blast+
qed

lemma enqueue_closed: "closed q \<Longrightarrow> enqueue first c q = (False, q)"
  by (simp add: enqueue_def)

section \<open>tryDequeue\<close>

lemma sweep_None:
  assumes "queue_wf q" and "\<forall>i\<in>set is. size_of (shards q ! ((cursor q + i) mod length (shards q))) = 0"
  shows "sweep is q = (None, q)"
  using assms by (induction "is") (auto simp: shard_tryDequeue_def Let_def)

lemma queue_wf_index: "queue_wf q \<Longrightarrow> i mod length (shards q) < length (shards q)"
  by (auto simp: queue_wf_def)

lemma shard_tryDequeue_Some:
  assumes "shard_wf s" and "size_of s \<noteq> 0"
  shows "shard_tryDequeue s = (Some (hd (shard_list s)), drop_head s)"
  using assms nth_shard_list [OF assms(1), of 0]
  by (auto simp: shard_tryDequeue_def slot_0 hd_conv_nth simp flip: length_0_conv)

lemma shard_tryDequeue_None: "size_of s = 0 \<Longrightarrow> shard_tryDequeue s = (None, s)"
  by (simp add: shard_tryDequeue_def)

lemma sweep_Some:
  assumes wf: "queue_wf q" and "sweep is q = (Some x, q')"
  shows "\<exists>pre i post. is = pre @ i # post \<and>
     (\<forall>k\<in>set pre. size_of (shards q ! ((cursor q + k) mod length (shards q))) = 0) \<and>
     (let sh = (cursor q + i) mod length (shards q)
      in size_of (shards q ! sh) \<noteq> 0 \<and> x = hd (shard_list (shards q ! sh)) \<and>
         q' = (set_shard sh (drop_head (shards q ! sh)) q)\<lparr>cursor := (sh + 1) mod length (shards q)\<rparr>)"
  using assms(2)
proof (induction "is")
  case Nil
  then show ?case by simp
next
  case (Cons i js)
  let ?sh = "(cursor q + i) mod length (shards q)"
  have swf: "shard_wf (shards q ! ?sh)" using wf queue_wf_index queue_wf_shard by blast
  show ?case
  proof (cases "size_of (shards q ! ?sh) = 0")
    case True
    with Cons.prems have "sweep js q = (Some x, q')" by (simp add: shard_tryDequeue_def Let_def)
    from Cons.IH [OF this] obtain pre k post where
      "js = pre @ k # post" and "\<forall>k\<in>set pre. size_of (shards q ! ((cursor q + k) mod length (shards q))) = 0"
      and "let sh = (cursor q + k) mod length (shards q)
      in size_of (shards q ! sh) \<noteq> 0 \<and> x = hd (shard_list (shards q ! sh)) \<and>
         q' = (set_shard sh (drop_head (shards q ! sh)) q)\<lparr>cursor := (sh + 1) mod length (shards q)\<rparr>"
      by blast
    with True show ?thesis by (intro exI [of _ "i # pre"] exI [of _ k] exI [of _ post]) simp
  next
    case False
    with Cons.prems show ?thesis
      by (intro exI [of _ "[]"] exI [of _ i] exI [of _ js])
        (auto simp: shard_tryDequeue_Some [OF swf] Let_def)
  qed
qed

text \<open>
  \<open>tryDequeue\<close> finds a chunk exactly when one is resident: it takes the oldest one of the first non-empty
  shard at or after the cursor, and leaves the cursor just past that shard.
\<close>

lemma tryDequeue_cases:
  assumes wf: "queue_wf q"
  obtains (empty) "tryDequeue q = (None, q)" and "resident q = 0"
    | (found) d sh where "d < length (shards q)" and "sh = (cursor q + d) mod length (shards q)"
      and "\<forall>k < d. size_of (shards q ! ((cursor q + k) mod length (shards q))) = 0"
      and "size_of (shards q ! sh) \<noteq> 0" and "sh < length (shards q)"
      and "tryDequeue q = (Some (hd (shard_list (shards q ! sh))),
             (set_shard sh (drop_head (shards q ! sh)) q)\<lparr>cursor := (sh + 1) mod length (shards q)\<rparr>)"
proof (cases "resident q = 0")
  case True
  then have "\<forall>i\<in>set [0..<length (shards q)]. size_of (shards q ! ((cursor q + i) mod length (shards q))) = 0"
    using queue_wf_index [OF wf] by (auto simp: resident_zero_iff)
  from sweep_None [OF wf this] True show thesis by (intro empty) (simp_all add: tryDequeue_def)
next
  case False
  have "\<exists>x q'. tryDequeue q = (Some x, q')"
  proof -
    obtain i where i: "i < length (shards q)" and ne: "size_of (shards q ! i) \<noteq> 0"
      using False by (auto simp: resident_zero_iff)
    define d where "d = cyc_dist (length (shards q)) (cursor q) i"
    have d: "(cursor q + d) mod length (shards q) = i" "d < length (shards q)"
      using wf i by (auto simp: d_def cyc_dist_reaches cyc_dist_less queue_wf_def)
    have "fst (sweep is q) \<noteq> None" if "d \<in> set is" for "is"
      using that
    proof (induction "is")
      case (Cons k ks)
      let ?s = "shards q ! ((cursor q + k) mod length (shards q))"
      have "shard_wf ?s" using wf queue_wf_index queue_wf_shard by blast
      with Cons d ne show ?case
        by (cases "size_of ?s = 0") (auto simp: Let_def shard_tryDequeue_Some shard_tryDequeue_None)
    qed simp
    then have "fst (tryDequeue q) \<noteq> None" using d(2) by (simp add: tryDequeue_def)
    then show ?thesis by (cases "tryDequeue q") auto
  qed
  then obtain x q' where "sweep [0..<length (shards q)] q = (Some x, q')" by (auto simp: tryDequeue_def)
  from sweep_Some [OF wf this] obtain pre i post where
    split: "[0..<length (shards q)] = pre @ i # post"
    and pre: "\<forall>k\<in>set pre. size_of (shards q ! ((cursor q + k) mod length (shards q))) = 0"
    and hit: "size_of (shards q ! ((cursor q + i) mod length (shards q))) \<noteq> 0"
      "x = hd (shard_list (shards q ! ((cursor q + i) mod length (shards q))))"
      "q' = (set_shard ((cursor q + i) mod length (shards q))
         (drop_head (shards q ! ((cursor q + i) mod length (shards q)))) q)
         \<lparr>cursor := ((cursor q + i) mod length (shards q) + 1) mod length (shards q)\<rparr>"
    by (auto simp: Let_def)
  have "set pre = {0..<i}" and "i < length (shards q)"
    using upt_split_at [OF split] by simp_all
  with pre hit \<open>sweep _ q = _\<close> queue_wf_index [OF wf] show thesis
    by (intro found [OF _ refl]) (auto simp: tryDequeue_def)
qed

lemma tryDequeue_wf:
  assumes wf: "queue_wf q"
  shows "queue_wf (snd (tryDequeue q))"
  using wf
proof (cases rule: tryDequeue_cases)
  case empty
  with wf show ?thesis by simp
next
  case (found d sh)
  have "shard_wf (drop_head (shards q ! sh))"
    using found wf by (intro drop_head_wf queue_wf_shard) auto
  then have "queue_wf (set_shard sh (drop_head (shards q ! sh)) q)"
    using found wf by (intro queue_wf_set_shard) auto
  then show ?thesis using found wf by (auto simp: queue_wf_def)
qed

lemma tryDequeue_residents:
  assumes wf: "queue_wf q" and "tryDequeue q = (Some x, q')"
  shows "residents q = add_mset x (residents q')" and "dropCount q' = dropCount q"
proof -
  have "residents q = add_mset x (residents q') \<and> dropCount q' = dropCount q"
    using wf
  proof (cases rule: tryDequeue_cases)
    case empty
    with assms show ?thesis by simp
  next
    case (found d sh)
    let ?s = "shards q ! sh"
    have swf: "shard_wf ?s" using wf found by (blast intro: queue_wf_shard)
    from found(4) have "shard_list ?s \<noteq> []" by (simp add: shard_list_empty_iff)
    then obtain ys where ys: "shard_list ?s = hd (shard_list ?s) # ys" by (metis list.collapse)
    have "shard_list (drop_head ?s) = ys"
      using drop_head_list [OF swf] found(4) ys by (metis list.sel(3) gr0I)
    then have "residents (set_shard sh (drop_head ?s) q) + mset (shard_list ?s) = residents q + mset ys"
      using residents_set_shard [OF found(5), of "drop_head ?s"] by simp
    then have "residents q = add_mset (hd (shard_list ?s)) (residents (set_shard sh (drop_head ?s) q))"
      by (subst (asm) ys) (simp add: algebra_simps)
    then show ?thesis using assms(2) found(6) by (auto simp: dropCount_set_shard [OF found(5)])
  qed
  then show "residents q = add_mset x (residents q')" and "dropCount q' = dropCount q" by blast+
qed

section \<open>The sweep is fair\<close>

text \<open>
  A run of the consumer against arbitrary interference: between two dequeues the queue may change in any
  way that keeps its shards and cursor and does not empty shard \<open>j\<close> (producers only add, and a head-drop
  keeps the size). \<open>served\<close> records the shards the successive calls took from.
\<close>

definition served_shard :: "'c spanQueue \<Rightarrow> nat option" where
  "served_shard q =
     (case tryDequeue q of (None, _) \<Rightarrow> None
      | (Some _, q') \<Rightarrow> Some ((cursor q' + length (shards q') - 1) mod length (shards q')))"

lemma served_shard_found:
  assumes wf: "queue_wf q" and j: "j < length (shards q)" and ne: "size_of (shards q ! j) \<noteq> 0"
  shows "(\<exists>d \<le> cyc_dist (length (shards q)) (cursor q) j.
            served_shard q = Some ((cursor q + d) mod length (shards q)) \<and>
            cursor (snd (tryDequeue q)) = ((cursor q + d) mod length (shards q) + 1) mod length (shards q))"
  using wf
proof (cases rule: tryDequeue_cases)
  case empty
  with j ne show ?thesis by (simp add: resident_zero_iff)
next
  case (found d sh)
  let ?n = "length (shards q)" and ?d = "cyc_dist (length (shards q)) (cursor q) j"
  have "(cursor q + ?d) mod ?n = j" using wf j by (simp add: cyc_dist_reaches queue_wf_def)
  with found(3) ne have "d \<le> ?d" by (metis not_le)
  moreover have "((sh + 1) mod ?n + ?n - 1) mod ?n = sh"
    using found(5) by (cases "sh + 1 = ?n") auto
  ultimately show ?thesis using found by (auto simp: served_shard_def)
qed

text \<open>The queue at successive dequeues: only the dequeue itself moves the cursor.\<close>

fun consumer_run :: "'c spanQueue list \<Rightarrow> bool" where
  "consumer_run [] = True"
| "consumer_run [q] = True"
| "consumer_run (q # q' # qs) =
     (length (shards q') = length (shards q) \<and> cursor q' = cursor (snd (tryDequeue q)) \<and>
      consumer_run (q' # qs))"

lemma consumer_run_serves:
  assumes "consumer_run (q # qs)" and "\<forall>r\<in>set (q # qs). queue_wf r \<and> size_of (shards r ! j) \<noteq> 0"
    and "j < length (shards q)" and "cyc_dist (length (shards q)) (cursor q) j \<le> length qs"
  shows "\<exists>r\<in>set (q # qs). served_shard r = Some j"
  using assms
proof (induction qs arbitrary: q)
  case Nil
  then obtain d where "d \<le> 0" and "served_shard q = Some ((cursor q + d) mod length (shards q))"
    using served_shard_found [of q j] by auto
  moreover have "(cursor q + 0) mod length (shards q) = j"
    using Nil cyc_dist_reaches [of "cursor q" "length (shards q)" j] by (simp add: queue_wf_def)
  ultimately show ?case by auto
next
  case (Cons q' qs)
  let ?n = "length (shards q)" and ?dist = "cyc_dist (length (shards q)) (cursor q) j"
  have wf: "queue_wf q" and c: "cursor q < ?n" using Cons.prems by (auto simp: queue_wf_def)
  obtain d where d: "d \<le> ?dist" and sv: "served_shard q = Some ((cursor q + d) mod ?n)"
    and cur: "cursor (snd (tryDequeue q)) = ((cursor q + d) mod ?n + 1) mod ?n"
    using served_shard_found [OF wf Cons.prems(3)] Cons.prems(2) by auto
  show ?case
  proof (cases "d = ?dist")
    case True
    with sv have "served_shard q = Some j" using c Cons.prems(3) by (simp add: cyc_dist_reaches)
    then show ?thesis by simp
  next
    case False
    with d have "d < ?dist" by simp
    then have "cyc_dist ?n (cursor q') j < ?dist"
      using cyc_dist_step [OF c Cons.prems(3)] Cons.prems(1) cur by simp
    with Cons.prems have "\<exists>r\<in>set (q' # qs). served_shard r = Some j"
      by (intro Cons.IH) auto
    then show ?thesis by auto
  qed
qed

section \<open>Producers, consumer and close, interleaved\<close>

text \<open>
  The steps are the atomic actions of the source: a critical section under one shard's lock, or one
  operation on \<open>closed\<close>, \<open>saturated\<close>, \<open>wake\<close> or \<open>done\<close>. A producer's program counter says which
  action of \<open>enqueue\<close> comes next, and for which chunk and first shard; the consumer's says how far its
  sweep has come and what a sweep that finds nothing leads to: \<open>dequeue\<close>'s wait, its final return, or
  the return of \<open>collectSpanBatch\<close>'s poll. The ghost fields \<open>taken_in\<close>, \<open>taken_out\<close> and \<open>overwritten\<close> collect the
  chunks accepted, dequeued and head-dropped.
\<close>

datatype 'c producer =
    PIdle
  | PFirst 'c nat
  | PClear
  | PCheckSaturated 'c nat
  | PScan 'c nat nat
  | PSetSaturated 'c nat
  | PForce 'c nat
  | PNotify

datatype sweep_mode = OnWait | OnDone | OnPoll

datatype consumer = CIdle | CSweep sweep_mode nat | CWait | CEnd

record 'c system =
  queue :: "'c spanQueue"
  producers :: "nat \<Rightarrow> 'c producer"
  consumer :: consumer
  taken_in :: "'c multiset"
  taken_out :: "'c multiset"
  overwritten :: "'c multiset"

definition init_system :: "int \<Rightarrow> 'c system" where
  "init_system n = \<lparr>queue = newSpanQueue n, producers = (\<lambda>_. PIdle), consumer = CIdle,
     taken_in = {#}, taken_out = {#}, overwritten = {#}\<rparr>"

abbreviation shard_at :: "'c system \<Rightarrow> nat \<Rightarrow> 'c shard" where
  "shard_at s i \<equiv> shards (queue s) ! i"

abbreviation shard_no :: "'c system \<Rightarrow> nat" where
  "shard_no s \<equiv> length (shards (queue s))"

abbreviation sweep_shard :: "'c system \<Rightarrow> nat \<Rightarrow> nat" where
  "sweep_shard s i \<equiv> (cursor (queue s) + i) mod shard_no s"

inductive queue_step :: "'c system \<Rightarrow> 'c system \<Rightarrow> bool" where
  start: "producers s p = PIdle \<Longrightarrow> \<not> closed (queue s) \<Longrightarrow> f < shard_no s \<Longrightarrow>
    queue_step s (s\<lparr>producers := (producers s)(p := PFirst c f)\<rparr>)"
| first_ok: "producers s p = PFirst c f \<Longrightarrow>
    shard_tryEnqueue c (closed (queue s)) (shard_at s f) = (True, sh) \<Longrightarrow>
    queue_step s (s\<lparr>queue := set_shard f sh (queue s), producers := (producers s)(p := PClear),
                   taken_in := add_mset c (taken_in s)\<rparr>)"
| first_full: "producers s p = PFirst c f \<Longrightarrow>
    shard_tryEnqueue c (closed (queue s)) (shard_at s f) = (False, sh) \<Longrightarrow>
    queue_step s (s\<lparr>producers := (producers s)(p := PCheckSaturated c f)\<rparr>)"
| clear: "producers s p = PClear \<Longrightarrow>
    queue_step s (s\<lparr>queue := (queue s)\<lparr>saturated := False\<rparr>, producers := (producers s)(p := PNotify)\<rparr>)"
| is_saturated: "producers s p = PCheckSaturated c f \<Longrightarrow> saturated (queue s) \<Longrightarrow>
    queue_step s (s\<lparr>producers := (producers s)(p := PForce c f)\<rparr>)"
| not_saturated: "producers s p = PCheckSaturated c f \<Longrightarrow> \<not> saturated (queue s) \<Longrightarrow>
    queue_step s (s\<lparr>producers := (producers s)(p := PScan c f 1)\<rparr>)"
| scan_ok: "producers s p = PScan c f i \<Longrightarrow> i < shard_no s \<Longrightarrow>
    shard_tryEnqueue c (closed (queue s)) (shard_at s ((f + i) mod shard_no s)) = (True, sh) \<Longrightarrow>
    queue_step s (s\<lparr>queue := set_shard ((f + i) mod shard_no s) sh (queue s),
                   producers := (producers s)(p := PNotify), taken_in := add_mset c (taken_in s)\<rparr>)"
| scan_full: "producers s p = PScan c f i \<Longrightarrow> i < shard_no s \<Longrightarrow>
    shard_tryEnqueue c (closed (queue s)) (shard_at s ((f + i) mod shard_no s)) = (False, sh) \<Longrightarrow>
    queue_step s (s\<lparr>producers := (producers s)(p := PScan c f (i + 1))\<rparr>)"
| scan_end: "producers s p = PScan c f i \<Longrightarrow> \<not> i < shard_no s \<Longrightarrow>
    queue_step s (s\<lparr>producers := (producers s)(p := PSetSaturated c f)\<rparr>)"
| set_saturated: "producers s p = PSetSaturated c f \<Longrightarrow>
    queue_step s (s\<lparr>queue := (queue s)\<lparr>saturated := True\<rparr>, producers := (producers s)(p := PForce c f)\<rparr>)"
| force_ok: "producers s p = PForce c f \<Longrightarrow>
    enqueueOrOverwrite c (closed (queue s)) (shard_at s f) = (True, sh) \<Longrightarrow>
    queue_step s (s\<lparr>queue := set_shard f sh (queue s), producers := (producers s)(p := PNotify),
                   taken_in := add_mset c (taken_in s),
                   overwritten := (if size_of (shard_at s f) = length (cells (shard_at s f))
                                   then add_mset (hd (shard_list (shard_at s f))) (overwritten s)
                                   else overwritten s)\<rparr>)"
| force_closed: "producers s p = PForce c f \<Longrightarrow>
    enqueueOrOverwrite c (closed (queue s)) (shard_at s f) = (False, sh) \<Longrightarrow>
    queue_step s (s\<lparr>producers := (producers s)(p := PIdle)\<rparr>)"
| notify_step: "producers s p = PNotify \<Longrightarrow>
    queue_step s (s\<lparr>queue := notify (queue s), producers := (producers s)(p := PIdle)\<rparr>)"
| sweep_start: "consumer s = CIdle \<Longrightarrow> m = OnWait \<or> m = OnPoll \<Longrightarrow>
    queue_step s (s\<lparr>consumer := CSweep m 0\<rparr>)"
| sweep_hit: "consumer s = CSweep m i \<Longrightarrow>
    shard_tryDequeue (shard_at s (sweep_shard s i)) = (Some c, sh) \<Longrightarrow>
    queue_step s (s\<lparr>queue := (set_shard (sweep_shard s i) sh (queue s))
                      \<lparr>cursor := (sweep_shard s i + 1) mod shard_no s\<rparr>,
                   consumer := CIdle, taken_out := add_mset c (taken_out s)\<rparr>)"
| sweep_miss: "consumer s = CSweep m i \<Longrightarrow>
    shard_tryDequeue (shard_at s (sweep_shard s i)) = (None, sh) \<Longrightarrow> i + 1 < shard_no s \<Longrightarrow>
    queue_step s (s\<lparr>consumer := CSweep m (i + 1)\<rparr>)"
| sweep_end: "consumer s = CSweep m i \<Longrightarrow>
    shard_tryDequeue (shard_at s (sweep_shard s i)) = (None, sh) \<Longrightarrow> \<not> i + 1 < shard_no s \<Longrightarrow>
    queue_step s (s\<lparr>consumer := (case m of OnWait \<Rightarrow> CWait | OnDone \<Rightarrow> CEnd | OnPoll \<Rightarrow> CIdle)\<rparr>)"
| wait_wake: "consumer s = CWait \<Longrightarrow> wake (queue s) \<Longrightarrow>
    queue_step s (s\<lparr>queue := (queue s)\<lparr>wake := False\<rparr>, consumer := CSweep OnWait 0\<rparr>)"
| wait_timeout: "consumer s = CWait \<Longrightarrow> queue_step s (s\<lparr>consumer := CIdle\<rparr>)"
| wait_done: "consumer s = CWait \<Longrightarrow> done_ch (queue s) \<Longrightarrow> queue_step s (s\<lparr>consumer := CSweep OnDone 0\<rparr>)"
| close_flag: "\<not> closed (queue s) \<Longrightarrow> queue_step s (s\<lparr>queue := (queue s)\<lparr>closed := True\<rparr>\<rparr>)"
| close_done: "closed (queue s) \<Longrightarrow> \<not> done_ch (queue s) \<Longrightarrow>
    queue_step s (s\<lparr>queue := (queue s)\<lparr>done_ch := True\<rparr>\<rparr>)"

inductive queue_reach :: "int \<Rightarrow> 'c system \<Rightarrow> bool" for n where
  init: "queue_reach n (init_system n)"
| step: "queue_reach n s \<Longrightarrow> queue_step s t \<Longrightarrow> queue_reach n t"

subsection \<open>What a successful critical section did\<close>

lemma shard_tryEnqueue_True:
  assumes "shard_wf s" and "shard_tryEnqueue c cl s = (True, s')"
  shows "\<not> cl" "s' = push c s" "size_of s < length (cells s)" "shard_wf s'"
    "shard_list s' = shard_list s @ [c]" "length (cells s') = length (cells s)" "drops s' = drops s"
    "size_of s' \<noteq> 0"
proof -
  show cl: "\<not> cl" and s': "s' = push c s" and room: "size_of s < length (cells s)"
    using assms shard_wf_bounds [OF assms(1)] by (auto simp: shard_tryEnqueue_def split: if_splits)
  then show "shard_wf s'" "shard_list s' = shard_list s @ [c]" "length (cells s') = length (cells s)"
    "drops s' = drops s" "size_of s' \<noteq> 0"
    using assms(1) by (simp_all add: push_wf push_list)
qed

lemma enqueueOrOverwrite_True:
  assumes wf: "shard_wf s" and "enqueueOrOverwrite c cl s = (True, s')"
  shows "\<not> cl" "s' = snd (enqueueOrOverwrite c False s)" "size_of s' \<noteq> 0"
  using assms by (auto simp: enqueueOrOverwrite_def Let_def split: if_splits)

lemma shard_tryDequeue_pair:
  assumes wf: "shard_wf s" and "shard_tryDequeue s = (Some c, s')"
  shows "shard_list s = c # shard_list s'" "shard_wf s'" "length (cells s') = length (cells s)"
    "drops s' = drops s"
proof -
  have ne: "size_of s \<noteq> 0" and s': "s' = drop_head s"
    using assms by (auto simp: shard_tryDequeue_def split: if_splits)
  have c: "c = hd (shard_list s)" using assms shard_tryDequeue_Some [OF wf ne] by simp
  have "shard_list s \<noteq> []" using ne by (simp add: shard_list_empty_iff)
  then show "shard_list s = c # shard_list s'"
    using ne c s' drop_head_list [OF wf] by simp
  show "shard_wf s'" "length (cells s') = length (cells s)" "drops s' = drops s"
    using wf ne s' by (simp_all add: drop_head_wf)
qed

lemma shard_tryDequeue_miss: "shard_wf s \<Longrightarrow> shard_tryDequeue s = (None, s') \<Longrightarrow> size_of s = 0"
  by (cases "size_of s = 0") (auto simp: shard_tryDequeue_Some)

subsection \<open>The system invariant\<close>

text \<open>
  \<open>producer_first\<close>: the shard a producer works on exists. \<open>accounting\<close>: every accepted chunk is resident, was
  handed to the consumer, or was head-dropped, and the drop counters say how many were. \<open>sweeping\<close>: the
  sweep after \<open>done\<close> saw only empty shards, which stay empty because the queue is closed. \<open>waking\<close>: a
  chunk the consumer has already swept past has left a token, or its producer is about to leave one.
\<close>

fun producer_first :: "nat \<Rightarrow> 'c producer \<Rightarrow> bool" where
  "producer_first n (PFirst c f) = (f < n)"
| "producer_first n (PCheckSaturated c f) = (f < n)"
| "producer_first n (PScan c f i) = (f < n)"
| "producer_first n (PSetSaturated c f) = (f < n)"
| "producer_first n (PForce c f) = (f < n)"
| "producer_first n p = True"

definition shape :: "'c system \<Rightarrow> bool" where
  "shape s \<longleftrightarrow> queue_wf (queue s) \<and> (\<forall>p. producer_first (shard_no s) (producers s p)) \<and>
     (\<forall>m i. consumer s = CSweep m i \<longrightarrow> i < shard_no s) \<and> (done_ch (queue s) \<longrightarrow> closed (queue s))"

definition accounting :: "'c system \<Rightarrow> bool" where
  "accounting s \<longleftrightarrow> taken_in s = residents (queue s) + taken_out s + overwritten s \<and>
     dropCount (queue s) = of_nat (size (overwritten s))"

definition sweeping :: "'c system \<Rightarrow> bool" where
  "sweeping s \<longleftrightarrow>
     (case consumer s of
        CSweep OnDone i \<Rightarrow> closed (queue s) \<and> (\<forall>k < i. size_of (shard_at s (sweep_shard s k)) = 0)
      | CEnd \<Rightarrow> closed (queue s) \<and> resident (queue s) = 0
      | _ \<Rightarrow> True)"

definition token_due :: "'c system \<Rightarrow> bool" where
  "token_due s \<longleftrightarrow> wake (queue s) \<or> (\<exists>p. producers s p = PClear \<or> producers s p = PNotify)"

definition waking :: "'c system \<Rightarrow> bool" where
  "waking s \<longleftrightarrow>
     (case consumer s of
        CSweep OnWait i \<Rightarrow> (\<forall>k < i. size_of (shard_at s (sweep_shard s k)) \<noteq> 0 \<longrightarrow> token_due s)
      | CWait \<Rightarrow> resident (queue s) \<noteq> 0 \<longrightarrow> token_due s
      | _ \<Rightarrow> True)"

lemma shape_index: "shape s \<Longrightarrow> i mod shard_no s < shard_no s"
  unfolding shape_def by (blast intro: queue_wf_index)

lemma shape_shard: "shape s \<Longrightarrow> i < shard_no s \<Longrightarrow> shard_wf (shard_at s i)"
  unfolding shape_def by (blast intro: queue_wf_shard)

lemma shape_first:
  assumes "shape s"
  shows "producers s p = PFirst c f \<Longrightarrow> f < shard_no s" and "producers s p = PForce c f \<Longrightarrow> f < shard_no s"
  using assms unfolding shape_def by (metis producer_first.simps)+

lemma producer_shape: "shape s \<Longrightarrow> producer_first (shard_no s) (producers s p)"
  by (simp add: shape_def)

lemma shape_set_shard:
  assumes "shape s" and "i < shard_no s" and "shard_wf sh" and "length (cells sh) = length (cells (shard_at s i))"
  shows "queue_wf (set_shard i sh (queue s))"
  using assms unfolding shape_def by (blast intro: queue_wf_set_shard)

lemma step_shape:
  assumes "queue_step s t" and sh: "shape s"
  shows "shape t"
  using assms(1)
proof cases
  case (first_ok p c f sh')
  have f: "f < shard_no s" using shape_first(1) [OF sh first_ok(2)] .
  note new = shard_tryEnqueue_True [OF shape_shard [OF sh f] first_ok(3)]
  from shape_set_shard [OF sh f new(4,6)] show ?thesis using sh first_ok by (auto simp: shape_def)
next
  case (scan_ok p c f i sh')
  let ?i = "(f + i) mod shard_no s"
  have i: "?i < shard_no s" using sh by (rule shape_index)
  note new = shard_tryEnqueue_True [OF shape_shard [OF sh i] scan_ok(4)]
  from shape_set_shard [OF sh i new(4,6)] show ?thesis using sh scan_ok by (auto simp: shape_def)
next
  case (force_ok p c f sh')
  have f: "f < shard_no s" using shape_first(2) [OF sh force_ok(2)] .
  note wf = shape_shard [OF sh f]
  have new: "shard_wf sh'" "length (cells sh') = length (cells (shard_at s f))"
    using enqueueOrOverwrite_True(2) [OF wf force_ok(3)] enqueueOrOverwrite_open [OF wf] by simp_all
  from shape_set_shard [OF sh f new] show ?thesis using sh force_ok by (auto simp: shape_def)
next
  case (sweep_hit m i c sh')
  have i: "sweep_shard s i < shard_no s" using sh by (rule shape_index)
  note new = shard_tryDequeue_pair [OF shape_shard [OF sh i] sweep_hit(3)]
  from shape_set_shard [OF sh i new(2,3)] shape_index [OF sh] show ?thesis
    using sh sweep_hit by (auto simp: shape_def queue_wf_def)
next
  case (first_full p)
  with sh producer_shape [OF sh, of p] show ?thesis by (auto simp: shape_def)
next
  case (is_saturated p)
  with sh producer_shape [OF sh, of p] show ?thesis by (auto simp: shape_def)
next
  case (not_saturated p)
  with sh producer_shape [OF sh, of p] show ?thesis by (auto simp: shape_def)
next
  case (scan_full p)
  with sh producer_shape [OF sh, of p] show ?thesis by (auto simp: shape_def)
next
  case (scan_end p)
  with sh producer_shape [OF sh, of p] show ?thesis by (auto simp: shape_def)
next
  case (set_saturated p)
  with sh producer_shape [OF sh, of p] show ?thesis by (auto simp: shape_def)
qed (use sh in \<open>auto simp: shape_def queue_wf_def split: if_splits sweep_mode.splits\<close>)

lemma step_accounting:
  assumes "queue_step s t" and sh: "shape s" and acc: "accounting s"
  shows "accounting t"
  using assms(1)
proof cases
  case (first_ok p c f sh')
  have f: "f < shard_no s" using shape_first(1) [OF sh first_ok(2)] .
  note new = shard_tryEnqueue_True [OF shape_shard [OF sh f] first_ok(3)]
  have "residents (set_shard f sh' (queue s)) = add_mset c (residents (queue s))"
    using residents_set_shard [OF f, of sh'] new(5) by simp
  with acc first_ok new(7) show ?thesis by (simp add: accounting_def dropCount_set_shard [OF f])
next
  case (scan_ok p c f i sh')
  let ?i = "(f + i) mod shard_no s"
  have i: "?i < shard_no s" using sh by (rule shape_index)
  note new = shard_tryEnqueue_True [OF shape_shard [OF sh i] scan_ok(4)]
  have "residents (set_shard ?i sh' (queue s)) = add_mset c (residents (queue s))"
    using residents_set_shard [OF i, of sh'] new(5) by simp
  with acc scan_ok new(7) show ?thesis by (simp add: accounting_def dropCount_set_shard [OF i])
next
  case (force_ok p c f sh')
  have f: "f < shard_no s" using shape_first(2) [OF sh force_ok(2)] .
  note wf = shape_shard [OF sh f]
  let ?s = "shard_at s f"
  note new = enqueueOrOverwrite_open [OF wf, of c, folded enqueueOrOverwrite_True(2) [OF wf force_ok(3)]]
  show ?thesis
  proof (cases "size_of ?s = length (cells ?s)")
    case False
    then have "residents (set_shard f sh' (queue s)) = add_mset c (residents (queue s))"
      using residents_set_shard [OF f, of sh'] new(2) by simp
    with acc force_ok new(4) False show ?thesis by (simp add: accounting_def dropCount_set_shard [OF f])
  next
    case True
    then have "shard_list ?s \<noteq> []" using shard_wf_bounds [OF wf] by (simp add: shard_list_empty_iff)
    then obtain x xs where xs: "shard_list ?s = x # xs" by (cases "shard_list ?s") auto
    have "residents (set_shard f sh' (queue s)) + {#x#} = add_mset c (residents (queue s))"
      using residents_set_shard [OF f, of sh'] new(2) True xs by (simp add: algebra_simps)
    with acc force_ok new(4) True xs show ?thesis
      by (simp add: accounting_def dropCount_set_shard [OF f] algebra_simps)
  qed
next
  case (sweep_hit m i c sh')
  have i: "sweep_shard s i < shard_no s" using sh by (rule shape_index)
  note new = shard_tryDequeue_pair [OF shape_shard [OF sh i] sweep_hit(3)]
  have "residents (queue s) = add_mset c (residents (set_shard (sweep_shard s i) sh' (queue s)))"
    using residents_set_shard [OF i, of sh'] new(1) by (simp add: algebra_simps)
  with acc sweep_hit new(4) show ?thesis by (simp add: accounting_def dropCount_set_shard [OF i])
qed (use acc in \<open>auto simp: accounting_def\<close>)

text \<open>Once every offset has been swept empty, nothing is resident.\<close>

lemma swept_all:
  assumes wf: "queue_wf q" and n: "n = length (shards q)"
    and "\<forall>k < n. size_of (shards q ! ((cursor q + k) mod n)) = 0"
  shows "resident q = 0"
  unfolding resident_zero_iff
proof (intro allI impI)
  fix j assume j: "j < length (shards q)"
  let ?d = "cyc_dist n (cursor q) j"
  have "(cursor q + ?d) mod n = j" "?d < n"
    using wf j by (simp_all add: n cyc_dist_reaches cyc_dist_less queue_wf_def)
  with assms(3) show "size_of (shards q ! j) = 0" by metis
qed

lemma resident_flags [simp]:
  "resident (q\<lparr>wake := w\<rparr>) = resident q" "resident (q\<lparr>saturated := b\<rparr>) = resident q"
  "resident (q\<lparr>closed := b\<rparr>) = resident q" "resident (q\<lparr>done_ch := b\<rparr>) = resident q"
  "resident (notify q) = resident q"
  by (simp_all add: resident_def notify_def)

lemma sweeping_open:
  "\<not> closed (queue s) \<Longrightarrow> sweeping s \<longleftrightarrow> consumer s \<noteq> CEnd \<and> (\<forall>i. consumer s \<noteq> CSweep OnDone i)"
  by (auto simp: sweeping_def split: consumer.splits sweep_mode.splits)

lemma step_sweeping:
  assumes "queue_step s t" and sh: "shape s" and sw: "sweeping s"
  shows "sweeping t"
  using assms(1)
proof cases
  case (first_ok p c f sh')
  have "\<not> closed (queue s)"
    by (rule shard_tryEnqueue_True(1) [OF shape_shard [OF sh shape_first(1) [OF sh first_ok(2)]] first_ok(3)])
  with first_ok(1) sw show ?thesis by (simp add: sweeping_open)
next
  case (scan_ok p c f i sh')
  have "\<not> closed (queue s)"
    by (rule shard_tryEnqueue_True(1) [OF shape_shard [OF sh shape_index [OF sh]] scan_ok(4)])
  with scan_ok(1) sw show ?thesis by (simp add: sweeping_open)
next
  case (force_ok p c f sh')
  have "\<not> closed (queue s)"
    by (rule enqueueOrOverwrite_True(1) [OF shape_shard [OF sh shape_first(2) [OF sh force_ok(2)]] force_ok(3)])
  with force_ok(1) sw show ?thesis by (simp add: sweeping_open)
next
  case (sweep_miss m i sh')
  have "size_of (shard_at s (sweep_shard s i)) = 0"
    using shard_tryDequeue_miss [OF shape_shard [OF sh shape_index [OF sh]] sweep_miss(3)] .
  with sweep_miss(1,2) sw show ?thesis
    by (cases m) (simp_all add: sweeping_def less_Suc_eq)
next
  case (sweep_end m i sh')
  have 0: "size_of (shard_at s (sweep_shard s i)) = 0"
    using shard_tryDequeue_miss [OF shape_shard [OF sh shape_index [OF sh]] sweep_end(3)] .
  have i: "Suc i = shard_no s" using sh sweep_end by (auto simp: shape_def)
  show ?thesis
  proof (cases m)
    case OnDone
    with sweep_end(2) sw have "closed (queue s)" and "\<forall>k < i. size_of (shard_at s (sweep_shard s k)) = 0"
      by (simp_all add: sweeping_def)
    with 0 have "\<forall>k < Suc i. size_of (shard_at s (sweep_shard s k)) = 0" by (simp add: less_Suc_eq)
    then have "resident (queue s) = 0"
      unfolding i using sh by (intro swept_all) (simp_all add: shape_def)
    with OnDone sweep_end(1) \<open>closed (queue s)\<close> show ?thesis by (simp add: sweeping_def)
  qed (use sweep_end(1) in \<open>simp_all add: sweeping_def\<close>)
qed (use sh sw in \<open>auto simp: sweeping_def shape_def split: consumer.splits sweep_mode.splits\<close>)

lemma waking_due: "token_due s \<Longrightarrow> waking s"
  by (simp add: waking_def split: consumer.splits sweep_mode.splits)

lemma token_due_producer:
  "producers s p \<noteq> PClear \<Longrightarrow> producers s p \<noteq> PNotify \<Longrightarrow> token_due s \<Longrightarrow>
   token_due (s\<lparr>producers := (producers s)(p := x)\<rparr>)"
  by (auto simp: token_due_def)

lemma waking_producer:
  assumes "waking s" and "producers s p \<noteq> PClear" and "producers s p \<noteq> PNotify"
  shows "waking (s\<lparr>producers := (producers s)(p := x)\<rparr>)"
  using assms token_due_producer [OF assms(2,3)]
  by (auto simp: waking_def split: consumer.splits sweep_mode.splits)

lemma step_waking:
  assumes "queue_step s t" and sh: "shape s" and wk: "waking s"
  shows "waking t"
  using assms(1)
proof cases
  case (set_saturated p c f)
  let ?s = "s\<lparr>queue := (queue s)\<lparr>saturated := True\<rparr>\<rparr>"
  have "waking ?s" using wk
    by (auto simp: waking_def token_due_def split: consumer.splits sweep_mode.splits)
  from waking_producer [OF this, of p "PForce c f"] set_saturated show ?thesis by simp
next
  case (sweep_miss m i sh')
  have "size_of (shard_at s (sweep_shard s i)) = 0"
    using shard_tryDequeue_miss [OF shape_shard [OF sh shape_index [OF sh]] sweep_miss(3)] .
  with sweep_miss(1,2) wk show ?thesis
    by (cases m) (auto simp: waking_def token_due_def less_Suc_eq)
next
  case (sweep_end m i sh')
  have 0: "size_of (shard_at s (sweep_shard s i)) = 0"
    using shard_tryDequeue_miss [OF shape_shard [OF sh shape_index [OF sh]] sweep_end(3)] .
  have i: "Suc i = shard_no s" using sh sweep_end by (auto simp: shape_def)
  show ?thesis
  proof (cases m)
    case OnWait
    have "token_due s" if "resident (queue s) \<noteq> 0"
    proof (rule ccontr)
      assume no: "\<not> token_due s"
      with OnWait sweep_end(2) wk have "\<forall>k < i. size_of (shard_at s (sweep_shard s k)) = 0"
        by (simp add: waking_def)
      with 0 have "\<forall>k < Suc i. size_of (shard_at s (sweep_shard s k)) = 0" by (simp add: less_Suc_eq)
      then have "resident (queue s) = 0"
        unfolding i using sh by (intro swept_all) (simp_all add: shape_def)
      with that show False by simp
    qed
    with OnWait sweep_end(1) show ?thesis by (simp add: waking_def token_due_def)
  qed (use sweep_end(1) in \<open>simp_all add: waking_def\<close>)
next
  case (close_flag)
  with wk show ?thesis by (auto simp: waking_def token_due_def split: consumer.splits sweep_mode.splits)
next
  case (close_done)
  with wk show ?thesis by (auto simp: waking_def token_due_def split: consumer.splits sweep_mode.splits)
next
  case (first_ok p c f sh')
  then show ?thesis by (intro waking_due) (auto simp: token_due_def)
next
  case (clear p)
  then show ?thesis by (intro waking_due) (auto simp: token_due_def)
next
  case (scan_ok p c f i sh')
  then show ?thesis by (intro waking_due) (auto simp: token_due_def)
next
  case (force_ok p c f sh')
  then show ?thesis by (intro waking_due) (auto simp: token_due_def)
next
  case (notify_step p)
  then show ?thesis by (intro waking_due) (auto simp: token_due_def)
next
  case (sweep_start m)
  then show ?thesis by (auto simp: waking_def)
qed (use wk in \<open>simp_all add: waking_producer\<close>, simp_all add: waking_def)

subsection \<open>Reachable states\<close>

definition system_inv :: "'c system \<Rightarrow> bool" where
  "system_inv s \<longleftrightarrow> shape s \<and> accounting s \<and> sweeping s \<and> waking s"

lemma residents_new: "residents (newSpanQueue n) = {#}" and dropCount_new: "dropCount (newSpanQueue n) = 0"
proof -
  have "resident (newSpanQueue n) = 0"
    by (simp add: resident_zero_iff newSpanQueue_eq new_shard_def)
  then show "residents (newSpanQueue n) = {#}" by (simp flip: size_residents)
  show "dropCount (newSpanQueue n) = 0"
    by (simp add: dropCount_def newSpanQueue_eq new_shard_def comp_def)
qed

lemma reach_inv: "queue_reach n s \<Longrightarrow> system_inv s"
proof (induction rule: queue_reach.induct)
  case init
  show ?case
    using newSpanQueue_wf [of n]
    by (simp add: system_inv_def shape_def accounting_def sweeping_def waking_def init_system_def
        residents_new dropCount_new) (simp add: newSpanQueue_eq)
next
  case (step s t)
  then show ?case
    unfolding system_inv_def by (blast intro: step_shape step_accounting step_sweeping step_waking)
qed

lemma step_closed:
  assumes "queue_step s t" and sh: "shape s" and cl: "closed (queue s)"
  shows "closed (queue t)" and "taken_in t = taken_in s" and "consumer s = CEnd \<Longrightarrow> consumer t = CEnd"
proof -
  have "closed (queue t) \<and> taken_in t = taken_in s \<and> (consumer s = CEnd \<longrightarrow> consumer t = CEnd)"
    using assms(1)
  proof cases
    case (first_ok p c f sh')
    from shard_tryEnqueue_True(1) [OF shape_shard [OF sh shape_first(1) [OF sh first_ok(2)]] first_ok(3)] cl
    show ?thesis by simp
  next
    case (scan_ok p c f i sh')
    from shard_tryEnqueue_True(1) [OF shape_shard [OF sh shape_index [OF sh]] scan_ok(4)] cl
    show ?thesis by simp
  next
    case (force_ok p c f sh')
    from enqueueOrOverwrite_True(1) [OF shape_shard [OF sh shape_first(2) [OF sh force_ok(2)]] force_ok(3)] cl
    show ?thesis by simp
  qed (use cl in auto)
  then show "closed (queue t)" and "taken_in t = taken_in s" and "consumer s = CEnd \<Longrightarrow> consumer t = CEnd"
    by blast+
qed

lemma reach_steps: "queue_step\<^sup>*\<^sup>* s t \<Longrightarrow> queue_reach n s \<Longrightarrow> queue_reach n t"
  by (induction rule: rtranclp_induct) (auto intro: queue_reach.step)

lemma steps_after_end:
  assumes "queue_step\<^sup>*\<^sup>* s t" and "queue_reach n s" and "consumer s = CEnd"
  shows "consumer t = CEnd \<and> taken_in t = taken_in s"
  using assms
proof (induction rule: rtranclp_induct)
  case base
  then show ?case by simp
next
  case (step t u)
  then have "shape t" and "sweeping t"
    using reach_inv [OF reach_steps] by (auto simp: system_inv_def)
  moreover have "consumer t = CEnd" and eq: "taken_in t = taken_in s" using step by simp_all
  ultimately have "closed (queue t)" by (simp add: sweeping_def)
  from step_closed(2,3) [OF step(2) \<open>shape t\<close> this] \<open>consumer t = CEnd\<close> eq show ?case by simp
qed

lemma capacity_reach: "queue_reach n s \<Longrightarrow> capacity (queue s) = nat (max n 1)"
proof (induction rule: queue_reach.induct)
  case init
  show ?case by (simp add: init_system_def newSpanQueue_eq)
next
  case (step s t)
  from step(2,3) show ?case by cases auto
qed

section \<open>Properties\<close>

text \<open>
  (C2) No accepted chunk is stranded by \<open>close\<close>: once the consumer's \<open>dequeue\<close> has reported the end, in
  whatever way producers, consumer and \<open>close\<close> interleaved, every chunk any \<open>enqueue\<close> ever accepted was
  delivered or head-dropped, nothing is resident, and no later step accepts another chunk.
\<close>

theorem queue_end_is_drained:
  assumes "queue_reach n s" and "consumer s = CEnd" and "queue_step\<^sup>*\<^sup>* s t"
  shows "residents (queue t) = {#} \<and> taken_in t = taken_out t + overwritten t \<and> taken_in t = taken_in s"
proof -
  have inv: "system_inv t" using reach_inv [OF reach_steps [OF assms(3,1)]] .
  have "consumer t = CEnd" and "taken_in t = taken_in s"
    using steps_after_end [OF assms(3,1,2)] by simp_all
  moreover from this inv have "residents (queue t) = {#}"
    by (simp add: system_inv_def sweeping_def flip: size_residents)
  ultimately show ?thesis using inv by (simp add: system_inv_def accounting_def)
qed

lemma closed_run_ends: "\<exists>s :: nat system. queue_reach 1 s \<and> consumer s = CEnd"
proof -
  define q :: "nat spanQueue" where "q = newSpanQueue 1"
  have q: "shards q = [new_shard 1]" "cursor q = 0" "\<not> closed q" "\<not> done_ch q"
    by (simp_all add: q_def newSpanQueue_eq shard_count_def shard_share_def)
  let ?s = "init_system 1 :: nat system"
  have s: "queue ?s = q" "consumer ?s = CIdle" by (simp_all add: init_system_def q_def)
  let ?s1 = "?s\<lparr>consumer := CSweep OnWait 0\<rparr>"
  have "queue_reach 1 ?s1" by (rule queue_reach.step [OF queue_reach.init queue_step.sweep_start]) (simp_all add: s)
  then have r2: "queue_reach 1 (?s1\<lparr>consumer := CWait\<rparr>)"
    using queue_reach.step queue_step.sweep_end [of ?s1 OnWait 0 "new_shard 1"]
    by (simp add: s q shard_tryDequeue_def new_shard_def)
  let ?s2 = "?s1\<lparr>consumer := CWait\<rparr>"
  have r3: "queue_reach 1 (?s2\<lparr>queue := q\<lparr>closed := True\<rparr>\<rparr>)"
    using queue_reach.step [OF r2 queue_step.close_flag] by (simp add: s q)
  let ?s3 = "?s2\<lparr>queue := q\<lparr>closed := True\<rparr>\<rparr>"
  have r4: "queue_reach 1 (?s3\<lparr>queue := q\<lparr>closed := True, done_ch := True\<rparr>\<rparr>)"
    using queue_reach.step [OF r3 queue_step.close_done] by (simp add: s q)
  let ?s4 = "?s3\<lparr>queue := q\<lparr>closed := True, done_ch := True\<rparr>\<rparr>"
  have r5: "queue_reach 1 (?s4\<lparr>consumer := CSweep OnDone 0\<rparr>)"
    using queue_reach.step [OF r4 queue_step.wait_done] by simp
  let ?s5 = "?s4\<lparr>consumer := CSweep OnDone 0\<rparr>"
  have "queue_reach 1 (?s5\<lparr>consumer := CEnd\<rparr>)"
    using queue_reach.step [OF r5] queue_step.sweep_end [of ?s5 OnDone 0 "new_shard 1"]
    by (simp add: s q shard_tryDequeue_def new_shard_def)
  then show ?thesis by (intro exI [of _ "?s5\<lparr>consumer := CEnd\<rparr>"]) simp
qed

theorem queue_end_is_drained_witness:
  "\<exists>s :: nat system. queue_reach 1 s \<and> consumer s = CEnd \<and> residents (queue s) = {#}"
  using closed_run_ends queue_end_is_drained [of 1 _ _] by blast

text \<open>
  (C33) No wake-up is lost: whenever the consumer is blocked in \<open>dequeue\<close> while a chunk is resident, the wake
  token is set or a producer that has pushed is about to set it.
\<close>

theorem queue_no_lost_wakeup:
  assumes "queue_reach n s" and "consumer s = CWait" and "resident (queue s) \<noteq> 0"
  shows "wake (queue s) \<or> (\<exists>p. producers s p = PClear \<or> producers s p = PNotify)"
  using reach_inv [OF assms(1)] assms(2,3) by (simp add: system_inv_def waking_def token_due_def)

lemma blocked_run_with_chunk:
  "\<exists>s :: nat system. queue_reach 1 s \<and> consumer s = CWait \<and> resident (queue s) \<noteq> 0"
proof -
  define q :: "nat spanQueue" where "q = newSpanQueue 1"
  have q: "shards q = [new_shard 1]" "cursor q = 0" "\<not> closed q"
    by (simp_all add: q_def newSpanQueue_eq shard_count_def shard_share_def)
  let ?s = "init_system 1 :: nat system"
  have s: "queue ?s = q" "consumer ?s = CIdle" "producers ?s p = PIdle" for p
    by (simp_all add: init_system_def q_def)
  let ?s1 = "?s\<lparr>consumer := CSweep OnWait 0\<rparr>"
  have "queue_reach 1 ?s1" by (rule queue_reach.step [OF queue_reach.init queue_step.sweep_start]) (simp_all add: s)
  then have r2: "queue_reach 1 (?s1\<lparr>consumer := CWait\<rparr>)"
    using queue_reach.step queue_step.sweep_end [of ?s1 OnWait 0 "new_shard 1"]
    by (simp add: s q shard_tryDequeue_def new_shard_def)
  let ?s2 = "?s1\<lparr>consumer := CWait\<rparr>"
  have r3: "queue_reach 1 (?s2\<lparr>producers := (producers ?s2)(0 := PFirst 5 0)\<rparr>)"
    using queue_reach.step [OF r2 queue_step.start [of ?s2 0 0 5]] by (simp add: s q)
  let ?s3 = "?s2\<lparr>producers := (producers ?s2)(0 := PFirst 5 0)\<rparr>"
  have r4: "queue_reach 1 (?s3\<lparr>queue := set_shard 0 (push 5 (new_shard 1)) q,
      producers := (producers ?s3)(0 := PClear), taken_in := add_mset 5 (taken_in ?s3)\<rparr>)"
    using queue_reach.step [OF r3 queue_step.first_ok [of ?s3 0 5 0 "push 5 (new_shard 1)"]]
    by (simp add: s q shard_tryEnqueue_def new_shard_def)
  show ?thesis
    by (rule exI, rule conjI [OF r4]) (simp add: resident_def q)
qed

theorem queue_no_lost_wakeup_witness:
  "\<exists>s :: nat system. resident (queue s) \<noteq> 0 \<and> consumer s = CWait \<and>
     (wake (queue s) \<or> (\<exists>p. producers s p = PClear \<or> producers s p = PNotify))"
  using blocked_run_with_chunk queue_no_lost_wakeup by blast

text \<open>
  Drops are accounted for exactly: in every reachable state each accepted chunk is resident,
  delivered or overwritten, \<open>dropCount\<close> is the number of overwritten ones, and the number of resident
  chunks never exceeds the configured capacity.
\<close>

theorem queue_accounts_for_every_chunk:
  assumes "queue_reach n s"
  shows "taken_in s = residents (queue s) + taken_out s + overwritten s \<and>
    dropCount (queue s) = of_nat (size (overwritten s)) \<and> size (residents (queue s)) \<le> nat (max n 1)"
  using reach_inv [OF assms] capacity_reach [OF assms] resident_le_capacity [of "queue s"]
  by (simp add: system_inv_def shape_def accounting_def size_residents)

theorem queue_accounts_for_every_chunk_witness:
  "taken_in (init_system 64 :: nat system) = residents (queue (init_system 64))
     + taken_out (init_system 64) + overwritten (init_system 64)"
  using queue_accounts_for_every_chunk [OF queue_reach.init, where 'a = nat and n = 64] by blast

text \<open>
  Head-drop policy of \<open>enqueue\<close> on an open queue: it always accepts; it drops at most one chunk, the
  oldest of the first-choice shard, counts it, and does so only if that shard is full and either the
  saturation hint was set or every shard was full.
\<close>

theorem enqueue_head_drop:
  assumes "queue_wf q" and "\<not> closed q" and "first < length (shards q)"
  shows "\<exists>q' lost. enqueue first c q = (True, q') \<and> residents q' + lost = add_mset c (residents q) \<and>
    dropCount q' = dropCount q + of_nat (size lost) \<and>
    (lost = {#} \<or> size_of (shards q ! first) = length (cells (shards q ! first)) \<and>
       lost = {#hd (shard_list (shards q ! first))#} \<and> (saturated q \<or> resident q = capacity q))"
proof -
  obtain q' where q': "enqueue first c q = (True, q')"
    using enqueue_open(1) [OF assms, of c] by (cases "enqueue first c q") auto
  from enqueue_open(4) [OF assms, of c] show ?thesis unfolding q' by auto
qed

theorem enqueue_head_drop_witness:
  "\<exists>q' lost. enqueue 0 (7::nat) (newSpanQueue 2) = (True, q') \<and>
     residents q' + lost = add_mset 7 (residents (newSpanQueue 2))"
  using enqueue_head_drop [OF newSpanQueue_wf [of 2], of 0 7]
  by (auto simp: newSpanQueue_eq shard_count_bounds)

text \<open>
  A shard refines the bounded FIFO: over any sequence of \<open>tryEnqueue\<close>, \<open>enqueueOrOverwrite\<close> and
  \<open>tryDequeue\<close> on an open shard, what is accepted, delivered and dropped, and what stays, is what the
  list machine of the same capacity gives.
\<close>

theorem ring_refines_fifo:
  assumes "0 < n"
  shows "fst (ring.run (new_shard n) ops) = fst (fifo_run n [] ops) \<and>
    shard_list (snd (ring.run (new_shard n) ops)) = snd (fifo_run n [] ops)"
  using ring.run_refines [OF new_shard_wf [OF assms], of ops] by (simp add: new_shard_def shard_list_def)

theorem ring_refines_fifo_witness:
  "shard_list (snd (ring.run (new_shard 2) [Offer (1::nat), Force 2, Force 3, Poll])) = [3]"
  using ring_refines_fifo [of 2 "[Offer (1::nat), Force 2, Force 3, Poll]"] by simp

text \<open>
  The round-robin sweep starves no shard: if a shard holds a chunk at each of as many successive
  dequeues as there are shards, whatever producers do in between, one of them takes from it.
\<close>

theorem tryDequeue_fair:
  assumes "consumer_run qs" and "qs \<noteq> []" and "length qs = length (shards (hd qs))"
    and "\<forall>q\<in>set qs. queue_wf q \<and> size_of (shards q ! j) \<noteq> 0" and "j < length (shards (hd qs))"
  shows "\<exists>q\<in>set qs. served_shard q = Some j"
proof -
  obtain q rest where qs: "qs = q # rest" using assms(2) by (cases qs) auto
  then have "cyc_dist (length (shards q)) (cursor q) j < length (shards q)"
    using assms(5) by (intro cyc_dist_less) simp
  then have "cyc_dist (length (shards q)) (cursor q) j \<le> length rest" using assms(3) qs by simp
  then show ?thesis using consumer_run_serves [of q rest j] assms qs by simp
qed

theorem tryDequeue_fair_witness:
  "served_shard (snd (enqueue 0 (5::nat) (newSpanQueue 1))) = Some 0"
  using tryDequeue_fair [of "[snd (enqueue 0 (5::nat) (newSpanQueue 1))]" 0]
    enqueue_open(2) [OF newSpanQueue_wf [of 1], of 0 5]
  by (simp add: newSpanQueue_eq shard_count_def shard_share_def enqueue_def shard_tryEnqueue_def
      new_shard_def push_def Let_def)

end
