(* ===== verification/Throttle.thy ===== *)
theory Throttle
  imports Pinpoint_Prelude
begin

text \<open>
  Bounded queues that drop their head, and rate-limited warnings (\<^verbatim>\<open>src/throttle.go\<close>). Go's \<open>select\<close> with a default is
  one attempt on a bounded channel, modelled as a list. Each atomic access is one step, so any number of goroutines
  interleave; the sequential functions the code reads as come first.
\<close>

section \<open>Head-drop enqueue\<close>

definition try_send :: "nat \<Rightarrow> 'a \<Rightarrow> 'a list \<Rightarrow> bool \<times> 'a list" where
  "try_send n v ch = (if length ch < n then (True, ch @ [v]) else (False, ch))"

definition try_recv :: "'a list \<Rightarrow> 'a option \<times> 'a list" where
  "try_recv ch = (case ch of [] \<Rightarrow> (None, []) | x # xs \<Rightarrow> (Some x, xs))"

definition headDropEnqueue :: "nat \<Rightarrow> 'a \<Rightarrow> 'a list \<Rightarrow> (bool \<times> nat) \<times> 'a list" where
  "headDropEnqueue n v ch =
     (case try_send n v ch of
        (True, ch) \<Rightarrow> ((True, 0), ch)
      | (False, ch) \<Rightarrow>
          (let (old, ch) = try_recv ch; dropped = (case old of Some _ \<Rightarrow> 1 | None \<Rightarrow> 0)
           in case try_send n v ch of
                (True, ch) \<Rightarrow> ((True, dropped), ch)
              | (False, ch) \<Rightarrow> ((False, dropped + 1), ch)))"

text \<open>A producer between its three attempts; \<open>Record\<close> holds the number it still has to add to the drop counter.\<close>

datatype 'a producer = Ready | Evict 'a | Retry 'a nat | Record nat

record 'a drop_queue =
  chan :: "'a list"
  producers :: "'a producer list"
  dropped :: nat
  offered :: "'a multiset"
  received :: "'a multiset"
  lost :: "'a multiset"

inductive drop_step :: "nat \<Rightarrow> 'a drop_queue \<Rightarrow> 'a drop_queue \<Rightarrow> bool" for n :: nat where
  send_ok:
    "i < length (producers s) \<Longrightarrow> producers s ! i = Ready \<Longrightarrow> try_send n v (chan s) = (True, ch) \<Longrightarrow>
     drop_step n s (s\<lparr>chan := ch, offered := add_mset v (offered s)\<rparr>)"
| send_full:
    "i < length (producers s) \<Longrightarrow> producers s ! i = Ready \<Longrightarrow> try_send n v (chan s) = (False, ch) \<Longrightarrow>
     drop_step n s (s\<lparr>producers := (producers s)[i := Evict v], offered := add_mset v (offered s)\<rparr>)"
| evict_one:
    "i < length (producers s) \<Longrightarrow> producers s ! i = Evict v \<Longrightarrow> try_recv (chan s) = (Some x, ch) \<Longrightarrow>
     drop_step n s (s\<lparr>chan := ch, producers := (producers s)[i := Retry v 1], lost := add_mset x (lost s)\<rparr>)"
| evict_none:
    "i < length (producers s) \<Longrightarrow> producers s ! i = Evict v \<Longrightarrow> try_recv (chan s) = (None, ch) \<Longrightarrow>
     drop_step n s (s\<lparr>producers := (producers s)[i := Retry v 0]\<rparr>)"
| retry_ok:
    "i < length (producers s) \<Longrightarrow> producers s ! i = Retry v d \<Longrightarrow> try_send n v (chan s) = (True, ch) \<Longrightarrow>
     drop_step n s (s\<lparr>chan := ch, producers := (producers s)[i := Record d]\<rparr>)"
| retry_full:
    "i < length (producers s) \<Longrightarrow> producers s ! i = Retry v d \<Longrightarrow> try_send n v (chan s) = (False, ch) \<Longrightarrow>
     drop_step n s (s\<lparr>producers := (producers s)[i := Record (d + 1)], lost := add_mset v (lost s)\<rparr>)"
| record_drops:
    "i < length (producers s) \<Longrightarrow> producers s ! i = Record d \<Longrightarrow>
     drop_step n s (s\<lparr>producers := (producers s)[i := Ready], dropped := dropped s + d\<rparr>)"
| consume:
    "try_recv (chan s) = (Some x, ch) \<Longrightarrow> drop_step n s (s\<lparr>chan := ch, received := add_mset x (received s)\<rparr>)"

fun in_hand :: "'a producer \<Rightarrow> 'a multiset" where
  "in_hand (Evict v) = {#v#}"
| "in_hand (Retry v d) = {#v#}"
| "in_hand _ = {#}"

fun unrecorded :: "'a producer \<Rightarrow> nat" where
  "unrecorded (Retry v d) = d"
| "unrecorded (Record d) = d"
| "unrecorded _ = 0"

definition drop_inv :: "nat \<Rightarrow> 'a drop_queue \<Rightarrow> bool" where
  "drop_inv n s \<longleftrightarrow>
     length (chan s) \<le> n
     \<and> offered s = mset (chan s) + received s + lost s + sum_list (map in_hand (producers s))
     \<and> size (lost s) = dropped s + sum_list (map unrecorded (producers s))"

definition init_drop_queue :: "nat \<Rightarrow> 'a drop_queue" where
  "init_drop_queue k =
     \<lparr>chan = [], producers = replicate k Ready, dropped = 0, offered = {#}, received = {#}, lost = {#}\<rparr>"

lemma init_drop_inv: "drop_inv n (init_drop_queue k :: 'a drop_queue)"
proof -
  have "sum_list (replicate k ({#} :: 'a multiset)) = {#}" by (induction k) auto
  then show ?thesis by (simp add: drop_inv_def init_drop_queue_def sum_list_replicate)
qed

lemma drop_step_inv:
  assumes "drop_step n s s'" "drop_inv n s"
  shows "drop_inv n s'"
  using assms
proof (cases rule: drop_step.cases)
  case (send_ok i v ch)
  with assms(2) show ?thesis by (auto simp: drop_inv_def try_send_def split: if_splits)
next
  case (send_full i v ch)
  with assms(2) sum_list_map_update_add [OF send_full(2), of in_hand "Evict v"]
    sum_list_map_update_add [OF send_full(2), of unrecorded "Evict v"]
  show ?thesis by (simp add: drop_inv_def)
next
  case (evict_one i v x ch)
  with assms(2) sum_list_map_update_add [OF evict_one(2), of in_hand "Retry v 1"]
    sum_list_map_update_add [OF evict_one(2), of unrecorded "Retry v 1"]
  show ?thesis by (cases "chan s") (simp_all add: drop_inv_def try_recv_def)
next
  case (evict_none i v ch)
  with assms(2) sum_list_map_update_add [OF evict_none(2), of in_hand "Retry v 0"]
    sum_list_map_update_add [OF evict_none(2), of unrecorded "Retry v 0"]
  show ?thesis by (simp add: drop_inv_def)
next
  case (retry_ok i v d ch)
  with assms(2) sum_list_map_update_add [OF retry_ok(2), of in_hand "Record d"]
    sum_list_map_update_add [OF retry_ok(2), of unrecorded "Record d"]
  show ?thesis by (auto simp: drop_inv_def try_send_def ac_simps split: if_splits)
next
  case (retry_full i v d ch)
  with assms(2) sum_list_map_update_add [OF retry_full(2), of in_hand "Record (d + 1)"]
    sum_list_map_update_add [OF retry_full(2), of unrecorded "Record (d + 1)"]
  show ?thesis by (simp add: drop_inv_def ac_simps)
next
  case (record_drops i d)
  with assms(2) sum_list_map_update_add [OF record_drops(2), of in_hand Ready]
    sum_list_map_update_add [OF record_drops(2), of unrecorded Ready]
  show ?thesis by (simp add: drop_inv_def)
next
  case (consume x ch)
  with assms(2) show ?thesis by (cases "chan s") (auto simp: drop_inv_def try_recv_def)
qed

lemma drop_reach_inv: "(drop_step n)\<^sup>*\<^sup>* (init_drop_queue k) s \<Longrightarrow> drop_inv n s"
  by (induction rule: rtranclp_induct) (auto intro: init_drop_inv drop_step_inv)

section \<open>The drop report\<close>

definition dropReportInterval :: duration where "dropReportInterval = 60000000000"

record dropReporter =
  dr_dropped :: int
  dr_reported :: int
  reportAt :: time

definition dropReporter_record :: "int \<Rightarrow> dropReporter \<Rightarrow> dropReporter" where
  "dropReporter_record n r = r\<lparr>dr_dropped := dr_dropped r + n\<rparr>"

text \<open>\<open>acquire\<close> without a competing caller: the answer \<open>(held, ok)\<close> and the reporter after it.\<close>

definition dropReporter_acquire :: "time \<Rightarrow> int \<Rightarrow> dropReporter \<Rightarrow> (duration \<times> bool) \<times> dropReporter" where
  "dropReporter_acquire now tot r =
     (if tot = dr_reported r then ((0, False), r)
      else if now < reportAt r then ((reportAt r - now, False), r)
      else ((0, True), r\<lparr>reportAt := now + dropReportInterval, dr_reported := tot\<rparr>))"

text \<open>\<open>report\<close>: the total logged, if any, and how long the limit holds it back.\<close>

definition dropReporter_report :: "time \<Rightarrow> dropReporter \<Rightarrow> (int option \<times> duration) \<times> dropReporter" where
  "dropReporter_report now r =
     (let tot = dr_dropped r; ((waiting, ok), r) = dropReporter_acquire now tot r
      in if \<not> ok then ((None, waiting), r) else ((Some tot, 0), r))"

section \<open>The log throttle\<close>

record logThrottle =
  th_next :: time
  suppressed :: nat

definition logThrottle_acquire :: "time \<Rightarrow> logThrottle \<Rightarrow> nat option \<times> logThrottle" where
  "logThrottle_acquire now t =
     (if now < th_next t then (None, t\<lparr>suppressed := suppressed t + 1\<rparr>)
      else (Some (suppressed t), t\<lparr>th_next := now + dropReportInterval, suppressed := 0\<rparr>))"

text \<open>
  Callers racing for one throttle: \<open>Loaded\<close> has read the clock and the deadline, \<open>Won\<close> has swapped the deadline and not
  yet taken the count. \<open>wins\<close> lists the clocks of the successful swaps, \<open>held\<close> the counts logged, \<open>refused\<close> the number
  of calls turned away. No assumption relates the clocks the callers read.
\<close>

datatype caller = Idle | Loaded time time | Won time

record throttle_run =
  site :: logThrottle
  threads :: "caller list"
  wins :: "time list"
  held :: "nat list"
  refused :: nat

inductive throttle_step :: "throttle_run \<Rightarrow> throttle_run \<Rightarrow> bool" where
  load:
    "i < length (threads s) \<Longrightarrow> threads s ! i = Idle \<Longrightarrow>
     throttle_step s (s\<lparr>threads := (threads s)[i := Loaded now (th_next (site s))]\<rparr>)"
| refuse:
    "i < length (threads s) \<Longrightarrow> threads s ! i = Loaded now nxt \<Longrightarrow> now < nxt \<or> th_next (site s) \<noteq> nxt \<Longrightarrow>
     throttle_step s (s\<lparr>threads := (threads s)[i := Idle], refused := refused s + 1,
       site := (site s)\<lparr>suppressed := suppressed (site s) + 1\<rparr>\<rparr>)"
| win:
    "i < length (threads s) \<Longrightarrow> threads s ! i = Loaded now nxt \<Longrightarrow> \<not> now < nxt \<Longrightarrow> th_next (site s) = nxt \<Longrightarrow>
     throttle_step s (s\<lparr>threads := (threads s)[i := Won now], wins := wins s @ [now],
       site := (site s)\<lparr>th_next := now + dropReportInterval\<rparr>\<rparr>)"
| swap:
    "i < length (threads s) \<Longrightarrow> threads s ! i = Won now \<Longrightarrow>
     throttle_step s (s\<lparr>threads := (threads s)[i := Idle], held := held s @ [suppressed (site s)],
       site := (site s)\<lparr>suppressed := 0\<rparr>\<rparr>)"

inductive_cases throttle_stepE: "throttle_step s s'"

definition init_throttle :: "nat \<Rightarrow> throttle_run" where
  "init_throttle k =
     \<lparr>site = \<lparr>th_next = 0, suppressed = 0\<rparr>, threads = replicate k Idle, wins = [], held = [], refused = 0\<rparr>"

definition spaced :: "time list \<Rightarrow> bool" where
  "spaced ts \<longleftrightarrow> sorted_wrt (\<lambda>a b. a + dropReportInterval \<le> b) ts"

definition throttle_inv :: "throttle_run \<Rightarrow> bool" where
  "throttle_inv s \<longleftrightarrow>
     spaced (wins s) \<and> (\<forall>w \<in> set (wins s). w + dropReportInterval \<le> th_next (site s))
     \<and> refused s = sum_list (held s) + suppressed (site s)"

lemma throttle_step_inv: "throttle_step s s' \<Longrightarrow> throttle_inv s \<Longrightarrow> throttle_inv s'"
  by (elim throttle_stepE)
    (force simp: throttle_inv_def spaced_def sorted_wrt_append dropReportInterval_def)+

lemma throttle_reach_inv: "throttle_step\<^sup>*\<^sup>* (init_throttle k) s \<Longrightarrow> throttle_inv s"
proof (induction rule: rtranclp_induct)
  case base
  then show ?case by (simp add: throttle_inv_def spaced_def init_throttle_def)
qed (rule throttle_step_inv)

section \<open>Properties\<close>

text \<open>
  A head-drop queue loses nothing in silence: with any number of producers racing each other and the consumer,
  once no producer is inside \<open>headDropEnqueue\<close> every record offered is in the channel, was received, or is one of the
  records the drop counter counts, and the channel never exceeds its capacity.
\<close>

theorem head_drop_accounts:
  fixes s :: "'a drop_queue"
  assumes "(drop_step n)\<^sup>*\<^sup>* (init_drop_queue k) s" "\<forall>p \<in> set (producers s). p = Ready"
  shows "offered s = mset (chan s) + received s + lost s \<and> size (lost s) = dropped s \<and> length (chan s) \<le> n"
proof -
  have "sum_list (map in_hand ps) = {#} \<and> sum_list (map unrecorded ps) = 0" if "\<forall>p \<in> set ps. p = Ready"
    for ps :: "'a producer list"
    using that by (induction ps) auto
  with assms(2) have "sum_list (map in_hand (producers s)) = {#}" "sum_list (map unrecorded (producers s)) = 0"
    by blast+
  with drop_reach_inv [OF assms(1)] show ?thesis by (simp add: drop_inv_def)
qed

theorem head_drop_accounts_witness:
  "\<exists>s. (drop_step 1)\<^sup>*\<^sup>* (init_drop_queue 1) s \<and> offered s = {#5::nat#} \<and> offered s = mset (chan s) + received s + lost s"
proof -
  let ?s = "(init_drop_queue 1 :: nat drop_queue)\<lparr>chan := [5], offered := {#5#}\<rparr>"
  have "drop_step 1 (init_drop_queue 1) ((init_drop_queue 1)\<lparr>chan := [5], offered := add_mset (5::nat) (offered (init_drop_queue 1))\<rparr>)"
    by (rule send_ok [of 0]) (simp_all add: init_drop_queue_def try_send_def)
  then have reach: "(drop_step 1)\<^sup>*\<^sup>* (init_drop_queue 1) ?s" by (simp add: init_drop_queue_def r_into_rtranclp)
  moreover have "\<forall>p \<in> set (producers ?s). p = Ready" by (simp add: init_drop_queue_def)
  ultimately show ?thesis using head_drop_accounts [OF reach] by (intro exI [of _ ?s]) (simp add: init_drop_queue_def)
qed

text \<open>
  A throttled log site writes at most one line per interval and accounts for the rest: with any number of goroutines
  racing for it and whatever their clocks say, the winning calls are at least the interval apart, and the calls
  refused are exactly those the logged lines report as suppressed plus those still waiting to be reported.
\<close>

theorem log_throttle_spacing:
  assumes "throttle_step\<^sup>*\<^sup>* (init_throttle k) s"
  shows "sorted_wrt (\<lambda>a b. a + dropReportInterval \<le> b) (wins s) \<and> refused s = sum_list (held s) + suppressed (site s)"
  using throttle_reach_inv [OF assms] by (simp add: throttle_inv_def spaced_def)

theorem log_throttle_spacing_witness:
  "\<exists>s. throttle_step\<^sup>*\<^sup>* (init_throttle 1) s \<and> wins s = [5] \<and> refused s = sum_list (held s) + suppressed (site s)"
proof -
  let ?a = "(init_throttle 1)\<lparr>threads := [Loaded 5 0]\<rparr>"
  let ?b = "?a\<lparr>threads := [Won 5], wins := [5], site := \<lparr>th_next = 5 + dropReportInterval, suppressed = 0\<rparr>\<rparr>"
  have a: "throttle_step (init_throttle 1) ?a"
    using load [of 0 "init_throttle 1" 5] by (simp add: init_throttle_def)
  have b: "throttle_step ?a ?b"
    using win [of 0 ?a 5 0] by (simp add: init_throttle_def)
  from a b have reach: "throttle_step\<^sup>*\<^sup>* (init_throttle 1) ?b" by (meson r_into_rtranclp rtranclp_trans)
  then show ?thesis using log_throttle_spacing [OF reach] by (intro exI [of _ ?b]) (simp add: init_throttle_def)
qed

end
