(* ===== verification/Span_Sender.thy ===== *)
theory Span_Sender
  imports Span_Message Span_Queue Throttle
begin

text \<open>
  The span batch sender (\<^verbatim>\<open>src/grpc_span.go\<close>, \<^verbatim>\<open>sendSpanBatchWorker\<close> of \<^verbatim>\<open>src/agent.go\<close>, the call options of
  \<^verbatim>\<open>src/gzip_compressor.go\<close>): how a batch that is too large for one request is split, and the pipeline from the span queue over the
  worker and its bounded number of concurrent requests to the collector, as the step relation \<open>send_step\<close>. The sizes that
  protobuf computes are parameters: \<open>framed\<close> is \<^verbatim>\<open>protowire.SizeTag(1) + protowire.SizeBytes(proto.Size(m))\<close> and \<open>protoSize\<close> is
  \<^verbatim>\<open>proto.Size\<close> of a whole batch, which by the protobuf encoding of a repeated field is the sum of the framed sizes. Shown: every span
  the queue accepted is delivered, counted as dropped, or still under way, and no request exceeds the limit of the connection.
\<close>

section \<open>Splitting a batch: splitSpanMessages\<close>

definition slice :: "'a list \<Rightarrow> nat \<Rightarrow> nat \<Rightarrow> 'a list" where
  "slice xs i j = drop i (take j xs)"

record 'm split_state =
  batches :: "'m list list"
  split_start :: nat
  split_size :: int
  split_drops :: dropReporter

definition split_step :: "('m \<Rightarrow> int) \<Rightarrow> int \<Rightarrow> 'm list \<Rightarrow> nat \<Rightarrow> 'm split_state \<Rightarrow> 'm split_state" where
  "split_step framed maxSize msgs i st =
     (let n = framed (msgs ! i) in
      if n > maxSize then
        st\<lparr>batches := (if i > split_start st then batches st @ [slice msgs (split_start st) i] else batches st),
           split_start := i + 1, split_size := 0, split_drops := dropReporter_record 1 (split_drops st)\<rparr>
      else
        let st = (if split_size st + n > maxSize
                  then st\<lparr>batches := batches st @ [slice msgs (split_start st) i], split_start := i, split_size := 0\<rparr> else st)
        in st\<lparr>split_size := split_size st + n\<rparr>)"

definition splitSpanMessages :: "('m \<Rightarrow> int) \<Rightarrow> 'm list \<Rightarrow> int \<Rightarrow> dropReporter \<Rightarrow> 'm list list \<times> dropReporter" where
  "splitSpanMessages framed msgs maxSize counter =
     (let st = fold (split_step framed maxSize msgs) [0..<length msgs]
                 \<lparr>batches = [], split_start = 0, split_size = 0, split_drops = counter\<rparr>
      in (if split_start st < length msgs then batches st @ [drop (split_start st) msgs] else batches st, split_drops st))"

text \<open>After \<open>i\<close> messages: the finished batches and the open one hold the messages that fit, each within the limit.\<close>

definition split_inv :: "('m \<Rightarrow> int) \<Rightarrow> int \<Rightarrow> 'm list \<Rightarrow> dropReporter \<Rightarrow> nat \<Rightarrow> 'm split_state \<Rightarrow> bool" where
  "split_inv framed maxSize msgs counter i st \<longleftrightarrow>
     split_start st \<le> i \<and>
     concat (batches st) @ slice msgs (split_start st) i = filter (\<lambda>m. framed m \<le> maxSize) (take i msgs) \<and>
     split_size st = sum_list (map framed (slice msgs (split_start st) i)) \<and>
     (split_start st < i \<longrightarrow> split_size st \<le> maxSize) \<and>
     list_all (\<lambda>b. b \<noteq> [] \<and> sum_list (map framed b) \<le> maxSize) (batches st) \<and>
     split_drops st = dropReporter_record (int (length (filter (\<lambda>m. framed m > maxSize) (take i msgs)))) counter"

lemma slice_same [simp]: "slice xs i i = []"
  by (simp add: slice_def)

lemma slice_Suc: "i \<le> j \<Longrightarrow> j < length xs \<Longrightarrow> slice xs i (Suc j) = slice xs i j @ [xs ! j]"
  by (simp add: slice_def take_Suc_conv_app_nth)

lemma slice_empty_iff: "j \<le> length xs \<Longrightarrow> slice xs i j = [] \<longleftrightarrow> j \<le> i"
  by (auto simp: slice_def)

lemma record_record [simp]: "dropReporter_record m (dropReporter_record n r) = dropReporter_record (m + n) r"
  by (simp add: dropReporter_record_def)

lemma split_step_inv:
  assumes inv: "split_inv framed maxSize msgs counter i st" and i: "i < length msgs"
  shows "split_inv framed maxSize msgs counter (Suc i) (split_step framed maxSize msgs i st)"
proof -
  let ?m = "msgs ! i"
  have next_take: "take (Suc i) msgs = take i msgs @ [?m]" using i by (rule take_Suc_conv_app_nth)
  have start: "split_start st \<le> i" using inv by (simp add: split_inv_def)
  have empty: "slice msgs (split_start st) i = [] \<longleftrightarrow> split_start st = i" using start i slice_empty_iff [of i msgs] by auto
  consider (drop) "framed ?m > maxSize" | (flush) "framed ?m \<le> maxSize" "split_size st + framed ?m > maxSize"
    | (keep) "framed ?m \<le> maxSize" "split_size st + framed ?m \<le> maxSize" by linarith
  then show ?thesis
  proof cases
    case drop
    then show ?thesis using inv start empty
      by (cases "split_start st = i") (auto simp: split_inv_def split_step_def next_take)
  next
    case flush
    then have "split_start st \<noteq> i" using inv by (auto simp: split_inv_def)
    then show ?thesis using flush inv start empty i
      by (auto simp: split_inv_def split_step_def next_take slice_Suc)
  next
    case keep
    then show ?thesis using inv start i by (auto simp: split_inv_def split_step_def next_take slice_Suc)
  qed
qed

lemma split_fold_inv:
  assumes "j \<le> length msgs"
  shows "split_inv framed maxSize msgs counter j (fold (split_step framed maxSize msgs) [0..<j]
    \<lparr>batches = [], split_start = 0, split_size = 0, split_drops = counter\<rparr>)"
  using assms by (induction j) (simp_all add: split_step_inv, simp add: split_inv_def dropReporter_record_def)

lemma split_batches:
  assumes "splitSpanMessages framed msgs maxSize counter = (bs, counter')"
  shows "concat bs = filter (\<lambda>m. framed m \<le> maxSize) msgs"
    and "list_all (\<lambda>b. b \<noteq> [] \<and> sum_list (map framed b) \<le> maxSize) bs"
    and "counter' = dropReporter_record (int (length (filter (\<lambda>m. framed m > maxSize) msgs))) counter"
proof -
  define st where "st = fold (split_step framed maxSize msgs) [0..<length msgs]
    \<lparr>batches = [], split_start = 0, split_size = 0, split_drops = counter\<rparr>"
  have inv: "split_inv framed maxSize msgs counter (length msgs) st"
    unfolding st_def by (rule split_fold_inv) simp
  have eqs: "bs = (if split_start st < length msgs then batches st @ [drop (split_start st) msgs] else batches st)" "counter' = split_drops st"
    using assms by (auto simp: splitSpanMessages_def Let_def st_def [symmetric])
  show "concat bs = filter (\<lambda>m. framed m \<le> maxSize) msgs"
    using inv by (auto simp: eqs split_inv_def slice_def)
  show "list_all (\<lambda>b. b \<noteq> [] \<and> sum_list (map framed b) \<le> maxSize) bs"
    using inv by (auto simp: eqs split_inv_def slice_def)
  show "counter' = dropReporter_record (int (length (filter (\<lambda>m. framed m > maxSize) msgs))) counter"
    using inv by (simp add: eqs split_inv_def)
qed

section \<open>Requests\<close>

text \<open>The options of a call: the connection's own gzip writers compress unless the call says identity.\<close>

datatype callOption = UseGzip | UseIdentity

definition compressCallOptions :: "bool \<Rightarrow> bool \<Rightarrow> callOption list" where
  "compressCallOptions gzipConn gzip_on =
     (if gzipConn \<and> \<not> gzip_on then [UseIdentity] else if \<not> gzipConn \<and> gzip_on then [UseGzip] else [])"

definition Unimplemented :: nat where "Unimplemented = 12"

definition disableGzipIfRejected :: "nat \<Rightarrow> string \<Rightarrow> bool \<Rightarrow> bool" where
  "disableGzipIfRejected code msg gzip_on =
     (if code \<noteq> Unimplemented \<or> Index (ToLower msg) ''decompressor'' = None then gzip_on else False)"

text \<open>What \<^verbatim>\<open>handleSpanBatchResponse\<close> logs of an answer; nothing else follows from it.\<close>

record PSpanPartialSuccess =
  rejectedSpans :: int
  errorId :: go_int64
  errorMessage :: string

datatype batch_log = NoLine | PartialSuccess int go_int64 string | CollectorNotice go_int64 string

definition handleSpanBatchResponse :: "PSpanPartialSuccess option option \<Rightarrow> batch_log" where
  "handleSpanBatchResponse response =
     (case response of
        Some (Some p) \<Rightarrow>
          if rejectedSpans p > 0 then PartialSuccess (rejectedSpans p) (errorId p) (errorMessage p)
          else if errorMessage p \<noteq> [] then CollectorNotice (errorId p) (errorMessage p) else NoLine
      | _ \<Rightarrow> NoLine)"

fun describeSpanMessage :: "PSpanMessage \<Rightarrow> string" where
  "describeSpanMessage (MessageSpan p) = TransactionId_String (ps_transactionId p) @ '' span '' @ FormatInt (sint (ps_spanId p))"
| "describeSpanMessage (MessageSpanChunk p) = TransactionId_String (pk_transactionId p) @ '' span '' @ FormatInt (sint (pk_spanId p))"

record spanGrpc =
  batchSize :: nat
  batchCollectDeadline :: duration
  maxSendMsgSize :: int
  maxConcurrentRequests :: nat
  gzipConn :: bool

definition maxSpanBatchPollInterval :: duration where "maxSpanBatchPollInterval = 5000000"

definition spanBatchPollInterval :: "duration \<Rightarrow> duration" where
  "spanBatchPollInterval collectDeadline =
     (let d = collectDeadline div 10 in if d > 0 \<and> d < maxSpanBatchPollInterval then d else maxSpanBatchPollInterval)"

section \<open>One asynchronous send\<close>

text \<open>
  The goroutine \<^verbatim>\<open>sendSpanBatchAsync\<close> starts: it builds the messages, sends one request after the other, and releases its permit. A
  panic anywhere is recovered and ends it the same way. \<open>net\<close> is what the sends share: the drop counter, the compression
  switch, and, for the statements only, the requests made and what became of the messages.
\<close>

type_synonym 'e queued = "root \<times> 'e span \<times> spanChunk"

datatype 'e send = SBuild "'e queued list" | SSend "PSpanMessage list list" | SRelease | SDone

record net =
  spanDrops :: dropReporter
  gzip_on :: bool
  requests :: "(callOption list \<times> PSpanMessage list) list"
  delivered :: "PSpanMessage multiset"
  given_up :: "PSpanMessage multiset"
  panicked :: "PSpanMessage multiset"

definition plan_requests :: "(PSpanMessage \<Rightarrow> int) \<Rightarrow> (PSpanMessage list \<Rightarrow> int) \<Rightarrow> spanGrpc \<Rightarrow> PSpanMessage list \<Rightarrow> dropReporter
    \<Rightarrow> PSpanMessage list list \<times> dropReporter" where
  "plan_requests framed protoSize g msgs counter =
     (if msgs = [] then ([], counter)
      else if protoSize msgs \<le> maxSendMsgSize g then ([msgs], counter)
      else splitSpanMessages framed msgs (maxSendMsgSize g) counter)"

definition sent_request :: "spanGrpc \<Rightarrow> PSpanMessage list \<Rightarrow> net \<Rightarrow> net" where
  "sent_request g b n = n\<lparr>requests := requests n @ [(compressCallOptions (gzipConn g) (gzip_on n), b)]\<rparr>"

inductive task_step :: "(PSpanMessage \<Rightarrow> int) \<Rightarrow> (PSpanMessage list \<Rightarrow> int) \<Rightarrow> spanGrpc \<Rightarrow> go_int32
    \<Rightarrow> 'e send \<times> net \<Rightarrow> 'e send \<times> net \<Rightarrow> bool" for framed protoSize g appType where
  build: "msgs = makePSpanMessageBatch appType (map Some cs) \<Longrightarrow> plan_requests framed protoSize g msgs (spanDrops n) = (bs, counter) \<Longrightarrow>
    task_step framed protoSize g appType (SBuild cs, n)
      (SSend bs, n\<lparr>spanDrops := counter, given_up := given_up n + (mset msgs - mset (concat bs))\<rparr>)"
| send_ok: "task_step framed protoSize g appType (SSend (b # bs), n)
      (SSend bs, (sent_request g b n)\<lparr>delivered := delivered n + mset b\<rparr>)"
| send_failed: "task_step framed protoSize g appType (SSend (b # bs), n)
      (SSend bs, (sent_request g b n)\<lparr>gzip_on := disableGzipIfRejected code msg (gzip_on n),
         spanDrops := dropReporter_record (int (length b)) (spanDrops n), given_up := given_up n + mset b\<rparr>)"
| all_sent: "task_step framed protoSize g appType (SSend [], n) (SRelease, n)"
| build_panic: "task_step framed protoSize g appType (SBuild cs, n)
      (SRelease, n\<lparr>panicked := panicked n + mset (makePSpanMessageBatch appType (map Some cs))\<rparr>)"
| send_panic: "task_step framed protoSize g appType (SSend bs, n) (SRelease, n\<lparr>panicked := panicked n + mset (concat bs)\<rparr>)"

fun live :: "'e send \<Rightarrow> bool" where
  "live SDone = False"
| "live _ = True"

fun task_messages :: "go_int32 \<Rightarrow> 'e send \<Rightarrow> PSpanMessage multiset" where
  "task_messages appType (SBuild cs) = mset (makePSpanMessageBatch appType (map Some cs))"
| "task_messages appType (SSend bs) = mset (concat bs)"
| "task_messages appType _ = {#}"

definition outcome :: "net \<Rightarrow> PSpanMessage multiset" where
  "outcome n = delivered n + given_up n + panicked n"

fun task_fits :: "(PSpanMessage \<Rightarrow> int) \<Rightarrow> spanGrpc \<Rightarrow> 'e send \<Rightarrow> bool" where
  "task_fits framed g (SSend bs) = list_all (\<lambda>b. b \<noteq> [] \<and> sum_list (map framed b) \<le> maxSendMsgSize g) bs"
| "task_fits framed g _ = True"

definition requests_fit :: "(PSpanMessage \<Rightarrow> int) \<Rightarrow> spanGrpc \<Rightarrow> net \<Rightarrow> bool" where
  "requests_fit framed g n \<longleftrightarrow> list_all (\<lambda>(_, b). b \<noteq> [] \<and> sum_list (map framed b) \<le> maxSendMsgSize g) (requests n)"

lemma batch_messages: "makePSpanMessageBatch appType (map Some cs) = map (\<lambda>(r, sp, ch). makePSpanMessage appType r sp ch) cs"
  by (induction cs) (auto simp: makePSpanMessageBatch_def)

lemma mset_filter_split: "mset xs = mset (filter P xs) + mset (filter (\<lambda>x. \<not> P x) xs)"
  by (induction xs) auto

lemma plan_accounts:
  assumes "plan_requests framed protoSize g msgs counter = (bs, counter')"
  shows "\<exists>out. mset msgs = mset (concat bs) + out \<and> counter' = dropReporter_record (int (size out)) counter"
proof (cases "splitSpanMessages framed msgs (maxSendMsgSize g) counter = (bs, counter')")
  case True
  let ?fit = "\<lambda>m. framed m \<le> maxSendMsgSize g"
  show ?thesis
    using split_batches(1,3) [OF True] mset_filter_split [of msgs ?fit]
    by (intro exI [of _ "mset (filter (\<lambda>m. \<not> ?fit m) msgs)"]) (simp only: size_mset not_le)
next
  case False
  with assms show ?thesis by (auto simp: plan_requests_def dropReporter_record_def split: if_splits)
qed

lemma plan_fits:
  assumes "\<And>ms. protoSize ms = sum_list (map framed ms)" "plan_requests framed protoSize g msgs counter = (bs, counter')"
  shows "list_all (\<lambda>b. b \<noteq> [] \<and> sum_list (map framed b) \<le> maxSendMsgSize g) bs"
  using assms split_batches(2) [of framed msgs "maxSendMsgSize g" counter bs counter'] by (auto simp: plan_requests_def split: if_splits)

lemma task_step_accounts:
  assumes "task_step framed protoSize g appType (t, n) (t', n')"
  shows "task_messages appType t' + outcome n' = task_messages appType t + outcome n \<and>
    dr_dropped (spanDrops n') + int (size (given_up n)) = dr_dropped (spanDrops n) + int (size (given_up n')) \<and> live t \<and> live t'"
  using assms
proof (cases rule: task_step.cases)
  case (build msgs cs bs counter)
  from plan_accounts [OF build(5)] obtain out where "mset msgs = mset (concat bs) + out"
    "counter = dropReporter_record (int (size out)) (spanDrops n)" by blast
  with build show ?thesis by (simp add: outcome_def dropReporter_record_def)
qed (simp_all add: outcome_def sent_request_def dropReporter_record_def)

lemma task_step_fits:
  assumes "\<And>ms. protoSize ms = sum_list (map framed ms)"
    and "task_step framed protoSize g appType (t, n) (t', n')" "task_fits framed g t" "requests_fit framed g n"
  shows "task_fits framed g t' \<and> requests_fit framed g n'"
  using assms(2-) by (cases rule: task_step.cases) (auto simp: requests_fit_def sent_request_def dest: plan_fits [OF assms(1)])

section \<open>The drop report\<close>

text \<open>The line logged, if any, as the two causes of loss, and how long the rate limit holds the report back.\<close>

definition reportSpanDrops :: "time \<Rightarrow> 'c spanQueue \<Rightarrow> dropReporter \<Rightarrow> ((int \<times> int) option \<times> duration) \<times> dropReporter" where
  "reportSpanDrops now q r =
     (let overflow = sint (dropCount q); sender = dr_dropped r;
          ((wait, ok), r) = dropReporter_acquire now (overflow + sender) r
      in if \<not> ok then ((None, wait), r) else ((Some (overflow, sender), 0), r))"

lemma report_keeps_count [simp]: "dr_dropped (snd (reportSpanDrops now q r)) = dr_dropped r"
  by (simp add: reportSpanDrops_def dropReporter_acquire_def Let_def)

section \<open>The pipeline\<close>

text \<open>
  \<^verbatim>\<open>sendSpanBatchWorker\<close> with its program counter, the producers that enqueue and close the queue at any moment, and the sends
  it has started. A call of the queue is one step here; the interleavings inside these calls are those of \<open>queue_step\<close>.
  \<^item> \<open>WReport\<close>, \<open>WDequeue\<close>: the report and the blocking \<^verbatim>\<open>dequeue\<close> at the head of the loop;
  \<^item> \<open>WCollect\<close>, \<open>WSelect\<close>, \<open>WDrain\<close>: the loop of \<^verbatim>\<open>collectSpanBatch\<close>, its \<^verbatim>\<open>select\<close>, and its drain after the close;
  \<^item> \<open>WAcquire\<close>, \<open>WWait\<close>: \<^verbatim>\<open>acquireSpanBatchPermit\<close>, with whether the batch is the last;
  \<^item> \<open>WAwait\<close>, \<open>WEnd\<close>: the wait for the sends in flight, which gives up after the shutdown timeout, and the end.
\<close>

datatype 'e worker =
    WReport
  | WDequeue
  | WCollect "'e queued list"
  | WSelect "'e queued list"
  | WDrain "'e queued list"
  | WAcquire "'e queued list" bool
  | WWait "'e queued list" bool
  | WAwait
  | WEnd

record 'e pipeline =
  pl_queue :: "'e queued spanQueue"
  worker :: "'e worker"
  sends :: "'e send list"
  permits :: nat
  net :: net
  admitted :: "'e queued multiset"
  pushed_out :: "'e queued multiset"

definition after_send :: "bool \<Rightarrow> 'e worker" where
  "after_send isClosed = (if isClosed then WAwait else WReport)"

definition start_send :: "'e queued list \<Rightarrow> bool \<Rightarrow> 'e pipeline \<Rightarrow> 'e pipeline" where
  "start_send b isClosed s = s\<lparr>permits := permits s + 1, sends := sends s @ [SBuild b], worker := after_send isClosed\<rparr>"

definition skip_send :: "go_int32 \<Rightarrow> 'e queued list \<Rightarrow> bool \<Rightarrow> 'e pipeline \<Rightarrow> 'e pipeline" where
  "skip_send appType b isClosed s =
     s\<lparr>net := (net s)\<lparr>spanDrops := dropReporter_record (int (length b)) (spanDrops (net s)),
         given_up := given_up (net s) + mset (makePSpanMessageBatch appType (map Some b))\<rparr>,
       worker := after_send isClosed\<rparr>"

inductive send_step :: "(PSpanMessage \<Rightarrow> int) \<Rightarrow> (PSpanMessage list \<Rightarrow> int) \<Rightarrow> spanGrpc \<Rightarrow> go_int32
    \<Rightarrow> 'e pipeline \<Rightarrow> 'e pipeline \<Rightarrow> bool" for framed protoSize g appType where
  produce: "first < length (shards (pl_queue s)) \<Longrightarrow> enqueue first c (pl_queue s) = (True, q) \<Longrightarrow>
    send_step framed protoSize g appType s (s\<lparr>pl_queue := q, admitted := add_mset c (admitted s),
      pushed_out := pushed_out s + (add_mset c (residents (pl_queue s)) - residents q)\<rparr>)"
| closing: "send_step framed protoSize g appType s (s\<lparr>pl_queue := close (pl_queue s)\<rparr>)"
| report: "worker s = WReport \<Longrightarrow>
    send_step framed protoSize g appType s
      (s\<lparr>net := (net s)\<lparr>spanDrops := snd (reportSpanDrops now (pl_queue s) (spanDrops (net s)))\<rparr>, worker := WDequeue\<rparr>)"
| dequeued: "worker s = WDequeue \<Longrightarrow> tryDequeue (pl_queue s) = (Some c, q) \<Longrightarrow>
    send_step framed protoSize g appType s (s\<lparr>pl_queue := q, worker := WCollect [c]\<rparr>)"
| dequeue_timeout: "worker s = WDequeue \<Longrightarrow> send_step framed protoSize g appType s (s\<lparr>worker := WReport\<rparr>)"
| dequeue_end: "worker s = WDequeue \<Longrightarrow> done_ch (pl_queue s) \<Longrightarrow> tryDequeue (pl_queue s) = (None, q) \<Longrightarrow>
    send_step framed protoSize g appType s (s\<lparr>pl_queue := q, worker := WAwait\<rparr>)"
| collect: "worker s = WCollect b \<Longrightarrow> length b < batchSize g \<Longrightarrow> tryDequeue (pl_queue s) = (Some c, q) \<Longrightarrow>
    send_step framed protoSize g appType s (s\<lparr>pl_queue := q, worker := WCollect (b @ [c])\<rparr>)"
| collect_dry: "worker s = WCollect b \<Longrightarrow> length b < batchSize g \<Longrightarrow> tryDequeue (pl_queue s) = (None, q) \<Longrightarrow>
    send_step framed protoSize g appType s (s\<lparr>pl_queue := q, worker := WSelect b\<rparr>)"
| collect_full: "worker s = WCollect b \<Longrightarrow> \<not> length b < batchSize g \<Longrightarrow>
    send_step framed protoSize g appType s (s\<lparr>worker := WAcquire b False\<rparr>)"
| select_poll: "worker s = WSelect b \<Longrightarrow> send_step framed protoSize g appType s (s\<lparr>worker := WCollect b\<rparr>)"
| select_done: "worker s = WSelect b \<Longrightarrow> done_ch (pl_queue s) \<Longrightarrow>
    send_step framed protoSize g appType s (s\<lparr>worker := WDrain b\<rparr>)"
| select_timer: "worker s = WSelect b \<Longrightarrow> send_step framed protoSize g appType s (s\<lparr>worker := WAcquire b False\<rparr>)"
| drain: "worker s = WDrain b \<Longrightarrow> length b < batchSize g \<Longrightarrow> tryDequeue (pl_queue s) = (Some c, q) \<Longrightarrow>
    send_step framed protoSize g appType s (s\<lparr>pl_queue := q, worker := WDrain (b @ [c])\<rparr>)"
| drain_dry: "worker s = WDrain b \<Longrightarrow> length b < batchSize g \<Longrightarrow> tryDequeue (pl_queue s) = (None, q) \<Longrightarrow>
    send_step framed protoSize g appType s (s\<lparr>pl_queue := q, worker := WAcquire b True\<rparr>)"
| drain_full: "worker s = WDrain b \<Longrightarrow> \<not> length b < batchSize g \<Longrightarrow>
    send_step framed protoSize g appType s (s\<lparr>worker := WAcquire b False\<rparr>)"
| acquire: "worker s = WAcquire b isClosed \<Longrightarrow> permits s < maxConcurrentRequests g \<Longrightarrow>
    send_step framed protoSize g appType s (start_send b isClosed s)"
| acquire_wait: "worker s = WAcquire b isClosed \<Longrightarrow> \<not> permits s < maxConcurrentRequests g \<Longrightarrow>
    send_step framed protoSize g appType s (s\<lparr>worker := WWait b isClosed\<rparr>)"
| wait_acquire: "worker s = WWait b isClosed \<Longrightarrow> permits s < maxConcurrentRequests g \<Longrightarrow>
    send_step framed protoSize g appType s (start_send b isClosed s)"
| wait_timeout: "worker s = WWait b isClosed \<Longrightarrow> send_step framed protoSize g appType s (skip_send appType b isClosed s)"
| task: "i < length (sends s) \<Longrightarrow> task_step framed protoSize g appType (sends s ! i, net s) (t, n) \<Longrightarrow>
    send_step framed protoSize g appType s (s\<lparr>sends := (sends s)[i := t], net := n\<rparr>)"
| release: "i < length (sends s) \<Longrightarrow> sends s ! i = SRelease \<Longrightarrow> permits s > 0 \<Longrightarrow>
    send_step framed protoSize g appType s (s\<lparr>sends := (sends s)[i := SDone], permits := permits s - 1\<rparr>)"
| awaited: "worker s = WAwait \<Longrightarrow> 0 \<le> now \<Longrightarrow>
    send_step framed protoSize g appType s
      (s\<lparr>net := (net s)\<lparr>spanDrops := snd (reportSpanDrops now (pl_queue s) ((spanDrops (net s))\<lparr>reportAt := 0\<rparr>))\<rparr>, worker := WEnd\<rparr>)"

definition init_net :: "spanGrpc \<Rightarrow> net" where
  "init_net g = \<lparr>spanDrops = \<lparr>dr_dropped = 0, dr_reported = 0, reportAt = 0\<rparr>, gzip_on = gzipConn g,
     requests = [], delivered = {#}, given_up = {#}, panicked = {#}\<rparr>"

definition init_pipeline :: "spanGrpc \<Rightarrow> int \<Rightarrow> 'e pipeline" where
  "init_pipeline g n = \<lparr>pl_queue = newSpanQueue n, worker = WReport, sends = [], permits = 0, net = init_net g,
     admitted = {#}, pushed_out = {#}\<rparr>"

inductive send_reach :: "(PSpanMessage \<Rightarrow> int) \<Rightarrow> (PSpanMessage list \<Rightarrow> int) \<Rightarrow> spanGrpc \<Rightarrow> go_int32 \<Rightarrow> int \<Rightarrow> 'e pipeline \<Rightarrow> bool"
  for framed protoSize g appType n where
  init: "send_reach framed protoSize g appType n (init_pipeline g n)"
| step: "send_reach framed protoSize g appType n s \<Longrightarrow> send_step framed protoSize g appType s t \<Longrightarrow>
    send_reach framed protoSize g appType n t"

section \<open>Its invariant\<close>

fun in_worker :: "'e worker \<Rightarrow> 'e queued list" where
  "in_worker (WCollect b) = b"
| "in_worker (WSelect b) = b"
| "in_worker (WDrain b) = b"
| "in_worker (WAcquire b _) = b"
| "in_worker (WWait b _) = b"
| "in_worker _ = []"

fun seen_close :: "'e worker \<Rightarrow> bool" where
  "seen_close (WDrain b) = True"
| "seen_close _ = False"

fun leaving :: "'e worker \<Rightarrow> bool" where
  "leaving (WAcquire _ isClosed) = isClosed"
| "leaving (WWait _ isClosed) = isClosed"
| "leaving WAwait = True"
| "leaving WEnd = True"
| "leaving _ = False"

definition message :: "go_int32 \<Rightarrow> 'e queued \<Rightarrow> PSpanMessage" where
  "message appType = (\<lambda>(r, sp, ch). makePSpanMessage appType r sp ch)"

definition messages :: "go_int32 \<Rightarrow> 'e queued multiset \<Rightarrow> PSpanMessage multiset" where
  "messages appType cs = image_mset (message appType) cs"

definition running :: "'e send list \<Rightarrow> nat" where
  "running ts = sum_list (map (\<lambda>t. if live t then 1 else 0) ts)"

definition queue_inv :: "'e pipeline \<Rightarrow> bool" where
  "queue_inv s \<longleftrightarrow> queue_wf (pl_queue s) \<and> (done_ch (pl_queue s) \<longrightarrow> closed (pl_queue s))
     \<and> (seen_close (worker s) \<longrightarrow> closed (pl_queue s))
     \<and> (leaving (worker s) \<longrightarrow> closed (pl_queue s) \<and> residents (pl_queue s) = {#})"

definition permit_inv :: "spanGrpc \<Rightarrow> 'e pipeline \<Rightarrow> bool" where
  "permit_inv g s \<longleftrightarrow> permits s = running (sends s) \<and> permits s \<le> maxConcurrentRequests g"

definition span_inv :: "go_int32 \<Rightarrow> 'e pipeline \<Rightarrow> bool" where
  "span_inv appType s \<longleftrightarrow>
     messages appType (admitted s) = messages appType (residents (pl_queue s) + pushed_out s + mset (in_worker (worker s)))
       + sum_list (map (task_messages appType) (sends s)) + outcome (net s)"

definition drop_count_inv :: "'e pipeline \<Rightarrow> bool" where
  "drop_count_inv s \<longleftrightarrow> dropCount (pl_queue s) = of_nat (size (pushed_out s))
     \<and> dr_dropped (spanDrops (net s)) = int (size (given_up (net s)))"

definition batch_inv :: "spanGrpc \<Rightarrow> 'e pipeline \<Rightarrow> bool" where
  "batch_inv g s \<longleftrightarrow> length (in_worker (worker s)) \<le> max 1 (batchSize g)"

definition fit_inv :: "(PSpanMessage \<Rightarrow> int) \<Rightarrow> spanGrpc \<Rightarrow> 'e pipeline \<Rightarrow> bool" where
  "fit_inv framed g s \<longleftrightarrow> list_all (task_fits framed g) (sends s) \<and> requests_fit framed g (net s)"

lemma dequeued:
  assumes "queue_wf q" "tryDequeue q = (x, q')"
  shows "queue_wf q' \<and> closed q' = closed q \<and> done_ch q' = done_ch q \<and> dropCount q' = dropCount q
    \<and> residents q = (case x of Some c \<Rightarrow> add_mset c (residents q') | None \<Rightarrow> {#}) \<and> (x = None \<longrightarrow> residents q' = {#})"
  using assms(1)
proof (cases rule: tryDequeue_cases)
  case empty
  then have "residents q = {#}" using size_residents [of q] by simp
  with empty assms show ?thesis by auto
next
  case (found d sh)
  with assms(2) obtain c where x: "x = Some c" by auto
  have "queue_wf q'" using tryDequeue_wf [OF assms(1)] assms(2) by simp
  with found assms(2) x tryDequeue_residents [OF assms(1), of c q'] show ?thesis by auto
qed

lemma enqueued:
  assumes "queue_wf q" "first < length (shards q)" "enqueue first c q = (True, q')"
  shows "\<not> closed q \<and> queue_wf q' \<and> closed q' = closed q \<and> done_ch q' = done_ch q
    \<and> (\<exists>out. add_mset c (residents q) = residents q' + out \<and> dropCount q' = dropCount q + of_nat (size out))"
proof -
  have op: "\<not> closed q" using assms(3) enqueue_closed [of q first c] by auto
  have "closed q' = closed q \<and> done_ch q' = done_ch q"
    using assms(1) op assms(2) by (cases rule: enqueue_open_cases [of q first c]) (use assms(3) in auto)
  moreover obtain out where "residents q' + out = add_mset c (residents q)" "dropCount q' = dropCount q + of_nat (size out)"
    using enqueue_open(4) [OF assms(1) op assms(2), of c] by (auto simp: assms(3))
  ultimately show ?thesis using op enqueue_open(2) [OF assms(1) op assms(2), of c] by (metis assms(3) snd_conv)
qed

lemma close_sel [simp]: "queue_wf (close q) = queue_wf q" "closed (close q)" "residents (close q) = residents q"
  "dropCount (close q) = dropCount q" "done_ch (close q)"
  by (simp_all add: close_def)

lemma step_queue: "send_step framed protoSize g appType s t \<Longrightarrow> queue_inv s \<Longrightarrow> queue_inv t"
proof (induction rule: send_step.induct)
  case (produce first s c q)
  then show ?case using enqueued [of "pl_queue s" first c q] by (auto simp: queue_inv_def)
qed (auto simp: queue_inv_def start_send_def skip_send_def after_send_def dest: dequeued)

lemma step_batch: "send_step framed protoSize g appType s t \<Longrightarrow> batch_inv g s \<Longrightarrow> batch_inv g t"
  by (induction rule: send_step.induct) (auto simp: batch_inv_def start_send_def skip_send_def after_send_def)

lemma running_update: "i < length ts \<Longrightarrow> live (ts ! i) \<Longrightarrow> running ts = running (ts[i := t]) + (if live t then 0 else 1)"
  using sum_list_map_update_add [of i ts "\<lambda>t. if live t then 1 else 0 :: nat" t] by (auto simp: running_def)

lemma step_permits: "send_step framed protoSize g appType s t \<Longrightarrow> permit_inv g s \<Longrightarrow> permit_inv g t"
proof (induction rule: send_step.induct)
  case (task i s t n)
  with task_step_accounts [OF task(2)] running_update [of i "sends s" t] show ?case by (simp add: permit_inv_def)
next
  case (release i s)
  with running_update [of i "sends s" SDone] show ?case by (simp add: permit_inv_def)
qed (auto simp: permit_inv_def start_send_def skip_send_def running_def)

lemma step_fits:
  assumes "\<And>ms. protoSize ms = sum_list (map framed ms)"
  shows "send_step framed protoSize g appType s t \<Longrightarrow> fit_inv framed g s \<Longrightarrow> fit_inv framed g t"
proof (induction rule: send_step.induct)
  case (task i s t n)
  then have "task_fits framed g (sends s ! i)" by (simp add: fit_inv_def list_all_length)
  with task task_step_fits [OF assms task(2)] show ?case
    by (auto simp: fit_inv_def list_all_length nth_list_update)
next
  case (release i s)
  then show ?case by (auto simp: fit_inv_def list_all_length nth_list_update)
qed (auto simp: fit_inv_def start_send_def skip_send_def requests_fit_def)

lemma step_drop_counts: "send_step framed protoSize g appType s t \<Longrightarrow> queue_inv s \<Longrightarrow> drop_count_inv s \<Longrightarrow> drop_count_inv t"
proof (induction rule: send_step.induct)
  case (produce first s c q)
  then have "queue_wf (pl_queue s)" by (simp add: queue_inv_def)
  from enqueued [OF this produce(1,2)] produce show ?case by (auto simp: drop_count_inv_def)
next
  case (task i s t n)
  with task_step_accounts [OF task(2)] show ?case by (simp add: drop_count_inv_def)
next
  case (wait_timeout s b isClosed)
  then show ?case by (simp add: drop_count_inv_def skip_send_def dropReporter_record_def batch_messages)
qed (auto simp: drop_count_inv_def queue_inv_def start_send_def dest: dequeued)

lemma messages_simps [simp]:
  "messages appType {#} = {#}" "messages appType (A + B) = messages appType A + messages appType B"
  "messages appType (add_mset c A) = add_mset (message appType c) (messages appType A)"
  "mset (makePSpanMessageBatch appType (map Some cs)) = messages appType (mset cs)"
  by (simp_all add: messages_def batch_messages message_def)

lemma outcome_flags [simp]: "outcome (n\<lparr>spanDrops := r\<rparr>) = outcome n"
  by (simp add: outcome_def)

lemma step_spans: "send_step framed protoSize g appType s t \<Longrightarrow> queue_inv s \<Longrightarrow> span_inv appType s \<Longrightarrow> span_inv appType t"
proof (induction rule: send_step.induct)
  case (produce first s c q)
  then have "queue_wf (pl_queue s)" by (simp add: queue_inv_def)
  with enqueued [OF this produce(1,2)] obtain out where out: "add_mset c (residents (pl_queue s)) = residents q + out" by blast
  from arg_cong [OF this, of "messages appType"]
  have "add_mset (message appType c) (messages appType (residents (pl_queue s))) = messages appType (residents q) + messages appType out" by simp
  with produce out show ?case by (simp add: span_inv_def)
next
  case (task i s t n)
  let ?all = "\<lambda>ts. sum_list (map (task_messages appType) ts)" and ?old = "task_messages appType (sends s ! i)"
  have "?all ((sends s)[i := t]) + outcome n + ?old = ?all (sends s) + (task_messages appType t + outcome n)"
    using sum_list_map_update_add [OF task(1), of "task_messages appType" t] by (simp add: ac_simps)
  also have "\<dots> = ?all (sends s) + outcome (net s) + ?old" using task_step_accounts [OF task(2)] by (simp add: ac_simps)
  finally have "?all ((sends s)[i := t]) + outcome n = ?all (sends s) + outcome (net s)" by simp
  with task show ?case by (simp add: span_inv_def add.assoc)
next
  case (release i s)
  with sum_list_map_update_add [OF release(1), of "task_messages appType" SDone] show ?case by (simp add: span_inv_def)
qed (auto simp: span_inv_def queue_inv_def start_send_def skip_send_def after_send_def outcome_def dest: dequeued)

definition pipeline_inv :: "spanGrpc \<Rightarrow> go_int32 \<Rightarrow> 'e pipeline \<Rightarrow> bool" where
  "pipeline_inv g appType s \<longleftrightarrow> queue_inv s \<and> permit_inv g s \<and> span_inv appType s \<and> drop_count_inv s \<and> batch_inv g s"

lemma init_pipeline_inv: "pipeline_inv g appType (init_pipeline g n)"
  using newSpanQueue_wf [of n]
  by (simp add: pipeline_inv_def init_pipeline_def queue_inv_def permit_inv_def span_inv_def drop_count_inv_def batch_inv_def running_def
      residents_new dropCount_new init_net_def outcome_def) (simp add: newSpanQueue_def Let_def)

lemma reach_pipeline_inv: "send_reach framed protoSize g appType n s \<Longrightarrow> pipeline_inv g appType s"
  by (induction rule: send_reach.induct)
    (auto simp: init_pipeline_inv, auto simp: pipeline_inv_def intro: step_queue step_permits step_spans step_drop_counts step_batch)

lemma reach_fits:
  assumes "\<And>ms. protoSize ms = sum_list (map framed ms)"
  shows "send_reach framed protoSize g appType n s \<Longrightarrow> fit_inv framed g s"
  by (induction rule: send_reach.induct)
    (auto simp: init_pipeline_def fit_inv_def requests_fit_def init_net_def, auto simp: fit_inv_def requests_fit_def dest: step_fits [OF assms])

lemma task_gzip_stays_off: "task_step framed protoSize g appType (t, n) (t', n') \<Longrightarrow> gzip_on n' \<Longrightarrow> gzip_on n"
  by (cases rule: task_step.cases) (auto simp: sent_request_def disableGzipIfRejected_def split: if_splits)

lemma last_report_complete:
  "0 \<le> now \<Longrightarrow> dr_reported (snd (reportSpanDrops now q (r\<lparr>reportAt := 0\<rparr>))) = sint (dropCount q) + dr_dropped r"
  by (simp add: reportSpanDrops_def dropReporter_acquire_def Let_def)

lemma no_live_sends:
  "\<not> list_ex live ts \<Longrightarrow> sum_list (map (task_messages appType) ts) = {#} \<and> running ts = 0"
proof (induction ts)
  case (Cons t ts)
  then show ?case by (cases t) (auto simp: running_def)
qed (simp add: running_def)

text \<open>
  (C11) Nothing is lost unseen on the way to the collector. In every interleaving of the producers, the close, the worker and its
  sends: once the worker has ended and no send is running, every chunk the queue accepted was delivered, pushed out of the
  full queue, given up by the sender or lost in a recovered panic; the two counters the agent reports are exactly the sizes of
  the second and third group (the former as an int64), and all permits are free again.
\<close>

theorem shutdown_flushes_spans:
  assumes "send_reach framed protoSize g appType n s" "worker s = WEnd" "\<not> list_ex live (sends s)"
  shows "messages appType (admitted s) = delivered (net s) + messages appType (pushed_out s) + given_up (net s) + panicked (net s)
    \<and> dropCount (pl_queue s) = of_nat (size (pushed_out s)) \<and> dr_dropped (spanDrops (net s)) = int (size (given_up (net s)))
    \<and> permits s = 0 \<and> residents (pl_queue s) = {#}"
  using reach_pipeline_inv [OF assms(1)] no_live_sends [OF assms(3), of appType] assms(2)
  by (simp add: pipeline_inv_def queue_inv_def permit_inv_def span_inv_def drop_count_inv_def outcome_def ac_simps)

text \<open>
  (C23) The limits hold throughout: a permit is held by exactly the running sends, of which there are at most the configured number, a batch
  has at most the configured size, and every request made fits the message size the connection was dialed with, so that
  grpc-go refuses none of them.
\<close>

theorem requests_within_limits:
  assumes "send_reach framed protoSize g appType n s" "\<And>ms. protoSize ms = sum_list (map framed ms)"
  shows "permits s = running (sends s) \<and> permits s \<le> maxConcurrentRequests g \<and> length (in_worker (worker s)) \<le> max 1 (batchSize g)
    \<and> list_all (\<lambda>(_, b). b \<noteq> [] \<and> protoSize b \<le> maxSendMsgSize g) (requests (net s))"
  using reach_pipeline_inv [OF assms(1)] reach_fits [OF assms(2,1)]
  by (simp add: pipeline_inv_def permit_inv_def batch_inv_def fit_inv_def requests_fit_def assms(2))

text \<open>A run that sends one chunk and shuts down.\<close>

definition one_sender :: spanGrpc where
  "one_sender = \<lparr>batchSize = 1, batchCollectDeadline = 100000000, maxSendMsgSize = 10, maxConcurrentRequests = 1, gzipConn = True\<rparr>"

definition one_run :: "'e queued \<Rightarrow> 'e pipeline" where
  "one_run c = \<lparr>pl_queue = close (snd (tryDequeue (snd (enqueue 0 c (newSpanQueue 1))))), worker = WEnd, sends = [SDone], permits = 0,
     net = \<lparr>spanDrops = \<lparr>dr_dropped = 0, dr_reported = 0, reportAt = 0\<rparr>, gzip_on = True, requests = [([], [message 1800 c])],
       delivered = {#message 1800 c#}, given_up = {#}, panicked = {#}\<rparr>, admitted = {#c#}, pushed_out = {#}\<rparr>"

lemma one_queue:
  "enqueue 0 c (newSpanQueue 1) = (True, snd (enqueue 0 c (newSpanQueue 1)))"
  "residents (snd (enqueue 0 c (newSpanQueue 1))) = {#c#}"
  "tryDequeue (snd (enqueue 0 c (newSpanQueue 1))) = (Some c, snd (tryDequeue (snd (enqueue 0 c (newSpanQueue 1)))))"
  "dropCount (snd (tryDequeue (snd (enqueue 0 c (newSpanQueue 1))))) = 0" "dropCount (snd (enqueue 0 c (newSpanQueue 1))) = 0"
  "tryDequeue (close (snd (tryDequeue (snd (enqueue 0 c (newSpanQueue 1)))))) = (None, close (snd (tryDequeue (snd (enqueue 0 c (newSpanQueue 1))))))"
  by (simp_all add: newSpanQueue_def enqueue_def Let_def spanQueueMinShardCap_def spanQueueMaxShards_def new_shard_def shard_tryEnqueue_def push_def
      set_shard_def notify_def residents_def shard_list_def slot_def tryDequeue_def shard_tryDequeue_def drop_head_def next_pos_def dropCount_def close_def)

lemma one_run_reached: "send_reach (\<lambda>_. 1) (\<lambda>ms. int (length ms)) one_sender 1800 1 (one_run c)"
proof -
  let ?R = "send_reach (\<lambda>_. 1) (\<lambda>ms. int (length ms)) one_sender 1800 1"
  note go = send_reach.step [of "\<lambda>_. 1" "\<lambda>ms. int (length ms)" one_sender 1800 1]
  define q1 where "q1 = snd (enqueue 0 c (newSpanQueue 1))"
  define q2 where "q2 = snd (tryDequeue q1)"
  note q = one_queue [of c, folded q1_def, folded q2_def]
  have one: "makePSpanMessageBatch 1800 [Some c] = [message 1800 c]" using batch_messages [of 1800 "[c]"] by (simp add: message_def)
  let ?n = "init_net one_sender"
  let ?st = "\<lambda>qu w ts p n. \<lparr>pl_queue = qu, worker = w, sends = ts, permits = p, net = n, admitted = {#c#}, pushed_out = {#}\<rparr>"
  let ?T = "task_step (\<lambda>_. 1) (\<lambda>ms. int (length ms)) one_sender 1800"
  have one_task: "?R (?st qu w [t] p n) \<Longrightarrow> ?T (t, n) (t', n') \<Longrightarrow> ?R (?st qu w [t'] p n')" for qu w t p n t' n'
    using go [OF _ send_step.task [of 0 "?st qu w [t] p n" _ _ _ _ t' n']] by simp
  let ?n2 = "?n\<lparr>requests := [([], [message 1800 c])], delivered := {#message 1800 c#}\<rparr>"
  have "0 < length (shards (newSpanQueue 1))" by (simp add: newSpanQueue_def Let_def spanQueueMaxShards_def)
  then have "?R (?st q1 WReport [] 0 ?n)"
    using go [OF send_reach.init send_step.produce [of 0 _ c q1]] by (simp add: init_pipeline_def q residents_new)
  from go [OF this send_step.report [where now = 0]] have "?R (?st q1 WDequeue [] 0 ?n)"
    by (simp add: reportSpanDrops_def dropReporter_acquire_def Let_def init_net_def q)
  from go [OF this send_step.dequeued [of _ c q2]] have "?R (?st q2 (WCollect [c]) [] 0 ?n)" by (simp add: q)
  from go [OF this send_step.collect_full [of _ "[c]"]] have "?R (?st q2 (WAcquire [c] False) [] 0 ?n)" by (simp add: one_sender_def)
  from go [OF this send_step.acquire [of _ "[c]" False]] have "?R (?st q2 WReport [SBuild [c]] 1 ?n)"
    by (simp add: one_sender_def start_send_def after_send_def)
  moreover have "plan_requests (\<lambda>_. 1) (\<lambda>ms. int (length ms)) one_sender (makePSpanMessageBatch 1800 (map Some [c])) (spanDrops ?n)
      = ([[message 1800 c]], spanDrops ?n)"
    by (simp add: plan_requests_def one one_sender_def)
  from task_step.build [OF refl this] have "?T (SBuild [c], ?n) (SSend [[message 1800 c]], ?n)" by (simp add: one)
  moreover from task_step.send_ok [of "\<lambda>_. 1" "\<lambda>ms. int (length ms)" one_sender 1800 "[message 1800 c]" "[]" ?n]
  have "?T (SSend [[message 1800 c]], ?n) (SSend [], ?n2)"
    by (simp add: sent_request_def compressCallOptions_def init_net_def one_sender_def)
  ultimately have "?R (?st q2 WReport [SRelease] 1 ?n2)" by (blast intro: one_task task_step.all_sent)
  from go [OF this send_step.release [of 0]] have "?R (?st q2 WReport [SDone] 0 ?n2)" by simp
  from go [OF this send_step.closing] have "?R (?st (close q2) WReport [SDone] 0 ?n2)" by simp
  from go [OF this send_step.report [where now = 0]] have "?R (?st (close q2) WDequeue [SDone] 0 ?n2)"
    by (simp add: reportSpanDrops_def dropReporter_acquire_def Let_def init_net_def q)
  from go [OF this send_step.dequeue_end [of _ "close q2"]] have "?R (?st (close q2) WAwait [SDone] 0 ?n2)" by (simp add: q)
  from go [OF this send_step.awaited [where now = 0]] show ?thesis
    by (simp add: one_run_def reportSpanDrops_def dropReporter_acquire_def Let_def init_net_def q q1_def [symmetric] q2_def [symmetric] one_sender_def)
qed

theorem shutdown_flushes_spans_witness:
  "let s = one_run (zero_root, fresh_span, late_chunk)
   in messages 1800 (admitted s) = delivered (net s) \<and> delivered (net s) = {#makePSpanMessage 1800 zero_root fresh_span late_chunk#}
      \<and> residents (pl_queue s) = {#}"
  using shutdown_flushes_spans [OF one_run_reached [of "(zero_root, fresh_span, late_chunk)"]]
  by (simp add: Let_def one_run_def message_def)

theorem requests_within_limits_witness:
  "let s = one_run (zero_root, fresh_span, late_chunk)
   in list_all (\<lambda>(_, b). b \<noteq> [] \<and> int (length b) \<le> 10) (requests (net s)) \<and> length (requests (net s)) = 1"
proof -
  have "int (length ms) = sum_list (map (\<lambda>_. 1) ms)" for ms :: "PSpanMessage list" by (induction ms) simp_all
  from requests_within_limits [OF one_run_reached [of "(zero_root, fresh_span, late_chunk)"] this] show ?thesis
    by (simp add: Let_def one_run_def one_sender_def)
qed

end
