(* ===== verification/Meta_Cache.thy ===== *)
theory Meta_Cache
  imports Pinpoint_Prelude
begin

text \<open>
  The metadata cache (\<^verbatim>\<open>src/meta_cache.go\<close>): sixteen shards, each a list of entries with the most recently used in
  front, one capacity over all of them, a clock that stamps every insert and promotion, and the published stamp of
  each shard's last entry by which an insert past the capacity finds the least recently used entry of the cache. Each
  operation runs under its shard's lock and is one function here; \<open>trylock\<close> says whether \<open>evictFor\<close> got the lock of the
  other shard. The \<open>sync.Map\<close> always holds what the shard lists hold, so lookups read the list of the key's shard. The
  hash is a parameter; the uint64 counters are naturals.
\<close>

section \<open>State\<close>

record ('k, 'v) metaCacheEntry =
  ce_key :: 'k
  ce_value :: 'v
  lastPromoted :: nat
  promotedInsertSeq :: nat
  ce_used :: nat
  insertedAt :: time

record ('k, 'v) metaCacheShard =
  order :: "('k, 'v) metaCacheEntry list"
  opSeq :: nat
  insertSeq :: nat

record ('k, 'v) metaCache =
  mc_shards :: "('k, 'v) metaCacheShard list"
  shardCount :: nat
  mc_capacity :: nat
  ageThreshold :: nat
  ttl :: duration
  full :: bool
  mc_size :: nat
  mc_clock :: nat
  tailUsed :: "nat option list"

definition metaCacheShardCount :: nat where "metaCacheShardCount = 16"

definition newMetaCache :: "nat \<Rightarrow> duration \<Rightarrow> ('k, 'v) metaCache" where
  "newMetaCache n t =
     (let cap = max n 1; sc = min cap metaCacheShardCount
      in \<lparr>mc_shards = replicate metaCacheShardCount \<lparr>order = [], opSeq = 0, insertSeq = 0\<rparr>, shardCount = sc,
          mc_capacity = cap, ageThreshold = max (cap div sc div 2) 1, ttl = t, full = False, mc_size = 0, mc_clock = 0,
          tailUsed = replicate metaCacheShardCount None\<rparr>)"

definition cache_shard :: "('k \<Rightarrow> nat) \<Rightarrow> ('k, 'v) metaCache \<Rightarrow> 'k \<Rightarrow> nat" where
  "cache_shard hash c key = hash key mod shardCount c"

abbreviation order_of :: "('k, 'v) metaCache \<Rightarrow> nat \<Rightarrow> ('k, 'v) metaCacheEntry list" where
  "order_of c i \<equiv> order (mc_shards c ! i)"

definition cache_load :: "('k \<Rightarrow> nat) \<Rightarrow> 'k \<Rightarrow> ('k, 'v) metaCache \<Rightarrow> ('k, 'v) metaCacheEntry option" where
  "cache_load hash key c = find (\<lambda>e. ce_key e = key) (order_of c (cache_shard hash c key))"

definition set_shard :: "nat \<Rightarrow> ('k, 'v) metaCacheShard \<Rightarrow> ('k, 'v) metaCache \<Rightarrow> ('k, 'v) metaCache" where
  "set_shard i s c = c\<lparr>mc_shards := (mc_shards c)[i := s]\<rparr>"

section \<open>Operations\<close>

text \<open>\<open>None\<close> stands for \<open>math.MaxUint64\<close>, the mark of an empty shard.\<close>

definition tail_of :: "('k, 'v) metaCacheEntry list \<Rightarrow> nat option" where
  "tail_of es = (if es = [] then None else Some (ce_used (last es)))"

definition syncTail :: "nat \<Rightarrow> ('k, 'v) metaCache \<Rightarrow> ('k, 'v) metaCache" where
  "syncTail i c = c\<lparr>tailUsed := (tailUsed c)[i := tail_of (order_of c i)]\<rparr>"

definition without :: "'k \<Rightarrow> ('k, 'v) metaCacheEntry list \<Rightarrow> ('k, 'v) metaCacheEntry list" where
  "without key es = filter (\<lambda>e. ce_key e \<noteq> key) es"

definition is_back :: "'k \<Rightarrow> ('k, 'v) metaCacheEntry list \<Rightarrow> bool" where
  "is_back key es \<longleftrightarrow> es \<noteq> [] \<and> ce_key (last es) = key"

definition removeEntry :: "nat \<Rightarrow> 'k \<Rightarrow> ('k, 'v) metaCache \<Rightarrow> ('k, 'v) metaCache" where
  "removeEntry i key c =
     (if key \<notin> ce_key ` set (order_of c i) then c
      else
        let s = mc_shards c ! i; wasBack = is_back key (order s);
            c = set_shard i (s\<lparr>order := without key (order s)\<rparr>) c;
            c = (if wasBack then syncTail i c else c);
            c = c\<lparr>mc_size := mc_size c - 1\<rparr>
        in if mc_size c < mc_capacity c \<and> full c then c\<lparr>full := False\<rparr> else c)"

definition promotionDue :: "nat \<Rightarrow> ('k, 'v) metaCacheShard \<Rightarrow> ('k, 'v) metaCacheEntry \<Rightarrow> bool" where
  "promotionDue age s e \<longleftrightarrow> opSeq s - lastPromoted e \<ge> age \<and> insertSeq s \<noteq> promotedInsertSeq e"

definition expired :: "time \<Rightarrow> ('k, 'v) metaCache \<Rightarrow> ('k, 'v) metaCacheEntry \<Rightarrow> bool" where
  "expired now c e \<longleftrightarrow> ttl c > 0 \<and> now - insertedAt e \<ge> ttl c"

definition promote :: "nat \<Rightarrow> ('k, 'v) metaCacheEntry \<Rightarrow> ('k, 'v) metaCache \<Rightarrow> ('k, 'v) metaCache" where
  "promote i e c =
     (let s = mc_shards c ! i; wasBack = is_back (ce_key e) (order s); sq = opSeq s + 1;
          e' = e\<lparr>lastPromoted := sq, promotedInsertSeq := insertSeq s, ce_used := mc_clock c + 1\<rparr>;
          c = (set_shard i (s\<lparr>order := e' # without (ce_key e) (order s), opSeq := sq\<rparr>) c)\<lparr>mc_clock := mc_clock c + 1\<rparr>
      in if wasBack then syncTail i c else c)"

definition cache_peek :: "('k \<Rightarrow> nat) \<Rightarrow> time \<Rightarrow> 'k \<Rightarrow> ('k, 'v) metaCache \<Rightarrow> 'v option \<times> ('k, 'v) metaCache" where
  "cache_peek hash now key c =
     (case cache_load hash key c of None \<Rightarrow> (None, c)
      | Some e \<Rightarrow>
          let i = cache_shard hash c key
          in if expired now c e then (None, removeEntry i key c)
             else if \<not> full c \<or> \<not> promotionDue (ageThreshold c) (mc_shards c ! i) e then (Some (ce_value e), c)
             else (Some (ce_value e), promote i e c))"

definition evictBack :: "nat \<Rightarrow> ('k, 'v) metaCache \<Rightarrow> bool \<times> ('k, 'v) metaCache" where
  "evictBack i c =
     (let s = mc_shards c ! i
      in if order s = [] then (False, c)
         else (True, syncTail i ((set_shard i (s\<lparr>order := butlast (order s)\<rparr>) c)\<lparr>mc_size := mc_size c - 1\<rparr>)))"

fun oldest_from :: "nat \<Rightarrow> nat option list \<Rightarrow> (nat \<times> nat) option \<Rightarrow> (nat \<times> nat) option" where
  "oldest_from i [] best = best"
| "oldest_from i (u # us) best =
     oldest_from (Suc i) us
       (case u of None \<Rightarrow> best
        | Some x \<Rightarrow> (case best of None \<Rightarrow> Some (i, x) | Some (j, y) \<Rightarrow> if x < y then Some (i, x) else best))"

definition oldestShard :: "('k, 'v) metaCache \<Rightarrow> nat option" where
  "oldestShard c = map_option fst (oldest_from 0 (take (shardCount c) (tailUsed c)) None)"

definition evictFor :: "bool \<Rightarrow> nat \<Rightarrow> ('k, 'v) metaCache \<Rightarrow> bool \<times> ('k, 'v) metaCache" where
  "evictFor trylock i c =
     (let (gone, c) = (case oldestShard c of
          Some j \<Rightarrow> if j \<noteq> i \<and> trylock then evictBack j c else (False, c) | None \<Rightarrow> (False, c))
      in if gone then (True, c)
         else if length (order_of c i) > 1 then evictBack i c else (False, c))"

text \<open>The loop of \<open>evictOverflow\<close>, with one round per entry of the cache as its fuel.\<close>

fun evict_loop :: "nat \<Rightarrow> ('k, 'v) metaCache \<Rightarrow> ('k, 'v) metaCache" where
  "evict_loop 0 c = c"
| "evict_loop (Suc n) c =
     (if mc_size c > mc_capacity c
      then case oldestShard c of None \<Rightarrow> c | Some i \<Rightarrow> evict_loop n (snd (evictBack i c))
      else c)"

definition evictOverflow :: "('k, 'v) metaCache \<Rightarrow> ('k, 'v) metaCache" where
  "evictOverflow c = evict_loop (mc_size c) c"

definition insert_entry :: "nat \<Rightarrow> time \<Rightarrow> 'k \<Rightarrow> 'v \<Rightarrow> bool \<Rightarrow> ('k, 'v) metaCache \<Rightarrow> ('k, 'v) metaCache" where
  "insert_entry i now key v backChanged c =
     (let s = mc_shards c ! i; e = \<lparr>ce_key = key, ce_value = v, lastPromoted = opSeq s + 1,
            promotedInsertSeq = insertSeq s + 1, ce_used = mc_clock c + 1, insertedAt = (if ttl c > 0 then now else 0)\<rparr>;
          c = (set_shard i (s\<lparr>order := e # order s, opSeq := opSeq s + 1, insertSeq := insertSeq s + 1\<rparr>) c)
                \<lparr>mc_clock := mc_clock c + 1\<rparr>;
          c = (if backChanged \<or> length (order_of c i) = 1 then syncTail i c else c);
          c = c\<lparr>mc_size := mc_size c + 1\<rparr>
      in if mc_size c \<ge> mc_capacity c \<and> \<not> full c then c\<lparr>full := True\<rparr> else c)"

definition cache_peekOrAdd ::
  "('k \<Rightarrow> nat) \<Rightarrow> bool \<Rightarrow> time \<Rightarrow> 'k \<Rightarrow> 'v \<Rightarrow> ('k, 'v) metaCache \<Rightarrow> 'v option \<times> ('k, 'v) metaCache" where
  "cache_peekOrAdd hash trylock now key v c =
     (let i = cache_shard hash c key; old = cache_load hash key c
      in case old of
           Some e \<Rightarrow>
             if ttl c = 0 \<or> now - insertedAt e < ttl c then (Some (ce_value e), c)
             else
               let s = mc_shards c ! i; backChanged = is_back key (order s);
                   c = (set_shard i (s\<lparr>order := without key (order s)\<rparr>) c)\<lparr>mc_size := mc_size c - 1\<rparr>;
                   c = insert_entry i now key v backChanged c
               in (None, if mc_size c > mc_capacity c
                         then (case evictFor trylock i c of (ok, c) \<Rightarrow> if ok then c else evictOverflow c) else c)
         | None \<Rightarrow>
             let c = insert_entry i now key v False c
             in (None, if mc_size c > mc_capacity c
                       then (case evictFor trylock i c of (ok, c) \<Rightarrow> if ok then c else evictOverflow c) else c))"

definition cache_remove :: "('k \<Rightarrow> nat) \<Rightarrow> 'k \<Rightarrow> ('v \<Rightarrow> bool) \<Rightarrow> ('k, 'v) metaCache \<Rightarrow> ('k, 'v) metaCache" where
  "cache_remove hash key isExpected c =
     (case cache_load hash key c of None \<Rightarrow> c
      | Some e \<Rightarrow> if isExpected (ce_value e) then removeEntry (cache_shard hash c key) key c else c)"

section \<open>Well-formedness\<close>

definition shard_wf :: "('k \<Rightarrow> nat) \<Rightarrow> nat \<Rightarrow> nat \<Rightarrow> nat \<Rightarrow> ('k, 'v) metaCacheEntry list \<Rightarrow> bool" where
  "shard_wf hash sc clk i es \<longleftrightarrow>
     distinct (map ce_key es) \<and> (\<forall>e \<in> set es. hash (ce_key e) mod sc = i \<and> ce_used e \<le> clk)
     \<and> sorted_wrt (\<lambda>a b. ce_used b < ce_used a) es"

definition total_entries :: "('k, 'v) metaCache \<Rightarrow> nat" where
  "total_entries c = sum_list (map (\<lambda>s. length (order s)) (mc_shards c))"

definition frame_wf :: "('k, 'v) metaCache \<Rightarrow> bool" where
  "frame_wf c \<longleftrightarrow>
     length (mc_shards c) = metaCacheShardCount \<and> length (tailUsed c) = metaCacheShardCount
     \<and> 0 < shardCount c \<and> shardCount c \<le> metaCacheShardCount \<and> 0 < mc_capacity c \<and> 0 \<le> ttl c"

definition cache_wf :: "('k \<Rightarrow> nat) \<Rightarrow> ('k, 'v) metaCache \<Rightarrow> bool" where
  "cache_wf hash c \<longleftrightarrow>
     frame_wf c
     \<and> (\<forall>i < metaCacheShardCount. shard_wf hash (shardCount c) (mc_clock c) i (order_of c i)
          \<and> tailUsed c ! i = tail_of (order_of c i))
     \<and> mc_size c = total_entries c"

definition cache_inv :: "('k \<Rightarrow> nat) \<Rightarrow> ('k, 'v) metaCache \<Rightarrow> bool" where
  "cache_inv hash c \<longleftrightarrow> cache_wf hash c \<and> mc_size c \<le> mc_capacity c \<and> full c = (mc_size c \<ge> mc_capacity c)"

lemma cache_shard_bound: "frame_wf c \<Longrightarrow> cache_shard hash c key < metaCacheShardCount"
  unfolding cache_shard_def frame_wf_def using mod_less_divisor less_le_trans by blast

lemma new_cache_inv: "0 \<le> t \<Longrightarrow> cache_inv hash (newMetaCache n t)"
  by (auto simp: cache_inv_def cache_wf_def frame_wf_def shard_wf_def newMetaCache_def Let_def total_entries_def
      tail_of_def metaCacheShardCount_def sum_list_replicate)

text \<open>
  Every operation replaces the order of one shard: well-formedness carries over when the new order is well-formed, the
  clock does not go back, the size follows, and the published tail is that of the new order.
\<close>

lemma total_entries_set:
  "i < length (mc_shards c) \<Longrightarrow>
   total_entries (set_shard i s c) + length (order_of c i) = total_entries c + length (order s)"
  using sum_list_map_update_add [of i "mc_shards c" "\<lambda>s. length (order s)" s]
  by (simp add: total_entries_def set_shard_def)

lemma shard_wf_mono: "shard_wf hash sc clk i es \<Longrightarrow> clk \<le> clk' \<Longrightarrow> shard_wf hash sc clk' i es"
  by (fastforce simp: shard_wf_def)

lemma cache_wf_replace:
  assumes wf: "cache_wf hash c" and i: "i < metaCacheShardCount"
    and c': "mc_shards c' = (mc_shards c)[i := s]" "frame_wf c'" "shardCount c' = shardCount c" "mc_clock c \<le> mc_clock c'"
      "tailUsed c' = (tailUsed c)[i := tail_of (order s)]"
    and s: "shard_wf hash (shardCount c) (mc_clock c') i (order s)"
    and size: "mc_size c' + length (order_of c i) = mc_size c + length (order s)"
  shows "cache_wf hash c'"
proof -
  have len: "i < length (mc_shards c)" using wf i by (simp add: cache_wf_def frame_wf_def)
  have "total_entries c' = total_entries (set_shard i s c)" by (simp add: total_entries_def set_shard_def c'(1))
  then have "mc_size c' = total_entries c'"
    using total_entries_set [OF len, of s] size wf by (simp add: cache_wf_def)
  moreover have "shard_wf hash (shardCount c') (mc_clock c') j (order_of c' j) \<and> tailUsed c' ! j = tail_of (order_of c' j)"
    if "j < metaCacheShardCount" for j
  proof (cases "j = i")
    case True
    then show ?thesis using len s c' wf i by (simp add: cache_wf_def frame_wf_def)
  next
    case False
    have "shard_wf hash (shardCount c) (mc_clock c) j (order_of c j)" "tailUsed c ! j = tail_of (order_of c j)"
      using wf that by (simp_all add: cache_wf_def)
    with False c' shard_wf_mono [OF _ c'(4)] show ?thesis by simp
  qed
  ultimately show ?thesis using c'(2) by (simp add: cache_wf_def)
qed

lemma shard_wf_without: "shard_wf hash sc clk i es \<Longrightarrow> shard_wf hash sc clk i (without key es)"
  by (auto simp: shard_wf_def without_def distinct_map_filter sorted_wrt_filter)

lemma shard_wf_butlast: "shard_wf hash sc clk i es \<Longrightarrow> shard_wf hash sc clk i (butlast es)"
  by (cases es rule: rev_cases) (auto simp: shard_wf_def sorted_wrt_append)

lemma shard_wf_Cons:
  assumes "shard_wf hash sc clk i es" "ce_key e \<notin> ce_key ` set es" "hash (ce_key e) mod sc = i" "ce_used e = Suc clk"
  shows "shard_wf hash sc (Suc clk) i (e # es)"
  using assms by (fastforce simp: shard_wf_def)

lemma length_without:
  "distinct (map ce_key es) \<Longrightarrow> key \<in> ce_key ` set es \<Longrightarrow> Suc (length (without key es)) = length es"
proof (induction es)
  case (Cons e es)
  show ?case
  proof (cases "ce_key e = key")
    case True
    then have "\<forall>x \<in> set es. ce_key x \<noteq> key" using Cons.prems(1) by (auto simp: image_iff)
    then have "without key es = es" by (simp add: without_def filter_id_conv)
    then show ?thesis using True by (simp add: without_def)
  next
    case False
    then show ?thesis using Cons by (auto simp: without_def)
  qed
qed simp

lemma without_keys: "ce_key ` set (without key es) = ce_key ` set es - {key}"
  by (auto simp: without_def)

text \<open>Removing or moving an entry that is not the last one leaves the tail as it is.\<close>

lemma tail_without:
  assumes "\<not> is_back key es"
  shows "tail_of (without key es) = tail_of es"
proof (cases es rule: rev_cases)
  case (snoc xs x)
  then have "without key es = without key xs @ [x]" using assms by (auto simp: is_back_def without_def)
  then show ?thesis using snoc by (simp add: tail_of_def)
qed (simp add: without_def)

lemma tail_Cons: "es \<noteq> [] \<Longrightarrow> tail_of (e # es) = tail_of es"
  by (simp add: tail_of_def)

lemma without_not_Nil: "\<not> is_back key es \<Longrightarrow> es \<noteq> [] \<Longrightarrow> without key es \<noteq> []"
  by (cases es rule: rev_cases) (auto simp: is_back_def without_def)

lemma wf_shard: "cache_wf hash c \<Longrightarrow> i < metaCacheShardCount \<Longrightarrow> shard_wf hash (shardCount c) (mc_clock c) i (order_of c i)"
  and wf_tail: "cache_wf hash c \<Longrightarrow> i < metaCacheShardCount \<Longrightarrow> tailUsed c ! i = tail_of (order_of c i)"
  and wf_frame: "cache_wf hash c \<Longrightarrow> frame_wf c"
  by (simp_all add: cache_wf_def)

lemma wf_update_id: "cache_wf hash c \<Longrightarrow> i < metaCacheShardCount \<Longrightarrow> (tailUsed c)[i := tail_of (order_of c i)] = tailUsed c"
  by (metis list_update_id wf_tail)

lemma syncTail_simps [simp]:
  "mc_shards (syncTail i c) = mc_shards c" "shardCount (syncTail i c) = shardCount c" "mc_clock (syncTail i c) = mc_clock c"
  "mc_size (syncTail i c) = mc_size c" "mc_capacity (syncTail i c) = mc_capacity c" "full (syncTail i c) = full c"
  "ttl (syncTail i c) = ttl c" "ageThreshold (syncTail i c) = ageThreshold c"
  by (simp_all add: syncTail_def)

lemma set_shard_simps [simp]:
  "mc_shards (set_shard i s c) = (mc_shards c)[i := s]" "shardCount (set_shard i s c) = shardCount c"
  "mc_clock (set_shard i s c) = mc_clock c" "mc_size (set_shard i s c) = mc_size c"
  "mc_capacity (set_shard i s c) = mc_capacity c" "full (set_shard i s c) = full c" "ttl (set_shard i s c) = ttl c"
  "ageThreshold (set_shard i s c) = ageThreshold c" "tailUsed (set_shard i s c) = tailUsed c"
  by (simp_all add: set_shard_def)

lemma removeEntry_wf:
  assumes wf: "cache_wf hash c" and i: "i < metaCacheShardCount" and key: "key \<in> ce_key ` set (order_of c i)"
  shows "cache_wf hash (removeEntry i key c)"
    and "mc_size (removeEntry i key c) = mc_size c - 1" and "mc_capacity (removeEntry i key c) = mc_capacity c"
    and "full (removeEntry i key c) = (full c \<and> mc_size c - 1 \<ge> mc_capacity c)"
    and "mc_shards (removeEntry i key c) = (mc_shards c)[i := (mc_shards c ! i)\<lparr>order := without key (order_of c i)\<rparr>]"
    and "shardCount (removeEntry i key c) = shardCount c"
proof -
  have len: "i < length (mc_shards c)" "i < length (tailUsed c)" using wf i by (auto simp: cache_wf_def frame_wf_def)
  have ok: "shard_wf hash (shardCount c) (mc_clock c) i (order_of c i)" by (rule wf_shard [OF wf i])
  then have size: "Suc (length (without key (order_of c i))) = length (order_of c i)"
    using key by (intro length_without) (auto simp: shard_wf_def)
  moreover have "length (order_of c i) \<le> mc_size c"
    using wf member_le_sum_list_map [OF len(1), of "\<lambda>s. length (order s)"] by (simp add: cache_wf_def total_entries_def)
  ultimately have pos: "mc_size c - 1 + length (order_of c i) = mc_size c + length (without key (order_of c i))" by linarith
  show "mc_size (removeEntry i key c) = mc_size c - 1" "mc_capacity (removeEntry i key c) = mc_capacity c"
    "full (removeEntry i key c) = (full c \<and> mc_size c - 1 \<ge> mc_capacity c)" and
    sh: "mc_shards (removeEntry i key c) = (mc_shards c)[i := (mc_shards c ! i)\<lparr>order := without key (order_of c i)\<rparr>]" and
    sc: "shardCount (removeEntry i key c) = shardCount c"
    using key by (auto simp: removeEntry_def Let_def)
  have tail: "tailUsed (removeEntry i key c) = (tailUsed c)[i := tail_of (without key (order_of c i))]"
    using key len wf_update_id [OF wf i] tail_without [of key "order_of c i"]
    by (auto simp: removeEntry_def Let_def syncTail_def)
  have rest: "frame_wf (removeEntry i key c)" "mc_clock (removeEntry i key c) = mc_clock c"
    using key wf_frame [OF wf] by (auto simp: removeEntry_def Let_def frame_wf_def syncTail_def)
  show "cache_wf hash (removeEntry i key c)"
    by (rule cache_wf_replace [OF wf i sh rest(1) sc])
      (use rest(2) tail shard_wf_without [OF ok, of key] pos \<open>mc_size (removeEntry i key c) = mc_size c - 1\<close> in simp_all)
qed

lemma promote_wf:
  assumes wf: "cache_wf hash c" and i: "i < metaCacheShardCount" and e: "e \<in> set (order_of c i)"
  shows "cache_wf hash (promote i e c)"
    and "mc_size (promote i e c) = mc_size c" "mc_capacity (promote i e c) = mc_capacity c" "full (promote i e c) = full c"
    and "shardCount (promote i e c) = shardCount c"
    and "\<exists>e' s. mc_shards (promote i e c) = (mc_shards c)[i := s] \<and> order s = e' # without (ce_key e) (order_of c i)
      \<and> ce_key e' = ce_key e \<and> ce_value e' = ce_value e"
proof -
  have len: "i < length (mc_shards c)" "i < length (tailUsed c)" using wf i by (auto simp: cache_wf_def frame_wf_def)
  define s where "s = mc_shards c ! i"
  define e' where "e' = e\<lparr>lastPromoted := opSeq s + 1, promotedInsertSeq := insertSeq s, ce_used := mc_clock c + 1\<rparr>"
  define s' where "s' = s\<lparr>order := e' # without (ce_key e) (order s), opSeq := opSeq s + 1\<rparr>"
  have ok: "shard_wf hash (shardCount c) (mc_clock c) i (order s)" using wf_shard [OF wf i] by (simp add: s_def)
  have size: "Suc (length (without (ce_key e) (order s))) = length (order s)"
    using e ok by (intro length_without) (auto simp: shard_wf_def s_def)
  show fields: "mc_size (promote i e c) = mc_size c" "mc_capacity (promote i e c) = mc_capacity c" "full (promote i e c) = full c"
    "shardCount (promote i e c) = shardCount c"
    by (auto simp: promote_def Let_def)
  have sh: "mc_shards (promote i e c) = (mc_shards c)[i := s']"
    by (auto simp: promote_def Let_def s'_def e'_def s_def)
  then show "\<exists>e' s. mc_shards (promote i e c) = (mc_shards c)[i := s] \<and> order s = e' # without (ce_key e) (order_of c i)
      \<and> ce_key e' = ce_key e \<and> ce_value e' = ce_value e"
    by (intro exI [of _ e'] exI [of _ s']) (simp add: s'_def e'_def s_def)
  have "tail_of (order s') = tail_of (order s)" if "\<not> is_back (ce_key e) (order s)"
    using that e tail_without [OF that] without_not_Nil [OF that] tail_Cons by (fastforce simp: s'_def s_def)
  then have tail: "tailUsed (promote i e c) = (tailUsed c)[i := tail_of (order s')]"
    using len wf_update_id [OF wf i]
    by (cases "is_back (ce_key e) (order s)")
      (simp_all add: promote_def Let_def syncTail_def s'_def e'_def s_def [symmetric])
  have rest: "frame_wf (promote i e c)" "mc_clock (promote i e c) = Suc (mc_clock c)"
    using wf_frame [OF wf] by (auto simp: promote_def Let_def frame_wf_def syncTail_def)
  have "hash (ce_key e) mod shardCount c = i" using ok e by (auto simp: shard_wf_def s_def)
  then have "shard_wf hash (shardCount c) (Suc (mc_clock c)) i (order s')"
    unfolding s'_def using shard_wf_without [OF ok, of "ce_key e"]
    by (simp, intro shard_wf_Cons) (auto simp: e'_def without_def)
  then show "cache_wf hash (promote i e c)"
    by (intro cache_wf_replace [OF wf i sh rest(1) fields(4)])
      (use rest(2) tail size fields(1) in \<open>simp_all add: s'_def s_def\<close>)
qed

lemma evictBack_wf:
  assumes wf: "cache_wf hash c" and i: "i < metaCacheShardCount" and ne: "order_of c i \<noteq> []"
  shows "cache_wf hash (snd (evictBack i c))" "fst (evictBack i c)"
    and "Suc (mc_size (snd (evictBack i c))) = mc_size c" "mc_capacity (snd (evictBack i c)) = mc_capacity c"
    and "full (snd (evictBack i c)) = full c" "shardCount (snd (evictBack i c)) = shardCount c"
    and "mc_shards (snd (evictBack i c)) = (mc_shards c)[i := (mc_shards c ! i)\<lparr>order := butlast (order_of c i)\<rparr>]"
proof -
  define c' where "c' = snd (evictBack i c)"
  define s where "s = (mc_shards c ! i)\<lparr>order := butlast (order_of c i)\<rparr>"
  have len: "i < length (mc_shards c)" "i < length (tailUsed c)" using wf i by (auto simp: cache_wf_def frame_wf_def)
  have c': "c' = syncTail i ((set_shard i s c)\<lparr>mc_size := mc_size c - 1\<rparr>)" and ev: "fst (evictBack i c)"
    using ne by (simp_all add: c'_def evictBack_def s_def Let_def)
  have "length (order_of c i) \<le> mc_size c"
    using wf member_le_sum_list_map [OF len(1), of "\<lambda>s. length (order s)"] by (simp add: cache_wf_def total_entries_def)
  moreover have "0 < length (order_of c i)" using ne by simp
  moreover have "mc_size c' = mc_size c - 1" "length (order s) = length (order_of c i) - 1" by (simp_all add: c' s_def)
  ultimately have size: "mc_size c' + length (order_of c i) = mc_size c + length (order s)" "Suc (mc_size c') = mc_size c"
    by linarith+
  have "cache_wf hash c'"
    by (rule cache_wf_replace [OF wf i, of _ s])
      (use len size(1) wf_frame [OF wf] shard_wf_butlast [OF wf_shard [OF wf i]] in
        \<open>auto simp: c' syncTail_def frame_wf_def s_def\<close>)
  with size ev show "cache_wf hash (snd (evictBack i c))" "fst (evictBack i c)"
    "Suc (mc_size (snd (evictBack i c))) = mc_size c" "mc_capacity (snd (evictBack i c)) = mc_capacity c"
    "full (snd (evictBack i c)) = full c" "shardCount (snd (evictBack i c)) = shardCount c"
    "mc_shards (snd (evictBack i c)) = (mc_shards c)[i := (mc_shards c ! i)\<lparr>order := butlast (order_of c i)\<rparr>]"
    unfolding c'_def [symmetric] by (simp_all add: c' s_def)
qed

text \<open>The scan for the shard whose tail is oldest.\<close>

lemma oldest_from_spec:
  "oldest_from k us best = Some (j, x) \<Longrightarrow>
   (best = Some (j, x) \<or> (k \<le> j \<and> j < k + length us \<and> us ! (j - k) = Some x))
   \<and> (\<forall>y \<in> set us. \<forall>z. y = Some z \<longrightarrow> x \<le> z) \<and> (\<forall>i z. best = Some (i, z) \<longrightarrow> x \<le> z)"
proof (induction us arbitrary: k best)
  case (Cons u us)
  let ?b = "case u of None \<Rightarrow> best
        | Some x \<Rightarrow> (case best of None \<Rightarrow> Some (k, x) | Some (j, y) \<Rightarrow> if x < y then Some (k, x) else best)"
  from Cons.prems have "oldest_from (Suc k) us ?b = Some (j, x)" by simp
  note IH = Cons.IH [OF this]
  have 1: "best = Some (j, x) \<or> (k \<le> j \<and> j < k + length (u # us) \<and> (u # us) ! (j - k) = Some x)"
    using IH by (auto simp: nth_Cons' split: option.splits if_splits)
  have 2: "x \<le> z" if "u = Some z" for z
    using IH that by (auto split: option.splits if_splits prod.splits)
  have 3: "x \<le> z" if "best = Some (i, z)" for i z
    using IH that by (auto split: option.splits if_splits)
  show ?case using IH 1 2 3 by auto
qed auto

lemma oldest_from_None: "oldest_from k us best = None \<longleftrightarrow> best = None \<and> (\<forall>u \<in> set us. u = None)"
  by (induction us arbitrary: k best) (auto split: option.splits prod.splits)

lemma shard_beyond_empty:
  assumes "cache_wf hash c" "shardCount c \<le> i" "i < metaCacheShardCount"
  shows "order_of c i = []"
proof (rule ccontr)
  assume "order_of c i \<noteq> []"
  then obtain e where "e \<in> set (order_of c i)" by (cases "order_of c i") auto
  with wf_shard [OF assms(1,3)] have "hash (ce_key e) mod shardCount c = i" by (auto simp: shard_wf_def)
  moreover have "0 < shardCount c" using assms(1) by (simp add: cache_wf_def frame_wf_def)
  ultimately show False using assms(2) mod_less_divisor [of "shardCount c" "hash (ce_key e)"] by linarith
qed

lemma oldestShard_Some:
  assumes wf: "cache_wf hash c" and j: "oldestShard c = Some j"
  shows "j < metaCacheShardCount" "order_of c j \<noteq> []"
    and "\<And>i e. i < metaCacheShardCount \<Longrightarrow> e \<in> set (order_of c i) \<Longrightarrow> ce_used (last (order_of c j)) \<le> ce_used e"
proof -
  from j obtain x where x: "oldest_from 0 (take (shardCount c) (tailUsed c)) None = Some (j, x)"
    by (auto simp: oldestShard_def)
  have sc: "shardCount c \<le> metaCacheShardCount" "length (tailUsed c) = metaCacheShardCount"
    using wf by (auto simp: cache_wf_def frame_wf_def)
  note spec = oldest_from_spec [OF x]
  then have jb: "j < shardCount c" "tailUsed c ! j = Some x" by auto
  with sc show "j < metaCacheShardCount" by simp
  with jb wf_tail [OF wf, of j] show ne: "order_of c j \<noteq> []" by (auto simp: tail_of_def split: if_splits)
  have xj: "x = ce_used (last (order_of c j))"
    using jb wf_tail [OF wf \<open>j < metaCacheShardCount\<close>] ne by (simp add: tail_of_def)
  fix i e assume i: "i < metaCacheShardCount" and e: "e \<in> set (order_of c i)"
  then have "\<not> shardCount c \<le> i" using shard_beyond_empty [OF wf _ i] by auto
  then have "Some (ce_used (last (order_of c i))) \<in> set (take (shardCount c) (tailUsed c))"
    using wf_tail [OF wf i] e sc by (auto simp: in_set_conv_nth tail_of_def intro!: exI [of _ i] split: if_splits)
  then have "x \<le> ce_used (last (order_of c i))" using spec by blast
  also have "\<dots> \<le> ce_used e"
    using wf_shard [OF wf i] e by (cases "order_of c i" rule: rev_cases) (auto simp: shard_wf_def sorted_wrt_append)
  finally show "ce_used (last (order_of c j)) \<le> ce_used e" using xj by simp
qed

lemma oldestShard_None:
  assumes wf: "cache_wf hash c" and "oldestShard c = None"
  shows "mc_size c = 0"
proof -
  have sc: "shardCount c \<le> metaCacheShardCount" "length (tailUsed c) = metaCacheShardCount"
      "length (mc_shards c) = metaCacheShardCount"
    using wf by (auto simp: cache_wf_def frame_wf_def)
  have none: "\<forall>u \<in> set (take (shardCount c) (tailUsed c)). u = None"
    using assms(2) oldest_from_None by (auto simp: oldestShard_def)
  have "order_of c i = []" if "i < metaCacheShardCount" for i
  proof (cases "shardCount c \<le> i")
    case False
    then have "take (shardCount c) (tailUsed c) ! i \<in> set (take (shardCount c) (tailUsed c))"
      using sc that by (intro nth_mem) simp
    with none False have "tailUsed c ! i = None" by simp
    then show ?thesis using wf_tail [OF wf that] by (auto simp: tail_of_def split: if_splits)
  qed (rule shard_beyond_empty [OF wf _ that])
  then have "\<forall>s \<in> set (mc_shards c). length (order s) = 0" using sc by (auto simp: in_set_conv_nth)
  then show ?thesis using wf by (simp add: cache_wf_def total_entries_def sum_list_eq_0_iff)
qed

lemma insert_entry_wf:
  assumes wf: "cache_wf hash c" and i: "i < metaCacheShardCount"
    and key: "key \<notin> ce_key ` set (order_of c i)" "hash key mod shardCount c = i"
  shows "cache_wf hash (insert_entry i now key v b c)"
    and "mc_size (insert_entry i now key v b c) = Suc (mc_size c)"
    and "mc_capacity (insert_entry i now key v b c) = mc_capacity c"
    and "shardCount (insert_entry i now key v b c) = shardCount c"
    and "full (insert_entry i now key v b c) = (full c \<or> mc_capacity c \<le> Suc (mc_size c))"
    and "\<exists>e s. mc_shards (insert_entry i now key v b c) = (mc_shards c)[i := s] \<and> order s = e # order_of c i
      \<and> ce_key e = key \<and> ce_value e = v \<and> ce_used e = Suc (mc_clock c)"
proof -
  have len: "i < length (mc_shards c)" "i < length (tailUsed c)" using wf i by (auto simp: cache_wf_def frame_wf_def)
  define s where "s = mc_shards c ! i"
  define e where "e = \<lparr>ce_key = key, ce_value = v, lastPromoted = opSeq s + 1,
            promotedInsertSeq = insertSeq s + 1, ce_used = mc_clock c + 1, insertedAt = (if ttl c > 0 then now else 0)\<rparr>"
  define s' where "s' = s\<lparr>order := e # order s, opSeq := opSeq s + 1, insertSeq := insertSeq s + 1\<rparr>"
  define c' where "c' = insert_entry i now key v b c"
  show fields: "mc_size (insert_entry i now key v b c) = Suc (mc_size c)"
    "mc_capacity (insert_entry i now key v b c) = mc_capacity c" "shardCount (insert_entry i now key v b c) = shardCount c"
    "full (insert_entry i now key v b c) = (full c \<or> mc_capacity c \<le> Suc (mc_size c))"
    by (auto simp: insert_entry_def Let_def)
  have sh: "mc_shards c' = (mc_shards c)[i := s']"
    by (auto simp: c'_def insert_entry_def Let_def s'_def e_def s_def)
  then show "\<exists>e s. mc_shards (insert_entry i now key v b c) = (mc_shards c)[i := s] \<and> order s = e # order_of c i
      \<and> ce_key e = key \<and> ce_value e = v \<and> ce_used e = Suc (mc_clock c)"
    unfolding c'_def by (intro exI [of _ e] exI [of _ s']) (simp add: s'_def e_def s_def)
  have "tail_of (order s') = tail_of (order s)" if "order s \<noteq> []" using that by (simp add: s'_def tail_Cons)
  then have tail: "tailUsed c' = (tailUsed c)[i := tail_of (order s')]"
    using len wf_update_id [OF wf i]
    by (auto simp: c'_def insert_entry_def Let_def syncTail_def s'_def e_def s_def [symmetric])
  have rest: "frame_wf c'" "mc_clock c' = Suc (mc_clock c)"
    using wf_frame [OF wf] by (auto simp: c'_def insert_entry_def Let_def frame_wf_def syncTail_def)
  have "shard_wf hash (shardCount c) (Suc (mc_clock c)) i (order s')"
    unfolding s'_def using wf_shard [OF wf i] key by (simp, intro shard_wf_Cons) (auto simp: e_def s_def)
  then have "cache_wf hash c'"
    by (intro cache_wf_replace [OF wf i sh rest(1)])
      (use rest(2) tail fields(1,3) in \<open>simp_all add: s'_def s_def c'_def\<close>)
  then show "cache_wf hash (insert_entry i now key v b c)" by (simp add: c'_def)
qed

lemma find_key_in: "find (\<lambda>e. ce_key e = key) es = Some e \<Longrightarrow> e \<in> set es \<and> ce_key e = key"
  by (auto simp: find_Some_iff)

lemma find_key_notin: "find (\<lambda>e. ce_key e = key) es = None \<Longrightarrow> key \<notin> ce_key ` set es"
  by (auto simp: find_None_iff)

lemma tail_of_Cons: "tail_of (e # es) = Some (if es = [] then ce_used e else ce_used (last es))"
  by (simp add: tail_of_def)

lemma insert_entry_sel:
  assumes "i < length (mc_shards c)"
  shows "mc_shards (insert_entry i now key v b c) = (mc_shards c)[i := (mc_shards c ! i)\<lparr>
      order := \<lparr>ce_key = key, ce_value = v, lastPromoted = opSeq (mc_shards c ! i) + 1,
            promotedInsertSeq = insertSeq (mc_shards c ! i) + 1, ce_used = mc_clock c + 1,
            insertedAt = (if ttl c > 0 then now else 0)\<rparr> # order_of c i,
      opSeq := opSeq (mc_shards c ! i) + 1, insertSeq := insertSeq (mc_shards c ! i) + 1\<rparr>]"
    and "tailUsed (insert_entry i now key v b c) = (if b \<or> order_of c i = []
      then (tailUsed c)[i := Some (if order_of c i = [] then mc_clock c + 1 else ce_used (last (order_of c i)))]
      else tailUsed c)"
    and "full (insert_entry i now key v b c) = (full c \<or> mc_capacity c \<le> Suc (mc_size c))"
    and "mc_size (insert_entry i now key v b c) = Suc (mc_size c)" "mc_clock (insert_entry i now key v b c) = Suc (mc_clock c)"
    and "mc_capacity (insert_entry i now key v b c) = mc_capacity c" "ttl (insert_entry i now key v b c) = ttl c"
    and "ageThreshold (insert_entry i now key v b c) = ageThreshold c" "shardCount (insert_entry i now key v b c) = shardCount c"
  using assms by (auto simp: insert_entry_def Let_def syncTail_def tail_of_Cons)

lemma expired_insert:
  assumes inv: "cache_inv hash c" and key: "key \<in> ce_key ` set (order_of c i)" and i: "i < metaCacheShardCount"
  shows "insert_entry i now key v (is_back key (order_of c i))
      ((set_shard i ((mc_shards c ! i)\<lparr>order := without key (order_of c i)\<rparr>) c)\<lparr>mc_size := mc_size c - 1\<rparr>)
    = insert_entry i now key v (is_back key (order_of c i)) (removeEntry i key c)"
    (is "insert_entry i now key v ?b ?c0 = insert_entry i now key v ?b ?r")
proof -
  have len: "i < length (mc_shards c)" "i < length (mc_shards ?c0)" "i < length (mc_shards ?r)"
    using inv i removeEntry_wf(5) [OF _ i key, of hash] by (auto simp: cache_inv_def cache_wf_def frame_wf_def)
  have pos: "0 < mc_size c"
    using inv key member_le_sum_list_map [OF len(1), of "\<lambda>s. length (order s)"]
    by (cases "order_of c i") (auto simp: cache_inv_def cache_wf_def total_entries_def)
  have r: "mc_shards ?r = mc_shards ?c0" "mc_size ?r = mc_size ?c0" "mc_clock ?r = mc_clock c" "mc_capacity ?r = mc_capacity c"
    "ttl ?r = ttl c" "ageThreshold ?r = ageThreshold c" "shardCount ?r = shardCount c"
    "tailUsed ?r = (if ?b then (tailUsed c)[i := tail_of (without key (order_of c i))] else tailUsed c)"
    "full ?r = (full c \<and> mc_capacity c \<le> mc_size c - 1)"
    using key len by (auto simp: removeEntry_def Let_def syncTail_def)
  have "order_of c i \<noteq> []" using key by auto
  then have "without key (order_of c i) \<noteq> [] \<or> ?b" by (intro disjCI without_not_Nil)
  then have tails: "tailUsed (insert_entry i now key v ?b ?c0) = tailUsed (insert_entry i now key v ?b ?r)"
    using len by (auto simp: insert_entry_sel r)
  have fulls: "full (insert_entry i now key v ?b ?c0) = full (insert_entry i now key v ?b ?r)"
    using inv pos len by (auto simp: insert_entry_sel r cache_inv_def)
  show ?thesis
    by (rule metaCache.equality) (use tails fulls len in \<open>simp_all add: insert_entry_sel r\<close>)
qed

text \<open>Making room: a cache one over its capacity is brought back to it.\<close>

lemma evict_loop_wf:
  assumes "cache_wf hash c" "mc_size c \<le> mc_capacity c + n"
  shows "cache_wf hash (evict_loop n c) \<and> mc_size (evict_loop n c) \<le> mc_capacity c \<and> mc_capacity (evict_loop n c) = mc_capacity c
    \<and> shardCount (evict_loop n c) = shardCount c \<and> full (evict_loop n c) = full c
    \<and> (mc_capacity c \<le> mc_size c \<longrightarrow> mc_capacity c \<le> mc_size (evict_loop n c))"
  using assms
proof (induction n arbitrary: c)
  case (Suc n)
  show ?case
  proof (cases "mc_size c > mc_capacity c")
    case True
    then obtain i where i: "oldestShard c = Some i" using oldestShard_None [OF Suc.prems(1)] by (cases "oldestShard c") auto
    note ev = evictBack_wf [OF Suc.prems(1) oldestShard_Some(1,2) [OF Suc.prems(1) i]]
    have "mc_size (snd (evictBack i c)) \<le> mc_capacity (snd (evictBack i c)) + n" using ev(3,4) Suc.prems(2) by linarith
    from Suc.IH [OF ev(1) this] ev(3-6) True i show ?thesis by simp
  qed (use Suc.prems in simp)
qed simp

definition made_room :: "('k \<Rightarrow> nat) \<Rightarrow> bool \<Rightarrow> nat \<Rightarrow> ('k, 'v) metaCache \<Rightarrow> ('k, 'v) metaCache" where
  "made_room hash trylock i c =
     (if mc_size c > mc_capacity c
      then (case evictFor trylock i c of (ok, c) \<Rightarrow> if ok then c else evictOverflow c) else c)"

lemma made_room_cases:
  assumes wf: "cache_wf hash c" and i: "i < metaCacheShardCount" and over: "mc_size c = Suc (mc_capacity c)"
  obtains j where "j < metaCacheShardCount" "order_of c j \<noteq> []" "j \<noteq> i \<or> length (order_of c j) > 1"
      "made_room hash trylock i c = snd (evictBack j c)" "trylock \<Longrightarrow> oldestShard c = Some j"
  | "length (order_of c i) \<le> 1" "\<not> trylock \<or> oldestShard c = Some i" "made_room hash trylock i c = evictOverflow c"
proof -
  obtain j where j: "oldestShard c = Some j" using oldestShard_None [OF wf] over by (cases "oldestShard c") auto
  note oj = oldestShard_Some(1,2) [OF wf j]
  note ev = evictBack_wf [OF wf oj]
  consider (other) "j \<noteq> i" "trylock" | (own) "\<not> (j \<noteq> i \<and> trylock)" "length (order_of c i) > 1"
    | (none) "\<not> (j \<noteq> i \<and> trylock)" "length (order_of c i) \<le> 1" by linarith
  then show thesis
  proof cases
    case other
    then have "evictFor trylock i c = (True, snd (evictBack j c))"
      using ev(2) j by (auto simp: evictFor_def Let_def split: prod.splits)
    then have "made_room hash trylock i c = snd (evictBack j c)" using over by (simp add: made_room_def)
    with other oj j that(1) [of j] show thesis by blast
  next
    case own
    then have "order_of c i \<noteq> []" by auto
    note evi = evictBack_wf [OF wf i this]
    have "evictFor trylock i c = (True, snd (evictBack i c))"
      using own evi(2) j by (auto simp: evictFor_def Let_def) (metis prod.collapse)+
    then have "made_room hash trylock i c = snd (evictBack i c)" using over by (simp add: made_room_def)
    with own i \<open>order_of c i \<noteq> []\<close> j that(1) [of i] show thesis by blast
  next
    case none
    then have "evictFor trylock i c = (False, c)" using j by (auto simp: evictFor_def)
    then have "made_room hash trylock i c = evictOverflow c" using over by (simp add: made_room_def)
    with none j that(2) show thesis by blast
  qed
qed

text \<open>
  After an insert the entry in front of its shard carries the newest stamp of the cache, so it is never the one that
  goes: making room is always one \<open>evictBack\<close> on another entry, of the least recently used one when the lock was free.
\<close>

lemma evict_loop_within: "mc_size c \<le> mc_capacity c \<Longrightarrow> evict_loop n c = c"
  by (cases n) auto

lemma made_room_evicts:
  assumes wf: "cache_wf hash c" and i: "i < metaCacheShardCount" and over: "mc_size c = Suc (mc_capacity c)"
    and front: "order_of c i = e # es"
    and fresh: "\<And>j x. j < metaCacheShardCount \<Longrightarrow> x \<in> set (order_of c j) \<Longrightarrow> j \<noteq> i \<or> x \<in> set es \<Longrightarrow> ce_used x < ce_used e"
  obtains j where "j < metaCacheShardCount" "order_of c j \<noteq> []" "j \<noteq> i \<or> length (order_of c j) > 1"
      "made_room hash trylock i c = snd (evictBack j c)" "trylock \<Longrightarrow> oldestShard c = Some j"
proof (rule made_room_cases [OF wf i over, of trylock])
  assume none: "length (order_of c i) \<le> 1" "\<not> trylock \<or> oldestShard c = Some i"
    and room: "made_room hash trylock i c = evictOverflow c"
  obtain j where j: "oldestShard c = Some j" using oldestShard_None [OF wf] over by (cases "oldestShard c") auto
  note oj = oldestShard_Some [OF wf j]
  note ev = evictBack_wf [OF wf oj(1,2)]
  have "j \<noteq> i"
  proof
    assume "j = i"
    have "es = []" using none front by auto
    then have last: "last (order_of c j) = e" using front \<open>j = i\<close> by simp
    have "order_of c k = []" if "k < metaCacheShardCount" "k \<noteq> i" for k
    proof (rule ccontr)
      assume "order_of c k \<noteq> []"
      then obtain x where "x \<in> set (order_of c k)" by (cases "order_of c k") auto
      with oj(3) [OF that(1)] fresh [OF that(1)] that(2) last show False by fastforce
    qed
    then have "total_entries (set_shard i ((mc_shards c ! i)\<lparr>order := []\<rparr>) c) = 0"
      using i wf by (auto simp: total_entries_def sum_list_eq_0_iff in_set_conv_nth cache_wf_def frame_wf_def nth_list_update)
    then have "total_entries c = 1"
      using total_entries_set [of i c "(mc_shards c ! i)\<lparr>order := []\<rparr>"] i wf front \<open>es = []\<close>
      by (simp add: cache_wf_def frame_wf_def)
    moreover have "0 < mc_capacity c" "mc_size c = total_entries c" using wf by (auto simp: cache_wf_def frame_wf_def)
    ultimately show False using over by simp
  qed
  have "evictOverflow c = evict_loop (mc_capacity c) (snd (evictBack j c))"
    using over j by (simp add: evictOverflow_def)
  also have "\<dots> = snd (evictBack j c)" using ev(3,4) over by (intro evict_loop_within) simp
  finally show thesis using that [OF oj(1,2)] \<open>j \<noteq> i\<close> room j by simp
qed (use that in blast)

section \<open>The cache as a map\<close>

definition cache_abs :: "('k \<Rightarrow> nat) \<Rightarrow> ('k, 'v) metaCache \<Rightarrow> 'k \<Rightarrow> 'v option" where
  "cache_abs hash c key = map_option ce_value (cache_load hash key c)"

lemma find_without: "find (\<lambda>e. ce_key e = k) (without key es) = (if k = key then None else find (\<lambda>e. ce_key e = k) es)"
  by (induction es) (auto simp: without_def)

lemma find_append_fresh:
  "ce_key x \<notin> ce_key ` set xs \<Longrightarrow>
   find (\<lambda>e. ce_key e = k) (xs @ [x]) = (if ce_key x = k then Some x else find (\<lambda>e. ce_key e = k) xs)"
  by (induction xs) auto

lemma find_fresh: "k \<notin> ce_key ` set xs \<Longrightarrow> find (\<lambda>e. ce_key e = k) xs = None"
  by (auto simp: find_None_iff image_iff)

lemma find_butlast:
  assumes "distinct (map ce_key es)" "es \<noteq> []"
  shows "find (\<lambda>e. ce_key e = k) (butlast es) = (if k = ce_key (last es) then None else find (\<lambda>e. ce_key e = k) es)"
  using assms by (cases es rule: rev_cases) (auto simp: find_append_fresh find_fresh)

lemma load_replace:
  assumes "frame_wf c" "mc_shards c' = (mc_shards c)[i := s]" "shardCount c' = shardCount c"
  shows "cache_load hash k c' = (if cache_shard hash c k = i then find (\<lambda>e. ce_key e = k) (order s) else cache_load hash k c)"
  using assms cache_shard_bound [OF assms(1), of hash k]
  by (auto simp: cache_load_def cache_shard_def frame_wf_def)

lemma load_in:
  assumes "cache_wf hash c"
  shows "cache_load hash k c = Some e \<Longrightarrow> e \<in> set (order_of c (cache_shard hash c k)) \<and> ce_key e = k"
    and "cache_load hash k c = None \<Longrightarrow> k \<notin> ce_key ` set (order_of c (cache_shard hash c k))"
  by (auto simp: cache_load_def dest: find_key_in find_key_notin)

lemma load_last:
  assumes wf: "cache_wf hash c" and j: "j < metaCacheShardCount" and e: "e \<in> set (order_of c j)"
  shows "cache_load hash (ce_key e) c = Some e" "cache_shard hash c (ce_key e) = j"
proof -
  note ok = wf_shard [OF wf j]
  show sh: "cache_shard hash c (ce_key e) = j" using ok e by (auto simp: shard_wf_def cache_shard_def)
  obtain x where x: "find (\<lambda>x. ce_key x = ce_key e) (order_of c j) = Some x"
    using e by (cases "find (\<lambda>x. ce_key x = ce_key e) (order_of c j)") (auto simp: find_None_iff)
  with find_key_in [OF x] ok e have "x = e" by (auto simp: shard_wf_def distinct_map dest: inj_onD)
  with x sh show "cache_load hash (ce_key e) c = Some e" by (simp add: cache_load_def)
qed

lemma removeEntry_load:
  assumes "cache_wf hash c" "i = cache_shard hash c key" "key \<in> ce_key ` set (order_of c i)"
  shows "cache_load hash k (removeEntry i key c) = (if k = key then None else cache_load hash k c)"
proof -
  have i: "i < metaCacheShardCount" using cache_shard_bound [OF wf_frame [OF assms(1)]] assms by simp
  note re = removeEntry_wf [OF assms(1) i assms(3)]
  show ?thesis
    unfolding load_replace [OF wf_frame [OF assms(1)] re(5,6)]
    using assms(2) by (auto simp: find_without) (simp_all add: cache_load_def)
qed

lemma promote_load:
  assumes "cache_wf hash c" "cache_load hash key c = Some e" "i = cache_shard hash c key"
  shows "cache_abs hash (promote i e c) = cache_abs hash c"
proof
  fix k
  have i: "i < metaCacheShardCount" using cache_shard_bound [OF wf_frame [OF assms(1)]] assms by simp
  have e: "e \<in> set (order_of c i)" "ce_key e = key" using load_in(1) [OF assms(1,2)] assms(3) by auto
  note pr = promote_wf [OF assms(1) i e(1)]
  from pr(6) obtain e' s where s: "mc_shards (promote i e c) = (mc_shards c)[i := s]"
    "order s = e' # without key (order_of c i)" "ce_key e' = key" "ce_value e' = ce_value e" using e by auto
  show "cache_abs hash (promote i e c) k = cache_abs hash c k"
    unfolding cache_abs_def load_replace [OF wf_frame [OF assms(1)] s(1) pr(5)]
    using s assms(2,3) by (auto simp: find_without) (simp_all add: cache_load_def)
qed

lemma evictBack_load:
  assumes wf: "cache_wf hash c" and j: "j < metaCacheShardCount" "order_of c j \<noteq> []"
  shows "cache_load hash k (snd (evictBack j c)) = (if k = ce_key (last (order_of c j)) then None else cache_load hash k c)"
proof -
  note ev = evictBack_wf [OF wf j]
  have "last (order_of c j) \<in> set (order_of c j)" using j by simp
  note last = load_last [OF wf j(1) this]
  have "distinct (map ce_key (order_of c j))" using wf_shard [OF wf j(1)] by (simp add: shard_wf_def)
  note fb = find_butlast [OF this j(2), of k]
  show ?thesis
    unfolding load_replace [OF wf_frame [OF wf] ev(7,6)]
    using fb last(2) by (auto simp: cache_load_def)
qed

lemma insert_entry_load:
  assumes wf: "cache_wf hash c" and i: "i = cache_shard hash c key" and key: "cache_load hash key c = None"
  shows "cache_abs hash (insert_entry i now key v b c) = (cache_abs hash c)(key \<mapsto> v)"
proof
  fix k
  have ib: "i < metaCacheShardCount" using cache_shard_bound [OF wf_frame [OF wf]] i by simp
  have "key \<notin> ce_key ` set (order_of c i)" using load_in(2) [OF wf key] i by simp
  note ins = insert_entry_wf [OF wf ib this, of now v b] 
  have hk: "hash key mod shardCount c = i" using i by (simp add: cache_shard_def)
  from ins(6) [OF hk] obtain e s where s: "mc_shards (insert_entry i now key v b c) = (mc_shards c)[i := s]"
    "order s = e # order_of c i" "ce_key e = key" "ce_value e = v" by blast
  show "cache_abs hash (insert_entry i now key v b c) k = ((cache_abs hash c)(key \<mapsto> v)) k"
    unfolding cache_abs_def load_replace [OF wf_frame [OF wf] s(1) ins(4) [OF hk]]
    using s i by (auto simp: cache_load_def)
qed

lemma removeEntry_inv:
  assumes "cache_inv hash c" "i = cache_shard hash c key" "key \<in> ce_key ` set (order_of c i)"
  shows "cache_inv hash (removeEntry i key c)"
proof -
  have wf: "cache_wf hash c" using assms by (simp add: cache_inv_def)
  have i: "i < metaCacheShardCount" using cache_shard_bound [OF wf_frame [OF wf]] assms by simp
  note re = removeEntry_wf [OF wf i assms(3)]
  then show ?thesis using assms(1) by (auto simp: cache_inv_def)
qed

lemma peek_spec:
  assumes inv: "cache_inv hash c"
  shows "cache_inv hash (snd (cache_peek hash now key c))"
    and "fst (cache_peek hash now key c) =
      (case cache_load hash key c of None \<Rightarrow> None | Some e \<Rightarrow> if expired now c e then None else Some (ce_value e))"
    and "cache_abs hash (snd (cache_peek hash now key c)) =
      (cache_abs hash c)(key := fst (cache_peek hash now key c))"
proof -
  have wf: "cache_wf hash c" using inv by (simp add: cache_inv_def)
  let ?i = "cache_shard hash c key"
  have i: "?i < metaCacheShardCount" using cache_shard_bound [OF wf_frame [OF wf]] by simp
  have "cache_inv hash (snd (cache_peek hash now key c))
    \<and> cache_abs hash (snd (cache_peek hash now key c)) = (cache_abs hash c)(key := fst (cache_peek hash now key c))"
  proof (cases "cache_load hash key c")
    case None
    then show ?thesis using inv by (auto simp: cache_peek_def cache_abs_def)
  next
    case (Some e)
    note e = load_in(1) [OF wf Some]
    then have k: "key \<in> ce_key ` set (order_of c ?i)" by auto
    have abs: "cache_abs hash c key = Some (ce_value e)" using Some by (simp add: cache_abs_def)
    consider "expired now c e" | "\<not> expired now c e" "\<not> full c \<or> \<not> promotionDue (ageThreshold c) (mc_shards c ! ?i) e"
      | "\<not> expired now c e" "\<not> (\<not> full c \<or> \<not> promotionDue (ageThreshold c) (mc_shards c ! ?i) e)" by blast
    then show ?thesis
    proof cases
      case 1
      then show ?thesis
        using Some removeEntry_inv [OF inv refl k] removeEntry_load [OF wf refl k]
        by (auto simp: cache_peek_def Let_def cache_abs_def fun_eq_iff)
    next
      case 2
      then show ?thesis using Some inv abs by (auto simp: cache_peek_def Let_def)
    next
      case 3
      have "cache_inv hash (promote ?i e c)" using promote_wf [OF wf i] e inv by (simp add: cache_inv_def)
      then show ?thesis using 3 Some abs promote_load [OF wf Some refl] by (auto simp: cache_peek_def Let_def)
    qed
  qed
  then show "cache_inv hash (snd (cache_peek hash now key c))"
    "cache_abs hash (snd (cache_peek hash now key c)) = (cache_abs hash c)(key := fst (cache_peek hash now key c))" by auto
  show "fst (cache_peek hash now key c) =
      (case cache_load hash key c of None \<Rightarrow> None | Some e \<Rightarrow> if expired now c e then None else Some (ce_value e))"
    by (auto simp: cache_peek_def Let_def split: option.splits)
qed

lemma remove_spec:
  assumes inv: "cache_inv hash c"
  shows "cache_inv hash (cache_remove hash key p c)"
    and "cache_abs hash (cache_remove hash key p c) = (cache_abs hash c)(key := 
      (case cache_abs hash c key of None \<Rightarrow> None | Some v \<Rightarrow> if p v then None else Some v))"
proof -
  have wf: "cache_wf hash c" using inv by (simp add: cache_inv_def)
  have "cache_inv hash (cache_remove hash key p c) \<and> cache_abs hash (cache_remove hash key p c) = (cache_abs hash c)(key := 
      (case cache_abs hash c key of None \<Rightarrow> None | Some v \<Rightarrow> if p v then None else Some v))"
  proof (cases "cache_load hash key c")
    case None
    then show ?thesis using inv by (auto simp: cache_remove_def cache_abs_def)
  next
    case (Some e)
    then have k: "key \<in> ce_key ` set (order_of c (cache_shard hash c key))" using load_in(1) [OF wf Some] by auto
    show ?thesis
      using Some inv removeEntry_inv [OF inv refl k] removeEntry_load [OF wf refl k]
      by (auto simp: cache_remove_def cache_abs_def fun_eq_iff)
  qed
  then show "cache_inv hash (cache_remove hash key p c)" "cache_abs hash (cache_remove hash key p c) = (cache_abs hash c)(key := 
      (case cache_abs hash c key of None \<Rightarrow> None | Some v \<Rightarrow> if p v then None else Some v))" by auto
qed

text \<open>What an insert loses: nothing while there is room, else one entry, the least recently used if its lock was free.\<close>

definition lost_one :: "('k \<Rightarrow> nat) \<Rightarrow> bool \<Rightarrow> 'k \<Rightarrow> 'v \<Rightarrow> ('k, 'v) metaCache \<Rightarrow> ('k, 'v) metaCache \<Rightarrow> bool" where
  "lost_one hash trylock key v c c' \<longleftrightarrow>
     (if mc_size c < mc_capacity c then cache_abs hash c' = (cache_abs hash c)(key \<mapsto> v)
      else \<exists>e. cache_load hash (ce_key e) c = Some e \<and> ce_key e \<noteq> key
             \<and> cache_abs hash c' = (cache_abs hash c)(key \<mapsto> v, ce_key e := None)
             \<and> (trylock \<longrightarrow> (\<forall>k x. cache_load hash k c = Some x \<longrightarrow> ce_used e \<le> ce_used x)))"

lemma inserted_spec:
  assumes inv: "cache_inv hash c" and none: "cache_load hash key c = None" and i: "i = cache_shard hash c key"
  shows "cache_inv hash (made_room hash trylock i (insert_entry i now key v b c))"
    and "lost_one hash trylock key v c (made_room hash trylock i (insert_entry i now key v b c))"
proof -
  have wf: "cache_wf hash c" and cap: "mc_size c \<le> mc_capacity c" and fl: "full c = (mc_size c \<ge> mc_capacity c)"
    using inv by (auto simp: cache_inv_def)
  have ib: "i < metaCacheShardCount" using cache_shard_bound [OF wf_frame [OF wf]] i by simp
  have hk: "hash key mod shardCount c = i" using i by (simp add: cache_shard_def)
  have nk: "key \<notin> ce_key ` set (order_of c i)" using load_in(2) [OF wf none] i by simp
  define c1 where "c1 = insert_entry i now key v b c"
  note ins = insert_entry_wf [OF wf ib nk hk, of now v b, folded c1_def]
  have abs: "cache_abs hash c1 = (cache_abs hash c)(key \<mapsto> v)"
    unfolding c1_def by (rule insert_entry_load [OF wf i none])
  have "cache_inv hash (made_room hash trylock i c1) \<and> lost_one hash trylock key v c (made_room hash trylock i c1)"
  proof (cases "mc_size c < mc_capacity c")
    case True
    then have "made_room hash trylock i c1 = c1" using ins(2,3) by (simp add: made_room_def)
    then show ?thesis using True ins fl abs by (auto simp: cache_inv_def lost_one_def)
  next
    case False
    then have over: "mc_size c1 = Suc (mc_capacity c1)" using ins(2,3) cap by simp
    from ins(6) obtain e s where s: "mc_shards c1 = (mc_shards c)[i := s]" "order s = e # order_of c i"
        "ce_key e = key" "ce_used e = Suc (mc_clock c)" by blast
    have len: "i < length (mc_shards c)" using wf ib by (simp add: cache_wf_def frame_wf_def)
    have front: "order_of c1 i = e # order_of c i" using s len by simp
    have old: "x \<in> set (order_of c j)" if "x \<in> set (order_of c1 j)" "j \<noteq> i \<or> x \<in> set (order_of c i)" for j x
      using that s len by (cases "j = i") auto
    have fresh: "ce_used x < ce_used e"
      if "j < metaCacheShardCount" "x \<in> set (order_of c1 j)" "j \<noteq> i \<or> x \<in> set (order_of c i)" for j x
      using wf_shard [OF wf that(1)] old [OF that(2,3)] s(4) by (auto simp: shard_wf_def)
    obtain j where j: "j < metaCacheShardCount" "order_of c1 j \<noteq> []" "j \<noteq> i \<or> length (order_of c1 j) > 1"
      "made_room hash trylock i c1 = snd (evictBack j c1)" "trylock \<Longrightarrow> oldestShard c1 = Some j"
      by (rule made_room_evicts [OF ins(1) ib over front, of trylock]) (blast intro: fresh)+
    note ev = evictBack_wf [OF ins(1) j(1,2)]
    let ?x = "last (order_of c1 j)"
    have xin: "?x \<in> set (order_of c1 j)" using j by simp
    moreover have "j \<noteq> i \<or> ?x \<in> set (order_of c i)" using j(3) front by (cases "j = i") auto
    ultimately have xc: "?x \<in> set (order_of c j)" by (rule old)
    note lx = load_last [OF wf j(1) xc]
    have "ce_key ?x \<noteq> key" using lx(1) none by auto
    moreover have "cache_abs hash (snd (evictBack j c1)) = (cache_abs hash c)(key \<mapsto> v, ce_key ?x := None)"
      using abs evictBack_load [OF ins(1) j(1,2)] by (auto simp: cache_abs_def fun_eq_iff)
    moreover have "ce_used ?x \<le> ce_used y" if "trylock" "cache_load hash k c = Some y" for k y
    proof -
      have kb: "cache_shard hash c k < metaCacheShardCount" using cache_shard_bound [OF wf_frame [OF wf]] .
      have "y \<in> set (order_of c1 (cache_shard hash c k))"
        using load_in(1) [OF wf that(2)] s len by (cases "cache_shard hash c k = i") auto
      then show ?thesis using oldestShard_Some(3) [OF ins(1) j(5) [OF that(1)] kb] by blast
    qed
    moreover have "cache_inv hash (snd (evictBack j c1))" using ev ins over False fl cap by (auto simp: cache_inv_def)
    ultimately show ?thesis using False lx(1) j(4) by (auto simp: lost_one_def)
  qed
  then show "cache_inv hash (made_room hash trylock i (insert_entry i now key v b c))"
    "lost_one hash trylock key v c (made_room hash trylock i (insert_entry i now key v b c))"
    by (auto simp: c1_def)
qed

definition stale :: "time \<Rightarrow> ('k, 'v) metaCache \<Rightarrow> ('k, 'v) metaCacheEntry \<Rightarrow> bool" where
  "stale now c e \<longleftrightarrow> \<not> (ttl c = 0 \<or> now - insertedAt e < ttl c)"

lemma stale_expired: "cache_wf hash c \<Longrightarrow> stale now c e = expired now c e"
  by (auto simp: stale_def expired_def cache_wf_def frame_wf_def)

lemma peekOrAdd_cases:
  assumes inv: "cache_inv hash c"
  shows "cache_peekOrAdd hash trylock now key v c =
    (case cache_load hash key c of
       None \<Rightarrow> (None, made_room hash trylock (cache_shard hash c key)
                 (insert_entry (cache_shard hash c key) now key v False c))
     | Some e \<Rightarrow>
         if \<not> expired now c e then (Some (ce_value e), c)
         else (None, made_room hash trylock (cache_shard hash c key)
                 (insert_entry (cache_shard hash c key) now key v (is_back key (order_of c (cache_shard hash c key)))
                   (removeEntry (cache_shard hash c key) key c))))"
proof (cases "cache_load hash key c")
  case None
  then show ?thesis by (simp add: cache_peekOrAdd_def Let_def made_room_def)
next
  case (Some e)
  have wf: "cache_wf hash c" using inv by (simp add: cache_inv_def)
  have i: "cache_shard hash c key < metaCacheShardCount" by (rule cache_shard_bound [OF wf_frame [OF wf]])
  have k: "key \<in> ce_key ` set (order_of c (cache_shard hash c key))" using load_in(1) [OF wf Some] by auto
  have ex: "expired now c e \<longleftrightarrow> \<not> (ttl c = 0 \<or> now - insertedAt e < ttl c)"
    using stale_expired [OF wf] by (simp add: stale_def)
  show ?thesis
    unfolding cache_peekOrAdd_def Let_def Some option.case ex made_room_def expired_insert [OF inv k i] by simp
qed

lemma peekOrAdd_hit:
  assumes "cache_inv hash c" "cache_load hash key c = Some e" "\<not> expired now c e"
  shows "cache_peekOrAdd hash trylock now key v c = (Some (ce_value e), c)"
  using assms by (simp add: peekOrAdd_cases)

lemma peekOrAdd_miss:
  assumes inv: "cache_inv hash c" and none: "cache_load hash key c = None"
  shows "fst (cache_peekOrAdd hash trylock now key v c) = None"
    and "cache_inv hash (snd (cache_peekOrAdd hash trylock now key v c))"
    and "lost_one hash trylock key v c (snd (cache_peekOrAdd hash trylock now key v c))"
  using inserted_spec [OF inv none refl] none by (simp_all add: peekOrAdd_cases [OF inv])

lemma peekOrAdd_expired:
  assumes inv: "cache_inv hash c" and e: "cache_load hash key c = Some e" "expired now c e"
  shows "fst (cache_peekOrAdd hash trylock now key v c) = None"
    and "cache_inv hash (snd (cache_peekOrAdd hash trylock now key v c))"
    and "cache_abs hash (snd (cache_peekOrAdd hash trylock now key v c)) = (cache_abs hash c)(key \<mapsto> v)"
proof -
  have wf: "cache_wf hash c" using inv by (simp add: cache_inv_def)
  let ?i = "cache_shard hash c key"
  have i: "?i < metaCacheShardCount" by (rule cache_shard_bound [OF wf_frame [OF wf]])
  have k: "key \<in> ce_key ` set (order_of c ?i)" using load_in(1) [OF wf e(1)] by auto
  note re = removeEntry_wf [OF wf i k]
  have inv': "cache_inv hash (removeEntry ?i key c)" by (rule removeEntry_inv [OF inv refl k])
  note load' = removeEntry_load [OF wf refl k]
  have sh: "cache_shard hash (removeEntry ?i key c) key = ?i" using re(6) by (simp add: cache_shard_def)
  note ins = inserted_spec [OF inv' _ sh [symmetric], where now = now and v = v and b = "is_back key (order_of c ?i)"]
  have "length (order_of c ?i) \<le> mc_size c" "order_of c ?i \<noteq> []"
    using wf k i member_le_sum_list_map [of ?i "mc_shards c" "\<lambda>s. length (order s)"]
    by (auto simp: cache_wf_def total_entries_def frame_wf_def)
  then have "0 < mc_size c" by (cases "order_of c ?i") auto
  then have room: "mc_size (removeEntry ?i key c) < mc_capacity (removeEntry ?i key c)"
    using re(2,3) inv unfolding cache_inv_def by linarith
  have "cache_abs hash (removeEntry ?i key c) = (cache_abs hash c)(key := None)"
    using load' by (auto simp: cache_abs_def)
  then show "fst (cache_peekOrAdd hash trylock now key v c) = None"
    "cache_inv hash (snd (cache_peekOrAdd hash trylock now key v c))"
    "cache_abs hash (snd (cache_peekOrAdd hash trylock now key v c)) = (cache_abs hash c)(key \<mapsto> v)"
    using ins load' e room by (simp_all add: peekOrAdd_cases [OF inv] lost_one_def)
qed

lemma lost_one_le: "lost_one hash trylock key v c c' \<Longrightarrow> cache_abs hash c' \<subseteq>\<^sub>m (cache_abs hash c)(key \<mapsto> v) \<and> cache_abs hash c' key = Some v"
  by (auto simp: lost_one_def map_le_def split: if_splits)

lemma peekOrAdd_inv:
  assumes "cache_inv hash c"
  shows "cache_inv hash (snd (cache_peekOrAdd hash trylock now key v c))"
proof (cases "cache_load hash key c")
  case (Some e)
  then show ?thesis using peekOrAdd_hit peekOrAdd_expired(2) assms by (cases "expired now c e") fastforce+
qed (rule peekOrAdd_miss(2) [OF assms])

section \<open>Any sequence of operations\<close>

datatype ('k, 'v) cache_op = Peek time 'k | PeekOrAdd bool time 'k 'v | Remove 'k "'v \<Rightarrow> bool"

fun cache_do :: "('k \<Rightarrow> nat) \<Rightarrow> ('k, 'v) cache_op \<Rightarrow> ('k, 'v) metaCache \<Rightarrow> ('k, 'v) metaCache" where
  "cache_do hash (Peek now k) c = snd (cache_peek hash now k c)"
| "cache_do hash (PeekOrAdd trylock now k v) c = snd (cache_peekOrAdd hash trylock now k v c)"
| "cache_do hash (Remove k p) c = cache_remove hash k p c"

text \<open>The reference: an unbounded map of the inserts still valid, which the cache may forget but never contradicts.\<close>

fun map_do :: "('k \<Rightarrow> nat) \<Rightarrow> ('k, 'v) cache_op \<Rightarrow> ('k, 'v) metaCache \<Rightarrow> ('k \<rightharpoonup> 'v) \<Rightarrow> ('k \<rightharpoonup> 'v)" where
  "map_do hash (Peek now k) c m = (if fst (cache_peek hash now k c) = None then m(k := None) else m)"
| "map_do hash (PeekOrAdd trylock now k v) c m = (if fst (cache_peekOrAdd hash trylock now k v c) = None then m(k \<mapsto> v) else m)"
| "map_do hash (Remove k p) c m = (case cache_abs hash c k of None \<Rightarrow> m | Some v \<Rightarrow> if p v then m(k := None) else m)"

fun cache_runs :: "('k \<Rightarrow> nat) \<Rightarrow> ('k, 'v) cache_op list \<Rightarrow> ('k, 'v) metaCache \<times> ('k \<rightharpoonup> 'v) \<Rightarrow> ('k, 'v) metaCache \<times> ('k \<rightharpoonup> 'v)" where
  "cache_runs hash [] s = s"
| "cache_runs hash (x # xs) (c, m) = cache_runs hash xs (cache_do hash x c, map_do hash x c m)"

lemma cache_do_inv: "cache_inv hash c \<Longrightarrow> cache_inv hash (cache_do hash x c)"
  by (cases x) (simp_all add: peek_spec(1) peekOrAdd_inv remove_spec(1))

lemma peekOrAdd_le:
  assumes "cache_inv hash c"
  shows "cache_abs hash (snd (cache_peekOrAdd hash trylock now k v c)) \<subseteq>\<^sub>m
    (if fst (cache_peekOrAdd hash trylock now k v c) = None then (cache_abs hash c)(k \<mapsto> v) else cache_abs hash c)"
    and "fst (cache_peekOrAdd hash trylock now k v c) = None \<Longrightarrow>
      cache_abs hash (snd (cache_peekOrAdd hash trylock now k v c)) k = Some v"
    and "fst (cache_peekOrAdd hash trylock now k v c) \<noteq> None \<Longrightarrow>
      snd (cache_peekOrAdd hash trylock now k v c) = c \<and> fst (cache_peekOrAdd hash trylock now k v c) = cache_abs hash c k"
proof -
  consider "cache_load hash k c = None" | e where "cache_load hash k c = Some e" "expired now c e"
    | e where "cache_load hash k c = Some e" "\<not> expired now c e" by (cases "cache_load hash k c") auto
  then have "cache_abs hash (snd (cache_peekOrAdd hash trylock now k v c)) \<subseteq>\<^sub>m
      (if fst (cache_peekOrAdd hash trylock now k v c) = None then (cache_abs hash c)(k \<mapsto> v) else cache_abs hash c)
    \<and> (if fst (cache_peekOrAdd hash trylock now k v c) = None
       then cache_abs hash (snd (cache_peekOrAdd hash trylock now k v c)) k = Some v
       else snd (cache_peekOrAdd hash trylock now k v c) = c \<and> fst (cache_peekOrAdd hash trylock now k v c) = cache_abs hash c k)"
  proof cases
    case 1
    then show ?thesis using peekOrAdd_miss(1,3) [OF assms 1] lost_one_le by fastforce
  next
    case 2
    then show ?thesis using peekOrAdd_expired(1,3) [OF assms 2] by simp
  next
    case 3
    then show ?thesis using peekOrAdd_hit [OF assms 3] by (simp add: cache_abs_def)
  qed
  then show "cache_abs hash (snd (cache_peekOrAdd hash trylock now k v c)) \<subseteq>\<^sub>m
    (if fst (cache_peekOrAdd hash trylock now k v c) = None then (cache_abs hash c)(k \<mapsto> v) else cache_abs hash c)"
    "fst (cache_peekOrAdd hash trylock now k v c) = None \<Longrightarrow>
      cache_abs hash (snd (cache_peekOrAdd hash trylock now k v c)) k = Some v"
    "fst (cache_peekOrAdd hash trylock now k v c) \<noteq> None \<Longrightarrow>
      snd (cache_peekOrAdd hash trylock now k v c) = c \<and> fst (cache_peekOrAdd hash trylock now k v c) = cache_abs hash c k"
    by auto
qed

lemma map_le_upd: "f \<subseteq>\<^sub>m g \<Longrightarrow> f(k := x) \<subseteq>\<^sub>m g(k := x)"
  by (auto simp: map_le_def)

lemma peek_fst: "cache_inv hash c \<Longrightarrow> fst (cache_peek hash now k c) \<noteq> None \<Longrightarrow> fst (cache_peek hash now k c) = cache_abs hash c k"
  by (cases "cache_load hash k c") (auto simp: peek_spec(2) cache_abs_def split: if_splits)

lemma cache_do_le:
  assumes inv: "cache_inv hash c" and le: "cache_abs hash c \<subseteq>\<^sub>m m"
  shows "cache_abs hash (cache_do hash x c) \<subseteq>\<^sub>m map_do hash x c m"
proof (cases x)
  case (Peek now k)
  show ?thesis
  proof (cases "fst (cache_peek hash now k c)")
    case None
    then show ?thesis using Peek peek_spec(3) [OF inv, of now k] map_le_upd [OF le, of k None] by simp
  next
    case (Some v)
    then have "cache_abs hash (snd (cache_peek hash now k c)) = cache_abs hash c"
      using peek_spec(3) [OF inv, of now k] peek_fst [OF inv, of now k] by (simp add: fun_upd_idem)
    then show ?thesis using Peek Some le by simp
  qed
next
  case (PeekOrAdd t now k v)
  show ?thesis
  proof (cases "fst (cache_peekOrAdd hash t now k v c) = None")
    case True
    then have "cache_abs hash (snd (cache_peekOrAdd hash t now k v c)) \<subseteq>\<^sub>m (cache_abs hash c)(k \<mapsto> v)"
      using peekOrAdd_le(1) [OF inv, of t now k v] by simp
    also have "\<dots> \<subseteq>\<^sub>m m(k \<mapsto> v)" by (rule map_le_upd [OF le])
    finally show ?thesis using PeekOrAdd True by simp
  qed (use PeekOrAdd le peekOrAdd_le(3) [OF inv, of t now k v] in auto)
next
  case (Remove k p)
  show ?thesis
  proof (cases "cache_abs hash c k")
    case None
    then have "cache_abs hash (cache_remove hash k p c) = cache_abs hash c"
      using remove_spec(2) [OF inv, of k p] by (simp add: fun_upd_idem)
    then show ?thesis using Remove le None by simp
  next
    case (Some v)
    then have "cache_abs hash (cache_remove hash k p c) = (cache_abs hash c)(k := if p v then None else Some v)"
      using remove_spec(2) [OF inv, of k p] by simp
    then show ?thesis using Remove le Some map_le_upd [OF le, of k None] by (cases "p v") (simp_all add: fun_upd_idem)
  qed
qed

lemma cache_runs_inv:
  assumes "cache_runs hash ops (c, m) = (c', m')" "cache_inv hash c" "cache_abs hash c \<subseteq>\<^sub>m m"
  shows "cache_inv hash c' \<and> cache_abs hash c' \<subseteq>\<^sub>m m'"
  using assms by (induction ops arbitrary: c m) (auto simp: cache_do_inv cache_do_le)

lemma evictBack_capacity: "mc_capacity (snd (evictBack i c)) = mc_capacity c"
  by (simp add: evictBack_def Let_def)

lemma evict_loop_capacity: "mc_capacity (evict_loop n c) = mc_capacity c"
  by (induction n arbitrary: c) (auto simp: evictBack_capacity split: option.splits)

lemma evictFor_capacity: "mc_capacity (snd (evictFor b i c)) = mc_capacity c"
proof -
  define r where "r = (case oldestShard c of
      Some j \<Rightarrow> if j \<noteq> i \<and> b then evictBack j c else (False, c) | None \<Rightarrow> (False, c))"
  have "mc_capacity (snd r) = mc_capacity c" by (auto simp: r_def evictBack_capacity split: option.splits)
  then show ?thesis
    unfolding evictFor_def r_def [symmetric] by (cases r) (simp add: evictBack_capacity)
qed

lemma made_room_capacity: "mc_capacity (made_room hash b i c) = mc_capacity c"
  using evictFor_capacity [of b i c] by (auto simp: made_room_def evictOverflow_def evict_loop_capacity split: prod.splits)

lemma insert_entry_capacity: "mc_capacity (insert_entry i now key v b c) = mc_capacity c"
  by (simp add: insert_entry_def Let_def)

lemma removeEntry_capacity: "mc_capacity (removeEntry i key c) = mc_capacity c"
  by (simp add: removeEntry_def Let_def)

lemma promote_capacity: "mc_capacity (promote i e c) = mc_capacity c"
  by (simp add: promote_def Let_def)

lemmas capacity_kept = evictBack_capacity made_room_capacity insert_entry_capacity removeEntry_capacity promote_capacity

lemma cache_do_capacity: "cache_inv hash c \<Longrightarrow> mc_capacity (cache_do hash x c) = mc_capacity c"
  by (cases x)
    (auto simp: cache_peek_def cache_remove_def peekOrAdd_cases Let_def capacity_kept split: option.splits)

lemma cache_runs_capacity:
  "cache_runs hash ops (c, m) = (c', m') \<Longrightarrow> cache_inv hash c \<Longrightarrow> mc_capacity c' = mc_capacity c"
  by (induction ops arbitrary: c m) (auto simp: cache_do_inv cache_do_capacity)

lemma abs_dom:
  assumes wf: "cache_wf hash c"
  shows "dom (cache_abs hash c) = (\<Union>i < metaCacheShardCount. ce_key ` set (order_of c i))"
proof (intro equalityI subsetI)
  fix k assume "k \<in> dom (cache_abs hash c)"
  then obtain e where "cache_load hash k c = Some e" by (auto simp: cache_abs_def)
  with load_in(1) [OF wf this] cache_shard_bound [OF wf_frame [OF wf], of hash k]
  show "k \<in> (\<Union>i < metaCacheShardCount. ce_key ` set (order_of c i))" by auto
next
  fix k assume "k \<in> (\<Union>i < metaCacheShardCount. ce_key ` set (order_of c i))"
  then show "k \<in> dom (cache_abs hash c)" using load_last(1) [OF wf] by (fastforce simp: cache_abs_def)
qed

lemma abs_card:
  assumes wf: "cache_wf hash c"
  shows "card (dom (cache_abs hash c)) = mc_size c"
proof -
  let ?n = metaCacheShardCount
  have disj: "\<forall>i \<in> {..<?n}. \<forall>j \<in> {..<?n}. i \<noteq> j \<longrightarrow> ce_key ` set (order_of c i) \<inter> ce_key ` set (order_of c j) = {}"
    by (auto dest: load_last(2) [OF wf]) (metis load_last(2) [OF wf])
  have "card (dom (cache_abs hash c)) = (\<Sum>i < ?n. card (ce_key ` set (order_of c i)))"
    unfolding abs_dom [OF wf] using disj by (intro card_UN_disjoint) auto
  also have "\<dots> = (\<Sum>i < ?n. length (order_of c i))"
  proof (rule sum.cong [OF refl])
    fix i assume "i \<in> {..<?n}"
    then have "distinct (map ce_key (order_of c i))" using wf_shard [OF wf, of i] by (simp add: shard_wf_def)
    then show "card (ce_key ` set (order_of c i)) = length (order_of c i)" using distinct_card by fastforce
  qed
  also have "\<dots> = mc_size c"
    using wf by (simp add: cache_wf_def frame_wf_def total_entries_def sum_list_sum_nth atLeast0LessThan)
  finally show ?thesis .
qed

lemma cache_reached:
  fixes c :: "('k, 'v) metaCache"
  assumes "0 \<le> t" "cache_runs hash ops (newMetaCache n t, Map.empty) = (c, m)"
  shows "cache_inv hash c" "cache_abs hash c \<subseteq>\<^sub>m m" "mc_capacity c = max n 1"
proof -
  define c0 :: "('k, 'v) metaCache" where "c0 = newMetaCache n t"
  note runs = assms(2) [folded c0_def]
  have inv: "cache_inv hash c0" unfolding c0_def by (rule new_cache_inv [OF assms(1)])
  then have wf: "cache_wf hash c0" by (simp add: cache_inv_def)
  have "mc_size c0 = 0" by (simp add: c0_def newMetaCache_def Let_def)
  with abs_card [OF wf] have "card (dom (cache_abs hash c0)) = 0" by simp
  moreover have "finite (dom (cache_abs hash c0))" unfolding abs_dom [OF wf] by simp
  ultimately have "cache_abs hash c0 = Map.empty" by simp
  then have "cache_abs hash c0 \<subseteq>\<^sub>m Map.empty" by (simp only: map_le_refl)
  from cache_runs_inv [OF runs inv this] show "cache_inv hash c" "cache_abs hash c \<subseteq>\<^sub>m m" by auto
  show "mc_capacity c = max n 1" using cache_runs_capacity [OF runs inv] by (simp add: c0_def newMetaCache_def Let_def)
qed

lemma new_cache_empty:
  assumes "0 \<le> t"
  shows "cache_abs hash (newMetaCache n t) = Map.empty"
proof -
  have "cache_abs hash (newMetaCache n t) \<subseteq>\<^sub>m Map.empty" by (rule cache_reached(2) [OF assms, of _ "[]"]) simp
  from map_le_implies_dom_le [OF this] show ?thesis by simp
qed

text \<open>
  (C10) The cache refines an unbounded map: whatever sequence of lookups, inserts and removals runs on a new cache, every value
  it holds is the one last inserted under its key and not since removed or expired, and it holds at most its capacity.
\<close>

theorem cache_refines_map:
  assumes "0 \<le> t" "cache_runs hash ops (newMetaCache n t, Map.empty) = (c, m)"
  shows "cache_abs hash c \<subseteq>\<^sub>m m \<and> card (dom (cache_abs hash c)) = mc_size c \<and> mc_size c \<le> max n 1"
  using cache_reached [OF assms] abs_card [of hash c] unfolding cache_inv_def by simp

definition cache_example :: "(nat, nat) metaCache \<times> (nat \<rightharpoonup> nat)" where
  "cache_example = cache_runs (\<lambda>k. k)
     [PeekOrAdd True 0 1 10, PeekOrAdd True 1 2 20, PeekOrAdd True 2 3 30, Peek 3 2] (newMetaCache 2 0, Map.empty)"

theorem cache_refines_map_witness:
  "cache_abs (\<lambda>k. k) (fst cache_example) \<subseteq>\<^sub>m snd cache_example \<and> mc_size (fst cache_example) \<le> 2
   \<and> map (cache_abs (\<lambda>k. k) (fst cache_example)) [1, 2, 3] = [None, Some 20, Some 30]"
proof (intro conjI)
  have run: "cache_runs (\<lambda>k. k)
      [PeekOrAdd True 0 1 10, PeekOrAdd True 1 2 20, PeekOrAdd True 2 3 30, Peek 3 2] (newMetaCache 2 0, Map.empty)
    = (fst cache_example, snd cache_example)" by (simp add: cache_example_def)
  from cache_refines_map [OF _ run]
  show "cache_abs (\<lambda>k. k) (fst cache_example) \<subseteq>\<^sub>m snd cache_example" "mc_size (fst cache_example) \<le> 2" by simp_all
  show "map (cache_abs (\<lambda>k. k) (fst cache_example)) [1, 2, 3] = [None, Some 20, Some 30]" by code_simp
qed

text \<open>
  An insert of a new key into a full cache loses exactly one entry, never the new one, and loses the least recently
  used entry of the whole cache whenever that entry's shard is not locked by someone else; with room left it loses
  nothing.
\<close>

theorem insert_evicts_lru:
  assumes "0 \<le> t" "cache_runs hash ops (newMetaCache n t, Map.empty) = (c, m)" "cache_load hash key c = None"
    and "cache_peekOrAdd hash trylock now key v c = (r, c')"
  shows "r = None \<and> (if mc_size c < max n 1 then cache_abs hash c' = (cache_abs hash c)(key \<mapsto> v)
    else \<exists>e. cache_load hash (ce_key e) c = Some e \<and> ce_key e \<noteq> key
      \<and> cache_abs hash c' = (cache_abs hash c)(key \<mapsto> v, ce_key e := None)
      \<and> (trylock \<longrightarrow> (\<forall>k x. cache_load hash k c = Some x \<longrightarrow> ce_used e \<le> ce_used x)))"
  using peekOrAdd_miss(1,3) [OF cache_reached(1) [OF assms(1,2)] assms(3), where trylock = trylock and now = now and v = v] assms(4)
    cache_reached(3) [OF assms(1,2)] by (simp add: lost_one_def)

theorem insert_evicts_lru_witness:
  "\<exists>e. cache_load (\<lambda>k. k) (ce_key e) (fst cache_example) = Some e
     \<and> cache_abs (\<lambda>k. k) (snd (cache_peekOrAdd (\<lambda>k. k) True 4 4 40 (fst cache_example)))
       = (cache_abs (\<lambda>k. k) (fst cache_example))(4 \<mapsto> 40, ce_key e := None)"
proof -
  have run: "cache_runs (\<lambda>k. k)
      [PeekOrAdd True 0 1 10, PeekOrAdd True 1 2 20, PeekOrAdd True 2 3 30, Peek 3 2] (newMetaCache 2 0, Map.empty)
    = (fst cache_example, snd cache_example)" by (simp add: cache_example_def)
  have "cache_load (\<lambda>k. k) 4 (fst cache_example) = None" "\<not> mc_size (fst cache_example) < max 2 1" by code_simp+
  with insert_evicts_lru [OF _ run this(1) prod.collapse [symmetric], of True 4 40] show ?thesis by auto
qed

end
