(* ===== verification/Id_Gen.thy ===== *)
theory Id_Gen
  imports Pinpoint_Prelude
begin

text \<open>
  The metadata id sequence (\<^verbatim>\<open>idGen\<close> of \<^verbatim>\<open>src/meta.go\<close>): an int32 counter shared by all goroutines and a latch that
  stops it for good once it wraps. The counter is a 32-bit word; the atomic load, add and latch of one call are separate
  steps of \<open>id_step\<close>, so that calls interleave as they do in the agent.
\<close>

record idGen =
  ig_id :: go_int32
  ig_wrapped :: bool

definition new_idGen :: idGen where
  "new_idGen = \<lparr>ig_id = 0, ig_wrapped = False\<rparr>"

definition idGen_next :: "idGen \<Rightarrow> go_int32 \<times> idGen" where
  "idGen_next g =
     (if ig_wrapped g then (0, g)
      else let i = ig_id g + 1; g = g\<lparr>ig_id := i\<rparr>
           in if 0 <s i then (i, g) else (0, g\<lparr>ig_wrapped := True\<rparr>))"

section \<open>Interleaved calls\<close>

datatype id_pc = IDone | ILoaded | IOver

record id_run =
  ir_gen :: idGen
  ir_pcs :: "id_pc list"
  issued :: "go_int32 list"

definition init_ids :: "nat \<Rightarrow> id_run" where
  "init_ids n = \<lparr>ir_gen = new_idGen, ir_pcs = replicate n IDone, issued = []\<rparr>"

inductive id_step :: "id_run \<Rightarrow> id_run \<Rightarrow> bool" where
  load: "i < length (ir_pcs s) \<Longrightarrow> ir_pcs s ! i = IDone \<Longrightarrow> \<not> ig_wrapped (ir_gen s) \<Longrightarrow>
    id_step s (s\<lparr>ir_pcs := (ir_pcs s)[i := ILoaded]\<rparr>)"
| add: "i < length (ir_pcs s) \<Longrightarrow> ir_pcs s ! i = ILoaded \<Longrightarrow> x = ig_id (ir_gen s) + 1 \<Longrightarrow> 0 <s x \<Longrightarrow>
    id_step s (s\<lparr>ir_gen := (ir_gen s)\<lparr>ig_id := x\<rparr>, ir_pcs := (ir_pcs s)[i := IDone], issued := issued s @ [x]\<rparr>)"
| over: "i < length (ir_pcs s) \<Longrightarrow> ir_pcs s ! i = ILoaded \<Longrightarrow> x = ig_id (ir_gen s) + 1 \<Longrightarrow> \<not> 0 <s x \<Longrightarrow>
    id_step s (s\<lparr>ir_gen := (ir_gen s)\<lparr>ig_id := x\<rparr>, ir_pcs := (ir_pcs s)[i := IOver]\<rparr>)"
| latch: "i < length (ir_pcs s) \<Longrightarrow> ir_pcs s ! i = IOver \<Longrightarrow>
    id_step s (s\<lparr>ir_gen := (ir_gen s)\<lparr>ig_wrapped := True\<rparr>, ir_pcs := (ir_pcs s)[i := IDone]\<rparr>)"

inductive_cases id_stepE: "id_step s s'"

text \<open>A goroutine alone runs exactly \<open>idGen_next\<close>.\<close>

lemma next_is_steps:
  assumes "idGen_next g = (x, g')" "\<not> ig_wrapped g"
  shows "id_step\<^sup>*\<^sup>* \<lparr>ir_gen = g, ir_pcs = [IDone], issued = xs\<rparr>
    \<lparr>ir_gen = g', ir_pcs = [IDone], issued = xs @ (if x = 0 then [] else [x])\<rparr>"
proof -
  have one: "id_step \<lparr>ir_gen = g, ir_pcs = [IDone], issued = xs\<rparr> \<lparr>ir_gen = g, ir_pcs = [ILoaded], issued = xs\<rparr>"
    using id_step.load [of 0 "\<lparr>ir_gen = g, ir_pcs = [IDone], issued = xs\<rparr>"] assms(2) by simp
  show ?thesis
  proof (cases "0 <s ig_id g + 1")
    case True
    then have "x = ig_id g + 1" "g' = g\<lparr>ig_id := ig_id g + 1\<rparr>" "x \<noteq> 0"
      using assms by (auto simp: idGen_next_def Let_def)
    then show ?thesis
      using id_step.add [of 0 "\<lparr>ir_gen = g, ir_pcs = [ILoaded], issued = xs\<rparr>" x] True
        one by (auto intro: rtranclp.intros)
  next
    case False
    then have g': "g' = g\<lparr>ig_id := ig_id g + 1, ig_wrapped := True\<rparr>" "x = 0"
      using assms by (auto simp: idGen_next_def Let_def)
    have "id_step \<lparr>ir_gen = g, ir_pcs = [ILoaded], issued = xs\<rparr>
        \<lparr>ir_gen = g\<lparr>ig_id := ig_id g + 1\<rparr>, ir_pcs = [IOver], issued = xs\<rparr>"
      using id_step.over [of 0 "\<lparr>ir_gen = g, ir_pcs = [ILoaded], issued = xs\<rparr>" "ig_id g + 1"] False by simp
    moreover have "id_step \<lparr>ir_gen = g\<lparr>ig_id := ig_id g + 1\<rparr>, ir_pcs = [IOver], issued = xs\<rparr>
        \<lparr>ir_gen = g', ir_pcs = [IDone], issued = xs\<rparr>"
      using id_step.latch [of 0 "\<lparr>ir_gen = g\<lparr>ig_id := ig_id g + 1\<rparr>, ir_pcs = [IOver], issued = xs\<rparr>"] g' by simp
    ultimately show ?thesis using one g'(2) by (auto intro: rtranclp.intros)
  qed
qed

section \<open>No id is issued twice\<close>

lemma sless_of_nat:
  assumes "k < 2 ^ 32"
  shows "(0 :: 32 word) <s of_nat k \<longleftrightarrow> 0 < k \<and> k < 2 ^ 31"
proof -
  have u: "uint (of_nat k :: 32 word) = int k" using assms by (simp add: unsigned_of_nat take_bit_nat_eq_self)
  have "sint (of_nat k :: 32 word) = (int k + 2 ^ 31) mod 2 ^ 32 - 2 ^ 31"
    unfolding sint_uint u by (simp add: signed_take_bit_eq_take_bit_shift take_bit_eq_mod)
  moreover have "(int k + 2 ^ 31) mod 2 ^ 32 = (if k < 2 ^ 31 then int k + 2 ^ 31 else int k - 2 ^ 31)"
  proof (cases "k < 2 ^ 31")
    case False
    then have "(int k + 2 ^ 31) mod 2 ^ 32 = (int k - 2 ^ 31 + 1 * 2 ^ 32) mod 2 ^ 32" by (simp add: add.commute)
    also have "\<dots> = (int k - 2 ^ 31) mod 2 ^ 32" by (rule mod_mult_self1)
    finally show ?thesis using False assms by simp
  qed simp
  ultimately have "sint (of_nat k :: 32 word) = (if k < 2 ^ 31 then int k else int k - 2 ^ 32)" by simp
  then show ?thesis using assms unfolding word_sless_alt by auto
qed

definition num_at :: "id_pc \<Rightarrow> id_run \<Rightarrow> nat" where
  "num_at p s = length (filter (\<lambda>q. q = p) (ir_pcs s))"

definition ids_inv :: "nat \<Rightarrow> id_run \<Rightarrow> nat \<Rightarrow> bool" where
  "ids_inv n s adds \<longleftrightarrow>
     length (ir_pcs s) = n \<and> ig_id (ir_gen s) = of_nat adds
     \<and> issued s = map of_nat [1..<Suc (min adds (2 ^ 31 - 1))]
     \<and> (if ig_wrapped (ir_gen s) then 2 ^ 31 \<le> adds \<and> adds + num_at ILoaded s < 2 ^ 31 + n
        else adds < 2 ^ 31 + num_at IOver s \<and> (0 < num_at IOver s \<longrightarrow> 2 ^ 31 \<le> adds))"

lemma num_at_update:
  assumes "i < length (ir_pcs s)" "ir_pcs s ! i = p"
  shows "num_at q (s\<lparr>ir_pcs := (ir_pcs s)[i := r]\<rparr>) + (if p = q then 1 else 0) = num_at q s + (if r = q then 1 else 0)"
proof -
  have split: "ir_pcs s = take i (ir_pcs s) @ p # drop (Suc i) (ir_pcs s)" using assms id_take_nth_drop by blast
  have "(ir_pcs s)[i := r] = take i (ir_pcs s) @ r # drop (Suc i) (ir_pcs s)" using assms(1) by (rule upd_conv_take_nth_drop)
  then show ?thesis by (subst (2) num_at_def, subst split) (simp add: num_at_def)
qed

lemma num_at_cong: "ir_pcs s = ir_pcs s' \<Longrightarrow> num_at p s = num_at p s'"
  by (simp add: num_at_def)

lemma num_at_bound: "num_at ILoaded s + num_at IOver s \<le> length (ir_pcs s)"
proof -
  have "length (filter (\<lambda>q. q = ILoaded) ps) + length (filter (\<lambda>q. q = IOver) ps) \<le> length ps" for ps
    by (induction ps) auto
  then show ?thesis by (simp add: num_at_def)
qed

lemma ids_inv_bound: "ids_inv n s adds \<Longrightarrow> adds + num_at ILoaded s < 2 ^ 31 + n"
  using num_at_bound [of s] by (auto simp: ids_inv_def split: if_splits)

lemma ids_inv_step:
  assumes "id_step s s'" "ids_inv n s adds" "n \<le> 2 ^ 31"
  shows "\<exists>adds'. ids_inv n s' adds'"
  using assms(1)
proof (cases rule: id_step.cases)
  case (load i)
  then have "ids_inv n s' adds"
    using assms(2) num_at_update [OF load(2,3), of ILoaded ILoaded] num_at_update [OF load(2,3), of IOver ILoaded]
    by (simp add: ids_inv_def)
  then show ?thesis ..
next
  case (add i x)
  have num: "Suc (num_at ILoaded s') = num_at ILoaded s" "num_at IOver s' = num_at IOver s"
    using num_at_update [OF add(2,3), of ILoaded IDone] num_at_update [OF add(2,3), of IOver IDone] add(1)
    by (simp_all add: num_at_def)
  have x: "x = of_nat (Suc adds)" using add assms(2) by (simp add: ids_inv_def add.commute)
  have "Suc adds < 2 ^ 32" using ids_inv_bound [OF assms(2)] num(1) assms(3) by simp
  then have "Suc adds < 2 ^ 31" using add(5) sless_of_nat [of "Suc adds"] x by simp
  then have "ids_inv n s' (Suc adds)"
    using add assms(2) num x by (auto simp: ids_inv_def min_def)
  then show ?thesis ..
next
  case (over i x)
  have num: "Suc (num_at ILoaded s') = num_at ILoaded s" "num_at IOver s' = Suc (num_at IOver s)"
    using num_at_update [OF over(2,3), of ILoaded IOver] num_at_update [OF over(2,3), of IOver IOver] over(1)
    by (simp_all add: num_at_def)
  have x: "x = of_nat (Suc adds)" using over assms(2) by (simp add: ids_inv_def add.commute)
  have "Suc adds < 2 ^ 32" using ids_inv_bound [OF assms(2)] num(1) assms(3) by simp
  then have "2 ^ 31 \<le> Suc adds" using over(5) sless_of_nat [of "Suc adds"] x by simp
  then have "min (Suc adds) (2 ^ 31 - 1) = min adds (2 ^ 31 - 1)" by simp
  then have "ids_inv n s' (Suc adds)"
    using over assms(2) num x ids_inv_bound [OF assms(2)] by (auto simp: ids_inv_def)
  then show ?thesis ..
next
  case (latch i)
  have num: "num_at ILoaded s' = num_at ILoaded s" "Suc (num_at IOver s') = num_at IOver s"
    using num_at_update [OF latch(2,3), of ILoaded IDone] num_at_update [OF latch(2,3), of IOver IDone] latch(1)
    by (simp_all add: num_at_def)
  have "2 ^ 31 \<le> adds" using assms(2) num(2) by (auto simp: ids_inv_def split: if_splits)
  then have "ids_inv n s' adds"
    using latch assms(2) num ids_inv_bound [OF assms(2)] by (simp add: ids_inv_def)
  then show ?thesis ..
qed

lemma ids_inv_reach:
  assumes "id_step\<^sup>*\<^sup>* (init_ids n) s" "n \<le> 2 ^ 31"
  shows "\<exists>adds. ids_inv n s adds"
  using assms(1)
proof (induction rule: rtranclp_induct)
  case base
  have "ids_inv n (init_ids n) 0" by (simp add: ids_inv_def init_ids_def new_idGen_def num_at_def)
  then show ?case ..
next
  case (step s s')
  then show ?case using ids_inv_step assms(2) by blast
qed

lemma unat_of_nat_small: "n < 2 ^ 31 \<Longrightarrow> unat (of_nat n :: 32 word) = n"
  by (simp add: unsigned_of_nat take_bit_nat_eq_self)

lemma distinct_of_nat:
  assumes "n < 2 ^ 31"
  shows "distinct (map (of_nat :: nat \<Rightarrow> 32 word) [1..<Suc n])"
proof -
  have "inj_on (of_nat :: nat \<Rightarrow> 32 word) {1..<Suc n}"
    by (rule inj_on_inverseI [of _ unat]) (use assms unat_of_nat_small in simp)
  then show ?thesis by (simp add: distinct_map del: upt_Suc)
qed

text \<open>
  However many goroutines (up to \<open>2\<^sup>31\<close>) draw from one sequence, through the wrap of the int32 counter and past it, the ids
  handed out are 1, 2, 3, \<dots> in order: none is zero or negative and none is ever issued twice. At most \<open>2\<^sup>31 - 1\<close> are.
\<close>

theorem ids_never_recycled:
  assumes "id_step\<^sup>*\<^sup>* (init_ids n) s" "n \<le> 2 ^ 31"
  shows "issued s = map of_nat [1..<Suc (length (issued s))] \<and> length (issued s) < 2 ^ 31
    \<and> distinct (issued s) \<and> 0 \<notin> set (issued s)"
proof -
  obtain adds where inv: "ids_inv n s adds" using ids_inv_reach [OF assms] ..
  define k where "k = min adds (2 ^ 31 - 1)"
  have k: "k < 2 ^ 31" by (simp add: k_def)
  have ids: "issued s = map of_nat [1..<Suc k]" using inv by (simp add: ids_inv_def k_def)
  then have "length (issued s) = k" by simp
  moreover have "(of_nat i :: 32 word) \<noteq> 0" if "i \<in> set [1..<Suc k]" for i
  proof
    assume "(of_nat i :: 32 word) = 0"
    then have "unat (of_nat i :: 32 word) = 0" by simp
    moreover have "i < 2 ^ 31" "0 < i" using that k by auto
    ultimately show False using unat_of_nat_small by simp
  qed
  ultimately show ?thesis using ids k distinct_of_nat [OF k] by (simp del: upt_Suc) force
qed

definition two_draws :: id_run where
  "two_draws = \<lparr>ir_gen = \<lparr>ig_id = 2, ig_wrapped = False\<rparr>, ir_pcs = [IDone, IDone], issued = [1, 2]\<rparr>"

lemma two_draws_reached: "id_step\<^sup>*\<^sup>* (init_ids 2) two_draws"
proof -
  let ?s = "\<lambda>g ps xs. \<lparr>ir_gen = \<lparr>ig_id = g, ig_wrapped = False\<rparr>, ir_pcs = ps, issued = xs\<rparr>"
  have "init_ids 2 = ?s 0 [IDone, IDone] []" by (simp add: init_ids_def new_idGen_def numeral_2_eq_2)
  moreover have "id_step (?s 0 [IDone, IDone] []) (?s 0 [ILoaded, IDone] [])"
    using id_step.load [of 0 "?s 0 [IDone, IDone] []"] by simp
  moreover have "id_step (?s 0 [ILoaded, IDone] []) (?s 0 [ILoaded, ILoaded] [])"
    using id_step.load [of 1 "?s 0 [ILoaded, IDone] []"] by simp
  moreover have "id_step (?s 0 [ILoaded, ILoaded] []) (?s 1 [ILoaded, IDone] [1])"
    using id_step.add [of 1 "?s 0 [ILoaded, ILoaded] []" 1] by (simp add: word_sless_alt)
  moreover have "id_step (?s 1 [ILoaded, IDone] [1]) (?s 2 [IDone, IDone] [1, 2])"
    using id_step.add [of 0 "?s 1 [ILoaded, IDone] [1]" 2] by (simp add: word_sless_alt)
  ultimately show ?thesis unfolding two_draws_def by (auto intro: rtranclp.intros)
qed

theorem ids_never_recycled_witness: "distinct (issued two_draws) \<and> 0 \<notin> set (issued two_draws)"
  using ids_never_recycled [OF two_draws_reached] by simp

end
