(* ===== verification/Lifecycle.thy ===== *)
theory Lifecycle
  imports Pinpoint_Prelude
begin

text \<open>
  The agent's life (\<^verbatim>\<open>src/lifecycle.go\<close>, and \<open>connectGrpcServer\<close>, \<open>superviseWorker\<close>, \<open>signalShutdown\<close>, \<open>waitWorkers\<close>, \<open>shutdownAgent\<close> of
  \<^verbatim>\<open>src/agent.go\<close>): the phase and its compare-and-swap edges, and the goroutine that registers the agent, the workers it starts and the goroutine
  that shuts the agent down, which take their steps in any interleaving. The retry loop of the registration and the restart of a worker that
  panicked may go round without end; \<open>shutdownOnce\<close> admits one run of the teardown.
\<close>

section \<open>Phases\<close>

datatype agentPhase = phaseRegistering | phaseRunning | phaseStopping | phaseStopped | phaseFailed

fun agentPhase_String :: "agentPhase \<Rightarrow> string" where
  "agentPhase_String phaseRegistering = ''registering''"
| "agentPhase_String phaseRunning = ''running''"
| "agentPhase_String phaseStopping = ''stopping''"
| "agentPhase_String phaseStopped = ''stopped''"
| "agentPhase_String phaseFailed = ''failed''"

definition cas :: "agentPhase \<Rightarrow> agentPhase \<Rightarrow> agentPhase \<Rightarrow> bool \<times> agentPhase" where
  "cas from to phase = (if phase = from then (True, to) else (False, phase))"

text \<open>The target \<open>beginShutdown\<close> picks for the phase it found, \<open>None\<close> to return at once.\<close>

fun shutdown_target :: "agentPhase \<Rightarrow> agentPhase option" where
  "shutdown_target phaseRunning = Some phaseStopping"
| "shutdown_target phaseRegistering = Some phaseStopped"
| "shutdown_target phaseFailed = Some phaseStopped"
| "shutdown_target phaseStopping = None"
| "shutdown_target phaseStopped = None"

definition tracingEnabled :: "agentPhase \<Rightarrow> bool" where
  "tracingEnabled p \<longleftrightarrow> p = phaseRunning"

definition workerContinues :: "agentPhase \<Rightarrow> bool" where
  "workerContinues p \<longleftrightarrow> p = phaseRunning \<or> p = phaseStopping"

definition stopping :: "agentPhase \<Rightarrow> bool" where
  "stopping p \<longleftrightarrow> p = phaseStopping \<or> p = phaseStopped"

section \<open>The goroutines\<close>

text \<open>
  Where \<open>connectGrpcServer\<close> is: dialling the agent connection; at the head of the registration loop, with an attempt in flight, in the pause, at
  the head of the loop that waits for the connection and in that wait; dialling the other connections; registered; about to start
  the workers; in the deferred release, past the failed transition, or returned (\<open>connectWg.Done\<close>).
\<close>

datatype connect_pc =
    CDial | CLoop | CSending | CPause | CReady | CWait | CDialRest | CRegistered | CStartWorkers | CDefer | CRelease | CFinished

text \<open>The places where \<open>connect\<close> can return an error or panic before its transition.\<close>

fun may_fail :: "connect_pc \<Rightarrow> bool" where
  "may_fail CRegistered = False"
| "may_fail CStartWorkers = False"
| "may_fail CDefer = False"
| "may_fail CRelease = False"
| "may_fail CFinished = False"
| "may_fail _ = True"

text \<open>
  Where \<open>shutdownAgent\<close> is; \<open>SCas\<close> carries the phase \<open>beginShutdown\<close> read and the one it moves to, \<open>SWaitWorkers\<close> the worker
  \<open>waitWorkers\<close> is at.
\<close>

datatype shutdown_pc =
    SIdle | SFlush | SRead | SCas agentPhase agentPhase | SCancel | SWaitConnect | SReleaseGlobal | SCasStopped
  | STeardown | SCloseCmd | SWaitWorkers nat | SCloseGrpc | SDone

text \<open>Where \<open>superviseWorker\<close> is: in the body, in the delay before a restart, or returned.\<close>

datatype worker_pc = WBody | WDelay | WExited

text \<open>The workers of \<open>workerTable\<close> that are started, by name; the last one for a positive refresh interval only.\<close>

definition workerTable :: "bool \<Rightarrow> string list" where
  "workerTable refreshes =
     [''ping'', ''span batch'', ''command'', ''meta'', ''collect agent stat'', ''collect uri stat'', ''send uri stat'', ''send stats'']
     @ (if refreshes then [''agent info refresh''] else [])"

record life =
  phase :: agentPhase
  con :: connect_pc
  shut :: shutdown_pc
  is_global :: bool
  config_closed :: bool
  stop_cancelled :: bool
  workers_started :: bool
  workers :: "(string \<times> worker_pc) list"
  flushed :: bool
  queue_closed :: bool
  cmd_closed :: bool
  wait_expired :: bool
  grpc_closed :: bool

definition init_life :: life where
  "init_life = \<lparr>phase = phaseRegistering, con = CDial, shut = SIdle, is_global = True, config_closed = False,
     stop_cancelled = False, workers_started = False, workers = [], flushed = False, queue_closed = False, cmd_closed = False,
     wait_expired = False, grpc_closed = False\<rparr>"

definition startWorkers :: "string list \<Rightarrow> (string \<times> worker_pc) list" where
  "startWorkers names = map (\<lambda>n. (n, WBody)) names"

definition set_worker :: "nat \<Rightarrow> worker_pc \<Rightarrow> life \<Rightarrow> life" where
  "set_worker i pc s = s\<lparr>workers := (workers s)[i := (fst (workers s ! i), pc)]\<rparr>"

definition worker_at :: "life \<Rightarrow> nat \<Rightarrow> worker_pc \<Rightarrow> bool" where
  "worker_at s i pc \<longleftrightarrow> i < length (workers s) \<and> snd (workers s ! i) = pc"

definition runningWorkerNames :: "life \<Rightarrow> string list" where
  "runningWorkerNames s = map fst (filter (\<lambda>w. snd w \<noteq> WExited) (workers s))"

text \<open>
  The registration loop: an attempt is answered, at the latest when its deadline passes; a pause ends with the timer, or with the
  stop signal; a wait for the connection ends ready, or not, by its timeout or the signal, and then the phase decides.
\<close>

inductive life_step :: "life \<Rightarrow> life \<Rightarrow> bool" where
  connect_fails: "may_fail (con s) \<Longrightarrow> life_step s (s\<lparr>con := CDefer\<rparr>)"
| connect_dialled: "con s = CDial \<Longrightarrow> life_step s (s\<lparr>con := CLoop\<rparr>)"
| register_turn: "con s = CLoop \<Longrightarrow> life_step s (s\<lparr>con := (if stopping (phase s) then CDefer else CSending)\<rparr>)"
| register_accepted: "con s = CSending \<Longrightarrow> life_step s (s\<lparr>con := CDialRest\<rparr>)"
| register_refused: "con s = CSending \<Longrightarrow> life_step s (s\<lparr>con := CPause\<rparr>)"
| register_paused: "con s = CPause \<Longrightarrow> life_step s (s\<lparr>con := CReady\<rparr>)"
| register_pause_cut: "con s = CPause \<Longrightarrow> stop_cancelled s \<Longrightarrow> life_step s (s\<lparr>con := CDefer\<rparr>)"
| register_back_off: "con s = CReady \<Longrightarrow> life_step s (s\<lparr>con := (if stopping (phase s) then CDefer else CWait)\<rparr>)"
| register_ready: "con s = CWait \<Longrightarrow> life_step s (s\<lparr>con := CLoop\<rparr>)"
| register_unready: "con s = CWait \<Longrightarrow> life_step s (s\<lparr>con := CReady\<rparr>)"
| connect_ok: "con s = CDialRest \<Longrightarrow> life_step s (s\<lparr>con := CRegistered\<rparr>)"
| connect_running:
    "con s = CRegistered \<Longrightarrow> cas phaseRegistering phaseRunning (phase s) = (ok, p) \<Longrightarrow>
     life_step s (s\<lparr>phase := p, con := (if ok then CStartWorkers else CDefer)\<rparr>)"
| connect_workers:
    "con s = CStartWorkers \<Longrightarrow>
     life_step s (s\<lparr>workers_started := True, workers := startWorkers (workerTable refreshes), con := CDefer\<rparr>)"
| connect_defer:
    "con s = CDefer \<Longrightarrow> cas phaseRegistering phaseFailed (phase s) = (ok, p) \<Longrightarrow>
     life_step s (s\<lparr>phase := p, con := (if ok then CRelease else CFinished)\<rparr>)"
| connect_release:
    "con s = CRelease \<Longrightarrow>
     life_step s (s\<lparr>config_closed := config_closed s \<or> is_global s, grpc_closed := grpc_closed s \<or> is_global s,
       is_global := False, con := CFinished\<rparr>)"
| worker_returns: "worker_at s i WBody \<Longrightarrow> life_step s (set_worker i WExited s)"
| worker_panics:
    "worker_at s i WBody \<Longrightarrow> life_step s (set_worker i (if workerContinues (phase s) then WDelay else WExited) s)"
| worker_delay_cut: "worker_at s i WDelay \<Longrightarrow> stop_cancelled s \<Longrightarrow> life_step s (set_worker i WExited s)"
| worker_restarts:
    "worker_at s i WDelay \<Longrightarrow> life_step s (set_worker i (if workerContinues (phase s) then WBody else WExited) s)"
| shutdown_call: "shut s = SIdle \<Longrightarrow> life_step s (s\<lparr>shut := SFlush\<rparr>)"
| shutdown_flush:
    "shut s = SFlush \<Longrightarrow> life_step s (s\<lparr>flushed := flushed s \<or> tracingEnabled (phase s), shut := SRead\<rparr>)"
| shutdown_read:
    "shut s = SRead \<Longrightarrow>
     life_step s (s\<lparr>shut := (case shutdown_target (phase s) of Some to \<Rightarrow> SCas (phase s) to | None \<Rightarrow> SCancel)\<rparr>)"
| shutdown_cas:
    "shut s = SCas from to \<Longrightarrow> cas from to (phase s) = (ok, p) \<Longrightarrow>
     life_step s (s\<lparr>phase := p, shut := (if ok then SCancel else SRead)\<rparr>)"
| shutdown_cancel:
    "shut s = SCancel \<Longrightarrow>
     life_step s (s\<lparr>stop_cancelled := True, config_closed := config_closed s \<or> is_global s, shut := SWaitConnect\<rparr>)"
| shutdown_waited: "shut s = SWaitConnect \<Longrightarrow> con s = CFinished \<Longrightarrow> life_step s (s\<lparr>shut := SReleaseGlobal\<rparr>)"
| shutdown_release: "shut s = SReleaseGlobal \<Longrightarrow> life_step s (s\<lparr>is_global := False, shut := SCasStopped\<rparr>)"
| shutdown_stopped:
    "shut s = SCasStopped \<Longrightarrow> cas phaseStopping phaseStopped (phase s) = (ok, p) \<Longrightarrow>
     life_step s (s\<lparr>phase := p, shut := (if ok then STeardown else SCloseGrpc)\<rparr>)"
| shutdown_teardown: "shut s = STeardown \<Longrightarrow> life_step s (s\<lparr>queue_closed := True, shut := SCloseCmd\<rparr>)"
| shutdown_close_cmd: "shut s = SCloseCmd \<Longrightarrow> life_step s (s\<lparr>cmd_closed := True, shut := SWaitWorkers 0\<rparr>)"
| shutdown_worker_done: "shut s = SWaitWorkers i \<Longrightarrow> worker_at s i WExited \<Longrightarrow> life_step s (s\<lparr>shut := SWaitWorkers (Suc i)\<rparr>)"
| shutdown_workers_done: "shut s = SWaitWorkers i \<Longrightarrow> \<not> i < length (workers s) \<Longrightarrow> life_step s (s\<lparr>shut := SCloseGrpc\<rparr>)"
| shutdown_wait_expires:
    "shut s = SWaitWorkers i \<Longrightarrow> i < length (workers s) \<Longrightarrow> life_step s (s\<lparr>wait_expired := True, shut := SCloseGrpc\<rparr>)"
| shutdown_grpc: "shut s = SCloseGrpc \<Longrightarrow> life_step s (s\<lparr>grpc_closed := True, shut := SDone\<rparr>)"

inductive_cases life_stepE: "life_step s s'"

section \<open>Invariant\<close>

fun past_signal :: "shutdown_pc \<Rightarrow> bool" where
  "past_signal SCancel = True"
| "past_signal SWaitConnect = True"
| "past_signal SReleaseGlobal = True"
| "past_signal SCasStopped = True"
| "past_signal STeardown = True"
| "past_signal SCloseCmd = True"
| "past_signal (SWaitWorkers i) = True"
| "past_signal SCloseGrpc = True"
| "past_signal SDone = True"
| "past_signal _ = False"

text \<open>Shutdown has signalled exactly when the phase is stopping or stopped.\<close>

definition signal_inv :: "life \<Rightarrow> bool" where
  "signal_inv s \<longleftrightarrow>
     past_signal (shut s) = stopping (phase s)
     \<and> (\<forall>from to. shut s = SCas from to \<longrightarrow> shutdown_target from = Some to)"

text \<open>The phase and the registering goroutine; workers exist exactly for an agent that got to run.\<close>

fun connect_inv :: "agentPhase \<Rightarrow> connect_pc \<Rightarrow> bool \<Rightarrow> bool" where
  "connect_inv phaseRegistering c w = ((may_fail c \<or> c \<in> {CRegistered, CDefer}) \<and> \<not> w)"
| "connect_inv phaseFailed c w = (c \<in> {CRelease, CFinished} \<and> \<not> w)"
| "connect_inv phaseStopped c w = (c \<noteq> CStartWorkers \<and> (w \<longrightarrow> c \<in> {CDefer, CFinished}))"
| "connect_inv _ c w = (if c = CStartWorkers then \<not> w else c \<in> {CDefer, CFinished} \<and> w)"

text \<open>How far the teardown is.\<close>

definition before_teardown :: "life \<Rightarrow> bool" where
  "before_teardown s \<longleftrightarrow> \<not> queue_closed s \<and> (phase s = phaseStopped \<longrightarrow> \<not> workers_started s)"

definition torn_down :: "life \<Rightarrow> bool" where
  "torn_down s \<longleftrightarrow> con s = CFinished \<and> stop_cancelled s \<and> \<not> is_global s \<and> phase s = phaseStopped"

fun teardown_inv :: "shutdown_pc \<Rightarrow> life \<Rightarrow> bool" where
  "teardown_inv SWaitConnect s = (stop_cancelled s \<and> before_teardown s)"
| "teardown_inv SReleaseGlobal s = (con s = CFinished \<and> stop_cancelled s \<and> before_teardown s)"
| "teardown_inv SCasStopped s = (con s = CFinished \<and> stop_cancelled s \<and> \<not> is_global s \<and> before_teardown s)"
| "teardown_inv STeardown s = (torn_down s \<and> workers_started s \<and> \<not> queue_closed s)"
| "teardown_inv SCloseCmd s = (torn_down s \<and> workers_started s \<and> queue_closed s)"
| "teardown_inv (SWaitWorkers i) s = (torn_down s \<and> workers_started s \<and> queue_closed s)"
| "teardown_inv SCloseGrpc s = (torn_down s \<and> queue_closed s = workers_started s)"
| "teardown_inv SDone s = (torn_down s \<and> queue_closed s = workers_started s \<and> grpc_closed s)"
| "teardown_inv _ s = before_teardown s"

definition life_inv :: "life \<Rightarrow> bool" where
  "life_inv s \<longleftrightarrow> signal_inv s \<and> connect_inv (phase s) (con s) (workers_started s) \<and> teardown_inv (shut s) s"

lemma set_worker_sel [simp]:
  "phase (set_worker i pc s) = phase s" "con (set_worker i pc s) = con s" "shut (set_worker i pc s) = shut s"
  "is_global (set_worker i pc s) = is_global s" "config_closed (set_worker i pc s) = config_closed s"
  "stop_cancelled (set_worker i pc s) = stop_cancelled s" "workers_started (set_worker i pc s) = workers_started s"
  "queue_closed (set_worker i pc s) = queue_closed s" "grpc_closed (set_worker i pc s) = grpc_closed s"
  "wait_expired (set_worker i pc s) = wait_expired s" "length (workers (set_worker i pc s)) = length (workers s)"
  by (simp_all add: set_worker_def)

lemma teardown_set_worker [simp]: "teardown_inv pc (set_worker i w s) = teardown_inv pc s"
  by (cases pc) (simp_all add: before_teardown_def torn_down_def)

lemma init_life_inv: "life_inv init_life"
  by (simp add: life_inv_def signal_inv_def before_teardown_def init_life_def stopping_def)

lemma signal_step: "life_step s s' \<Longrightarrow> life_inv s \<Longrightarrow> signal_inv s'"
  by (elim life_stepE; cases "phase s")
    (auto simp: life_inv_def signal_inv_def cas_def stopping_def split: if_splits)

lemma connect_step: "life_step s s' \<Longrightarrow> life_inv s \<Longrightarrow> connect_inv (phase s') (con s') (workers_started s')"
  by (elim life_stepE; cases "phase s")
    (auto simp: life_inv_def signal_inv_def cas_def stopping_def split: if_splits)

lemma teardown_connect_frame:
  assumes "teardown_inv (shut s) s" "con s \<noteq> CFinished \<or> con s' = con s \<and> is_global s' = is_global s \<and> phase s' = phase s
      \<and> workers_started s' = workers_started s \<and> grpc_closed s' = grpc_closed s" "shut s' = shut s"
    and "stop_cancelled s' = stop_cancelled s" "queue_closed s' = queue_closed s"
    and "phase s' = phaseStopped \<Longrightarrow> phase s = phaseStopped \<and> workers_started s' = workers_started s"
  shows "teardown_inv (shut s') s'"
  using assms by (cases "shut s") (auto simp: before_teardown_def torn_down_def)

lemma teardown_step_connect:
  "life_step s s' \<Longrightarrow> life_inv s \<Longrightarrow> shut s' = shut s \<Longrightarrow> teardown_inv (shut s') s'"
  by (elim life_stepE; rule teardown_connect_frame [where s = s])
    (auto simp: life_inv_def cas_def split: if_splits option.splits)

lemma teardown_step_shutdown:
  "life_step s s' \<Longrightarrow> life_inv s \<Longrightarrow> shut s' \<noteq> shut s \<Longrightarrow> teardown_inv (shut s') s'"
  by (elim life_stepE; cases "phase s")
    (auto simp: life_inv_def signal_inv_def before_teardown_def torn_down_def cas_def stopping_def split: if_splits)

lemma life_step_inv: "life_step s s' \<Longrightarrow> life_inv s \<Longrightarrow> life_inv s'"
  unfolding life_inv_def [of s'] by (simp add: signal_step connect_step)
    (use teardown_step_connect teardown_step_shutdown in blast)

lemma life_reach_inv: "life_step\<^sup>*\<^sup>* init_life s \<Longrightarrow> life_inv s"
  by (induction rule: rtranclp_induct) (auto intro: init_life_inv life_step_inv)

text \<open>
  The configuration watcher: whoever takes the agent out of the global slot has closed it first, and the signal closes
  it for an agent still in the slot.
\<close>

definition watcher_inv :: "life \<Rightarrow> bool" where
  "watcher_inv s \<longleftrightarrow>
     (\<not> is_global s \<longrightarrow> config_closed s)
     \<and> (past_signal (shut s) \<and> shut s \<noteq> SCancel \<longrightarrow> config_closed s)"

lemma watcher_step: "life_step s s' \<Longrightarrow> watcher_inv s \<Longrightarrow> watcher_inv s'"
  by (elim life_stepE) (auto simp: watcher_inv_def split: if_splits option.splits)

lemma watcher_reach: "life_step\<^sup>*\<^sup>* init_life s \<Longrightarrow> watcher_inv s"
proof (induction rule: rtranclp_induct)
  case base
  then show ?case by (simp add: watcher_inv_def init_life_def)
qed (rule watcher_step)

text \<open>
  The wait for the workers: it has passed the workers that have exited, which never come back, and an agent that started none has none.
\<close>

fun wait_inv :: "shutdown_pc \<Rightarrow> life \<Rightarrow> bool" where
  "wait_inv (SWaitWorkers i) s \<longleftrightarrow> i \<le> length (workers s) \<and> list_all (\<lambda>w. snd w = WExited) (take i (workers s))"
| "wait_inv SCloseGrpc s \<longleftrightarrow> wait_expired s \<or> list_all (\<lambda>w. snd w = WExited) (workers s)"
| "wait_inv SDone s \<longleftrightarrow> wait_expired s \<or> list_all (\<lambda>w. snd w = WExited) (workers s)"
| "wait_inv _ s \<longleftrightarrow> True"

definition workers_inv :: "life \<Rightarrow> bool" where
  "workers_inv s \<longleftrightarrow>
     wait_inv (shut s) s \<and> length (workers s) \<le> 9 \<and> (\<not> workers_started s \<longrightarrow> workers s = [])"

lemma workerTable_length: "length (startWorkers (workerTable b)) \<le> 9"
  by (simp add: startWorkers_def workerTable_def)

lemma exited_update:
  assumes "list_all (\<lambda>w. snd w = WExited) (take k ws)" "i < length ws" "snd (ws ! i) \<noteq> WExited"
  shows "list_all (\<lambda>w. snd w = WExited) (take k (ws[i := x]))"
proof -
  have "\<not> i < k" using assms by (auto simp: list_all_length)
  then show ?thesis using assms(1) by simp
qed

lemma wait_set_worker:
  assumes "wait_inv pc s" "worker_at s i w" "w \<noteq> WExited"
  shows "wait_inv pc (set_worker i w' s)"
  using assms exited_update [of _ "workers s" i] exited_update [of "length (workers s)" "workers s" i]
  by (cases pc) (auto simp: worker_at_def set_worker_def)

lemma wait_frame:
  "wait_inv pc s \<Longrightarrow> workers s' = workers s \<Longrightarrow> wait_expired s' = wait_expired s \<Longrightarrow> wait_inv pc s'"
  by (cases pc) auto

lemma wait_next:
  "wait_inv (SWaitWorkers i) s \<Longrightarrow> worker_at s i WExited \<Longrightarrow> wait_inv (SWaitWorkers (Suc i)) s"
  by (simp add: worker_at_def take_Suc_conv_app_nth)

lemma workers_step:
  assumes "life_step s s'" "life_inv s" "workers_inv s"
  shows "workers_inv s'"
  using assms(1)
proof (cases rule: life_step.cases)
  case (connect_workers refreshes)
  then have "phase s = phaseRunning \<or> phase s = phaseStopping" using assms(2) by (cases "phase s") (auto simp: life_inv_def)
  then have "wait_inv (shut s) s'"
    using assms(2) connect_workers(2) by (cases "shut s") (auto simp: life_inv_def torn_down_def)
  then show ?thesis using connect_workers workerTable_length [of refreshes] by (simp add: workers_inv_def)
next
  case (shutdown_stopped ok p)
  then show ?thesis
    using assms(2,3) by (auto simp: workers_inv_def life_inv_def before_teardown_def cas_def signal_inv_def stopping_def split: if_splits)
next
  case (shutdown_worker_done i)
  then show ?thesis using assms(3) wait_next [of i s] by (auto simp: workers_inv_def intro: wait_frame)
qed (use assms(3) in \<open>auto simp: workers_inv_def set_worker_def [of _ _ s] worker_at_def
       intro: wait_frame wait_set_worker [unfolded set_worker_def worker_at_def] split: option.splits\<close>)

lemma workers_reach: "life_step\<^sup>*\<^sup>* init_life s \<Longrightarrow> workers_inv s"
proof (induction rule: rtranclp_induct)
  case base
  then show ?case by (simp add: workers_inv_def init_life_def)
next
  case (step y z)
  then show ?case using workers_step life_reach_inv by blast
qed

section \<open>Progress\<close>

fun phase_rank :: "agentPhase \<Rightarrow> nat" where
  "phase_rank phaseRegistering = 0"
| "phase_rank phaseRunning = 1"
| "phase_rank phaseFailed = 1"
| "phase_rank phaseStopping = 2"
| "phase_rank phaseStopped = 3"

lemma phase_rank_le [simp]: "phase_rank p \<le> 3"
  by (cases p) auto

text \<open>How many steps the registering goroutine has left once the agent stops; before, its loops have no bound.\<close>

fun connect_left :: "connect_pc \<Rightarrow> nat" where
  "connect_left CDial = 4"
| "connect_left CLoop = 3"
| "connect_left CSending = 5"
| "connect_left CPause = 4"
| "connect_left CReady = 3"
| "connect_left CWait = 4"
| "connect_left CDialRest = 4"
| "connect_left CRegistered = 3"
| "connect_left CStartWorkers = 3"
| "connect_left CDefer = 2"
| "connect_left CRelease = 1"
| "connect_left CFinished = 0"

lemma connect_left_le: "connect_left c \<le> 5"
  by (cases c) auto

text \<open>
  How many steps the shutdown goroutine has left. The compare-and-swap loop goes round again only when the phase it
  read has been left behind, and a phase is never re-entered; the wait goes over at most nine workers.
\<close>

fun shutdown_left :: "agentPhase \<Rightarrow> shutdown_pc \<Rightarrow> nat" where
  "shutdown_left p SIdle = 27"
| "shutdown_left p SFlush = 26"
| "shutdown_left p SRead = 18 + 2 * (3 - phase_rank p) + 1"
| "shutdown_left p (SCas from to) = 18 + 2 * (3 - phase_rank p) + (if p = from then 0 else 2)"
| "shutdown_left p SCancel = 17"
| "shutdown_left p SWaitConnect = 16"
| "shutdown_left p SReleaseGlobal = 15"
| "shutdown_left p SCasStopped = 14"
| "shutdown_left p STeardown = 13"
| "shutdown_left p SCloseCmd = 12"
| "shutdown_left p (SWaitWorkers i) = 2 + (9 - i)"
| "shutdown_left p SCloseGrpc = 1"
| "shutdown_left p SDone = 0"

lemma shutdown_target_forward: "shutdown_target p = Some q \<Longrightarrow> phase_rank p < phase_rank q"
  by (cases p) auto

lemma phase_step_forward:
  "life_step s s' \<Longrightarrow> signal_inv s \<Longrightarrow> phase s' = phase s \<or> phase_rank (phase s) < phase_rank (phase s')"
  by (elim life_stepE) (auto simp: cas_def signal_inv_def dest: shutdown_target_forward split: if_splits)

lemma phase_run_forward:
  assumes "life_step\<^sup>*\<^sup>* s s'" "life_inv s"
  shows "life_inv s' \<and> (phase s' = phase s \<or> phase_rank (phase s) < phase_rank (phase s'))"
  using assms
proof (induction rule: rtranclp_induct)
  case (step y z)
  then have "life_inv y" "phase y = phase s \<or> phase_rank (phase s) < phase_rank (phase y)"
    by auto
  with step.hyps(2) phase_step_forward [of y z] life_step_inv [of y z] show ?case
    by (fastforce simp: life_inv_def)
qed simp

lemma shutdown_left_mono:
  "phase_rank p < phase_rank q \<Longrightarrow> shutdown_left q c \<le> shutdown_left p c"
  by (cases p; cases q; cases c) auto

section \<open>Schedules\<close>

text \<open>
  The steps as functions, to run a schedule: which goroutine moves, and how. \<open>Next\<close> is the way forward (the dial done, the attempt accepted, the
  pause over, the connection ready), \<open>Retry\<close> the other one of a loop (the attempt refused, the pause cut short, the wait
  ended without a connection), \<open>Fail\<close> an error or a panic, \<open>Start\<close> the start of the workers with or without the refresh worker.
\<close>

datatype connect_event = Next | Retry | Fail | Start bool

datatype worker_event = Returns | Panics | DelayCut | DelayOver

datatype life_move = Connect connect_event | Worker nat worker_event | Shutdown_call | Wait_expires

fun life_connect :: "connect_event \<Rightarrow> connect_pc \<Rightarrow> life \<Rightarrow> life option" where
  "life_connect Fail pc s = (if may_fail pc then Some (s\<lparr>con := CDefer\<rparr>) else None)"
| "life_connect Next CDial s = Some (s\<lparr>con := CLoop\<rparr>)"
| "life_connect Next CLoop s = Some (s\<lparr>con := if stopping (phase s) then CDefer else CSending\<rparr>)"
| "life_connect Next CSending s = Some (s\<lparr>con := CDialRest\<rparr>)"
| "life_connect Retry CSending s = Some (s\<lparr>con := CPause\<rparr>)"
| "life_connect Next CPause s = Some (s\<lparr>con := CReady\<rparr>)"
| "life_connect Retry CPause s = (if stop_cancelled s then Some (s\<lparr>con := CDefer\<rparr>) else None)"
| "life_connect Next CReady s = Some (s\<lparr>con := if stopping (phase s) then CDefer else CWait\<rparr>)"
| "life_connect Next CWait s = Some (s\<lparr>con := CLoop\<rparr>)"
| "life_connect Retry CWait s = Some (s\<lparr>con := CReady\<rparr>)"
| "life_connect Next CDialRest s = Some (s\<lparr>con := CRegistered\<rparr>)"
| "life_connect Next CRegistered s =
     (case cas phaseRegistering phaseRunning (phase s) of
        (ok, p) \<Rightarrow> Some (s\<lparr>phase := p, con := if ok then CStartWorkers else CDefer\<rparr>))"
| "life_connect (Start refreshes) CStartWorkers s =
     Some (s\<lparr>workers_started := True, workers := startWorkers (workerTable refreshes), con := CDefer\<rparr>)"
| "life_connect Next CDefer s =
     (case cas phaseRegistering phaseFailed (phase s) of
        (ok, p) \<Rightarrow> Some (s\<lparr>phase := p, con := if ok then CRelease else CFinished\<rparr>))"
| "life_connect Next CRelease s =
     Some (s\<lparr>config_closed := config_closed s \<or> is_global s, grpc_closed := grpc_closed s \<or> is_global s,
       is_global := False, con := CFinished\<rparr>)"
| "life_connect _ _ s = None"

fun life_worker :: "worker_event \<Rightarrow> nat \<Rightarrow> life \<Rightarrow> life option" where
  "life_worker Returns i s = (if worker_at s i WBody then Some (set_worker i WExited s) else None)"
| "life_worker Panics i s =
     (if worker_at s i WBody then Some (set_worker i (if workerContinues (phase s) then WDelay else WExited) s) else None)"
| "life_worker DelayCut i s = (if worker_at s i WDelay \<and> stop_cancelled s then Some (set_worker i WExited s) else None)"
| "life_worker DelayOver i s =
     (if worker_at s i WDelay then Some (set_worker i (if workerContinues (phase s) then WBody else WExited) s) else None)"

fun life_shutdown :: "shutdown_pc \<Rightarrow> life \<Rightarrow> life option" where
  "life_shutdown SIdle s = Some (s\<lparr>shut := SFlush\<rparr>)"
| "life_shutdown SFlush s = Some (s\<lparr>flushed := flushed s \<or> tracingEnabled (phase s), shut := SRead\<rparr>)"
| "life_shutdown SRead s =
     Some (s\<lparr>shut := case shutdown_target (phase s) of Some to \<Rightarrow> SCas (phase s) to | None \<Rightarrow> SCancel\<rparr>)"
| "life_shutdown (SCas from to) s =
     (case cas from to (phase s) of (ok, p) \<Rightarrow> Some (s\<lparr>phase := p, shut := if ok then SCancel else SRead\<rparr>))"
| "life_shutdown SCancel s =
     Some (s\<lparr>stop_cancelled := True, config_closed := config_closed s \<or> is_global s, shut := SWaitConnect\<rparr>)"
| "life_shutdown SWaitConnect s = (if con s = CFinished then Some (s\<lparr>shut := SReleaseGlobal\<rparr>) else None)"
| "life_shutdown SReleaseGlobal s = Some (s\<lparr>is_global := False, shut := SCasStopped\<rparr>)"
| "life_shutdown SCasStopped s =
     (case cas phaseStopping phaseStopped (phase s) of
        (ok, p) \<Rightarrow> Some (s\<lparr>phase := p, shut := if ok then STeardown else SCloseGrpc\<rparr>))"
| "life_shutdown STeardown s = Some (s\<lparr>queue_closed := True, shut := SCloseCmd\<rparr>)"
| "life_shutdown SCloseCmd s = Some (s\<lparr>cmd_closed := True, shut := SWaitWorkers 0\<rparr>)"
| "life_shutdown (SWaitWorkers i) s =
     (if \<not> i < length (workers s) then Some (s\<lparr>shut := SCloseGrpc\<rparr>)
      else if worker_at s i WExited then Some (s\<lparr>shut := SWaitWorkers (Suc i)\<rparr>) else None)"
| "life_shutdown SCloseGrpc s = Some (s\<lparr>grpc_closed := True, shut := SDone\<rparr>)"
| "life_shutdown SDone s = None"

fun life_expire :: "shutdown_pc \<Rightarrow> life \<Rightarrow> life option" where
  "life_expire (SWaitWorkers i) s =
     (if i < length (workers s) then Some (s\<lparr>wait_expired := True, shut := SCloseGrpc\<rparr>) else None)"
| "life_expire _ s = None"

fun life_do :: "life_move \<Rightarrow> life \<Rightarrow> life option" where
  "life_do (Connect e) s = life_connect e (con s) s"
| "life_do (Worker i e) s = life_worker e i s"
| "life_do Shutdown_call s = life_shutdown (shut s) s"
| "life_do Wait_expires s = life_expire (shut s) s"

fun life_run :: "life_move list \<Rightarrow> life \<Rightarrow> life option" where
  "life_run [] s = Some s"
| "life_run (m # ms) s = (case life_do m s of None \<Rightarrow> None | Some s' \<Rightarrow> life_run ms s')"

fun is_connect :: "life_move \<Rightarrow> bool" where
  "is_connect (Connect e) \<longleftrightarrow> True"
| "is_connect _ \<longleftrightarrow> False"

fun is_shutdown :: "life_move \<Rightarrow> bool" where
  "is_shutdown Shutdown_call \<longleftrightarrow> True"
| "is_shutdown Wait_expires \<longleftrightarrow> True"
| "is_shutdown _ \<longleftrightarrow> False"

lemmas life_step_cas =
  connect_running [where ok = True, simplified] connect_running [where ok = False, simplified]
  connect_defer [where ok = True, simplified] connect_defer [where ok = False, simplified]
  shutdown_cas [where ok = True, simplified] shutdown_cas [where ok = False, simplified]
  shutdown_stopped [where ok = True, simplified] shutdown_stopped [where ok = False, simplified]

lemma life_connect_step: "life_connect e (con s) s = Some s' \<Longrightarrow> life_step s s'"
  by (cases "(e, con s, s)" rule: life_connect.cases; simp split: if_splits prod.splits)
    (auto dest: register_turn register_back_off intro: life_step.intros life_step_cas)

lemma life_shutdown_step: "life_shutdown (shut s) s = Some s' \<Longrightarrow> life_step s s'"
  by (cases "shut s") (auto intro: life_step.intros life_step_cas split: if_splits prod.splits)

lemma life_worker_step: "life_worker e i s = Some s' \<Longrightarrow> life_step s s'"
  by (cases e) (auto dest: worker_returns worker_panics worker_delay_cut worker_restarts split: if_splits)

lemma life_expire_step: "life_expire (shut s) s = Some s' \<Longrightarrow> life_step s s'"
  by (cases "shut s") (auto intro: shutdown_wait_expires split: if_splits)

text \<open>Every move is a step, and every step a move.\<close>

lemma life_do_step: "life_do m s = Some s' \<Longrightarrow> life_step s s'"
  by (cases m) (auto intro: life_connect_step life_shutdown_step life_worker_step life_expire_step)

lemma life_step_do:
  assumes "life_step s s'"
  shows "\<exists>m. life_do m s = Some s'"
  using assms
proof (cases rule: life_step.cases)
  case (connect_workers refreshes)
  then show ?thesis by (intro exI [of _ "Connect (Start refreshes)"]) simp
next
  case connect_fails
  then show ?thesis by (intro exI [of _ "Connect Fail"]) simp
next
  case (worker_returns i)
  then show ?thesis by (intro exI [of _ "Worker i Returns"]) simp
next
  case (worker_panics i)
  then show ?thesis by (intro exI [of _ "Worker i Panics"]) simp
next
  case (worker_delay_cut i)
  then show ?thesis by (intro exI [of _ "Worker i DelayCut"]) simp
next
  case (worker_restarts i)
  then show ?thesis by (intro exI [of _ "Worker i DelayOver"]) simp
next
  case (shutdown_wait_expires i)
  then show ?thesis by (intro exI [of _ "Wait_expires"]) simp
qed (auto intro: exI [of _ "Connect Next"] exI [of _ "Connect Retry"] exI [of _ Shutdown_call] simp: worker_at_def)

lemma life_run_reach: "life_run ms s = Some s' \<Longrightarrow> life_step\<^sup>*\<^sup>* s s'"
proof (induction ms arbitrary: s)
  case (Cons m ms)
  then obtain y where "life_do m s = Some y" "life_run ms y = Some s'" by (auto split: option.splits)
  with Cons.IH [of y] show ?case by (meson converse_rtranclp_into_rtranclp life_do_step)
qed simp

lemma shutdown_move_left:
  assumes "life_do m s = Some s'" "is_shutdown m" "life_inv s" "workers_inv s"
  shows "shutdown_left (phase s') (shut s') < shutdown_left (phase s) (shut s)"
proof (cases m)
  case Shutdown_call
  have target: "shutdown_target from = Some to" if "shut s = SCas from to" for "from" to
    using assms(3) that by (simp add: life_inv_def signal_inv_def)
  show ?thesis
  proof (cases "shut s")
    case SRead
    then show ?thesis using Shutdown_call assms(1) by (cases "phase s") auto
  next
    case (SCas "from" to)
    then show ?thesis using Shutdown_call assms(1) target [OF SCas] by (cases "from") (auto simp: cas_def split: if_splits)
  next
    case (SWaitWorkers i)
    then show ?thesis using Shutdown_call assms(1,4) by (auto simp: workers_inv_def split: if_splits)
  qed (use Shutdown_call assms(1) in \<open>auto simp: cas_def split: if_splits\<close>)
next
  case Wait_expires
  then show ?thesis using assms(1) by (cases "shut s") (auto split: if_splits)
qed (use assms(2) in auto)

lemma other_move_left:
  assumes "life_do m s = Some s'" "\<not> is_shutdown m" "life_inv s"
  shows "shutdown_left (phase s') (shut s') \<le> shutdown_left (phase s) (shut s)"
proof -
  have "shut s' = shut s"
    using assms(1,2) by (cases m; cases "shut s") (auto elim!: life_connect.elims life_worker.elims split: if_splits prod.splits)
  moreover have "phase s' = phase s \<or> phase_rank (phase s) < phase_rank (phase s')"
    using assms(1,3) by (intro phase_step_forward) (auto intro: life_do_step simp: life_inv_def)
  ultimately show ?thesis using shutdown_left_mono [of "phase s" "phase s'" "shut s"] by auto
qed

lemma connect_move_left:
  "life_do (Connect e) s = Some s' \<Longrightarrow> stopping (phase s) \<Longrightarrow> connect_left (con s') < connect_left (con s)"
  by (cases "(e, con s, s)" rule: life_connect.cases) (auto simp: cas_def stopping_def split: if_splits elim!: may_fail.elims)

lemma other_move_con: "life_do m s = Some s' \<Longrightarrow> \<not> is_connect m \<Longrightarrow> con s' = con s"
  by (cases m; cases "shut s") (auto elim!: life_worker.elims split: if_splits prod.splits)

lemma stopping_kept:
  assumes "life_do m s = Some s'" "life_inv s" "stopping (phase s)"
  shows "stopping (phase s')"
  using phase_step_forward [OF life_do_step [OF assms(1)]] assms(2,3)
  by (cases "phase s"; cases "phase s'") (auto simp: stopping_def life_inv_def)

lemma life_run_bounded:
  assumes "life_run ms s = Some s'" "life_inv s" "workers_inv s"
  shows "length (filter is_shutdown ms) + shutdown_left (phase s') (shut s') \<le> shutdown_left (phase s) (shut s)
    \<and> (stopping (phase s) \<longrightarrow> length (filter is_connect ms) + connect_left (con s') \<le> connect_left (con s))"
  using assms
proof (induction ms arbitrary: s)
  case (Cons m ms)
  from Cons.prems(1) obtain y where y: "life_do m s = Some y" "life_run ms y = Some s'" by (auto split: option.splits)
  note step = life_do_step [OF y(1)]
  note IH = Cons.IH [OF y(2) life_step_inv [OF step Cons.prems(2)] workers_step [OF step Cons.prems(2,3)]]
  have "(if is_shutdown m then 1 else 0) + shutdown_left (phase y) (shut y) \<le> shutdown_left (phase s) (shut s)"
    using shutdown_move_left [OF y(1) _ Cons.prems(2,3)] other_move_left [OF y(1) _ Cons.prems(2)] by auto
  moreover have "(if is_connect m then 1 else 0) + connect_left (con y) \<le> connect_left (con s)" if "stopping (phase s)"
    using connect_move_left [of _ s y] other_move_con [OF y(1)] y(1) that by (cases m) (auto simp: Suc_le_eq)
  ultimately show ?case using IH stopping_kept [OF y(1) Cons.prems(2)] by fastforce
qed simp

text \<open>
  Who can move: the shutdown itself, unless it waits for the registration, and then the registration, which the signal has reached.
\<close>

lemma connect_can_move: "con s \<noteq> CFinished \<Longrightarrow> \<exists>e. life_do (Connect e) s \<noteq> None"
  by (cases "con s") (auto intro: exI [of _ Next] exI [of _ "Start True"] split: prod.splits)

lemma shutdown_can_move:
  assumes "life_inv s" "shut s \<noteq> SDone"
  shows "(\<exists>m. is_shutdown m \<and> life_do m s \<noteq> None)
    \<or> shut s = SWaitConnect \<and> stop_cancelled s \<and> stopping (phase s) \<and> (\<exists>e. life_do (Connect e) s \<noteq> None)"
proof (cases "shut s")
  case SWaitConnect
  show ?thesis
  proof (cases "con s = CFinished")
    case True
    then show ?thesis using SWaitConnect by (intro disjI1 exI [of _ Shutdown_call]) simp
  next
    case False
    then show ?thesis using SWaitConnect assms(1) connect_can_move by (auto simp: life_inv_def signal_inv_def)
  qed
next
  case (SWaitWorkers i)
  then show ?thesis
    by (cases "i < length (workers s)") (auto intro: exI [of _ Wait_expires] exI [of _ Shutdown_call])
qed (use assms(2) in \<open>auto intro!: disjI1 exI [of _ Shutdown_call] split: prod.splits\<close>)

section \<open>Properties\<close>

text \<open>A run: the agent registers, starts its workers, and is shut down.\<close>

definition ran_life :: life where
  "ran_life = init_life\<lparr>phase := phaseRunning, con := CFinished, workers_started := True, workers := startWorkers (workerTable False)\<rparr>"

definition stopped_life :: life where
  "stopped_life = ran_life\<lparr>phase := phaseStopped, shut := SDone, is_global := False, config_closed := True,
     stop_cancelled := True, workers := (workers ran_life)[0 := (''ping'', WExited)], flushed := True, queue_closed := True, cmd_closed := True,
     wait_expired := True, grpc_closed := True\<rparr>"

definition ran_moves :: "life_move list" where
  "ran_moves = map Connect [Next, Next, Retry, Next, Next, Retry, Next, Next, Next, Next, Next, Next, Start False, Next]"

definition stop_moves :: "life_move list" where
  "stop_moves = replicate 8 Shutdown_call @ [Shutdown_call, Worker 0 Returns, Shutdown_call, Wait_expires, Shutdown_call]"

lemma ran_life_run: "life_run ran_moves init_life = Some ran_life"
  by code_simp

lemma stopped_life_run: "life_run stop_moves ran_life = Some stopped_life"
  by code_simp

lemmas ran_life_reached = life_run_reach [OF ran_life_run]
lemmas stopped_life_after_ran = life_run_reach [OF stopped_life_run]
lemmas stopped_life_reached = rtranclp_trans [OF ran_life_reached stopped_life_after_ran]

text \<open>
  (C7) When \<open>Shutdown\<close> has returned, however it interleaved with a registration still running: the phase is stopped,
  the registering goroutine is gone, the agent is out of the global slot, the stop signal is set, the configuration
  watcher and the collector connections are closed, and the span queue was closed exactly when workers had been started
  to drain it.
\<close>

theorem shutdown_completes:
  assumes "life_step\<^sup>*\<^sup>* init_life s" "shut s = SDone"
  shows "phase s = phaseStopped \<and> con s = CFinished \<and> \<not> is_global s \<and> stop_cancelled s \<and> config_closed s
    \<and> grpc_closed s \<and> queue_closed s = workers_started s"
  using life_reach_inv [OF assms(1)] watcher_reach [OF assms(1)] assms(2)
  by (simp add: life_inv_def torn_down_def watcher_inv_def)

theorem shutdown_completes_witness:
  "phase stopped_life = phaseStopped \<and> con stopped_life = CFinished \<and> \<not> is_global stopped_life
    \<and> queue_closed stopped_life = workers_started stopped_life"
  using shutdown_completes [OF stopped_life_reached] by (simp add: stopped_life_def)

text \<open>
  The phase only moves forward: along any run a later phase is the same or strictly further on, so an agent that
  has left the registering phase and is not tracing never traces again, and once it is stopping it stays so.
\<close>

theorem phase_moves_forward:
  assumes "life_step\<^sup>*\<^sup>* init_life s" "life_step\<^sup>*\<^sup>* s s'"
  shows "(phase s' = phase s \<or> phase_rank (phase s) < phase_rank (phase s'))
    \<and> (phase s \<noteq> phaseRegistering \<and> \<not> tracingEnabled (phase s) \<longrightarrow> \<not> tracingEnabled (phase s'))
    \<and> (stopping (phase s) \<longrightarrow> stopping (phase s'))"
  using phase_run_forward [OF assms(2) life_reach_inv [OF assms(1)]]
  by (cases "phase s"; cases "phase s'") (auto simp: tracingEnabled_def stopping_def)

theorem phase_moves_forward_witness:
  "phase stopped_life = phase ran_life \<or> phase_rank (phase ran_life) < phase_rank (phase stopped_life)"
  using phase_moves_forward [OF ran_life_reached stopped_life_after_ran] by simp

text \<open>
  (C38) Shutdown always comes to its end, although registration retries without end while the collector is away and a worker may
  hang or panic again and again. In any schedule it makes at most 27 steps of its own; once it has signalled, the registering goroutine has at most
  5 steps left before it returns. Shutdown never waits for the registration before it has signalled the stop: as long as it has not returned, either it
  can move itself, whatever the workers do, or it waits for a registration that the signal has reached and that can move. When it has returned, every
  worker has exited or the wait for them has expired.
\<close>

theorem shutdown_terminates:
  assumes "life_run earlier init_life = Some s" "life_run later s = Some s'"
  shows "length (filter is_shutdown later) \<le> 27
    \<and> (stopping (phase s) \<longrightarrow> length (filter is_connect later) \<le> 5)
    \<and> (shut s' = SDone
       \<or> (\<exists>m. is_shutdown m \<and> life_do m s' \<noteq> None)
       \<or> shut s' = SWaitConnect \<and> stop_cancelled s' \<and> stopping (phase s') \<and> (\<exists>e. life_do (Connect e) s' \<noteq> None))
    \<and> (shut s' = SDone \<longrightarrow> wait_expired s' \<or> list_all (\<lambda>w. snd w = WExited) (workers s'))"
proof -
  have reach: "life_step\<^sup>*\<^sup>* init_life s" "life_step\<^sup>*\<^sup>* init_life s'"
    using life_run_reach [OF assms(1)] life_run_reach [OF assms(2)] by (auto intro: rtranclp_trans)
  have "shutdown_left (phase s) (shut s) \<le> 27"
    using life_run_bounded [OF assms(1) init_life_inv] workers_reach [of init_life] by (auto simp: init_life_def)
  then have "length (filter is_shutdown later) \<le> 27 \<and> (stopping (phase s) \<longrightarrow> length (filter is_connect later) \<le> 5)"
    using life_run_bounded [OF assms(2) life_reach_inv workers_reach, OF reach(1,1)] connect_left_le [of "con s"] by auto
  moreover have "shut s' = SDone \<longrightarrow> wait_expired s' \<or> list_all (\<lambda>w. snd w = WExited) (workers s')"
    using workers_reach [OF reach(2)] by (auto simp: workers_inv_def)
  ultimately show ?thesis using shutdown_can_move [OF life_reach_inv [OF reach(2)]] by blast
qed

theorem shutdown_terminates_witness:
  "life_run ran_moves init_life = Some ran_life \<and> life_run stop_moves ran_life = Some stopped_life
   \<and> length (filter is_shutdown stop_moves) \<le> 27
   \<and> (wait_expired stopped_life \<or> list_all (\<lambda>w. snd w = WExited) (workers stopped_life)) \<and> shut stopped_life = SDone"
  using shutdown_terminates [OF ran_life_run stopped_life_run] ran_life_run stopped_life_run by (simp add: stopped_life_def)

text \<open>
  Workers exist only for an agent whose transition to running won: while it is registering, or after a failed
  registration, none has been started, tracing is enabled only once the registration finished, and the span queue is
  not closed before the shutdown signal.
\<close>

theorem workers_only_when_running:
  assumes "life_step\<^sup>*\<^sup>* init_life s"
  shows "(workers_started s \<longrightarrow> workerContinues (phase s) \<or> phase s = phaseStopped)
    \<and> (tracingEnabled (phase s) \<longrightarrow> \<not> may_fail (con s) \<and> con s \<notin> {CRegistered, CRelease})
    \<and> (queue_closed s \<longrightarrow> workers_started s \<and> stopping (phase s))"
proof -
  have inv: "life_inv s" by (rule life_reach_inv [OF assms])
  then have "queue_closed s \<longrightarrow> workers_started s \<and> stopping (phase s)"
    by (cases "shut s") (auto simp: life_inv_def before_teardown_def torn_down_def signal_inv_def)
  moreover have "workers_started s \<longrightarrow> workerContinues (phase s) \<or> phase s = phaseStopped"
    using inv by (cases "phase s") (auto simp: life_inv_def workerContinues_def)
  moreover have "tracingEnabled (phase s) \<longrightarrow> \<not> may_fail (con s) \<and> con s \<notin> {CRegistered, CRelease}"
    using inv by (auto simp: life_inv_def tracingEnabled_def split: if_splits)
  ultimately show ?thesis by blast
qed

theorem workers_only_when_running_witness:
  "(workers_started ran_life \<longrightarrow> workerContinues (phase ran_life) \<or> phase ran_life = phaseStopped)
    \<and> workers_started ran_life"
  using workers_only_when_running [OF ran_life_reached] by (simp add: ran_life_def)

end
