(* ===== verification/Meta.thy ===== *)
theory Meta
  imports Meta_Cache Id_Gen Throttle Lifecycle Error_Chain Trace_Context
begin

text \<open>
  Metadata registration and its sender (\<^verbatim>\<open>src/meta.go\<close>, verdicts from \<^verbatim>\<open>src/grpc.go\<close>). A cache miss mints an id, publishes
  it in the cache and queues the metadata; the sender makes one RPC per item and, when it fails, keeps the item on the
  retry schedule or releases the cache entry so that the next use registers again. \<open>metaAgent\<close> is the part of the agent
  these functions touch. The functions here run alone; \<^verbatim>\<open>Meta_Sender\<close> interleaves their actions.
\<close>

section \<open>Data\<close>

type_synonym sqlHash = string

datatype 'x metaItem =
    apiMeta go_int32 string int
  | stringMeta go_int32 string
  | sqlMeta go_int32 string sqlHash
  | sqlUidMeta string string sqlHash
  | exceptionMeta TransactionId go_int64 string "'x exception list"

record 'x pendingMeta =
  pm_md :: "'x metaItem"
  attempts :: nat
  dueAt :: time
  releaseOnly :: bool
  parks :: nat
  pm_delivered :: int

record 'x metaRetryQueue =
  rq_items :: "'x pendingMeta list"
  rq_capacity :: nat
  rq_wake :: bool

record 'x metaAgent =
  ma_phase :: agentPhase
  apiCache :: "(string \<times> int, go_int32) metaCache"
  errorCache :: "(string, go_int32) metaCache"
  sqlCache :: "(sqlHash, go_int32) metaCache"
  sqlUidCache :: "(sqlHash, string) metaCache"
  apiIdGen :: idGen
  errorIdGen :: idGen
  sqlIdGen :: idGen
  metaChan :: "'x metaItem list"
  metaChanCap :: nat
  metaDrops :: dropReporter
  metaRetryDrops :: dropReporter
  metaRetry :: "'x metaRetryQueue"
  metaDeliveredCount :: int
  metaGiveUps :: int
  retryDelay :: duration

text \<open>The seeded \<open>maphash\<close> of each key type, a parameter of every operation on a cache.\<close>

record hashes =
  hash_api :: "string \<times> int \<Rightarrow> nat"
  hash_str :: "string \<Rightarrow> nat"

section \<open>The retry schedule\<close>

definition metaRetryMaxAttempts :: nat where "metaRetryMaxAttempts = 3"
definition metaGiveUpParks :: nat where "metaGiveUpParks = 30"
definition metaRetryQueueSize :: nat where "metaRetryQueueSize = 1000"

definition retry_push :: "'x pendingMeta \<Rightarrow> 'x metaRetryQueue \<Rightarrow> 'x pendingMeta option \<times> 'x metaRetryQueue" where
  "retry_push item q =
     (let (evicted, xs) = (if rq_capacity q \<le> length (rq_items q)
                           then (case rq_items q of [] \<Rightarrow> (None, []) | x # xs \<Rightarrow> (Some x, xs)) else (None, rq_items q))
      in (evicted, q\<lparr>rq_items := xs @ [item], rq_wake := True\<rparr>))"

definition headWait :: "time \<Rightarrow> 'x metaRetryQueue \<Rightarrow> duration option" where
  "headWait now q = (case rq_items q of [] \<Rightarrow> None | x # xs \<Rightarrow> Some (dueAt x - now))"

definition popDue :: "time \<Rightarrow> 'x metaRetryQueue \<Rightarrow> 'x pendingMeta option \<times> 'x metaRetryQueue" where
  "popDue now q =
     (case rq_items q of [] \<Rightarrow> (None, q)
      | x # xs \<Rightarrow> if dueAt x > now then (None, q) else (Some x, q\<lparr>rq_items := xs\<rparr>))"

section \<open>Releasing a cache entry\<close>

definition put_api :: "(string \<times> int, go_int32) metaCache \<Rightarrow> 'x metaAgent \<Rightarrow> 'x metaAgent" where "put_api c a = a\<lparr>apiCache := c\<rparr>"
definition put_error :: "(string, go_int32) metaCache \<Rightarrow> 'x metaAgent \<Rightarrow> 'x metaAgent" where "put_error c a = a\<lparr>errorCache := c\<rparr>"
definition put_sql :: "(sqlHash, go_int32) metaCache \<Rightarrow> 'x metaAgent \<Rightarrow> 'x metaAgent" where "put_sql c a = a\<lparr>sqlCache := c\<rparr>"
definition put_uid :: "(sqlHash, string) metaCache \<Rightarrow> 'x metaAgent \<Rightarrow> 'x metaAgent" where "put_uid c a = a\<lparr>sqlUidCache := c\<rparr>"

fun deleteMetaCache :: "hashes \<Rightarrow> 'x metaItem \<Rightarrow> 'x metaAgent \<Rightarrow> 'x metaAgent" where
  "deleteMetaCache H (apiMeta i d t) a = put_api (cache_remove (hash_api H) (d, t) (\<lambda>v. v = i) (apiCache a)) a"
| "deleteMetaCache H (stringMeta i f) a = put_error (cache_remove (hash_str H) f (\<lambda>v. v = i) (errorCache a)) a"
| "deleteMetaCache H (sqlMeta i q k) a = put_sql (cache_remove (hash_str H) k (\<lambda>v. v = i) (sqlCache a)) a"
| "deleteMetaCache H (sqlUidMeta u q k) a = put_uid (cache_remove (hash_str H) k (\<lambda>v. v = u) (sqlUidCache a)) a"
| "deleteMetaCache H (exceptionMeta tx sp uri es) a = a"

section \<open>Registration\<close>

definition enqueueMeta :: "hashes \<Rightarrow> 'x metaItem \<Rightarrow> 'x metaAgent \<Rightarrow> 'x metaAgent" where
  "enqueueMeta H m a =
     (if tracingEnabled (ma_phase a) then
        case try_send (metaChanCap a) m (metaChan a) of
          (True, ch) \<Rightarrow> a\<lparr>metaChan := ch\<rparr>
        | (False, ch) \<Rightarrow> deleteMetaCache H m (a\<lparr>metaDrops := dropReporter_record 1 (metaDrops a)\<rparr>)
      else deleteMetaCache H m a)"

definition metaQueueFull :: "'x metaAgent \<Rightarrow> bool \<times> 'x metaAgent" where
  "metaQueueFull a =
     (if length (metaChan a) < metaChanCap a then (False, a)
      else (True, a\<lparr>metaDrops := dropReporter_record 1 (metaDrops a)\<rparr>))"

text \<open>
  \<open>registerMeta\<close> over the cache that \<open>get\<close> and \<open>put\<close> select, in its three parts: the lookup with the guards before an id is
  minted, the minting and publishing, and the queueing. \<open>None\<close> is Go's zero value. \<open>publishMeta\<close> returns the metadata
  still to be queued when its value was admitted.
\<close>

definition lookupMeta ::
  "('k \<Rightarrow> nat) \<Rightarrow> ('x metaAgent \<Rightarrow> ('k, 'v) metaCache) \<Rightarrow> (('k, 'v) metaCache \<Rightarrow> 'x metaAgent \<Rightarrow> 'x metaAgent) \<Rightarrow>
   time \<Rightarrow> 'k \<Rightarrow> 'x metaAgent \<Rightarrow> ('v option \<times> bool) \<times> 'x metaAgent" where
  "lookupMeta hash get put now key a =
     (if \<not> tracingEnabled (ma_phase a) then ((None, True), a)
      else let (r, c) = cache_peek hash now key (get a); a = put c a
           in case r of Some v \<Rightarrow> ((Some v, True), a)
              | None \<Rightarrow> (let (fl, a) = metaQueueFull a in ((None, fl), a)))"

definition publishMeta ::
  "('k \<Rightarrow> nat) \<Rightarrow> ('x metaAgent \<Rightarrow> ('k, 'v) metaCache) \<Rightarrow> (('k, 'v) metaCache \<Rightarrow> 'x metaAgent \<Rightarrow> 'x metaAgent) \<Rightarrow>
   bool \<Rightarrow> time \<Rightarrow> 'k \<Rightarrow> ('x metaAgent \<Rightarrow> 'v option \<times> 'x metaAgent) \<Rightarrow> ('v \<Rightarrow> 'x metaItem) \<Rightarrow> 'x metaAgent \<Rightarrow>
   ('v option \<times> 'x metaItem option) \<times> 'x metaAgent" where
  "publishMeta hash get put trylock now key mint md a =
     (case mint a of
        (None, a) \<Rightarrow> ((None, None), a)
      | (Some v, a) \<Rightarrow>
          (let (cached, c) = cache_peekOrAdd hash trylock now key v (get a); a = put c a
           in case cached of Some w \<Rightarrow> ((Some w, None), a) | None \<Rightarrow> ((Some v, Some (md v)), a)))"

definition registerMeta ::
  "hashes \<Rightarrow> ('k \<Rightarrow> nat) \<Rightarrow> ('x metaAgent \<Rightarrow> ('k, 'v) metaCache) \<Rightarrow> (('k, 'v) metaCache \<Rightarrow> 'x metaAgent \<Rightarrow> 'x metaAgent) \<Rightarrow>
   bool \<Rightarrow> time \<Rightarrow> 'k \<Rightarrow> ('x metaAgent \<Rightarrow> 'v option \<times> 'x metaAgent) \<Rightarrow> ('v \<Rightarrow> 'x metaItem) \<Rightarrow> 'x metaAgent \<Rightarrow>
   'v option \<times> 'x metaAgent" where
  "registerMeta H hash get put trylock now key mint md a =
     (let ((v, stop), a) = lookupMeta hash get put now key a
      in if stop then (v, a)
         else let ((v, m), a) = publishMeta hash get put trylock now key mint md a
              in case m of None \<Rightarrow> (v, a) | Some m \<Rightarrow> (v, enqueueMeta H m a))"

definition mint_api :: "'x metaAgent \<Rightarrow> go_int32 option \<times> 'x metaAgent" where
  "mint_api a = (let (i, g) = idGen_next (apiIdGen a) in (if i \<noteq> 0 then Some i else None, a\<lparr>apiIdGen := g\<rparr>))"

definition mint_error :: "'x metaAgent \<Rightarrow> go_int32 option \<times> 'x metaAgent" where
  "mint_error a = (let (i, g) = idGen_next (errorIdGen a) in (if i \<noteq> 0 then Some i else None, a\<lparr>errorIdGen := g\<rparr>))"

definition mint_sql :: "'x metaAgent \<Rightarrow> go_int32 option \<times> 'x metaAgent" where
  "mint_sql a = (let (i, g) = idGen_next (sqlIdGen a) in (if i \<noteq> 0 then Some i else None, a\<lparr>sqlIdGen := g\<rparr>))"

definition id_or_zero :: "go_int32 option \<Rightarrow> go_int32" where
  "id_or_zero v = (case v of None \<Rightarrow> 0 | Some i \<Rightarrow> i)"

definition cacheError :: "hashes \<Rightarrow> bool \<Rightarrow> time \<Rightarrow> string \<Rightarrow> 'x metaAgent \<Rightarrow> go_int32 \<times> 'x metaAgent" where
  "cacheError H trylock now errorName a =
     (let (v, a) = registerMeta H (hash_str H) errorCache put_error trylock now errorName mint_error
                     (\<lambda>i. stringMeta i errorName) a
      in (id_or_zero v, a))"

definition cacheSpanApi :: "hashes \<Rightarrow> bool \<Rightarrow> time \<Rightarrow> string \<Rightarrow> int \<Rightarrow> 'x metaAgent \<Rightarrow> go_int32 \<times> 'x metaAgent" where
  "cacheSpanApi H trylock now descriptor apiType a =
     (let (v, a) = registerMeta H (hash_api H) apiCache put_api trylock now (descriptor, apiType) mint_api
                     (\<lambda>i. apiMeta i descriptor apiType) a
      in (id_or_zero v, a))"

definition enqueueExceptionMeta ::
  "hashes \<Rightarrow> bool \<Rightarrow> TransactionId \<Rightarrow> go_int64 \<Rightarrow> string option \<Rightarrow> 'x exception list \<Rightarrow> 'x metaAgent \<Rightarrow> 'x metaAgent" where
  "enqueueExceptionMeta H withStacks tx sp url xs a =
     (if \<not> tracingEnabled (ma_phase a) \<or> \<not> withStacks then a
      else enqueueMeta H (exceptionMeta tx sp (case url of Some u \<Rightarrow> u | None \<Rightarrow> ''NULL'') xs) a)"

section \<open>The sender\<close>

definition scheduleMetaRetry :: "hashes \<Rightarrow> time \<Rightarrow> 'x pendingMeta \<Rightarrow> 'x metaAgent \<Rightarrow> 'x metaAgent" where
  "scheduleMetaRetry H now item a =
     (if stopping (ma_phase a) then a
      else let (evicted, q) = retry_push (item\<lparr>dueAt := now + retryDelay a\<rparr>) (metaRetry a); a = a\<lparr>metaRetry := q\<rparr>
           in case evicted of None \<Rightarrow> a
              | Some x \<Rightarrow> (deleteMetaCache H (pm_md x) a)\<lparr>metaRetryDrops := dropReporter_record 1 (metaRetryDrops a)\<rparr>)"

definition releaseParkedMeta :: "hashes \<Rightarrow> time \<Rightarrow> 'x pendingMeta \<Rightarrow> 'x metaAgent \<Rightarrow> 'x metaAgent" where
  "releaseParkedMeta H now item a =
     (if parks item > 0 \<and> metaDeliveredCount a = pm_delivered item
      then scheduleMetaRetry H now (item\<lparr>parks := parks item - 1\<rparr>) a
      else deleteMetaCache H (pm_md item) a)"

datatype sendError = Unavailable | DeadlineExceeded | OtherCode nat

definition isRetryableError :: "sendError \<Rightarrow> bool" where
  "isRetryableError e \<longleftrightarrow> e = Unavailable \<or> e = DeadlineExceeded"

datatype metaVerdict = metaDelivered | metaRetryLater | metaGiveUp | metaRejected

definition metaVerdictOf :: "sendError option \<Rightarrow> nat \<Rightarrow> metaVerdict" where
  "metaVerdictOf e n =
     (case e of None \<Rightarrow> metaDelivered
      | Some x \<Rightarrow> if \<not> isRetryableError x then metaRejected
                  else if n \<ge> metaRetryMaxAttempts then metaGiveUp else metaRetryLater)"

fun is_exceptionMeta :: "'x metaItem \<Rightarrow> bool" where
  "is_exceptionMeta (exceptionMeta tx sp uri es) = True"
| "is_exceptionMeta m = False"

definition fresh_pending :: "'x metaItem \<Rightarrow> 'x pendingMeta" where
  "fresh_pending m = \<lparr>pm_md = m, attempts = 0, dueAt = 0, releaseOnly = False, parks = 0, pm_delivered = 0\<rparr>"

text \<open>\<open>e\<close> is what the RPC of this send returned.\<close>

definition sendMetadataOnce :: "hashes \<Rightarrow> time \<Rightarrow> sendError option \<Rightarrow> 'x pendingMeta \<Rightarrow> 'x metaAgent \<Rightarrow> 'x metaAgent" where
  "sendMetadataOnce H now e item a =
     (let n = attempts item + 1; m = pm_md item
      in case metaVerdictOf e n of
           metaDelivered \<Rightarrow> a\<lparr>metaDeliveredCount := metaDeliveredCount a + 1, metaGiveUps := 0\<rparr>
         | metaRetryLater \<Rightarrow> scheduleMetaRetry H now ((fresh_pending m)\<lparr>attempts := n\<rparr>) a
         | metaGiveUp \<Rightarrow>
             if is_exceptionMeta m then deleteMetaCache H m a
             else let a = a\<lparr>metaGiveUps := metaGiveUps a + 1\<rparr>
                  in if metaGiveUps a = 1 then deleteMetaCache H m a
                     else scheduleMetaRetry H now ((fresh_pending m)\<lparr>releaseOnly := True, parks := metaGiveUpParks - 1,
                            pm_delivered := metaDeliveredCount a\<rparr>) a
         | metaRejected \<Rightarrow>
             if is_exceptionMeta m then a
             else scheduleMetaRetry H now ((fresh_pending m)\<lparr>releaseOnly := True\<rparr>) a)"

section \<open>The ids a span can be given\<close>

text \<open>A cached id with the key it stands for, and the one a metadata item describes.\<close>

datatype metaRef = ApiRef "string \<times> int" go_int32 | ErrorRef string go_int32 | SqlRef sqlHash go_int32 | UidRef sqlHash string

fun ref_of :: "'x metaItem \<Rightarrow> metaRef set" where
  "ref_of (apiMeta i d t) = {ApiRef (d, t) i}"
| "ref_of (stringMeta i f) = {ErrorRef f i}"
| "ref_of (sqlMeta i q k) = {SqlRef k i}"
| "ref_of (sqlUidMeta u q k) = {UidRef k u}"
| "ref_of (exceptionMeta tx sp uri es) = {}"

definition refs_in :: "('k \<Rightarrow> 'v \<Rightarrow> metaRef) \<Rightarrow> ('k \<Rightarrow> nat) \<Rightarrow> ('k, 'v) metaCache \<Rightarrow> metaRef set" where
  "refs_in ref hash c = {ref k v |k v. cache_abs hash c k = Some v}"

definition cached_refs :: "hashes \<Rightarrow> 'x metaAgent \<Rightarrow> metaRef set" where
  "cached_refs H a =
     refs_in ApiRef (hash_api H) (apiCache a) \<union> refs_in ErrorRef (hash_str H) (errorCache a)
     \<union> refs_in SqlRef (hash_str H) (sqlCache a) \<union> refs_in UidRef (hash_str H) (sqlUidCache a)"

definition caches_ok :: "hashes \<Rightarrow> 'x metaAgent \<Rightarrow> bool" where
  "caches_ok H a \<longleftrightarrow> cache_inv (hash_api H) (apiCache a) \<and> cache_inv (hash_str H) (errorCache a)
     \<and> cache_inv (hash_str H) (sqlCache a) \<and> cache_inv (hash_str H) (sqlUidCache a)"

definition queues_of :: "'x metaAgent \<Rightarrow> agentPhase \<times> 'x metaItem list \<times> 'x metaRetryQueue" where
  "queues_of a = (ma_phase a, metaChan a, metaRetry a)"

lemma ids_and_drops_kept [simp]:
  "caches_ok H (a\<lparr>metaDrops := d\<rparr>) = caches_ok H a" "cached_refs H (a\<lparr>metaDrops := d\<rparr>) = cached_refs H a"
  "queues_of (a\<lparr>metaDrops := d\<rparr>) = queues_of a"
  "caches_ok H (a\<lparr>metaRetryDrops := d\<rparr>) = caches_ok H a" "cached_refs H (a\<lparr>metaRetryDrops := d\<rparr>) = cached_refs H a"
  "queues_of (a\<lparr>metaRetryDrops := d\<rparr>) = queues_of a"
  "caches_ok H (a\<lparr>metaGiveUps := n\<rparr>) = caches_ok H a" "cached_refs H (a\<lparr>metaGiveUps := n\<rparr>) = cached_refs H a"
  "queues_of (a\<lparr>metaGiveUps := n\<rparr>) = queues_of a"
  "caches_ok H (a\<lparr>metaDeliveredCount := n\<rparr>) = caches_ok H a" "cached_refs H (a\<lparr>metaDeliveredCount := n\<rparr>) = cached_refs H a"
  "queues_of (a\<lparr>metaDeliveredCount := n\<rparr>) = queues_of a"
  "caches_ok H (a\<lparr>apiIdGen := g\<rparr>) = caches_ok H a" "cached_refs H (a\<lparr>apiIdGen := g\<rparr>) = cached_refs H a"
  "queues_of (a\<lparr>apiIdGen := g\<rparr>) = queues_of a"
  "caches_ok H (a\<lparr>errorIdGen := g\<rparr>) = caches_ok H a" "cached_refs H (a\<lparr>errorIdGen := g\<rparr>) = cached_refs H a"
  "queues_of (a\<lparr>errorIdGen := g\<rparr>) = queues_of a"
  "caches_ok H (a\<lparr>sqlIdGen := g\<rparr>) = caches_ok H a" "cached_refs H (a\<lparr>sqlIdGen := g\<rparr>) = cached_refs H a"
  "queues_of (a\<lparr>sqlIdGen := g\<rparr>) = queues_of a"
  "caches_ok H (a\<lparr>metaRetry := q\<rparr>) = caches_ok H a" "cached_refs H (a\<lparr>metaRetry := q\<rparr>) = cached_refs H a"
  "caches_ok H (a\<lparr>metaChan := ch\<rparr>) = caches_ok H a" "cached_refs H (a\<lparr>metaChan := ch\<rparr>) = cached_refs H a"
  "caches_ok H (a\<lparr>ma_phase := p\<rparr>) = caches_ok H a" "cached_refs H (a\<lparr>ma_phase := p\<rparr>) = cached_refs H a"
  by (simp_all add: caches_ok_def cached_refs_def queues_of_def)

text \<open>
  What one kind of metadata is to the shared code: a cache reached through \<open>get\<close> and \<open>put\<close>, its part of the cached
  references, and nothing else of the agent.
\<close>

locale meta_kind =
  fixes H :: hashes and hash :: "'k \<Rightarrow> nat" and get :: "'x metaAgent \<Rightarrow> ('k, 'v) metaCache"
    and put :: "('k, 'v) metaCache \<Rightarrow> 'x metaAgent \<Rightarrow> 'x metaAgent"
    and ref :: "'k \<Rightarrow> 'v \<Rightarrow> metaRef"
    and rest_refs :: "'x metaAgent \<Rightarrow> metaRef set" and rest_ok :: "'x metaAgent \<Rightarrow> bool"
  assumes refs_split: "cached_refs H (put c a) = refs_in ref hash c \<union> rest_refs a"
    and refs_get: "cached_refs H a = refs_in ref hash (get a) \<union> rest_refs a"
    and ok_split: "caches_ok H (put c a) \<longleftrightarrow> cache_inv hash c \<and> rest_ok a"
    and ok_get: "caches_ok H a \<longleftrightarrow> cache_inv hash (get a) \<and> rest_ok a"
    and queues_kept: "queues_of (put c a) = queues_of a"
    and ref_inj: "ref k v = ref k' v' \<longleftrightarrow> k = k' \<and> v = v'"
    and ref_own: "ref k v \<notin> rest_refs a"
begin

lemma refs_le: "cache_abs hash c \<subseteq>\<^sub>m m \<Longrightarrow> refs_in ref hash c \<subseteq> {ref k v |k v. m k = Some v}"
  by (fastforce simp: refs_in_def map_le_def dom_def)

lemma peek_kept:
  assumes "caches_ok H a"
  shows "caches_ok H (put (snd (cache_peek hash now key (get a))) a)"
    and "cached_refs H (put (snd (cache_peek hash now key (get a))) a) \<subseteq> cached_refs H a"
proof -
  have inv: "cache_inv hash (get a)" and rest: "rest_ok a" using assms ok_get by auto
  show "caches_ok H (put (snd (cache_peek hash now key (get a))) a)"
    using rest peek_spec(1) [OF inv] by (simp add: ok_split)
  have "cache_abs hash (snd (cache_peek hash now key (get a))) \<subseteq>\<^sub>m cache_abs hash (get a)"
    unfolding peek_spec(3) [OF inv] using peek_fst [OF inv, of now key]
    by (cases "fst (cache_peek hash now key (get a))") (auto simp: map_le_def)
  from refs_le [OF this] have "refs_in ref hash (snd (cache_peek hash now key (get a))) \<subseteq> refs_in ref hash (get a)"
    unfolding refs_in_def .
  then show "cached_refs H (put (snd (cache_peek hash now key (get a))) a) \<subseteq> cached_refs H a"
    unfolding refs_split refs_get [of a] by blast
qed

lemma add_kept:
  assumes "caches_ok H a"
  shows "caches_ok H (put (snd (cache_peekOrAdd hash trylock now key v (get a))) a)"
    and "cached_refs H (put (snd (cache_peekOrAdd hash trylock now key v (get a))) a) \<subseteq>
      (if fst (cache_peekOrAdd hash trylock now key v (get a)) = None then insert (ref key v) (cached_refs H a)
       else cached_refs H a)"
proof -
  have inv: "cache_inv hash (get a)" and rest: "rest_ok a" using assms ok_get by auto
  show "caches_ok H (put (snd (cache_peekOrAdd hash trylock now key v (get a))) a)"
    using rest peekOrAdd_inv [OF inv] by (simp add: ok_split)
  from refs_le [OF peekOrAdd_le(1) [OF inv]]
  show "cached_refs H (put (snd (cache_peekOrAdd hash trylock now key v (get a))) a) \<subseteq>
      (if fst (cache_peekOrAdd hash trylock now key v (get a)) = None then insert (ref key v) (cached_refs H a)
       else cached_refs H a)"
    unfolding refs_split refs_get [of a] by (fastforce simp: refs_in_def split: if_splits)
qed

lemma remove_kept:
  assumes "caches_ok H a"
  shows "caches_ok H (put (cache_remove hash key (\<lambda>w. w = v) (get a)) a)"
    and "cached_refs H (put (cache_remove hash key (\<lambda>w. w = v) (get a)) a) = cached_refs H a - {ref key v}"
    and "queues_of (put (cache_remove hash key (\<lambda>w. w = v) (get a)) a) = queues_of a"
proof -
  have inv: "cache_inv hash (get a)" and rest: "rest_ok a" using assms ok_get by auto
  show "caches_ok H (put (cache_remove hash key (\<lambda>w. w = v) (get a)) a)"
    using rest remove_spec(1) [OF inv] by (simp add: ok_split)
  show "queues_of (put (cache_remove hash key (\<lambda>w. w = v) (get a)) a) = queues_of a" by (rule queues_kept)
  have "refs_in ref hash (cache_remove hash key (\<lambda>w. w = v) (get a)) = refs_in ref hash (get a) - {ref key v}"
  proof -
    have "cache_abs hash (cache_remove hash key (\<lambda>w. w = v) (get a)) k = Some w
      \<longleftrightarrow> cache_abs hash (get a) k = Some w \<and> \<not> (k = key \<and> w = v)" for k w
      unfolding remove_spec(2) [OF inv] by (auto split: option.splits)
    then show ?thesis unfolding refs_in_def by (auto simp: ref_inj)
  qed
  then show "cached_refs H (put (cache_remove hash key (\<lambda>w. w = v) (get a)) a) = cached_refs H a - {ref key v}"
    unfolding refs_split refs_get [of a] using ref_own by blast
qed

lemma lookup_kept:
  assumes ok: "caches_ok H a" and "lookupMeta hash get put now key a = (r, a')"
  shows "caches_ok H a' \<and> cached_refs H a' \<subseteq> cached_refs H a \<and> queues_of a' = queues_of a"
proof -
  let ?a = "put (snd (cache_peek hash now key (get a))) a"
  have kept: "caches_ok H ?a \<and> cached_refs H ?a \<subseteq> cached_refs H a \<and> queues_of ?a = queues_of a"
    using peek_kept [OF ok] queues_kept by auto
  have "a' = a \<or> a' = ?a \<or> (\<exists>d. a' = ?a\<lparr>metaDrops := d\<rparr>)"
    using assms(2) by (auto simp: lookupMeta_def metaQueueFull_def Let_def split: prod.splits option.splits if_splits)
  then show ?thesis using kept ok by auto
qed

lemma publish_kept:
  assumes ok: "caches_ok H a" and pub: "publishMeta hash get put trylock now key mint md a = ((r, m), a')"
    and mint: "caches_ok H (snd (mint a))" "cached_refs H (snd (mint a)) = cached_refs H a"
      "queues_of (snd (mint a)) = queues_of a"
    and md: "\<And>v. ref_of (md v) = {ref key v}"
  shows "caches_ok H a' \<and> cached_refs H a' \<subseteq> cached_refs H a \<union> (case m of None \<Rightarrow> {} | Some x \<Rightarrow> ref_of x)
    \<and> queues_of a' = queues_of a"
proof (cases "fst (mint a)")
  case None
  then show ?thesis using pub mint by (cases "mint a") (auto simp: publishMeta_def)
next
  case (Some v)
  let ?a = "snd (mint a)" let ?r = "cache_peekOrAdd hash trylock now key v (get ?a)"
  have m: "m = (if fst ?r = None then Some (md v) else None)" and a': "a' = put (snd ?r) ?a"
    using pub Some by (cases "mint a"; auto simp: publishMeta_def Let_def split: prod.splits option.splits)+
  show ?thesis
    using add_kept [OF mint(1), of trylock now key v] mint(2,3) md [of v] unfolding a' m by (auto simp: queues_kept)
qed

end

lemmas kind_defs = cached_refs_def caches_ok_def queues_of_def refs_in_def

interpretation api_kind: meta_kind H "hash_api H" apiCache put_api ApiRef
  "\<lambda>a. refs_in ErrorRef (hash_str H) (errorCache a) \<union> refs_in SqlRef (hash_str H) (sqlCache a)
    \<union> refs_in UidRef (hash_str H) (sqlUidCache a)"
  "\<lambda>a. cache_inv (hash_str H) (errorCache a) \<and> cache_inv (hash_str H) (sqlCache a) \<and> cache_inv (hash_str H) (sqlUidCache a)"
  for H
  by unfold_locales (auto simp: put_api_def kind_defs)

interpretation error_kind: meta_kind H "hash_str H" errorCache put_error ErrorRef
  "\<lambda>a. refs_in ApiRef (hash_api H) (apiCache a) \<union> refs_in SqlRef (hash_str H) (sqlCache a)
    \<union> refs_in UidRef (hash_str H) (sqlUidCache a)"
  "\<lambda>a. cache_inv (hash_api H) (apiCache a) \<and> cache_inv (hash_str H) (sqlCache a) \<and> cache_inv (hash_str H) (sqlUidCache a)"
  for H
  by unfold_locales (auto simp: put_error_def kind_defs)

interpretation sql_kind: meta_kind H "hash_str H" sqlCache put_sql SqlRef
  "\<lambda>a. refs_in ApiRef (hash_api H) (apiCache a) \<union> refs_in ErrorRef (hash_str H) (errorCache a)
    \<union> refs_in UidRef (hash_str H) (sqlUidCache a)"
  "\<lambda>a. cache_inv (hash_api H) (apiCache a) \<and> cache_inv (hash_str H) (errorCache a) \<and> cache_inv (hash_str H) (sqlUidCache a)"
  for H
  by unfold_locales (auto simp: put_sql_def kind_defs)

interpretation uid_kind: meta_kind H "hash_str H" sqlUidCache put_uid UidRef
  "\<lambda>a. refs_in ApiRef (hash_api H) (apiCache a) \<union> refs_in ErrorRef (hash_str H) (errorCache a)
    \<union> refs_in SqlRef (hash_str H) (sqlCache a)"
  "\<lambda>a. cache_inv (hash_api H) (apiCache a) \<and> cache_inv (hash_str H) (errorCache a) \<and> cache_inv (hash_str H) (sqlCache a)"
  for H
  by unfold_locales (auto simp: put_uid_def kind_defs)

lemma delete_kept:
  assumes "caches_ok H a"
  shows "caches_ok H (deleteMetaCache H m a)" "cached_refs H (deleteMetaCache H m a) = cached_refs H a - ref_of m"
    "queues_of (deleteMetaCache H m a) = queues_of a"
  using assms by (cases m; simp add: api_kind.remove_kept error_kind.remove_kept sql_kind.remove_kept uid_kind.remove_kept)+

definition new_metaAgent :: "nat \<Rightarrow> nat \<Rightarrow> duration \<Rightarrow> nat \<Rightarrow> 'x metaAgent" where
  "new_metaAgent cacheSize sqlCacheSize uidTtl queueSize =
     (let d = \<lparr>dr_dropped = 0, dr_reported = 0, reportAt = 0\<rparr>
      in \<lparr>ma_phase = phaseRunning, apiCache = newMetaCache cacheSize 0, errorCache = newMetaCache cacheSize 0,
          sqlCache = newMetaCache sqlCacheSize 0, sqlUidCache = newMetaCache sqlCacheSize uidTtl, apiIdGen = new_idGen,
          errorIdGen = new_idGen, sqlIdGen = new_idGen, metaChan = [], metaChanCap = queueSize, metaDrops = d,
          metaRetryDrops = d, metaRetry = \<lparr>rq_items = [], rq_capacity = metaRetryQueueSize, rq_wake = False\<rparr>,
          metaDeliveredCount = 0, metaGiveUps = 0, retryDelay = 1000000000\<rparr>)"

definition demo_hashes :: hashes where
  "demo_hashes = \<lparr>hash_api = \<lambda>k. length (fst k), hash_str = length\<rparr>"

section \<open>The retry schedule ends\<close>

text \<open>How many more times an item can pass through the sender: its sends left and the parks a give-up adds, or its parks.\<close>

definition passes_left :: "'x pendingMeta \<Rightarrow> nat" where
  "passes_left x = (if releaseOnly x then Suc (parks x) else (metaRetryMaxAttempts - attempts x) + metaGiveUpParks)"

definition handle :: "hashes \<Rightarrow> time \<Rightarrow> sendError option \<Rightarrow> 'x pendingMeta \<Rightarrow> 'x metaAgent \<Rightarrow> 'x metaAgent" where
  "handle H now e x a = (if releaseOnly x then releaseParkedMeta H now x a else sendMetadataOnce H now e x a)"

lemma delete_retry: "metaRetry (deleteMetaCache H m a) = metaRetry a"
  by (cases m) (simp_all add: put_api_def put_error_def put_sql_def put_uid_def)

lemma schedule_items:
  "set (rq_items (metaRetry (scheduleMetaRetry H now x a))) \<subseteq> set (rq_items (metaRetry a)) \<union> {x\<lparr>dueAt := now + retryDelay a\<rparr>}"
  by (auto simp: scheduleMetaRetry_def retry_push_def delete_retry split: option.splits prod.splits if_splits list.splits)

text \<open>
  A metadata item leaves the schedule after at most 33 passes: what the sender does with an item it took puts back at most
  that item, with strictly fewer passes left, however the sends fail and whatever the collector delivers meanwhile.
\<close>

theorem retries_run_out:
  assumes "attempts x < metaRetryMaxAttempts"
  shows "\<forall>y \<in> set (rq_items (metaRetry (handle H now e x a))). y \<in> set (rq_items (metaRetry a))
      \<or> (pm_md y = pm_md x \<and> passes_left y < passes_left x \<and> attempts y < metaRetryMaxAttempts)"
proof
  fix y assume y: "y \<in> set (rq_items (metaRetry (handle H now e x a)))"
  have sched: "y \<in> set (rq_items (metaRetry a)) \<or> (pm_md y = pm_md z \<and> passes_left y = passes_left z \<and> attempts y = attempts z)"
    if "y \<in> set (rq_items (metaRetry (scheduleMetaRetry H now z b)))" "metaRetry b = metaRetry a" for z b
    using schedule_items [of H now z b] that by (auto simp: passes_left_def)
  show "y \<in> set (rq_items (metaRetry a))
      \<or> (pm_md y = pm_md x \<and> passes_left y < passes_left x \<and> attempts y < metaRetryMaxAttempts)"
  proof (cases "releaseOnly x")
    case True
    then show ?thesis
      using y sched [of "x\<lparr>parks := parks x - 1\<rparr>" a] assms
      by (auto simp: handle_def releaseParkedMeta_def delete_retry passes_left_def split: if_splits)
  next
    case False
    consider "e = None" | z where "e = Some z" by (cases e) auto
    then show ?thesis
    proof cases
      case 1
      then show ?thesis using y False by (simp add: handle_def sendMetadataOnce_def metaVerdictOf_def Let_def)
    next
      case 2
      let ?later = "(fresh_pending (pm_md x))\<lparr>attempts := attempts x + 1\<rparr>"
      let ?park = "(fresh_pending (pm_md x))\<lparr>releaseOnly := True\<rparr>"
      let ?given = "\<lambda>a. (fresh_pending (pm_md x))\<lparr>releaseOnly := True, parks := metaGiveUpParks - 1, pm_delivered := metaDeliveredCount a\<rparr>"
      let ?a = "a\<lparr>metaGiveUps := metaGiveUps a + 1\<rparr>"
      have left: "passes_left ?park < passes_left x" "passes_left (?given ?a) < passes_left x"
        "attempts x + 1 < metaRetryMaxAttempts \<Longrightarrow> passes_left ?later < passes_left x"
        using assms False by (auto simp: passes_left_def fresh_pending_def metaRetryMaxAttempts_def metaGiveUpParks_def)
      show ?thesis
        using y 2 False left assms sched [of ?later a] sched [of ?park a] sched [of "?given ?a" ?a]
        by (auto simp: handle_def sendMetadataOnce_def metaVerdictOf_def Let_def delete_retry fresh_pending_def
            metaRetryMaxAttempts_def split: if_splits)
    qed
  qed
qed

definition demo_item :: "nat pendingMeta" where
  "demo_item = fresh_pending (stringMeta 1 ''io'')"

definition demo_handled :: "nat metaAgent" where
  "demo_handled = handle demo_hashes 5 (Some Unavailable) demo_item (new_metaAgent 4 4 0 2)"

theorem retries_run_out_witness:
  "passes_left demo_item = 33
   \<and> (\<exists>y. rq_items (metaRetry demo_handled) = [y] \<and> pm_md y = pm_md demo_item \<and> passes_left y < 33)"
proof (intro conjI)
  show left: "passes_left demo_item = 33" by code_simp
  have one: "length (rq_items (metaRetry demo_handled)) = 1" by code_simp
  then obtain y where y: "rq_items (metaRetry demo_handled) = [y]" by (cases "rq_items (metaRetry demo_handled)") auto
  have none: "rq_items (metaRetry (new_metaAgent 4 4 0 2 :: nat metaAgent)) = []" by (simp add: new_metaAgent_def Let_def)
  have "attempts demo_item < metaRetryMaxAttempts" by (simp add: demo_item_def fresh_pending_def metaRetryMaxAttempts_def)
  from retries_run_out [OF this, of demo_hashes 5 "Some Unavailable" "new_metaAgent 4 4 0 2"] none left y
  show "\<exists>y. rq_items (metaRetry demo_handled) = [y] \<and> pm_md y = pm_md demo_item \<and> passes_left y < 33"
    by (auto simp: demo_handled_def)
qed

end
