(* ===== verification/Sql_Normalizer.thy ===== *)
theory Sql_Normalizer
  imports Go_Strings
begin

text \<open>
  The SQL normalizer (\<^verbatim>\<open>src/sql_util.go\<close>): a byte scanner that replaces the literals of a statement by
  placeholders and collects the removed values. The record \<open>sqlNormalizer\<close> and one definition per method
  follow the source, including the lazily materialized output; a token lexer written without any of that
  state is the specification, and \<open>run_tokenizes\<close> the refinement between the two.
\<close>

section \<open>The scanner\<close>

record sqlNormalizer =
  sql :: string
  pos :: nat
  outbuf :: string
  materialized :: bool
  param :: string
  paramIndex :: nat
  removeComments :: bool

definition maxSqlNormalizeLength :: nat where "maxSqlNormalizeLength = 2 ^ 20"

definition sqlNormalizable :: "string \<Rightarrow> bool" where
  "sqlNormalizable s \<longleftrightarrow> length s \<le> maxSqlNormalizeLength"

definition newSqlNormalizer :: "string \<Rightarrow> bool \<Rightarrow> sqlNormalizer" where
  "newSqlNormalizer s rc =
     \<lparr>sql = s, pos = 0, outbuf = [], materialized = False, param = [], paramIndex = 0, removeComments = rc\<rparr>"

definition lookahead :: "char \<Rightarrow> sqlNormalizer \<Rightarrow> bool" where
  "lookahead expected s \<longleftrightarrow> pos s < length (sql s) \<and> sql s ! pos s = expected"

definition lookaheadDigit :: "sqlNormalizer \<Rightarrow> bool" where
  "lookaheadDigit s \<longleftrightarrow> pos s < length (sql s) \<and> isDigit (sql s ! pos s)"

definition emit :: "char \<Rightarrow> sqlNormalizer \<Rightarrow> sqlNormalizer" where
  "emit ch s = (if materialized s then s\<lparr>outbuf := outbuf s @ [ch]\<rparr> else s)"

definition materialize :: "nat \<Rightarrow> sqlNormalizer \<Rightarrow> sqlNormalizer" where
  "materialize upto_pos s =
     (if materialized s then s
      else s\<lparr>materialized := True, outbuf := outbuf s @ take upto_pos (sql s)\<rparr>)"

definition write_output :: "string \<Rightarrow> sqlNormalizer \<Rightarrow> sqlNormalizer" where
  "write_output t s = s\<lparr>outbuf := outbuf s @ t\<rparr>"

definition write_param :: "string \<Rightarrow> sqlNormalizer \<Rightarrow> sqlNormalizer" where
  "write_param t s = s\<lparr>param := param s @ t\<rparr>"

definition advance :: "nat \<Rightarrow> sqlNormalizer \<Rightarrow> sqlNormalizer" where
  "advance n s = s\<lparr>pos := pos s + n\<rparr>"

definition writeParamIndex :: "sqlNormalizer \<Rightarrow> sqlNormalizer" where
  "writeParamIndex s = (write_output (FormatInt (int (paramIndex s))) s)\<lparr>paramIndex := paramIndex s + 1\<rparr>"

definition startParam :: "sqlNormalizer \<Rightarrow> sqlNormalizer" where
  "startParam s = (if length (param s) > 0 then write_param '','' s else s)"

definition consumeComment :: "string \<Rightarrow> sqlNormalizer \<Rightarrow> sqlNormalizer" where
  "consumeComment term s =
     (let start = pos s - 1;
          stop = (case Index (drop (start + 2) (sql s)) term of
                    Some i \<Rightarrow> start + 2 + i + length term
                  | None \<Rightarrow> length (sql s));
          s' = (if removeComments s then materialize start s
                else if materialized s then write_output (drop start (take stop (sql s))) s
                else s)
      in s'\<lparr>pos := stop\<rparr>)"

function char_literal_loop :: "sqlNormalizer \<Rightarrow> sqlNormalizer" where
  "char_literal_loop s =
     (if pos s < length (sql s) then
        let ch = sql s ! pos s; s1 = advance 1 s
        in if ch = CHR '','' then char_literal_loop (write_param [ch] (write_param [ch] s1))
           else if ch = CHR 0x27 then
             if lookahead CHR 0x27 s1
             then char_literal_loop (write_param [ch] (advance 1 (write_param [CHR 0x27] s1)))
             else write_output [CHR ''$'', CHR 0x27] (writeParamIndex s1)
           else char_literal_loop (write_param [ch] s1)
      else s)"
  by pat_completeness auto
termination
  by (relation "measure (\<lambda>s. length (sql s) - pos s)") (auto simp: advance_def write_param_def)

definition consumeCharLiteral :: "sqlNormalizer \<Rightarrow> sqlNormalizer" where
  "consumeCharLiteral s = char_literal_loop (startParam (materialize (pos s) s))"

definition is_number_char :: "char \<Rightarrow> bool" where
  "is_number_char ch \<longleftrightarrow> isDigit ch \<or> ch = CHR ''.'' \<or> ch = CHR ''E'' \<or> ch = CHR ''e''"

function number_literal_loop :: "sqlNormalizer \<Rightarrow> sqlNormalizer" where
  "number_literal_loop s =
     (if pos s < length (sql s) then
        let ch = sql s ! pos s
        in if \<not> is_number_char ch then s else number_literal_loop (advance 1 (write_param [ch] s))
      else s)"
  by pat_completeness auto
termination
  by (relation "measure (\<lambda>s. length (sql s) - pos s)") (auto simp: advance_def write_param_def)

definition consumeNumberLiteral :: "char \<Rightarrow> sqlNormalizer \<Rightarrow> sqlNormalizer" where
  "consumeNumberLiteral first s =
     number_literal_loop (write_param [first] (write_output ''#'' (writeParamIndex
       (startParam (materialize (pos s - 1) s)))))"

text \<open>One iteration of the loop in \<open>run\<close>; the flag is \<open>numberTokenStartEnable\<close>.\<close>

definition run_step :: "bool \<Rightarrow> sqlNormalizer \<Rightarrow> bool \<times> sqlNormalizer" where
  "run_step flag s0 =
     (let ch = sql s0 ! pos s0; s = advance 1 s0
      in if ch = CHR ''/'' then
           if lookahead CHR ''/'' s then (flag, consumeComment [CHR 0x0A] s)
           else if lookahead CHR ''*'' s then (flag, consumeComment ''*/'' s)
           else (True, emit ch s)
         else if ch = CHR ''-'' then
           if lookahead CHR ''-'' s then (flag, consumeComment [CHR 0x0A] s)
           else (True, emit ch s)
         else if ch = CHR 0x27 then
           (let s = emit ch s
            in if lookahead CHR 0x27 s then (flag, advance 1 (emit CHR 0x27 s))
               else (flag, consumeCharLiteral s))
         else if isDigit ch then
           if flag then (flag, consumeNumberLiteral ch s) else (flag, emit ch s)
         else if ch = CHR ''$'' then
           (if lookaheadDigit s then False else flag, emit ch s)
         else if isLetter ch \<or> ch \<in> {CHR ''.'', CHR ''_'', CHR ''@'', CHR '':''} then (False, emit ch s)
         else (True, emit ch s))"

declare char_literal_loop.simps [simp del] number_literal_loop.simps [simp del]

named_theorems scan_defs

lemmas [scan_defs] = lookahead_def lookaheadDigit_def emit_def materialize_def write_output_def write_param_def
  advance_def writeParamIndex_def startParam_def Let_def

section \<open>The literals as pieces of the text\<close>

text \<open>
  \<open>quoted cs\<close> reads the inside of a literal up to its closing quote: the content as written, whether the
  quote was there, and the text behind it.
\<close>

fun quoted :: "string \<Rightarrow> string \<times> bool \<times> string" where
  "quoted [] = ([], False, [])"
| "quoted [c] = (if c = CHR 0x27 then ([], True, []) else ([c], False, []))"
| "quoted (c # d # cs) =
     (if c = CHR 0x27 then
        if d = CHR 0x27 then let (x, closed, rest) = quoted cs in (c # d # x, closed, rest)
        else ([], True, d # cs)
      else let (x, closed, rest) = quoted (d # cs) in (c # x, closed, rest))"

text \<open>A recorded value has its commas doubled.\<close>

definition double_commas :: "string \<Rightarrow> string" where
  "double_commas x = concat (map (\<lambda>c. if c = CHR '','' then [c, c] else [c]) x)"

lemma double_commas_simps [simp]:
  "double_commas [] = []"
  "double_commas (c # x) = (if c = CHR '','' then [c, c] else [c]) @ double_commas x"
  by (simp_all add: double_commas_def)

definition literal_effect :: "string \<Rightarrow> bool \<Rightarrow> sqlNormalizer \<Rightarrow> sqlNormalizer" where
  "literal_effect x closed s =
     s\<lparr>pos := pos s + length x + (if closed then 1 else 0),
       outbuf := outbuf s @ (if closed then FormatInt (int (paramIndex s)) @ [CHR ''$'', CHR 0x27] else []),
       param := param s @ double_commas x,
       paramIndex := paramIndex s + (if closed then 1 else 0)\<rparr>"

lemma quoted_text:
  "quoted cs = (x, closed, rest) \<Longrightarrow> cs = x @ (if closed then [CHR 0x27] else []) @ rest"
  by (induction cs arbitrary: x closed rest rule: quoted.induct) (auto split: if_splits prod.splits)

lemma quoted_unclosed: "quoted cs = (x, False, rest) \<Longrightarrow> rest = []"
  by (induction cs arbitrary: x rest rule: quoted.induct) (auto split: if_splits prod.splits)

lemma char_literal_loop_effect:
  "drop (pos s) (sql s) = cs \<Longrightarrow> quoted cs = (x, closed, rest) \<Longrightarrow>
   char_literal_loop s = literal_effect x closed s"
proof (induction cs arbitrary: s x closed rest rule: quoted.induct)
  case 1
  then show ?case by (subst char_literal_loop.simps) (auto simp: literal_effect_def)
next
  case (2 c)
  from drop_ConsD [OF 2(1)] have c: "pos s < length (sql s)" "sql s ! pos s = c" "length (sql s) = Suc (pos s)"
    by auto
  have stop: "char_literal_loop t = t" if "length (sql t) \<le> pos t" for t
    using that by (subst char_literal_loop.simps) auto
  from 2(2) show ?case
    by (subst char_literal_loop.simps)
      (auto simp: c stop literal_effect_def scan_defs split: if_splits)
next
  case (3 c d cs)
  from drop_ConsD [OF 3(3)] have c: "pos s < length (sql s)" "sql s ! pos s = c" "drop (Suc (pos s)) (sql s) = d # cs"
    by auto
  from drop_ConsD [OF c(3)] have d: "Suc (pos s) < length (sql s)" "sql s ! Suc (pos s) = d"
      "drop (Suc (Suc (pos s))) (sql s) = cs"
    by auto
  show ?case
  proof (cases "c = CHR 0x27")
    case False
    obtain x' where x': "quoted (d # cs) = (x', closed, rest)" "x = c # x'"
      using 3(4) False by (auto split: prod.splits)
    have "char_literal_loop t = literal_effect x' closed t" if "drop (pos t) (sql t) = d # cs" for t
      using 3(2) [OF False that x'(1)] .
    then show ?thesis using False c x'(2)
      by (subst char_literal_loop.simps) (auto simp: literal_effect_def scan_defs)
  next
    case True
    note quote = this
    show ?thesis
    proof (cases "d = CHR 0x27")
      case True
      obtain x' where x': "quoted cs = (x', closed, rest)" "x = c # d # x'"
        using 3(4) quote True by (auto split: prod.splits)
      have "char_literal_loop t = literal_effect x' closed t" if "drop (pos t) (sql t) = cs" for t
        using 3(1) [OF quote True that x'(1)] .
      then show ?thesis using quote True c d x'(2)
        by (subst char_literal_loop.simps) (auto simp: literal_effect_def scan_defs)
    next
      case False
      with 3(4) quote have "x = []" "closed" by auto
      then show ?thesis using quote False c d
        by (subst char_literal_loop.simps) (auto simp: literal_effect_def scan_defs)
    qed
  qed
qed

lemma number_literal_loop_effect:
  "drop (pos s) (sql s) = cs \<Longrightarrow>
   number_literal_loop s =
     s\<lparr>pos := pos s + length (takeWhile is_number_char cs), param := param s @ takeWhile is_number_char cs\<rparr>"
proof (induction cs arbitrary: s)
  case Nil
  then show ?case by (subst number_literal_loop.simps) auto
next
  case (Cons c cs)
  from drop_ConsD [OF Cons(2)] have c: "pos s < length (sql s)" "sql s ! pos s = c" "drop (Suc (pos s)) (sql s) = cs"
    by auto
  then show ?case
    by (subst number_literal_loop.simps) (auto simp: scan_defs Cons(1))
qed

section \<open>The specification: a lexer\<close>

datatype token =
    Copy char
  | is_Comment: Comment string
  | EmptyLit
  | CharLit string bool
  | NumLit string

text \<open>\<open>read_comment t rest\<close> cuts \<open>rest\<close> behind the first \<open>t\<close>, or takes all of it.\<close>

definition read_comment :: "string \<Rightarrow> string \<Rightarrow> string \<times> string" where
  "read_comment t rest =
     (case Index rest t of Some i \<Rightarrow> (take (i + length t) rest, drop (i + length t) rest) | None \<Rightarrow> (rest, []))"

definition next_is :: "char \<Rightarrow> string \<Rightarrow> bool" where
  "next_is c cs \<longleftrightarrow> (case cs of [] \<Rightarrow> False | d # _ \<Rightarrow> d = c)"

text \<open>
  The token that starts with \<open>c\<close> and goes on in \<open>cs\<close>, the text behind it, and whether a digit there may
  start a number.
\<close>

definition comment_token :: "string \<Rightarrow> bool \<Rightarrow> char \<Rightarrow> string \<Rightarrow> token \<times> string \<times> bool" where
  "comment_token t flag c cs =
     (let (body, rest) = read_comment t (tl cs) in (Comment (c # hd cs # body), rest, flag))"

definition copy_flag :: "bool \<Rightarrow> char \<Rightarrow> string \<Rightarrow> bool" where
  "copy_flag flag c cs =
     (if isDigit c then False
      else if c = CHR ''$'' then flag \<and> \<not> (cs \<noteq> [] \<and> isDigit (hd cs))
      else \<not> (isLetter c \<or> c \<in> {CHR ''.'', CHR ''_'', CHR ''@'', CHR '':''}))"

definition read_token :: "bool \<Rightarrow> char \<Rightarrow> string \<Rightarrow> token \<times> string \<times> bool" where
  "read_token flag c cs =
     (if c = CHR ''/'' \<and> next_is CHR ''/'' cs \<or> c = CHR ''-'' \<and> next_is CHR ''-'' cs
      then comment_token [CHR 0x0A] flag c cs
      else if c = CHR ''/'' \<and> next_is CHR ''*'' cs then comment_token ''*/'' flag c cs
      else if c = CHR 0x27 then
        if next_is CHR 0x27 cs then (EmptyLit, tl cs, flag)
        else let (x, closed, rest) = quoted cs in (CharLit x closed, rest, flag)
      else if isDigit c \<and> flag
      then (NumLit (c # takeWhile is_number_char cs), dropWhile is_number_char cs, True)
      else (Copy c, cs, copy_flag flag c cs))"

fun token_text :: "token \<Rightarrow> string" where
  "token_text (Copy c) = [c]"
| "token_text (Comment s) = s"
| "token_text EmptyLit = [CHR 0x27, CHR 0x27]"
| "token_text (CharLit x closed) = CHR 0x27 # x @ (if closed then [CHR 0x27] else [])"
| "token_text (NumLit ds) = ds"

lemma Index_split: "Index s t = Some i \<Longrightarrow> i + length t \<le> length s"
  by (simp add: Index_Some)

lemma read_comment_text: "read_comment t rest = (body, rest') \<Longrightarrow> rest = body @ rest'"
  by (auto simp: read_comment_def split: option.splits)

lemma comment_token_text:
  assumes "comment_token u flag c cs = (t, rest, flag')" and "cs \<noteq> []"
  shows "c # cs = token_text t @ rest"
  using assms by (cases cs) (auto simp: comment_token_def dest: read_comment_text split: prod.splits)

lemma next_is_iff: "next_is d cs \<longleftrightarrow> (\<exists>cs'. cs = d # cs')"
  by (auto simp: next_is_def split: list.splits)

lemma read_token_text:
  assumes "read_token flag c cs = (t, rest, flag')"
  shows "c # cs = token_text t @ rest"
proof (cases "(\<exists>u. comment_token u flag c cs = (t, rest, flag')) \<and> cs \<noteq> []")
  case True
  then show ?thesis by (auto intro: comment_token_text)
next
  case False
  with assms show ?thesis
    by (auto simp: read_token_def next_is_iff dest: quoted_text split: if_splits prod.splits)
qed

lemma token_text_not_Nil: "read_token flag c cs = (t, rest, flag') \<Longrightarrow> token_text t \<noteq> []"
  by (auto simp: read_token_def comment_token_def split: if_splits prod.splits)

lemma read_token_shrinks: "read_token flag c cs = (t, rest, flag') \<Longrightarrow> length rest \<le> length cs"
  using read_token_text [of flag c cs t rest flag'] token_text_not_Nil [of flag c cs t rest flag']
  by (cases "token_text t") auto

function tokenize :: "bool \<Rightarrow> string \<Rightarrow> token list" where
  "tokenize flag [] = []"
| "tokenize flag (c # cs) = (case read_token flag c cs of (t, rest, flag') \<Rightarrow> t # tokenize flag' rest)"
  by pat_completeness auto
termination
  by (relation "measure (\<lambda>(flag, cs). length cs)") (auto dest!: read_token_shrinks [OF sym])

theorem tokenize_lossless: "concat (map token_text (tokenize flag cs)) = cs"
  by (induction flag cs rule: tokenize.induct) (auto split: prod.splits dest: read_token_text)

text \<open>What a token leaves in the statement, the placeholder numbers it uses up, and the value it records.\<close>

fun render_token :: "bool \<Rightarrow> nat \<Rightarrow> token \<Rightarrow> string" where
  "render_token rc i (Comment s) = (if rc then [] else s)"
| "render_token rc i (CharLit x closed) =
     CHR 0x27 # (if closed then FormatInt (int i) @ [CHR ''$'', CHR 0x27] else [])"
| "render_token rc i (NumLit ds) = FormatInt (int i) @ ''#''"
| "render_token rc i t = token_text t"

fun token_slots :: "token \<Rightarrow> nat" where
  "token_slots (CharLit x closed) = (if closed then 1 else 0)"
| "token_slots (NumLit ds) = 1"
| "token_slots t = 0"

fun token_value :: "token \<Rightarrow> string option" where
  "token_value (CharLit x closed) = Some x"
| "token_value (NumLit ds) = Some ds"
| "token_value t = None"

fun render :: "bool \<Rightarrow> nat \<Rightarrow> token list \<Rightarrow> string" where
  "render rc i [] = []"
| "render rc i (t # ts) = render_token rc i t @ render rc (i + token_slots t) ts"

definition literals :: "token list \<Rightarrow> string list" where
  "literals ts = List.map_filter token_value ts"

text \<open>Values joined with single commas, each with its own commas doubled.\<close>

fun join_values :: "string list \<Rightarrow> string" where
  "join_values [] = []"
| "join_values [v] = double_commas v"
| "join_values (v # w # vs) = double_commas v @ CHR '','' # join_values (w # vs)"

section \<open>One iteration reads one token\<close>

text \<open>The output so far: until it is materialized, the text up to the position.\<close>

definition vout :: "sqlNormalizer \<Rightarrow> string" where
  "vout s = (if materialized s then outbuf s else take (pos s) (sql s))"

definition scan_inv :: "sqlNormalizer \<Rightarrow> bool" where
  "scan_inv s \<longleftrightarrow> pos s \<le> length (sql s) \<and> (\<not> materialized s \<longrightarrow> outbuf s = [] \<and> param s = [] \<and> paramIndex s = 0)"

definition add_value :: "string \<Rightarrow> string \<Rightarrow> string" where
  "add_value acc v = (if acc = [] then [] else acc @ '','') @ double_commas v"

definition reads :: "sqlNormalizer \<Rightarrow> token \<Rightarrow> string \<Rightarrow> sqlNormalizer \<Rightarrow> bool" where
  "reads s t rest s' \<longleftrightarrow>
     sql s' = sql s \<and> removeComments s' = removeComments s \<and> drop (pos s') (sql s) = rest
     \<and> scan_inv s' \<and> vout s' = vout s @ render_token (removeComments s) (paramIndex s) t
     \<and> paramIndex s' = paramIndex s + token_slots t
     \<and> param s' = (case token_value t of None \<Rightarrow> param s | Some v \<Rightarrow> add_value (param s) v)"

lemma take_Suc_drop: "drop n xs = c # cs \<Longrightarrow> take (Suc n) xs = take n xs @ [c]"
  using take_drop_prefix [of n xs "[c]" cs] by simp

lemma emit_reads:
  assumes "scan_inv s" and "drop (pos s) (sql s) = c # cs"
  shows "reads s (Copy c) cs (emit c (advance 1 s))"
  using assms drop_ConsD [OF assms(2)] take_Suc_drop [OF assms(2)]
  by (auto simp: reads_def scan_inv_def vout_def scan_defs)

lemma empty_literal_reads:
  assumes "scan_inv s" and "drop (pos s) (sql s) = c # c # cs" and "c = CHR 0x27"
  shows "reads s EmptyLit cs (advance 1 (emit CHR 0x27 (emit c (advance 1 s))))"
proof -
  have d: "drop (Suc (pos s)) (sql s) = c # cs" using drop_ConsD [OF assms(2)] by simp
  show ?thesis
    using assms(1,3) drop_ConsD [OF assms(2)] drop_ConsD [OF d] take_Suc_drop [OF assms(2)] take_Suc_drop [OF d]
    by (auto simp: reads_def scan_inv_def vout_def scan_defs)
qed

lemma comment_reads:
  assumes inv: "scan_inv s" and d: "drop (pos s) (sql s) = c # m # cs"
    and r: "read_comment u cs = (body, rest)"
  shows "reads s (Comment (c # m # body)) rest (consumeComment u (advance 1 s))"
proof -
  let ?stop = "case Index cs u of Some i \<Rightarrow> pos s + 2 + i + length u | None \<Rightarrow> length (sql s)"
  have len: "length (sql s) = pos s + 2 + length cs"
    using arg_cong [OF d, of length] drop_ConsD [OF d] by simp
  have cs: "drop (pos s + 2) (sql s) = cs" using drop_drop_prefix [of "pos s" "sql s" "[c, m]" cs] d by simp
  have stop: "?stop = pos s + length (c # m # body)" and body: "cs = body @ rest"
    using r len Index_split [of cs u] by (auto simp: read_comment_def split: option.splits)
  from d body have d': "drop (pos s) (sql s) = (c # m # body) @ rest" by simp
  have mid: "drop (pos s) (take ?stop (sql s)) = c # m # body"
    unfolding stop using take_drop_prefix [OF d'] inv by (simp add: scan_inv_def)
  have "pos s + length (c # m # body) \<le> length (sql s)" using len body by simp
  moreover have "consumeComment u (advance 1 s) =
      (if removeComments s then materialize (pos s) (advance 1 s)
       else if materialized s then write_output (c # m # body) (advance 1 s) else advance 1 s)\<lparr>pos := ?stop\<rparr>"
    using cs mid by (simp add: consumeComment_def advance_def Let_def cong: option.case_cong)
  ultimately show ?thesis
    using inv drop_drop_prefix [OF d'] take_drop_prefix [OF d'] unfolding stop
    by (auto simp: reads_def scan_inv_def vout_def scan_defs)
qed

lemma char_literal_reads:
  assumes inv: "scan_inv s" and d: "drop (pos s) (sql s) = CHR 0x27 # cs" and q: "quoted cs = (x, closed, rest)"
  shows "reads s (CharLit x closed) rest (consumeCharLiteral (emit CHR 0x27 (advance 1 s)))"
proof -
  let ?s = "emit CHR 0x27 (advance 1 s)"
  let ?t = "startParam (materialize (pos ?s) ?s)"
  have "drop (Suc (pos s)) (sql s) = cs" using drop_ConsD [OF d] by simp
  then have "drop (pos ?t) (sql ?t) = cs" by (simp add: scan_defs)
  from char_literal_loop_effect [OF this q]
  have e: "consumeCharLiteral ?s = literal_effect x closed ?t" by (simp add: consumeCharLiteral_def)
  have whole: "drop (pos s) (sql s) = (CHR 0x27 # x @ (if closed then [CHR 0x27] else [])) @ rest"
    using d quoted_text [OF q] by simp
  have "pos s + length (CHR 0x27 # x @ (if closed then [CHR 0x27] else [])) \<le> length (sql s)"
    using arg_cong [OF whole, of length] drop_ConsD [OF d] by (auto split: if_splits)
  then show ?thesis unfolding e
    using inv drop_drop_prefix [OF whole] take_Suc_drop [OF d]
    by (auto simp: reads_def scan_inv_def vout_def literal_effect_def add_value_def scan_defs split: if_splits)
qed

lemma double_commas_number: "list_all is_number_char ds \<Longrightarrow> double_commas ds = ds"
  by (induction ds) (auto simp: is_number_char_def isDigit_def)

lemma number_literal_reads:
  assumes inv: "scan_inv s" and d: "drop (pos s) (sql s) = c # cs" and c: "isDigit c"
  shows "reads s (NumLit (c # takeWhile is_number_char cs)) (dropWhile is_number_char cs)
    (consumeNumberLiteral c (advance 1 s))"
proof -
  let ?t = "write_param [c] (write_output ''#'' (writeParamIndex (startParam (materialize (pos s) (advance 1 s)))))"
  let ?ds = "takeWhile is_number_char cs"
  have "drop (Suc (pos s)) (sql s) = cs" using drop_ConsD [OF d] by simp
  then have "drop (pos ?t) (sql ?t) = cs" by (simp add: scan_defs)
  from number_literal_loop_effect [OF this]
  have e: "consumeNumberLiteral c (advance 1 s) = ?t\<lparr>pos := pos ?t + length ?ds, param := param ?t @ ?ds\<rparr>"
    by (simp add: consumeNumberLiteral_def advance_def)
  have whole: "drop (pos s) (sql s) = (c # ?ds) @ dropWhile is_number_char cs" using d by simp
  have bound: "pos s + length (c # ?ds) \<le> length (sql s)"
    using arg_cong [OF d, of length] drop_ConsD [OF d] length_takeWhile_le [of is_number_char cs] by simp
  have dbl: "double_commas ?ds = ?ds" "c \<noteq> CHR '',''"
    by (rule double_commas_number, auto simp: list_all_iff dest: set_takeWhileD) (use c in \<open>auto simp: isDigit_def\<close>)
  show ?thesis unfolding e
    using inv bound dbl drop_drop_prefix [OF whole]
    by (auto simp: reads_def scan_inv_def vout_def add_value_def scan_defs)
qed

lemma next_is_lookahead:
  "drop (pos s) (sql s) = c # cs \<Longrightarrow> lookahead d (advance 1 s) \<longleftrightarrow> next_is d cs"
  by (drule drop_ConsD) (auto simp: lookahead_def advance_def next_is_def split: list.splits dest: drop_ConsD drop_NilD)

lemma lookaheadDigit_view:
  "drop (pos s) (sql s) = c # cs \<Longrightarrow> lookaheadDigit (advance 1 s) \<longleftrightarrow> cs \<noteq> [] \<and> isDigit (hd cs)"
  by (drule drop_ConsD) (cases cs; auto simp: lookaheadDigit_def advance_def dest: drop_ConsD drop_NilD)

lemma lookahead_emit [simp]: "lookahead d (emit c s) = lookahead d s"
  by (simp add: lookahead_def emit_def)

lemma run_step_reads:
  assumes inv: "scan_inv s" and d: "drop (pos s) (sql s) = c # cs" and r: "read_token flag c cs = (t, rest, flag')"
  shows "fst (run_step flag s) = flag' \<and> reads s t rest (snd (run_step flag s))"
proof -
  have ch: "sql s ! pos s = c" using drop_ConsD [OF d] by simp
  note la = next_is_lookahead [OF d, unfolded One_nat_def] lookaheadDigit_view [OF d, unfolded One_nat_def]
  have comment: ?thesis
    if m: "cs = m # cs'" and u: "comment_token u flag c cs = (t, rest, flag')"
      and st: "run_step flag s = (flag, consumeComment u (advance 1 s))" for m cs' u
  proof -
    obtain body where "read_comment u cs' = (body, rest)" "t = Comment (c # m # body)" "flag' = flag"
      using m u by (auto simp: comment_token_def split: prod.splits)
    with comment_reads [OF inv, of c m cs' u body rest] d m st show ?thesis by simp
  qed
  have dig: "isDigit c \<Longrightarrow> c \<noteq> CHR 0x27 \<and> c \<noteq> CHR ''/'' \<and> c \<noteq> CHR ''-''" by (auto simp: isDigit_def)
  consider (line) d where "c = d" "next_is d cs" "d = CHR ''/'' \<or> d = CHR ''-''"
    | (block) "c = CHR ''/''" "next_is CHR ''*'' cs" "\<not> next_is CHR ''/'' cs"
    | (empty) "c = CHR 0x27" "next_is CHR 0x27 cs"
    | (quote) "c = CHR 0x27" "\<not> next_is CHR 0x27 cs"
    | (number) "isDigit c" "flag" "c \<noteq> CHR 0x27" "c \<noteq> CHR ''/''" "c \<noteq> CHR ''-''"
    | (copy) "c \<noteq> CHR 0x27" "\<not> (isDigit c \<and> flag)" "\<not> (c = CHR ''-'' \<and> next_is CHR ''-'' cs)"
        "\<not> (c = CHR ''/'' \<and> next_is CHR ''/'' cs)" "\<not> (c = CHR ''/'' \<and> next_is CHR ''*'' cs)"
    using dig by blast
  then show ?thesis
  proof cases
    case line
    then obtain m cs' where m: "cs = m # cs'" by (auto simp: next_is_iff)
    moreover have "comment_token [CHR 0x0A] flag c cs = (t, rest, flag')"
      using r line by (auto simp: read_token_def)
    moreover have "run_step flag s = (flag, consumeComment [CHR 0x0A] (advance 1 s))"
      using line by (elim disjE) (simp_all add: run_step_def ch la Let_def)
    ultimately show ?thesis by (rule comment)
  next
    case block
    then obtain m cs' where m: "cs = m # cs'" by (auto simp: next_is_iff)
    moreover have "comment_token ''*/'' flag c cs = (t, rest, flag')" using r block by (simp add: read_token_def)
    moreover have "run_step flag s = (flag, consumeComment ''*/'' (advance 1 s))"
      using block by (auto simp: run_step_def ch la Let_def)
    ultimately show ?thesis by (rule comment)
  next
    case empty
    then obtain cs' where m: "cs = CHR 0x27 # cs'" by (auto simp: next_is_iff)
    have "run_step flag s = (flag, advance 1 (emit CHR 0x27 (emit c (advance 1 s))))"
      using empty by (auto simp: run_step_def ch la Let_def)
    moreover have "t = EmptyLit" "rest = cs'" "flag' = flag" using r empty m by (auto simp: read_token_def)
    ultimately show ?thesis using empty_literal_reads [OF inv, of c cs'] d empty m by simp
  next
    case quote
    obtain x closed where q: "quoted cs = (x, closed, rest)" "t = CharLit x closed" "flag' = flag"
      using r quote by (auto simp: read_token_def split: prod.splits)
    have "run_step flag s = (flag, consumeCharLiteral (emit CHR 0x27 (advance 1 s)))"
      using quote by (auto simp: run_step_def ch la Let_def)
    then show ?thesis using char_literal_reads [OF inv _ q(1)] d quote q by simp
  next
    case number
    have "run_step flag s = (flag, consumeNumberLiteral c (advance 1 s))"
      using number by (auto simp: run_step_def ch la Let_def)
    moreover have "t = NumLit (c # takeWhile is_number_char cs)" "rest = dropWhile is_number_char cs" "flag' = flag"
      using r number by (auto simp: read_token_def)
    ultimately show ?thesis using number_literal_reads [OF inv d number(1)] by simp
  next
    case copy
    have "read_token flag c cs = (Copy c, cs, copy_flag flag c cs)"
      unfolding read_token_def using copy by (simp only: if_False de_Morgan_disj simp_thms)
    with r have "t = Copy c" "rest = cs" "flag' = copy_flag flag c cs" by auto
    moreover have "run_step flag s = (copy_flag flag c cs, emit c (advance 1 s))"
      using copy by (auto simp: run_step_def copy_flag_def ch la Let_def isDigit_def isLetter_def)
    ultimately show ?thesis using emit_reads [OF inv d] by simp
  qed
qed

section \<open>The run loop\<close>

lemma consumeCharLiteral_frame:
  "sql (consumeCharLiteral s) = sql s \<and> pos s \<le> pos (consumeCharLiteral s)"
proof -
  let ?t = "startParam (materialize (pos s) s)"
  obtain x closed rest where q: "quoted (drop (pos ?t) (sql ?t)) = (x, closed, rest)"
    by (cases "quoted (drop (pos ?t) (sql ?t))")
  show ?thesis
    using char_literal_loop_effect [OF refl q] by (simp add: consumeCharLiteral_def literal_effect_def scan_defs)
qed

lemma consumeNumberLiteral_frame:
  "sql (consumeNumberLiteral c s) = sql s \<and> pos s \<le> pos (consumeNumberLiteral c s)"
  using number_literal_loop_effect [OF refl]
  by (simp add: consumeNumberLiteral_def scan_defs)

lemma consumeComment_frame:
  "pos s < length (sql s) \<Longrightarrow>
   sql (consumeComment t s) = sql s \<and> pos s \<le> pos (consumeComment t s)"
  by (auto simp: consumeComment_def scan_defs split: option.splits)

lemma emit_frame: "sql (emit c s) = sql s \<and> pos (emit c s) = pos s"
  by (simp add: emit_def)

lemma run_step_frame:
  assumes "pos s < length (sql s)"
  shows "sql (snd (run_step flag s)) = sql s \<and> Suc (pos s) \<le> pos (snd (run_step flag s))"
proof -
  have a: "sql (advance 1 s) = sql s" "pos (advance 1 s) = Suc (pos s)" by (simp_all add: advance_def)
  have la: "lookahead d (advance 1 s) \<Longrightarrow> pos (advance 1 s) < length (sql (advance 1 s))" for d
    by (simp add: lookahead_def)
  have two: "sql (advance 1 t) = sql t \<and> pos t \<le> pos (advance 1 t)" for t by (simp add: advance_def)
  show ?thesis
    unfolding run_step_def Let_def
    using consumeComment_frame [of "advance 1 s"] consumeCharLiteral_frame [of "emit _ (advance 1 s)"]
      consumeNumberLiteral_frame [of _ "advance 1 s"] two [of "emit _ (emit _ (advance 1 s))"] emit_frame la a
    by (simp del: One_nat_def)
qed

function run_loop :: "bool \<Rightarrow> sqlNormalizer \<Rightarrow> sqlNormalizer" where
  "run_loop flag s =
     (if pos s < length (sql s) then run_loop (fst (run_step flag s)) (snd (run_step flag s)) else s)"
  by pat_completeness auto
termination
  by (relation "measure (\<lambda>p. length (sql (snd p)) - pos (snd p))")
    (use run_step_frame in \<open>auto simp: Suc_le_eq intro!: diff_less_mono2\<close>)

declare run_loop.simps [simp del]

definition run :: "sqlNormalizer \<Rightarrow> string \<times> string" where
  "run s =
     (if \<not> sqlNormalizable (sql s) then ([], [])
      else let s' = run_loop True s
           in if materialized s' then (outbuf s', param s') else (sql s', []))"

lemma run_loop_reads:
  "scan_inv s \<Longrightarrow>
   (let s' = run_loop flag s; ts = tokenize flag (drop (pos s) (sql s))
    in sql s' = sql s \<and> scan_inv s' \<and> pos s' = length (sql s)
       \<and> vout s' = vout s @ render (removeComments s) (paramIndex s) ts
       \<and> param s' = foldl add_value (param s) (literals ts))"
proof (induction flag s rule: run_loop.induct)
  case (1 flag s)
  show ?case
  proof (cases "pos s < length (sql s)")
    case False
    with 1(2) show ?thesis by (subst run_loop.simps) (simp add: scan_inv_def literals_def Let_def)
  next
    case True
    then obtain c cs where d: "drop (pos s) (sql s) = c # cs" by (metis Cons_nth_drop_Suc)
    obtain t rest flag' where r: "read_token flag c cs = (t, rest, flag')" by (cases "read_token flag c cs")
    note R = run_step_reads [OF 1(2) d r, unfolded reads_def]
    have IH: "let s' = run_loop flag s; ts = tokenize flag' rest
      in sql s' = sql s \<and> scan_inv s' \<and> pos s' = length (sql s)
       \<and> vout s' = vout (snd (run_step flag s)) @ render (removeComments s) (paramIndex (snd (run_step flag s))) ts
       \<and> param s' = foldl add_value (param (snd (run_step flag s))) (literals ts)"
      using 1(1) [OF True] R True by (simp add: run_loop.simps [of flag s])
    then show ?thesis
      using R by (simp add: d r Let_def literals_def map_filter_def split: option.splits)
  qed
qed

section \<open>The parameter string\<close>

lemma join_values_Cons:
  "join_values (v # vs) = double_commas v @ concat (map (\<lambda>w. CHR '','' # double_commas w) vs)"
  by (induction vs arbitrary: v) auto

lemma double_commas_Nil_iff [simp]: "double_commas v = [] \<longleftrightarrow> v = []"
  by (cases v) auto

lemma foldl_add_value:
  "acc \<noteq> [] \<Longrightarrow> foldl add_value acc vs = acc @ concat (map (\<lambda>w. CHR '','' # double_commas w) vs)"
  by (induction vs arbitrary: acc) (auto simp: add_value_def)

lemma foldl_add_value_join:
  assumes "\<forall>v \<in> set (butlast vs). v \<noteq> []"
  shows "foldl add_value [] vs = join_values vs"
proof (cases vs)
  case (Cons v ws)
  then show ?thesis
    using assms by (cases "ws = []") (auto simp: add_value_def join_values_Cons foldl_add_value)
qed simp

lemma empty_literal_is_last:
  assumes "read_token flag c cs = (t, rest, flag')" and "token_value t = Some []"
  shows "rest = []"
proof -
  obtain closed where t: "t = CharLit [] closed" using assms
    by (cases t) (auto simp: read_token_def comment_token_def split: if_splits prod.splits)
  have "quoted cs = ([], closed, rest)" "\<not> next_is CHR 0x27 cs"
    using assms(1) unfolding t by (auto simp: read_token_def comment_token_def split: if_splits prod.splits)
  then show ?thesis by (cases cs rule: quoted.cases) (auto simp: next_is_def split: if_splits prod.splits)
qed

lemma literals_Cons: "literals (t # ts) = (case token_value t of None \<Rightarrow> [] | Some v \<Rightarrow> [v]) @ literals ts"
  by (simp add: literals_def map_filter_def split: option.splits)

lemma literals_Nil: "literals [] = []"
  by (simp add: literals_def map_filter_def)

lemma literals_not_empty: "\<forall>v \<in> set (butlast (literals (tokenize flag cs))). v \<noteq> []"
proof (induction flag cs rule: tokenize.induct)
  case (1 flag)
  then show ?case by (simp add: literals_Nil)
next
  case (2 flag c cs)
  obtain t rest flag' where r: "read_token flag c cs = (t, rest, flag')" by (cases "read_token flag c cs")
  have "literals (tokenize flag' rest) = []" if "token_value t = Some []"
    using empty_literal_is_last [OF r that] by (simp add: literals_Nil)
  then show ?case
    using 2 [OF r [symmetric] refl] by (auto simp: r literals_Cons butlast_append split: option.splits if_splits)
qed

lemma scan_inv_new: "scan_inv (newSqlNormalizer s rc)"
  by (simp add: scan_inv_def newSqlNormalizer_def)

lemma run_eq:
  "run (newSqlNormalizer s rc) =
     (if sqlNormalizable s
      then (render rc 0 (tokenize True s), join_values (literals (tokenize True s))) else ([], []))"
proof -
  let ?n = "newSqlNormalizer s rc"
  have n: "sql ?n = s" "pos ?n = 0" "param ?n = []" "paramIndex ?n = 0" "removeComments ?n = rc" "vout ?n = []"
    by (simp_all add: newSqlNormalizer_def vout_def)
  from run_loop_reads [OF scan_inv_new [of s rc], of True]
  have r: "sql (run_loop True ?n) = s" "scan_inv (run_loop True ?n)" "pos (run_loop True ?n) = length s"
    "vout (run_loop True ?n) = render rc 0 (tokenize True s)"
    "param (run_loop True ?n) = join_values (literals (tokenize True s))"
    by (simp_all add: n Let_def foldl_add_value_join [OF literals_not_empty])
  show ?thesis
    using r by (simp add: run_def n Let_def scan_inv_def vout_def split: if_splits)
qed

text \<open>
  Reading the parameter string back: a single comma separates, a doubled one is data, decided from the left.
\<close>

fun split_values_from :: "string \<Rightarrow> string \<Rightarrow> string list" where
  "split_values_from cur [] = [cur]"
| "split_values_from cur [c] = (if c = CHR '','' then [cur, []] else [cur @ [c]])"
| "split_values_from cur (c # d # s) =
     (if c = CHR '','' then
        if d = CHR '','' then split_values_from (cur @ [c]) s else cur # split_values_from [] (d # s)
      else split_values_from (cur @ [c]) (d # s))"

definition split_values :: "string \<Rightarrow> string list" where
  "split_values = split_values_from []"

lemma split_values_from_Cons:
  "c \<noteq> CHR '','' \<Longrightarrow> split_values_from cur (c # s) = split_values_from (cur @ [c]) s"
  by (cases s) auto

lemma split_values_from_value:
  "split_values_from cur (double_commas v @ r) = split_values_from (cur @ v) r"
  by (induction v arbitrary: cur) (auto simp: split_values_from_Cons)

lemma split_values_from_separator:
  assumes "w = [] \<Longrightarrow> r = []" and "\<not> next_is CHR '','' w"
  shows "split_values_from x (CHR '','' # double_commas w @ r) = x # split_values_from [] (double_commas w @ r)"
  using assms by (cases w) (auto simp: next_is_def split: if_splits)

lemma split_join_values:
  assumes "\<forall>w \<in> set vs. \<not> next_is CHR '','' w" and "\<forall>w \<in> set (butlast vs). w \<noteq> []"
  shows "split_values_from cur (double_commas v @ concat (map (\<lambda>w. CHR '','' # double_commas w) vs)) = (cur @ v) # vs"
  using assms
proof (induction vs arbitrary: cur v)
  case Nil
  then show ?case using split_values_from_value [of cur v "[]"] by simp
next
  case (Cons w ws)
  let ?r = "concat (map (\<lambda>w. CHR '','' # double_commas w) ws)"
  have "w = [] \<Longrightarrow> ?r = []" using Cons.prems by (cases ws) auto
  then have "split_values_from (cur @ v) (CHR '','' # double_commas w @ ?r)
      = (cur @ v) # split_values_from [] (double_commas w @ ?r)"
    using Cons.prems(1) by (intro split_values_from_separator) simp_all
  then have "split_values_from cur (double_commas v @ CHR '','' # double_commas w @ ?r)
      = (cur @ v) # split_values_from [] (double_commas w @ ?r)"
    by (simp only: split_values_from_value)
  also have "split_values_from [] (double_commas w @ ?r) = w # ws"
    using Cons.IH [of "[]" w] Cons.prems by (auto split: if_splits)
  finally show ?case by simp
qed

declare tokenize.simps [simp del]

section \<open>Properties\<close>

text \<open>
  (C4) The normalizer computes its specification, on every statement and in both comment modes: a statement
  within \<open>maxSqlNormalizeLength\<close> is cut into tokens without losing a byte, comes back as the rendering of
  those tokens (each closed string literal as \<open>'n$'\<close> and each number as \<open>n#\<close>, numbered from 0, comments
  kept or dropped), and the parameter string is the literals in order, commas doubled, joined by commas. A
  longer statement comes back empty.
\<close>

theorem run_tokenizes:
  "concat (map token_text (tokenize True s)) = s
   \<and> run (newSqlNormalizer s rc) =
       (if length s \<le> 2 ^ 20
        then (render rc 0 (tokenize True s), join_values (literals (tokenize True s))) else ([], []))"
  using tokenize_lossless run_eq by (simp add: sqlNormalizable_def maxSqlNormalizeLength_def)

lemma render_unchanged:
  "literals ts = [] \<Longrightarrow> rc \<longrightarrow> (\<forall>c. Comment c \<notin> set ts) \<Longrightarrow> render rc i ts = concat (map token_text ts)"
proof (induction ts arbitrary: i)
  case (Cons t ts)
  then show ?case by (cases t) (auto simp: literals_Cons)
qed simp

text \<open>
  A statement with nothing to replace is returned byte for byte with no parameters: no literal in it,
  and no comment when comments are removed.
\<close>

theorem run_keeps_plain_statement:
  assumes "sqlNormalizable s" and "literals (tokenize True s) = []"
    and "rc \<longrightarrow> (\<forall>c. Comment c \<notin> set (tokenize True s))"
  shows "run (newSqlNormalizer s rc) = (s, [])"
  using assms by (simp add: run_eq render_unchanged tokenize_lossless)

theorem run_keeps_plain_statement_witness:
  "run (newSqlNormalizer ''SELECT a1 FROM t WHERE x = $1'' True) = (''SELECT a1 FROM t WHERE x = $1'', [])"
proof (rule run_keeps_plain_statement)
  show "sqlNormalizable ''SELECT a1 FROM t WHERE x = $1''"
    by (simp add: sqlNormalizable_def maxSqlNormalizeLength_def)
  show "literals (tokenize True ''SELECT a1 FROM t WHERE x = $1'') = []" by code_simp
  have "list_all (\<lambda>t. \<not> is_Comment t) (tokenize True ''SELECT a1 FROM t WHERE x = $1'')" by code_simp
  then show "True \<longrightarrow> (\<forall>c. Comment c \<notin> set (tokenize True ''SELECT a1 FROM t WHERE x = $1''))"
    by (auto simp: list_all_iff)
qed

text \<open>
  The parameters can be read back: splitting the parameter string at its single commas gives exactly
  the literals of the statement, provided no literal after the first begins with a comma.
\<close>

theorem run_params_recoverable:
  assumes "sqlNormalizable s" and "literals (tokenize True s) \<noteq> []"
    and "\<forall>w \<in> set (tl (literals (tokenize True s))). \<not> next_is CHR '','' w"
  shows "split_values (snd (run (newSqlNormalizer s rc))) = literals (tokenize True s)"
proof -
  obtain v vs where v: "literals (tokenize True s) = v # vs" using assms(2) by (cases "literals (tokenize True s)") auto
  have "\<forall>w \<in> set (butlast vs). w \<noteq> []"
    using literals_not_empty [of True s] v by (cases "vs = []") auto
  then show ?thesis
    using split_join_values [of vs "[]" v] assms by (simp add: run_eq v split_values_def join_values_Cons)
qed

theorem run_params_recoverable_witness:
  "split_values (snd (run (newSqlNormalizer ''a=1, b=-2.5e3'' False))) = [''1'', ''2.5e3'']"
proof -
  have l: "literals (tokenize True ''a=1, b=-2.5e3'') = [''1'', ''2.5e3'']" by code_simp
  have "sqlNormalizable ''a=1, b=-2.5e3''" by (simp add: sqlNormalizable_def maxSqlNormalizeLength_def)
  from run_params_recoverable [OF this, of False] show ?thesis by (simp add: l next_is_def)
qed

text \<open>The statements \<open>'a',',b'\<close> and \<open>'a,','b'\<close>.\<close>

definition comma_first :: string where
  "comma_first = (let q = CHR 0x27 in [q, CHR ''a'', q, CHR '','', q, CHR '','', CHR ''b'', q])"

definition comma_last :: string where
  "comma_last = (let q = CHR 0x27 in [q, CHR ''a'', CHR '','', q, CHR '','', q, CHR ''b'', q])"

lemma comma_tokens:
  "tokenize True comma_first = [CharLit ''a'' True, Copy CHR '','', CharLit '',b'' True]"
  "tokenize True comma_last = [CharLit ''a,'' True, Copy CHR '','', CharLit ''b'' True]"
  by code_simp+

lemma comma_length: "length comma_first = 8" "length comma_last = 8"
  by (simp_all add: comma_first_def comma_last_def Let_def)

text \<open>
  Without that proviso the parameters are ambiguous: the statements \<open>'a',',b'\<close> and \<open>'a,','b'\<close> hold
  different literals and give the same normalized statement and the same parameter string \<open>a,,,b\<close>.
\<close>

theorem run_params_ambiguous:
  "literals (tokenize True comma_first) \<noteq> literals (tokenize True comma_last)
   \<and> run (newSqlNormalizer comma_first rc) = run (newSqlNormalizer comma_last rc)
   \<and> snd (run (newSqlNormalizer comma_first rc)) = ''a,,,b''"
  by (simp add: run_eq comma_tokens literals_Cons literals_Nil sqlNormalizable_def maxSqlNormalizeLength_def
      comma_length)

fun token_shape :: "token \<Rightarrow> token" where
  "token_shape (CharLit x closed) = CharLit [] closed"
| "token_shape (NumLit ds) = NumLit []"
| "token_shape t = t"

lemma render_shape: "render rc i (map token_shape ts) = render rc i ts"
proof (induction ts arbitrary: i)
  case (Cons t ts)
  then show ?case by (cases t) auto
qed simp

text \<open>
  Statements that differ only in the values of their literals have the same normalized text, hence the
  same SQL id and UID.
\<close>

theorem run_identifies_shape:
  assumes "sqlNormalizable s" and "sqlNormalizable s'"
    and "map token_shape (tokenize True s) = map token_shape (tokenize True s')"
  shows "fst (run (newSqlNormalizer s rc)) = fst (run (newSqlNormalizer s' rc))"
  using assms render_shape [of rc 0 "tokenize True s"] render_shape [of rc 0 "tokenize True s'"]
  by (simp add: run_eq)

theorem run_identifies_shape_witness:
  "fst (run (newSqlNormalizer ''id = 17'' False)) = fst (run (newSqlNormalizer ''id = 4.25'' False))"
proof -
  have "map token_shape (tokenize True ''id = 17'') = map token_shape (tokenize True ''id = 4.25'')" by code_simp
  then show ?thesis
    by (intro run_identifies_shape) (simp_all add: sqlNormalizable_def maxSqlNormalizeLength_def)
qed

end
