(* ===== verification/Bind_Values.thy ===== *)
theory Bind_Values
  imports Utf8
begin

text \<open>
  The bind value writers of \<^verbatim>\<open>src/sql_driver.go\<close>: the list of a statement's bind values that goes into its annotation, each
  value and the whole list kept within a budget. A value is what \<^verbatim>\<open>reflect\<close> and \<^verbatim>\<open>fmt\<close> make of it: text \<^verbatim>\<open>fmt.Sprint\<close> rendered,
  or a composite whose parts are written one by one, map entries in the order of \<^verbatim>\<open>sortedMapKeys\<close>. The builder is the text
  written so far. The theorems are that the list fits the annotation reserved for it, and stays valid UTF-8.
\<close>

section \<open>Writers\<close>

datatype bindNode =
    NText string
  | NSeq string string "bindNode list"
  | NMap "(bindNode \<times> bindNode) list"

datatype bindValue =
    VString string
  | VNil
  | VInt64 go_int64
  | VFloat64 string
  | VBool bool
  | VTime string
  | VBytes "8 word list"
  | VComposite bindNode nat
  | VOther string nat

definition writeBindMarker :: "string \<Rightarrow> nat \<Rightarrow> string" where
  "writeBindMarker b n = b @ ''...('' @ FormatInt (int n) @ '')''"

definition writeBindTextPrefix :: "string \<Rightarrow> string \<Rightarrow> nat \<Rightarrow> bool \<times> string" where
  "writeBindTextPrefix b value maxSize =
     (if length value \<le> maxSize then (True, b @ value) else (False, b @ take (rune_cut value maxSize) value))"

definition writeAbbreviated :: "string \<Rightarrow> string \<Rightarrow> nat \<Rightarrow> nat \<Rightarrow> string" where
  "writeAbbreviated b value valueLen maxSize =
     (case writeBindTextPrefix b value maxSize of (True, b) \<Rightarrow> b | (False, b) \<Rightarrow> writeBindMarker b valueLen)"

definition writeAbbreviatedBytes :: "string \<Rightarrow> string \<Rightarrow> nat \<Rightarrow> string" where
  "writeAbbreviatedBytes b value maxSize =
     (if length value \<le> maxSize then b @ value else writeBindMarker (b @ take maxSize value) (length value))"

fun byte_slice_loop :: "bool \<Rightarrow> 8 word list \<Rightarrow> nat \<Rightarrow> string \<Rightarrow> string" where
  "byte_slice_loop first [] maxSize buf = buf"
| "byte_slice_loop first (e # es) maxSize buf =
     (if length buf > maxSize then buf
      else byte_slice_loop False es maxSize ((if first then buf else buf @ '' '') @ itoa_nat (unat e)))"

definition writeAbbreviatedByteSlice :: "string \<Rightarrow> 8 word list \<Rightarrow> nat \<Rightarrow> string" where
  "writeAbbreviatedByteSlice b v maxSize =
     (let buf = byte_slice_loop True v maxSize ''['' @ '']''
      in if length buf \<le> maxSize then b @ buf else writeBindMarker (b @ take maxSize buf) (length v))"

text \<open>
  The nested writers share the budget up to \<open>stop\<close>, the length the builder may reach; a writer that ran out of it answers
  \<open>False\<close>.
\<close>

definition and_then :: "bool \<times> string \<Rightarrow> (string \<Rightarrow> bool \<times> string) \<Rightarrow> bool \<times> string" where
  "and_then r f = (if fst r then f (snd r) else r)"

function writeBindValuePrefix :: "bindNode \<Rightarrow> string \<Rightarrow> nat \<Rightarrow> bool \<times> string"
  and write_elems :: "bindNode list \<Rightarrow> bool \<Rightarrow> string \<Rightarrow> nat \<Rightarrow> bool \<times> string"
  and write_pairs :: "(bindNode \<times> bindNode) list \<Rightarrow> bool \<Rightarrow> string \<Rightarrow> nat \<Rightarrow> bool \<times> string" where
  "writeBindValuePrefix (NText t) b m = (if m = 0 then (False, b) else writeBindTextPrefix b t m)"
| "writeBindValuePrefix (NSeq op cl es) b m =
     (if m = 0 then (False, b)
      else and_then (and_then (writeBindTextPrefix b op m) (\<lambda>b'. write_elems es True b' (length b + m)))
             (\<lambda>b'. writeBindTextPrefix b' cl (length b + m - length b')))"
| "writeBindValuePrefix (NMap ps) b m =
     (if m = 0 then (False, b)
      else and_then (and_then (writeBindTextPrefix b ''map['' m) (\<lambda>b'. write_pairs ps True b' (length b + m)))
             (\<lambda>b'. writeBindTextPrefix b' '']'' (length b + m - length b')))"
| "write_elems [] first b stop = (True, b)"
| "write_elems (e # es) first b stop =
     and_then (and_then (if first then (True, b) else writeBindTextPrefix b '' '' (stop - length b))
         (\<lambda>b. writeBindValuePrefix e b (stop - length b)))
       (\<lambda>b. write_elems es False b stop)"
| "write_pairs [] first b stop = (True, b)"
| "write_pairs ((k, e) # ps) first b stop =
     and_then (and_then (and_then (and_then (if first then (True, b) else writeBindTextPrefix b '' '' (stop - length b))
           (\<lambda>b. writeBindValuePrefix k b (stop - length b)))
         (\<lambda>b. writeBindTextPrefix b '':'' (stop - length b)))
       (\<lambda>b. writeBindValuePrefix e b (stop - length b)))
     (\<lambda>b. write_pairs ps False b stop)"
  by pat_completeness auto
termination
  by (relation "measure (case_sum (\<lambda>(n, b, m). size n)
       (case_sum (\<lambda>(es, f, b, m). size_list size es) (\<lambda>(ps, f, b, m). size_list (size_prod size size) ps)))") auto

definition writeAbbreviatedBindValue :: "string \<Rightarrow> bindValue \<Rightarrow> nat \<Rightarrow> string" where
  "writeAbbreviatedBindValue b value maxSize =
     (case value of
        VString s \<Rightarrow> writeAbbreviated b s (length s) maxSize
      | VNil \<Rightarrow> writeAbbreviated b ''<nil>'' 5 maxSize
      | VInt64 i \<Rightarrow> writeAbbreviatedBytes b (FormatInt (sint i)) maxSize
      | VFloat64 s \<Rightarrow> writeAbbreviatedBytes b s maxSize
      | VBool v \<Rightarrow> writeAbbreviatedBytes b (if v then ''true'' else ''false'') maxSize
      | VTime s \<Rightarrow> writeAbbreviated b s (length s) maxSize
      | VBytes v \<Rightarrow> writeAbbreviatedByteSlice b v maxSize
      | VComposite node n \<Rightarrow>
          (case writeBindValuePrefix node b maxSize of (True, b) \<Rightarrow> b | (False, b) \<Rightarrow> writeBindMarker b n)
      | VOther s n \<Rightarrow> writeAbbreviated b s n maxSize)"

definition writeBindValue :: "string \<Rightarrow> nat \<Rightarrow> bindValue \<Rightarrow> nat \<Rightarrow> nat \<Rightarrow> bool \<times> string" where
  "writeBindValue b index value numComma maxSize =
     (if maxSize = 0 then (False, b)
      else let b = (if index > 0 then b @ '', '' else b)
           in if length b \<ge> maxSize then (False, writeBindMarker b (numComma + 1))
              else (True, writeAbbreviatedBindValue b value maxSize))"

fun bind_loop :: "string \<Rightarrow> nat \<Rightarrow> bindValue list \<Rightarrow> nat \<Rightarrow> nat \<Rightarrow> string" where
  "bind_loop b i [] numComma maxSize = b"
| "bind_loop b i (v # vs) numComma maxSize =
     (case writeBindValue b i v numComma maxSize of
        (False, b) \<Rightarrow> b
      | (True, b) \<Rightarrow> bind_loop b (Suc i) vs numComma maxSize)"

definition bindValuesString :: "bool \<Rightarrow> nat \<Rightarrow> bindValue list \<Rightarrow> string" where
  "bindValuesString traceBindValue maxSize vs =
     (if \<not> traceBindValue \<or> vs = [] then [] else bind_loop [] 0 vs (length vs - 1) maxSize)"

section \<open>The list fits its annotation\<close>

definition maxBindValueMarkerSize :: nat where "maxBindValueMarkerSize = 4 + 20 + 1"

definition maxBindValueAnnotationSize :: "nat \<Rightarrow> nat" where
  "maxBindValueAnnotationSize maxSize = 2 * maxSize + 2 * maxBindValueMarkerSize + 2"

text \<open>
  What every writer does to the builder: it appends, up to a length, and appends valid UTF-8 if the text it is given is
  (\<open>u\<close>).
\<close>

definition writes :: "bool \<Rightarrow> string \<Rightarrow> nat \<Rightarrow> string \<Rightarrow> bool" where
  "writes u b stop b' \<longleftrightarrow> (\<exists>t. b' = b @ t \<and> (u \<longrightarrow> ValidString t)) \<and> length b' \<le> stop"

fun node_valid :: "bindNode \<Rightarrow> bool" where
  "node_valid (NText t) = ValidString t"
| "node_valid (NSeq op cl es) = (ValidString op \<and> ValidString cl \<and> (\<forall>e \<in> set es. node_valid e))"
| "node_valid (NMap ps) = (\<forall>p \<in> set ps. node_valid (fst p) \<and> node_valid (snd p))"

lemma writes_refl: "length b \<le> stop \<Longrightarrow> writes u b stop b"
  by (simp add: writes_def)

lemma writes_trans: "writes u b n b' \<Longrightarrow> writes u b' n' b'' \<Longrightarrow> n' \<le> n \<Longrightarrow> writes u b n b''"
  by (auto simp: writes_def intro: ValidString_append)

lemma text_prefix_writes:
  assumes "u \<longrightarrow> ValidString v" "length b + m \<le> n"
  shows "writes u b n (snd (writeBindTextPrefix b v m))"
  using assms rune_cut_le [of v m] ValidString_cut [of v m] by (auto simp: writeBindTextPrefix_def writes_def)

lemma text_prefix_rest:
  assumes "u \<longrightarrow> ValidString v" "length b \<le> stop"
  shows "writes u b stop (snd (writeBindTextPrefix b v (stop - length b)))"
  by (rule text_prefix_writes) (use assms in auto)

lemma and_then_writes:
  assumes "writes u b n (snd r)" "\<And>b'. writes u b n b' \<Longrightarrow> writes u b' n (snd (f b'))"
  shows "writes u b n (snd (and_then r f))"
  using assms writes_trans [OF assms(1)] by (auto simp: and_then_def)

lemma writes_length: "writes u b n b' \<Longrightarrow> length b' \<le> n"
  by (simp add: writes_def)

lemma ascii_pieces: "ValidString ''map[''" "ValidString '']''" "ValidString '' ''" "ValidString '':''" "ValidString ''['' "
  "ValidString '', ''" "ValidString ''<nil>''" "ValidString ''true''" "ValidString ''false''" "ValidString ''...(''" "ValidString '')''"
  by code_simp+

lemma node_writes:
  "(u \<longrightarrow> node_valid node) \<Longrightarrow> length b + m \<le> n \<Longrightarrow> writes u b n (snd (writeBindValuePrefix node b m))"
  "(u \<longrightarrow> (\<forall>e \<in> set es. node_valid e)) \<Longrightarrow> length b' \<le> stop \<Longrightarrow> writes u b' stop (snd (write_elems es first b' stop))"
  "(u \<longrightarrow> (\<forall>p \<in> set ps. node_valid (fst p) \<and> node_valid (snd p))) \<Longrightarrow> length b'' \<le> stop' \<Longrightarrow>
   writes u b'' stop' (snd (write_pairs ps first' b'' stop'))"
proof (induction node b m and es first b' stop and ps first' b'' stop' arbitrary: n
    rule: writeBindValuePrefix_write_elems_write_pairs.induct)
  case (1 t b m)
  then show ?case by (auto intro: text_prefix_writes writes_refl)
next
  case (2 op cl es b m)
  have "writes u b (length b + m) (snd (writeBindValuePrefix (NSeq op cl es) b m))" if "m \<noteq> 0"
    using that "2.prems" "2.IH" [OF that] 
    by (auto intro!: and_then_writes text_prefix_writes text_prefix_rest dest: writes_length)
  then show ?case using "2.prems"(2) writes_refl by (cases "m = 0") (auto simp: writes_def)
next
  case (3 ps b m)
  have "writes u b (length b + m) (snd (writeBindValuePrefix (NMap ps) b m))" if "m \<noteq> 0"
    using that "3.prems" "3.IH" [OF that]
    by (auto intro!: and_then_writes text_prefix_writes text_prefix_rest ascii_pieces dest: writes_length)
  then show ?case using "3.prems"(2) writes_refl by (cases "m = 0") (auto simp: writes_def)
next
  case (5 e es first b stop)
  then show ?case
    by (auto intro!: and_then_writes text_prefix_rest ascii_pieces writes_refl dest: writes_length)
next
  case (7 k e ps first b stop)
  then show ?case
    by (auto intro!: and_then_writes text_prefix_rest ascii_pieces writes_refl dest: writes_length)
qed (auto intro: writes_refl)

lemma marker_writes:
  assumes "n < 10 ^ 20"
  shows "writes u b (length b + maxBindValueMarkerSize) (writeBindMarker b n)"
proof -
  have "ValidString (''...('' @ itoa_nat n @ '')'')"
    by (rule ValidString_append [OF ascii_pieces(10) ValidString_append [OF ValidString_itoa ascii_pieces(11)]])
  then show ?thesis
    using length_itoa [OF assms] by (simp add: writes_def writeBindMarker_def FormatInt_def maxBindValueMarkerSize_def)
qed

definition ascii :: "string \<Rightarrow> bool" where
  "ascii s \<longleftrightarrow> list_all (\<lambda>c. byte_of c < 0x80) s"

lemma ascii_simps [simp]: "ascii (s @ t) \<longleftrightarrow> ascii s \<and> ascii t" "ascii (itoa_nat n)" "ascii []" "ascii (c # s) \<longleftrightarrow> byte_of c < 0x80 \<and> ascii s"
  using itoa_nat_digits [of n] by (auto simp: ascii_def list_all_iff isDigit_def)

lemma ascii_take: "ascii s \<Longrightarrow> ascii (take n s)"
  by (auto simp: ascii_def list_all_iff dest: in_set_takeD)

lemma ascii_valid: "ascii s \<Longrightarrow> ValidString s"
  by (simp add: ascii_def ValidString_ascii)

lemma byte_slice_ascii: "ascii buf \<Longrightarrow> ascii (byte_slice_loop first es m buf)"
  by (induction es arbitrary: first buf) auto

fun value_len :: "bindValue \<Rightarrow> nat" where
  "value_len (VString s) = length s"
| "value_len VNil = 5"
| "value_len (VInt64 i) = length (FormatInt (sint i))"
| "value_len (VFloat64 s) = length s"
| "value_len (VBool v) = 5"
| "value_len (VTime s) = length s"
| "value_len (VBytes v) = length v"
| "value_len (VComposite node n) = n"
| "value_len (VOther s n) = n"

fun value_valid :: "bindValue \<Rightarrow> bool" where
  "value_valid (VString s) = ValidString s"
| "value_valid (VFloat64 s) = ascii s"
| "value_valid (VTime s) = ValidString s"
| "value_valid (VComposite node n) = node_valid node"
| "value_valid (VOther s n) = ValidString s"
| "value_valid _ = True"

lemma abbreviated_writes:
  assumes "n < 10 ^ 20" "u \<longrightarrow> ValidString v"
  shows "writes u b (length b + m + maxBindValueMarkerSize) (writeAbbreviated b v n m)"
proof (cases "writeBindTextPrefix b v m")
  case (Pair ok b')
  have w: "writes u b (length b + m) b'" using text_prefix_writes [OF assms(2) order_refl, of b m] Pair by simp
  have "writes u b (length b + m + maxBindValueMarkerSize) b'" using w by (auto simp: writes_def)
  moreover from writes_trans [OF this marker_writes [OF assms(1)]]
  have "writes u b (length b + m + maxBindValueMarkerSize) (writeBindMarker b' n)" using writes_length [OF w] by simp
  ultimately show ?thesis using Pair by (cases ok) (simp_all add: writeAbbreviated_def)
qed

lemma marked_writes:
  assumes "n < 10 ^ 20" "u \<longrightarrow> ascii v" "length v \<le> m"
  shows "writes u b (length b + m + maxBindValueMarkerSize) (writeBindMarker (b @ v) n)"
proof -
  have "writes u b (length b + m + maxBindValueMarkerSize) (b @ v)"
    using assms ascii_valid by (auto simp: writes_def)
  from writes_trans [OF this marker_writes [OF assms(1)]] assms(3) show ?thesis by simp
qed

lemma bytes_writes:
  assumes "length v < 10 ^ 20" "u \<longrightarrow> ascii v"
  shows "writes u b (length b + m + maxBindValueMarkerSize) (writeAbbreviatedBytes b v m)"
proof -
  have "u \<longrightarrow> ascii (take m v)" using assms(2) ascii_take by blast
  from marked_writes [OF assms(1) this, of m] show ?thesis
    using assms ascii_valid by (auto simp: writeAbbreviatedBytes_def writes_def)
qed

lemma byte_slice_writes:
  assumes "length v < 10 ^ 20"
  shows "writes u b (length b + m + maxBindValueMarkerSize) (writeAbbreviatedByteSlice b v m)"
proof -
  define buf where "buf = byte_slice_loop True v m ''['' @ '']''"
  have "ascii ''[''" "ascii '']''" by code_simp+
  then have "ascii buf" by (simp add: buf_def byte_slice_ascii)
  moreover from this have "u \<longrightarrow> ascii (take m buf)" using ascii_take by blast
  ultimately show ?thesis
    using ascii_valid marked_writes [OF assms \<open>u \<longrightarrow> ascii (take m buf)\<close>, of m]
    by (auto simp: writeAbbreviatedByteSlice_def writes_def buf_def [symmetric] Let_def)
qed

lemma ascii_FormatInt: "ascii (FormatInt i)"
  by (simp add: FormatInt_def)

lemma value_writes:
  assumes "value_len v < 10 ^ 20" "u \<longrightarrow> value_valid v"
  shows "writes u b (length b + m + maxBindValueMarkerSize) (writeAbbreviatedBindValue b v m)"
proof (cases v)
  case (VComposite node n)
  show ?thesis
  proof (cases "writeBindValuePrefix node b m")
    case (Pair ok b')
    have "writes u b (length b + m) b'" using node_writes(1) [of u node b m] Pair assms(2) VComposite by fastforce
    then have "writes u b (length b + m + maxBindValueMarkerSize) b'" "length b' \<le> length b + m" by (auto simp: writes_def)
    then show ?thesis
      using writes_trans [OF _ marker_writes [of n u b']] assms(1) Pair VComposite
      by (cases ok) (auto simp: writeAbbreviatedBindValue_def)
  qed
next
  case (VBool x)
  have "ascii ''true''" "ascii ''false''" by code_simp+
  then show ?thesis using VBool bytes_writes by (auto simp: writeAbbreviatedBindValue_def)
qed (use assms in \<open>auto simp: writeAbbreviatedBindValue_def ascii_FormatInt
       intro!: abbreviated_writes bytes_writes byte_slice_writes ascii_pieces\<close>)

lemma bind_loop_writes:
  assumes "0 < m" "nc + 1 < 10 ^ 20" "\<forall>v \<in> set vs. value_len v < 10 ^ 20 \<and> (u \<longrightarrow> value_valid v)" "length b < 2 * m + maxBindValueMarkerSize"
  shows "writes u b (maxBindValueAnnotationSize m) (bind_loop b i vs nc m)"
  using assms(3,4)
proof (induction vs arbitrary: b i)
  case Nil
  then show ?case by (simp add: writes_refl maxBindValueAnnotationSize_def)
next
  case (Cons v vs)
  define b1 where "b1 = (if i > 0 then b @ '', '' else b)"
  have b1: "writes u b (maxBindValueAnnotationSize m) b1" "length b1 \<le> length b + 2"
    using Cons.prems(2) ascii_pieces by (auto simp: b1_def writes_def maxBindValueAnnotationSize_def)
  show ?case
  proof (cases "length b1 \<ge> m")
    case True
    have "writes u b (maxBindValueAnnotationSize m) (writeBindMarker b1 (nc + 1))"
      using writes_trans [OF b1(1) marker_writes [OF assms(2)]] b1(2) Cons.prems(2) by (simp add: maxBindValueAnnotationSize_def)
    then show ?thesis using True assms(1) by (simp add: writeBindValue_def b1_def [symmetric])
  next
    case False
    let ?b2 = "writeAbbreviatedBindValue b1 v m"
    have w2: "writes u b1 (length b1 + m + maxBindValueMarkerSize) ?b2" using value_writes Cons.prems(1) by simp
    then have "length ?b2 < 2 * m + maxBindValueMarkerSize" using writes_length [OF w2] False by linarith
    from Cons.IH [OF _ this, of "Suc i"] have rest: "writes u ?b2 (maxBindValueAnnotationSize m) (bind_loop ?b2 (Suc i) vs nc m)"
      using Cons.prems(1) by simp
    have "writes u b (maxBindValueAnnotationSize m) ?b2"
      using writes_trans [OF b1(1) w2] False by (simp add: maxBindValueAnnotationSize_def)
    from writes_trans [OF this rest] show ?thesis using False assms(1) by (simp add: writeBindValue_def b1_def [symmetric])
  qed
qed

text \<open>
  (C35) The bind value list the driver composes under a limit always fits the annotation reserved for it, so that \<open>SetSQL\<close>
  records it uncut, markers included; and a list of valid UTF-8 values is valid UTF-8, wherever the limit cuts them.
\<close>

theorem bind_values_fit:
  assumes "length vs < 10 ^ 20" "\<forall>v \<in> set vs. value_len v < 10 ^ 20"
  shows "length (bindValuesString traced m vs) \<le> maxBindValueAnnotationSize m
    \<and> abbreviateString (bindValuesString traced m vs) (maxBindValueAnnotationSize m) = bindValuesString traced m vs
    \<and> ((\<forall>v \<in> set vs. value_valid v) \<longrightarrow> ValidString (bindValuesString traced m vs))"
proof (cases "\<not> traced \<or> vs = [] \<or> m = 0")
  case True
  have "bindValuesString traced m vs = []"
    using True by (cases vs) (auto simp: bindValuesString_def writeBindValue_def)
  then show ?thesis by (simp add: abbreviateString_def)
next
  case False
  then have eq: "bindValuesString traced m vs = bind_loop [] 0 vs (length vs - 1) m" and "vs \<noteq> []" by (auto simp: bindValuesString_def)
  then have "length vs - 1 + 1 < 10 ^ 20" using assms(1) by simp
  from bind_loop_writes [OF _ this, of m vs u "[]" 0 for u] False assms(2)
  have "(u \<longrightarrow> (\<forall>v \<in> set vs. value_valid v)) \<Longrightarrow> writes u [] (maxBindValueAnnotationSize m) (bindValuesString traced m vs)" for u
    unfolding eq by (simp add: maxBindValueMarkerSize_def)
  from this [of False] this [of True] show ?thesis by (auto simp: writes_def abbreviateString_def)
qed

theorem bind_values_fit_witness:
  "bindValuesString True 4 [VString ''abcdef'', VInt64 7] = ''abcd...(6), ...(2)''
   \<and> length (bindValuesString True 4 [VString ''abcdef'', VInt64 7]) \<le> maxBindValueAnnotationSize 4"
proof
  show "bindValuesString True 4 [VString ''abcdef'', VInt64 7] = ''abcd...(6), ...(2)''" by code_simp
  have "value_len (VInt64 7) < 20" by code_simp
  then show "length (bindValuesString True 4 [VString ''abcdef'', VInt64 7]) \<le> maxBindValueAnnotationSize 4"
    using bind_values_fit [of "[VString ''abcdef'', VInt64 7]" True 4] by simp
qed

end
