(* ===== verification/Sql_Metadata.thy ===== *)
theory Sql_Metadata
  imports Meta Sql_Normalizer Span Bind_Values
begin

text \<open>
  Recording a SQL statement: the memo of normalized statements and their hashes, the SQL id and UID registrations
  (\<^verbatim>\<open>src/meta.go\<close>) and \<^verbatim>\<open>SetSQL\<close> of a span event (\<^verbatim>\<open>src/span_event.go\<close>). \<open>sqlAgent\<close> adds the two memo caches to the agent
  state of \<open>Meta\<close>. \<open>sum128\<close> is the murmur3 hash of the third-party package.
\<close>

section \<open>Normalized statements\<close>

type_synonym murmur = "string \<Rightarrow> go_uint64 \<times> go_uint64"

definition PutUint64 :: "go_uint64 \<Rightarrow> string" where
  "PutUint64 w = map (\<lambda>i. char_of (unat (take_bit 8 (drop_bit (8 * i) w)))) [0..<8]"

definition sqlHashOf :: "murmur \<Rightarrow> string \<Rightarrow> sqlHash" where
  "sqlHashOf sum128 s = (let (h1, h2) = sum128 s in PutUint64 h1 @ PutUint64 h2)"

record normalizedSql =
  n_sql :: string
  n_param :: string
  n_key :: sqlHash

record longSql =
  l_key :: sqlHash
  l_param :: string

record 'x sqlAgent =
  sa_meta :: "'x metaAgent"
  rawSqlCache :: "(string, normalizedSql) metaCache"
  longSqlCache :: "(sqlHash, longSql) metaCache"
  sqlRemoveComments :: bool
  sqlCacheLengthLimit :: nat

definition maxSqlSize :: nat where "maxSqlSize = 64 * 1024"
definition maxSqlParamSize :: nat where "maxSqlParamSize = maxSqlSize"
definition sqlCacheable :: "'x sqlAgent \<Rightarrow> string \<Rightarrow> bool" where
  "sqlCacheable sa s \<longleftrightarrow> length s < sqlCacheLengthLimit sa"

definition normalizeSqlText :: "murmur \<Rightarrow> string \<Rightarrow> bool \<Rightarrow> normalizedSql" where
  "normalizeSqlText sum128 s rc =
     (let (nsql, prm) = run (newSqlNormalizer s rc) in \<lparr>n_sql = nsql, n_param = prm, n_key = sqlHashOf sum128 nsql\<rparr>)"

definition sqlText :: "'x sqlAgent \<Rightarrow> normalizedSql \<Rightarrow> string \<Rightarrow> string" where
  "sqlText sa n raw = (if n_sql n \<noteq> [] then n_sql n else fst (run (newSqlNormalizer raw (sqlRemoveComments sa))))"

definition normalizeLongSql ::
  "murmur \<Rightarrow> hashes \<Rightarrow> bool \<Rightarrow> time \<Rightarrow> string \<Rightarrow> 'x sqlAgent \<Rightarrow> normalizedSql \<times> 'x sqlAgent" where
  "normalizeLongSql sum128 H lk now s sa =
     (let rawKey = sqlHashOf sum128 s; (r, c) = cache_peek (hash_str H) now rawKey (longSqlCache sa);
          sa = sa\<lparr>longSqlCache := c\<rparr>
      in case r of Some m \<Rightarrow> (\<lparr>n_sql = [], n_param = l_param m, n_key = l_key m\<rparr>, sa)
         | None \<Rightarrow>
             let n = normalizeSqlText sum128 s (sqlRemoveComments sa)
             in (n, if sqlCacheable sa (n_param n) \<and> sqlNormalizable (n_sql n)
                    then sa\<lparr>longSqlCache := snd (cache_peekOrAdd (hash_str H) lk now rawKey
                              \<lparr>l_key = n_key n, l_param = n_param n\<rparr> (longSqlCache sa))\<rparr>
                    else sa))"

definition normalizeSql ::
  "murmur \<Rightarrow> hashes \<Rightarrow> bool \<Rightarrow> time \<Rightarrow> string \<Rightarrow> 'x sqlAgent \<Rightarrow> normalizedSql \<times> 'x sqlAgent" where
  "normalizeSql sum128 H lk now s sa =
     (if length s > maxSqlSize \<or> \<not> sqlCacheable sa s then normalizeLongSql sum128 H lk now s sa
      else let (r, c) = cache_peek (hash_str H) now s (rawSqlCache sa); sa = sa\<lparr>rawSqlCache := c\<rparr>
           in case r of Some n \<Rightarrow> (n, sa)
              | None \<Rightarrow>
                  let n = normalizeSqlText sum128 s (sqlRemoveComments sa)
                  in (n, sa\<lparr>rawSqlCache := snd (cache_peekOrAdd (hash_str H) lk now s n (rawSqlCache sa))\<rparr>))"

section \<open>Ids and UIDs of statements\<close>

definition cacheSql :: "hashes \<Rightarrow> bool \<Rightarrow> time \<Rightarrow> normalizedSql \<Rightarrow> string \<Rightarrow> 'x sqlAgent \<Rightarrow> go_int32 \<times> 'x sqlAgent" where
  "cacheSql H lk now n raw sa =
     (if \<not> sqlNormalizable (n_sql n) then (0, sa)
      else let (v, a) = registerMeta H (hash_str H) sqlCache put_sql lk now (n_key n) mint_sql
                 (\<lambda>i. sqlMeta i (abbreviateString (sqlText sa n raw) maxSqlSize) (n_key n)) (sa_meta sa)
           in (id_or_zero v, sa\<lparr>sa_meta := a\<rparr>))"

definition cacheSqlUid ::
  "hashes \<Rightarrow> bool \<Rightarrow> time \<Rightarrow> normalizedSql \<Rightarrow> string \<Rightarrow> 'x sqlAgent \<Rightarrow> string option \<times> 'x sqlAgent" where
  "cacheSqlUid H lk now n raw sa =
     (if \<not> sqlNormalizable (n_sql n) then (None, sa)
      else let (v, a) = registerMeta H (hash_str H) sqlUidCache put_uid lk now (n_key n) (\<lambda>a. (Some (n_key n), a))
                 (\<lambda>u. sqlUidMeta u (abbreviateString (sqlText sa n raw) maxSqlSize) (n_key n)) (sa_meta sa)
           in (v, sa\<lparr>sa_meta := a\<rparr>))"

section \<open>SetSQL\<close>

record sqlConfig =
  sqlEnableRawSqlCache :: bool
  sqlMaxBindValueSize :: int
  sqlTraceQueryStat :: bool
  sqlErrorCount :: int

text \<open>The count and the error flag of the trace a recorded statement adds to.\<close>

definition count_sql :: "sqlConfig \<Rightarrow> 'e span \<Rightarrow> root \<Rightarrow> root" where
  "count_sql sc sp r =
     (if sqlErrorCount sc > 0 \<and> root_err r = 0 \<and> \<not> finished sp
      then let r = r\<lparr>root_sqlCount := root_sqlCount r + 1\<rparr>
           in if sint (root_sqlCount r) \<ge> sqlErrorCount sc then snd (markSpanError (cfg sp) ErrorCategorySql r) else r
      else r)"

definition SetSQL ::
  "murmur \<Rightarrow> hashes \<Rightarrow> sqlConfig \<Rightarrow> bool \<Rightarrow> time \<Rightarrow> string \<Rightarrow> string \<Rightarrow> 'e span \<Rightarrow>
   spanEvent \<times> root \<times> 'x sqlAgent \<Rightarrow> spanEvent \<times> root \<times> 'x sqlAgent" where
  "SetSQL sum128 H sc lk now s args sp st =
     (case st of (se, r, sa) \<Rightarrow>
        if s = [] \<or> ev_finished se then st
        else if \<not> sqlNormalizable s then st
        else
          let (n, sa) = (if sqlEnableRawSqlCache sc then normalizeSql sum128 H lk now s sa
                         else (normalizeSqlText sum128 s (sqlRemoveComments sa), sa));
              prm = (if length (n_param n) > maxSqlParamSize then [] else n_param n);
              args = (if sqlMaxBindValueSize sc > 0
                      then abbreviateString args (maxBindValueAnnotationSize (nat (sqlMaxBindValueSize sc))) else [])
          in if sqlTraceQueryStat sc then
               (case cacheSqlUid H lk now n s sa of
                  (None, sa) \<Rightarrow> (se, r, sa)
                | (Some u, sa) \<Rightarrow>
                    (se\<lparr>ev_annotations := AppendBytesStringString AnnotationSqlUid u prm args (ev_annotations se)\<rparr>,
                     count_sql sc sp r, sa))
             else
               (case cacheSql H lk now n s sa of
                  (i, sa) \<Rightarrow>
                    if i = 0 then (se, r, sa)
                    else (se\<lparr>ev_annotations := AppendIntStringString AnnotationSqlId i prm args (ev_annotations se)\<rparr>,
                          count_sql sc sp r, sa)))"

section \<open>The memo is transparent\<close>

text \<open>A cache all of whose entries satisfy \<open>P\<close>: lookups answer within \<open>P\<close>, and lookups and inserts of \<open>P\<close> keep it so.\<close>

definition entries_satisfy :: "('k \<Rightarrow> nat) \<Rightarrow> ('k \<Rightarrow> 'v \<Rightarrow> bool) \<Rightarrow> ('k, 'v) metaCache \<Rightarrow> bool" where
  "entries_satisfy hash P c \<longleftrightarrow> cache_inv hash c \<and> (\<forall>k v. cache_abs hash c k = Some v \<longrightarrow> P k v)"

lemma map_leD2: "f \<subseteq>\<^sub>m g \<Longrightarrow> f k = Some v \<Longrightarrow> g k = Some v"
  by (metis domI map_le_def)

lemma peek_entries:
  assumes "entries_satisfy hash P c"
  shows "entries_satisfy hash P (snd (cache_peek hash now k c))"
    and "fst (cache_peek hash now k c) = Some v \<Longrightarrow> P k v"
proof -
  have inv: "cache_inv hash c" using assms by (simp add: entries_satisfy_def)
  have hit: "fst (cache_peek hash now k c) = cache_abs hash c k" if "fst (cache_peek hash now k c) \<noteq> None"
    using peek_fst [OF inv that] .
  show "fst (cache_peek hash now k c) = Some v \<Longrightarrow> P k v" using assms hit by (simp add: entries_satisfy_def)
  have "P j w" if "cache_abs hash (snd (cache_peek hash now k c)) j = Some w" for j w
    using that hit assms unfolding peek_spec(3) [OF inv] by (auto simp: entries_satisfy_def split: if_splits)
  then show "entries_satisfy hash P (snd (cache_peek hash now k c))"
    using peek_spec(1) [OF inv] by (simp add: entries_satisfy_def)
qed

lemma add_entries:
  assumes "entries_satisfy hash P c" "P k v"
  shows "entries_satisfy hash P (snd (cache_peekOrAdd hash lk now k v c))"
proof -
  have inv: "cache_inv hash c" using assms by (simp add: entries_satisfy_def)
  have "P j w" if "cache_abs hash (snd (cache_peekOrAdd hash lk now k v c)) j = Some w" for j w
    using map_leD2 [OF peekOrAdd_le(1) [OF inv] that] assms by (auto simp: entries_satisfy_def split: if_splits)
  then show ?thesis using peekOrAdd_inv [OF inv] by (simp add: entries_satisfy_def)
qed

definition long_entry :: "murmur \<Rightarrow> bool \<Rightarrow> string set \<Rightarrow> sqlHash \<Rightarrow> longSql \<Rightarrow> bool" where
  "long_entry sum128 rc S k m \<longleftrightarrow>
     (\<exists>s \<in> S. k = sqlHashOf sum128 s \<and> m = \<lparr>l_key = n_key (normalizeSqlText sum128 s rc),
        l_param = n_param (normalizeSqlText sum128 s rc)\<rparr> \<and> sqlNormalizable (n_sql (normalizeSqlText sum128 s rc)))"

definition memo_ok :: "murmur \<Rightarrow> hashes \<Rightarrow> string set \<Rightarrow> 'x sqlAgent \<Rightarrow> bool" where
  "memo_ok sum128 H S sa \<longleftrightarrow>
     entries_satisfy (hash_str H) (\<lambda>s n. n = normalizeSqlText sum128 s (sqlRemoveComments sa)) (rawSqlCache sa)
     \<and> entries_satisfy (hash_str H) (long_entry sum128 (sqlRemoveComments sa) S) (longSqlCache sa)"

definition same_normalized :: "murmur \<Rightarrow> 'x sqlAgent \<Rightarrow> string \<Rightarrow> normalizedSql \<Rightarrow> bool" where
  "same_normalized sum128 sa s n \<longleftrightarrow>
     (let n' = normalizeSqlText sum128 s (sqlRemoveComments sa) in
      n_param n = n_param n' \<and> n_key n = n_key n' \<and> sqlText sa n s = n_sql n'
      \<and> sqlNormalizable (n_sql n) = sqlNormalizable (n_sql n'))"

lemma text_same: "same_normalized sum128 sa s (normalizeSqlText sum128 s (sqlRemoveComments sa))"
  by (auto simp: same_normalized_def sqlText_def normalizeSqlText_def Let_def split: prod.splits)

lemma hit_same:
  "sqlNormalizable (n_sql n) \<Longrightarrow> n = normalizeSqlText sum128 s (sqlRemoveComments sa) \<Longrightarrow>
   same_normalized sum128 sa s \<lparr>n_sql = [], n_param = n_param n, n_key = n_key n\<rparr>"
  by (auto simp: same_normalized_def sqlText_def normalizeSqlText_def sqlNormalizable_def Let_def split: prod.splits)

lemma normalizeLongSql_ok:
  assumes memo: "memo_ok sum128 H S sa" and inj: "inj_on (sqlHashOf sum128) S" and s: "s \<in> S"
  shows "same_normalized sum128 sa s (fst (normalizeLongSql sum128 H lk now s sa))"
    and "memo_ok sum128 H S (snd (normalizeLongSql sum128 H lk now s sa))"
    and "sqlRemoveComments (snd (normalizeLongSql sum128 H lk now s sa)) = sqlRemoveComments sa"
proof -
  let ?k = "sqlHashOf sum128 s" let ?rc = "sqlRemoveComments sa"
  let ?p = "cache_peek (hash_str H) now ?k (longSqlCache sa)" let ?n = "normalizeSqlText sum128 s ?rc"
  have es: "entries_satisfy (hash_str H) (long_entry sum128 ?rc S) (longSqlCache sa)"
    and raw: "entries_satisfy (hash_str H) (\<lambda>s n. n = normalizeSqlText sum128 s ?rc) (rawSqlCache sa)"
    using memo by (simp_all add: memo_ok_def)
  note pk = peek_entries [OF es, of now ?k]
  have hit: "same_normalized sum128 sa s \<lparr>n_sql = [], n_param = l_param m, n_key = l_key m\<rparr>" if m: "fst ?p = Some m" for m
  proof -
    from pk(2) [OF m] obtain s' where s': "s' \<in> S" "?k = sqlHashOf sum128 s'" "m = \<lparr>l_key = n_key (normalizeSqlText sum128 s' ?rc),
        l_param = n_param (normalizeSqlText sum128 s' ?rc)\<rparr>" "sqlNormalizable (n_sql (normalizeSqlText sum128 s' ?rc))"
      by (auto simp: long_entry_def)
    then have "s' = s" using inj s by (auto dest: inj_onD)
    then show ?thesis using hit_same [OF s'(4), of sum128 s sa] s'(3) by simp
  qed
  have new: "entries_satisfy (hash_str H) (long_entry sum128 ?rc S)
      (snd (cache_peekOrAdd (hash_str H) lk now ?k \<lparr>l_key = n_key ?n, l_param = n_param ?n\<rparr> (snd ?p)))"
    if "sqlNormalizable (n_sql ?n)"
    by (rule add_entries [OF pk(1)]) (use that s in \<open>auto simp: long_entry_def\<close>)
  show "same_normalized sum128 sa s (fst (normalizeLongSql sum128 H lk now s sa))"
    using hit text_same [of sum128 sa s]
    by (auto simp: normalizeLongSql_def Let_def same_normalized_def sqlText_def split: prod.splits option.splits)
  show "memo_ok sum128 H S (snd (normalizeLongSql sum128 H lk now s sa))"
    "sqlRemoveComments (snd (normalizeLongSql sum128 H lk now s sa)) = sqlRemoveComments sa"
    using pk(1) raw new by (auto simp: normalizeLongSql_def Let_def memo_ok_def split: prod.splits option.splits)
qed

lemma normalizeSql_ok:
  assumes memo: "memo_ok sum128 H S sa" and inj: "inj_on (sqlHashOf sum128) S" and s: "s \<in> S"
  shows "same_normalized sum128 sa s (fst (normalizeSql sum128 H lk now s sa))"
    and "memo_ok sum128 H S (snd (normalizeSql sum128 H lk now s sa))"
    and "sqlRemoveComments (snd (normalizeSql sum128 H lk now s sa)) = sqlRemoveComments sa"
proof -
  let ?rc = "sqlRemoveComments sa" let ?p = "cache_peek (hash_str H) now s (rawSqlCache sa)"
  let ?n = "normalizeSqlText sum128 s ?rc"
  have raw: "entries_satisfy (hash_str H) (\<lambda>s n. n = normalizeSqlText sum128 s ?rc) (rawSqlCache sa)"
    and long: "entries_satisfy (hash_str H) (long_entry sum128 ?rc S) (longSqlCache sa)"
    using memo by (simp_all add: memo_ok_def)
  note pk = peek_entries [OF raw, of now s]
  have new: "entries_satisfy (hash_str H) (\<lambda>s n. n = normalizeSqlText sum128 s ?rc)
      (snd (cache_peekOrAdd (hash_str H) lk now s ?n (snd ?p)))"
    by (rule add_entries [OF pk(1)]) simp
  note lg = normalizeLongSql_ok [OF memo inj s, of lk now]
  show "same_normalized sum128 sa s (fst (normalizeSql sum128 H lk now s sa))"
    using lg(1) pk(2) text_same [of sum128 sa s]
    by (auto simp: normalizeSql_def Let_def split: prod.splits option.splits)
  show "memo_ok sum128 H S (snd (normalizeSql sum128 H lk now s sa))"
    "sqlRemoveComments (snd (normalizeSql sum128 H lk now s sa)) = sqlRemoveComments sa"
    using lg(2,3) pk(1) long new by (auto simp: normalizeSql_def Let_def memo_ok_def split: prod.splits option.splits)
qed

text \<open>A sequence of lookups, each with the lock and clock it met.\<close>

fun normalize_all ::
  "murmur \<Rightarrow> hashes \<Rightarrow> (bool \<times> time \<times> string) list \<Rightarrow> 'x sqlAgent \<Rightarrow> normalizedSql list \<times> 'x sqlAgent" where
  "normalize_all sum128 H [] sa = ([], sa)"
| "normalize_all sum128 H ((lk, now, s) # xs) sa =
     (let (n, sa) = normalizeSql sum128 H lk now s sa; (ns, sa) = normalize_all sum128 H xs sa in (n # ns, sa))"

lemma same_normalized_cong:
  "sqlRemoveComments sa = sqlRemoveComments sb \<Longrightarrow> same_normalized sum128 sa s n = same_normalized sum128 sb s n"
  by (simp add: same_normalized_def sqlText_def)

lemma normalize_all_ok:
  assumes "memo_ok sum128 H S sa" "inj_on (sqlHashOf sum128) S" "(snd \<circ> snd) ` set xs \<subseteq> S"
    "normalize_all sum128 H xs sa = (ns, sa')"
  shows "list_all2 (\<lambda>x n. same_normalized sum128 sa (snd (snd x)) n) xs ns"
  using assms
proof (induction xs arbitrary: sa ns)
  case (Cons x xs)
  obtain lk now s where x: "x = (lk, now, s)" by (cases x) auto
  define sa1 where "sa1 = snd (normalizeSql sum128 H lk now s sa)"
  obtain n1 where n1: "normalize_all sum128 H xs sa1 = (n1, sa')" "ns = fst (normalizeSql sum128 H lk now s sa) # n1"
    using Cons.prems(4) by (auto simp: x sa1_def Let_def split: prod.splits)
  have s: "s \<in> S" using Cons.prems(3) by (auto simp: x)
  note ok = normalizeSql_ok [OF Cons.prems(1,2) s, of lk now]
  have "list_all2 (\<lambda>x n. same_normalized sum128 sa1 (snd (snd x)) n) xs n1"
    using Cons.IH [OF _ Cons.prems(2) _ n1(1)] ok(2) Cons.prems(3) by (simp add: sa1_def)
  moreover have "same_normalized sum128 sa1 s' n = same_normalized sum128 sa s' n" for s' n
    using ok(3) same_normalized_cong by (simp add: sa1_def same_normalized_cong [OF ok(3)])
  ultimately show ?case using ok(1) by (simp add: x n1(2))
qed simp

lemma new_memo_ok:
  "rawSqlCache sa = newMetaCache k 0 \<Longrightarrow> longSqlCache sa = newMetaCache m 0 \<Longrightarrow> memo_ok sum128 H S sa"
  by (simp add: memo_ok_def entries_satisfy_def new_cache_inv new_cache_empty)

text \<open>
  (C40) The two memo caches change nothing about a statement: over any sequence of executions through caches that fill, evict
  and promote, what is recorded for each statement, its parameters, its hash and its text, is what normalizing it afresh
  gives, provided no two of the statements share their 128-bit hash.
\<close>

theorem memo_transparent:
  assumes "rawSqlCache sa = newMetaCache k 0" "longSqlCache sa = newMetaCache m 0"
    and "inj_on (sqlHashOf sum128) ((snd \<circ> snd) ` set xs)" "normalize_all sum128 H xs sa = (ns, sa')"
  shows "length ns = length xs \<and> (\<forall>i < length xs. let s = snd (snd (xs ! i)); (nsql, prm) = run (newSqlNormalizer s (sqlRemoveComments sa))
    in n_param (ns ! i) = prm \<and> n_key (ns ! i) = sqlHashOf sum128 nsql \<and> sqlText sa (ns ! i) s = nsql
       \<and> sqlNormalizable (n_sql (ns ! i)) = sqlNormalizable nsql)"
proof -
  have "list_all2 (\<lambda>x n. same_normalized sum128 sa (snd (snd x)) n) xs ns"
    by (rule normalize_all_ok [OF new_memo_ok [OF assms(1,2)] assms(3) order_refl assms(4)])
  then show ?thesis
    by (auto simp: list_all2_conv_all_nth same_normalized_def normalizeSqlText_def Let_def split: prod.splits)
qed

definition demo_sqls :: "(bool \<times> time \<times> string) list" where
  "demo_sqls = [(True, 0, ''a=1''), (True, 1, ''b''), (True, 2, ''a=1'')]"

definition demo_sum :: murmur where
  "demo_sum s = (of_nat (length s), 0)"

definition demo_sql_agent :: "nat sqlAgent" where
  "demo_sql_agent = \<lparr>sa_meta = new_metaAgent 4 4 0 2, rawSqlCache = newMetaCache 4 0, longSqlCache = newMetaCache 4 0,
     sqlRemoveComments = True, sqlCacheLengthLimit = 2\<rparr>"

theorem memo_transparent_witness:
  "length (fst (normalize_all demo_sum demo_hashes demo_sqls demo_sql_agent)) = 3
   \<and> n_param (fst (normalize_all demo_sum demo_hashes demo_sqls demo_sql_agent) ! 2)
     = snd (run (newSqlNormalizer ''a=1'' True))"
proof -
  have "inj_on (sqlHashOf demo_sum) {''a=1'', ''b''}"
    by (simp add: sqlHashOf_def demo_sum_def PutUint64_def) code_simp
  then have inj: "inj_on (sqlHashOf demo_sum) ((snd \<circ> snd) ` set demo_sqls)" by (simp add: demo_sqls_def insert_commute)
  define ns where "ns = fst (normalize_all demo_sum demo_hashes demo_sqls demo_sql_agent)"
  have agent: "rawSqlCache demo_sql_agent = newMetaCache 4 0" "longSqlCache demo_sql_agent = newMetaCache 4 0"
    "sqlRemoveComments demo_sql_agent = True" by (simp_all add: demo_sql_agent_def)
  note t = memo_transparent [OF agent(1,2) inj prod.collapse [symmetric], of demo_hashes, folded ns_def]
  have at: "snd (snd (demo_sqls ! 2)) = ''a=1''" "length demo_sqls = 3" by (simp_all add: demo_sqls_def)
  then have "n_param (ns ! 2) = snd (run (newSqlNormalizer ''a=1'' True))"
    using conjunct2 [OF t, rule_format, of 2] agent(3) by (simp add: Let_def split: prod.splits)
  then show ?thesis using conjunct1 [OF t] at(2) by (simp add: ns_def)
qed

section \<open>Counting statements\<close>

text \<open>What \<open>SetSQL\<close> does to its event and trace: nothing, or one annotation and one count.\<close>

definition records_sql :: "sqlConfig \<Rightarrow> 'e span \<Rightarrow> spanEvent \<times> root \<Rightarrow> spanEvent \<times> root \<Rightarrow> bool" where
  "records_sql sc sp st st' \<longleftrightarrow>
     (\<exists>v. fst st' = (fst st)\<lparr>ev_annotations := annotation_append v (ev_annotations (fst st))\<rparr> \<and> snd st' = count_sql sc sp (snd st))"

lemma SetSQL_records:
  assumes "SetSQL sum128 H sc lk now s args sp (se, r, sa) = (se', r', sa')"
  shows "(se' = se \<and> r' = r) \<or> records_sql sc sp (se, r) (se', r')"
  using assms
  by (auto simp: SetSQL_def records_sql_def Let_def AppendBytesStringString_def AppendIntStringString_def
      split: prod.splits option.splits if_splits)

fun SetSQL_all ::
  "murmur \<Rightarrow> hashes \<Rightarrow> sqlConfig \<Rightarrow> 'e span \<Rightarrow> (bool \<times> time \<times> string \<times> string) list \<Rightarrow>
   spanEvent \<times> root \<times> 'x sqlAgent \<Rightarrow> spanEvent \<times> root \<times> 'x sqlAgent" where
  "SetSQL_all sum128 H sc sp [] st = st"
| "SetSQL_all sum128 H sc sp ((lk, now, s, args) # xs) st =
     SetSQL_all sum128 H sc sp xs (SetSQL sum128 H sc lk now s args sp st)"

definition counted :: "sqlConfig \<Rightarrow> nat \<Rightarrow> root \<Rightarrow> bool" where
  "counted sc n r \<longleftrightarrow>
     (if int n < sqlErrorCount sc then root_err r = 0 \<and> root_sqlCount r = of_nat n else root_err r = ErrorCategorySql)"

lemma sint_of_nat: "n < 2 ^ 31 \<Longrightarrow> sint (of_nat n :: 32 word) = int n"
  by (simp add: sint_uint unsigned_of_nat take_bit_nat_eq_self signed_take_bit_int_eq_self)

lemma count_sql_counted:
  assumes "counted sc n r" "0 < sqlErrorCount sc" "sqlErrorCount sc < 2 ^ 31" "\<not> finished sp"
    "marksError (errorMarkMask (cfg sp)) ErrorCategorySql"
  shows "counted sc (Suc n) (count_sql sc sp r)"
proof (cases "int n < sqlErrorCount sc")
  case True
  then have r: "root_err r = 0" "root_sqlCount r = of_nat n" using assms(1) by (auto simp: counted_def)
  have "Suc n < 2 ^ 31" using True assms(3) by simp
  then have "sint (of_nat n + 1 :: 32 word) = int (Suc n)" using sint_of_nat [of "Suc n"] by (simp add: add.commute)
  then show ?thesis using True r assms by (auto simp: counted_def count_sql_def markSpanError_def Let_def add.commute)
next
  case False
  then have "root_err r = ErrorCategorySql" using assms(1) by (simp add: counted_def)
  then show ?thesis using False by (simp add: counted_def count_sql_def ErrorCategorySql_def)
qed

lemma SetSQL_all_counted:
  assumes "SetSQL_all sum128 H sc sp xs (se, r, sa) = (se', r', sa')" "counted sc n r" "\<not> sealed (ev_annotations se)"
    and cfg: "0 < sqlErrorCount sc" "sqlErrorCount sc < 2 ^ 31" "\<not> finished sp" "marksError (errorMarkMask (cfg sp)) ErrorCategorySql"
  shows "counted sc (n + (length (vals (ev_annotations se')) - length (vals (ev_annotations se)))) r'
    \<and> length (vals (ev_annotations se)) \<le> length (vals (ev_annotations se'))"
  using assms(1-3)
proof (induction xs arbitrary: se r sa n)
  case (Cons x xs)
  obtain lk now s args where x: "x = (lk, now, s, args)" by (cases x) auto
  obtain se1 r1 sa1 where one: "SetSQL sum128 H sc lk now s args sp (se, r, sa) = (se1, r1, sa1)" by (metis prod_cases3)
  have rest: "SetSQL_all sum128 H sc sp xs (se1, r1, sa1) = (se', r', sa')" using Cons.prems(1) one by (simp add: x)
  from SetSQL_records [OF one] show ?case
  proof
    assume "se1 = se \<and> r1 = r"
    then show ?thesis using Cons.IH [OF rest, of n] Cons.prems(2,3) by metis
  next
    assume "records_sql sc sp (se, r) (se1, r1)"
    then obtain v where v: "se1 = se\<lparr>ev_annotations := annotation_append v (ev_annotations se)\<rparr>" "r1 = count_sql sc sp r"
      by (auto simp: records_sql_def)
    have "counted sc (Suc n) r1" unfolding v(2) by (rule count_sql_counted [OF Cons.prems(2) cfg])
    moreover have "\<not> sealed (ev_annotations se1)" "length (vals (ev_annotations se1)) = Suc (length (vals (ev_annotations se)))"
      using Cons.prems(3) by (simp_all add: v(1) annotation_append_def)
    ultimately have IH: "counted sc (Suc n + (length (vals (ev_annotations se')) - Suc (length (vals (ev_annotations se))))) r'"
      "Suc (length (vals (ev_annotations se))) \<le> length (vals (ev_annotations se'))"
      using Cons.IH [OF rest, of "Suc n"] by auto
    have "Suc n + (length (vals (ev_annotations se')) - Suc (length (vals (ev_annotations se))))
      = n + (length (vals (ev_annotations se')) - length (vals (ev_annotations se)))" using IH(2) by linarith
    with IH show ?thesis by (metis Suc_leD)
  qed
qed simp

text \<open>
  A trace is marked failed by its SQL count exactly when the statements recorded on it reach \<open>SQL.ErrorCount\<close>, and a
  statement whose registration failed, being neither annotated nor counted, does not move it towards the mark.
\<close>

theorem sql_count_marks_trace:
  assumes "SetSQL_all sum128 H sc sp xs (se, r, sa) = (se', r', sa')"
    and "root_err r = 0" "root_sqlCount r = 0" "\<not> sealed (ev_annotations se)"
    and "0 < sqlErrorCount sc" "sqlErrorCount sc < 2 ^ 31" "\<not> finished sp" "marksError (errorMarkMask (cfg sp)) ErrorCategorySql"
  shows "root_err r' = (if sqlErrorCount sc \<le> int (length (vals (ev_annotations se'))) - int (length (vals (ev_annotations se)))
    then ErrorCategorySql else 0)"
proof -
  have "counted sc 0 r" using assms(2,3,5) by (simp add: counted_def)
  from SetSQL_all_counted [OF assms(1) this assms(4-8)] show ?thesis by (auto simp: counted_def)
qed

definition demo_span :: "nat span" where
  "demo_span = defaultSpan \<lparr>spanMaxEventSequence = 10, spanMaxEventDepth = 10, spanEventChunkSize = 5,
     errorMarkMask = ErrorCategorySql, errorIgnoreRules = [], errorTraceCallStack = False, errorCallStackDepth = 4,
     errorMaxChainDepth = 2, cfg_collectUrlStat = False\<rparr> 0"

definition demo_root :: root where
  "demo_root = \<lparr>root_err = 0, root_statusErr = 0, root_sqlCount = 0, root_loggingInfo = 0\<rparr>"

definition demo_sql_config :: sqlConfig where
  "demo_sql_config = \<lparr>sqlEnableRawSqlCache = True, sqlMaxBindValueSize = 0, sqlTraceQueryStat = False, sqlErrorCount = 2\<rparr>"

definition demo_recorded :: "spanEvent \<times> root \<times> nat sqlAgent" where
  "demo_recorded = SetSQL_all demo_sum demo_hashes demo_sql_config demo_span [(True, 0, ''b'', []), (True, 1, [], [])]
     (defaultSpanEvent 0 ''q'' 0 1, demo_root, demo_sql_agent)"

theorem sql_count_marks_trace_witness:
  "root_err (fst (snd demo_recorded)) =
     (if 2 \<le> int (length (vals (ev_annotations (fst demo_recorded)))) then ErrorCategorySql else 0)"
proof -
  have run: "SetSQL_all demo_sum demo_hashes demo_sql_config demo_span [(True, 0, ''b'', []), (True, 1, [], [])]
     (defaultSpanEvent 0 ''q'' 0 1, demo_root, demo_sql_agent)
     = (fst demo_recorded, fst (snd demo_recorded), snd (snd demo_recorded))"
    by (simp add: demo_recorded_def)
  have mark: "marksError (errorMarkMask (cfg demo_span)) ErrorCategorySql" by code_simp
  show ?thesis
    using sql_count_marks_trace [OF run] mark
    by (simp add: demo_root_def demo_sql_config_def defaultSpanEvent_def new_annotation_def demo_span_def defaultSpan_def)
qed

end
