(* ===== verification/Trace_Propagation.thy ===== *)
theory Trace_Propagation
  imports Span_Invariants
begin

text \<open>
  The trace context across a call: what \<open>Inject\<close> writes on the calling span, carried by \<^verbatim>\<open>net/http\<close> headers, and what
  \<open>continueHeaders\<close> and \<open>extract\<close> make of it in the callee (\<^verbatim>\<open>src/span.go\<close>, \<^verbatim>\<open>src/tracer.go\<close>).
\<close>

section \<open>What Inject writes\<close>

text \<open>The cached header strings are those of the span's ids.\<close>

definition ids_cached :: "'e span \<Rightarrow> bool" where
  "ids_cached sp \<longleftrightarrow>
     (txIdStr sp = [] \<or> txIdStr sp = TransactionId_String (sp_txId sp))
     \<and> (spanIdStr sp = [] \<or> spanIdStr sp = FormatInt64 (spanId sp))"

lemma header_neqs:
  "distinct [HeaderTraceId, HeaderSpanId, HeaderParentSpanId, HeaderSampled, HeaderFlags,
     HeaderParentApplicationName, HeaderParentApplicationType, HeaderParentApplicationNamespace,
     HeaderParentServiceName, HeaderHost]"
  by (simp add: header_defs)

lemma Inject_headers:
  assumes "\<not> finished sp" and "ids_cached sp"
  obtains dest where "fst (Inject A nid sp) =
    [(HeaderTraceId, TransactionId_String (sp_txId sp)), (HeaderSpanId, FormatInt64 nid),
     (HeaderParentSpanId, FormatInt64 (spanId sp)), (HeaderFlags, FormatInt (flags sp)),
     (HeaderParentApplicationName, appName A), (HeaderParentApplicationType, appTypeStr A)]
    @ (if serviceName A \<noteq> [] then [(HeaderParentServiceName, serviceName A)] else [])
    @ (if clusterNamespace A \<noteq> [] then [(HeaderParentApplicationNamespace, clusterNamespace A)] else [])
    @ (if dest \<noteq> [] then [(HeaderHost, dest)] else [])"
proof -
  have sel: "sp_txId (on_top f s) = sp_txId s" "spanId (on_top f s) = spanId s" "flags (on_top f s) = flags s"
    "txIdStr (on_top f s) = txIdStr s" "spanIdStr (on_top f s) = spanIdStr s" for f and s :: "'e span"
    by (simp_all add: on_top_def)
  define live where "live = (case (if eventOverflow sp = 0 then stack_peek (eventStack sp) else None) of None \<Rightarrow> None
    | Some se \<Rightarrow> if ev_finished se then None else Some se)"
  have ids: "TransactionId_String t \<noteq> []" "FormatInt64 w \<noteq> []" for t w
    by (simp_all add: TransactionId_String_def FormatInt64_def FormatInt_def)
  show ?thesis
    by (rule that [of "case live of Some se \<Rightarrow> destinationId se | None \<Rightarrow> overflowDestination sp"])
      (use assms ids in \<open>auto simp: Inject_def Let_def live_def [symmetric] ids_cached_def on_top_def split: option.splits\<close>)
qed

lemma injected_keys:
  assumes "\<not> finished sp" and "ids_cached sp"
  shows "distinct (map fst (fst (Inject A nid sp))) \<and> fst ` set (fst (Inject A nid sp)) \<subseteq> set injectedHeaders"
proof -
  obtain dest where "fst (Inject A nid sp) =
    [(HeaderTraceId, TransactionId_String (sp_txId sp)), (HeaderSpanId, FormatInt64 nid),
     (HeaderParentSpanId, FormatInt64 (spanId sp)), (HeaderFlags, FormatInt (flags sp)),
     (HeaderParentApplicationName, appName A), (HeaderParentApplicationType, appTypeStr A)]
    @ (if serviceName A \<noteq> [] then [(HeaderParentServiceName, serviceName A)] else [])
    @ (if clusterNamespace A \<noteq> [] then [(HeaderParentApplicationNamespace, clusterNamespace A)] else [])
    @ (if dest \<noteq> [] then [(HeaderHost, dest)] else [])"
    using Inject_headers [OF assms] .
  then show ?thesis using header_neqs by (auto simp: injectedHeaders_def)
qed

text \<open>What the callee reads, over a carrier that held no Pinpoint header before.\<close>

lemma injected_lookup:
  fixes A :: "'e agent_env" and nid :: go_int64
  assumes "\<not> finished sp" and "ids_cached sp" and "header_map w \<noteq> None"
    and "\<forall>k \<in> set injectedHeaders. http_look w k = None"
  defines "Get \<equiv> http_look (http.put_all (fst (Inject A nid sp)) w)"
  shows "Get HeaderTraceId = Some (TransactionId_String (sp_txId sp))" and "Get HeaderSpanId = Some (FormatInt64 nid)"
    and "Get HeaderParentSpanId = Some (FormatInt64 (spanId sp))" and "Get HeaderFlags = Some (FormatInt (flags sp))"
    and "Get HeaderParentApplicationName = Some (appName A)" and "Get HeaderParentApplicationType = Some (appTypeStr A)"
    and "Get HeaderParentServiceName = (if serviceName A = [] then None else Some (serviceName A))"
    and "Get HeaderParentApplicationNamespace = (if clusterNamespace A = [] then None else Some (clusterNamespace A))"
    and "Get HeaderSampled = None"
proof -
  have get: "Get k = map_of (fst (Inject A nid sp)) k" if "k \<in> set injectedHeaders" for k
    unfolding Get_def
    using http.look_put_all [OF assms(3) conjunct2 [OF injected_keys [OF assms(1,2), of A nid]] that
        conjunct1 [OF injected_keys [OF assms(1,2), of A nid]]] assms(4) that
    by (simp split: option.splits)
  obtain dest where hs: "fst (Inject A nid sp) =
    [(HeaderTraceId, TransactionId_String (sp_txId sp)), (HeaderSpanId, FormatInt64 nid),
     (HeaderParentSpanId, FormatInt64 (spanId sp)), (HeaderFlags, FormatInt (flags sp)),
     (HeaderParentApplicationName, appName A), (HeaderParentApplicationType, appTypeStr A)]
    @ (if serviceName A \<noteq> [] then [(HeaderParentServiceName, serviceName A)] else [])
    @ (if clusterNamespace A \<noteq> [] then [(HeaderParentApplicationNamespace, clusterNamespace A)] else [])
    @ (if dest \<noteq> [] then [(HeaderHost, dest)] else [])"
    using Inject_headers [OF assms(1,2)] .
  show "Get HeaderTraceId = Some (TransactionId_String (sp_txId sp))" "Get HeaderSpanId = Some (FormatInt64 nid)"
    "Get HeaderParentSpanId = Some (FormatInt64 (spanId sp))" "Get HeaderFlags = Some (FormatInt (flags sp))"
    "Get HeaderParentApplicationName = Some (appName A)" "Get HeaderParentApplicationType = Some (appTypeStr A)"
    "Get HeaderParentServiceName = (if serviceName A = [] then None else Some (serviceName A))"
    "Get HeaderParentApplicationNamespace = (if clusterNamespace A = [] then None else Some (clusterNamespace A))"
    "Get HeaderSampled = None"
    by (simp_all add: get hs injectedHeaders_def header_defs)
qed

section \<open>Properties\<close>

text \<open>
  (C3) A trace survives the hop. Whatever a span injects into the headers of an outgoing request, a callee whose
  cluster namespace does not differ continues: its span has the caller's transaction id, the injected span id as its
  own and the caller's span id as its parent, and it reports the caller's flags, application name, type and service
  name. The caller's agent id must be an id (\<open>isIDChars\<close>, not empty), as the agent's own always is, its flags and
  application type of the widths they are parsed with.
\<close>

theorem inject_extract_roundtrip:
  assumes "\<not> finished sp" and "ids_cached sp"
    and "AgentId (sp_txId sp) \<noteq> []" and "isIDChars (AgentId (sp_txId sp))"
    and "- (2 ^ 31) \<le> flags sp" and "flags sp < 2 ^ 31" and "ParseInt 16 (appTypeStr A) = Some ty"
    and "ns = [] \<or> clusterNamespace A = [] \<or> clusterNamespace A = ns"
    and "header_map w \<noteq> None" and "\<forall>k \<in> set injectedHeaders. http_look w k = None"
  shows "let Get = http_look (fold (\<lambda>(k, v). httpHeaderWriter_Set k v) (fst (Inject A nid sp)) w);
             inb = continueHeaders Get ns;
             callee = span_extract Get inb newTx gid (newSampledSpan B c now operation rpc)
    in continued inb \<and> sp_txId callee = sp_txId sp \<and> spanId callee = nid \<and> parentSpanId callee = spanId sp
       \<and> flags callee = flags sp \<and> parentAppName callee = appName A \<and> parentAppType callee = ty
       \<and> parentServiceName callee = serviceName A"
proof -
  let ?Get = "http_look (http.put_all (fst (Inject A nid sp)) w)"
  note G = injected_lookup [OF assms(1,2,9,10), of A nid]
  have inb: "continueHeaders ?Get ns =
      \<lparr>tid = TransactionId_String (sp_txId sp), in_spanId = FormatInt64 nid, in_parentSpanId = FormatInt64 (spanId sp),
       txId = sp_txId sp, continued = True\<rparr>"
    using assms(8) split_String [OF assms(3,4)]
    by (auto simp: continueHeaders_def get_value_def G sameClusterNamespace_def split: if_splits)
  have fl: "ParseInt 32 (FormatInt (flags sp)) = Some (flags sp)"
    using assms(5,6) by (intro ParseInt_FormatInt) simp_all
  have ty: "appTypeStr A \<noteq> []" using assms(7) by (auto simp: ParseInt_def parse_sign_def)
  have nz: "FormatInt64 x \<noteq> []" for x by (simp add: FormatInt64_def FormatInt_def)
  have "http.put_all (fst (Inject A nid sp)) w = fold (\<lambda>(k, v). httpHeaderWriter_Set k v) (fst (Inject A nid sp)) w"
    by (simp add: http.put_all_def)
  then show ?thesis
    using ty assms(7) by (simp add: Let_def flip: \<open>http.put_all _ w = _\<close>)
      (simp add: inb span_extract_def get_value_def G fl nz Let_def)
qed

text \<open>A caller whose headers the witness follows.\<close>

definition calling_span :: "nat span" where
  "calling_span = (newSampledSpan plain_agent small_config 0 ''op'' ''/'')
     \<lparr>sp_txId := \<lparr>AgentId = ''agent-1'', StartTime = 1700000000000, Sequence = 42\<rparr>, spanId := - 77\<rparr>"

theorem inject_extract_roundtrip_witness:
  "let Get = http_look (fold (\<lambda>(k, v). httpHeaderWriter_Set k v) (fst (Inject plain_agent 99 calling_span))
               (HttpHeaderWriter (Some Map.empty)));
       callee = span_extract Get (continueHeaders Get []) zero_txId 1 (newSampledSpan plain_agent small_config 5 ''in'' ''/x'')
   in sp_txId callee = sp_txId calling_span \<and> spanId callee = 99 \<and> parentSpanId callee = - 77 \<and> parentAppType callee = 1800"
proof -
  have sel: "\<not> finished calling_span" "ids_cached calling_span" "AgentId (sp_txId calling_span) \<noteq> []"
    "- (2 ^ 31) \<le> flags calling_span" "flags calling_span < 2 ^ 31" "spanId calling_span = - 77"
    by (simp_all add: calling_span_def newSampledSpan_def defaultSpan_def ids_cached_def)
  have ch: "isIDChars (AgentId (sp_txId calling_span))" "ParseInt 16 (appTypeStr plain_agent) = Some 1800" by code_simp+
  have car: "header_map (HttpHeaderWriter (Some Map.empty)) \<noteq> None"
    "\<forall>k \<in> set injectedHeaders. http_look (HttpHeaderWriter (Some Map.empty)) k = None"
    by (simp_all add: HttpHeaderWriter_def http_look_def httpHeaderReader_Get_def)
  show ?thesis
    using inject_extract_roundtrip [OF sel(1-3) ch(1) sel(4,5) ch(2) disjI1 [OF refl] car, of 99 zero_txId 1 plain_agent
        small_config 5 "''in''" "''/x''"]
    by (simp only: Let_def sel(6) simp_thms)
qed

text \<open>
  A hostile trace id cannot ride on into the headers of the next hop: whatever bytes an inbound request
  carries, when the trace is continued the transaction id sent on downstream is printable ASCII whose agent part is
  made of id characters, and the callee reads back the same transaction.
\<close>

theorem continued_trace_id_is_clean:
  assumes "continued (continueHeaders Get ns)"
  shows "let t = txId (continueHeaders Get ns)
    in isPrintableASCII (TransactionId_String t) \<and> isIDChars (AgentId t)
       \<and> splitTransactionId (TransactionId_String t) = Some t"
proof -
  let ?t = "txId (continueHeaders Get ns)"
  have t: "AgentId ?t \<noteq> []" "isIDChars (AgentId ?t)"
    using split_AgentId [OF continueHeaders_fields(1) [OF assms]] by auto
  have "isPrintableASCII (FormatInt64 x)" for x
    using FormatInt_chars by (fastforce simp: FormatInt64_def isPrintableASCII_iff list_all_iff isDigit_def)
  then have "isPrintableASCII (TransactionId_String ?t)"
    using isIDChars_printable [OF t(2)] by (simp add: TransactionId_String_def isPrintableASCII_iff)
  with t split_String [OF t] show ?thesis by (simp add: Let_def)
qed

theorem continued_trace_id_is_clean_witness:
  "let Get = (\<lambda>k. if k = HeaderTraceId then Some ''a.b^1^-2^x'' else if k = HeaderSpanId then Some [] else
        if k = HeaderParentSpanId then Some ''5'' else None);
       t = txId (continueHeaders Get [])
   in continued (continueHeaders Get []) \<and> TransactionId_String t = ''a.b^1^-2'' \<and> isPrintableASCII (TransactionId_String t)"
proof -
  let ?Get = "\<lambda>k. if k = HeaderTraceId then Some ''a.b^1^-2^x'' else if k = HeaderSpanId then Some [] else
        if k = HeaderParentSpanId then Some ''5'' else None"
  have c: "continued (continueHeaders ?Get [])" "TransactionId_String (txId (continueHeaders ?Get [])) = ''a.b^1^-2''"
    by code_simp+
  from continued_trace_id_is_clean [OF c(1)] c show ?thesis by (simp add: Let_def)
qed

end
