(* ===== verification/Stats.thy ===== *)
theory Stats
  imports Pinpoint_Prelude "HOL-Library.AList"
begin

text \<open>
  The agent's statistics (\<^verbatim>\<open>src/stats.go\<close>): the request counters sharded by goroutine and the sweep that drains
  them, the bounded registry of active spans, and the batches the stat worker sends. Counters are int64 words. The
  operations here run alone; \<^verbatim>\<open>Stats_Sweep\<close> interleaves their atomic accesses.
\<close>

section \<open>Counters\<close>

datatype statCounter =
    statAccResponseTime | statMaxResponseTime | statRequestCount | statSampleNew | statUnSampleNew | statSampleCont
  | statUnSampleCont | statSkipNew | statSkipCont

definition statCounters :: "statCounter list" where
  "statCounters = [statAccResponseTime, statMaxResponseTime, statRequestCount, statSampleNew, statUnSampleNew,
     statSampleCont, statUnSampleCont, statSkipNew, statSkipCont]"

definition statShardCount :: nat where "statShardCount = 16"

type_synonym statShard = "statCounter \<Rightarrow> go_int64"
type_synonym statsCounterSnapshot = "statCounter \<Rightarrow> go_int64"

text \<open>The shard of a goroutine id; all goroutines share the first one when the id cannot be read.\<close>

definition stat_shard :: "go_int64 option \<Rightarrow> nat" where
  "stat_shard gid = (case gid of None \<Rightarrow> 0 | Some g \<Rightarrow> unat g mod statShardCount)"

definition max_s :: "go_int64 \<Rightarrow> go_int64 \<Rightarrow> go_int64" where
  "max_s a b = (if sint a \<le> sint b then b else a)"

definition combine :: "statCounter \<Rightarrow> go_int64 \<Rightarrow> go_int64 \<Rightarrow> go_int64" where
  "combine k a v = (if k = statMaxResponseTime then max_s a v else a + v)"

definition bump :: "nat \<Rightarrow> statCounter \<Rightarrow> go_int64 \<Rightarrow> statShard list \<Rightarrow> statShard list" where
  "bump i k v shards = shards[i := (shards ! i)(k := combine k ((shards ! i) k) v)]"

definition incr :: "go_int64 option \<Rightarrow> statCounter \<Rightarrow> statShard list \<Rightarrow> statShard list" where
  "incr gid k shards = bump (stat_shard gid) k 1 shards"

definition collectResponseTime :: "go_int64 option \<Rightarrow> go_int64 \<Rightarrow> statShard list \<Rightarrow> statShard list" where
  "collectResponseTime gid resTime shards =
     bump (stat_shard gid) statMaxResponseTime resTime
       (bump (stat_shard gid) statRequestCount 1
          (bump (stat_shard gid) statAccResponseTime resTime shards))"

definition stats_reset :: "statShard list \<Rightarrow> statShard list" where
  "stats_reset shards = map (\<lambda>_ _. 0) shards"

text \<open>One swap of the sweep, and the sweep over every shard and counter.\<close>

definition drain_one ::
  "nat \<times> statCounter \<Rightarrow> statsCounterSnapshot \<times> statShard list \<Rightarrow> statsCounterSnapshot \<times> statShard list" where
  "drain_one ik st =
     (case (ik, st) of ((i, k), (c, shards)) \<Rightarrow>
        (c(k := combine k (c k) ((shards ! i) k)), shards[i := (shards ! i)(k := 0)]))"

definition sweep_order :: "nat \<Rightarrow> (nat \<times> statCounter) list" where
  "sweep_order n = concat (map (\<lambda>i. map (Pair i) statCounters) [0..<n])"

definition drainCounters :: "statShard list \<Rightarrow> statsCounterSnapshot \<times> statShard list" where
  "drainCounters shards = fold drain_one (sweep_order (length shards)) (\<lambda>_. 0, shards)"

text \<open>Go's integer division truncates towards zero.\<close>

definition calcResponseAvg :: "int \<Rightarrow> int \<Rightarrow> int" where
  "calcResponseAvg acc reqs = (if reqs > 0 then sgn acc * (\<bar>acc\<bar> div reqs) else 0)"

section \<open>The sweep with nobody else running\<close>

definition resident :: "statShard list \<Rightarrow> statCounter \<Rightarrow> go_int64" where
  "resident shards k = sum_list (map (\<lambda>s. s k) shards)"

lemma length_bump [simp]: "length (bump i k v shards) = length shards"
  by (simp add: bump_def)

lemma resident_update:
  "i < length shards \<Longrightarrow> resident (shards[i := sh]) k = resident shards k - (shards ! i) k + sh k"
  by (simp add: resident_def sum_list_map_update)

lemma resident_bump:
  assumes "i < length shards" "k \<noteq> statMaxResponseTime"
  shows "resident (bump i k' v shards) k = resident shards k + (if k' = k then v else 0)"
  using assms by (simp add: bump_def resident_update combine_def)

lemma sweep_order_bound: "(i, k) \<in> set (sweep_order n) \<Longrightarrow> i < n"
  by (auto simp: sweep_order_def)

lemma drain_one_length: "length (snd (drain_one ik st)) = length (snd st)"
  by (simp add: drain_one_def split: prod.splits)

lemma fold_drain_length: "length (snd (fold drain_one iks st)) = length (snd st)"
  by (induction iks arbitrary: st) (auto simp: drain_one_length)

lemma drain_one_zero:
  assumes "j < length (snd st)" "(snd st ! j) k = 0"
  shows "(snd (drain_one ik st) ! j) k = 0"
  using assms by (cases "j = fst ik") (auto simp: drain_one_def split: prod.splits)

lemma fold_drain_zero:
  assumes "j < length (snd st)" "(j, k) \<in> set iks \<or> (snd st ! j) k = 0"
  shows "(snd (fold drain_one iks st) ! j) k = 0"
  using assms
proof (induction iks arbitrary: st)
  case (Cons ik iks)
  have "(j, k) \<in> set iks \<or> (snd (drain_one ik st) ! j) k = 0"
    using Cons.prems drain_one_zero [of j st k ik]
    by (cases st) (auto simp: drain_one_def split: prod.splits)
  with Cons.IH [of "drain_one ik st"] Cons.prems show ?case by (simp add: drain_one_length)
qed simp

lemma fold_drain_sum:
  assumes "\<forall>(i, k') \<in> set iks. i < length (snd st)" "k \<noteq> statMaxResponseTime"
  shows "fst (fold drain_one iks st) k + resident (snd (fold drain_one iks st)) k = fst st k + resident (snd st) k"
  using assms
proof (induction iks arbitrary: st)
  case (Cons ik iks)
  obtain i k' c shards where eq: "ik = (i, k')" "st = (c, shards)" by (cases ik; cases st)
  with Cons.prems have "i < length shards" by auto
  then have "fst (drain_one ik st) k + resident (snd (drain_one ik st)) k = fst st k + resident (snd st) k"
    using Cons.prems(2) eq by (auto simp: drain_one_def resident_update combine_def)
  with Cons.IH [of "drain_one ik st"] Cons.prems show ?case by (simp add: drain_one_length)
qed simp

lemma statCounters_all: "k \<in> set statCounters"
  by (cases k) (auto simp: statCounters_def)

lemma sweep_order_all: "i < n \<Longrightarrow> (i, k) \<in> set (sweep_order n)"
  by (simp add: sweep_order_def image_iff statCounters_all)

lemma drainCounters_clears: "snd (drainCounters shards) = replicate (length shards) (\<lambda>_. 0)"
proof (rule nth_equalityI)
  show "length (snd (drainCounters shards)) = length (replicate (length shards) (\<lambda>_. 0))"
    by (simp add: drainCounters_def fold_drain_length)
  fix j assume "j < length (snd (drainCounters shards))"
  then have "j < length shards" by (simp add: drainCounters_def fold_drain_length)
  then have "(snd (drainCounters shards) ! j) k = 0" for k
    unfolding drainCounters_def by (intro fold_drain_zero) (simp_all add: sweep_order_all)
  with \<open>j < length shards\<close> show "snd (drainCounters shards) ! j = replicate (length shards) (\<lambda>_. 0) ! j"
    by auto
qed

lemma resident_zero [simp]: "resident (replicate n (\<lambda>_. 0)) k = 0"
  by (simp add: resident_def sum_list_replicate)

lemma drainCounters_sums: "k \<noteq> statMaxResponseTime \<Longrightarrow> fst (drainCounters shards) k = resident shards k"
  using fold_drain_sum [of "sweep_order (length shards)" "(\<lambda>_. 0, shards)" k] drainCounters_clears [of shards]
  by (auto simp: drainCounters_def dest: sweep_order_bound)

lemma stat_shard_bound: "stat_shard gid < statShardCount"
  by (simp add: stat_shard_def statShardCount_def split: option.splits)

section \<open>The registry of active spans\<close>

definition activeSpanShardCount :: nat where "activeSpanShardCount = 32"
definition activeSpanMaxSize :: nat where "activeSpanMaxSize = 10240"
definition activeSpanShardMaxSize :: nat where
  "activeSpanShardMaxSize = activeSpanMaxSize div activeSpanShardCount"

text \<open>A shard is a map from keys to start times, as an association list with one entry for a key.\<close>

type_synonym activeSpanShard = "(go_int64 \<times> time) list"

record activeSpanRegistry =
  span_shards :: "activeSpanShard list"
  evicted :: nat

definition activeSpan_init :: activeSpanRegistry where
  "activeSpan_init = \<lparr>span_shards = replicate activeSpanShardCount [], evicted = 0\<rparr>"

definition span_shard :: "go_int64 \<Rightarrow> nat" where
  "span_shard key = unat key mod activeSpanShardCount"

text \<open>The entry Go's map iteration meets first is arbitrary: \<open>victim\<close> picks it by position.\<close>

definition activeSpan_store ::
  "(activeSpanShard \<Rightarrow> nat) \<Rightarrow> go_int64 \<Rightarrow> time \<Rightarrow> activeSpanRegistry \<Rightarrow> activeSpanRegistry" where
  "activeSpan_store victim key startTime r =
     (let i = span_shard key; m = span_shards r ! i;
          full = (map_of m key = None \<and> length m \<ge> activeSpanShardMaxSize);
          m' = (if full then AList.delete (fst (m ! (victim m mod length m))) m else m)
      in r\<lparr>span_shards := (span_shards r)[i := AList.update key startTime m'],
           evicted := evicted r + (if full then 1 else 0)\<rparr>)"

definition activeSpan_remove :: "go_int64 \<Rightarrow> activeSpanRegistry \<Rightarrow> activeSpanRegistry" where
  "activeSpan_remove key r =
     (let i = span_shard key in r\<lparr>span_shards := (span_shards r)[i := AList.delete key (span_shards r ! i)]\<rparr>)"

definition activeSpan_size :: "activeSpanRegistry \<Rightarrow> nat" where
  "activeSpan_size r = sum_list (map length (span_shards r))"

definition activeSpan_lookup :: "activeSpanRegistry \<Rightarrow> go_int64 \<Rightarrow> time option" where
  "activeSpan_lookup r key = map_of (span_shards r ! span_shard key) key"

text \<open>Times are nanoseconds; \<open>Milliseconds\<close> truncates towards zero.\<close>

definition Milliseconds :: "duration \<Rightarrow> int" where
  "Milliseconds d = sgn d * (\<bar>d\<bar> div 1000000)"

definition active_bucket :: "time \<Rightarrow> time \<Rightarrow> nat" where
  "active_bucket now startTime =
     (let d = Milliseconds (now - startTime)
      in if d \<le> 1000 then 0 else if d \<le> 3000 then 1 else if d \<le> 5000 then 2 else 3)"

definition bucketActiveSpan :: "nat list \<Rightarrow> time \<Rightarrow> time \<Rightarrow> nat list" where
  "bucketActiveSpan counts now startTime =
     (let b = active_bucket now startTime in counts[b := counts ! b + 1])"

definition activeSpan_count :: "time \<Rightarrow> activeSpanRegistry \<Rightarrow> nat list" where
  "activeSpan_count now r =
     fold (\<lambda>m counts. fold (\<lambda>(_, t) counts. bucketActiveSpan counts now t) m counts) (span_shards r) [0, 0, 0, 0]"

definition registry_inv :: "activeSpanRegistry \<Rightarrow> bool" where
  "registry_inv r \<longleftrightarrow>
     length (span_shards r) = activeSpanShardCount
     \<and> (\<forall>i < activeSpanShardCount. let m = span_shards r ! i in
          distinct (map fst m) \<and> length m \<le> activeSpanShardMaxSize \<and> (\<forall>key \<in> fst ` set m. span_shard key = i))"

lemma shard_const: "activeSpanShardCount = 32" "activeSpanShardMaxSize = 320"
  by (simp_all add: activeSpanShardCount_def activeSpanShardMaxSize_def activeSpanMaxSize_def)

lemma span_shard_bound: "span_shard key < activeSpanShardCount"
  by (simp add: span_shard_def activeSpanShardCount_def)

lemma registry_init_inv: "registry_inv activeSpan_init"
  by (simp add: registry_inv_def activeSpan_init_def)

lemma length_update:
  "length (AList.update k v m) = (if map_of m k = None then Suc (length m) else length m)"
  by (induction m) auto

lemma length_delete_victim:
  assumes "j < length m"
  shows "Suc (length (AList.delete (fst (m ! j)) m)) \<le> length m"
proof -
  have "length (filter (\<lambda>(k', _). fst (m ! j) \<noteq> k') m) < length m"
    using assms by (intro length_filter_less [of "m ! j"]) (auto simp: case_prod_beta)
  then show ?thesis by (simp add: AList.delete_eq)
qed

definition shard_ok :: "nat \<Rightarrow> activeSpanShard \<Rightarrow> bool" where
  "shard_ok i m \<longleftrightarrow>
     distinct (map fst m) \<and> length m \<le> activeSpanShardMaxSize \<and> (\<forall>key \<in> fst ` set m. span_shard key = i)"

lemma registry_inv_shards:
  "registry_inv r \<longleftrightarrow>
     length (span_shards r) = activeSpanShardCount \<and> (\<forall>i < activeSpanShardCount. shard_ok i (span_shards r ! i))"
  by (auto simp: registry_inv_def shard_ok_def Let_def)

lemma shard_ok_delete: "shard_ok i m \<Longrightarrow> shard_ok i (AList.delete key m)"
  using order_trans [OF length_delete_le [of key m]] distinct_delete [of m key] dom_delete_subset [of key m]
  unfolding shard_ok_def by blast

lemma shard_ok_update:
  assumes "shard_ok i m" "span_shard key = i" "map_of m key = None \<Longrightarrow> length m < activeSpanShardMaxSize"
  shows "shard_ok i (AList.update key t m)"
  using assms by (auto simp: shard_ok_def length_update distinct_update dom_update)

lemma registry_set_shard:
  assumes "registry_inv r" "shard_ok i m"
  shows "registry_inv (r\<lparr>span_shards := (span_shards r)[i := m], evicted := e\<rparr>)"
    "registry_inv (r\<lparr>span_shards := (span_shards r)[i := m]\<rparr>)"
proof -
  have "shard_ok j ((span_shards r)[i := m] ! j)" if "j < activeSpanShardCount" for j
    using assms that by (cases "j = i") (auto simp: registry_inv_shards)
  with assms(1) show "registry_inv (r\<lparr>span_shards := (span_shards r)[i := m], evicted := e\<rparr>)"
      "registry_inv (r\<lparr>span_shards := (span_shards r)[i := m]\<rparr>)"
    by (auto simp: registry_inv_shards)
qed

lemma activeSpan_store_inv:
  assumes "registry_inv r"
  shows "registry_inv (activeSpan_store victim key t r)"
proof -
  define m where "m = span_shards r ! span_shard key"
  define m' where "m' = (if map_of m key = None \<and> length m \<ge> activeSpanShardMaxSize
    then AList.delete (fst (m ! (victim m mod length m))) m else m)"
  have m: "shard_ok (span_shard key) m"
    using assms by (simp add: registry_inv_shards m_def span_shard_bound)
  then have m': "shard_ok (span_shard key) m'" by (simp add: m'_def shard_ok_delete)
  have "map_of m' key = None \<Longrightarrow> length m' < activeSpanShardMaxSize"
  proof (cases "map_of m key = None \<and> length m \<ge> activeSpanShardMaxSize")
    case True
    then have "0 < length m" by (auto simp: shard_const)
    then have "victim m mod length m < length m" by simp
    with m True length_delete_victim [of "victim m mod length m" m] show ?thesis
      by (simp add: m'_def shard_ok_def)
  next
    case False
    then show "map_of m' key = None \<Longrightarrow> length m' < activeSpanShardMaxSize" by (auto simp: m'_def)
  qed
  with m' have "shard_ok (span_shard key) (AList.update key t m')" by (intro shard_ok_update) auto
  then show ?thesis
    unfolding activeSpan_store_def Let_def m_def [symmetric] m'_def [symmetric]
    by (rule registry_set_shard(1) [OF assms])
qed

lemma activeSpan_remove_inv: "registry_inv r \<Longrightarrow> registry_inv (activeSpan_remove key r)"
  unfolding activeSpan_remove_def Let_def
  by (rule registry_set_shard(2)) (simp_all add: registry_inv_shards shard_ok_delete span_shard_bound)

lemma lookup_remove:
  assumes "registry_inv r"
  shows "activeSpan_lookup (activeSpan_remove key r) = (activeSpan_lookup r)(key := None)"
proof
  fix x
  have len: "span_shard y < length (span_shards r)" for y
    using assms by (simp add: registry_inv_shards span_shard_bound)
  show "activeSpan_lookup (activeSpan_remove key r) x = ((activeSpan_lookup r)(key := None)) x"
    using len by (cases "span_shard x = span_shard key")
      (auto simp: activeSpan_lookup_def activeSpan_remove_def Let_def delete_conv')
qed

lemma lookup_store:
  assumes "registry_inv r"
  shows "activeSpan_lookup (activeSpan_store victim key t r) \<subseteq>\<^sub>m (activeSpan_lookup r)(key \<mapsto> t)"
    and "activeSpan_lookup (activeSpan_store victim key t r) key = Some t"
    and "evicted (activeSpan_store victim key t r) = evicted r \<Longrightarrow>
      activeSpan_lookup (activeSpan_store victim key t r) = (activeSpan_lookup r)(key \<mapsto> t)"
proof -
  have len: "span_shard y < length (span_shards r)" for y
    using assms by (simp add: registry_inv_shards span_shard_bound)
  show "activeSpan_lookup (activeSpan_store victim key t r) \<subseteq>\<^sub>m (activeSpan_lookup r)(key \<mapsto> t)"
    unfolding map_le_def
  proof
    fix x assume "x \<in> dom (activeSpan_lookup (activeSpan_store victim key t r))"
    then show "activeSpan_lookup (activeSpan_store victim key t r) x = ((activeSpan_lookup r)(key \<mapsto> t)) x"
      using len by (cases "span_shard x = span_shard key")
        (auto simp: activeSpan_lookup_def activeSpan_store_def Let_def update_conv' delete_conv' split: if_splits)
  qed
  show "activeSpan_lookup (activeSpan_store victim key t r) key = Some t"
    using len by (simp add: activeSpan_lookup_def activeSpan_store_def Let_def update_conv')
  assume "evicted (activeSpan_store victim key t r) = evicted r"
  then have "\<not> (map_of (span_shards r ! span_shard key) key = None
      \<and> length (span_shards r ! span_shard key) \<ge> activeSpanShardMaxSize)"
    by (simp add: activeSpan_store_def Let_def split: if_splits)
  then show "activeSpan_lookup (activeSpan_store victim key t r) = (activeSpan_lookup r)(key \<mapsto> t)"
    using len by (auto simp: fun_eq_iff activeSpan_lookup_def activeSpan_store_def Let_def update_conv' nth_list_update)
qed

lemma activeSpan_size_bound:
  assumes "registry_inv r"
  shows "activeSpan_size r \<le> activeSpanMaxSize"
proof -
  have "sum_list (map length (span_shards r)) \<le> sum_list (map (\<lambda>_. activeSpanShardMaxSize) (span_shards r))"
    using assms by (intro sum_list_mono) (auto simp: registry_inv_shards shard_ok_def in_set_conv_nth)
  with assms show ?thesis
    by (simp add: activeSpan_size_def registry_inv_shards sum_list_triv shard_const activeSpanMaxSize_def)
qed

lemma bucketActiveSpan_sum:
  assumes "length counts = 4"
  shows "length (bucketActiveSpan counts now t) = 4 \<and> sum_list (bucketActiveSpan counts now t) = sum_list counts + 1"
proof -
  have "active_bucket now t < 4" by (simp add: active_bucket_def Let_def)
  with assms have "sum_list (bucketActiveSpan counts now t) + counts ! active_bucket now t
      = sum_list counts + (counts ! active_bucket now t + 1)"
    using sum_list_map_update_add [of "active_bucket now t" counts "\<lambda>x. x" "counts ! active_bucket now t + 1"]
    by (simp add: bucketActiveSpan_def Let_def)
  with assms show ?thesis by (simp add: bucketActiveSpan_def Let_def)
qed

lemma fold_bucket_sum:
  assumes "length counts = 4"
  shows "length (fold (\<lambda>(_, t) counts. bucketActiveSpan counts now t) m counts) = 4
    \<and> sum_list (fold (\<lambda>(_, t) counts. bucketActiveSpan counts now t) m counts) = sum_list counts + length m"
  using assms
proof (induction m arbitrary: counts)
  case (Cons e m)
  with Cons.IH [of "bucketActiveSpan counts now (snd e)"] bucketActiveSpan_sum [of counts now "snd e"] show ?case
    by (simp add: case_prod_beta)
qed simp

lemma fold_shards_sum:
  assumes "length counts = 4"
  shows "sum_list (fold (\<lambda>m counts. fold (\<lambda>(_, t) counts. bucketActiveSpan counts now t) m counts) ms counts)
    = sum_list counts + sum_list (map length ms)"
  using assms
proof (induction ms arbitrary: counts)
  case (Cons m ms)
  with Cons.IH [of "fold (\<lambda>(_, t) counts. bucketActiveSpan counts now t) m counts"] fold_bucket_sum [of counts now m]
  show ?case by simp
qed simp

text \<open>The registry against the map of the spans begun and not ended.\<close>

datatype registry_op = Begin_span go_int64 time | End_span go_int64

fun registry_do :: "(activeSpanShard \<Rightarrow> nat) \<Rightarrow> registry_op \<Rightarrow> activeSpanRegistry \<Rightarrow> activeSpanRegistry" where
  "registry_do victim (Begin_span key t) r = activeSpan_store victim key t r"
| "registry_do victim (End_span key) r = activeSpan_remove key r"

fun open_spans_do :: "registry_op \<Rightarrow> (go_int64 \<rightharpoonup> time) \<Rightarrow> (go_int64 \<rightharpoonup> time)" where
  "open_spans_do (Begin_span key t) m = m(key \<mapsto> t)"
| "open_spans_do (End_span key) m = m(key := None)"

lemma evicted_mono: "evicted r \<le> evicted (registry_do victim op r)"
  by (cases op) (auto simp: activeSpan_store_def activeSpan_remove_def Let_def)

lemma registry_do_refines:
  assumes "registry_inv r" "activeSpan_lookup r \<subseteq>\<^sub>m m"
  shows "registry_inv (registry_do victim op r)
    \<and> activeSpan_lookup (registry_do victim op r) \<subseteq>\<^sub>m open_spans_do op m
    \<and> (evicted (registry_do victim op r) = evicted r \<and> activeSpan_lookup r = m
         \<longrightarrow> activeSpan_lookup (registry_do victim op r) = open_spans_do op m)"
proof (cases op)
  case (Begin_span key t)
  have "(activeSpan_lookup r)(key \<mapsto> t) \<subseteq>\<^sub>m m(key \<mapsto> t)" using assms(2) by (simp add: map_le_def)
  with lookup_store(1) [OF assms(1), of victim key t] have
      "activeSpan_lookup (activeSpan_store victim key t r) \<subseteq>\<^sub>m m(key \<mapsto> t)"
    by (rule map_le_trans)
  with Begin_span lookup_store(3) [OF assms(1), of victim key t] activeSpan_store_inv [OF assms(1)] show ?thesis
    by auto
next
  case (End_span key)
  with assms activeSpan_remove_inv [OF assms(1)] lookup_remove [OF assms(1), of key] show ?thesis
    by (auto simp: map_le_def)
qed

lemma registry_run_refines:
  assumes "registry_inv r" "activeSpan_lookup r \<subseteq>\<^sub>m m" "evicted r = 0 \<longrightarrow> activeSpan_lookup r = m"
  shows "registry_inv (fold (registry_do victim) ops r)
    \<and> activeSpan_lookup (fold (registry_do victim) ops r) \<subseteq>\<^sub>m fold open_spans_do ops m
    \<and> (evicted (fold (registry_do victim) ops r) = 0
         \<longrightarrow> activeSpan_lookup (fold (registry_do victim) ops r) = fold open_spans_do ops m)"
  using assms
proof (induction ops arbitrary: r m)
  case (Cons op ops)
  have step: "registry_inv (registry_do victim op r)"
      "activeSpan_lookup (registry_do victim op r) \<subseteq>\<^sub>m open_spans_do op m"
      "evicted (registry_do victim op r) = 0 \<longrightarrow> activeSpan_lookup (registry_do victim op r) = open_spans_do op m"
    using registry_do_refines [OF Cons.prems(1,2), of victim op] Cons.prems(3) evicted_mono [of r victim op] by auto
  from Cons.IH [OF step] show ?case by simp
qed simp

section \<open>Batches of the stat worker\<close>

record 's stat_worker =
  collected :: "'s list"
  batch :: nat
  workerStarted :: bool
  sent_batches :: "'s list list"

text \<open>
  \<open>worker_start\<close> is a (re)start of \<open>collectAgentStatWorker\<close> up to its loop, \<open>worker_tick\<close> one tick, with \<open>None\<close> for a
  collection that panicked. An unused slot of \<open>collected\<close> holds Go's nil, \<open>nil\<close>.
\<close>

definition worker_start :: "'s \<Rightarrow> nat \<Rightarrow> 's stat_worker \<Rightarrow> 's stat_worker" where
  "worker_start nil n w =
     (let w = (if workerStarted w then w else w\<lparr>workerStarted := True, batch := 0\<rparr>)
      in if length (collected w) \<noteq> n then w\<lparr>collected := replicate n nil, batch := 0\<rparr> else w)"

definition worker_tick :: "nat \<Rightarrow> 's option \<Rightarrow> 's stat_worker \<Rightarrow> 's stat_worker" where
  "worker_tick n snapshot w =
     (let w = (case snapshot of None \<Rightarrow> w
               | Some x \<Rightarrow> w\<lparr>collected := (collected w)[batch w := x], batch := batch w + 1\<rparr>)
      in if batch w = n then w\<lparr>batch := 0, sent_batches := sent_batches w @ [collected w]\<rparr> else w)"

datatype 's worker_op = Restart | Tick "'s option"

fun worker_do :: "'s \<Rightarrow> nat \<Rightarrow> 's worker_op \<Rightarrow> 's stat_worker \<Rightarrow> 's stat_worker" where
  "worker_do nil n Restart w = worker_start nil n w"
| "worker_do nil n (Tick x) w = worker_tick n x w"

fun samples :: "'s worker_op list \<Rightarrow> 's list" where
  "samples [] = []"
| "samples (Tick (Some x) # ops) = x # samples ops"
| "samples (_ # ops) = samples ops"

definition worker_inv :: "nat \<Rightarrow> 's list \<Rightarrow> 's stat_worker \<Rightarrow> bool" where
  "worker_inv n xs w \<longleftrightarrow>
     workerStarted w \<and> length (collected w) = n \<and> batch w < n
     \<and> concat (sent_batches w) @ take (batch w) (collected w) = xs
     \<and> (\<forall>b \<in> set (sent_batches w). length b = n)"

lemma worker_start_inv: "worker_inv n xs w \<Longrightarrow> worker_inv n xs (worker_start nil n w)"
  by (simp add: worker_inv_def worker_start_def Let_def)

lemma worker_tick_inv:
  assumes "worker_inv n xs w"
  shows "worker_inv n (xs @ (case x of None \<Rightarrow> [] | Some s \<Rightarrow> [s])) (worker_tick n x w)"
proof (cases x)
  case (Some s)
  from assms have b: "batch w < length (collected w)" by (simp add: worker_inv_def)
  have "take (Suc (batch w)) ((collected w)[batch w := s]) = take (batch w) (collected w) @ [s]"
    using b by (simp add: take_Suc_conv_app_nth)
  then show ?thesis
    using assms Some by (auto simp: worker_inv_def worker_tick_def Let_def)
qed (use assms in \<open>auto simp: worker_inv_def worker_tick_def\<close>)

lemma worker_run_inv:
  "worker_inv n xs w \<Longrightarrow> worker_inv n (xs @ samples ops) (fold (worker_do nil n) ops w)"
proof (induction ops arbitrary: xs w)
  case (Cons op ops)
  show ?case
  proof (cases op)
    case Restart
    with Cons.IH [OF worker_start_inv [OF Cons.prems]] show ?thesis by simp
  next
    case (Tick x)
    with Cons.IH [OF worker_tick_inv [OF Cons.prems, of x]] show ?thesis by (cases x) auto
  qed
qed simp

section \<open>Properties\<close>

text \<open>
  A sweep with no request running reports, for every summed counter, the sum over the shards, and leaves every
  counter of every shard at zero; an increment before it shows in it.
\<close>

theorem drainCounters_reports:
  assumes "length shards = statShardCount" "k \<noteq> statMaxResponseTime"
  shows "fst (drainCounters (incr gid k shards)) k = fst (drainCounters shards) k + 1
    \<and> fst (drainCounters shards) k = sum_list (map (\<lambda>s. s k) shards)
    \<and> snd (drainCounters shards) = replicate statShardCount (\<lambda>_. 0)"
  using assms stat_shard_bound [of gid]
  by (simp add: drainCounters_sums drainCounters_clears incr_def resident_bump) (simp add: resident_def)

theorem drainCounters_reports_witness:
  "fst (drainCounters (incr (Some 5) statSkipNew (replicate statShardCount (\<lambda>_. 0)))) statSkipNew = 1"
  using drainCounters_reports [of "replicate statShardCount (\<lambda>_. 0)" statSkipNew "Some 5"]
  by (simp add: sum_list_replicate)

text \<open>
  (C39) The active span registry against the map of spans begun and not ended, over any sequence of \<open>store\<close> and
  \<open>remove\<close> and whatever entry an overflow evicts: it never holds a span that has ended or a wrong start time, it holds
  every open span as long as nothing was evicted, it never grows beyond \<open>activeSpanMaxSize\<close>, and the histogram counts
  each registered span once.
\<close>

theorem registry_refines_open_spans:
  "let r = fold (registry_do victim) ops activeSpan_init; m = fold open_spans_do ops Map.empty in
   activeSpan_lookup r \<subseteq>\<^sub>m m \<and> (evicted r = 0 \<longrightarrow> activeSpan_lookup r = m)
   \<and> activeSpan_size r \<le> activeSpanMaxSize \<and> sum_list (activeSpan_count now r) = activeSpan_size r"
proof -
  have "activeSpan_lookup activeSpan_init = Map.empty"
    by (auto simp: activeSpan_lookup_def activeSpan_init_def span_shard_bound)
  then have run: "registry_inv (fold (registry_do victim) ops activeSpan_init)
      \<and> activeSpan_lookup (fold (registry_do victim) ops activeSpan_init) \<subseteq>\<^sub>m fold open_spans_do ops Map.empty
      \<and> (evicted (fold (registry_do victim) ops activeSpan_init) = 0
           \<longrightarrow> activeSpan_lookup (fold (registry_do victim) ops activeSpan_init) = fold open_spans_do ops Map.empty)"
    by (intro registry_run_refines registry_init_inv) simp_all
  then show ?thesis
    using activeSpan_size_bound fold_shards_sum [of "[0, 0, 0, 0]"]
    by (auto simp: Let_def activeSpan_count_def activeSpan_size_def)
qed

theorem registry_refines_open_spans_witness:
  "activeSpan_lookup (fold (registry_do (\<lambda>_. 0)) [Begin_span 7 5, Begin_span 8 6, End_span 7] activeSpan_init)
    = Map.empty(8 \<mapsto> 6)"
proof -
  have "evicted (fold (registry_do (\<lambda>_. 0)) [Begin_span 7 5, Begin_span 8 6, End_span 7] activeSpan_init) = 0"
    by (simp add: activeSpan_store_def activeSpan_remove_def activeSpan_init_def span_shard_def shard_const Let_def)
  with registry_refines_open_spans [of "\<lambda>_. 0" "[Begin_span 7 5, Begin_span 8 6, End_span 7]"] show ?thesis
    by (auto simp: Let_def)
qed

text \<open>
  The stat worker sends every snapshot it collected, once and in order, in batches of exactly the configured size:
  what was sent followed by the partial batch is what was collected since the first start, over any sequence of ticks,
  failed collections and restarts by the supervisor, and the cursor always points inside the batch.
\<close>

theorem stat_batches_complete:
  fixes nil :: 's and ops :: "'s worker_op list"
  assumes "0 < n" "\<not> workerStarted w" "sent_batches w = []"
  defines "w' \<equiv> fold (worker_do nil n) ops (worker_start nil n w)"
  shows "concat (sent_batches w') @ take (batch w') (collected w') = samples ops
    \<and> batch w' < length (collected w') \<and> (\<forall>b \<in> set (sent_batches w'). length b = n)"
proof -
  have "worker_inv n [] (worker_start nil n w)"
    using assms(1-3) by (simp add: worker_inv_def worker_start_def Let_def)
  from worker_run_inv [OF this, of ops nil] show ?thesis
    by (simp add: worker_inv_def w'_def)
qed

theorem stat_batches_complete_witness:
  "sent_batches (fold (worker_do 0 2) [Tick (Some 1), Tick None, Restart, Tick (Some 2), Tick (Some (3::nat))]
     (worker_start 0 2 \<lparr>collected = [], batch = 0, workerStarted = False, sent_batches = []\<rparr>)) = [[1, 2]]
   \<and> concat (sent_batches (fold (worker_do 0 2) [Tick (Some (1::nat))]
       (worker_start 0 2 \<lparr>collected = [], batch = 0, workerStarted = False, sent_batches = []\<rparr>)))
     @ [1] = [1]"
  using stat_batches_complete [of 2 "\<lparr>collected = [], batch = 0, workerStarted = False, sent_batches = []\<rparr>" 0
      "[Tick (Some (1::nat))]"]
  by (simp add: worker_start_def worker_tick_def numeral_2_eq_2)

end
