(* ===== verification/Sampler.thy ===== *)
theory Sampler
  imports Stats
begin

text \<open>
  The sampling decision (\<^verbatim>\<open>src/sampler.go\<close>): the counting and the percent sampler with their uint64 counters, and the
  trace sampler that puts a throughput limiter behind them and counts the outcome. The limiter is the
  \<open>golang.org/x/time/rate\<close> package: its answer to \<open>Allow\<close> is an argument, \<open>None\<close> for an unlimited throughput. The
  rounding of a configured percentage in float64 (\<open>newPercentSampler\<close>) is not modelled: a percent sampler here starts
  from its rate in hundredths of a percent.
\<close>

section \<open>The samplers\<close>

definition samplingMaxPercentRate :: go_uint64 where "samplingMaxPercentRate = 10000"

record rateSampler =
  rs_rate :: go_uint64
  rs_counter :: go_uint64

definition newRateSampler :: "int \<Rightarrow> rateSampler" where
  "newRateSampler r = \<lparr>rs_rate = word_of_int (if r < 0 then 0 else r), rs_counter = 0\<rparr>"

definition rateSampler_isSampled :: "rateSampler \<Rightarrow> bool \<times> rateSampler" where
  "rateSampler_isSampled s =
     (if rs_rate s = 0 then (False, s)
      else if rs_rate s = 1 then (True, s)
      else let c = rs_counter s + 1; samplingCount = c - 1
           in (samplingCount mod rs_rate s = 0, s\<lparr>rs_counter := c\<rparr>))"

record percentSampler =
  ps_rate :: go_uint64
  ps_counter :: go_uint64

definition percentSampler_isSampled :: "percentSampler \<Rightarrow> bool \<times> percentSampler" where
  "percentSampler_isSampled s =
     (if ps_rate s = 0 then (False, s)
      else if ps_rate s \<ge> samplingMaxPercentRate then (True, s)
      else let samplingCount = ps_counter s + ps_rate s; r = samplingCount mod samplingMaxPercentRate
           in (r > 0 \<and> r \<le> ps_rate s, s\<lparr>ps_counter := samplingCount\<rparr>))"

datatype sampler = RateSampler rateSampler | PercentSampler percentSampler

fun isSampled :: "sampler \<Rightarrow> bool \<times> sampler" where
  "isSampled (RateSampler s) = map_prod id RateSampler (rateSampler_isSampled s)"
| "isSampled (PercentSampler s) = map_prod id PercentSampler (percentSampler_isSampled s)"

section \<open>The trace sampler\<close>

text \<open>
  \<open>allow\<close> is the limiter's answer, consulted only for a request the base sampler took; the outcome is counted on the
  caller's shard.
\<close>

definition isNewSampled ::
  "go_int64 option \<Rightarrow> bool option \<Rightarrow> sampler \<times> statShard list \<Rightarrow> bool \<times> sampler \<times> statShard list" where
  "isNewSampled gid allow st =
     (case isSampled (fst st) of (ok, base) \<Rightarrow>
        if \<not> ok then (False, base, incr gid statUnSampleNew (snd st))
        else if allow = Some False then (False, base, incr gid statSkipNew (snd st))
        else (True, base, incr gid statSampleNew (snd st)))"

definition isContinueSampled ::
  "go_int64 option \<Rightarrow> bool option \<Rightarrow> sampler \<times> statShard list \<Rightarrow> bool \<times> sampler \<times> statShard list" where
  "isContinueSampled gid allow st =
     (if allow = Some False then (False, fst st, incr gid statSkipCont (snd st))
      else (True, fst st, incr gid statSampleCont (snd st)))"

section \<open>How many requests are sampled\<close>

fun hits :: "('s \<Rightarrow> bool \<times> 's) \<Rightarrow> nat \<Rightarrow> 's \<Rightarrow> nat" where
  "hits step 0 s = 0"
| "hits step (Suc n) s = (case step s of (ok, s') \<Rightarrow> (if ok then 1 else 0) + hits step n s')"

text \<open>The share of \<open>k\<close> requests at \<open>p\<close> in \<open>q\<close>, rounded up: the first request counts.\<close>

definition quota :: "nat \<Rightarrow> nat \<Rightarrow> nat \<Rightarrow> nat" where
  "quota p q k = (k * p + (q - 1)) div q"

lemma quota_eqI:
  assumes "k * p + (q - 1) = a * q + y" "y < q"
  shows "quota p q k = a"
  using assms by (simp add: quota_def)

lemma quota_step:
  assumes "p < q"
  shows "quota p q (Suc k) = quota p q k + (if 0 < (Suc k * p) mod q \<and> (Suc k * p) mod q \<le> p then 1 else 0)"
proof -
  define a r where "a = (Suc k * p) div q" and "r = (Suc k * p) mod q"
  have sum: "Suc k * p = a * q + r" unfolding a_def r_def by simp
  have r: "r < q" using assms by (simp add: r_def)
  consider (zero) "r = 0" | (window) "0 < r" "r \<le> p" | (above) "p < r" by linarith
  then show ?thesis
  proof cases
    case zero
    have "quota p q (Suc k) = a" by (rule quota_eqI [where y = "q - 1"]) (use sum zero assms in auto)
    moreover have "quota p q k = a"
      by (rule quota_eqI [where y = "q - 1 - p"]) (use sum zero assms in auto)
    ultimately show ?thesis using zero r_def by simp
  next
    case window
    have "quota p q (Suc k) = Suc a" by (rule quota_eqI [where y = "r - 1"]) (use sum window r in auto)
    moreover have "quota p q k = a"
      by (rule quota_eqI [where y = "r + (q - 1) - p"]) (use sum window assms in auto)
    ultimately show ?thesis using window r_def by simp
  next
    case above
    have "quota p q (Suc k) = Suc a" by (rule quota_eqI [where y = "r - 1"]) (use sum above r in auto)
    moreover have "quota p q k = Suc a" by (rule quota_eqI [where y = "r - p - 1"]) (use sum above r in auto)
    ultimately show ?thesis using above r_def by simp
  qed
qed

text \<open>
  What the two counting samplers have in common: a position that one call moves on by one, and a hit exactly where the
  share of the position grows. The counter has room for \<open>n\<close> more calls while it does not wrap.
\<close>

locale proportional_sampler =
  fixes step :: "'s \<Rightarrow> bool \<times> 's"
    and active :: "'s \<Rightarrow> bool"
    and num den pos :: "'s \<Rightarrow> nat"
  assumes share: "active s \<Longrightarrow> num s < den s"
    and step_hit: "active s \<Longrightarrow> Suc (pos s) * num s < 2 ^ 64 \<Longrightarrow>
      fst (step s) \<longleftrightarrow> 0 < (Suc (pos s) * num s) mod den s \<and> (Suc (pos s) * num s) mod den s \<le> num s"
    and step_active: "active s \<Longrightarrow> Suc (pos s) * num s < 2 ^ 64 \<Longrightarrow> active (snd (step s))"
    and step_share: "active s \<Longrightarrow> num (snd (step s)) = num s \<and> den (snd (step s)) = den s"
    and step_pos: "active s \<Longrightarrow> Suc (pos s) * num s < 2 ^ 64 \<Longrightarrow> pos (snd (step s)) = Suc (pos s)"
begin

lemma hits_quota:
  "active s \<Longrightarrow> (pos s + n) * num s < 2 ^ 64 \<Longrightarrow>
   quota (num s) (den s) (pos s) + hits step n s = quota (num s) (den s) (pos s + n)"
proof (induction n arbitrary: s)
  case (Suc n)
  obtain ok s' where step: "step s = (ok, s')" by (cases "step s")
  have room: "Suc (pos s) * num s < 2 ^ 64"
    using Suc.prems(2) le_less_trans [of "Suc (pos s) * num s" "(pos s + Suc n) * num s"] by simp
  have s': "active s'" "num s' = num s" "den s' = den s" "pos s' = Suc (pos s)"
    using step_active [OF Suc.prems(1) room] step_share [OF Suc.prems(1)] step_pos [OF Suc.prems(1) room] step by auto
  have ok: "ok \<longleftrightarrow> 0 < (Suc (pos s) * num s) mod den s \<and> (Suc (pos s) * num s) mod den s \<le> num s"
    using step_hit [OF Suc.prems(1) room] step by simp
  have "quota (num s') (den s') (pos s') + hits step n s' = quota (num s') (den s') (pos s' + n)"
    by (rule Suc.IH) (use s' Suc.prems(2) in auto)
  moreover have "quota (num s) (den s) (Suc (pos s)) = quota (num s) (den s) (pos s) + (if ok then 1 else 0)"
    unfolding ok by (rule quota_step [OF share [OF Suc.prems(1)]])
  ultimately show ?case by (simp add: step s')
qed simp

end

definition rate_active :: "rateSampler \<Rightarrow> bool" where
  "rate_active s \<longleftrightarrow> 2 \<le> unat (rs_rate s)"

definition percent_active :: "percentSampler \<Rightarrow> bool" where
  "percent_active s \<longleftrightarrow>
     0 < unat (ps_rate s) \<and> unat (ps_rate s) < 10000 \<and> unat (ps_rate s) dvd unat (ps_counter s)"

lemma unat_Suc: "Suc (unat (w :: go_uint64)) < 2 ^ 64 \<Longrightarrow> unat (w + 1) = Suc (unat w)"
  by (simp add: unat_word_ariths)

lemma unat_plus_room: "unat (a :: go_uint64) + unat b < 2 ^ 64 \<Longrightarrow> unat (a + b) = unat a + unat b"
  by (simp add: unat_word_ariths)

lemma mod_window_one:
  assumes "2 \<le> (q::nat)"
  shows "0 < Suc k mod q \<and> Suc k mod q \<le> 1 \<longleftrightarrow> k mod q = 0"
  using assms by (auto simp: mod_Suc)

lemma rate_step:
  "rate_active s \<Longrightarrow>
   rateSampler_isSampled s = (unat (rs_counter s) mod unat (rs_rate s) = 0, s\<lparr>rs_counter := rs_counter s + 1\<rparr>)"
  by (auto simp: rateSampler_isSampled_def rate_active_def Let_def unat_mod word_unat_eq_iff)

interpretation rate: proportional_sampler rateSampler_isSampled rate_active "\<lambda>_. 1" "\<lambda>s. unat (rs_rate s)"
  "\<lambda>s. unat (rs_counter s)"
proof unfold_locales
  fix s assume "rate_active s"
  then show "1 < unat (rs_rate s)" by (simp add: rate_active_def)
next
  fix s assume "rate_active s"
  then show "fst (rateSampler_isSampled s) \<longleftrightarrow>
      0 < (Suc (unat (rs_counter s)) * 1) mod unat (rs_rate s) \<and> (Suc (unat (rs_counter s)) * 1) mod unat (rs_rate s) \<le> 1"
    using mod_window_one [of "unat (rs_rate s)"] by (simp add: rate_step) (simp add: rate_active_def)
qed (auto simp: rate_step rate_active_def unat_Suc)

lemma percent_step:
  assumes "percent_active s" "unat (ps_counter s) + unat (ps_rate s) < 2 ^ 64"
  shows "percentSampler_isSampled s =
    (0 < (unat (ps_counter s) + unat (ps_rate s)) mod 10000
       \<and> (unat (ps_counter s) + unat (ps_rate s)) mod 10000 \<le> unat (ps_rate s),
     s\<lparr>ps_counter := ps_counter s + ps_rate s\<rparr>)"
  using assms unat_plus_room [OF assms(2)]
  by (auto simp: percentSampler_isSampled_def percent_active_def samplingMaxPercentRate_def Let_def word_le_nat_alt
      word_less_nat_alt unat_mod)

lemma percent_pos:
  assumes "percent_active s"
  shows "unat (ps_counter s) div unat (ps_rate s) * unat (ps_rate s) = unat (ps_counter s)"
    "Suc (unat (ps_counter s) div unat (ps_rate s)) * unat (ps_rate s) = unat (ps_counter s) + unat (ps_rate s)"
  using assms by (auto simp: percent_active_def)

lemma percent_room:
  assumes "percent_active s" "Suc (unat (ps_counter s) div unat (ps_rate s)) * unat (ps_rate s) < 2 ^ 64"
  shows "unat (ps_counter s) + unat (ps_rate s) < 2 ^ 64"
  using assms(2) unfolding percent_pos(2) [OF assms(1)] .

interpretation percent: proportional_sampler percentSampler_isSampled percent_active "\<lambda>s. unat (ps_rate s)" "\<lambda>_. 10000"
  "\<lambda>s. unat (ps_counter s) div unat (ps_rate s)"
proof unfold_locales
  fix s assume "percent_active s"
  then show "unat (ps_rate s) < 10000" by (simp add: percent_active_def)
next
  fix s assume s: "percent_active s" "Suc (unat (ps_counter s) div unat (ps_rate s)) * unat (ps_rate s) < 2 ^ 64"
  note room = percent_room [OF s]
  show "fst (percentSampler_isSampled s) \<longleftrightarrow>
      0 < (Suc (unat (ps_counter s) div unat (ps_rate s)) * unat (ps_rate s)) mod 10000
      \<and> (Suc (unat (ps_counter s) div unat (ps_rate s)) * unat (ps_rate s)) mod 10000 \<le> unat (ps_rate s)"
    unfolding percent_pos(2) [OF s(1)] by (simp add: percent_step [OF s(1) room])
  show "percent_active (snd (percentSampler_isSampled s))"
    using s(1) room by (simp add: percent_step [OF s(1) room] percent_active_def unat_plus_room)
  show "unat (ps_counter (snd (percentSampler_isSampled s))) div unat (ps_rate (snd (percentSampler_isSampled s)))
      = Suc (unat (ps_counter s) div unat (ps_rate s))"
    using s(1) room by (simp add: percent_step [OF s(1) room] percent_active_def unat_plus_room)
next
  fix s assume "percent_active s"
  then show "unat (ps_rate (snd (percentSampler_isSampled s))) = unat (ps_rate s) \<and> (10000::nat) = 10000"
    by (auto simp: percentSampler_isSampled_def Let_def)
qed

lemma hits_false: "(\<And>s. P s \<Longrightarrow> step s = (False, s)) \<Longrightarrow> P s \<Longrightarrow> hits step n s = 0"
  by (induction n) auto

lemma hits_true: "(\<And>s. P s \<Longrightarrow> step s = (True, s)) \<Longrightarrow> P s \<Longrightarrow> hits step n s = n"
  by (induction n) auto

section \<open>Properties\<close>

text \<open>
  The counting sampler built with rate \<open>r\<close>: of the first \<open>n\<close> new transactions it samples exactly \<open>n / r\<close> rounded
  up - so the first request is one of them, and rate 1 samples all - and none when the rate is zero or negative. The
  uint64 counter does not wrap within \<open>n\<close> calls below \<open>2 ^ 64\<close>.
\<close>

theorem rateSampler_share:
  assumes "r < 2 ^ 64" "n < 2 ^ 64"
  shows "hits rateSampler_isSampled n (newRateSampler r) = (if r \<le> 0 then 0 else (n + (nat r - 1)) div nat r)"
proof -
  consider "r \<le> 0" | "r = 1" | "2 \<le> r" by linarith
  then show ?thesis
  proof cases
    case 1
    then have "newRateSampler r = newRateSampler 0" by (auto simp: newRateSampler_def)
    with 1 show ?thesis
      using hits_false [of "\<lambda>s. rs_rate s = 0" rateSampler_isSampled "newRateSampler 0" n]
      by (simp add: rateSampler_isSampled_def newRateSampler_def)
  next
    case 2
    then show ?thesis
      using hits_true [of "\<lambda>s. rs_rate s = 1" rateSampler_isSampled "newRateSampler 1" n]
      by (simp add: rateSampler_isSampled_def newRateSampler_def)
  next
    case 3
    then have r: "unat (rs_rate (newRateSampler r)) = nat r" "unat (rs_counter (newRateSampler r)) = 0"
      using assms(1) by (simp_all add: newRateSampler_def unat_eq_nat_uint uint_word_of_int_eq take_bit_int_eq_self)
    then have "rate_active (newRateSampler r)" using 3 by (simp add: rate_active_def)
    from rate.hits_quota [OF this, of n] r 3 assms(2) show ?thesis by (simp add: quota_def)
  qed
qed

theorem rateSampler_share_witness: "hits rateSampler_isSampled 10 (newRateSampler 3) = 4"
  using rateSampler_share [of 3 10] by simp

text \<open>
  The percent sampler at \<open>p\<close> hundredths of a percent: of the first \<open>n\<close> new transactions it samples exactly
  \<open>n * p / 10000\<close> rounded up, all of them from 10000 on, as long as the uint64 counter does not wrap.
\<close>

theorem percentSampler_share:
  assumes "n * p < 2 ^ 64" "p < 2 ^ 64"
  shows "hits percentSampler_isSampled n \<lparr>ps_rate = of_nat p, ps_counter = 0\<rparr>
    = (if p \<ge> 10000 then n else (n * p + 9999) div 10000)"
proof -
  let ?s = "\<lparr>ps_rate = of_nat p, ps_counter = 0\<rparr>"
  have p: "unat (ps_rate ?s) = p" using assms(2) by (simp add: unat_of_nat take_bit_nat_eq_self)
  consider "p = 0" | "0 < p" "p < 10000" | "p \<ge> 10000" by linarith
  then show ?thesis
  proof cases
    case 1
    then show ?thesis
      using hits_false [of "\<lambda>s. ps_rate s = 0" percentSampler_isSampled ?s n]
      by (simp add: percentSampler_isSampled_def)
  next
    case 2
    then have "percent_active ?s" using p by (simp add: percent_active_def)
    from percent.hits_quota [OF this, of n] p 2 assms(1) show ?thesis by (simp add: quota_def)
  next
    case 3
    then have "samplingMaxPercentRate \<le> ps_rate ?s"
      unfolding word_le_nat_alt p by (simp add: samplingMaxPercentRate_def)
    moreover have "ps_rate ?s \<noteq> 0" using p 3 by auto
    ultimately show ?thesis
      using 3 hits_true [of "\<lambda>s. ps_rate s \<noteq> 0 \<and> samplingMaxPercentRate \<le> ps_rate s" percentSampler_isSampled ?s n]
      by (simp add: percentSampler_isSampled_def)
  qed
qed

theorem percentSampler_share_witness:
  "hits percentSampler_isSampled 1000 \<lparr>ps_rate = of_nat 29, ps_counter = 0\<rparr> = 3"
  using percentSampler_share [of 1000 29] by simp

end
