(* ===== verification/Request_Entry.thy ===== *)
theory Request_Entry
  imports Span_Invariants Sampler Lifecycle
begin

unbundle bit_operations_syntax

text \<open>
  Where a request meets the agent: \<open>newSpanTracerWithReader\<close> and \<open>generateTransactionId\<close> (\<^verbatim>\<open>src/agent.go\<close>), the
  statistics every request keeps (\<^verbatim>\<open>src/request_stats.go\<close>) and the span of a request that lost the sampling decision
  (\<^verbatim>\<open>src/noop.go\<close>). Random draws, the goroutine id and the clock are arguments.
\<close>

section \<open>Request statistics\<close>

record activeSpanInfo =
  info_startTime :: time
  info_txId :: string
  info_entryPoint :: string
  info_sampled :: bool

record requestStats =
  rq_startTime :: time
  activeKey :: go_int64
  goroutineId :: go_int64
  realTimeTracked :: bool

record request_agent =
  enable :: agentPhase
  base_sampler :: sampler
  stat_shards :: "statShard list"
  activeSpan :: activeSpanRegistry
  atcStreamCount :: int
  realTimeActiveSpan :: "go_int64 \<rightharpoonup> activeSpanInfo"
  seq_counter :: go_int64

definition newRequestStats :: "time \<Rightarrow> requestStats" where
  "newRequestStats now = \<lparr>rq_startTime = now, activeKey = 0, goroutineId = 0, realTimeTracked = False\<rparr>"

text \<open>What a call takes from its surroundings: the goroutine it runs on and whether its id can be read cheaply, a random
  draw, and the entry a full registry would evict.\<close>

record call_site =
  gid :: go_int64
  gid_known :: bool
  draw :: go_int64
  victim_of :: "activeSpanShard \<Rightarrow> nat"

definition site_gid :: "call_site \<Rightarrow> go_int64 option" where
  "site_gid c = (if gid_known c then Some (gid c) else None)"

definition begin_key :: "call_site \<Rightarrow> requestStats \<Rightarrow> go_int64" where
  "begin_key c s = (if activeKey s = 0 then draw c OR push_bit 63 1 else activeKey s)"

definition request_begin ::
  "call_site \<Rightarrow> string \<Rightarrow> string \<Rightarrow> bool \<Rightarrow> requestStats \<Rightarrow> request_agent \<Rightarrow> requestStats \<times> request_agent" where
  "request_begin c txIdString entryPoint sampled s a =
     (let key = begin_key c s;
          a = a\<lparr>activeSpan := activeSpan_store (victim_of c) key (rq_startTime s) (activeSpan a)\<rparr>;
          s = s\<lparr>activeKey := key, goroutineId := (if gid_known c then gid c else goroutineId s)\<rparr>
      in if atcStreamCount a > 0
         then (s\<lparr>goroutineId := gid c, realTimeTracked := True\<rparr>,
               a\<lparr>realTimeActiveSpan := (realTimeActiveSpan a)(gid c \<mapsto>
                   \<lparr>info_startTime = rq_startTime s, info_txId = (if sampled then txIdString else []),
                    info_entryPoint = entryPoint, info_sampled = sampled\<rparr>)\<rparr>)
         else (s, a))"

definition request_end :: "requestStats \<Rightarrow> request_agent \<Rightarrow> request_agent" where
  "request_end s a =
     (let a = a\<lparr>activeSpan := activeSpan_remove (activeKey s) (activeSpan a)\<rparr>
      in if realTimeTracked s then a\<lparr>realTimeActiveSpan := (realTimeActiveSpan a)(goroutineId s := None)\<rparr> else a)"

section \<open>The unsampled span\<close>

record noopSpan =
  np_cfg :: spanConfig
  np_spanId :: go_int64
  np_stats :: requestStats
  np_urlStat :: "UrlStatEntry option"
  np_statusErr :: go_int32
  withStats :: bool
  unsampled :: bool

definition defaultNoopSpan :: "spanConfig \<Rightarrow> noopSpan" where
  "defaultNoopSpan c = \<lparr>np_cfg = c, np_spanId = 0, np_stats = newRequestStats 0, np_urlStat = None, np_statusErr = 0,
     withStats = False, unsampled = False\<rparr>"

definition newUnSampledSpan ::
  "call_site \<Rightarrow> spanConfig \<Rightarrow> time \<Rightarrow> go_int64 \<Rightarrow> string \<Rightarrow> request_agent \<Rightarrow> noopSpan \<times> request_agent" where
  "newUnSampledSpan c cf now sid rpc a =
     (let (s, a) = request_begin c [] rpc False (newRequestStats now) a
      in (\<lparr>np_cfg = cf, np_spanId = sid, np_stats = s, np_urlStat = None, np_statusErr = 0, withStats = True,
           unsampled = True\<rparr>, a))"

text \<open>Times are milliseconds here, as \<open>UnixMilli\<close> gives them; the result is the URL statistics record queued, if any.\<close>

definition noop_EndSpan ::
  "call_site \<Rightarrow> int \<Rightarrow> int \<Rightarrow> noopSpan \<Rightarrow> request_agent
     \<Rightarrow> (UrlStatEntry \<times> int \<times> int \<times> go_int32) option \<times> noopSpan \<times> request_agent" where
  "noop_EndSpan c start_ms end_ms sp a =
     (if \<not> withStats sp then (None, sp, a)
      else let a = request_end (np_stats sp) a;
               el = max (end_ms - start_ms) 0;
               a = a\<lparr>stat_shards := collectResponseTime (site_gid c) (word_of_int el) (stat_shards a)\<rparr>
           in (case np_urlStat sp of None \<Rightarrow> None | Some entry \<Rightarrow> Some (entry, end_ms, el, np_statusErr sp),
               sp\<lparr>withStats := False\<rparr>, a))"

text \<open>\<open>SetError\<close> and \<open>SetFailure\<close> write the span that keeps the statistics: the request's own, for a child too.\<close>

definition noop_SetError :: "'e agent_env \<Rightarrow> 'e option \<Rightarrow> string list \<Rightarrow> noopSpan \<Rightarrow> noopSpan" where
  "noop_SetError A err_opt names sp =
     (case err_opt of None \<Rightarrow> sp
      | Some e \<Rightarrow>
          if \<not> withStats sp then sp
          else if \<not> ignoreError (errs A) (errorIgnoreRules (np_cfg sp)) e (errorNameOf (errs A) e names)
            \<and> marksError (errorMarkMask (np_cfg sp)) ErrorCategoryException
          then sp\<lparr>np_statusErr := 1\<rparr> else sp)"

definition noop_SetFailure :: "ErrorCategory list \<Rightarrow> noopSpan \<Rightarrow> noopSpan" where
  "noop_SetFailure cats sp =
     (if withStats sp \<and> marksError (errorMarkMask (np_cfg sp)) (firstErrorCategory cats)
      then sp\<lparr>np_statusErr := 1\<rparr> else sp)"

definition noop_RecordUrlStat :: "UrlStatEntry \<Rightarrow> noopSpan \<Rightarrow> noopSpan" where
  "noop_RecordUrlStat stat sp =
     (if withStats sp \<and> cfg_collectUrlStat (np_cfg sp)
      then sp\<lparr>np_urlStat := Some (mergeUrlStat (np_urlStat sp) stat)\<rparr> else sp)"

text \<open>A child keeps no statistics of its own and carries the marker on.\<close>

definition noop_NewGoroutineTracer :: "noopSpan \<Rightarrow> noopSpan" where
  "noop_NewGoroutineTracer sp = (defaultNoopSpan (np_cfg sp))\<lparr>unsampled := unsampled sp\<rparr>"

definition noop_Inject :: "noopSpan \<Rightarrow> (string \<times> string) list" where
  "noop_Inject sp = (if unsampled sp then [(HeaderSampled, ''s0'')] else [])"

section \<open>The entry\<close>

datatype 'e tracer = SampledTracer "'e span" requestStats | UnsampledTracer noopSpan | NoopTracer

definition generateTransactionId :: "string \<Rightarrow> go_int64 \<Rightarrow> request_agent \<Rightarrow> TransactionId \<times> request_agent" where
  "generateTransactionId agentID started a =
     (let sq = seq_counter a + 1
      in (\<lparr>AgentId = agentID, StartTime = started, Sequence = sq\<rparr>, a\<lparr>seq_counter := sq\<rparr>))"

record entry_env =
  ee_agentID :: string
  ee_startTime :: go_int64
  ee_cfg :: spanConfig
  ee_allow :: "bool option"
  ee_now :: time
  ee_spanId :: go_int64

definition newSpanTracerWithReader ::
  "'e agent_env \<Rightarrow> entry_env \<Rightarrow> call_site \<Rightarrow> string \<Rightarrow> string \<Rightarrow> reader option \<Rightarrow> request_agent
     \<Rightarrow> 'e tracer \<times> request_agent" where
  "newSpanTracerWithReader A E c operation rpc rd a =
     (case rd of None \<Rightarrow> (NoopTracer, a)
      | Some Get \<Rightarrow>
        if \<not> tracingEnabled (enable a) then (NoopTracer, a)
        else if get_value Get HeaderSampled = ''s0'' then
          (let a = a\<lparr>stat_shards := incr (site_gid c) statUnSampleCont (stat_shards a)\<rparr>;
               (sp, a) = newUnSampledSpan c (ee_cfg E) (ee_now E) (ee_spanId E) rpc a
           in (UnsampledTracer sp, a))
        else
          let inb = continueHeaders Get (clusterNamespace A);
              decide = (if continued inb then isContinueSampled else isNewSampled);
              (ok, base, shards) = decide (site_gid c) (ee_allow E) (base_sampler a, stat_shards a);
              a = a\<lparr>base_sampler := base, stat_shards := shards\<rparr>
          in if \<not> ok then
               (let (sp, a) = newUnSampledSpan c (ee_cfg E) (ee_now E) (ee_spanId E) rpc a
                in (UnsampledTracer sp, a))
             else
               let (newTx, a) = (if continued inb then (zero_txId, a)
                                 else generateTransactionId (ee_agentID E) (ee_startTime E) a);
                   sp = span_extract Get inb newTx (ee_spanId E) (newSampledSpan A (ee_cfg E) (ee_now E) operation rpc);
                   (s, a) = request_begin c (TransactionId_String (sp_txId sp)) (rpcName sp) True
                              (newRequestStats (ee_now E)) a
               in (SampledTracer sp s, a))"

section \<open>Lemmas\<close>

definition sampling_total :: "statShard list \<Rightarrow> go_int64" where
  "sampling_total shards =
     resident shards statSampleNew + resident shards statUnSampleNew + resident shards statSkipNew
     + resident shards statSampleCont + resident shards statUnSampleCont + resident shards statSkipCont"

definition sampling_outcome :: "statCounter \<Rightarrow> bool" where
  "sampling_outcome k \<longleftrightarrow> k \<notin> {statAccResponseTime, statMaxResponseTime, statRequestCount}"

lemma sampling_total_incr:
  assumes "length shards = statShardCount" "sampling_outcome k"
  shows "sampling_total (incr g k shards) = sampling_total shards + 1"
  using assms stat_shard_bound [of g]
  by (cases k) (simp_all add: sampling_total_def sampling_outcome_def incr_def resident_bump)

text \<open>The two decisions count one outcome each, and leave the shards' number alone.\<close>

lemma decision_counts:
  assumes "length shards = statShardCount" "f \<in> {isNewSampled, isContinueSampled}" "f g allow (base, shards) = (ok, base', shards')"
  shows "sampling_total shards' = sampling_total shards + 1"
  using assms
  by (auto simp: isNewSampled_def isContinueSampled_def sampling_total_incr sampling_outcome_def split: prod.splits if_splits)

lemma request_begin_frame:
  "stat_shards (snd (request_begin c tx ep b s a)) = stat_shards a"
  "base_sampler (snd (request_begin c tx ep b s a)) = base_sampler a"
  "activeKey (fst (request_begin c tx ep b s a)) = begin_key c s"
  "activeSpan (snd (request_begin c tx ep b s a)) = activeSpan_store (victim_of c) (begin_key c s) (rq_startTime s) (activeSpan a)"
  "rq_startTime (fst (request_begin c tx ep b s a)) = rq_startTime s"
  by (simp_all add: request_begin_def Let_def)

lemma newUnSampledSpan_frame:
  "stat_shards (snd (newUnSampledSpan c cf now sid rpc a)) = stat_shards a"
  "base_sampler (snd (newUnSampledSpan c cf now sid rpc a)) = base_sampler a"
  "unsampled (fst (newUnSampledSpan c cf now sid rpc a))" "withStats (fst (newUnSampledSpan c cf now sid rpc a))"
  "activeSpan (snd (newUnSampledSpan c cf now sid rpc a)) =
     activeSpan_store (victim_of c) (activeKey (np_stats (fst (newUnSampledSpan c cf now sid rpc a)))) now (activeSpan a)"
  by (simp_all add: newUnSampledSpan_def request_begin_frame newRequestStats_def split: prod.splits)
    (metis fst_conv request_begin_frame snd_conv requestStats.select_convs)+

lemma entry_unsampled:
  assumes "fst (newSpanTracerWithReader A E c operation rpc rd a) = UnsampledTracer sp"
  shows "unsampled sp \<and> withStats sp"
  using assms newUnSampledSpan_frame(3,4)
  by (auto simp: newSpanTracerWithReader_def Let_def split: option.splits prod.splits if_splits)
    (metis fst_conv)+

lemma s0_entry:
  assumes "tracingEnabled (enable a)" "get_value Get HeaderSampled = ''s0''"
  shows "\<exists>sp. fst (newSpanTracerWithReader A E c operation rpc (Some Get) a) = UnsampledTracer sp"
    and "base_sampler (snd (newSpanTracerWithReader A E c operation rpc (Some Get) a)) = base_sampler a"
  using assms newUnSampledSpan_frame(2)
  by (auto simp: newSpanTracerWithReader_def Let_def split: prod.splits) (metis request_agent.ext_inject request_agent.surjective request_agent.update_convs(3) snd_conv)

lemma entry_disabled: "\<not> tracingEnabled (enable a) \<Longrightarrow> newSpanTracerWithReader A E c operation rpc rd a = (NoopTracer, a)"
  by (simp add: newSpanTracerWithReader_def split: option.splits)

lemma entry_counts:
  assumes "tracingEnabled (enable a)" "length (stat_shards a) = statShardCount"
  shows "sampling_total (stat_shards (snd (newSpanTracerWithReader A E c operation rpc (Some Get) a)))
    = sampling_total (stat_shards a) + 1"
proof (cases "get_value Get HeaderSampled = ''s0''")
  case True
  then show ?thesis
    using assms sampling_total_incr [OF assms(2), of statUnSampleCont "site_gid c"]
    by (simp add: newSpanTracerWithReader_def Let_def newUnSampledSpan_frame sampling_outcome_def split: prod.splits)
      (metis newUnSampledSpan_frame(1) request_agent.select_convs(3) request_agent.surjective request_agent.update_convs(3) snd_conv)
next
  case False
  define inb where "inb = continueHeaders Get (clusterNamespace A)"
  define f where "f = (if continued inb then isContinueSampled else isNewSampled)"
  obtain ok base shards where d: "f (site_gid c) (ee_allow E) (base_sampler a, stat_shards a) = (ok, base, shards)"
    by (metis prod.collapse)
  have "stat_shards (snd (newSpanTracerWithReader A E c operation rpc (Some Get) a)) = shards"
    using assms(1) False d
    by (cases "continued inb") (simp_all add: newSpanTracerWithReader_def Let_def inb_def [symmetric] f_def
        generateTransactionId_def newUnSampledSpan_frame request_begin_frame case_prod_beta)
  moreover have "f \<in> {isNewSampled, isContinueSampled}" by (simp add: f_def)
  ultimately show ?thesis using decision_counts [where f = f, OF assms(2) _ d] by simp
qed

lemma collectResponseTime_counts:
  assumes "length shards = statShardCount"
  shows "resident (collectResponseTime g t shards) statRequestCount = resident shards statRequestCount + 1"
    "resident (collectResponseTime g t shards) statAccResponseTime = resident shards statAccResponseTime + t"
  using assms stat_shard_bound [of g] by (simp_all add: collectResponseTime_def resident_bump)

lemma http_inject_s0:
  assumes "header_map w \<noteq> None" "unsampled sp"
  shows "get_value (http_look (fold (\<lambda>(k, v). httpHeaderWriter_Set k v) (noop_Inject sp) w)) HeaderSampled = ''s0''"
proof -
  have "HeaderSampled \<in> set injectedHeaders" by (simp add: injectedHeaders_def)
  with assms http.look_put [of w HeaderSampled HeaderSampled "''s0''"] show ?thesis
    by (simp add: noop_Inject_def get_value_def)
qed

section \<open>Properties\<close>

text \<open>An agent and a call for the witnesses.\<close>

definition idle_agent :: request_agent where
  "idle_agent = \<lparr>enable = phaseRunning, base_sampler = RateSampler (newRateSampler 1),
     stat_shards = replicate statShardCount (\<lambda>_. 0), activeSpan = activeSpan_init, atcStreamCount = 0,
     realTimeActiveSpan = Map.empty, seq_counter = 0\<rparr>"

definition some_call :: call_site where
  "some_call = \<lparr>gid = 7, gid_known = True, draw = 5, victim_of = (\<lambda>_. 0)\<rparr>"

definition some_entry :: entry_env where
  "some_entry = \<lparr>ee_agentID = ''agent-1'', ee_startTime = 1700000000000, ee_cfg = small_config, ee_allow = Some False,
     ee_now = 1, ee_spanId = 11\<rparr>"

text \<open>
  Every request that reaches a running agent is counted under exactly one of the six sampling outcomes - whatever
  its headers, the samplers and the limiters say - and a request that reaches an agent that is not running changes
  nothing and gets the noop tracer.
\<close>

theorem every_request_counted_once:
  assumes "length (stat_shards a) = statShardCount"
  shows "if tracingEnabled (enable a)
    then sampling_total (stat_shards (snd (newSpanTracerWithReader A E c operation rpc (Some Get) a)))
           = sampling_total (stat_shards a) + 1
    else newSpanTracerWithReader A E c operation rpc (Some Get) a = (NoopTracer, a)"
  using entry_counts [OF _ assms] entry_disabled by auto

theorem every_request_counted_once_witness:
  "sampling_total (stat_shards (snd (newSpanTracerWithReader plain_agent some_entry some_call [] []
     (Some (\<lambda>_. None)) idle_agent))) = 1"
  using every_request_counted_once [of idle_agent plain_agent some_entry some_call "[]" "[]" "\<lambda>_. None"]
  by (simp add: idle_agent_def tracingEnabled_def sampling_total_def)

text \<open>
  The decision not to trace travels with the request: the headers an unsampled span (or a goroutine tracer taken
  from it) injects make any running callee hand out an unsampled span in turn, without consulting or advancing its
  sampler. The noop tracer of a request outside any trace injects nothing.
\<close>

theorem unsampled_decision_propagates:
  assumes "fst (newSpanTracerWithReader A E c operation rpc rd a) = UnsampledTracer sp"
    and "sp' = sp \<or> sp' = noop_NewGoroutineTracer sp" and "header_map w \<noteq> None" and "tracingEnabled (enable b)"
  defines "Get \<equiv> http_look (fold (\<lambda>(k, v). httpHeaderWriter_Set k v) (noop_Inject sp') w)"
  shows "(\<exists>callee. fst (newSpanTracerWithReader B F d operation' rpc' (Some Get) b) = UnsampledTracer callee)
    \<and> base_sampler (snd (newSpanTracerWithReader B F d operation' rpc' (Some Get) b)) = base_sampler b
    \<and> noop_Inject (defaultNoopSpan cf) = []"
proof -
  have "unsampled sp'"
    using assms(2) entry_unsampled [OF assms(1)] by (auto simp: noop_NewGoroutineTracer_def)
  then have "get_value Get HeaderSampled = ''s0''"
    unfolding Get_def by (rule http_inject_s0 [OF assms(3)])
  from s0_entry [OF assms(4) this, of B F d operation' rpc'] show ?thesis
    by (simp add: noop_Inject_def defaultNoopSpan_def)
qed

theorem unsampled_decision_propagates_witness:
  "\<exists>callee. fst (newSpanTracerWithReader plain_agent some_entry some_call [] []
     (Some (http_look (fold (\<lambda>(k, v). httpHeaderWriter_Set k v) [(HeaderSampled, ''s0'')] (HttpHeaderWriter (Some Map.empty)))))
     idle_agent) = UnsampledTracer callee"
proof -
  have run: "tracingEnabled (enable idle_agent)" by (simp add: idle_agent_def tracingEnabled_def)
  obtain sp where sp: "fst (newSpanTracerWithReader plain_agent some_entry some_call [] [] (Some (\<lambda>_. Some ''s0'')) idle_agent)
      = UnsampledTracer sp"
    using s0_entry(1) [OF run, of "\<lambda>_. Some ''s0''" plain_agent some_entry some_call "[]" "[]"] by (auto simp: get_value_def)
  have "noop_Inject sp = [(HeaderSampled, ''s0'')]" using entry_unsampled [OF sp] by (simp add: noop_Inject_def)
  with unsampled_decision_propagates [OF sp disjI1 [OF refl] _ run, of "HttpHeaderWriter (Some Map.empty)" plain_agent
      some_entry some_call "[]" "[]" small_config] show ?thesis
    by (simp add: HttpHeaderWriter_def)
qed

text \<open>
  Whether a request is sampled or not, its URL statistics fail for the same errors: with the same configuration, an
  error set on the unsampled span raises the failure flag exactly when the same error set on a fresh sampled span
  raises a bit the statistics read, and likewise for \<open>SetFailure\<close> with a category.
\<close>

theorem unsampled_fails_like_sampled:
  assumes "withStats np" "np_statusErr np = 0" "np_cfg np = cfg sp" "\<not> finished sp" "\<not> isAsyncSpan sp"
    and "root_err r = 0" "root_statusErr r = 0"
  shows "(np_statusErr (noop_SetError A (Some e) names np) \<noteq> 0)
      = (let r' = fst (snd (SetError A (Some e) names (sp, r, gen))) in root_statusErr r' OR root_err r' \<noteq> 0)
    \<and> (np_statusErr (noop_SetFailure cats np) \<noteq> 0)
      = (let r' = SetFailure cats sp r in root_statusErr r' OR root_err r' \<noteq> 0)"
proof -
  have or1: "1 OR x \<noteq> (0 :: go_int32)" for x
  proof
    assume "1 OR x = (0 :: go_int32)"
    then have "bit (1 OR x) 0 = bit (0 :: go_int32) 0" by simp
    then show False by (simp add: bit_or_iff)
  qed
  show ?thesis
    using assms or1
    by (auto simp: noop_SetError_def noop_SetFailure_def SetError_def SetFailure_def markSpanError_def Let_def
        ErrorCategoryException_def split: option.splits)
qed

theorem unsampled_fails_like_sampled_witness:
  "let np = (defaultNoopSpan small_config)\<lparr>withStats := True\<rparr>;
       sp = newSampledSpan plain_agent small_config 0 [] []
   in (np_statusErr (noop_SetFailure [ErrorCategorySql] np) \<noteq> 0)
      = (let r' = SetFailure [ErrorCategorySql] sp zero_root in root_statusErr r' OR root_err r' \<noteq> 0)"
  using unsampled_fails_like_sampled [of "(defaultNoopSpan small_config)\<lparr>withStats := True\<rparr>"
      "newSampledSpan plain_agent small_config 0 [] []" zero_root plain_agent 0 "[]" 0 "[ErrorCategorySql]"]
  by (simp add: defaultNoopSpan_def newSampledSpan_def defaultSpan_def isAsyncSpan_def zero_root_def)

text \<open>
  An unsampled request is in the active span registry from its start to its first \<open>EndSpan\<close> and not after it; a
  second \<open>EndSpan\<close> changes nothing and reports nothing, so the response time and the URL statistics count it once.
\<close>

theorem unsampled_request_ends_once:
  assumes "registry_inv (activeSpan a)" "newUnSampledSpan c cf now sid rpc a = (sp, b)"
    and "registry_inv (activeSpan b')" "length (stat_shards b') = statShardCount" and "noop_EndSpan c' start_ms end_ms sp b' = (url, sp', d)"
  shows "activeSpan_lookup (activeSpan b) (activeKey (np_stats sp)) = Some now
    \<and> activeSpan_lookup (activeSpan d) (activeKey (np_stats sp)) = None
    \<and> resident (stat_shards d) statRequestCount = resident (stat_shards b') statRequestCount + 1
    \<and> resident (stat_shards d) statAccResponseTime
        = resident (stat_shards b') statAccResponseTime + word_of_int (max (end_ms - start_ms) 0)
    \<and> noop_EndSpan c'' start_ms' end_ms' sp' d = (None, sp', d)"
proof -
  have sp: "withStats sp" "activeSpan b = activeSpan_store (victim_of c) (activeKey (np_stats sp)) now (activeSpan a)"
    using newUnSampledSpan_frame(4,5) [of c cf now sid rpc a] assms(2) by auto
  have "sp' = sp\<lparr>withStats := False\<rparr>" "activeSpan d = activeSpan_remove (activeKey (np_stats sp)) (activeSpan b')"
      "stat_shards d = collectResponseTime (site_gid c') (word_of_int (max (end_ms - start_ms) 0)) (stat_shards b')"
    using assms(5) sp(1) by (auto simp: noop_EndSpan_def request_end_def Let_def)
  with sp(2) lookup_store(2) [OF assms(1)] lookup_remove [OF assms(3)] collectResponseTime_counts [OF assms(4)]
  show ?thesis
    by (simp add: noop_EndSpan_def)
qed

theorem unsampled_request_ends_once_witness:
  "let (sp, b) = newUnSampledSpan some_call small_config 9 3 [] idle_agent;
       (url, sp', d) = noop_EndSpan some_call 9 12 sp b
   in activeSpan_lookup (activeSpan d) (activeKey (np_stats sp)) = None"
proof -
  obtain sp b where b: "newUnSampledSpan some_call small_config 9 3 [] idle_agent = (sp, b)" by (metis prod.collapse)
  obtain url sp' d where d: "noop_EndSpan some_call 9 12 sp b = (url, sp', d)" by (metis prod.collapse)
  have "registry_inv (activeSpan idle_agent)" by (simp add: idle_agent_def registry_init_inv)
  moreover have "registry_inv (activeSpan b)"
    using calculation newUnSampledSpan_frame(5) [of some_call small_config 9 3 "[]" idle_agent] b
    by (simp add: activeSpan_store_inv)
  moreover have "length (stat_shards b) = statShardCount"
    using newUnSampledSpan_frame(1) [of some_call small_config 9 3 "[]" idle_agent] b by (simp add: idle_agent_def)
  ultimately show ?thesis using unsampled_request_ends_once [OF _ b _ _ d] b d by simp
qed

end
