(* ===== verification/Goroutine_Dump.thy ===== *)
theory Goroutine_Dump
  imports Valid_Utf8 Request_Entry "HOL-Library.AList"
begin

text \<open>
  The goroutine dump behind the collector's thread dump commands (\<^verbatim>\<open>src/goroutine.go\<close>, \<^verbatim>\<open>src/grpc_cmd.go\<close>): the text profile of
  the Go runtime is parsed for the goroutines that carry a span, and the response lists the requested ones. The profile and the
  active spans are inputs. Shown: the parser gives back the profile it reads, goroutine by goroutine, and the indexed selection
  is the plain search by name.
\<close>

section \<open>Goroutines\<close>

datatype PThreadState =
  THREAD_STATE_NEW | THREAD_STATE_RUNNABLE | THREAD_STATE_BLOCKED | THREAD_STATE_WAITING | THREAD_STATE_TERMINATED | THREAD_STATE_UNKNOWN

definition stateMap :: "(string \<times> PThreadState) list" where
  "stateMap =
     [([], THREAD_STATE_UNKNOWN), (''???'', THREAD_STATE_UNKNOWN), (''idle'', THREAD_STATE_NEW), (''runnable'', THREAD_STATE_RUNNABLE),
      (''running'', THREAD_STATE_RUNNABLE), (''syscall'', THREAD_STATE_RUNNABLE), (''copystack'', THREAD_STATE_RUNNABLE),
      (''dead'', THREAD_STATE_TERMINATED), (''dumping heap'', THREAD_STATE_BLOCKED), (''garbage collection'', THREAD_STATE_BLOCKED),
      (''garbage collection scan'', THREAD_STATE_BLOCKED), (''force gc (idle)'', THREAD_STATE_BLOCKED),
      (''trace reader (blocked)'', THREAD_STATE_BLOCKED), (''preempted'', THREAD_STATE_BLOCKED), (''debug call'', THREAD_STATE_BLOCKED),
      (''stopping the world'', THREAD_STATE_BLOCKED)]"

record goroutine =
  g_id :: int
  g_header :: string
  g_state :: string
  g_buf :: string
  g_span :: activeSpanInfo

definition goroutineHeaderPrefix :: string where "goroutineHeaderPrefix = ''goroutine ''"

definition addLine :: "string \<Rightarrow> goroutine \<Rightarrow> goroutine" where
  "addLine line g = g\<lparr>g_buf := g_buf g @ line @ [CHR 0x0A]\<rparr>"

definition threadState :: "goroutine \<Rightarrow> PThreadState" where
  "threadState g = (case map_of stateMap (g_state g) of Some s \<Rightarrow> s | None \<Rightarrow> THREAD_STATE_WAITING)"

definition newGoroutine :: "int \<Rightarrow> string \<Rightarrow> string \<Rightarrow> activeSpanInfo \<Rightarrow> goroutine" where
  "newGoroutine i st line sp =
     addLine line \<lparr>g_id = i, g_header = goroutineHeaderPrefix @ FormatInt i, g_state = TrimSpace (fst (Cut CHR '','' st)), g_buf = [], g_span = sp\<rparr>"

section \<open>The profile\<close>

definition MaxInt64 :: int where "MaxInt64 = 2 ^ 63 - 1"

fun id_loop :: "int \<Rightarrow> string \<Rightarrow> int option" where
  "id_loop i [] = Some i"
| "id_loop i (c # cs) =
     (if byte_of c < 48 \<or> byte_of c > 57 then None
      else if i > (MaxInt64 - int (digit_val c)) div 10 then None
      else id_loop (i * 10 + int (digit_val c)) cs)"

definition parseGoroutineHeader :: "string \<Rightarrow> (int \<times> string) option" where
  "parseGoroutineHeader line =
     (if \<not> HasPrefix line goroutineHeaderPrefix then None
      else let rest = drop (length goroutineHeaderPrefix) line
           in case Index rest '' '' of None \<Rightarrow> None
              | Some sp \<Rightarrow>
                  if sp < 1 then None
                  else case id_loop 0 (take sp rest) of None \<Rightarrow> None
                       | Some i \<Rightarrow>
                           let rest = drop (sp + 1) rest
                           in if length rest < 3 \<or> rest ! 0 \<noteq> CHR ''['' \<or> rest ! (length rest - 2) \<noteq> CHR '']'' \<or> rest ! (length rest - 1) \<noteq> CHR '':''
                              then None else Some (i, take (length rest - 3) (drop 1 rest)))"

text \<open>
  \<open>bufio.ScanLines\<close>: the lines of a text without their line ends, a last one without line end included, and nothing at
  all once a line fills the scanner's buffer.
\<close>

definition MaxScanTokenSize :: nat where "MaxScanTokenSize = 64 * 1024"

fun text_lines :: "string \<Rightarrow> string \<Rightarrow> string list" where
  "text_lines acc [] = (if acc = [] then [] else [acc])"
| "text_lines acc (c # cs) = (if c = CHR 0x0A then acc # text_lines [] cs else text_lines (acc @ [c]) cs)"

definition dropCR :: "string \<Rightarrow> string" where
  "dropCR l = (if l \<noteq> [] \<and> last l = CHR 0x0D then butlast l else l)"

definition scan_lines :: "string \<Rightarrow> string list option" where
  "scan_lines t = (let ls = text_lines [] t in if list_all (\<lambda>l. length l < MaxScanTokenSize) ls then Some (map dropCR ls) else None)"

text \<open>\<open>tracked\<close>: the block being read belongs to a goroutine of the dump, the last one. \<open>active\<close>: the loads from \<^verbatim>\<open>realTimeActiveSpan\<close>.\<close>

record profile_state =
  dumped :: "goroutine list"
  tracked :: bool
  inBlock :: bool

definition add_last :: "string \<Rightarrow> goroutine list \<Rightarrow> goroutine list" where
  "add_last line gs = butlast gs @ [addLine line (last gs)]"

definition profile_line :: "(int \<Rightarrow> activeSpanInfo option) \<Rightarrow> string \<Rightarrow> profile_state \<Rightarrow> profile_state" where
  "profile_line active line s =
     (if inBlock s
      then if line = [] then s\<lparr>inBlock := False, tracked := False\<rparr>
           else if tracked s then s\<lparr>dumped := add_last line (dumped s)\<rparr> else s
      else case parseGoroutineHeader line of None \<Rightarrow> s
           | Some (i, st) \<Rightarrow>
               (case active i of None \<Rightarrow> s\<lparr>inBlock := True\<rparr>
                | Some sp \<Rightarrow> s\<lparr>inBlock := True, tracked := True, dumped := dumped s @ [newGoroutine i st line sp]\<rparr>))"

definition parseProfile :: "(int \<Rightarrow> activeSpanInfo option) \<Rightarrow> string \<Rightarrow> goroutine list option" where
  "parseProfile active t =
     map_option (\<lambda>ls. dumped (fold (profile_line active) ls \<lparr>dumped = [], tracked = False, inBlock = False\<rparr>)) (scan_lines t)"

section \<open>The response\<close>

fun index_loop :: "nat \<Rightarrow> (string \<times> goroutine option) list \<Rightarrow> goroutine list \<Rightarrow> (string \<times> goroutine option) list" where
  "index_loop remaining index [] = index"
| "index_loop remaining index (g # gs) =
     (case map_of index (g_header g) of
        Some None \<Rightarrow>
          let index = AList.update (g_header g) (Some g) index; remaining = remaining - 1
          in if remaining = 0 then index else index_loop remaining index gs
      | _ \<Rightarrow> index_loop remaining index gs)"

definition indexByHeader :: "string list \<Rightarrow> goroutine list \<Rightarrow> (string \<times> goroutine option) list" where
  "indexByHeader names gs =
     (let index = fold (\<lambda>n. AList.update n None) names []
      in if length index = 0 then index else index_loop (length index) index gs)"

record PActiveThreadDump =
  pd_startTime :: int
  pd_threadName :: string
  pd_threadId :: int
  pd_threadState :: PThreadState
  pd_stackTrace :: "string list"
  pd_sampled :: bool
  pd_transactionId :: string
  pd_entryPoint :: string

text \<open>A time is its nanoseconds; \<open>UnixMilli\<close> rounds down.\<close>

definition UnixMilli :: "int \<Rightarrow> int" where "UnixMilli ns = ns div 1000000"

definition makePActiveThreadLightDump :: "goroutine \<Rightarrow> PActiveThreadDump" where
  "makePActiveThreadLightDump g =
     \<lparr>pd_startTime = UnixMilli (info_startTime (g_span g)), pd_threadName = g_header g, pd_threadId = g_id g, pd_threadState = threadState g,
      pd_stackTrace = [], pd_sampled = info_sampled (g_span g), pd_transactionId = info_txId (g_span g),
      pd_entryPoint = validUTF8 (info_entryPoint (g_span g))\<rparr>"

definition makePActiveThreadDump :: "goroutine \<Rightarrow> PActiveThreadDump" where
  "makePActiveThreadDump g = (makePActiveThreadLightDump g)\<lparr>pd_stackTrace := [validUTF8 (g_buf g)]\<rparr>"

definition dump_limit :: "int \<Rightarrow> goroutine list \<Rightarrow> nat" where
  "dump_limit limit gs = (if limit < 1 then length gs else nat limit)"

definition makePActiveThreadDumpList :: "goroutine list option \<Rightarrow> int \<Rightarrow> string list \<Rightarrow> PActiveThreadDump list" where
  "makePActiveThreadDumpList dump limit threadName =
     (case dump of None \<Rightarrow> []
      | Some gs \<Rightarrow>
          let byHeader = indexByHeader threadName gs;
              selected = List.map_filter (\<lambda>tn. case map_of byHeader tn of Some g \<Rightarrow> g | None \<Rightarrow> None) threadName
          in map makePActiveThreadDump (take (dump_limit limit gs) selected))"

definition makePActiveThreadLightDumpList :: "goroutine list option \<Rightarrow> int \<Rightarrow> PActiveThreadDump list" where
  "makePActiveThreadLightDumpList dump limit =
     (case dump of None \<Rightarrow> [] | Some gs \<Rightarrow> map makePActiveThreadLightDump (take (dump_limit limit gs) gs))"

record PCmdResponse =
  responseId :: go_int32
  res_status :: int
  res_message :: string

definition dumpResponse :: "go_int32 \<Rightarrow> goroutine list option \<Rightarrow> PCmdResponse" where
  "dumpResponse reqId dump =
     (if dump = None then \<lparr>responseId = reqId, res_status = - 1, res_message = ''An error occurred while dumping Goroutine''\<rparr>
      else \<lparr>responseId = reqId, res_status = 0, res_message = []\<rparr>)"

section \<open>The header\<close>

lemma digits_val_ge: "a \<le> digits_val a cs"
proof (induction cs arbitrary: a)
  case (Cons c cs)
  have "a \<le> 10 * a + digit_val c" by simp
  also have "\<dots> \<le> digits_val (10 * a + digit_val c) cs" by (rule Cons.IH)
  finally show ?case by simp
qed simp

lemma id_loop_eq:
  "id_loop (int a) cs = (if list_all isDigit cs \<and> (cs = [] \<or> int (digits_val a cs) \<le> MaxInt64) then Some (int (digits_val a cs)) else None)"
proof (induction cs arbitrary: a)
  case (Cons c cs)
  have digit: "byte_of c < 48 \<or> byte_of c > 57 \<longleftrightarrow> \<not> isDigit c" by (auto simp: isDigit_def)
  have over: "int a > (MaxInt64 - int (digit_val c)) div 10 \<longleftrightarrow> MaxInt64 < int (10 * a + digit_val c)"
    by (simp add: div_less_iff_less_mult) arith
  have step: "int a * 10 + int (digit_val c) = int (10 * a + digit_val c)" by simp
  show ?case
  proof (cases "isDigit c \<and> \<not> MaxInt64 < int (10 * a + digit_val c)")
    case True
    then have "id_loop (int a) (c # cs) = id_loop (int (10 * a + digit_val c)) cs" unfolding id_loop.simps digit over step by simp
    then show ?thesis using Cons.IH [of "10 * a + digit_val c"] True by (cases cs) auto
  next
    case False
    then have "id_loop (int a) (c # cs) = None" unfolding id_loop.simps digit over by auto
    moreover have "int (digits_val a (c # cs)) > MaxInt64" if "isDigit c"
      using False that digits_val_ge [of "10 * a + digit_val c" cs] by simp
    ultimately show ?thesis by auto
  qed
qed simp

lemma Index_space:
  "Index s '' '' = Some n \<longleftrightarrow> n < length s \<and> s ! n = CHR '' '' \<and> CHR '' '' \<notin> set (take n s)"
proof (induction s arbitrary: n)
  case (Cons c s)
  show ?case by (cases n) (auto simp: Cons)
qed simp

text \<open>
  The hand-written header parser accepts exactly the lines \<^verbatim>\<open>goroutine <id> [<state>]:\<close> with a decimal id that fits 64 bits,
  whatever the state holds, and gives back both parts.
\<close>

lemma parseGoroutineHeader_iff:
  "parseGoroutineHeader line = Some (i, st) \<longleftrightarrow>
     (\<exists>ds. line = goroutineHeaderPrefix @ ds @ '' ['' @ st @ '']:'' \<and> ds \<noteq> [] \<and> list_all isDigit ds
        \<and> i = int (digits_val 0 ds) \<and> i \<le> MaxInt64)" (is "?L \<longleftrightarrow> ?R")
proof
  assume L: ?L
  define rest where "rest = drop (length goroutineHeaderPrefix) line"
  have pre: "HasPrefix line goroutineHeaderPrefix" using L by (auto simp: parseGoroutineHeader_def split: if_splits)
  then have line: "line = goroutineHeaderPrefix @ rest" unfolding rest_def by (auto simp: HasPrefix_iff)
  obtain sp where sp: "Index rest '' '' = Some sp" "1 \<le> sp"
    using L pre by (auto simp: parseGoroutineHeader_def rest_def [symmetric] Let_def split: option.splits if_splits)
  define tail where "tail = drop (sp + 1) rest"
  have i: "id_loop 0 (take sp rest) = Some i" "length tail \<ge> 3" "tail ! 0 = CHR ''[''" "tail ! (length tail - 2) = CHR '']''"
    "tail ! (length tail - 1) = CHR '':''" "st = take (length tail - 3) (drop 1 tail)"
    using L pre sp by (auto simp: parseGoroutineHeader_def rest_def [symmetric] tail_def Let_def split: option.splits if_splits)
  have rest: "rest = take sp rest @ CHR '' '' # tail"
    using sp(1) id_take_nth_drop [of sp rest] unfolding Index_space tail_def by simp
  have "tail = CHR ''['' # st @ '']:''"
  proof -
    obtain c t where t: "tail = c # t" using i(2) by (cases tail) auto
    then obtain v y where v: "t = v @ [y]" using i(2) by (cases t rule: rev_cases) auto
    then obtain u x where u: "v = u @ [x]" using i(2) t by (cases v rule: rev_cases) auto
    show ?thesis using i(3-6) by (simp add: t v u nth_append)
  qed
  moreover have "list_all isDigit (take sp rest)" "i = int (digits_val 0 (take sp rest))" "i \<le> MaxInt64" "take sp rest \<noteq> []"
    using i(1) id_loop_eq [of 0 "take sp rest"] sp(2) sp(1) by (auto simp: MaxInt64_def Index_space split: if_splits)
  ultimately show ?R using line rest by (intro exI [of _ "take sp rest"]) auto
next
  assume ?R
  then obtain ds where ds: "line = goroutineHeaderPrefix @ ds @ '' ['' @ st @ '']:''" "ds \<noteq> []" "list_all isDigit ds"
    "i = int (digits_val 0 ds)" "i \<le> MaxInt64" by auto
  have "CHR '' '' \<notin> set ds" using ds(3) by (auto simp: list_all_iff isDigit_def)
  then have "Index (ds @ '' ['' @ st @ '']:'') '' '' = Some (length ds)" by (simp add: Index_space nth_append)
  moreover have "id_loop 0 ds = Some i" using id_loop_eq [of 0 ds] ds by simp
  ultimately show ?L
    using ds(1,2) unfolding parseGoroutineHeader_def by (auto simp: HasPrefix_iff Let_def nth_append nth_Cons' Suc_le_eq)
qed

lemma header_parsed:
  assumes "0 \<le> i" "i \<le> MaxInt64"
  shows "parseGoroutineHeader (goroutineHeaderPrefix @ FormatInt i @ '' ['' @ st @ '']:'') = Some (i, st)"
  unfolding parseGoroutineHeader_iff
  using assms by (intro exI [of _ "FormatInt i"]) (simp add: FormatInt_def itoa_nat_digits digits_val_itoa)

section \<open>Reading back a profile\<close>

text \<open>A goroutine of the profile: its id, the state between the brackets and the lines of its stack.\<close>

type_synonym block = "int \<times> string \<times> string list"

definition block_lines :: "block \<Rightarrow> string list" where
  "block_lines b = (case b of (i, st, ls) \<Rightarrow> (goroutineHeaderPrefix @ FormatInt i @ '' ['' @ st @ '']:'') # ls)"

fun profile_lines :: "block list \<Rightarrow> string list" where
  "profile_lines [] = []"
| "profile_lines [b] = block_lines b"
| "profile_lines (b # bs) = block_lines b @ [[]] @ profile_lines bs"

definition join_lines :: "string list \<Rightarrow> string" where
  "join_lines ls = concat (map (\<lambda>l. l @ [CHR 0x0A]) ls)"

definition line_ok :: "string \<Rightarrow> bool" where
  "line_ok l \<longleftrightarrow> CHR 0x0A \<notin> set l \<and> (l \<noteq> [] \<longrightarrow> last l \<noteq> CHR 0x0D) \<and> length l < MaxScanTokenSize"

definition block_ok :: "block \<Rightarrow> bool" where
  "block_ok b \<longleftrightarrow> list_all line_ok (block_lines b) \<and> (case b of (i, st, ls) \<Rightarrow> 0 \<le> i \<and> i \<le> MaxInt64 \<and> [] \<notin> set ls)"

definition goroutine_of :: "(int \<Rightarrow> activeSpanInfo option) \<Rightarrow> block \<Rightarrow> goroutine option" where
  "goroutine_of active b = (case b of (i, st, ls) \<Rightarrow>
     map_option (\<lambda>sp. \<lparr>g_id = i, g_header = goroutineHeaderPrefix @ FormatInt i, g_state = TrimSpace (fst (Cut CHR '','' st)),
       g_buf = join_lines (block_lines b), g_span = sp\<rparr>) (active i))"

lemma text_lines_line: "CHR 0x0A \<notin> set l \<Longrightarrow> text_lines acc (l @ CHR 0x0A # t) = (acc @ l) # text_lines [] t"
  by (induction l arbitrary: acc) auto

lemma text_lines_join: "list_all line_ok ls \<Longrightarrow> text_lines [] (join_lines ls) = ls"
  by (induction ls) (auto simp: join_lines_def line_ok_def text_lines_line)

lemma scan_join:
  assumes "list_all line_ok ls"
  shows "scan_lines (join_lines ls) = Some ls"
proof -
  have "map dropCR ls = ls" using assms by (auto simp: dropCR_def line_ok_def list_all_iff intro!: map_idI)
  moreover have "list_all (\<lambda>l. length l < MaxScanTokenSize) ls" using assms by (auto simp: line_ok_def list_all_iff)
  ultimately show ?thesis by (simp add: scan_lines_def text_lines_join assms)
qed

abbreviation between :: "goroutine list \<Rightarrow> profile_state" where
  "between gs \<equiv> \<lparr>dumped = gs, tracked = False, inBlock = False\<rparr>"

abbreviation inside :: "goroutine list \<Rightarrow> bool \<Rightarrow> profile_state" where
  "inside gs t \<equiv> \<lparr>dumped = gs, tracked = t, inBlock = True\<rparr>"

lemma stack_lines_skipped: "[] \<notin> set ls \<Longrightarrow> fold (profile_line active) ls (inside gs False) = inside gs False"
  by (induction ls) (auto simp: profile_line_def)

lemma stack_lines_added:
  "[] \<notin> set ls \<Longrightarrow> fold (profile_line active) ls (inside (gs @ [g]) True) = inside (gs @ [g\<lparr>g_buf := g_buf g @ join_lines ls\<rparr>]) True"
  by (induction ls arbitrary: g) (auto simp: profile_line_def add_last_def addLine_def join_lines_def)

lemma block_read:
  assumes "block_ok b"
  shows "fold (profile_line active) (block_lines b) (between gs) =
    inside (gs @ (case goroutine_of active b of Some g \<Rightarrow> [g] | None \<Rightarrow> [])) (goroutine_of active b \<noteq> None)"
proof -
  obtain i st ls where b: "b = (i, st, ls)" by (rule prod_cases3)
  have h: "parseGoroutineHeader (goroutineHeaderPrefix @ FormatInt i @ '' ['' @ st @ '']:'') = Some (i, st)"
    using assms by (intro header_parsed) (auto simp: block_ok_def b)
  have ls: "[] \<notin> set ls" using assms by (simp add: block_ok_def b)
  show ?thesis
  proof (cases "active i")
    case None
    then show ?thesis using h ls by (simp add: b block_lines_def profile_line_def goroutine_of_def stack_lines_skipped)
  next
    case (Some sp)
    then show ?thesis
      using h ls by (simp add: b block_lines_def profile_line_def goroutine_of_def stack_lines_added newGoroutine_def addLine_def join_lines_def)
  qed
qed

lemma profile_read:
  "list_all block_ok bs \<Longrightarrow> dumped (fold (profile_line active) (profile_lines bs) (between gs)) = gs @ List.map_filter (goroutine_of active) bs"
proof (induction bs arbitrary: gs rule: profile_lines.induct)
  case (2 b)
  then show ?case by (simp add: block_read map_filter_simps split: option.split)
next
  case (3 b b' bs)
  have "profile_line active [] (inside x t) = between x" for x t by (simp add: profile_line_def)
  then show ?case using 3 by (simp add: block_read map_filter_simps split: option.split)
qed (simp add: map_filter_simps)

lemma profile_lines_ok: "list_all block_ok bs \<Longrightarrow> list_all line_ok (profile_lines bs)"
  by (induction bs rule: profile_lines.induct) (auto simp: block_ok_def line_ok_def MaxScanTokenSize_def)

text \<open>
  (C25) The dump is the profile, goroutine by goroutine: of the goroutines the runtime prints exactly those that carry a span are
  kept, in order, each with its id, its state cut at the first comma, and its whole stack.
\<close>

theorem profile_roundtrip:
  assumes "list_all block_ok bs"
  shows "parseProfile active (join_lines (profile_lines bs)) = Some (List.map_filter (goroutine_of active) bs)"
  using assms by (simp add: parseProfile_def scan_join profile_lines_ok profile_read)

definition demo_span :: activeSpanInfo where
  "demo_span = \<lparr>info_startTime = 0, info_txId = ''a^1^2'', info_entryPoint = ''/'', info_sampled = True\<rparr>"

theorem profile_roundtrip_witness:
  "parseProfile (\<lambda>i. if i = 7 then Some demo_span else None)
      (join_lines (profile_lines [(1, ''running'', [''main.main()'']), (7, ''select, 3 minutes'', [''main.work()''])])) =
    Some [\<lparr>g_id = 7, g_header = ''goroutine 7'', g_state = ''select'',
       g_buf = ''goroutine 7 [select, 3 minutes]:'' @ [CHR 0x0A] @ ''main.work()'' @ [CHR 0x0A], g_span = demo_span\<rparr>]"
proof -
  let ?bs = "[(1, ''running'', [''main.main()'']), (7, ''select, 3 minutes'', [''main.work()''])] :: block list"
  have num: "FormatInt 7 = ''7''" "FormatInt 1 = ''1''" by code_simp+
  then have "list_all block_ok ?bs"
    by (simp add: block_ok_def block_lines_def line_ok_def goroutineHeaderPrefix_def MaxScanTokenSize_def MaxInt64_def)
  moreover have "TrimSpace (fst (Cut CHR '','' ''select, 3 minutes'')) = ''select''"
    using TrimSpace_graphic [of "''select''"] by (simp add: graphic_def)
  ultimately show ?thesis
    using profile_roundtrip [of ?bs "\<lambda>i. if i = 7 then Some demo_span else None"] num
    by (simp add: map_filter_simps goroutine_of_def goroutineHeaderPrefix_def join_lines_def block_lines_def)
qed

section \<open>Selecting goroutines by name\<close>

text \<open>What the index is for: the first goroutine of the dump with each requested name.\<close>

definition dump_reference :: "goroutine list \<Rightarrow> int \<Rightarrow> string list \<Rightarrow> goroutine list" where
  "dump_reference gs limit names = take (dump_limit limit gs) (List.map_filter (\<lambda>n. find (\<lambda>g. g_header g = n) gs) names)"

definition pending :: "(string \<times> goroutine option) list \<Rightarrow> nat" where
  "pending index = length (filter (\<lambda>p. snd p = None) index)"

lemma pending_update:
  assumes "distinct (map fst index)" "map_of index k = Some None"
  shows "pending (AList.update k (Some g) index) = pending index - 1" "0 < pending index"
proof -
  have "pending (AList.update k (Some g) index) + 1 = pending index"
    using assms by (induction index) (auto simp: pending_def map_of_eq_None_iff [symmetric] split: if_splits)
  then show "pending (AList.update k (Some g) index) = pending index - 1" "0 < pending index" by auto
qed

lemma none_pending: "pending index = 0 \<Longrightarrow> map_of index k \<noteq> Some None"
  using map_of_SomeD [of index k None] by (force simp: pending_def filter_empty_conv)

lemma index_loop_finds:
  assumes "distinct (map fst index)" "remaining = pending index"
  shows "map_of (index_loop remaining index gs) n =
    (case map_of index n of Some None \<Rightarrow> Some (find (\<lambda>g. g_header g = n) gs) | x \<Rightarrow> x)"
  using assms
proof (induction gs arbitrary: remaining index)
  case (Cons g gs)
  show ?case
  proof (cases "map_of index (g_header g) = Some None")
    case True
    let ?index = "AList.update (g_header g) (Some g) index"
    have rem: "remaining - 1 = pending ?index" using pending_update [OF Cons.prems(1) True] Cons.prems(2) by simp
    have step: "index_loop remaining index (g # gs) = (if pending ?index = 0 then ?index else index_loop (pending ?index) ?index gs)"
      using True rem by (simp add: Let_def)
    have "map_of (index_loop remaining index (g # gs)) n = (case map_of ?index n of Some None \<Rightarrow> Some (find (\<lambda>g. g_header g = n) gs) | x \<Rightarrow> x)"
      using Cons.IH [of ?index "pending ?index"] Cons.prems(1) none_pending [of ?index n] unfolding step
      by (auto simp: distinct_update split: option.split)
    then show ?thesis using True by (auto simp: update_conv' split: option.split)
  next
    case False
    then have "index_loop remaining index (g # gs) = index_loop remaining index gs" by (auto split: option.split)
    then show ?thesis using Cons False by (auto split: option.split)
  qed
qed (auto split: option.split)

lemma start_index:
  "distinct (map fst index) \<Longrightarrow> distinct (map fst (fold (\<lambda>n. AList.update n None) names index))"
  "map_of (fold (\<lambda>n. AList.update n None) names index) n = (if n \<in> set names then Some None else map_of index n)"
  by (induction names arbitrary: index) (auto simp: distinct_update update_conv')

lemma indexByHeader_finds:
  "map_of (indexByHeader names gs) n = (if n \<in> set names then Some (find (\<lambda>g. g_header g = n) gs) else None)"
proof -
  let ?index = "fold (\<lambda>n. AList.update n None) names [] :: (string \<times> goroutine option) list"
  have dist: "distinct (map fst ?index)" by (rule start_index(1)) simp
  have "snd p = None" if "p \<in> set ?index" for p
  proof -
    have "map_of ?index (fst p) = Some (snd p)" using that dist by (intro map_of_is_SomeI) simp_all
    then show ?thesis using start_index(2) [of names "[] :: (string \<times> goroutine option) list" "fst p"] by (simp split: if_splits)
  qed
  then have "length ?index = pending ?index" by (simp add: pending_def)
  then show ?thesis
    using index_loop_finds [of ?index "length ?index" gs n] dist start_index(2) [of names "[] :: (string \<times> goroutine option) list" n]
    by (auto simp: indexByHeader_def Let_def split: option.splits if_splits)
qed

text \<open>
  The single pass over the dump with an index that stops at the last name found lists the same goroutines as a search of the dump
  for each name: in the order of the request, at most the limit, and nothing for a name that no goroutine has.
\<close>

theorem thread_dump_selects:
  "makePActiveThreadDumpList (Some gs) limit names = map makePActiveThreadDump (dump_reference gs limit names)"
proof -
  have "List.map_filter (\<lambda>tn. case map_of (indexByHeader names gs) tn of Some g \<Rightarrow> g | None \<Rightarrow> None) ns =
      List.map_filter (\<lambda>n. find (\<lambda>g. g_header g = n) gs) ns" if "set ns \<subseteq> set names" for ns
    using that by (induction ns) (simp_all add: indexByHeader_finds split: option.split)
  then show ?thesis by (simp add: makePActiveThreadDumpList_def dump_reference_def Let_def)
qed

end
