(* ===== verification/Commands.thy ===== *)
theory Commands
  imports Goroutine_Dump
begin

text \<open>
  The collector's commands (\<^verbatim>\<open>src/command.go\<close>, \<^verbatim>\<open>src/grpc_cmd.go\<close>): the service loop that opens command streams and answers requests, and
  the active thread count streams, one goroutine each, that feed the real-time view. What a stream receives, whether an
  RPC succeeds and the clock are inputs. Shown: at most ten of these streams are open in any interleaving, at most one of them
  lives per request id, a stream told to stop frees its slot, and the shared sample is never older than its interval.
\<close>

section \<open>The registry of active thread count streams\<close>

definition maxActiveThreadCountStreams :: nat where "maxActiveThreadCountStreams = 10"
definition activeThreadCountInterval :: duration where "activeThreadCountInterval = 1000000000"

text \<open>A stream object: \<open>stopped\<close> is its cancelled \<^verbatim>\<open>stopCtx\<close>, \<open>handle\<close> whether it holds an open gRPC stream.\<close>

record activeThreadCountStream =
  reqId :: go_int32
  stopped :: bool
  handle :: bool
  actCount :: go_int32

definition newActiveThreadCountStream :: "go_int32 \<Rightarrow> activeThreadCountStream" where
  "newActiveThreadCountStream i = \<lparr>reqId = i, stopped = False, handle = False, actCount = 0\<rparr>"

text \<open>\<open>members\<close> are the keys of the map, by identity; \<open>objects\<close> the streams they point to.\<close>

record atcStreams =
  members :: "nat list"
  objects :: "nat \<Rightarrow> activeThreadCountStream"

definition publishCount :: "atcStreams \<Rightarrow> request_agent \<Rightarrow> request_agent" where
  "publishCount r a = a\<lparr>atcStreamCount := int (length (members r))\<rparr>"

definition stop_same :: "go_int32 \<Rightarrow> atcStreams \<Rightarrow> atcStreams" where
  "stop_same i r = r\<lparr>objects := (\<lambda>k. if k \<in> set (members r) \<and> reqId (objects r k) = i then (objects r k)\<lparr>stopped := True\<rparr> else objects r k)\<rparr>"

definition atc_add :: "nat \<Rightarrow> atcStreams \<Rightarrow> request_agent \<Rightarrow> bool \<times> atcStreams \<times> request_agent" where
  "atc_add k r a =
     (let r = stop_same (reqId (objects r k)) r in
      if length (members r) \<ge> maxActiveThreadCountStreams then (False, r, a)
      else let r = r\<lparr>members := List.insert k (members r)\<rparr> in (True, r, publishCount r a))"

definition atc_remove :: "nat \<Rightarrow> atcStreams \<Rightarrow> request_agent \<Rightarrow> atcStreams \<times> request_agent" where
  "atc_remove k r a =
     (let r = r\<lparr>members := removeAll k (members r)\<rparr>; a = publishCount r a
      in (r, if length (members r) = 0 then a\<lparr>realTimeActiveSpan := Map.empty\<rparr> else a))"

section \<open>The shared sample\<close>

text \<open>\<open>getActiveSpanCount\<close> over the entries of the real-time map, in any order.\<close>

definition getActiveSpanCount :: "time \<Rightarrow> activeSpanInfo list \<Rightarrow> nat list" where
  "getActiveSpanCount now spans = fold (\<lambda>v counts. bucketActiveSpan counts now (info_startTime v)) spans [0, 0, 0, 0]"

record sample =
  sampleAt :: "time option"
  sampleCounts :: "nat list"

definition activeSpanCount :: "time \<Rightarrow> activeSpanInfo list \<Rightarrow> sample \<Rightarrow> nat list \<times> sample" where
  "activeSpanCount now spans s =
     (let s = (case sampleAt s of
           None \<Rightarrow> \<lparr>sampleAt = Some now, sampleCounts = getActiveSpanCount now spans\<rparr>
         | Some t \<Rightarrow> if now < t \<or> now - t \<ge> activeThreadCountInterval
                     then \<lparr>sampleAt = Some now, sampleCounts = getActiveSpanCount now spans\<rparr> else s)
      in (sampleCounts s, s))"

fun sample_run :: "sample \<Rightarrow> (time \<times> activeSpanInfo list) list \<Rightarrow> nat list list" where
  "sample_run s [] = []"
| "sample_run s ((now, spans) # calls) = (let (counts, s) = activeSpanCount now spans s in counts # sample_run s calls)"

definition no_sample :: sample where
  "no_sample = \<lparr>sampleAt = None, sampleCounts = []\<rparr>"

definition sample_of :: "(time \<times> activeSpanInfo list) list \<Rightarrow> sample \<Rightarrow> bool" where
  "sample_of calls s \<longleftrightarrow> (case sampleAt s of None \<Rightarrow> True
     | Some t \<Rightarrow> \<exists>spans. (t, spans) \<in> set calls \<and> sampleCounts s = getActiveSpanCount t spans)"

lemma activeSpanCount_fresh:
  assumes "activeSpanCount now spans s = (counts, s')" "sample_of calls s"
  shows "sample_of (calls @ [(now, spans)]) s'"
    and "\<exists>t m. (t, m) \<in> set (calls @ [(now, spans)]) \<and> counts = getActiveSpanCount t m \<and> t \<le> now \<and> now < t + activeThreadCountInterval"
proof -
  show of: "sample_of (calls @ [(now, spans)]) s'"
    using assms by (auto simp: activeSpanCount_def sample_of_def Let_def split: option.splits if_splits)
  have "\<exists>t. sampleAt s' = Some t \<and> t \<le> now \<and> now < t + activeThreadCountInterval" and counts: "counts = sampleCounts s'"
    using assms(1) by (auto simp: activeSpanCount_def Let_def activeThreadCountInterval_def split: option.splits if_splits)
  then obtain t where t: "sampleAt s' = Some t" "t \<le> now" "now < t + activeThreadCountInterval" by blast
  with of obtain m where "(t, m) \<in> set (calls @ [(now, spans)])" "sampleCounts s' = getActiveSpanCount t m" by (auto simp: sample_of_def)
  with t counts
  show "\<exists>t m. (t, m) \<in> set (calls @ [(now, spans)]) \<and> counts = getActiveSpanCount t m \<and> t \<le> now \<and> now < t + activeThreadCountInterval"
    by blast
qed

lemma sample_run_fresh:
  assumes "sample_of earlier s" "i < length calls"
  shows "\<exists>t m. (t, m) \<in> set (earlier @ take (Suc i) calls) \<and> sample_run s calls ! i = getActiveSpanCount t m
    \<and> t \<le> fst (calls ! i) \<and> fst (calls ! i) < t + activeThreadCountInterval"
  using assms
proof (induction calls arbitrary: earlier s i)
  case (Cons c calls)
  obtain now spans where c: "c = (now, spans)" by (cases c)
  obtain counts s' where call: "activeSpanCount now spans s = (counts, s')" by (cases "activeSpanCount now spans s")
  note fresh = activeSpanCount_fresh [OF call Cons.prems(1)]
  show ?case
  proof (cases i)
    case 0
    with fresh(2) show ?thesis by (auto simp: c call)
  next
    case (Suc j)
    with Cons.IH [OF fresh(1), of j] Cons.prems(2) show ?thesis by (auto simp: c call)
  qed
qed simp

text \<open>
  However many streams share the sample, and whatever the clock does, each of them reports counts taken from the spans in
  flight at a reading of the clock at most one interval before its own.
\<close>

theorem shared_sample_fresh:
  assumes "i < length calls"
  shows "\<exists>t m. (t, m) \<in> set (take (Suc i) calls) \<and> sample_run no_sample calls ! i = getActiveSpanCount t m
    \<and> t \<le> fst (calls ! i) \<and> fst (calls ! i) < t + activeThreadCountInterval"
proof -
  have "sample_of [] no_sample" by (simp add: sample_of_def no_sample_def)
  from sample_run_fresh [OF this assms] show ?thesis by simp
qed

theorem shared_sample_fresh_witness:
  "\<exists>t m. (t, m) \<in> set (take 2 [(0, []), (5, [\<lparr>info_startTime = 0, info_txId = [], info_entryPoint = [], info_sampled = False\<rparr>])])
     \<and> sample_run no_sample [(0, []), (5, [\<lparr>info_startTime = 0, info_txId = [], info_entryPoint = [], info_sampled = False\<rparr>])] ! 1
         = getActiveSpanCount t m \<and> t \<le> 5"
  using shared_sample_fresh [of 1 "[(0, []), (5, [\<lparr>info_startTime = 0, info_txId = [], info_entryPoint = [], info_sampled = False\<rparr>])]"]
  by (auto simp: numeral_2_eq_2)

section \<open>The streams and the command worker\<close>

text \<open>
  Where a stream is: not requested yet, refused, registered and waiting for its RPC, at the loop condition, sending, in the
  \<^verbatim>\<open>select\<close>, in the deferred close, about to free its slot, gone. \<open>in_request\<close> is the request the command worker is in the middle of;
  \<open>shutdown\<close> the cancelled stop signal, \<open>halted\<close> the end of \<^verbatim>\<open>workerContinues\<close>.
\<close>

datatype stream_pc = Unused | Refused | Registered | LoopHead | Sending | Selecting | Closing | Removing | Gone

record atc_system =
  registry :: atcStreams
  the_agent :: request_agent
  pc :: "nat \<Rightarrow> stream_pc"
  in_request :: "nat option"
  shutdown :: bool
  halted :: bool

definition move :: "nat \<Rightarrow> stream_pc \<Rightarrow> atc_system \<Rightarrow> atc_system" where
  "move k p s = s\<lparr>pc := (pc s)(k := p)\<rparr>"

definition on_object :: "nat \<Rightarrow> (activeThreadCountStream \<Rightarrow> activeThreadCountStream) \<Rightarrow> atc_system \<Rightarrow> atc_system" where
  "on_object k f s = s\<lparr>registry := (registry s)\<lparr>objects := (objects (registry s))(k := f (objects (registry s) k))\<rparr>\<rparr>"

definition the_stream :: "atc_system \<Rightarrow> nat \<Rightarrow> activeThreadCountStream" where
  "the_stream s k = objects (registry s) k"

definition removed :: "nat \<Rightarrow> atc_system \<Rightarrow> atc_system" where
  "removed k s = (let (r, a) = atc_remove k (registry s) (the_agent s) in s\<lparr>registry := r, the_agent := a\<rparr>)"

definition with_registry :: "atcStreams \<times> request_agent \<Rightarrow> atc_system \<Rightarrow> atc_system" where
  "with_registry ra s = s\<lparr>registry := fst ra, the_agent := snd ra\<rparr>"

definition created :: "nat \<Rightarrow> go_int32 \<Rightarrow> atc_system \<Rightarrow> atc_system" where
  "created k i s = on_object k (\<lambda>_. newActiveThreadCountStream i) s"

inductive atc_step :: "atc_system \<Rightarrow> atc_system \<Rightarrow> bool" where
  accept: "in_request s = None \<Longrightarrow> pc s k = Unused \<Longrightarrow>
    atc_add k (registry (created k i s)) (the_agent s) = (True, ra) \<Longrightarrow>
    atc_step s ((move k Registered (with_registry ra s))\<lparr>in_request := Some k\<rparr>)"
| refuse: "in_request s = None \<Longrightarrow> pc s k = Unused \<Longrightarrow>
    atc_add k (registry (created k i s)) (the_agent s) = (False, ra) \<Longrightarrow>
    atc_step s (move k Refused (with_registry ra s))"
| opened: "in_request s = Some k \<Longrightarrow>
    atc_step s ((move k LoopHead (on_object k (\<lambda>x. x\<lparr>handle := True\<rparr>) s))\<lparr>in_request := None\<rparr>)"
| open_failed: "in_request s = Some k \<Longrightarrow> atc_step s ((move k Gone (removed k s))\<lparr>in_request := None\<rparr>)"
| go_on: "pc s k = LoopHead \<Longrightarrow> \<not> halted s \<Longrightarrow> \<not> stopped (the_stream s k) \<Longrightarrow> atc_step s (move k Sending s)"
| loop_exit: "pc s k = LoopHead \<Longrightarrow> halted s \<or> stopped (the_stream s k) \<Longrightarrow> atc_step s (move k Closing s)"
| sent: "pc s k = Sending \<Longrightarrow> atc_step s (move k Selecting (on_object k (\<lambda>x. x\<lparr>actCount := actCount x + 1\<rparr>) s))"
| send_failed: "pc s k = Sending \<Longrightarrow> atc_step s (move k Closing (on_object k (\<lambda>x. x\<lparr>actCount := actCount x + 1\<rparr>) s))"
| timer: "pc s k = Selecting \<Longrightarrow> atc_step s (move k LoopHead s)"
| select_stop: "pc s k = Selecting \<Longrightarrow> shutdown s \<or> stopped (the_stream s k) \<Longrightarrow> atc_step s (move k Closing s)"
| panic: "pc s k = LoopHead \<or> pc s k = Sending \<or> pc s k = Selecting \<Longrightarrow> atc_step s (move k Closing s)"
| closed: "pc s k = Closing \<Longrightarrow> atc_step s (move k Removing (on_object k (\<lambda>x. x\<lparr>handle := False\<rparr>) s))"
| remove: "pc s k = Removing \<Longrightarrow> atc_step s (move k Gone (removed k s))"
| stop_signal: "atc_step s (s\<lparr>shutdown := True\<rparr>)"
| halt: "atc_step s (s\<lparr>shutdown := True, halted := True\<rparr>)"
| requests: "atcStreamCount a = atcStreamCount (the_agent s) \<Longrightarrow> atc_step s (s\<lparr>the_agent := a\<rparr>)"

definition init_atc :: "request_agent \<Rightarrow> atc_system" where
  "init_atc a = \<lparr>registry = \<lparr>members = [], objects = (\<lambda>_. newActiveThreadCountStream 0)\<rparr>, the_agent = a\<lparr>atcStreamCount := 0\<rparr>,
     pc = (\<lambda>_. Unused), in_request = None, shutdown = False, halted = False\<rparr>"

inductive atc_reach :: "request_agent \<Rightarrow> atc_system \<Rightarrow> bool" for a where
  init: "atc_reach a (init_atc a)"
| step: "atc_reach a s \<Longrightarrow> atc_step s t \<Longrightarrow> atc_reach a t"

fun holds_slot :: "stream_pc \<Rightarrow> bool" where
  "holds_slot Unused = False" | "holds_slot Refused = False" | "holds_slot Gone = False" | "holds_slot _ = True"

fun holds_handle :: "stream_pc \<Rightarrow> bool" where
  "holds_handle LoopHead = True" | "holds_handle Sending = True" | "holds_handle Selecting = True" | "holds_handle Closing = True"
| "holds_handle _ = False"

definition placed :: "atc_system \<Rightarrow> nat \<Rightarrow> bool" where
  "placed s k \<longleftrightarrow> (k \<in> set (members (registry s)) \<longleftrightarrow> holds_slot (pc s k)) \<and> (handle (the_stream s k) \<longleftrightarrow> holds_handle (pc s k))
     \<and> (in_request s = Some k \<longleftrightarrow> pc s k = Registered)"

definition slots_counted :: "atc_system \<Rightarrow> bool" where
  "slots_counted s \<longleftrightarrow> distinct (members (registry s)) \<and> length (members (registry s)) \<le> maxActiveThreadCountStreams
     \<and> atcStreamCount (the_agent s) = int (length (members (registry s)))"

definition one_per_id :: "atc_system \<Rightarrow> bool" where
  "one_per_id s \<longleftrightarrow> (\<forall>j\<in>set (members (registry s)). \<forall>k\<in>set (members (registry s)).
     j \<noteq> k \<and> reqId (the_stream s j) = reqId (the_stream s k) \<longrightarrow> stopped (the_stream s j) \<or> stopped (the_stream s k))"

lemma stop_same_sel [simp]:
  "members (stop_same i r) = members r" "reqId (objects (stop_same i r) k) = reqId (objects r k)"
  "handle (objects (stop_same i r) k) = handle (objects r k)"
  "stopped (objects (stop_same i r) k) \<longleftrightarrow> stopped (objects r k) \<or> k \<in> set (members r) \<and> reqId (objects r k) = i"
  by (auto simp: stop_same_def)

lemma object_sel [simp]:
  "members (registry (on_object k f s)) = members (registry s)" "the_agent (on_object k f s) = the_agent s"
  "pc (on_object k f s) = pc s" "in_request (on_object k f s) = in_request s"
  "the_stream (on_object k f s) j = (if j = k then f (the_stream s k) else the_stream s j)"
  by (simp_all add: on_object_def the_stream_def)

lemma move_sel [simp]:
  "registry (move k p s) = registry s" "the_agent (move k p s) = the_agent s" "in_request (move k p s) = in_request s"
  "pc (move k p s) = (pc s)(k := p)" "the_stream (move k p s) j = the_stream s j"
  by (simp_all add: move_def the_stream_def)

lemma removed_sel [simp]:
  "members (registry (removed k s)) = removeAll k (members (registry s))" "the_stream (removed k s) j = the_stream s j"
  "atcStreamCount (the_agent (removed k s)) = int (length (removeAll k (members (registry s))))"
  "pc (removed k s) = pc s" "in_request (removed k s) = in_request s"
  by (simp_all add: removed_def atc_remove_def publishCount_def the_stream_def Let_def)

text \<open>Adding a stream: every other stream of its request id is stopped first, even when the cap then refuses it.\<close>

definition superseded :: "nat \<Rightarrow> go_int32 \<Rightarrow> atc_system \<Rightarrow> nat \<Rightarrow> activeThreadCountStream" where
  "superseded k i s j = (if j = k then newActiveThreadCountStream i
     else if j \<in> set (members (registry s)) \<and> reqId (the_stream s j) = i then (the_stream s j)\<lparr>stopped := True\<rparr> else the_stream s j)"

lemma add_accepted:
  assumes "atc_add k (registry (created k i s)) (the_agent s) = (True, ra)" "k \<notin> set (members (registry s))"
  shows "length (members (registry s)) < maxActiveThreadCountStreams" "members (fst ra) = k # members (registry s)"
    "atcStreamCount (snd ra) = int (length (members (registry s))) + 1" "objects (fst ra) j = superseded k i s j"
  using assms
  by (auto simp: atc_add_def publishCount_def Let_def created_def on_object_def the_stream_def stop_same_def newActiveThreadCountStream_def
      superseded_def split: if_splits)

lemma add_refused:
  assumes "atc_add k (registry (created k i s)) (the_agent s) = (False, ra)" "k \<notin> set (members (registry s))"
  shows "members (fst ra) = members (registry s)" "snd ra = the_agent s" "objects (fst ra) j = superseded k i s j"
  using assms
  by (auto simp: atc_add_def Let_def created_def on_object_def the_stream_def stop_same_def newActiveThreadCountStream_def
      superseded_def split: if_splits)

lemma superseded_sel [simp]:
  "handle (superseded k i s j) \<longleftrightarrow> j \<noteq> k \<and> handle (the_stream s j)"
  "reqId (superseded k i s j) = (if j = k then i else reqId (the_stream s j))"
  "stopped (superseded k i s j) \<longleftrightarrow> j \<noteq> k \<and> (stopped (the_stream s j) \<or> j \<in> set (members (registry s)) \<and> reqId (the_stream s j) = i)"
  by (auto simp: superseded_def newActiveThreadCountStream_def)

lemma with_registry_sel [simp]:
  "registry (with_registry ra s) = fst ra" "the_agent (with_registry ra s) = snd ra" "pc (with_registry ra s) = pc s"
  "in_request (with_registry ra s) = in_request s" "the_stream (with_registry ra s) j = objects (fst ra) j"
  by (simp_all add: with_registry_def the_stream_def)

lemma unused_not_member: "placed s k \<Longrightarrow> pc s k = Unused \<Longrightarrow> k \<notin> set (members (registry s))"
  by (simp add: placed_def)

lemma agent_field [simp]:
  "the_stream (s\<lparr>the_agent := a\<rparr>) k = the_stream s k" "the_stream (s\<lparr>shutdown := b\<rparr>) k = the_stream s k"
  "the_stream (s\<lparr>halted := b\<rparr>) k = the_stream s k" "the_stream (s\<lparr>in_request := r\<rparr>) k = the_stream s k"
  by (simp_all add: the_stream_def)

lemma step_placed:
  assumes "atc_step s t" "\<And>k. placed s k"
  shows "placed t j"
  using assms
proof (induction rule: atc_step.induct)
  case (accept s k i ra)
  note sel = add_accepted [OF accept(3) unused_not_member [OF accept.prems accept(2)]]
  from accept.prems [of j] accept.prems [of k] accept(1,2) show ?case
    by (cases "j = k") (simp_all add: placed_def sel(2) sel(4) [of j] sel(4) [of k])
next
  case (refuse s k i ra)
  note sel = add_refused [OF refuse(3) unused_not_member [OF refuse.prems refuse(2)]]
  from refuse.prems [of j] refuse.prems [of k] refuse(1,2) show ?case
    by (cases "j = k") (simp_all add: placed_def sel(1) sel(3) [of j] sel(3) [of k])
next
  case (opened s k)
  from opened(2) [of j] opened(2) [of k] opened(1) show ?case by (cases "j = k") (auto simp: placed_def)
next
  case (open_failed s k)
  from open_failed(2) [of j] open_failed(2) [of k] open_failed(1) show ?case by (cases "j = k") (auto simp: placed_def)
qed (drule meta_spec [of _ j]; auto simp: placed_def)+

lemma length_removeAll_le: "length xs \<le> n \<Longrightarrow> length (removeAll k xs) \<le> n"
  by (rule le_trans [OF length_removeAll_less_eq])

lemma step_counted:
  assumes "atc_step s t" "\<And>k. placed s k" "slots_counted s"
  shows "slots_counted t"
  using assms
proof (induction rule: atc_step.induct)
  case (accept s k i ra)
  have new: "k \<notin> set (members (registry s))" using accept.prems(1) accept(2) by (rule unused_not_member)
  from accept.prems(2) add_accepted(1-3) [OF accept(3) new] new show ?case by (simp add: slots_counted_def)
next
  case (refuse s k i ra)
  have new: "k \<notin> set (members (registry s))" using refuse.prems(1) refuse(2) by (rule unused_not_member)
  from refuse.prems(2) add_refused(1,2) [OF refuse(3) new] new show ?case by (simp add: slots_counted_def)
next
  case (open_failed s k)
  then show ?case by (simp add: slots_counted_def distinct_removeAll length_removeAll_le)
next
  case (remove s k)
  then show ?case by (simp add: slots_counted_def distinct_removeAll length_removeAll_le)
qed (simp_all add: slots_counted_def)

lemma step_one_per_id:
  assumes "atc_step s t" "\<And>k. placed s k" "one_per_id s"
  shows "one_per_id t"
  using assms
proof (induction rule: atc_step.induct)
  case (accept s k i ra)
  have new: "k \<notin> set (members (registry s))" using accept.prems(1) accept(2) by (rule unused_not_member)
  from accept.prems(2) new show ?case by (simp add: one_per_id_def add_accepted(2,4) [OF accept(3) new]) blast
next
  case (refuse s k i ra)
  have new: "k \<notin> set (members (registry s))" using refuse.prems(1) refuse(2) by (rule unused_not_member)
  from refuse.prems(2) new show ?case by (simp add: one_per_id_def add_refused(1,3) [OF refuse(3) new]) blast
qed (simp_all add: one_per_id_def)

definition atc_inv :: "atc_system \<Rightarrow> bool" where
  "atc_inv s \<longleftrightarrow> (\<forall>k. placed s k) \<and> slots_counted s \<and> one_per_id s"

lemma reach_atc_inv: "atc_reach a s \<Longrightarrow> atc_inv s"
proof (induction rule: atc_reach.induct)
  case init
  show ?case by (simp add: atc_inv_def placed_def slots_counted_def one_per_id_def init_atc_def the_stream_def newActiveThreadCountStream_def)
next
  case (step s t)
  then have inv: "\<And>k. placed s k" "slots_counted s" "one_per_id s" by (simp_all add: atc_inv_def)
  show ?case unfolding atc_inv_def
    using step_placed [OF step(2) inv(1)] step_counted [OF step(2) inv(1,2)] step_one_per_id [OF step(2) inv(1,3)] by blast
qed

lemma one_per_id_distinct:
  assumes "one_per_id s" "distinct (members (registry s))"
  shows "distinct (map (\<lambda>k. reqId (the_stream s k)) (filter (\<lambda>k. \<not> stopped (the_stream s k)) (members (registry s))))"
  unfolding distinct_map using assms by (auto simp: one_per_id_def inj_on_def)

text \<open>
  (C13) However the collector repeats its requests and however the streams end, at most ten active thread count streams are registered and at
  most those hold a gRPC stream, the count the request path reads is theirs, and among those not told to stop no two answer the
  same request.
\<close>

theorem viewers_bounded:
  assumes "atc_reach a s"
  shows "length (members (registry s)) \<le> maxActiveThreadCountStreams \<and> {k. handle (the_stream s k)} \<subseteq> set (members (registry s))
    \<and> atcStreamCount (the_agent s) = int (length (members (registry s)))
    \<and> distinct (map (\<lambda>k. reqId (the_stream s k)) (filter (\<lambda>k. \<not> stopped (the_stream s k)) (members (registry s))))"
proof -
  have inv: "atc_inv s" using assms by (rule reach_atc_inv)
  have "k \<in> set (members (registry s))" if "handle (the_stream s k)" for k
    using inv that by (cases "pc s k") (auto simp: atc_inv_def placed_def dest!: spec [of _ k])
  with inv one_per_id_distinct [of s] show ?thesis by (auto simp: atc_inv_def slots_counted_def)
qed

text \<open>How many steps of its own a stream that was told to stop has before its slot is free.\<close>

fun leave_rank :: "stream_pc \<Rightarrow> nat" where
  "leave_rank Registered = 6" | "leave_rank Sending = 5" | "leave_rank Selecting = 4" | "leave_rank LoopHead = 3"
| "leave_rank Closing = 2" | "leave_rank Removing = 1" | "leave_rank _ = 0"

lemma rank_zero: "leave_rank p = 0 \<longleftrightarrow> \<not> holds_slot p"
  by (cases p) simp_all

lemma stopped_step:
  assumes "atc_step s t" "\<And>k. placed s k" "stopped (the_stream s k)" "k \<in> set (members (registry s))"
  shows "leave_rank (pc t k) < leave_rank (pc s k) \<or> pc t k = pc s k \<and> stopped (the_stream t k)"
  using assms
proof (induction rule: atc_step.induct)
  case (accept s j i ra)
  have "j \<notin> set (members (registry s))" using accept.prems(1) accept(2) by (rule unused_not_member)
  with accept add_accepted(4) [OF accept(3) this, of k] show ?case by auto
next
  case (refuse s j i ra)
  have "j \<notin> set (members (registry s))" using refuse.prems(1) refuse(2) by (rule unused_not_member)
  with refuse add_refused(3) [OF refuse(3) this, of k] show ?case by auto
next
  case (opened s j)
  with opened(2) [of j] show ?case by (auto simp: placed_def)
next
  case (open_failed s j)
  with open_failed(2) [of j] show ?case by (auto simp: placed_def)
qed auto

lemma stopped_progress:
  assumes "placed s k" "stopped (the_stream s k)" "k \<in> set (members (registry s))"
  shows "\<exists>t. atc_step s t \<and> leave_rank (pc t k) < leave_rank (pc s k)"
proof (cases "pc s k")
  case Registered
  with assms have "in_request s = Some k" by (simp add: placed_def)
  from atc_step.opened [OF this] Registered show ?thesis by (intro exI conjI) auto
next
  case LoopHead
  with assms(2) atc_step.loop_exit [of s k] show ?thesis by (intro exI conjI) auto
next
  case Sending
  from atc_step.sent [OF this] Sending show ?thesis by (intro exI conjI) auto
next
  case Selecting
  from atc_step.timer [OF this] Selecting show ?thesis by (intro exI conjI) auto
next
  case Closing
  from atc_step.closed [OF this] Closing show ?thesis by (intro exI conjI) auto
next
  case Removing
  from atc_step.remove [OF this] Removing show ?thesis by (intro exI conjI) auto
qed (use assms in \<open>simp_all add: placed_def\<close>)

text \<open>
  (C26) A stream that was told to stop gives its slot back: it can always take a step of its own, every such step brings it closer to
  the removal, of which it is at most six steps away, and nothing that happens elsewhere sets it back.
\<close>

theorem stopped_stream_leaves:
  assumes "atc_reach a s" "stopped (the_stream s k)" "k \<in> set (members (registry s))"
  shows "0 < leave_rank (pc s k) \<and> leave_rank (pc s k) \<le> 6 \<and> (\<exists>t. atc_step s t \<and> leave_rank (pc t k) < leave_rank (pc s k))
    \<and> (\<forall>t. atc_step s t \<longrightarrow> leave_rank (pc t k) < leave_rank (pc s k) \<or> pc t k = pc s k \<and> stopped (the_stream t k))"
proof -
  have placed: "placed s j" for j using reach_atc_inv [OF assms(1)] by (simp add: atc_inv_def)
  then have "0 < leave_rank (pc s k)" using assms(3) rank_zero [of "pc s k"] by (simp add: placed_def)
  moreover have "leave_rank p \<le> 6" for p by (cases p) simp_all
  ultimately show ?thesis using stopped_progress [OF placed assms(2,3)] stopped_step [OF _ placed assms(2,3)] by blast
qed

text \<open>A request that the collector repeats: the second stream of request 7 stops the first.\<close>

definition first_viewer :: "request_agent \<Rightarrow> atc_system" where
  "first_viewer a = (let ra = snd (atc_add 0 (registry (created 0 7 (init_atc a))) (the_agent (init_atc a)))
     in (move 0 LoopHead (on_object 0 (\<lambda>x. x\<lparr>handle := True\<rparr>) (with_registry ra (init_atc a))))\<lparr>in_request := None\<rparr>)"

definition two_viewers :: "request_agent \<Rightarrow> atc_system" where
  "two_viewers a = (let s = first_viewer a; ra = snd (atc_add 1 (registry (created 1 7 s)) (the_agent s))
     in (move 1 Registered (with_registry ra s))\<lparr>in_request := Some 1\<rparr>)"

lemma two_viewers_reached: "atc_reach a (two_viewers a)"
proof -
  let ?s0 = "init_atc a" and ?s1 = "first_viewer a"
  let ?ra = "snd (atc_add 0 (registry (created 0 7 ?s0)) (the_agent ?s0))"
  have "atc_add 0 (registry (created 0 7 ?s0)) (the_agent ?s0) = (True, ?ra)"
    by (simp add: atc_add_def created_def on_object_def init_atc_def Let_def stop_same_def maxActiveThreadCountStreams_def)
  from atc_reach.step [OF atc_reach.init atc_step.accept [OF _ _ this]]
  have "atc_reach a ((move 0 Registered (with_registry ?ra ?s0))\<lparr>in_request := Some 0\<rparr>)" by (simp add: init_atc_def)
  from atc_reach.step [OF this atc_step.opened [of _ 0]] have one: "atc_reach a ?s1"
    by (simp add: first_viewer_def Let_def move_def on_object_def with_registry_def)
  let ?rb = "snd (atc_add 1 (registry (created 1 7 ?s1)) (the_agent ?s1))"
  have "length (members (registry ?s1)) = 1"
    by (simp add: first_viewer_def atc_add_def created_def on_object_def init_atc_def Let_def stop_same_def maxActiveThreadCountStreams_def
        with_registry_def move_def)
  then have "atc_add 1 (registry (created 1 7 ?s1)) (the_agent ?s1) = (True, ?rb)"
    by (simp add: atc_add_def created_def Let_def maxActiveThreadCountStreams_def)
  from atc_reach.step [OF one atc_step.accept [OF _ _ this]] show ?thesis
    by (simp add: two_viewers_def Let_def first_viewer_def init_atc_def)
qed

lemma two_viewers_are:
  "members (registry (two_viewers a)) = [1, 0]" "stopped (the_stream (two_viewers a) 0)" "\<not> stopped (the_stream (two_viewers a) 1)"
  by (simp_all add: two_viewers_def first_viewer_def atc_add_def created_def on_object_def init_atc_def Let_def stop_same_def
      maxActiveThreadCountStreams_def with_registry_def move_def the_stream_def newActiveThreadCountStream_def)

theorem viewers_bounded_witness:
  "let s = two_viewers idle_agent
   in members (registry s) = [1, 0] \<and> length (members (registry s)) \<le> maxActiveThreadCountStreams \<and> atcStreamCount (the_agent s) = 2"
  using viewers_bounded [OF two_viewers_reached [of idle_agent]] by (simp add: Let_def two_viewers_are)

theorem stopped_stream_leaves_witness:
  "\<exists>t. atc_step (two_viewers idle_agent) t \<and> leave_rank (pc t 0) < leave_rank (pc (two_viewers idle_agent) 0)"
  using stopped_stream_leaves [OF two_viewers_reached [of idle_agent], of 0] by (simp add: two_viewers_are)

section \<open>The command service\<close>

text \<open>A request as received, with the goroutine dump taken for it; a nil payload is \<open>None\<close>. Other commands are ignored.\<close>

datatype command =
    CommandEcho string
  | CommandActiveThreadCount
  | CommandActiveThreadDump "(go_int32 \<times> string list) option"
  | CommandActiveThreadLightDump "go_int32 option"
  | UnknownCommand

datatype received = Request go_int32 command "goroutine list option" | RecvError bool

datatype answer =
    EchoResponse PCmdResponse string
  | StartThreadCount go_int32
  | ThreadDumpResponse PCmdResponse "PActiveThreadDump list"
  | ThreadLightDumpResponse PCmdResponse "PActiveThreadDump list"

definition sendEcho :: "go_int32 \<Rightarrow> string \<Rightarrow> answer" where
  "sendEcho i msg = EchoResponse \<lparr>responseId = i, res_status = 0, res_message = []\<rparr> msg"

definition sendActiveThreadDump :: "go_int32 \<Rightarrow> go_int32 \<Rightarrow> string list \<Rightarrow> goroutine list option \<Rightarrow> answer" where
  "sendActiveThreadDump i limit threadName dump =
     ThreadDumpResponse (dumpResponse i dump) (makePActiveThreadDumpList dump (sint limit) threadName)"

definition sendActiveThreadLightDump :: "go_int32 \<Rightarrow> go_int32 \<Rightarrow> goroutine list option \<Rightarrow> answer" where
  "sendActiveThreadLightDump i limit dump = ThreadLightDumpResponse (dumpResponse i dump) (makePActiveThreadLightDumpList dump (sint limit))"

fun serve_command :: "go_int32 \<Rightarrow> command \<Rightarrow> goroutine list option \<Rightarrow> answer list" where
  "serve_command i (CommandEcho msg) dump = [sendEcho i msg]"
| "serve_command i CommandActiveThreadCount dump = [StartThreadCount i]"
| "serve_command i (CommandActiveThreadDump (Some (limit, names))) dump = [sendActiveThreadDump i limit names dump]"
| "serve_command i (CommandActiveThreadLightDump (Some limit)) dump = [sendActiveThreadLightDump i limit dump]"
| "serve_command i _ dump = []"

text \<open>
  The loop of \<^verbatim>\<open>serveCommandStream\<close>: per turn whether the worker continues and what \<^verbatim>\<open>Recv\<close> returned, an error with whether the stream had
  expired. \<open>None\<close>: still waiting for the next message.
\<close>

fun serve_loop :: "int \<Rightarrow> (bool \<times> received) list \<Rightarrow> (int \<times> answer list) option" where
  "serve_loop attempt [] = None"
| "serve_loop attempt ((continues, r) # rest) =
     (if \<not> continues then Some (attempt, [])
      else case r of
        RecvError expired \<Rightarrow> Some (if expired then - 1 else attempt, [])
      | Request i c dump \<Rightarrow> map_option (\<lambda>(a, out). (a, serve_command i c dump @ out)) (serve_loop 0 rest))"

definition serveCommandStream :: "int \<Rightarrow> bool \<Rightarrow> (bool \<times> received) list \<Rightarrow> (int \<times> answer list) option" where
  "serveCommandStream attempt isOpen events = (if \<not> isOpen then Some (attempt, []) else serve_loop attempt events)"

record cycle =
  cy_continues :: bool
  cy_slept :: bool
  cy_open :: bool
  cy_events :: "(bool \<times> received) list"

text \<open>What the service does: \<open>Pause k\<close> sleeps \<^verbatim>\<open>backOffSleep(k)\<close>, \<open>Stream a b\<close> serves a stream that left the attempt counter at \<open>b\<close> after \<open>a\<close>.\<close>

datatype action = Pause int | Stream int int

fun runCommandService :: "int \<Rightarrow> cycle list \<Rightarrow> action list" where
  "runCommandService attempt [] = []"
| "runCommandService attempt (c # cs) =
     (if \<not> cy_continues c then []
      else (if attempt > 0 then [Pause (attempt - 1)] else [])
        @ (if attempt > 0 \<and> \<not> cy_slept c then []
           else case serveCommandStream attempt (cy_open c) (cy_events c) of
             None \<Rightarrow> []
           | Some (next_attempt, _) \<Rightarrow> Stream attempt next_attempt # runCommandService (next_attempt + 1) cs))"

lemma serve_attempt:
  assumes "serve_loop attempt events = Some (b, out)"
  shows "b = attempt \<or> b = 0 \<or> b = - 1"
  using assms
proof (induction events arbitrary: attempt b out)
  case (Cons e events)
  obtain continues r where e: "e = (continues, r)" by (cases e)
  show ?case using Cons.prems Cons.IH [of 0] by (cases r) (auto simp: e split: if_splits)
qed simp

text \<open>The pacing of two actions in a row.\<close>

fun paced :: "action \<Rightarrow> action \<Rightarrow> bool" where
  "paced (Pause k) (Stream a b) \<longleftrightarrow> a = k + 1 \<and> (b = a \<or> b = 0 \<or> b = - 1)"
| "paced (Stream a b) (Pause k) \<longleftrightarrow> k = b"
| "paced (Stream a b) (Stream a' b') \<longleftrightarrow> b = - 1 \<and> a' = 0"
| "paced (Pause k) (Pause k') \<longleftrightarrow> False"

lemma service_head: "runCommandService a cs = x # xs \<Longrightarrow> (if a > 0 then x = Pause (a - 1) else \<exists>b. x = Stream a b)"
  by (cases cs) (auto split: if_splits option.splits)

lemma service_paced: "a \<ge> 0 \<Longrightarrow> successively paced (runCommandService a cs)"
proof (induction cs arbitrary: a)
  case (Cons c cs)
  show ?case
  proof (cases "serveCommandStream a (cy_open c) (cy_events c)")
    case (Some p)
    obtain b out where p: "p = (b, out)" by (cases p)
    have b: "b = a \<or> b = 0 \<or> b = - 1" using Some p serve_attempt [of a "cy_events c" b out] by (auto simp: serveCommandStream_def split: if_splits)
    then have tail: "successively paced (runCommandService (b + 1) cs)" using Cons by auto
    have "successively paced (Stream a b # runCommandService (b + 1) cs)"
    proof (cases "runCommandService (b + 1) cs")
      case (Cons x xs)
      with service_head [OF this] tail b \<open>a \<ge> 0\<close> show ?thesis by (auto split: if_splits)
    qed simp
    with Some p b show ?thesis by (auto simp: successively_Cons)
  qed simp
qed simp

text \<open>
  The service never spins: between two command streams it pauses, unless the former was renewed at its maximum age. The pause
  after a stream that had answered a request is the first of the back-off, and each further stream that fails without receiving
  one lengthens it by one step.
\<close>

theorem command_streams_paced: "successively paced (runCommandService 0 cs)"
  by (rule service_paced) simp

end
