(* ===== verification/Url_Filter.thy ===== *)
theory Url_Filter
  imports Utf8
begin

text \<open>
  The URL exclusion filter of the HTTP plugin (\<^verbatim>\<open>src/plugin/http/url.go\<close>): Ant style patterns, classified once so that the
  common shapes are a map lookup or a prefix test and the rest a two-row dynamic program over the compiled tokens, on
  rows of a scratch buffer that arrives dirty from the previous pattern. The theorem is that all of it decides exactly
  the language the patterns denote.
\<close>

section \<open>Patterns\<close>

datatype patternKind = patternExact | patternPrefix | patternSegmentPrefix | patternAnt

datatype patternToken = tokenLiteral char | tokenStar | tokenDoubleStar | tokenDoubleStarSlash | tokenQuestion

record httpExcludeUrl =
  pat_kind :: patternKind
  pattern :: string
  literalPrefix :: string
  minLength :: nat
  pat_tokens :: "patternToken list"

definition is_wildcard :: "char \<Rightarrow> bool" where
  "is_wildcard c \<longleftrightarrow> c = CHR ''*'' \<or> c = CHR ''?''"

definition containsWildcard :: "string \<Rightarrow> bool" where
  "containsWildcard s \<longleftrightarrow> list_ex is_wildcard s"

definition HasSuffix :: "string \<Rightarrow> string \<Rightarrow> bool" where
  "HasSuffix s t \<longleftrightarrow> length t \<le> length s \<and> drop (length s - length t) s = t"

text \<open>The token loop: the tokens and how many bytes any match has at least.\<close>

fun compile_tokens :: "string \<Rightarrow> patternToken list" where
  "compile_tokens [] = []"
| "compile_tokens (c # cs) =
     (if c = CHR ''*'' then
        (case cs of
           c1 # cs1 \<Rightarrow>
             if c1 = CHR ''*'' then
               (case cs1 of
                  c2 # cs2 \<Rightarrow> if c2 = CHR ''/'' then tokenDoubleStarSlash # compile_tokens cs2 else tokenDoubleStar # compile_tokens cs1
                | [] \<Rightarrow> tokenDoubleStar # compile_tokens cs1)
             else tokenStar # compile_tokens cs
         | [] \<Rightarrow> tokenStar # compile_tokens cs)
      else if c = CHR ''?'' then tokenQuestion # compile_tokens cs
      else tokenLiteral c # compile_tokens cs)"

fun token_min :: "patternToken \<Rightarrow> nat" where
  "token_min (tokenLiteral c) = 1"
| "token_min tokenQuestion = 1"
| "token_min _ = 0"

definition newHttpExcludeUrl :: "string \<Rightarrow> httpExcludeUrl" where
  "newHttpExcludeUrl antPath =
     (let h = \<lparr>pat_kind = patternExact, pattern = antPath, literalPrefix = [], minLength = 0, pat_tokens = []\<rparr>
      in if \<not> containsWildcard antPath then h
         else if HasSuffix antPath ''**'' \<and> \<not> containsWildcard (take (length antPath - 2) antPath)
         then h\<lparr>pat_kind := patternPrefix, literalPrefix := take (length antPath - 2) antPath\<rparr>
         else if HasSuffix antPath ''*'' \<and> \<not> HasSuffix antPath ''**'' \<and> \<not> containsWildcard (take (length antPath - 1) antPath)
         then h\<lparr>pat_kind := patternSegmentPrefix, literalPrefix := take (length antPath - 1) antPath\<rparr>
         else h\<lparr>pat_kind := patternAnt, literalPrefix := takeWhile (\<lambda>c. \<not> is_wildcard c) antPath,
                minLength := sum_list (map token_min (compile_tokens antPath)), pat_tokens := compile_tokens antPath\<rparr>)"

definition matchPrefix :: "httpExcludeUrl \<Rightarrow> string \<Rightarrow> bool" where
  "matchPrefix h url \<longleftrightarrow>
     HasPrefix url (literalPrefix h)
     \<and> (pat_kind h = patternPrefix \<or> CHR ''/'' \<notin> set (drop (length (literalPrefix h)) url))"

definition antCandidate :: "httpExcludeUrl \<Rightarrow> string \<Rightarrow> bool" where
  "antCandidate h url \<longleftrightarrow> minLength h \<le> length url \<and> HasPrefix url (literalPrefix h)"

section \<open>The matcher\<close>

text \<open>
  The row loops, from the last position down. \<open>down_loop\<close> writes \<open>f j cur\<close> at each \<open>j\<close>; \<open>run_loop\<close> carries the running
  flag. The last entry is written before the loop.
\<close>

fun down_loop :: "(nat \<Rightarrow> bool list \<Rightarrow> bool) \<Rightarrow> nat \<Rightarrow> bool list \<Rightarrow> bool list" where
  "down_loop f 0 cur = cur"
| "down_loop f (Suc j) cur = down_loop f j (cur[j := f j cur])"

fun run_loop :: "(nat \<Rightarrow> bool \<Rightarrow> bool) \<Rightarrow> (nat \<Rightarrow> bool \<Rightarrow> bool) \<Rightarrow> nat \<Rightarrow> bool \<Rightarrow> bool list \<Rightarrow> bool list" where
  "run_loop upd outp 0 running cur = cur"
| "run_loop upd outp (Suc j) running cur =
     run_loop upd outp j (upd j running) (cur[j := outp j (upd j running)])"

definition rune_size :: "string \<Rightarrow> nat" where
  "rune_size s = (if rune_width s = 0 then 1 else rune_width s)"

function rune_loop :: "string \<Rightarrow> bool list \<Rightarrow> nat \<Rightarrow> bool list \<Rightarrow> bool list" where
  "rune_loop url nxt j cur =
     (if j < length url
      then rune_loop url nxt (j + rune_size (drop j url))
             (cur[j := url ! j \<noteq> CHR ''/'' \<and> nxt ! (j + rune_size (drop j url))])
      else cur)"
  by pat_completeness auto
termination
  by (relation "measure (\<lambda>(url, nxt, j, cur). length url - j)") (auto simp: rune_size_def)

declare rune_loop.simps [simp del]

fun token_row :: "string \<Rightarrow> patternToken \<Rightarrow> bool list \<Rightarrow> bool list \<Rightarrow> bool list" where
  "token_row url (tokenLiteral c) nxt cur =
     down_loop (\<lambda>j _. url ! j = c \<and> nxt ! (j + 1)) (length url) (cur[length url := False])"
| "token_row url tokenQuestion nxt cur = rune_loop url nxt 0 (replicate (length cur) False)"
| "token_row url tokenStar nxt cur =
     down_loop (\<lambda>j cur. nxt ! j \<or> (url ! j \<noteq> CHR ''/'' \<and> cur ! (j + 1))) (length url) (cur[length url := nxt ! length url])"
| "token_row url tokenDoubleStar nxt cur =
     run_loop (\<lambda>j r. r \<or> nxt ! j) (\<lambda>j r. r) (length url) (nxt ! length url) (cur[length url := nxt ! length url])"
| "token_row url tokenDoubleStarSlash nxt cur =
     run_loop (\<lambda>j r. if url ! j = CHR ''/'' then r \<or> nxt ! (j + 1) else r) (\<lambda>j r. nxt ! j \<or> r) (length url) False
       (cur[length url := nxt ! length url])"

text \<open>The rows swap after every token; the answer is read from \<open>next\<close>.\<close>

fun ant_rows :: "string \<Rightarrow> patternToken list \<Rightarrow> bool list \<times> bool list \<Rightarrow> bool list \<times> bool list" where
  "ant_rows url [] (cur, nxt) = (cur, nxt)"
| "ant_rows url (t # ts) (cur, nxt) = ant_rows url ts (nxt, token_row url t nxt cur)"

text \<open>The match and the buffer it leaves behind, its first two rows in the order the swaps left them in.\<close>

definition antMatch :: "httpExcludeUrl \<Rightarrow> string \<Rightarrow> bool list \<Rightarrow> bool \<times> bool list" where
  "antMatch h url scratch =
     (let n = length url + 1;
          (cur, nxt) = ant_rows url (rev (pat_tokens h)) (take n scratch, (replicate n False)[length url := True])
      in (nxt ! 0, (if even (length (pat_tokens h)) then cur @ nxt else nxt @ cur) @ drop (2 * n) scratch))"

definition antScratchLen :: nat where "antScratchLen = 256"

record httpUrlFilter =
  exact :: "string list"
  prefix_pats :: "httpExcludeUrl list"
  ant_pats :: "httpExcludeUrl list"

fun setupHttpUrlFilter :: "string list \<Rightarrow> httpUrlFilter \<Rightarrow> httpUrlFilter" where
  "setupHttpUrlFilter [] f = f"
| "setupHttpUrlFilter (u # us) f =
     setupHttpUrlFilter us
       (if u = [] then f
        else let h = newHttpExcludeUrl u
             in case pat_kind h of
                  patternExact \<Rightarrow> f\<lparr>exact := List.insert (pattern h) (exact f)\<rparr>
                | patternAnt \<Rightarrow> f\<lparr>ant_pats := ant_pats f @ [h]\<rparr>
                | _ \<Rightarrow> f\<lparr>prefix_pats := prefix_pats f @ [h]\<rparr>)"

definition new_filter :: "string list \<Rightarrow> httpUrlFilter" where
  "new_filter ps = setupHttpUrlFilter ps \<lparr>exact = [], prefix_pats = [], ant_pats = []\<rparr>"

fun ant_loop :: "httpExcludeUrl list \<Rightarrow> string \<Rightarrow> bool list \<Rightarrow> bool" where
  "ant_loop [] url scratch = False"
| "ant_loop (f # fs) url scratch =
     (if \<not> antCandidate f url then ant_loop fs url scratch
      else let n = 2 * (length url + 1); scratch = (if n > length scratch then replicate n False else scratch);
               (ok, scratch) = antMatch f url scratch
           in if ok then True else ant_loop fs url scratch)"

definition antFiltered :: "httpUrlFilter \<Rightarrow> string \<Rightarrow> bool" where
  "antFiltered h url = ant_loop (ant_pats h) url (replicate (2 * antScratchLen) False)"

definition isFiltered :: "httpUrlFilter \<Rightarrow> string \<Rightarrow> bool" where
  "isFiltered h url \<longleftrightarrow>
     url \<in> set (exact h) \<or> (\<exists>f \<in> set (prefix_pats h). matchPrefix f url) \<or> (ant_pats h \<noteq> [] \<and> antFiltered h url)"

section \<open>The language of a pattern\<close>

text \<open>What one token stands for, and a pattern as the concatenation of its tokens.\<close>

fun token_lang :: "patternToken \<Rightarrow> string \<Rightarrow> bool" where
  "token_lang (tokenLiteral c) w \<longleftrightarrow> w = [c]"
| "token_lang tokenQuestion w \<longleftrightarrow> w \<noteq> [] \<and> rune_width w = length w \<and> w \<noteq> ''/''"
| "token_lang tokenStar w \<longleftrightarrow> CHR ''/'' \<notin> set w"
| "token_lang tokenDoubleStar w \<longleftrightarrow> True"
| "token_lang tokenDoubleStarSlash w \<longleftrightarrow> w = [] \<or> last w = CHR ''/''"

fun ant_lang :: "patternToken list \<Rightarrow> string \<Rightarrow> bool" where
  "ant_lang [] s \<longleftrightarrow> s = []"
| "ant_lang (t # ts) s \<longleftrightarrow> (\<exists>k \<le> length s. token_lang t (take k s) \<and> ant_lang ts (drop k s))"

lemma ant_lang_literal: "ant_lang (tokenLiteral c # ts) s \<longleftrightarrow> (\<exists>s'. s = c # s' \<and> ant_lang ts s')"
proof
  assume "ant_lang (tokenLiteral c # ts) s"
  then obtain k where k: "k \<le> length s" "take k s = [c]" "ant_lang ts (drop k s)" by auto
  then have "s = [c] @ drop k s" by (metis append_take_drop_id)
  then show "\<exists>s'. s = c # s' \<and> ant_lang ts s'" using k(3) by auto
next
  assume "\<exists>s'. s = c # s' \<and> ant_lang ts s'"
  then show "ant_lang (tokenLiteral c # ts) s" by (auto intro!: exI [of _ 1])
qed

lemma ant_lang_star_Cons:
  "ant_lang (tokenStar # ts) (c # s) \<longleftrightarrow> ant_lang ts (c # s) \<or> (c \<noteq> CHR ''/'' \<and> ant_lang (tokenStar # ts) s)"
proof
  assume "ant_lang (tokenStar # ts) (c # s)"
  then obtain k where k: "k \<le> Suc (length s)" "CHR ''/'' \<notin> set (take k (c # s))" "ant_lang ts (drop k (c # s))" by auto
  then show "ant_lang ts (c # s) \<or> (c \<noteq> CHR ''/'' \<and> ant_lang (tokenStar # ts) s)" by (cases k) auto
next
  assume "ant_lang ts (c # s) \<or> (c \<noteq> CHR ''/'' \<and> ant_lang (tokenStar # ts) s)"
  then show "ant_lang (tokenStar # ts) (c # s)"
  proof
    assume "c \<noteq> CHR ''/'' \<and> ant_lang (tokenStar # ts) s"
    then obtain k where "k \<le> length s" "CHR ''/'' \<notin> set (take k s)" "ant_lang ts (drop k s)" "c \<noteq> CHR ''/''" by auto
    then show ?thesis by (auto intro!: exI [of _ "Suc k"])
  qed (auto intro!: exI [of _ 0])
qed

lemma ant_lang_star_Nil: "ant_lang (tokenStar # ts) [] \<longleftrightarrow> ant_lang ts []"
  by auto

lemma ant_lang_double: "ant_lang (tokenDoubleStar # ts) s \<longleftrightarrow> (\<exists>k \<le> length s. ant_lang ts (drop k s))"
  by auto

lemma ant_lang_slash:
  "ant_lang (tokenDoubleStarSlash # ts) s \<longleftrightarrow> ant_lang ts s \<or> (\<exists>k < length s. s ! k = CHR ''/'' \<and> ant_lang ts (drop (Suc k) s))"
proof
  assume "ant_lang (tokenDoubleStarSlash # ts) s"
  then obtain k where k: "k \<le> length s" "take k s = [] \<or> last (take k s) = CHR ''/''" "ant_lang ts (drop k s)" by auto
  show "ant_lang ts s \<or> (\<exists>k < length s. s ! k = CHR ''/'' \<and> ant_lang ts (drop (Suc k) s))"
  proof (cases k)
    case (Suc j)
    then have "s \<noteq> []" "last (take k s) = s ! j" using k(1) by (auto simp: take_Suc_conv_app_nth)
    then show ?thesis using k Suc by auto
  qed (use k in auto)
next
  assume "ant_lang ts s \<or> (\<exists>k < length s. s ! k = CHR ''/'' \<and> ant_lang ts (drop (Suc k) s))"
  then show "ant_lang (tokenDoubleStarSlash # ts) s"
  proof
    assume "\<exists>k < length s. s ! k = CHR ''/'' \<and> ant_lang ts (drop (Suc k) s)"
    then obtain k where "k < length s" "s ! k = CHR ''/''" "ant_lang ts (drop (Suc k) s)" by auto
    then show ?thesis by (auto intro!: exI [of _ "Suc k"] simp: take_Suc_conv_app_nth)
  qed (auto intro!: exI [of _ 0])
qed

lemma rune_width_start: "rune_width s \<noteq> 0 \<Longrightarrow> RuneStart (hd s)"
  by (cases s) (auto simp: Let_def lead_width_def in_range_def RuneStart_def split: if_splits)

lemma rune_width_slash: "hd s = CHR ''/'' \<Longrightarrow> s \<noteq> [] \<Longrightarrow> rune_width s = 1"
  by (cases s) (auto simp: Let_def lead_width_def)

lemma ant_lang_question:
  "ant_lang (tokenQuestion # ts) s \<longleftrightarrow> rune_width s \<noteq> 0 \<and> hd s \<noteq> CHR ''/'' \<and> ant_lang ts (drop (rune_width s) s)"
proof
  assume "ant_lang (tokenQuestion # ts) s"
  then obtain k where k: "k \<le> length s" "take k s \<noteq> []" "rune_width (take k s) = length (take k s)" "take k s \<noteq> ''/''" "ant_lang ts (drop k s)"
    by auto
  have "rune_width (take k s) = k" using k(1,3) by simp
  with rune_width_append [of "take k s" "drop k s"] k(2) have "rune_width s = k" by auto
  moreover have "hd s \<noteq> CHR ''/''"
  proof
    assume hd: "hd s = CHR ''/''"
    have "s \<noteq> []" using k(2) by auto
    then have "k = 1" using rune_width_slash [OF hd] \<open>rune_width s = k\<close> by simp
    then show False using hd k(4) \<open>s \<noteq> []\<close> by (cases s) auto
  qed
  ultimately show "rune_width s \<noteq> 0 \<and> hd s \<noteq> CHR ''/'' \<and> ant_lang ts (drop (rune_width s) s)" using k by auto
next
  assume r: "rune_width s \<noteq> 0 \<and> hd s \<noteq> CHR ''/'' \<and> ant_lang ts (drop (rune_width s) s)"
  have "rune_width (take (rune_width s) s) = rune_width s" using rune_width_take r by blast
  moreover have "take (rune_width s) s \<noteq> ''/''" using r by (cases s; cases "rune_width s") auto
  moreover have "take (rune_width s) s \<noteq> []" using r by (cases s) auto
  ultimately show "ant_lang (tokenQuestion # ts) s"
    using r rune_width_le [of s] by (auto intro!: exI [of _ "rune_width s"] simp: min_def)
qed

declare ant_lang.simps(2) [simp del]

section \<open>The rows\<close>

lemma down_loop_length [simp]: "length (down_loop f n cur) = length cur"
  by (induction f n cur rule: down_loop.induct) auto

lemma down_loop_above: "n \<le> i \<Longrightarrow> down_loop f n cur ! i = cur ! i"
  by (induction f n cur rule: down_loop.induct) auto



lemma down_loop_nth:
  assumes f: "\<And>j c c'. (\<And>k. j < k \<Longrightarrow> c ! k = c' ! k) \<Longrightarrow> f j c = f j c'"
  shows "i < n \<Longrightarrow> n \<le> length cur \<Longrightarrow> down_loop f n cur ! i = f i (down_loop f n cur)"
proof (induction n arbitrary: cur)
  case (Suc n)
  show ?case
  proof (cases "i = n")
    case True
    have "f n cur = f n (down_loop f (Suc n) cur)" by (rule f) (simp add: down_loop_above)
    then show ?thesis using True Suc.prems by (simp add: down_loop_above)
  qed (use Suc in simp)
qed simp

lemma run_loop_length [simp]: "length (run_loop upd outp n r cur) = length cur"
  by (induction upd outp n r cur rule: run_loop.induct) auto

lemma run_loop_above: "n \<le> i \<Longrightarrow> run_loop upd outp n r cur ! i = cur ! i"
  by (induction upd outp n r cur rule: run_loop.induct) auto

lemma run_loop_nth:
  assumes upd: "\<And>j r. upd j r \<longleftrightarrow> r \<or> P j"
  shows "i < n \<Longrightarrow> n \<le> length cur \<Longrightarrow> run_loop upd outp n r cur ! i = outp i (r \<or> (\<exists>k. i \<le> k \<and> k < n \<and> P k))"
proof (induction n arbitrary: cur r)
  case (Suc n)
  show ?case
  proof (cases "i = n")
    case True
    have "(\<exists>k. n \<le> k \<and> k < Suc n \<and> P k) = P n" by (auto simp: less_Suc_eq)
    then show ?thesis using True Suc.prems upd by (simp add: run_loop_above)
  next
    case False
    then have "(upd n r \<or> (\<exists>k. i \<le> k \<and> k < n \<and> P k)) = (r \<or> (\<exists>k. i \<le> k \<and> k < Suc n \<and> P k))"
    proof -
      have "i \<le> n" using Suc.prems False by simp
      then show ?thesis using upd by (auto simp: less_Suc_eq)
    qed
    then show ?thesis using Suc.IH [of "cur[n := outp n (upd n r)]" "upd n r"] Suc.prems False by simp
  qed
qed simp

lemma rune_loop_length [simp]: "length (rune_loop url nxt j cur) = length cur"
  by (induction url nxt j cur rule: rune_loop.induct) (simp add: rune_loop.simps)

lemma rune_loop_nth:
  assumes "ValidString (drop j url)" "j \<le> length url" "length url < length cur" "\<And>k. j \<le> k \<Longrightarrow> k < length cur \<Longrightarrow> \<not> cur ! k"
    and "i < length cur"
  shows "rune_loop url nxt j cur ! i =
    (if j \<le> i then rune_width (drop i url) \<noteq> 0 \<and> url ! i \<noteq> CHR ''/'' \<and> nxt ! (i + rune_width (drop i url)) else cur ! i)"
  using assms
proof (induction url nxt j cur rule: rune_loop.induct)
  case (1 url nxt j cur)
  show ?case
  proof (cases "j < length url")
    case False
    then have "j = length url" using "1.prems"(2) by simp
    then show ?thesis using "1.prems" by (auto simp: rune_loop.simps)
  next
    case True
    define w where "w = rune_width (drop j url)"
    have ne: "drop j url \<noteq> []" using True by simp
    have w: "w \<noteq> 0" "ValidString (drop (j + w) url)"
      using ValidString_rune [OF "1.prems"(1) ne] by (auto simp: w_def add.commute)
    have size: "rune_size (drop j url) = w" using w by (simp add: rune_size_def w_def)
    have jw: "j + w \<le> length url" using rune_width_le [of "drop j url"] True by (simp add: w_def)
    define cur' where "cur' = cur[j := url ! j \<noteq> CHR ''/'' \<and> nxt ! (j + w)]"
    have IH: "rune_loop url nxt (j + w) cur' ! i =
      (if j + w \<le> i then rune_width (drop i url) \<noteq> 0 \<and> url ! i \<noteq> CHR ''/'' \<and> nxt ! (i + rune_width (drop i url)) else cur' ! i)"
      using "1.IH" [OF True] w jw "1.prems" by (simp add: size cur'_def)
    have inner: "rune_width (drop i url) = 0" if "j < i" "i < j + w"
    proof (rule ccontr)
      assume "rune_width (drop i url) \<noteq> 0"
      then have "RuneStart (url ! i)" using rune_width_start [of "drop i url"] that jw by (simp add: hd_drop_conv_nth)
      moreover have "0 < i - j" "i - j < rune_width (drop j url)" using that by (auto simp: w_def)
      ultimately show False using rune_width_inner [of "i - j" "drop j url"] that True by simp
    qed
    have "rune_loop url nxt j cur = rune_loop url nxt (j + w) cur'"
      using True by (subst rune_loop.simps) (simp add: size cur'_def)
    moreover consider "i < j" | "i = j" | "j < i" "i < j + w" | "j + w \<le> i" by linarith
    then have "rune_loop url nxt (j + w) cur' ! i =
        (if j \<le> i then rune_width (drop i url) \<noteq> 0 \<and> url ! i \<noteq> CHR ''/'' \<and> nxt ! (i + rune_width (drop i url)) else cur ! i)"
    proof cases
      case 2
      then show ?thesis using IH w "1.prems"(5) by (simp add: cur'_def w_def)
    next
      case 3
      then show ?thesis using IH inner "1.prems"(4,5) by (simp add: cur'_def)
    qed (use IH w in \<open>auto simp: cur'_def\<close>)
    ultimately show ?thesis by simp
  qed
qed

text \<open>A row is right for the tokens processed so far when each entry says whether they match the URL from there on.\<close>

definition row_ok :: "string \<Rightarrow> patternToken list \<Rightarrow> bool list \<Rightarrow> bool" where
  "row_ok url ts row \<longleftrightarrow> length row = length url + 1 \<and> (\<forall>j \<le> length url. row ! j = ant_lang ts (drop j url))"

lemma row_ok_nth: "row_ok url ts row \<Longrightarrow> j \<le> length url \<Longrightarrow> row ! j = ant_lang ts (drop j url)"
  and row_ok_length: "row_ok url ts row \<Longrightarrow> length row = length url + 1"
  by (simp_all add: row_ok_def)

lemma literal_row:
  assumes "row_ok url ts nxt" "length cur = length url + 1"
  shows "row_ok url (tokenLiteral c # ts) (token_row url (tokenLiteral c) nxt cur)"
  unfolding row_ok_def
proof (intro conjI allI impI)
  fix j assume j: "j \<le> length url"
  show "token_row url (tokenLiteral c) nxt cur ! j = ant_lang (tokenLiteral c # ts) (drop j url)"
  proof (cases "j < length url")
    case True
    then have "drop j url = url ! j # drop (Suc j) url" by (simp add: Cons_nth_drop_Suc)
    moreover have "token_row url (tokenLiteral c) nxt cur ! j = (url ! j = c \<and> nxt ! (j + 1))"
      unfolding token_row.simps by (rule down_loop_nth) (use True assms in auto)
    ultimately show ?thesis using row_ok_nth [OF assms(1), of "Suc j"] True by (simp add: ant_lang_literal)
  qed (use j assms in \<open>auto simp: down_loop_above ant_lang_literal\<close>)
qed (use assms in simp)

lemma star_row:
  assumes "row_ok url ts nxt" "length cur = length url + 1"
  shows "row_ok url (tokenStar # ts) (token_row url tokenStar nxt cur)"
proof -
  let ?f = "\<lambda>j cur. nxt ! j \<or> (url ! j \<noteq> CHR ''/'' \<and> cur ! (j + 1))"
  let ?r = "token_row url tokenStar nxt cur"
  have last: "?r ! length url = ant_lang (tokenStar # ts) []"
    using assms row_ok_nth [OF assms(1), of "length url"] by (simp add: down_loop_above ant_lang_star_Nil)
  have "?r ! j = ant_lang (tokenStar # ts) (drop j url)" if "j \<le> length url" for j
    using that
  proof (induction "length url - j" arbitrary: j)
    case (Suc n)
    then have j: "j < length url" by linarith
    have "?r ! j = ?f j ?r" unfolding token_row.simps
      by (rule down_loop_nth) (use j assms in auto)
    moreover have "?r ! (j + 1) = ant_lang (tokenStar # ts) (drop (Suc j) url)" using Suc.hyps(1) [of "Suc j"] Suc.hyps(2) j by simp
    moreover have "nxt ! j = ant_lang ts (drop j url)" using row_ok_nth [OF assms(1)] j by simp
    moreover have "drop j url = url ! j # drop (Suc j) url" using j by (simp add: Cons_nth_drop_Suc)
    ultimately show ?case using ant_lang_star_Cons [of ts "url ! j" "drop (Suc j) url"] by metis
  qed (use last in simp)
  then show ?thesis using assms by (simp add: row_ok_def)
qed

lemma double_row:
  assumes "row_ok url ts nxt" "length cur = length url + 1"
  shows "row_ok url (tokenDoubleStar # ts) (token_row url tokenDoubleStar nxt cur)"
  unfolding row_ok_def
proof (intro conjI allI impI)
  fix j assume j: "j \<le> length url"
  have right: "ant_lang (tokenDoubleStar # ts) (drop j url) \<longleftrightarrow> (\<exists>k. j \<le> k \<and> k \<le> length url \<and> nxt ! k)"
  proof
    assume "ant_lang (tokenDoubleStar # ts) (drop j url)"
    then obtain k where "k \<le> length url - j" "ant_lang ts (drop (j + k) url)" by (auto simp: ant_lang_double add.commute)
    then show "\<exists>k. j \<le> k \<and> k \<le> length url \<and> nxt ! k"
      using row_ok_nth [OF assms(1), of "j + k"] j by (intro exI [of _ "j + k"]) auto
  next
    assume "\<exists>k. j \<le> k \<and> k \<le> length url \<and> nxt ! k"
    then obtain k where "j \<le> k" "k \<le> length url" "ant_lang ts (drop k url)" using row_ok_nth [OF assms(1)] by auto
    then show "ant_lang (tokenDoubleStar # ts) (drop j url)"
      unfolding ant_lang_double by (intro exI [of _ "k - j"]) auto
  qed
  show "token_row url tokenDoubleStar nxt cur ! j = ant_lang (tokenDoubleStar # ts) (drop j url)"
  proof (cases "j < length url")
    case True
    then have "token_row url tokenDoubleStar nxt cur ! j = (nxt ! length url \<or> (\<exists>k. j \<le> k \<and> k < length url \<and> nxt ! k))"
      unfolding token_row.simps using assms by (intro run_loop_nth) auto
    then show ?thesis unfolding right using True by (auto simp: order_le_less)
  next
    case False
    then have "j = length url" using j by simp
    then show ?thesis unfolding right using assms by (auto simp: run_loop_above)
  qed
qed (use assms in simp)

lemma slash_row:
  assumes "row_ok url ts nxt" "length cur = length url + 1"
  shows "row_ok url (tokenDoubleStarSlash # ts) (token_row url tokenDoubleStarSlash nxt cur)"
  unfolding row_ok_def
proof (intro conjI allI impI)
  fix j assume j: "j \<le> length url"
  have right: "ant_lang (tokenDoubleStarSlash # ts) (drop j url) \<longleftrightarrow>
    nxt ! j \<or> (\<exists>k. j \<le> k \<and> k < length url \<and> url ! k = CHR ''/'' \<and> nxt ! (k + 1))"
  proof -
    have "(\<exists>k < length url - j. url ! (j + k) = CHR ''/'' \<and> ant_lang ts (drop (Suc (j + k)) url))
      \<longleftrightarrow> (\<exists>k. j \<le> k \<and> k < length url \<and> url ! k = CHR ''/'' \<and> nxt ! (k + 1))"
    proof
      assume "\<exists>k < length url - j. url ! (j + k) = CHR ''/'' \<and> ant_lang ts (drop (Suc (j + k)) url)"
      then obtain k where "k < length url - j" "url ! (j + k) = CHR ''/''" "ant_lang ts (drop (Suc (j + k)) url)" by blast
      then show "\<exists>k. j \<le> k \<and> k < length url \<and> url ! k = CHR ''/'' \<and> nxt ! (k + 1)"
        using row_ok_nth [OF assms(1), of "Suc (j + k)"] by (intro exI [of _ "j + k"]) auto
    next
      assume "\<exists>k. j \<le> k \<and> k < length url \<and> url ! k = CHR ''/'' \<and> nxt ! (k + 1)"
      then obtain k where "j \<le> k" "k < length url" "url ! k = CHR ''/''" "ant_lang ts (drop (Suc k) url)"
        using row_ok_nth [OF assms(1)] by auto
      then show "\<exists>k < length url - j. url ! (j + k) = CHR ''/'' \<and> ant_lang ts (drop (Suc (j + k)) url)"
        by (intro exI [of _ "k - j"]) auto
    qed
    then show ?thesis
      using row_ok_nth [OF assms(1) j] j unfolding ant_lang_slash by (simp add: add.commute)
  qed
  show "token_row url tokenDoubleStarSlash nxt cur ! j = ant_lang (tokenDoubleStarSlash # ts) (drop j url)"
  proof (cases "j < length url")
    case True
    let ?P = "\<lambda>j. url ! j = CHR ''/'' \<and> nxt ! (j + 1)"
    have "token_row url tokenDoubleStarSlash nxt cur ! j = (nxt ! j \<or> (False \<or> (\<exists>k. j \<le> k \<and> k < length url \<and> ?P k)))"
      unfolding token_row.simps using assms True by (intro run_loop_nth [where P = ?P]) auto
    then show ?thesis unfolding right by simp
  next
    case False
    then have "j = length url" using j by simp
    then show ?thesis unfolding right using assms by (auto simp: run_loop_above)
  qed
qed (use assms in simp)

lemma question_row:
  assumes "row_ok url ts nxt" "length cur = length url + 1" "ValidString url"
  shows "row_ok url (tokenQuestion # ts) (token_row url tokenQuestion nxt cur)"
  unfolding row_ok_def
proof (intro conjI allI impI)
  fix j assume j: "j \<le> length url"
  have "token_row url tokenQuestion nxt cur ! j =
      (rune_width (drop j url) \<noteq> 0 \<and> url ! j \<noteq> CHR ''/'' \<and> nxt ! (j + rune_width (drop j url)))"
    using rune_loop_nth [of 0 url "replicate (length cur) False" j nxt] assms j by (simp del: replicate_Suc)
  moreover have "j + rune_width (drop j url) \<le> length url" using rune_width_le [of "drop j url"] j by simp
  ultimately show "token_row url tokenQuestion nxt cur ! j = ant_lang (tokenQuestion # ts) (drop j url)"
    using row_ok_nth [OF assms(1), of "j + rune_width (drop j url)"] j
    by (cases "j < length url") (auto simp: ant_lang_question hd_drop_conv_nth add.commute)
qed (use assms in simp)

lemma token_row_ok:
  assumes "row_ok url ts nxt" "length cur = length url + 1" "ValidString url"
  shows "row_ok url (t # ts) (token_row url t nxt cur)"
  using literal_row [OF assms(1,2)] star_row [OF assms(1,2)] double_row [OF assms(1,2)] slash_row [OF assms(1,2)]
    question_row [OF assms] by (cases t) (simp_all only:)

lemma ant_rows_ok:
  assumes "row_ok url ts nxt" "length cur = length url + 1" "ValidString url" "ant_rows url rts (cur, nxt) = (cur', nxt')"
  shows "row_ok url (rev rts @ ts) nxt' \<and> length cur' = length url + 1"
  using assms
proof (induction rts arbitrary: ts cur nxt)
  case (Cons t rts)
  have "ant_rows url rts (nxt, token_row url t nxt cur) = (cur', nxt')" using Cons.prems(4) by simp
  from Cons.IH [OF token_row_ok [OF Cons.prems(1,2,3)] row_ok_length [OF Cons.prems(1)] Cons.prems(3) this]
  show ?case by simp
qed simp

lemma antMatch_ok:
  assumes "ValidString url" "2 * (length url + 1) \<le> length scratch"
  shows "fst (antMatch h url scratch) = ant_lang (pat_tokens h) url"
    and "length (snd (antMatch h url scratch)) = length scratch"
proof -
  let ?n = "length url + 1"
  obtain cur nxt where rows: "ant_rows url (rev (pat_tokens h)) (take ?n scratch, (replicate ?n False)[length url := True]) = (cur, nxt)"
    by force
  have "row_ok url [] ((replicate ?n False)[length url := True])"
    unfolding row_ok_def by (auto simp: nth_list_update simp del: replicate_Suc)
  from ant_rows_ok [OF this _ assms(1) rows] have ok: "row_ok url (pat_tokens h) nxt" "length cur = ?n"
    using assms(2) by auto
  show "fst (antMatch h url scratch) = ant_lang (pat_tokens h) url"
    using rows row_ok_nth [OF ok(1), of 0] by (simp add: antMatch_def Let_def)
  show "length (snd (antMatch h url scratch)) = length scratch"
    using rows ok(2) row_ok_length [OF ok(1)] assms(2) by (simp add: antMatch_def Let_def)
qed

lemma ant_loop_ok:
  "ValidString url \<Longrightarrow>
   ant_loop fs url scratch \<longleftrightarrow> (\<exists>f \<in> set fs. antCandidate f url \<and> ant_lang (pat_tokens f) url)"
proof (induction fs arbitrary: scratch)
  case (Cons f fs)
  define s where "s = (if 2 * (length url + 1) > length scratch then replicate (2 * (length url + 1)) False else scratch)"
  have "2 * (length url + 1) \<le> length s" by (simp add: s_def)
  note m = antMatch_ok(1) [OF Cons.prems this, of f]
  have "ant_loop (f # fs) url scratch \<longleftrightarrow>
    (if \<not> antCandidate f url then ant_loop fs url scratch
     else fst (antMatch f url s) \<or> ant_loop fs url (snd (antMatch f url s)))"
    by (simp only: ant_loop.simps Let_def s_def [symmetric] case_prod_beta) simp
  then show ?case using Cons.IH [OF Cons.prems] m by auto
qed simp

section \<open>The pattern classes\<close>

lemma compile_literals: "\<not> containsWildcard p \<Longrightarrow> compile_tokens (p @ q) = map tokenLiteral p @ compile_tokens q"
  by (induction p) (auto simp: containsWildcard_def is_wildcard_def)

lemma ant_lang_literals: "ant_lang (map tokenLiteral p @ ts) s \<longleftrightarrow> (\<exists>s'. s = p @ s' \<and> ant_lang ts s')"
  by (induction p arbitrary: s) (auto simp: ant_lang_literal)

lemma token_min_le: "token_lang t w \<Longrightarrow> token_min t \<le> length w"
  by (cases t) (auto simp: Suc_le_eq)

lemma ant_lang_min: "ant_lang ts s \<Longrightarrow> sum_list (map token_min ts) \<le> length s"
proof (induction ts arbitrary: s)
  case (Cons t ts)
  then obtain k where k: "k \<le> length s" "token_lang t (take k s)" "ant_lang ts (drop k s)" by (auto simp: ant_lang.simps)
  then have "token_min t \<le> k" "sum_list (map token_min ts) \<le> length s - k"
    using token_min_le [OF k(2)] Cons.IH [OF k(3)] by auto
  then show ?case using k(1) by simp
qed simp

lemma ant_lang_prefix:
  "ant_lang (compile_tokens p) url \<Longrightarrow> HasPrefix url (takeWhile (\<lambda>c. \<not> is_wildcard c) p)"
proof -
  assume m: "ant_lang (compile_tokens p) url"
  let ?l = "takeWhile (\<lambda>c. \<not> is_wildcard c) p"
  have "\<not> containsWildcard ?l" by (auto simp: containsWildcard_def list_ex_iff dest: set_takeWhileD)
  from compile_literals [OF this, of "dropWhile (\<lambda>c. \<not> is_wildcard c) p"] m
  show ?thesis by (auto simp: ant_lang_literals HasPrefix_iff)
qed

definition pattern_matches :: "httpExcludeUrl \<Rightarrow> string \<Rightarrow> bool" where
  "pattern_matches h url \<longleftrightarrow>
     (case pat_kind h of
        patternExact \<Rightarrow> url = pattern h
      | patternAnt \<Rightarrow> antCandidate h url \<and> ant_lang (pat_tokens h) url
      | _ \<Rightarrow> matchPrefix h url)"

lemma HasSuffix_split: "HasSuffix p q \<Longrightarrow> p = take (length p - length q) p @ q"
  by (metis HasSuffix_def append_take_drop_id)

lemma pattern_denotes: "pattern_matches (newHttpExcludeUrl p) url \<longleftrightarrow> ant_lang (compile_tokens p) url"
proof -
  let ?h = "newHttpExcludeUrl p"
  consider (exact) "\<not> containsWildcard p"
    | (pre) "containsWildcard p" "HasSuffix p ''**''" "\<not> containsWildcard (take (length p - 2) p)"
    | (seg) "containsWildcard p" "\<not> (HasSuffix p ''**'' \<and> \<not> containsWildcard (take (length p - 2) p))"
        "HasSuffix p ''*''" "\<not> HasSuffix p ''**''" "\<not> containsWildcard (take (length p - 1) p)"
    | (ant) "containsWildcard p" "\<not> (HasSuffix p ''**'' \<and> \<not> containsWildcard (take (length p - 2) p))"
        "\<not> (HasSuffix p ''*'' \<and> \<not> HasSuffix p ''**'' \<and> \<not> containsWildcard (take (length p - 1) p))" by blast
  then show ?thesis
  proof cases
    case exact
    then have "compile_tokens p = map tokenLiteral p @ []" using compile_literals [OF exact, of "[]"] by simp
    then show ?thesis
      using exact ant_lang_literals [of p "[]" url] by (simp add: pattern_matches_def newHttpExcludeUrl_def Let_def)
  next
    case pre
    define l where "l = take (length p - 2) p"
    have "p = l @ ''**''" using HasSuffix_split [OF pre(2)] by (simp add: l_def numeral_2_eq_2)
    then have "compile_tokens p = map tokenLiteral l @ [tokenDoubleStar]"
      using compile_literals [of l "''**''"] pre(3) by (simp add: l_def)
    moreover have "ant_lang [tokenDoubleStar] s" for s by (auto simp: ant_lang_double intro!: exI [of _ "length s"])
    ultimately show ?thesis
      using pre by (auto simp: pattern_matches_def newHttpExcludeUrl_def Let_def matchPrefix_def ant_lang_literals HasPrefix_iff l_def [symmetric])
  next
    case seg
    define l where "l = take (length p - 1) p"
    have "p = l @ ''*''" using HasSuffix_split [OF seg(3)] by (simp add: l_def)
    then have comp: "compile_tokens p = map tokenLiteral l @ [tokenStar]"
      using compile_literals [of l "''*''"] seg(5) by (simp add: l_def)
    have star: "ant_lang [tokenStar] s \<longleftrightarrow> CHR ''/'' \<notin> set s" for s
    proof
      show "ant_lang [tokenStar] s \<Longrightarrow> CHR ''/'' \<notin> set s" by (auto simp: ant_lang.simps)
      show "CHR ''/'' \<notin> set s \<Longrightarrow> ant_lang [tokenStar] s" by (auto simp: ant_lang.simps intro!: exI [of _ "length s"])
    qed
    have "pat_kind ?h = patternSegmentPrefix" "literalPrefix ?h = l"
      using seg by (auto simp: newHttpExcludeUrl_def Let_def l_def)
    then have "pattern_matches ?h url \<longleftrightarrow> (\<exists>s. url = l @ s \<and> CHR ''/'' \<notin> set s)"
      by (auto simp: pattern_matches_def matchPrefix_def HasPrefix_iff)
    then show ?thesis by (simp add: comp ant_lang_literals star)
  next
    case ant
    then have h: "pat_kind ?h = patternAnt" "pat_tokens ?h = compile_tokens p"
      "minLength ?h = sum_list (map token_min (compile_tokens p))" "literalPrefix ?h = takeWhile (\<lambda>c. \<not> is_wildcard c) p"
      by (auto simp: newHttpExcludeUrl_def Let_def)
    then show ?thesis
      using ant_lang_min ant_lang_prefix by (auto simp: pattern_matches_def antCandidate_def)
  qed
qed

definition filter_matches :: "httpUrlFilter \<Rightarrow> string \<Rightarrow> bool" where
  "filter_matches f url \<longleftrightarrow> url \<in> set (exact f) \<or> (\<exists>h \<in> set (prefix_pats f). matchPrefix h url)
     \<or> (\<exists>h \<in> set (ant_pats f). antCandidate h url \<and> ant_lang (pat_tokens h) url)"

lemma setup_matches:
  "filter_matches (setupHttpUrlFilter us f) url \<longleftrightarrow>
   filter_matches f url \<or> (\<exists>u \<in> set us. u \<noteq> [] \<and> pattern_matches (newHttpExcludeUrl u) url)"
proof (induction us arbitrary: f)
  case (Cons u us)
  let ?h = "newHttpExcludeUrl u"
  let ?f = "if u = [] then f else case pat_kind ?h of patternExact \<Rightarrow> f\<lparr>exact := List.insert (pattern ?h) (exact f)\<rparr>
    | patternAnt \<Rightarrow> f\<lparr>ant_pats := ant_pats f @ [?h]\<rparr> | _ \<Rightarrow> f\<lparr>prefix_pats := prefix_pats f @ [?h]\<rparr>"
  have "filter_matches ?f url \<longleftrightarrow> filter_matches f url \<or> (u \<noteq> [] \<and> pattern_matches ?h url)"
    by (auto simp: filter_matches_def pattern_matches_def split: patternKind.splits)
  moreover have "setupHttpUrlFilter (u # us) f = setupHttpUrlFilter us ?f" by (simp only: setupHttpUrlFilter.simps Let_def)
  ultimately show ?case unfolding list.set bex_simps using Cons.IH [of ?f] by metis
qed simp

lemma isFiltered_matches: "ValidString url \<Longrightarrow> isFiltered f url \<longleftrightarrow> filter_matches f url"
  by (auto simp: isFiltered_def filter_matches_def antFiltered_def ant_loop_ok)

text \<open>
  (C9) A request URL (valid UTF-8) is excluded exactly when it belongs to the language of one of the configured patterns:
  the classification into exact, prefix and segment patterns, the length and prefix tests in front of the matcher, the
  dynamic program and its reused dirty buffer change nothing about the answer.
\<close>

theorem url_filter_correct:
  assumes "ValidString url"
  shows "isFiltered (new_filter ps) url \<longleftrightarrow> (\<exists>p \<in> set ps. p \<noteq> [] \<and> ant_lang (compile_tokens p) url)"
  using isFiltered_matches [OF assms] setup_matches [of ps _ url]
  by (simp add: new_filter_def pattern_denotes filter_matches_def)

theorem url_filter_correct_witness:
  "isFiltered (new_filter [''/a/**/?z'', ''/b'']) ''/a/b/c/xz''
   \<and> (\<exists>p \<in> {''/a/**/?z'', ''/b''}. ant_lang (compile_tokens p) ''/a/b/c/xz'')
   \<and> \<not> (\<exists>p \<in> {''/a/**/?z'', ''/b''}. ant_lang (compile_tokens p) ''/a/b/c/z'')"
proof -
  have v: "ValidString ''/a/b/c/xz''" "ValidString ''/a/b/c/z''" by code_simp+
  have "isFiltered (new_filter [''/a/**/?z'', ''/b'']) ''/a/b/c/xz''" "\<not> isFiltered (new_filter [''/a/**/?z'', ''/b'']) ''/a/b/c/z''"
    by code_simp+
  then show ?thesis using url_filter_correct [OF v(1)] url_filter_correct [OF v(2)] by auto
qed

end
