(* ===== verification/Balancer.thy ===== *)
theory Balancer
  imports Pinpoint_Prelude "HOL-Library.List_Lexorder" "HOL-Library.Char_ord"
begin

text \<open>
  The expiring pick-first load balancer (\<^verbatim>\<open>src/grpc_balancer.go\<close>): at most one SubConn in each of the READY, CONNECTING and
  TRANSIENT\_FAILURE slots, a successor requested by the first pick past the max age, replaced only once it is READY.
  SubConns are numbered in the order \<^verbatim>\<open>NewSubConn\<close> created them; the channel's answers (whether it accepts a SubConn, the
  states a SubConn reports) are inputs. Every function under the balancer's lock is one step of \<open>bal_do\<close>. What is assumed
  of grpc-go is in \<open>bal_do\<close>: a SubConn that was shut down reports nothing more but SHUTDOWN, and one that reported SHUTDOWN
  reports nothing.
\<close>

section \<open>State\<close>

datatype connState = Idle | Connecting | Ready | TransientFailure | Shutdown

text \<open>
  A resolved address: its \<^verbatim>\<open>Addr\<close> and the rest of what \<^verbatim>\<open>resolver.Address.Equal\<close> compares. The errors a picker returns
  are those of the library, of a failed SubConn, and of the resolver.
\<close>

record 'a address =
  Addr :: string
  attributes :: 'a

datatype pick_error = ErrNoSubConnAvailable | ConnectionError string | ResolveError string

text \<open>A picker returns a fixed SubConn, or an error; the one of an IDLE channel (numbered) runs \<open>ExitIdle\<close> on its first pick.\<close>

datatype expiringPicker = SubPicker nat | ErrPicker pick_error | IdlePicker nat

text \<open>
  The struct's fields, with what the SubConns hold (\<open>expiresAt\<close>, \<open>successor\<close>) keyed by SubConn, and what the channel
  sees: the last published state, the SubConns created, shut down and reported gone, the addresses each was dialed with,
  the \<^verbatim>\<open>Connect\<close> and \<^verbatim>\<open>ResolveNow\<close> calls, the request goroutines not run yet, the SubConns a successor was created for.
\<close>

record 'a expiringPickFirst =
  closed :: bool
  maxAge :: duration
  addrs :: "'a address list"
  next_addr :: nat
  ready :: "nat option"
  connecting :: "nat option"
  failure :: "nat option"
  expiresAt :: "nat \<Rightarrow> time option"
  successor :: "nat \<Rightarrow> bool"
  failureErr :: string
  channel :: "(connState \<times> expiringPicker) option"
  idle_pickers :: nat
  exited :: "nat set"
  created :: nat
  shut :: "nat set"
  gone :: "nat set"
  requests :: "nat list"
  dialed :: "'a address list list"
  connects :: "nat list"
  resolves :: nat
  channelRotations :: nat
  succeeded :: "nat list"

definition Build :: "nat \<Rightarrow> 'a expiringPickFirst" where
  "Build r =
     \<lparr>closed = False, maxAge = 0, addrs = [], next_addr = r, ready = None, connecting = None, failure = None,
      expiresAt = (\<lambda>_. None), successor = (\<lambda>_. False), failureErr = [], channel = None, idle_pickers = 0,
      exited = {}, created = 0, shut = {}, gone = {}, requests = [], dialed = [], connects = [], resolves = 0,
      channelRotations = 0, succeeded = []\<rparr>"

section \<open>Operations\<close>

definition updateBalancingStateLocked :: "'a expiringPickFirst \<Rightarrow> 'a expiringPickFirst" where
  "updateBalancingStateLocked b =
     (case ready b of
        Some sd \<Rightarrow> b\<lparr>channel := Some (Ready, SubPicker sd)\<rparr>
      | None \<Rightarrow>
          if connecting b \<noteq> None then b\<lparr>channel := Some (Connecting, ErrPicker ErrNoSubConnAvailable)\<rparr>
          else if failure b \<noteq> None then b\<lparr>channel := Some (TransientFailure, ErrPicker (ConnectionError (failureErr b)))\<rparr>
          else b\<lparr>channel := Some (Idle, IdlePicker (idle_pickers b)), idle_pickers := idle_pickers b + 1\<rparr>)"

text \<open>\<open>accepted\<close>: the channel accepts the SubConn; \<open>expiry\<close>: the jittered expiry drawn for it.\<close>

definition createSubConnLocked :: "bool \<Rightarrow> time \<Rightarrow> 'a expiringPickFirst \<Rightarrow> bool \<times> 'a expiringPickFirst" where
  "createSubConnLocked accepted expiry b =
     (if closed b \<or> connecting b \<noteq> None \<or> length (addrs b) = 0 then (False, b)
      else let start = next_addr b mod length (addrs b); b = b\<lparr>next_addr := start + 1\<rparr>
           in if \<not> accepted then (False, b)
              else (True, b\<lparr>expiresAt := (expiresAt b)(created b := if maxAge b > 0 then Some expiry else None),
                           connecting := Some (created b), created := created b + 1,
                           connects := connects b @ [created b],
                           dialed := dialed b @ [drop start (addrs b) @ take start (addrs b)]\<rparr>))"

definition readdressLocked :: "bool \<Rightarrow> time \<Rightarrow> 'a expiringPickFirst \<Rightarrow> 'a expiringPickFirst" where
  "readdressLocked accepted expiry b =
     updateBalancingStateLocked (snd (createSubConnLocked accepted expiry
       (b\<lparr>shut := shut b \<union> set_option (connecting b) \<union> set_option (failure b), connecting := None, failure := None\<rparr>)))"

definition resolverErrorLocked :: "string \<Rightarrow> 'a expiringPickFirst \<Rightarrow> 'a expiringPickFirst" where
  "resolverErrorLocked e b =
     (if closed b \<or> ready b \<noteq> None then b else b\<lparr>channel := Some (TransientFailure, ErrPicker (ResolveError e))\<rparr>)"

definition no_addresses :: string where
  "no_addresses = ''subconnection_expiring_pick_first: no addresses resolved''"

text \<open>The result is \<open>False\<close> for \<^verbatim>\<open>balancer.ErrBadResolverState\<close>; each endpoint is its address list.\<close>

definition UpdateClientConnState ::
  "bool \<Rightarrow> time \<Rightarrow> duration option \<Rightarrow> 'a address list list \<Rightarrow> 'a expiringPickFirst \<Rightarrow> bool \<times> 'a expiringPickFirst" where
  "UpdateClientConnState accepted expiry age endpoints b =
     (let b = (case age of Some d \<Rightarrow> b\<lparr>maxAge := d\<rparr> | None \<Rightarrow> b); resolved = concat endpoints
      in if resolved = [] then (False, resolverErrorLocked no_addresses b)
         else if addrs b = sort_key Addr resolved then (True, b)
         else (True, readdressLocked accepted expiry (b\<lparr>addrs := sort_key Addr resolved\<rparr>)))"

definition ExitIdle :: "bool \<Rightarrow> time \<Rightarrow> 'a expiringPickFirst \<Rightarrow> 'a expiringPickFirst" where
  "ExitIdle accepted expiry b =
     (if ready b \<noteq> None \<or> connecting b \<noteq> None then b
      else updateBalancingStateLocked (snd (createSubConnLocked accepted expiry b)))"

definition Close :: "'a expiringPickFirst \<Rightarrow> 'a expiringPickFirst" where
  "Close b =
     b\<lparr>closed := True, shut := shut b \<union> set_option (ready b) \<union> set_option (connecting b) \<union> set_option (failure b),
       ready := None, connecting := None, failure := None\<rparr>"

definition leave_slots :: "nat \<Rightarrow> 'a expiringPickFirst \<Rightarrow> 'a expiringPickFirst" where
  "leave_slots sd b =
     b\<lparr>ready := (if ready b = Some sd then None else ready b), connecting := (if connecting b = Some sd then None else connecting b),
       failure := (if failure b = Some sd then None else failure b)\<rparr>"

definition onSubConnState :: "nat \<Rightarrow> connState \<Rightarrow> string \<Rightarrow> 'a expiringPickFirst \<Rightarrow> 'a expiringPickFirst" where
  "onSubConnState sd st connErr b =
     (if closed b then b
      else let b = leave_slots sd b;
               b = (if st = TransientFailure \<or> st = Idle then b\<lparr>resolves := resolves b + 1\<rparr> else b)
           in updateBalancingStateLocked
                (case st of
                   Ready \<Rightarrow> b\<lparr>shut := shut b \<union> set_option (ready b), ready := Some sd\<rparr>
                 | TransientFailure \<Rightarrow>
                     if failure b \<noteq> None then b\<lparr>shut := insert sd (shut b)\<rparr> else b\<lparr>failure := Some sd, failureErr := connErr\<rparr>
                 | Connecting \<Rightarrow> if connecting b \<noteq> None then b\<lparr>shut := insert sd (shut b)\<rparr> else b\<lparr>connecting := Some sd\<rparr>
                 | Idle \<Rightarrow>
                     if connecting b \<noteq> None then b\<lparr>shut := insert sd (shut b)\<rparr>
                     else b\<lparr>connecting := Some sd, connects := connects b @ [sd]\<rparr>
                 | Shutdown \<Rightarrow> b))"

definition requestSuccessor :: "bool \<Rightarrow> time \<Rightarrow> nat \<Rightarrow> 'a expiringPickFirst \<Rightarrow> 'a expiringPickFirst" where
  "requestSuccessor accepted expiry sd b =
     (if closed b \<or> ready b \<noteq> Some sd then b
      else case createSubConnLocked accepted expiry b of
             (False, b) \<Rightarrow> b\<lparr>successor := (successor b)(sd := False)\<rparr>
           | (True, b) \<Rightarrow> b\<lparr>resolves := resolves b + 1, channelRotations := channelRotations b + 1,
                            succeeded := succeeded b @ [sd]\<rparr>)"

text \<open>
  A pick: the winner of the CAS on an expired SubConn starts a request goroutine; the first pick of an IDLE picker runs
  \<open>ExitIdle\<close>, whose inputs \<open>accepted\<close> and \<open>expiry\<close> are used there only.
\<close>

fun Pick :: "bool \<Rightarrow> time \<Rightarrow> time \<Rightarrow> expiringPicker \<Rightarrow> 'a expiringPickFirst \<Rightarrow> (pick_error + nat) \<times> 'a expiringPickFirst" where
  "Pick accepted expiry now (IdlePicker i) b =
     (Inl ErrNoSubConnAvailable, if i \<in> exited b then b else ExitIdle accepted expiry (b\<lparr>exited := insert i (exited b)\<rparr>))"
| "Pick accepted expiry now (ErrPicker e) b = (Inl e, b)"
| "Pick accepted expiry now (SubPicker sd) b =
     (Inr sd,
      if (case expiresAt b sd of Some t \<Rightarrow> now > t | None \<Rightarrow> False) \<and> \<not> successor b sd
      then b\<lparr>successor := (successor b)(sd := True), requests := requests b @ [sd]\<rparr> else b)"

section \<open>Runs\<close>

datatype 'a bal_event =
    Resolved bool time "duration option" "'a address list list"
  | ResolverFailed string
  | Exit_Idle bool time
  | Closing
  | Reports nat connState string
  | Picked bool time time expiringPicker
  | Request bool time nat

text \<open>
  \<open>None\<close>: the event cannot happen. A pick may use any picker ever published, including one replaced since; a request
  goroutine runs at any later time.
\<close>

fun bal_do :: "'a bal_event \<Rightarrow> 'a expiringPickFirst \<Rightarrow> 'a expiringPickFirst option" where
  "bal_do (Resolved ok t age xs) b = Some (snd (UpdateClientConnState ok t age xs b))"
| "bal_do (ResolverFailed e) b = Some (resolverErrorLocked e b)"
| "bal_do (Exit_Idle ok t) b = Some (ExitIdle ok t b)"
| "bal_do Closing b = Some (Close b)"
| "bal_do (Reports sd st e) b =
     (if sd < created b \<and> sd \<notin> gone b \<and> (sd \<in> shut b \<longrightarrow> st = Shutdown)
      then Some (onSubConnState sd st e (b\<lparr>gone := (if st = Shutdown then insert sd (gone b) else gone b)\<rparr>)) else None)"
| "bal_do (Picked ok t now p) b =
     (if (case p of SubPicker sd \<Rightarrow> sd < created b | _ \<Rightarrow> True) then Some (snd (Pick ok t now p b)) else None)"
| "bal_do (Request ok t sd) b =
     (if sd \<in> set (requests b) then Some (requestSuccessor ok t sd (b\<lparr>requests := remove1 sd (requests b)\<rparr>)) else None)"

fun bal_run :: "'a bal_event list \<Rightarrow> 'a expiringPickFirst \<Rightarrow> 'a expiringPickFirst option" where
  "bal_run [] b = Some b"
| "bal_run (e # es) b = (case bal_do e b of None \<Rightarrow> None | Some b' \<Rightarrow> bal_run es b')"

section \<open>No SubConn leaks\<close>

definition slots :: "'a expiringPickFirst \<Rightarrow> nat set" where
  "slots b = set_option (ready b) \<union> set_option (connecting b) \<union> set_option (failure b)"

definition live :: "'a expiringPickFirst \<Rightarrow> nat set" where
  "live b = {sd. sd < created b \<and> sd \<notin> shut b \<and> sd \<notin> gone b}"

definition disjoint_slots :: "'a expiringPickFirst \<Rightarrow> bool" where
  "disjoint_slots b \<longleftrightarrow> set_option (ready b) \<inter> set_option (connecting b) = {}
     \<and> set_option (ready b) \<inter> set_option (failure b) = {} \<and> set_option (connecting b) \<inter> set_option (failure b) = {}"

definition slots_inv :: "'a expiringPickFirst \<Rightarrow> bool" where
  "slots_inv b \<longleftrightarrow> live b = slots b \<and> disjoint_slots b \<and> (closed b \<longrightarrow> slots b = {}) \<and> shut b \<union> gone b \<subseteq> {..<created b}"

definition channel_ok :: "'a expiringPickFirst \<Rightarrow> bool" where
  "channel_ok b \<longleftrightarrow> closed b \<or> (\<forall>sd. channel b = Some (Ready, SubPicker sd) \<longleftrightarrow> ready b = Some sd)"

lemma update_channel_ok: "channel_ok (updateBalancingStateLocked b)"
  by (auto simp: channel_ok_def updateBalancingStateLocked_def split: option.splits)

lemma update_slots [simp]:
  "slots_inv (updateBalancingStateLocked b) = slots_inv b" "ready (updateBalancingStateLocked b) = ready b"
  "shut (updateBalancingStateLocked b) = shut b" "closed (updateBalancingStateLocked b) = closed b"
  "requests (updateBalancingStateLocked b) = requests b" "succeeded (updateBalancingStateLocked b) = succeeded b"
  "successor (updateBalancingStateLocked b) = successor b" "created (updateBalancingStateLocked b) = created b"
  by (simp_all add: slots_inv_def live_def slots_def disjoint_slots_def updateBalancingStateLocked_def split: option.splits)

lemma create_frame [simp]:
  "ready (snd (createSubConnLocked ok t b)) = ready b" "channel (snd (createSubConnLocked ok t b)) = channel b"
  "closed (snd (createSubConnLocked ok t b)) = closed b" "shut (snd (createSubConnLocked ok t b)) = shut b"
  "requests (snd (createSubConnLocked ok t b)) = requests b" "succeeded (snd (createSubConnLocked ok t b)) = succeeded b"
  "successor (snd (createSubConnLocked ok t b)) = successor b"
  by (simp_all add: createSubConnLocked_def Let_def)

lemma fields_slots [simp]:
  "slots_inv (b\<lparr>maxAge := d\<rparr>) = slots_inv b" "slots_inv (b\<lparr>addrs := xs\<rparr>) = slots_inv b" "slots_inv (b\<lparr>channel := p\<rparr>) = slots_inv b"
  "slots_inv (b\<lparr>successor := f\<rparr>) = slots_inv b" "slots_inv (b\<lparr>requests := rs\<rparr>) = slots_inv b"
  "slots_inv (b\<lparr>succeeded := ss\<rparr>) = slots_inv b" "slots_inv (b\<lparr>resolves := n\<rparr>) = slots_inv b"
  "slots_inv (b\<lparr>channelRotations := n\<rparr>) = slots_inv b" "slots_inv (b\<lparr>exited := X\<rparr>) = slots_inv b"
  "slots_inv (b\<lparr>connects := cs\<rparr>) = slots_inv b" "slots_inv (b\<lparr>failureErr := e\<rparr>) = slots_inv b"
  by (simp_all add: slots_inv_def live_def slots_def disjoint_slots_def)

lemma live_bound: "slots_inv b \<Longrightarrow> slots b \<subseteq> {..<created b}"
  by (auto simp: slots_inv_def live_def)

lemma create_slots:
  assumes inv: "slots_inv b"
  shows "slots_inv (snd (createSubConnLocked ok t b))"
proof (cases "fst (createSubConnLocked ok t b)")
  case False
  then have "slots_inv (snd (createSubConnLocked ok t b)) = slots_inv b"
    by (auto simp: createSubConnLocked_def Let_def slots_inv_def live_def slots_def disjoint_slots_def split: if_splits)
  then show ?thesis using inv by simp
next
  case True
  define b' where "b' = snd (createSubConnLocked ok t b)"
  have b': "ready b' = ready b" "failure b' = failure b" "connecting b' = Some (created b)" "created b' = Suc (created b)"
    "shut b' = shut b" "gone b' = gone b" "closed b' = closed b" "\<not> closed b" "connecting b = None"
    using True by (auto simp: b'_def createSubConnLocked_def Let_def split: if_splits)
  have bound: "shut b \<union> gone b \<subseteq> {..<created b}" "slots b \<subseteq> {..<created b}"
    using inv live_bound by (auto simp: slots_inv_def)
  have "live b' = insert (created b) (live b)" using bound(1) b' by (auto simp: live_def less_Suc_eq)
  moreover have "slots b' = insert (created b) (slots b)" using b' by (auto simp: slots_def)
  moreover have "disjoint_slots b'" using inv bound(2) b' by (auto simp: slots_inv_def disjoint_slots_def slots_def)
  moreover have "shut b' \<union> gone b' \<subseteq> {..<created b'}" using bound(1) b' by auto
  ultimately have "slots_inv b'" using inv b' by (simp add: slots_inv_def)
  then show ?thesis by (simp add: b'_def)
qed

lemma set_option_leave: "set_option (if x = Some sd then None else x) = set_option x - {sd}"
  by (cases x) auto

lemma leave_slots_spec:
  "slots (leave_slots sd b) = slots b - {sd}" "disjoint_slots b \<Longrightarrow> disjoint_slots (leave_slots sd b)"
  "shut (leave_slots sd b) = shut b" "gone (leave_slots sd b) = gone b" "created (leave_slots sd b) = created b"
  "closed (leave_slots sd b) = closed b"
  by (auto simp: leave_slots_def slots_def disjoint_slots_def set_option_leave)

text \<open>A SubConn out of every slot and not accounted for is put in a slot or shut down.\<close>

lemma place_slots:
  assumes out: "sd \<notin> slots b" and dis: "disjoint_slots b" and live: "live b = insert sd (slots b)"
    and bound: "shut b \<union> gone b \<subseteq> {..<created b}" "\<not> closed b"
  shows "slots_inv (b\<lparr>shut := shut b \<union> set_option (ready b), ready := Some sd\<rparr>)"
    and "slots_inv (b\<lparr>shut := insert sd (shut b)\<rparr>)"
    and "failure b = None \<Longrightarrow> slots_inv (b\<lparr>failure := Some sd\<rparr>)"
    and "connecting b = None \<Longrightarrow> slots_inv (b\<lparr>connecting := Some sd\<rparr>)"
proof -
  have lv: "live b = {x. x < created b \<and> x \<notin> shut b \<and> x \<notin> gone b}" by (simp add: live_def)
  have sdl: "sd \<in> live b" using live by simp
  have r: "set_option (ready b) \<subseteq> live b" using live by (auto simp: slots_def)
  have d: "set_option (ready b) \<inter> (set_option (connecting b) \<union> set_option (failure b)) = {}" "sd \<notin> set_option (ready b)"
    using dis out by (auto simp: disjoint_slots_def slots_def)
  have "live (b\<lparr>shut := shut b \<union> set_option (ready b), ready := Some sd\<rparr>) = live b - set_option (ready b)"
    by (auto simp: live_def)
  also have "\<dots> = slots (b\<lparr>shut := shut b \<union> set_option (ready b), ready := Some sd\<rparr>)"
    unfolding live using d by (auto simp: slots_def)
  finally show "slots_inv (b\<lparr>shut := shut b \<union> set_option (ready b), ready := Some sd\<rparr>)"
    using dis out bound r by (auto simp: slots_inv_def disjoint_slots_def slots_def live_def)
  have "live (b\<lparr>shut := insert sd (shut b)\<rparr>) = live b - {sd}" by (auto simp: live_def)
  also have "\<dots> = slots b" unfolding live using out by auto
  finally show "slots_inv (b\<lparr>shut := insert sd (shut b)\<rparr>)"
    using dis bound sdl by (auto simp: slots_inv_def slots_def disjoint_slots_def live_def)
  show "slots_inv (b\<lparr>failure := Some sd\<rparr>)" if "failure b = None"
    using that dis out bound live by (auto simp: slots_inv_def slots_def disjoint_slots_def live_def)
  show "slots_inv (b\<lparr>connecting := Some sd\<rparr>)" if "connecting b = None"
    using that dis out bound live by (auto simp: slots_inv_def slots_def disjoint_slots_def live_def)
qed

lemma reports_slots:
  assumes inv: "slots_inv b" and sd: "sd < created b" "sd \<notin> gone b" "sd \<in> shut b \<longrightarrow> st = Shutdown"
  shows "slots_inv (onSubConnState sd st e (b\<lparr>gone := (if st = Shutdown then insert sd (gone b) else gone b)\<rparr>))"
proof -
  have lv: "live (b\<lparr>gone := insert sd (gone b)\<rparr>) = live b - {sd}" by (auto simp: live_def)
  consider (closed) "closed b" | (gone) "\<not> closed b" "st = Shutdown" | (up) "\<not> closed b" "st \<noteq> Shutdown" by blast
  then show ?thesis
  proof cases
    case closed
    have "slots (b\<lparr>gone := g\<rparr>) = slots b" "disjoint_slots (b\<lparr>gone := g\<rparr>) = disjoint_slots b" for g
      by (simp_all add: slots_def disjoint_slots_def)
    then have "slots_inv (b\<lparr>gone := insert sd (gone b)\<rparr>)" using inv closed lv sd(1) by (simp add: slots_inv_def)
    then show ?thesis using closed inv by (simp add: onSubConnState_def)
  next
    case gone
    let ?b = "leave_slots sd (b\<lparr>gone := insert sd (gone b)\<rparr>)"
    have "live ?b = live b - {sd}" using lv by (simp add: live_def leave_slots_spec)
    moreover have "slots ?b = slots b - {sd}" by (auto simp: leave_slots_def slots_def set_option_leave)
    moreover have "disjoint_slots ?b" using inv by (intro leave_slots_spec) (simp add: slots_inv_def disjoint_slots_def)
    ultimately have "slots_inv ?b" using inv gone sd(1) by (simp add: slots_inv_def leave_slots_spec)
    then show ?thesis using gone by (simp add: onSubConnState_def)
  next
    case up
    define b2 where
      "b2 = (if st = TransientFailure \<or> st = Idle then (leave_slots sd b)\<lparr>resolves := resolves (leave_slots sd b) + 1\<rparr>
        else leave_slots sd b)"
    have same: "b\<lparr>gone := (if st = Shutdown then insert sd (gone b) else gone b)\<rparr> = b" using up by simp
    have b2: "shut b2 = shut b" "gone b2 = gone b" "created b2 = created b" "closed b2 = closed b" "slots b2 = slots b - {sd}"
      "disjoint_slots b2 = disjoint_slots (leave_slots sd b)"
      by (auto simp: b2_def leave_slots_def slots_def disjoint_slots_def set_option_leave)
    have "sd \<in> live b" using sd up by (simp add: live_def)
    moreover have "live b2 = live b" by (simp add: live_def b2)
    ultimately have live: "live b2 = insert sd (slots b2)" using inv by (auto simp: slots_inv_def b2)
    have out: "sd \<notin> slots b2" and dis: "disjoint_slots b2" and bnd: "shut b2 \<union> gone b2 \<subseteq> {..<created b2}" "\<not> closed b2"
      using inv up by (simp_all add: slots_inv_def b2 leave_slots_spec)
    show ?thesis
      unfolding same onSubConnState_def Let_def b2_def [symmetric]
      using up place_slots [OF out dis live bnd] by (cases st) simp_all
  qed
qed

lemma readdress_slots:
  assumes "slots_inv b"
  shows "slots_inv (readdressLocked ok t b)"
proof -
  let ?b = "b\<lparr>shut := shut b \<union> set_option (connecting b) \<union> set_option (failure b), connecting := None, failure := None\<rparr>"
  have "live ?b = live b - (set_option (connecting b) \<union> set_option (failure b))" by (auto simp: live_def)
  then have "slots_inv ?b"
    using assms live_bound [OF assms] by (auto simp: slots_inv_def slots_def disjoint_slots_def)
  from create_slots [OF this] show ?thesis by (simp add: readdressLocked_def)
qed

lemma bal_do_slots:
  assumes "bal_do e b = Some b'" "slots_inv b"
  shows "slots_inv b'"
proof (cases e)
  case (Resolved ok t age xs)
  then show ?thesis
    using assms
    by (auto intro!: readdress_slots simp: UpdateClientConnState_def resolverErrorLocked_def Let_def split: option.splits if_splits)
next
  case (Exit_Idle ok t)
  then show ?thesis using assms create_slots by (auto simp: ExitIdle_def split: if_splits)
next
  case Closing
  have "live (Close b) = live b - slots b" by (auto simp: live_def Close_def slots_def)
  then show ?thesis
    using assms Closing live_bound [OF assms(2)] by (auto simp: slots_inv_def Close_def slots_def disjoint_slots_def)
next
  case (Reports sd st x)
  then show ?thesis using assms reports_slots [OF assms(2), of sd st x] by (simp split: if_splits)
next
  case (Picked ok t now p)
  then show ?thesis
    using assms create_slots [of "b\<lparr>exited := X\<rparr>" for X] by (cases p) (auto simp: ExitIdle_def split: if_splits)
next
  case (Request ok t sd)
  let ?b = "b\<lparr>requests := remove1 sd (requests b)\<rparr>"
  have ok: "slots_inv (snd (createSubConnLocked ok t ?b))" by (rule create_slots) (use assms(2) in simp)
  have b': "b' = requestSuccessor ok t sd ?b" using assms(1) Request by (simp split: if_splits)
  show ?thesis
    unfolding b' requestSuccessor_def using ok assms(2) by (cases "createSubConnLocked ok t ?b") (auto split: bool.splits)
qed (use assms in \<open>auto simp: resolverErrorLocked_def split: if_splits\<close>)

lemma readdress_channel: "channel_ok (readdressLocked ok t b)"
  by (simp add: readdressLocked_def update_channel_ok)

lemma resolver_channel: "channel_ok b \<Longrightarrow> channel_ok (resolverErrorLocked e b)"
  by (auto simp: channel_ok_def resolverErrorLocked_def)

lemma fields_channel [simp]: "channel_ok (b\<lparr>maxAge := d\<rparr>) = channel_ok b" "channel_ok (b\<lparr>gone := g\<rparr>) = channel_ok b"
  "channel_ok (b\<lparr>exited := X\<rparr>) = channel_ok b"
  "channel_ok (b\<lparr>successor := f, requests := rs\<rparr>) = channel_ok b"
  by (simp_all add: channel_ok_def)

lemma bal_do_channel:
  assumes "bal_do e b = Some b'" "channel_ok b"
  shows "channel_ok b'"
proof (cases e)
  case (Resolved ok t age xs)
  then show ?thesis
    using assms readdress_channel
    by (auto simp: UpdateClientConnState_def resolver_channel Let_def split: option.splits if_splits)
next
  case (Exit_Idle ok t)
  then show ?thesis using assms update_channel_ok by (auto simp: ExitIdle_def split: if_splits)
next
  case (Reports sd st x)
  then show ?thesis using assms update_channel_ok by (auto simp: onSubConnState_def Let_def split: if_splits)
next
  case (Picked ok t now p)
  then show ?thesis
    using assms by (cases p) (auto simp: ExitIdle_def update_channel_ok split: if_splits)
next
  case (Request ok t sd)
  let ?b = "b\<lparr>requests := remove1 sd (requests b)\<rparr>"
  have ok: "channel_ok (snd (createSubConnLocked ok t ?b))" using assms(2) by (simp add: channel_ok_def)
  have b': "b' = requestSuccessor ok t sd ?b" using assms(1) Request by (simp split: if_splits)
  show ?thesis
    unfolding b' requestSuccessor_def using ok assms(2)
    by (cases "createSubConnLocked ok t ?b") (auto simp: channel_ok_def split: bool.splits)
qed (use assms in \<open>auto simp: resolverErrorLocked_def Close_def channel_ok_def split: if_splits\<close>)

lemma bal_run_induct:
  assumes "bal_run es b = Some b'" "P b" "\<And>e b b'. bal_do e b = Some b' \<Longrightarrow> P b \<Longrightarrow> P b'"
  shows "P b'"
  using assms(1,2)
proof (induction es arbitrary: b)
  case (Cons e es)
  then show ?case using assms(3) by (auto split: option.splits)
qed simp

lemma build_slots: "slots_inv (Build r)" "channel_ok (Build r)"
  by (auto simp: slots_inv_def live_def slots_def disjoint_slots_def channel_ok_def Build_def)

text \<open>
  (C6) No SubConn leaks: in any run, the SubConns created and neither shut down nor reported gone are exactly those in the
  three slots, so at most three are open at any time and none after \<open>Close\<close>; and the picker the channel was last given
  returns the SubConn in the READY slot whenever there is one, and no other.
\<close>

theorem balancer_leaks_nothing:
  assumes "bal_run es (Build r) = Some b"
  shows "live b = slots b \<and> card (live b) \<le> 3 \<and> (closed b \<longrightarrow> live b = {})
    \<and> (closed b \<or> (\<forall>sd. channel b = Some (Ready, SubPicker sd) \<longleftrightarrow> ready b = Some sd))"
proof -
  have inv: "slots_inv b" "channel_ok b"
    using bal_run_induct [OF assms, of slots_inv] bal_run_induct [OF assms, of channel_ok] build_slots bal_do_slots bal_do_channel
    by blast+
  have one: "card (set_option x) \<le> 1" for x :: "nat option" by (cases x) auto
  have "card (slots b) \<le> card (set_option (ready b)) + card (set_option (connecting b)) + card (set_option (failure b))"
    unfolding slots_def by (meson add_right_mono card_Un_le order_trans)
  also have "\<dots> \<le> 3" using one [of "ready b"] one [of "connecting b"] one [of "failure b"] by linarith
  finally show ?thesis using inv by (auto simp: slots_inv_def channel_ok_def)
qed

lemmas bal_defs = Build_def UpdateClientConnState_def readdressLocked_def createSubConnLocked_def
  updateBalancingStateLocked_def onSubConnState_def leave_slots_def requestSuccessor_def Let_def

definition demo_addrs :: "unit address list" where
  "demo_addrs = [\<lparr>Addr = ''b'', attributes = ()\<rparr>, \<lparr>Addr = ''a'', attributes = ()\<rparr>]"

definition demo_events :: "unit bal_event list" where
  "demo_events = [Resolved True 5 (Some 10) [demo_addrs], Reports 0 Ready [], Picked True 0 9 (SubPicker 0), Request True 20 0,
     Reports 1 Ready []]"

theorem balancer_leaks_nothing_witness:
  "\<exists>b. bal_run demo_events (Build 0)
      = Some b \<and> ready b = Some 1 \<and> live b = slots b \<and> shut b = {0}"
proof -
  define b where "b = the (bal_run demo_events (Build 0))"
  have run: "bal_run demo_events (Build 0) = Some b"
    and "ready b = Some 1" "shut b = {0}"
    by (simp_all add: b_def demo_events_def demo_addrs_def bal_defs)
  then show ?thesis using balancer_leaks_nothing [OF run] by auto
qed

section \<open>Make before break\<close>

lemma live_ready: "slots_inv b \<Longrightarrow> ready b = Some sd \<Longrightarrow> sd \<notin> shut b"
  by (auto simp: slots_inv_def slots_def live_def)

lemma request_frame: "ready (requestSuccessor ok t sd b) = ready b" "shut (requestSuccessor ok t sd b) = shut b"
  using create_frame(1,4) [of ok t b] by (cases "createSubConnLocked ok t b"; auto simp: requestSuccessor_def split: bool.splits)+

text \<open>
  (C36) Make before break: whatever happens, short of closing the channel or the serving SubConn itself reporting that it lost
  its connection, the READY SubConn stays and is not shut down until another one has reported READY and taken its place.
  Max age rotations, address changes and resolver errors never take the working connection away.
\<close>

theorem make_before_break:
  assumes "bal_run es (Build r) = Some b" "ready b = Some sd" "bal_do e b = Some b'" "e \<noteq> Closing"
    and "\<forall>st x. e = Reports sd st x \<longrightarrow> st = Ready"
  shows "(ready b' = Some sd \<and> sd \<notin> shut b') \<or> (\<exists>sd' x. e = Reports sd' Ready x \<and> ready b' = Some sd' \<and> sd \<in> shut b')"
proof -
  have inv: "slots_inv b" using bal_run_induct [OF assms(1), of slots_inv] build_slots(1) bal_do_slots by blast
  have inv': "slots_inv b'" by (rule bal_do_slots [OF assms(3) inv])
  have "ready b' = Some sd \<or> (\<exists>sd' x. e = Reports sd' Ready x \<and> ready b' = Some sd' \<and> sd \<in> shut b')"
  proof (cases e)
    case (Reports x st er)
    have "\<not> closed b" using inv assms(2) by (auto simp: slots_inv_def slots_def)
    then show ?thesis
      using assms(2,3,5) Reports
      by (cases st; cases "x = sd") (auto simp: onSubConnState_def leave_slots_def Let_def split: if_splits)
  next
    case (Picked ok t now p)
    then show ?thesis using assms by (cases p) (auto simp: ExitIdle_def split: if_splits)
  qed (use assms in \<open>auto simp: UpdateClientConnState_def resolverErrorLocked_def readdressLocked_def ExitIdle_def
        request_frame Let_def split: option.splits if_splits\<close>)
  then show ?thesis using live_ready [OF inv'] by blast
qed

definition demo_balancer :: "unit expiringPickFirst" where
  "demo_balancer = the (bal_run (take 2 demo_events) (Build 0))"

theorem make_before_break_witness:
  "\<exists>b'. bal_do (Resolved True 7 None [tl demo_addrs]) demo_balancer = Some b' \<and> ready b' = Some 0 \<and> connecting b' = Some 1 \<and> 0 \<notin> shut b'"
proof -
  have run: "bal_run (take 2 demo_events) (Build 0) = Some demo_balancer"
    and rdy: "ready demo_balancer = Some 0"
    by (simp_all add: demo_balancer_def demo_events_def demo_addrs_def bal_defs)
  obtain b' where b': "bal_do (Resolved True 7 None [tl demo_addrs]) demo_balancer = Some b'" "connecting b' = Some 1" "ready b' = Some 0"
    by (simp add: demo_balancer_def demo_events_def demo_addrs_def bal_defs)
  from make_before_break [OF run rdy b'(1)] b' show ?thesis by auto
qed

section \<open>One successor per connection\<close>

definition request_inv :: "'a expiringPickFirst \<Rightarrow> bool" where
  "request_inv b \<longleftrightarrow> distinct (requests b @ succeeded b) \<and> (\<forall>sd \<in> set (requests b @ succeeded b). successor b sd)"

lemma request_inv_cong:
  "requests c = requests b \<Longrightarrow> succeeded c = succeeded b \<Longrightarrow> successor c = successor b \<Longrightarrow> request_inv c = request_inv b"
  by (simp add: request_inv_def)

lemma operations_request_inv [simp]:
  "request_inv (snd (UpdateClientConnState ok t age xs b)) = request_inv b" "request_inv (ExitIdle ok t b) = request_inv b"
  "request_inv (Close b) = request_inv b" "request_inv (resolverErrorLocked e b) = request_inv b"
  "request_inv (onSubConnState sd st e b) = request_inv b" "request_inv (b\<lparr>gone := g\<rparr>) = request_inv b"
  "request_inv (b\<lparr>exited := X\<rparr>) = request_inv b"
  by (rule request_inv_cong; cases age; simp add: UpdateClientConnState_def resolverErrorLocked_def readdressLocked_def Let_def;
      fail)
    (rule request_inv_cong; simp add: ExitIdle_def Close_def resolverErrorLocked_def onSubConnState_def leave_slots_def Let_def
      split: connState.splits; fail)+

lemma pick_request_inv: "request_inv b \<Longrightarrow> request_inv (snd (Pick ok t now p b))"
proof (cases p)
  case (SubPicker sd)
  then show "request_inv b \<Longrightarrow> ?thesis" by (auto simp: request_inv_def)
qed auto

lemma request_request_inv:
  assumes "sd \<in> set (requests b)" "request_inv b"
  shows "request_inv (requestSuccessor ok t sd (b\<lparr>requests := remove1 sd (requests b)\<rparr>))"
proof -
  let ?b = "b\<lparr>requests := remove1 sd (requests b)\<rparr>"
  obtain made c where c: "createSubConnLocked ok t ?b = (made, c)" by force
  then have "requests c = requests ?b" "succeeded c = succeeded b" "successor c = successor b"
    using create_frame(5-7) [of ok t ?b] by auto
  then show ?thesis
    using assms c by (cases made) (auto simp: requestSuccessor_def request_inv_def)
qed

lemma bal_do_requests: "bal_do e b = Some b' \<Longrightarrow> request_inv b \<Longrightarrow> request_inv b'"
  by (cases e) (auto simp: pick_request_inv request_request_inv split: if_splits)

text \<open>
  However many picks find a connection past its max age, at most one successor is ever created for it.
\<close>

theorem one_successor_per_connection:
  assumes "bal_run es (Build r) = Some b"
  shows "distinct (succeeded b) \<and> set (succeeded b) \<inter> set (requests b) = {}"
proof -
  have "request_inv (Build r)" by (simp add: request_inv_def Build_def)
  then have "request_inv b" using bal_run_induct [OF assms, of request_inv] bal_do_requests by blast
  then show ?thesis by (auto simp: request_inv_def)
qed

theorem one_successor_per_connection_witness:
  "\<exists>b. bal_run (take 4 demo_events @ [Picked True 0 9 (SubPicker 0)]) (Build 0) = Some b
     \<and> succeeded b = [0] \<and> requests b = [] \<and> distinct (succeeded b)"
proof -
  define b where "b = the (bal_run (take 4 demo_events @ [Picked True 0 9 (SubPicker 0)]) (Build 0))"
  have run: "bal_run (take 4 demo_events @ [Picked True 0 9 (SubPicker 0)]) (Build 0) = Some b"
    and "succeeded b = [0]" "requests b = []"
    by (simp_all add: b_def demo_events_def demo_addrs_def bal_defs)
  then show ?thesis using one_successor_per_connection [OF run] by auto
qed

end
