(* ===== verification/Object_Name.thy ===== *)
theory Object_Name
  imports Utf8
begin

text \<open>
  The agent's self-identification (\<^verbatim>\<open>src/objectname.go\<close>, \<^verbatim>\<open>src/uid.go\<close>): the identity resolved from the configuration under
  the rules of its version, the agent name made up from the host name and the process id, and the text form of the
  generated agent id. The configuration is read through \<open>str\<close>, its \<^verbatim>\<open>String\<close> accessor; the UUID drawn, the host name and
  the process id are inputs.
\<close>

section \<open>Data\<close>

datatype nameVersion = nameV1 | nameV3 | nameV4

definition agentIDMaxLen :: nat where "agentIDMaxLen = 24"
definition agentNameMaxLen :: nat where "agentNameMaxLen = 255"
definition serviceNameMinLen :: nat where "serviceNameMinLen = 3"
definition serviceNameMaxLen :: nat where "serviceNameMaxLen = 254"
definition appNameMaxLenV1 :: nat where "appNameMaxLenV1 = 24"
definition appNameMaxLenV3 :: nat where "appNameMaxLenV3 = 254"
definition agentNameMaxLenV4 :: nat where "agentNameMaxLenV4 = 254"

lemmas length_limits = agentIDMaxLen_def agentNameMaxLen_def serviceNameMinLen_def serviceNameMaxLen_def appNameMaxLenV1_def
  appNameMaxLenV3_def agentNameMaxLenV4_def

definition CfgUIDVersion :: string where "CfgUIDVersion = ''Uid.Version''"
definition CfgAppName :: string where "CfgAppName = ''ApplicationName''"
definition CfgServiceName :: string where "CfgServiceName = ''ServiceName''"
definition CfgApiKey :: string where "CfgApiKey = ''ApiKey''"
definition CfgAgentName :: string where "CfgAgentName = ''AgentName''"
definition CfgClusterNamespace :: string where "CfgClusterNamespace = ''ClusterNamespace''"

lemmas cfg_names = CfgUIDVersion_def CfgAppName_def CfgServiceName_def CfgApiKey_def CfgAgentName_def CfgClusterNamespace_def

text \<open>A UUID is its 16 bytes, in network order.\<close>

type_synonym uuid = "8 word list"

record objectName =
  version :: nameVersion
  agentID :: string
  agentName :: string
  applicationName :: string
  serviceName :: string
  apiKey :: string
  agentUID :: uuid

text \<open>What makes an identity unusable; each is a startup error.\<close>

datatype identity_error = InvalidApplicationName nat | InvalidServiceName | InvalidApiKey

section \<open>Operations\<close>

definition parseNameVersion :: "string \<Rightarrow> nameVersion" where
  "parseNameVersion ver =
     (let v = ToLower (TrimSpace ver) in if v = ''v1'' then nameV1 else if v = ''v3'' then nameV3 else nameV4)"

definition isV4 :: "objectName \<Rightarrow> bool" where
  "isV4 o1 \<longleftrightarrow> version o1 = nameV4"

definition protocolVersion :: "objectName \<Rightarrow> int" where
  "protocolVersion o1 = (if isV4 o1 then 400 else 100)"

definition versionString :: "objectName \<Rightarrow> string" where
  "versionString o1 = (case version o1 of nameV1 \<Rightarrow> ''v1'' | nameV4 \<Rightarrow> ''v4'' | nameV3 \<Rightarrow> ''v3'')"

definition objectName_String :: "objectName \<Rightarrow> string" where
  "objectName_String o1 =
     (let key = (if apiKey o1 \<noteq> [] then ''****'' else [])
      in ''objectName{version='' @ versionString o1 @ '', agentId='' @ agentID o1 @ '', agentName='' @ agentName o1
         @ '', applicationName='' @ applicationName o1 @ '', serviceName='' @ serviceName o1 @ '', apiKey='' @ key @ ''}'')"

text \<open>
  \<open>strings.Map\<close> with the replacement of \<open>makeAgentName\<close>: a rune that is not an id character, and a byte that is no rune,
  becomes one \<open>_\<close>.
\<close>

function id_map :: "string \<Rightarrow> string" where
  "id_map s =
     (if s = [] then []
      else let w = rune_width s
           in (if w = 1 \<and> isIDChars (take 1 s) then hd s else CHR ''_'') # id_map (drop (max w 1) s))"
  by pat_completeness auto
termination
  by (relation "measure length") auto

declare id_map.simps [simp del]

definition makeAgentName :: "string \<Rightarrow> int \<Rightarrow> string" where
  "makeAgentName host pid =
     (let suffix = CHR ''-'' # FormatInt pid; host = id_map host; maxHost = agentNameMaxLenV4 - length suffix
      in (if length host > maxHost then take maxHost host else host) @ suffix)"

definition resolveAgentName :: "(string \<Rightarrow> string) \<Rightarrow> string \<Rightarrow> nat \<Rightarrow> string" where
  "resolveAgentName str generated maxLen =
     (let name = TrimSpace (str CfgAgentName) in if IsValidId name maxLen then name else generated)"

definition resolveClusterNamespace :: "(string \<Rightarrow> string) \<Rightarrow> string" where
  "resolveClusterNamespace str =
     (let namespace = TrimSpace (str CfgClusterNamespace) in if isPrintableASCII namespace then namespace else [])"

definition resolveObjectNameWithID ::
  "(string \<Rightarrow> string) \<Rightarrow> string \<Rightarrow> string \<Rightarrow> uuid \<Rightarrow> identity_error + objectName" where
  "resolveObjectNameWithID str generated aid uid =
     (let ver = parseNameVersion (str CfgUIDVersion);
          appNameMax = (if ver = nameV1 then appNameMaxLenV1 else appNameMaxLenV3);
          agentNameMax = (if ver = nameV4 then agentNameMaxLenV4 else agentNameMaxLen);
          appName = TrimSpace (str CfgAppName)
      in if \<not> IsValidId appName appNameMax then Inl (InvalidApplicationName appNameMax)
         else let o1 = \<lparr>version = ver, agentID = aid, agentName = resolveAgentName str generated agentNameMax,
                        applicationName = appName, serviceName = [], apiKey = [], agentUID = replicate 16 0\<rparr>
              in if ver \<noteq> nameV4 then Inr o1
                 else let svc = TrimSpace (str CfgServiceName)
                      in if \<not> IsValidId svc serviceNameMaxLen \<or> length svc < serviceNameMinLen then Inl InvalidServiceName
                         else let key = TrimSpace (str CfgApiKey)
                              in if \<not> isPrintableASCII key then Inl InvalidApiKey
                                 else Inr (o1\<lparr>serviceName := svc, apiKey := key, agentUID := uid\<rparr>))"

text \<open>\<open>base64.RawURLEncoding\<close>: six bits a character, no padding.\<close>

definition base64_alphabet :: string where
  "base64_alphabet = ''ABCDEFGHIJKLMNOPQRSTUVWXYZabcdefghijklmnopqrstuvwxyz0123456789-_''"

definition base64_char :: "nat \<Rightarrow> char" where
  "base64_char n = base64_alphabet ! (n mod 64)"

fun RawURLEncoding :: "8 word list \<Rightarrow> string" where
  "RawURLEncoding [] = []"
| "RawURLEncoding [a] = (let n = unat a * 16 in map base64_char [n div 64, n])"
| "RawURLEncoding [a, b] = (let n = (unat a * 256 + unat b) * 4 in map base64_char [n div 4096, n div 64, n])"
| "RawURLEncoding (a # b # c # bs) =
     (let n = (unat a * 256 + unat b) * 256 + unat c
      in map base64_char [n div 262144, n div 4096, n div 64, n] @ RawURLEncoding bs)"

definition encodeUID :: "uuid \<Rightarrow> string" where
  "encodeUID u = RawURLEncoding u"

text \<open>\<open>uuid.NewV7\<close> gives \<open>None\<close> when the random source fails.\<close>

definition resolveObjectName ::
  "(string \<Rightarrow> string) \<Rightarrow> string \<Rightarrow> uuid option \<Rightarrow> identity_error option + objectName" where
  "resolveObjectName str generated drawn =
     (case drawn of None \<Rightarrow> Inl None
      | Some uid \<Rightarrow> (case resolveObjectNameWithID str generated (encodeUID uid) uid of Inl e \<Rightarrow> Inl (Some e) | Inr o1 \<Rightarrow> Inr o1))"

definition resolveObjectNameKeeping ::
  "(string \<Rightarrow> string) \<Rightarrow> string \<Rightarrow> uuid option \<Rightarrow> objectName option \<Rightarrow> identity_error option + objectName" where
  "resolveObjectNameKeeping str generated drawn running =
     (case running of None \<Rightarrow> resolveObjectName str generated drawn
      | Some r \<Rightarrow> (case resolveObjectNameWithID str generated (agentID r) (agentUID r) of Inl e \<Rightarrow> Inl (Some e) | Inr o1 \<Rightarrow> Inr o1))"

section \<open>Agent names\<close>

lemma id_map_chars: "isIDChars (id_map s)"
proof (induction s rule: id_map.induct)
  case (1 s)
  show ?case
  proof (cases s)
    case (Cons c cs)
    have "is_id_char CHR ''_''" by (simp add: is_id_char_def)
    then show ?thesis using 1 Cons by (subst id_map.simps) (simp add: Let_def)
  qed (simp add: id_map.simps)
qed

lemma isIDChars_take: "isIDChars s \<Longrightarrow> isIDChars (take n s)"
  by (auto simp: isIDChars_iff list_all_iff dest: in_set_takeD)

lemma isIDChars_FormatInt: "isIDChars (FormatInt n)"
  by (simp add: FormatInt_def isIDChars_itoa is_id_char_def)

lemma length_FormatInt:
  assumes "- (2 ^ 63) \<le> n" "n < 2 ^ 63"
  shows "length (FormatInt n) \<le> 20"
proof (cases "n < 0")
  case True
  then have "nat (- n) < 10 ^ 19" using assms by simp
  from length_itoa [OF this] show ?thesis using True by (simp add: FormatInt_def)
next
  case False
  then have "nat n < 10 ^ 19" using assms by simp
  from length_itoa [OF this] show ?thesis using False by (simp add: FormatInt_def)
qed

lemma makeAgentName_valid:
  assumes "- (2 ^ 63) \<le> pid" "pid < 2 ^ 63"
  shows "IsValidId (makeAgentName host pid) agentNameMaxLenV4"
proof -
  have "is_id_char CHR ''-''" by (simp add: is_id_char_def)
  then show ?thesis
    using length_FormatInt [OF assms]
    by (auto simp: makeAgentName_def Let_def IsValidId_def id_map_chars isIDChars_take isIDChars_FormatInt length_limits)
qed

lemma IsValidId_mono: "IsValidId s m \<Longrightarrow> m \<le> n \<Longrightarrow> IsValidId s n"
  by (auto simp: IsValidId_def split: if_splits)

definition app_limit :: "nameVersion \<Rightarrow> nat" where
  "app_limit v = (if v = nameV1 then 24 else 254)"

definition name_limit :: "nameVersion \<Rightarrow> nat" where
  "name_limit v = (if v = nameV4 then 254 else 255)"

text \<open>An identity the collector of its version accepts and gRPC metadata can carry.\<close>

definition sendable :: "objectName \<Rightarrow> bool" where
  "sendable o1 \<longleftrightarrow> IsValidId (applicationName o1) (app_limit (version o1)) \<and> IsValidId (agentName o1) (name_limit (version o1))
     \<and> (if isV4 o1 then IsValidId (serviceName o1) 254 \<and> 3 \<le> length (serviceName o1) \<and> isPrintableASCII (apiKey o1)
        else serviceName o1 = [] \<and> apiKey o1 = [])"

text \<open>What the configuration has to give for the version it names.\<close>

definition describes_identity :: "(string \<Rightarrow> string) \<Rightarrow> bool" where
  "describes_identity str \<longleftrightarrow>
     (let v = parseNameVersion (str CfgUIDVersion); svc = TrimSpace (str CfgServiceName)
      in IsValidId (TrimSpace (str CfgAppName)) (app_limit v)
         \<and> (v = nameV4 \<longrightarrow> IsValidId svc 254 \<and> 3 \<le> length svc \<and> isPrintableASCII (TrimSpace (str CfgApiKey))))"

lemma resolveAgentName_valid:
  assumes "IsValidId generated m"
  shows "IsValidId (resolveAgentName str generated m) m"
  using assms by (simp add: resolveAgentName_def Let_def)

lemma identity_cases:
  assumes "- (2 ^ 63) \<le> pid" "pid < 2 ^ 63"
  shows "case resolveObjectNameWithID str (makeAgentName host pid) aid uid of
      Inl _ \<Rightarrow> \<not> describes_identity str
    | Inr o1 \<Rightarrow> describes_identity str \<and> sendable o1 \<and> agentID o1 = aid"
proof -
  define v where "v = parseNameVersion (str CfgUIDVersion)"
  have gen: "IsValidId (makeAgentName host pid) (name_limit v)"
    by (rule IsValidId_mono [OF makeAgentName_valid [OF assms]]) (simp add: name_limit_def length_limits)
  have lim: "app_limit v = (if v = nameV1 then appNameMaxLenV1 else appNameMaxLenV3)"
    "name_limit v = (if v = nameV4 then agentNameMaxLenV4 else agentNameMaxLen)"
    by (simp_all add: app_limit_def name_limit_def length_limits)
  note agent = resolveAgentName_valid [OF gen, of str, unfolded lim]
  show ?thesis
    using agent unfolding resolveObjectNameWithID_def Let_def v_def [symmetric] describes_identity_def
    by (auto simp: sendable_def isV4_def lim app_limit_def name_limit_def length_limits split: if_splits)
qed

text \<open>
  An agent starts exactly when the configuration gives the names its version requires, and what it then sends is always
  acceptable: whatever the host is called and whatever agent name was configured, the agent name falls back to a valid
  one instead of failing the start.
\<close>

theorem identity_resolves:
  assumes "- (2 ^ 63) \<le> pid" "pid < 2 ^ 63"
  shows "case resolveObjectNameWithID str (makeAgentName host pid) aid uid of
      Inl _ \<Rightarrow> \<not> describes_identity str
    | Inr o1 \<Rightarrow> describes_identity str \<and> sendable o1 \<and> agentID o1 = aid"
  by (rule identity_cases [OF assms])

definition demo_config :: "string \<Rightarrow> string" where
  "demo_config = (\<lambda>_. [])(CfgUIDVersion := '' V4'', CfgAppName := '' shop'', CfgServiceName := ''web'', CfgAgentName := ''a b'')"

theorem identity_resolves_witness:
  "\<exists>o1. resolveObjectNameWithID demo_config (makeAgentName ''my host'' 7) [] [] = Inr o1 \<and> sendable o1
     \<and> agentName o1 = ''my_host-7'' \<and> applicationName o1 = ''shop''"
proof -
  have trims: "TrimSpace (demo_config CfgUIDVersion) = ''V4''" "TrimSpace (demo_config CfgAppName) = ''shop''"
    "TrimSpace (demo_config CfgServiceName) = ''web''" "TrimSpace (demo_config CfgAgentName) = ''a b''"
    "TrimSpace (demo_config CfgApiKey) = []"
    by (simp_all add: demo_config_def cfg_names TrimSpace_spaces TrimSpace_graphic graphic_def)
  have "makeAgentName ''my host'' 7 = ''my_host-7''" "ToLower ''V4'' = ''v4''" by code_simp+
  then have "resolveObjectNameWithID demo_config (makeAgentName ''my host'' 7) [] []
    = Inr \<lparr>version = nameV4, agentID = [], agentName = ''my_host-7'', applicationName = ''shop'', serviceName = ''web'', apiKey = [],
        agentUID = []\<rparr>"
    by (simp add: resolveObjectNameWithID_def parseNameVersion_def resolveAgentName_def trims length_limits IsValidId_def
        is_id_char_def isLetter_def isDigit_def)
  then show ?thesis using identity_resolves [where pid = 7 and str = demo_config and host = "''my host''" and aid = "[]" and uid = "[]"]
    by simp
qed

section \<open>The agent id\<close>

lemma alphabet_facts: "distinct base64_alphabet" "length base64_alphabet = 64" "isIDChars base64_alphabet"
  by code_simp+

lemma base64_char_id: "is_id_char (base64_char n)"
  using alphabet_facts(3) by (simp add: base64_char_def isIDChars_iff list_all_length alphabet_facts(2))

lemma encoding_chars: "isIDChars (RawURLEncoding bs)"
  by (induction bs rule: RawURLEncoding.induct) (simp_all add: Let_def base64_char_id del: One_nat_def)

definition base64_value :: "char \<Rightarrow> nat" where
  "base64_value c = length (takeWhile (\<lambda>x. x \<noteq> c) base64_alphabet)"

lemma takeWhile_index: "distinct xs \<Longrightarrow> i < length xs \<Longrightarrow> length (takeWhile (\<lambda>x. x \<noteq> xs ! i) xs) = i"
proof (induction xs arbitrary: i)
  case (Cons x xs)
  then show ?case by (cases i) auto
qed simp

lemma base64_value_char [simp]: "base64_value (base64_char n) = n mod 64"
  using takeWhile_index [OF alphabet_facts(1), of "n mod 64"] by (simp add: base64_char_def base64_value_def alphabet_facts(2))

text \<open>The reference decoder.\<close>

fun decode_base64 :: "string \<Rightarrow> 8 word list" where
  "decode_base64 (a # b # c # d # s) =
     (let n = ((base64_value a * 64 + base64_value b) * 64 + base64_value c) * 64 + base64_value d
      in [of_nat (n div 65536), of_nat (n div 256 mod 256), of_nat (n mod 256)] @ decode_base64 s)"
| "decode_base64 [a, b, c] =
     (let n = ((base64_value a * 64 + base64_value b) * 64 + base64_value c) div 4 in [of_nat (n div 256), of_nat (n mod 256)])"
| "decode_base64 [a, b] = [of_nat ((base64_value a * 64 + base64_value b) div 16)]"
| "decode_base64 _ = []"

lemma sextets:
  fixes n :: nat
  shows "n < 4096 \<Longrightarrow> n div 64 mod 64 * 64 + n mod 64 = n"
    and "n < 262144 \<Longrightarrow> (n div 4096 mod 64 * 64 + n div 64 mod 64) * 64 + n mod 64 = n"
    and "n < 16777216 \<Longrightarrow> ((n div 262144 mod 64 * 64 + n div 4096 mod 64) * 64 + n div 64 mod 64) * 64 + n mod 64 = n"
proof -
  have two: "m div 64 mod 64 * 64 + m mod 64 = m" if "m < 4096" for m :: nat
    using that by (simp add: less_mult_imp_div_less)
  have three: "(m div 4096 mod 64 * 64 + m div 64 mod 64) * 64 + m mod 64 = m" if "m < 262144" for m :: nat
    using two [of "m div 64"] that by (simp add: less_mult_imp_div_less div_mult2_eq [of m 64 64, simplified])
  have "(n div 262144 mod 64 * 64 + n div 4096 mod 64) * 64 + n div 64 mod 64 = n div 64" if "n < 16777216"
    using three [of "n div 64"] that
    by (simp add: less_mult_imp_div_less div_mult2_eq [of n 64 4096, simplified] div_mult2_eq [of n 64 64, simplified])
  with two three show "n < 4096 \<Longrightarrow> n div 64 mod 64 * 64 + n mod 64 = n"
    "n < 262144 \<Longrightarrow> (n div 4096 mod 64 * 64 + n div 64 mod 64) * 64 + n mod 64 = n"
    "n < 16777216 \<Longrightarrow> ((n div 262144 mod 64 * 64 + n div 4096 mod 64) * 64 + n div 64 mod 64) * 64 + n mod 64 = n"
    by simp_all
qed

lemma unat8: "unat (a :: 8 word) < 256"
  using unsigned_less [of a, where 'a = nat] by simp

lemma decode_encoding: "decode_base64 (RawURLEncoding bs) = bs"
proof (induction bs rule: RawURLEncoding.induct)
  case (2 a)
  then show ?case using unat8 [of a] sextets(1) [of "unat a * 16"] by (simp add: Let_def)
next
  case (3 a b)
  have "(unat a * 256 + unat b) * 4 < 262144" "(unat a * 256 + unat b) div 256 = unat a" "(unat a * 256 + unat b) mod 256 = unat b"
    using unat8 [of a] unat8 [of b] by auto
  then show ?case using sextets(2) [of "(unat a * 256 + unat b) * 4"] by (simp add: Let_def del: distrib_right_numeral)
next
  case (4 a b c bs)
  let ?n = "(unat a * 256 + unat b) * 256 + unat c"
  have byte: "(x * 256 + y) div 256 = x" "(x * 256 + y) mod 256 = y" if "y < 256" for x y :: nat using that by auto
  have "?n < 16777216" using unat8 [of a] unat8 [of b] unat8 [of c] by simp
  moreover have "?n div 256 = unat a * 256 + unat b" "?n mod 256 = unat c" by (rule byte [OF unat8])+
  moreover have "?n div 65536 = unat a"
    using byte [OF unat8 [of b], of "unat a"] calculation(2) div_mult2_eq [of ?n 256 256] by simp
  ultimately have "?n < 16777216" "?n div 65536 = unat a" "?n div 256 mod 256 = unat b" "?n mod 256 = unat c"
    using byte [OF unat8 [of b], of "unat a"] by simp_all
  then show ?case using 4 sextets(3) [of ?n] by (simp add: Let_def)
qed simp

lemma length_encoding: "length (RawURLEncoding bs) = (4 * length bs + 2) div 3"
  by (induction bs rule: RawURLEncoding.induct) (simp_all add: Let_def)

text \<open>
  The agent id the agent makes up for itself is a valid id of 22 characters, within the limit every collector version
  puts on it, and it stands for the UUID it was made from: decoding it gives the UUID back.
\<close>

theorem agent_id_roundtrip:
  assumes "length u = 16"
  shows "length (encodeUID u) = 22 \<and> IsValidId (encodeUID u) agentIDMaxLen \<and> decode_base64 (encodeUID u) = u"
proof -
  have len: "length (encodeUID u) = 22" using assms by (simp add: encodeUID_def length_encoding)
  moreover have "isIDChars (encodeUID u)" by (simp add: encodeUID_def encoding_chars)
  ultimately show ?thesis by (simp add: IsValidId_def agentIDMaxLen_def encodeUID_def decode_encoding)
qed

theorem agent_id_roundtrip_witness:
  "length (encodeUID (replicate 15 0 @ [255])) = 22 \<and> decode_base64 (encodeUID (replicate 15 0 @ [255])) = replicate 15 0 @ [255]"
  using agent_id_roundtrip [of "replicate 15 0 @ [255]"] by simp

end
