(* ===== verification/Config_Values.thy ===== *)
theory Config_Values
  imports Object_Name "HOL-Library.AList"
begin

text \<open>
  The values an option can be given and where they come from (\<^verbatim>\<open>src/config.go\<close>): raw values of a config file, a flag, an
  environment variable or a caller, their conversion to the type the option was registered with, config files flattened
  to dotted keys, properties files, the command line, and the precedence of the sources. Parsing of YAML and JSON is an
  input (the tree read), and so is floating point: \<open>cfg_env\<close> holds the conversions of \<^verbatim>\<open>strconv\<close> between text and
  floats, over an abstract type, and the log levels \<^verbatim>\<open>logrus.ParseLevel\<close> accepts.
\<close>

section \<open>Values\<close>

text \<open>Integers of every width, and floats of both, are one constructor each. \<open>VSeq\<close> and \<open>VMap\<close> are what a file parser builds.\<close>

datatype 'f cfgValue =
    VInt int
  | VFloat 'f
  | VBool bool
  | VStr string
  | VList "string list"
  | VSeq "'f cfgValue list"
  | VMap "(string \<times> 'f cfgValue) list"
  | VNil

datatype cfgType = CfgInt | CfgFloat | CfgBool | CfgString | CfgStringSlice

record 'f cfg_env =
  ParseFloat :: "string \<Rightarrow> 'f option"
  FormatFloat :: "'f \<Rightarrow> string"
  isFinite :: "'f \<Rightarrow> bool"
  levelOk :: "string \<Rightarrow> bool"

definition scalarString :: "'f cfg_env \<Rightarrow> 'f cfgValue \<Rightarrow> string option" where
  "scalarString E v =
     (case v of VStr s \<Rightarrow> Some s | VFloat f \<Rightarrow> Some (FormatFloat E f) | VBool b \<Rightarrow> Some (if b then ''true'' else ''false'')
      | VInt n \<Rightarrow> Some (FormatInt n) | _ \<Rightarrow> None)"

fun scalar_list :: "'f cfg_env \<Rightarrow> 'f cfgValue list \<Rightarrow> string list option" where
  "scalar_list E [] = Some []"
| "scalar_list E (v # vs) =
     (case scalarString E v of None \<Rightarrow> None | Some s \<Rightarrow> map_option ((#) s) (scalar_list E vs))"

definition toStringSlice :: "'f cfg_env \<Rightarrow> 'f cfgValue \<Rightarrow> string list option" where
  "toStringSlice E v =
     (case v of VList xs \<Rightarrow> Some xs | VStr s \<Rightarrow> Some (split_on CHR '','' s) | VSeq vs \<Rightarrow> scalar_list E vs | _ \<Rightarrow> None)"

definition ParseBool :: "string \<Rightarrow> bool option" where
  "ParseBool s =
     (if s \<in> {''1'', ''t'', ''T'', ''TRUE'', ''true'', ''True''} then Some True
      else if s \<in> {''0'', ''f'', ''F'', ''FALSE'', ''false'', ''False''} then Some False else None)"

definition convertCfgValue :: "'f cfg_env \<Rightarrow> cfgType \<Rightarrow> 'f cfgValue \<Rightarrow> 'f cfgValue option" where
  "convertCfgValue E ty v =
     (if ty = CfgStringSlice then map_option VList (toStringSlice E v)
      else case scalarString E v of None \<Rightarrow> None
           | Some s \<Rightarrow> (case ty of
                 CfgInt \<Rightarrow> map_option VInt (ParseInt 64 s)
               | CfgFloat \<Rightarrow> (case ParseFloat E s of Some f \<Rightarrow> if isFinite E f then Some (VFloat f) else None | None \<Rightarrow> None)
               | CfgBool \<Rightarrow> map_option VBool (ParseBool s)
               | _ \<Rightarrow> Some (VStr s)))"

text \<open>\<open>valueAs\<close> at the types the options have; a value that does not convert reads as the zero value.\<close>

definition as_int :: "'f cfg_env \<Rightarrow> 'f cfgValue \<Rightarrow> int" where
  "as_int E v = (case v of VInt n \<Rightarrow> n | _ \<Rightarrow> (case convertCfgValue E CfgInt v of Some (VInt n) \<Rightarrow> n | _ \<Rightarrow> 0))"

definition as_bool :: "'f cfg_env \<Rightarrow> 'f cfgValue \<Rightarrow> bool" where
  "as_bool E v = (case v of VBool b \<Rightarrow> b | _ \<Rightarrow> (case convertCfgValue E CfgBool v of Some (VBool b) \<Rightarrow> b | _ \<Rightarrow> False))"

definition as_str :: "'f cfg_env \<Rightarrow> 'f cfgValue \<Rightarrow> string" where
  "as_str E v = (case v of VStr s \<Rightarrow> s | _ \<Rightarrow> (case convertCfgValue E CfgString v of Some (VStr s) \<Rightarrow> s | _ \<Rightarrow> []))"

definition as_list :: "'f cfg_env \<Rightarrow> 'f cfgValue \<Rightarrow> string list" where
  "as_list E v = (case v of VList xs \<Rightarrow> xs | _ \<Rightarrow> (case convertCfgValue E CfgStringSlice v of Some (VList xs) \<Rightarrow> xs | _ \<Rightarrow> []))"

lemma as_simps [simp]: "as_int E (VInt n) = n" "as_bool E (VBool b) = b" "as_str E (VStr s) = s" "as_list E (VList xs) = xs"
  by (simp_all add: as_int_def as_bool_def as_str_def as_list_def)

text \<open>A value holds the type its option was registered with.\<close>

definition has_type :: "'f cfg_env \<Rightarrow> cfgType \<Rightarrow> 'f cfgValue \<Rightarrow> bool" where
  "has_type E ty v \<longleftrightarrow>
     (case v of VInt n \<Rightarrow> ty = CfgInt \<and> - (2 ^ 63) \<le> n \<and> n < 2 ^ 63 | VFloat f \<Rightarrow> ty = CfgFloat \<and> isFinite E f
      | VBool _ \<Rightarrow> ty = CfgBool | VStr _ \<Rightarrow> ty = CfgString | VList _ \<Rightarrow> ty = CfgStringSlice | _ \<Rightarrow> False)"

lemma convert_has_type: "convertCfgValue E ty v = Some w \<Longrightarrow> has_type E ty w"
  using ParseInt_bounds [of 64]
  by (cases ty) (fastforce simp: convertCfgValue_def has_type_def split: option.splits if_splits)+

section \<open>Config files\<close>

type_synonym 'f tree = "(string \<times> 'f cfgValue) list"

text \<open>
  A Go map is an association list with distinct keys; the order of the tree is the order its iteration happens to take,
  which matters only to keys that differ in case alone.
\<close>

fun flattenConfig :: "string \<Rightarrow> 'f tree \<Rightarrow> 'f tree \<Rightarrow> 'f tree" where
  "flattenConfig prefix [] flat = flat"
| "flattenConfig prefix ((k, v) # tree) flat =
     (let key = (if prefix \<noteq> [] then prefix @ ''.'' @ ToLower k else ToLower k); flat = AList.update key v flat
      in flattenConfig prefix tree (case v of VMap sub \<Rightarrow> flattenConfig key sub flat | _ \<Rightarrow> flat))"

definition property_line :: "string \<Rightarrow> 'f tree \<Rightarrow> 'f tree" where
  "property_line raw tree =
     (let line = TrimSpace raw
      in if line = [] \<or> hd line = CHR ''#'' \<or> hd line = CHR ''!'' then tree
         else let (key, val, _) = Cut CHR ''='' line;
                  (key, val) = (case Index key '':'' of
                      Some i \<Rightarrow> if CHR ''='' \<notin> set line then (take i line, drop (i + 1) line) else (key, val)
                    | None \<Rightarrow> (key, val))
              in AList.update (TrimSpace key) (VStr (TrimSpace val)) tree)"

definition parseProperties :: "string \<Rightarrow> 'f tree" where
  "parseProperties data = fold property_line (split_on CHR 0x0A data) []"

definition isSet :: "'f tree \<Rightarrow> string \<Rightarrow> bool" where
  "isSet f key = (case map_of f (ToLower key) of None \<Rightarrow> False | Some v \<Rightarrow> v \<noteq> VNil)"

definition file_get :: "'f tree \<Rightarrow> string \<Rightarrow> 'f cfgValue" where
  "file_get f key = (case map_of f (ToLower key) of None \<Rightarrow> VNil | Some v \<Rightarrow> v)"

definition file_sub :: "'f tree \<Rightarrow> string \<Rightarrow> 'f tree option" where
  "file_sub f prefix =
     (let p = ToLower prefix @ ''.'';
          sub = map (\<lambda>(k, v). (drop (length p) k, v)) (filter (\<lambda>(k, v). HasPrefix k p) f)
      in if sub = [] then None else Some sub)"

section \<open>Registered options and their sources\<close>

definition cfgSrcDefault :: nat where "cfgSrcDefault = 0"
definition cfgSrcFile :: nat where "cfgSrcFile = 1"
definition cfgSrcProfile :: nat where "cfgSrcProfile = 2"
definition cfgSrcEnv :: nat where "cfgSrcEnv = 3"
definition cfgSrcCmd :: nat where "cfgSrcCmd = 4"
definition cfgSrcAPI :: nat where "cfgSrcAPI = 5"

lemmas cfg_src_defs = cfgSrcDefault_def cfgSrcFile_def cfgSrcProfile_def cfgSrcEnv_def cfgSrcCmd_def cfgSrcAPI_def

record 'f cfgMapItem =
  cfg_value :: "'f cfgValue"
  defaultValue :: "'f cfgValue"
  baseValue :: "'f cfgValue"
  valueType :: cfgType
  cmdKey :: string
  envKey :: string
  dynamic :: bool
  source :: nat

definition ReplaceAll :: "char \<Rightarrow> char \<Rightarrow> string \<Rightarrow> string" where
  "ReplaceAll a b s = map (\<lambda>c. if c = a then b else c) s"

definition AddConfig :: "string \<Rightarrow> cfgType \<Rightarrow> 'f cfgValue \<Rightarrow> bool \<Rightarrow> string \<times> 'f cfgMapItem" where
  "AddConfig cfgName ty d dyn =
     (cfgName, \<lparr>cfg_value = d, defaultValue = d, baseValue = VNil, valueType = ty,
       cmdKey = ''pinpoint-'' @ ReplaceAll CHR ''.'' CHR ''-'' (ToLower cfgName),
       envKey = ''PINPOINT_GO_'' @ ReplaceAll CHR ''.'' CHR ''_'' (ToUpper cfgName), dynamic = dyn, source = cfgSrcDefault\<rparr>)"

record 'f cfgSources =
  cmd :: "(string \<times> string) list"
  environ :: "(string \<Rightarrow> string option) option"
  cfg_file :: "'f tree option"
  cfg_profile :: "'f tree option"

text \<open>An empty environment variable counts as unset, and so does a key present in a file with no value.\<close>

definition env_value :: "'f cfgSources \<Rightarrow> 'f cfgMapItem \<Rightarrow> string option" where
  "env_value s it =
     (case environ s of None \<Rightarrow> None
      | Some env \<Rightarrow> (case env (envKey it) of None \<Rightarrow> None | Some v \<Rightarrow> if v \<noteq> [] then Some v else None))"

definition file_value :: "'f tree option \<Rightarrow> string \<Rightarrow> 'f cfgValue option" where
  "file_value f name = (case f of None \<Rightarrow> None | Some t \<Rightarrow> if isSet t name then Some (file_get t name) else None)"

definition lookup :: "'f cfgSources \<Rightarrow> string \<Rightarrow> 'f cfgMapItem \<Rightarrow> ('f cfgValue \<times> nat) option" where
  "lookup s name it =
     (case map_of (cmd s) (cmdKey it) of Some v \<Rightarrow> Some (VStr v, cfgSrcCmd)
      | None \<Rightarrow> (case env_value s it of Some v \<Rightarrow> Some (VStr v, cfgSrcEnv)
      | None \<Rightarrow> (case file_value (cfg_profile s) name of Some v \<Rightarrow> Some (v, cfgSrcProfile)
      | None \<Rightarrow> (case file_value (cfg_file s) name of Some v \<Rightarrow> Some (v, cfgSrcFile) | None \<Rightarrow> None))))"

section \<open>The command line\<close>

definition set_flag :: "'f cfgMapItem \<Rightarrow> string \<Rightarrow> (string \<times> string) list \<Rightarrow> (string \<times> string) list" where
  "set_flag it v flags =
     (case map_of flags (cmdKey it) of
        Some prev \<Rightarrow> AList.update (cmdKey it) (if valueType it = CfgStringSlice then prev @ '','' @ v else v) flags
      | None \<Rightarrow> AList.update (cmdKey it) v flags)"

fun parseCmdArgs :: "'f cfgMapItem list \<Rightarrow> string list \<Rightarrow> (string \<times> string) list \<Rightarrow> (string \<times> string) list" where
  "parseCmdArgs items [] flags = flags"
| "parseCmdArgs items (arg # args) flags =
     (if \<not> HasPrefix arg ''--pinpoint-'' then parseCmdArgs items args flags
      else let (name, val, hasValue) = Cut CHR ''='' (drop 2 arg)
           in case find (\<lambda>it. cmdKey it = name) items of
                None \<Rightarrow> parseCmdArgs items args flags
              | Some it \<Rightarrow>
                  if hasValue then parseCmdArgs items args (set_flag it val flags)
                  else if valueType it = CfgBool then parseCmdArgs items args (set_flag it ''true'' flags)
                  else case args of
                         next # rest \<Rightarrow> if \<not> HasPrefix next ''-'' then parseCmdArgs items rest (set_flag it next flags)
                           else parseCmdArgs items args flags
                       | [] \<Rightarrow> parseCmdArgs items [] flags)"

section \<open>Precedence\<close>

lemma lookup_source:
  "lookup s name it = Some (v, src) \<Longrightarrow> src \<in> {cfgSrcFile, cfgSrcProfile, cfgSrcEnv, cfgSrcCmd}"
  by (auto simp: lookup_def split: option.splits)

lemma lookup_reload:
  assumes "cmd s = []" "environ s = None"
  shows "lookup s name it = lookup s name it'" "lookup s name it = Some (v, src) \<Longrightarrow> src \<le> cfgSrcProfile \<and> src \<noteq> cfgSrcDefault"
  using assms by (auto simp: lookup_def env_value_def cfg_src_defs split: option.splits)

end
