(* ===== verification/Config_Registry.thy ===== *)
theory Config_Registry
  imports Config_Values Error_Rules
begin

text \<open>
  The registered options (\<^verbatim>\<open>src/config.go\<close>, the option keys and \<^verbatim>\<open>initConfig\<close>) and the normalization every publish applies
  to the staged values: range checks that restore a default, limits where -1 means unlimited, and the spellings of the
  sampling type, the compression and the log level. \<open>publish_rules\<close> lists the checks of \<^verbatim>\<open>publishFrom\<close> in its order; each
  rewrites one option. Shown: a second pass changes nothing, and after a pass every checked option is within its range.
\<close>

section \<open>Option keys and defaults\<close>

definition CfgAppType :: string where "CfgAppType = ''ApplicationType''"
definition CfgCollectorHost :: string where "CfgCollectorHost = ''Collector.Host''"
definition CfgCollectorAgentPort :: string where "CfgCollectorAgentPort = ''Collector.AgentPort''"
definition CfgCollectorSpanPort :: string where "CfgCollectorSpanPort = ''Collector.SpanPort''"
definition CfgCollectorStatPort :: string where "CfgCollectorStatPort = ''Collector.StatPort''"
definition CfgCollectorAgentInfoRefreshInterval :: string where "CfgCollectorAgentInfoRefreshInterval = ''Collector.AgentInfo.RefreshInterval''"
definition CfgCollectorAgentInfoSendRetryInterval :: string where "CfgCollectorAgentInfoSendRetryInterval = ''Collector.AgentInfo.SendRetryInterval''"
definition CfgCollectorAgentInfoMaxTryPerAttempt :: string where "CfgCollectorAgentInfoMaxTryPerAttempt = ''Collector.AgentInfo.MaxTryPerAttempt''"
definition CfgCollectorAgentInfoSendArgs :: string where "CfgCollectorAgentInfoSendArgs = ''Collector.AgentInfo.SendArgs''"
definition CfgCollectorGrpcKeepAliveTime :: string where "CfgCollectorGrpcKeepAliveTime = ''Collector.Grpc.KeepAliveTime''"
definition CfgCollectorGrpcKeepAliveTimeout :: string where "CfgCollectorGrpcKeepAliveTimeout = ''Collector.Grpc.KeepAliveTimeout''"
definition CfgCollectorGrpcKeepAlivePermitWithoutCalls :: string where "CfgCollectorGrpcKeepAlivePermitWithoutCalls = ''Collector.Grpc.KeepAlivePermitWithoutCalls''"
definition CfgCollectorGrpcMaxSendMessageSize :: string where "CfgCollectorGrpcMaxSendMessageSize = ''Collector.Grpc.MaxSendMessageSize''"
definition CfgCollectorGrpcMaxReceiveMessageSize :: string where "CfgCollectorGrpcMaxReceiveMessageSize = ''Collector.Grpc.MaxReceiveMessageSize''"
definition CfgCollectorGrpcFlowControlWindow :: string where "CfgCollectorGrpcFlowControlWindow = ''Collector.Grpc.FlowControlWindow''"
definition CfgCollectorGrpcWriteBufferSize :: string where "CfgCollectorGrpcWriteBufferSize = ''Collector.Grpc.WriteBufferSize''"
definition CfgCollectorGrpcMaxHeaderListSize :: string where "CfgCollectorGrpcMaxHeaderListSize = ''Collector.Grpc.MaxHeaderListSize''"
definition CfgCollectorGrpcSslEnable :: string where "CfgCollectorGrpcSslEnable = ''Collector.Grpc.SslEnable''"
definition CfgCollectorGrpcTrustCertFilePath :: string where "CfgCollectorGrpcTrustCertFilePath = ''Collector.Grpc.TrustCertFilePath''"
definition CfgCollectorGrpcConnectionMaxAge :: string where "CfgCollectorGrpcConnectionMaxAge = ''Collector.Grpc.ConnectionMaxAge''"
definition CfgCollectorGrpcStreamMaxAge :: string where "CfgCollectorGrpcStreamMaxAge = ''Collector.Grpc.StreamMaxAge''"
definition CfgCollectorGrpcIdleTimeout :: string where "CfgCollectorGrpcIdleTimeout = ''Collector.Grpc.IdleTimeout''"
definition CfgCollectorGrpcDnsResolverEnable :: string where "CfgCollectorGrpcDnsResolverEnable = ''Collector.Grpc.DnsResolverEnable''"
definition CfgCollectorGrpcSenderQueueSize :: string where "CfgCollectorGrpcSenderQueueSize = ''Collector.Grpc.SenderQueueSize''"
definition CfgCollectorGrpcCompression :: string where "CfgCollectorGrpcCompression = ''Collector.Grpc.Compression''"
definition CfgCollectorGrpcSpanBatchSize :: string where "CfgCollectorGrpcSpanBatchSize = ''Collector.Grpc.SpanBatchSize''"
definition CfgCollectorGrpcSpanBatchFlushInterval :: string where "CfgCollectorGrpcSpanBatchFlushInterval = ''Collector.Grpc.SpanBatchFlushInterval''"
definition CfgCollectorGrpcSpanBatchCollectDeadline :: string where "CfgCollectorGrpcSpanBatchCollectDeadline = ''Collector.Grpc.SpanBatchCollectDeadline''"
definition CfgCollectorGrpcSpanBatchMaxConcurrentRequests :: string where "CfgCollectorGrpcSpanBatchMaxConcurrentRequests = ''Collector.Grpc.SpanBatchMaxConcurrentRequests''"
definition CfgLogLevel :: string where "CfgLogLevel = ''Log.Level''"
definition CfgLogOutput :: string where "CfgLogOutput = ''Log.Output''"
definition CfgLogMaxSize :: string where "CfgLogMaxSize = ''Log.MaxSize''"
definition CfgLogMaxBackups :: string where "CfgLogMaxBackups = ''Log.MaxBackups''"
definition CfgSamplingType :: string where "CfgSamplingType = ''Sampling.Type''"
definition CfgSamplingCounterRate :: string where "CfgSamplingCounterRate = ''Sampling.CounterRate''"
definition CfgSamplingPercentRate :: string where "CfgSamplingPercentRate = ''Sampling.PercentRate''"
definition CfgSamplingNewThroughput :: string where "CfgSamplingNewThroughput = ''Sampling.NewThroughput''"
definition CfgSamplingContinueThroughput :: string where "CfgSamplingContinueThroughput = ''Sampling.ContinueThroughput''"
definition CfgSpanQueueSize :: string where "CfgSpanQueueSize = ''Span.QueueSize''"
definition CfgSpanEventChunkSize :: string where "CfgSpanEventChunkSize = ''Span.EventChunkSize''"
definition CfgSpanMaxCallStackDepth :: string where "CfgSpanMaxCallStackDepth = ''Span.MaxCallStackDepth''"
definition CfgSpanMaxCallStackSequence :: string where "CfgSpanMaxCallStackSequence = ''Span.MaxCallStackSequence''"
definition CfgSpanIgnoreErrors :: string where "CfgSpanIgnoreErrors = ''Span.IgnoreErrors''"
definition CfgSpanErrorMark :: string where "CfgSpanErrorMark = ''Span.ErrorMark''"
definition CfgSpanErrorMarkExclude :: string where "CfgSpanErrorMarkExclude = ''Span.ErrorMarkExclude''"
definition CfgStatCollectInterval :: string where "CfgStatCollectInterval = ''Stat.CollectInterval''"
definition CfgStatBatchCount :: string where "CfgStatBatchCount = ''Stat.BatchCount''"
definition CfgStatQueueSize :: string where "CfgStatQueueSize = ''Stat.QueueSize''"
definition CfgIsContainerEnv :: string where "CfgIsContainerEnv = ''IsContainerEnv''"
definition CfgServerInfo :: string where "CfgServerInfo = ''ServerInfo''"
definition CfgConfigFile :: string where "CfgConfigFile = ''ConfigFile''"
definition CfgActiveProfile :: string where "CfgActiveProfile = ''ActiveProfile''"
definition CfgSQLTraceBindValue :: string where "CfgSQLTraceBindValue = ''SQL.TraceBindValue''"
definition CfgSQLMaxBindValueSize :: string where "CfgSQLMaxBindValueSize = ''SQL.MaxBindValueSize''"
definition CfgSQLTraceCommit :: string where "CfgSQLTraceCommit = ''SQL.TraceCommit''"
definition CfgSQLTraceRollback :: string where "CfgSQLTraceRollback = ''SQL.TraceRollback''"
definition CfgSQLTraceQueryStat :: string where "CfgSQLTraceQueryStat = ''SQL.TraceQueryStat''"
definition CfgSQLEnableRawSqlCache :: string where "CfgSQLEnableRawSqlCache = ''SQL.EnableRawSqlCache''"
definition CfgSQLCacheSize :: string where "CfgSQLCacheSize = ''SQL.CacheSize''"
definition CfgSQLCacheLengthLimit :: string where "CfgSQLCacheLengthLimit = ''SQL.CacheLengthLimit''"
definition CfgSQLCacheExpireHours :: string where "CfgSQLCacheExpireHours = ''SQL.CacheExpireHours''"
definition CfgSQLErrorCount :: string where "CfgSQLErrorCount = ''SQL.ErrorCount''"
definition CfgSQLRemoveComments :: string where "CfgSQLRemoveComments = ''SQL.RemoveComments''"
definition CfgEnable :: string where "CfgEnable = ''Enable''"
definition CfgHttpUrlStatEnable :: string where "CfgHttpUrlStatEnable = ''Http.UrlStat.Enable''"
definition CfgHttpUrlStatLimitSize :: string where "CfgHttpUrlStatLimitSize = ''Http.UrlStat.LimitSize''"
definition CfgHttpUrlStatQueueSize :: string where "CfgHttpUrlStatQueueSize = ''Http.UrlStat.QueueSize''"
definition CfgHttpUrlStatWithMethod :: string where "CfgHttpUrlStatWithMethod = ''Http.UrlStat.WithMethod''"
definition CfgErrorTraceCallStack :: string where "CfgErrorTraceCallStack = ''Error.TraceCallStack''"
definition CfgErrorCallStackDepth :: string where "CfgErrorCallStackDepth = ''Error.CallStackDepth''"
definition CfgErrorNewThroughput :: string where "CfgErrorNewThroughput = ''Error.NewThroughput''"
definition CfgErrorMaxChainDepth :: string where "CfgErrorMaxChainDepth = ''Error.MaxChainDepth''"

lemmas option_keys = cfg_names CfgAppType_def CfgCollectorHost_def CfgCollectorAgentPort_def CfgCollectorSpanPort_def CfgCollectorStatPort_def
  CfgCollectorAgentInfoRefreshInterval_def CfgCollectorAgentInfoSendRetryInterval_def
  CfgCollectorAgentInfoMaxTryPerAttempt_def CfgCollectorAgentInfoSendArgs_def CfgCollectorGrpcKeepAliveTime_def
  CfgCollectorGrpcKeepAliveTimeout_def CfgCollectorGrpcKeepAlivePermitWithoutCalls_def
  CfgCollectorGrpcMaxSendMessageSize_def CfgCollectorGrpcMaxReceiveMessageSize_def CfgCollectorGrpcFlowControlWindow_def
  CfgCollectorGrpcWriteBufferSize_def CfgCollectorGrpcMaxHeaderListSize_def CfgCollectorGrpcSslEnable_def
  CfgCollectorGrpcTrustCertFilePath_def CfgCollectorGrpcConnectionMaxAge_def CfgCollectorGrpcStreamMaxAge_def
  CfgCollectorGrpcIdleTimeout_def CfgCollectorGrpcDnsResolverEnable_def CfgCollectorGrpcSenderQueueSize_def
  CfgCollectorGrpcCompression_def CfgCollectorGrpcSpanBatchSize_def CfgCollectorGrpcSpanBatchFlushInterval_def
  CfgCollectorGrpcSpanBatchCollectDeadline_def CfgCollectorGrpcSpanBatchMaxConcurrentRequests_def CfgLogLevel_def
  CfgLogOutput_def CfgLogMaxSize_def CfgLogMaxBackups_def CfgSamplingType_def CfgSamplingCounterRate_def
  CfgSamplingPercentRate_def CfgSamplingNewThroughput_def CfgSamplingContinueThroughput_def CfgSpanQueueSize_def
  CfgSpanEventChunkSize_def CfgSpanMaxCallStackDepth_def CfgSpanMaxCallStackSequence_def CfgSpanIgnoreErrors_def
  CfgSpanErrorMark_def CfgSpanErrorMarkExclude_def CfgStatCollectInterval_def CfgStatBatchCount_def CfgStatQueueSize_def
  CfgIsContainerEnv_def CfgServerInfo_def CfgConfigFile_def CfgActiveProfile_def CfgSQLTraceBindValue_def
  CfgSQLMaxBindValueSize_def CfgSQLTraceCommit_def CfgSQLTraceRollback_def CfgSQLTraceQueryStat_def
  CfgSQLEnableRawSqlCache_def CfgSQLCacheSize_def CfgSQLCacheLengthLimit_def CfgSQLCacheExpireHours_def
  CfgSQLErrorCount_def CfgSQLRemoveComments_def CfgEnable_def CfgHttpUrlStatEnable_def CfgHttpUrlStatLimitSize_def
  CfgHttpUrlStatQueueSize_def CfgHttpUrlStatWithMethod_def CfgErrorTraceCallStack_def CfgErrorCallStackDepth_def
  CfgErrorNewThroughput_def CfgErrorMaxChainDepth_def

text \<open>Each registration: the key, the type, the default, whether a reload may change it.\<close>

definition registry :: "(string \<times> cfgType \<times> 'f cfgValue \<times> bool) list" where
  "registry =
     [(CfgAppName, CfgString, VStr [], False),
      (CfgAppType, CfgInt, VInt 1800, False),
      (CfgAgentName, CfgString, VStr [], False),
      (CfgCollectorHost, CfgString, VStr ''localhost'', False),
      (CfgCollectorAgentPort, CfgInt, VInt 9991, False),
      (CfgCollectorSpanPort, CfgInt, VInt 9993, False),
      (CfgCollectorStatPort, CfgInt, VInt 9992, False),
      (CfgCollectorAgentInfoRefreshInterval, CfgInt, VInt 86400000, False),
      (CfgCollectorAgentInfoSendRetryInterval, CfgInt, VInt 3000, False),
      (CfgCollectorAgentInfoMaxTryPerAttempt, CfgInt, VInt 3, False),
      (CfgCollectorAgentInfoSendArgs, CfgBool, VBool True, False),
      (CfgCollectorGrpcKeepAliveTime, CfgInt, VInt 30000, False),
      (CfgCollectorGrpcKeepAliveTimeout, CfgInt, VInt 60000, False),
      (CfgCollectorGrpcKeepAlivePermitWithoutCalls, CfgBool, VBool False, False),
      (CfgCollectorGrpcMaxSendMessageSize, CfgInt, VInt 4194304, False),
      (CfgCollectorGrpcMaxReceiveMessageSize, CfgInt, VInt 4194304, False),
      (CfgCollectorGrpcFlowControlWindow, CfgInt, VInt 1048576, False),
      (CfgCollectorGrpcWriteBufferSize, CfgInt, VInt 65536, False),
      (CfgCollectorGrpcMaxHeaderListSize, CfgInt, VInt 8192, False),
      (CfgCollectorGrpcSslEnable, CfgBool, VBool False, False),
      (CfgCollectorGrpcTrustCertFilePath, CfgString, VStr [], False),
      (CfgCollectorGrpcConnectionMaxAge, CfgInt, VInt 0, False),
      (CfgCollectorGrpcStreamMaxAge, CfgInt, VInt 0, False),
      (CfgCollectorGrpcIdleTimeout, CfgInt, VInt 0, False),
      (CfgCollectorGrpcDnsResolverEnable, CfgBool, VBool True, False),
      (CfgCollectorGrpcSenderQueueSize, CfgInt, VInt 1000, False),
      (CfgCollectorGrpcCompression, CfgString, VStr ''gzip'', False),
      (CfgLogLevel, CfgString, VStr ''info'', True),
      (CfgLogOutput, CfgString, VStr ''stdout'', True),
      (CfgLogMaxSize, CfgInt, VInt 10, True),
      (CfgLogMaxBackups, CfgInt, VInt 1, True),
      (CfgSamplingType, CfgString, VStr ''COUNTER'', True),
      (CfgSamplingCounterRate, CfgInt, VInt 1, True),
      (CfgSamplingPercentRate, CfgFloat, VInt 100, True),
      (CfgSamplingNewThroughput, CfgInt, VInt 0, True),
      (CfgSamplingContinueThroughput, CfgInt, VInt 0, True),
      (CfgSpanQueueSize, CfgInt, VInt 1024, False),
      (CfgCollectorGrpcSpanBatchSize, CfgInt, VInt 50, False),
      (CfgCollectorGrpcSpanBatchFlushInterval, CfgInt, VInt 1000, False),
      (CfgCollectorGrpcSpanBatchCollectDeadline, CfgInt, VInt 500, False),
      (CfgCollectorGrpcSpanBatchMaxConcurrentRequests, CfgInt, VInt 10, False),
      (CfgSpanEventChunkSize, CfgInt, VInt 20, True),
      (CfgSpanMaxCallStackDepth, CfgInt, VInt 64, True),
      (CfgSpanMaxCallStackSequence, CfgInt, VInt 5000, True),
      (CfgSpanIgnoreErrors, CfgStringSlice, VList [], True),
      (CfgSpanErrorMark, CfgStringSlice, VList [], True),
      (CfgSpanErrorMarkExclude, CfgStringSlice, VList [], True),
      (CfgStatCollectInterval, CfgInt, VInt 5000, False),
      (CfgStatBatchCount, CfgInt, VInt 6, False),
      (CfgStatQueueSize, CfgInt, VInt 1024, False),
      (CfgIsContainerEnv, CfgBool, VBool False, False),
      (CfgServerInfo, CfgString, VStr [], False),
      (CfgConfigFile, CfgString, VStr [], False),
      (CfgActiveProfile, CfgString, VStr [], False),
      (CfgSQLTraceBindValue, CfgBool, VBool True, True),
      (CfgSQLMaxBindValueSize, CfgInt, VInt 1024, True),
      (CfgSQLTraceCommit, CfgBool, VBool True, True),
      (CfgSQLTraceRollback, CfgBool, VBool True, True),
      (CfgSQLTraceQueryStat, CfgBool, VBool False, True),
      (CfgSQLEnableRawSqlCache, CfgBool, VBool True, True),
      (CfgSQLCacheSize, CfgInt, VInt 1024, False),
      (CfgSQLCacheLengthLimit, CfgInt, VInt 2048, False),
      (CfgSQLCacheExpireHours, CfgInt, VInt 168, False),
      (CfgSQLErrorCount, CfgInt, VInt 100, True),
      (CfgSQLRemoveComments, CfgBool, VBool True, False),
      (CfgEnable, CfgBool, VBool True, False),
      (CfgHttpUrlStatEnable, CfgBool, VBool False, True),
      (CfgHttpUrlStatLimitSize, CfgInt, VInt 1000, True),
      (CfgHttpUrlStatQueueSize, CfgInt, VInt 1024, False),
      (CfgHttpUrlStatWithMethod, CfgBool, VBool False, True),
      (CfgErrorTraceCallStack, CfgBool, VBool False, True),
      (CfgErrorCallStackDepth, CfgInt, VInt 32, True),
      (CfgErrorNewThroughput, CfgInt, VInt 1000, True),
      (CfgErrorMaxChainDepth, CfgInt, VInt 64, True),
      (CfgUIDVersion, CfgString, VStr ''v4'', False),
      (CfgServiceName, CfgString, VStr [], False),
      (CfgClusterNamespace, CfgString, VStr [], False),
      (CfgApiKey, CfgString, VStr [], False)]"

definition initConfig :: "(string \<times> 'f cfgMapItem) list" where
  "initConfig = map (\<lambda>(k, ty, d, dyn). AddConfig k ty d dyn) registry"

section \<open>Checks\<close>

definition MaxInt32 :: int where "MaxInt32 = 2 ^ 31 - 1"
definition maxQueueSize :: int where "maxQueueSize = 65536"
definition maxSqlBindValueSize :: int where "maxSqlBindValueSize = 4194304 div 16"
definition maxDurationOptionMs :: int where "maxDurationOptionMs = 100 * 365 * 24 * 60 * 60 * 1000"

lemmas limit_defs = MaxInt32_def maxQueueSize_def maxSqlBindValueSize_def maxDurationOptionMs_def

type_synonym 'f rule = "'f cfgMapItem \<Rightarrow> 'f cfgMapItem"

definition defaultIfOutOfRange :: "'f cfg_env \<Rightarrow> int \<Rightarrow> int \<Rightarrow> 'f rule" where
  "defaultIfOutOfRange E lo hi it =
     (let v = as_int E (cfg_value it) in if v < lo \<or> v > hi then it\<lparr>cfg_value := defaultValue it\<rparr> else it)"

definition unlimitedOrAtLeast :: "'f cfg_env \<Rightarrow> int \<Rightarrow> 'f rule" where
  "unlimitedOrAtLeast E lo it =
     (let v = as_int E (cfg_value it)
      in it\<lparr>cfg_value := VInt (if v = - 1 \<or> v > MaxInt32 then MaxInt32 else if v < lo then lo else v)\<rparr>)"

definition zeroIfNegative :: "'f cfg_env \<Rightarrow> 'f rule" where
  "zeroIfNegative E it = (if as_int E (cfg_value it) < 0 then it\<lparr>cfg_value := VInt 0\<rparr> else it)"

definition defaultIfAbove :: "'f cfg_env \<Rightarrow> int \<Rightarrow> 'f rule" where
  "defaultIfAbove E hi it = (if as_int E (cfg_value it) > hi then it\<lparr>cfg_value := defaultValue it\<rparr> else it)"

definition samplingType_rule :: "'f cfg_env \<Rightarrow> 'f rule" where
  "samplingType_rule E it =
     (let t = ToUpper (TrimSpace (as_str E (cfg_value it)));
          t = (if t = ''COUNTING'' then ''COUNTER'' else t);
          t = (if t \<noteq> ''COUNTER'' \<and> t \<noteq> ''PERCENT'' then ''COUNTER'' else t)
      in it\<lparr>cfg_value := VStr t\<rparr>)"

definition compression_rule :: "'f cfg_env \<Rightarrow> 'f rule" where
  "compression_rule E it =
     (let c = ToLower (TrimSpace (as_str E (cfg_value it)))
      in it\<lparr>cfg_value := VStr (if c = [] then ''gzip'' else if c \<noteq> ''gzip'' \<and> c \<noteq> ''none'' then ''gzip'' else c)\<rparr>)"

text \<open>\<open>current\<close>: the level already published, if any.\<close>

definition logLevel_rule :: "'f cfg_env \<Rightarrow> 'f cfgValue option \<Rightarrow> 'f rule" where
  "logLevel_rule E current it =
     (if \<not> levelOk E (as_str E (cfg_value it))
      then it\<lparr>cfg_value := (case current of Some v \<Rightarrow> v | None \<Rightarrow> defaultValue it)\<rparr> else it)"

definition maxBind_rule :: "'f cfg_env \<Rightarrow> 'f rule" where
  "maxBind_rule E it = (if as_int E (cfg_value it) > maxSqlBindValueSize then it\<lparr>cfg_value := VInt maxSqlBindValueSize\<rparr> else it)"

definition cacheLength_rule :: "'f cfg_env \<Rightarrow> 'f rule" where
  "cacheLength_rule E it =
     (let v = as_int E (cfg_value it)
      in if v = - 1 then it\<lparr>cfg_value := VInt MaxInt32\<rparr> else if v < 0 then it\<lparr>cfg_value := VInt 2048\<rparr> else it)"

definition errorDepth_rule :: "'f cfg_env \<Rightarrow> 'f rule" where
  "errorDepth_rule E it =
     (let v = as_int E (cfg_value it) in it\<lparr>cfg_value := VInt (if v < 1 then 32 else if v > 1024 then 1024 else v)\<rparr>)"

definition chainDepth_rule :: "'f cfg_env \<Rightarrow> 'f rule" where
  "chainDepth_rule E it =
     (let v = as_int E (cfg_value it) in it\<lparr>cfg_value := VInt (if v < 1 \<or> v > 64 then 64 else v)\<rparr>)"

definition publish_rules :: "'f cfg_env \<Rightarrow> 'f cfgValue option \<Rightarrow> (string \<times> 'f rule) list" where
  "publish_rules E current =
     [(CfgSamplingType, samplingType_rule E),
      (CfgCollectorGrpcCompression, compression_rule E),
      (CfgAppType, defaultIfOutOfRange E (- (2 ^ 15)) (2 ^ 15 - 1)),
      (CfgLogLevel, logLevel_rule E current),
      (CfgSQLMaxBindValueSize, maxBind_rule E),
      (CfgSQLCacheLengthLimit, cacheLength_rule E),
      (CfgSQLErrorCount, zeroIfNegative E),
      (CfgSQLCacheExpireHours, defaultIfOutOfRange E 0 (24 * 365 * 100)),
      (CfgSpanEventChunkSize, defaultIfOutOfRange E 1 maxQueueSize),
      (CfgHttpUrlStatLimitSize, defaultIfOutOfRange E 1 maxQueueSize),
      (CfgSpanQueueSize, defaultIfOutOfRange E 1 maxQueueSize),
      (CfgHttpUrlStatQueueSize, defaultIfOutOfRange E 1 maxQueueSize),
      (CfgSQLCacheSize, defaultIfOutOfRange E 1 65536),
      (CfgStatCollectInterval, defaultIfOutOfRange E 1000 10000),
      (CfgStatBatchCount, defaultIfOutOfRange E 1 100),
      (CfgStatQueueSize, defaultIfOutOfRange E 1 maxQueueSize),
      (CfgCollectorGrpcSenderQueueSize, defaultIfOutOfRange E 1 maxQueueSize),
      (CfgCollectorGrpcSpanBatchSize, defaultIfOutOfRange E 1 maxQueueSize),
      (CfgCollectorGrpcSpanBatchFlushInterval, defaultIfOutOfRange E 1 MaxInt32),
      (CfgCollectorGrpcSpanBatchCollectDeadline, defaultIfOutOfRange E 1 MaxInt32),
      (CfgCollectorGrpcSpanBatchMaxConcurrentRequests, defaultIfOutOfRange E 1 MaxInt32),
      (CfgCollectorAgentInfoSendRetryInterval, defaultIfOutOfRange E 1 MaxInt32),
      (CfgCollectorAgentInfoMaxTryPerAttempt, defaultIfOutOfRange E 1 MaxInt32),
      (CfgCollectorGrpcKeepAliveTime, defaultIfOutOfRange E 1 MaxInt32),
      (CfgCollectorGrpcKeepAliveTimeout, defaultIfOutOfRange E 1 MaxInt32),
      (CfgCollectorGrpcMaxSendMessageSize, defaultIfOutOfRange E 1 MaxInt32),
      (CfgCollectorGrpcMaxReceiveMessageSize, defaultIfOutOfRange E 1 MaxInt32),
      (CfgCollectorGrpcFlowControlWindow, defaultIfOutOfRange E 1 MaxInt32),
      (CfgCollectorGrpcWriteBufferSize, defaultIfOutOfRange E 0 MaxInt32),
      (CfgCollectorGrpcMaxHeaderListSize, defaultIfOutOfRange E 1 MaxInt32),
      (CfgCollectorGrpcConnectionMaxAge, zeroIfNegative E),
      (CfgCollectorGrpcStreamMaxAge, zeroIfNegative E),
      (CfgCollectorGrpcIdleTimeout, zeroIfNegative E),
      (CfgCollectorGrpcConnectionMaxAge, defaultIfAbove E maxDurationOptionMs),
      (CfgCollectorGrpcStreamMaxAge, defaultIfAbove E maxDurationOptionMs),
      (CfgCollectorGrpcIdleTimeout, defaultIfAbove E maxDurationOptionMs),
      (CfgCollectorAgentInfoRefreshInterval, defaultIfAbove E maxDurationOptionMs),
      (CfgSpanMaxCallStackDepth, unlimitedOrAtLeast E 2),
      (CfgSpanMaxCallStackSequence, unlimitedOrAtLeast E 4),
      (CfgLogMaxSize, defaultIfOutOfRange E 1 MaxInt32),
      (CfgLogMaxBackups, defaultIfOutOfRange E 1 MaxInt32),
      (CfgErrorCallStackDepth, errorDepth_rule E),
      (CfgErrorMaxChainDepth, chainDepth_rule E),
      (CfgErrorNewThroughput, zeroIfNegative E)]"

definition on_key :: "string \<Rightarrow> 'f rule \<Rightarrow> (string \<times> 'f cfgMapItem) list \<Rightarrow> (string \<times> 'f cfgMapItem) list" where
  "on_key name f cm = map (\<lambda>(k, it). (k, if k = name then f it else it)) cm"

definition normalize :: "'f cfg_env \<Rightarrow> 'f cfgValue option \<Rightarrow> (string \<times> 'f cfgMapItem) list \<Rightarrow> (string \<times> 'f cfgMapItem) list" where
  "normalize E current cm = fold (\<lambda>(k, f). on_key k f) (publish_rules E current) cm"

section \<open>Normalization, option by option\<close>

text \<open>What a list of rules does to the option of a key.\<close>

definition rules_at :: "(string \<times> 'f rule) list \<Rightarrow> string \<Rightarrow> 'f rule" where
  "rules_at rs k it = fold (\<lambda>(k', f) it. if k' = k then f it else it) rs it"

lemma rules_at_simps [simp]:
  "rules_at [] k it = it" "rules_at ((k', f) # rs) k it = rules_at rs k (if k' = k then f it else it)"
  by (simp_all add: rules_at_def)

lemma rules_at_append: "rules_at (rs @ rs') k it = rules_at rs' k (rules_at rs k it)"
  by (simp add: rules_at_def)

lemma fold_on_key: "fold (\<lambda>(k, f). on_key k f) rs cm = map (\<lambda>(k, it). (k, rules_at rs k it)) cm"
  by (induction rs arbitrary: cm) (auto simp: on_key_def)

abbreviation norm_item :: "'f cfg_env \<Rightarrow> 'f cfgValue option \<Rightarrow> string \<Rightarrow> 'f rule" where
  "norm_item E current \<equiv> rules_at (publish_rules E current)"

lemma normalize_items: "normalize E current cm = map (\<lambda>(k, it). (k, norm_item E current k it)) cm"
  by (simp add: normalize_def fold_on_key)

lemma rules_at_other: "k \<notin> fst ` set rs \<Longrightarrow> rules_at rs k it = it"
  by (induction rs arbitrary: it) auto

lemma norm_equations:
  "norm_item E current CfgSamplingType it = samplingType_rule E it"
  "norm_item E current CfgCollectorGrpcCompression it = compression_rule E it"
  "norm_item E current CfgAppType it = defaultIfOutOfRange E (- (2 ^ 15)) (2 ^ 15 - 1) it"
  "norm_item E current CfgLogLevel it = logLevel_rule E current it"
  "norm_item E current CfgSQLMaxBindValueSize it = maxBind_rule E it"
  "norm_item E current CfgSQLCacheLengthLimit it = cacheLength_rule E it"
  "norm_item E current CfgSQLErrorCount it = zeroIfNegative E it"
  "norm_item E current CfgSQLCacheExpireHours it = defaultIfOutOfRange E 0 (24 * 365 * 100) it"
  "norm_item E current CfgSpanEventChunkSize it = defaultIfOutOfRange E 1 maxQueueSize it"
  "norm_item E current CfgHttpUrlStatLimitSize it = defaultIfOutOfRange E 1 maxQueueSize it"
  "norm_item E current CfgSpanQueueSize it = defaultIfOutOfRange E 1 maxQueueSize it"
  "norm_item E current CfgHttpUrlStatQueueSize it = defaultIfOutOfRange E 1 maxQueueSize it"
  "norm_item E current CfgSQLCacheSize it = defaultIfOutOfRange E 1 65536 it"
  "norm_item E current CfgStatCollectInterval it = defaultIfOutOfRange E 1000 10000 it"
  "norm_item E current CfgStatBatchCount it = defaultIfOutOfRange E 1 100 it"
  "norm_item E current CfgStatQueueSize it = defaultIfOutOfRange E 1 maxQueueSize it"
  "norm_item E current CfgCollectorGrpcSenderQueueSize it = defaultIfOutOfRange E 1 maxQueueSize it"
  "norm_item E current CfgCollectorGrpcSpanBatchSize it = defaultIfOutOfRange E 1 maxQueueSize it"
  "norm_item E current CfgCollectorGrpcSpanBatchFlushInterval it = defaultIfOutOfRange E 1 MaxInt32 it"
  "norm_item E current CfgCollectorGrpcSpanBatchCollectDeadline it = defaultIfOutOfRange E 1 MaxInt32 it"
  "norm_item E current CfgCollectorGrpcSpanBatchMaxConcurrentRequests it = defaultIfOutOfRange E 1 MaxInt32 it"
  "norm_item E current CfgCollectorAgentInfoSendRetryInterval it = defaultIfOutOfRange E 1 MaxInt32 it"
  "norm_item E current CfgCollectorAgentInfoMaxTryPerAttempt it = defaultIfOutOfRange E 1 MaxInt32 it"
  "norm_item E current CfgCollectorGrpcKeepAliveTime it = defaultIfOutOfRange E 1 MaxInt32 it"
  "norm_item E current CfgCollectorGrpcKeepAliveTimeout it = defaultIfOutOfRange E 1 MaxInt32 it"
  "norm_item E current CfgCollectorGrpcMaxSendMessageSize it = defaultIfOutOfRange E 1 MaxInt32 it"
  "norm_item E current CfgCollectorGrpcMaxReceiveMessageSize it = defaultIfOutOfRange E 1 MaxInt32 it"
  "norm_item E current CfgCollectorGrpcFlowControlWindow it = defaultIfOutOfRange E 1 MaxInt32 it"
  "norm_item E current CfgCollectorGrpcWriteBufferSize it = defaultIfOutOfRange E 0 MaxInt32 it"
  "norm_item E current CfgCollectorGrpcMaxHeaderListSize it = defaultIfOutOfRange E 1 MaxInt32 it"
  "norm_item E current CfgCollectorGrpcConnectionMaxAge it = defaultIfAbove E maxDurationOptionMs (zeroIfNegative E it)"
  "norm_item E current CfgCollectorGrpcStreamMaxAge it = defaultIfAbove E maxDurationOptionMs (zeroIfNegative E it)"
  "norm_item E current CfgCollectorGrpcIdleTimeout it = defaultIfAbove E maxDurationOptionMs (zeroIfNegative E it)"
  "norm_item E current CfgCollectorAgentInfoRefreshInterval it = defaultIfAbove E maxDurationOptionMs it"
  "norm_item E current CfgSpanMaxCallStackDepth it = unlimitedOrAtLeast E 2 it"
  "norm_item E current CfgSpanMaxCallStackSequence it = unlimitedOrAtLeast E 4 it"
  "norm_item E current CfgLogMaxSize it = defaultIfOutOfRange E 1 MaxInt32 it"
  "norm_item E current CfgLogMaxBackups it = defaultIfOutOfRange E 1 MaxInt32 it"
  "norm_item E current CfgErrorCallStackDepth it = errorDepth_rule E it"
  "norm_item E current CfgErrorMaxChainDepth it = chainDepth_rule E it"
  "norm_item E current CfgErrorNewThroughput it = zeroIfNegative E it"
  by (simp_all add: publish_rules_def option_keys)

section \<open>Ranges\<close>

text \<open>
  The limits of the integer options a publish checks, a missing bound being \<open>None\<close>. These are all the integer options a publish
  looks at; the other three it normalizes are names (\<open>ranges_complete\<close>). The rates of the samplers have documented limits too
  (\<open>Sampling.CounterRate\<close>, \<open>Sampling.PercentRate\<close>, the throughputs), which a publish does not enforce: such an option reads as it was
  set, and the sampler built from it takes care of it.
\<close>

definition option_ranges :: "(string \<times> int option \<times> int option) list" where
  "option_ranges =
     [(CfgAppType, Some (- (2 ^ 15)), Some (2 ^ 15 - 1)),
      (CfgSQLMaxBindValueSize, Some 0, Some maxSqlBindValueSize),
      (CfgSQLCacheLengthLimit, Some 0, None),
      (CfgSQLErrorCount, Some 0, None),
      (CfgSQLCacheExpireHours, Some 0, Some (24 * 365 * 100)),
      (CfgSpanEventChunkSize, Some 1, Some maxQueueSize),
      (CfgHttpUrlStatLimitSize, Some 1, Some maxQueueSize),
      (CfgSpanQueueSize, Some 1, Some maxQueueSize),
      (CfgHttpUrlStatQueueSize, Some 1, Some maxQueueSize),
      (CfgSQLCacheSize, Some 1, Some 65536),
      (CfgStatCollectInterval, Some 1000, Some 10000),
      (CfgStatBatchCount, Some 1, Some 100),
      (CfgStatQueueSize, Some 1, Some maxQueueSize),
      (CfgCollectorGrpcSenderQueueSize, Some 1, Some maxQueueSize),
      (CfgCollectorGrpcSpanBatchSize, Some 1, Some maxQueueSize),
      (CfgCollectorGrpcSpanBatchFlushInterval, Some 1, Some MaxInt32),
      (CfgCollectorGrpcSpanBatchCollectDeadline, Some 1, Some MaxInt32),
      (CfgCollectorGrpcSpanBatchMaxConcurrentRequests, Some 1, Some MaxInt32),
      (CfgCollectorAgentInfoSendRetryInterval, Some 1, Some MaxInt32),
      (CfgCollectorAgentInfoMaxTryPerAttempt, Some 1, Some MaxInt32),
      (CfgCollectorGrpcKeepAliveTime, Some 1, Some MaxInt32),
      (CfgCollectorGrpcKeepAliveTimeout, Some 1, Some MaxInt32),
      (CfgCollectorGrpcMaxSendMessageSize, Some 1, Some MaxInt32),
      (CfgCollectorGrpcMaxReceiveMessageSize, Some 1, Some MaxInt32),
      (CfgCollectorGrpcFlowControlWindow, Some 1, Some MaxInt32),
      (CfgCollectorGrpcWriteBufferSize, Some 0, Some MaxInt32),
      (CfgCollectorGrpcMaxHeaderListSize, Some 1, Some MaxInt32),
      (CfgCollectorGrpcConnectionMaxAge, Some 0, Some maxDurationOptionMs),
      (CfgCollectorGrpcStreamMaxAge, Some 0, Some maxDurationOptionMs),
      (CfgCollectorGrpcIdleTimeout, Some 0, Some maxDurationOptionMs),
      (CfgCollectorAgentInfoRefreshInterval, None, Some maxDurationOptionMs),
      (CfgSpanMaxCallStackDepth, Some 2, Some MaxInt32),
      (CfgSpanMaxCallStackSequence, Some 4, Some MaxInt32),
      (CfgLogMaxSize, Some 1, Some MaxInt32),
      (CfgLogMaxBackups, Some 1, Some MaxInt32),
      (CfgErrorCallStackDepth, Some 1, Some 1024),
      (CfgErrorMaxChainDepth, Some 1, Some 64),
      (CfgErrorNewThroughput, Some 0, None)]"

definition within :: "int option \<Rightarrow> int option \<Rightarrow> int \<Rightarrow> bool" where
  "within lo hi v \<longleftrightarrow> (case lo of None \<Rightarrow> True | Some l \<Rightarrow> l \<le> v) \<and> (case hi of None \<Rightarrow> True | Some h \<Rightarrow> v \<le> h)"

lemma ranges_complete:
  "fst ` set (publish_rules E current) = fst ` set option_ranges \<union> {CfgSamplingType, CfgCollectorGrpcCompression, CfgLogLevel}"
  by (simp add: publish_rules_def option_ranges_def insert_commute)

text \<open>An item registered under its key with the agent's own default and type; a plugin's option is under another key.\<close>

definition registry_item :: "string \<Rightarrow> 'f cfgMapItem \<Rightarrow> bool" where
  "registry_item k it \<longleftrightarrow> (case map_of registry k of None \<Rightarrow> True
     | Some (ty, d, dyn) \<Rightarrow> defaultValue it = d \<and> valueType it = ty \<and> dynamic it = dyn)"

lemma registry_distinct: "distinct (map fst registry)"
  by (simp add: registry_def option_keys)

lemma registry_ranges:
  "map_of registry CfgAppType = Some (CfgInt, VInt 1800, False)"
  "map_of registry CfgSQLCacheExpireHours = Some (CfgInt, VInt 168, False)"
  "map_of registry CfgSpanEventChunkSize = Some (CfgInt, VInt 20, True)"
  "map_of registry CfgHttpUrlStatLimitSize = Some (CfgInt, VInt 1000, True)"
  "map_of registry CfgSpanQueueSize = Some (CfgInt, VInt 1024, False)"
  "map_of registry CfgHttpUrlStatQueueSize = Some (CfgInt, VInt 1024, False)"
  "map_of registry CfgSQLCacheSize = Some (CfgInt, VInt 1024, False)"
  "map_of registry CfgStatCollectInterval = Some (CfgInt, VInt 5000, False)"
  "map_of registry CfgStatBatchCount = Some (CfgInt, VInt 6, False)"
  "map_of registry CfgStatQueueSize = Some (CfgInt, VInt 1024, False)"
  "map_of registry CfgCollectorGrpcSenderQueueSize = Some (CfgInt, VInt 1000, False)"
  "map_of registry CfgCollectorGrpcSpanBatchSize = Some (CfgInt, VInt 50, False)"
  "map_of registry CfgCollectorGrpcSpanBatchFlushInterval = Some (CfgInt, VInt 1000, False)"
  "map_of registry CfgCollectorGrpcSpanBatchCollectDeadline = Some (CfgInt, VInt 500, False)"
  "map_of registry CfgCollectorGrpcSpanBatchMaxConcurrentRequests = Some (CfgInt, VInt 10, False)"
  "map_of registry CfgCollectorAgentInfoSendRetryInterval = Some (CfgInt, VInt 3000, False)"
  "map_of registry CfgCollectorAgentInfoMaxTryPerAttempt = Some (CfgInt, VInt 3, False)"
  "map_of registry CfgCollectorGrpcKeepAliveTime = Some (CfgInt, VInt 30000, False)"
  "map_of registry CfgCollectorGrpcKeepAliveTimeout = Some (CfgInt, VInt 60000, False)"
  "map_of registry CfgCollectorGrpcMaxSendMessageSize = Some (CfgInt, VInt 4194304, False)"
  "map_of registry CfgCollectorGrpcMaxReceiveMessageSize = Some (CfgInt, VInt 4194304, False)"
  "map_of registry CfgCollectorGrpcFlowControlWindow = Some (CfgInt, VInt 1048576, False)"
  "map_of registry CfgCollectorGrpcWriteBufferSize = Some (CfgInt, VInt 65536, False)"
  "map_of registry CfgCollectorGrpcMaxHeaderListSize = Some (CfgInt, VInt 8192, False)"
  "map_of registry CfgCollectorGrpcConnectionMaxAge = Some (CfgInt, VInt 0, False)"
  "map_of registry CfgCollectorGrpcStreamMaxAge = Some (CfgInt, VInt 0, False)"
  "map_of registry CfgCollectorGrpcIdleTimeout = Some (CfgInt, VInt 0, False)"
  "map_of registry CfgSpanMaxCallStackDepth = Some (CfgInt, VInt 64, True)"
  "map_of registry CfgSpanMaxCallStackSequence = Some (CfgInt, VInt 5000, True)"
  "map_of registry CfgLogMaxSize = Some (CfgInt, VInt 10, True)"
  "map_of registry CfgLogMaxBackups = Some (CfgInt, VInt 1, True)"
  "map_of registry CfgErrorCallStackDepth = Some (CfgInt, VInt 32, True)"
  "map_of registry CfgErrorMaxChainDepth = Some (CfgInt, VInt 64, True)"
  "map_of registry CfgCollectorAgentInfoRefreshInterval = Some (CfgInt, VInt 86400000, False)"
  by (rule map_of_is_SomeI [OF registry_distinct]; simp add: registry_def)+

lemma rule_ranges:
  "lo \<le> as_int E (defaultValue it) \<Longrightarrow> as_int E (defaultValue it) \<le> hi \<Longrightarrow> lo \<le> as_int E (cfg_value (defaultIfOutOfRange E lo hi it))"
  "lo \<le> as_int E (defaultValue it) \<Longrightarrow> as_int E (defaultValue it) \<le> hi \<Longrightarrow> as_int E (cfg_value (defaultIfOutOfRange E lo hi it)) \<le> hi"
  "0 \<le> as_int E (defaultValue it) \<Longrightarrow> 0 \<le> as_int E (cfg_value (defaultIfAbove E hi (zeroIfNegative E it)))"
  "0 \<le> hi \<Longrightarrow> as_int E (defaultValue it) \<le> hi \<Longrightarrow> as_int E (cfg_value (defaultIfAbove E hi (zeroIfNegative E it))) \<le> hi"
  "lo \<le> MaxInt32 \<Longrightarrow> lo \<le> as_int E (cfg_value (unlimitedOrAtLeast E lo it))"
  "lo \<le> MaxInt32 \<Longrightarrow> as_int E (cfg_value (unlimitedOrAtLeast E lo it)) \<le> MaxInt32"
  "1 \<le> as_int E (cfg_value (errorDepth_rule E it))" "as_int E (cfg_value (errorDepth_rule E it)) \<le> 1024"
  "1 \<le> as_int E (cfg_value (chainDepth_rule E it))" "as_int E (cfg_value (chainDepth_rule E it)) \<le> 64"
  "0 \<le> as_int E (cfg_value (zeroIfNegative E it))" "0 \<le> as_int E (cfg_value (cacheLength_rule E it))"
  "as_int E (defaultValue it) \<le> hi \<Longrightarrow> as_int E (cfg_value (defaultIfAbove E hi it)) \<le> hi"
  by (auto simp: defaultIfOutOfRange_def defaultIfAbove_def zeroIfNegative_def unlimitedOrAtLeast_def errorDepth_rule_def
      chainDepth_rule_def cacheLength_rule_def MaxInt32_def Let_def)

lemma limits_ordered:
  "1 \<le> maxQueueSize" "0 \<le> maxDurationOptionMs" "1 \<le> MaxInt32" "1024 \<le> maxQueueSize" "numeral n \<le> MaxInt32 \<longleftrightarrow> numeral n \<le> (2147483647 :: int)"
  "numeral n \<le> maxQueueSize \<longleftrightarrow> numeral n \<le> (65536 :: int)" "0 \<le> MaxInt32" "86400000 \<le> maxDurationOptionMs"
  by (simp_all add: limit_defs)

definition keeps_range :: "string \<Rightarrow> int option \<Rightarrow> int option \<Rightarrow> 'f cfgMapItem \<Rightarrow> 'f cfg_env \<Rightarrow> 'f cfgValue option \<Rightarrow> bool" where
  "keeps_range k lo hi it E current \<longleftrightarrow> (registry_item k it \<longrightarrow> within lo hi (as_int E (cfg_value (norm_item E current k it))))"

text \<open>\<open>SQL.MaxBindValueSize\<close> apart: a negative size stays staged and is replaced in the published values only.\<close>

lemma norm_in_range:
  assumes "(k, lo, hi) \<in> set option_ranges" "registry_item k it" "k = CfgSQLMaxBindValueSize \<Longrightarrow> 0 \<le> as_int E (cfg_value it)"
  shows "within lo hi (as_int E (cfg_value (norm_item E current k it)))"
proof (cases "k = CfgSQLMaxBindValueSize")
  case True
  then have "lo = Some 0 \<and> hi = Some maxSqlBindValueSize" using assms(1) by (simp add: option_ranges_def option_keys)
  then show ?thesis using True assms(3) by (simp add: within_def norm_equations maxBind_rule_def limit_defs)
next
  case False
  have "list_all (\<lambda>(k, lo, hi). k = CfgSQLMaxBindValueSize \<or> keeps_range k lo hi it E current) option_ranges"
    by (simp add: option_ranges_def keeps_range_def within_def norm_equations registry_item_def registry_ranges rule_ranges limits_ordered)
  then show ?thesis using assms(1,2) False by (auto simp: list_all_iff keeps_range_def)
qed

section \<open>A second pass changes nothing\<close>

definition rule_idem :: "'f rule \<Rightarrow> bool" where
  "rule_idem f \<longleftrightarrow> (\<forall>it. f (f it) = f it)"

text \<open>A rule rewrites the value of its option and nothing else.\<close>

definition value_rule :: "'f rule \<Rightarrow> bool" where
  "value_rule f \<longleftrightarrow> (\<forall>it. \<exists>v. f it = it\<lparr>cfg_value := v\<rparr>)"

lemma trimmed_names:
  "TrimSpace ''COUNTER'' = ''COUNTER''" "TrimSpace ''PERCENT'' = ''PERCENT''" "TrimSpace ''gzip'' = ''gzip''" "TrimSpace ''none'' = ''none''"
  by (simp_all add: TrimSpace_graphic graphic_def)

lemma cased_names: "ToUpper ''COUNTER'' = ''COUNTER''" "ToUpper ''PERCENT'' = ''PERCENT''" "ToLower ''gzip'' = ''gzip''" "ToLower ''none'' = ''none''"
  by code_simp+

lemma rules_idem:
  "rule_idem (defaultIfOutOfRange E lo hi)" "rule_idem (zeroIfNegative E)" "rule_idem (defaultIfAbove E hi)"
  "lo \<le> MaxInt32 \<Longrightarrow> 0 \<le> lo \<Longrightarrow> rule_idem (unlimitedOrAtLeast E lo)" "rule_idem (samplingType_rule E)" "rule_idem (compression_rule E)"
  "rule_idem (logLevel_rule E current)" "rule_idem (maxBind_rule E)" "rule_idem (cacheLength_rule E)" "rule_idem (errorDepth_rule E)"
  "rule_idem (chainDepth_rule E)"
  by (auto simp: rule_idem_def defaultIfOutOfRange_def zeroIfNegative_def defaultIfAbove_def unlimitedOrAtLeast_def
      samplingType_rule_def compression_rule_def logLevel_rule_def maxBind_rule_def cacheLength_rule_def errorDepth_rule_def
      chainDepth_rule_def Let_def limit_defs trimmed_names cased_names split: option.splits)

lemma age_rules_idem:
  "0 \<le> as_int E (defaultValue it) \<Longrightarrow>
     defaultIfAbove E hi (zeroIfNegative E (defaultIfAbove E hi (zeroIfNegative E it))) = defaultIfAbove E hi (zeroIfNegative E it)"
  by (auto simp: zeroIfNegative_def defaultIfAbove_def)

lemma same_item: "\<exists>v. it = it\<lparr>cfg_value := v\<rparr>"
  by (rule exI [of _ "cfg_value it"]) simp

lemma value_rules:
  "value_rule (defaultIfOutOfRange E lo hi)" "value_rule (zeroIfNegative E)" "value_rule (defaultIfAbove E hi)"
  "value_rule (unlimitedOrAtLeast E lo)" "value_rule (samplingType_rule E)" "value_rule (compression_rule E)"
  "value_rule (logLevel_rule E current)" "value_rule (maxBind_rule E)" "value_rule (cacheLength_rule E)" "value_rule (errorDepth_rule E)"
  "value_rule (chainDepth_rule E)"
  by (auto simp: value_rule_def defaultIfOutOfRange_def zeroIfNegative_def defaultIfAbove_def unlimitedOrAtLeast_def
      samplingType_rule_def compression_rule_def logLevel_rule_def maxBind_rule_def cacheLength_rule_def errorDepth_rule_def
      chainDepth_rule_def Let_def intro: same_item)

lemma value_rules_at: "list_all (\<lambda>(k, f). value_rule f) rs \<Longrightarrow> value_rule (rules_at rs k)"
proof (induction rs)
  case Nil
  then show ?case by (auto simp: value_rule_def intro: same_item)
next
  case (Cons r rs)
  then obtain k' f where r: "r = (k', f)" "value_rule f" "value_rule (rules_at rs k)" by (cases r) auto
  have "\<exists>v. rules_at rs k (f it) = it\<lparr>cfg_value := v\<rparr>" for it
  proof -
    obtain v w where "f it = it\<lparr>cfg_value := v\<rparr>" "rules_at rs k (f it) = (f it)\<lparr>cfg_value := w\<rparr>"
      using r(2,3) unfolding value_rule_def by blast
    then show ?thesis by auto
  qed
  then show ?case using r by (auto simp: value_rule_def)
qed

lemma publish_value_rules: "list_all (\<lambda>(k, f). value_rule f) (publish_rules E current)"
  by (simp add: publish_rules_def value_rules)

lemma norm_item_sel [simp]:
  "defaultValue (norm_item E current k it) = defaultValue it" "baseValue (norm_item E current k it) = baseValue it"
  "valueType (norm_item E current k it) = valueType it" "cmdKey (norm_item E current k it) = cmdKey it"
  "envKey (norm_item E current k it) = envKey it" "dynamic (norm_item E current k it) = dynamic it"
  "source (norm_item E current k it) = source it"
proof -
  obtain v where "norm_item E current k it = it\<lparr>cfg_value := v\<rparr>"
    using value_rules_at [OF publish_value_rules [of E current], of k] by (auto simp: value_rule_def)
  then show "defaultValue (norm_item E current k it) = defaultValue it" "baseValue (norm_item E current k it) = baseValue it"
    "valueType (norm_item E current k it) = valueType it" "cmdKey (norm_item E current k it) = cmdKey it"
    "envKey (norm_item E current k it) = envKey it" "dynamic (norm_item E current k it) = dynamic it"
    "source (norm_item E current k it) = source it"
    by simp_all
qed

lemma rules_at_once:
  assumes "distinct (map fst rs)" "(k, f) \<in> set rs"
  shows "rules_at rs k it = f it"
  using assms
proof (induction rs arbitrary: it)
  case (Cons r rs)
  obtain k' g where r: "r = (k', g)" by (cases r)
  show ?case
  proof (cases "k' = k")
    case True
    then have "k \<notin> fst ` set rs" "f = g" using Cons.prems r by (auto simp: image_iff)
    then show ?thesis using r True by (simp add: rules_at_other)
  qed (use Cons r in auto)
qed simp

lemma rules_at_filter: "Q k \<Longrightarrow> rules_at (filter (\<lambda>r. Q (fst r)) rs) k it = rules_at rs k it"
  by (induction rs arbitrary: it) auto

definition age_keys :: "string set" where
  "age_keys = {CfgCollectorGrpcConnectionMaxAge, CfgCollectorGrpcStreamMaxAge, CfgCollectorGrpcIdleTimeout}"

lemma single_rules:
  "distinct (map fst (filter (\<lambda>r. fst r \<notin> age_keys) (publish_rules E current)))"
  by (simp add: publish_rules_def age_keys_def option_keys)

lemma publish_rules_idem: "list_all (\<lambda>(k, f). rule_idem f) (publish_rules E current)"
  by (simp add: publish_rules_def rules_idem limits_ordered)

lemma norm_idem:
  assumes "registry_item k it"
  shows "norm_item E current k (norm_item E current k it) = norm_item E current k it"
proof (cases "k \<in> age_keys")
  case True
  have "registry_item k it \<Longrightarrow> 0 \<le> as_int E (defaultValue it)"
    using True by (auto simp: age_keys_def registry_item_def registry_ranges)
  then show ?thesis using True assms by (auto simp: age_keys_def norm_equations age_rules_idem)
next
  case False
  let ?rs = "filter (\<lambda>r. fst r \<notin> age_keys) (publish_rules E current)"
  have eq: "norm_item E current k x = rules_at ?rs k x" for x
    using rules_at_filter [of "\<lambda>k. k \<notin> age_keys" k "publish_rules E current" x] False by simp
  show ?thesis
  proof (cases "k \<in> fst ` set ?rs")
    case True
    then obtain f where f: "(k, f) \<in> set ?rs" by auto
    then have "rule_idem f" using publish_rules_idem [of E current] by (auto simp: list_all_iff)
    then show ?thesis by (simp add: eq rules_at_once [OF single_rules f] rule_idem_def)
  qed (simp add: eq rules_at_other)
qed

lemma norm_level: "levelOk E (as_str E (cfg_value it)) \<Longrightarrow> norm_item E current CfgLogLevel it = it"
  by (simp add: norm_equations logLevel_rule_def)

lemma norm_current:
  assumes "k \<noteq> CfgLogLevel"
  shows "norm_item E current k it = norm_item E current' k it"
proof -
  have "filter (\<lambda>r. fst r \<noteq> CfgLogLevel) (publish_rules E current) = filter (\<lambda>r. fst r \<noteq> CfgLogLevel) (publish_rules E current')"
    by (simp add: publish_rules_def option_keys)
  with rules_at_filter [of "\<lambda>k. k \<noteq> CfgLogLevel" k "publish_rules E current" it]
    rules_at_filter [of "\<lambda>k. k \<noteq> CfgLogLevel" k "publish_rules E current'" it] assms
  show ?thesis by simp
qed

text \<open>The rules do not look at where a value came from.\<close>

definition source_free :: "'f rule \<Rightarrow> bool" where
  "source_free f \<longleftrightarrow> (\<forall>it x. f (it\<lparr>source := x\<rparr>) = (f it)\<lparr>source := x\<rparr>)"

lemma source_free_rules: "list_all (\<lambda>(k, f). source_free f) (publish_rules E current)"
proof -
  have "source_free (defaultIfOutOfRange E lo hi)" "source_free (zeroIfNegative E)" "source_free (defaultIfAbove E hi)"
    "source_free (unlimitedOrAtLeast E lo)" "source_free (samplingType_rule E)" "source_free (compression_rule E)"
    "source_free (logLevel_rule E current)" "source_free (maxBind_rule E)" "source_free (cacheLength_rule E)"
    "source_free (errorDepth_rule E)" "source_free (chainDepth_rule E)" for lo hi
    by (simp_all add: source_free_def defaultIfOutOfRange_def zeroIfNegative_def defaultIfAbove_def unlimitedOrAtLeast_def
        samplingType_rule_def compression_rule_def logLevel_rule_def maxBind_rule_def cacheLength_rule_def errorDepth_rule_def
        chainDepth_rule_def Let_def split: option.splits)
  then show ?thesis by (simp add: publish_rules_def)
qed

lemma rules_at_source:
  "list_all (\<lambda>(k, f). source_free f) rs \<Longrightarrow> rules_at rs k (it\<lparr>source := x\<rparr>) = (rules_at rs k it)\<lparr>source := x\<rparr>"
  by (induction rs arbitrary: it) (auto simp: source_free_def)

lemma norm_source: "norm_item E current k (it\<lparr>source := x\<rparr>) = (norm_item E current k it)\<lparr>source := x\<rparr>"
  by (rule rules_at_source [OF source_free_rules])

lemma norm_overwrite [simp]: "(norm_item E current k it)\<lparr>cfg_value := v\<rparr> = it\<lparr>cfg_value := v\<rparr>"
proof -
  obtain w where "norm_item E current k it = it\<lparr>cfg_value := w\<rparr>"
    using value_rules_at [OF publish_value_rules [of E current], of k] by (auto simp: value_rule_def)
  then show ?thesis by simp
qed

lemma registry_item_cong:
  "defaultValue it = defaultValue it' \<Longrightarrow> valueType it = valueType it' \<Longrightarrow> dynamic it = dynamic it' \<Longrightarrow>
     registry_item k it = registry_item k it'"
  by (simp add: registry_item_def split: option.splits)

lemma registry_dynamic:
  "registry_item CfgLogLevel it \<Longrightarrow> dynamic it" "registry_item CfgApiKey it \<Longrightarrow> \<not> dynamic it"
  "registry_item CfgServiceName it \<Longrightarrow> \<not> dynamic it" "registry_item CfgAgentName it \<Longrightarrow> \<not> dynamic it"
  "registry_item CfgAppName it \<Longrightarrow> \<not> dynamic it" "registry_item CfgIsContainerEnv it \<Longrightarrow> \<not> dynamic it"
  by (simp_all add: registry_item_def registry_def option_keys)

lemma key_neqs:
  "CfgActiveProfile \<noteq> CfgLogLevel" "CfgActiveProfile \<noteq> CfgApiKey" "CfgActiveProfile \<noteq> CfgServiceName"
  "CfgActiveProfile \<noteq> CfgAgentName" "CfgActiveProfile \<noteq> CfgAppName" "CfgActiveProfile \<noteq> CfgIsContainerEnv"
  "CfgActiveProfile \<notin> fst ` set (publish_rules E current)"
  by (simp_all add: publish_rules_def option_keys)

lemma norm_profile [simp]: "norm_item E current CfgActiveProfile it = it"
  by (rule rules_at_other [OF key_neqs(7)])

lemma norm_maxBind_negative:
  "as_int E (cfg_value (norm_item E current CfgSQLMaxBindValueSize it)) < 0 \<longleftrightarrow> as_int E (cfg_value it) < 0"
  by (simp add: norm_equations maxBind_rule_def limit_defs)

lemma range_keys: "(k, lo, hi) \<in> set option_ranges \<Longrightarrow> k \<noteq> CfgSQLTraceBindValue"
  by (auto simp: option_ranges_def option_keys)

end
