(* ===== verification/Config.thy ===== *)
theory Config
  imports Config_Registry
begin

text \<open>
  The configuration of an agent (\<^verbatim>\<open>src/config.go\<close>, \<^verbatim>\<open>src/config_reload.go\<close>): a staging area of options, published as immutable
  snapshots. Modelled: the build-up of a \<^verbatim>\<open>Config\<close> from options, flags, environment and file, \<^verbatim>\<open>Set\<close>, the resolved identity, and
  the two reloads, of a watched file and of a YAML text handed to \<^verbatim>\<open>ReloadConfig\<close>. Every operation holds the lock for its whole
  length and is one function. Reading and parsing files is an input, and so are the command line, the environment and what
  the identity draws on. A component derived from options (sampler, exception limiter) is represented by its identity
  and the option values it was built from.
\<close>

section \<open>State\<close>

type_synonym 'f component = "nat \<times> 'f cfgValue option list"

record 'f configSnapshot =
  cs_values :: "(string \<times> 'f cfgValue) list"
  cs_sampler :: "'f component option"
  cs_limiter :: "'f component option"
  cs_collectUrlStat :: bool
  cs_urlStatLimitSize :: int
  cs_urlStatWithMethod :: bool
  cs_sqlTraceBindValue :: bool
  cs_sqlMaxBindValueSize :: int
  cs_negativeMaxBind :: int
  cs_sqlTraceCommit :: bool
  cs_sqlTraceRollback :: bool
  cs_sqlTraceQueryStat :: bool
  cs_sqlEnableRawSqlCache :: bool
  cs_sqlErrorCount :: int
  cs_spanEventChunkSize :: int
  cs_spanMaxEventDepth :: go_int32
  cs_spanMaxEventSequence :: go_int32
  cs_errorTraceCallStack :: bool
  cs_errorCallStackDepth :: int
  cs_errorIgnoreRules :: "ignoreErrorRule list"
  cs_errorMaxChainDepth :: int
  cs_errorMarkMask :: ErrorCategory

text \<open>\<open>built\<close> counts the components built, so that every new one has an identity of its own.\<close>

record 'f Config =
  cfgMap :: "(string \<times> 'f cfgMapItem) list"
  callback :: "(string list \<times> nat) list"
  snapshot :: "'f configSnapshot option"
  static :: bool
  configFileCfg :: "string option"
  containerCheck :: bool
  objName :: "objectName option"
  built :: nat

text \<open>A loop over the options, each rewritten on its own.\<close>

definition keyed :: "(string \<Rightarrow> 'a \<Rightarrow> 'b) \<Rightarrow> (string \<times> 'a) list \<Rightarrow> (string \<times> 'b) list" where
  "keyed f cm = map (\<lambda>(k, it). (k, f k it)) cm"

section \<open>Reading\<close>

definition load_values :: "'f Config \<Rightarrow> (string \<times> 'f cfgValue) list" where
  "load_values c = (case snapshot c of Some s \<Rightarrow> cs_values s | None \<Rightarrow> [])"

definition value_of :: "(string \<times> 'f cfgValue) list \<Rightarrow> string \<Rightarrow> 'f cfgValue" where
  "value_of vs k = (case map_of vs k of Some v \<Rightarrow> v | None \<Rightarrow> VNil)"

definition config_Int :: "'f cfg_env \<Rightarrow> 'f Config \<Rightarrow> string \<Rightarrow> int" where
  "config_Int E c k = as_int E (value_of (load_values c) k)"

definition config_Bool :: "'f cfg_env \<Rightarrow> 'f Config \<Rightarrow> string \<Rightarrow> bool" where
  "config_Bool E c k = as_bool E (value_of (load_values c) k)"

definition config_String :: "'f cfg_env \<Rightarrow> 'f Config \<Rightarrow> string \<Rightarrow> string" where
  "config_String E c k = as_str E (value_of (load_values c) k)"

definition config_StringSlice :: "'f cfg_env \<Rightarrow> 'f Config \<Rightarrow> string \<Rightarrow> string list" where
  "config_StringSlice E c k = as_list E (value_of (load_values c) k)"

definition staged :: "'f Config \<Rightarrow> string \<Rightarrow> 'f cfgValue" where
  "staged c k = (case map_of (cfgMap c) k of Some it \<Rightarrow> cfg_value it | None \<Rightarrow> VNil)"

definition stage :: "string \<Rightarrow> 'f cfgValue \<Rightarrow> 'f Config \<Rightarrow> 'f Config" where
  "stage k v c = c\<lparr>cfgMap := on_key k (\<lambda>it. it\<lparr>cfg_value := v\<rparr>) (cfgMap c)\<rparr>"

section \<open>Publishing\<close>

definition sameValues :: "(string \<times> 'f cfgValue) list \<Rightarrow> (string \<times> 'f cfgValue) list \<Rightarrow> string list \<Rightarrow> bool" where
  "sameValues a b ks \<longleftrightarrow> list_all (\<lambda>k. map_of a k = map_of b k) ks"

definition samplingOpts :: "string list" where
  "samplingOpts = [CfgSamplingType, CfgSamplingCounterRate, CfgSamplingPercentRate, CfgSamplingNewThroughput,
     CfgSamplingContinueThroughput]"

definition newErrorMarkMask :: "'f cfg_env \<Rightarrow> 'f configSnapshot option \<Rightarrow> (string \<times> 'f cfgValue) list \<Rightarrow> ErrorCategory" where
  "newErrorMarkMask E prev vs =
     (let fresh = parseErrorMarkMask (as_list E (value_of vs CfgSpanErrorMark)) (as_list E (value_of vs CfgSpanErrorMarkExclude))
      in case prev of None \<Rightarrow> fresh
         | Some p \<Rightarrow> if cs_errorMarkMask p \<noteq> 0 \<and> sameValues (cs_values p) vs [CfgSpanErrorMark, CfgSpanErrorMarkExclude]
             then cs_errorMarkMask p else fresh)"

definition newTraceSampler :: "nat \<Rightarrow> 'f configSnapshot option \<Rightarrow> (string \<times> 'f cfgValue) list \<Rightarrow> 'f component" where
  "newTraceSampler new prev vs =
     (let fresh = (new, map (map_of vs) samplingOpts)
      in case prev of None \<Rightarrow> fresh
         | Some p \<Rightarrow> (case cs_sampler p of
               Some s \<Rightarrow> if sameValues (cs_values p) vs samplingOpts then s else fresh | None \<Rightarrow> fresh))"

definition newTokenBucket :: "'f cfg_env \<Rightarrow> nat \<Rightarrow> 'f cfgValue option \<Rightarrow> 'f component option" where
  "newTokenBucket E new v = (if as_int E (case v of Some x \<Rightarrow> x | None \<Rightarrow> VNil) \<le> 0 then None else Some (new, [v]))"

definition newExceptionLimiter ::
  "'f cfg_env \<Rightarrow> nat \<Rightarrow> 'f configSnapshot option \<Rightarrow> (string \<times> 'f cfgValue) list \<Rightarrow> 'f component option" where
  "newExceptionLimiter E new prev vs =
     (let fresh = newTokenBucket E new (map_of vs CfgErrorNewThroughput)
      in case prev of None \<Rightarrow> fresh
         | Some p \<Rightarrow> if sameValues (cs_values p) vs [CfgErrorNewThroughput] then cs_limiter p else fresh)"

text \<open>The published values: the staged ones, but a negative bind value size publishes as 0 with the tracing of bind values off.\<close>

definition publish_values :: "'f cfg_env \<Rightarrow> int \<Rightarrow> (string \<times> 'f cfgMapItem) list \<Rightarrow> (string \<times> 'f cfgValue) list" where
  "publish_values E maxBind cm =
     map (\<lambda>(k, it). (k, if maxBind < 0 \<and> k = CfgSQLMaxBindValueSize then VInt 0
       else if maxBind < 0 \<and> k = CfgSQLTraceBindValue then VBool False else cfg_value it)) cm"

definition make_snapshot ::
  "'f cfg_env \<Rightarrow> nat \<Rightarrow> 'f configSnapshot option \<Rightarrow> int \<Rightarrow> (string \<times> 'f cfgValue) list \<Rightarrow> 'f configSnapshot" where
  "make_snapshot E new prev maxBind vs =
     (let int_at = \<lambda>k. as_int E (value_of vs k); bool_at = \<lambda>k. as_bool E (value_of vs k)
      in \<lparr>cs_values = vs, cs_sampler = Some (newTraceSampler new prev vs), cs_limiter = newExceptionLimiter E (new + 1) prev vs,
          cs_collectUrlStat = bool_at CfgHttpUrlStatEnable, cs_urlStatLimitSize = int_at CfgHttpUrlStatLimitSize,
          cs_urlStatWithMethod = bool_at CfgHttpUrlStatWithMethod, cs_sqlTraceBindValue = bool_at CfgSQLTraceBindValue,
          cs_sqlMaxBindValueSize = int_at CfgSQLMaxBindValueSize, cs_negativeMaxBind = min maxBind 0,
          cs_sqlTraceCommit = bool_at CfgSQLTraceCommit, cs_sqlTraceRollback = bool_at CfgSQLTraceRollback,
          cs_sqlTraceQueryStat = bool_at CfgSQLTraceQueryStat, cs_sqlEnableRawSqlCache = bool_at CfgSQLEnableRawSqlCache,
          cs_sqlErrorCount = int_at CfgSQLErrorCount, cs_spanEventChunkSize = int_at CfgSpanEventChunkSize,
          cs_spanMaxEventDepth = of_int (int_at CfgSpanMaxCallStackDepth),
          cs_spanMaxEventSequence = of_int (int_at CfgSpanMaxCallStackSequence),
          cs_errorTraceCallStack = bool_at CfgErrorTraceCallStack, cs_errorCallStackDepth = int_at CfgErrorCallStackDepth,
          cs_errorIgnoreRules = parseIgnoreErrorRules (as_list E (value_of vs CfgSpanIgnoreErrors)),
          cs_errorMaxChainDepth = int_at CfgErrorMaxChainDepth, cs_errorMarkMask = newErrorMarkMask E prev vs\<rparr>)"

definition publishFrom :: "'f cfg_env \<Rightarrow> 'f configSnapshot option \<Rightarrow> 'f Config \<Rightarrow> 'f Config" where
  "publishFrom E prev c =
     (let maxBind = as_int E (staged c CfgSQLMaxBindValueSize);
          cm = normalize E (map_of (load_values c) CfgLogLevel) (cfgMap c);
          vs = publish_values E maxBind cm
      in c\<lparr>cfgMap := cm, snapshot := Some (make_snapshot E (built c) prev maxBind vs), built := built c + 2\<rparr>)"

definition publish :: "'f cfg_env \<Rightarrow> 'f Config \<Rightarrow> 'f Config" where
  "publish E c = publishFrom E (snapshot c) c"

section \<open>Staging\<close>

definition setFinalValue :: "'f cfg_env \<Rightarrow> 'f cfgValue \<Rightarrow> nat \<Rightarrow> 'f cfgMapItem \<Rightarrow> bool \<times> 'f cfgMapItem" where
  "setFinalValue E v src it =
     (case convertCfgValue E (valueType it) v of None \<Rightarrow> (False, it) | Some w \<Rightarrow> (True, it\<lparr>cfg_value := w, source := src\<rparr>))"

definition typed_item :: "'f cfg_env \<Rightarrow> 'f cfgMapItem \<Rightarrow> 'f cfgMapItem" where
  "typed_item E it = it\<lparr>cfg_value := (case convertCfgValue E (valueType it) (cfg_value it) of Some w \<Rightarrow> w
     | None \<Rightarrow> (case convertCfgValue E (valueType it) (defaultValue it) of Some w \<Rightarrow> w | None \<Rightarrow> VNil))\<rparr>"

definition normalizeCfgValues :: "'f cfg_env \<Rightarrow> (string \<times> 'f cfgMapItem) list \<Rightarrow> (string \<times> 'f cfgMapItem) list" where
  "normalizeCfgValues E cm = keyed (\<lambda>_. typed_item E) cm"

definition config_Set :: "'f cfg_env \<Rightarrow> string \<Rightarrow> 'f cfgValue \<Rightarrow> 'f Config \<Rightarrow> 'f Config" where
  "config_Set E name v c =
     (case map_of (cfgMap c) name of None \<Rightarrow> c
      | Some it \<Rightarrow>
          if fst (setFinalValue E v cfgSrcAPI it)
          then publish E (c\<lparr>cfgMap := on_key name (\<lambda>it. snd (setFinalValue E v cfgSrcAPI it)) (cfgMap c),
             containerCheck := (if name = CfgIsContainerEnv then False else containerCheck c)\<rparr>)
          else c)"

definition restage_item :: "'f cfg_env \<Rightarrow> 'f cfgSources \<Rightarrow> bool \<Rightarrow> string \<Rightarrow> 'f cfgMapItem \<Rightarrow> 'f cfgMapItem" where
  "restage_item E s all k it =
     (if \<not> dynamic it \<and> k \<noteq> CfgActiveProfile \<and> \<not> all then it
      else if source it > cfgSrcProfile then it
      else case lookup s k it of
             Some (v, src) \<Rightarrow> snd (setFinalValue E v src it)
           | None \<Rightarrow> if source it \<noteq> cfgSrcDefault then it\<lparr>cfg_value := baseValue it, source := cfgSrcDefault\<rparr> else it)"

definition restage :: "'f cfg_env \<Rightarrow> 'f cfgSources \<Rightarrow> bool \<Rightarrow> 'f Config \<Rightarrow> 'f Config" where
  "restage E s all c =
     c\<lparr>cfgMap := map (\<lambda>(k, it). (k, restage_item E s all k it)) (cfgMap c),
       containerCheck := (if (case map_of (cfgMap c) CfgIsContainerEnv of None \<Rightarrow> False
            | Some it \<Rightarrow> (dynamic it \<or> all) \<and> source it \<le> cfgSrcProfile
                \<and> (case lookup s CfgIsContainerEnv it of Some (v, src) \<Rightarrow> fst (setFinalValue E v src it) | None \<Rightarrow> False))
          then False else containerCheck c)\<rparr>"

definition loadProfile :: "'f cfg_env \<Rightarrow> 'f cfgSources \<Rightarrow> 'f Config \<Rightarrow> 'f tree option" where
  "loadProfile E s c =
     (case map_of (cfgMap c) CfgActiveProfile of None \<Rightarrow> None
      | Some it \<Rightarrow>
          let prof = (if source it \<le> cfgSrcProfile
                then (case lookup s CfgActiveProfile it of Some (v, _) \<Rightarrow> as_str E v
                  | None \<Rightarrow> if source it \<noteq> cfgSrcDefault then as_str E (baseValue it) else as_str E (cfg_value it))
                else as_str E (cfg_value it))
          in if prof = [] then None
             else (case cfg_file s of Some f \<Rightarrow> file_sub f (''profile.'' @ prof) | None \<Rightarrow> None))"

section \<open>NewConfig\<close>

text \<open>A \<^verbatim>\<open>ConfigOption\<close> either writes the staging area or goes through \<^verbatim>\<open>Set\<close>, as the plugins' options do.\<close>

datatype 'f cfgOption = WithValue string "'f cfgValue" | WithSet string "'f cfgValue" | WithIsContainerEnv bool

fun apply_option :: "'f cfg_env \<Rightarrow> 'f cfgOption \<Rightarrow> 'f Config \<Rightarrow> 'f Config" where
  "apply_option E (WithValue k v) c = stage k v c"
| "apply_option E (WithSet k v) c = config_Set E k v c"
| "apply_option E (WithIsContainerEnv b) c = (stage CfgIsContainerEnv (VBool b) c)\<lparr>containerCheck := False\<rparr>"

text \<open>What reading the config file gives: it is not there, it cannot be read, or its tree.\<close>

datatype 'f file_result = NotExist | ReadError string | Tree "'f tree"

definition defaultConfig :: "'f cfg_env \<Rightarrow> (string \<times> 'f cfgMapItem) list \<Rightarrow> 'f Config" where
  "defaultConfig E base =
     publish E \<lparr>cfgMap = normalizeCfgValues E base, callback = [], snapshot = None, static = False, configFileCfg = None,
       containerCheck = True, objName = None, built = 0\<rparr>"

definition loadConfigFile ::
  "'f cfg_env \<Rightarrow> (string \<Rightarrow> 'f file_result) \<Rightarrow> 'f cfgSources \<Rightarrow> 'f Config \<Rightarrow> ('f tree \<times> string option) \<times> 'f Config" where
  "loadConfigFile E read s c =
     (let name = (case map_of (cfgMap c) CfgConfigFile of None \<Rightarrow> []
            | Some it \<Rightarrow> (case lookup s CfgConfigFile it of Some (v, _) \<Rightarrow> as_str E v | None \<Rightarrow> as_str E (cfg_value it)))
      in if name = [] then (([], None), c)
         else ((case read name of NotExist \<Rightarrow> ([], None) | ReadError e \<Rightarrow> ([], Some e) | Tree t \<Rightarrow> (flattenConfig [] t [], None)),
               c\<lparr>configFileCfg := Some name\<rparr>))"

text \<open>The staging area of \<open>NewConfig\<close> before it reads the sources: the options applied, their values the base a reload falls back to.\<close>

definition with_base :: "'f cfg_env \<Rightarrow> (string \<times> 'f cfgMapItem) list \<Rightarrow> 'f cfgOption list \<Rightarrow> 'f Config" where
  "with_base E base opts =
     (let c = fold (apply_option E) opts (defaultConfig E base);
          c = (if opts \<noteq> [] then c\<lparr>cfgMap := normalizeCfgValues E
                (keyed (\<lambda>k it. if source it = cfgSrcAPI then it\<lparr>source := cfgSrcDefault\<rparr> else it) (cfgMap c))\<rparr> else c)
      in c\<lparr>cfgMap := keyed (\<lambda>k it. it\<lparr>baseValue := cfg_value it\<rparr>) (cfgMap c)\<rparr>)"

definition NewConfig ::
  "'f cfg_env \<Rightarrow> (string \<times> 'f cfgMapItem) list \<Rightarrow> 'f cfgOption list \<Rightarrow> string list \<Rightarrow> (string \<Rightarrow> string option)
     \<Rightarrow> (string \<Rightarrow> 'f file_result) \<Rightarrow> bool \<Rightarrow> string option \<times> 'f Config" where
  "NewConfig E base opts args env read isContainerEnv =
     (let c = with_base E base opts;
          s = \<lparr>cmd = parseCmdArgs (map snd (cfgMap c)) args [], environ = Some env, cfg_file = None, cfg_profile = None\<rparr>;
          ((f, err), c) = loadConfigFile E read s c;
          s = s\<lparr>cfg_file := Some f\<rparr>;
          s = s\<lparr>cfg_profile := loadProfile E s c\<rparr>;
          c = restage E s True c;
          c = (if containerCheck c then stage CfgIsContainerEnv (VBool isContainerEnv) c else c)
      in (err, publish E c))"

section \<open>Identity\<close>

definition setResolvedIdentity :: "objectName \<Rightarrow> 'f Config \<Rightarrow> 'f Config" where
  "setResolvedIdentity o1 c =
     stage CfgApiKey (VStr (apiKey o1)) (stage CfgServiceName (VStr (serviceName o1))
       (stage CfgAgentName (VStr (agentName o1)) (stage CfgAppName (VStr (applicationName o1)) c)))"

definition checkNameAndID :: "'f cfg_env \<Rightarrow> string \<Rightarrow> uuid option \<Rightarrow> 'f Config \<Rightarrow> identity_error option + 'f Config" where
  "checkNameAndID E generated drawn c =
     (case resolveObjectName (config_String E c) generated drawn of
        Inl e \<Rightarrow> Inl e
      | Inr o1 \<Rightarrow> Inr (publish E (setResolvedIdentity o1 (c\<lparr>objName := Some o1\<rparr>))))"

section \<open>Reloads\<close>

definition AddReloadCallback :: "string list \<Rightarrow> nat \<Rightarrow> 'f Config \<Rightarrow> 'f Config" where
  "AddReloadCallback names cb c = (if static c then c else c\<lparr>callback := callback c @ [(names, cb)]\<rparr>)"

text \<open>The callbacks a reload runs, in order: those with an option among the changed ones.\<close>

definition callbacks_run :: "(string list \<times> nat) list \<Rightarrow> string list \<Rightarrow> nat list" where
  "callbacks_run cbs changed = map snd (filter (\<lambda>(names, _). list_ex (\<lambda>k. k \<in> set changed) names) cbs)"

definition reloadConfig :: "'f cfg_env \<Rightarrow> 'f file_result \<Rightarrow> 'f Config \<Rightarrow> nat list \<times> 'f Config" where
  "reloadConfig E r c =
     (case r of
        Tree t \<Rightarrow>
          let s = \<lparr>cmd = [], environ = None, cfg_file = Some (flattenConfig [] t []), cfg_profile = None\<rparr>;
              s = s\<lparr>cfg_profile := loadProfile E s c\<rparr>;
              before = load_values c;
              c = publish E (restage E s False c);
              changed = map fst (filter (\<lambda>(k, v). map_of before k \<noteq> Some v) (load_values c))
          in (callbacks_run (callback c) changed, c)
      | _ \<Rightarrow> ([], c))"

datatype ConfigReloadStatus =
    ConfigReloadApplied | ConfigReloadNoAgent | ConfigReloadConfigFileActive | ConfigReloadInvalidYAML | ConfigReloadInvalidConfig
  | ConfigReloadError

definition checkValueTypes :: "'f cfg_env \<Rightarrow> 'f cfgSources \<Rightarrow> 'f Config \<Rightarrow> string list" where
  "checkValueTypes E s c =
     map fst (filter (\<lambda>(k, it). case lookup s k it of None \<Rightarrow> False | Some (v, _) \<Rightarrow> convertCfgValue E (valueType it) v = None)
       (cfgMap c))"

definition reloadCandidate :: "'f Config \<Rightarrow> 'f Config" where
  "reloadCandidate c =
     \<lparr>cfgMap = cfgMap c, callback = [], snapshot = snapshot c, static = False, configFileCfg = None, containerCheck = False,
      objName = None, built = built c\<rparr>"

definition reload_item :: "(string \<times> 'f cfgMapItem) list \<Rightarrow> string \<Rightarrow> 'f cfgMapItem \<Rightarrow> 'f cfgMapItem" where
  "reload_item cand k it = (case map_of cand k of
       Some c \<Rightarrow> if dynamic it \<or> k = CfgActiveProfile then it\<lparr>cfg_value := cfg_value c, source := source c\<rparr> else it
     | None \<Rightarrow> it)"

definition differs :: "(string \<times> 'f cfgMapItem) list \<Rightarrow> string \<times> 'f cfgMapItem \<Rightarrow> bool" where
  "differs cand = (\<lambda>(k, it). case map_of cand k of Some c \<Rightarrow> cfg_value it \<noteq> cfg_value c | None \<Rightarrow> True)"

text \<open>The YAML as its sources: nothing of the command line and the environment is read again.\<close>

definition yaml_sources :: "'f cfg_env \<Rightarrow> 'f tree \<Rightarrow> 'f Config \<Rightarrow> 'f cfgSources" where
  "yaml_sources E t c =
     (let s = \<lparr>cmd = [], environ = None, cfg_file = Some (flattenConfig [] t []), cfg_profile = None\<rparr>
      in s\<lparr>cfg_profile := loadProfile E s c\<rparr>)"

definition yaml_candidate :: "'f cfg_env \<Rightarrow> 'f tree \<Rightarrow> 'f Config \<Rightarrow> 'f Config" where
  "yaml_candidate E t c = publish E (restage E (yaml_sources E t c) True (reloadCandidate c))"

text \<open>\<open>t\<close>: the tree of the YAML, \<open>None\<close> for one that does not parse or is not a mapping.\<close>

definition stageYAML ::
  "'f cfg_env \<Rightarrow> string \<Rightarrow> uuid option \<Rightarrow> 'f tree option \<Rightarrow> 'f Config \<Rightarrow> (ConfigReloadStatus \<times> string list \<times> string list) \<times> 'f Config" where
  "stageYAML E generated drawn t c =
     (if configFileCfg c \<noteq> None then ((ConfigReloadConfigFileActive, [], []), c)
      else case t of None \<Rightarrow> ((ConfigReloadInvalidYAML, [], []), c)
      | Some tree \<Rightarrow>
          if checkValueTypes E (yaml_sources E tree c) c \<noteq> [] then ((ConfigReloadInvalidConfig, [], []), c)
          else let cand = yaml_candidate E tree c
               in case resolveObjectNameKeeping (config_String E cand) generated drawn (objName c) of
                    Inl _ \<Rightarrow> ((ConfigReloadInvalidConfig, [], []), c)
                  | Inr o1 \<Rightarrow>
                      let items = cfgMap (setResolvedIdentity o1 cand);
                          reloadable = \<lambda>(k, it). dynamic it \<or> k = CfgActiveProfile;
                          changed = map fst (filter (\<lambda>x. reloadable x \<and> differs items x) (cfgMap c));
                          restart = map fst (filter (\<lambda>x. \<not> reloadable x \<and> differs items x) (cfgMap c))
                      in ((ConfigReloadApplied, restart, changed),
                          publishFrom E (snapshot cand) (c\<lparr>cfgMap := keyed (reload_item items) (cfgMap c), built := built cand\<rparr>)))"

text \<open>\<open>ReloadConfig\<close> on the running agent, with the callbacks it runs; \<open>None\<close>: no agent is running.\<close>

definition ReloadConfig ::
  "'f cfg_env \<Rightarrow> string \<Rightarrow> uuid option \<Rightarrow> 'f tree option \<Rightarrow> 'f Config option
     \<Rightarrow> (ConfigReloadStatus \<times> string list) \<times> nat list \<times> 'f Config option" where
  "ReloadConfig E generated drawn t agent =
     (case agent of None \<Rightarrow> ((ConfigReloadNoAgent, []), [], None)
      | Some c \<Rightarrow> (case stageYAML E generated drawn t c of
            ((st, restart, changed), c') \<Rightarrow>
              ((st, restart), if st = ConfigReloadApplied then callbacks_run (callback c') changed else [], Some c')))"

section \<open>Operations as maps over the options\<close>

lemma keyed_simps [simp]:
  "map fst (keyed f cm) = map fst cm" "keyed f (keyed g cm) = keyed (\<lambda>k it. f k (g k it)) cm"
  "fst ` set (keyed f cm) = fst ` set cm" "map_of (keyed f cm) k = map_option (f k) (map_of cm k)"
proof -
  show "map fst (keyed f cm) = map fst cm" "keyed f (keyed g cm) = keyed (\<lambda>k it. f k (g k it)) cm"
    "fst ` set (keyed f cm) = fst ` set cm"
    by (auto simp: keyed_def split_def image_image)
  show "map_of (keyed f cm) k = map_option (f k) (map_of cm k)" by (induction cm) (auto simp: keyed_def)
qed

lemma keyed_cong: "(\<And>k it. (k, it) \<in> set cm \<Longrightarrow> f k it = g k it) \<Longrightarrow> keyed f cm = keyed g cm"
  by (auto simp: keyed_def)

lemma in_keyed: "(k, x) \<in> set (keyed f cm) \<longleftrightarrow> (\<exists>it. (k, it) \<in> set cm \<and> x = f k it)"
  by (auto simp: keyed_def)

lemma keyed_same: "(\<And>k it. (k, it) \<in> set cm \<Longrightarrow> f k it = it) \<Longrightarrow> keyed f cm = cm"
  by (auto simp: keyed_def intro!: map_idI)

definition set_item :: "string \<Rightarrow> 'f cfgValue \<Rightarrow> string \<Rightarrow> 'f cfgMapItem \<Rightarrow> 'f cfgMapItem" where
  "set_item name v k it = (if k = name then it\<lparr>cfg_value := v\<rparr> else it)"

definition identity_item :: "objectName \<Rightarrow> string \<Rightarrow> 'f cfgMapItem \<Rightarrow> 'f cfgMapItem" where
  "identity_item o1 k it =
     set_item CfgApiKey (VStr (apiKey o1)) k (set_item CfgServiceName (VStr (serviceName o1)) k
       (set_item CfgAgentName (VStr (agentName o1)) k (set_item CfgAppName (VStr (applicationName o1)) k it)))"

lemma cfgMap_keyed:
  "cfgMap (stage k v c) = keyed (set_item k v) (cfgMap c)" "normalize E l cm = keyed (norm_item E l) cm"
  "cfgMap (restage E s a c) = keyed (restage_item E s a) (cfgMap c)"
  "cfgMap (publishFrom E prev c) = keyed (norm_item E (map_of (load_values c) CfgLogLevel)) (cfgMap c)"
  "cfgMap (publish E c) = keyed (norm_item E (map_of (load_values c) CfgLogLevel)) (cfgMap c)"
  "cfgMap (setResolvedIdentity o1 c) = keyed (identity_item o1) (cfgMap c)"
  by (simp_all add: stage_def on_key_def keyed_def set_item_def normalize_items restage_def publishFrom_def publish_def Let_def
      setResolvedIdentity_def identity_item_def comp_def split_def cong: if_cong)

lemma publish_fields [simp]:
  "objName (publishFrom E prev c) = objName c" "configFileCfg (publishFrom E prev c) = configFileCfg c"
  "callback (publishFrom E prev c) = callback c"
  by (simp_all add: publishFrom_def Let_def)

lemma load_published:
  "load_values (publishFrom E prev c) = publish_values E (as_int E (staged c CfgSQLMaxBindValueSize)) (cfgMap (publishFrom E prev c))"
  by (simp add: publishFrom_def load_values_def make_snapshot_def Let_def)

lemma publish_values_keyed:
  "publish_values E m cm = keyed (\<lambda>k it. if m < 0 \<and> k = CfgSQLMaxBindValueSize then VInt 0
     else if m < 0 \<and> k = CfgSQLTraceBindValue then VBool False else cfg_value it) cm"
  by (simp add: publish_values_def keyed_def)

text \<open>The published values depend on the normalized staging area alone.\<close>

lemma published_values:
  "load_values (publishFrom E prev c) =
     publish_values E (as_int E (staged (publishFrom E prev c) CfgSQLMaxBindValueSize)) (cfgMap (publishFrom E prev c))"
proof -
  let ?n = "norm_item E (map_of (load_values c) CfgLogLevel)"
  have "as_int E (staged (publishFrom E prev c) CfgSQLMaxBindValueSize) < 0 \<longleftrightarrow> as_int E (staged c CfgSQLMaxBindValueSize) < 0"
    by (auto simp: staged_def cfgMap_keyed norm_maxBind_negative split: option.splits)
  then show ?thesis unfolding load_published publish_values_def by (simp only:)
qed

lemma load_kept [simp]:
  "load_values (restage E s a c) = load_values c" "load_values (stage k v c) = load_values c"
  "load_values (setResolvedIdentity o1 c) = load_values c" "load_values (reloadCandidate c) = load_values c"
  by (simp_all add: restage_def stage_def load_values_def setResolvedIdentity_def reloadCandidate_def)

lemma candidate_map:
  "cfgMap (yaml_candidate E t c) =
     keyed (norm_item E (map_of (load_values c) CfgLogLevel)) (keyed (restage_item E (yaml_sources E t c) True) (cfgMap c))"
proof -
  have "cfgMap (reloadCandidate c) = cfgMap c" by (simp add: reloadCandidate_def)
  then show ?thesis unfolding yaml_candidate_def cfgMap_keyed load_kept by simp
qed

section \<open>Published options are in range\<close>

definition well_registered :: "'f Config \<Rightarrow> bool" where
  "well_registered c \<longleftrightarrow> (\<forall>(k, it) \<in> set (cfgMap c). registry_item k it)"

definition ranges_ok :: "'f cfg_env \<Rightarrow> 'f Config \<Rightarrow> bool" where
  "ranges_ok E c \<longleftrightarrow> (\<forall>(k, lo, hi) \<in> set option_ranges. k \<in> fst ` set (cfgMap c) \<longrightarrow> within lo hi (config_Int E c k))"

lemma well_registered_item: "well_registered c \<Longrightarrow> map_of (cfgMap c) k = Some it \<Longrightarrow> registry_item k it"
  by (auto simp: well_registered_def dest: map_of_SomeD)

lemma published_ranges:
  assumes "well_registered c"
  shows "ranges_ok E (publishFrom E prev c)"
  unfolding ranges_ok_def
proof (safe del: imageE)
  fix k lo hi
  assume rng: "(k, lo, hi) \<in> set option_ranges" and k: "k \<in> fst ` set (cfgMap (publishFrom E prev c))"
  then have "k \<in> fst ` set (cfgMap c)" by (simp add: cfgMap_keyed)
  then obtain it where it: "map_of (cfgMap c) k = Some it" by (cases "map_of (cfgMap c) k") (auto simp: map_of_eq_None_iff)
  let ?it = "norm_item E (map_of (load_values c) CfgLogLevel) k it"
  have "map_of (cfgMap (publishFrom E prev c)) k = Some ?it" using it by (simp add: cfgMap_keyed)
  then have v: "config_Int E (publishFrom E prev c) k =
      (if as_int E (staged c CfgSQLMaxBindValueSize) < 0 \<and> k = CfgSQLMaxBindValueSize then 0 else as_int E (cfg_value ?it))"
    using range_keys [OF rng] by (simp add: config_Int_def value_of_def load_published publish_values_keyed)
  show "within lo hi (config_Int E (publishFrom E prev c) k)"
  proof (cases "as_int E (staged c CfgSQLMaxBindValueSize) < 0 \<and> k = CfgSQLMaxBindValueSize")
    case True
    then show ?thesis using v rng by (simp add: option_ranges_def option_keys within_def limit_defs)
  next
    case False
    then have "k = CfgSQLMaxBindValueSize \<Longrightarrow> 0 \<le> as_int E (cfg_value it)" using it by (auto simp: staged_def)
    then show ?thesis using v False norm_in_range [OF rng well_registered_item [OF assms it]] by auto
  qed
qed

lemma registered_keyed:
  assumes "\<And>k it. defaultValue (f k it) = defaultValue it \<and> valueType (f k it) = valueType it \<and> dynamic (f k it) = dynamic it"
  shows "(\<forall>(k, it) \<in> set (keyed f cm). registry_item k it) \<longleftrightarrow> (\<forall>(k, it) \<in> set cm. registry_item k it)"
proof -
  have "registry_item k (f k it) = registry_item k it" for k it by (rule registry_item_cong) (use assms in auto)
  then show ?thesis by (force simp: keyed_def)
qed

lemma restage_item_sel [simp]:
  "defaultValue (restage_item E s a k it) = defaultValue it" "valueType (restage_item E s a k it) = valueType it"
  "dynamic (restage_item E s a k it) = dynamic it" "baseValue (restage_item E s a k it) = baseValue it"
  by (auto simp: restage_item_def setFinalValue_def split: option.splits)

lemma identity_item_sel [simp]:
  "defaultValue (identity_item o1 k it) = defaultValue it" "valueType (identity_item o1 k it) = valueType it"
  "dynamic (identity_item o1 k it) = dynamic it" "baseValue (identity_item o1 k it) = baseValue it"
  "source (identity_item o1 k it) = source it"
  by (simp_all add: identity_item_def set_item_def)

lemma registered_operations [simp]:
  "well_registered (stage k v c) = well_registered c" "well_registered (publishFrom E prev c) = well_registered c"
  "well_registered (publish E c) = well_registered c" "well_registered (restage E s a c) = well_registered c"
  "well_registered (setResolvedIdentity o1 c) = well_registered c"
  unfolding well_registered_def cfgMap_keyed by (intro registered_keyed; simp add: set_item_def)+

section \<open>Runs of a configuration\<close>

datatype 'f cfg_op =
    OpSet string "'f cfgValue"
  | OpIdentity string "uuid option"
  | OpReloadFile "'f file_result"
  | OpReloadYAML string "uuid option" "'f tree option"

fun cfg_do :: "'f cfg_env \<Rightarrow> 'f cfg_op \<Rightarrow> 'f Config \<Rightarrow> 'f Config" where
  "cfg_do E (OpSet k v) c = config_Set E k v c"
| "cfg_do E (OpIdentity generated drawn) c = (case checkNameAndID E generated drawn c of Inl _ \<Rightarrow> c | Inr c' \<Rightarrow> c')"
| "cfg_do E (OpReloadFile r) c = snd (reloadConfig E r c)"
| "cfg_do E (OpReloadYAML generated drawn t) c = snd (stageYAML E generated drawn t c)"

definition set_final :: "'f cfg_env \<Rightarrow> string \<Rightarrow> 'f cfgValue \<Rightarrow> string \<Rightarrow> 'f cfgMapItem \<Rightarrow> 'f cfgMapItem" where
  "set_final E name v k it = (if k = name then snd (setFinalValue E v cfgSrcAPI it) else it)"

lemma set_final_sel [simp]:
  "defaultValue (set_final E n v k it) = defaultValue it" "valueType (set_final E n v k it) = valueType it"
  "dynamic (set_final E n v k it) = dynamic it" "baseValue (set_final E n v k it) = baseValue it"
  by (auto simp: set_final_def setFinalValue_def split: option.splits)

lemma config_Set_cases:
  obtains "config_Set E n v c = c"
  | c1 where "config_Set E n v c = publish E c1" "cfgMap c1 = keyed (set_final E n v) (cfgMap c)" "snapshot c1 = snapshot c"
proof (cases "config_Set E n v c = c")
  case False
  define c1 where "c1 = c\<lparr>cfgMap := on_key n (\<lambda>it. snd (setFinalValue E v cfgSrcAPI it)) (cfgMap c),
     containerCheck := (if n = CfgIsContainerEnv then False else containerCheck c)\<rparr>"
  have "config_Set E n v c = publish E c1"
    using False unfolding config_Set_def c1_def [symmetric] by (auto split: option.splits if_splits)
  moreover have "cfgMap c1 = keyed (set_final E n v) (cfgMap c)" "snapshot c1 = snapshot c"
    by (simp_all add: c1_def keyed_def on_key_def set_final_def)
  ultimately show thesis by (rule that(2))
qed (rule that(1))

lemma reload_item_sel [simp]:
  "defaultValue (reload_item cand k it) = defaultValue it" "valueType (reload_item cand k it) = valueType it"
  "dynamic (reload_item cand k it) = dynamic it" "baseValue (reload_item cand k it) = baseValue it"
  by (auto simp: reload_item_def split: option.splits)

lemma stageYAML_cases:
  obtains "snd (stageYAML E g d t c) = c" "fst (fst (stageYAML E g d t c)) \<noteq> ConfigReloadApplied"
  | tree o1 where "t = Some tree" "configFileCfg c = None" "checkValueTypes E (yaml_sources E tree c) c = []"
      "resolveObjectNameKeeping (config_String E (yaml_candidate E tree c)) g d (objName c) = Inr o1"
      "fst (fst (stageYAML E g d t c)) = ConfigReloadApplied"
      "snd (stageYAML E g d t c) = publishFrom E (snapshot (yaml_candidate E tree c))
         (c\<lparr>cfgMap := keyed (reload_item (keyed (identity_item o1) (cfgMap (yaml_candidate E tree c)))) (cfgMap c),
            built := built (yaml_candidate E tree c)\<rparr>)"
proof (cases "fst (fst (stageYAML E g d t c)) = ConfigReloadApplied")
  case False
  then have "snd (stageYAML E g d t c) = c"
    by (auto simp: stageYAML_def Let_def split: if_splits option.splits sum.splits)
  with False show thesis using that(1) by blast
next
  case True
  then show thesis
    using that(2) by (auto simp: stageYAML_def Let_def cfgMap_keyed split: if_splits option.splits sum.splits)
qed

definition in_range_inv :: "'f cfg_env \<Rightarrow> string list \<Rightarrow> 'f Config \<Rightarrow> bool" where
  "in_range_inv E ks c \<longleftrightarrow> well_registered c \<and> map fst (cfgMap c) = ks \<and> ranges_ok E c"

lemma publish_inv:
  "well_registered c \<Longrightarrow> map fst (cfgMap c) = ks \<Longrightarrow> in_range_inv E ks (publishFrom E prev c)"
  "well_registered c \<Longrightarrow> map fst (cfgMap c) = ks \<Longrightarrow> in_range_inv E ks (publish E c)"
  using published_ranges [of c E] by (simp_all add: in_range_inv_def publish_def cfgMap_keyed)

lemma cfg_do_in_range:
  assumes inv: "in_range_inv E ks c"
  shows "in_range_inv E ks (cfg_do E op c)"
proof (cases op)
  case (OpSet k v)
  show ?thesis
  proof (cases rule: config_Set_cases [of E k v c])
    case (2 c1)
    have "well_registered c1" "map fst (cfgMap c1) = ks"
      using inv registered_keyed [of "set_final E k v" "cfgMap c"] by (simp_all add: in_range_inv_def well_registered_def 2(2))
    then show ?thesis using OpSet 2(1) publish_inv(2) by simp
  qed (use inv OpSet in simp)
next
  case (OpIdentity g d)
  have "well_registered (c\<lparr>objName := x\<rparr>)" for x using inv by (simp add: in_range_inv_def well_registered_def)
  then show ?thesis
    using inv OpIdentity
    by (auto simp: checkNameAndID_def cfgMap_keyed in_range_inv_def publish_def published_ranges split: sum.splits)
next
  case (OpReloadFile r)
  then show ?thesis
    using inv by (cases r) (auto simp: reloadConfig_def Let_def in_range_inv_def cfgMap_keyed publish_def published_ranges)
next
  case (OpReloadYAML g d t)
  show ?thesis
  proof (cases rule: stageYAML_cases [of E g d t c])
    case (2 tree o1)
    have "well_registered (c\<lparr>cfgMap := keyed (reload_item items) (cfgMap c), built := n\<rparr>)" for items n
      using inv registered_keyed [of "reload_item items" "cfgMap c"] by (simp add: in_range_inv_def well_registered_def)
    then have "in_range_inv E ks (snd (stageYAML E g d t c))"
      unfolding 2(6) by (rule publish_inv(1)) (use inv in \<open>simp add: in_range_inv_def\<close>)
    then show ?thesis using OpReloadYAML by simp
  qed (use inv OpReloadYAML in simp)
qed

lemma cfg_run_in_range: "in_range_inv E ks c \<Longrightarrow> in_range_inv E ks (fold (cfg_do E) ops c)"
  by (induction ops arbitrary: c) (simp_all add: cfg_do_in_range)

text \<open>The keys and what the options were registered with, through the build-up of a configuration.\<close>

definition shaped :: "string list \<Rightarrow> 'f Config \<Rightarrow> bool" where
  "shaped ks c \<longleftrightarrow> well_registered c \<and> map fst (cfgMap c) = ks"

lemma shaped_keyed:
  assumes "shaped ks c" "cfgMap c' = keyed f (cfgMap c)"
    "\<And>k it. defaultValue (f k it) = defaultValue it \<and> valueType (f k it) = valueType it \<and> dynamic (f k it) = dynamic it"
  shows "shaped ks c'"
  using assms registered_keyed [of f "cfgMap c"] by (simp add: shaped_def well_registered_def)

lemma shaped_option: "shaped ks c \<Longrightarrow> shaped ks (apply_option E op c)"
proof (cases op)
  case (WithSet k v)
  assume c: "shaped ks c"
  show ?thesis
  proof (cases rule: config_Set_cases [of E k v c])
    case (2 c1)
    have "shaped ks c1" by (rule shaped_keyed [OF c 2(2)]) simp
    then show ?thesis using WithSet 2(1) by (simp add: shaped_def cfgMap_keyed)
  qed (use c WithSet in simp)
qed (simp_all add: shaped_def cfgMap_keyed well_registered_def, auto simp: registered_keyed set_item_def)

lemma typed_item_sel [simp]:
  "defaultValue (typed_item E it) = defaultValue it" "valueType (typed_item E it) = valueType it" "dynamic (typed_item E it) = dynamic it"
  by (simp_all add: typed_item_def)

lemma shaped_fold: "shaped ks c \<Longrightarrow> shaped ks (fold (apply_option E) opts c)"
  by (induction opts arbitrary: c) (simp_all add: shaped_option)

lemma shaped_default:
  assumes "\<forall>(k, it) \<in> set base. registry_item k it"
  shows "shaped (map fst base) (defaultConfig E base)"
  using assms registered_keyed [of "\<lambda>_. typed_item E" base]
  by (simp add: defaultConfig_def shaped_def cfgMap_keyed well_registered_def registered_keyed normalizeCfgValues_def)

lemma shaped_base:
  assumes "\<forall>(k, it) \<in> set base. registry_item k it"
  shows "shaped (map fst base) (with_base E base opts)"
proof -
  let ?c = "fold (apply_option E) opts (defaultConfig E base)"
  let ?f = "\<lambda>k it. if opts \<noteq> [] then typed_item E (if source it = cfgSrcAPI then it\<lparr>source := cfgSrcDefault\<rparr> else it) else it"
  have "cfgMap (with_base E base opts) = keyed (\<lambda>k it. (?f k it)\<lparr>baseValue := cfg_value (?f k it)\<rparr>) (cfgMap ?c)"
    by (simp add: with_base_def normalizeCfgValues_def Let_def)
  from shaped_keyed [OF shaped_fold [OF shaped_default [OF assms]] this] show ?thesis by simp
qed

lemma NewConfig_published:
  fixes E :: "'a cfg_env"
  obtains c s where "snd (NewConfig E base opts args env read b) = publish E (if containerCheck (restage E s True c)
      then stage CfgIsContainerEnv (VBool b) (restage E s True c) else restage E s True c)"
    "cfgMap c = cfgMap (with_base E base opts)" "snapshot c = snapshot (with_base E base opts)"
proof -
  define s :: "'a cfgSources" where "s = \<lparr>cmd = parseCmdArgs (map snd (cfgMap (with_base E base opts))) args [], environ = Some env,
    cfg_file = None, cfg_profile = None\<rparr>"
  obtain f err c where l: "loadConfigFile E read s (with_base E base opts) = ((f, err), c)" by (metis surj_pair)
  then have "cfgMap c = cfgMap (with_base E base opts)" "snapshot c = snapshot (with_base E base opts)"
    by (auto simp: loadConfigFile_def Let_def split: if_splits)
  moreover have "snd (NewConfig E base opts args env read b) =
    (let s = s\<lparr>cfg_file := Some f\<rparr>; s = s\<lparr>cfg_profile := loadProfile E s c\<rparr>; c = restage E s True c
     in publish E (if containerCheck c then stage CfgIsContainerEnv (VBool b) c else c))"
    by (simp add: NewConfig_def Let_def l [unfolded s_def] s_def)
  ultimately show thesis using that unfolding Let_def by blast
qed

text \<open>
  (C31) Whatever the options, the command line, the environment and the config file say, and whatever is set or reloaded later,
  an integer option that a publish checks never reads outside its limits (\<open>option_ranges\<close>, one-sided ones included; a negative
  \<open>SQL.MaxBindValueSize\<close> reads as 0): the queues, batches and intervals are never built from a size that would panic or exhaust
  memory. The sampling rates are not among them, \<open>Sampling.PercentRate\<close> (documented as 0 to 100) included: no publish checks them.
\<close>

theorem options_always_in_range:
  assumes "\<forall>(k, it) \<in> set base. registry_item k it" "(k, lo, hi) \<in> set option_ranges" "k \<in> fst ` set base"
  shows "let c = fold (cfg_do E) ops (snd (NewConfig E base opts args env read b)) in within lo hi (config_Int E c k)"
proof -
  obtain c s where c: "snd (NewConfig E base opts args env read b) = publish E (if containerCheck (restage E s True c)
      then stage CfgIsContainerEnv (VBool b) (restage E s True c) else restage E s True c)"
    and cm: "cfgMap c = cfgMap (with_base E base opts)"
    by (rule NewConfig_published)
  have "shaped (map fst base) c" using shaped_base [OF assms(1)] cm by (simp add: shaped_def well_registered_def)
  then have "in_range_inv E (map fst base) (snd (NewConfig E base opts args env read b))"
    unfolding c by (intro publish_inv(2)) (auto simp: shaped_def cfgMap_keyed)
  from cfg_run_in_range [OF this, of ops]
  have run: "ranges_ok E (fold (cfg_do E) ops (snd (NewConfig E base opts args env read b)))"
    "map fst (cfgMap (fold (cfg_do E) ops (snd (NewConfig E base opts args env read b)))) = map fst base"
    by (simp_all add: in_range_inv_def)
  from arg_cong [OF run(2), of set] assms(3)
  have "k \<in> fst ` set (cfgMap (fold (cfg_do E) ops (snd (NewConfig E base opts args env read b))))" by simp
  with run(1) assms(2) show ?thesis unfolding ranges_ok_def Let_def by blast
qed

lemma initConfig_registered: "\<forall>(k, it) \<in> set initConfig. registry_item k it"
proof -
  have "registry_item k (snd (AddConfig k ty d dyn))" if "(k, ty, d, dyn) \<in> set registry" for k ty d dyn
    using map_of_is_SomeI [OF registry_distinct that] by (simp add: registry_item_def AddConfig_def)
  then show ?thesis by (auto simp: initConfig_def AddConfig_def)
qed

lemma initConfig_keys:
  "fst ` set (initConfig :: (string \<times> 'f cfgMapItem) list) = fst ` set (registry :: (string \<times> cfgType \<times> 'f cfgValue \<times> bool) list)"
  by (auto simp: initConfig_def AddConfig_def image_image split_def)

definition plain_env :: "unit cfg_env" where
  "plain_env = \<lparr>ParseFloat = (\<lambda>_. None), FormatFloat = (\<lambda>_. []), isFinite = (\<lambda>_. True),
     levelOk = (\<lambda>s. s \<in> {''trace'', ''debug'', ''info'', ''warn'', ''warning'', ''error''})\<rparr>"

theorem options_always_in_range_witness:
  "1 \<le> config_Int plain_env (config_Set plain_env CfgSpanQueueSize (VInt 0)
        (snd (NewConfig plain_env initConfig [] [] (\<lambda>_. None) (\<lambda>_. NotExist) False))) CfgSpanQueueSize"
proof -
  have r: "(CfgSpanQueueSize, Some 1, Some maxQueueSize) \<in> set option_ranges" by (simp add: option_ranges_def)
  have k: "CfgSpanQueueSize \<in> fst ` set (initConfig :: (string \<times> unit cfgMapItem) list)"
    unfolding initConfig_keys by (rule rev_image_eqI [of "(CfgSpanQueueSize, CfgInt, VInt 1024, False)"]) (simp_all add: registry_def)
  show ?thesis
    using options_always_in_range [OF initConfig_registered r k, where E = plain_env and ops = "[OpSet CfgSpanQueueSize (VInt 0)]"
      and opts = "[]" and args = "[]" and env = "\<lambda>_. None" and read = "\<lambda>_. NotExist" and b = False]
    by (simp add: Let_def within_def)
qed

end
