(* ===== verification/Config_Reload.thy ===== *)
theory Config_Reload
  imports Config
begin

text \<open>
  What a reload promises (\<^verbatim>\<open>src/config_reload.go\<close>, the comment of \<^verbatim>\<open>ReloadConfig\<close>): the YAML is the whole configuration, so that its
  result depends on the last YAML and not on the reloads before it. The one exception is an unknown \<^verbatim>\<open>Log.Level\<close>.
\<close>

section \<open>A reload depends on the last YAML alone\<close>

abbreviation reloadable :: "string \<Rightarrow> 'f cfgMapItem \<Rightarrow> bool" where
  "reloadable k it \<equiv> dynamic it \<or> k = CfgActiveProfile"

text \<open>
  An option no source has set since the start still has its base value, up to normalization. The log level is apart: the
  value that replaces an unknown level is the one published before.
\<close>

definition base_item :: "'f cfg_env \<Rightarrow> string \<Rightarrow> 'f cfgMapItem \<Rightarrow> bool" where
  "base_item E k it \<longleftrightarrow> (reloadable k it \<and> source it = cfgSrcDefault \<longrightarrow>
     (if k = CfgLogLevel then levelOk E (as_str E (baseValue it)) \<longrightarrow> cfg_value it = baseValue it
      else norm_item E None k it = norm_item E None k (it\<lparr>cfg_value := baseValue it\<rparr>)))"

text \<open>Another pass of the rules would leave the option as it is.\<close>

definition settled :: "'f cfg_env \<Rightarrow> string \<Rightarrow> 'f cfgMapItem \<Rightarrow> bool" where
  "settled E k it \<longleftrightarrow> (if k = CfgLogLevel then levelOk E (as_str E (cfg_value it)) else norm_item E None k it = it)"

definition level_ok :: "'f cfg_env \<Rightarrow> 'f Config \<Rightarrow> bool" where
  "level_ok E c \<longleftrightarrow> levelOk E ''info'' \<and> (\<forall>v. map_of (load_values c) CfgLogLevel = Some v \<longrightarrow> levelOk E (as_str E v))"

definition base_inv :: "'f cfg_env \<Rightarrow> 'f Config \<Rightarrow> bool" where
  "base_inv E c \<longleftrightarrow> distinct (map fst (cfgMap c)) \<and> level_ok E c
     \<and> (\<forall>(k, it) \<in> set (cfgMap c). registry_item k it \<and> base_item E k it \<and> settled E k it)"

lemma settled_norm: "settled E k it \<Longrightarrow> norm_item E l k it = it"
  using norm_current [of k E l it None] norm_level [of E it l] by (auto simp: settled_def split: if_splits)

lemma registry_level:
  fixes it :: "'f cfgMapItem"
  assumes "registry_item CfgLogLevel it"
  shows "defaultValue it = VStr ''info''" "valueType it = CfgString"
proof -
  have "map_of (registry :: (string \<times> cfgType \<times> 'f cfgValue \<times> bool) list) CfgLogLevel = Some (CfgString, VStr ''info'', True)"
    by (rule map_of_is_SomeI [OF registry_distinct]) (simp add: registry_def)
  then show "defaultValue it = VStr ''info''" "valueType it = CfgString" using assms by (simp_all add: registry_item_def)
qed

lemma norm_settled:
  assumes "registry_item k it" "levelOk E ''info''" "\<forall>v. l = Some v \<longrightarrow> levelOk E (as_str E v)"
  shows "settled E k (norm_item E l k it)"
proof (cases "k = CfgLogLevel")
  case True
  then show ?thesis
    using assms registry_level [of it] by (auto simp: settled_def norm_equations logLevel_rule_def split: option.splits)
next
  case False
  then show ?thesis using norm_idem [OF assms(1), of E None] norm_current [OF False, of E l it None] by (simp add: settled_def)
qed

lemma level_after_publish:
  assumes "level_ok E c" "well_registered c" "distinct (map fst (cfgMap c))"
  shows "level_ok E (publishFrom E prev c)"
proof -
  let ?l = "map_of (load_values c) CfgLogLevel"
  have neq: "CfgLogLevel \<noteq> CfgSQLMaxBindValueSize" "CfgLogLevel \<noteq> CfgSQLTraceBindValue" by (simp_all add: option_keys)
  have "levelOk E (as_str E (cfg_value (norm_item E ?l CfgLogLevel it)))" if "map_of (cfgMap c) CfgLogLevel = Some it" for it
    using norm_settled [OF well_registered_item [OF assms(2) that]] assms(1) by (simp add: level_ok_def settled_def)
  then show ?thesis
    using assms(1) neq by (auto simp: level_ok_def load_published publish_values_keyed cfgMap_keyed)
qed

text \<open>What restaging makes of an option, in the terms of what it was registered with.\<close>

definition restaged :: "'f cfg_env \<Rightarrow> 'f cfgSources \<Rightarrow> string \<Rightarrow> 'f cfgMapItem \<Rightarrow> 'f cfgMapItem" where
  "restaged E s k it =
     (if source it > cfgSrcProfile then it
      else case lookup s k it of
             Some (v, src) \<Rightarrow> (case convertCfgValue E (valueType it) v of
                 Some w \<Rightarrow> it\<lparr>cfg_value := w, source := src\<rparr> | None \<Rightarrow> it)
           | None \<Rightarrow> it\<lparr>cfg_value := baseValue it, source := cfgSrcDefault\<rparr>)"

definition level_given :: "'f cfg_env \<Rightarrow> 'f cfgSources \<Rightarrow> 'f cfgMapItem \<Rightarrow> bool" where
  "level_given E s it \<longleftrightarrow> levelOk E (as_str E (cfg_value (restaged E s CfgLogLevel it)))"

lemma norm_restage:
  assumes "base_item E k it" "reloadable k it" "registry_item k it" "k = CfgLogLevel \<longrightarrow> level_given E s it"
  shows "norm_item E l k (restage_item E s True k it) = norm_item E l k (restaged E s k it)"
proof (cases "source it = cfgSrcDefault \<and> lookup s k it = None")
  case True
  then have r: "restage_item E s True k it = it" "restaged E s k it = it\<lparr>cfg_value := baseValue it, source := cfgSrcDefault\<rparr>"
    by (simp_all add: restage_item_def restaged_def cfg_src_defs)
  have same: "it\<lparr>cfg_value := v, source := cfgSrcDefault\<rparr> = it\<lparr>cfg_value := v\<rparr>" for v using True by simp
  show ?thesis
  proof (cases "k = CfgLogLevel")
    case level: True
    then have "levelOk E (as_str E (baseValue it))" using assms(4) r by (simp add: level_given_def)
    then have "cfg_value it = baseValue it" using assms(1,2) level True by (auto simp: base_item_def)
    then have "it\<lparr>cfg_value := baseValue it\<rparr> = it" using cfgMapItem.surjective [of it] by (metis cfgMapItem.update_convs(1))
    then show ?thesis unfolding r same by simp
  next
    case False
    then show ?thesis
      using assms(1,2) True norm_current [OF False, of E l it None] norm_current [OF False, of E l "it\<lparr>cfg_value := baseValue it\<rparr>" None]
      unfolding r same by (simp add: base_item_def)
  qed
next
  case False
  then have "restage_item E s True k it = restaged E s k it"
    by (auto simp: restage_item_def restaged_def setFinalValue_def split: option.splits)
  then show ?thesis by simp
qed

text \<open>The options of two configurations of one agent, one of which has seen more reloads.\<close>

definition same_origin :: "string \<Rightarrow> 'f cfgMapItem \<Rightarrow> 'f cfgMapItem \<Rightarrow> bool" where
  "same_origin k it it' \<longleftrightarrow> defaultValue it = defaultValue it' \<and> baseValue it = baseValue it' \<and> valueType it = valueType it'
     \<and> cmdKey it = cmdKey it' \<and> envKey it = envKey it' \<and> dynamic it = dynamic it'
     \<and> (if reloadable k it \<and> source it \<le> cfgSrcProfile then source it' \<le> cfgSrcProfile else it' = it)"

lemma restaged_same:
  assumes "same_origin k it it'" "reloadable k it" "cmd s = []" "environ s = None"
    "\<forall>v src. lookup s k it = Some (v, src) \<longrightarrow> convertCfgValue E (valueType it) v \<noteq> None"
  shows "restaged E s k it' = restaged E s k it"
proof (cases "source it \<le> cfgSrcProfile")
  case True
  then have src: "source it' \<le> cfgSrcProfile" using assms(1,2) by (simp add: same_origin_def)
  have l: "lookup s k it' = lookup s k it" by (rule lookup_reload(1) [OF assms(3,4)])
  have "it\<lparr>cfg_value := v, source := x\<rparr> = it'\<lparr>cfg_value := v, source := x\<rparr>" for v x
    using assms(1) by (cases it; cases it') (simp add: same_origin_def)
  then show ?thesis using True src assms(1,5) unfolding restaged_def l by (auto simp: same_origin_def split: option.splits)
next
  case False
  then have "it' = it" using assms(1) by (simp add: same_origin_def)
  then show ?thesis by simp
qed

section \<open>The invariant of a configuration\<close>

lemma neq_default [simp]:
  "cfgSrcDefault \<le> x" "\<not> x < cfgSrcDefault" "cfgSrcDefault < cfgSrcProfile" "cfgSrcAPI \<noteq> cfgSrcDefault" "lookup s k it = Some (v, cfgSrcDefault) \<longleftrightarrow> False"
  by (auto simp: cfg_src_defs dest: lookup_source)

lemma base_norm:
  assumes "base_item E k it" "registry_item k it"
  shows "base_item E k (norm_item E l k it)"
proof (cases "k = CfgLogLevel")
  case True
  then show ?thesis using assms(1) norm_level [of E it l] by (auto simp: base_item_def)
next
  case False
  have "norm_item E None k (norm_item E l k it) = norm_item E None k it"
    using norm_idem [OF assms(2), of E None] norm_current [OF False, of E l it None] by simp
  then show ?thesis using assms(1) False by (simp add: base_item_def)
qed

lemma restage_item_cases:
  obtains "restage_item E s a k it = it"
  | v src where "restage_item E s a k it = it\<lparr>cfg_value := v, source := src\<rparr>" "src \<noteq> cfgSrcDefault"
  | "restage_item E s a k it = it\<lparr>cfg_value := baseValue it, source := cfgSrcDefault\<rparr>"
proof (cases "restage_item E s a k it = it")
  case False
  show thesis
  proof (cases "lookup s k it")
    case None
    then have "restage_item E s a k it = it\<lparr>cfg_value := baseValue it, source := cfgSrcDefault\<rparr>"
      using False unfolding restage_item_def by (auto split: if_splits)
    then show thesis by (rule that(3))
  next
    case (Some x)
    then have "snd x \<noteq> cfgSrcDefault" using lookup_source [of s k it "fst x" "snd x"] by (auto simp: cfg_src_defs)
    moreover have "\<exists>v. restage_item E s a k it = it\<lparr>cfg_value := v, source := snd x\<rparr>"
      using False Some unfolding restage_item_def setFinalValue_def by (auto split: if_splits option.splits prod.splits)
    ultimately show thesis using that(2) by blast
  qed
qed (rule that(1))

lemma update_swap: "it\<lparr>source := x, cfg_value := v\<rparr> = it\<lparr>cfg_value := v, source := x\<rparr>"
  by (cases it) simp

lemma base_restage:
  assumes "base_item E k it"
  shows "base_item E k (restage_item E s a k it)"
  using assms by (cases rule: restage_item_cases [of E s a k it]) (simp_all add: base_item_def update_swap)

lemma base_given: "source it \<noteq> cfgSrcDefault \<Longrightarrow> base_item E k it"
  by (simp add: base_item_def)

lemma base_set_final: "base_item E k it \<Longrightarrow> base_item E k (set_final E n v k it)"
  by (cases "k = n"; cases "convertCfgValue E (valueType it) v") (simp_all add: set_final_def setFinalValue_def base_given)

lemma identity_reloadable:
  fixes it x :: "'f cfgMapItem"
  assumes "registry_item k it" "reloadable k it"
  shows "identity_item o1 k x = x"
proof -
  have "k \<noteq> CfgApiKey" "k \<noteq> CfgServiceName" "k \<noteq> CfgAgentName" "k \<noteq> CfgAppName"
    using assms registry_dynamic(2-5) key_neqs(2-5) by metis+
  then show ?thesis by (simp add: identity_item_def set_item_def)
qed

lemma base_identity:
  assumes "base_item E k it" "registry_item k it"
  shows "base_item E k (identity_item o1 k it)"
proof (cases "reloadable k it")
  case True
  then show ?thesis using assms by (simp add: identity_reloadable)
qed (simp add: base_item_def)

lemma sel_registry [simp]:
  "registry_item k (restage_item E s a k it) = registry_item k it" "registry_item k (set_final E n v k it) = registry_item k it"
  "registry_item k (identity_item o1 k it) = registry_item k it" "registry_item k (norm_item E l k it) = registry_item k it"
  "registry_item k (reload_item cand k it) = registry_item k it"
  by (rule registry_item_cong; simp)+

text \<open>The invariant before it is published: any staging area of options that have their base.\<close>

definition staged_inv :: "'f cfg_env \<Rightarrow> 'f Config \<Rightarrow> bool" where
  "staged_inv E c \<longleftrightarrow> distinct (map fst (cfgMap c)) \<and> level_ok E c \<and> (\<forall>(k, it) \<in> set (cfgMap c). registry_item k it \<and> base_item E k it)"

lemma base_inv_staged: "base_inv E c \<Longrightarrow> staged_inv E c"
  by (auto simp: base_inv_def staged_inv_def)

lemma staged_published:
  assumes "staged_inv E c"
  shows "base_inv E (publishFrom E prev c)"
proof -
  have "level_ok E (publishFrom E prev c)"
    using assms by (intro level_after_publish) (auto simp: staged_inv_def well_registered_def)
  moreover have "registry_item k x \<and> base_item E k x \<and> settled E k x" if x: "(k, x) \<in> set (cfgMap (publishFrom E prev c))" for k x
  proof -
    obtain it where it: "(k, it) \<in> set (cfgMap c)" "x = norm_item E (map_of (load_values c) CfgLogLevel) k it"
      using x unfolding cfgMap_keyed in_keyed by blast
    then have "registry_item k it" "base_item E k it" using assms by (auto simp: staged_inv_def)
    then show ?thesis using it(2) assms norm_settled [of k it E] base_norm [of E k it] by (simp add: staged_inv_def level_ok_def)
  qed
  ultimately show ?thesis using assms by (auto simp: base_inv_def staged_inv_def cfgMap_keyed)
qed

lemma staged_keyed:
  assumes "staged_inv E c" "cfgMap c' = keyed f (cfgMap c)" "load_values c' = load_values c"
    "\<And>k it. registry_item k it \<Longrightarrow> base_item E k it \<Longrightarrow> registry_item k (f k it) \<and> base_item E k (f k it)"
  shows "staged_inv E c'"
  using assms by (fastforce simp: staged_inv_def level_ok_def in_keyed)

lemma staged_restage: "staged_inv E c \<Longrightarrow> staged_inv E (restage E s a c)"
  by (erule staged_keyed [OF _ cfgMap_keyed(3)]) (simp_all add: base_restage)

lemma staged_identity: "staged_inv E c \<Longrightarrow> staged_inv E (setResolvedIdentity o1 c)"
  by (erule staged_keyed [OF _ cfgMap_keyed(6)]) (simp_all add: base_identity)

text \<open>What a YAML makes of an option: a reloadable one is restaged and normalized, another is left as it is.\<close>

definition reloaded_item :: "'f cfg_env \<Rightarrow> 'f cfgValue option \<Rightarrow> 'f cfgSources \<Rightarrow> string \<Rightarrow> 'f cfgMapItem \<Rightarrow> 'f cfgMapItem" where
  "reloaded_item E l s k it = (if reloadable k it then norm_item E l k (restage_item E s True k it) else it)"

lemma reload_item_eq:
  assumes "staged_inv E c" "(k, it) \<in> set (cfgMap c)"
  shows "reload_item (keyed (identity_item o1) (keyed (norm_item E l) (keyed (restage_item E s True) (cfgMap c)))) k it =
    reloaded_item E l s k it"
proof -
  let ?x = "norm_item E l k (restage_item E s True k it)"
  have it: "map_of (cfgMap c) k = Some it" "registry_item k it"
    using assms map_of_is_SomeI [of "cfgMap c" k it] by (auto simp: staged_inv_def)
  have "\<exists>v y. restage_item E s True k it = it\<lparr>cfg_value := v, source := y\<rparr>"
    by (cases rule: restage_item_cases [of E s True k it]) (metis cfgMapItem.surjective cfgMapItem.update_convs(1,8), blast+)
  then obtain v y where r: "restage_item E s True k it = it\<lparr>cfg_value := v, source := y\<rparr>" by blast
  have "it\<lparr>cfg_value := cfg_value ?x, source := source ?x\<rparr> = ?x"
    using norm_overwrite [where E = E and current = l and k = k and it = "it\<lparr>cfg_value := v, source := y\<rparr>" and v = "cfg_value ?x"]
    unfolding r by (simp add: update_swap)
  moreover have "identity_item o1 k ?x = ?x" if "reloadable k it" using identity_reloadable [OF it(2) that] .
  ultimately show ?thesis using it(1) by (cases "reloadable k it") (simp_all add: reload_item_def reloaded_item_def)
qed

lemma base_reloaded: "registry_item k it \<Longrightarrow> base_item E k it \<Longrightarrow> base_item E k (reloaded_item E l s k it)"
  by (simp add: reloaded_item_def base_norm base_restage)

lemma reloaded_staging:
  assumes "staged_inv E c"
  shows "keyed (reload_item (keyed (identity_item o1) (cfgMap (yaml_candidate E t c)))) (cfgMap c) =
    keyed (reloaded_item E (map_of (load_values c) CfgLogLevel) (yaml_sources E t c)) (cfgMap c)"
  unfolding candidate_map by (rule keyed_cong) (rule reload_item_eq [OF assms])

lemma sel_reloaded [simp]:
  "registry_item k (reloaded_item E l s k it) = registry_item k it" "dynamic (reloaded_item E l s k it) = dynamic it"
  by (simp_all add: reloaded_item_def)

lemma base_do:
  assumes "base_inv E c"
  shows "base_inv E (cfg_do E op c)"
proof (cases op)
  case (OpSet k v)
  show ?thesis
  proof (cases rule: config_Set_cases [of E k v c])
    case (2 c1)
    have "staged_inv E c1"
      by (rule staged_keyed [OF base_inv_staged [OF assms] 2(2)]) (simp_all add: base_set_final load_values_def 2(3))
    then show ?thesis using OpSet 2(1) by (simp add: publish_def staged_published)
  qed (use assms OpSet in simp)
next
  case (OpIdentity g d)
  have "staged_inv E (setResolvedIdentity o1 (c\<lparr>objName := x\<rparr>))" for o1 x
    using base_inv_staged [OF assms] by (intro staged_identity) (simp add: staged_inv_def level_ok_def load_values_def)
  then show ?thesis
    using assms OpIdentity by (auto simp: checkNameAndID_def publish_def intro: staged_published split: sum.split)
next
  case (OpReloadFile r)
  then show ?thesis
    using assms by (cases r) (simp_all add: reloadConfig_def Let_def publish_def staged_published staged_restage base_inv_staged)
next
  case (OpReloadYAML g d t)
  show ?thesis
  proof (cases rule: stageYAML_cases [of E g d t c])
    case (2 tree o1)
    let ?items = "keyed (identity_item o1) (cfgMap (yaml_candidate E tree c))"
    have "staged_inv E (c\<lparr>cfgMap := keyed (reload_item ?items) (cfgMap c), built := n\<rparr>)" for n
      unfolding reloaded_staging [OF base_inv_staged [OF assms]]
      by (rule staged_keyed [OF base_inv_staged [OF assms],
          where f = "reloaded_item E (map_of (load_values c) CfgLogLevel) (yaml_sources E tree c)"])
        (simp_all add: base_reloaded load_values_def)
    then show ?thesis using OpReloadYAML 2(6) by (simp add: staged_published)
  qed (use assms OpReloadYAML in simp)
qed

lemma base_run: "base_inv E c \<Longrightarrow> base_inv E (fold (cfg_do E) ops c)"
  by (induction ops arbitrary: c) (simp_all add: base_do)

lemma level_option:
  assumes "shaped ks c" "distinct ks" "level_ok E c"
  shows "level_ok E (apply_option E op c)"
proof (cases op)
  case (WithSet k v)
  show ?thesis
  proof (cases rule: config_Set_cases [of E k v c])
    case (2 c1)
    have "shaped ks c1" by (rule shaped_keyed [OF assms(1) 2(2)]) simp
    moreover have "level_ok E c1" using assms(3) by (simp add: level_ok_def load_values_def 2(3))
    ultimately show ?thesis
      using WithSet assms(2) by (simp add: 2(1) publish_def level_after_publish shaped_def)
  qed (use assms WithSet in simp)
qed (use assms(3) in \<open>simp_all add: level_ok_def load_values_def stage_def\<close>)

lemma level_fold: "shaped ks c \<Longrightarrow> distinct ks \<Longrightarrow> level_ok E c \<Longrightarrow> level_ok E (fold (apply_option E) opts c)"
  by (induction opts arbitrary: c) (simp_all add: shaped_option level_option)

lemma level_base:
  assumes "\<forall>(k, it) \<in> set base. registry_item k it" "distinct (map fst base)" "levelOk E ''info''"
  shows "level_ok E (with_base E base opts)"
proof -
  have "level_ok E (defaultConfig E base)"
    using assms shaped_default [OF assms(1), of E] unfolding defaultConfig_def publish_def
    by (intro level_after_publish) (auto simp: level_ok_def load_values_def shaped_def normalizeCfgValues_def)
  then have "level_ok E (fold (apply_option E) opts (defaultConfig E base))"
    by (rule level_fold [OF shaped_default [OF assms(1)] assms(2)])
  then show ?thesis by (simp add: with_base_def Let_def level_ok_def load_values_def)
qed

lemma NewConfig_base_inv:
  assumes "\<forall>(k, it) \<in> set base. registry_item k it" "distinct (map fst base)" "levelOk E ''info''"
  shows "base_inv E (snd (NewConfig E base opts args env read b))"
proof -
  let ?w = "with_base E base opts"
  obtain c s where c: "snd (NewConfig E base opts args env read b) = publish E (if containerCheck (restage E s True c)
      then stage CfgIsContainerEnv (VBool b) (restage E s True c) else restage E s True c)"
    and cm: "cfgMap c = cfgMap ?w" "snapshot c = snapshot ?w"
    by (rule NewConfig_published)
  have lv: "level_ok E ?w" by (rule level_base [OF assms])
  have "shaped (map fst base) ?w" by (rule shaped_base [OF assms(1)])
  moreover have "base_item E k it" if "(k, it) \<in> set (cfgMap ?w)" for k it
    using that by (auto simp: with_base_def Let_def in_keyed base_item_def)
  ultimately have "staged_inv E c"
    using assms(2) lv cm by (auto simp: staged_inv_def shaped_def well_registered_def level_ok_def load_values_def)
  then have "staged_inv E (restage E s True c)" by (rule staged_restage)
  moreover from this have "staged_inv E (stage CfgIsContainerEnv (VBool b) (restage E s True c))"
    by (rule staged_keyed [OF _ cfgMap_keyed(1)])
      (auto simp: set_item_def base_item_def key_neqs key_neqs(6) [symmetric] intro: registry_item_cong [THEN iffD1, rotated -1] dest: registry_dynamic)
  ultimately show ?thesis unfolding c publish_def by (simp add: staged_published)
qed

section \<open>Reloads before this one\<close>

definition same_history :: "'f Config \<Rightarrow> 'f Config \<Rightarrow> bool" where
  "same_history c c1 \<longleftrightarrow> objName c1 = objName c \<and> configFileCfg c1 = configFileCfg c
     \<and> list_all2 (\<lambda>(k, it) (k', it'). k = k' \<and> same_origin k it it') (cfgMap c) (cfgMap c1)"

lemma same_origin_kept:
  assumes "same_origin k it it'" "\<not> (reloadable k it \<and> source it \<le> cfgSrcProfile)"
  shows "it' = it"
  using assms(1) unfolding same_origin_def if_not_P [OF assms(2)] by blast

lemma same_origin_refl: "same_origin k it it"
  by (simp add: same_origin_def)

lemma same_origin_trans:
  assumes "same_origin k it it1" "same_origin k it1 it2"
  shows "same_origin k it it2"
proof (cases "reloadable k it \<and> source it \<le> cfgSrcProfile")
  case True
  then have "reloadable k it1 \<and> source it1 \<le> cfgSrcProfile" using assms(1) by (simp add: same_origin_def)
  then show ?thesis using True assms by (simp add: same_origin_def)
next
  case False
  then have "it1 = it" by (rule same_origin_kept [OF assms(1)])
  then show ?thesis using assms(2) by simp
qed

lemma same_history_refl: "same_history c c"
  by (auto simp: same_history_def same_origin_refl intro!: list.rel_refl)

lemma same_history_trans:
  assumes "same_history c c1" "same_history c1 c2"
  shows "same_history c c2"
proof -
  let ?R = "\<lambda>(k, it) (k', it'). k = k' \<and> same_origin k it it'"
  have "list_all2 ?R (cfgMap c) (cfgMap c2)"
    by (rule list_all2_trans [of ?R ?R ?R _ "cfgMap c1"]) (use assms same_origin_trans in \<open>auto simp: same_history_def\<close>)
  then show ?thesis using assms by (simp add: same_history_def)
qed

lemma restage_item_keys [simp]:
  "cmdKey (restage_item E s a k it) = cmdKey it" "envKey (restage_item E s a k it) = envKey it"
  by (auto simp: restage_item_def setFinalValue_def split: option.splits)

lemma same_origin_reloaded:
  assumes "cmd s = []" "environ s = None" "settled E k it"
  shows "same_origin k it (reloaded_item E l s k it)"
proof (cases "reloadable k it \<and> source it \<le> cfgSrcProfile")
  case True
  have "source (restage_item E s True k it) \<le> cfgSrcProfile"
    using True lookup_reload(2) [OF assms(1,2)] by (auto simp: restage_item_def setFinalValue_def split: option.splits)
  then show ?thesis using True by (auto simp: same_origin_def reloaded_item_def)
next
  case False
  then have "reloaded_item E l s k it = it"
    using settled_norm [OF assms(3)] by (auto simp: reloaded_item_def restage_item_def)
  then show ?thesis by (simp add: same_origin_refl)
qed

lemma yaml_sources_sel [simp]: "cmd (yaml_sources E t c) = []" "environ (yaml_sources E t c) = None"
  by (simp_all add: yaml_sources_def Let_def)

text \<open>The staging area an applied YAML leaves.\<close>

lemma applied_map:
  assumes "base_inv E c" "snd (stageYAML E g d t c) = publishFrom E prev
     (c\<lparr>cfgMap := keyed (reload_item (keyed (identity_item o1) (cfgMap (yaml_candidate E tree c)))) (cfgMap c), built := n\<rparr>)"
  shows "cfgMap (snd (stageYAML E g d t c)) =
     keyed (reloaded_item E (map_of (load_values c) CfgLogLevel) (yaml_sources E tree c)) (cfgMap c)"
proof -
  let ?l = "map_of (load_values c) CfgLogLevel"
  have "norm_item E ?l k (reloaded_item E ?l s k it) = reloaded_item E ?l s k it" if "(k, it) \<in> set (cfgMap c)" for k it s
  proof -
    have "registry_item k it" "settled E k it" using assms(1) that by (auto simp: base_inv_def)
    then show ?thesis by (simp add: reloaded_item_def norm_idem settled_norm)
  qed
  moreover have "load_values (c\<lparr>cfgMap := x, built := n\<rparr>) = load_values c" for x by (simp add: load_values_def)
  ultimately show ?thesis
    unfolding assms(2) reloaded_staging [OF base_inv_staged [OF assms(1)]] cfgMap_keyed by (auto intro: keyed_cong)
qed

lemma history_reload:
  assumes "base_inv E c"
  shows "same_history c (snd (stageYAML E g d t c))"
proof (cases rule: stageYAML_cases [of E g d t c])
  case 1
  then show ?thesis by (simp add: same_history_refl)
next
  case (2 tree o1)
  have "same_origin k it (reloaded_item E l (yaml_sources E tree c) k it)" if "(k, it) \<in> set (cfgMap c)" for k it l
    using assms that by (intro same_origin_reloaded) (auto simp: base_inv_def)
  moreover have "objName (snd (stageYAML E g d t c)) = objName c" "configFileCfg (snd (stageYAML E g d t c)) = configFileCfg c"
    unfolding 2(6) by simp_all
  ultimately show ?thesis
    unfolding same_history_def applied_map [OF assms 2(6)] by (auto simp: keyed_def list.rel_map intro!: list.rel_refl_strong)
qed

lemma history_reloads:
  assumes "base_inv E c"
  shows "same_history c (fold (\<lambda>(g, d, t) c. snd (stageYAML E g d t c)) ys c)
    \<and> base_inv E (fold (\<lambda>(g, d, t) c. snd (stageYAML E g d t c)) ys c)"
proof (induction ys rule: rev_induct)
  case (snoc y ys)
  let ?c = "fold (\<lambda>(g, d, t) c. snd (stageYAML E g d t c)) ys c"
  obtain g d t where y: "y = (g, d, t)" by (rule prod_cases3)
  have "same_history ?c (snd (stageYAML E g d t ?c))" using snoc by (simp add: history_reload)
  then show ?case using snoc base_do [of E ?c "OpReloadYAML g d t"] same_history_trans [of c ?c] by (simp add: y)
qed (simp add: assms same_history_refl)

section \<open>A reload depends on the last YAML alone\<close>

lemma same_items:
  assumes "same_history c c1"
  shows "map_of (cfgMap c) k = None \<and> map_of (cfgMap c1) k = None
    \<or> (\<exists>it it'. map_of (cfgMap c) k = Some it \<and> map_of (cfgMap c1) k = Some it' \<and> same_origin k it it')"
proof -
  have "list_all2 (\<lambda>(k, it) (k', it'). k = k' \<and> same_origin k it it') (cfgMap c) (cfgMap c1)"
    using assms by (simp add: same_history_def)
  then show ?thesis by (induction rule: list_all2_induct) auto
qed

lemma profile_value:
  assumes "base_inv E c" "map_of (cfgMap c) CfgActiveProfile = Some it" "source it = cfgSrcDefault"
  shows "cfg_value it = baseValue it"
proof -
  have "base_item E CfgActiveProfile it" using assms(1) map_of_SomeD [OF assms(2)] by (auto simp: base_inv_def)
  then have "it = it\<lparr>cfg_value := baseValue it\<rparr>" using assms(3) key_neqs(1) by (simp add: base_item_def)
  then show ?thesis by (metis cfgMapItem.select_convs(1) cfgMapItem.surjective cfgMapItem.update_convs(1))
qed

lemma same_profile:
  assumes "base_inv E c" "base_inv E c1" "same_history c c1" "cmd s = []" "environ s = None"
  shows "loadProfile E s c1 = loadProfile E s c"
proof (cases "map_of (cfgMap c) CfgActiveProfile")
  case None
  then have "map_of (cfgMap c1) CfgActiveProfile = None" using same_items [OF assms(3), of CfgActiveProfile] by simp
  with None show ?thesis by (simp add: loadProfile_def)
next
  case (Some it)
  then obtain it1 where it1: "map_of (cfgMap c1) CfgActiveProfile = Some it1" "same_origin CfgActiveProfile it it1"
    using same_items [OF assms(3), of CfgActiveProfile] by auto
  show ?thesis
  proof (cases "source it \<le> cfgSrcProfile")
    case True
    then have "source it1 \<le> cfgSrcProfile" "baseValue it1 = baseValue it" using it1(2) by (simp_all add: same_origin_def)
    then show ?thesis
      using True lookup_reload(1) [OF assms(4,5), of CfgActiveProfile it it1] profile_value [OF assms(1) Some] profile_value [OF assms(2) it1(1)]
      unfolding loadProfile_def Some it1(1) by (auto split: option.split)
  next
    case False
    then have "it1 = it" using same_origin_kept [OF it1(2)] by blast
    then show ?thesis unfolding loadProfile_def Some it1(1) by simp
  qed
qed

lemma same_sources: "base_inv E c \<Longrightarrow> base_inv E c1 \<Longrightarrow> same_history c c1 \<Longrightarrow> yaml_sources E t c1 = yaml_sources E t c"
  by (simp add: yaml_sources_def same_profile Let_def)

lemma keyed_history:
  assumes "same_history c c1" "\<And>k it it'. (k, it) \<in> set (cfgMap c) \<Longrightarrow> same_origin k it it' \<Longrightarrow> (k, it') \<in> set (cfgMap c1) \<Longrightarrow> f k it = g k it'"
  shows "keyed g (cfgMap c1) = keyed f (cfgMap c)"
proof -
  have "list_all2 (\<lambda>(k, it) (k', it'). k = k' \<and> same_origin k it it') (cfgMap c) (cfgMap c1)"
    using assms(1) by (simp add: same_history_def)
  moreover have "\<And>k it it'. (k, it) \<in> set (cfgMap c) \<Longrightarrow> same_origin k it it' \<Longrightarrow> (k, it') \<in> set (cfgMap c1) \<Longrightarrow> f k it = g k it'"
    by (rule assms(2))
  ultimately show ?thesis by (induction rule: list_all2_induct) (auto simp: keyed_def)
qed

lemma same_types:
  assumes "same_history c c1" "cmd s = []" "environ s = None"
  shows "checkValueTypes E s c1 = checkValueTypes E s c"
proof -
  let ?bad = "\<lambda>k it. case lookup s k it of None \<Rightarrow> False | Some (v, _) \<Rightarrow> convertCfgValue E (valueType it) v = None"
  have "keyed ?bad (cfgMap c1) = keyed ?bad (cfgMap c)"
    by (rule keyed_history [OF assms(1)])
      (use lookup_reload(1) [OF assms(2,3)] in \<open>auto simp: same_origin_def split: option.splits\<close>, (metis option.distinct(1) option.inject prod.inject)+)
  then have "map fst (filter snd (keyed ?bad (cfgMap c1))) = map fst (filter snd (keyed ?bad (cfgMap c)))" by simp
  then show ?thesis by (simp add: checkValueTypes_def keyed_def filter_map comp_def split_def)
qed

lemma same_candidate_item:
  assumes "same_origin k it it'" "registry_item k it" "base_item E k it" "base_item E k it'" "cmd s = []" "environ s = None"
    "\<forall>v src. lookup s k it = Some (v, src) \<longrightarrow> convertCfgValue E (valueType it) v \<noteq> None" "k = CfgLogLevel \<longrightarrow> level_given E s it"
  shows "norm_item E l k (restage_item E s True k it) = norm_item E l' k (restage_item E s True k it')"
proof (cases "reloadable k it")
  case False
  then have "it' = it" "k \<noteq> CfgLogLevel" using same_origin_kept [OF assms(1)] registry_dynamic(1) [of it] assms(2) by blast+
  then show ?thesis using norm_current [of k] by metis
next
  case True
  then have same: "restaged E s k it' = restaged E s k it" using assms by (intro restaged_same)
  have it': "reloadable k it'" "registry_item k it'"
    using True assms(1,2) registry_item_cong [of it' it k] by (auto simp: same_origin_def)
  have "norm_item E l k (restaged E s k it) = norm_item E l' k (restaged E s k it)"
  proof (cases "k = CfgLogLevel")
    case level: True
    then show ?thesis using assms(8) by (simp add: level_given_def norm_level)
  qed (rule norm_current)
  moreover have "k = CfgLogLevel \<longrightarrow> level_given E s it'" using assms(8) same by (auto simp: level_given_def)
  ultimately show ?thesis
    using norm_restage [OF assms(3) True assms(2,8)] norm_restage [OF assms(4) it'] same by simp
qed

lemma type_checked:
  "checkValueTypes E s c = [] \<Longrightarrow> (k, it) \<in> set (cfgMap c) \<Longrightarrow> lookup s k it = Some (v, src) \<Longrightarrow> convertCfgValue E (valueType it) v \<noteq> None"
  by (fastforce simp: checkValueTypes_def filter_empty_conv)

lemma same_candidate:
  assumes "base_inv E c" "base_inv E c1" "same_history c c1" "checkValueTypes E (yaml_sources E t c) c = []"
    "\<forall>it. map_of (cfgMap c) CfgLogLevel = Some it \<longrightarrow> level_given E (yaml_sources E t c) it"
  shows "cfgMap (yaml_candidate E t c1) = cfgMap (yaml_candidate E t c)"
  unfolding candidate_map same_sources [OF assms(1-3)] keyed_simps
proof (rule keyed_history [OF assms(3)])
  fix k it it'
  assume it: "(k, it) \<in> set (cfgMap c)" "same_origin k it it'" "(k, it') \<in> set (cfgMap c1)"
  have "map_of (cfgMap c) k = Some it" using assms(1) it(1) by (simp add: base_inv_def)
  then show "norm_item E (map_of (load_values c) CfgLogLevel) k (restage_item E (yaml_sources E t c) True k it) =
      norm_item E (map_of (load_values c1) CfgLogLevel) k (restage_item E (yaml_sources E t c) True k it')"
    using it assms type_checked [OF assms(4) it(1)] by (intro same_candidate_item) (auto simp: base_inv_def)
qed

lemma candidate_values:
  assumes "cfgMap (yaml_candidate E t c1) = cfgMap (yaml_candidate E t c)"
  shows "load_values (yaml_candidate E t c1) = load_values (yaml_candidate E t c)"
  using assms unfolding yaml_candidate_def publish_def published_values by (simp add: staged_def)

lemma same_reloaded:
  assumes "base_inv E c" "base_inv E c1" "same_history c c1" "cfgMap (yaml_candidate E t c1) = cfgMap (yaml_candidate E t c)"
  shows "keyed (reloaded_item E (map_of (load_values c1) CfgLogLevel) (yaml_sources E t c1)) (cfgMap c1) =
     keyed (reloaded_item E (map_of (load_values c) CfgLogLevel) (yaml_sources E t c)) (cfgMap c)"
proof (rule keyed_history [OF assms(3)])
  fix k it it'
  assume it: "(k, it) \<in> set (cfgMap c)" "same_origin k it it'" "(k, it') \<in> set (cfgMap c1)"
  have m: "map_of (cfgMap c) k = Some it" "map_of (cfgMap c1) k = Some it'" using assms(1,2) it(1,3) by (simp_all add: base_inv_def)
  have "map_of (cfgMap (yaml_candidate E t c1)) k = map_of (cfgMap (yaml_candidate E t c)) k" using assms(4) by simp
  then have cand: "norm_item E (map_of (load_values c1) CfgLogLevel) k (restage_item E (yaml_sources E t c1) True k it') =
      norm_item E (map_of (load_values c) CfgLogLevel) k (restage_item E (yaml_sources E t c) True k it)"
    unfolding candidate_map by (simp add: m)
  show "reloaded_item E (map_of (load_values c) CfgLogLevel) (yaml_sources E t c) k it =
      reloaded_item E (map_of (load_values c1) CfgLogLevel) (yaml_sources E t c1) k it'"
  proof (cases "reloadable k it")
    case True
    then show ?thesis using cand it(2) by (simp add: reloaded_item_def same_origin_def)
  next
    case False
    then have "it' = it" using same_origin_kept [OF it(2)] by blast
    with False show ?thesis by (simp add: reloaded_item_def)
  qed
qed

lemma same_restart:
  fixes c c1 :: "'a Config"
  assumes "same_history c c1"
  shows "map fst (filter (\<lambda>x. \<not> (case x of (k, it) \<Rightarrow> reloadable k it) \<and> differs items x) (cfgMap c1)) =
    map fst (filter (\<lambda>x. \<not> (case x of (k, it) \<Rightarrow> reloadable k it) \<and> differs items x) (cfgMap c))"
proof -
  let ?d = "\<lambda>k it. \<not> reloadable k it \<and> differs items (k, it)"
  have "keyed ?d (cfgMap c1) = keyed ?d (cfgMap c)"
  proof (rule keyed_history [OF assms])
    fix k and it it' :: "'a cfgMapItem"
    assume so: "same_origin k it it'"
    show "?d k it = ?d k it'"
      using so same_origin_kept [OF so] by (cases "reloadable k it") (auto simp: same_origin_def)
  qed
  then have "map fst (filter snd (keyed ?d (cfgMap c1))) = map fst (filter snd (keyed ?d (cfgMap c)))" by simp
  then show ?thesis by (simp add: keyed_def filter_map comp_def split_def)
qed

text \<open>What the reload leaves, as a function of the candidate.\<close>

lemma stageYAML_tree:
  assumes "configFileCfg c = None" "checkValueTypes E (yaml_sources E tree c) c = []"
  shows "fst (fst (stageYAML E g d (Some tree) c)) = (case resolveObjectNameKeeping (config_String E (yaml_candidate E tree c)) g d (objName c)
      of Inl _ \<Rightarrow> ConfigReloadInvalidConfig | Inr _ \<Rightarrow> ConfigReloadApplied)"
    "fst (snd (fst (stageYAML E g d (Some tree) c))) = (case resolveObjectNameKeeping (config_String E (yaml_candidate E tree c)) g d (objName c)
      of Inl _ \<Rightarrow> [] | Inr o1 \<Rightarrow> map fst (filter (\<lambda>x. \<not> (case x of (k, it) \<Rightarrow> reloadable k it)
          \<and> differs (keyed (identity_item o1) (cfgMap (yaml_candidate E tree c))) x) (cfgMap c)))"
  using assms by (simp_all add: stageYAML_def Let_def cfgMap_keyed split: sum.split)

lemma stageYAML_refused:
  assumes "configFileCfg c \<noteq> None \<or> checkValueTypes E (yaml_sources E tree c) c \<noteq> []"
  shows "fst (stageYAML E g d (Some tree) c) =
    (if configFileCfg c \<noteq> None then ConfigReloadConfigFileActive else ConfigReloadInvalidConfig, [], [])"
  using assms by (auto simp: stageYAML_def)

lemma reload_same:
  assumes "base_inv E c" "base_inv E c1" "same_history c c1"
    "\<forall>it. map_of (cfgMap c) CfgLogLevel = Some it \<longrightarrow> level_given E (yaml_sources E tree c) it"
  shows "fst (fst (stageYAML E g d (Some tree) c1)) = fst (fst (stageYAML E g d (Some tree) c))
    \<and> fst (snd (fst (stageYAML E g d (Some tree) c1))) = fst (snd (fst (stageYAML E g d (Some tree) c)))"
    (is ?result)
    "fst (fst (stageYAML E g d (Some tree) c)) = ConfigReloadApplied \<Longrightarrow>
      cfgMap (snd (stageYAML E g d (Some tree) c1)) = cfgMap (snd (stageYAML E g d (Some tree) c))"
proof -
  have same: "yaml_sources E tree c1 = yaml_sources E tree c"
    "checkValueTypes E (yaml_sources E tree c1) c1 = checkValueTypes E (yaml_sources E tree c) c"
    "configFileCfg c1 = configFileCfg c" "objName c1 = objName c"
    using assms(3) same_sources [OF assms(1-3)] same_types [OF assms(3)] by (simp_all add: same_history_def)
  have ok: ?result and cand: "cfgMap (yaml_candidate E tree c1) = cfgMap (yaml_candidate E tree c)"
    if c: "configFileCfg c = None" "checkValueTypes E (yaml_sources E tree c) c = []"
  proof -
    show cand: "cfgMap (yaml_candidate E tree c1) = cfgMap (yaml_candidate E tree c)"
      by (rule same_candidate [OF assms(1-3) c(2) assms(4)])
    then have str: "config_String E (yaml_candidate E tree c1) = config_String E (yaml_candidate E tree c)"
      unfolding config_String_def [abs_def] using candidate_values by metis
    have c1: "configFileCfg c1 = None" "checkValueTypes E (yaml_sources E tree c1) c1 = []" unfolding same(2,3) by (rule c)+
    show ?result unfolding stageYAML_tree [OF c] stageYAML_tree [OF c1] str cand same(4) same_restart [OF assms(3)] by simp
  qed
  show r: ?result
  proof (cases "configFileCfg c = None \<and> checkValueTypes E (yaml_sources E tree c) c = []")
    case False
    then have c: "configFileCfg c \<noteq> None \<or> checkValueTypes E (yaml_sources E tree c) c \<noteq> []"
      unfolding de_Morgan_conj .
    then have "configFileCfg c1 \<noteq> None \<or> checkValueTypes E (yaml_sources E tree c1) c1 \<noteq> []" unfolding same(2,3) .
    then show ?thesis using stageYAML_refused [OF c, of g d] stageYAML_refused [of c1 E tree g d] same(3) by simp
  qed (use ok in blast)
  assume app: "fst (fst (stageYAML E g d (Some tree) c)) = ConfigReloadApplied"
  have c: "configFileCfg c = None \<and> checkValueTypes E (yaml_sources E tree c) c = []"
  proof (rule ccontr)
    assume "\<not> (configFileCfg c = None \<and> checkValueTypes E (yaml_sources E tree c) c = [])"
    then show False using app stageYAML_refused [of c E tree g d] unfolding de_Morgan_conj by (simp split: if_splits)
  qed
  have "cfgMap (snd (stageYAML E g d (Some tree) x)) =
      keyed (reloaded_item E (map_of (load_values x) CfgLogLevel) (yaml_sources E tree x)) (cfgMap x)"
    if "base_inv E x" "fst (fst (stageYAML E g d (Some tree) x)) = ConfigReloadApplied" for x
    by (cases rule: stageYAML_cases [of E g d "Some tree" x]) (use that applied_map [OF that(1), of g d "Some tree"] in auto)
  then show "cfgMap (snd (stageYAML E g d (Some tree) c1)) = cfgMap (snd (stageYAML E g d (Some tree) c))"
    using app r assms(1,2) same_reloaded [OF assms(1-3) cand [OF conjunct1 [OF c] conjunct2 [OF c]]] by simp
qed

lemma applied_values:
  assumes "fst (fst (stageYAML E g d t c)) = ConfigReloadApplied"
  shows "load_values (snd (stageYAML E g d t c)) = publish_values E
    (as_int E (staged (snd (stageYAML E g d t c)) CfgSQLMaxBindValueSize)) (cfgMap (snd (stageYAML E g d t c)))"
proof (cases rule: stageYAML_cases [of E g d t c])
  case (2 tree o1)
  show ?thesis unfolding 2(6) by (rule published_values)
qed (use assms in simp)

text \<open>
  (C30) \<open>ReloadConfig\<close> promises that its result depends only on the last YAML applied, not on the history of calls. It does, on
  a configuration built from any sources, after any number of reloads \<open>ys\<close>: status, options that need a restart, staged
  options and published values are those of the YAML on the configuration without these reloads. The level must be given: a YAML
  whose \<^verbatim>\<open>Log.Level\<close> is known, or which has none where the agent started with a known one.
\<close>

theorem reload_forgets_history:
  assumes "\<forall>(k, it) \<in> set base. registry_item k it" "distinct (map fst base)" "levelOk E ''info''"
    and c: "c = fold (cfg_do E) ops (snd (NewConfig E base opts args env read b))"
    and c1: "c1 = fold (\<lambda>(g, d, t) c. snd (stageYAML E g d t c)) ys c"
    and "\<forall>it. map_of (cfgMap c) CfgLogLevel = Some it \<longrightarrow> level_given E (yaml_sources E tree c) it"
  shows "case (stageYAML E g d (Some tree) c, stageYAML E g d (Some tree) c1) of
      (((st, restart, _), c'), ((st1, restart1, _), c1')) \<Rightarrow>
        st1 = st \<and> restart1 = restart \<and> (st = ConfigReloadApplied \<longrightarrow> cfgMap c1' = cfgMap c' \<and> load_values c1' = load_values c')"
proof -
  have inv: "base_inv E c" unfolding c by (rule base_run [OF NewConfig_base_inv [OF assms(1-3)]])
  have hist: "base_inv E c1" "same_history c c1" unfolding c1 using history_reloads [OF inv, of ys] by simp_all
  have same: "fst (fst (stageYAML E g d (Some tree) c1)) = fst (fst (stageYAML E g d (Some tree) c))"
    "fst (snd (fst (stageYAML E g d (Some tree) c1))) = fst (snd (fst (stageYAML E g d (Some tree) c)))"
    using reload_same(1) [OF inv hist assms(6)] by blast+
  have "cfgMap (snd (stageYAML E g d (Some tree) c1)) = cfgMap (snd (stageYAML E g d (Some tree) c))
      \<and> load_values (snd (stageYAML E g d (Some tree) c1)) = load_values (snd (stageYAML E g d (Some tree) c))"
    if app: "fst (fst (stageYAML E g d (Some tree) c)) = ConfigReloadApplied"
    using reload_same(2) [OF inv hist assms(6) app] applied_values [OF app] applied_values [OF trans [OF same(1) app]]
    by (simp add: staged_def)
  then show ?thesis using same by (simp add: case_prod_unfold)
qed

lemma initConfig_distinct: "distinct (map fst (initConfig :: (string \<times> 'f cfgMapItem) list))"
proof -
  have "map fst (initConfig :: (string \<times> 'f cfgMapItem) list) = map fst (registry :: (string \<times> cfgType \<times> 'f cfgValue \<times> bool) list)"
    by (simp add: initConfig_def AddConfig_def split_def)
  then show ?thesis using registry_distinct by simp
qed

lemma known_level_given:
  assumes "base_inv E c" "map_of (cfgMap c) CfgLogLevel = Some it" "lookup s CfgLogLevel it = Some (VStr v, src)" "levelOk E v"
  shows "level_given E s it"
proof -
  have it: "registry_item CfgLogLevel it" "settled E CfgLogLevel it"
    using assms(1) map_of_SomeD [OF assms(2)] by (auto simp: base_inv_def)
  have "convertCfgValue E CfgString (VStr v) = Some (VStr v)" by (simp add: convertCfgValue_def scalarString_def)
  then show ?thesis
    using assms(3,4) it(2) registry_level(2) [OF it(1)] by (auto simp: level_given_def restaged_def settled_def)
qed

lemma file_lookup:
  assumes "\<forall>k \<in> fst ` set (flattenConfig [] t []). \<not> HasPrefix k ''p''"
  shows "lookup (yaml_sources E t c) k it = map_option (\<lambda>v. (v, cfgSrcFile)) (file_value (Some (flattenConfig [] t [])) k)"
proof -
  have "ToLower (''profile.'' @ p) = CHR ''p'' # ToLower (''rofile.'' @ p)" for p
    by (subst ToLower.simps) (simp add: to_lower_def)
  then have pre: "HasPrefix k ''p''" if "HasPrefix k (ToLower (''profile.'' @ p) @ ''.'')" for k p
    using that by (cases k) simp_all
  have "file_sub (flattenConfig [] t []) (''profile.'' @ p) = None" for p
    using assms pre by (force simp: file_sub_def Let_def filter_empty_conv)
  then have "cfg_profile (yaml_sources E t c) = None"
    by (simp add: yaml_sources_def loadProfile_def Let_def split: option.split)
  moreover have "cfg_file (yaml_sources E t c) = Some (flattenConfig [] t [])" by (simp add: yaml_sources_def Let_def)
  ultimately show ?thesis
    by (simp add: lookup_def env_value_def file_value_def [of None] split: option.split)
qed

theorem reload_forgets_history_witness:
  "let c = snd (NewConfig plain_env initConfig [WithValue CfgAppName (VStr ''shop'')] [] (\<lambda>_. None) (\<lambda>_. NotExist) False);
       c1 = snd (stageYAML plain_env ''go'' None (Some [(''Log.Level'', VStr ''debug''), (''Span.EventChunkSize'', VInt 5)]) c);
       yaml = Some [(''Log.Level'', VStr ''warn'')]
   in fst (fst (stageYAML plain_env ''go'' None yaml c1)) = fst (fst (stageYAML plain_env ''go'' None yaml c))"
proof -
  define c where "c = snd (NewConfig plain_env initConfig [WithValue CfgAppName (VStr ''shop'')] [] (\<lambda>_. None) (\<lambda>_. NotExist) False)"
  have info: "levelOk plain_env ''info''" "levelOk plain_env ''warn''" by (simp_all add: plain_env_def)
  have inv: "base_inv plain_env c" unfolding c_def by (rule NewConfig_base_inv [OF initConfig_registered initConfig_distinct info(1)])
  let ?t = "[(''Log.Level'', VStr ''warn'')] :: unit tree"
  have flat: "flattenConfig [] ?t [] = [(''log.level'', VStr ''warn'')]" by code_simp
  have "ToLower CfgLogLevel = ''log.level''" "ToLower ''Log.Level'' = ''log.level''" by code_simp+
  then have "lookup (yaml_sources plain_env ?t c) CfgLogLevel it = Some (VStr ''warn'', cfgSrcFile)" for it
    by (subst file_lookup) (simp_all add: flat file_value_def isSet_def file_get_def)
  then have "\<forall>it. map_of (cfgMap c) CfgLogLevel = Some it \<longrightarrow> level_given plain_env (yaml_sources plain_env ?t c) it"
    using known_level_given [OF inv _ _ info(2)] by blast
  then show ?thesis
    using reload_forgets_history [OF initConfig_registered initConfig_distinct info(1), where ops = "[]" and c = c and tree = ?t
        and opts = "[WithValue CfgAppName (VStr ''shop'')]" and args = "[]" and env = "\<lambda>_. None" and read = "\<lambda>_. NotExist" and b = False
        and ys = "[(''go'', None, Some [(''Log.Level'', VStr ''debug''), (''Span.EventChunkSize'', VInt 5)])]" and g = "''go''" and d = None, OF _ refl]
    by (simp add: c_def [symmetric] Let_def case_prod_unfold)
qed

text \<open>
  The exception, against the documented promise: a YAML with an unknown \<^verbatim>\<open>Log.Level\<close> leaves the level in effect, so that which level the
  agent logs at after it is what an earlier call made it.
\<close>

lemma unknown_level_keeps_published:
  assumes "base_inv E c" "map_of (cfgMap c) CfgLogLevel = Some it" "source it \<le> cfgSrcProfile"
    "lookup (yaml_sources E tree c) CfgLogLevel it = Some (VStr v, src)" "\<not> levelOk E v"
    "map_of (load_values c) CfgLogLevel = Some (VStr lv)"
    "fst (fst (stageYAML E g d (Some tree) c)) = ConfigReloadApplied"
  shows "config_String E (snd (stageYAML E g d (Some tree) c)) CfgLogLevel = lv"
proof (cases rule: stageYAML_cases [of E g d "Some tree" c])
  case (2 tree' o1)
  have it: "registry_item CfgLogLevel it" using assms(1) map_of_SomeD [OF assms(2)] by (auto simp: base_inv_def)
  let ?l = "map_of (load_values c) CfgLogLevel"
  have "convertCfgValue E CfgString (VStr v) = Some (VStr v)" by (simp add: convertCfgValue_def scalarString_def)
  then have "restage_item E (yaml_sources E tree c) True CfgLogLevel it = it\<lparr>cfg_value := VStr v, source := src\<rparr>"
    using assms(3,4) registry_level(2) [OF it] by (simp add: restage_item_def setFinalValue_def)
  then have "cfg_value (reloaded_item E ?l (yaml_sources E tree c) CfgLogLevel it) = VStr lv"
    using registry_dynamic(1) [OF it] assms(5,6) by (simp add: reloaded_item_def norm_equations logLevel_rule_def)
  moreover have "map_of (cfgMap (snd (stageYAML E g d (Some tree) c))) CfgLogLevel =
      Some (reloaded_item E ?l (yaml_sources E tree c) CfgLogLevel it)"
    using applied_map [OF assms(1) 2(6)] 2(1) assms(2) by simp
  moreover have "CfgLogLevel \<noteq> CfgSQLMaxBindValueSize" "CfgLogLevel \<noteq> CfgSQLTraceBindValue" by (simp_all add: option_keys)
  ultimately show ?thesis using applied_values [OF assms(7)] by (simp add: config_String_def value_of_def publish_values_keyed)
qed (use assms(7) in simp)

section \<open>What a reload does not touch\<close>

text \<open>
  A refused reload changes nothing. An applied one leaves every option that is not dynamic as it is, and every option given by flag,
  environment or \<^verbatim>\<open>Set\<close>.
\<close>

theorem reload_keeps_fixed_options:
  assumes "\<forall>(k, it) \<in> set base. registry_item k it" "distinct (map fst base)" "levelOk E ''info''"
    and c: "c = fold (cfg_do E) ops (snd (NewConfig E base opts args env read b))"
  shows "case stageYAML E g d t c of ((st, _, _), c') \<Rightarrow>
    (st \<noteq> ConfigReloadApplied \<longrightarrow> c' = c) \<and> objName c' = objName c \<and> callback c' = callback c
    \<and> (\<forall>k it. map_of (cfgMap c) k = Some it \<and> (\<not> (dynamic it \<or> k = CfgActiveProfile) \<or> source it > cfgSrcProfile)
        \<longrightarrow> map_of (cfgMap c') k = Some it)"
proof -
  have inv: "base_inv E c" unfolding c by (rule base_run [OF NewConfig_base_inv [OF assms(1-3)]])
  have hist: "same_history c (snd (stageYAML E g d t c))" by (rule history_reload [OF inv])
  have "map_of (cfgMap (snd (stageYAML E g d t c))) k = Some it"
    if "map_of (cfgMap c) k = Some it" "\<not> (dynamic it \<or> k = CfgActiveProfile) \<or> source it > cfgSrcProfile" for k it
    using same_items [OF hist, of k] same_origin_kept [of k it] that by auto
  moreover have "(fst (fst (stageYAML E g d t c)) \<noteq> ConfigReloadApplied \<longrightarrow> snd (stageYAML E g d t c) = c)
      \<and> callback (snd (stageYAML E g d t c)) = callback c"
    by (cases rule: stageYAML_cases [of E g d t c]) simp_all
  ultimately show ?thesis using hist by (simp add: case_prod_unfold same_history_def)
qed

theorem reload_keeps_fixed_options_witness:
  "let c = snd (NewConfig plain_env initConfig [WithValue CfgAppName (VStr ''shop'')] [] (\<lambda>_. None) (\<lambda>_. NotExist) False)
   in snd (stageYAML plain_env ''go'' None None c) = c"
proof -
  have info: "levelOk plain_env ''info''" by (simp add: plain_env_def)
  have "fst (fst (stageYAML plain_env g d None c)) \<noteq> ConfigReloadApplied" for g d c by (simp add: stageYAML_def)
  then show ?thesis
    using reload_keeps_fixed_options [OF initConfig_registered initConfig_distinct info, where ops = "[]" and t = None and g = "''go''"
        and d = None and opts = "[WithValue CfgAppName (VStr ''shop'')]" and args = "[]" and env = "\<lambda>_. None"
        and read = "\<lambda>_. NotExist" and b = False, OF refl]
    by (simp add: Let_def case_prod_unfold)
qed

end
