(* ===== verification/Config_Types.thy ===== *)
theory Config_Types
  imports Config
begin

text \<open>
  The values of a configuration have the types their options were registered with, so that the typed accessors and the fields of
  the snapshot never fall back to a zero value (\<^verbatim>\<open>src/config.go\<close>: \<^verbatim>\<open>normalizeCfgValues\<close>, \<^verbatim>\<open>setFinalValue\<close>, \<^verbatim>\<open>publishFrom\<close>).
\<close>

section \<open>The rules keep the type of their option\<close>

definition keeps_type :: "'f cfg_env \<Rightarrow> cfgType \<Rightarrow> 'f cfgValue \<Rightarrow> 'f rule \<Rightarrow> bool" where
  "keeps_type E ty d f \<longleftrightarrow> (\<forall>it. valueType it = ty \<longrightarrow> defaultValue it = d \<longrightarrow> has_type E ty (cfg_value it) \<longrightarrow> has_type E ty (cfg_value (f it)))"

definition level_typed :: "'f cfg_env \<Rightarrow> 'f cfgValue option \<Rightarrow> bool" where
  "level_typed E l \<longleftrightarrow> (\<forall>v. l = Some v \<longrightarrow> has_type E CfgString v)"

lemma has_type_intros [simp]:
  "has_type E CfgInt (VInt n) \<longleftrightarrow> - (2 ^ 63) \<le> n \<and> n < 2 ^ 63" "has_type E CfgString (VStr s)" "has_type E CfgBool (VBool b)"
  "has_type E CfgStringSlice (VList xs)"
  by (simp_all add: has_type_def)

lemma typed_int:
  assumes "has_type E CfgInt v"
  shows "- (2 ^ 63) \<le> as_int E v" "as_int E v < 2 ^ 63"
  using assms by (auto simp: has_type_def split: cfgValue.splits)

lemma rules_keep_type:
  "has_type E ty d \<Longrightarrow> keeps_type E ty d (defaultIfOutOfRange E lo hi)" "has_type E ty d \<Longrightarrow> keeps_type E ty d (defaultIfAbove E hi)"
  "keeps_type E CfgInt d (zeroIfNegative E)" "0 \<le> lo \<Longrightarrow> lo \<le> MaxInt32 \<Longrightarrow> keeps_type E CfgInt d (unlimitedOrAtLeast E lo)"
  "keeps_type E CfgString d (samplingType_rule E)" "keeps_type E CfgString d (compression_rule E)"
  "keeps_type E CfgInt d (maxBind_rule E)" "keeps_type E CfgInt d (cacheLength_rule E)" "keeps_type E CfgInt d (errorDepth_rule E)"
  "keeps_type E CfgInt d (chainDepth_rule E)"
  "has_type E CfgString d \<Longrightarrow> level_typed E l \<Longrightarrow> keeps_type E CfgString d (logLevel_rule E l)"
  using typed_int [of E]
  by (auto simp: keeps_type_def defaultIfOutOfRange_def defaultIfAbove_def zeroIfNegative_def unlimitedOrAtLeast_def samplingType_rule_def
      compression_rule_def maxBind_rule_def cacheLength_rule_def errorDepth_rule_def chainDepth_rule_def logLevel_rule_def level_typed_def
      limit_defs Let_def split: option.splits)

lemma registry_rule_types:
  "map_of registry CfgSamplingType = Some (CfgString, VStr ''COUNTER'', True)"
  "map_of registry CfgCollectorGrpcCompression = Some (CfgString, VStr ''gzip'', False)"
  "map_of registry CfgLogLevel = Some (CfgString, VStr ''info'', True)"
  "map_of registry CfgSQLMaxBindValueSize = Some (CfgInt, VInt 1024, True)"
  "map_of registry CfgSQLTraceBindValue = Some (CfgBool, VBool True, True)"
  "map_of registry CfgSQLCacheLengthLimit = Some (CfgInt, VInt 2048, False)"
  "map_of registry CfgSQLErrorCount = Some (CfgInt, VInt 100, True)"
  "map_of registry CfgCollectorAgentInfoRefreshInterval = Some (CfgInt, VInt 86400000, False)"
  "map_of registry CfgErrorNewThroughput = Some (CfgInt, VInt 1000, True)"
  "map_of registry CfgIsContainerEnv = Some (CfgBool, VBool False, False)"
  "map_of registry CfgAppName = Some (CfgString, VStr [], False)"
  "map_of registry CfgAgentName = Some (CfgString, VStr [], False)"
  "map_of registry CfgServiceName = Some (CfgString, VStr [], False)"
  "map_of registry CfgApiKey = Some (CfgString, VStr [], False)"
  by (rule map_of_is_SomeI [OF registry_distinct]; simp add: registry_def)+

lemma publish_rules_typed:
  assumes "level_typed E l"
  shows "list_all (\<lambda>(k, f). case map_of registry k of Some (ty, d, _) \<Rightarrow> keeps_type E ty d f | None \<Rightarrow> False) (publish_rules E l)"
  using assms by (simp add: publish_rules_def registry_ranges registry_rule_types rules_keep_type limits_ordered)

lemma rules_at_typed:
  assumes "list_all (\<lambda>(k, f). value_rule f) rs" "\<And>f. (k, f) \<in> set rs \<Longrightarrow> keeps_type E ty d f"
    "valueType it = ty" "defaultValue it = d" "has_type E ty (cfg_value it)"
  shows "has_type E ty (cfg_value (rules_at rs k it))"
  using assms
proof (induction rs arbitrary: it)
  case (Cons r rs)
  obtain k' f where r: "r = (k', f)" by (cases r)
  let ?it = "if k' = k then f it else it"
  obtain v where v: "f it = it\<lparr>cfg_value := v\<rparr>" using Cons.prems(1) r by (auto simp: value_rule_def)
  have "has_type E ty (cfg_value (f it))" if "k' = k" using Cons.prems(2-5) r that by (simp add: keeps_type_def)
  then have "valueType ?it = ty" "defaultValue ?it = d" "has_type E ty (cfg_value ?it)" using Cons.prems(3-5) v by simp_all
  then show ?case using Cons.IH [of ?it] Cons.prems(1,2) r by simp
qed simp

lemma norm_typed:
  fixes it :: "'f cfgMapItem"
  assumes "level_typed E l" "registry_item k it" "has_type E (valueType it) (cfg_value it)"
  shows "has_type E (valueType it) (cfg_value (norm_item E l k it))"
proof (rule rules_at_typed [OF publish_value_rules _ refl refl assms(3)])
  fix f :: "'f rule"
  assume "(k, f) \<in> set (publish_rules E l)"
  then obtain ty d dyn where "map_of registry k = Some (ty, d, dyn)" "keeps_type E ty d f"
    using publish_rules_typed [OF assms(1)] by (fastforce simp: list_all_iff split: option.splits)
  then show "keeps_type E (valueType it) (defaultValue it) f" using assms(2) by (simp add: registry_item_def)
qed

section \<open>Typed configurations\<close>

definition typed_at :: "'f cfg_env \<Rightarrow> string \<Rightarrow> 'f cfgMapItem \<Rightarrow> bool" where
  "typed_at E k it \<longleftrightarrow> registry_item k it \<and> has_type E (valueType it) (cfg_value it) \<and> has_type E (valueType it) (baseValue it)"

definition typed_config :: "'f cfg_env \<Rightarrow> 'f Config \<Rightarrow> bool" where
  "typed_config E c \<longleftrightarrow> distinct (map fst (cfgMap c)) \<and> (\<forall>(k, it) \<in> set (cfgMap c). typed_at E k it) \<and> level_typed E (map_of (load_values c) CfgLogLevel)"

lemma typed_restage:
  assumes "typed_at E k it"
  shows "typed_at E k (restage_item E s a k it)"
proof -
  have "registry_item k (restage_item E s a k it)" using assms registry_item_cong [of "restage_item E s a k it" it k] by (simp add: typed_at_def)
  moreover have "has_type E (valueType it) (cfg_value (restage_item E s a k it))"
    using assms by (auto simp: restage_item_def setFinalValue_def typed_at_def convert_has_type split: option.splits)
  ultimately show ?thesis using assms by (simp add: typed_at_def)
qed

lemma typed_set_final:
  assumes "typed_at E k it"
  shows "typed_at E k (set_final E n v k it)"
proof -
  have "registry_item k (set_final E n v k it)" using assms registry_item_cong [of "set_final E n v k it" it k] by (simp add: typed_at_def)
  moreover have "has_type E (valueType it) (cfg_value (set_final E n v k it))"
    using assms by (auto simp: set_final_def setFinalValue_def typed_at_def convert_has_type split: option.splits)
  ultimately show ?thesis using assms by (simp add: typed_at_def)
qed

lemma typed_set_item:
  assumes "typed_at E k it" "k = n \<Longrightarrow> has_type E (valueType it) v"
  shows "typed_at E k (set_item n v k it)"
  using assms registry_item_cong [of "set_item n v k it" it k] by (auto simp: typed_at_def set_item_def)

lemma set_item_sel [simp]:
  "valueType (set_item n v k it) = valueType it" "defaultValue (set_item n v k it) = defaultValue it"
  by (simp_all add: set_item_def)

lemma typed_identity:
  assumes "typed_at E k it"
  shows "typed_at E k (identity_item o1 k it)"
proof -
  have "has_type E (valueType x) (VStr s)" if "typed_at E k x" "k \<in> {CfgApiKey, CfgServiceName, CfgAgentName, CfgAppName}" for x s
    using that by (auto simp: typed_at_def registry_item_def registry_rule_types)
  then show ?thesis using assms unfolding identity_item_def by (intro typed_set_item) simp_all
qed

lemma typed_norm: "level_typed E l \<Longrightarrow> typed_at E k it \<Longrightarrow> typed_at E k (norm_item E l k it)"
  using norm_typed [of E l k it] registry_item_cong [of "norm_item E l k it" it k] by (simp add: typed_at_def)

lemma published_map:
  "map_of (load_values (publishFrom E prev c)) k = map_option (\<lambda>it. let m = as_int E (staged c CfgSQLMaxBindValueSize) in
     if m < 0 \<and> k = CfgSQLMaxBindValueSize then VInt 0 else if m < 0 \<and> k = CfgSQLTraceBindValue then VBool False else cfg_value it)
     (map_of (cfgMap (publishFrom E prev c)) k)"
  by (simp add: load_published publish_values_keyed Let_def)

lemma published_typed:
  assumes "\<forall>(k, it) \<in> set (cfgMap (publishFrom E prev c)). typed_at E k it" "map_of (cfgMap (publishFrom E prev c)) k = Some it"
  shows "\<exists>v. map_of (load_values (publishFrom E prev c)) k = Some v \<and> has_type E (valueType it) v"
proof -
  have "typed_at E k it" using assms(1) map_of_SomeD [OF assms(2)] by auto
  then show ?thesis unfolding published_map assms(2)
    by (auto simp: typed_at_def Let_def registry_item_def registry_rule_types)
qed

lemma level_published:
  assumes "level_typed E (map_of (load_values c) CfgLogLevel)"
    "\<And>it. map_of (cfgMap c) CfgLogLevel = Some it \<Longrightarrow> registry_item CfgLogLevel it \<and> has_type E (valueType it) (cfg_value it)"
  shows "level_typed E (map_of (load_values (publishFrom E prev c)) CfgLogLevel)"
proof (cases "map_of (cfgMap c) CfgLogLevel")
  case (Some it)
  have "valueType it = CfgString" using assms(2) [OF Some] by (simp add: registry_item_def registry_rule_types)
  moreover have "CfgLogLevel \<noteq> CfgSQLMaxBindValueSize" "CfgLogLevel \<noteq> CfgSQLTraceBindValue" by (simp_all add: option_keys)
  ultimately show ?thesis
    using Some norm_typed [OF assms(1), of CfgLogLevel it] assms(2) [OF Some] by (simp add: level_typed_def published_map cfgMap_keyed)
qed (simp add: level_typed_def published_map cfgMap_keyed)

lemma typed_publish:
  assumes "typed_config E c"
  shows "typed_config E (publishFrom E prev c)"
proof -
  let ?l = "map_of (load_values c) CfgLogLevel"
  have items: "\<forall>(k, it) \<in> set (cfgMap (publishFrom E prev c)). typed_at E k it"
  proof (safe)
    fix k x
    assume "(k, x) \<in> set (cfgMap (publishFrom E prev c))"
    then obtain it where "(k, it) \<in> set (cfgMap c)" "x = norm_item E ?l k it" unfolding cfgMap_keyed in_keyed by blast
    then show "typed_at E k x" using assms typed_norm [of E ?l k it] by (auto simp: typed_config_def)
  qed
  moreover have "level_typed E (map_of (load_values (publishFrom E prev c)) CfgLogLevel)"
    using assms by (intro level_published) (auto simp: typed_config_def typed_at_def dest: map_of_SomeD)
  ultimately show ?thesis using assms by (simp add: typed_config_def cfgMap_keyed)
qed

lemma typed_keyed:
  assumes "typed_config E c" "cfgMap c' = keyed f (cfgMap c)" "load_values c' = load_values c" "\<And>k it. typed_at E k it \<Longrightarrow> typed_at E k (f k it)"
  shows "typed_config E c'"
  using assms by (fastforce simp: typed_config_def in_keyed)

lemma typed_steps:
  fixes c :: "'a Config"
  assumes "typed_config E c"
  shows "typed_config E (restage E s a c)" "typed_config E (setResolvedIdentity o1 c)" "typed_config E (stage CfgIsContainerEnv (VBool b) c)"
proof -
  show "typed_config E (restage E s a c)" by (rule typed_keyed [OF assms cfgMap_keyed(3)]) (simp_all add: typed_restage)
  show "typed_config E (setResolvedIdentity o1 c)" by (rule typed_keyed [OF assms cfgMap_keyed(6)]) (simp_all add: typed_identity)
  show "typed_config E (stage CfgIsContainerEnv (VBool b) c)"
  proof (rule typed_keyed [OF assms cfgMap_keyed(1)])
    fix k and it :: "'a cfgMapItem"
    assume it: "typed_at E k it"
    show "typed_at E k (set_item CfgIsContainerEnv (VBool b) k it)"
      by (rule typed_set_item [OF it]) (use it in \<open>simp add: typed_at_def registry_item_def registry_rule_types\<close>)
  qed simp
qed

lemma typed_do:
  assumes "typed_config E c"
  shows "typed_config E (cfg_do E op c)"
proof (cases op)
  case (OpSet k v)
  show ?thesis
  proof (cases rule: config_Set_cases [of E k v c])
    case (2 c1)
    have "typed_config E c1" by (rule typed_keyed [OF assms 2(2)]) (simp_all add: typed_set_final load_values_def 2(3))
    then show ?thesis using OpSet 2(1) by (simp add: publish_def typed_publish)
  qed (use assms OpSet in simp)
next
  case (OpIdentity g d)
  have "typed_config E (c\<lparr>objName := x\<rparr>)" for x using assms by (simp add: typed_config_def load_values_def)
  then show ?thesis
    using assms OpIdentity by (auto simp: checkNameAndID_def publish_def typed_publish typed_steps split: sum.split)
next
  case (OpReloadFile r)
  then show ?thesis
    using assms by (cases r) (simp_all add: reloadConfig_def Let_def publish_def typed_publish typed_steps)
next
  case (OpReloadYAML g d t)
  show ?thesis
  proof (cases rule: stageYAML_cases [of E g d t c])
    case (2 tree o1)
    have "typed_config E (reloadCandidate c)" using assms by (simp add: typed_config_def reloadCandidate_def load_values_def)
    then have cand: "typed_config E (setResolvedIdentity o1 (yaml_candidate E tree c))"
      unfolding yaml_candidate_def publish_def by (intro typed_steps typed_publish)
    let ?items = "keyed (identity_item o1) (cfgMap (yaml_candidate E tree c))"
    have "typed_at E k (reload_item ?items k it)" if it: "(k, it) \<in> set (cfgMap c)" for k it
    proof -
      have m: "map_of (cfgMap c) k = Some it" using assms it by (simp add: typed_config_def)
      let ?x = "identity_item o1 k (norm_item E (map_of (load_values c) CfgLogLevel) k (restage_item E (yaml_sources E tree c) True k it))"
      have x: "map_of ?items k = Some ?x" unfolding candidate_map by (simp add: m)
      have "(k, ?x) \<in> set (cfgMap (setResolvedIdentity o1 (yaml_candidate E tree c)))"
        using map_of_SomeD [OF x] by (simp add: cfgMap_keyed)
      then have "has_type E (valueType it) (cfg_value ?x)" using cand by (auto simp: typed_config_def typed_at_def)
      moreover have "typed_at E k it" using assms it by (auto simp: typed_config_def)
      moreover have "registry_item k (reload_item ?items k it) = registry_item k it" by (rule registry_item_cong) simp_all
      moreover have "cfg_value (reload_item ?items k it) \<in> {cfg_value ?x, cfg_value it}" unfolding reload_item_def x by simp
      ultimately show ?thesis by (auto simp: typed_at_def)
    qed
    then have "typed_config E (c\<lparr>cfgMap := keyed (reload_item ?items) (cfgMap c), built := n\<rparr>)" for n
      using assms by (auto simp: typed_config_def load_values_def in_keyed)
    then show ?thesis using OpReloadYAML 2(6) by (simp add: typed_publish)
  qed (use assms OpReloadYAML in simp)
qed

lemma typed_run: "typed_config E c \<Longrightarrow> typed_config E (fold (cfg_do E) ops c)"
  by (induction ops arbitrary: c) (simp_all add: typed_do)

section \<open>From the options of NewConfig\<close>

text \<open>
  While the options of \<open>NewConfig\<close> are applied a value may have another type than its option; only the level, which a later
  publication may copy, is kept typed. \<^verbatim>\<open>WithLogLevel\<close> takes a string.
\<close>

fun level_string :: "'f cfgOption \<Rightarrow> bool" where
  "level_string (WithValue k v) = (k = CfgLogLevel \<longrightarrow> (case v of VStr _ \<Rightarrow> True | _ \<Rightarrow> False))"
| "level_string _ = True"

definition option_at :: "'f cfg_env \<Rightarrow> string \<Rightarrow> 'f cfgMapItem \<Rightarrow> bool" where
  "option_at E k it \<longleftrightarrow> registry_item k it \<and> convertCfgValue E (valueType it) (defaultValue it) \<noteq> None
     \<and> (k = CfgLogLevel \<longrightarrow> has_type E (valueType it) (cfg_value it))"

definition option_config :: "'f cfg_env \<Rightarrow> 'f Config \<Rightarrow> bool" where
  "option_config E c \<longleftrightarrow> distinct (map fst (cfgMap c)) \<and> (\<forall>(k, it) \<in> set (cfgMap c). option_at E k it)
     \<and> level_typed E (map_of (load_values c) CfgLogLevel)"

lemma option_keyed:
  assumes "option_config E c" "cfgMap c' = keyed f (cfgMap c)" "load_values c' = load_values c" "\<And>k it. option_at E k it \<Longrightarrow> option_at E k (f k it)"
  shows "option_config E c'"
  using assms by (fastforce simp: option_config_def in_keyed)

lemma option_publish:
  assumes "option_config E c"
  shows "option_config E (publishFrom E prev c)"
proof -
  let ?l = "map_of (load_values c) CfgLogLevel"
  have "option_at E k (norm_item E ?l k it)" if "option_at E k it" for k it
    using that assms norm_typed [of E ?l k it] registry_item_cong [of "norm_item E ?l k it" it k] by (auto simp: option_at_def option_config_def)
  then have "\<forall>(k, it) \<in> set (cfgMap (publishFrom E prev c)). option_at E k it"
    using assms unfolding cfgMap_keyed option_config_def by (fastforce simp: in_keyed)
  moreover have "level_typed E (map_of (load_values (publishFrom E prev c)) CfgLogLevel)"
    using assms by (intro level_published) (auto simp: option_config_def option_at_def dest: map_of_SomeD)
  ultimately show ?thesis using assms by (simp add: option_config_def cfgMap_keyed)
qed

lemma option_step:
  fixes c :: "'a Config"
  assumes "option_config E c" "level_string op"
  shows "option_config E (apply_option E op c)"
proof (cases op)
  case (WithValue k v)
  have "option_config E (stage k v c)"
  proof (rule option_keyed [OF assms(1) cfgMap_keyed(1)])
    fix k' and it :: "'a cfgMapItem"
    assume it: "option_at E k' it"
    then have "valueType it = CfgString" if "k' = CfgLogLevel" using that by (simp add: option_at_def registry_item_def registry_rule_types)
    then show "option_at E k' (set_item k v k' it)"
      using it assms(2) WithValue registry_item_cong [of "set_item k v k' it" it k']
      by (auto simp: option_at_def set_item_def split: cfgValue.splits)
  qed simp
  then show ?thesis using WithValue by simp
next
  case (WithSet k v)
  show ?thesis
  proof (cases rule: config_Set_cases [of E k v c])
    case (2 c1)
    have "option_at E k' (set_final E k v k' it)" if "option_at E k' it" for k' it
      using that registry_item_cong [of "set_final E k v k' it" it k']
      by (auto simp: option_at_def) (auto simp: set_final_def setFinalValue_def convert_has_type split: option.splits)
    then have "option_config E c1" by (intro option_keyed [OF assms(1) 2(2)]) (simp_all add: load_values_def 2(3))
    then show ?thesis using WithSet 2(1) by (simp add: publish_def option_publish)
  qed (use assms WithSet in simp)
next
  case (WithIsContainerEnv b)
  have neq: "CfgIsContainerEnv \<noteq> CfgLogLevel" by (simp add: option_keys)
  have "option_config E (stage CfgIsContainerEnv (VBool b) c)"
  proof (rule option_keyed [OF assms(1) cfgMap_keyed(1)])
    fix k and it :: "'a cfgMapItem"
    assume "option_at E k it"
    then show "option_at E k (set_item CfgIsContainerEnv (VBool b) k it)"
      using neq registry_item_cong [of "set_item CfgIsContainerEnv (VBool b) k it" it k] by (auto simp: option_at_def set_item_def)
  qed simp
  then show ?thesis using WithIsContainerEnv by (simp add: option_config_def load_values_def)
qed

lemma option_fold: "option_config E c \<Longrightarrow> list_all level_string opts \<Longrightarrow> option_config E (fold (apply_option E) opts c)"
  by (induction opts arbitrary: c) (simp_all add: option_step)

lemma typed_item_typed: "convertCfgValue E (valueType it) (defaultValue it) \<noteq> None \<Longrightarrow> has_type E (valueType it) (cfg_value (typed_item E it))"
  by (auto simp: typed_item_def convert_has_type split: option.splits)

lemma default_typed:
  assumes "\<forall>(k, it) \<in> set base. registry_item k it \<and> convertCfgValue E (valueType it) (defaultValue it) \<noteq> None" "distinct (map fst base)"
  shows "option_config E (defaultConfig E base)" "\<forall>(k, it) \<in> set (cfgMap (defaultConfig E base)). has_type E (valueType it) (cfg_value it)"
proof -
  define c0 :: "'a Config" where "c0 = \<lparr>cfgMap = normalizeCfgValues E base, callback = [], snapshot = None, static = False,
    configFileCfg = None, containerCheck = True, objName = None, built = 0\<rparr>"
  have items: "registry_item k it \<and> convertCfgValue E (valueType it) (defaultValue it) \<noteq> None \<and> has_type E (valueType it) (cfg_value it)"
    if "(k, it) \<in> set (cfgMap c0)" for k it
    using that assms(1) registry_item_cong [of "typed_item E _" _ k] by (fastforce simp: c0_def normalizeCfgValues_def in_keyed typed_item_typed)
  have c0: "option_config E c0"
    using items assms(2) by (auto simp: option_config_def option_at_def level_typed_def load_values_def) (simp_all add: c0_def normalizeCfgValues_def)
  have d: "defaultConfig E base = publishFrom E (snapshot c0) c0" by (simp add: defaultConfig_def publish_def c0_def)
  show "option_config E (defaultConfig E base)" unfolding d by (rule option_publish [OF c0])
  have "level_typed E (map_of (load_values c0) CfgLogLevel)" using c0 by (simp add: option_config_def)
  then have "has_type E (valueType it) (cfg_value (norm_item E (map_of (load_values c0) CfgLogLevel) k it))" if "(k, it) \<in> set (cfgMap c0)" for k it
    using norm_typed [of E _ k it] items [OF that] by simp
  then show "\<forall>(k, it) \<in> set (cfgMap (defaultConfig E base)). has_type E (valueType it) (cfg_value it)"
    unfolding d cfgMap_keyed by (fastforce simp: in_keyed)
qed

lemma typed_base:
  assumes "\<forall>(k, it) \<in> set base. registry_item k it \<and> convertCfgValue E (valueType it) (defaultValue it) \<noteq> None"
    "distinct (map fst base)" "list_all level_string opts"
  shows "typed_config E (with_base E base opts)"
proof -
  let ?c = "fold (apply_option E) opts (defaultConfig E base)"
  have opt: "option_config E ?c" by (rule option_fold [OF default_typed(1) [OF assms(1,2)] assms(3)])
  define f where "f k it = (if opts \<noteq> [] then typed_item E (if source it = cfgSrcAPI then it\<lparr>source := cfgSrcDefault\<rparr> else it) else it)"
    for k :: string and it
  have w: "cfgMap (with_base E base opts) = keyed (\<lambda>k it. (f k it)\<lparr>baseValue := cfg_value (f k it)\<rparr>) (cfgMap ?c)"
    "load_values (with_base E base opts) = load_values ?c"
    by (simp_all add: with_base_def normalizeCfgValues_def load_values_def Let_def f_def)
  have f: "has_type E (valueType it) (cfg_value (f k it))" if it: "(k, it) \<in> set (cfgMap ?c)" for k it
  proof (cases "opts = []")
    case True
    then show ?thesis using it default_typed(2) [OF assms(1,2)] by (auto simp: f_def)
  next
    case False
    then show ?thesis
      using opt it typed_item_typed [of E it] typed_item_typed [of E "it\<lparr>source := cfgSrcDefault\<rparr>"]
      by (auto simp: option_config_def option_at_def f_def)
  qed
  have "typed_at E k ((f k it)\<lparr>baseValue := cfg_value (f k it)\<rparr>)" if it: "(k, it) \<in> set (cfgMap ?c)" for k it
  proof -
    have "registry_item k it" using opt it by (auto simp: option_config_def option_at_def)
    moreover have "registry_item k ((f k it)\<lparr>baseValue := cfg_value (f k it)\<rparr>) = registry_item k it"
      by (rule registry_item_cong) (simp_all add: f_def)
    moreover have "valueType (f k it) = valueType it" by (simp add: f_def)
    ultimately show ?thesis using f [OF it] by (simp add: typed_at_def)
  qed
  then show ?thesis using opt unfolding typed_config_def option_config_def w by (auto simp: in_keyed)
qed

lemma NewConfig_typed:
  assumes "\<forall>(k, it) \<in> set base. registry_item k it \<and> convertCfgValue E (valueType it) (defaultValue it) \<noteq> None"
    "distinct (map fst base)" "list_all level_string opts"
  shows "typed_config E (snd (NewConfig E base opts args env read b))"
proof -
  obtain c s where c: "snd (NewConfig E base opts args env read b) = publish E (if containerCheck (restage E s True c)
      then stage CfgIsContainerEnv (VBool b) (restage E s True c) else restage E s True c)"
    and cm: "cfgMap c = cfgMap (with_base E base opts)" "snapshot c = snapshot (with_base E base opts)"
    by (rule NewConfig_published)
  have "typed_config E c" using typed_base [OF assms] cm by (simp add: typed_config_def load_values_def)
  then show ?thesis unfolding c publish_def by (simp add: typed_publish typed_steps)
qed

section \<open>What is published is typed\<close>

definition values_typed :: "'f cfg_env \<Rightarrow> 'f Config \<Rightarrow> bool" where
  "values_typed E c \<longleftrightarrow> (\<forall>(k, it) \<in> set (cfgMap c). \<exists>v. map_of (load_values c) k = Some v \<and> has_type E (valueType it) v)"

lemma published_values_typed:
  assumes "typed_config E (publishFrom E prev c)"
  shows "values_typed E (publishFrom E prev c)"
  using assms published_typed [of E prev c] by (auto simp: values_typed_def typed_config_def)

lemma cfg_do_cases:
  obtains "cfg_do E op c = c" | prev c1 where "cfg_do E op c = publishFrom E prev c1"
proof (cases op)
  case (OpSet k v)
  then show thesis by (cases rule: config_Set_cases [of E k v c]) (auto simp: publish_def intro: that)
next
  case (OpIdentity g d)
  show thesis
  proof (cases "resolveObjectName (config_String E c) g d")
    case (Inl e)
    then show thesis using OpIdentity by (intro that(1)) (simp add: checkNameAndID_def)
  next
    case (Inr o1)
    then show thesis using OpIdentity by (intro that(2)) (simp add: checkNameAndID_def publish_def)
  qed
next
  case (OpReloadFile r)
  then show thesis by (cases r) (auto simp: reloadConfig_def Let_def publish_def intro: that)
next
  case (OpReloadYAML g d t)
  then show thesis by (cases rule: stageYAML_cases [of E g d t c]) (auto intro: that)
qed

lemma values_typed_run:
  "typed_config E c \<Longrightarrow> values_typed E c \<Longrightarrow> values_typed E (fold (cfg_do E) ops c)"
proof (induction ops arbitrary: c)
  case (Cons op ops)
  have "values_typed E (cfg_do E op c)"
    using Cons.prems typed_do [OF Cons.prems(1), of op] published_values_typed
    by (cases rule: cfg_do_cases [of E op c]) auto
  then show ?case using Cons.IH [OF typed_do [OF Cons.prems(1)]] by simp
qed simp

text \<open>
  (C32) Every option is published at the type it was registered with, whatever the options, flags, environment and file hold, and
  whatever is set or reloaded later: a value that does not convert falls back to the default or is dropped, and an integer is one of Go's 64 bits.
  \<open>base\<close>: the options registered by the agent and the plugins, each with a default that converts.
\<close>

theorem options_always_typed:
  assumes "\<forall>(k, it) \<in> set base. registry_item k it \<and> convertCfgValue E (valueType it) (defaultValue it) \<noteq> None"
    "distinct (map fst base)" "list_all level_string opts"
  shows "let c = fold (cfg_do E) ops (snd (NewConfig E base opts args env read b)) in
    \<forall>(k, it) \<in> set (cfgMap c). \<exists>v. map_of (load_values c) k = Some v \<and> has_type E (valueType it) v"
proof -
  let ?c = "snd (NewConfig E base opts args env read b)"
  have t: "typed_config E ?c" by (rule NewConfig_typed [OF assms])
  obtain c1 where "?c = publish E c1" by (rule NewConfig_published)
  then have "values_typed E ?c" using published_values_typed t by (simp add: publish_def)
  then show ?thesis using values_typed_run [OF t] by (simp add: values_typed_def Let_def)
qed

theorem options_always_typed_witness:
  "let c = snd (NewConfig plain_env [AddConfig CfgSpanQueueSize CfgInt (VInt 1024) False] [WithValue CfgSpanQueueSize (VStr ''x'')]
       [] (\<lambda>_. None) (\<lambda>_. NotExist) False)
   in cfgMap c \<noteq> [] \<and> (\<exists>v. map_of (load_values c) (fst (hd (cfgMap c))) = Some v \<and> has_type plain_env (valueType (snd (hd (cfgMap c)))) v)"
proof -
  let ?base = "[AddConfig CfgSpanQueueSize CfgInt (VInt 1024) False] :: (string \<times> unit cfgMapItem) list"
  let ?opts = "[WithValue CfgSpanQueueSize (VStr ''x'')] :: unit cfgOption list"
  define c where "c = snd (NewConfig plain_env ?base ?opts [] (\<lambda>_. None) (\<lambda>_. NotExist) False)"
  have reg: "map_of registry CfgSpanQueueSize = Some (CfgInt, VInt 1024, False)" by (rule registry_ranges)
  have "convertCfgValue plain_env CfgInt (VInt 1024) \<noteq> None" by code_simp
  then have base: "\<forall>(k, it) \<in> set ?base. registry_item k it \<and> convertCfgValue plain_env (valueType it) (defaultValue it) \<noteq> None"
    by (simp add: AddConfig_def registry_item_def reg)
  have reg_base: "\<forall>(k, it) \<in> set ?base. registry_item k it" using base by auto
  obtain c1 s where "c = publish plain_env (if containerCheck (restage plain_env s True c1)
      then stage CfgIsContainerEnv (VBool False) (restage plain_env s True c1) else restage plain_env s True c1)"
    "cfgMap c1 = cfgMap (with_base plain_env ?base ?opts)"
    unfolding c_def by (rule NewConfig_published)
  then have "map fst (cfgMap c) = map fst ?base" using shaped_base [OF reg_base, of plain_env ?opts] by (simp add: cfgMap_keyed shaped_def)
  then have "cfgMap c \<noteq> []" by auto
  moreover have "\<forall>(k, it) \<in> set (cfgMap c). \<exists>v. map_of (load_values c) k = Some v \<and> has_type plain_env (valueType it) v"
    using options_always_typed [OF base, of ?opts "[]"] by (simp add: c_def Let_def option_keys)
  ultimately show ?thesis unfolding c_def [symmetric] Let_def by (cases "cfgMap c") auto
qed

end
