(* ===== verification/Agent_Messages.thy ===== *)
theory Agent_Messages
  imports Object_Name Valid_Utf8 Meta
begin

text \<open>
  What the agent tells the collector about itself and about its metadata (\<^verbatim>\<open>src/grpc.go\<close>, the stack frames of \<^verbatim>\<open>src/errors.go\<close>): the headers
  of every call, the registration message, and the messages of API, error, SQL and exception metadata. The readings of the host (name,
  addresses, process id, arguments, build information, the frames of the Go runtime) are arguments. Shown: the headers are ones gRPC
  can carry, and no byte of the host can make a message fail to encode.
\<close>

section \<open>Headers\<close>

definition headerAppName :: string where "headerAppName = ''applicationname''"
definition headerAgentID :: string where "headerAgentID = ''agentid''"
definition headerAgentName :: string where "headerAgentName = ''agentname''"
definition headerStartTime :: string where "headerStartTime = ''starttime''"
definition headerSocketID :: string where "headerSocketID = ''socketid''"
definition headerServiceType :: string where "headerServiceType = ''servicetype''"
definition headerProtocolVersion :: string where "headerProtocolVersion = ''protocol.version''"
definition headerServiceName :: string where "headerServiceName = ''servicename''"
definition headerApiKey :: string where "headerApiKey = ''apikey''"
definition headerSupportCommandCode :: string where "headerSupportCommandCode = ''supportcommandcode''"
definition supportCommandCodeHeader :: string where "supportCommandCodeHeader = ''710;730;740;750''"

lemmas header_names = headerAppName_def headerAgentID_def headerAgentName_def headerStartTime_def headerSocketID_def headerServiceType_def
  headerProtocolVersion_def headerServiceName_def headerApiKey_def headerSupportCommandCode_def

definition agentHeaderMap :: "objectName \<Rightarrow> go_int64 \<Rightarrow> go_int32 \<Rightarrow> (string \<times> string) list" where
  "agentHeaderMap o1 startTime appType =
     [(headerAppName, applicationName o1), (headerAgentID, agentID o1), (headerStartTime, FormatInt (sint startTime)),
      (headerServiceType, FormatInt (sint appType)), (headerProtocolVersion, FormatInt (protocolVersion o1))]
     @ (if isV4 o1
        then [(headerAgentName, agentName o1), (headerServiceName, serviceName o1)]
          @ (if apiKey o1 \<noteq> [] then [(headerApiKey, apiKey o1)] else [])
        else if agentName o1 \<noteq> [] then [(headerAgentName, agentName o1)] else [])"

definition grpcMetadataContext :: "objectName \<Rightarrow> go_int64 \<Rightarrow> go_int32 \<Rightarrow> go_int64 \<Rightarrow> (string \<times> string) list" where
  "grpcMetadataContext o1 startTime appType socketId =
     (if sint socketId \<le> 0 then agentHeaderMap o1 startTime appType
      else agentHeaderMap o1 startTime appType @ [(headerSocketID, FormatInt (sint socketId))])"

definition commandMetadataContext :: "objectName \<Rightarrow> go_int64 \<Rightarrow> go_int32 \<Rightarrow> (string \<times> string) list" where
  "commandMetadataContext o1 startTime appType =
     agentHeaderMap o1 startTime appType @ [(headerSupportCommandCode, supportCommandCodeHeader)]"

text \<open>What gRPC accepts as a header: a lower case name, a printable value.\<close>

definition header_ok :: "string \<times> string \<Rightarrow> bool" where
  "header_ok h \<longleftrightarrow> fst h \<noteq> [] \<and> list_all (\<lambda>c. 97 \<le> byte_of c \<and> byte_of c \<le> 122 \<or> c = CHR ''.'') (fst h) \<and> isPrintableASCII (snd h)"

lemma FormatInt_printable: "isPrintableASCII (FormatInt n)"
  by (rule isIDChars_printable) (rule isIDChars_FormatInt)

lemma IsValidId_chars: "IsValidId s n \<Longrightarrow> isIDChars s"
  by (simp add: IsValidId_def split: if_splits)

lemma encodeUID_chars: "isIDChars (encodeUID u)"
  by (simp add: encodeUID_def encoding_chars)

lemma agent_headers_ok:
  assumes "sendable o1" "isIDChars (agentID o1)"
  shows "list_all header_ok (agentHeaderMap o1 st ty)" "distinct (map fst (agentHeaderMap o1 st ty))"
    "headerSocketID \<notin> set (map fst (agentHeaderMap o1 st ty))" "headerSupportCommandCode \<notin> set (map fst (agentHeaderMap o1 st ty))"
proof -
  have "isIDChars (applicationName o1)" "isIDChars (agentName o1)" "isV4 o1 \<Longrightarrow> isIDChars (serviceName o1)"
    "isPrintableASCII (apiKey o1)"
    using assms(1) by (auto simp: sendable_def dest: IsValidId_chars split: if_splits)
  with assms(2) show "list_all header_ok (agentHeaderMap o1 st ty)" "distinct (map fst (agentHeaderMap o1 st ty))"
    "headerSocketID \<notin> set (map fst (agentHeaderMap o1 st ty))" "headerSupportCommandCode \<notin> set (map fst (agentHeaderMap o1 st ty))"
    by (auto simp: agentHeaderMap_def header_ok_def header_names FormatInt_printable isIDChars_printable)
qed

text \<open>
  (C28) An agent that starts can talk: whatever the configuration holds, if an identity was resolved from it, the headers of every call,
  of the ping stream and of the command stream have distinct lower case names and printable values, so gRPC sends them.
\<close>

theorem call_headers_sendable:
  assumes "- (2 ^ 63) \<le> pid" "pid < 2 ^ 63" "resolveObjectNameWithID str (makeAgentName host pid) (encodeUID u) u = Inr o1"
  shows "let calls = grpcMetadataContext o1 st ty socketId; commands = commandMetadataContext o1 st ty
    in list_all header_ok calls \<and> distinct (map fst calls) \<and> list_all header_ok commands \<and> distinct (map fst commands)"
proof -
  have o1: "sendable o1" "isIDChars (agentID o1)"
    using identity_cases [OF assms(1,2), where str = str and host = host and aid = "encodeUID u" and uid = u] by (simp_all add: assms(3) encodeUID_chars)
  note ok = agent_headers_ok [OF o1, of st ty]
  have "header_ok (headerSocketID, FormatInt (sint socketId))" "header_ok (headerSupportCommandCode, supportCommandCodeHeader)"
    by (simp_all add: header_ok_def header_names FormatInt_printable supportCommandCodeHeader_def)
  with ok show ?thesis by (auto simp: grpcMetadataContext_def commandMetadataContext_def Let_def)
qed

theorem call_headers_sendable_witness:
  "let o1 = \<lparr>version = nameV1, agentID = encodeUID (replicate 16 7), agentName = ''my_host-7'', applicationName = ''shop'', serviceName = [],
       apiKey = [], agentUID = replicate 16 0\<rparr>
   in list_all header_ok (commandMetadataContext o1 1700000000000 1800) \<and> list_all header_ok (grpcMetadataContext o1 1700000000000 1800 1)"
proof -
  define str :: "string \<Rightarrow> string" where "str = (\<lambda>_. [])(CfgAppName := ''shop'', CfgUIDVersion := ''v1'')"
  have trims: "TrimSpace (str CfgAppName) = ''shop''" "TrimSpace (str CfgAgentName) = []" "TrimSpace (str CfgUIDVersion) = ''v1''"
    by (simp_all add: str_def cfg_names TrimSpace_spaces TrimSpace_graphic graphic_def)
  have "makeAgentName ''my host'' 7 = ''my_host-7''" "ToLower ''v1'' = ''v1''" by code_simp+
  then have "resolveObjectNameWithID str (makeAgentName ''my host'' 7) (encodeUID (replicate 16 7)) (replicate 16 7)
    = Inr \<lparr>version = nameV1, agentID = encodeUID (replicate 16 7), agentName = ''my_host-7'', applicationName = ''shop'', serviceName = [],
        apiKey = [], agentUID = replicate 16 0\<rparr>"
    by (simp add: resolveObjectNameWithID_def parseNameVersion_def resolveAgentName_def trims length_limits IsValidId_def
        is_id_char_def isLetter_def isDigit_def)
  from call_headers_sendable [OF _ _ this, where st = 1700000000000 and ty = 1800 and socketId = 1] show ?thesis by (simp add: Let_def)
qed

section \<open>Addresses\<close>

text \<open>\<^verbatim>\<open>net.JoinHostPort\<close>: a host with a colon is an IPv6 literal and is bracketed.\<close>

definition JoinHostPort :: "string \<Rightarrow> string \<Rightarrow> string" where
  "JoinHostPort host port = (if CHR '':'' \<in> set host then ''['' @ host @ '']:'' @ port else host @ '':'' @ port)"

definition serverAddr :: "string \<Rightarrow> int \<Rightarrow> string" where
  "serverAddr host port = JoinHostPort host (FormatInt port)"

definition collectorTarget :: "bool \<Rightarrow> string \<Rightarrow> string" where
  "collectorTarget dnsResolverEnable addr = (if \<not> dnsResolverEnable then ''passthrough:///'' @ addr else ''dns:///'' @ addr)"

text \<open>An interface address with the tests \<^verbatim>\<open>net.IP\<close> makes of it; \<open>None\<close> is an address that is no \<^verbatim>\<open>*net.IPNet\<close>.\<close>

record ip_addr =
  ip_text :: string
  is_loopback :: bool
  is_link_local :: bool
  is_unspecified :: bool
  is_v4 :: bool

fun unicast_loop :: "string \<Rightarrow> ip_addr option list \<Rightarrow> string" where
  "unicast_loop v6 [] = v6"
| "unicast_loop v6 (a # as) =
     (case a of
        None \<Rightarrow> unicast_loop v6 as
      | Some ip \<Rightarrow>
          if is_loopback ip \<or> is_link_local ip \<or> is_unspecified ip then unicast_loop v6 as
          else if is_v4 ip then ip_text ip
          else unicast_loop (if v6 = [] then ip_text ip else v6) as)"

definition firstUnicastIP :: "ip_addr option list \<Rightarrow> string" where
  "firstUnicastIP = unicast_loop []"

record interface =
  is_up :: bool
  if_loopback :: bool
  if_addrs :: "ip_addr option list option"

fun firstInterfaceIP :: "interface list option \<Rightarrow> string" where
  "firstInterfaceIP None = []"
| "firstInterfaceIP (Some []) = []"
| "firstInterfaceIP (Some (i # is)) =
     (if \<not> is_up i \<or> if_loopback i then firstInterfaceIP (Some is)
      else case if_addrs i of
        Some addrs \<Rightarrow> let ip = firstUnicastIP addrs in if ip \<noteq> [] then ip else firstInterfaceIP (Some is)
      | None \<Rightarrow> firstInterfaceIP (Some is))"

text \<open>\<open>route\<close> is the source address the kernel picks toward an address, if any.\<close>

definition routeSourceIP :: "(string \<Rightarrow> ip_addr option) \<Rightarrow> string \<Rightarrow> string" where
  "routeSourceIP route addr = (case route addr of Some ip \<Rightarrow> if is_loopback ip then [] else ip_text ip | None \<Rightarrow> [])"

definition localIP :: "(string \<Rightarrow> bool) \<Rightarrow> (string \<Rightarrow> ip_addr option) \<Rightarrow> interface list option \<Rightarrow> string \<Rightarrow> string" where
  "localIP ipLiteral route interfaces collectorAddr =
     (let direct = (if ipLiteral collectorAddr then routeSourceIP route collectorAddr else [])
      in if direct \<noteq> [] then direct
         else let public = routeSourceIP route ''8.8.8.8:80''
              in if public \<noteq> [] then public else firstInterfaceIP interfaces)"

section \<open>Registration\<close>

record serviceInfo =
  si_name :: string
  si_libs :: "string list"

record PServerMetaData =
  serverInfo :: string
  vmArg :: "string list"
  serviceInfos :: "serviceInfo list"

record PAgentInfo =
  hostname :: string
  ip_of :: string
  serviceType_of :: go_int32
  pid_of :: go_int32
  agentVersion :: string
  vmVersion :: string
  serverMetaData :: PServerMetaData
  jvmVersion :: string
  container :: bool

text \<open>What the registration reads of the process and its host.\<close>

record host =
  os_hostname :: "string option"
  os_args :: "string list"
  os_pid :: int
  go_version :: string
  go_os :: string
  go_arch :: string
  build_deps :: "(string \<times> string) list option"
  goIdOffset :: int
  local_ip :: string

definition Version :: string where "Version = ''2.0.0-rc.1''"

definition getHostName :: "host \<Rightarrow> string" where
  "getHostName h = (case os_hostname h of Some n \<Rightarrow> n | None \<Rightarrow> ''unknown host'')"

definition makeGoLibraryInfo :: "host \<Rightarrow> serviceInfo" where
  "makeGoLibraryInfo h =
     \<lparr>si_name = ''Go ('' @ go_os h @ '', '' @ go_arch h @ '')'',
      si_libs = (case build_deps h of Some deps \<Rightarrow> map (\<lambda>(path, v). validUTF8 (path @ '' ('' @ v @ '')'')) deps | None \<Rightarrow> [])\<rparr>"

definition makeServerMetaData :: "host \<Rightarrow> bool \<Rightarrow> string \<Rightarrow> serviceInfo list \<Rightarrow> PServerMetaData" where
  "makeServerMetaData h sendArgs configured services =
     \<lparr>serverInfo = validUTF8 (if configured \<noteq> [] then configured else ''Go Application''),
      vmArg = (if sendArgs \<and> length (os_args h) > 1 then map validUTF8 (drop 1 (os_args h)) else []),
      serviceInfos = makeGoLibraryInfo h # map (\<lambda>si. \<lparr>si_name = validUTF8 (si_name si), si_libs = map validUTF8 (si_libs si)\<rparr>) services\<rparr>"

definition makeAgentInfo :: "host \<Rightarrow> go_int32 \<Rightarrow> bool \<Rightarrow> string \<Rightarrow> serviceInfo list \<Rightarrow> bool \<Rightarrow> PAgentInfo" where
  "makeAgentInfo h appType sendArgs configured services inContainer =
     \<lparr>hostname = validUTF8 (getHostName h), ip_of = validUTF8 (local_ip h), serviceType_of = appType, pid_of = word_of_int (os_pid h),
      agentVersion = Version, vmVersion = go_version h, serverMetaData = makeServerMetaData h sendArgs configured services,
      jvmVersion = go_version h @ ''('' @ FormatInt (goIdOffset h) @ '')'', container = inContainer\<rparr>"

definition service_strings :: "serviceInfo \<Rightarrow> string list" where
  "service_strings si = si_name si # si_libs si"

definition agent_info_strings :: "PAgentInfo \<Rightarrow> string list" where
  "agent_info_strings p =
     [hostname p, ip_of p, agentVersion p, vmVersion p, jvmVersion p, serverInfo (serverMetaData p)] @ vmArg (serverMetaData p)
     @ concat (map service_strings (serviceInfos (serverMetaData p)))"

lemma ValidString_printable: "isPrintableASCII s \<Longrightarrow> ValidString s"
  unfolding isPrintableASCII_iff by (rule ValidString_ascii) (fastforce simp: list_all_iff)

lemma ValidString_ascii_Cons [simp]: "byte_of c < 0x80 \<Longrightarrow> ValidString (c # s) \<longleftrightarrow> ValidString s"
  by (simp add: ValidString.simps [of "c # s"] lead_width_def)

text \<open>
  Registration cannot fail for the bytes of the host: whatever the host name, the arguments, the dependencies and the configured
  texts hold, every string of the registration message is valid UTF-8. Only the names the Go runtime compiles in are taken as valid.
\<close>

theorem registration_encodes:
  assumes "ValidString (go_version h)" "ValidString (go_os h)" "ValidString (go_arch h)"
  shows "list_all ValidString (agent_info_strings (makeAgentInfo h appType sendArgs configured services inContainer))"
proof -
  have strs: "ValidString Version" "ValidString (FormatInt n)" for n by (simp_all add: ValidString_printable Version_def FormatInt_printable)
  have "list_all ValidString (service_strings (makeGoLibraryInfo h))"
    using assms by (auto simp: service_strings_def makeGoLibraryInfo_def list_all_iff ValidString_append split: option.split)
  then show ?thesis using assms(1) strs
    by (auto simp: agent_info_strings_def makeAgentInfo_def makeServerMetaData_def service_strings_def list_all_iff ValidString_append)
qed

definition odd_host :: host where
  "odd_host = \<lparr>os_hostname = Some [CHR 0xFF], os_args = [''app'', [CHR 0xC3]], os_pid = 7, go_version = ''go1.25'', go_os = ''linux'', go_arch = ''arm64'',
     build_deps = Some [(''m'', [CHR 0x80])], goIdOffset = 152, local_ip = []\<rparr>"

theorem registration_encodes_witness:
  "list_all ValidString (agent_info_strings (makeAgentInfo odd_host 1800 True [] [\<lparr>si_name = [CHR 0xFE], si_libs = []\<rparr>] False))"
  by (rule registration_encodes) (simp_all add: odd_host_def ValidString_printable)

section \<open>Metadata\<close>

definition LastIndexByte :: "char \<Rightarrow> string \<Rightarrow> nat option" where
  "LastIndexByte c s = (if c \<in> set s then Some (length s - 1 - length (takeWhile (\<lambda>x. x \<noteq> c) (rev s))) else None)"

definition splitName :: "string \<Rightarrow> string \<times> string" where
  "splitName fullName =
     (case LastIndexByte CHR ''.'' fullName of None \<Rightarrow> (''unknown'', fullName)
      | Some i \<Rightarrow> (take i fullName, drop (i + 1) fullName))"

record frame =
  moduleName :: string
  funcName :: string
  frame_file :: string
  frame_line :: go_int32

text \<open>A frame of the runtime: function, file, line.\<close>

definition newFrame :: "string \<times> string \<times> int \<Rightarrow> frame" where
  "newFrame fr =
     (case fr of (f, path, line) \<Rightarrow>
        if f = [] then \<lparr>moduleName = ''unknown'', funcName = ''unknown'', frame_file = ''unknown'', frame_line = word_of_int line\<rparr>
        else case splitName f of (m, n) \<Rightarrow> \<lparr>moduleName = m, funcName = n, frame_file = path, frame_line = word_of_int line\<rparr>)"

definition stackTrace :: "(nat list \<Rightarrow> (string \<times> string \<times> int) list) \<Rightarrow> 'e exception \<Rightarrow> frame list" where
  "stackTrace callersFrames e = (if pcs e = [] then [] else map newFrame (callersFrames (pcs e)))"

record PStackTraceElement =
  el_className :: string
  el_fileName :: string
  el_lineNumber :: go_int32
  el_methodName :: string

record PException =
  px_className :: string
  px_message :: string
  px_startTime :: int
  px_exceptionId :: int
  px_depth :: int
  px_stackTrace :: "PStackTraceElement list"

definition maxExceptionMessageSize :: nat where "maxExceptionMessageSize = 2048"

definition makePStackTraceElementList :: "frame list \<Rightarrow> PStackTraceElement list" where
  "makePStackTraceElementList fs =
     map (\<lambda>f. \<lparr>el_className = moduleName f, el_fileName = validUTF8 (frame_file f), el_lineNumber = frame_line f, el_methodName = funcName f\<rparr>) fs"

definition makePException :: "'e error_env \<Rightarrow> (nat list \<Rightarrow> (string \<times> string \<times> int) list) \<Rightarrow> 'e exception \<Rightarrow> PException" where
  "makePException E callersFrames e =
     \<lparr>px_className = validUTF8 (className e), px_message = validUTF8 (abbreviateString (errorMessage E (err e)) maxExceptionMessageSize),
      px_startTime = errorTime e div 1000000, px_exceptionId = exceptionId e, px_depth = depth e,
      px_stackTrace = makePStackTraceElementList (stackTrace callersFrames e)\<rparr>"

datatype PMetaData =
    PApiMetaData go_int32 string int go_int32
  | PStringMetaData go_int32 string
  | PSqlMetaData go_int32 string
  | PSqlUidMetaData string string
  | PExceptionMetaData TransactionId go_int64 string "PException list"

definition makePExceptionMetaData ::
  "'e error_env \<Rightarrow> (nat list \<Rightarrow> (string \<times> string \<times> int) list) \<Rightarrow> TransactionId \<Rightarrow> go_int64 \<Rightarrow> string \<Rightarrow> 'e exception list \<Rightarrow> PMetaData" where
  "makePExceptionMetaData E callersFrames tx sid uri es = PExceptionMetaData tx sid (validUTF8 uri) (map (makePException E callersFrames) es)"

fun metadata_message :: "'e error_env \<Rightarrow> (nat list \<Rightarrow> (string \<times> string \<times> int) list) \<Rightarrow> 'e metaItem \<Rightarrow> PMetaData" where
  "metadata_message E fr (apiMeta i descriptor typ) = PApiMetaData i (validUTF8 descriptor) (- 1) (word_of_int typ)"
| "metadata_message E fr (stringMeta i name) = PStringMetaData i (validUTF8 name)"
| "metadata_message E fr (sqlMeta i sql key) = PSqlMetaData i (validUTF8 sql)"
| "metadata_message E fr (sqlUidMeta uid sql key) = PSqlUidMetaData uid (validUTF8 sql)"
| "metadata_message E fr (exceptionMeta tx sid uri es) = makePExceptionMetaData E fr tx sid uri es"

text \<open>The answer of a call: an error, or whether the collector accepted, with its message.\<close>

definition FailedPrecondition :: sendError where "FailedPrecondition = OtherCode 9"
definition ResourceExhausted :: sendError where "ResourceExhausted = OtherCode 8"

fun metaResult :: "sendError + bool \<times> string \<Rightarrow> sendError option" where
  "metaResult (Inl e) = Some e"
| "metaResult (Inr (success, msg)) = (if \<not> success then Some FailedPrecondition else None)"

text \<open>The request made, if any, and the error the sender sees.\<close>

definition sendExceptionMetadata :: "(PMetaData \<Rightarrow> int) \<Rightarrow> int \<Rightarrow> (PMetaData \<Rightarrow> sendError + bool \<times> string) \<Rightarrow> PMetaData
    \<Rightarrow> PMetaData option \<times> sendError option" where
  "sendExceptionMetadata protoSize maxSize rpc p =
     (if protoSize p > maxSize then (None, Some ResourceExhausted) else (Some p, metaResult (rpc p)))"

definition sendMetadata :: "'e error_env \<Rightarrow> (nat list \<Rightarrow> (string \<times> string \<times> int) list) \<Rightarrow> (PMetaData \<Rightarrow> int) \<Rightarrow> int
    \<Rightarrow> (PMetaData \<Rightarrow> sendError + bool \<times> string) \<Rightarrow> 'e metaItem \<Rightarrow> PMetaData option \<times> sendError option" where
  "sendMetadata E callersFrames protoSize maxSize rpc m =
     (let p = metadata_message E callersFrames m
      in if is_exceptionMeta m then sendExceptionMetadata protoSize maxSize rpc p else (Some p, metaResult (rpc p)))"

lemma ValidString_drop:
  "ValidString s \<Longrightarrow> k \<le> length s \<Longrightarrow> k = 0 \<or> k = length s \<or> RuneStart (s ! k) \<Longrightarrow> ValidString (drop k s)"
proof (induction s arbitrary: k rule: ValidString.induct)
  case (1 s)
  show ?case
  proof (cases "s = [] \<or> k = 0 \<or> k = length s")
    case False
    define w where "w = rune_width s"
    have w: "w \<noteq> 0" "ValidString (drop w s)" using ValidString_rune [OF "1.prems"(1)] False by (auto simp: w_def)
    have start: "RuneStart (s ! k)" "k < length s" "0 < k" using "1.prems" False by auto
    then have wk: "w \<le> k" using rune_width_inner [of k s] by (fastforce simp: w_def)
    have "ValidString (drop (k - w) (drop w s))"
      using "1.IH" [of "k - w"] w False start wk by (simp add: w_def)
    then show ?thesis using wk by simp
  qed (use "1.prems" in auto)
qed

lemma LastIndexByte_Some:
  assumes "LastIndexByte c s = Some i"
  shows "i < length s \<and> s ! i = c"
proof -
  have c: "c \<in> set s" "i = length s - 1 - length (takeWhile (\<lambda>x. x \<noteq> c) (rev s))" using assms by (auto simp: LastIndexByte_def split: if_splits)
  obtain ys zs where s: "s = ys @ c # zs" "c \<notin> set zs" using split_list_last [OF c(1)] by blast
  have "takeWhile (\<lambda>x. x \<noteq> c) (rev zs @ c # rev ys) = rev zs" using s(2) by (subst takeWhile_append2) auto
  then have "i = length ys" using c(2) s(1) by simp
  then show ?thesis using s(1) by simp
qed

lemma RuneStart_ascii: "byte_of c < 0x80 \<Longrightarrow> RuneStart c"
  by (simp add: RuneStart_def)

lemma splitName_valid:
  assumes "ValidString f"
  shows "ValidString (fst (splitName f)) \<and> ValidString (snd (splitName f))"
proof (cases "LastIndexByte CHR ''.'' f")
  case None
  then show ?thesis using assms by (simp add: splitName_def)
next
  case (Some i)
  have i: "i < length f" "f ! i = CHR ''.''" using LastIndexByte_Some [OF Some] by auto
  then have start: "RuneStart (f ! i)" by (simp add: RuneStart_ascii)
  have "ValidString (drop i f)" using ValidString_drop [OF assms, of i] i start by simp
  moreover have "drop i f = CHR ''.'' # drop (Suc i) f" using i Cons_nth_drop_Suc [of i f] by simp
  ultimately have "ValidString (drop (Suc i) f)" by simp
  moreover have "ValidString (take i f)" using ValidString_take [OF assms, of i] i start by simp
  ultimately show ?thesis using Some by (simp add: splitName_def)
qed

lemma newFrame_valid:
  assumes "ValidString (fst fr)"
  shows "ValidString (moduleName (newFrame fr)) \<and> ValidString (funcName (newFrame fr))"
  using splitName_valid [OF assms] by (auto simp: newFrame_def split: prod.splits)

definition exception_strings :: "PException \<Rightarrow> string list" where
  "exception_strings p = px_className p # px_message p
     # concat (map (\<lambda>el. [el_className el, el_fileName el, el_methodName el]) (px_stackTrace p))"

fun metadata_strings :: "PMetaData \<Rightarrow> string list" where
  "metadata_strings (PApiMetaData i s l t) = [s]"
| "metadata_strings (PStringMetaData i s) = [s]"
| "metadata_strings (PSqlMetaData i s) = [s]"
| "metadata_strings (PSqlUidMetaData u s) = [s]"
| "metadata_strings (PExceptionMetaData tx sid uri es) = AgentId tx # uri # concat (map exception_strings es)"

fun item_agent :: "'e metaItem \<Rightarrow> string" where
  "item_agent (exceptionMeta tx sid uri es) = AgentId tx"
| "item_agent _ = []"

lemma exception_valid:
  assumes "\<And>cs. list_all (\<lambda>fr. ValidString (fst fr)) (callersFrames cs)"
  shows "list_all ValidString (exception_strings (makePException E callersFrames e))"
proof -
  have "ValidString (moduleName f) \<and> ValidString (funcName f)" if "f \<in> set (stackTrace callersFrames e)" for f
    using that assms [of "pcs e"] newFrame_valid by (auto simp: stackTrace_def list_all_iff split: if_splits)
  then show ?thesis by (auto simp: exception_strings_def makePException_def makePStackTraceElementList_def list_all_iff)
qed

text \<open>
  (C29) No metadata fails for its bytes: whatever texts the application used as descriptors, statements, errors or URLs, the
  request made has valid UTF-8 strings, function names being what the compiler accepts and agent ids what the agent
  validated. Exceptions alone are measured before they are sent: an exception request stays within the channel's limit, and
  a larger one is not made. API, string and SQL requests are not measured; one the channel refuses for its size
  (\<open>ResourceExhausted\<close>) is given up like an oversize exception or an item the collector refuses, never tried again.
\<close>

theorem metadata_sends_encodable:
  assumes "\<And>cs. list_all (\<lambda>fr. ValidString (fst fr)) (callersFrames cs)" "ValidString (item_agent m)"
  shows "case sendMetadata E callersFrames protoSize maxSize rpc m of
      (Some p, e) \<Rightarrow> list_all ValidString (metadata_strings p) \<and> (is_exceptionMeta m \<longrightarrow> protoSize p \<le> maxSize)
        \<and> (rpc p = Inl ResourceExhausted \<or> (\<exists>msg. rpc p = Inr (False, msg)) \<longrightarrow> metaVerdictOf e n = metaRejected)
    | (None, e) \<Rightarrow> is_exceptionMeta m \<and> metaVerdictOf e n = metaRejected"
proof -
  have "list_all ValidString (exception_strings (makePException E callersFrames e))" for e by (rule exception_valid) (rule assms(1))
  then have "list_all ValidString (metadata_strings (metadata_message E callersFrames m))"
    using assms(2) by (cases m) (auto simp: makePExceptionMetaData_def list_all_iff)
  then show ?thesis
    by (auto simp: sendMetadata_def sendExceptionMetadata_def Let_def metaVerdictOf_def isRetryableError_def FailedPrecondition_def
        ResourceExhausted_def split: prod.splits option.splits if_splits)
qed

definition text_errors :: "string error_env" where
  "text_errors = \<lparr>nil_pointer = (\<lambda>_. False), error_text = id, type_string = (\<lambda>_. []), type_name = (\<lambda>_. []), cause_method = (\<lambda>_. None),
     unwrap_method = (\<lambda>_. None), join_method = (\<lambda>_. None), own_stack = (\<lambda>_. None), same_type = (=), compare_values = (\<lambda>a b. Some (a = b))\<rparr>"

definition odd_exception :: "string metaItem" where
  "odd_exception = exceptionMeta \<lparr>AgentId = ''agent'', StartTime = 1, Sequence = 2\<rparr> 3 [CHR 0xFF]
     [\<lparr>exceptionId = 1, depth = 0, className = [CHR 0xFE], err = [CHR 0xC3], errorTime = 0, pcs = [1]\<rparr>]"

theorem metadata_sends_encodable_witness:
  "case sendMetadata text_errors (\<lambda>_. [(''main.f'', [CHR 0xFF], 3)]) (\<lambda>_. 5) 10 (\<lambda>_. Inr (False, ''no'')) odd_exception of
     (Some p, e) \<Rightarrow> list_all ValidString (metadata_strings p) \<and> metaVerdictOf e 1 = metaRejected
   | (None, e) \<Rightarrow> False"
  using metadata_sends_encodable [where callersFrames = "\<lambda>_. [(''main.f'', [CHR 0xFF], 3)]" and m = odd_exception and E = text_errors
      and protoSize = "\<lambda>_. 5" and maxSize = 10 and rpc = "\<lambda>_. Inr (False, ''no'')" and n = 1]
  by (simp add: sendMetadata_def sendExceptionMetadata_def Let_def odd_exception_def)

end
