(* ===== verification/Reconnect.thy ===== *)
theory Reconnect
  imports Throttle Lifecycle Url_Stat Valid_Utf8
begin

text \<open>
  How the agent keeps its connections (\<^verbatim>\<open>src/grpc.go\<close>, \<^verbatim>\<open>src/grpc_stat.go\<close>, the supervisor of \<^verbatim>\<open>src/agent.go\<close>): the record of a channel's outages with
  the wait until it is ready, the waits a stop ends, the retry loops of registration, of its refresh and of the long-lived streams,
  and the supervision of a worker. A turn of a loop takes what it learns from outside, the answers of the collector, the clock, the
  phase, the stop signal, as one reading; the loops run over any sequence of readings. Shown: registration gives up only when it has seen the
  stop, and no loop retries without a pause.
\<close>

section \<open>Loops over readings\<close>

text \<open>\<open>Inl\<close> leaves the loop, \<open>Inr\<close> is the state of the next turn; \<open>None\<close> is a loop still in progress when the readings end.\<close>

fun for_each :: "('s \<Rightarrow> 'e \<Rightarrow> 'r + 's) \<Rightarrow> 's \<Rightarrow> 'e list \<Rightarrow> 'r option" where
  "for_each f s [] = None"
| "for_each f s (e # es) = (case f s e of Inl r \<Rightarrow> Some r | Inr s' \<Rightarrow> for_each f s' es)"

lemma for_each_result: "for_each f s es = Some r \<Longrightarrow> \<exists>e\<in>set es. \<exists>s'. f s' e = Inl r"
  by (induction es arbitrary: s) (auto split: sum.splits)

lemma for_each_ends:
  assumes "e \<in> set es" "\<And>s'. \<exists>r. f s' e = Inl r"
  shows "\<exists>r. for_each f s es = Some r"
  using assms(1)
proof (induction es arbitrary: s)
  case (Cons d es)
  show ?case
  proof (cases "f s d")
    case (Inr s')
    with assms(2) [of s] Cons.prems have "e \<in> set es" by auto
    with Cons.IH [of s'] Inr show ?thesis by simp
  qed simp
qed simp

lemma for_each_invariant:
  assumes "for_each f s es = Some r" "I s" "\<And>s e s'. I s \<Longrightarrow> f s e = Inr s' \<Longrightarrow> I s'" "\<And>s e. I s \<Longrightarrow> f s e = Inl r \<Longrightarrow> Q r"
  shows "Q r"
  using assms(1,2)
proof (induction es arbitrary: s)
  case (Cons e es)
  then show ?case using assms(3,4) by (auto split: sum.splits)
qed simp

section \<open>Outages of a channel\<close>

datatype conn_state = Idle | Connecting | Ready | TransientFailure | Shutdown

text \<open>\<open>unreadySince\<close> is \<open>None\<close> for the zero time.\<close>

record channelStateLog =
  unreadySince :: "time option"
  everReady :: bool
  lostReady :: bool
  recoveryLogged :: bool
  lostCount :: int
  unreadyTotal :: duration
  transitions :: logThrottle
  outages :: logThrottle
  notReady :: logThrottle

definition new_channelStateLog :: channelStateLog where
  "new_channelStateLog = \<lparr>unreadySince = None, everReady = False, lostReady = False, recoveryLogged = False, lostCount = 0, unreadyTotal = 0,
     transitions = \<lparr>th_next = 0, suppressed = 0\<rparr>, outages = \<lparr>th_next = 0, suppressed = 0\<rparr>, notReady = \<lparr>th_next = 0, suppressed = 0\<rparr>\<rparr>"

definition observeNotReady :: "time \<Rightarrow> channelStateLog \<Rightarrow> channelStateLog" where
  "observeNotReady now l =
     (let l = (if unreadySince l = None then l\<lparr>unreadySince := Some now\<rparr> else l)
      in if everReady l \<and> \<not> lostReady l then l\<lparr>lostReady := True, lostCount := lostCount l + 1\<rparr> else l)"

text \<open>The line logged: \<open>StateLine held\<close> within the throttle, \<open>ExtraLine\<close> for a first connection or recovery outside it.\<close>

datatype state_line = StateLine nat | ExtraLine

definition logTransition :: "time \<Rightarrow> conn_state \<Rightarrow> channelStateLog \<Rightarrow> state_line option \<times> channelStateLog" where
  "logTransition now to l =
     (let recovery = (to = Ready \<and> lostReady l); firstReady = (to = Ready \<and> \<not> everReady l);
          l = (if to = Ready then l\<lparr>everReady := True\<rparr> else l)
      in case logThrottle_acquire now (transitions l) of
           (Some n, th) \<Rightarrow> (Some (StateLine n), l\<lparr>transitions := th, recoveryLogged := recovery\<rparr>)
         | (None, th) \<Rightarrow>
             let l = l\<lparr>transitions := th\<rparr>
             in if firstReady \<or> recovery \<and> \<not> recoveryLogged l
                then (Some ExtraLine, l\<lparr>recoveryLogged := recoveryLogged l \<or> recovery\<rparr>) else (None, l))"

text \<open>The summary of an outage: its length and the lifetime counters.\<close>

definition logReady :: "time \<Rightarrow> channelStateLog \<Rightarrow> (duration \<times> int \<times> duration) option \<times> channelStateLog" where
  "logReady now l =
     (let l = l\<lparr>everReady := True\<rparr>
      in case unreadySince l of None \<Rightarrow> (None, l)
         | Some t \<Rightarrow>
             let outage = now - t; l = l\<lparr>unreadySince := None\<rparr>
             in if \<not> lostReady l then (None, l)
                else let l = l\<lparr>lostReady := False, unreadyTotal := unreadyTotal l + outage\<rparr>
                     in case logThrottle_acquire now (outages l) of
                          (Some _, th) \<Rightarrow> (Some (outage, lostCount l, unreadyTotal l), l\<lparr>outages := th\<rparr>)
                        | (None, th) \<Rightarrow> (None, l\<lparr>outages := th\<rparr>))"

definition logNotReady :: "time \<Rightarrow> channelStateLog \<Rightarrow> duration option \<times> channelStateLog" where
  "logNotReady now l =
     (case logThrottle_acquire now (notReady l) of
        (Some _, th) \<Rightarrow> (Some (now - (case unreadySince l of Some t \<Rightarrow> t | None \<Rightarrow> 0)), l\<lparr>notReady := th\<rparr>)
      | (None, th) \<Rightarrow> (None, l\<lparr>notReady := th\<rparr>))"

text \<open>
  The loop of \<^verbatim>\<open>waitUntilReady\<close> over what \<^verbatim>\<open>WaitForStateChange\<close> gives: a time with the state seen then, or the end of the wait, with whether
  the deadline ended it. The result is \<open>None\<close> while the wait goes on.
\<close>

datatype wait_event = Changed time conn_state | WaitOver time bool

fun wait_loop :: "conn_state \<Rightarrow> wait_event list \<Rightarrow> time \<Rightarrow> channelStateLog \<Rightarrow> bool option \<times> channelStateLog" where
  "wait_loop state evs now l =
     (if state = Ready then (Some True, snd (logReady now l))
      else case evs of
        [] \<Rightarrow> (None, l)
      | WaitOver t deadline # _ \<Rightarrow> (Some False, if deadline then snd (logNotReady t l) else l)
      | Changed t nxt # evs \<Rightarrow> wait_loop nxt evs t (if nxt \<noteq> state then snd (logTransition t nxt l) else l))"

definition waitUntilReady :: "conn_state \<Rightarrow> time \<Rightarrow> wait_event list \<Rightarrow> channelStateLog \<Rightarrow> bool option \<times> channelStateLog" where
  "waitUntilReady state now evs l = wait_loop state evs now (if state \<noteq> Ready then observeNotReady now l else l)"

text \<open>What the waits on a channel observe, and the outages in it: an unready reading after a ready one, until the next ready one.\<close>

datatype outage_event = Unready time | BackReady time

fun log_event :: "outage_event \<Rightarrow> channelStateLog \<Rightarrow> channelStateLog" where
  "log_event (Unready t) l = observeNotReady t l"
| "log_event (BackReady t) l = snd (logReady t l)"

fun is_ready_event :: "outage_event \<Rightarrow> bool" where
  "is_ready_event (BackReady t) = True"
| "is_ready_event (Unready t) = False"

definition outage_starts :: "outage_event list \<Rightarrow> nat" where
  "outage_starts es = length (filter (\<lambda>i. is_ready_event (es ! i) \<and> \<not> is_ready_event (es ! Suc i)) [0..<length es - 1])"

lemma outage_starts_snoc:
  "outage_starts (es @ [e]) = outage_starts es + (if es \<noteq> [] \<and> is_ready_event (last es) \<and> \<not> is_ready_event e then 1 else 0)"
proof (cases es rule: rev_cases)
  case (snoc ds d)
  let ?P = "\<lambda>xs i. is_ready_event (xs ! i) \<and> \<not> is_ready_event (xs ! Suc i)"
  have "filter (?P (ds @ [d, e])) [0..<length ds] = filter (?P (ds @ [d])) [0..<length ds]"
    by (rule filter_cong) (auto simp: nth_append)
  then show ?thesis by (simp add: snoc outage_starts_def nth_append)
qed (simp add: outage_starts_def)

lemma logReady_sel [simp]:
  "everReady (snd (logReady t l))" "unreadySince (snd (logReady t l)) = None"
  "lostReady (snd (logReady t l)) \<longleftrightarrow> lostReady l \<and> unreadySince l = None" "lostCount (snd (logReady t l)) = lostCount l"
  by (auto simp: logReady_def Let_def split: option.split prod.split)

lemma observe_sel [simp]:
  "everReady (observeNotReady t l) = everReady l" "unreadySince (observeNotReady t l) = Some (case unreadySince l of Some u \<Rightarrow> u | None \<Rightarrow> t)"
  "lostReady (observeNotReady t l) \<longleftrightarrow> everReady l \<or> lostReady l"
  "lostCount (observeNotReady t l) = lostCount l + (if everReady l \<and> \<not> lostReady l then 1 else 0)"
  by (auto simp: observeNotReady_def Let_def split: option.split)

lemma outage_log:
  "let l = fold log_event es new_channelStateLog in
     lostCount l = int (outage_starts es) \<and> (everReady l \<longleftrightarrow> list_ex is_ready_event es)
     \<and> (lostReady l \<longleftrightarrow> list_ex is_ready_event es \<and> \<not> is_ready_event (last es))
     \<and> (unreadySince l = None \<longleftrightarrow> es = [] \<or> is_ready_event (last es))"
proof (induction es rule: rev_induct)
  case Nil
  show ?case by (simp add: new_channelStateLog_def outage_starts_def)
next
  case (snoc e es)
  then show ?case by (cases e) (auto simp: Let_def outage_starts_snoc list_ex_iff)
qed

section \<open>Waits the stop signal ends\<close>

text \<open>What ended the \<^verbatim>\<open>select\<close> of \<open>sleepUnlessStopped\<close>; with both ready Go picks either.\<close>

datatype sleep_end = StopSignalled | TimerFired

fun sleepUnlessStopped :: "sleep_end \<Rightarrow> bool" where
  "sleepUnlessStopped StopSignalled = False"
| "sleepUnlessStopped TimerFired = True"

text \<open>What one turn of \<open>backOffUntilReady\<close> meets: the phase, and what its \<open>waitUntilReady\<close> sees.\<close>

record ready_attempt =
  ra_stopping :: bool
  ra_state :: conn_state
  ra_now :: time
  ra_events :: "wait_event list"

text \<open>The answer to \<^verbatim>\<open>RequestAgentInfo\<close>: a transport error, or the collector's verdict.\<close>

datatype info_answer = SendFailed | Accepted | Rejected

text \<open>What the registering goroutine does and sees, in order.\<close>

datatype reg_event = StopRead | SentInfo info_answer | Slept sleep_end | WaitedOut | BecameReady

text \<open>The events, the result (\<open>None\<close> while it still waits when the readings end) and the channel's record.\<close>

fun backOffUntilReady :: "ready_attempt list \<Rightarrow> channelStateLog \<Rightarrow> reg_event list \<times> bool option \<times> channelStateLog" where
  "backOffUntilReady [] l = ([], None, l)"
| "backOffUntilReady (a # as) l =
     (if ra_stopping a then ([StopRead], Some False, l)
      else case waitUntilReady (ra_state a) (ra_now a) (ra_events a) l of
          (None, l) \<Rightarrow> ([], None, l)
        | (Some ready, l) \<Rightarrow>
            if ready then ([BecameReady], Some True, l)
            else case backOffUntilReady as l of (es, r) \<Rightarrow> (WaitedOut # es, r))"

section \<open>Registration and its refresh\<close>

text \<open>What one turn of the loop meets: the phase, the collector's answer, the pause and the wait for the connection.\<close>

record register_turn =
  rt_stopping :: bool
  rt_answer :: info_answer
  rt_sleep :: sleep_end
  rt_waits :: "ready_attempt list"

text \<open>
  The events and the result, \<open>None\<close> while registration is in progress. \<^verbatim>\<open>rejected\<close> only words a log line and is left out.
\<close>

fun registerAgentWithRetry :: "register_turn list \<Rightarrow> channelStateLog \<Rightarrow> reg_event list \<times> bool option" where
  "registerAgentWithRetry [] l = ([], None)"
| "registerAgentWithRetry (t # ts) l =
     (if rt_stopping t then ([StopRead], Some False)
      else if rt_answer t = Accepted then ([SentInfo Accepted], Some True)
      else if \<not> sleepUnlessStopped (rt_sleep t) then ([SentInfo (rt_answer t), Slept (rt_sleep t)], Some False)
      else case backOffUntilReady (rt_waits t) l of
          (es, None, l) \<Rightarrow> (SentInfo (rt_answer t) # Slept (rt_sleep t) # es, None)
        | (es, Some ready, l) \<Rightarrow>
            if \<not> ready then (SentInfo (rt_answer t) # Slept (rt_sleep t) # es, Some False)
            else case registerAgentWithRetry ts l of (es', r) \<Rightarrow> (SentInfo (rt_answer t) # Slept (rt_sleep t) # es @ es', r))"

text \<open>
  The course of a registration: after a refusal a pause; after a full pause waits until the connection is ready; only then the next
  attempt. Nothing follows an acceptance, a reading of the stopping phase or a pause cut short by the stop signal.
\<close>

fun follows :: "reg_event \<Rightarrow> reg_event \<Rightarrow> bool" where
  "follows (SentInfo a) (Slept e) \<longleftrightarrow> a \<noteq> Accepted"
| "follows (Slept TimerFired) e \<longleftrightarrow> e \<in> {WaitedOut, BecameReady, StopRead}"
| "follows WaitedOut e \<longleftrightarrow> e \<in> {WaitedOut, BecameReady, StopRead}"
| "follows BecameReady (SentInfo a) \<longleftrightarrow> True"
| "follows BecameReady StopRead \<longleftrightarrow> True"
| "follows _ _ \<longleftrightarrow> False"

definition stop_seen :: "reg_event \<Rightarrow> bool" where
  "stop_seen e \<longleftrightarrow> e = StopRead \<or> e = Slept StopSignalled"

text \<open>The outcome a last event stands for.\<close>

definition outcome_of :: "reg_event list \<Rightarrow> bool option" where
  "outcome_of es =
     (if es = [] then None else if last es = SentInfo Accepted then Some True else if stop_seen (last es) then Some False else None)"

text \<open>The wait for the connection comes to an end with the agent still running: attempts that time out, then one that finds it ready.\<close>

fun comes_up :: "ready_attempt list \<Rightarrow> bool" where
  "comes_up [] \<longleftrightarrow> False"
| "comes_up (a # as) \<longleftrightarrow> \<not> ra_stopping a
     \<and> (case fst (waitUntilReady (ra_state a) (ra_now a) (ra_events a) new_channelStateLog) of
          None \<Rightarrow> False | Some ready \<Rightarrow> ready \<or> comes_up as)"

text \<open>A turn that ends without success and with no stop in sight.\<close>

definition refused_turn :: "register_turn \<Rightarrow> bool" where
  "refused_turn t \<longleftrightarrow> \<not> rt_stopping t \<and> rt_answer t \<noteq> Accepted \<and> rt_sleep t = TimerFired \<and> comes_up (rt_waits t)"

fun answer_of :: "reg_event \<Rightarrow> info_answer option" where
  "answer_of (SentInfo a) = Some a"
| "answer_of _ = None"

lemma wait_result: "fst (wait_loop state evs now l) = fst (wait_loop state evs now' l')"
proof (induction evs arbitrary: state now l now' l')
  case Nil
  show ?case by (simp add: wait_loop.simps [of state "[]"])
next
  case (Cons e es)
  show ?case
    by (cases e) (auto simp: wait_loop.simps [of state "x # es" for x] simp del: wait_loop.simps intro: Cons.IH)
qed

lemma waitUntilReady_result: "fst (waitUntilReady state now evs l) = fst (waitUntilReady state now evs l')"
  unfolding waitUntilReady_def by (rule wait_result)

lemma backOff_events:
  assumes "backOffUntilReady as l = (es, r, l')"
  shows "successively follows (Slept TimerFired # es)
    \<and> r = (if es = [] then None else if last es = BecameReady then Some True else if last es = StopRead then Some False else None)
    \<and> set es \<subseteq> {WaitedOut, BecameReady, StopRead}"
  using assms
proof (induction as arbitrary: l es r l')
  case (Cons a as)
  obtain res l1 where wait: "waitUntilReady (ra_state a) (ra_now a) (ra_events a) l = (res, l1)" by (rule prod.exhaust)
  show ?case
  proof (cases "ra_stopping a \<or> res \<noteq> Some False")
    case True
    then show ?thesis using Cons.prems by (auto simp: wait split: option.splits if_splits)
  next
    case False
    obtain es' r' l2 where rest: "backOffUntilReady as l1 = (es', r', l2)" by (rule prod_cases3)
    have es: "es = WaitedOut # es'" "r = r'" using Cons.prems False by (auto simp: wait rest)
    have "successively follows (WaitedOut # es')" using Cons.IH [OF rest] by (cases es') auto
    with Cons.IH [OF rest] show ?thesis by (auto simp: es)
  qed
qed auto

lemma backOff_comes_up:
  "comes_up as \<Longrightarrow> fst (snd (backOffUntilReady as l)) = Some True \<and> list_all (\<lambda>e. answer_of e = None) (fst (backOffUntilReady as l))"
proof (induction as arbitrary: l)
  case (Cons a as)
  obtain res l1 where wait: "waitUntilReady (ra_state a) (ra_now a) (ra_events a) l = (res, l1)" by (rule prod.exhaust)
  with Cons.prems waitUntilReady_result [of "ra_state a" "ra_now a" "ra_events a" l new_channelStateLog]
  have "\<not> ra_stopping a" "res = Some True \<or> res = Some False \<and> comes_up as" by (auto split: option.splits)
  with Cons.IH [of l1] show ?case by (auto simp: wait split: prod.splits)
qed simp

lemma successively_Cons_append:
  "successively P (x # xs) \<Longrightarrow> successively P ys \<Longrightarrow> ys = [] \<or> P (last (x # xs)) (hd ys) \<Longrightarrow> successively P ((x # xs) @ ys)"
  unfolding successively_append_iff by simp

lemma register_events:
  assumes "registerAgentWithRetry ts l = (es, r)"
  shows "successively follows es \<and> r = outcome_of es \<and> (es = [] \<or> hd es = StopRead \<or> (\<exists>a. hd es = SentInfo a))"
  using assms
proof (induction ts arbitrary: l es r)
  case (Cons t ts)
  show ?case
  proof (cases "rt_stopping t \<or> rt_answer t = Accepted \<or> rt_sleep t = StopSignalled")
    case True
    then show ?thesis using Cons.prems by (auto simp: outcome_of_def stop_seen_def split: if_splits)
  next
    case False
    then have timer: "rt_sleep t = TimerFired" by (cases "rt_sleep t") auto
    obtain bs b l1 where wait: "backOffUntilReady (rt_waits t) l = (bs, b, l1)" by (rule prod_cases3)
    note waited = backOff_events [OF wait]
    have start: "successively follows (SentInfo (rt_answer t) # Slept TimerFired # bs)" using waited False by simp
    show ?thesis
    proof (cases "b = Some True")
      case True
      obtain es' r' where rest: "registerAgentWithRetry ts l1 = (es', r')" by (rule prod.exhaust)
      have es: "es = (SentInfo (rt_answer t) # Slept TimerFired # bs) @ es'" "r = r'"
        using Cons.prems False timer True by (simp_all add: wait rest)
      have "bs \<noteq> []" "last bs = BecameReady" using waited True by (auto split: if_splits)
      with Cons.IH [OF rest] start show ?thesis
        unfolding es by (intro conjI successively_Cons_append) (auto simp: outcome_of_def stop_seen_def)
    next
      case no: False
      have es: "es = SentInfo (rt_answer t) # Slept TimerFired # bs" "r = b"
        using Cons.prems False timer no by (auto simp: wait split: option.splits)
      have "bs = [] \<or> last bs \<in> {WaitedOut, BecameReady, StopRead}" using waited last_in_set [of bs] by blast
      then have "b = outcome_of es" using waited no es(1) by (auto simp: outcome_of_def stop_seen_def split: if_splits)
      with start show ?thesis unfolding es by simp
    qed
  qed
qed (auto simp: outcome_of_def)

lemma register_refused:
  assumes "list_all refused_turn ts" "\<not> rt_stopping t" "rt_answer t = Accepted"
  shows "snd (registerAgentWithRetry (ts @ t # later) l) = Some True
    \<and> List.map_filter answer_of (fst (registerAgentWithRetry (ts @ t # later) l)) = map rt_answer ts @ [Accepted]"
  using assms(1)
proof (induction ts arbitrary: l)
  case Nil
  then show ?case using assms(2,3) by (simp add: List.map_filter_simps)
next
  case (Cons u ts)
  then have u: "\<not> rt_stopping u" "rt_answer u \<noteq> Accepted" "rt_sleep u = TimerFired" "comes_up (rt_waits u)"
    by (simp_all add: refused_turn_def)
  obtain bs b l1 where wait: "backOffUntilReady (rt_waits u) l = (bs, b, l1)" by (rule prod_cases3)
  have b: "b = Some True" "list_all (\<lambda>e. answer_of e = None) bs" using backOff_comes_up [OF u(4), of l] by (simp_all add: wait)
  obtain es r where rest: "registerAgentWithRetry (ts @ t # later) l1 = (es, r)" by (rule prod.exhaust)
  have "List.map_filter answer_of bs = []" using b(2) by (auto simp: List.map_filter_def list_all_iff)
  with Cons b u show ?case using Cons.IH [of l1] by (simp add: wait rest List.map_filter_simps List.map_filter_def)
qed

text \<open>
  (C27) Registration goes on until the collector accepts or the agent stops. Whatever the collector answers and however the connection
  comes and goes: the loop reports success exactly when the last thing it did was a registration that was accepted, and failure exactly when the last thing it
  saw was the stopping phase or the stop signal, so a timeout or a rejection never makes it give up; between two attempts lie a full pause and a
  connection that became ready; and nothing follows an acceptance or a stop. And it gets there: after any number of refused
  attempts with no stop among them, an accepting answer ends it with success, one registration sent per turn.
\<close>

theorem registration_until_accepted:
  assumes "registerAgentWithRetry ts l = (es, r)"
  shows "r = outcome_of es \<and> successively follows es
    \<and> (\<forall>us t later. ts = us @ t # later \<and> list_all refused_turn us \<and> \<not> rt_stopping t \<and> rt_answer t = Accepted \<longrightarrow>
         r = Some True \<and> List.map_filter answer_of es = map rt_answer us @ [Accepted])"
proof (intro conjI allI impI)
  show "r = outcome_of es" "successively follows es" using register_events [OF assms] by simp_all
next
  fix us t later
  assume turns: "ts = us @ t # later \<and> list_all refused_turn us \<and> \<not> rt_stopping t \<and> rt_answer t = Accepted"
  then show "r = Some True" "List.map_filter answer_of es = map rt_answer us @ [Accepted]"
    using register_refused [of us t later l] assms by simp_all
qed

text \<open>A failed attempt, a connection that first times out and then becomes ready, and an acceptance.\<close>

definition demo_turns :: "register_turn list" where
  "demo_turns =
     [\<lparr>rt_stopping = False, rt_answer = SendFailed, rt_sleep = TimerFired,
        rt_waits = [\<lparr>ra_stopping = False, ra_state = Connecting, ra_now = 1, ra_events = [WaitOver 2 True]\<rparr>,
                    \<lparr>ra_stopping = False, ra_state = Idle, ra_now = 3, ra_events = [Changed 4 Ready]\<rparr>]\<rparr>,
      \<lparr>rt_stopping = False, rt_answer = Accepted, rt_sleep = TimerFired, rt_waits = []\<rparr>]"

theorem registration_until_accepted_witness:
  "(case registerAgentWithRetry demo_turns new_channelStateLog of (es, r) \<Rightarrow>
      r = outcome_of es \<and> successively follows es \<and> r = Some True \<and> List.map_filter answer_of es = [SendFailed, Accepted])
   \<and> fst (registerAgentWithRetry demo_turns new_channelStateLog)
       = [SentInfo SendFailed, Slept TimerFired, WaitedOut, BecameReady, SentInfo Accepted]"
proof -
  obtain es r where run: "registerAgentWithRetry demo_turns new_channelStateLog = (es, r)" by (rule prod.exhaust)
  have events: "fst (registerAgentWithRetry demo_turns new_channelStateLog)
    = [SentInfo SendFailed, Slept TimerFired, WaitedOut, BecameReady, SentInfo Accepted]" by code_simp
  have turns: "demo_turns = [demo_turns ! 0] @ demo_turns ! 1 # []" by (simp add: demo_turns_def)
  have first: "list_all refused_turn [demo_turns ! 0] \<and> rt_answer (demo_turns ! 0) = SendFailed" by code_simp
  have second: "\<not> rt_stopping (demo_turns ! 1) \<and> rt_answer (demo_turns ! 1) = Accepted" by code_simp
  show ?thesis
    using registration_until_accepted [OF run] turns first second events by (fastforce simp: run)
qed

record refresh_turn =
  ft_stopping :: bool
  ft_answer :: info_answer
  ft_slept :: bool

text \<open>The state is \<^verbatim>\<open>try\<close>; the result whether the refresh succeeded, with the number of sends.\<close>

definition refresh_turn_do :: "int \<Rightarrow> int \<Rightarrow> refresh_turn \<Rightarrow> (int \<times> bool) + int" where
  "refresh_turn_do maxTry tries t =
     (if \<not> (tries < maxTry \<and> \<not> ft_stopping t) then Inl (tries, False)
      else if ft_answer t = Accepted then Inl (tries + 1, True)
      else if tries + 1 < maxTry \<and> \<not> ft_slept t then Inl (tries + 1, False)
      else Inr (tries + 1))"

definition refreshAgentInfo :: "int \<Rightarrow> refresh_turn list \<Rightarrow> (int \<times> bool) option" where
  "refreshAgentInfo maxTry ts = for_each (refresh_turn_do maxTry) 0 ts"

lemma refresh_ends:
  assumes "int (length ts) > max 0 maxTry - tries" "0 \<le> tries" "tries \<le> max 0 maxTry"
  shows "\<exists>n ok. for_each (refresh_turn_do maxTry) tries ts = Some (n, ok) \<and> n \<le> max 0 maxTry"
  using assms
proof (induction ts arbitrary: tries)
  case (Cons t ts)
  show ?case
  proof (cases "refresh_turn_do maxTry tries t")
    case (Inl r)
    then show ?thesis using Cons.prems by (cases r) (auto simp: refresh_turn_do_def split: if_splits)
  next
    case (Inr k)
    then have "k = tries + 1" "tries < maxTry" by (auto simp: refresh_turn_do_def split: if_splits)
    then show ?thesis using Cons.IH [of "tries + 1"] Cons.prems Inr by auto
  qed
qed auto

section \<open>Opening a stream\<close>

text \<open>One turn: \<open>workerContinues\<close>, whether the call opened a stream, whether the channel was ready, and the results of the two waits.\<close>

record open_turn =
  ot_continues :: bool
  ot_opened :: bool
  ot_conn_ready :: bool
  ot_slept :: bool
  ot_became_ready :: bool

datatype open_action = TryOpen | SleepBackOff nat | WaitReady

text \<open>The state is \<^verbatim>\<open>readyFailures\<close> with the actions so far; the result whether a stream was opened.\<close>

definition open_turn_do :: "nat \<times> open_action list \<Rightarrow> open_turn \<Rightarrow> (bool \<times> open_action list) + (nat \<times> open_action list)" where
  "open_turn_do st t =
     (case st of (readyFailures, acts) \<Rightarrow>
        if \<not> ot_continues t then Inl (False, acts)
        else if ot_opened t then Inl (True, acts @ [TryOpen])
        else if ot_conn_ready t then
          if \<not> ot_slept t then Inl (False, acts @ [TryOpen, SleepBackOff readyFailures])
          else Inr (readyFailures + 1, acts @ [TryOpen, SleepBackOff readyFailures])
        else if \<not> ot_became_ready t then Inl (False, acts @ [TryOpen, WaitReady])
        else Inr (0, acts @ [TryOpen, WaitReady]))"

definition newStreamWithRetry :: "open_turn list \<Rightarrow> (bool \<times> open_action list) option" where
  "newStreamWithRetry ts = for_each open_turn_do (0, []) ts"

definition open_stop :: "open_turn \<Rightarrow> bool" where
  "open_stop t \<longleftrightarrow> \<not> ot_continues t \<or> \<not> ot_opened t \<and> (if ot_conn_ready t then \<not> ot_slept t else \<not> ot_became_ready t)"

definition paused :: "open_action \<Rightarrow> open_action \<Rightarrow> bool" where
  "paused x y \<longleftrightarrow> (x = TryOpen) \<noteq> (y = TryOpen)"

definition open_inv :: "nat \<times> open_action list \<Rightarrow> bool" where
  "open_inv st \<longleftrightarrow> successively paused (snd st) \<and> (snd st = [] \<or> last (snd st) \<noteq> TryOpen)"

lemma successively_snoc: "successively P xs \<Longrightarrow> xs = [] \<or> P (last xs) y \<Longrightarrow> successively P (xs @ [y])"
  by (auto simp: successively_append_iff)

lemma open_turn_inv: "open_inv st \<Longrightarrow> open_turn_do st t = Inr st' \<Longrightarrow> open_inv st'"
  by (cases st) (auto simp: open_turn_do_def open_inv_def paused_def successively_append_iff split: if_splits)

lemma open_turn_result:
  "open_inv st \<Longrightarrow> open_turn_do st t = Inl r \<Longrightarrow> successively paused (snd r) \<and> (fst r \<longleftrightarrow> \<not> open_stop t)"
  by (cases st) (auto simp: open_turn_do_def open_inv_def paused_def successively_append_iff open_stop_def split: if_splits)

text \<open>
  A worker that lost its stream never spins: between two attempts to open one there is always a pause, a growing one while the connection
  says it is ready or a wait until it is. The loop ends with no stream only in a turn in which the phase no longer continues or a
  wait came back false, which the waits do only on a stop, and it does end at a turn that opens one.
\<close>

theorem stream_retries_paced:
  assumes "newStreamWithRetry ts = Some (ok, acts)"
  shows "successively paused acts \<and> (\<exists>t\<in>set ts. ok = (\<not> open_stop t) \<and> (ok \<longrightarrow> ot_opened t))"
proof -
  have inv: "open_inv (0, [])" by (simp add: open_inv_def)
  note res = assms [unfolded newStreamWithRetry_def]
  have "successively paused (snd (ok, acts))"
    by (rule for_each_invariant [where I = open_inv and Q = "\<lambda>r. successively paused (snd r)", OF res inv])
      (use open_turn_inv open_turn_result in blast)+
  moreover obtain t st where t: "t \<in> set ts" "open_turn_do st t = Inl (ok, acts)" using for_each_result [OF res] by blast
  moreover have "ok = (\<not> open_stop t) \<and> (ok \<longrightarrow> ot_opened t)"
    using t(2) by (cases st) (auto simp: open_turn_do_def open_stop_def split: if_splits)
  ultimately show ?thesis by auto
qed

theorem stream_retries_paced_witness:
  "newStreamWithRetry [\<lparr>ot_continues = True, ot_opened = False, ot_conn_ready = True, ot_slept = True, ot_became_ready = False\<rparr>,
     \<lparr>ot_continues = True, ot_opened = True, ot_conn_ready = True, ot_slept = False, ot_became_ready = False\<rparr>]
     = Some (True, [TryOpen, SleepBackOff 0, TryOpen]) \<and> successively paused [TryOpen, SleepBackOff 0, TryOpen]"
  using stream_retries_paced [of "[\<lparr>ot_continues = True, ot_opened = False, ot_conn_ready = True, ot_slept = True, ot_became_ready = False\<rparr>,
     \<lparr>ot_continues = True, ot_opened = True, ot_conn_ready = True, ot_slept = False, ot_became_ready = False\<rparr>]" True
     "[TryOpen, SleepBackOff 0, TryOpen]"]
  by (simp add: newStreamWithRetry_def open_turn_do_def)

section \<open>Workers\<close>

text \<open>One turn of \<^verbatim>\<open>superviseWorker\<close>: whether the body returned, else whether the worker still continues before and after the delay.\<close>

record worker_turn =
  wt_completed :: bool
  wt_continues :: bool
  wt_slept :: bool
  wt_continues_after :: bool

definition supervise_turn :: "nat \<Rightarrow> worker_turn \<Rightarrow> nat + nat" where
  "supervise_turn runs t =
     (if wt_completed t then Inl (runs + 1)
      else if \<not> wt_continues t then Inl (runs + 1)
      else if \<not> wt_slept t then Inl (runs + 1)
      else if \<not> wt_continues_after t then Inl (runs + 1)
      else Inr (runs + 1))"

definition superviseWorker :: "worker_turn list \<Rightarrow> nat option" where
  "superviseWorker ts = for_each supervise_turn 0 ts"

section \<open>URL statistics messages\<close>

record PUriHistogram =
  ph_total :: int
  ph_max :: int
  ph_histogram :: "nat list"

record PEachUriStat =
  pu_uri :: string
  pu_totalHistogram :: PUriHistogram
  pu_failedHistogram :: PUriHistogram
  pu_timestamp :: int

definition makePUriHistogram :: "urlStatHistogram \<Rightarrow> PUriHistogram" where
  "makePUriHistogram hg =
     (if histogram_isEmpty hg then \<lparr>ph_total = 0, ph_max = 0, ph_histogram = []\<rparr>
      else \<lparr>ph_total = hg_total hg, ph_max = hg_max hg, ph_histogram = histogram hg\<rparr>)"

definition makePEachUriStat :: "eachUrlStat \<Rightarrow> PEachUriStat" where
  "makePEachUriStat e =
     \<lparr>pu_uri = validUTF8 (each_url e), pu_totalHistogram = makePUriHistogram (totalHistogram e),
      pu_failedHistogram = makePUriHistogram (failedHistogram e), pu_timestamp = tickTime e div 1000000\<rparr>"

definition makePEachUriStatList :: "urlStatSnapshot \<Rightarrow> PEachUriStat list" where
  "makePEachUriStatList st = map (\<lambda>(_, e). makePEachUriStat e) (urlMap st)"

lemma uri_messages:
  "list_all (\<lambda>p. ValidString (pu_uri p)) (makePEachUriStatList st)"
  "sum_list (ph_histogram (makePUriHistogram hg)) = sum_list (histogram hg)"
  by (auto simp: makePEachUriStatList_def makePEachUriStat_def list_all_iff makePUriHistogram_def histogram_isEmpty_def sum_list_replicate)

end
