(* ===== verification/Stream_Workers.thy ===== *)
theory Stream_Workers
  imports Pinpoint_Prelude
begin

text \<open>
  The long-lived streams of the statistics and the ping worker (\<^verbatim>\<open>streamHandle\<close>, \<^verbatim>\<open>sendStreamWithTimeout\<close> and \<^verbatim>\<open>renewIfExpired\<close> of
  \<^verbatim>\<open>src/grpc.go\<close>, \<^verbatim>\<open>sendStatsOrReopen\<close>, \<^verbatim>\<open>sendStatsWorker\<close> and \<^verbatim>\<open>sendPingWorker\<close> of \<^verbatim>\<open>src/agent.go\<close>). Every operation appends what
  it does with a stream to a log: opening it, cancelling its context, a call on it with its outcome, or a message that met no stream. Shown of the log: a
  stream is opened only when no other is open, none is open at the end, and a message is handed over again only after an attempt that was reported as
  failed.
\<close>

section \<open>Streams\<close>

text \<open>
  How a call on a stream ends. A call that overran its timer is reported as timed out whatever it did itself, so its message may have
  gone out all the same.
\<close>

datatype send_outcome = SendOk | SendError | SendTimedOut

text \<open>
  \<open>sendStreamWithTimeout\<close>: the result of the call itself, and whether \<^verbatim>\<open>timer.Stop\<close> came in time.
\<close>

definition sendStreamWithTimeout :: "bool \<Rightarrow> bool \<Rightarrow> send_outcome" where
  "sendStreamWithTimeout op_ok in_time = (if in_time then (if op_ok then SendOk else SendError) else SendTimedOut)"

datatype 'm stream_event = Opened nat | Cancelled nat | Attempt 'm nat send_outcome | NoStream 'm

record 'm streams =
  fresh :: nat
  history :: "'m stream_event list"

text \<open>The streams whose context is not cancelled, read off the log.\<close>

fun open_after :: "nat set \<Rightarrow> 'm stream_event list \<Rightarrow> nat set" where
  "open_after S [] = S"
| "open_after S (Opened i # es) = open_after (insert i S) es"
| "open_after S (Cancelled i # es) = open_after (S - {i}) es"
| "open_after S (_ # es) = open_after S es"

definition streams_open :: "'m streams \<Rightarrow> nat set" where
  "streams_open w = open_after {} (history w)"

definition emit :: "'m stream_event list \<Rightarrow> 'm streams \<Rightarrow> 'm streams" where
  "emit es w = w\<lparr>history := history w @ es\<rparr>"

section \<open>Handles\<close>

text \<open>A handle holds a stream, cancelled or not, or none.\<close>

type_synonym streamHandle = "nat option"

text \<open>What the opener hands back: whether \<open>newStreamWithRetry\<close> opened a stream before a stop cut it short.\<close>

definition newStreamHandle :: "bool \<Rightarrow> 'm streams \<Rightarrow> streamHandle \<times> 'm streams" where
  "newStreamHandle opened w =
     (if opened then (Some (fresh w), emit [Opened (fresh w)] (w\<lparr>fresh := fresh w + 1\<rparr>)) else (None, w))"

text \<open>
  \<^verbatim>\<open>streamHandle.send\<close>. A call on a stream whose context is cancelled never succeeds; a call that failed, or was too slow, cancels the stream. The
  handle keeps it.
\<close>

definition handle_send :: "'m \<Rightarrow> bool \<times> bool \<Rightarrow> streamHandle \<Rightarrow> 'm streams \<Rightarrow> bool \<times> 'm streams" where
  "handle_send m call h w =
     (case h of None \<Rightarrow> (False, w)
      | Some i \<Rightarrow>
          let r = sendStreamWithTimeout (fst call \<and> i \<in> streams_open w) (snd call)
          in if r = SendOk then (True, emit [Attempt m i r] w) else (False, emit [Attempt m i r, Cancelled i] w))"

definition handle_close :: "streamHandle \<Rightarrow> 'm streams \<Rightarrow> streamHandle \<times> 'm streams" where
  "handle_close h w = (case h of None \<Rightarrow> (None, w) | Some i \<Rightarrow> (None, emit [Cancelled i] w))"

text \<open>The empty stream has no age and never expires.\<close>

definition renewIfExpired :: "bool \<Rightarrow> bool \<Rightarrow> streamHandle \<Rightarrow> 'm streams \<Rightarrow> streamHandle \<times> 'm streams" where
  "renewIfExpired expired reopened h w =
     (if h = None \<or> \<not> expired then (h, w) else newStreamHandle reopened (snd (handle_close h w)))"

section \<open>The statistics worker\<close>

text \<open>What one delivery of statistics meets: the age of the stream, the two openings and the two calls.\<close>

record send_reading =
  sr_expired :: bool
  sr_renewed :: bool
  sr_sent :: "bool \<times> bool"
  sr_reopened :: bool
  sr_resent :: "bool \<times> bool"

definition sendStatsOrReopen :: "send_reading \<Rightarrow> 'm \<Rightarrow> streamHandle \<Rightarrow> 'm streams \<Rightarrow> streamHandle \<times> 'm streams" where
  "sendStatsOrReopen r m h w =
     (let (h, w) = renewIfExpired (sr_expired r) (sr_renewed r) h w
      in if h = None then (h, emit [NoStream m] w)
         else let (ok, w) = handle_send m (sr_sent r) h w
              in if ok then (h, w)
                 else let (h, w) = handle_close h w; (h, w) = newStreamHandle (sr_reopened r) w
                      in if h \<noteq> None then (h, snd (handle_send m (sr_resent r) h w)) else (h, emit [NoStream m] w))"

fun send_all :: "('m \<times> send_reading) list \<Rightarrow> streamHandle \<Rightarrow> 'm streams \<Rightarrow> streamHandle \<times> 'm streams" where
  "send_all [] h w = (h, w)"
| "send_all ((m, r) # msgs) h w = (case sendStatsOrReopen r m h w of (h, w) \<Rightarrow> send_all msgs h w)"

text \<open>\<open>sendStatsWorker\<close> over the messages it takes from the queue until it stops, with its deferred close: the log it leaves.\<close>

definition sendStatsWorker :: "bool \<Rightarrow> ('m \<times> send_reading) list \<Rightarrow> 'm stream_event list" where
  "sendStatsWorker opened msgs =
     (case newStreamHandle opened \<lparr>fresh = 0, history = []\<rparr> of (h, w) \<Rightarrow> case send_all msgs h w of (h, w) \<Rightarrow> history (snd (handle_close h w)))"

section \<open>The ping worker\<close>

text \<open>A ping is a send and a receive on the stream; a failed one replaces it.\<close>

datatype ping_op = PingSend | PingRecv

record ping_reading =
  pr_expired :: bool
  pr_renewed :: bool
  pr_sent :: "bool \<times> bool"
  pr_received :: "bool \<times> bool"
  pr_reopened :: bool

definition sendPing :: "bool \<times> bool \<Rightarrow> bool \<times> bool \<Rightarrow> streamHandle \<Rightarrow> ping_op streams \<Rightarrow> bool \<times> ping_op streams" where
  "sendPing sent received h w =
     (let (ok, w) = handle_send PingSend sent h w in if \<not> ok then (False, w) else handle_send PingRecv received h w)"

definition ping_turn :: "ping_reading \<Rightarrow> streamHandle \<Rightarrow> ping_op streams \<Rightarrow> streamHandle \<times> ping_op streams" where
  "ping_turn r h w =
     (let (h, w) = renewIfExpired (pr_expired r) (pr_renewed r) h w
      in if h = None then (h, w)
         else let (ok, w) = sendPing (pr_sent r) (pr_received r) h w
              in if ok then (h, w) else newStreamHandle (pr_reopened r) (snd (handle_close h w)))"

definition sendPingWorker :: "bool \<Rightarrow> ping_reading list \<Rightarrow> ping_op stream_event list" where
  "sendPingWorker opened rs =
     (case newStreamHandle opened \<lparr>fresh = 0, history = []\<rparr> of (h, w) \<Rightarrow>
        case fold (\<lambda>r (h, w). ping_turn r h w) rs (h, w) of (h, w) \<Rightarrow> history (snd (handle_close h w)))"

section \<open>How streams are used\<close>

text \<open>
  The discipline of a log: a stream is opened only while none is open, a call succeeds only on the stream that is open, and a message
  goes without a stream only when there is none.
\<close>

fun well_used :: "nat set \<Rightarrow> 'm stream_event list \<Rightarrow> bool" where
  "well_used S [] \<longleftrightarrow> True"
| "well_used S (Opened i # es) \<longleftrightarrow> S = {} \<and> well_used {i} es"
| "well_used S (Cancelled i # es) \<longleftrightarrow> well_used (S - {i}) es"
| "well_used S (Attempt m i r # es) \<longleftrightarrow> (r = SendOk \<longrightarrow> S = {i}) \<and> well_used S es"
| "well_used S (NoStream m # es) \<longleftrightarrow> S = {} \<and> well_used S es"

text \<open>Every call, failed ones included, is on a stream that is open.\<close>

fun used_while_open :: "nat set \<Rightarrow> 'm stream_event list \<Rightarrow> bool" where
  "used_while_open S [] \<longleftrightarrow> True"
| "used_while_open S (Opened i # es) \<longleftrightarrow> used_while_open (insert i S) es"
| "used_while_open S (Cancelled i # es) \<longleftrightarrow> used_while_open (S - {i}) es"
| "used_while_open S (Attempt m i r # es) \<longleftrightarrow> i \<in> S \<and> used_while_open S es"
| "used_while_open S (NoStream m # es) \<longleftrightarrow> used_while_open S es"

lemma open_after_append [simp]: "open_after S (xs @ ys) = open_after (open_after S xs) ys"
  by (induction S xs rule: open_after.induct) auto

lemma well_used_append [simp]: "well_used S (xs @ ys) \<longleftrightarrow> well_used S xs \<and> well_used (open_after S xs) ys"
  by (induction S xs rule: well_used.induct) auto

lemma used_while_open_append [simp]:
  "used_while_open S (xs @ ys) \<longleftrightarrow> used_while_open S xs \<and> used_while_open (open_after S xs) ys"
  by (induction S xs rule: used_while_open.induct) auto

text \<open>Between two operations: the log is disciplined and at most the stream in the handle is open.\<close>

definition handle_inv :: "streamHandle \<Rightarrow> 'm streams \<Rightarrow> bool" where
  "handle_inv h w \<longleftrightarrow>
     well_used {} (history w) \<and> streams_open w \<subseteq> set_option h \<and> (\<forall>i\<in>set_option h. i < fresh w)"

lemma emit_sel [simp]: "history (emit es w) = history w @ es" "fresh (emit es w) = fresh w"
  by (simp_all add: emit_def)

lemma emit_open [simp]: "streams_open (emit es w) = open_after (streams_open w) es"
  by (simp add: streams_open_def)

lemma streams_open_upd [simp]: "streams_open (w\<lparr>fresh := n\<rparr>) = streams_open w"
  by (simp add: streams_open_def)

lemma subset_option_cases: "S \<subseteq> set_option h \<Longrightarrow> S = {} \<or> (\<exists>i. h = Some i \<and> S = {i})"
  by (cases h) auto

lemma inv_new: "well_used {} (history w) \<Longrightarrow> streams_open w = {} \<Longrightarrow> newStreamHandle ok w = (h, w') \<Longrightarrow> handle_inv h w'"
  by (auto simp: handle_inv_def newStreamHandle_def streams_open_def split: if_splits)

lemma inv_close: "handle_inv h w \<Longrightarrow> handle_close h w = (h', w') \<Longrightarrow> h' = None \<and> well_used {} (history w') \<and> streams_open w' = {}"
  by (auto simp: handle_inv_def handle_close_def streams_open_def split: option.splits)

lemma inv_reopen: "handle_inv h w \<Longrightarrow> newStreamHandle ok (snd (handle_close h w)) = (h', w') \<Longrightarrow> handle_inv h' w'"
  using inv_close [of h w] by (cases "handle_close h w") (auto intro: inv_new)

lemma inv_send: "handle_inv h w \<Longrightarrow> handle_send m c h w = (ok, w') \<Longrightarrow> handle_inv h w'"
  by (auto simp: handle_inv_def handle_send_def Let_def sendStreamWithTimeout_def streams_open_def split: option.splits if_splits)

lemma inv_renew: "handle_inv h w \<Longrightarrow> renewIfExpired e ok h w = (h', w') \<Longrightarrow> handle_inv h' w'"
  by (auto simp: renewIfExpired_def dest: inv_reopen split: if_splits)

lemma inv_no_stream: "handle_inv None w \<Longrightarrow> handle_inv None (emit [NoStream m] w)"
  by (simp add: handle_inv_def streams_open_def)

text \<open>One message on its way: no stream, one successful call, or a failed call followed by one on another stream, or by none.\<close>

fun message_ok :: "'m \<Rightarrow> 'm stream_event list \<Rightarrow> bool" where
  "message_ok m [NoStream m'] \<longleftrightarrow> m' = m"
| "message_ok m [Attempt m' i r] \<longleftrightarrow> m' = m \<and> r = SendOk"
| "message_ok m [Attempt m' i r, Attempt m'' j r'] \<longleftrightarrow> m' = m \<and> m'' = m \<and> r \<noteq> SendOk \<and> i \<noteq> j"
| "message_ok m [Attempt m' i r, NoStream m''] \<longleftrightarrow> m' = m \<and> m'' = m \<and> r \<noteq> SendOk"
| "message_ok m _ \<longleftrightarrow> False"

fun is_message :: "'m stream_event \<Rightarrow> bool" where
  "is_message (Attempt m i r) \<longleftrightarrow> True"
| "is_message (NoStream m) \<longleftrightarrow> True"
| "is_message _ \<longleftrightarrow> False"

abbreviation messages :: "'m streams \<Rightarrow> 'm stream_event list" where
  "messages w \<equiv> filter is_message (history w)"

lemma new_messages: "newStreamHandle ok w = (h, w') \<Longrightarrow> messages w' = messages w \<and> fresh w \<le> fresh w' \<and> h \<in> {None, Some (fresh w)}"
  by (auto simp: newStreamHandle_def split: if_splits)

lemma close_messages: "handle_close h w = (h', w') \<Longrightarrow> messages w' = messages w \<and> fresh w' = fresh w \<and> h' = None"
  by (auto simp: handle_close_def split: option.splits)

lemma renew_messages: "renewIfExpired e ok h w = (h', w') \<Longrightarrow> messages w' = messages w"
  using new_messages [of ok "snd (handle_close h w)"] close_messages [of h w "fst (handle_close h w)" "snd (handle_close h w)"]
  by (auto simp: renewIfExpired_def split: if_splits)

lemma send_messages:
  "handle_send m c (Some i) w = (ok, w') \<Longrightarrow>
   \<exists>r. messages w' = messages w @ [Attempt m i r] \<and> ok = (r = SendOk) \<and> fresh w' = fresh w"
  by (auto simp: handle_send_def Let_def split: if_splits)

lemma stats_step:
  assumes "handle_inv h w" "sendStatsOrReopen r m h w = (h', w')"
  shows "handle_inv h' w' \<and> (\<exists>g. messages w' = messages w @ g \<and> message_ok m g)"
proof -
  obtain h1 w1 where renew: "renewIfExpired (sr_expired r) (sr_renewed r) h w = (h1, w1)" by (rule prod.exhaust)
  have inv1: "handle_inv h1 w1" using assms(1) renew by (rule inv_renew)
  note kept = renew_messages [OF renew]
  show ?thesis
  proof (cases h1)
    case None
    then show ?thesis using assms(2) inv1 kept by (auto simp: sendStatsOrReopen_def renew inv_no_stream)
  next
    case (Some i)
    obtain ok w2 where first: "handle_send m (sr_sent r) (Some i) w1 = (ok, w2)" by (rule prod.exhaust)
    have inv2: "handle_inv (Some i) w2" using inv1 [unfolded Some] first by (rule inv_send)
    obtain o1 where o1: "messages w2 = messages w1 @ [Attempt m i o1]" "ok = (o1 = SendOk)" "fresh w2 = fresh w1"
      using send_messages [OF first] by blast
    obtain h3 w3 where shut: "handle_close (Some i) w2 = (h3, w3)" by (rule prod.exhaust)
    obtain h4 w4 where again: "newStreamHandle (sr_reopened r) w3 = (h4, w4)" by (rule prod.exhaust)
    have inv4: "handle_inv h4 w4" using inv_reopen [OF inv2, of "sr_reopened r" h4 w4] by (simp add: shut again)
    note msgs4 = new_messages [OF again] close_messages [OF shut]
    have older: "i < fresh w2" using inv2 by (simp add: handle_inv_def)
    show ?thesis
    proof (cases "ok \<or> h4 = None")
      case True
      then show ?thesis
        using assms(2) inv2 inv4 o1 msgs4 kept
        by (auto simp: sendStatsOrReopen_def renew Some first shut again inv_no_stream)
    next
      case False
      then obtain j where j: "h4 = Some j" "j = fresh w2" using msgs4 by auto
      obtain ok' w5 where second: "handle_send m (sr_resent r) (Some j) w4 = (ok', w5)" by (rule prod.exhaust)
      obtain o2 where o2: "messages w5 = messages w4 @ [Attempt m j o2]" using send_messages [OF second] by blast
      have "handle_inv (Some j) w5" using inv4 [unfolded j(1)] second by (rule inv_send)
      moreover have "h' = Some j" "w' = w5"
        using assms(2) False j second by (simp_all add: sendStatsOrReopen_def renew Some first shut again)
      ultimately show ?thesis using False o1 o2 msgs4 kept older j by auto
    qed
  qed
qed

lemma stats_run:
  assumes "handle_inv h w" "send_all msgs h w = (h', w')"
  shows "handle_inv h' w' \<and> (\<exists>gs. messages w' = messages w @ concat gs \<and> list_all2 message_ok (map fst msgs) gs)"
  using assms
proof (induction msgs arbitrary: h w)
  case (Cons x msgs)
  obtain m r where x: "x = (m, r)" by (rule prod.exhaust)
  obtain h1 w1 where turn: "sendStatsOrReopen r m h w = (h1, w1)" by (rule prod.exhaust)
  from stats_step [OF Cons.prems(1) turn] obtain g
    where g: "handle_inv h1 w1" "messages w1 = messages w @ g" "message_ok m g" by blast
  from Cons.IH [OF g(1)] Cons.prems(2) obtain gs
    where "handle_inv h' w'" "messages w' = messages w1 @ concat gs" "list_all2 message_ok (map fst msgs) gs"
    by (auto simp: x turn)
  with g x show ?case by (intro conjI exI [of _ "g # gs"]) simp_all
qed auto

text \<open>The ping worker gives up a stream as soon as a call on it failed: what it holds is open.\<close>

definition ping_inv :: "streamHandle \<Rightarrow> 'm streams \<Rightarrow> bool" where
  "ping_inv h w \<longleftrightarrow> handle_inv h w \<and> streams_open w = set_option h \<and> used_while_open {} (history w)"

lemma ping_inv_new:
  assumes "handle_inv h w" "used_while_open {} (history w)" "newStreamHandle ok (snd (handle_close h w)) = (h', w')"
  shows "ping_inv h' w'"
proof -
  obtain w1 where close: "handle_close h w = (None, w1)" by (cases h) (auto simp: handle_close_def)
  have "used_while_open {} (history w1)"
    using assms(2) close by (auto simp: handle_close_def split: option.splits)
  then show ?thesis
    using inv_reopen [OF assms(1,3)] inv_close [OF assms(1) close] assms(3)
    by (auto simp: ping_inv_def newStreamHandle_def close split: if_splits)
qed

lemma ping_inv_send:
  "ping_inv h w \<Longrightarrow> handle_send m c h w = (ok, w') \<Longrightarrow> used_while_open {} (history w') \<and> (ok \<longrightarrow> streams_open w' = set_option h)"
  unfolding ping_inv_def handle_send_def Let_def
  by (cases h; hypsubst; simp add: streams_open_def split: if_splits; elim conjE; hypsubst_thin; simp)

lemma ping_inv_ping:
  assumes "ping_inv h w" "sendPing a b h w = (ok, w')"
  shows "handle_inv h w' \<and> used_while_open {} (history w') \<and> (ok \<longrightarrow> ping_inv h w')"
proof -
  obtain sent w1 where send: "handle_send PingSend a h w = (sent, w1)" by (rule prod.exhaust)
  have inv1: "handle_inv h w1" using assms(1) send by (auto simp: ping_inv_def intro: inv_send)
  with ping_inv_send [OF assms(1) send] have "sent \<longrightarrow> ping_inv h w1" by (simp add: ping_inv_def)
  with inv1 ping_inv_send [OF assms(1) send] ping_inv_send [of h w1 PingRecv b ok w'] inv_send [of h w1 PingRecv b ok w'] assms(2) show ?thesis
    by (auto simp: sendPing_def send ping_inv_def split: if_splits)
qed

lemma ping_turn_inv:
  assumes "ping_inv h w" "ping_turn r h w = (h', w')"
  shows "ping_inv h' w'"
proof -
  obtain h1 w1 where renew: "renewIfExpired (pr_expired r) (pr_renewed r) h w = (h1, w1)" by (rule prod.exhaust)
  obtain ok w2 where ping: "sendPing (pr_sent r) (pr_received r) h1 w1 = (ok, w2)" by (rule prod.exhaust)
  have "ping_inv h1 w1"
    using assms(1) renew ping_inv_new [of h w "pr_renewed r" h1 w1] by (auto simp: renewIfExpired_def ping_inv_def split: if_splits)
  with ping_inv_ping [OF this ping] ping_inv_new [of h1 w2 "pr_reopened r" h' w'] assms(2) show ?thesis
    by (auto simp: ping_turn_def renew ping split: if_splits)
qed

lemma ping_run:
  assumes "ping_inv h w" "fold (\<lambda>r (h, w). ping_turn r h w) rs (h, w) = (h', w')"
  shows "ping_inv h' w'"
  using assms
proof (induction rs arbitrary: h w)
  case (Cons r rs)
  obtain h1 w1 where turn: "ping_turn r h w = (h1, w1)" by (rule prod.exhaust)
  with Cons.IH [OF ping_turn_inv [OF Cons.prems(1) turn]] Cons.prems(2) show ?case by simp
qed simp

text \<open>
  (C24) However calls fail or time out, streams expire and reconnections succeed or are cut short, the statistics worker and the ping worker each
  keep to one stream: at every moment of a run a stream is opened only when no other is open, a call succeeds only on the open one, and no stream is open
  once the worker has returned; the ping worker makes no call at all on a stream that has failed. The statistics messages are taken in their order, each in one of four ways: it is handed over by one
  successful call; its first call was reported failed or timed out and it is handed over once more on another stream; likewise, but no other stream
  could be opened; or there was no stream for it at all. So no message is sent again after a success, and one reported as timed
  out, which may have gone out, is sent again once.
\<close>

theorem worker_streams_closed:
  "well_used {} (sendStatsWorker opened msgs) \<and> open_after {} (sendStatsWorker opened msgs) = {}
   \<and> (\<exists>gs. filter is_message (sendStatsWorker opened msgs) = concat gs \<and> list_all2 message_ok (map fst msgs) gs)
   \<and> well_used {} (sendPingWorker opened rs) \<and> used_while_open {} (sendPingWorker opened rs) \<and> open_after {} (sendPingWorker opened rs) = {}"
proof -
  obtain h w where start: "newStreamHandle opened \<lparr>fresh = 0, history = [] :: 'a stream_event list\<rparr> = (h, w)" by (rule prod.exhaust)
  obtain h' w' where pstart: "newStreamHandle opened \<lparr>fresh = 0, history = [] :: ping_op stream_event list\<rparr> = (h', w')" by (rule prod.exhaust)
  have inv: "handle_inv h w" by (rule inv_new [OF _ _ start]) (simp_all add: streams_open_def)
  have pinv: "ping_inv h' w'"
    by (rule ping_inv_new [of None "\<lparr>fresh = 0, history = []\<rparr>" opened])
      (simp_all add: handle_inv_def streams_open_def handle_close_def pstart)
  obtain h1 w1 where run: "send_all msgs h w = (h1, w1)" by (rule prod.exhaust)
  obtain h2 w2 where pings: "fold (\<lambda>r (h, w). ping_turn r h w) rs (h', w') = (h2, w2)" by (rule prod.exhaust)
  obtain h3 w3 where shut: "handle_close h1 w1 = (h3, w3)" by (rule prod.exhaust)
  obtain h4 w4 where pshut: "handle_close h2 w2 = (h4, w4)" by (rule prod.exhaust)
  have logs: "sendStatsWorker opened msgs = history w3" "sendPingWorker opened rs = history w4"
    by (simp_all add: sendStatsWorker_def sendPingWorker_def start pstart run pings shut pshut)
  from stats_run [OF inv run] new_messages [OF start] obtain gs
    where gs: "handle_inv h1 w1" "messages w1 = concat gs" "list_all2 message_ok (map fst msgs) gs" by auto
  have ends: "ping_inv h2 w2" using pinv pings by (rule ping_run)
  then have "used_while_open {} (history w4)" using pshut by (auto simp: ping_inv_def handle_close_def split: option.splits)
  with inv_close [OF gs(1) shut] inv_close [OF _ pshut] ends close_messages [OF shut] gs(2,3) show ?thesis
    unfolding logs by (auto simp: streams_open_def ping_inv_def)
qed

end
