(* ===== verification/Http_Proxy.thy ===== *)
theory Http_Proxy
  imports Trace_Context Span_Event "HOL-Library.Signed_Division"
begin

text \<open>
  The proxy headers of an HTTP request (\<^verbatim>\<open>src/plugin/http/server.go\<close>): \<open>Pinpoint-ProxyApache\<close>, \<open>-ProxyNginx\<close>, \<open>-ProxyApp\<close> and
  the configured user headers, each parsed into a \<open>proxyRequest\<close> and recorded as one annotation. Times are int64 and the
  optional fields int32, at their width. \<open>nginxMillis\<close> reads the two halves of a \<open>sec.mmm\<close> value apart; it is proved to return
  what reading them as one number would, at every input, overflow included.
\<close>

section \<open>strings.IndexByte and LastIndexByte\<close>

fun IndexByte :: "string \<Rightarrow> char \<Rightarrow> int" where
  "IndexByte [] c = - 1"
| "IndexByte (x # xs) c = (if x = c then 0 else let i = IndexByte xs c in if i = - 1 then - 1 else i + 1)"

fun LastIndexByte :: "string \<Rightarrow> char \<Rightarrow> int" where
  "LastIndexByte [] c = - 1"
| "LastIndexByte (x # xs) c =
     (let i = LastIndexByte xs c in if i \<noteq> - 1 then i + 1 else if x = c then 0 else - 1)"

lemma LastIndexByte_ge: "- 1 \<le> LastIndexByte s c"
  by (induction s) (auto simp: Let_def)

lemma LastIndexByte_split:
  assumes "LastIndexByte s c \<noteq> - 1"
  shows "s = take (nat (LastIndexByte s c)) s @ c # drop (nat (LastIndexByte s c) + 1) s \<and> LastIndexByte s c < int (length s)"
  using assms
proof (induction s)
  case (Cons x xs)
  show ?case
  proof (cases "LastIndexByte xs c = - 1")
    case True
    with Cons.prems show ?thesis by (auto simp: Let_def split: if_splits)
  next
    case False
    moreover have "nat (LastIndexByte xs c + 1) = Suc (nat (LastIndexByte xs c))"
      using LastIndexByte_ge [of xs c] False by simp
    ultimately show ?thesis using Cons.IH by (simp add: Let_def)
  qed
qed simp

lemma LastIndexByte_none: "c \<notin> set s \<Longrightarrow> LastIndexByte s c = - 1"
  by (induction s) auto

lemma LastIndexByte_last: "c \<notin> set t \<Longrightarrow> LastIndexByte (s @ c # t) c = int (length s)"
  by (induction s) (auto simp: LastIndexByte_none)

section \<open>Number fields\<close>

definition proxyUnset :: go_int32 where "proxyUnset = - 1"
definition proxyAppMaxLength :: nat where "proxyAppMaxLength = 30"

definition MaxInt64 :: int where "MaxInt64 = 9223372036854775807"
definition MinInt64 :: int where "MinInt64 = - 9223372036854775808"

text \<open>The three digits after the point.\<close>

fun nginx_digits :: "go_int64 \<Rightarrow> string \<Rightarrow> go_int64 option" where
  "nginx_digits ms [] = Some ms"
| "nginx_digits ms (c # cs) =
     (if byte_of c < byte_of CHR ''0'' \<or> byte_of c > byte_of CHR ''9'' then None
      else nginx_digits (ms * 10 + of_nat (byte_of c - byte_of CHR ''0'')) cs)"

text \<open>The seconds before it: 0 without digits, refused when they do not parse or their milliseconds do not fit.\<close>

definition nginx_seconds :: "string \<Rightarrow> go_int64 option" where
  "nginx_seconds s =
     (if s \<noteq> [] \<and> s \<noteq> ''+'' \<and> s \<noteq> ''-'' then
        (case ParseInt64 s of None \<Rightarrow> None
         | Some sec \<Rightarrow> if sint sec > 9223372036854775 \<or> sint sec < - 9223372036854775 then None else Some sec)
      else Some 0)"

definition nginxMillis :: "string \<Rightarrow> go_int64" where
  "nginxMillis v =
     (let dot = LastIndexByte v CHR ''.''
      in if dot = - 1 \<or> int (length v) - dot \<noteq> 4 then 0
         else (case nginx_digits 0 (drop (nat dot + 1) v) of None \<Rightarrow> 0
         | Some ms \<Rightarrow>
             (case nginx_seconds (take (nat dot) v) of None \<Rightarrow> 0
             | Some sec \<Rightarrow>
                 if HasPrefix v ''-'' then
                   (if sint (sec * 1000) < sint (word_of_int MinInt64 + ms) then 0 else sec * 1000 - ms)
                 else (if sint (sec * 1000) > sint (word_of_int MaxInt64 - ms) then 0 else sec * 1000 + ms))))"

definition nginxDurationMicros :: "string \<Rightarrow> go_int32" where
  "nginxDurationMicros v =
     (let ms = nginxMillis v
      in if sint ms \<le> 0 \<or> sint ms > 2147483 then proxyUnset else scast (ms * 1000))"

definition proxyDigits :: "string \<Rightarrow> go_int64" where
  "proxyDigits v = (case ParseInt64 v of None \<Rightarrow> 0 | Some n \<Rightarrow> n)"

definition proxyMicros :: "string \<Rightarrow> go_int32" where
  "proxyMicros v = (case ParseInt 32 v of None \<Rightarrow> proxyUnset | Some n \<Rightarrow> if n \<le> 0 then proxyUnset else word_of_int n)"

definition proxyPercent :: "string \<Rightarrow> go_int32" where
  "proxyPercent v = (case ParseInt 32 v of None \<Rightarrow> proxyUnset
     | Some n \<Rightarrow> if n < 0 \<or> n > 100 then proxyUnset else word_of_int n)"

definition userReceivedTimeMillis :: "string \<Rightarrow> go_int64" where
  "userReceivedTimeMillis v =
     (let n = length v
      in if n < 13 then 0
         else if n \<ge> 16 then proxyDigits (take (n - 3) v)
         else let dot = LastIndexByte v CHR ''.''
              in if dot \<noteq> - 1 then (if dot < 10 then 0 else nginxMillis v) else proxyDigits v)"

definition userDurationMicros :: "string \<Rightarrow> go_int32" where
  "userDurationMicros v = (if IndexByte v CHR ''.'' \<noteq> - 1 then nginxDurationMicros v else proxyMicros v)"

section \<open>The parsers\<close>

record proxyRequest =
  px_valid :: bool
  receivedTime :: go_int64
  durationTime :: go_int32
  idlePercent :: go_int32
  busyPercent :: go_int32
  px_app :: string

definition newProxyRequest :: "string \<Rightarrow> proxyRequest" where
  "newProxyRequest a = \<lparr>px_valid = True, receivedTime = 0, durationTime = proxyUnset, idlePercent = proxyUnset,
     busyPercent = proxyUnset, px_app = a\<rparr>"

definition proxyTokens :: "string \<Rightarrow> (string \<Rightarrow> string \<Rightarrow> 'p \<Rightarrow> 'p) \<Rightarrow> 'p \<Rightarrow> 'p" where
  "proxyTokens value fn p =
     fold (\<lambda>tok p. case Cut CHR ''='' tok of (k, v, found) \<Rightarrow> if found then fn k v p else p) (split_on CHR '' '' value) p"

definition parseProxyApache :: "string \<Rightarrow> proxyRequest" where
  "parseProxyApache value = proxyTokens value
     (\<lambda>k v p. if k = ''t'' then p\<lparr>receivedTime := word_of_int (sint (proxyDigits v) sdiv 1000)\<rparr>
        else if k = ''D'' then p\<lparr>durationTime := proxyMicros v\<rparr>
        else if k = ''i'' then p\<lparr>idlePercent := proxyPercent v\<rparr>
        else if k = ''b'' then p\<lparr>busyPercent := proxyPercent v\<rparr> else p)
     (newProxyRequest [])"

definition parseProxyNginx :: "string \<Rightarrow> proxyRequest" where
  "parseProxyNginx value = proxyTokens value
     (\<lambda>k v p. if k = ''t'' then p\<lparr>receivedTime := nginxMillis v\<rparr>
        else if k = ''D'' then p\<lparr>durationTime := nginxDurationMicros v\<rparr> else p)
     (newProxyRequest [])"

definition parseProxyApp :: "string \<Rightarrow> proxyRequest" where
  "parseProxyApp value = proxyTokens value
     (\<lambda>k v p. if k = ''t'' then p\<lparr>receivedTime := proxyDigits v\<rparr>
        else if k = ''app'' then (if \<not> IsValidId v proxyAppMaxLength then p\<lparr>px_valid := False\<rparr> else p\<lparr>px_app := v\<rparr>)
        else p)
     (newProxyRequest [])"

definition parseProxyUser :: "string \<Rightarrow> string \<Rightarrow> proxyRequest" where
  "parseProxyUser name value = proxyTokens value
     (\<lambda>k v p. if k = ''t'' then p\<lparr>receivedTime := userReceivedTimeMillis v\<rparr>
        else if k = ''D'' then p\<lparr>durationTime := userDurationMicros v\<rparr> else p)
     (newProxyRequest name)"

section \<open>Recording\<close>

text \<open>
  A \<open>Header\<close> is what the adapters hand in: its \<open>Values\<close>, its \<open>VisitAll\<close> sequence, its \<open>Get\<close> when it has one, and whether it is
  the \<open>net/http\<close> one, whose \<open>Values\<close> is looked up by the canonical name.
\<close>

record header =
  hd_values :: "string \<Rightarrow> string list"
  hd_visit :: "(string \<times> string list) list"
  hd_get :: "(string \<Rightarrow> string) option"
  hd_nethttp :: bool

definition lookupKey :: "header \<Rightarrow> string \<Rightarrow> string \<Rightarrow> string" where
  "lookupKey h name canonical = (if hd_nethttp h then canonical else name)"

definition headerFirst :: "header \<Rightarrow> string \<Rightarrow> string" where
  "headerFirst h key =
     (case hd_get h of Some g \<Rightarrow> g key | None \<Rightarrow> (case hd_values h key of v # vs \<Rightarrow> v | [] \<Rightarrow> []))"

definition proxyHeaderApache :: string where "proxyHeaderApache = ''Pinpoint-ProxyApache''"
definition proxyHeaderNginx :: string where "proxyHeaderNginx = ''Pinpoint-ProxyNginx''"
definition proxyHeaderApp :: string where "proxyHeaderApp = ''Pinpoint-ProxyApp''"

definition proxyTypeApp :: go_int32 where "proxyTypeApp = 1"
definition proxyTypeNginx :: go_int32 where "proxyTypeNginx = 2"
definition proxyTypeApache :: go_int32 where "proxyTypeApache = 3"
definition proxyTypeUser :: go_int32 where "proxyTypeUser = 4"

definition AnnotationHttpProxyHeader :: go_int32 where "AnnotationHttpProxyHeader = 300"

definition appendProxyHeader :: "go_int32 \<Rightarrow> proxyRequest \<Rightarrow> annotation \<Rightarrow> annotation" where
  "appendProxyHeader code p a =
     (if \<not> px_valid p \<or> sint (receivedTime p) \<le> 0 then a
      else AppendLongIntIntByteByteString AnnotationHttpProxyHeader (receivedTime p) code (durationTime p) (idlePercent p)
        (busyPercent p) (px_app p) a)"

definition setProxyHeaderNames :: "header \<Rightarrow> string list \<Rightarrow> annotation \<Rightarrow> annotation" where
  "setProxyHeaderNames h userHeaders a =
     (let v = headerFirst h (lookupKey h proxyHeaderApache (CanonicalMIMEHeaderKey proxyHeaderApache));
          a = (if v \<noteq> [] then appendProxyHeader proxyTypeApache (parseProxyApache v) a else a);
          v = headerFirst h (lookupKey h proxyHeaderNginx (CanonicalMIMEHeaderKey proxyHeaderNginx));
          a = (if v \<noteq> [] then appendProxyHeader proxyTypeNginx (parseProxyNginx v) a else a);
          v = headerFirst h (lookupKey h proxyHeaderApp (CanonicalMIMEHeaderKey proxyHeaderApp));
          a = (if v \<noteq> [] then appendProxyHeader proxyTypeApp (parseProxyApp v) a else a)
      in fold (\<lambda>name a. let v = headerFirst h name
                 in if v \<noteq> [] then appendProxyHeader proxyTypeUser (parseProxyUser name v) a else a) userHeaders a)"

section \<open>Reading the two halves of a time as one number\<close>

text \<open>What \<open>nginxMillis\<close> replaces: the digits around the point read as one decimal number.\<close>

definition nginx_joined :: "string \<Rightarrow> go_int64" where
  "nginx_joined v =
     (let dot = LastIndexByte v CHR ''.''; s = take (nat dot) v; m = drop (nat dot + 1) v
      in if dot = - 1 \<or> length m \<noteq> 3 \<or> \<not> list_all isDigit m then 0 else proxyDigits (s @ m))"

lemma isDigit_bytes: "isDigit c \<longleftrightarrow> \<not> (byte_of c < byte_of CHR ''0'' \<or> byte_of c > byte_of CHR ''9'')"
  by (auto simp: isDigit_def)

lemma nginx_digits_val:
  "nginx_digits (of_nat acc) m = (if list_all isDigit m then Some (of_nat (digits_val acc m)) else None)"
proof (induction acc m rule: digits_val.induct)
  case (2 acc c cs)
  have "of_nat acc * 10 + of_nat (byte_of c - byte_of CHR ''0'') = (of_nat (10 * acc + digit_val c) :: go_int64)"
    by (simp add: digit_val_def)
  with 2 show ?case by (simp add: isDigit_bytes mult.commute)
qed simp

lemma digits_val_less: "list_all isDigit m \<Longrightarrow> digits_val acc m < (acc + 1) * 10 ^ length m"
proof (induction acc m rule: digits_val.induct)
  case (2 acc c cs)
  then have "digit_val c \<le> 9" by (auto simp: isDigit_def digit_val_def)
  then have "(10 * acc + digit_val c + 1) * 10 ^ length cs \<le> (10 * acc + 10) * 10 ^ length cs"
    by (intro mult_right_mono) simp_all
  moreover have "digits_val (10 * acc + digit_val c) cs < (10 * acc + digit_val c + 1) * 10 ^ length cs" using 2 by simp
  ultimately have "digits_val (10 * acc + digit_val c) cs < (10 * acc + 10) * 10 ^ length cs" by (rule order.strict_trans2 [rotated])
  then show ?case by (simp add: algebra_simps)
qed simp

lemma digits_val_acc: "digits_val acc m = acc * 10 ^ length m + digits_val 0 m"
proof (induction m arbitrary: acc)
  case (Cons c cs)
  show ?case using Cons [of "10 * acc + digit_val c"] Cons [of "digit_val c"] by (simp add: algebra_simps)
qed simp

lemma ParseInt64_int:
  "ParseInt64 s = map_option word_of_int (ParseInt 64 s)"
  by (simp add: ParseInt64_def)

lemma sint_of_int64: "- (2 ^ 63) \<le> n \<Longrightarrow> n < 2 ^ 63 \<Longrightarrow> sint (word_of_int n :: go_int64) = n"
  by (simp add: int_word_sint signed_take_bit_int_eq_self)

lemma parse_sign_cases:
  assumes "parse_sign s = (sg, ds)"
  shows "sg = 1 \<or> sg = - 1" "sg = - 1 \<longleftrightarrow> HasPrefix s ''-''" "s = [] \<or> s = ''+'' \<or> s = ''-'' \<longleftrightarrow> ds = []"
  using assms by (auto simp: parse_sign_def split: list.splits if_splits)

lemma parse_sign_append:
  assumes "parse_sign s = (sg, ds)" "list_all isDigit m"
  shows "parse_sign (s @ m) = (sg, ds @ m)"
  using assms by (cases s; cases m) (auto simp: parse_sign_def dest: isDigit_not_sign split: if_splits)

lemma ParseInt_joined:
  assumes "parse_sign s = (sg, ds)" "list_all isDigit m" "length m = 3"
  shows "ParseInt 64 (s @ m) =
    (let v = sg * (1000 * int (digits_val 0 ds) + int (digits_val 0 m))
     in if list_all isDigit ds \<and> MinInt64 \<le> v \<and> v \<le> MaxInt64 then Some v else None)"
proof -
  have val: "digits_val 0 (ds @ m) = 1000 * digits_val 0 ds + digits_val 0 m"
    using digits_val_acc [of "digits_val 0 ds" m] assms(3) by (simp add: digits_val_append mult.commute)
  have "m \<noteq> []" using assms(3) by auto
  then show ?thesis
    by (simp add: ParseInt_def parse_sign_append [OF assms(1,2)] val assms(2) MinInt64_def MaxInt64_def Let_def)
qed

lemma nginx_seconds_val:
  assumes "parse_sign s = (sg, ds)"
  shows "nginx_seconds s =
    (if list_all isDigit ds \<and> digits_val 0 ds \<le> 9223372036854775 then Some (word_of_int (sg * int (digits_val 0 ds))) else None)"
proof (cases "ds = []")
  case True
  then show ?thesis using parse_sign_cases(3) [OF assms] by (auto simp: nginx_seconds_def)
next
  case False
  let ?v = "sg * int (digits_val 0 ds)"
  have sg: "sg = 1 \<or> sg = - 1" by (rule parse_sign_cases(1) [OF assms])
  have parse: "ParseInt 64 s = (if list_all isDigit ds \<and> - (2 ^ 63) \<le> ?v \<and> ?v < 2 ^ 63 then Some ?v else None)"
    using False by (simp add: ParseInt_def assms Let_def)
  have "- (2 ^ 63) \<le> ?v \<Longrightarrow> ?v < 2 ^ 63 \<Longrightarrow> sint (word_of_int ?v :: go_int64) = ?v" by (rule sint_of_int64)
  moreover have "digits_val 0 ds \<le> 9223372036854775 \<Longrightarrow> - (2 ^ 63) \<le> ?v \<and> ?v < 2 ^ 63" using sg by auto
  moreover have "digits_val 0 ds \<le> 9223372036854775 \<longleftrightarrow> \<not> (?v > 9223372036854775 \<or> ?v < - 9223372036854775)" using sg by auto
  ultimately show ?thesis
    using False parse_sign_cases(3) [OF assms] by (auto simp: nginx_seconds_def ParseInt64_int parse)
qed

lemma sum_in_int64:
  fixes D M :: nat
  assumes "D \<le> 9223372036854775" "M < 1000" "sg = 1 \<or> sg = - 1"
  shows "sint (word_of_int (sg * int D) * 1000 :: go_int64) = sg * int D * 1000"
    "sint (word_of_int MinInt64 + of_nat M :: go_int64) = MinInt64 + int M"
    "sint (word_of_int MaxInt64 - of_nat M :: go_int64) = MaxInt64 - int M"
proof -
  have "word_of_int (sg * int D) * 1000 = (word_of_int (sg * int D * 1000) :: go_int64)" by simp
  then show "sint (word_of_int (sg * int D) * 1000 :: go_int64) = sg * int D * 1000"
    using sint_of_int64 [of "sg * int D * 1000"] assms by auto
  have "word_of_int MinInt64 + of_nat M = (word_of_int (MinInt64 + int M) :: go_int64)" by simp
  then show "sint (word_of_int MinInt64 + of_nat M :: go_int64) = MinInt64 + int M"
    using sint_of_int64 [of "MinInt64 + int M"] assms by (simp add: MinInt64_def del: of_int_add)
  have "word_of_int MaxInt64 - of_nat M = (word_of_int (MaxInt64 - int M) :: go_int64)" by simp
  then show "sint (word_of_int MaxInt64 - of_nat M :: go_int64) = MaxInt64 - int M"
    using sint_of_int64 [of "MaxInt64 - int M"] assms by (simp add: MaxInt64_def del: of_int_diff)
qed

lemma nginxMillis_joined: "nginxMillis v = nginx_joined v"
proof (cases "LastIndexByte v CHR ''.'' = - 1 \<or> int (length v) - LastIndexByte v CHR ''.'' \<noteq> 4")
  case True
  then show ?thesis
    using LastIndexByte_ge [of v "CHR ''.''"] by (auto simp: nginxMillis_def nginx_joined_def Let_def)
next
  case False
  define dot where "dot = LastIndexByte v CHR ''.''"
  define s where "s = take (nat dot) v"
  define m where "m = drop (nat dot + 1) v"
  have v: "v = s @ CHR ''.'' # m" and dot: "0 \<le> dot"
    using LastIndexByte_split [of v "CHR ''.''"] LastIndexByte_ge [of v "CHR ''.''"] False
    by (simp_all add: s_def m_def dot_def)
  have m3: "length m = 3" using False dot by (simp add: m_def dot_def)
  obtain sg ds where sgn: "parse_sign s = (sg, ds)" by (cases "parse_sign s")
  have neg: "HasPrefix v ''-'' \<longleftrightarrow> sg = - 1"
    using parse_sign_cases(2) [OF sgn] by (cases s) (auto simp: v)
  have sg: "sg = 1 \<or> sg = - 1" by (rule parse_sign_cases(1) [OF sgn])
  have sec: "nginx_seconds s =
      (if list_all isDigit ds \<and> digits_val 0 ds \<le> 9223372036854775 then Some (word_of_int (sg * int (digits_val 0 ds))) else None)"
    by (rule nginx_seconds_val [OF sgn])
  have dig: "nginx_digits 0 m = (if list_all isDigit m then Some (of_nat (digits_val 0 m)) else None)"
    using nginx_digits_val [of 0 m] by simp
  have millis: "nginxMillis v = (case nginx_digits 0 m of None \<Rightarrow> 0 | Some ms \<Rightarrow>
      (case nginx_seconds s of None \<Rightarrow> 0 | Some sc \<Rightarrow>
        if sg = - 1 then (if sint (sc * 1000) < sint (word_of_int MinInt64 + ms) then 0 else sc * 1000 - ms)
        else if sint (sc * 1000) > sint (word_of_int MaxInt64 - ms) then 0 else sc * 1000 + ms))"
    using False unfolding nginxMillis_def neg Let_def dot_def [symmetric] s_def [symmetric] m_def [symmetric] by simp
  have joined: "nginx_joined v = (if list_all isDigit m then proxyDigits (s @ m) else 0)"
    using False m3 unfolding nginx_joined_def Let_def dot_def [symmetric] s_def [symmetric] m_def [symmetric] by simp
  show ?thesis
  proof (cases "list_all isDigit m \<and> list_all isDigit ds")
    case False
    then show ?thesis
      by (auto simp: millis joined dig sec proxyDigits_def ParseInt64_int ParseInt_joined [OF sgn _ m3])
  next
    case True
    define D where "D = digits_val 0 ds"
    define M where "M = digits_val 0 m"
    have M: "M < 1000" using digits_val_less [of m 0] True m3 by (simp add: M_def)
    have parse: "proxyDigits (s @ m) = (let w = sg * (1000 * int D + int M)
        in if MinInt64 \<le> w \<and> w \<le> MaxInt64 then word_of_int w else 0)"
      using True by (simp add: proxyDigits_def ParseInt64_int ParseInt_joined [OF sgn _ m3] D_def M_def Let_def)
    show ?thesis
    proof (cases "D \<le> 9223372036854775")
      case False
      then have "\<not> (MinInt64 \<le> sg * (1000 * int D + int M) \<and> sg * (1000 * int D + int M) \<le> MaxInt64)"
        using sg by (auto simp: MinInt64_def MaxInt64_def)
      with False True show ?thesis by (auto simp: millis joined dig sec parse D_def [symmetric] Let_def)
    next
      case small: True
      note sums = sum_in_int64 [OF small M sg]
      have "nginxMillis v = (if sg = - 1
          then (if sg * int D * 1000 < MinInt64 + int M then 0 else word_of_int (sg * int D) * 1000 - of_nat M)
          else if sg * int D * 1000 > MaxInt64 - int M then 0 else word_of_int (sg * int D) * 1000 + of_nat M)"
        using True small unfolding millis dig sec D_def [symmetric] M_def [symmetric]
        by (simp only: simp_thms if_True option.case sums)
      with sg True show ?thesis
        by (elim disjE) (simp_all add: joined parse MinInt64_def MaxInt64_def algebra_simps)
    qed
  qed
qed

section \<open>What is recorded\<close>

lemma proxyTokens_inv:
  assumes "P p" "\<And>k v p. P p \<Longrightarrow> P (fn k v p)"
  shows "P (proxyTokens value fn p)"
proof -
  have "P (fold (\<lambda>tok p. case Cut CHR ''='' tok of (k, v, found) \<Rightarrow> if found then fn k v p else p) toks p)" for toks
    using assms by (induction toks arbitrary: p) (auto split: prod.splits)
  then show ?thesis by (simp add: proxyTokens_def)
qed

definition duration_ok :: "go_int32 \<Rightarrow> bool" where
  "duration_ok d \<longleftrightarrow> d = proxyUnset \<or> 0 < sint d"

definition percent_ok :: "go_int32 \<Rightarrow> bool" where
  "percent_ok d \<longleftrightarrow> d = proxyUnset \<or> 0 \<le> sint d \<and> sint d \<le> 100"

definition request_ok :: "string set \<Rightarrow> proxyRequest \<Rightarrow> bool" where
  "request_ok apps p \<longleftrightarrow> duration_ok (durationTime p) \<and> percent_ok (idlePercent p) \<and> percent_ok (busyPercent p) \<and> px_app p \<in> apps"

lemma sint_of_int32: "- (2 ^ 31) \<le> n \<Longrightarrow> n < 2 ^ 31 \<Longrightarrow> sint (word_of_int n :: go_int32) = n"
  by (simp add: int_word_sint signed_take_bit_int_eq_self)

lemma micros_ok: "duration_ok (proxyMicros v)"
  using ParseInt_bounds [of 32 v]
  by (auto simp: duration_ok_def proxyMicros_def sint_of_int32 split: option.splits)

lemma percents_ok: "percent_ok (proxyPercent v)"
  using ParseInt_bounds [of 32 v]
  by (auto simp: percent_ok_def proxyPercent_def sint_of_int32 split: option.splits)

lemma scast_micros:
  fixes x :: go_int64
  assumes "0 < sint x" "sint x \<le> 2147483"
  shows "sint (scast (x * 1000) :: go_int32) = sint x * 1000"
proof -
  have "x * 1000 = word_of_int (sint x * 1000)" by simp
  moreover have "sint (word_of_int (sint x * 1000) :: go_int64) = sint x * 1000"
    by (rule sint_of_int64) (use assms in simp_all)
  ultimately have "sint (x * 1000) = sint x * 1000" by argo
  moreover have "sint (word_of_int (sint x * 1000) :: go_int32) = sint x * 1000"
    by (rule sint_of_int32) (use assms in simp_all)
  ultimately show ?thesis by (simp only: scast_eq)
qed

lemma nginx_micros:
  assumes "0 < sint (nginxMillis v)" "sint (nginxMillis v) \<le> 2147483"
  shows "sint (nginxDurationMicros v) = sint (nginxMillis v) * 1000"
proof -
  have "\<not> (sint (nginxMillis v) \<le> 0 \<or> sint (nginxMillis v) > 2147483)" using assms by linarith
  then show ?thesis using scast_micros [OF assms] by (simp only: nginxDurationMicros_def Let_def if_False)
qed

lemma nginx_duration_ok: "duration_ok (nginxDurationMicros v)"
proof (cases "0 < sint (nginxMillis v) \<and> sint (nginxMillis v) \<le> 2147483")
  case True
  then show ?thesis using nginx_micros [of v] by (simp add: duration_ok_def)
qed (auto simp: duration_ok_def nginxDurationMicros_def Let_def)

lemma user_duration_ok: "duration_ok (userDurationMicros v)"
  by (simp add: userDurationMicros_def micros_ok nginx_duration_ok)

lemmas fields_ok = micros_ok percents_ok nginx_duration_ok user_duration_ok

lemma parsers_ok:
  "request_ok {[]} (parseProxyApache v)" "request_ok {[]} (parseProxyNginx v)"
  "request_ok {s. s = [] \<or> IsValidId s proxyAppMaxLength} (parseProxyApp v)" "request_ok {name} (parseProxyUser name v)"
  unfolding parseProxyApache_def parseProxyNginx_def parseProxyApp_def parseProxyUser_def
  by (rule proxyTokens_inv; simp add: request_ok_def newProxyRequest_def duration_ok_def percent_ok_def;
      use fields_ok in \<open>simp add: duration_ok_def percent_ok_def\<close>)+

text \<open>A proxy annotation as the collector expects it: its code, its fields in range, and where its app name comes from.\<close>

fun proxy_value_ok :: "string list \<Rightarrow> annotationValue \<Rightarrow> bool" where
  "proxy_value_ok us (ALongIntIntByteByteString key t code d i b name) \<longleftrightarrow>
     key = AnnotationHttpProxyHeader \<and> 0 < sint t \<and> duration_ok d \<and> percent_ok i \<and> percent_ok b \<and>
     (code = proxyTypeApache \<and> name = [] \<or> code = proxyTypeNginx \<and> name = [] \<or>
      code = proxyTypeApp \<and> (name = [] \<or> IsValidId name proxyAppMaxLength) \<or> code = proxyTypeUser \<and> name \<in> set us)"
| "proxy_value_ok us _ \<longleftrightarrow> False"

definition adds_proxies :: "string list \<Rightarrow> nat \<Rightarrow> annotation \<Rightarrow> annotation \<Rightarrow> bool" where
  "adds_proxies us n a a' \<longleftrightarrow>
     sealed a' = sealed a \<and> (\<exists>news. vals a' = vals a @ news \<and> list_all (proxy_value_ok us) news \<and> length news \<le> n)"

lemma adds_none: "adds_proxies us 0 a a"
  by (simp add: adds_proxies_def)

lemma adds_trans: "adds_proxies us m a b \<Longrightarrow> adds_proxies us n b c \<Longrightarrow> adds_proxies us (m + n) a c"
  unfolding adds_proxies_def by (metis add_mono append_assoc length_append list_all_append)

lemma appendProxyHeader_adds:
  assumes "request_ok apps p" "\<And>t d i b name. 0 < sint t \<Longrightarrow> duration_ok d \<Longrightarrow> percent_ok i \<Longrightarrow> percent_ok b \<Longrightarrow> name \<in> apps \<Longrightarrow>
    proxy_value_ok us (ALongIntIntByteByteString AnnotationHttpProxyHeader t code d i b name)"
  shows "adds_proxies us 1 a (if v \<noteq> [] then appendProxyHeader code p a else a)"
proof -
  have "0 < sint (receivedTime p) \<Longrightarrow> proxy_value_ok us (ALongIntIntByteByteString AnnotationHttpProxyHeader (receivedTime p) code
      (durationTime p) (idlePercent p) (busyPercent p) (px_app p))"
    using assms(1) by (intro assms(2)) (simp_all add: request_ok_def)
  then show ?thesis
    by (simp add: adds_proxies_def appendProxyHeader_def AppendLongIntIntByteByteString_def annotation_append_def
        del: proxy_value_ok.simps)
qed

lemma user_headers_add:
  assumes "set names \<subseteq> set us"
  shows "adds_proxies us (length names) a
    (fold (\<lambda>name a. let v = headerFirst h name
        in if v \<noteq> [] then appendProxyHeader proxyTypeUser (parseProxyUser name v) a else a) names a)"
  using assms
proof (induction names arbitrary: a)
  case (Cons name names)
  let ?v = "headerFirst h name"
  have "adds_proxies us 1 a (if ?v \<noteq> [] then appendProxyHeader proxyTypeUser (parseProxyUser name ?v) a else a)"
    by (rule appendProxyHeader_adds [OF parsers_ok(4)]) (use Cons.prems in simp)
  from adds_trans [OF this Cons.IH] Cons.prems show ?case by (simp add: Let_def)
qed (simp add: adds_none)

section \<open>Properties\<close>

text \<open>
  Reading the seconds and the milliseconds of an nginx time apart gives, at every input, the number their digits
  make when read as one: the sign, the missing seconds, every malformed shape and every value beyond int64 included.
\<close>

theorem nginx_millis_as_one_number:
  "nginxMillis v =
     (let dot = LastIndexByte v CHR ''.''; s = take (nat dot) v; m = drop (nat dot + 1) v
      in if dot \<noteq> - 1 \<and> length m = 3 \<and> list_all isDigit m then proxyDigits (s @ m) else 0)"
  using nginxMillis_joined [of v] by (auto simp: nginx_joined_def Let_def)

text \<open>
  Whatever proxy headers a request carries, each hop adds at most one annotation, and one that is added has a positive
  receive time, a duration that is positive or unset, percents between 0 and 100 or unset, and an app name that is empty, a
  valid id or the configured header's name: no malformed, negative or wrapped number is recorded.
\<close>

theorem proxy_annotations_in_range:
  "\<exists>news. vals (setProxyHeaderNames h us a) = vals a @ news \<and> length news \<le> 3 + length us \<and> list_all (proxy_value_ok us) news"
proof -
  define va where "va = headerFirst h (lookupKey h proxyHeaderApache (CanonicalMIMEHeaderKey proxyHeaderApache))"
  define vn where "vn = headerFirst h (lookupKey h proxyHeaderNginx (CanonicalMIMEHeaderKey proxyHeaderNginx))"
  define vp where "vp = headerFirst h (lookupKey h proxyHeaderApp (CanonicalMIMEHeaderKey proxyHeaderApp))"
  define a1 where "a1 = (if va \<noteq> [] then appendProxyHeader proxyTypeApache (parseProxyApache va) a else a)"
  define a2 where "a2 = (if vn \<noteq> [] then appendProxyHeader proxyTypeNginx (parseProxyNginx vn) a1 else a1)"
  define a3 where "a3 = (if vp \<noteq> [] then appendProxyHeader proxyTypeApp (parseProxyApp vp) a2 else a2)"
  have "adds_proxies us 1 a a1" unfolding a1_def by (rule appendProxyHeader_adds [OF parsers_ok(1)]) simp
  moreover have "adds_proxies us 1 a1 a2" unfolding a2_def by (rule appendProxyHeader_adds [OF parsers_ok(2)]) simp
  moreover have "adds_proxies us 1 a2 a3" unfolding a3_def by (rule appendProxyHeader_adds [OF parsers_ok(3)]) simp
  ultimately have "adds_proxies us (1 + 1 + 1) a a3" by (intro adds_trans)
  from adds_trans [OF this user_headers_add [OF order_refl, where h = h]] show ?thesis
    by (auto simp: adds_proxies_def setProxyHeaderNames_def va_def vn_def vp_def a1_def a2_def a3_def Let_def)
qed

end
