(* ===== verification/Http_Request.thy ===== *)
theory Http_Request
  imports Http_Proxy Url_Filter
begin

text \<open>
  What the HTTP plugin reads from a request (\<^verbatim>\<open>src/plugin/http/server.go\<close>, \<^verbatim>\<open>header.go\<close>, \<^verbatim>\<open>status.go\<close>): the client's address
  from the configured headers, the query string as the parameter annotation, the configured headers and cookies, the statuses
  that count as failures, and the URL a client call is recorded under. The functions of \<^verbatim>\<open>strings\<close>, \<^verbatim>\<open>net\<close>, \<^verbatim>\<open>net/url\<close> and
  \<^verbatim>\<open>unicode/utf8\<close> they call are defined here first.
\<close>

section \<open>Library functions\<close>

text \<open>
  \<open>strings.EqualFold\<close>: the ASCII letters, and the two characters beyond them that fold to one (U+017F and U+212A). Other
  characters are compared by their bytes, so the comparison is Go's when one side is ASCII.
\<close>

function FoldCase :: "string \<Rightarrow> string" where
  "FoldCase s = (case s of [] \<Rightarrow> []
     | c # cs \<Rightarrow> if HasPrefix s [CHR 0xC5, CHR 0xBF] then CHR ''s'' # FoldCase (drop 2 s)
         else if HasPrefix s [CHR 0xE2, CHR 0x84, CHR 0xAA] then CHR ''k'' # FoldCase (drop 3 s)
         else to_lower c # FoldCase cs)"
  by pat_completeness auto
termination
  by (relation "measure length") auto

declare FoldCase.simps [simp del]

definition EqualFold :: "string \<Rightarrow> string \<Rightarrow> bool" where
  "EqualFold s t \<longleftrightarrow> FoldCase s = FoldCase t"

fun Join :: "string list \<Rightarrow> string \<Rightarrow> string" where
  "Join [] sep = []"
| "Join [s] sep = s"
| "Join (s # ss) sep = s @ sep @ Join ss sep"

text \<open>\<open>strings.Trim(s, cutset)\<close> for a one-byte cutset.\<close>

definition TrimByte :: "char \<Rightarrow> string \<Rightarrow> string" where
  "TrimByte c s = rev (dropWhile (\<lambda>x. x = c) (rev (dropWhile (\<lambda>x. x = c) s)))"

text \<open>\<open>net.SplitHostPort\<close>: the host, \<open>None\<close> for every address error.\<close>

definition SplitHostPort :: "string \<Rightarrow> string option" where
  "SplitHostPort hp =
     (let i = LastIndexByte hp CHR '':''
      in if i < 0 then None
         else let r = (if hd hp = CHR ''['' then
                  (let e = IndexByte hp CHR '']''
                   in if e < 0 then None
                      else if e + 1 = int (length hp) then None
                      else if e + 1 = i then Some (take (nat e - 1) (drop 1 hp), 1, nat e + 1)
                      else None)
                else let host = take (nat i) hp in if IndexByte host CHR '':'' \<ge> 0 then None else Some (host, 0, 0))
         in case r of None \<Rightarrow> None
            | Some (host, j, k) \<Rightarrow>
                if IndexByte (drop j hp) CHR ''['' \<ge> 0 then None
                else if IndexByte (drop k hp) CHR '']'' \<ge> 0 then None else Some host)"

definition ishex :: "char \<Rightarrow> bool" where
  "ishex c \<longleftrightarrow> isDigit c \<or> 97 \<le> byte_of c \<and> byte_of c \<le> 102 \<or> 65 \<le> byte_of c \<and> byte_of c \<le> 70"

definition unhex :: "char \<Rightarrow> nat" where
  "unhex c = (if isDigit c then byte_of c - 48 else if 97 \<le> byte_of c \<and> byte_of c \<le> 102 then byte_of c - 97 + 10
     else if 65 \<le> byte_of c \<and> byte_of c \<le> 70 then byte_of c - 65 + 10 else 0)"

text \<open>\<open>url.QueryUnescape\<close>: \<open>None\<close> for a percent sign without two hexadecimal digits.\<close>

fun QueryUnescape :: "string \<Rightarrow> string option" where
  "QueryUnescape [] = Some []"
| "QueryUnescape (c # cs) =
     (if c = CHR ''%'' then
        (case cs of a # b # rest \<Rightarrow>
             if ishex a \<and> ishex b then map_option (Cons (char_of (16 * unhex a + unhex b))) (QueryUnescape rest) else None
         | _ \<Rightarrow> None)
      else map_option (Cons (if c = CHR ''+'' then CHR '' '' else c)) (QueryUnescape cs))"

function RuneCountInString :: "string \<Rightarrow> nat" where
  "RuneCountInString s = (if s = [] then 0 else 1 + RuneCountInString (drop (rune_size s) s))"
  by pat_completeness auto
termination
  by (relation "measure length") (auto simp: rune_size_def)

declare RuneCountInString.simps [simp del]

section \<open>The request parameters\<close>

definition requestParamEntryLimit :: nat where "requestParamEntryLimit = 64"
definition requestParamTotalLimit :: nat where "requestParamTotalLimit = 512"

function param_cut :: "string \<Rightarrow> nat \<Rightarrow> nat \<Rightarrow> string" where
  "param_cut s n i =
     (if i < length s
      then if n = requestParamEntryLimit then take i s @ ''...'' else param_cut s (n + 1) (i + rune_size (drop i s))
      else s)"
  by pat_completeness auto
termination
  by (relation "measure (\<lambda>(s, n, i). length s - i)") (auto simp: rune_size_def)

declare param_cut.simps [simp del]

definition param_unescape :: "string \<Rightarrow> string" where
  "param_unescape s = (case QueryUnescape s of Some v \<Rightarrow> v | None \<Rightarrow> s)"

definition param_entry :: "string \<Rightarrow> string" where
  "param_entry item = (case Cut CHR ''='' item of (k, v, _) \<Rightarrow>
     param_cut (param_unescape k) 0 0 @ ''='' @ param_cut (param_unescape v) 0 0)"

fun param_loop :: "string list \<Rightarrow> string \<Rightarrow> nat \<Rightarrow> string" where
  "param_loop [] b len = b"
| "param_loop (item # items) b len =
     (if item = [] then param_loop items b len
      else let entry = param_entry item;
               (b, len) = (if length b > 0 then (b @ ''&'', len + 1) else (b, len));
               entryLength = RuneCountInString entry
           in if len + entryLength > requestParamTotalLimit then b @ ''...''
              else param_loop items (b @ entry) (len + entryLength))"

definition formatRequestParams :: "string \<Rightarrow> string" where
  "formatRequestParams rawQuery = param_loop (split_on CHR ''&'' rawQuery) [] 0"

section \<open>The client's address\<close>

definition forwardedHeader :: string where
  "forwardedHeader = CanonicalMIMEHeaderKey ''Forwarded''"

fun forwarded_pairs :: "string list \<Rightarrow> string" where
  "forwarded_pairs [] = []"
| "forwarded_pairs (pair # pairs) =
     (case Cut CHR ''='' pair of (k, v, ok) \<Rightarrow>
        if \<not> ok \<or> \<not> EqualFold (TrimSpace k) ''for'' then forwarded_pairs pairs
        else let v = TrimByte (CHR 0x22) (TrimSpace v); i = LastIndexByte v CHR '':''
             in if i > LastIndexByte v CHR '']'' then take (nat i) v else v)"

definition forwardedFor :: "string \<Rightarrow> string" where
  "forwardedFor element = forwarded_pairs (split_on CHR '';'' element)"

text \<open>The address one header yields, \<open>None\<close> when it yields none.\<close>

definition header_candidate :: "header \<Rightarrow> string \<Rightarrow> string \<Rightarrow> string option" where
  "header_candidate h emptyValue rh =
     (let value = headerFirst h rh
      in if value = [] then None
         else let candidate = TrimSpace (fst (Cut CHR '','' value));
                  candidate = (if rh = forwardedHeader then forwardedFor candidate else candidate)
              in if candidate = [] \<or> emptyValue \<noteq> [] \<and> EqualFold candidate emptyValue then None else Some candidate)"

fun resolveRemoteAddr :: "header \<Rightarrow> string \<Rightarrow> string list \<Rightarrow> string \<Rightarrow> string" where
  "resolveRemoteAddr h remoteAddr [] emptyValue =
     (case SplitHostPort remoteAddr of Some addr \<Rightarrow> addr | None \<Rightarrow> remoteAddr)"
| "resolveRemoteAddr h remoteAddr (rh # headers) emptyValue =
     (case header_candidate h emptyValue rh of Some candidate \<Rightarrow> candidate
      | None \<Rightarrow> resolveRemoteAddr h remoteAddr headers emptyValue)"

section \<open>Header and cookie recorders\<close>

text \<open>A cookie source is the sequence its \<open>VisitAll\<close> goes through.\<close>

type_synonym cookies = "(string \<times> string) list"

datatype httpHeaderRecorder =
    allHttpHeaderRecorder | defaultHttpHeaderRecorder "string list" "string list" | noopHttpHeaderRecorder

definition AnnotationHttpUrl :: go_int32 where "AnnotationHttpUrl = 40"
definition AnnotationHttpParam :: go_int32 where "AnnotationHttpParam = 41"
definition AnnotationHttpCookie :: go_int32 where "AnnotationHttpCookie = 45"
definition AnnotationHttpStatusCode :: go_int32 where "AnnotationHttpStatusCode = 46"
definition AnnotationHttpRequestHeader :: go_int32 where "AnnotationHttpRequestHeader = 47"
definition AnnotationHttpResponseHeader :: go_int32 where "AnnotationHttpResponseHeader = 55"

definition newDefaultHttpHeaderRecorder :: "string list \<Rightarrow> httpHeaderRecorder" where
  "newDefaultHttpHeaderRecorder headers = defaultHttpHeaderRecorder headers (map CanonicalMIMEHeaderKey headers)"

fun recordHeader :: "httpHeaderRecorder \<Rightarrow> go_int32 \<Rightarrow> header \<Rightarrow> annotation \<Rightarrow> annotation" where
  "recordHeader allHttpHeaderRecorder key hdr a =
     fold (\<lambda>(name, vs). AppendStringString key name (Join vs '','')) (hd_visit hdr) a"
| "recordHeader (defaultHttpHeaderRecorder cfg lookup) key hdr a =
     fold (\<lambda>(name, canonical) a. let v = hd_values hdr (lookupKey hdr name canonical)
        in if length v > 0 then AppendStringString key name (Join v '','') a else a) (zip cfg lookup) a"
| "recordHeader noopHttpHeaderRecorder key hdr a = a"

fun recordCookie :: "httpHeaderRecorder \<Rightarrow> cookies \<Rightarrow> annotation \<Rightarrow> annotation" where
  "recordCookie allHttpHeaderRecorder cs a = fold (\<lambda>(name, v). AppendStringString AnnotationHttpCookie name v) cs a"
| "recordCookie (defaultHttpHeaderRecorder cfg lookup) cs a =
     fold (\<lambda>(cname, v) a. if list_ex (\<lambda>name. EqualFold name cname) cfg
        then AppendStringString AnnotationHttpCookie cname v a else a) cs a"
| "recordCookie noopHttpHeaderRecorder cs a = a"

definition trimStringSlice :: "string list \<Rightarrow> string list" where
  "trimStringSlice = map TrimSpace"

definition makeHttpHeaderRecorderFor :: "string list \<Rightarrow> httpHeaderRecorder" where
  "makeHttpHeaderRecorderFor names =
     (let cfg = trimStringSlice names
      in if length cfg = 0 then noopHttpHeaderRecorder
         else if EqualFold (hd cfg) ''HEADERS-ALL'' then allHttpHeaderRecorder
         else newDefaultHttpHeaderRecorder cfg)"

definition makeProxyUserHeaderNames :: "string list \<Rightarrow> string list" where
  "makeProxyUserHeaderNames cfg = map CanonicalMIMEHeaderKey (filter (\<lambda>name. name \<noteq> []) (trimStringSlice cfg))"

section \<open>Failure statuses\<close>

type_synonym httpStatusError = "int set"

definition status_token :: "string \<Rightarrow> int set" where
  "status_token s =
     (if length s = 3 \<and> byte_of (s ! 0) \<ge> 49 \<and> byte_of (s ! 0) \<le> 53 \<and> EqualFold (drop 1 s) ''xx''
      then let base = int (byte_of (s ! 0) - 48) * 100 in set (map (\<lambda>k. base + int k) [0..<100])
      else case ParseInt 64 s of Some c \<Rightarrow> {c} | None \<Rightarrow> {- 1})"

definition parseHttpStatusErrors :: "string list \<Rightarrow> httpStatusError" where
  "parseHttpStatusErrors cfg = fold (\<lambda>s h. h \<union> status_token s) (trimStringSlice cfg) {}"

definition isError :: "httpStatusError \<Rightarrow> int \<Rightarrow> bool" where
  "isError h code \<longleftrightarrow> code \<in> h"

section \<open>The URL of a client call\<close>

definition ClientUrlString :: "bool \<Rightarrow> string \<Rightarrow> string \<Rightarrow> string" where
  "ClientUrlString cltUrlQuery method rawUrl =
     (let rawUrl = (if \<not> cltUrlQuery then
          (case Cut CHR ''?'' rawUrl of (base, rest, ok) \<Rightarrow>
             if ok then (let i = IndexByte rest CHR ''#'' in if i \<ge> 0 then base @ drop (nat i) rest else base) else rawUrl)
        else rawUrl)
      in method @ '' '' @ rawUrl)"

section \<open>Counting runes\<close>

text \<open>A rune does not reach past the start of another one, whether it is valid or cut short.\<close>

lemma rune_width_join:
  assumes "a \<noteq> []" "b = [] \<or> RuneStart (hd b)"
  shows "rune_width (a @ b) = rune_width a"
proof (cases "rune_width a = 0")
  case True
  show ?thesis
  proof (rule ccontr)
    assume "rune_width (a @ b) \<noteq> rune_width a"
    with True have w: "rune_width (a @ b) \<noteq> 0" by simp
    have long: "length a < rune_width (a @ b)"
      using rune_width_take [of "a @ b" "length a"] w True by fastforce
    then have "b \<noteq> []" using rune_width_le [of "a @ b"] by auto
    moreover have "\<not> RuneStart ((a @ b) ! length a)" using rune_width_inner [OF _ long] assms(1) by simp
    ultimately show False using assms(2) by (simp add: nth_append hd_conv_nth)
  qed
qed (rule rune_width_append)

lemma rune_size_join: "a \<noteq> [] \<Longrightarrow> b = [] \<or> RuneStart (hd b) \<Longrightarrow> rune_size (a @ b) = rune_size a"
  by (simp add: rune_size_def rune_width_join)

lemma rune_size_le: "s \<noteq> [] \<Longrightarrow> rune_size s \<le> length s" "0 < rune_size s"
  using rune_width_le [of s] by (auto simp: rune_size_def Suc_le_eq)

lemma rune_size_take: "rune_size s \<le> k \<Longrightarrow> rune_size (take k s) = rune_size s"
proof (cases "rune_width s = 0")
  case True
  then have "rune_width (take k s) = 0"
    using rune_width_append [of "take k s" "drop k s"] by fastforce
  then show ?thesis using True by (simp add: rune_size_def)
qed (simp add: rune_size_def rune_width_take)

lemma RuneCount_Nil [simp]: "RuneCountInString [] = 0"
  by (simp add: RuneCountInString.simps [of "[]"])

lemma RuneCount_join: "b = [] \<or> RuneStart (hd b) \<Longrightarrow> RuneCountInString (a @ b) = RuneCountInString a + RuneCountInString b"
proof (induction a rule: RuneCountInString.induct)
  case (1 a)
  show ?case
  proof (cases "a = []")
    case False
    then have "RuneCountInString (a @ b) = 1 + RuneCountInString (drop (rune_size a) (a @ b))"
      using rune_size_join [OF False "1.prems"] by (simp add: RuneCountInString.simps [of "a @ b"])
    also have "drop (rune_size a) (a @ b) = drop (rune_size a) a @ b" using rune_size_le(1) [OF False] by simp
    finally show ?thesis using 1 False by (simp add: RuneCountInString.simps [of a])
  qed simp
qed

lemma RuneCount_ascii: "byte_of c < 0x80 \<Longrightarrow> RuneCountInString (c # s) = 1 + RuneCountInString s"
  by (simp add: RuneCountInString.simps [of "c # s"] rune_size_def lead_width_def)

lemma RuneCount_step: "s \<noteq> [] \<Longrightarrow> RuneCountInString s = 1 + RuneCountInString (drop (rune_size s) s)"
  by (subst RuneCountInString.simps) simp

text \<open>The offset after at most \<open>k\<close> runes.\<close>

fun rune_offset :: "nat \<Rightarrow> string \<Rightarrow> nat" where
  "rune_offset 0 s = 0"
| "rune_offset (Suc k) s = (if s = [] then 0 else rune_size s + rune_offset k (drop (rune_size s) s))"

lemma rune_offset_all: "RuneCountInString s \<le> k \<Longrightarrow> rune_offset k s = length s"
proof (induction k arbitrary: s)
  case 0
  then show ?case using RuneCount_step [of s] by (cases "s = []") simp_all
next
  case (Suc k)
  show ?case
  proof (cases "s = []")
    case False
    with Suc have "rune_offset k (drop (rune_size s) s) = length s - rune_size s"
      by (simp add: RuneCountInString.simps [of s])
    then show ?thesis using False rune_size_le(1) [OF False] by simp
  qed simp
qed

lemma RuneCount_offset:
  assumes "b = [] \<or> RuneStart (hd b)"
  shows "RuneCountInString (take (rune_offset k s) s @ b) = min k (RuneCountInString s) + RuneCountInString b"
proof (induction k arbitrary: s)
  case (Suc k)
  show ?case
  proof (cases "s = []")
    case False
    let ?n = "rune_size s" and ?t = "drop (rune_size s) s"
    let ?a = "take (rune_offset (Suc k) s) s"
    have a: "?a = take ?n s @ take (rune_offset k ?t) ?t" using False by (simp add: take_add)
    have n: "?n \<le> length s" "0 < ?n" using rune_size_le [of s] False by auto
    have ne: "?a \<noteq> []" using n False by simp
    have "rune_size ?a = ?n" by (rule rune_size_take) (simp add: False)
    then have "rune_size (?a @ b) = ?n" using rune_size_join [OF ne assms] by simp
    moreover have "drop ?n (?a @ b) = take (rune_offset k ?t) ?t @ b" using n by (simp only: a) simp
    moreover have "?a @ b \<noteq> []" using ne by (simp only: append_is_Nil_conv simp_thms)
    ultimately have "RuneCountInString (?a @ b) = 1 + RuneCountInString (take (rune_offset k ?t) ?t @ b)"
      by (metis RuneCount_step)
    then show ?thesis using Suc [of ?t] RuneCount_step [OF False] by (simp del: rune_offset.simps)
  qed simp
qed simp

section \<open>The shape of the parameter annotation\<close>

lemma param_cut_from:
  assumes "n \<le> requestParamEntryLimit"
  shows "param_cut (p @ t) n (length p) =
    (if RuneCountInString t \<le> requestParamEntryLimit - n then p @ t
     else p @ take (rune_offset (requestParamEntryLimit - n) t) t @ ''...'')"
  using assms
proof (induction t arbitrary: p n rule: length_induct)
  case (1 t)
  show ?case
  proof (cases "t = [] \<or> n = requestParamEntryLimit")
    case True
    then show ?thesis using RuneCount_step [of t] by (subst param_cut.simps) auto
  next
    case False
    let ?u = "drop (rune_size t) t" and ?q = "p @ take (rune_size t) t"
    have t: "rune_size t \<le> length t" "0 < rune_size t" using rune_size_le [of t] False by auto
    have left: "requestParamEntryLimit - n = Suc (requestParamEntryLimit - Suc n)" using False "1.prems" by linarith
    have "param_cut (p @ t) n (length p) = param_cut (?q @ ?u) (Suc n) (length ?q)"
      using False t by (subst param_cut.simps) simp
    also have "\<dots> = (if RuneCountInString ?u \<le> requestParamEntryLimit - Suc n then ?q @ ?u
        else ?q @ take (rune_offset (requestParamEntryLimit - Suc n) ?u) ?u @ ''...'')"
      using "1.IH" [rule_format, of ?u "Suc n" ?q] t False "1.prems" by simp
    finally show ?thesis using False RuneCount_step [of t] by (simp add: left take_add)
  qed
qed

lemma param_cut_count: "RuneCountInString (param_cut s 0 0) \<le> requestParamEntryLimit + 3"
proof -
  have "RuneStart CHR ''.''" by (simp add: RuneStart_def)
  then have "RuneCountInString (take (rune_offset k s) s @ ''...'') = min k (RuneCountInString s) + RuneCountInString ''...''" for k
    by (intro RuneCount_offset) simp
  moreover have "RuneCountInString ''...'' = 3" by (simp add: RuneCount_ascii)
  ultimately show ?thesis using param_cut_from [of 0 "[]" s] by simp
qed

lemma param_entry_count: "RuneCountInString (param_entry item) \<le> 2 * requestParamEntryLimit + 7" "param_entry item \<noteq> []"
proof -
  obtain k v f where c: "Cut CHR ''='' item = (k, v, f)" by (cases "Cut CHR ''='' item")
  let ?k = "param_cut (param_unescape k) 0 0" and ?v = "param_cut (param_unescape v) 0 0"
  have e: "param_entry item = ?k @ CHR ''='' # ?v" by (simp add: param_entry_def c)
  have "RuneStart CHR ''=''" by (simp add: RuneStart_def)
  then have "RuneCountInString (param_entry item) = RuneCountInString ?k + (1 + RuneCountInString ?v)"
    using RuneCount_join [of "CHR ''='' # ?v" ?k] RuneCount_ascii [of "CHR ''=''" ?v] by (simp add: e)
  then show "RuneCountInString (param_entry item) \<le> 2 * requestParamEntryLimit + 7"
    using param_cut_count [of "param_unescape k"] param_cut_count [of "param_unescape v"] by simp
  show "param_entry item \<noteq> []" by (simp add: e)
qed

lemma Join_snoc: "Join (d @ [e]) ''&'' = (if d = [] then e else Join d ''&'' @ CHR ''&'' # e)"
proof (induction d)
  case (Cons x xs)
  then show ?case by (cases xs) simp_all
qed simp

lemma Join_snoc_count:
  "RuneCountInString (Join (d @ [e]) ''&'') =
     (if d = [] then RuneCountInString e else RuneCountInString (Join d ''&'') + 1 + RuneCountInString e)"
  using RuneCount_join [of "CHR ''&'' # e" "Join d ''&''"] by (simp add: Join_snoc RuneCount_ascii RuneStart_def)

lemma Join_Nil: "[] \<notin> set d \<Longrightarrow> Join d ''&'' = [] \<longleftrightarrow> d = []"
  by (cases d rule: rev_cases) (auto simp: Join_snoc)

definition param_entries :: "string list \<Rightarrow> string list" where
  "param_entries items = map param_entry (filter (\<lambda>i. i \<noteq> []) items)"

text \<open>The text after the entries \<open>d\<close>, when \<open>es\<close> are still to come: as many of them as fit, and the mark when some do not.\<close>

definition params_shape :: "string list \<Rightarrow> string list \<Rightarrow> string \<Rightarrow> bool" where
  "params_shape d es r \<longleftrightarrow> (\<exists>k \<le> length es.
     r = Join (d @ take k es) ''&'' @ (if k = length es then [] else if d @ take k es = [] then ''...'' else ''&...'') \<and>
     RuneCountInString (Join (d @ take k es) ''&'') \<le> requestParamTotalLimit \<and>
     (k = length es \<or> requestParamTotalLimit < RuneCountInString (Join (d @ take (Suc k) es) ''&'')))"

lemma params_shape_Cons:
  assumes "params_shape (d @ [e]) es r"
  shows "params_shape d (e # es) r"
proof -
  obtain k where "k \<le> length es"
    "r = Join ((d @ [e]) @ take k es) ''&'' @ (if k = length es then [] else if (d @ [e]) @ take k es = [] then ''...'' else ''&...'')"
    "RuneCountInString (Join ((d @ [e]) @ take k es) ''&'') \<le> requestParamTotalLimit"
    "k = length es \<or> requestParamTotalLimit < RuneCountInString (Join ((d @ [e]) @ take (Suc k) es) ''&'')"
    using assms unfolding params_shape_def by blast
  then show ?thesis unfolding params_shape_def by (intro exI [of _ "Suc k"]) simp
qed

lemma param_loop_shape:
  assumes "[] \<notin> set d" "RuneCountInString (Join d ''&'') \<le> requestParamTotalLimit"
  shows "params_shape d (param_entries items) (param_loop items (Join d ''&'') (RuneCountInString (Join d ''&'')))"
  using assms
proof (induction items arbitrary: d)
  case Nil
  then show ?case by (simp add: params_shape_def param_entries_def)
next
  case (Cons item items)
  show ?case
  proof (cases "item = []")
    case True
    then show ?thesis using Cons by (simp add: param_entries_def)
  next
    case False
    define e where "e = param_entry item"
    have es: "param_entries (item # items) = e # param_entries items" using False by (simp add: param_entries_def e_def)
    have e: "e \<noteq> []" using param_entry_count(2) by (simp add: e_def)
    have d: "length (Join d ''&'') > 0 \<longleftrightarrow> d \<noteq> []" using Join_Nil [OF Cons.prems(1)] by simp
    show ?thesis
    proof (cases "RuneCountInString (Join (d @ [e]) ''&'') > requestParamTotalLimit")
      case True
      then have "param_loop (item # items) (Join d ''&'') (RuneCountInString (Join d ''&'')) =
          Join d ''&'' @ (if d = [] then ''...'' else ''&...'')"
        using False d by (cases "d = []") (simp_all add: e_def [symmetric] Join_snoc_count Let_def)
      with True Cons.prems(2) show ?thesis unfolding params_shape_def es by (intro exI [of _ 0]) simp
    next
      case fits: False
      then have "param_loop (item # items) (Join d ''&'') (RuneCountInString (Join d ''&'')) =
          param_loop items (Join (d @ [e]) ''&'') (RuneCountInString (Join (d @ [e]) ''&''))"
        using False d Join_snoc_count [of d e] by (cases "d = []") (simp_all add: e_def [symmetric] Join_snoc Let_def)
      then show ?thesis unfolding es using Cons fits e by (intro params_shape_Cons) simp
    qed
  qed
qed

section \<open>Properties\<close>

text \<open>
  (C19) The recorded query string is the longest run of whole \<open>key=value\<close> entries, from the first on, that fits 512 characters, each key
  and value decoded and cut at 64; when entries are left out a single mark says so. However long the query is, no more than
  516 characters are recorded, and the first entry always is.
\<close>

theorem request_params_recorded:
  "RuneCountInString (formatRequestParams q) \<le> 516 \<and>
   (let es = param_entries (split_on CHR ''&'' q)
    in \<exists>k. (k = length es \<and> formatRequestParams q = Join es ''&'' \<or>
          0 < k \<and> k < length es \<and> formatRequestParams q = Join (take k es) ''&'' @ ''&...'' \<and>
            512 < RuneCountInString (Join (take (Suc k) es) ''&'')) \<and>
         RuneCountInString (Join (take k es) ''&'') \<le> 512)"
proof -
  define es where "es = param_entries (split_on CHR ''&'' q)"
  have shape: "params_shape [] es (formatRequestParams q)"
    using param_loop_shape [of "[]" "split_on CHR ''&'' q"] by (simp add: es_def formatRequestParams_def)
  obtain k where k: "k \<le> length es"
    "formatRequestParams q = Join (take k es) ''&'' @ (if k = length es then [] else if take k es = [] then ''...'' else ''&...'')"
    "RuneCountInString (Join (take k es) ''&'') \<le> 512" "k = length es \<or> 512 < RuneCountInString (Join (take (Suc k) es) ''&'')"
    using shape unfolding params_shape_def requestParamTotalLimit_def append_Nil by blast
  have "k = 0 \<Longrightarrow> k = length es"
  proof (rule ccontr)
    assume "k = 0" "k \<noteq> length es"
    then obtain item where "512 < RuneCountInString (param_entry item)" using k(4) by (cases es) (auto simp: es_def param_entries_def)
    with param_entry_count(1) [of item] show False by (simp add: requestParamEntryLimit_def)
  qed
  moreover have "RuneCountInString (Join (take k es) ''&'' @ ''&...'') = RuneCountInString (Join (take k es) ''&'') + 4"
    using RuneCount_join [of "''&...''" "Join (take k es) ''&''"] by (simp add: RuneCount_ascii RuneStart_def)
  ultimately have "RuneCountInString (formatRequestParams q) \<le> 516 \<and>
      ((k = length es \<and> formatRequestParams q = Join es ''&'' \<or>
        0 < k \<and> k < length es \<and> formatRequestParams q = Join (take k es) ''&'' @ ''&...'' \<and>
          512 < RuneCountInString (Join (take (Suc k) es) ''&'')) \<and>
       RuneCountInString (Join (take k es) ''&'') \<le> 512)"
    using k by (cases "k = length es") (auto split: if_splits)
  then show ?thesis unfolding Let_def es_def [symmetric] by blast
qed

end
