(* ===== verification/Http_Config.thy ===== *)
theory Http_Config
  imports Http_Request Config
begin

text \<open>
  The settings the HTTP plugin derives from the options (\<^verbatim>\<open>src/plugin/http/config.go\<close>): the registered options, \<open>httpConfig\<close> and
  how it is built, and \<open>httpCfg\<close>, which builds it once per agent and registers the reload callback that builds it again. The
  callers of \<open>httpCfg\<close>, the reloads and the callbacks they start run concurrently; \<open>http_step\<close> interleaves them, an option read at a
  time, and after any interleaving in which the started callbacks have run the derived settings are those of the options.
\<close>

section \<open>Options\<close>

definition CfgHttpServerStatusCodeErrors :: string where "CfgHttpServerStatusCodeErrors = ''Http.Server.StatusCodeErrors''"
definition CfgHttpServerExcludeUrl :: string where "CfgHttpServerExcludeUrl = ''Http.Server.ExcludeUrl''"
definition CfgHttpServerExcludeMethod :: string where "CfgHttpServerExcludeMethod = ''Http.Server.ExcludeMethod''"
definition CfgHttpServerRecordRequestHeader :: string where "CfgHttpServerRecordRequestHeader = ''Http.Server.RecordRequestHeader''"
definition CfgHttpServerRecordResponseHeader :: string where "CfgHttpServerRecordResponseHeader = ''Http.Server.RecordResponseHeader''"
definition CfgHttpServerRecordRequestCookie :: string where "CfgHttpServerRecordRequestCookie = ''Http.Server.RecordRequestCookie''"
definition CfgHttpServerRecordHandlerError :: string where "CfgHttpServerRecordHandlerError = ''Http.Server.RecordHandlerError''"
definition CfgHttpServerProxyUserHeaderNames :: string where "CfgHttpServerProxyUserHeaderNames = ''Http.Server.ProxyUserHeaderNames''"
definition CfgHttpServerProxyHeaderEnable :: string where "CfgHttpServerProxyHeaderEnable = ''Http.Server.ProxyHeaderEnable''"
definition CfgHttpServerRecordRequestParam :: string where "CfgHttpServerRecordRequestParam = ''Http.Server.RecordRequestParam''"
definition CfgHttpServerRealIpHeader :: string where "CfgHttpServerRealIpHeader = ''Http.Server.RealIpHeader''"
definition CfgHttpServerRealIpEmptyValue :: string where "CfgHttpServerRealIpEmptyValue = ''Http.Server.RealIpEmptyValue''"
definition CfgHttpClientRecordRequestHeader :: string where "CfgHttpClientRecordRequestHeader = ''Http.Client.RecordRequestHeader''"
definition CfgHttpClientRecordResponseHeader :: string where "CfgHttpClientRecordResponseHeader = ''Http.Client.RecordResponseHeader''"
definition CfgHttpClientRecordRequestCookie :: string where "CfgHttpClientRecordRequestCookie = ''Http.Client.RecordRequestCookie''"
definition CfgHttpClientRecordUrlQuery :: string where "CfgHttpClientRecordUrlQuery = ''Http.Client.RecordUrlQuery''"

lemmas http_cfg_names = CfgHttpServerStatusCodeErrors_def CfgHttpServerExcludeUrl_def CfgHttpServerExcludeMethod_def
  CfgHttpServerRecordRequestHeader_def CfgHttpServerRecordResponseHeader_def CfgHttpServerRecordRequestCookie_def
  CfgHttpServerRecordHandlerError_def CfgHttpServerProxyUserHeaderNames_def CfgHttpServerProxyHeaderEnable_def
  CfgHttpServerRecordRequestParam_def CfgHttpServerRealIpHeader_def CfgHttpServerRealIpEmptyValue_def
  CfgHttpClientRecordRequestHeader_def CfgHttpClientRecordResponseHeader_def CfgHttpClientRecordRequestCookie_def
  CfgHttpClientRecordUrlQuery_def

text \<open>What the package's \<open>init\<close> registers.\<close>

definition http_options :: "(string \<times> 'f cfgMapItem) list" where
  "http_options =
     [AddConfig CfgHttpServerStatusCodeErrors CfgStringSlice (VList [''5xx'']) True,
      AddConfig CfgHttpServerExcludeUrl CfgStringSlice (VList []) True,
      AddConfig CfgHttpServerExcludeMethod CfgStringSlice (VList []) True,
      AddConfig CfgHttpServerRecordRequestHeader CfgStringSlice (VList []) True,
      AddConfig CfgHttpServerRecordResponseHeader CfgStringSlice (VList []) True,
      AddConfig CfgHttpServerRecordRequestCookie CfgStringSlice (VList []) True,
      AddConfig CfgHttpServerRecordHandlerError CfgBool (VBool True) True,
      AddConfig CfgHttpServerProxyUserHeaderNames CfgStringSlice (VList []) True,
      AddConfig CfgHttpServerProxyHeaderEnable CfgBool (VBool True) True,
      AddConfig CfgHttpServerRecordRequestParam CfgBool (VBool False) True,
      AddConfig CfgHttpServerRealIpHeader CfgStringSlice (VList [''X-Forwarded-For'', ''X-Real-Ip'']) True,
      AddConfig CfgHttpServerRealIpEmptyValue CfgString (VStr []) True,
      AddConfig CfgHttpClientRecordRequestHeader CfgStringSlice (VList []) True,
      AddConfig CfgHttpClientRecordResponseHeader CfgStringSlice (VList []) True,
      AddConfig CfgHttpClientRecordRequestCookie CfgStringSlice (VList []) True,
      AddConfig CfgHttpClientRecordUrlQuery CfgBool (VBool False) True]"

definition httpConfigOpts :: "string list" where
  "httpConfigOpts = [CfgHttpServerStatusCodeErrors, CfgHttpServerExcludeUrl, CfgHttpServerExcludeMethod, CfgHttpServerRecordRequestHeader,
     CfgHttpServerRecordResponseHeader, CfgHttpServerRecordRequestCookie, CfgHttpServerRecordHandlerError,
     CfgHttpServerProxyUserHeaderNames, CfgHttpServerProxyHeaderEnable, CfgHttpServerRecordRequestParam, CfgHttpServerRealIpHeader,
     CfgHttpServerRealIpEmptyValue, CfgHttpClientRecordRequestHeader, CfgHttpClientRecordResponseHeader,
     CfgHttpClientRecordRequestCookie, CfgHttpClientRecordUrlQuery, CfgHttpUrlStatEnable]"

section \<open>The derived settings\<close>

record httpConfig =
  srvUrl :: httpUrlFilter
  srvExcludeMethods :: "string list"
  srvStatus :: httpStatusError
  srvReqHeader :: httpHeaderRecorder
  srvResHeader :: httpHeaderRecorder
  srvCookie :: httpHeaderRecorder
  cltReqHeader :: httpHeaderRecorder
  cltResHeader :: httpHeaderRecorder
  cltCookie :: httpHeaderRecorder
  recordHandlerError :: bool
  urlStatEnabled :: bool
  srvProxyUserHeaders :: "string list"
  srvProxyHeader :: bool
  srvRequestParam :: bool
  cltUrlQuery :: bool
  srvRealIpHeaders :: "string list"
  srvRealIpEmptyValue :: string

text \<open>The settings from the value each option was read with, and the order in which they are read.\<close>

definition newHttpConfigFor :: "'f cfg_env \<Rightarrow> (string \<Rightarrow> 'f cfgValue) \<Rightarrow> httpConfig" where
  "newHttpConfigFor E get =
     (let StringSlice = \<lambda>k. as_list E (get k); Bool = \<lambda>k. as_bool E (get k)
      in \<lparr>srvUrl = new_filter (trimStringSlice (StringSlice CfgHttpServerExcludeUrl)),
          srvExcludeMethods = trimStringSlice (StringSlice CfgHttpServerExcludeMethod),
          srvStatus = parseHttpStatusErrors (StringSlice CfgHttpServerStatusCodeErrors),
          srvReqHeader = makeHttpHeaderRecorderFor (StringSlice CfgHttpServerRecordRequestHeader),
          srvResHeader = makeHttpHeaderRecorderFor (StringSlice CfgHttpServerRecordResponseHeader),
          srvCookie = makeHttpHeaderRecorderFor (StringSlice CfgHttpServerRecordRequestCookie),
          cltReqHeader = makeHttpHeaderRecorderFor (StringSlice CfgHttpClientRecordRequestHeader),
          cltResHeader = makeHttpHeaderRecorderFor (StringSlice CfgHttpClientRecordResponseHeader),
          cltCookie = makeHttpHeaderRecorderFor (StringSlice CfgHttpClientRecordRequestCookie),
          recordHandlerError = Bool CfgHttpServerRecordHandlerError,
          urlStatEnabled = Bool CfgHttpUrlStatEnable,
          srvProxyUserHeaders = makeProxyUserHeaderNames (StringSlice CfgHttpServerProxyUserHeaderNames),
          srvProxyHeader = Bool CfgHttpServerProxyHeaderEnable,
          srvRequestParam = Bool CfgHttpServerRecordRequestParam,
          cltUrlQuery = Bool CfgHttpClientRecordUrlQuery,
          srvRealIpHeaders = makeProxyUserHeaderNames (StringSlice CfgHttpServerRealIpHeader),
          srvRealIpEmptyValue = as_str E (get CfgHttpServerRealIpEmptyValue)\<rparr>)"

definition http_reads :: "string list" where
  "http_reads = [CfgHttpServerExcludeUrl, CfgHttpServerExcludeMethod, CfgHttpServerStatusCodeErrors, CfgHttpServerRecordRequestHeader,
     CfgHttpServerRecordResponseHeader, CfgHttpServerRecordRequestCookie, CfgHttpClientRecordRequestHeader,
     CfgHttpClientRecordResponseHeader, CfgHttpClientRecordRequestCookie, CfgHttpServerRecordHandlerError, CfgHttpUrlStatEnable,
     CfgHttpServerProxyUserHeaderNames, CfgHttpServerProxyHeaderEnable, CfgHttpServerRecordRequestParam, CfgHttpClientRecordUrlQuery,
     CfgHttpServerRealIpHeader, CfgHttpServerRealIpEmptyValue]"

definition isExcludedMethod :: "httpConfig \<Rightarrow> string \<Rightarrow> bool" where
  "isExcludedMethod cfg method = list_ex (\<lambda>m. EqualFold m method) (srvExcludeMethods cfg)"

definition IsUrlStatEnabled :: "httpConfig \<Rightarrow> bool" where
  "IsUrlStatEnabled cfg = urlStatEnabled cfg"

section \<open>The current settings, shared by requests and reloads\<close>

text \<open>
  The holder of \<open>httpConfigMu\<close> derives settings: a caller of \<open>httpCfg\<close> for its agent, or a reload callback (\<open>None\<close>), from one
  configuration, with the options read so far and those still to read.
\<close>

datatype 'f holder = Free | Deriving "nat option" nat "string \<Rightarrow> 'f cfgValue" "string list"

record 'f http_plugin =
  hp_configs :: "nat \<Rightarrow> 'f Config"
  httpConfigSource :: "(nat \<times> nat) option"
  curHttpConfig :: "httpConfig option"
  httpConfigMu :: "'f holder"
  waiting :: "nat \<Rightarrow> nat"

definition option_value :: "'f http_plugin \<Rightarrow> nat \<Rightarrow> string \<Rightarrow> 'f cfgValue" where
  "option_value s cid = value_of (load_values (hp_configs s cid))"

definition source_config :: "'f http_plugin \<Rightarrow> nat option" where
  "source_config s = map_option snd (httpConfigSource s)"

text \<open>A reload of configuration \<open>cid\<close> that ran the callbacks \<open>run\<close>; \<open>cb\<close> is the plugin's.\<close>

definition reloaded :: "nat \<Rightarrow> nat \<Rightarrow> nat list \<times> 'f Config \<Rightarrow> 'f http_plugin \<Rightarrow> 'f http_plugin" where
  "reloaded cb cid r s =
     s\<lparr>hp_configs := (hp_configs s)(cid := snd r), waiting := (waiting s)(cid := waiting s cid + count_list (fst r) cb)\<rparr>"

definition enter_httpCfg :: "nat \<Rightarrow> nat \<Rightarrow> nat \<Rightarrow> 'f http_plugin \<Rightarrow> 'f http_plugin" where
  "enter_httpCfg cb agent cid s =
     (let s = (if source_config s \<noteq> Some cid
               then s\<lparr>hp_configs := (hp_configs s)(cid := AddReloadCallback httpConfigOpts cb (hp_configs s cid))\<rparr> else s)
      in s\<lparr>httpConfigMu := Deriving (Some agent) cid (\<lambda>_. VNil) http_reads\<rparr>)"

definition yaml_reload :: "'f cfg_env \<Rightarrow> string \<Rightarrow> uuid option \<Rightarrow> 'f tree option \<Rightarrow> 'f Config \<Rightarrow> nat list \<times> 'f Config" where
  "yaml_reload E g d t c = (case ReloadConfig E g d t (Some c) of (_, run, Some c') \<Rightarrow> (run, c') | _ \<Rightarrow> ([], c))"

text \<open>\<open>conf\<close> maps an agent to its configuration.\<close>

inductive http_step :: "'f cfg_env \<Rightarrow> nat \<Rightarrow> (nat \<Rightarrow> nat) \<Rightarrow> 'f http_plugin \<Rightarrow> 'f http_plugin \<Rightarrow> bool"
  for E cb conf where
  enter: "httpConfigMu s = Free \<Longrightarrow> map_option fst (httpConfigSource s) \<noteq> Some agent \<Longrightarrow>
    http_step E cb conf s (enter_httpCfg cb agent (conf agent) s)"
| callback_run: "httpConfigMu s = Free \<Longrightarrow> waiting s cid > 0 \<Longrightarrow>
    http_step E cb conf s (s\<lparr>waiting := (waiting s)(cid := waiting s cid - 1),
      httpConfigMu := (if source_config s = Some cid then Deriving None cid (\<lambda>_. VNil) http_reads else Free)\<rparr>)"
| read_option: "httpConfigMu s = Deriving w cid got (k # ks) \<Longrightarrow>
    http_step E cb conf s (s\<lparr>httpConfigMu := Deriving w cid (got(k := option_value s cid k)) ks\<rparr>)"
| store: "httpConfigMu s = Deriving w cid got [] \<Longrightarrow>
    http_step E cb conf s (s\<lparr>curHttpConfig := Some (newHttpConfigFor E got), httpConfigMu := Free,
      httpConfigSource := (case w of Some agent \<Rightarrow> Some (agent, cid) | None \<Rightarrow> httpConfigSource s)\<rparr>)"
| reload_file: "\<not> static (hp_configs s cid) \<Longrightarrow> http_step E cb conf s (reloaded cb cid (reloadConfig E r (hp_configs s cid)) s)"
| reload_yaml: "\<not> static (hp_configs s cid) \<Longrightarrow> http_step E cb conf s (reloaded cb cid (yaml_reload E g d t (hp_configs s cid)) s)"
| set_other: "name \<notin> set httpConfigOpts \<Longrightarrow>
    http_step E cb conf s (s\<lparr>hp_configs := (hp_configs s)(cid := config_Set E name v (hp_configs s cid))\<rparr>)"

inductive http_reachable :: "'f cfg_env \<Rightarrow> nat \<Rightarrow> (nat \<Rightarrow> nat) \<Rightarrow> 'f http_plugin \<Rightarrow> bool" for E cb conf where
  init: "(\<And>cid. \<exists>prev c. hp_configs s cid = publishFrom E prev c) \<Longrightarrow> httpConfigSource s = None \<Longrightarrow> httpConfigMu s = Free \<Longrightarrow>
    (\<And>cid. waiting s cid = 0) \<Longrightarrow> http_reachable E cb conf s"
| step: "http_reachable E cb conf s \<Longrightarrow> http_step E cb conf s s' \<Longrightarrow> http_reachable E cb conf s'"

section \<open>What a reload tells the plugin\<close>

lemma http_keys_plain:
  assumes "k \<in> set httpConfigOpts"
  shows "norm_item E l k it = it" "k \<noteq> CfgSQLMaxBindValueSize" "k \<noteq> CfgSQLTraceBindValue" "identity_item o1 k it = it"
proof -
  have "k \<notin> fst ` set (publish_rules E l)"
    using assms by (auto simp: publish_rules_def httpConfigOpts_def http_cfg_names option_keys)
  then show "norm_item E l k it = it" by (rule rules_at_other)
  show "k \<noteq> CfgSQLMaxBindValueSize" "k \<noteq> CfgSQLTraceBindValue" "identity_item o1 k it = it"
    using assms by (auto simp: httpConfigOpts_def http_cfg_names option_keys identity_item_def set_item_def)
qed

definition in_sync :: "'f Config \<Rightarrow> bool" where
  "in_sync c \<longleftrightarrow> (\<forall>k \<in> set httpConfigOpts. map_of (load_values c) k = map_option cfg_value (map_of (cfgMap c) k))"

lemma http_published:
  assumes "k \<in> set httpConfigOpts"
  shows "map_of (load_values (publishFrom E prev c)) k = map_option cfg_value (map_of (cfgMap c) k)"
    and "map_of (cfgMap (publishFrom E prev c)) k = map_of (cfgMap c) k"
  by (cases "map_of (cfgMap c) k"; simp add: load_published publish_values_keyed cfgMap_keyed http_keys_plain [OF assms])+

lemma in_sync_publish: "in_sync (publishFrom E prev c)" "in_sync (publish E c)"
  by (simp_all add: in_sync_def publish_def http_published)

text \<open>What a reload of a configuration promises the plugin: a change of one of its options runs its callback.\<close>

definition heard :: "'f Config \<Rightarrow> nat list \<times> 'f Config \<Rightarrow> bool" where
  "heard c r \<longleftrightarrow> in_sync (snd r) \<and> callback (snd r) = callback c \<and> static (snd r) = static c \<and>
     (\<forall>cb. (httpConfigOpts, cb) \<in> set (callback c) \<longrightarrow>
        cb \<in> set (fst r) \<or> (\<forall>k \<in> set httpConfigOpts. value_of (load_values (snd r)) k = value_of (load_values c) k))"

lemma callbacks_run_heard:
  "(names, cb) \<in> set cbs \<Longrightarrow> k \<in> set names \<Longrightarrow> k \<in> set changed \<Longrightarrow> cb \<in> set (callbacks_run cbs changed)"
  by (force simp: callbacks_run_def list_ex_iff)

lemma publish_static [simp]: "static (publishFrom E prev c) = static c" "static (restage E s a c) = static c"
  "callback (restage E s a c) = callback c"
  by (simp_all add: publishFrom_def restage_def Let_def)

lemma reload_file_heard:
  assumes "in_sync c"
  shows "heard c (reloadConfig E r c)"
proof (cases r)
  case (Tree t)
  define s0 where "s0 = \<lparr>cmd = [], environ = None, cfg_file = Some (flattenConfig [] t []), cfg_profile = None :: 'a tree option\<rparr>"
  define s where "s = s0\<lparr>cfg_profile := loadProfile E s0 c\<rparr>"
  define c' where "c' = publish E (restage E s False c)"
  define changed where "changed = map fst (filter (\<lambda>(k, v). map_of (load_values c) k \<noteq> Some v) (load_values c'))"
  have r: "reloadConfig E r c = (callbacks_run (callback c') changed, c')"
    by (simp add: reloadConfig_def Tree c'_def changed_def s_def s0_def Let_def)
  have c': "callback c' = callback c" "static c' = static c" by (simp_all add: c'_def publish_def)
  have same: "value_of (load_values c') k = value_of (load_values c) k" if k: "k \<in> set httpConfigOpts" "k \<notin> set changed" for k
  proof (cases "map_of (load_values c') k")
    case None
    then have "map_of (load_values c) k = None"
      using k(1) assms by (simp add: c'_def publish_def http_published in_sync_def cfgMap_keyed)
    with None show ?thesis by (simp add: value_of_def)
  next
    case (Some v)
    then have "map_of (load_values c) k = Some v" using k(2) map_of_SomeD [OF Some] by (force simp: changed_def)
    with Some show ?thesis by (simp add: value_of_def)
  qed
  show ?thesis
    unfolding heard_def r using same callbacks_run_heard [of httpConfigOpts _ "callback c'"] in_sync_publish(2)
    by (auto simp: c') (simp add: c'_def in_sync_publish)
qed (use assms in \<open>simp_all add: heard_def reloadConfig_def\<close>)

lemma reload_yaml_heard:
  assumes "in_sync c"
  shows "heard c (yaml_reload E g d t c)"
proof (cases rule: stageYAML_cases [where E = E and g = g and d = d and t = t and c = c])
  case 1
  then have "yaml_reload E g d t c = ([], c)"
    by (cases "stageYAML E g d t c") (auto simp: yaml_reload_def ReloadConfig_def split: prod.splits)
  then show ?thesis using assms by (simp add: heard_def)
next
  case (2 tree o1)
  define cand where "cand = yaml_candidate E tree c"
  define items where "items = keyed (identity_item o1) (cfgMap cand)"
  define c' where "c' = snd (stageYAML E g d t c)"
  define changed where "changed = snd (snd (fst (stageYAML E g d t c)))"
  have y: "yaml_reload E g d t c = (callbacks_run (callback c') changed, c')"
    using 2(5) by (cases "stageYAML E g d t c") (auto simp: yaml_reload_def ReloadConfig_def c'_def changed_def split: prod.splits)
  have ch: "changed = map fst (filter (\<lambda>x. (case x of (k, it) \<Rightarrow> dynamic it \<or> k = CfgActiveProfile) \<and> differs items x) (cfgMap c))"
    using 2 by (simp add: changed_def stageYAML_def items_def cand_def cfgMap_keyed Let_def)
  have c': "c' = publishFrom E (snapshot cand) (c\<lparr>cfgMap := keyed (reload_item items) (cfgMap c), built := built cand\<rparr>)"
    using 2(6) by (simp add: c'_def items_def cand_def)
  have same: "value_of (load_values c') k = value_of (load_values c) k" if k: "k \<in> set httpConfigOpts" "k \<notin> set changed" for k
  proof (cases "map_of (cfgMap c) k")
    case None
    then show ?thesis using k(1) assms by (simp add: c' http_published in_sync_def value_of_def)
  next
    case (Some it)
    have "\<not> ((dynamic it \<or> k = CfgActiveProfile) \<and> differs items (k, it))"
    proof
      assume "(dynamic it \<or> k = CfgActiveProfile) \<and> differs items (k, it)"
      then have "(k, it) \<in> set (filter (\<lambda>x. (case x of (k, it) \<Rightarrow> dynamic it \<or> k = CfgActiveProfile) \<and> differs items x) (cfgMap c))"
        using map_of_SomeD [OF Some] by simp
      then have "fst (k, it) \<in> set changed" unfolding ch set_map by (rule imageI)
      with k(2) show False by simp
    qed
    then have "cfg_value (reload_item items k it) = cfg_value it"
      by (auto simp: reload_item_def differs_def split: option.splits)
    then show ?thesis using Some k(1) assms by (simp add: c' http_published in_sync_def value_of_def)
  qed
  show ?thesis
    unfolding heard_def y using same callbacks_run_heard [of httpConfigOpts _ "callback c'"]
    by (auto simp: c' in_sync_publish)
qed

section \<open>The derived settings follow the options\<close>

definition registered :: "nat \<Rightarrow> 'f Config \<Rightarrow> bool" where
  "registered cb c \<longleftrightarrow> static c \<or> (httpConfigOpts, cb) \<in> set (callback c)"

definition derived :: "'f cfg_env \<Rightarrow> 'f http_plugin \<Rightarrow> nat \<Rightarrow> httpConfig" where
  "derived E s cid = newHttpConfigFor E (option_value s cid)"

text \<open>While options are being read: those read so far are current, or a callback is waiting.\<close>

definition reading_ok :: "nat \<Rightarrow> 'f http_plugin \<Rightarrow> nat \<Rightarrow> (string \<Rightarrow> 'f cfgValue) \<Rightarrow> string list \<Rightarrow> bool" where
  "reading_ok cb s cid got ks \<longleftrightarrow> registered cb (hp_configs s cid) \<and> (\<exists>ds. http_reads = ds @ ks \<and>
     (waiting s cid = 0 \<longrightarrow> (\<forall>k \<in> set ds. got k = option_value s cid k)))"

definition http_inv :: "'f cfg_env \<Rightarrow> nat \<Rightarrow> 'f http_plugin \<Rightarrow> bool" where
  "http_inv E cb s \<longleftrightarrow> (\<forall>cid. in_sync (hp_configs s cid)) \<and>
     (\<forall>cid. source_config s = Some cid \<longrightarrow> registered cb (hp_configs s cid)) \<and>
     (case httpConfigMu s of
        Free \<Rightarrow> (\<forall>cid. source_config s = Some cid \<and> waiting s cid = 0 \<longrightarrow> curHttpConfig s = Some (derived E s cid))
      | Deriving w cid got ks \<Rightarrow> reading_ok cb s cid got ks \<and> (w = None \<longrightarrow> source_config s = Some cid))"

lemma http_reads_opts: "set http_reads = set httpConfigOpts"
  by (auto simp: http_reads_def httpConfigOpts_def)

lemma newHttpConfigFor_cong: "(\<And>k. k \<in> set httpConfigOpts \<Longrightarrow> f k = g k) \<Longrightarrow> newHttpConfigFor E f = newHttpConfigFor E g"
  by (simp add: newHttpConfigFor_def httpConfigOpts_def)

text \<open>A change to one configuration that its reload announces keeps the invariant.\<close>

lemma config_change_inv:
  assumes inv: "http_inv E cb s" and sync: "in_sync c'"
    and reg: "registered cb (hp_configs s cid) \<Longrightarrow> registered cb c'"
    and told: "registered cb (hp_configs s cid) \<Longrightarrow> n = 0 \<Longrightarrow>
      \<forall>k \<in> set httpConfigOpts. value_of (load_values c') k = value_of (load_values (hp_configs s cid)) k"
  shows "http_inv E cb (s\<lparr>hp_configs := (hp_configs s)(cid := c'), waiting := (waiting s)(cid := waiting s cid + n)\<rparr>)"
    (is "http_inv E cb ?s")
proof -
  have val: "option_value ?s i k = option_value s i k"
    if "registered cb (hp_configs s i)" "waiting ?s i = 0" "k \<in> set httpConfigOpts" for i k
    using that told by (cases "i = cid") (simp_all add: option_value_def)
  have src: "source_config ?s = source_config s" by (simp add: source_config_def)
  have regs: "registered cb (hp_configs s i) \<Longrightarrow> registered cb (hp_configs ?s i)" for i using reg by (cases "i = cid") simp_all
  have wait: "waiting ?s i = 0 \<Longrightarrow> waiting s i = 0" for i by (simp split: if_splits)
  show ?thesis
  proof (cases "httpConfigMu s")
    case Free
    have "curHttpConfig ?s = Some (derived E ?s i)" if "source_config s = Some i" "waiting ?s i = 0" for i
    proof -
      have "registered cb (hp_configs s i)" "curHttpConfig s = Some (derived E s i)"
        using inv that Free wait [OF that(2)] by (auto simp: http_inv_def)
      then show ?thesis using newHttpConfigFor_cong [of "option_value ?s i" "option_value s i" E] val that(2)
        by (simp add: derived_def)
    qed
    with inv regs sync Free show ?thesis by (simp add: http_inv_def src)
  next
    case (Deriving w i got ks)
    then have "reading_ok cb s i got ks" using inv by (simp add: http_inv_def)
    then obtain ds where ds: "http_reads = ds @ ks" "waiting s i = 0 \<Longrightarrow> \<forall>k \<in> set ds. got k = option_value s i k"
      and r: "registered cb (hp_configs s i)" by (auto simp: reading_ok_def)
    have "set ds \<subseteq> set http_reads" unfolding ds(1) set_append by (rule Un_upper1)
    then have opts: "k \<in> set ds \<Longrightarrow> k \<in> set httpConfigOpts" for k unfolding http_reads_opts by (rule subsetD)
    have "waiting ?s i = 0 \<longrightarrow> (\<forall>k \<in> set ds. got k = option_value ?s i k)"
    proof (intro impI ballI)
      fix k assume k: "waiting ?s i = 0" "k \<in> set ds"
      have "got k = option_value s i k" using ds(2) [OF wait [OF k(1)]] k(2) by (rule bspec)
      also have "\<dots> = option_value ?s i k" using val [OF r k(1) opts [OF k(2)]] by (rule sym)
      finally show "got k = option_value ?s i k" .
    qed
    then have "reading_ok cb ?s i got ks" using ds(1) regs [OF r] by (auto simp: reading_ok_def)
    with inv regs sync Deriving show ?thesis by (simp add: http_inv_def src)
  qed
qed

lemma reloaded_inv:
  assumes "http_inv E cb s" "heard (hp_configs s cid) r" "\<not> static (hp_configs s cid)"
  shows "http_inv E cb (reloaded cb cid r s)"
  unfolding reloaded_def
proof (rule config_change_inv [OF assms(1)])
  show "in_sync (snd r)" using assms(2) by (simp add: heard_def)
  show "registered cb (hp_configs s cid) \<Longrightarrow> registered cb (snd r)" using assms(2) by (simp add: heard_def registered_def)
  show "\<forall>k \<in> set httpConfigOpts. value_of (load_values (snd r)) k = value_of (load_values (hp_configs s cid)) k"
    if "registered cb (hp_configs s cid)" "count_list (fst r) cb = 0"
    using that assms(2,3) by (auto simp: heard_def registered_def count_list_0_iff)
qed

lemma AddReloadCallback_sel [simp]:
  "load_values (AddReloadCallback ns cb c) = load_values c" "cfgMap (AddReloadCallback ns cb c) = cfgMap c"
  "static (AddReloadCallback ns cb c) = static c"
  by (simp_all add: AddReloadCallback_def load_values_def)

lemma AddReloadCallback_registers: "registered cb (AddReloadCallback httpConfigOpts cb c)"
  by (simp add: registered_def AddReloadCallback_def)

lemma config_Set_sync:
  assumes "in_sync c" "name \<notin> set httpConfigOpts"
  shows "in_sync (config_Set E name v c)" "callback (config_Set E name v c) = callback c" "static (config_Set E name v c) = static c"
    "k \<in> set httpConfigOpts \<Longrightarrow> value_of (load_values (config_Set E name v c)) k = value_of (load_values c) k"
proof -
  show "callback (config_Set E name v c) = callback c" "static (config_Set E name v c) = static c"
    by (simp_all add: config_Set_def publish_def split: option.splits)
  show "in_sync (config_Set E name v c)" using assms(1) in_sync_publish(2) by (auto simp: config_Set_def split: option.splits)
  assume k: "k \<in> set httpConfigOpts"
  then have "k \<noteq> name" using assms(2) by auto
  show "value_of (load_values (config_Set E name v c)) k = value_of (load_values c) k"
  proof (cases rule: config_Set_cases [where E = E and n = name and v = v and c = c])
    case (2 c1)
    with k \<open>k \<noteq> name\<close> assms(1) show ?thesis
      by (cases "map_of (cfgMap c) k") (simp_all add: value_of_def publish_def http_published in_sync_def set_final_def)
  qed simp
qed

lemma registered_sel: "callback c' = callback c \<Longrightarrow> static c' = static c \<Longrightarrow> registered cb c' = registered cb c"
  by (simp add: registered_def)

lemma enter_inv:
  assumes "http_inv E cb s" "httpConfigMu s = Free"
  shows "http_inv E cb (enter_httpCfg cb agent cid s)"
proof -
  have "http_reads = [] @ http_reads" by simp
  with assms show ?thesis
    by (auto simp: enter_httpCfg_def http_inv_def reading_ok_def in_sync_def source_config_def AddReloadCallback_registers Let_def)
qed

lemma http_step_inv: "http_step E cb conf s s' \<Longrightarrow> http_inv E cb s \<Longrightarrow> http_inv E cb s'"
proof (induction rule: http_step.induct)
  case (enter s agent)
  then show ?case by (simp add: enter_inv)
next
  case (callback_run s cid)
  have "http_reads = [] @ http_reads" by simp
  with callback_run show ?case
    by (auto simp: http_inv_def reading_ok_def source_config_def derived_def option_value_def)
next
  case (read_option s w cid got k ks)
  then have r: "reading_ok cb s cid got (k # ks)" by (simp add: http_inv_def)
  then obtain ds where ds: "http_reads = ds @ k # ks" "waiting s cid = 0 \<longrightarrow> (\<forall>k \<in> set ds. got k = option_value s cid k)"
    by (auto simp: reading_ok_def)
  then have "reading_ok cb s cid (got(k := option_value s cid k)) ks"
    using r by (auto simp: reading_ok_def intro!: exI [of _ "ds @ [k]"])
  with read_option show ?case by (simp add: http_inv_def reading_ok_def option_value_def source_config_def)
next
  case (store s w cid got)
  then have "reading_ok cb s cid got []" and w: "w = None \<longrightarrow> source_config s = Some cid" by (simp_all add: http_inv_def)
  then have "waiting s cid = 0 \<Longrightarrow> newHttpConfigFor E got = derived E s cid" "registered cb (hp_configs s cid)"
    unfolding derived_def by (auto simp: reading_ok_def http_reads_opts intro!: newHttpConfigFor_cong)
  with store w show ?case
    by (cases w) (auto simp: http_inv_def source_config_def derived_def option_value_def)
next
  case (reload_file s cid r)
  then show ?case by (intro reloaded_inv reload_file_heard) (simp_all add: http_inv_def)
next
  case (reload_yaml s cid g d t)
  then show ?case by (intro reloaded_inv reload_yaml_heard) (simp_all add: http_inv_def)
next
  case (set_other name s cid v)
  then have "in_sync (hp_configs s cid)" by (simp add: http_inv_def)
  note c = config_Set_sync [OF this set_other(1), where E = E and v = v]
  show ?case
    using config_change_inv [OF set_other(2) c(1), of cid 0] c registered_sel [OF c(2,3)] by simp
qed

lemma http_reachable_inv: "http_reachable E cb conf s \<Longrightarrow> http_inv E cb s"
proof (induction rule: http_reachable.induct)
  case (init s)
  have "in_sync (hp_configs s cid)" for cid using init(1) [of cid] in_sync_publish(1) by auto
  with init show ?case by (simp add: http_inv_def source_config_def)
next
  case (step s s')
  then show ?case by (blast intro: http_step_inv)
qed

section \<open>Properties\<close>

text \<open>
  (C17) However requests, new agents, file and YAML reloads and the callbacks they start interleave, reloads landing between two
  reads of one derivation included: once no callback of the current configuration is waiting and nobody derives, the
  filters and recorders the plugin uses are exactly those of the options published.
\<close>

theorem http_settings_follow_options:
  assumes "http_reachable E cb conf s" "httpConfigMu s = Free" "httpConfigSource s = Some (agent, cid)" "waiting s cid = 0"
  shows "curHttpConfig s = Some (newHttpConfigFor E (\<lambda>k. value_of (load_values (hp_configs s cid)) k))"
  using http_reachable_inv [OF assms(1)] assms(2-) by (simp add: http_inv_def source_config_def derived_def option_value_def [abs_def])

lemma reads_complete:
  assumes "http_reachable E cb conf (s\<lparr>httpConfigMu := Deriving w cid got ks\<rparr>)"
  shows "\<exists>got'. http_reachable E cb conf (s\<lparr>httpConfigMu := Deriving w cid got' []\<rparr>)"
  using assms
proof (induction ks arbitrary: got)
  case (Cons k ks)
  from http_reachable.step [OF Cons.prems http_step.read_option [of _ w cid got k ks]] Cons.IH show ?case by (auto simp: option_value_def)
qed blast

text \<open>A process with one configuration, built from the plugin's defaults.\<close>

definition fresh_plugin :: "unit http_plugin" where
  "fresh_plugin = \<lparr>hp_configs = (\<lambda>_. publishFrom plain_env None (defaultConfig plain_env http_options)), httpConfigSource = None,
     curHttpConfig = None, httpConfigMu = Free, waiting = (\<lambda>_. 0)\<rparr>"

theorem http_settings_follow_options_witness:
  "\<exists>s. http_reachable plain_env 7 (\<lambda>_. 0) s \<and> httpConfigSource s = Some (3, 0) \<and>
     curHttpConfig s = Some (newHttpConfigFor plain_env (\<lambda>k. value_of (load_values (hp_configs s 0)) k))"
proof -
  have "http_reachable plain_env 7 (\<lambda>_. 0) fresh_plugin"
    by (rule http_reachable.init) (auto simp: fresh_plugin_def)
  from http_reachable.step [OF this http_step.enter [of fresh_plugin 3]]
  have "http_reachable plain_env 7 (\<lambda>_. 0) (enter_httpCfg 7 3 0 fresh_plugin)" by (simp add: fresh_plugin_def)
  moreover define s where "s = fresh_plugin\<lparr>hp_configs := (hp_configs fresh_plugin)
      (0 := AddReloadCallback httpConfigOpts 7 (hp_configs fresh_plugin 0))\<rparr>"
  moreover have "enter_httpCfg 7 3 0 fresh_plugin = s\<lparr>httpConfigMu := Deriving (Some 3) 0 (\<lambda>_. VNil) http_reads\<rparr>"
    by (simp add: enter_httpCfg_def source_config_def s_def) (simp add: fresh_plugin_def)
  ultimately obtain got where "http_reachable plain_env 7 (\<lambda>_. 0) (s\<lparr>httpConfigMu := Deriving (Some 3) 0 got []\<rparr>)"
    using reads_complete by metis
  from http_reachable.step [OF this http_step.store]
  have r: "http_reachable plain_env 7 (\<lambda>_. 0) (s\<lparr>curHttpConfig := Some (newHttpConfigFor plain_env got), httpConfigMu := Free,
      httpConfigSource := Some (3, 0)\<rparr>)" by simp
  define s' where "s' = s\<lparr>curHttpConfig := Some (newHttpConfigFor plain_env got), httpConfigMu := Free, httpConfigSource := Some (3, 0)\<rparr>"
  have s': "http_reachable plain_env 7 (\<lambda>_. 0) s'" "httpConfigMu s' = Free" "httpConfigSource s' = Some (3, 0)" "waiting s' 0 = 0"
    using r by (simp_all add: s'_def s_def fresh_plugin_def)
  from http_settings_follow_options [OF this] s' show ?thesis by blast
qed

end
