(* ===== verification/Response_Writer.thy ===== *)
theory Response_Writer
  imports Pinpoint_Prelude
begin

text \<open>
  The recorder the HTTP plugin puts around a handler's \<open>http.ResponseWriter\<close> (\<open>responseWriter\<close> of \<^verbatim>\<open>src/plugin/http/server.go\<close>), which
  learns the status of the response from the calls that pass through it. A writer is a record of its operations; what the
  recorder relies on is the locale \<open>response_writer\<close>: a writer commits to the first final status, or to 200 with the first byte or
  flush. The response of \<^verbatim>\<open>net/http\<close> satisfies it, and so does the recorder itself, so recorders nest. Connections taken over by
  \<open>Hijack\<close> are outside the model. An operation returns \<open>None\<close> when it panics.
\<close>

section \<open>Writers and readers\<close>

text \<open>A source is what successive reads return, and whether it ends in an error instead of the end of file.\<close>

record source =
  src_chunks :: "string list"
  src_fails :: bool

type_synonym 's io = "((int \<times> bool) \<times> 's) option"

record 's writer_ops =
  op_WriteHeader :: "int \<Rightarrow> 's \<Rightarrow> 's option"
  op_Write :: "string \<Rightarrow> 's \<Rightarrow> 's io"
  op_Flush :: "('s \<Rightarrow> (bool \<times> 's) option) option"
  op_ReadFrom :: "(source \<Rightarrow> 's \<Rightarrow> 's io) option"

text \<open>The loop of \<open>io.Copy\<close>: a count and an error flag, after the writes that were made.\<close>

fun copy_loop :: "(string \<Rightarrow> 's \<Rightarrow> 's io) \<Rightarrow> string list \<Rightarrow> bool \<Rightarrow> int \<Rightarrow> 's \<Rightarrow> 's io" where
  "copy_loop write [] fails n s = Some ((n, fails), s)"
| "copy_loop write (c # cs) fails n s =
     (if c = [] then copy_loop write cs fails n s
      else case write c s of None \<Rightarrow> None
      | Some ((nw, ew), s) \<Rightarrow>
          let bad = nw < 0 \<or> int (length c) < nw; nw = (if bad then 0 else nw); ew = (ew \<or> bad)
          in if ew then Some ((n + nw, True), s)
             else if nw \<noteq> int (length c) then Some ((n + nw, True), s)
             else copy_loop write cs fails (n + nw) s)"

text \<open>\<open>io.LimitReader\<close>: what is read through the limit, and what is left for later.\<close>

fun limit_chunks :: "nat \<Rightarrow> string list \<Rightarrow> string list \<times> string list" where
  "limit_chunks n [] = ([], [])"
| "limit_chunks n (c # cs) =
     (if n = 0 then ([], c # cs)
      else if length c \<le> n then let (ts, rs) = limit_chunks (n - length c) cs in (c # ts, rs)
      else ([take n c], drop n c # cs))"

section \<open>The recorder\<close>

record 's responseWriter =
  rw_inner :: 's
  rw_code :: int
  rw_status :: "int option"
  wroteHeader :: bool

definition StatusOK :: int where "StatusOK = 200"
definition StatusSwitchingProtocols :: int where "StatusSwitchingProtocols = 101"
definition StatusInternalServerError :: int where "StatusInternalServerError = 500"

definition informational :: "int \<Rightarrow> bool" where
  "informational status \<longleftrightarrow> status \<ge> 100 \<and> status \<le> 199 \<and> status \<noteq> StatusSwitchingProtocols"

definition wrapResponseWriter :: "'s \<Rightarrow> int option \<Rightarrow> 's responseWriter" where
  "wrapResponseWriter w status = \<lparr>rw_inner = w, rw_code = StatusOK, rw_status = status, wroteHeader = False\<rparr>"

definition rw_WriteHeader :: "'s writer_ops \<Rightarrow> int \<Rightarrow> 's responseWriter \<Rightarrow> 's responseWriter option" where
  "rw_WriteHeader ops status w =
     (case op_WriteHeader ops status (rw_inner w) of None \<Rightarrow> None
      | Some i \<Rightarrow>
          let w = w\<lparr>rw_inner := i\<rparr>
          in if wroteHeader w \<or> informational status then Some w
             else Some (w\<lparr>wroteHeader := True, rw_code := status, rw_status := map_option (\<lambda>_. status) (rw_status w)\<rparr>))"

text \<open>What \<open>Write\<close>, \<open>flush\<close> and \<open>flushError\<close> start with.\<close>

definition commit_ok :: "'s writer_ops \<Rightarrow> 's responseWriter \<Rightarrow> 's responseWriter option" where
  "commit_ok ops w = (if \<not> wroteHeader w then rw_WriteHeader ops StatusOK w else Some w)"

definition on_inner :: "('s \<Rightarrow> ('r \<times> 's) option) \<Rightarrow> 's responseWriter \<Rightarrow> ('r \<times> 's responseWriter) option" where
  "on_inner f w = map_option (\<lambda>(r, i). (r, w\<lparr>rw_inner := i\<rparr>)) (f (rw_inner w))"

definition rw_Write :: "'s writer_ops \<Rightarrow> string \<Rightarrow> 's responseWriter \<Rightarrow> 's responseWriter io" where
  "rw_Write ops p w = Option.bind (commit_ok ops w) (on_inner (op_Write ops p))"

definition flushError :: "'s writer_ops \<Rightarrow> ('s \<Rightarrow> (bool \<times> 's) option) \<Rightarrow> 's responseWriter \<Rightarrow> (bool \<times> 's responseWriter) option" where
  "flushError ops f w = Option.bind (commit_ok ops w) (on_inner f)"

definition read_rest :: "'s writer_ops \<Rightarrow> int \<Rightarrow> source \<Rightarrow> 's responseWriter \<Rightarrow> 's responseWriter io" where
  "read_rest ops n src w =
     map_option (\<lambda>((m, e), w). ((n + m, e), w))
       (on_inner (case op_ReadFrom ops of Some rf \<Rightarrow> rf src
          | None \<Rightarrow> copy_loop (op_Write ops) (src_chunks src) (src_fails src) 0) w)"

definition rw_ReadFrom :: "'s writer_ops \<Rightarrow> source \<Rightarrow> 's responseWriter \<Rightarrow> 's responseWriter io" where
  "rw_ReadFrom ops src w =
     (if \<not> wroteHeader w then
        (let (ts, rs) = limit_chunks 512 (src_chunks src); short = length (concat ts) < 512
         in case copy_loop (rw_Write ops) ts (src_fails src \<and> short) 0 w of None \<Rightarrow> None
            | Some ((n, e), w) \<Rightarrow>
                if e \<or> n < 512 then Some ((n, e), w) else read_rest ops n (src\<lparr>src_chunks := rs\<rparr>) w)
      else read_rest ops 0 src w)"

text \<open>The recorder as a writer: it can flush when the writer under it can.\<close>

definition rw_ops :: "'s writer_ops \<Rightarrow> 's responseWriter writer_ops" where
  "rw_ops ops = \<lparr>op_WriteHeader = rw_WriteHeader ops, op_Write = rw_Write ops, op_Flush = map_option (flushError ops) (op_Flush ops),
     op_ReadFrom = Some (rw_ReadFrom ops)\<rparr>"

text \<open>What a handler does with its writer; flushing one that cannot flush is not possible and leaves it alone.\<close>

datatype handler_call = WriteHeader int | Write string | ReadFrom source | Flush

fun handler_do :: "'s writer_ops \<Rightarrow> handler_call \<Rightarrow> 's \<Rightarrow> 's option" where
  "handler_do ops (WriteHeader st) s = op_WriteHeader ops st s"
| "handler_do ops (Write p) s = map_option snd (op_Write ops p s)"
| "handler_do ops (ReadFrom src) s = (case op_ReadFrom ops of Some rf \<Rightarrow> map_option snd (rf src s) | None \<Rightarrow>
     map_option snd (copy_loop (op_Write ops) (src_chunks src) (src_fails src) 0 s))"
| "handler_do ops Flush s = (case op_Flush ops of Some f \<Rightarrow> map_option snd (f s) | None \<Rightarrow> Some s)"

fun handler_run :: "'s writer_ops \<Rightarrow> handler_call list \<Rightarrow> 's \<Rightarrow> 's option" where
  "handler_run ops [] s = Some s"
| "handler_run ops (c # cs) s = Option.bind (handler_do ops c s) (handler_run ops cs)"

section \<open>What copying and wrapping keep\<close>

lemma copy_loop_cases:
  assumes "copy_loop write (c # cs) fails n s = Some ((m, e), s')"
  obtains "c = []" "copy_loop write cs fails n s = Some ((m, e), s')"
  | q where "c \<noteq> []" "write c s = Some (q, s')"
  | q n' s1 where "c \<noteq> []" "write c s = Some (q, s1)" "copy_loop write cs fails n' s1 = Some ((m, e), s')"
proof (cases "c = []")
  case True
  with assms that(1) show thesis by simp
next
  case False
  obtain nw ew s1 where w: "write c s = Some ((nw, ew), s1)" using assms False by (auto split: option.splits)
  show thesis using assms False w that(2,3) by (auto simp: Let_def split: if_splits)
qed

lemma copy_loop_inv:
  assumes "copy_loop write cs fails n s = Some ((m, e), s')" "P s"
    and "\<And>p s q s'. write p s = Some (q, s') \<Longrightarrow> P s \<Longrightarrow> P s'"
  shows "P s'"
  using assms(1,2)
proof (induction cs arbitrary: n s)
  case (Cons c cs)
  from Cons.prems(1) show ?case by (cases rule: copy_loop_cases) (use Cons assms(3) in blast)+
qed simp

lemma copy_loop_writes:
  assumes "copy_loop write cs fails n s = Some ((m, e), s')" "m \<noteq> n" "P s"
    and "\<And>p s q s'. write p s = Some (q, s') \<Longrightarrow> P s \<Longrightarrow> P s' \<and> Q s'"
  shows "Q s'"
  using assms(1-3)
proof (induction cs arbitrary: n s)
  case (Cons c cs)
  from Cons.prems(1) show ?case
  proof (cases rule: copy_loop_cases)
    case (3 q n' s1)
    with assms(4) Cons.prems(3) have "P s1 \<and> Q s1" by blast
    then show ?thesis using copy_loop_inv [OF 3(3), of "\<lambda>s. P s \<and> Q s"] assms(4) by blast
  qed (use Cons assms(4) in blast)+
qed simp

lemma copy_inv:
  assumes "copy_loop write cs fails n s = Some (r, s')" "P s" "\<And>p s q s'. write p s = Some (q, s') \<Longrightarrow> P s \<Longrightarrow> P s'"
  shows "P s'"
  using copy_loop_inv [of "write" cs fails n s "fst r" "snd r" s' P] assms by auto

text \<open>Every call on a recorder is a sequence of calls on the writer under it.\<close>

lemma commit_ok_calls:
  assumes "commit_ok ops w = Some w'" "P (rw_inner w)" "\<And>c s s'. handler_do ops c s = Some s' \<Longrightarrow> P s \<Longrightarrow> P s'"
  shows "P (rw_inner w')"
  using assms(1,2) assms(3) [of "WriteHeader StatusOK" "rw_inner w"]
  by (auto simp: commit_ok_def rw_WriteHeader_def Let_def split: if_splits option.splits)

lemma write_calls:
  assumes "rw_Write ops p w = Some (r, w')" "P (rw_inner w)" "\<And>c s s'. handler_do ops c s = Some s' \<Longrightarrow> P s \<Longrightarrow> P s'"
  shows "P (rw_inner w')"
proof -
  obtain w1 i where w: "commit_ok ops w = Some w1" "op_Write ops p (rw_inner w1) = Some (r, i)" "w' = w1\<lparr>rw_inner := i\<rparr>"
    using assms(1) by (auto simp: rw_Write_def on_inner_def bind_eq_Some_conv)
  have "P (rw_inner w1)" by (rule commit_ok_calls [where P = P, OF w(1) assms(2,3)])
  then show ?thesis using assms(3) [of "Write p" "rw_inner w1" i] w by simp
qed

lemma read_rest_calls:
  assumes "read_rest ops n src w = Some (r, w')" "P (rw_inner w)" "\<And>c s s'. handler_do ops c s = Some s' \<Longrightarrow> P s \<Longrightarrow> P s'"
  shows "P (rw_inner w')"
proof -
  obtain r1 i where w: "(case op_ReadFrom ops of Some rf \<Rightarrow> rf src
      | None \<Rightarrow> copy_loop (op_Write ops) (src_chunks src) (src_fails src) 0) (rw_inner w) = Some (r1, i)" "w' = w\<lparr>rw_inner := i\<rparr>"
    using assms(1) by (auto simp: read_rest_def on_inner_def)
  then have "handler_do ops (ReadFrom src) (rw_inner w) = Some i" by (auto split: option.splits)
  from assms(3) [OF this assms(2)] show ?thesis by (simp add: w(2))
qed

lemma readFrom_cases:
  assumes "rw_ReadFrom ops src w = Some (r, w')"
  obtains (rest) "wroteHeader w" "read_rest ops 0 src w = Some (r, w')"
  | (short) cs f n where "\<not> wroteHeader w" "copy_loop (rw_Write ops) cs f n w = Some (r, w')"
  | (long) cs f m e w1 src' where "\<not> wroteHeader w" "copy_loop (rw_Write ops) cs f 0 w = Some ((m, e), w1)" "m \<noteq> 0"
      "read_rest ops m src' w1 = Some (r, w')"
proof (cases "wroteHeader w")
  case True
  with assms rest show thesis by (simp add: rw_ReadFrom_def)
next
  case False
  obtain ts rs where ts: "limit_chunks 512 (src_chunks src) = (ts, rs)" by (cases "limit_chunks 512 (src_chunks src)")
  obtain n e w1 where w1: "copy_loop (rw_Write ops) ts (src_fails src \<and> length (concat ts) < 512) 0 w = Some ((n, e), w1)"
    "(if e \<or> n < 512 then Some ((n, e), w1) else read_rest ops n (src\<lparr>src_chunks := rs\<rparr>) w1) = Some (r, w')"
    using assms False by (auto simp: rw_ReadFrom_def ts split: option.splits prod.splits)
  show thesis
  proof (cases "e \<or> n < 512")
    case True
    with w1 have "copy_loop (rw_Write ops) ts (src_fails src \<and> length (concat ts) < 512) 0 w = Some (r, w')" by simp
    then show thesis by (rule short [OF False])
  next
    case far: False
    then have "n \<noteq> 0" "read_rest ops n (src\<lparr>src_chunks := rs\<rparr>) w1 = Some (r, w')" using w1(2) by simp_all
    then show thesis by (rule long [OF False w1(1)])
  qed
qed

lemma recorder_calls:
  assumes "handler_do (rw_ops ops) call w = Some w'" "P (rw_inner w)" "\<And>c s s'. handler_do ops c s = Some s' \<Longrightarrow> P s \<Longrightarrow> P s'"
  shows "P (rw_inner w')"
proof (cases call)
  case (WriteHeader st)
  then show ?thesis using assms(1,2) assms(3) [of "WriteHeader st" "rw_inner w"]
    by (auto simp: rw_ops_def rw_WriteHeader_def Let_def split: if_splits option.splits)
next
  case (Write p)
  then obtain r where "rw_Write ops p w = Some (r, w')" using assms(1) by (auto simp: rw_ops_def)
  then show ?thesis by (rule write_calls [where P = P, OF _ assms(2,3)])
next
  case (ReadFrom src)
  then obtain r where "rw_ReadFrom ops src w = Some (r, w')" using assms(1) by (auto simp: rw_ops_def)
  then show ?thesis
  proof (cases rule: readFrom_cases)
    case rest
    from rest(2) show ?thesis by (rule read_rest_calls [where P = P, OF _ assms(2,3)])
  next
    case (short cs f n)
    from short(2) show ?thesis
      by (rule copy_inv [where P = "\<lambda>w. P (rw_inner w)"]) (rule assms(2), rule write_calls [where P = P, OF _ _ assms(3)])
  next
    case (long cs f m e w1 src')
    from long(2) have "P (rw_inner w1)"
      by (rule copy_inv [where P = "\<lambda>w. P (rw_inner w)"]) (rule assms(2), rule write_calls [where P = P, OF _ _ assms(3)])
    then show ?thesis by (rule read_rest_calls [where P = P, OF long(4) _ assms(3)])
  qed
next
  case Flush
  show ?thesis
  proof (cases "op_Flush ops")
    case None
    then show ?thesis using assms(1,2) Flush by (simp add: rw_ops_def)
  next
    case (Some f)
    then obtain e w1 i where w: "commit_ok ops w = Some w1" "f (rw_inner w1) = Some (e, i)" "w' = w1\<lparr>rw_inner := i\<rparr>"
      using assms(1) Flush by (auto simp: rw_ops_def flushError_def on_inner_def bind_eq_Some_conv)
    have "P (rw_inner w1)" by (rule commit_ok_calls [where P = P, OF w(1) assms(2,3)])
    then show ?thesis using assms(3) [of Flush "rw_inner w1" i] w Some by simp
  qed
qed

lemma recorder_run:
  assumes "handler_run (rw_ops ops) calls w = Some w'" "P (rw_inner w)" "\<And>c s s'. handler_do ops c s = Some s' \<Longrightarrow> P s \<Longrightarrow> P s'"
  shows "P (rw_inner w')"
  using assms(1,2)
proof (induction calls arbitrary: w)
  case (Cons c cs)
  then obtain w1 where w1: "handler_do (rw_ops ops) c w = Some w1" "handler_run (rw_ops ops) cs w1 = Some w'"
    by (auto simp: bind_eq_Some_conv)
  have "P (rw_inner w1)" by (rule recorder_calls [where P = P, OF w1(1) Cons.prems(2)]) (rule assms(3))
  with w1(2) show ?case by (rule Cons.IH)
qed simp

section \<open>Writers as an interface\<close>

definition commit :: "int \<Rightarrow> int option \<Rightarrow> int option" where
  "commit st c = (case c of Some x \<Rightarrow> Some x | None \<Rightarrow> if informational st then None else Some st)"

lemma commit_simps [simp]: "commit st (Some x) = Some x" "commit StatusOK None = Some StatusOK"
  "commit st (commit st c) = commit st c" "commit a (commit StatusOK c) = commit StatusOK c"
  by (auto simp: commit_def informational_def StatusOK_def split: option.splits)

locale response_writer =
  fixes ops :: "'s writer_ops" and committed :: "'s \<Rightarrow> int option"
  assumes header_sent: "op_WriteHeader ops st s = Some s' \<Longrightarrow> committed s' = commit st (committed s)"
    and write_sent: "op_Write ops p s = Some (r, s') \<Longrightarrow> committed s' = commit StatusOK (committed s)"
    and flush_sent: "op_Flush ops = Some f \<Longrightarrow> f s = Some (e, s') \<Longrightarrow> committed s' = commit StatusOK (committed s)"
    and read_kept: "op_ReadFrom ops = Some rf \<Longrightarrow> committed s = Some c \<Longrightarrow> rf src s = Some (r, s') \<Longrightarrow> committed s' = Some c"
begin

lemma copy_kept:
  "copy_loop (op_Write ops) cs f n s = Some (r, s') \<Longrightarrow> committed s = Some c \<Longrightarrow> committed s' = Some c"
  by (rule copy_inv [where P = "\<lambda>s. committed s = Some c"]) (auto dest: write_sent)

text \<open>The recorder knows the status the writer under it has committed to.\<close>

definition agrees :: "'s responseWriter \<Rightarrow> bool" where
  "agrees w \<longleftrightarrow> (wroteHeader w \<longleftrightarrow> committed (rw_inner w) \<noteq> None) \<and>
     rw_code w = (case committed (rw_inner w) of Some c \<Rightarrow> c | None \<Rightarrow> StatusOK)"

lemma wrap_agrees: "committed s = None \<Longrightarrow> agrees (wrapResponseWriter s st)"
  by (simp add: agrees_def wrapResponseWriter_def)

lemma header_inner:
  assumes "rw_WriteHeader ops st w = Some w'"
  shows "committed (rw_inner w') = commit st (committed (rw_inner w))" and "agrees w \<Longrightarrow> agrees w'"
  using assms header_sent
  by (auto simp: rw_WriteHeader_def agrees_def commit_def Let_def split: option.splits if_splits)

lemma commit_ok_inner:
  assumes "commit_ok ops w = Some w'"
  shows "commit StatusOK (committed (rw_inner w')) = commit StatusOK (committed (rw_inner w))"
    and "agrees w \<Longrightarrow> agrees w' \<and> wroteHeader w'"
proof -
  show "commit StatusOK (committed (rw_inner w')) = commit StatusOK (committed (rw_inner w))"
    using assms header_inner(1) by (auto simp: commit_ok_def split: if_splits)
  assume "agrees w"
  then show "agrees w' \<and> wroteHeader w'"
    using assms header_inner [of StatusOK w w']
    by (auto simp: commit_ok_def agrees_def split: if_splits)
qed

lemma agrees_kept:
  assumes "agrees w" "wroteHeader w" "\<And>c. committed (rw_inner w) = Some c \<Longrightarrow> committed i = Some c"
  shows "agrees (w\<lparr>rw_inner := i\<rparr>)"
  using assms by (auto simp: agrees_def)

lemma write_inner:
  assumes "rw_Write ops p w = Some (r, w')"
  shows "committed (rw_inner w') = commit StatusOK (committed (rw_inner w))" and "agrees w \<Longrightarrow> agrees w' \<and> wroteHeader w'"
proof -
  obtain w1 i where w: "commit_ok ops w = Some w1" "op_Write ops p (rw_inner w1) = Some (r, i)" "w' = w1\<lparr>rw_inner := i\<rparr>"
    using assms by (auto simp: rw_Write_def on_inner_def bind_eq_Some_conv)
  show "committed (rw_inner w') = commit StatusOK (committed (rw_inner w))"
    using w(3) write_sent [OF w(2)] commit_ok_inner(1) [OF w(1)] by simp
  assume "agrees w"
  with commit_ok_inner(2) [OF w(1)] write_sent [OF w(2)] show "agrees w' \<and> wroteHeader w'"
    unfolding w(3) by (auto intro: agrees_kept)
qed

lemma flush_inner:
  assumes "op_Flush ops = Some f" "flushError ops f w = Some (e, w')"
  shows "committed (rw_inner w') = commit StatusOK (committed (rw_inner w))" and "agrees w \<Longrightarrow> agrees w'"
proof -
  obtain w1 i where w: "commit_ok ops w = Some w1" "f (rw_inner w1) = Some (e, i)" "w' = w1\<lparr>rw_inner := i\<rparr>"
    using assms(2) by (auto simp: flushError_def on_inner_def bind_eq_Some_conv)
  show "committed (rw_inner w') = commit StatusOK (committed (rw_inner w))"
    using w(3) flush_sent [OF assms(1) w(2)] commit_ok_inner(1) [OF w(1)] by simp
  assume "agrees w"
  with commit_ok_inner(2) [OF w(1)] flush_sent [OF assms(1) w(2)] show "agrees w'"
    unfolding w(3) by (auto intro: agrees_kept)
qed

lemma read_rest_inner:
  assumes "read_rest ops n src w = Some (r, w')"
  shows "committed (rw_inner w) = Some c \<Longrightarrow> committed (rw_inner w') = Some c" and "agrees w \<Longrightarrow> wroteHeader w \<Longrightarrow> agrees w'"
proof -
  obtain r1 i where w: "(case op_ReadFrom ops of Some rf \<Rightarrow> rf src
      | None \<Rightarrow> copy_loop (op_Write ops) (src_chunks src) (src_fails src) 0) (rw_inner w) = Some (r1, i)" "w' = w\<lparr>rw_inner := i\<rparr>"
    using assms by (auto simp: read_rest_def on_inner_def)
  have kept: "committed (rw_inner w) = Some c \<Longrightarrow> committed i = Some c" for c
  proof (cases "op_ReadFrom ops")
    case None
    with w(1) have "copy_loop (op_Write ops) (src_chunks src) (src_fails src) 0 (rw_inner w) = Some (r1, i)" by simp
    then show "committed (rw_inner w) = Some c \<Longrightarrow> committed i = Some c" by (rule copy_kept)
  next
    case (Some rf)
    with w(1) have rf: "rf src (rw_inner w) = Some (r1, i)" by simp
    show "committed (rw_inner w) = Some c \<Longrightarrow> committed i = Some c" by (rule read_kept [OF Some _ rf])
  qed
  then show "committed (rw_inner w) = Some c \<Longrightarrow> committed (rw_inner w') = Some c" by (simp add: w(2))
  show "agrees w \<Longrightarrow> wroteHeader w \<Longrightarrow> agrees w'" unfolding w(2) by (rule agrees_kept [OF _ _ kept])
qed

lemma copy_inner:
  assumes "copy_loop (rw_Write ops) cs f n w = Some ((m, e), w')"
  shows "committed (rw_inner w) = Some c \<Longrightarrow> committed (rw_inner w') = Some c"
    and "agrees w \<Longrightarrow> agrees w'" and "agrees w \<Longrightarrow> m \<noteq> n \<Longrightarrow> wroteHeader w'"
proof -
  show "committed (rw_inner w) = Some c \<Longrightarrow> committed (rw_inner w') = Some c"
    by (rule copy_inv [OF assms, where P = "\<lambda>w. committed (rw_inner w) = Some c"]) (auto dest: write_inner(1))
  show "agrees w \<Longrightarrow> agrees w'"
    by (rule copy_inv [OF assms, where P = agrees]) (auto dest: write_inner(2))
  show "agrees w \<Longrightarrow> m \<noteq> n \<Longrightarrow> wroteHeader w'"
    by (rule copy_loop_writes [OF assms, where P = agrees and Q = wroteHeader]) (auto dest: write_inner(2))
qed

lemma readFrom_both:
  assumes "rw_ReadFrom ops src w = Some (r, w')"
  shows "(committed (rw_inner w) = Some c \<longrightarrow> committed (rw_inner w') = Some c) \<and> (agrees w \<longrightarrow> agrees w')"
  using assms
proof (cases rule: readFrom_cases)
  case rest
  from read_rest_inner [OF rest(2)] rest(1) show ?thesis by blast
next
  case (short cs f n)
  obtain m e where r: "r = (m, e)" by (cases r)
  from copy_inner [OF short(2) [unfolded r]] show ?thesis by blast
next
  case (long cs f m e w1 src')
  from copy_inner [OF long(2)] read_rest_inner [OF long(4)] long(3) show ?thesis by blast
qed

lemmas readFrom_inner = readFrom_both [THEN conjunct1, THEN mp] readFrom_both [THEN conjunct2, THEN mp]

lemma call_agrees: "handler_do (rw_ops ops) c w = Some w' \<Longrightarrow> agrees w \<Longrightarrow> agrees w'"
  using header_inner(2) write_inner(2) readFrom_inner(2) flush_inner(2)
  by (cases c) (auto simp: rw_ops_def split: option.splits)

lemma handler_agrees: "handler_run (rw_ops ops) cs w = Some w' \<Longrightarrow> agrees w \<Longrightarrow> agrees w'"
proof (induction cs arbitrary: w)
  case (Cons c cs)
  then obtain w1 where w1: "handler_do (rw_ops ops) c w = Some w1" "handler_run (rw_ops ops) cs w1 = Some w'"
    by (auto simp: bind_eq_Some_conv)
  have "agrees w1" using call_agrees [OF w1(1) Cons.prems(2)] .
  then show ?case using Cons.IH w1(2) by blast
qed simp

text \<open>The recorder is a writer again, so recorders nest.\<close>

lemma wrapped_writer: "response_writer (rw_ops ops) (\<lambda>w. committed (rw_inner w))"
proof
  show "op_WriteHeader (rw_ops ops) st s = Some s' \<Longrightarrow> committed (rw_inner s') = commit st (committed (rw_inner s))" for st s s'
    by (simp add: rw_ops_def header_inner(1))
  show "op_Write (rw_ops ops) p s = Some (r, s') \<Longrightarrow> committed (rw_inner s') = commit StatusOK (committed (rw_inner s))" for p s r s'
    using write_inner(1) by (cases r) (simp add: rw_ops_def)
  show "op_Flush (rw_ops ops) = Some f \<Longrightarrow> f s = Some (e, s') \<Longrightarrow> committed (rw_inner s') = commit StatusOK (committed (rw_inner s))"
    for f s e s' using flush_inner(1) by (auto simp: rw_ops_def)
  show "op_ReadFrom (rw_ops ops) = Some rf \<Longrightarrow> committed (rw_inner s) = Some c \<Longrightarrow> rf src s = Some (r, s') \<Longrightarrow>
      committed (rw_inner s') = Some c" for rf s c src r s'
    using readFrom_inner(1) by (auto simp: rw_ops_def)
qed

end

section \<open>The response of net/http\<close>

record net_response =
  nr_status :: "int option"
  nr_informational :: "int list"
  nr_body :: string
  nr_gone :: bool

definition net_WriteHeader :: "int \<Rightarrow> net_response \<Rightarrow> net_response option" where
  "net_WriteHeader st s =
     (if nr_status s \<noteq> None then Some s
      else if st < 100 \<or> st > 999 then None
      else if informational st then Some (s\<lparr>nr_informational := nr_informational s @ [st]\<rparr>)
      else Some (s\<lparr>nr_status := Some st\<rparr>))"

definition net_commit :: "net_response \<Rightarrow> net_response" where
  "net_commit s = (if nr_status s = None then s\<lparr>nr_status := Some StatusOK\<rparr> else s)"

definition net_Write :: "string \<Rightarrow> net_response \<Rightarrow> net_response io" where
  "net_Write p s = (let s = net_commit s in
     if nr_gone s then Some ((0, True), s) else Some ((int (length p), False), s\<lparr>nr_body := nr_body s @ p\<rparr>))"

definition net_Flush :: "net_response \<Rightarrow> (bool \<times> net_response) option" where
  "net_Flush s = Some (nr_gone s, net_commit s)"

definition net_ops :: "net_response writer_ops" where
  "net_ops = \<lparr>op_WriteHeader = net_WriteHeader, op_Write = net_Write, op_Flush = Some net_Flush,
     op_ReadFrom = Some (\<lambda>src. copy_loop net_Write (src_chunks src) (src_fails src) 0)\<rparr>"

lemma net_commit_status: "nr_status (net_commit s) = commit StatusOK (nr_status s)"
  by (auto simp: net_commit_def commit_def informational_def StatusOK_def)

lemma net_copy: "copy_loop net_Write cs f n s = Some (r, s') \<Longrightarrow> nr_status s = Some c \<Longrightarrow> nr_status s' = Some c"
  by (rule copy_inv [where P = "\<lambda>s. nr_status s = Some c"])
    (auto simp: net_Write_def net_commit_def Let_def split: if_splits)

interpretation net_http: response_writer net_ops nr_status
proof
  show "op_WriteHeader net_ops st s = Some s' \<Longrightarrow> nr_status s' = commit st (nr_status s)" for st s s'
    by (auto simp: net_ops_def net_WriteHeader_def commit_def split: if_splits option.splits)
  show "op_Write net_ops p s = Some (r, s') \<Longrightarrow> nr_status s' = commit StatusOK (nr_status s)" for p s r s'
    by (auto simp: net_ops_def net_Write_def Let_def net_commit_status split: if_splits)
  show "op_Flush net_ops = Some f \<Longrightarrow> f s = Some (e, s') \<Longrightarrow> nr_status s' = commit StatusOK (nr_status s)" for f s e s'
    by (auto simp: net_ops_def net_Flush_def net_commit_status)
  show "op_ReadFrom net_ops = Some rf \<Longrightarrow> nr_status s = Some c \<Longrightarrow> rf src s = Some (r, s') \<Longrightarrow> nr_status s' = Some c"
    for rf s c src r s' by (auto simp: net_ops_def intro: net_copy)
qed

interpretation recorder: response_writer "rw_ops net_ops" "\<lambda>w. nr_status (rw_inner w)"
  by (rule net_http.wrapped_writer)

definition fresh_response :: "bool \<Rightarrow> net_response" where
  "fresh_response gone = \<lparr>nr_status = None, nr_informational = [], nr_body = [], nr_gone = gone\<rparr>"

section \<open>Properties\<close>

text \<open>
  (C18) Whatever a handler does with its writer - informational headers, a superfluous second status, bodies written or copied
  from a source that fails, flushes, with a client that may be gone - the status recorded at its end is the one \<^verbatim>\<open>net/http\<close> put on
  the wire, or 200 when it has sent none yet; and when two instrumentation layers wrap the writer, both record it.
\<close>

theorem recorded_status_is_sent:
  assumes "handler_run (rw_ops (rw_ops net_ops)) calls
    (wrapResponseWriter (wrapResponseWriter (fresh_response gone) st1) st2) = Some w"
  shows "rw_code w = (case nr_status (rw_inner (rw_inner w)) of Some c \<Rightarrow> c | None \<Rightarrow> 200) \<and> rw_code (rw_inner w) = rw_code w"
proof -
  let ?in = "wrapResponseWriter (fresh_response gone) st1"
  have none: "nr_status (fresh_response gone) = None" by (simp add: fresh_response_def)
  then have "recorder.agrees (wrapResponseWriter ?in st2)" by (intro recorder.wrap_agrees) (simp add: wrapResponseWriter_def)
  from recorder.handler_agrees [OF assms this]
  have outer: "rw_code w = (case nr_status (rw_inner (rw_inner w)) of Some c \<Rightarrow> c | None \<Rightarrow> 200)"
    by (simp add: recorder.agrees_def StatusOK_def split: option.splits)
  have "net_http.agrees (rw_inner w)"
  proof (rule recorder_run [where P = net_http.agrees, OF assms])
    show "net_http.agrees (rw_inner (wrapResponseWriter ?in st2))"
      using net_http.wrap_agrees [OF none] by (simp add: wrapResponseWriter_def)
  qed (rule net_http.call_agrees)
  with outer show ?thesis by (simp add: net_http.agrees_def StatusOK_def split: option.splits)
qed

theorem recorded_status_is_sent_witness:
  "\<exists>w. handler_run (rw_ops (rw_ops net_ops)) [WriteHeader 103, ReadFrom \<lparr>src_chunks = [], src_fails = True\<rparr>, WriteHeader 502, Write ''x'', WriteHeader 200]
     (wrapResponseWriter (wrapResponseWriter (fresh_response False) None) None) = Some w \<and> rw_code w = 502 \<and> rw_code (rw_inner w) = 502"
proof -
  let ?r = "handler_run (rw_ops (rw_ops net_ops)) [WriteHeader 103, ReadFrom \<lparr>src_chunks = [], src_fails = True\<rparr>, WriteHeader 502, Write ''x'', WriteHeader 200]
     (wrapResponseWriter (wrapResponseWriter (fresh_response False) None) None)"
  have "?r \<noteq> None \<and> map_option (\<lambda>w. nr_status (rw_inner (rw_inner w))) ?r = Some (Some 502)"
    by (simp add: rw_ops_def net_ops_def rw_WriteHeader_def net_WriteHeader_def wrapResponseWriter_def fresh_response_def
        informational_def StatusSwitchingProtocols_def rw_ReadFrom_def rw_Write_def commit_ok_def on_inner_def net_Write_def net_commit_def)
  then obtain w where w: "?r = Some w" "nr_status (rw_inner (rw_inner w)) = Some 502" by auto
  from recorded_status_is_sent [OF w(1)] w show ?thesis by simp
qed

end
