(* ===== verification/Http_Server.thy ===== *)
theory Http_Server
  imports Http_Config Response_Writer Request_Entry
begin

text \<open>
  The trace around an HTTP handler (\<^verbatim>\<open>src/plugin/http/server.go\<close>, \<^verbatim>\<open>config.go\<close>; the nested view of a tracer of \<^verbatim>\<open>src/nested.go\<close>): the
  request is filtered, entered and recorded, the handler runs inside a span event, and its status - 500 for a panic -
  reaches the span and the URL statistics before the span ends. The handler is an arbitrary function on the trace, its
  result a status or a panic with the error recorded for it.
\<close>

section \<open>Tracers\<close>

text \<open>
  A tracer as a plugin holds it: the request's own one or a nested view of it, with the fields its operations write.
\<close>

record 'e http_trace =
  ht_tracer :: "'e tracer"
  ht_nested :: bool
  ht_root :: root
  ht_gen :: int
  ht_agent :: request_agent

definition NestedTracer :: "'e http_trace \<Rightarrow> 'e http_trace" where
  "NestedTracer q = q\<lparr>ht_nested := True\<rparr>"

definition IsSampled :: "'e http_trace \<Rightarrow> bool" where
  "IsSampled q = (case ht_tracer q of SampledTracer _ _ \<Rightarrow> True | _ \<Rightarrow> False)"

definition on_span :: "('e span \<Rightarrow> 'e span) \<Rightarrow> 'e http_trace \<Rightarrow> 'e http_trace" where
  "on_span f q = (case ht_tracer q of SampledTracer sp st \<Rightarrow> q\<lparr>ht_tracer := SampledTracer (f sp) st\<rparr> | _ \<Rightarrow> q)"

definition t_NewSpanEvent :: "'e agent_env \<Rightarrow> int \<Rightarrow> string \<Rightarrow> 'e http_trace \<Rightarrow> 'e http_trace" where
  "t_NewSpanEvent A now op = on_span (NewSpanEvent A now op)"

definition t_EndSpanEvent :: "'e agent_env \<Rightarrow> int \<Rightarrow> ('p \<times> 'e) option \<Rightarrow> 'e http_trace \<Rightarrow> 'e http_trace \<times> 'p option" where
  "t_EndSpanEvent A now pending q =
     (case ht_tracer q of
        SampledTracer sp st \<Rightarrow>
          (let ((sp, r, gen), pan) = EndSpanEvent A now pending (sp, ht_root q, ht_gen q)
           in (q\<lparr>ht_tracer := SampledTracer sp st, ht_root := r, ht_gen := gen\<rparr>, pan))
      | _ \<Rightarrow> (q, map_option fst pending))"

definition t_SetError :: "'e agent_env \<Rightarrow> 'e option \<Rightarrow> 'e http_trace \<Rightarrow> 'e http_trace" where
  "t_SetError A err_opt q =
     (case ht_tracer q of
        SampledTracer sp st \<Rightarrow>
          (let (sp, r, gen) = SetError A err_opt [] (sp, ht_root q, ht_gen q)
           in q\<lparr>ht_tracer := SampledTracer sp st, ht_root := r, ht_gen := gen\<rparr>)
      | UnsampledTracer np \<Rightarrow> q\<lparr>ht_tracer := UnsampledTracer (noop_SetError A err_opt [] np)\<rparr>
      | NoopTracer \<Rightarrow> q)"

definition t_SetFailure :: "ErrorCategory list \<Rightarrow> 'e http_trace \<Rightarrow> 'e http_trace" where
  "t_SetFailure cats q =
     (case ht_tracer q of
        SampledTracer sp st \<Rightarrow> q\<lparr>ht_root := SetFailure cats sp (ht_root q)\<rparr>
      | UnsampledTracer np \<Rightarrow> q\<lparr>ht_tracer := UnsampledTracer (noop_SetFailure cats np)\<rparr>
      | NoopTracer \<Rightarrow> q)"

definition t_RecordUrlStat :: "UrlStatEntry \<Rightarrow> 'e http_trace \<Rightarrow> 'e http_trace" where
  "t_RecordUrlStat e q =
     (case ht_tracer q of UnsampledTracer np \<Rightarrow> q\<lparr>ht_tracer := UnsampledTracer (noop_RecordUrlStat e np)\<rparr>
      | _ \<Rightarrow> on_span (RecordUrlStat e) q)"

text \<open>\<open>EndSpan\<close>: the URL statistics record queued, if any. A nested view leaves it to the owner of the span.\<close>

definition t_EndSpan ::
  "call_site \<Rightarrow> int \<Rightarrow> int \<Rightarrow> bool \<Rightarrow> 'e http_trace \<Rightarrow> (UrlStatEntry \<times> int \<times> int \<times> go_int32) option \<times> 'e http_trace" where
  "t_EndSpan c start_ms now accepted q =
     (if ht_nested q then (None, q)
      else case ht_tracer q of
        SampledTracer sp st \<Rightarrow>
          (let (res, sp) = EndSpan now accepted (ht_root q) sp;
               a = (case responseTime res of None \<Rightarrow> ht_agent q
                    | Some el \<Rightarrow> (let a = request_end st (ht_agent q)
                        in a\<lparr>stat_shards := collectResponseTime (site_gid c) (word_of_int el) (stat_shards a)\<rparr>))
           in (urlStatRecord res, q\<lparr>ht_tracer := SampledTracer sp st, ht_agent := a\<rparr>))
      | UnsampledTracer np \<Rightarrow>
          (let (u, np, a) = noop_EndSpan c start_ms now np (ht_agent q)
           in (u, q\<lparr>ht_tracer := UnsampledTracer np, ht_agent := a\<rparr>))
      | NoopTracer \<Rightarrow> (None, q))"

section \<open>Recording the request\<close>

definition NewHttpServerTracerWithReader ::
  "'e agent_env \<Rightarrow> entry_env \<Rightarrow> httpConfig \<Rightarrow> call_site \<Rightarrow> string \<Rightarrow> string \<Rightarrow> string \<Rightarrow> reader option \<Rightarrow> request_agent
     \<Rightarrow> 'e tracer \<times> request_agent" where
  "NewHttpServerTracerWithReader A E hc c method path operation rd a =
     (if isFiltered (srvUrl hc) path \<or> isExcludedMethod hc method then (NoopTracer, a)
      else newSpanTracerWithReader A E c operation path rd a)"

record http_request =
  req_Method :: string
  req_Path :: string
  req_Host :: string
  req_RemoteAddr :: string
  req_Header :: http_header
  req_order :: "string list"
  req_Cookies :: cookies
  req_RawQuery :: string

text \<open>
  The \<open>net/http\<close> adapter: \<open>Values\<close> canonicalizes its key, the visits go through the map in some order.
\<close>

definition header_of :: "http_header \<Rightarrow> string list \<Rightarrow> header" where
  "header_of m order = \<lparr>hd_values = (\<lambda>k. case m (CanonicalMIMEHeaderKey k) of Some vs \<Rightarrow> vs | None \<Rightarrow> []),
     hd_visit = map (\<lambda>k. (k, case m k of Some vs \<Rightarrow> vs | None \<Rightarrow> [])) order, hd_get = None, hd_nethttp = True\<rparr>"

definition RecordHttpServerRequestWithQuery ::
  "httpConfig \<Rightarrow> string \<Rightarrow> string \<Rightarrow> header \<Rightarrow> cookies \<Rightarrow> string \<Rightarrow> 'e http_trace \<Rightarrow> 'e http_trace" where
  "RecordHttpServerRequestWithQuery hc host remote h cs rawQuery q =
     (if \<not> IsSampled q \<or> ht_nested q then q
      else
        let q = on_span (SetEndPoint host) q;
            q = on_span (SetRemoteAddress (resolveRemoteAddr h remote (srvRealIpHeaders hc) (srvRealIpEmptyValue hc))) q;
            q = on_span (annotate (recordHeader (srvReqHeader hc) AnnotationHttpRequestHeader h)) q;
            q = on_span (annotate (recordCookie (srvCookie hc) cs)) q;
            q = (if srvProxyHeader hc then on_span (annotate (setProxyHeaderNames h (srvProxyUserHeaders hc))) q else q)
        in if srvRequestParam hc \<and> rawQuery \<noteq> []
           then on_span (annotate (AppendString AnnotationHttpParam (formatRequestParams rawQuery))) q else q)"

definition RecordHttpServerRequest :: "httpConfig \<Rightarrow> http_request \<Rightarrow> 'e http_trace \<Rightarrow> 'e http_trace" where
  "RecordHttpServerRequest hc req =
     RecordHttpServerRequestWithQuery hc (req_Host req) (req_RemoteAddr req) (header_of (req_Header req) (req_order req))
       (req_Cookies req) (req_RawQuery req)"

text \<open>\<open>existing\<close>: the tracer the request's context carries, \<open>None\<close> for none (the noop tracer).\<close>

definition NewHttpServerTracer ::
  "'e agent_env \<Rightarrow> entry_env \<Rightarrow> httpConfig \<Rightarrow> call_site \<Rightarrow> int \<Rightarrow> http_request \<Rightarrow> string \<Rightarrow> 'e http_trace option \<Rightarrow> request_agent
     \<Rightarrow> 'e http_trace" where
  "NewHttpServerTracer A E hc c gen req operation existing a =
     (case existing of Some q \<Rightarrow> NestedTracer q
      | None \<Rightarrow>
          let (t, a) = NewHttpServerTracerWithReader A E hc c (req_Method req) (req_Path req) operation
                         (Some (httpHeaderReader_Get (req_Header req))) a
          in RecordHttpServerRequest hc req
               \<lparr>ht_tracer = t, ht_nested = False, ht_root = zero_root, ht_gen = gen, ht_agent = a\<rparr>)"

section \<open>Recording the response\<close>

definition recordServerHttpStatus :: "httpConfig \<Rightarrow> int \<Rightarrow> 'e http_trace \<Rightarrow> 'e http_trace" where
  "recordServerHttpStatus hc status q =
     (let q = (if isError (srvStatus hc) status then t_SetFailure [ErrorCategoryHttpStatus] q else q)
      in on_span (annotate (AppendInt AnnotationHttpStatusCode (word_of_int status))) q)"

definition RecordHttpServerResponseWithReader :: "httpConfig \<Rightarrow> int \<Rightarrow> header \<Rightarrow> 'e http_trace \<Rightarrow> 'e http_trace" where
  "RecordHttpServerResponseWithReader hc status h q =
     (if ht_nested q then q
      else if \<not> IsSampled q then (if isError (srvStatus hc) status then t_SetFailure [ErrorCategoryHttpStatus] q else q)
      else on_span (annotate (recordHeader (srvResHeader hc) AnnotationHttpResponseHeader h)) (recordServerHttpStatus hc status q))"

definition CollectUrlStat :: "httpConfig \<Rightarrow> string \<Rightarrow> string \<Rightarrow> 'e http_trace \<Rightarrow> 'e http_trace" where
  "CollectUrlStat hc url method q =
     (if \<not> urlStatEnabled hc then q else t_RecordUrlStat \<lparr>Url = url, Method = method\<rparr> q)"

definition RecordHttpHandlerError :: "'e agent_env \<Rightarrow> httpConfig \<Rightarrow> 'e option \<Rightarrow> 'e http_trace \<Rightarrow> 'e http_trace" where
  "RecordHttpHandlerError A hc err_opt q = (if recordHandlerError hc then t_SetError A err_opt q else q)"

section \<open>The trace around a handler\<close>

record trace_times =
  tm_start :: int
  tm_event :: int
  tm_done :: int
  tm_end :: int

text \<open>
  \<open>TraceSpan\<close>: the panic the call ends with, the URL statistics record queued, the trace. The deferred calls run last in,
  first out: the event ends and records a panic, the panic sets the status, \<open>after\<close> runs, the span ends.
\<close>

definition TraceSpan ::
  "'e agent_env \<Rightarrow> call_site \<Rightarrow> trace_times \<Rightarrow> bool \<Rightarrow> string \<Rightarrow> ('e http_trace \<Rightarrow> ('p \<times> 'e + int) \<times> 'e http_trace)
     \<Rightarrow> (int \<Rightarrow> 'e http_trace \<Rightarrow> 'e http_trace) \<Rightarrow> 'e http_trace
     \<Rightarrow> 'p option \<times> (UrlStatEntry \<times> int \<times> int \<times> go_int32) option \<times> 'e http_trace" where
  "TraceSpan A c tm accepted funcName fn after q =
     (let (out, q) = fn (t_NewSpanEvent A (tm_event tm) funcName q);
          (pending, status) = (case out of Inl p \<Rightarrow> (Some p, StatusOK) | Inr st \<Rightarrow> (None, st));
          (q, pan) = t_EndSpanEvent A (tm_done tm) pending q;
          status = (if pan \<noteq> None then StatusInternalServerError else status);
          (url, q) = t_EndSpan c (tm_start tm) (tm_end tm) accepted (after status q)
      in (pan, url, q))"

text \<open>
  What \<open>ServeTraced\<close> does after the handler. The route pattern is asked for only then, \<open>None\<close> switches the URL statistics
  off; the response headers are those of the writer.
\<close>

definition serve_after :: "httpConfig \<Rightarrow> string option \<Rightarrow> string \<Rightarrow> header \<Rightarrow> int \<Rightarrow> 'e http_trace \<Rightarrow> 'e http_trace" where
  "serve_after hc urlPattern method h status q =
     (let q = (case urlPattern of Some url \<Rightarrow> if IsUrlStatEnabled hc then CollectUrlStat hc url method q else q | None \<Rightarrow> q)
      in RecordHttpServerResponseWithReader hc status h q)"

text \<open>
  The handler with the writer it gets: its calls on the recorder, what it does to the trace and whether it panics. A call
  that panics ends it with that panic.
\<close>

record ('e, 'p) handler =
  hn_calls :: "handler_call list"
  hn_panic :: "('p \<times> 'e) option"
  hn_write_panic :: "'p \<times> 'e"
  hn_trace :: "'e http_trace \<Rightarrow> 'e http_trace"

definition handler_fn :: "('e, 'p) handler \<Rightarrow> net_response \<Rightarrow> 'e http_trace \<Rightarrow> ('p \<times> 'e + int) \<times> 'e http_trace" where
  "handler_fn h w q =
     (case handler_run (rw_ops net_ops) (hn_calls h) (wrapResponseWriter w None) of
        None \<Rightarrow> (Inl (hn_write_panic h), hn_trace h q)
      | Some rec \<Rightarrow> (case hn_panic h of Some p \<Rightarrow> (Inl p, hn_trace h q) | None \<Rightarrow> (Inr (rw_code rec), hn_trace h q)))"

text \<open>An agent that is not running leaves the request to the handler, with whatever tracer its context carries.\<close>

definition context_trace :: "int \<Rightarrow> 'e http_trace option \<Rightarrow> request_agent \<Rightarrow> 'e http_trace" where
  "context_trace gen existing a = (case existing of Some q \<Rightarrow> q
     | None \<Rightarrow> \<lparr>ht_tracer = NoopTracer, ht_nested = False, ht_root = zero_root, ht_gen = gen, ht_agent = a\<rparr>)"

definition ServeTraced ::
  "'e agent_env \<Rightarrow> entry_env \<Rightarrow> httpConfig \<Rightarrow> call_site \<Rightarrow> trace_times \<Rightarrow> bool \<Rightarrow> int \<Rightarrow> http_request \<Rightarrow> string \<Rightarrow> string
     \<Rightarrow> string option \<Rightarrow> header \<Rightarrow> ('e, 'p) handler \<Rightarrow> net_response \<Rightarrow> 'e http_trace option \<Rightarrow> request_agent
     \<Rightarrow> 'p option \<times> (UrlStatEntry \<times> int \<times> int \<times> go_int32) option \<times> 'e http_trace" where
  "ServeTraced A E hc c tm accepted gen req serverName funcName urlPattern h hn w existing a =
     (if \<not> tracingEnabled (enable a) then
        (case handler_run net_ops (hn_calls hn) w of None \<Rightarrow> Some (fst (hn_write_panic hn)) | Some _ \<Rightarrow> map_option fst (hn_panic hn),
         None, hn_trace hn (context_trace gen existing a))
      else TraceSpan A c tm accepted funcName (handler_fn hn w) (serve_after hc urlPattern (req_Method req) h)
             (NewHttpServerTracer A E hc c gen req serverName existing a))"

text \<open>A nil handler panics when it is registered (\<open>None\<close>), not on every request.\<close>

definition defaultServerName :: string where "defaultServerName = ''HTTP Server''"

definition wrapHandler ::
  "'e agent_env \<Rightarrow> entry_env \<Rightarrow> httpConfig \<Rightarrow> call_site \<Rightarrow> trace_times \<Rightarrow> bool \<Rightarrow> int \<Rightarrow> string \<Rightarrow> ('e, 'p) handler option \<Rightarrow> string list \<Rightarrow> string
     \<Rightarrow> (http_request \<Rightarrow> header \<Rightarrow> net_response \<Rightarrow> 'e http_trace option \<Rightarrow> request_agent
          \<Rightarrow> 'p option \<times> (UrlStatEntry \<times> int \<times> int \<times> go_int32) option \<times> 'e http_trace) option" where
  "wrapHandler A E hc c tm accepted gen route handler serverName funcName =
     (case handler of None \<Rightarrow> None
      | Some hn \<Rightarrow>
          let srvName = (case serverName of s # _ \<Rightarrow> s | [] \<Rightarrow> defaultServerName);
              urlPattern = (if route \<noteq> [] then Some route else None)
          in Some (\<lambda>req h w. ServeTraced A E hc c tm accepted gen req srvName funcName urlPattern h hn w))"

section \<open>Lemmas\<close>

lemma panic_reraised: "map_option fst pending = snd (t_EndSpanEvent A now pending q)"
proof -
  have "snd (endSpanEvent A now pending st) = map_option fst pending" for st
    by (cases st; cases pending) (auto simp: endSpanEvent_def Let_def split: option.splits prod.splits)
  then have "snd (EndSpanEvent A now pending st) = map_option fst pending" for st
    by (simp add: EndSpanEvent_def)
  then show ?thesis
    by (cases "ht_tracer q") (auto simp: t_EndSpanEvent_def Let_def split: prod.splits, metis snd_conv)
qed

text \<open>A request whose statistics and span are still open, of either sampling outcome.\<close>

definition url_open :: "'e tracer \<Rightarrow> bool" where
  "url_open t = (case t of
      SampledTracer sp _ \<Rightarrow> \<not> finished sp \<and> \<not> sealed (annotations sp) \<and> cfg_collectUrlStat (cfg sp)
        \<and> marksError (errorMarkMask (cfg sp)) ErrorCategoryHttpStatus
    | UnsampledTracer np \<Rightarrow> withStats np \<and> cfg_collectUrlStat (np_cfg np) \<and> marksError (errorMarkMask (np_cfg np)) ErrorCategoryHttpStatus
    | NoopTracer \<Rightarrow> False)"

text \<open>What the end of an event leaves alone: whether the span is open, its annotations, its settings, its URL.\<close>

definition request_view :: "'e span \<Rightarrow> bool \<times> annotation \<times> spanConfig \<times> UrlStatEntry option" where
  "request_view sp = (finished sp, annotations sp, cfg sp, urlStat sp)"

lemma view_updates [simp]:
  "request_view (sp\<lparr>chains := cs\<rparr>) = request_view sp" "request_view (sp\<lparr>eventStack := es\<rparr>) = request_view sp"
  "request_view (sp\<lparr>eventDepth := d\<rparr>) = request_view sp" "request_view (sp\<lparr>recovered := b\<rparr>) = request_view sp"
  "request_view (sp\<lparr>errorFuncId := i, errorString := s\<rparr>) = request_view sp"
  "request_view (appendEndedSpanEvent se sp) = request_view sp"
  by (simp_all add: request_view_def appendEndedSpanEvent_def newEventChunk_def chunk_enqueue_def Let_def)

lemma view_finish [simp]: "request_view (finish_event now se sp) = request_view sp"
  by (simp add: finish_event_def)

lemma view_fold [simp]: "request_view (fold appendEndedSpanEvent ses sp) = request_view sp"
  by (induction ses arbitrary: sp) simp_all

lemma view_ev_SetError:
  assumes "ev_SetError A eo names se (sp, r, gen) = (se', sp', r', gen')"
  shows "request_view sp' = request_view sp"
  using ev_SetError_frame(2) [OF assms] by auto

lemma view_SetError:
  assumes "SetError A eo names (sp, r, gen) = (sp', r', gen')"
  shows "request_view sp' = request_view sp"
proof (cases "eo = None \<or> finished sp")
  case True
  then show ?thesis using assms by (cases eo) (auto simp: SetError_def)
next
  case False
  then obtain e where e: "eo = Some e" by auto
  show ?thesis
  proof (cases "isAsyncSpan sp \<and> stack_bottom (eventStack sp) \<noteq> None")
    case True
    then obtain se where se: "stack_bottom (eventStack sp) = Some se" by auto
    obtain se' sp1 r1 g1 where v: "ev_SetError A eo names se (sp, r, gen) = (se', sp1, r1, g1)" by (metis prod.collapse)
    have "sp' = sp1\<lparr>eventStack := (eventStack sp1)[0 := se']\<rparr>"
      using assms False True v by (simp add: SetError_def e se Let_def)
    then show ?thesis using view_ev_SetError [OF v] by simp
  next
    case no: False
    then show ?thesis using assms False
      by (cases "isAsyncSpan sp"; cases "stack_bottom (eventStack sp)") (auto simp: SetError_def e Let_def)
  qed
qed

lemma view_endSpanEvent:
  assumes "endSpanEvent A now rec (sp, r, gen) = ((sp', r', gen'), pan)"
  shows "request_view sp' = request_view sp"
proof (cases "eventOverflow sp > 0 \<or> stack_pop (eventStack sp) = None")
  case True
  then show ?thesis using assms by (cases "eventOverflow sp > 0") (auto simp: endSpanEvent_def request_view_def)
next
  case False
  then obtain se buf where p: "stack_pop (eventStack sp) = Some (se, buf)" by auto
  show ?thesis
  proof (cases rec)
    case None
    then show ?thesis using assms False by (auto simp: endSpanEvent_def p)
  next
    case (Some ve)
    obtain v e where ve: "ve = (v, e)" by (cases ve)
    obtain se1 sp1 r1 g1 where s1: "ev_SetError A (Some e) [''panic''] se (sp\<lparr>eventStack := buf\<rparr>, r, gen) = (se1, sp1, r1, g1)"
      by (metis prod.collapse)
    obtain sp2 r2 g2 where s2: "SetError A (Some e) [] (sp1, r1, g1) = (sp2, r2, g2)" by (metis prod.collapse)
    have "sp' = finish_event now se1 (sp2\<lparr>recovered := True\<rparr>)"
      using assms False by (auto simp: endSpanEvent_def p Some ve s1 s2)
    then show ?thesis using view_ev_SetError [OF s1] view_SetError [OF s2] by simp
  qed
qed

lemma view_EndSpanEvent:
  assumes "EndSpanEvent A now pending (sp, r, gen) = ((sp', r', gen'), pan)"
  shows "request_view sp' = request_view sp"
proof -
  have "fst (endSpanEvent A now (None :: ('b \<times> 'a) option) (sp, r, gen)) = (sp', r', gen') \<Longrightarrow> request_view sp' = request_view sp"
    by (metis prod.collapse view_endSpanEvent)
  then show ?thesis
    using assms view_endSpanEvent [of A now pending sp r gen sp' r' gen' pan] by (auto simp: EndSpanEvent_def split: if_splits)
qed

text \<open>The record \<open>EndSpan\<close> queues for the URL statistics, and the annotations it seals.\<close>

lemma EndSpan_url:
  assumes "\<not> finished sp"
  shows "urlStatRecord (fst (EndSpan now acc r sp)) =
      (case urlStat sp of None \<Rightarrow> None | Some e \<Rightarrow> Some (e, now, max (now - startTime sp) 0, root_statusErr r OR root_err r))"
    and "annotations (snd (EndSpan now acc r sp)) = seal (annotations sp)" and "finished (snd (EndSpan now acc r sp))"
proof -
  let ?sp1 = "sp\<lparr>finished := True, elapsed := max (now - startTime sp) 0,
    eventDepth := eventDepth sp - stack_depths (eventStack sp), eventStack := []\<rparr>"
  have f: "fold appendEndedSpanEvent ses ?sp1 = ?sp1\<lparr>spanEvents := spanEvents sp @ ses\<rparr>" for ses
    using fold_append_finished [of ?sp1 ses] by simp
  show "urlStatRecord (fst (EndSpan now acc r sp)) =
      (case urlStat sp of None \<Rightarrow> None | Some e \<Rightarrow> Some (e, now, max (now - startTime sp) 0, root_statusErr r OR root_err r))"
    "annotations (snd (EndSpan now acc r sp)) = seal (annotations sp)" "finished (snd (EndSpan now acc r sp))"
    using assms f by (cases "urlStat sp"; simp add: EndSpan_def Let_def newEventChunk_def chunk_enqueue_def)+
qed

lemma append_grows: "\<exists>news. vals (annotation_append v a) = vals a @ news"
  by (simp add: annotation_append_def)

lemma fold_grows:
  assumes "\<And>x a. \<exists>news. vals (f x a) = vals a @ news"
  shows "\<exists>news. vals (fold f xs a) = vals a @ news"
proof (induction xs arbitrary: a)
  case (Cons x xs)
  obtain n1 n2 where "vals (f x a) = vals a @ n1" "vals (fold f xs (f x a)) = vals (f x a) @ n2" using assms Cons by metis
  then show ?case by simp
qed simp

lemma recordHeader_grows: "\<exists>news. vals (recordHeader r key h a) = vals a @ news"
proof (cases r)
  case allHttpHeaderRecorder
  then show ?thesis using append_grows by (auto simp: AppendStringString_def intro!: fold_grows split: prod.splits)
next
  case (defaultHttpHeaderRecorder names lookup)
  then show ?thesis using append_grows by (auto simp: AppendStringString_def Let_def intro!: fold_grows split: prod.splits)
qed simp

lemma one_or_nonzero: "(1 :: go_int32) OR x \<noteq> 0"
proof
  assume "1 OR x = 0"
  then have "bit (1 OR x) 0 = False" by simp
  then show False by (simp add: bit_simps)
qed

section \<open>The outcome of a traced request\<close>

lemma t_EndSpanEvent_sampled:
  assumes "ht_tracer q = SampledTracer sp st"
  obtains sp' where "ht_tracer (fst (t_EndSpanEvent A now pending q)) = SampledTracer sp' st" "request_view sp' = request_view sp"
    "ht_nested (fst (t_EndSpanEvent A now pending q)) = ht_nested q"
proof -
  obtain sp' r gen pan where e: "EndSpanEvent A now pending (sp, ht_root q, ht_gen q) = ((sp', r, gen), pan)" by (metis prod.collapse)
  show thesis by (rule that [of sp']) (use assms e view_EndSpanEvent [OF e] in \<open>simp_all add: t_EndSpanEvent_def\<close>)
qed

text \<open>What \<open>after\<close> leaves of an open sampled request: its URL, its failure mark and its status.\<close>

lemma after_sampled:
  assumes "ht_tracer q = SampledTracer sp st" "\<not> ht_nested q" "url_open (SampledTracer sp st)" "urlStatEnabled hc"
    "isError (srvStatus hc) status"
  obtains sp' where "ht_tracer (serve_after hc (Some url) m h status q) = SampledTracer sp' st" "\<not> finished sp'" "urlStat sp' \<noteq> None"
    "AInt AnnotationHttpStatusCode (word_of_int status) \<in> set (vals (annotations sp'))"
    "root_statusErr (ht_root (serve_after hc (Some url) m h status q)) = 1" "\<not> ht_nested (serve_after hc (Some url) m h status q)"
proof -
  define sp1 where "sp1 = sp\<lparr>urlStat := Some (mergeUrlStat (urlStat sp) \<lparr>Url = url, Method = m\<rparr>)\<rparr>"
  define an where "an = AppendInt AnnotationHttpStatusCode (word_of_int status) (annotations sp)"
  define sp2 where "sp2 = sp1\<lparr>annotations := recordHeader (srvResHeader hc) AnnotationHttpResponseHeader h an\<rparr>"
  define q1 where "q1 = q\<lparr>ht_tracer := SampledTracer sp1 st\<rparr>"
  have o: "\<not> finished sp" "\<not> sealed (annotations sp)" "cfg_collectUrlStat (cfg sp)"
    "marksError (errorMarkMask (cfg sp)) ErrorCategoryHttpStatus" using assms(3) by (simp_all add: url_open_def)
  have 1: "CollectUrlStat hc url m q = q1"
    using assms(1,4) o by (simp add: CollectUrlStat_def t_RecordUrlStat_def on_span_def RecordUrlStat_def unless_ended_def q1_def sp1_def)
  have 2: "serve_after hc (Some url) m h status q =
      q1\<lparr>ht_tracer := SampledTracer sp2 st, ht_root := SetFailure [ErrorCategoryHttpStatus] sp1 (ht_root q)\<rparr>"
    using assms o by (simp add: serve_after_def IsUrlStatEnabled_def 1 RecordHttpServerResponseWithReader_def recordServerHttpStatus_def
        t_SetFailure_def on_span_def annotate_def unless_ended_def q1_def IsSampled_def sp2_def an_def Let_def sp1_def)
  have 3: "root_statusErr (SetFailure [ErrorCategoryHttpStatus] sp1 (ht_root q)) = 1"
    using o by (simp add: SetFailure_def markSpanError_def firstErrorCategory_def sp1_def)
  have "AInt AnnotationHttpStatusCode (word_of_int status) \<in> set (vals an)"
    using o(2) by (simp add: an_def AppendInt_def annotation_append_def)
  then have 4: "AInt AnnotationHttpStatusCode (word_of_int status) \<in> set (vals (annotations sp2))"
    using recordHeader_grows [of "srvResHeader hc" AnnotationHttpResponseHeader h an] by (auto simp: sp2_def)
  show thesis by (rule that [of sp2]) (use o 3 4 assms(2) in \<open>simp_all add: 2 q1_def sp2_def sp1_def\<close>)
qed

lemma after_unsampled:
  assumes "ht_tracer q = UnsampledTracer np" "\<not> ht_nested q" "url_open (UnsampledTracer np)" "urlStatEnabled hc"
    "isError (srvStatus hc) status"
  obtains np' where "ht_tracer (serve_after hc (Some url) m h status q) = UnsampledTracer np'" "withStats np'" "np_urlStat np' \<noteq> None"
    "np_statusErr np' = 1" "\<not> ht_nested (serve_after hc (Some url) m h status q)"
  using assms
  by (simp add: serve_after_def IsUrlStatEnabled_def CollectUrlStat_def t_RecordUrlStat_def noop_RecordUrlStat_def url_open_def
      RecordHttpServerResponseWithReader_def IsSampled_def t_SetFailure_def noop_SetFailure_def firstErrorCategory_def)

section \<open>Properties\<close>

text \<open>
  (C15) A failed request counts as failed. When the handler returns a status the configuration calls an error, or panics while 500
  is one, the URL statistics record queued for the request carries a failure, whether or not the request is sampled; a
  sampled span ends with that status among its annotations; and a panic goes on unchanged. The handler may do anything
  but end the request's span; the statistics are on and the error mark covers HTTP statuses.
\<close>

theorem failed_requests_recorded:
  assumes "fn (t_NewSpanEvent A (tm_event tm) funcName q) = (out, q1)" "\<not> ht_nested q1" "url_open (ht_tracer q1)"
    and "urlStatEnabled hc" "isError (srvStatus hc) (case out of Inl _ \<Rightarrow> 500 | Inr st \<Rightarrow> st)"
  shows "case TraceSpan A c tm accepted funcName fn (serve_after hc (Some url) m h) q of (pan, record, q') \<Rightarrow>
    pan = (case out of Inl p \<Rightarrow> Some (fst p) | Inr _ \<Rightarrow> None) \<and>
    (\<exists>entry t el failed. record = Some (entry, t, el, failed) \<and> failed \<noteq> 0) \<and>
    ((\<exists>np. ht_tracer q1 = UnsampledTracer np) \<or>
     (\<exists>sp st. ht_tracer q' = SampledTracer sp st \<and> finished sp \<and>
        AInt AnnotationHttpStatusCode (word_of_int (case out of Inl _ \<Rightarrow> 500 | Inr st \<Rightarrow> st)) \<in> set (vals (annotations sp))))"
proof -
  define pending where "pending = (case out of Inl p \<Rightarrow> Some p | Inr st \<Rightarrow> None)"
  define status where "status = (case out of Inl _ \<Rightarrow> 500 | Inr st \<Rightarrow> st)"
  define q2 where "q2 = fst (t_EndSpanEvent A (tm_done tm) pending q1)"
  define q3 where "q3 = serve_after hc (Some url) m h status q2"
  have pan: "snd (t_EndSpanEvent A (tm_done tm) pending q1) = map_option fst pending" by (rule panic_reraised [symmetric])
  have "t_EndSpanEvent A (tm_done tm) pending q1 = (q2, map_option fst pending)" using pan by (simp add: q2_def prod_eq_iff)
  then have trace: "TraceSpan A c tm accepted funcName fn (serve_after hc (Some url) m h) q =
      (map_option fst pending, fst (t_EndSpan c (tm_start tm) (tm_end tm) accepted q3), snd (t_EndSpan c (tm_start tm) (tm_end tm) accepted q3))"
    by (cases out) (simp_all add: TraceSpan_def assms(1) pending_def status_def q3_def StatusInternalServerError_def split: prod.splits)
  have err: "isError (srvStatus hc) status" using assms(5) by (simp add: status_def)
  have reraise: "map_option fst pending = (case out of Inl p \<Rightarrow> Some (fst p) | Inr _ \<Rightarrow> None)" by (cases out) (simp_all add: pending_def)
  show ?thesis
  proof (cases "ht_tracer q1")
    case (SampledTracer sp st)
    obtain sp' where sp': "ht_tracer q2 = SampledTracer sp' st" "request_view sp' = request_view sp" "ht_nested q2 = ht_nested q1"
      using t_EndSpanEvent_sampled [OF SampledTracer] unfolding q2_def by metis
    then have "url_open (SampledTracer sp' st)" using assms(3) SampledTracer by (simp add: url_open_def request_view_def)
    then obtain sp3 where sp3: "ht_tracer q3 = SampledTracer sp3 st" "\<not> finished sp3" "urlStat sp3 \<noteq> None"
      "AInt AnnotationHttpStatusCode (word_of_int status) \<in> set (vals (annotations sp3))" "root_statusErr (ht_root q3) = 1" "\<not> ht_nested q3"
      using after_sampled [OF sp'(1) _ _ assms(4) err] assms(2) sp'(3) unfolding q3_def by metis
    obtain res sp4 where e: "EndSpan (tm_end tm) accepted (ht_root q3) sp3 = (res, sp4)" by (cases "EndSpan (tm_end tm) accepted (ht_root q3) sp3")
    note u = EndSpan_url [OF sp3(2), of "tm_end tm" accepted "ht_root q3", unfolded e fst_conv snd_conv]
    show ?thesis
      using u sp3 one_or_nonzero [of "root_err (ht_root q3)"] reraise
      by (auto simp: trace t_EndSpan_def e status_def [symmetric] seal_def)
  next
    case (UnsampledTracer np)
    then have q2: "q2 = q1" by (simp add: q2_def t_EndSpanEvent_def)
    obtain np' where np': "ht_tracer q3 = UnsampledTracer np'" "withStats np'" "np_urlStat np' \<noteq> None" "np_statusErr np' = 1" "\<not> ht_nested q3"
      using after_unsampled [OF UnsampledTracer assms(2) _ assms(4) err] assms(3) UnsampledTracer unfolding q3_def q2 by metis
    then show ?thesis using UnsampledTracer reraise by (auto simp: trace t_EndSpan_def noop_EndSpan_def Let_def)
  qed (use assms(3) in \<open>simp add: url_open_def\<close>)
qed

lemma view_NewSpanEvent: "request_view (NewSpanEvent A now op sp) = request_view sp"
  by (simp add: NewSpanEvent_def request_view_def reserveEventPosition_def releaseEventPosition_def Let_def)

definition sampled_request :: "nat http_trace" where
  "sampled_request = \<lparr>ht_tracer = SampledTracer (newSampledSpan plain_agent (small_config\<lparr>cfg_collectUrlStat := True\<rparr>) 0 ''op'' ''/'') (newRequestStats 0),
     ht_nested = False, ht_root = zero_root, ht_gen = 0, ht_agent = idle_agent\<rparr>"

definition url_stat_config :: httpConfig where
  "url_stat_config = (newHttpConfigFor plain_env (\<lambda>_. VNil))\<lparr>srvStatus := {500}, urlStatEnabled := True\<rparr>"

theorem failed_requests_recorded_witness:
  "case TraceSpan plain_agent some_call \<lparr>tm_start = 0, tm_event = 1, tm_done = 2, tm_end = 3\<rparr> True ''f()'' (\<lambda>q. (Inl (''boom'', 0 :: nat), q))
     (serve_after url_stat_config (Some ''/a'') ''GET'' (header_of Map.empty [])) sampled_request of (pan, record, q') \<Rightarrow>
   pan = Some ''boom'' \<and> (\<exists>entry t el failed. record = Some (entry, t, el, failed) \<and> failed \<noteq> 0)"
proof -
  let ?tm = "\<lparr>tm_start = 0, tm_event = 1, tm_done = 2, tm_end = 3\<rparr>"
  let ?fn = "\<lambda>q. (Inl (''boom'', 0 :: nat) :: string \<times> nat + int, q)"
  let ?q = "t_NewSpanEvent plain_agent 1 ''f()'' sampled_request"
  obtain sp st where q: "ht_tracer ?q = SampledTracer sp st" "\<not> ht_nested ?q"
    "request_view sp = request_view (newSampledSpan plain_agent (small_config\<lparr>cfg_collectUrlStat := True\<rparr>) 0 ''op'' ''/'' :: nat span)"
    by (simp add: t_NewSpanEvent_def on_span_def sampled_request_def view_NewSpanEvent)
  then have "url_open (ht_tracer ?q)"
    by (simp add: url_open_def request_view_def newSampledSpan_def defaultSpan_def new_annotation_def small_config_def marksError_def
        allErrorCategories_def category_defs)
  moreover have "?fn (t_NewSpanEvent plain_agent (tm_event ?tm) ''f()'' sampled_request) = (Inl (''boom'', 0), ?q)" by simp
  moreover have "urlStatEnabled url_stat_config" "isError (srvStatus url_stat_config) (case (Inl (''boom'', 0 :: nat) :: string \<times> nat + int) of Inl _ \<Rightarrow> 500 | Inr st \<Rightarrow> st)"
    by (simp_all add: url_stat_config_def isError_def)
  ultimately show ?thesis
    using failed_requests_recorded [where fn = ?fn and A = plain_agent and tm = ?tm and funcName = "''f()''" and q = sampled_request
      and out = "Inl (''boom'', 0)" and ?q1.0 = ?q and hc = url_stat_config and c = some_call and accepted = True
      and url = "''/a''" and m = "''GET''" and h = "header_of Map.empty []"] q(2)
    by (auto split: prod.splits)
qed

end
