(* ===== verification/Http_Client.thy ===== *)
theory Http_Client
  imports Http_Server Trace_Propagation
begin

text \<open>
  The trace around an HTTP client call (\<^verbatim>\<open>src/plugin/http/client.go\<close>): \<open>NewHttpClientTracer\<close>, \<open>EndHttpClientTracer\<close>, \<open>DoClient\<close> and the round
  tripper, with the decisions of \<^verbatim>\<open>src/tracer.go\<close> on a request that already carries a trace context: its own layer's travels
  alone, another span's is replaced. The rendering of a URL by \<^verbatim>\<open>net/url\<close> is an argument.
\<close>

section \<open>Contexts already present (tracer.go)\<close>

definition IsInjectedBy :: "'e http_trace \<Rightarrow> reader \<Rightarrow> bool" where
  "IsInjectedBy q Get =
     (case ht_tracer q of
        SampledTracer sp _ \<Rightarrow> (case Get HeaderParentSpanId of Some v \<Rightarrow> v = FormatInt64 (spanId sp) | None \<Rightarrow> False)
      | UnsampledTracer np \<Rightarrow> if \<not> unsampled np then True else Get HeaderTraceId = None
      | NoopTracer \<Rightarrow> True)"

definition IsInjectedHeader :: "string \<Rightarrow> bool" where
  "IsInjectedHeader key = list_ex (\<lambda>h. EqualFold key h) injectedHeaders"

definition clear_injected :: "http_header \<Rightarrow> http_header" where
  "clear_injected m = (\<lambda>k. if IsInjectedHeader k then None else m k)"

text \<open>Outgoing gRPC metadata, its keys in lower case; \<open>None\<close> when the context carries none.\<close>

definition loweredHeaderKeys :: "string \<rightharpoonup> string" where
  "loweredHeaderKeys = map_of (map (\<lambda>k. (k, ToLower k)) injectedHeaders)"

definition outgoingMetadataReader_Get :: "(string \<rightharpoonup> string list) \<Rightarrow> reader" where
  "outgoingMetadataReader_Get md key =
     (case md (case loweredHeaderKeys key of Some l \<Rightarrow> l | None \<Rightarrow> ToLower key) of Some (v # vs) \<Rightarrow> Some v | _ \<Rightarrow> None)"

definition OutgoingGrpcContext ::
  "(string \<rightharpoonup> string list) option \<Rightarrow> 'e http_trace \<Rightarrow> (string \<rightharpoonup> string list) option \<times> bool" where
  "OutgoingGrpcContext ctx q =
     (case ctx of None \<Rightarrow> (ctx, False)
      | Some md \<Rightarrow>
          let r = outgoingMetadataReader_Get md
          in if \<not> IsInjected r then (ctx, False)
             else if IsInjectedBy q r then (ctx, True)
             else (Some (clear_injected md), False))"

section \<open>The client call\<close>

record 'u client_url =
  cu_Host :: string
  cu_RawQuery :: string
  cu_ForceQuery :: bool
  cu_rest :: 'u

record 'u client_request =
  cr_Method :: string
  cr_Host :: string
  cr_URL :: "'u client_url option"
  cr_Header :: "http_header option"
  cr_order :: "string list"
  cr_Cookies :: cookies

definition ServiceTypeGoHttpClient :: go_int32 where "ServiceTypeGoHttpClient = 9401"

definition clientUrl :: "httpConfig \<Rightarrow> ('u client_url \<Rightarrow> string) \<Rightarrow> string \<Rightarrow> 'u client_url option \<Rightarrow> string" where
  "clientUrl hc redacted method u =
     (case u of None \<Rightarrow> method
      | Some u \<Rightarrow>
          let u = (if \<not> cltUrlQuery hc \<and> (cu_RawQuery u \<noteq> [] \<or> cu_ForceQuery u) then u\<lparr>cu_RawQuery := [], cu_ForceQuery := False\<rparr> else u)
          in method @ '' '' @ redacted u)"

definition header_map_of :: "'u client_request \<Rightarrow> http_header" where
  "header_map_of req = (case cr_Header req of Some m \<Rightarrow> m | None \<Rightarrow> Map.empty)"

definition t_Inject :: "'e agent_env \<Rightarrow> go_int64 \<Rightarrow> 'e http_trace \<Rightarrow> (string \<times> string) list \<times> 'e http_trace" where
  "t_Inject A nid q =
     (case ht_tracer q of
        SampledTracer sp st \<Rightarrow> (let (kvs, sp) = Inject A nid sp in (kvs, q\<lparr>ht_tracer := SampledTracer sp st\<rparr>))
      | UnsampledTracer np \<Rightarrow> (noop_Inject np, q)
      | NoopTracer \<Rightarrow> ([], q))"

text \<open>The recorders write the map as it is after another span's context was cleared.\<close>

definition client_event :: "httpConfig \<Rightarrow> ('u client_url \<Rightarrow> string) \<Rightarrow> 'u client_request \<Rightarrow> 'e span \<Rightarrow> 'e span" where
  "client_event hc redacted req sp =
     (let host = (if cr_Host req = [] then (case cr_URL req of Some u \<Rightarrow> cu_Host u | None \<Rightarrow> cr_Host req) else cr_Host req);
          h = header_of (header_map_of req) (cr_order req);
          sp = on_top (ev_SetEndPoint host) sp;
          sp = SpanEvent_SetDestination host sp;
          sp = on_top (ev_SetServiceType ServiceTypeGoHttpClient) sp;
          sp = on_top (ev_annotate (AppendString AnnotationHttpUrl (clientUrl hc redacted (cr_Method req) (cr_URL req)))) sp;
          sp = on_top (ev_annotate (recordHeader (cltReqHeader hc) AnnotationHttpRequestHeader h)) sp
      in on_top (ev_annotate (recordCookie (cltCookie hc) (cr_Cookies req))) sp)"

text \<open>\<open>False\<close>: the noop tracer is returned, and nothing is recorded or ended for this layer.\<close>

definition NewHttpClientTracer ::
  "'e agent_env \<Rightarrow> httpConfig \<Rightarrow> ('u client_url \<Rightarrow> string) \<Rightarrow> int \<Rightarrow> go_int64 \<Rightarrow> string \<Rightarrow> 'u client_request \<Rightarrow> 'e http_trace
     \<Rightarrow> bool \<times> 'u client_request \<times> 'e http_trace" where
  "NewHttpClientTracer A hc redacted now nid opName req q =
     (let Get = httpHeaderReader_Get (header_map_of req)
      in if IsInjected Get \<and> IsInjectedBy q Get then (False, req, q)
         else
           let req = (if IsInjected Get then req\<lparr>cr_Header := map_option clear_injected (cr_Header req), cr_order := filter (\<lambda>k. \<not> IsInjectedHeader k) (cr_order req)\<rparr>
                      else req);
               q = on_span (client_event hc redacted req) (t_NewSpanEvent A now opName q)
           in case cr_Header req of None \<Rightarrow> (True, req, q)
              | Some m \<Rightarrow>
                  (let (kvs, q) = t_Inject A nid q;
                       w = fold (\<lambda>(k, v). httpHeaderWriter_Set k v) kvs (HttpHeaderWriter (Some m))
                   in (True, req\<lparr>cr_Header := header_map w\<rparr>, q)))"

text \<open>The response as far as it is recorded: its status and headers. It runs to its end even while the call's
  panic unwinds, so its deferred \<open>EndSpanEvent\<close> recovers nothing.\<close>

definition EndHttpClientTracer ::
  "'e agent_env \<Rightarrow> httpConfig \<Rightarrow> int \<Rightarrow> (int \<times> header) option \<Rightarrow> 'e option \<Rightarrow> 'e http_trace \<Rightarrow> 'e http_trace" where
  "EndHttpClientTracer A hc now resp err_opt q =
     (case ht_tracer q of
        SampledTracer sp st \<Rightarrow>
          (let (sp, r, gen) = SpanEvent_SetError A err_opt [] (sp, ht_root q, ht_gen q);
               sp = (case resp of None \<Rightarrow> sp
                     | Some (status, h) \<Rightarrow>
                         on_top (ev_annotate (recordHeader (cltResHeader hc) AnnotationHttpResponseHeader h))
                           (on_top (ev_annotate (AppendInt AnnotationHttpStatusCode (word_of_int status))) sp))
           in fst (t_EndSpanEvent A now (None :: ('e \<times> 'e) option) (q\<lparr>ht_tracer := SampledTracer sp st, ht_root := r, ht_gen := gen\<rparr>)))
      | _ \<Rightarrow> q)"

definition withOwnHeader :: "'u client_request \<Rightarrow> 'u client_request" where
  "withOwnHeader req = req\<lparr>cr_Header := Some (header_map_of req)\<rparr>"

text \<open>
  The answer of the wrapped call: a response, an error, both or neither, or a panic. \<open>call_do\<close> is what \<open>DoClient\<close> and
  \<open>RoundTrip\<close> share after their choice of a tracer.
\<close>

type_synonym ('e, 'p) answer = "'p + ((int \<times> header) option \<times> 'e option)"

definition call_do ::
  "'e agent_env \<Rightarrow> httpConfig \<Rightarrow> ('u client_url \<Rightarrow> string) \<Rightarrow> int \<Rightarrow> int \<Rightarrow> go_int64 \<Rightarrow> ('u client_request \<Rightarrow> ('e, 'p) answer)
     \<Rightarrow> 'u client_request \<Rightarrow> 'e http_trace \<Rightarrow> ('e, 'p) answer \<times> 'u client_request \<times> 'e http_trace" where
  "call_do A hc redacted t0 t1 nid call req q =
     (let (active, req, q) = NewHttpClientTracer A hc redacted t0 nid ''http/Client.Do()'' (withOwnHeader req) q;
          ans = call req;
          (resp, err_opt) = (case ans of Inl _ \<Rightarrow> (None, None) | Inr r \<Rightarrow> r)
      in (ans, req, if active then EndHttpClientTracer A hc t1 resp err_opt q else q))"

definition DoClient ::
  "'e agent_env \<Rightarrow> httpConfig \<Rightarrow> ('u client_url \<Rightarrow> string) \<Rightarrow> int \<Rightarrow> int \<Rightarrow> go_int64 \<Rightarrow> bool \<Rightarrow> ('u client_request \<Rightarrow> ('e, 'p) answer)
     \<Rightarrow> 'u client_request \<Rightarrow> 'e http_trace \<Rightarrow> ('e, 'p) answer \<times> 'u client_request \<times> 'e http_trace" where
  "DoClient A hc redacted t0 t1 nid enabled call req q =
     (if \<not> enabled then (call req, req, q) else call_do A hc redacted t0 t1 nid call req q)"

text \<open>The request's own tracer goes before the one the client was built with (\<open>ctx\<close>).\<close>

definition RoundTrip ::
  "'e agent_env \<Rightarrow> httpConfig \<Rightarrow> ('u client_url \<Rightarrow> string) \<Rightarrow> int \<Rightarrow> int \<Rightarrow> go_int64 \<Rightarrow> bool \<Rightarrow> ('u client_request \<Rightarrow> ('e, 'p) answer)
     \<Rightarrow> 'e http_trace option \<Rightarrow> 'u client_request \<Rightarrow> 'e http_trace \<Rightarrow> ('e, 'p) answer \<times> 'u client_request \<times> 'e http_trace" where
  "RoundTrip A hc redacted t0 t1 nid enabled call ctx req q =
     (if \<not> enabled then (call req, req, q)
      else call_do A hc redacted t0 t1 nid call req
             (case ctx of Some q' \<Rightarrow> (case ht_tracer q of NoopTracer \<Rightarrow> q' | _ \<Rightarrow> q) | None \<Rightarrow> q))"

section \<open>Lemmas\<close>

abbreviation ascii :: "string \<Rightarrow> bool" where
  "ascii \<equiv> list_all (\<lambda>c. byte_of c < 128)"

lemma folds_ascii: "ascii s \<Longrightarrow> FoldCase s = map to_lower s" "ascii s \<Longrightarrow> ToLower s = map to_lower s"
proof (induction s)
  case (Cons c cs)
  { case 1 with Cons show ?case by (subst FoldCase.simps) (auto split: if_splits) }
  { case 2 with Cons show ?case by (subst ToLower.simps) (auto split: if_splits) }
qed (subst FoldCase.simps ToLower.simps, simp)+

lemma injected_ascii: "k \<in> set injectedHeaders \<Longrightarrow> ascii k"
proof -
  have "list_all ascii injectedHeaders" by code_simp
  then show "k \<in> set injectedHeaders \<Longrightarrow> ascii k" by (simp add: list_all_iff)
qed

lemma IsInjectedHeader_ascii: "ascii key \<Longrightarrow> IsInjectedHeader key \<longleftrightarrow> map to_lower key \<in> map to_lower ` set injectedHeaders"
  by (auto simp: IsInjectedHeader_def list_ex_iff EqualFold_def folds_ascii injected_ascii image_iff)

lemma letter_cases:
  "to_lower (raise_letter c) = to_lower c" "to_lower (lower_letter c) = to_lower c" "to_lower (to_lower c) = to_lower c"
  "byte_of (raise_letter c) < 128 \<longleftrightarrow> byte_of c < (128 :: nat)" "byte_of (lower_letter c) < 128 \<longleftrightarrow> byte_of c < (128 :: nat)"
  "byte_of (to_lower c) < 128 \<longleftrightarrow> byte_of c < (128 :: nat)"
  by (auto simp: to_lower_def raise_letter_def lower_letter_def)

lemma canonical_letters_cases: "map to_lower (canonical_letters u s) = map to_lower s" "ascii (canonical_letters u s) \<longleftrightarrow> ascii s"
  by (induction u s rule: canonical_letters.induct) (simp_all add: Let_def letter_cases)

lemma injected_is_cleared:
  assumes "k \<in> set injectedHeaders"
  shows "IsInjectedHeader (canonicalHeaderKey k)" "IsInjectedHeader (ToLower k)"
proof -
  have "ascii (CanonicalMIMEHeaderKey k)" "map to_lower (CanonicalMIMEHeaderKey k) = map to_lower k"
    using injected_ascii [OF assms] by (simp_all add: CanonicalMIMEHeaderKey_def canonical_letters_cases)
  then show "IsInjectedHeader (canonicalHeaderKey k)" using assms by (simp add: canonicalHeaderKey_eq IsInjectedHeader_ascii)
  have "ascii (map to_lower k)" "map to_lower (map to_lower k) = map to_lower k"
    using injected_ascii [OF assms] by (simp_all add: list_all_iff letter_cases)
  then show "IsInjectedHeader (ToLower k)"
    using assms injected_ascii [OF assms] by (simp only: folds_ascii IsInjectedHeader_ascii image_eqI)
qed

lemma cleared_http: "k \<in> set injectedHeaders \<Longrightarrow> httpHeaderReader_Get (clear_injected m) k = None"
  using injected_is_cleared by (simp add: httpHeaderReader_Get_def clear_injected_def)

text \<open>The fields of a span that its injected headers are made of; opening and describing an event leaves them alone.\<close>

definition ids_view :: "'e span \<Rightarrow> bool \<times> TransactionId \<times> go_int64 \<times> string \<times> string" where
  "ids_view sp = (finished sp, sp_txId sp, spanId sp, txIdStr sp, spanIdStr sp)"

lemma ids_view_client:
  "ids_view (on_top f sp) = ids_view sp" "ids_view (NewSpanEvent A now op sp) = ids_view sp"
  "ids_view (SpanEvent_SetDestination dest sp) = ids_view sp"
  by (simp_all add: ids_view_def on_top_def NewSpanEvent_def SpanEvent_SetDestination_def reserveEventPosition_def
      releaseEventPosition_def Let_def)

lemma ids_view_event: "ids_view (client_event hc redacted req sp) = ids_view sp"
  by (simp add: client_event_def Let_def ids_view_client)

lemma put_all_frame:
  "k \<notin> canonicalHeaderKey ` fst ` set kvs \<Longrightarrow>
   map_option (\<lambda>m. m k) (header_map (http.put_all kvs w)) = map_option (\<lambda>m. m k) (header_map w)"
proof (induction kvs arbitrary: w)
  case (Cons kv kvs)
  then have "map_option (\<lambda>m. m k) (header_map (http.put_all kvs (httpHeaderWriter_Set (fst kv) (snd kv) w))) =
      map_option (\<lambda>m. m k) (header_map (httpHeaderWriter_Set (fst kv) (snd kv) w))" by simp
  with Cons.prems show ?case
    by (simp add: http.put_all_def case_prod_beta httpHeaderWriter_Set_h option.map_comp comp_def)
qed (simp add: http.put_all_def)

lemma Inject_spanId: "spanId (snd (Inject A nid sp)) = spanId sp"
  by (simp add: Inject_def on_top_def Let_def split: option.splits)

text \<open>What is injected replaces the cleared context and nothing else.\<close>

lemma injected_into:
  fixes A :: "'e agent_env" and nid :: go_int64
  assumes "\<not> finished sp" "ids_cached sp" "\<forall>k \<in> set injectedHeaders. httpHeaderReader_Get m k = None"
  defines "w \<equiv> http.put_all (fst (Inject A nid sp)) (HttpHeaderWriter (Some m))"
  obtains m' where "header_map w = Some m'" "httpHeaderReader_Get m' HeaderTraceId = Some (TransactionId_String (sp_txId sp))"
    "httpHeaderReader_Get m' HeaderSpanId = Some (FormatInt64 nid)" "httpHeaderReader_Get m' HeaderParentSpanId = Some (FormatInt64 (spanId sp))"
    "httpHeaderReader_Get m' HeaderSampled = None" "\<And>k. \<not> IsInjectedHeader k \<Longrightarrow> m' k = m k"
proof -
  have w0: "header_map (HttpHeaderWriter (Some m)) = Some m" by (simp add: HttpHeaderWriter_def)
  then have "header_map w \<noteq> None" unfolding w_def using http.ok_put_all by simp
  then obtain m' where m': "header_map w = Some m'" by blast
  have look: "http_look w k = httpHeaderReader_Get m' k" for k by (simp add: http_look_def m')
  have "header_map (HttpHeaderWriter (Some m)) \<noteq> None" "\<forall>k \<in> set injectedHeaders. http_look (HttpHeaderWriter (Some m)) k = None"
    using assms(3) by (simp_all add: w0 http_look_def)
  note L = injected_lookup [OF assms(1,2) this, of A nid, folded w_def, unfolded look]
  have keep: "m' k = m k" if "\<not> IsInjectedHeader k" for k
  proof -
    have "k \<notin> canonicalHeaderKey ` fst ` set (fst (Inject A nid sp))"
      using that injected_is_cleared(1) injected_keys [OF assms(1,2), of A nid] by blast
    from put_all_frame [OF this, of "HttpHeaderWriter (Some m)"] show ?thesis using w0 m' by (simp add: w_def)
  qed
  show thesis by (rule that [OF m' L(1,2,3,9) keep])
qed

section \<open>Properties\<close>

text \<open>
  (C16) One context travels, and it is the caller's. A client call made on an open span sends headers from which the callee
  reads this span's transaction, this span as its parent and the span id drawn for it - also when the request carried
  another span's context, as a proxy's does: no header of that one is left. Every header that is not the agent's is sent as
  it was. A second instrumented layer around the same request finds that context and neither records nor writes anything.
  The request carries another span's context or no Pinpoint header.
\<close>

theorem client_context_travels_once:
  assumes "ht_tracer q = SampledTracer sp st" "\<not> finished sp" "ids_cached sp" "cr_Header req = Some m"
    and "if IsInjected (httpHeaderReader_Get m) then httpHeaderReader_Get m HeaderParentSpanId \<noteq> Some (FormatInt64 (spanId sp))
         else \<forall>k \<in> set injectedHeaders. httpHeaderReader_Get m k = None"
  shows "case NewHttpClientTracer A hc redacted now nid opName req q of (active, req', q') \<Rightarrow>
    \<exists>m'. active \<and> cr_Header req' = Some m' \<and> httpHeaderReader_Get m' HeaderTraceId = Some (TransactionId_String (sp_txId sp))
      \<and> httpHeaderReader_Get m' HeaderParentSpanId = Some (FormatInt64 (spanId sp))
      \<and> httpHeaderReader_Get m' HeaderSpanId = Some (FormatInt64 nid) \<and> httpHeaderReader_Get m' HeaderSampled = None
      \<and> (\<forall>k. \<not> IsInjectedHeader k \<longrightarrow> m' k = m k)
      \<and> (\<forall>now2 nid2 opName2. NewHttpClientTracer A hc redacted now2 nid2 opName2 req' q' = (False, req', q'))"
proof -
  define req1 where "req1 = (if IsInjected (httpHeaderReader_Get m)
    then req\<lparr>cr_Header := map_option clear_injected (cr_Header req), cr_order := filter (\<lambda>k. \<not> IsInjectedHeader k) (cr_order req)\<rparr> else req)"
  define m1 where "m1 = (if IsInjected (httpHeaderReader_Get m) then clear_injected m else m)"
  define sp1 where "sp1 = client_event hc redacted req1 (NewSpanEvent A now opName sp)"
  define sp2 where "sp2 = snd (Inject A nid sp1)"
  have m1: "\<forall>k \<in> set injectedHeaders. httpHeaderReader_Get m1 k = None" "cr_Header req1 = Some m1"
    using assms(4,5) cleared_http by (auto simp: m1_def req1_def)
  have "ids_view sp1 = ids_view sp" by (simp add: sp1_def ids_view_event ids_view_client)
  then have v: "finished sp1 = finished sp" "sp_txId sp1 = sp_txId sp" "spanId sp1 = spanId sp" "ids_cached sp1 = ids_cached sp"
    by (simp_all add: ids_view_def ids_cached_def)
  obtain m' where m': "header_map (http.put_all (fst (Inject A nid sp1)) (HttpHeaderWriter (Some m1))) = Some m'"
    "httpHeaderReader_Get m' HeaderTraceId = Some (TransactionId_String (sp_txId sp))" "httpHeaderReader_Get m' HeaderSpanId = Some (FormatInt64 nid)"
    "httpHeaderReader_Get m' HeaderParentSpanId = Some (FormatInt64 (spanId sp))" "httpHeaderReader_Get m' HeaderSampled = None"
    "\<And>k. \<not> IsInjectedHeader k \<Longrightarrow> m' k = m1 k"
    using injected_into [of sp1 m1 A nid] m1(1) assms(2,3) v by metis
  let ?q = "q\<lparr>ht_tracer := SampledTracer sp2 st\<rparr>"
  let ?req = "req1\<lparr>cr_Header := Some m'\<rparr>"
  have own: "\<not> (IsInjected (httpHeaderReader_Get m) \<and> IsInjectedBy q (httpHeaderReader_Get m))"
    using assms(1,5) by (auto simp: IsInjectedBy_def split: option.splits)
  have step: "NewHttpClientTracer A hc redacted now nid opName req q = (True, ?req, ?q)"
    using own assms(1,4) m1(2) m'(1)
    by (simp add: NewHttpClientTracer_def header_map_of_def Let_def req1_def [symmetric] t_NewSpanEvent_def on_span_def t_Inject_def
        sp1_def [symmetric] sp2_def http.put_all_def case_prod_beta)
  have "IsInjected (httpHeaderReader_Get m')" using m'(2) by (simp add: IsInjected_def)
  moreover have "IsInjectedBy ?q (httpHeaderReader_Get m')" using m'(4) v(3) by (simp add: IsInjectedBy_def sp2_def Inject_spanId)
  ultimately have "NewHttpClientTracer A hc redacted now2 nid2 opName2 ?req ?q = (False, ?req, ?q)" for now2 nid2 opName2
    by (simp add: NewHttpClientTracer_def header_map_of_def Let_def)
  moreover have "m' k = m k" if "\<not> IsInjectedHeader k" for k using m'(6) [OF that] that by (simp add: m1_def clear_injected_def)
  ultimately show ?thesis using m' by (auto simp: step)
qed

text \<open>A proxy that forwards the headers its caller sent.\<close>

definition proxied_request :: "unit client_request" where
  "proxied_request = \<lparr>cr_Method = ''GET'', cr_Host = ''api'', cr_URL = None,
     cr_Header = Some [canonicalHeaderKey HeaderTraceId \<mapsto> [''b^1^2''], canonicalHeaderKey HeaderParentSpanId \<mapsto> [''5''], ''Accept'' \<mapsto> [''*/*'']],
     cr_order = [''Accept''], cr_Cookies = []\<rparr>"

definition calling_trace :: "nat http_trace" where
  "calling_trace = \<lparr>ht_tracer = SampledTracer calling_span (newRequestStats 0), ht_nested = False, ht_root = zero_root, ht_gen = 0,
     ht_agent = idle_agent\<rparr>"

theorem client_context_travels_once_witness:
  "case NewHttpClientTracer plain_agent url_stat_config (\<lambda>_. []) 5 99 ''get'' proxied_request calling_trace of (active, req', q') \<Rightarrow>
    \<exists>m'. active \<and> cr_Header req' = Some m' \<and> httpHeaderReader_Get m' HeaderTraceId = Some (TransactionId_String (sp_txId calling_span))
      \<and> httpHeaderReader_Get m' HeaderSpanId = Some ''99'' \<and> m' ''Accept'' = Some [''*/*'']"
proof -
  define m :: http_header where
    "m = [canonicalHeaderKey HeaderTraceId \<mapsto> [''b^1^2''], canonicalHeaderKey HeaderParentSpanId \<mapsto> [''5''], ''Accept'' \<mapsto> [''*/*'']]"
  have sel: "\<not> finished calling_span" "ids_cached calling_span" "cr_Header proxied_request = Some m"
    by (simp_all add: calling_span_def newSampledSpan_def defaultSpan_def ids_cached_def proxied_request_def m_def)
  have accept: "\<not> IsInjectedHeader ''Accept''"
    by (subst IsInjectedHeader_ascii) (simp_all add: injectedHeaders_def header_defs to_lower_def)
  have keys: "HeaderTraceId \<in> set injectedHeaders" "HeaderParentSpanId \<in> set injectedHeaders" "HeaderTraceId \<noteq> HeaderParentSpanId"
    by (simp_all add: injectedHeaders_def header_defs)
  have "canonicalHeaderKey k \<noteq> ''Accept''" if "k \<in> set injectedHeaders" for k using accept injected_is_cleared(1) [OF that] by auto
  then have m: "httpHeaderReader_Get m HeaderTraceId = Some ''b^1^2''" "httpHeaderReader_Get m HeaderParentSpanId = Some ''5''"
    using keys by (simp_all add: m_def httpHeaderReader_Get_def canonical_header_inj)
  have own_id: "spanId calling_span = - 77" by (simp add: calling_span_def)
  have ids: "FormatInt64 (spanId calling_span) = ''-77''"
    "FormatInt64 99 = ''99''"
    unfolding own_id by code_simp+
  have c: "IsInjected (httpHeaderReader_Get m)" "httpHeaderReader_Get m HeaderParentSpanId \<noteq> Some (FormatInt64 (spanId calling_span))"
    "m ''Accept'' = Some [''*/*'']"
    using m by (simp_all add: IsInjected_def ids m_def)
  have t: "ht_tracer calling_trace = SampledTracer calling_span (newRequestStats 0)" by (simp add: calling_trace_def)
  have "if IsInjected (httpHeaderReader_Get m) then httpHeaderReader_Get m HeaderParentSpanId \<noteq> Some (FormatInt64 (spanId calling_span))
         else \<forall>k \<in> set injectedHeaders. httpHeaderReader_Get m k = None"
    using c(1,2) by simp
  note sent = client_context_travels_once [where A = plain_agent and hc = url_stat_config and redacted = "\<lambda>_. []" and now = 5 and nid = 99
      and opName = "''get''", OF t sel this]
  obtain active req' q' where run: "NewHttpClientTracer plain_agent url_stat_config (\<lambda>_. []) 5 99 ''get'' proxied_request calling_trace = (active, req', q')"
    by (rule prod_cases3)
  from sent [unfolded run prod.case] obtain m' where "active" "cr_Header req' = Some m'"
    "httpHeaderReader_Get m' HeaderTraceId = Some (TransactionId_String (sp_txId calling_span))"
    "httpHeaderReader_Get m' HeaderSpanId = Some (FormatInt64 99)" "\<forall>k. \<not> IsInjectedHeader k \<longrightarrow> m' k = m k"
    by (elim exE conjE)
  then show ?thesis unfolding run prod.case using accept c(3) ids(2) by (intro exI [of _ m'] conjI) simp_all
qed

end
