(* ===== verification/Sql_Driver.thy ===== *)
theory Sql_Driver
  imports Http_Server Sql_Metadata
begin

text \<open>
  The instrumented SQL driver (\<^verbatim>\<open>src/sql_driver.go\<close>): connections, statements and transactions wrapped so that every call on the
  driver becomes a span event. A driver is a record of functions over a world, the optional interfaces of
  \<^verbatim>\<open>database/sql/driver\<close> are options, and an instrumented one lives in the world paired with the trace. Against it stands how
  \<^verbatim>\<open>database/sql\<close> uses a connection (\<open>db_exec\<close> and its companions), the conversion of the arguments included: for arguments that are driver
  values already an application cannot tell the two apart; for other types it can, which is shown as well.
\<close>

section \<open>Drivers\<close>

text \<open>
  The errors the wrapper or \<^verbatim>\<open>database/sql\<close> looks at or makes itself. A reply is an error or a result: \<^verbatim>\<open>database/sql\<close> reads the result of a
  call only when its error is nil. A context is asked for its error in the world, since it may end during a call.
\<close>

datatype 'e db_error =
    ErrSkip | ErrNamedParameters | ErrIsolation | ErrReadOnly | ErrNonSubset | ErrUnsupported
  | ErrConvert int "'e db_error" | ErrArgCount int nat | DbError 'e

record 'v named_value =
  nv_Name :: string
  nv_Ordinal :: int
  nv_Value :: 'v

type_synonym ('r, 'e) reply = "'e db_error + 'r"
type_synonym ('v, 'e) converter = "'v \<Rightarrow> ('v, 'e) reply"

text \<open>
  What a checker does with an argument: it accepts it, converted or not, skips it (\<^verbatim>\<open>driver.ErrSkip\<close>), removes it (\<^verbatim>\<open>driver.ErrRemoveArgument\<close>) or refuses it. One that
  skips has left the argument as it was.
\<close>

datatype ('v, 'e) check_answer = CheckOk "'v named_value" | CheckSkip | CheckRemove | CheckError "'e db_error"

type_synonym ('v, 'e) checker = "'v named_value \<Rightarrow> ('v, 'e) check_answer"

text \<open>
  What \<^verbatim>\<open>database/sql/driver\<close> knows of values: the default conversion, which of them are driver values already, and the result of \<^verbatim>\<open>Value\<close> for one
  that is a \<^verbatim>\<open>driver.Valuer\<close>.
\<close>

record ('v, 'e) converting =
  DefaultParameterConverter :: "('v, 'e) converter"
  IsValue :: "'v \<Rightarrow> bool"
  callValuer :: "'v \<Rightarrow> ('v, 'e) reply option"

record ('c, 's, 'v, 'r, 'e) stmt =
  st_ExecContext :: "('c \<Rightarrow> 'v named_value list \<Rightarrow> 's \<Rightarrow> ('r, 'e) reply \<times> 's) option"
  st_Exec :: "'v list \<Rightarrow> 's \<Rightarrow> ('r, 'e) reply \<times> 's"
  st_QueryContext :: "('c \<Rightarrow> 'v named_value list \<Rightarrow> 's \<Rightarrow> ('r, 'e) reply \<times> 's) option"
  st_Query :: "'v list \<Rightarrow> 's \<Rightarrow> ('r, 'e) reply \<times> 's"
  st_Close :: "'s \<Rightarrow> 's"
  st_NumInput :: int
  st_CheckNamedValue :: "('v, 'e) checker option"
  st_ColumnConverter :: "(nat \<Rightarrow> ('v, 'e) converter) option"

record ('s, 'e) tx =
  tx_Commit :: "'s \<Rightarrow> 'e db_error option \<times> 's"
  tx_Rollback :: "'s \<Rightarrow> 'e db_error option \<times> 's"

record tx_options =
  Isolation :: int
  ReadOnly :: bool

record ('c, 's, 'v, 'r, 'e) conn =
  cn_ExecContext :: "('c \<Rightarrow> string \<Rightarrow> 'v named_value list \<Rightarrow> 's \<Rightarrow> ('r, 'e) reply \<times> 's) option"
  cn_Exec :: "(string \<Rightarrow> 'v list \<Rightarrow> 's \<Rightarrow> ('r, 'e) reply \<times> 's) option"
  cn_QueryContext :: "('c \<Rightarrow> string \<Rightarrow> 'v named_value list \<Rightarrow> 's \<Rightarrow> ('r, 'e) reply \<times> 's) option"
  cn_Query :: "(string \<Rightarrow> 'v list \<Rightarrow> 's \<Rightarrow> ('r, 'e) reply \<times> 's) option"
  cn_PrepareContext :: "('c \<Rightarrow> string \<Rightarrow> 's \<Rightarrow> (('c, 's, 'v, 'r, 'e) stmt, 'e) reply \<times> 's) option"
  cn_Prepare :: "string \<Rightarrow> 's \<Rightarrow> (('c, 's, 'v, 'r, 'e) stmt, 'e) reply \<times> 's"
  cn_BeginTx :: "('c \<Rightarrow> tx_options \<Rightarrow> 's \<Rightarrow> (('s, 'e) tx, 'e) reply \<times> 's) option"
  cn_Begin :: "'s \<Rightarrow> (('s, 'e) tx, 'e) reply \<times> 's"
  cn_Ping :: "('c \<Rightarrow> 's \<Rightarrow> 'e db_error option \<times> 's) option"
  cn_CheckNamedValue :: "('v, 'e) checker option"
  cn_ResetSession :: "('c \<Rightarrow> 's \<Rightarrow> 'e db_error option \<times> 's) option"
  cn_IsValid :: "('s \<Rightarrow> bool) option"

text \<open>What the wrapper asks of the world: the error of a context, the clock, and the two settings read at each call.\<close>

record ('c, 's, 'v, 'e) db_env =
  ctx_Err :: "'c \<Rightarrow> 's \<Rightarrow> 'e db_error option"
  clock :: "'s \<Rightarrow> int"
  trace_commit :: "'s \<Rightarrow> bool"
  trace_rollback :: "'s \<Rightarrow> bool"
  conv :: "('v, 'e) converting"

text \<open>One driver call as \<open>newSqlSpanEvent\<close> records it.\<close>

record ('c, 'v, 'e) db_call =
  dc_ctx :: 'c
  dc_operation :: string
  dc_start :: int
  dc_end :: int
  dc_err :: "'e db_error option"
  dc_sql :: string
  dc_args :: "'v named_value list"

section \<open>The instrumented driver\<close>

definition lifted :: "('s \<Rightarrow> 'a \<times> 's) \<Rightarrow> 's \<times> 't \<Rightarrow> 'a \<times> ('s \<times> 't)" where
  "lifted f = (\<lambda>(s, t). let (r, s) = f s in (r, (s, t)))"

definition err_of :: "('r, 'e) reply \<Rightarrow> 'e db_error option" where
  "err_of r = (case r of Inl e \<Rightarrow> Some e | Inr _ \<Rightarrow> None)"

definition skipped :: "('r, 'e) reply \<Rightarrow> bool" where
  "skipped r = (case r of Inl ErrSkip \<Rightarrow> True | _ \<Rightarrow> False)"

definition record_call ::
  "('c, 's, 'v, 'e) db_env \<Rightarrow> (('c, 'v, 'e) db_call \<Rightarrow> 't \<Rightarrow> 't) \<Rightarrow> 'c \<Rightarrow> string \<Rightarrow> int \<Rightarrow> 'e db_error option \<Rightarrow> string \<Rightarrow> 'v named_value list
     \<Rightarrow> 's \<times> 't \<Rightarrow> 's \<times> 't" where
  "record_call E note ctx operation start err_opt query args st =
     (fst st, note \<lparr>dc_ctx = ctx, dc_operation = operation, dc_start = start, dc_end = clock E (fst st), dc_err = err_opt, dc_sql = query,
        dc_args = args\<rparr> (snd st))"

fun legacy_loop :: "'v named_value list \<Rightarrow> 'v list \<Rightarrow> ('v list, 'e) reply" where
  "legacy_loop [] dargs = Inr dargs"
| "legacy_loop (nv # args) dargs = (if nv_Name nv \<noteq> [] then Inl ErrNamedParameters else legacy_loop args (dargs @ [nv_Value nv]))"

definition legacyArgs :: "('c \<Rightarrow> 's \<Rightarrow> 'e db_error option) \<Rightarrow> 'c \<Rightarrow> 'v named_value list \<Rightarrow> 's \<Rightarrow> ('v list, 'e) reply" where
  "legacyArgs cerr ctx args s =
     (case legacy_loop args [] of Inl e \<Rightarrow> Inl e
      | Inr dargs \<Rightarrow> (case cerr ctx s of Some e \<Rightarrow> Inl e | None \<Rightarrow> Inr dargs))"

text \<open>\<open>ExecContext\<close> and \<open>QueryContext\<close> of a connection are one shape over the two interfaces each tries.\<close>

definition conn_call ::
  "('c, 's, 'v, 'e) db_env \<Rightarrow> (('c, 'v, 'e) db_call \<Rightarrow> 't \<Rightarrow> 't) \<Rightarrow> string \<Rightarrow> string
     \<Rightarrow> ('c \<Rightarrow> string \<Rightarrow> 'v named_value list \<Rightarrow> 's \<Rightarrow> ('r, 'e) reply \<times> 's) option \<Rightarrow> (string \<Rightarrow> 'v list \<Rightarrow> 's \<Rightarrow> ('r, 'e) reply \<times> 's) option
     \<Rightarrow> 'c \<Rightarrow> string \<Rightarrow> 'v named_value list \<Rightarrow> 's \<times> 't \<Rightarrow> ('r, 'e) reply \<times> ('s \<times> 't)" where
  "conn_call E note opContext op withContext plain ctx query args st =
     (let start = clock E (fst st)
      in case withContext of
           Some f \<Rightarrow>
             (let (r, st) = lifted (f ctx query args) st
              in (r, if skipped r then st else record_call E note ctx opContext start (err_of r) query args st))
         | None \<Rightarrow>
             (case plain of None \<Rightarrow> (Inl ErrSkip, st)
              | Some f \<Rightarrow>
                  (case legacyArgs (ctx_Err E) ctx args (fst st) of Inl e \<Rightarrow> (Inl e, st)
                   | Inr dargs \<Rightarrow>
                       (let (r, st) = lifted (f query dargs) st
                        in (r, if skipped r then st else record_call E note ctx op start (err_of r) query args st)))))"

definition sqlConn_ExecContext where
  "sqlConn_ExecContext E note c = conn_call E note ''ConnExecContext'' ''ConnExec'' (cn_ExecContext c) (cn_Exec c)"

definition sqlConn_QueryContext where
  "sqlConn_QueryContext E note c = conn_call E note ''ConnQueryContext'' ''ConnQuery'' (cn_QueryContext c) (cn_Query c)"

definition stmt_call ::
  "('c, 's, 'v, 'e) db_env \<Rightarrow> (('c, 'v, 'e) db_call \<Rightarrow> 't \<Rightarrow> 't) \<Rightarrow> string \<Rightarrow> string
     \<Rightarrow> ('c \<Rightarrow> 'v named_value list \<Rightarrow> 's \<Rightarrow> ('r, 'e) reply \<times> 's) option \<Rightarrow> ('v list \<Rightarrow> 's \<Rightarrow> ('r, 'e) reply \<times> 's)
     \<Rightarrow> string \<Rightarrow> 'c \<Rightarrow> 'v named_value list \<Rightarrow> 's \<times> 't \<Rightarrow> ('r, 'e) reply \<times> ('s \<times> 't)" where
  "stmt_call E note opContext op withContext plain query ctx args st =
     (let start = clock E (fst st)
      in case withContext of
           Some f \<Rightarrow> (let (r, st) = lifted (f ctx args) st in (r, record_call E note ctx opContext start (err_of r) query args st))
         | None \<Rightarrow>
             (case legacyArgs (ctx_Err E) ctx args (fst st) of Inl e \<Rightarrow> (Inl e, st)
              | Inr dargs \<Rightarrow>
                  (let (r, st) = lifted (plain dargs) st in (r, record_call E note ctx op start (err_of r) query args st))))"

text \<open>A prepared statement, with the connection it falls back to for a checker.\<close>

definition sqlStmt ::
  "('c, 's, 'v, 'e) db_env \<Rightarrow> (('c, 'v, 'e) db_call \<Rightarrow> 't \<Rightarrow> 't) \<Rightarrow> ('c, 's, 'v, 'r, 'e) conn \<Rightarrow> string \<Rightarrow> ('c, 's, 'v, 'r, 'e) stmt
     \<Rightarrow> ('c, 's \<times> 't, 'v, 'r, 'e) stmt" where
  "sqlStmt E note c query st =
     \<lparr>st_ExecContext = Some (stmt_call E note ''StmtExecContext'' ''StmtExec'' (st_ExecContext st) (st_Exec st) query),
      st_Exec = (\<lambda>args. lifted (st_Exec st args)),
      st_QueryContext = Some (stmt_call E note ''StmtQueryContext'' ''StmtQuery'' (st_QueryContext st) (st_Query st) query),
      st_Query = (\<lambda>args. lifted (st_Query st args)),
      st_Close = apfst (st_Close st), st_NumInput = st_NumInput st,
      st_CheckNamedValue = Some (\<lambda>nv. case st_CheckNamedValue st of Some f \<Rightarrow> f nv
        | None \<Rightarrow> (case cn_CheckNamedValue c of Some f \<Rightarrow> f nv | None \<Rightarrow> CheckSkip)),
      st_ColumnConverter = Some (\<lambda>i. case st_ColumnConverter st of Some f \<Rightarrow> f i | None \<Rightarrow> DefaultParameterConverter (conv E))\<rparr>"

definition prepare ::
  "('c, 's, 'v, 'e) db_env \<Rightarrow> (('c, 'v, 'e) db_call \<Rightarrow> 't \<Rightarrow> 't) \<Rightarrow> (('c, 's, 'v, 'r, 'e) stmt, 'e) reply \<Rightarrow> ('c, 's, 'v, 'r, 'e) conn \<Rightarrow> string
     \<Rightarrow> (('c, 's \<times> 't, 'v, 'r, 'e) stmt, 'e) reply" where
  "prepare E note r c query = (case r of Inl e \<Rightarrow> Inl e | Inr st \<Rightarrow> Inr (sqlStmt E note c query st))"

text \<open>A context that has ended keeps its error, so the one found is the one returned after the statement is closed.\<close>

definition sqlConn_PrepareContext ::
  "('c, 's, 'v, 'e) db_env \<Rightarrow> (('c, 'v, 'e) db_call \<Rightarrow> 't \<Rightarrow> 't) \<Rightarrow> ('c, 's, 'v, 'r, 'e) conn \<Rightarrow> 'c \<Rightarrow> string \<Rightarrow> 's \<times> 't
     \<Rightarrow> (('c, 's \<times> 't, 'v, 'r, 'e) stmt, 'e) reply \<times> ('s \<times> 't)" where
  "sqlConn_PrepareContext E note c ctx query w =
     (case cn_PrepareContext c of
        Some f \<Rightarrow> (let (r, w) = lifted (f ctx query) w in (prepare E note r c query, w))
      | None \<Rightarrow>
          (let (r, w) = lifted (cn_Prepare c query) w
           in case r of Inl e \<Rightarrow> (Inl e, w)
              | Inr st \<Rightarrow> (case ctx_Err E ctx (fst w) of Some e \<Rightarrow> (Inl e, apfst (st_Close st) w)
                  | None \<Rightarrow> (prepare E note r c query, w))))"

section \<open>Transactions\<close>

definition sqlTx :: "('c, 's, 'v, 'e) db_env \<Rightarrow> (('c, 'v, 'e) db_call \<Rightarrow> 't \<Rightarrow> 't) \<Rightarrow> 'c \<Rightarrow> ('s, 'e) tx \<Rightarrow> ('s \<times> 't, 'e) tx" where
  "sqlTx E note ctx tx =
     \<lparr>tx_Commit = (\<lambda>w. let start = clock E (fst w); (eo, w) = lifted (tx_Commit tx) w
        in (eo, if trace_commit E (fst w) then record_call E note ctx ''Commit'' start eo [] [] w else w)),
      tx_Rollback = (\<lambda>w. let start = clock E (fst w); (eo, w) = lifted (tx_Rollback tx) w
        in (eo, if ctx_Err E ctx (fst w) = None \<and> trace_rollback E (fst w)
                then record_call E note ctx ''Rollback'' start eo [] [] w else w))\<rparr>"

definition plain_tx :: "('s, 'e) tx \<Rightarrow> ('s \<times> 't, 'e) tx" where
  "plain_tx tx = \<lparr>tx_Commit = lifted (tx_Commit tx), tx_Rollback = lifted (tx_Rollback tx)\<rparr>"

definition begun ::
  "('c, 's, 'v, 'e) db_env \<Rightarrow> (('c, 'v, 'e) db_call \<Rightarrow> 't \<Rightarrow> 't) \<Rightarrow> 'c \<Rightarrow> string \<Rightarrow> int \<Rightarrow> (('s, 'e) tx, 'e) reply \<Rightarrow> 's \<times> 't
     \<Rightarrow> (('s \<times> 't, 'e) tx, 'e) reply \<times> ('s \<times> 't)" where
  "begun E note ctx op start r w =
     (if trace_commit E (fst w) \<or> trace_rollback E (fst w)
      then (map_sum id (sqlTx E note ctx) r, record_call E note ctx op start (err_of r) [] [] w)
      else (map_sum id plain_tx r, w))"

definition sqlConn_BeginTx ::
  "('c, 's, 'v, 'e) db_env \<Rightarrow> (('c, 'v, 'e) db_call \<Rightarrow> 't \<Rightarrow> 't) \<Rightarrow> ('c, 's, 'v, 'r, 'e) conn \<Rightarrow> 'c \<Rightarrow> tx_options \<Rightarrow> 's \<times> 't
     \<Rightarrow> (('s \<times> 't, 'e) tx, 'e) reply \<times> ('s \<times> 't)" where
  "sqlConn_BeginTx E note c ctx opts w =
     (let start = clock E (fst w)
      in case cn_BeginTx c of
           Some f \<Rightarrow> (let (r, w) = lifted (f ctx opts) w in begun E note ctx ''BeginTx'' start r w)
         | None \<Rightarrow>
             if Isolation opts \<noteq> 0 then (Inl ErrIsolation, w)
             else if ReadOnly opts then (Inl ErrReadOnly, w)
             else
               let (r, w) = lifted (cn_Begin c) w
               in case r of
                    Inr tx \<Rightarrow> (case ctx_Err E ctx (fst w) of
                        Some e \<Rightarrow> (Inl e, snd (lifted (tx_Rollback tx) w))
                      | None \<Rightarrow> begun E note ctx ''Begin'' start r w)
                  | Inl _ \<Rightarrow> begun E note ctx ''Begin'' start r w)"

section \<open>Connections\<close>

text \<open>
  The wrapped connection as \<open>withSessionInterfaces\<close> returns it: session reset and validation exactly when the driver's
  connection has them, the other optional interfaces always.
\<close>

definition newSqlConn ::
  "('c, 's, 'v, 'e) db_env \<Rightarrow> (('c, 'v, 'e) db_call \<Rightarrow> 't \<Rightarrow> 't) \<Rightarrow> ('c, 's, 'v, 'r, 'e) conn \<Rightarrow> ('c, 's \<times> 't, 'v, 'r, 'e) conn" where
  "newSqlConn E note c =
     \<lparr>cn_ExecContext = Some (sqlConn_ExecContext E note c), cn_Exec = None,
      cn_QueryContext = Some (sqlConn_QueryContext E note c), cn_Query = None,
      cn_PrepareContext = Some (sqlConn_PrepareContext E note c),
      cn_Prepare = (\<lambda>query. \<lambda>w. case lifted (cn_Prepare c query) w of (Inl e, w) \<Rightarrow> (Inl e, w)
        | (Inr st, w) \<Rightarrow> (Inr \<lparr>st_ExecContext = map_option (\<lambda>f ctx args. lifted (f ctx args)) (st_ExecContext st),
            st_Exec = (\<lambda>args. lifted (st_Exec st args)),
            st_QueryContext = map_option (\<lambda>f ctx args. lifted (f ctx args)) (st_QueryContext st),
            st_Query = (\<lambda>args. lifted (st_Query st args)), st_Close = apfst (st_Close st), st_NumInput = st_NumInput st,
            st_CheckNamedValue = st_CheckNamedValue st, st_ColumnConverter = st_ColumnConverter st\<rparr>, w)),
      cn_BeginTx = Some (sqlConn_BeginTx E note c),
      cn_Begin = (\<lambda>w. case lifted (cn_Begin c) w of (r, w) \<Rightarrow> (map_sum id plain_tx r, w)),
      cn_Ping = Some (\<lambda>ctx. case cn_Ping c of Some p \<Rightarrow> lifted (p ctx) | None \<Rightarrow> Pair None),
      cn_CheckNamedValue = Some (\<lambda>nv. case cn_CheckNamedValue c of Some f \<Rightarrow> f nv | None \<Rightarrow> CheckSkip),
      cn_ResetSession = map_option (\<lambda>f ctx. lifted (f ctx)) (cn_ResetSession c),
      cn_IsValid = map_option (\<lambda>f w. f (fst w)) (cn_IsValid c)\<rparr>"

text \<open>The database a connection is to, filled in from the data source name or, failing that, the connection.\<close>

record db_info =
  DBType :: int
  QueryType :: int
  DBName :: string
  DBHost :: string

record 'k db_parsers =
  ParseDSN :: "(string \<Rightarrow> db_info \<Rightarrow> db_info) option"
  ParseConn :: "('k \<Rightarrow> db_info \<Rightarrow> db_info) option"

definition parseDSN :: "'k db_parsers \<Rightarrow> string \<Rightarrow> db_info \<Rightarrow> db_info" where
  "parseDSN P dsn info = (case ParseDSN P of Some f \<Rightarrow> f dsn info | None \<Rightarrow> info)"

definition parseConn :: "'k db_parsers \<Rightarrow> 'k \<Rightarrow> db_info \<Rightarrow> db_info" where
  "parseConn P c info =
     (case ParseConn P of Some f \<Rightarrow> if DBName info = [] \<and> DBHost info = [] then f c info else info | None \<Rightarrow> info)"

definition sqlDriver_Open where
  "sqlDriver_Open E note P info drvOpen name w =
     (let (r, w) = lifted (drvOpen name) w
      in (case r of Inl e \<Rightarrow> Inl e | Inr c \<Rightarrow> Inr (newSqlConn E (note (parseConn P c (parseDSN P name info))) c), w))"

text \<open>\<open>OpenConnector\<close> keeps the settings read from the name, \<open>Connect\<close> completes them for its connection.\<close>

definition sqlConnector_Connect where
  "sqlConnector_Connect E note P info connect ctx w =
     (let (r, w) = lifted (connect ctx) w
      in (case r of Inl e \<Rightarrow> Inl e | Inr c \<Rightarrow> Inr (newSqlConn E (note (parseConn P c info)) c), w))"

definition sqlDriver_OpenConnector where
  "sqlDriver_OpenConnector E note P info openConnector name w =
     (let (r, w) = lifted (openConnector name) w
      in (case r of Inl e \<Rightarrow> Inl e | Inr connect \<Rightarrow> Inr (sqlConnector_Connect E note P (parseDSN P name info) connect), w))"

section \<open>The span event of a call\<close>

text \<open>
  A traced request with the caches of its SQL metadata. \<open>sql_settings\<close>: what the configuration says at the call. \<open>lk\<close> and the
  second time are what the metadata cache reads.
\<close>

record ('e, 'x) sql_trace =
  sq_trace :: "'e http_trace"
  sq_agent :: "'x sqlAgent"

record sql_settings =
  ss_config :: sqlConfig
  ss_bind :: bool

definition NewDatabaseTracer :: "'e agent_env \<Rightarrow> int \<Rightarrow> string \<Rightarrow> db_info \<Rightarrow> 'e http_trace \<Rightarrow> 'e http_trace" where
  "NewDatabaseTracer A now funcName info q =
     on_span (\<lambda>sp. SpanEvent_SetDestination (DBName info)
         (on_top (ev_SetEndPoint (DBHost info)) (on_top (ev_SetServiceType (word_of_int (QueryType info))) sp)))
       (t_NewSpanEvent A now funcName q)"

definition SpanEvent_SetSQL ::
  "murmur \<Rightarrow> hashes \<Rightarrow> sqlConfig \<Rightarrow> bool \<Rightarrow> time \<Rightarrow> string \<Rightarrow> string \<Rightarrow> 'e span \<Rightarrow> root \<Rightarrow> 'x sqlAgent \<Rightarrow> 'e span \<times> root \<times> 'x sqlAgent" where
  "SpanEvent_SetSQL sum128 H sc lk now query args sp r sa =
     (if eventOverflow sp > 0 then (sp, r, sa)
      else case stack_peek (eventStack sp) of None \<Rightarrow> (sp, r, sa)
      | Some se \<Rightarrow> (let (se, r, sa) = SetSQL sum128 H sc lk now query args sp (se, r, sa) in (on_top (\<lambda>_. se) sp, r, sa)))"

definition newSqlSpanEvent ::
  "'e db_error agent_env \<Rightarrow> murmur \<Rightarrow> hashes \<Rightarrow> sql_settings \<Rightarrow> bool \<Rightarrow> time \<Rightarrow> db_info \<Rightarrow> ('c, bindValue, 'e) db_call
     \<Rightarrow> ('e db_error, 'x) sql_trace \<Rightarrow> ('e db_error, 'x) sql_trace" where
  "newSqlSpanEvent A sum128 H ss lk tick info call z =
     (let q = NewDatabaseTracer A (dc_end call) (dc_operation call) info (sq_trace z);
          (q, sa) =
            (case ht_tracer q of
               SampledTracer sp st \<Rightarrow>
                 (let bind = bindValuesString (ss_bind ss) (nat (sqlMaxBindValueSize (ss_config ss))) (map nv_Value (dc_args call));
                      (sp, r, sa) = SpanEvent_SetSQL sum128 H (ss_config ss) lk tick (dc_sql call) bind sp (ht_root q) (sq_agent z);
                      (sp, r, gen) = SpanEvent_SetError A (dc_err call) [''SQL error''] (sp, r, ht_gen q);
                      sp = on_top (FixDuration (dc_start call) (dc_end call)) sp
                  in (q\<lparr>ht_tracer := SampledTracer sp st, ht_root := r, ht_gen := gen\<rparr>, sa))
             | _ \<Rightarrow> (q, sq_agent z))
      in z\<lparr>sq_trace := fst (t_EndSpanEvent A (dc_end call) (None :: (unit \<times> 'e db_error) option) q), sq_agent := sa\<rparr>)"

section \<open>How database/sql uses a connection\<close>

fun namedValueToValue :: "'v named_value list \<Rightarrow> ('v list, 'e) reply" where
  "namedValueToValue [] = Inr []"
| "namedValueToValue (nv # nvs) =
     (if nv_Name nv \<noteq> [] then Inl ErrNamedParameters
      else case namedValueToValue nvs of Inl e \<Rightarrow> Inl e | Inr vs \<Rightarrow> Inr (nv_Value nv # vs))"

text \<open>A call on the older interface: the arguments without names, and only while the context lasts.\<close>

definition without_context ::
  "('c \<Rightarrow> 's \<Rightarrow> 'e db_error option) \<Rightarrow> ('v list \<Rightarrow> 's \<Rightarrow> ('r, 'e) reply \<times> 's) \<Rightarrow> 'c \<Rightarrow> 'v named_value list \<Rightarrow> 's \<Rightarrow> ('r, 'e) reply \<times> 's" where
  "without_context cerr f ctx args s =
     (case namedValueToValue args of Inl e \<Rightarrow> (Inl e, s)
      | Inr dargs \<Rightarrow> (case cerr ctx s of Some e \<Rightarrow> (Inl e, s) | None \<Rightarrow> f dargs s))"

definition ctxDriverPrepare ::
  "('c \<Rightarrow> 's \<Rightarrow> 'e db_error option) \<Rightarrow> ('c, 's, 'v, 'r, 'e) conn \<Rightarrow> 'c \<Rightarrow> string \<Rightarrow> 's \<Rightarrow> (('c, 's, 'v, 'r, 'e) stmt, 'e) reply \<times> 's" where
  "ctxDriverPrepare cerr c ctx query s =
     (case cn_PrepareContext c of Some f \<Rightarrow> f ctx query s
      | None \<Rightarrow>
          (case cn_Prepare c query s of (Inl e, s) \<Rightarrow> (Inl e, s)
           | (Inr st, s) \<Rightarrow> (case cerr ctx s of Some e \<Rightarrow> (Inl e, st_Close st s) | None \<Rightarrow> (Inr st, s))))"

definition ctxDriverExec ::
  "('c \<Rightarrow> 's \<Rightarrow> 'e db_error option) \<Rightarrow> ('c \<Rightarrow> string \<Rightarrow> 'v named_value list \<Rightarrow> 's \<Rightarrow> ('r, 'e) reply \<times> 's) option
     \<Rightarrow> (string \<Rightarrow> 'v list \<Rightarrow> 's \<Rightarrow> ('r, 'e) reply \<times> 's) option \<Rightarrow> 'c \<Rightarrow> string \<Rightarrow> 'v named_value list \<Rightarrow> 's \<Rightarrow> ('r, 'e) reply \<times> 's" where
  "ctxDriverExec cerr withContext plain ctx query args s =
     (case withContext of Some f \<Rightarrow> f ctx query args s
      | None \<Rightarrow> (case plain of Some f \<Rightarrow> without_context cerr (f query) ctx args s | None \<Rightarrow> (Inl ErrSkip, s)))"

definition ctxDriverStmtExec ::
  "('c \<Rightarrow> 's \<Rightarrow> 'e db_error option) \<Rightarrow> ('c \<Rightarrow> 'v named_value list \<Rightarrow> 's \<Rightarrow> ('r, 'e) reply \<times> 's) option
     \<Rightarrow> ('v list \<Rightarrow> 's \<Rightarrow> ('r, 'e) reply \<times> 's) \<Rightarrow> 'c \<Rightarrow> 'v named_value list \<Rightarrow> 's \<Rightarrow> ('r, 'e) reply \<times> 's" where
  "ctxDriverStmtExec cerr withContext plain ctx args s =
     (case withContext of Some f \<Rightarrow> f ctx args s | None \<Rightarrow> without_context cerr plain ctx args s)"

text \<open>The conversion of one argument: the checker, the converter of its column, the default, each when the one before skips.\<close>

definition check_error :: "'e db_error \<Rightarrow> ('v, 'e) check_answer" where
  "check_error e = (if e = ErrSkip then CheckSkip else CheckError e)"

definition valuer_value :: "('v, 'e) converting \<Rightarrow> 'v \<Rightarrow> ('v, 'e) reply" where
  "valuer_value K v =
     (case callValuer K v of None \<Rightarrow> Inr v | Some (Inl e) \<Rightarrow> Inl e | Some (Inr u) \<Rightarrow> if IsValue K u then Inr u else Inl ErrNonSubset)"

definition ccChecker_CheckNamedValue ::
  "('v, 'e) converting \<Rightarrow> (nat \<Rightarrow> ('v, 'e) converter) option \<Rightarrow> int \<Rightarrow> ('v, 'e) checker" where
  "ccChecker_CheckNamedValue K cci want nv =
     (case cci of None \<Rightarrow> CheckSkip
      | Some columnConverter \<Rightarrow>
          let index = nv_Ordinal nv - 1
          in if want \<le> index then CheckOk nv
             else case valuer_value K (nv_Value nv) of Inl e \<Rightarrow> check_error e
             | Inr v \<Rightarrow>
                 (case columnConverter (nat index) v of Inl e \<Rightarrow> check_error e
                  | Inr u \<Rightarrow> if IsValue K u then CheckOk (nv\<lparr>nv_Value := u\<rparr>) else CheckError ErrUnsupported))"

definition defaultCheckNamedValue :: "('v, 'e) converting \<Rightarrow> ('v, 'e) checker" where
  "defaultCheckNamedValue K nv =
     (case DefaultParameterConverter K (nv_Value nv) of Inl e \<Rightarrow> CheckError e | Inr v \<Rightarrow> CheckOk (nv\<lparr>nv_Value := v\<rparr>))"

definition unless_skipped :: "('v, 'e) check_answer \<Rightarrow> ('v, 'e) check_answer \<Rightarrow> ('v, 'e) check_answer" where
  "unless_skipped a b = (case a of CheckSkip \<Rightarrow> b | _ \<Rightarrow> a)"

definition check_arg ::
  "('v, 'e) converting \<Rightarrow> ('v, 'e) checker option \<Rightarrow> (nat \<Rightarrow> ('v, 'e) converter) option \<Rightarrow> int \<Rightarrow> ('v, 'e) checker" where
  "check_arg K nvc cci want nv =
     unless_skipped (case nvc of Some f \<Rightarrow> f nv | None \<Rightarrow> CheckSkip)
       (unless_skipped (ccChecker_CheckNamedValue K cci want nv) (defaultCheckNamedValue K nv))"

text \<open>
  The loop over the arguments, a name (empty for none) and a value each. The slot of a removed argument is used for the next one, which finds
  the name left in it.
\<close>

fun convert_args :: "('v, 'e) checker \<Rightarrow> int \<Rightarrow> string \<Rightarrow> (string \<times> 'v) list \<Rightarrow> ('v named_value list, 'e) reply" where
  "convert_args check n left [] = Inr []"
| "convert_args check n left ((name, v) # args) =
     (let nv = \<lparr>nv_Name = if name \<noteq> [] then name else left, nv_Ordinal = n + 1, nv_Value = v\<rparr>
      in case check nv of
           CheckOk nv \<Rightarrow> map_sum id ((#) nv) (convert_args check (n + 1) [] args)
         | CheckRemove \<Rightarrow> convert_args check n (nv_Name nv) args
         | CheckError e \<Rightarrow> Inl (ErrConvert (n + 1) e)
         | CheckSkip \<Rightarrow> Inl (ErrConvert (n + 1) ErrSkip))"

definition driverArgsConnLocked ::
  "('v, 'e) converting \<Rightarrow> ('c, 's, 'v, 'r, 'e) conn \<Rightarrow> ('c, 's, 'v, 'r, 'e) stmt option \<Rightarrow> (string \<times> 'v) list \<Rightarrow> ('v named_value list, 'e) reply" where
  "driverArgsConnLocked K c ds args =
     (case ds of None \<Rightarrow> convert_args (check_arg K (cn_CheckNamedValue c) None (- 1)) 0 [] args
      | Some st \<Rightarrow>
          let nvc = (case st_CheckNamedValue st of Some f \<Rightarrow> Some f | None \<Rightarrow> cn_CheckNamedValue c); want = st_NumInput st
          in case convert_args (check_arg K nvc (st_ColumnConverter st) want) 0 [] args of Inl e \<Rightarrow> Inl e
             | Inr nvs \<Rightarrow> if want \<noteq> - 1 \<and> int (length nvs) \<noteq> want then Inl (ErrArgCount want (length nvs)) else Inr nvs)"

text \<open>
  A statement run on the connection, or prepared, run and closed when the connection does not take it: \<open>execDC\<close> and
  \<open>queryDC\<close>, which differ in the interfaces they use. The arguments are converted for the connection when it has one of the two interfaces, and
  again for the statement.
\<close>

definition db_run ::
  "('v, 'e) converting \<Rightarrow> ('c \<Rightarrow> 's \<Rightarrow> 'e db_error option) \<Rightarrow> ('c, 's, 'v, 'r, 'e) conn
     \<Rightarrow> ('c \<Rightarrow> string \<Rightarrow> 'v named_value list \<Rightarrow> 's \<Rightarrow> ('r, 'e) reply \<times> 's) option \<Rightarrow> (string \<Rightarrow> 'v list \<Rightarrow> 's \<Rightarrow> ('r, 'e) reply \<times> 's) option
     \<Rightarrow> (('c, 's, 'v, 'r, 'e) stmt \<Rightarrow> ('c \<Rightarrow> 'v named_value list \<Rightarrow> 's \<Rightarrow> ('r, 'e) reply \<times> 's) option)
     \<Rightarrow> (('c, 's, 'v, 'r, 'e) stmt \<Rightarrow> 'v list \<Rightarrow> 's \<Rightarrow> ('r, 'e) reply \<times> 's)
     \<Rightarrow> 'c \<Rightarrow> string \<Rightarrow> (string \<times> 'v) list \<Rightarrow> 's \<Rightarrow> ('r, 'e) reply \<times> 's" where
  "db_run K cerr c withContext plain stContext stPlain ctx query args s =
     (case (if Option.is_none withContext \<and> Option.is_none plain then (Inl ErrSkip, s)
            else case driverArgsConnLocked K c None args of Inl e \<Rightarrow> (Inl e, s)
            | Inr nvs \<Rightarrow> ctxDriverExec cerr withContext plain ctx query nvs s) of (r, s) \<Rightarrow>
        if \<not> skipped r then (r, s)
        else case ctxDriverPrepare cerr c ctx query s of (Inl e, s) \<Rightarrow> (Inl e, s)
        | (Inr st, s) \<Rightarrow>
            (case (case driverArgsConnLocked K c (Some st) args of Inl e \<Rightarrow> (Inl e, s)
                   | Inr nvs \<Rightarrow> ctxDriverStmtExec cerr (stContext st) (stPlain st) ctx nvs s) of (r, s) \<Rightarrow> (r, st_Close st s)))"

definition db_exec where
  "db_exec K cerr c = db_run K cerr c (cn_ExecContext c) (cn_Exec c) st_ExecContext st_Exec"

definition db_query where
  "db_query K cerr c = db_run K cerr c (cn_QueryContext c) (cn_Query c) st_QueryContext st_Query"

definition ctxDriverBegin ::
  "('c \<Rightarrow> 's \<Rightarrow> 'e db_error option) \<Rightarrow> ('c, 's, 'v, 'r, 'e) conn \<Rightarrow> 'c \<Rightarrow> tx_options \<Rightarrow> 's \<Rightarrow> (('s, 'e) tx, 'e) reply \<times> 's" where
  "ctxDriverBegin cerr c ctx opts s =
     (case cn_BeginTx c of Some f \<Rightarrow> f ctx opts s
      | None \<Rightarrow>
          if Isolation opts \<noteq> 0 then (Inl ErrIsolation, s)
          else if ReadOnly opts then (Inl ErrReadOnly, s)
          else (case cn_Begin c s of (Inl e, s) \<Rightarrow> (Inl e, s)
            | (Inr tx, s) \<Rightarrow> (case cerr ctx s of Some e \<Rightarrow> (Inl e, snd (tx_Rollback tx s)) | None \<Rightarrow> (Inr tx, s))))"

definition db_ping where
  "db_ping c ctx s = (case cn_Ping c of Some f \<Rightarrow> f ctx s | None \<Rightarrow> (None, s))"

text \<open>What an application does with a connection, and the answers it gets.\<close>

datatype ('c, 'v) db_action = Exec 'c string "(string \<times> 'v) list" | Query 'c string "(string \<times> 'v) list" | Ping 'c

datatype ('r, 'e) db_answer = Answered "('r, 'e) reply" | Pinged "'e db_error option" | Began "'e db_error option" | Ended "'e db_error option"

fun do_action :: "('v, 'e) converting \<Rightarrow> ('c \<Rightarrow> 's \<Rightarrow> 'e db_error option) \<Rightarrow> ('c, 's, 'v, 'r, 'e) conn \<Rightarrow> ('c, 'v) db_action \<Rightarrow> 's \<Rightarrow> ('r, 'e) db_answer \<times> 's" where
  "do_action K cerr c (Exec ctx query args) s = apfst Answered (db_exec K cerr c ctx query args s)"
| "do_action K cerr c (Query ctx query args) s = apfst Answered (db_query K cerr c ctx query args s)"
| "do_action K cerr c (Ping ctx) s = apfst Pinged (db_ping c ctx s)"

fun do_actions :: "('v, 'e) converting \<Rightarrow> ('c \<Rightarrow> 's \<Rightarrow> 'e db_error option) \<Rightarrow> ('c, 's, 'v, 'r, 'e) conn \<Rightarrow> ('c, 'v) db_action list \<Rightarrow> 's \<Rightarrow> ('r, 'e) db_answer list \<times> 's" where
  "do_actions K cerr c [] s = ([], s)"
| "do_actions K cerr c (a # acts) s = (let (r, s) = do_action K cerr c a s in apfst ((#) r) (do_actions K cerr c acts s))"

datatype ('c, 'v) db_request = Plain "('c, 'v) db_action" | Transaction 'c tx_options "('c, 'v) db_action list" bool

fun do_request :: "('v, 'e) converting \<Rightarrow> ('c \<Rightarrow> 's \<Rightarrow> 'e db_error option) \<Rightarrow> ('c, 's, 'v, 'r, 'e) conn \<Rightarrow> ('c, 'v) db_request \<Rightarrow> 's \<Rightarrow> ('r, 'e) db_answer list \<times> 's" where
  "do_request K cerr c (Plain a) s = do_actions K cerr c [a] s"
| "do_request K cerr c (Transaction ctx opts acts keep) s =
     (case ctxDriverBegin cerr c ctx opts s of (Inl e, s) \<Rightarrow> ([Began (Some e)], s)
      | (Inr tx, s) \<Rightarrow>
          (case do_actions K cerr c acts s of (rs, s) \<Rightarrow>
             (case (if keep then tx_Commit tx s else tx_Rollback tx s) of (eo, s) \<Rightarrow> (Began None # rs @ [Ended eo], s))))"

fun do_requests :: "('v, 'e) converting \<Rightarrow> ('c \<Rightarrow> 's \<Rightarrow> 'e db_error option) \<Rightarrow> ('c, 's, 'v, 'r, 'e) conn \<Rightarrow> ('c, 'v) db_request list \<Rightarrow> 's \<Rightarrow> ('r, 'e) db_answer list \<times> 's" where
  "do_requests K cerr c [] s = ([], s)"
| "do_requests K cerr c (q # qs) s = (let (r, s) = do_request K cerr c q s in apfst ((@) r) (do_requests K cerr c qs s))"

section \<open>Lemmas\<close>

text \<open>A call of the instrumented side hides the trace: without it, it is the call of the driver.\<close>

definition hides :: "('s \<times> 't \<Rightarrow> 'a \<times> ('s \<times> 't)) \<Rightarrow> ('s \<Rightarrow> 'a \<times> 's) \<Rightarrow> bool" where
  "hides f g \<longleftrightarrow> (\<forall>w. apsnd fst (f w) = g (fst w))"

definition viewed :: "('c \<Rightarrow> 's \<Rightarrow> 'e db_error option) \<Rightarrow> 'c \<Rightarrow> 's \<times> 't \<Rightarrow> 'e db_error option" where
  "viewed cerr ctx w = cerr ctx (fst w)"

lemma lifted_eq: "lifted f w = (fst (f (fst w)), (snd (f (fst w)), snd w))"
  by (simp add: lifted_def case_prod_beta)

lemma fst_record_call [simp]: "fst (record_call E note ctx op start eo query args w) = fst w"
  by (simp add: record_call_def)

lemma hides_lifted: "hides (lifted f) f"
  by (simp add: hides_def lifted_eq)

lemma legacy_loop_eq: "legacy_loop args dargs = (case namedValueToValue args of Inl e \<Rightarrow> Inl e | Inr vs \<Rightarrow> Inr (dargs @ vs))"
  by (induction args arbitrary: dargs) (auto split: sum.splits)

lemma legacyArgs_without: 
  "without_context cerr f ctx args s = (case legacyArgs cerr ctx args s of Inl e \<Rightarrow> (Inl e, s) | Inr dargs \<Rightarrow> f dargs s)"
  by (auto simp: without_context_def legacyArgs_def legacy_loop_eq split: sum.splits option.splits)

lemma conn_call_hides: "hides (conn_call E note o1 o2 wc pl ctx query args) (ctxDriverExec (ctx_Err E) wc pl ctx query args)"
  by (auto simp: hides_def conn_call_def ctxDriverExec_def lifted_eq legacyArgs_without Let_def prod_eq_iff split: option.splits sum.splits)

lemma stmt_call_hides: "hides (stmt_call E note o1 o2 wc pl query ctx args) (ctxDriverStmtExec (ctx_Err E) wc pl ctx args)"
  by (auto simp: hides_def stmt_call_def ctxDriverStmtExec_def lifted_eq legacyArgs_without Let_def prod_eq_iff split: option.splits sum.splits)

text \<open>A prepared statement of the instrumented side stands for one of the driver.\<close>

lemma prepare_hides:
  "ctxDriverPrepare (viewed (ctx_Err E)) (newSqlConn E note c) ctx query w =
     (let (r, s) = ctxDriverPrepare (ctx_Err E) c ctx query (fst w) in (prepare E note r c query, (s, snd w)))"
  by (auto simp: ctxDriverPrepare_def newSqlConn_def sqlConn_PrepareContext_def lifted_eq prepare_def Let_def apfst_def map_prod_def
      case_prod_beta split: option.splits sum.splits)

lemma hidesD: "hides f g \<Longrightarrow> f w = (r, w') \<Longrightarrow> g (fst w) = (r, fst w')"
  unfolding hides_def by (metis apsnd_conv)

lemma hidesI: "(\<And>s t r s' t'. f (s, t) = (r, (s', t')) \<Longrightarrow> g s = (r, s')) \<Longrightarrow> hides f g"
  unfolding hides_def by (metis apsnd_conv fst_conv prod.exhaust_sel)

text \<open>An argument that is a driver value already: every conversion of \<^verbatim>\<open>database/sql\<close> itself leaves it alone.\<close>

definition driver_value :: "('v, 'e) converting \<Rightarrow> 'v \<Rightarrow> bool" where
  "driver_value K v \<longleftrightarrow> IsValue K v \<and> callValuer K v = None \<and> DefaultParameterConverter K v = Inr v"

lemma check_arg_skip_checker: "check_arg K (Some (\<lambda>nv. case nvc of Some f \<Rightarrow> f nv | None \<Rightarrow> CheckSkip)) cci want = check_arg K nvc cci want"
  by (auto simp: check_arg_def fun_eq_iff split: option.split)

lemma conn_args: "driverArgsConnLocked K (newSqlConn E note c) None args = driverArgsConnLocked K c None args"
  by (simp add: driverArgsConnLocked_def newSqlConn_def check_arg_skip_checker)

lemma convert_args_cong:
  assumes "list_all (\<lambda>(name, v). P v) args" "\<And>nv. P (nv_Value nv) \<Longrightarrow> f nv = g nv"
  shows "convert_args f n left args = convert_args g n left args"
  using assms(1)
proof (induction args arbitrary: n left)
  case (Cons a args)
  then show ?case by (cases a) (auto simp: assms(2) Let_def split: check_answer.split)
qed simp

lemma map_sum_Inl: "map_sum id f x = Inl e \<longleftrightarrow> x = Inl e"
  by (cases x) auto

lemma convert_args_error: "convert_args f n left args = Inl e \<Longrightarrow> e \<noteq> ErrSkip"
proof (induction args arbitrary: n left)
  case (Cons a args)
  then show ?case by (cases a) (auto simp: Let_def map_sum_Inl split: check_answer.splits if_splits)
qed simp

lemma default_value: "driver_value K (nv_Value nv) \<Longrightarrow> defaultCheckNamedValue K nv = CheckOk nv"
  by (simp add: driver_value_def defaultCheckNamedValue_def)

lemma column_value:
  assumes "driver_value K (nv_Value nv)"
  shows "unless_skipped (ccChecker_CheckNamedValue K (Some (\<lambda>i. case cci of Some f \<Rightarrow> f i | None \<Rightarrow> DefaultParameterConverter K)) want nv)
      (defaultCheckNamedValue K nv)
    = unless_skipped (ccChecker_CheckNamedValue K cci want nv) (defaultCheckNamedValue K nv)"
  using assms default_value [OF assms]
  by (cases cci) (auto simp: ccChecker_CheckNamedValue_def valuer_value_def driver_value_def unless_skipped_def Let_def)

lemma stmt_args:
  assumes "list_all (\<lambda>(name, v). driver_value (conv E) v) args"
  shows "driverArgsConnLocked (conv E) (newSqlConn E note c) (Some (sqlStmt E note c query st)) args = driverArgsConnLocked (conv E) c (Some st) args"
proof -
  let ?nvc = "case st_CheckNamedValue st of Some f \<Rightarrow> Some f | None \<Rightarrow> cn_CheckNamedValue c"
  have "(\<lambda>nv. case st_CheckNamedValue st of Some f \<Rightarrow> f nv | None \<Rightarrow> (case cn_CheckNamedValue c of Some f \<Rightarrow> f nv | None \<Rightarrow> CheckSkip))
      = (\<lambda>nv. case ?nvc of Some f \<Rightarrow> f nv | None \<Rightarrow> CheckSkip)"
    by (auto split: option.split)
  then have "convert_args (check_arg (conv E) (st_CheckNamedValue (sqlStmt E note c query st)) (st_ColumnConverter (sqlStmt E note c query st)) want) 0 [] args
      = convert_args (check_arg (conv E) ?nvc (st_ColumnConverter st) want) 0 [] args" for want
    by (intro convert_args_cong [OF assms]) (simp add: sqlStmt_def check_arg_skip_checker, simp add: check_arg_def column_value)
  then show ?thesis by (simp add: driverArgsConnLocked_def sqlStmt_def Let_def)
qed

lemma convert_args_ok:
  assumes "list_all (\<lambda>(name, v). driver_value K v) args"
  shows "\<exists>nvs. convert_args (check_arg K None None want) n left args = Inr nvs"
  using assms
proof (induction args arbitrary: n left)
  case (Cons a args)
  obtain name v where a: "a = (name, v)" by (rule prod.exhaust)
  have "check_arg K None None want nv = CheckOk nv" if "nv_Value nv = v" for nv
    using Cons.prems that by (simp add: a check_arg_def unless_skipped_def ccChecker_CheckNamedValue_def default_value)
  then show ?case using Cons.IH [of "n + 1" "[]"] Cons.prems by (auto simp: a)
qed simp

text \<open>
  On the connection: a driver that takes statements there sees the same conversion; one that does not sees none, and the wrapper's must
  not fail.
\<close>

lemma first_try:
  assumes "\<And>nvs. hides (f' ctx query nvs) (ctxDriverExec (ctx_Err E) wc pl ctx query nvs)"
    and "list_all (\<lambda>(name, v). driver_value (conv E) v) args" "wc \<noteq> None \<or> pl \<noteq> None \<or> cn_CheckNamedValue c = None"
  shows "hides (\<lambda>w. case driverArgsConnLocked (conv E) c None args of Inl e \<Rightarrow> (Inl e, w) | Inr nvs \<Rightarrow> f' ctx query nvs w)
      (\<lambda>s. if Option.is_none wc \<and> Option.is_none pl then (Inl ErrSkip, s)
           else case driverArgsConnLocked (conv E) c None args of Inl e \<Rightarrow> (Inl e, s)
           | Inr nvs \<Rightarrow> ctxDriverExec (ctx_Err E) wc pl ctx query nvs s)"
proof (cases "wc = None \<and> pl = None")
  case True
  then obtain nvs where "driverArgsConnLocked (conv E) c None args = Inr nvs"
    using assms(3) convert_args_ok [OF assms(2), of "- 1" 0 "[]"] by (auto simp: driverArgsConnLocked_def)
  then show ?thesis using assms(1) [of nvs] True by (simp add: hides_def ctxDriverExec_def)
next
  case False
  then show ?thesis using assms(1) by (auto simp: hides_def Option.is_none_def split: sum.split)
qed

lemma hides_db_run:
  assumes "\<And>nvs. hides (f' ctx query nvs) (ctxDriverExec (ctx_Err E) wc pl ctx query nvs)"
    and "\<And>st nvs. \<exists>f. sc (sqlStmt E note c query st) = Some f \<and> hides (f ctx nvs) (ctxDriverStmtExec (ctx_Err E) (sc' st) (sp' st) ctx nvs)"
    and "list_all (\<lambda>(name, v). driver_value (conv E) v) args" "wc \<noteq> None \<or> pl \<noteq> None \<or> cn_CheckNamedValue c = None"
  shows "hides (db_run (conv E) (viewed (ctx_Err E)) (newSqlConn E note c) (Some f') None sc sp ctx query args)
    (db_run (conv E) (ctx_Err E) c wc pl sc' sp' ctx query args)"
proof (rule hidesI)
  fix s t r s' t'
  assume run: "db_run (conv E) (viewed (ctx_Err E)) (newSqlConn E note c) (Some f') None sc sp ctx query args (s, t) = (r, (s', t'))"
  let ?first = "\<lambda>w. case driverArgsConnLocked (conv E) c None args of Inl e \<Rightarrow> (Inl e, w) | Inr nvs \<Rightarrow> f' ctx query nvs w"
  obtain r1 w1 where first: "?first (s, t) = (r1, w1)" by (rule prod.exhaust)
  note plain = hidesD [OF first_try [of f' ctx query E wc pl args c, OF assms(1,3,4)] first, unfolded fst_conv]
  have wrapped: "(case driverArgsConnLocked (conv E) c None args of Inl e \<Rightarrow> (Inl e, (s, t))
      | Inr nvs \<Rightarrow> ctxDriverExec (viewed (ctx_Err E)) (Some f') None ctx query nvs (s, t)) = (r1, w1)"
    using first by (simp add: ctxDriverExec_def split: sum.splits)
  obtain r2 s2 where prep: "ctxDriverPrepare (ctx_Err E) c ctx query (fst w1) = (r2, s2)" by fastforce
  show "db_run (conv E) (ctx_Err E) c wc pl sc' sp' ctx query args s = (r, s')"
  proof (cases "\<not> skipped r1 \<or> (\<exists>e. r2 = Inl e)")
    case True
    then show ?thesis
      using run by (auto simp: db_run_def plain conn_args wrapped prep prepare_hides prepare_def)
  next
    case False
    then obtain st where st: "r2 = Inr st" by (cases r2) auto
    obtain f where f: "sc (sqlStmt E note c query st) = Some f"
      and hf: "\<And>nvs. hides (f ctx nvs) (ctxDriverStmtExec (ctx_Err E) (sc' st) (sp' st) ctx nvs)" using assms(2) by (metis option.inject)
    have close: "st_Close (sqlStmt E note c query st) w = (st_Close st (fst w), snd w)" for w
      by (cases w) (simp add: sqlStmt_def)
    show ?thesis
    proof (cases "driverArgsConnLocked (conv E) c (Some st) args")
      case (Inl e)
      then show ?thesis
        using False st run by (auto simp: db_run_def plain conn_args wrapped prep prepare_hides prepare_def stmt_args [OF assms(3)] close)
    next
      case (Inr nvs)
      obtain r3 w3 where step: "f ctx nvs (s2, snd w1) = (r3, w3)" by (rule prod.exhaust)
      show ?thesis
        using False st run hidesD [OF hf step]
        by (auto simp: db_run_def plain conn_args wrapped prep prepare_hides prepare_def stmt_args [OF assms(3)] close Inr f
            ctxDriverStmtExec_def [of _ "Some f"] step)
    qed
  qed
qed

text \<open>What an application hands over: arguments that are driver values.\<close>

fun action_args :: "('c, 'v) db_action \<Rightarrow> (string \<times> 'v) list" where
  "action_args (Exec ctx query args) = args"
| "action_args (Query ctx query args) = args"
| "action_args (Ping ctx) = []"

definition plain_action :: "('v, 'e) converting \<Rightarrow> ('c, 'v) db_action \<Rightarrow> bool" where
  "plain_action K a \<longleftrightarrow> list_all (\<lambda>(name, v). driver_value K v) (action_args a)"

fun plain_request :: "('v, 'e) converting \<Rightarrow> ('c, 'v) db_request \<Rightarrow> bool" where
  "plain_request K (Plain a) \<longleftrightarrow> plain_action K a"
| "plain_request K (Transaction ctx opts acts keep) \<longleftrightarrow> list_all (plain_action K) acts"

text \<open>A connection that checks arguments also takes statements, so that its checker is asked with and without the wrapper.\<close>

definition checker_used :: "('c, 's, 'v, 'r, 'e) conn \<Rightarrow> bool" where
  "checker_used c \<longleftrightarrow> cn_CheckNamedValue c = None
     \<or> (cn_ExecContext c \<noteq> None \<or> cn_Exec c \<noteq> None) \<and> (cn_QueryContext c \<noteq> None \<or> cn_Query c \<noteq> None)"

lemma db_exec_hides:
  assumes "list_all (\<lambda>(name, v). driver_value (conv E) v) args" "checker_used c"
  shows "hides (db_exec (conv E) (viewed (ctx_Err E)) (newSqlConn E note c) ctx query args) (db_exec (conv E) (ctx_Err E) c ctx query args)"
  unfolding db_exec_def using assms
  by (subst (2 3) newSqlConn_def, simp only: conn.simps, intro hides_db_run)
    (use conn_call_hides stmt_call_hides in \<open>auto simp: sqlConn_ExecContext_def sqlStmt_def checker_used_def\<close>)

lemma db_query_hides:
  assumes "list_all (\<lambda>(name, v). driver_value (conv E) v) args" "checker_used c"
  shows "hides (db_query (conv E) (viewed (ctx_Err E)) (newSqlConn E note c) ctx query args) (db_query (conv E) (ctx_Err E) c ctx query args)"
  unfolding db_query_def using assms
  by (subst (2 3) newSqlConn_def, simp only: conn.simps, intro hides_db_run)
    (use conn_call_hides stmt_call_hides in \<open>auto simp: sqlConn_QueryContext_def sqlStmt_def checker_used_def\<close>)

lemma db_ping_hides: "hides (db_ping (newSqlConn E note c) ctx) (db_ping c ctx)"
  by (auto simp: hides_def db_ping_def newSqlConn_def lifted_eq split: option.splits)

text \<open>The transaction handed out, too, only hides the trace, whether or not its end is recorded.\<close>

lemma tx_hides:
  "hides (tx_Commit (sqlTx E note ctx tx)) (tx_Commit tx)" "hides (tx_Rollback (sqlTx E note ctx tx)) (tx_Rollback tx)"
  "hides (tx_Commit (plain_tx tx)) (tx_Commit tx)" "hides (tx_Rollback (plain_tx tx)) (tx_Rollback tx)"
  by (simp_all add: hides_def sqlTx_def plain_tx_def lifted_eq Let_def)

lemma begin_hides:
  assumes "ctxDriverBegin (viewed (ctx_Err E)) (newSqlConn E note c) ctx opts w = (r', w')"
  obtains r where "ctxDriverBegin (ctx_Err E) c ctx opts (fst w) = (r, fst w')"
    "(\<exists>e. r = Inl e \<and> r' = Inl e) \<or>
     (\<exists>tx tx'. r = Inr tx \<and> r' = Inr tx' \<and> hides (tx_Commit tx') (tx_Commit tx) \<and> hides (tx_Rollback tx') (tx_Rollback tx))"
proof -
  have "begun E note ctx op start r0 w0 = (r', w') \<Longrightarrow> fst w' = fst w0 \<and> ((\<exists>e. r0 = Inl e \<and> r' = Inl e) \<or>
     (\<exists>tx tx'. r0 = Inr tx \<and> r' = Inr tx' \<and> hides (tx_Commit tx') (tx_Commit tx) \<and> hides (tx_Rollback tx') (tx_Rollback tx)))" for op start r0 w0
    by (cases r0) (auto simp: begun_def tx_hides split: if_splits)
  note begun = this
  have run: "sqlConn_BeginTx E note c ctx opts w = (r', w')" using assms by (simp add: ctxDriverBegin_def newSqlConn_def)
  show thesis
  proof (cases "cn_BeginTx c")
    case (Some f)
    then have "begun E note ctx ''BeginTx'' (clock E (fst w)) (fst (f ctx opts (fst w))) (snd (f ctx opts (fst w)), snd w) = (r', w')"
      using run by (simp add: sqlConn_BeginTx_def lifted_eq)
    from begun [OF this] show thesis
      using Some by (intro that [of "fst (f ctx opts (fst w))"]) (simp_all add: ctxDriverBegin_def prod_eq_iff)
  next
    case None
    obtain r0 s0 where b: "cn_Begin c (fst w) = (r0, s0)" by fastforce
    show thesis
    proof (cases "Isolation opts \<noteq> 0 \<or> ReadOnly opts \<or> (\<exists>tx. r0 = Inr tx \<and> ctx_Err E ctx s0 \<noteq> None)")
      case True
      then have "\<exists>e. r' = Inl e \<and> ctxDriverBegin (ctx_Err E) c ctx opts (fst w) = (Inl e, fst w')"
        using run None b by (auto simp: sqlConn_BeginTx_def ctxDriverBegin_def lifted_eq Let_def split: if_splits)
      then show thesis using that by blast
    next
      case False
      then have "begun E note ctx ''Begin'' (clock E (fst w)) r0 (s0, snd w) = (r', w')"
        using run None b by (cases r0) (auto simp: sqlConn_BeginTx_def lifted_eq)
      from begun [OF this] show thesis
        using None False b by (intro that [of r0]) (auto simp: ctxDriverBegin_def split: sum.splits)
    qed
  qed
qed

lemma do_action_hides:
  assumes "plain_action (conv E) a" "checker_used c"
  shows "hides (do_action (conv E) (viewed (ctx_Err E)) (newSqlConn E note c) a) (do_action (conv E) (ctx_Err E) c a)"
  using assms db_exec_hides [of E _ c "note"] db_query_hides [of E _ c "note"] db_ping_hides [of E "note" c]
  by (cases a) (simp_all add: hides_def prod_eq_iff plain_action_def)

lemma hides_bind:
  assumes "hides f g" "hides f' g'"
  shows "hides (\<lambda>w. let (r, w) = f w in apfst (h r) (f' w)) (\<lambda>s. let (r, s) = g s in apfst (h r) (g' s))"
proof (rule hidesI)
  fix s t r s' t'
  assume run: "(let (r, w) = f (s, t) in apfst (h r) (f' w)) = (r, (s', t'))"
  obtain r1 w1 where 1: "f (s, t) = (r1, w1)" by (rule prod.exhaust)
  obtain r2 w2 where 2: "f' w1 = (r2, w2)" by (rule prod.exhaust)
  from run hidesD [OF assms(1) 1] hidesD [OF assms(2) 2] show "(let (r, s) = g s in apfst (h r) (g' s)) = (r, s')"
    by (auto simp: 1 2)
qed

lemma do_actions_hides:
  assumes "list_all (plain_action (conv E)) acts" "checker_used c"
  shows "hides (do_actions (conv E) (viewed (ctx_Err E)) (newSqlConn E note c) acts) (do_actions (conv E) (ctx_Err E) c acts)"
  using assms(1)
proof (induction acts)
  case (Cons a acts)
  then show ?case
    unfolding do_actions.simps by (intro hides_bind [OF do_action_hides [OF _ assms(2)]]) simp_all
qed (simp add: hides_def)

lemma do_request_hides:
  assumes "plain_request (conv E) q" "checker_used c"
  shows "hides (do_request (conv E) (viewed (ctx_Err E)) (newSqlConn E note c) q) (do_request (conv E) (ctx_Err E) c q)"
proof (cases q)
  case (Plain a)
  have "list_all (plain_action (conv E)) [a]" using assms(1) Plain by simp
  from do_actions_hides [OF this assms(2), of "note"] show ?thesis unfolding Plain hides_def do_request.simps .
next
  case (Transaction ctx opts acts kept)
  show ?thesis unfolding hides_def
  proof
    fix w
    obtain r' w' where b: "ctxDriverBegin (viewed (ctx_Err E)) (newSqlConn E note c) ctx opts w = (r', w')" by (rule prod.exhaust)
    obtain r where r: "ctxDriverBegin (ctx_Err E) c ctx opts (fst w) = (r, fst w')"
      "(\<exists>e. r = Inl e \<and> r' = Inl e) \<or>
       (\<exists>tx tx'. r = Inr tx \<and> r' = Inr tx' \<and> hides (tx_Commit tx') (tx_Commit tx) \<and> hides (tx_Rollback tx') (tx_Rollback tx))"
      using begin_hides [OF b] by blast
    have "list_all (plain_action (conv E)) acts" using assms(1) Transaction by simp
    note acts = do_actions_hides [OF this assms(2), of "note", unfolded hides_def, rule_format, of w']
    from r(2) show "apsnd fst (do_request (conv E) (viewed (ctx_Err E)) (newSqlConn E note c) q w) = do_request (conv E) (ctx_Err E) c q (fst w)"
    proof (elim disjE exE conjE)
      fix tx tx'
      assume tx: "r = Inr tx" "r' = Inr tx'" "hides (tx_Commit tx') (tx_Commit tx)" "hides (tx_Rollback tx') (tx_Rollback tx)"
      obtain rs w2 where w2: "do_actions (conv E) (viewed (ctx_Err E)) (newSqlConn E note c) acts w' = (rs, w2)" by (rule prod.exhaust)
      then have "do_actions (conv E) (ctx_Err E) c acts (fst w') = (rs, fst w2)" using acts by simp
      then show ?thesis using tx(3,4) [unfolded hides_def, rule_format, of w2]
        by (simp add: Transaction b r(1) tx(1,2) w2 case_prod_beta prod_eq_iff)
    qed (simp add: Transaction b r(1))
  qed
qed

text \<open>
  What one statement leaves in the trace: at most one call, with its text, arguments \<open>P\<close> holds of and the outcome; a success never goes
  unrecorded.
\<close>

definition recorded ::
  "(('c, 'v, 'e) db_call \<Rightarrow> 't \<Rightarrow> 't) \<Rightarrow> string \<Rightarrow> ('v named_value list \<Rightarrow> bool) \<Rightarrow> ('r, 'e) reply \<Rightarrow> 't \<Rightarrow> 't \<Rightarrow> bool" where
  "recorded note query P r t t' \<longleftrightarrow> (\<exists>calls. t' = fold note calls t \<and> length calls \<le> 1 \<and>
    list_all (\<lambda>call. dc_sql call = query \<and> P (dc_args call) \<and> dc_err call = err_of r) calls \<and> (err_of r = None \<longrightarrow> calls \<noteq> []))"

lemma recorded_none: "err_of r \<noteq> None \<Longrightarrow> recorded note query P r t t"
  unfolding recorded_def by (rule exI [of _ "[]"]) simp

lemma recorded_mono: "recorded note query ((=) nvs) r t t' \<Longrightarrow> P nvs \<Longrightarrow> recorded note query P r t t'"
  unfolding recorded_def by (fastforce simp: list_all_iff)

lemma recorded_one: "recorded note query ((=) args) r (snd w) (snd (record_call E note ctx op start (err_of r) query args w))"
  unfolding recorded_def record_call_def snd_conv
  by (rule exI [of _ "[\<lparr>dc_ctx = ctx, dc_operation = op, dc_start = start, dc_end = clock E (fst w), dc_err = err_of r, dc_sql = query, dc_args = args\<rparr>]"]) simp

lemma err_Inl [simp]: "err_of (Inl e) \<noteq> None"
  by (simp add: err_of_def)

lemma conn_call_records:
  assumes "conn_call E note o1 o2 wc pl ctx query args w = (r, w')"
  shows "if skipped r then snd w' = snd w else recorded note query ((=) args) r (snd w) (snd w')"
proof -
  have one: "recorded note query ((=) args) r' t (snd (record_call E note ctx op start (err_of r') query args (s', t)))" for r' t op start s'
    using recorded_one [of "note" query args r' "(s', t)"] by simp
  show ?thesis
    using assms by (auto simp: conn_call_def lifted_eq one recorded_none Let_def skipped_def split: option.splits sum.splits if_splits)
qed

lemma stmt_call_records:
  assumes "stmt_call E note o1 o2 wc pl query ctx args w = (r, w')"
  shows "recorded note query ((=) args) r (snd w) (snd w')"
proof -
  have one: "recorded note query ((=) args) r' t (snd (record_call E note ctx op start (err_of r') query args (s', t)))" for r' t op start s'
    using recorded_one [of "note" query args r' "(s', t)"] by simp
  show ?thesis
    using assms by (auto simp: stmt_call_def lifted_eq one recorded_none Let_def split: option.splits sum.splits)
qed

text \<open>
  The arguments a statement can reach the driver with: converted for the connection, or for a statement the driver prepared for it.
\<close>

definition handed_over ::
  "('c, 's, 'v, 'e) db_env \<Rightarrow> (('c, 'v, 'e) db_call \<Rightarrow> 't \<Rightarrow> 't) \<Rightarrow> ('c, 's, 'v, 'r, 'e) conn \<Rightarrow> 'c \<Rightarrow> string \<Rightarrow> (string \<times> 'v) list
     \<Rightarrow> 'v named_value list \<Rightarrow> bool" where
  "handed_over E note c ctx query args nvs \<longleftrightarrow>
     driverArgsConnLocked (conv E) c None args = Inr nvs
     \<or> (\<exists>s st. fst (ctxDriverPrepare (ctx_Err E) c ctx query s) = Inr st
          \<and> driverArgsConnLocked (conv E) (newSqlConn E note c) (Some (sqlStmt E note c query st)) args = Inr nvs)"

lemma first_records:
  assumes "(case driverArgsConnLocked (conv E) c None args of Inl e \<Rightarrow> (Inl e, w)
      | Inr nvs \<Rightarrow> ctxDriverExec cerr (Some (conn_call E note o1 o2 wc pl)) None ctx query nvs w) = (r, w')"
  shows "if skipped r then snd w' = snd w else recorded note query (handed_over E note c ctx query args) r (snd w) (snd w')"
proof (cases "driverArgsConnLocked (conv E) c None args")
  case (Inl e)
  have "e \<noteq> ErrSkip" using Inl convert_args_error [of _ 0 "[]" args e] by (auto simp: driverArgsConnLocked_def)
  with Inl assms show ?thesis by (auto simp: skipped_def recorded_none split: db_error.splits)
next
  case (Inr nvs)
  then have "conn_call E note o1 o2 wc pl ctx query nvs w = (r, w')" using assms by (simp add: ctxDriverExec_def)
  moreover have "handed_over E note c ctx query args nvs" using Inr by (simp add: handed_over_def)
  ultimately show ?thesis
    using conn_call_records [of E "note" o1 o2 wc pl ctx query nvs w r w'] recorded_mono [of "note" query nvs r "snd w" "snd w'"]
    by (simp split: if_splits)
qed

lemma db_run_records:
  assumes "db_run (conv E) (viewed (ctx_Err E)) (newSqlConn E note c) (Some (conn_call E note o1 o2 wc pl)) None sc sp ctx query args w = (r, w')"
    and "\<And>st. \<exists>o3 o4 sc' pl'. sc (sqlStmt E note c query st) = Some (stmt_call E note o3 o4 sc' pl' query)"
  shows "recorded note query (handed_over E note c ctx query args) r (snd w) (snd w')"
proof -
  obtain r1 w1 where first: "(case driverArgsConnLocked (conv E) c None args of Inl e \<Rightarrow> (Inl e, w)
      | Inr nvs \<Rightarrow> ctxDriverExec (viewed (ctx_Err E)) (Some (conn_call E note o1 o2 wc pl)) None ctx query nvs w) = (r1, w1)"
    by (rule prod.exhaust)
  note one = first_records [OF first]
  obtain r2 s2 where prep: "ctxDriverPrepare (ctx_Err E) c ctx query (fst w1) = (r2, s2)" by (rule prod.exhaust)
  show ?thesis
  proof (cases "\<not> skipped r1 \<or> (\<exists>e. r2 = Inl e)")
    case True
    then show ?thesis
      using assms(1) one by (cases "skipped r1") (auto simp: db_run_def conn_args first prep prepare_hides prepare_def recorded_none)
  next
    case False
    then obtain st where st: "skipped r1" "r2 = Inr st" by (cases r2) auto
    obtain o3 o4 sc' pl' where sc: "sc (sqlStmt E note c query st) = Some (stmt_call E note o3 o4 sc' pl' query)" using assms(2) by blast
    have close: "snd (st_Close (sqlStmt E note c query st) v) = snd v" for v by (cases v) (simp add: sqlStmt_def)
    show ?thesis
    proof (cases "driverArgsConnLocked (conv E) (newSqlConn E note c) (Some (sqlStmt E note c query st)) args")
      case (Inl e)
      then show ?thesis
        using st one assms(1) close [of "(s2, snd w1)"] by (auto simp: db_run_def conn_args first prep prepare_hides prepare_def recorded_none)
    next
      case (Inr nvs)
      obtain r3 w3 where step: "stmt_call E note o3 o4 sc' pl' query ctx nvs (s2, snd w1) = (r3, w3)" by (rule prod.exhaust)
      have "handed_over E note c ctx query args nvs"
        using prep st(2) Inr unfolding handed_over_def by (intro disjI2 exI [of _ "fst w1"] exI [of _ st]) simp
      moreover have "r = r3" "snd w' = snd w3"
        using st assms(1) close [of w3]
        by (auto simp: db_run_def conn_args first prep prepare_hides prepare_def Inr sc ctxDriverStmtExec_def step)
      ultimately show ?thesis
        using stmt_call_records [OF step] recorded_mono [of "note" query nvs r3 "snd w1" "snd w3"] one st(1) by simp
    qed
  qed
qed

section \<open>Properties\<close>

text \<open>
  (C20) For arguments that are driver values (\<^verbatim>\<open>int64\<close>, \<^verbatim>\<open>string\<close>, \<^verbatim>\<open>time.Time\<close> and the other types \<^verbatim>\<open>driver.IsValue\<close> accepts) the application cannot tell an
  instrumented driver from the plain one. Over any sequence of statements, pings and transactions, with contexts that end at any moment and any settings, \<^verbatim>\<open>database/sql\<close>
  gets the same answers from the wrapped connection as from the driver's own, errors included, and the driver and its database go through
  the same states. The driver may have any choice of the optional interfaces, checkers and column converters of its own, with one limit: a
  connection with an argument checker also takes statements. Arguments of other types are left out: there the wrapper can be seen.
\<close>

theorem wrapped_driver_transparent:
  assumes "list_all (plain_request (conv E)) qs" "checker_used c"
  shows "apsnd fst (do_requests (conv E) (viewed (ctx_Err E)) (newSqlConn E note c) qs (s, t)) = do_requests (conv E) (ctx_Err E) c qs s"
proof -
  have "hides (do_requests (conv E) (viewed (ctx_Err E)) (newSqlConn E note c) qs) (do_requests (conv E) (ctx_Err E) c qs)"
    using assms(1)
  proof (induction qs)
    case (Cons q qs)
    then show ?case unfolding do_requests.simps by (intro hides_bind [OF do_request_hides [OF _ assms(2)]]) simp_all
  qed (simp add: hides_def)
  then show ?thesis by (simp add: hides_def)
qed

text \<open>
  (C21) Every statement is recorded, and once. Executing or querying through the wrapped connection records at most one call, whether
  the driver takes the statement on the connection or has it prepared first; that call carries the statement, its arguments as
  \<^verbatim>\<open>database/sql\<close> converted them for that call, and the outcome the application sees, and a statement that succeeded is never left out.
\<close>

theorem statements_recorded_once:
  assumes "(if qy then db_query else db_exec) (conv E) (viewed (ctx_Err E)) (newSqlConn E note c) ctx query args (s, t) = (r, (s', t'))"
  shows "\<exists>calls. t' = fold note calls t \<and> length calls \<le> 1 \<and>
    list_all (\<lambda>call. dc_sql call = query \<and> handed_over E note c ctx query args (dc_args call) \<and> dc_err call = err_of r) calls
    \<and> (err_of r = None \<longrightarrow> calls \<noteq> [])"
proof -
  let ?run = "\<lambda>o1 o2 wc pl sc sp. db_run (conv E) (viewed (ctx_Err E)) (newSqlConn E note c) (Some (conn_call E note o1 o2 wc pl)) None sc sp ctx query args (s, t)"
  have "recorded note query (handed_over E note c ctx query args) r t t'"
  proof (cases qy)
    case True
    then have "?run ''ConnQueryContext'' ''ConnQuery'' (cn_QueryContext c) (cn_Query c) st_QueryContext st_Query = (r, (s', t'))"
      using assms by (simp add: db_query_def) (simp add: newSqlConn_def sqlConn_QueryContext_def)
    from db_run_records [OF this] show ?thesis by (fastforce simp: sqlStmt_def)
  next
    case False
    then have "?run ''ConnExecContext'' ''ConnExec'' (cn_ExecContext c) (cn_Exec c) st_ExecContext st_Exec = (r, (s', t'))"
      using assms by (simp add: db_exec_def) (simp add: newSqlConn_def sqlConn_ExecContext_def)
    from db_run_records [OF this] show ?thesis by (fastforce simp: sqlStmt_def)
  qed
  then show ?thesis unfolding recorded_def .
qed

text \<open>A driver that only prepares, over a counter of the statements run.\<close>

text \<open>A driver that only prepares, over a counter of the statements run, and whose statements convert one type of their own.\<close>

datatype demo_value = Int64 int | Custom int

definition counting_stmt :: "(unit, nat, demo_value, nat, unit) stmt" where
  "counting_stmt = \<lparr>st_ExecContext = None, st_Exec = (\<lambda>_ n. (Inr n, Suc n)), st_QueryContext = None, st_Query = (\<lambda>_ n. (Inr n, Suc n)),
     st_Close = id, st_NumInput = 1, st_CheckNamedValue = None,
     st_ColumnConverter = Some (\<lambda>_ v. case v of Int64 i \<Rightarrow> Inr (Int64 i) | Custom i \<Rightarrow> Inr (Int64 i))\<rparr>"

definition counting_conn :: "(unit, nat, demo_value, nat, unit) conn" where
  "counting_conn = \<lparr>cn_ExecContext = None, cn_Exec = None, cn_QueryContext = None, cn_Query = None, cn_PrepareContext = None,
     cn_Prepare = (\<lambda>_ n. (Inr counting_stmt, n)), cn_BeginTx = None, cn_Begin = (\<lambda>n. (Inl (DbError ()), n)), cn_Ping = None,
     cn_CheckNamedValue = None, cn_ResetSession = None, cn_IsValid = None\<rparr>"

definition quiet_env :: "(unit, nat, demo_value, unit) db_env" where
  "quiet_env = \<lparr>ctx_Err = (\<lambda>_ _. None), clock = int, trace_commit = (\<lambda>_. True), trace_rollback = (\<lambda>_. True),
     conv = \<lparr>DefaultParameterConverter = (\<lambda>v. case v of Int64 i \<Rightarrow> Inr v | Custom i \<Rightarrow> Inl (DbError ())),
       IsValue = (\<lambda>v. case v of Int64 i \<Rightarrow> True | Custom i \<Rightarrow> False), callValuer = (\<lambda>_. None)\<rparr>\<rparr>"

lemmas db_eval =
  db_exec_def db_run_def ctxDriverExec_def ctxDriverStmtExec_def ctxDriverPrepare_def newSqlConn_def sqlConn_ExecContext_def
  sqlConn_PrepareContext_def conn_call_def counting_conn_def quiet_env_def lifted_def skipped_def prepare_def sqlStmt_def stmt_call_def
  counting_stmt_def legacyArgs_def record_call_def Let_def driverArgsConnLocked_def check_arg_def unless_skipped_def
  ccChecker_CheckNamedValue_def defaultCheckNamedValue_def valuer_value_def without_context_def

theorem wrapped_driver_transparent_witness:
  "apsnd fst (do_requests (conv quiet_env) (viewed (ctx_Err quiet_env)) (newSqlConn quiet_env (\<lambda>call log. log @ [dc_sql call]) counting_conn)
      [Plain (Exec () ''SELECT ?'' [([], Int64 7)])] (4, [])) = ([Answered (Inr 4)], 5)"
proof -
  have plain: "list_all (plain_request (conv quiet_env)) [Plain (Exec () ''SELECT ?'' [([], Int64 7)])]"
    by (simp add: plain_action_def driver_value_def quiet_env_def)
  have "checker_used counting_conn" by (simp add: checker_used_def counting_conn_def)
  from wrapped_driver_transparent [OF plain this] show ?thesis by (simp add: db_eval)
qed

text \<open>
  Where the wrapper can be seen: the driver's statements convert \<open>Custom\<close>, but the wrapped connection always takes statements, so that
  \<^verbatim>\<open>database/sql\<close> converts the arguments for it first, by default, and fails.
\<close>

theorem custom_type_visible:
  "db_exec (conv quiet_env) (ctx_Err quiet_env) counting_conn () ''SELECT ?'' [([], Custom 7)] 4 = (Inr 4, 5)
   \<and> db_exec (conv quiet_env) (viewed (ctx_Err quiet_env)) (newSqlConn quiet_env (\<lambda>call log. log @ [dc_sql call]) counting_conn)
       () ''SELECT ?'' [([], Custom 7)] (4, []) = (Inl (ErrConvert 1 (DbError ())), (4, []))"
  by (simp add: db_eval)

theorem statements_recorded_once_witness:
  "\<exists>log. db_exec (conv quiet_env) (viewed (ctx_Err quiet_env)) (newSqlConn quiet_env (\<lambda>call log. log @ [dc_sql call]) counting_conn)
        () ''SELECT ?'' [([], Int64 7)] (4, []) = (Inr 4, (5, log))
     \<and> (\<exists>calls :: (unit, demo_value, unit) db_call list. log = fold (\<lambda>call log. log @ [dc_sql call]) calls [] \<and> length calls \<le> 1 \<and> calls \<noteq> [])"
proof -
  let ?note = "\<lambda>call log. log @ [dc_sql call]"
  have run: "(if False then db_query else db_exec) (conv quiet_env) (viewed (ctx_Err quiet_env)) (newSqlConn quiet_env ?note counting_conn)
      () ''SELECT ?'' [([], Int64 7)] (4, []) = (Inr 4, (5, [''SELECT ?'']))"
    by (simp add: db_eval)
  from statements_recorded_once [OF run] show ?thesis using run by (auto simp: err_of_def)
qed

end
