(* ===== verification/Config_Watcher.thy ===== *)
theory Config_Watcher
  imports Config
begin

text \<open>
  The poller of the config file (\<^verbatim>\<open>src/config_watcher.go\<close>): it compares the file's modification time and size with those it saw
  last and reloads the file when they differ. The file is a sequence of versions that a writer goes through at any moment,
  also between the poller's look at the stamp and its read of the contents. \<open>NewConfig\<close> starts the poller after its own read of
  the file, \<open>NewAgent\<close> starts it again on a reused configuration and reloads once itself (\<^verbatim>\<open>src/agent.go\<close>).
\<close>

section \<open>Stamps\<close>

record fileStamp =
  fs_modTime :: int
  fs_size :: int

definition same :: "fileStamp \<Rightarrow> fileStamp \<Rightarrow> bool" where
  "same s o1 \<longleftrightarrow> fs_size s = fs_size o1 \<and> fs_modTime s = fs_modTime o1"

text \<open>What a version of the file looks like: \<open>None\<close> is a file \<^verbatim>\<open>os.Stat\<close> does not find.\<close>

record 'f disk =
  stamp_of :: "nat \<Rightarrow> fileStamp option"
  content_of :: "nat \<Rightarrow> 'f file_result"

definition baseline :: "fileStamp option \<Rightarrow> fileStamp" where
  "baseline st = (case st of Some s \<Rightarrow> s | None \<Rightarrow> \<lparr>fs_modTime = 0, fs_size = 0\<rparr>)"

text \<open>A tick of the poller: the stamp it moves to when it reloads.\<close>

definition pollConfigFile :: "fileStamp \<Rightarrow> fileStamp option \<Rightarrow> fileStamp option" where
  "pollConfigFile lst st = (case st of None \<Rightarrow> None | Some s \<Rightarrow> if fs_size s = 0 \<or> same s lst then None else Some s)"

section \<open>The poller\<close>

text \<open>
  Where the goroutine of \<open>pollConfigFile\<close> is: waiting for a tick with the stamp it holds, about to reload, or running the
  callbacks of a reload it has published. The number is the version of the file its stamp was taken from.
\<close>

datatype poller = Polling fileStamp nat | Rereading fileStamp nat | Notifying fileStamp nat

text \<open>
  \<open>poll\<close> is \<open>None\<close> while \<open>watcherStop\<close> is nil. \<open>closing\<close>: \<open>Close\<close> has closed \<open>watcherStop\<close> and waits, holding \<open>watchMu\<close>. \<open>abandoned\<close> are the
  pollers \<open>Close\<close> gave up waiting for. \<open>restarting\<close>: \<open>NewAgent\<close>'s own reload is still to come. \<open>read_versions\<close> are the versions read, newest
  first.
\<close>

record 'f watch =
  version :: nat
  poll :: "poller option"
  closing :: bool
  abandoned :: "poller list"
  restarting :: bool
  watched :: "'f Config"
  read_versions :: "nat list"

definition startConfigWatcher :: "'f disk \<Rightarrow> 'f watch \<Rightarrow> bool \<times> 'f watch" where
  "startConfigWatcher D s =
     (if configFileCfg (watched s) = None \<or> poll s \<noteq> None then (False, s)
      else (True, s\<lparr>poll := Some (Polling (baseline (stamp_of D (version s))) (version s))\<rparr>))"

text \<open>\<open>reloadConfig\<close> reads the file and publishes under \<open>config.mu\<close>; the callbacks run after it is released.\<close>

definition read_file :: "'f cfg_env \<Rightarrow> 'f disk \<Rightarrow> 'f watch \<Rightarrow> 'f watch" where
  "read_file E D s = s\<lparr>watched := snd (reloadConfig E (content_of D (version s)) (watched s)), read_versions := version s # read_versions s\<rparr>"

text \<open>An action of a poller goroutine, the one that was told to stop included: \<open>select\<close> may still take the tick.\<close>

inductive poller_act :: "'f cfg_env \<Rightarrow> 'f disk \<Rightarrow> poller \<Rightarrow> 'f watch \<Rightarrow> poller \<Rightarrow> 'f watch \<Rightarrow> bool" for E D where
  tick: "pollConfigFile lst (stamp_of D (version s)) = Some st \<Longrightarrow> poller_act E D (Polling lst v) s (Rereading st (version s)) s"
| reread: "poller_act E D (Rereading st v) s (Notifying st v) (read_file E D s)"
| notified: "poller_act E D (Notifying st v) s (Polling st v) s"

inductive_cases poller_actE: "poller_act E D p s p' s'"

definition poller_step :: "'f cfg_env \<Rightarrow> 'f disk \<Rightarrow> 'f watch \<Rightarrow> 'f watch \<Rightarrow> bool" where
  "poller_step E D s s' \<longleftrightarrow> (\<exists>p p' s1. poll s = Some p \<and> poller_act E D p s p' s1 \<and> s' = s1\<lparr>poll := Some p'\<rparr>)"

inductive watch_step :: "'f cfg_env \<Rightarrow> 'f disk \<Rightarrow> 'f watch \<Rightarrow> 'f watch \<Rightarrow> bool" for E D where
  poller: "poller_step E D s s' \<Longrightarrow> watch_step E D s s'"
| rewrite: "watch_step E D s (s\<lparr>version := Suc (version s)\<rparr>)"
| restart: "startConfigWatcher D s = (True, s') \<Longrightarrow> \<not> restarting s \<Longrightarrow> watch_step E D s (s'\<lparr>restarting := True\<rparr>)"
| agent_reload: "restarting s \<Longrightarrow> watch_step E D s ((read_file E D s)\<lparr>restarting := False\<rparr>)"
| close_begin: "poll s = Some p \<Longrightarrow> \<not> closing s \<Longrightarrow> watch_step E D s (s\<lparr>closing := True\<rparr>)"
| close_done: "poll s = Some (Polling lst v) \<Longrightarrow> closing s \<Longrightarrow> watch_step E D s (s\<lparr>poll := None, closing := False\<rparr>)"
| close_timeout: "poll s = Some p \<Longrightarrow> closing s \<Longrightarrow> watch_step E D s (s\<lparr>poll := None, closing := False, abandoned := p # abandoned s\<rparr>)"
| abandoned_act: "i < length (abandoned s) \<Longrightarrow> poller_act E D (abandoned s ! i) s p s' \<Longrightarrow>
    watch_step E D s (s'\<lparr>abandoned := (abandoned s)[i := p]\<rparr>)"
| abandoned_exit: "abandoned s = ps @ Polling lst v # qs \<Longrightarrow> watch_step E D s (s\<lparr>abandoned := ps @ qs\<rparr>)"

text \<open>\<open>NewConfig\<close> has read version \<open>v0\<close> of the file and started the poller when the file was at version \<open>v1\<close>.\<close>

inductive watch_reachable :: "'f cfg_env \<Rightarrow> 'f disk \<Rightarrow> 'f watch \<Rightarrow> bool" for E D where
  init: "v0 \<le> v1 \<Longrightarrow> configFileCfg c \<noteq> None \<Longrightarrow>
    watch_reachable E D \<lparr>version = v1, poll = Some (Polling (baseline (stamp_of D v1)) v1), closing = False, abandoned = [],
      restarting = False, watched = c, read_versions = [v0]\<rparr>"
| step: "watch_reachable E D s \<Longrightarrow> watch_step E D s s' \<Longrightarrow> watch_reachable E D s'"

section \<open>Invariant\<close>

fun poller_ok :: "'f disk \<Rightarrow> 'f watch \<Rightarrow> poller \<Rightarrow> bool" where
  "poller_ok D s (Polling lst v) \<longleftrightarrow> v \<le> version s \<and> baseline (stamp_of D v) = lst
     \<and> (tl (read_versions s) = [] \<or> restarting s \<or> v \<le> hd (read_versions s))"
| "poller_ok D s (Rereading st v) \<longleftrightarrow> v \<le> version s \<and> stamp_of D v = Some st"
| "poller_ok D s (Notifying st v) \<longleftrightarrow> v \<le> version s \<and> stamp_of D v = Some st \<and> v \<le> hd (read_versions s)"

definition watch_inv :: "'f cfg_env \<Rightarrow> 'f disk \<Rightarrow> 'f watch \<Rightarrow> bool" where
  "watch_inv E D s \<longleftrightarrow> read_versions s \<noteq> [] \<and> hd (read_versions s) \<le> version s
     \<and> (case poll s of None \<Rightarrow> True | Some p \<Rightarrow> poller_ok D s p)
     \<and> (tl (read_versions s) = [] \<or> (\<exists>c. watched s = snd (reloadConfig E (content_of D (hd (read_versions s))) c)))"

lemma poller_stepI: "poll s = Some p \<Longrightarrow> poller_act E D p s p' s1 \<Longrightarrow> poller_step E D s (s1\<lparr>poll := Some p'\<rparr>)"
  by (auto simp: poller_step_def)

lemma pollConfigFile_Some: "pollConfigFile lst st = Some s \<Longrightarrow> st = Some s"
  by (auto simp: pollConfigFile_def split: option.splits if_splits)

text \<open>What the pollers do leaves the invariant to the reads: reading the file again keeps every poller consistent.\<close>

lemma read_file_poller_ok: "poller_ok D s p \<Longrightarrow> poller_ok D (read_file E D s) p"
  by (cases p) (auto simp: read_file_def)

lemma poller_ok_cong:
  "version s' = version s \<Longrightarrow> read_versions s' = read_versions s \<Longrightarrow> restarting s' = restarting s \<Longrightarrow> poller_ok D s' p = poller_ok D s p"
  by (cases p) auto

lemma poller_act_inv:
  assumes "poller_act E D p s p' s'" "watch_inv E D s"
  shows "watch_inv E D s' \<and> poll s' = poll s \<and> abandoned s' = abandoned s \<and> (poller_ok D s p \<longrightarrow> poller_ok D s' p')"
  using assms
proof (induction rule: poller_act.induct)
  case (tick lst s st v)
  then show ?case by (auto dest: pollConfigFile_Some)
next
  case (reread st v s)
  have "watch_inv E D (read_file E D s)"
    using reread read_file_poller_ok [of D s _ E] by (auto simp: watch_inv_def split: option.splits) (auto simp: read_file_def)
  then show ?case by (auto simp: read_file_def)
qed (auto simp: baseline_def)

lemma watch_step_inv: "watch_step E D s s' \<Longrightarrow> watch_inv E D s \<Longrightarrow> watch_inv E D s'"
proof (induction rule: watch_step.induct)
  case (poller s s')
  then obtain p p' s1 where p: "poll s = Some p" "poller_act E D p s p' s1" "s' = s1\<lparr>poll := Some p'\<rparr>" by (auto simp: poller_step_def)
  have "poller_ok D s p" using poller.prems p(1) by (simp add: watch_inv_def)
  with poller_act_inv [OF p(2) poller.prems] have "watch_inv E D s1" "poller_ok D s1 p'" by auto
  then show ?case by (auto simp: watch_inv_def p(3) poller_ok_cong [of "s1\<lparr>poll := Some p'\<rparr>" s1])
next
  case (rewrite s)
  then show ?case by (auto simp: watch_inv_def split: option.splits elim!: poller_ok.elims)
next
  case (restart s s')
  then show ?case by (auto simp: watch_inv_def startConfigWatcher_def split: if_splits)
next
  case (agent_reload s)
  then show ?case by (auto simp: watch_inv_def read_file_def split: option.splits elim!: poller_ok.elims)
next
  case (abandoned_act i s p s')
  have inv: "watch_inv E D s'" using poller_act_inv [OF abandoned_act.hyps(2) abandoned_act.prems] by simp
  have "poller_ok D (s'\<lparr>abandoned := xs\<rparr>) q = poller_ok D s' q" for xs q by (rule poller_ok_cong) simp_all
  then show ?case using inv by (auto simp: watch_inv_def split: option.splits)
qed (auto simp: watch_inv_def split: option.splits elim!: poller_ok.elims)

lemma watch_reachable_inv: "watch_reachable E D s \<Longrightarrow> watch_inv E D s"
proof (induction rule: watch_reachable.induct)
  case (init v0 v1 c)
  then show ?case by (simp add: watch_inv_def)
qed (rule watch_step_inv)

section \<open>Properties\<close>

text \<open>
  What the poller takes for granted of the file system, as its comment says: a stamp stands for the contents it was seen with, so
  it does not come back with others before or behind it. A rewrite of the same size within the granularity of the time stamps
  breaks this, and such a rewrite is missed.
\<close>

definition stamps_mark_contents :: "'f disk \<Rightarrow> bool" where
  "stamps_mark_contents D \<longleftrightarrow> (\<forall>v u w. v \<le> u \<and> u \<le> w \<and> stamp_of D v = stamp_of D w \<and> stamp_of D w \<noteq> None \<longrightarrow> content_of D u = content_of D w)"

text \<open>
  (C22) A config file that has settled is in force, provided that it is there, is not empty (an empty file is never applied) and that its
  stamps tell its contents apart (no rewrite of the same size within the granularity of the time stamps). Under these
  assumptions, whatever rewrites, reloads, stops, abandoned reloads and restarts came before - a rewrite between the poller's look and its
  read included - once a reload has happened and the file stays as it is, the poller, unless told to stop, brings the configuration to
  a reload of exactly these contents by its own steps, at its next tick at the latest, and then rests.
\<close>

theorem settled_file_applied:
  assumes "watch_reachable E D s" "poll s = Some (Polling lst v)" "\<not> restarting s" "tl (read_versions s) \<noteq> []"
    and "stamp_of D (version s) = Some st" "fs_size st \<noteq> 0" "stamps_mark_contents D"
  shows "\<exists>s' c v'. rtranclp (poller_step E D) s s' \<and> version s' = version s \<and> watched s' = snd (reloadConfig E (content_of D (version s)) c)
    \<and> poll s' = Some (Polling st v') \<and> (\<nexists>s''. poller_step E D s' s'')"
proof -
  have rests: "\<nexists>s''. poller_step E D s' s''" if "poll s' = Some (Polling st v')" "version s' = version s" for s' v'
    using that assms(5) by (auto simp: poller_step_def pollConfigFile_def same_def elim!: poller_actE)
  show ?thesis
  proof (cases "pollConfigFile lst (Some st)")
    case None
    note inv = watch_reachable_inv [OF assms(1)]
    have lst: "lst = st" using None assms(6) by (simp add: pollConfigFile_def same_def split: if_splits)
    then have "baseline (stamp_of D v) = st" using inv assms(2) by (simp add: watch_inv_def)
    then have "stamp_of D v = Some st" using assms(6) by (auto simp: baseline_def split: option.splits)
    moreover have "v \<le> hd (read_versions s)" "hd (read_versions s) \<le> version s"
      using inv assms(2-4) by (auto simp: watch_inv_def)
    ultimately have "content_of D (hd (read_versions s)) = content_of D (version s)"
      using assms(5,7) by (simp add: stamps_mark_contents_def)
    moreover obtain c where "watched s = snd (reloadConfig E (content_of D (hd (read_versions s))) c)"
      using inv assms(4) by (auto simp: watch_inv_def)
    ultimately show ?thesis using assms(2) lst rests by (intro exI [of _ s] exI [of _ c] exI [of _ v]) simp
  next
    case (Some st')
    then have st': "st' = st" using pollConfigFile_Some by fastforce
    let ?s1 = "s\<lparr>poll := Some (Rereading st (version s))\<rparr>"
    let ?s2 = "(read_file E D ?s1)\<lparr>poll := Some (Notifying st (version s))\<rparr>"
    let ?s3 = "?s2\<lparr>poll := Some (Polling st (version s))\<rparr>"
    have "poller_step E D s ?s1" by (rule poller_stepI [OF assms(2) poller_act.tick]) (simp add: assms(5) Some st')
    moreover have "poller_step E D ?s1 ?s2" by (rule poller_stepI [OF _ poller_act.reread]) simp
    moreover have "poller_step E D ?s2 ?s3" by (rule poller_stepI [OF _ poller_act.notified]) simp
    ultimately have "rtranclp (poller_step E D) s ?s3" by (meson rtranclp.rtrancl_into_rtrancl rtranclp.rtrancl_refl)
    moreover have sel: "version ?s3 = version s" "watched ?s3 = snd (reloadConfig E (content_of D (version s)) (watched s))"
      "poll ?s3 = Some (Polling st (version s))"
      by (simp_all add: read_file_def)
    moreover have "\<nexists>s''. poller_step E D ?s3 s''" by (rule rests [OF sel(3,1)])
    ultimately show ?thesis by blast
  qed
qed

text \<open>A file written once while the poller runs, and once more between the poller's look and its read.\<close>

definition rewritten :: "unit disk" where
  "rewritten = \<lparr>stamp_of = (\<lambda>v. Some \<lparr>fs_modTime = int v, fs_size = 1\<rparr>), content_of = (\<lambda>v. Tree [])\<rparr>"

lemma rewritten_polls:
  "stamp_of rewritten v = Some \<lparr>fs_modTime = int v, fs_size = 1\<rparr>"
  "pollConfigFile \<lparr>fs_modTime = 0, fs_size = 1\<rparr> (Some \<lparr>fs_modTime = 1, fs_size = 1\<rparr>) = Some \<lparr>fs_modTime = 1, fs_size = 1\<rparr>"
  "pollConfigFile \<lparr>fs_modTime = 1, fs_size = 1\<rparr> (Some \<lparr>fs_modTime = 1, fs_size = 1\<rparr>) = None" "baseline (Some st) = st"
  by (simp_all add: rewritten_def pollConfigFile_def same_def baseline_def)

theorem settled_file_applied_witness:
  "\<exists>s s' c v v'. watch_reachable plain_env rewritten s \<and> version s = 2 \<and> poll s = Some (Polling \<lparr>fs_modTime = 1, fs_size = 1\<rparr> v)
     \<and> rtranclp (poller_step plain_env rewritten) s s' \<and> watched s' = snd (reloadConfig plain_env (Tree []) c)
     \<and> poll s' = Some (Polling \<lparr>fs_modTime = 2, fs_size = 1\<rparr> v')"
proof -
  define c0 :: "unit Config" where "c0 = (defaultConfig plain_env initConfig)\<lparr>configFileCfg := Some ''pinpoint.yaml''\<rparr>"
  define s0 :: "unit watch" where "s0 = \<lparr>version = 0, poll = Some (Polling (baseline (stamp_of rewritten 0)) 0), closing = False, abandoned = [],
    restarting = False, watched = c0, read_versions = [0]\<rparr>"
  define s1 where "s1 = s0\<lparr>version := Suc (version s0)\<rparr>"
  define s2 where "s2 = s1\<lparr>poll := Some (Rereading \<lparr>fs_modTime = 1, fs_size = 1\<rparr> (version s1))\<rparr>"
  define s3 where "s3 = s2\<lparr>version := Suc (version s2)\<rparr>"
  define s4 where "s4 = (read_file plain_env rewritten s3)\<lparr>poll := Some (Notifying \<lparr>fs_modTime = 1, fs_size = 1\<rparr> 1)\<rparr>"
  define s5 where "s5 = s4\<lparr>poll := Some (Polling \<lparr>fs_modTime = 1, fs_size = 1\<rparr> 1)\<rparr>"
  note defs = s0_def s1_def s2_def s3_def
  have "watch_reachable plain_env rewritten s0" unfolding s0_def by (rule watch_reachable.init) (simp_all add: c0_def)
  from watch_reachable.step [OF this watch_step.rewrite] have r1: "watch_reachable plain_env rewritten s1" by (simp add: s1_def)
  have "watch_step plain_env rewritten s1 s2"
    unfolding s2_def by (rule watch_step.poller, rule poller_stepI [OF _ poller_act.tick [where lst = "\<lparr>fs_modTime = 0, fs_size = 1\<rparr>" and v = 0]])
      (simp_all add: defs rewritten_polls)
  from watch_reachable.step [OF watch_reachable.step [OF r1 this] watch_step.rewrite]
  have r3: "watch_reachable plain_env rewritten s3" by (simp add: s3_def)
  have "watch_step plain_env rewritten s3 s4" unfolding s4_def by (rule watch_step.poller, rule poller_stepI [OF _ poller_act.reread]) (simp add: defs)
  moreover have "watch_step plain_env rewritten s4 s5" unfolding s5_def by (rule watch_step.poller, rule poller_stepI [OF _ poller_act.notified]) (simp add: s4_def)
  ultimately have r: "watch_reachable plain_env rewritten s5" using r3 by (blast intro: watch_reachable.step)
  have sel: "poll s5 = Some (Polling \<lparr>fs_modTime = 1, fs_size = 1\<rparr> 1)" "\<not> restarting s5" "tl (read_versions s5) \<noteq> []" "version s5 = 2"
    by (simp_all add: s5_def s4_def read_file_def defs)
  have D: "stamp_of rewritten (version s5) = Some \<lparr>fs_modTime = 2, fs_size = 1\<rparr>" "stamps_mark_contents rewritten"
    "content_of rewritten (version s5) = Tree []"
    by (simp_all add: sel(4) rewritten_def stamps_mark_contents_def)
  from settled_file_applied [OF r sel(1-3) D(1) _ D(2)] show ?thesis using r sel(1,4) D(3) by fastforce
qed

text \<open>
  Before the first reload there is a gap: contents written after \<open>NewConfig\<close> has read the file and before the poller has taken its
  first stamp are not applied, and no tick applies them as long as the file stays as it is.
\<close>

theorem rewrite_before_start_missed:
  "\<exists>s lst v. watch_reachable plain_env rewritten s \<and> poll s = Some (Polling lst v) \<and> hd (read_versions s) < version s
     \<and> pollConfigFile lst (stamp_of rewritten (version s)) = None"
proof -
  define c0 :: "unit Config" where "c0 = (defaultConfig plain_env initConfig)\<lparr>configFileCfg := Some ''pinpoint.yaml''\<rparr>"
  define s0 :: "unit watch" where "s0 = \<lparr>version = 1, poll = Some (Polling (baseline (stamp_of rewritten 1)) 1), closing = False, abandoned = [],
    restarting = False, watched = c0, read_versions = [0]\<rparr>"
  have "watch_reachable plain_env rewritten s0" unfolding s0_def by (rule watch_reachable.init) (simp_all add: c0_def)
  then show ?thesis
    by (intro exI [of _ s0] exI [of _ "\<lparr>fs_modTime = 1, fs_size = 1\<rparr>"] exI [of _ 1]) (simp add: s0_def rewritten_polls)
qed

end
