(* ===== verification/Config_Options.thy ===== *)
theory Config_Options
  imports Http_Config
begin

text \<open>
  The option functions an application builds its configuration with: those of the agent (\<^verbatim>\<open>src/config_options.go\<close>), which write the staging
  area, and those of the HTTP plugin (\<^verbatim>\<open>src/plugin/http/config.go\<close>), which go through \<^verbatim>\<open>Set\<close>. Each names the option it sets; that the name is
  that of a registered option of the argument's type is what makes the argument take effect.
\<close>

section \<open>Options of the agent\<close>

definition WithAppName :: "string \<Rightarrow> 'f cfgOption" where "WithAppName v = WithValue CfgAppName (VStr v)"
definition WithAppType :: "int \<Rightarrow> 'f cfgOption" where "WithAppType v = WithValue CfgAppType (VInt v)"
definition WithAgentName :: "string \<Rightarrow> 'f cfgOption" where "WithAgentName v = WithValue CfgAgentName (VStr v)"
definition WithUidVersion :: "string \<Rightarrow> 'f cfgOption" where "WithUidVersion v = WithValue CfgUIDVersion (VStr v)"
definition WithServiceName :: "string \<Rightarrow> 'f cfgOption" where "WithServiceName v = WithValue CfgServiceName (VStr v)"
definition WithClusterNamespace :: "string \<Rightarrow> 'f cfgOption" where "WithClusterNamespace v = WithValue CfgClusterNamespace (VStr v)"
definition WithApiKey :: "string \<Rightarrow> 'f cfgOption" where "WithApiKey v = WithValue CfgApiKey (VStr v)"
definition WithConfigFile :: "string \<Rightarrow> 'f cfgOption" where "WithConfigFile v = WithValue CfgConfigFile (VStr v)"
definition WithCollectorHost :: "string \<Rightarrow> 'f cfgOption" where "WithCollectorHost v = WithValue CfgCollectorHost (VStr v)"
definition WithCollectorAgentPort :: "int \<Rightarrow> 'f cfgOption" where "WithCollectorAgentPort v = WithValue CfgCollectorAgentPort (VInt v)"
definition WithCollectorSpanPort :: "int \<Rightarrow> 'f cfgOption" where "WithCollectorSpanPort v = WithValue CfgCollectorSpanPort (VInt v)"
definition WithCollectorStatPort :: "int \<Rightarrow> 'f cfgOption" where "WithCollectorStatPort v = WithValue CfgCollectorStatPort (VInt v)"
definition WithCollectorAgentInfoRefreshInterval :: "int \<Rightarrow> 'f cfgOption" where "WithCollectorAgentInfoRefreshInterval v = WithValue CfgCollectorAgentInfoRefreshInterval (VInt v)"
definition WithCollectorAgentInfoSendRetryInterval :: "int \<Rightarrow> 'f cfgOption" where "WithCollectorAgentInfoSendRetryInterval v = WithValue CfgCollectorAgentInfoSendRetryInterval (VInt v)"
definition WithCollectorAgentInfoMaxTryPerAttempt :: "int \<Rightarrow> 'f cfgOption" where "WithCollectorAgentInfoMaxTryPerAttempt v = WithValue CfgCollectorAgentInfoMaxTryPerAttempt (VInt v)"
definition WithCollectorAgentInfoSendArgs :: "bool \<Rightarrow> 'f cfgOption" where "WithCollectorAgentInfoSendArgs v = WithValue CfgCollectorAgentInfoSendArgs (VBool v)"
definition WithCollectorGrpcKeepAliveTime :: "int \<Rightarrow> 'f cfgOption" where "WithCollectorGrpcKeepAliveTime v = WithValue CfgCollectorGrpcKeepAliveTime (VInt v)"
definition WithCollectorGrpcKeepAliveTimeout :: "int \<Rightarrow> 'f cfgOption" where "WithCollectorGrpcKeepAliveTimeout v = WithValue CfgCollectorGrpcKeepAliveTimeout (VInt v)"
definition WithCollectorGrpcKeepAlivePermitWithoutCalls :: "bool \<Rightarrow> 'f cfgOption" where "WithCollectorGrpcKeepAlivePermitWithoutCalls v = WithValue CfgCollectorGrpcKeepAlivePermitWithoutCalls (VBool v)"
definition WithCollectorGrpcMaxSendMessageSize :: "int \<Rightarrow> 'f cfgOption" where "WithCollectorGrpcMaxSendMessageSize v = WithValue CfgCollectorGrpcMaxSendMessageSize (VInt v)"
definition WithCollectorGrpcMaxReceiveMessageSize :: "int \<Rightarrow> 'f cfgOption" where "WithCollectorGrpcMaxReceiveMessageSize v = WithValue CfgCollectorGrpcMaxReceiveMessageSize (VInt v)"
definition WithCollectorGrpcFlowControlWindow :: "int \<Rightarrow> 'f cfgOption" where "WithCollectorGrpcFlowControlWindow v = WithValue CfgCollectorGrpcFlowControlWindow (VInt v)"
definition WithCollectorGrpcWriteBufferSize :: "int \<Rightarrow> 'f cfgOption" where "WithCollectorGrpcWriteBufferSize v = WithValue CfgCollectorGrpcWriteBufferSize (VInt v)"
definition WithCollectorGrpcMaxHeaderListSize :: "int \<Rightarrow> 'f cfgOption" where "WithCollectorGrpcMaxHeaderListSize v = WithValue CfgCollectorGrpcMaxHeaderListSize (VInt v)"
definition WithCollectorGrpcSslEnable :: "bool \<Rightarrow> 'f cfgOption" where "WithCollectorGrpcSslEnable v = WithValue CfgCollectorGrpcSslEnable (VBool v)"
definition WithCollectorGrpcTrustCertFilePath :: "string \<Rightarrow> 'f cfgOption" where "WithCollectorGrpcTrustCertFilePath v = WithValue CfgCollectorGrpcTrustCertFilePath (VStr v)"
definition WithCollectorGrpcConnectionMaxAge :: "int \<Rightarrow> 'f cfgOption" where "WithCollectorGrpcConnectionMaxAge v = WithValue CfgCollectorGrpcConnectionMaxAge (VInt v)"
definition WithCollectorGrpcDnsResolverEnable :: "bool \<Rightarrow> 'f cfgOption" where "WithCollectorGrpcDnsResolverEnable v = WithValue CfgCollectorGrpcDnsResolverEnable (VBool v)"
definition WithCollectorGrpcStreamMaxAge :: "int \<Rightarrow> 'f cfgOption" where "WithCollectorGrpcStreamMaxAge v = WithValue CfgCollectorGrpcStreamMaxAge (VInt v)"
definition WithCollectorGrpcIdleTimeout :: "int \<Rightarrow> 'f cfgOption" where "WithCollectorGrpcIdleTimeout v = WithValue CfgCollectorGrpcIdleTimeout (VInt v)"
definition WithCollectorGrpcSenderQueueSize :: "int \<Rightarrow> 'f cfgOption" where "WithCollectorGrpcSenderQueueSize v = WithValue CfgCollectorGrpcSenderQueueSize (VInt v)"
definition WithLogLevel :: "string \<Rightarrow> 'f cfgOption" where "WithLogLevel v = WithValue CfgLogLevel (VStr v)"
definition WithLogOutput :: "string \<Rightarrow> 'f cfgOption" where "WithLogOutput v = WithValue CfgLogOutput (VStr v)"
definition WithLogMaxSize :: "int \<Rightarrow> 'f cfgOption" where "WithLogMaxSize v = WithValue CfgLogMaxSize (VInt v)"
definition WithLogMaxBackups :: "int \<Rightarrow> 'f cfgOption" where "WithLogMaxBackups v = WithValue CfgLogMaxBackups (VInt v)"
definition WithSamplingType :: "string \<Rightarrow> 'f cfgOption" where "WithSamplingType v = WithValue CfgSamplingType (VStr v)"
definition WithSamplingCounterRate :: "int \<Rightarrow> 'f cfgOption" where "WithSamplingCounterRate v = WithValue CfgSamplingCounterRate (VInt v)"
definition WithSamplingPercentRate :: "'f \<Rightarrow> 'f cfgOption" where "WithSamplingPercentRate v = WithValue CfgSamplingPercentRate (VFloat v)"
definition WithSamplingNewThroughput :: "int \<Rightarrow> 'f cfgOption" where "WithSamplingNewThroughput v = WithValue CfgSamplingNewThroughput (VInt v)"
definition WithSamplingContinueThroughput :: "int \<Rightarrow> 'f cfgOption" where "WithSamplingContinueThroughput v = WithValue CfgSamplingContinueThroughput (VInt v)"
definition WithStatCollectInterval :: "int \<Rightarrow> 'f cfgOption" where "WithStatCollectInterval v = WithValue CfgStatCollectInterval (VInt v)"
definition WithStatBatchCount :: "int \<Rightarrow> 'f cfgOption" where "WithStatBatchCount v = WithValue CfgStatBatchCount (VInt v)"
definition WithServerInfo :: "string \<Rightarrow> 'f cfgOption" where "WithServerInfo v = WithValue CfgServerInfo (VStr v)"
definition WithActiveProfile :: "string \<Rightarrow> 'f cfgOption" where "WithActiveProfile v = WithValue CfgActiveProfile (VStr v)"
definition WithSQLTraceBindValue :: "bool \<Rightarrow> 'f cfgOption" where "WithSQLTraceBindValue v = WithValue CfgSQLTraceBindValue (VBool v)"
definition WithSQLMaxBindValueSize :: "int \<Rightarrow> 'f cfgOption" where "WithSQLMaxBindValueSize v = WithValue CfgSQLMaxBindValueSize (VInt v)"
definition WithSQLTraceCommit :: "bool \<Rightarrow> 'f cfgOption" where "WithSQLTraceCommit v = WithValue CfgSQLTraceCommit (VBool v)"
definition WithSQLTraceRollback :: "bool \<Rightarrow> 'f cfgOption" where "WithSQLTraceRollback v = WithValue CfgSQLTraceRollback (VBool v)"
definition WithSQLEnableRawSqlCache :: "bool \<Rightarrow> 'f cfgOption" where "WithSQLEnableRawSqlCache v = WithValue CfgSQLEnableRawSqlCache (VBool v)"
definition WithSQLCacheSize :: "int \<Rightarrow> 'f cfgOption" where "WithSQLCacheSize v = WithValue CfgSQLCacheSize (VInt v)"
definition WithSQLCacheLengthLimit :: "int \<Rightarrow> 'f cfgOption" where "WithSQLCacheLengthLimit v = WithValue CfgSQLCacheLengthLimit (VInt v)"
definition WithSQLCacheExpireHours :: "int \<Rightarrow> 'f cfgOption" where "WithSQLCacheExpireHours v = WithValue CfgSQLCacheExpireHours (VInt v)"
definition WithSQLRemoveComments :: "bool \<Rightarrow> 'f cfgOption" where "WithSQLRemoveComments v = WithValue CfgSQLRemoveComments (VBool v)"
definition WithSQLErrorCount :: "int \<Rightarrow> 'f cfgOption" where "WithSQLErrorCount v = WithValue CfgSQLErrorCount (VInt v)"
definition WithSQLTraceQueryStat :: "bool \<Rightarrow> 'f cfgOption" where "WithSQLTraceQueryStat v = WithValue CfgSQLTraceQueryStat (VBool v)"
definition WithEnable :: "bool \<Rightarrow> 'f cfgOption" where "WithEnable v = WithValue CfgEnable (VBool v)"
definition WithSpanQueueSize :: "int \<Rightarrow> 'f cfgOption" where "WithSpanQueueSize v = WithValue CfgSpanQueueSize (VInt v)"
definition WithCollectorGrpcSpanBatchSize :: "int \<Rightarrow> 'f cfgOption" where "WithCollectorGrpcSpanBatchSize v = WithValue CfgCollectorGrpcSpanBatchSize (VInt v)"
definition WithCollectorGrpcSpanBatchFlushInterval :: "int \<Rightarrow> 'f cfgOption" where "WithCollectorGrpcSpanBatchFlushInterval v = WithValue CfgCollectorGrpcSpanBatchFlushInterval (VInt v)"
definition WithCollectorGrpcSpanBatchCollectDeadline :: "int \<Rightarrow> 'f cfgOption" where "WithCollectorGrpcSpanBatchCollectDeadline v = WithValue CfgCollectorGrpcSpanBatchCollectDeadline (VInt v)"
definition WithCollectorGrpcSpanBatchMaxConcurrentRequests :: "int \<Rightarrow> 'f cfgOption" where "WithCollectorGrpcSpanBatchMaxConcurrentRequests v = WithValue CfgCollectorGrpcSpanBatchMaxConcurrentRequests (VInt v)"
definition WithCollectorGrpcCompression :: "string \<Rightarrow> 'f cfgOption" where "WithCollectorGrpcCompression v = WithValue CfgCollectorGrpcCompression (VStr v)"
definition WithSpanEventChunkSize :: "int \<Rightarrow> 'f cfgOption" where "WithSpanEventChunkSize v = WithValue CfgSpanEventChunkSize (VInt v)"
definition WithSpanMaxCallStackDepth :: "int \<Rightarrow> 'f cfgOption" where "WithSpanMaxCallStackDepth v = WithValue CfgSpanMaxCallStackDepth (VInt v)"
definition WithSpanMaxCallStackSequence :: "int \<Rightarrow> 'f cfgOption" where "WithSpanMaxCallStackSequence v = WithValue CfgSpanMaxCallStackSequence (VInt v)"
definition WithSpanIgnoreErrors :: "string list \<Rightarrow> 'f cfgOption" where "WithSpanIgnoreErrors v = WithValue CfgSpanIgnoreErrors (VList v)"
definition WithSpanErrorMark :: "string list \<Rightarrow> 'f cfgOption" where "WithSpanErrorMark v = WithValue CfgSpanErrorMark (VList v)"
definition WithSpanErrorMarkExclude :: "string list \<Rightarrow> 'f cfgOption" where "WithSpanErrorMarkExclude v = WithValue CfgSpanErrorMarkExclude (VList v)"
definition WithHttpUrlStatEnable :: "bool \<Rightarrow> 'f cfgOption" where "WithHttpUrlStatEnable v = WithValue CfgHttpUrlStatEnable (VBool v)"
definition WithStatQueueSize :: "int \<Rightarrow> 'f cfgOption" where "WithStatQueueSize v = WithValue CfgStatQueueSize (VInt v)"
definition WithHttpUrlStatLimitSize :: "int \<Rightarrow> 'f cfgOption" where "WithHttpUrlStatLimitSize v = WithValue CfgHttpUrlStatLimitSize (VInt v)"
definition WithHttpUrlStatQueueSize :: "int \<Rightarrow> 'f cfgOption" where "WithHttpUrlStatQueueSize v = WithValue CfgHttpUrlStatQueueSize (VInt v)"
definition WithHttpUrlStatWithMethod :: "bool \<Rightarrow> 'f cfgOption" where "WithHttpUrlStatWithMethod v = WithValue CfgHttpUrlStatWithMethod (VBool v)"
definition WithErrorTraceCallStack :: "bool \<Rightarrow> 'f cfgOption" where "WithErrorTraceCallStack v = WithValue CfgErrorTraceCallStack (VBool v)"
definition WithErrorCallStackDepth :: "int \<Rightarrow> 'f cfgOption" where "WithErrorCallStackDepth v = WithValue CfgErrorCallStackDepth (VInt v)"
definition WithErrorMaxChainDepth :: "int \<Rightarrow> 'f cfgOption" where "WithErrorMaxChainDepth v = WithValue CfgErrorMaxChainDepth (VInt v)"
definition WithErrorNewThroughput :: "int \<Rightarrow> 'f cfgOption" where "WithErrorNewThroughput v = WithValue CfgErrorNewThroughput (VInt v)"

section \<open>Options of the HTTP plugin\<close>

definition WithHttpServerStatusCodeError :: "string list \<Rightarrow> 'f cfgOption" where "WithHttpServerStatusCodeError v = WithSet CfgHttpServerStatusCodeErrors (VList v)"
definition WithHttpServerRecordHandlerError :: "bool \<Rightarrow> 'f cfgOption" where "WithHttpServerRecordHandlerError v = WithSet CfgHttpServerRecordHandlerError (VBool v)"
definition WithHttpServerExcludeUrl :: "string list \<Rightarrow> 'f cfgOption" where "WithHttpServerExcludeUrl v = WithSet CfgHttpServerExcludeUrl (VList v)"
definition WithHttpServerExcludeMethod :: "string list \<Rightarrow> 'f cfgOption" where "WithHttpServerExcludeMethod v = WithSet CfgHttpServerExcludeMethod (VList v)"
definition WithHttpServerRecordRequestHeader :: "string list \<Rightarrow> 'f cfgOption" where "WithHttpServerRecordRequestHeader v = WithSet CfgHttpServerRecordRequestHeader (VList v)"
definition WithHttpServerRecordRespondHeader :: "string list \<Rightarrow> 'f cfgOption" where "WithHttpServerRecordRespondHeader v = WithSet CfgHttpServerRecordResponseHeader (VList v)"
definition WithHttpServerRecordRequestCookie :: "string list \<Rightarrow> 'f cfgOption" where "WithHttpServerRecordRequestCookie v = WithSet CfgHttpServerRecordRequestCookie (VList v)"
definition WithHttpServerProxyHeaderEnable :: "bool \<Rightarrow> 'f cfgOption" where "WithHttpServerProxyHeaderEnable v = WithSet CfgHttpServerProxyHeaderEnable (VBool v)"
definition WithHttpServerRecordRequestParam :: "bool \<Rightarrow> 'f cfgOption" where "WithHttpServerRecordRequestParam v = WithSet CfgHttpServerRecordRequestParam (VBool v)"
definition WithHttpServerRealIpHeader :: "string list \<Rightarrow> 'f cfgOption" where "WithHttpServerRealIpHeader v = WithSet CfgHttpServerRealIpHeader (VList v)"
definition WithHttpServerRealIpEmptyValue :: "string \<Rightarrow> 'f cfgOption" where "WithHttpServerRealIpEmptyValue v = WithSet CfgHttpServerRealIpEmptyValue (VStr v)"
definition WithHttpServerProxyUserHeaderNames :: "string list \<Rightarrow> 'f cfgOption" where "WithHttpServerProxyUserHeaderNames v = WithSet CfgHttpServerProxyUserHeaderNames (VList v)"
definition WithHttpClientRecordRequestHeader :: "string list \<Rightarrow> 'f cfgOption" where "WithHttpClientRecordRequestHeader v = WithSet CfgHttpClientRecordRequestHeader (VList v)"
definition WithHttpClientRecordRespondHeader :: "string list \<Rightarrow> 'f cfgOption" where "WithHttpClientRecordRespondHeader v = WithSet CfgHttpClientRecordResponseHeader (VList v)"
definition WithHttpClientRecordRequestCookie :: "string list \<Rightarrow> 'f cfgOption" where "WithHttpClientRecordRequestCookie v = WithSet CfgHttpClientRecordRequestCookie (VList v)"
definition WithHttpClientRecordUrlQuery :: "bool \<Rightarrow> 'f cfgOption" where "WithHttpClientRecordUrlQuery v = WithSet CfgHttpClientRecordUrlQuery (VBool v)"

section \<open>Every argument takes effect\<close>

definition agent_functions :: "string \<Rightarrow> int \<Rightarrow> bool \<Rightarrow> string list \<Rightarrow> 'f cfgOption list" where
  "agent_functions str n b xs =
     [WithAppName str, WithAppType n, WithAgentName str, WithUidVersion str,
      WithServiceName str, WithClusterNamespace str, WithApiKey str, WithConfigFile str,
      WithCollectorHost str, WithCollectorAgentPort n, WithCollectorSpanPort n, WithCollectorStatPort n,
      WithCollectorAgentInfoRefreshInterval n, WithCollectorAgentInfoSendRetryInterval n, WithCollectorAgentInfoMaxTryPerAttempt n, WithCollectorAgentInfoSendArgs b,
      WithCollectorGrpcKeepAliveTime n, WithCollectorGrpcKeepAliveTimeout n, WithCollectorGrpcKeepAlivePermitWithoutCalls b, WithCollectorGrpcMaxSendMessageSize n,
      WithCollectorGrpcMaxReceiveMessageSize n, WithCollectorGrpcFlowControlWindow n, WithCollectorGrpcWriteBufferSize n, WithCollectorGrpcMaxHeaderListSize n,
      WithCollectorGrpcSslEnable b, WithCollectorGrpcTrustCertFilePath str, WithCollectorGrpcConnectionMaxAge n, WithCollectorGrpcDnsResolverEnable b,
      WithCollectorGrpcStreamMaxAge n, WithCollectorGrpcIdleTimeout n, WithCollectorGrpcSenderQueueSize n, WithLogLevel str,
      WithLogOutput str, WithLogMaxSize n, WithLogMaxBackups n, WithSamplingType str,
      WithSamplingCounterRate n, WithSamplingNewThroughput n, WithSamplingContinueThroughput n, WithStatCollectInterval n,
      WithStatBatchCount n, WithServerInfo str, WithActiveProfile str, WithSQLTraceBindValue b,
      WithSQLMaxBindValueSize n, WithSQLTraceCommit b, WithSQLTraceRollback b, WithSQLEnableRawSqlCache b,
      WithSQLCacheSize n, WithSQLCacheLengthLimit n, WithSQLCacheExpireHours n, WithSQLRemoveComments b,
      WithSQLErrorCount n, WithSQLTraceQueryStat b, WithEnable b, WithSpanQueueSize n,
      WithCollectorGrpcSpanBatchSize n, WithCollectorGrpcSpanBatchFlushInterval n, WithCollectorGrpcSpanBatchCollectDeadline n, WithCollectorGrpcSpanBatchMaxConcurrentRequests n,
      WithCollectorGrpcCompression str, WithSpanEventChunkSize n, WithSpanMaxCallStackDepth n, WithSpanMaxCallStackSequence n,
      WithSpanIgnoreErrors xs, WithSpanErrorMark xs, WithSpanErrorMarkExclude xs, WithHttpUrlStatEnable b,
      WithStatQueueSize n, WithHttpUrlStatLimitSize n, WithHttpUrlStatQueueSize n, WithHttpUrlStatWithMethod b,
      WithErrorTraceCallStack b, WithErrorCallStackDepth n, WithErrorMaxChainDepth n, WithErrorNewThroughput n]"

definition http_functions :: "string \<Rightarrow> bool \<Rightarrow> string list \<Rightarrow> 'f cfgOption list" where
  "http_functions str b xs =
     [WithHttpServerStatusCodeError xs, WithHttpServerRecordHandlerError b, WithHttpServerExcludeUrl xs, WithHttpServerExcludeMethod xs,
      WithHttpServerRecordRequestHeader xs, WithHttpServerRecordRespondHeader xs, WithHttpServerRecordRequestCookie xs, WithHttpServerProxyHeaderEnable b,
      WithHttpServerRecordRequestParam b, WithHttpServerRealIpHeader xs, WithHttpServerRealIpEmptyValue str, WithHttpServerProxyUserHeaderNames xs,
      WithHttpClientRecordRequestHeader xs, WithHttpClientRecordRespondHeader xs, WithHttpClientRecordRequestCookie xs, WithHttpClientRecordUrlQuery b]"

lemmas agent_function_defs =
  WithAppName_def WithAppType_def WithAgentName_def WithUidVersion_def WithServiceName_def WithClusterNamespace_def
  WithApiKey_def WithConfigFile_def WithCollectorHost_def WithCollectorAgentPort_def WithCollectorSpanPort_def
  WithCollectorStatPort_def WithCollectorAgentInfoRefreshInterval_def WithCollectorAgentInfoSendRetryInterval_def
  WithCollectorAgentInfoMaxTryPerAttempt_def WithCollectorAgentInfoSendArgs_def WithCollectorGrpcKeepAliveTime_def
  WithCollectorGrpcKeepAliveTimeout_def WithCollectorGrpcKeepAlivePermitWithoutCalls_def
  WithCollectorGrpcMaxSendMessageSize_def WithCollectorGrpcMaxReceiveMessageSize_def
  WithCollectorGrpcFlowControlWindow_def WithCollectorGrpcWriteBufferSize_def WithCollectorGrpcMaxHeaderListSize_def
  WithCollectorGrpcSslEnable_def WithCollectorGrpcTrustCertFilePath_def WithCollectorGrpcConnectionMaxAge_def
  WithCollectorGrpcDnsResolverEnable_def WithCollectorGrpcStreamMaxAge_def WithCollectorGrpcIdleTimeout_def
  WithCollectorGrpcSenderQueueSize_def WithLogLevel_def WithLogOutput_def WithLogMaxSize_def WithLogMaxBackups_def
  WithSamplingType_def WithSamplingCounterRate_def WithSamplingNewThroughput_def WithSamplingContinueThroughput_def
  WithStatCollectInterval_def WithStatBatchCount_def WithServerInfo_def WithActiveProfile_def WithSQLTraceBindValue_def
  WithSQLMaxBindValueSize_def WithSQLTraceCommit_def WithSQLTraceRollback_def WithSQLEnableRawSqlCache_def
  WithSQLCacheSize_def WithSQLCacheLengthLimit_def WithSQLCacheExpireHours_def WithSQLRemoveComments_def
  WithSQLErrorCount_def WithSQLTraceQueryStat_def WithEnable_def WithSpanQueueSize_def
  WithCollectorGrpcSpanBatchSize_def WithCollectorGrpcSpanBatchFlushInterval_def
  WithCollectorGrpcSpanBatchCollectDeadline_def WithCollectorGrpcSpanBatchMaxConcurrentRequests_def
  WithCollectorGrpcCompression_def WithSpanEventChunkSize_def WithSpanMaxCallStackDepth_def
  WithSpanMaxCallStackSequence_def WithSpanIgnoreErrors_def WithSpanErrorMark_def WithSpanErrorMarkExclude_def
  WithHttpUrlStatEnable_def WithStatQueueSize_def WithHttpUrlStatLimitSize_def WithHttpUrlStatQueueSize_def
  WithHttpUrlStatWithMethod_def WithErrorTraceCallStack_def WithErrorCallStackDepth_def WithErrorMaxChainDepth_def
  WithErrorNewThroughput_def

lemmas http_function_defs =
  WithHttpServerStatusCodeError_def WithHttpServerRecordHandlerError_def WithHttpServerExcludeUrl_def
  WithHttpServerExcludeMethod_def WithHttpServerRecordRequestHeader_def WithHttpServerRecordRespondHeader_def
  WithHttpServerRecordRequestCookie_def WithHttpServerProxyHeaderEnable_def WithHttpServerRecordRequestParam_def
  WithHttpServerRealIpHeader_def WithHttpServerRealIpEmptyValue_def WithHttpServerProxyUserHeaderNames_def
  WithHttpClientRecordRequestHeader_def WithHttpClientRecordRespondHeader_def WithHttpClientRecordRequestCookie_def
  WithHttpClientRecordUrlQuery_def

text \<open>The option is registered with the type of the value.\<close>

fun option_typed :: "(string \<times> cfgType) list \<Rightarrow> 'f cfg_env \<Rightarrow> 'f cfgOption \<Rightarrow> bool" where
  "option_typed reg E (WithValue k v) \<longleftrightarrow> (\<exists>ty. (k, ty) \<in> set reg \<and> has_type E ty v)"
| "option_typed reg E (WithSet k v) \<longleftrightarrow> (\<exists>ty. (k, ty) \<in> set reg \<and> has_type E ty v)"
| "option_typed reg E (WithIsContainerEnv b) \<longleftrightarrow> (CfgIsContainerEnv, CfgBool) \<in> set reg"

definition types_of :: "(string \<times> 'f cfgMapItem) list \<Rightarrow> (string \<times> cfgType) list" where
  "types_of cm = map (\<lambda>(k, it). (k, valueType it)) cm"

lemma agent_types: "types_of (initConfig :: (string \<times> 'f cfgMapItem) list) = map (\<lambda>(k, ty, d, dyn). (k, ty)) (registry :: (string \<times> cfgType \<times> 'f cfgValue \<times> bool) list)"
  by (simp add: types_of_def initConfig_def AddConfig_def split_def comp_def)

lemma typed_by:
  "(k, CfgString) \<in> set reg \<Longrightarrow> option_typed reg E (WithValue k (VStr str))"
  "(k, CfgBool) \<in> set reg \<Longrightarrow> option_typed reg E (WithValue k (VBool b))"
  "(k, CfgStringSlice) \<in> set reg \<Longrightarrow> option_typed reg E (WithValue k (VList xs))"
  "(k, CfgInt) \<in> set reg \<Longrightarrow> - (2 ^ 63) \<le> n \<Longrightarrow> n < 2 ^ 63 \<Longrightarrow> option_typed reg E (WithValue k (VInt n))"
  "(k, CfgString) \<in> set reg \<Longrightarrow> option_typed reg E (WithSet k (VStr str))"
  "(k, CfgBool) \<in> set reg \<Longrightarrow> option_typed reg E (WithSet k (VBool b))"
  "(k, CfgStringSlice) \<in> set reg \<Longrightarrow> option_typed reg E (WithSet k (VList xs))"
  by (auto simp: has_type_def)

lemma agent_functions_typed:
  assumes "- (2 ^ 63) \<le> n" "n < 2 ^ 63"
  shows "list_all (option_typed (types_of (initConfig :: (string \<times> 'f cfgMapItem) list)) E) (agent_functions str n b xs :: 'f cfgOption list)"
  unfolding agent_types agent_functions_def agent_function_defs registry_def list.map prod.case list_all_iff list.set
  by (intro ballI, elim insertE emptyE; hypsubst; rule typed_by; simp only: assms list.set insert_iff prod.inject cfgType.distinct simp_thms)

lemma http_functions_typed:
  "list_all (option_typed (types_of (http_options :: (string \<times> 'f cfgMapItem) list)) E) (http_functions str b xs :: 'f cfgOption list)"
  unfolding http_functions_def http_function_defs http_options_def types_of_def AddConfig_def list.map prod.case list_all_iff list.set
  by (intro ballI, elim insertE emptyE; hypsubst; rule typed_by; simp only: cfgMapItem.select_convs list.set insert_iff prod.inject cfgType.distinct simp_thms)

lemma convert_typed: "has_type E ty v \<Longrightarrow> ty \<noteq> CfgFloat \<Longrightarrow> convertCfgValue E ty v = Some v"
  using ParseInt_FormatInt [of 64]
  by (cases v) (auto simp: has_type_def convertCfgValue_def scalarString_def toStringSlice_def ParseBool_def)

lemma default_type:
  assumes "(k, ty) \<in> set (types_of base)" "distinct (map fst base)"
  obtains it where "map_of (cfgMap (defaultConfig E base)) k = Some it" "valueType it = ty"
proof -
  obtain it where it: "(k, it) \<in> set base" "valueType it = ty" using assms(1) by (auto simp: types_of_def)
  then have "map_of base k = Some it" using assms(2) by simp
  then show thesis using it(2) that by (simp add: defaultConfig_def cfgMap_keyed normalizeCfgValues_def)
qed

text \<open>
  The argument of an option function, given alone, is what the staging area holds for its option before the other sources are read,
  and what a reload falls back to.
\<close>

theorem option_functions_take_effect:
  fixes op :: "'f cfgOption"
  assumes "- (2 ^ 63) \<le> n" "n < 2 ^ 63" "op \<in> set (agent_functions str n b xs)"
  shows "\<exists>k v. op = WithValue k v \<and> staged (with_base E initConfig [op]) k = v
    \<and> map_option baseValue (map_of (cfgMap (with_base E initConfig [op])) k) = Some v"
proof -
  have typed: "option_typed (types_of (initConfig :: (string \<times> 'f cfgMapItem) list)) E op"
    using agent_functions_typed [OF assms(1,2), of E str b xs] assms(3) unfolding list_all_iff by (rule bspec)
  obtain k v where op: "op = WithValue k v" "\<forall>f. v \<noteq> VFloat f"
    using assms(3) unfolding agent_functions_def agent_function_defs list.set by blast
  then obtain ty where ty: "(k, ty) \<in> set (types_of (initConfig :: (string \<times> 'f cfgMapItem) list))" "has_type E ty v" using typed by auto
  have "ty \<noteq> CfgFloat" using ty(2) op(2) by (cases v) (auto simp: has_type_def)
  then have conv: "convertCfgValue E ty v = Some v" by (rule convert_typed [OF ty(2)])
  have "distinct (map fst (initConfig :: (string \<times> 'f cfgMapItem) list))"
    using registry_distinct by (simp add: initConfig_def AddConfig_def split_def comp_def)
  from default_type [OF ty(1) this, of E] obtain it where it: "map_of (cfgMap (defaultConfig E initConfig)) k = Some it" "valueType it = ty" .
  then show ?thesis
    using conv by (simp add: op(1) with_base_def normalizeCfgValues_def cfgMap_keyed staged_def set_item_def typed_item_def)
qed

end
