(* ===== verification/Kafka.thy ===== *)
theory Kafka
  imports Request_Entry Span_Invariants
begin

text \<open>
  The span of a consumed Kafka record (\<^verbatim>\<open>src/kafka.go\<close>), built the same way for both Kafka plugins: the trace context comes from the
  record's headers, the broker is its end point and remote address, and topic, partition and offset are its annotations.
\<close>

record KafkaConsumerMessage =
  km_Topic :: string
  km_Partition :: go_int32
  km_Offset :: go_int64
  km_Broker :: string

definition ServiceTypeKafkaClient :: go_int32 where "ServiceTypeKafkaClient = 8660"
definition AnnotationKafkaTopic :: go_int32 where "AnnotationKafkaTopic = 140"
definition AnnotationKafkaPartition :: go_int32 where "AnnotationKafkaPartition = 141"
definition AnnotationKafkaOffset :: go_int32 where "AnnotationKafkaOffset = 142"

definition RpcName :: "KafkaConsumerMessage \<Rightarrow> string" where
  "RpcName m = ''kafka://topic='' @ km_Topic m @ ''?partition='' @ FormatInt (sint (km_Partition m)) @ ''&offset='' @ FormatInt64 (km_Offset m)"

text \<open>The broker's address: the application's, else the producer's host, else \<open>Unknown\<close>.\<close>

definition consumer_broker :: "KafkaConsumerMessage \<Rightarrow> reader option \<Rightarrow> string" where
  "consumer_broker m rd =
     (let broker = (if km_Broker m = [] then (case rd of Some Get \<Rightarrow> get_value Get HeaderHost | None \<Rightarrow> []) else km_Broker m)
      in if broker = [] then ''Unknown'' else broker)"

definition record_message :: "KafkaConsumerMessage \<Rightarrow> string \<Rightarrow> 'e span \<Rightarrow> 'e span" where
  "record_message m broker sp =
     (let sp = SetServiceType ServiceTypeKafkaClient sp;
          sp = SetRemoteAddress broker sp;
          sp = SetAcceptorHost broker sp;
          sp = SetEndPoint broker sp;
          sp = annotate (AppendString AnnotationKafkaTopic (km_Topic m)) sp;
          sp = annotate (AppendInt AnnotationKafkaPartition (km_Partition m)) sp
      in annotate (AppendLong AnnotationKafkaOffset (km_Offset m)) sp)"

definition NewKafkaConsumerTracer ::
  "'e agent_env \<Rightarrow> entry_env \<Rightarrow> call_site \<Rightarrow> string \<Rightarrow> KafkaConsumerMessage \<Rightarrow> reader option \<Rightarrow> request_agent \<Rightarrow> 'e tracer \<times> request_agent" where
  "NewKafkaConsumerTracer A E c operation m rd a =
     (if \<not> tracingEnabled (enable a) then (NoopTracer, a)
      else
        let (t, a) = newSpanTracerWithReader A E c operation (RpcName m) rd a
        in (case t of SampledTracer sp st \<Rightarrow> SampledTracer (record_message m (consumer_broker m rd) sp) st | _ \<Rightarrow> t, a))"

section \<open>What a consumed record's span holds\<close>

lemma extract_keeps: "finished (span_extract Get inb newTx drawn sp) = finished sp" "annotations (span_extract Get inb newTx drawn sp) = annotations sp"
  by (simp_all add: span_extract_def Let_def split: option.splits)

lemma entry_span:
  assumes "newSpanTracerWithReader A E c operation rpc rd a = (SampledTracer sp st, a')"
  shows "\<not> finished sp \<and> annotations sp = new_annotation"
proof -
  have "\<exists>Get inb newTx drawn. sp = span_extract Get inb newTx drawn (newSampledSpan A (ee_cfg E) (ee_now E) operation rpc)"
    using assms by (fastforce simp: newSpanTracerWithReader_def Let_def split: option.splits prod.splits if_splits)
  then show ?thesis by (auto simp: extract_keeps newSampledSpan_def defaultSpan_def)
qed

text \<open>
  A sampled consumer span is described in full: never an empty broker, whichever of its sources there is, and the record's
  coordinates as its annotations, whatever the record's headers hold.
\<close>

theorem consumer_span_described:
  assumes "NewKafkaConsumerTracer A E c operation m rd a = (SampledTracer sp st, a')"
  shows "endPoint sp = consumer_broker m rd \<and> remoteAddr sp = consumer_broker m rd \<and> acceptorHost sp = consumer_broker m rd
    \<and> consumer_broker m rd \<noteq> [] \<and> serviceType sp = ServiceTypeKafkaClient
    \<and> vals (annotations sp) = [AString AnnotationKafkaTopic (km_Topic m), AInt AnnotationKafkaPartition (km_Partition m),
         ALong AnnotationKafkaOffset (km_Offset m)]"
proof -
  obtain sp0 where sp0: "newSpanTracerWithReader A E c operation (RpcName m) rd a = (SampledTracer sp0 st, a')"
    "sp = record_message m (consumer_broker m rd) sp0"
    using assms by (auto simp: NewKafkaConsumerTracer_def split: if_splits prod.splits tracer.splits)
  have "consumer_broker m rd \<noteq> []" by (simp add: consumer_broker_def Let_def)
  then show ?thesis
    using entry_span [OF sp0(1)]
    by (simp add: sp0(2) record_message_def SetServiceType_def SetRemoteAddress_def SetAcceptorHost_def SetEndPoint_def annotate_def unless_ended_def
        Let_def AppendString_def AppendInt_def AppendLong_def annotation_append_def new_annotation_def)
qed

end
