(* ===== verification/Mongo_Monitor.thy ===== *)
theory Mongo_Monitor
  imports Config Utf8 Http_Request "HOL-Library.Multiset"
begin

text \<open>
  What the two MongoDB plugins share (\<^verbatim>\<open>src/plugin/mongomonitor/monitor.go\<close>): the table that pairs a command's started event with the
  finished one that ends its span event, with its bound and its lock free fast path, and the texts recorded for a command.
  Tracers are their identities: what is ended, with which error and how often, is what the table decides.
\<close>

section \<open>Settings and texts\<close>

definition DefaultCommandMaxSize :: int where "DefaultCommandMaxSize = 64 * 1024"
definition CfgMongoRecordCommand :: string where "CfgMongoRecordCommand = ''Mongo.RecordCommand''"
definition CfgMongoCommandMaxSize :: string where "CfgMongoCommandMaxSize = ''Mongo.CommandMaxSize''"

definition mongo_options :: "(string \<times> 'f cfgMapItem) list" where
  "mongo_options = [AddConfig CfgMongoRecordCommand CfgBool (VBool True) True,
     AddConfig CfgMongoCommandMaxSize CfgInt (VInt DefaultCommandMaxSize) True]"

definition WithMongoRecordCommand :: "bool \<Rightarrow> 'f cfgOption" where "WithMongoRecordCommand v = WithSet CfgMongoRecordCommand (VBool v)"
definition WithMongoCommandMaxSize :: "int \<Rightarrow> 'f cfgOption" where "WithMongoCommandMaxSize v = WithSet CfgMongoCommandMaxSize (VInt v)"

definition CommandSettings :: "'f cfg_env \<Rightarrow> 'f Config \<Rightarrow> bool \<times> int" where
  "CommandSettings E c =
     (let maxSize = config_Int E c CfgMongoCommandMaxSize
      in (config_Bool E c CfgMongoRecordCommand, if maxSize \<le> 0 then DefaultCommandMaxSize else maxSize))"

definition OperationName :: "string \<Rightarrow> string" where
  "OperationName command =
     (if command = ''find'' then ''mongodb.find'' else if command = ''insert'' then ''mongodb.insert''
      else if command = ''update'' then ''mongodb.update'' else if command = ''delete'' then ''mongodb.delete''
      else if command = ''aggregate'' then ''mongodb.aggregate'' else if command = ''getMore'' then ''mongodb.getMore''
      else if command = ''count'' then ''mongodb.count'' else if command = ''distinct'' then ''mongodb.distinct''
      else if command = ''findAndModify'' then ''mongodb.findAndModify'' else if command = ''killCursors'' then ''mongodb.killCursors''
      else ''mongodb.'' @ command)"

text \<open>The part before a two-byte separator (\<open>strings.Cut\<close>), and \<open>strings.Trim\<close> for a cutset.\<close>

fun cut_before :: "char \<Rightarrow> char \<Rightarrow> string \<Rightarrow> string" where
  "cut_before a b (c # d # cs) = (if c = a \<and> d = b then [] else c # cut_before a b (d # cs))"
| "cut_before a b cs = cs"

definition TrimSet :: "char set \<Rightarrow> string \<Rightarrow> string" where
  "TrimSet C s = rev (dropWhile (\<lambda>x. x \<in> C) (rev (dropWhile (\<lambda>x. x \<in> C) s)))"

definition Host :: "string \<Rightarrow> string" where
  "Host connID =
     (let hostname = cut_before CHR ''['' CHR ''-'' connID
      in case SplitHostPort hostname of Some host \<Rightarrow> host | None \<Rightarrow> TrimSet {CHR ''['', CHR '']''} hostname)"

text \<open>The length is never negative: it is the size of \<open>CommandSettings\<close>.\<close>

definition AbbreviateJSON :: "string \<Rightarrow> nat \<Rightarrow> string" where
  "AbbreviateJSON b len =
     (if length b \<le> len then b
      else
        let marker = ''...('' @ FormatInt (int len) @ '')'';
            cutoff = len - length marker
        in take (rune_cut b cutoff) b @ marker)"

section \<open>Commands in flight\<close>

definition MaxPendingSpans :: nat where "MaxPendingSpans = 4096"

datatype 'e ending = ErrSpanEvicted | Reported "'e option"

text \<open>
  The map as a list with distinct keys. The mutex with what its holder still has to do: \<open>Started\<close> has put its entry in and taken one out
  when the map was full, \<open>Finished\<close> has taken its entry out; neither has published the count yet. \<open>past_check\<close>: calls of \<open>Finished\<close> that
  found the count above zero; \<open>leaving\<close>: tracers taken out and about to be ended.
\<close>

datatype ('k, 't, 'e) holder = Unlocked | Inserted 'k 't "'t option" | Deleted 't "'e ending"

record ('k, 't, 'e) monitor =
  mo_spans :: "('k \<times> 't) list"
  mo_pending :: nat
  mo_mu :: "('k, 't, 'e) holder"
  past_check :: "('k \<times> 'e option) multiset"
  leaving :: "('t \<times> 'e ending) multiset"
  mo_started :: "'t multiset"
  mo_ended :: "('t \<times> 'e ending) multiset"

definition NewMonitor :: "('k, 't, 'e) monitor" where
  "NewMonitor = \<lparr>mo_spans = [], mo_pending = 0, mo_mu = Unlocked, past_check = {#}, leaving = {#}, mo_started = {#}, mo_ended = {#}\<rparr>"

text \<open>The entry the map's iteration happens to visit first is the one evicted.\<close>

definition make_room :: "nat \<Rightarrow> ('k \<times> 't) list \<Rightarrow> 't option \<times> ('k \<times> 't) list" where
  "make_room first spans =
     (if length spans \<ge> MaxPendingSpans
      then (Some (snd (spans ! (first mod length spans))), take (first mod length spans) spans @ drop (Suc (first mod length spans)) spans)
      else (None, spans))"

definition Started_lock :: "nat \<Rightarrow> 'k \<Rightarrow> 't \<Rightarrow> ('k, 't, 'e) monitor \<Rightarrow> ('k, 't, 'e) monitor" where
  "Started_lock first key tracer m =
     (let (evicted, spans) = make_room first (mo_spans m)
      in m\<lparr>mo_spans := (key, tracer) # filter (\<lambda>(k, _). k \<noteq> key) spans, mo_mu := Inserted key tracer evicted,
           mo_started := add_mset tracer (mo_started m)\<rparr>)"

definition Finished_lock :: "'k \<Rightarrow> 'e option \<Rightarrow> ('k, 't, 'e) monitor \<Rightarrow> ('k, 't, 'e) monitor" where
  "Finished_lock key err_opt m =
     (case map_of (mo_spans m) key of None \<Rightarrow> m
      | Some tracer \<Rightarrow> m\<lparr>mo_spans := filter (\<lambda>(k, _). k \<noteq> key) (mo_spans m), mo_mu := Deleted tracer (Reported err_opt)\<rparr>)"

definition Unlock :: "('k, 't, 'e) monitor \<Rightarrow> ('k, 't, 'e) monitor" where
  "Unlock m =
     m\<lparr>mo_pending := length (mo_spans m), mo_mu := Unlocked,
       leaving := (case mo_mu m of Inserted _ _ (Some t) \<Rightarrow> add_mset (t, ErrSpanEvicted) (leaving m)
         | Deleted t how \<Rightarrow> add_mset (t, how) (leaving m) | _ \<Rightarrow> leaving m)\<rparr>"

definition Pending :: "('k, 't, 'e) monitor \<Rightarrow> nat" where "Pending m = mo_pending m"

text \<open>The driver gives every command in flight a key of its own.\<close>

inductive monitor_step :: "('k, 't, 'e) monitor \<Rightarrow> ('k, 't, 'e) monitor \<Rightarrow> bool" where
  started: "mo_mu m = Unlocked \<Longrightarrow> key \<notin> fst ` set (mo_spans m) \<Longrightarrow> monitor_step m (Started_lock first key tracer m)"
| unlock: "mo_mu m \<noteq> Unlocked \<Longrightarrow> monitor_step m (Unlock m)"
| finished_check: "mo_pending m \<noteq> 0 \<Longrightarrow> monitor_step m (m\<lparr>past_check := add_mset (key, err_opt) (past_check m)\<rparr>)"
| finished: "mo_mu m = Unlocked \<Longrightarrow> (key, err_opt) \<in># past_check m \<Longrightarrow>
    monitor_step m (Finished_lock key err_opt (m\<lparr>past_check := past_check m - {#(key, err_opt)#}\<rparr>))"
| end_event: "x \<in># leaving m \<Longrightarrow> monitor_step m (m\<lparr>leaving := leaving m - {#x#}, mo_ended := add_mset x (mo_ended m)\<rparr>)"

inductive monitor_reachable :: "('k, 't, 'e) monitor \<Rightarrow> bool" where
  init: "monitor_reachable NewMonitor"
| step: "monitor_reachable m \<Longrightarrow> monitor_step m m' \<Longrightarrow> monitor_reachable m'"

section \<open>Lemmas\<close>

lemma OperationName_eq: "OperationName command = ''mongodb.'' @ command"
  by (simp add: OperationName_def)

definition held_tracer :: "('k, 't, 'e) holder \<Rightarrow> 't multiset" where
  "held_tracer h = (case h of Inserted _ _ (Some t) \<Rightarrow> {#t#} | Deleted t _ \<Rightarrow> {#t#} | _ \<Rightarrow> {#})"

definition monitor_inv :: "('k, 't, 'e) monitor \<Rightarrow> bool" where
  "monitor_inv m \<longleftrightarrow> distinct (map fst (mo_spans m)) \<and> length (mo_spans m) \<le> MaxPendingSpans
     \<and> mo_started m = mset (map snd (mo_spans m)) + held_tracer (mo_mu m) + image_mset fst (leaving m) + image_mset fst (mo_ended m)
     \<and> (case mo_mu m of Unlocked \<Rightarrow> mo_pending m = length (mo_spans m)
        | Inserted k t ev \<Rightarrow> (k, t) \<in> set (mo_spans m) \<and> (mo_pending m = 0 \<longrightarrow> mo_spans m = [(k, t)])
        | Deleted t how \<Rightarrow> mo_pending m = Suc (length (mo_spans m)))"

lemma make_room_cases:
  assumes "make_room first spans = (ev, spans')" "length spans \<le> MaxPendingSpans"
  shows "length spans' < MaxPendingSpans" "mset (map snd spans) = mset (map snd spans') + (case ev of Some t \<Rightarrow> {#t#} | None \<Rightarrow> {#})"
    "set spans' \<subseteq> set spans" "distinct (map fst spans) \<Longrightarrow> distinct (map fst spans')" "ev = None \<Longrightarrow> spans' = spans" "ev \<noteq> None \<Longrightarrow> spans \<noteq> []"
proof -
  define i where "i = first mod length spans"
  have "length spans' < MaxPendingSpans \<and> mset (map snd spans) = mset (map snd spans') + (case ev of Some t \<Rightarrow> {#t#} | None \<Rightarrow> {#})
    \<and> set spans' \<subseteq> set spans \<and> (distinct (map fst spans) \<longrightarrow> distinct (map fst spans')) \<and> (ev = None \<longrightarrow> spans' = spans) \<and> (ev \<noteq> None \<longrightarrow> spans \<noteq> [])"
  proof (cases "length spans \<ge> MaxPendingSpans")
    case True
    then have ne: "0 < length spans" by (cases spans) (simp_all add: MaxPendingSpans_def)
    then have i: "i < length spans" by (simp add: i_def)
    have split: "spans = take i spans @ spans ! i # drop (Suc i) spans" by (rule id_take_nth_drop [OF i])
    have r: "ev = Some (snd (spans ! i))" "spans' = take i spans @ drop (Suc i) spans"
      using assms(1) True by (auto simp: make_room_def i_def)
    have "mset (map snd spans) = mset (map snd (take i spans)) + mset (map snd (drop (Suc i) spans)) + {#snd (spans ! i)#}"
      by (subst split) (simp del: mset_map)
    moreover have "distinct (map fst spans) \<Longrightarrow> distinct (map fst spans')"
      by (subst (asm) split) (auto simp: r(2))
    ultimately show ?thesis using r i ne assms(2) by (auto dest: in_set_takeD in_set_dropD)
  qed (use assms in \<open>auto simp: make_room_def\<close>)
  then show "length spans' < MaxPendingSpans" "mset (map snd spans) = mset (map snd spans') + (case ev of Some t \<Rightarrow> {#t#} | None \<Rightarrow> {#})"
    "set spans' \<subseteq> set spans" "distinct (map fst spans) \<Longrightarrow> distinct (map fst spans')" "ev = None \<Longrightarrow> spans' = spans" "ev \<noteq> None \<Longrightarrow> spans \<noteq> []"
    by auto
qed

lemma Started_inv:
  assumes "monitor_inv m" "mo_mu m = Unlocked" "key \<notin> fst ` set (mo_spans m)"
  shows "monitor_inv (Started_lock first key tracer m)"
proof -
  obtain ev spans where room: "make_room first (mo_spans m) = (ev, spans)" by (rule prod.exhaust)
  have len: "length (mo_spans m) \<le> MaxPendingSpans" and dist: "distinct (map fst (mo_spans m))"
    and count: "mo_pending m = length (mo_spans m)" using assms by (auto simp: monitor_inv_def)
  note R = make_room_cases [OF room len]
  have fresh: "key \<notin> fst ` set spans" using assms(3) R(3) by auto
  then have keep: "filter (\<lambda>(k, _). k \<noteq> key) spans = spans" by (force simp: filter_id_conv)
  have new: "Started_lock first key tracer m = m\<lparr>mo_spans := (key, tracer) # spans, mo_mu := Inserted key tracer ev, mo_started := add_mset tracer (mo_started m)\<rparr>"
    by (simp add: Started_lock_def room keep)
  have "mo_pending m = 0 \<Longrightarrow> spans = []" using count R(5,6) by (cases ev) auto
  then show ?thesis
    using assms(1,2) R(1,2) R(4) [OF dist] fresh
    by (auto simp: new monitor_inv_def held_tracer_def simp del: mset_map split: option.splits)
qed

lemma delete_entry:
  "distinct (map fst xs) \<Longrightarrow> map_of xs k = Some t \<Longrightarrow> mset xs = add_mset (k, t) (mset (filter (\<lambda>(k', _). k' \<noteq> k) xs))"
proof (induction xs)
  case (Cons x xs)
  obtain k1 t1 where x: "x = (k1, t1)" by (cases x)
  show ?case
  proof (cases "k1 = k")
    case True
    then have "filter (\<lambda>(k', _). k' \<noteq> k) xs = xs" using Cons.prems(1) by (force simp: x filter_id_conv)
    then show ?thesis using Cons.prems(2) True by (simp add: x)
  qed (use Cons in \<open>simp add: x\<close>)
qed simp

lemma Finished_inv:
  assumes "monitor_inv m" "mo_mu m = Unlocked"
  shows "monitor_inv (Finished_lock key err_opt m)"
proof (cases "map_of (mo_spans m) key")
  case (Some tracer)
  have dist: "distinct (map fst (mo_spans m))" using assms(1) by (simp add: monitor_inv_def)
  let ?rest = "filter (\<lambda>(k, _). k \<noteq> key) (mo_spans m)"
  have del: "mset (mo_spans m) = add_mset (key, tracer) (mset ?rest)" by (rule delete_entry [OF dist Some])
  have ms: "mset (map snd (mo_spans m)) = add_mset tracer (mset (map snd ?rest))"
    using arg_cong [OF del, of "image_mset snd"] by (simp del: mset_filter)
  have len: "length (mo_spans m) = Suc (length ?rest)"
    using arg_cong [OF del, of size] by (simp del: mset_filter)
  have "distinct (map fst ?rest)" using dist by (simp add: distinct_map inj_on_def)
  with ms len assms Some show ?thesis by (auto simp: Finished_lock_def monitor_inv_def held_tracer_def simp del: mset_map mset_filter)
qed (use assms in \<open>simp add: Finished_lock_def\<close>)

lemma Unlock_inv: "monitor_inv m \<Longrightarrow> monitor_inv (Unlock m)"
  by (auto simp: Unlock_def monitor_inv_def held_tracer_def split: holder.splits option.splits)

lemma monitor_step_inv: "monitor_step m m' \<Longrightarrow> monitor_inv m \<Longrightarrow> monitor_inv m'"
proof (induction rule: monitor_step.induct)
  case (started m key first tracer)
  then show ?case by (simp add: Started_inv)
next
  case (finished m key err_opt)
  then have "monitor_inv (m\<lparr>past_check := past_check m - {#(key, err_opt)#}\<rparr>)" by (simp add: monitor_inv_def)
  then show ?case using finished by (intro Finished_inv) simp_all
next
  case (end_event x m)
  then obtain L where "leaving m = add_mset x L" by (metis insert_DiffM)
  then show ?case using end_event by (auto simp: monitor_inv_def split: holder.splits)
next
  case (finished_check m key err_opt)
  then show ?case by (simp add: monitor_inv_def split: holder.splits)
qed (rule Unlock_inv)

lemma monitor_reachable_inv: "monitor_reachable m \<Longrightarrow> monitor_inv m"
proof (induction rule: monitor_reachable.induct)
  case init
  then show ?case by (simp add: NewMonitor_def monitor_inv_def held_tracer_def)
qed (rule monitor_step_inv)

lemma AbbreviateJSON_fits: "length (AbbreviateJSON b len) \<le> max len (5 + length (itoa_nat len))"
  using rune_cut_le [of b "len - length (''...('' @ FormatInt (int len) @ '')'')"]
  by (auto simp: AbbreviateJSON_def Let_def FormatInt_def)

lemma AbbreviateJSON_valid:
  assumes "ValidString b"
  shows "ValidString (AbbreviateJSON b len)"
proof (cases "length b \<le> len")
  case False
  then have "ValidString (take (rune_cut b (len - length (''...('' @ FormatInt (int len) @ '')''))) b)"
    by (intro ValidString_cut [OF assms]) auto
  moreover have "ValidString ''...(''" "ValidString '')''" by code_simp+
  moreover have "ValidString (FormatInt (int len))" by (simp add: FormatInt_def ValidString_itoa)
  ultimately show ?thesis using False unfolding AbbreviateJSON_def Let_def by (simp only: if_False ValidString_append)
qed (use assms in \<open>simp add: AbbreviateJSON_def\<close>)

lemma command_size_positive: "0 < snd (CommandSettings E c)"
  by (simp add: CommandSettings_def Let_def DefaultCommandMaxSize_def)

lemma host_of_pool_addresses:
  "Host ''localhost:27017[-13]'' = ''localhost''" "Host ''[::1]:27017[-2]'' = ''::1''" "Host ''[fe80::1]'' = ''fe80::1''"
  by code_simp+

section \<open>Every command ends its event once\<close>

text \<open>
  In every interleaving of started and finished commands: the table stays within its bound, the tracers handed to \<open>Started\<close> are, counted with
  multiplicity, those in the table, those taken out and on their way to being ended, and those whose event has ended, so none is lost and none
  ends twice; and when a call of \<open>Finished\<close> skips the lock because the count reads zero, no command whose \<open>Started\<close> has returned is in the table.
\<close>

theorem mongo_events_ended_once:
  assumes "monitor_reachable m"
  shows "length (mo_spans m) \<le> MaxPendingSpans
    \<and> mo_started m = mset (map snd (mo_spans m)) + held_tracer (mo_mu m) + image_mset fst (leaving m) + image_mset fst (mo_ended m)
    \<and> (Pending m = 0 \<longrightarrow> mo_spans m = [] \<or> (\<exists>k t ev. mo_mu m = Inserted k t ev \<and> mo_spans m = [(k, t)]))"
  using monitor_reachable_inv [OF assms] by (auto simp: monitor_inv_def Pending_def split: holder.splits)

text \<open>A command that was started and then reported, alone: its tracer has ended once, with the error reported.\<close>

theorem mongo_command_run:
  defines "m1 \<equiv> Unlock (Started_lock 0 (7 :: nat) CHR ''t'' (NewMonitor :: (nat, char, string) monitor))"
  defines "m2 \<equiv> m1\<lparr>past_check := {#(7, Some ''down'')#}\<rparr>"
  defines "m3 \<equiv> Unlock (Finished_lock 7 (Some ''down'') (m2\<lparr>past_check := {#}\<rparr>))"
  defines "m4 \<equiv> m3\<lparr>leaving := {#}, mo_ended := {#(CHR ''t'', Reported (Some ''down''))#}\<rparr>"
  shows "monitor_reachable m4 \<and> mo_started m4 = {#CHR ''t''#} \<and> mo_spans m4 = []
    \<and> mo_started m4 = mset (map snd (mo_spans m4)) + held_tracer (mo_mu m4) + image_mset fst (leaving m4) + image_mset fst (mo_ended m4)"
proof -
  note D = m1_def m2_def m3_def m4_def Unlock_def Started_lock_def Finished_lock_def NewMonitor_def make_room_def MaxPendingSpans_def
  let ?m0 = "NewMonitor :: (nat, char, string) monitor"
  have s1: "monitor_step ?m0 (Started_lock 0 7 CHR ''t'' ?m0)" by (rule monitor_step.started) (simp_all add: NewMonitor_def)
  have s2: "monitor_step (Started_lock 0 7 CHR ''t'' ?m0) m1" unfolding m1_def by (rule monitor_step.unlock) (simp add: D)
  have "m2 = m1\<lparr>past_check := add_mset (7, Some ''down'') (past_check m1)\<rparr>" by (simp add: D)
  then have s3: "monitor_step m1 m2" using monitor_step.finished_check [of m1 7 "Some ''down''"] by (simp add: D)
  have s4: "monitor_step m2 (Finished_lock 7 (Some ''down'') (m2\<lparr>past_check := {#}\<rparr>))"
    using monitor_step.finished [of m2 7 "Some ''down''"] by (simp add: D)
  have s5: "monitor_step (Finished_lock 7 (Some ''down'') (m2\<lparr>past_check := {#}\<rparr>)) m3"
    unfolding m3_def by (rule monitor_step.unlock) (simp add: D)
  have s6: "monitor_step m3 m4" using monitor_step.end_event [of "(CHR ''t'', Reported (Some ''down''))" m3] by (simp add: D)
  have r: "monitor_reachable m4"
    by (rule monitor_reachable.step [OF monitor_reachable.step [OF monitor_reachable.step [OF monitor_reachable.step [OF
        monitor_reachable.step [OF monitor_reachable.step [OF monitor_reachable.init s1] s2] s3] s4] s5] s6])
  have "mo_started m4 = {#CHR ''t''#}" "mo_spans m4 = []" by (simp_all add: D)
  with r mongo_events_ended_once [OF r] show ?thesis by blast
qed

end
