(* ===== verification/Plugin_Trace.thy ===== *)
theory Plugin_Trace
  imports Http_Client
begin

text \<open>
  What the messaging and RPC plugins share of the tracer's operations: the error of the open event, goroutine tracers, and the way a
  server or a consumer runs a handler (\<^verbatim>\<open>UnaryServerInterceptor\<close>, \<^verbatim>\<open>StreamServerInterceptor\<close>, \<^verbatim>\<open>ConsumeMessageContext\<close>).
\<close>

definition t_event_SetError :: "'e agent_env \<Rightarrow> 'e option \<Rightarrow> string list \<Rightarrow> 'e http_trace \<Rightarrow> 'e http_trace" where
  "t_event_SetError A err_opt names q =
     (case ht_tracer q of
        SampledTracer sp st \<Rightarrow>
          (let (sp, r, gen) = SpanEvent_SetError A err_opt names (sp, ht_root q, ht_gen q)
           in q\<lparr>ht_tracer := SampledTracer sp st, ht_root := r, ht_gen := gen\<rparr>)
      | _ \<Rightarrow> q)"

text \<open>
  A goroutine tracer, the tracer it was forked from and the agent's generator of asynchronous ids. In the code both share one root; here each trace
  continues from the root at the fork.
\<close>

definition t_NewGoroutineTracer :: "'e agent_env \<Rightarrow> int \<Rightarrow> go_int32 \<Rightarrow> 'e http_trace \<Rightarrow> 'e http_trace \<times> 'e http_trace \<times> go_int32" where
  "t_NewGoroutineTracer A now agen q =
     (case ht_tracer q of
        SampledTracer sp st \<Rightarrow>
          (let (child, sp, agen) = NewGoroutineTracer A now agen sp
           in (q\<lparr>ht_tracer := (case child of Some c \<Rightarrow> SampledTracer c st | None \<Rightarrow> NoopTracer), ht_nested := False\<rparr>,
               q\<lparr>ht_tracer := SampledTracer sp st\<rparr>, agen))
      | UnsampledTracer np \<Rightarrow> (q\<lparr>ht_tracer := UnsampledTracer (noop_NewGoroutineTracer np), ht_nested := False\<rparr>, q, agen)
      | NoopTracer \<Rightarrow> (q\<lparr>ht_nested := False\<rparr>, q, agen))"

text \<open>
  The handler runs inside an event (\<open>None\<close>: without one) and returns an error or panics; the error goes to the span, the deferred
  calls end the event, with the panic if there is one, and then the span. The outcome, the URL statistics record, the trace.
\<close>

definition run_handler ::
  "'e agent_env \<Rightarrow> call_site \<Rightarrow> trace_times \<Rightarrow> bool \<Rightarrow> string option \<Rightarrow> ('e http_trace \<Rightarrow> ('p \<times> 'e + 'e option) \<times> 'e http_trace) \<Rightarrow> 'e http_trace
     \<Rightarrow> ('p + 'e option) \<times> (UrlStatEntry \<times> int \<times> int \<times> go_int32) option \<times> 'e http_trace" where
  "run_handler A c tm accepted event handler q =
     (let q = (case event of Some name \<Rightarrow> t_NewSpanEvent A (tm_event tm) name q | None \<Rightarrow> q);
          (out, q) = handler q;
          q = (case out of Inr err_opt \<Rightarrow> t_SetError A err_opt q | Inl _ \<Rightarrow> q);
          pending = (case out of Inl p \<Rightarrow> Some p | Inr _ \<Rightarrow> None);
          (q, pan) = (case event of Some _ \<Rightarrow> t_EndSpanEvent A (tm_done tm) pending q | None \<Rightarrow> (q, map_option fst pending));
          (url, q) = t_EndSpan c (tm_start tm) (tm_end tm) accepted q
      in (case pan of Some p \<Rightarrow> Inl p | None \<Rightarrow> Inr (case out of Inr err_opt \<Rightarrow> err_opt | Inl _ \<Rightarrow> None), url, q))"

section \<open>Lemmas\<close>

lemma Inject_values:
  assumes "\<not> finished sp" "ids_cached sp"
  shows "fst (Inject A nid sp) \<noteq> []" "map_of (fst (Inject A nid sp)) HeaderTraceId = Some (TransactionId_String (sp_txId sp))"
    "map_of (fst (Inject A nid sp)) HeaderSpanId = Some (FormatInt64 nid)"
    "map_of (fst (Inject A nid sp)) HeaderParentSpanId = Some (FormatInt64 (spanId sp))"
  using header_neqs by (rule_tac [!] Inject_headers [OF assms, of A nid]) auto

lemma t_SetError_sampled:
  assumes "ht_tracer q = SampledTracer sp st"
  obtains sp' where "ht_tracer (t_SetError A err_opt q) = SampledTracer sp' st" "request_view sp' = request_view sp"
    "ht_nested (t_SetError A err_opt q) = ht_nested q"
proof -
  obtain sp' r gen where e: "SetError A err_opt [] (sp, ht_root q, ht_gen q) = (sp', r, gen)" by (rule prod_cases3)
  show thesis by (rule that [of sp']) (simp_all add: t_SetError_def assms e view_SetError [OF e])
qed

lemma t_EndSpan_sampled:
  assumes "ht_tracer q = SampledTracer sp st" "\<not> finished sp"
  obtains sp' where "ht_tracer (snd (t_EndSpan c s n acc q)) = SampledTracer sp' st" "finished sp' \<longleftrightarrow> \<not> ht_nested q"
proof (cases "ht_nested q")
  case True
  then show thesis using that [of sp] assms by (simp add: t_EndSpan_def)
next
  case False
  then show thesis using that [of "snd (EndSpan n acc (ht_root q) sp)"] assms(1) EndSpan_url(3) [OF assms(2), of n acc "ht_root q"]
    by (simp add: t_EndSpan_def case_prod_beta Let_def)
qed

text \<open>
  The handler's outcome is the caller's, an error unchanged and a panic raised again with its value; the span of the request has ended
  when it returns, and a nested layer leaves it open for its owner.
\<close>

theorem handler_outcome_kept:
  assumes "handler (case event of Some name \<Rightarrow> t_NewSpanEvent A (tm_event tm) name q | None \<Rightarrow> q) = (out, q1)"
  shows "case run_handler A c tm accepted event handler q of (res, url, q') \<Rightarrow>
    res = map_sum fst id out
    \<and> (\<forall>sp st. ht_tracer q1 = SampledTracer sp st \<and> \<not> finished sp \<longrightarrow> (\<exists>sp'. ht_tracer q' = SampledTracer sp' st \<and> (finished sp' \<longleftrightarrow> \<not> ht_nested q1)))"
proof -
  define pending where "pending = (case out of Inl p \<Rightarrow> Some p | Inr _ \<Rightarrow> None)"
  define q2 where "q2 = (case out of Inr err_opt \<Rightarrow> t_SetError A err_opt q1 | Inl _ \<Rightarrow> q1)"
  define q3 where "q3 = (case event of Some _ \<Rightarrow> fst (t_EndSpanEvent A (tm_done tm) pending q2) | None \<Rightarrow> q2)"
  have e: "(case event of Some _ \<Rightarrow> t_EndSpanEvent A (tm_done tm) pending q2 | None \<Rightarrow> (q2, map_option fst pending)) = (q3, map_option fst pending)"
    by (cases event) (simp_all add: q3_def prod_eq_iff panic_reraised [symmetric])
  have res: "(case map_option fst pending of Some p \<Rightarrow> Inl p | None \<Rightarrow> Inr (case out of Inr err_opt \<Rightarrow> err_opt | Inl _ \<Rightarrow> None)) = map_sum fst id out"
    by (cases out) (simp_all add: pending_def)
  have r: "run_handler A c tm accepted event handler q = (map_sum fst id out, t_EndSpan c (tm_start tm) (tm_end tm) accepted q3)"
    unfolding run_handler_def Let_def assms prod.case pending_def [symmetric] q2_def [symmetric] e res
    by (cases "t_EndSpan c (tm_start tm) (tm_end tm) accepted q3") (simp only: prod.case)
  have "\<exists>sp'. ht_tracer (snd (t_EndSpan c (tm_start tm) (tm_end tm) accepted q3)) = SampledTracer sp' st \<and> (finished sp' \<longleftrightarrow> \<not> ht_nested q1)"
    if sp: "ht_tracer q1 = SampledTracer sp st" "\<not> finished sp" for sp st
  proof -
    obtain sp2 where q2: "ht_tracer q2 = SampledTracer sp2 st" "request_view sp2 = request_view sp" "ht_nested q2 = ht_nested q1"
      using sp(1) t_SetError_sampled [OF sp(1)] by (cases out) (auto simp: q2_def)
    obtain sp3 where q3: "ht_tracer q3 = SampledTracer sp3 st" "request_view sp3 = request_view sp2" "ht_nested q3 = ht_nested q2"
      using q2(1) t_EndSpanEvent_sampled [OF q2(1), of A "tm_done tm" pending] by (cases event) (auto simp: q3_def)
    have "\<not> finished sp3" using sp(2) q2(2) q3(2) by (simp add: request_view_def)
    from t_EndSpan_sampled [OF q3(1) this] show ?thesis using q2(3) q3(3) by metis
  qed
  then show ?thesis by (simp add: r case_prod_beta)
qed

end
