(* ===== verification/Kafka_Producer.thy ===== *)
theory Kafka_Producer
  imports Plugin_Trace Kafka
begin

text \<open>
  The instrumented sarama producers (\<^verbatim>\<open>src/plugin/sarama-IBM/syncproducer.go\<close>, \<^verbatim>\<open>asyncproducer.go\<close>) and the reader of the consumer
  (\<^verbatim>\<open>consumer.go\<close>): the trace context in a message's record headers and the span events around a send. The answers of sarama are inputs; the
  spans that wait for them are in \<open>Kafka_Acks\<close>.
\<close>

section \<open>Record headers\<close>

record producer_message =
  pm_Topic :: string
  pm_Headers :: "(string \<times> string) list"

definition producerHeaderReader_Get :: "(string \<times> string) list \<Rightarrow> reader" where
  "producerHeaderReader_Get hs key = map_option snd (find (\<lambda>(k, _). k = key) hs)"

text \<open>A consumed record's headers are pointers: \<open>None\<close> is skipped.\<close>

definition consumerHeaderReader_Get :: "(string \<times> string) option list \<Rightarrow> reader" where
  "consumerHeaderReader_Get hs key = (case find (\<lambda>h. case h of Some (k, _) \<Rightarrow> k = key | None \<Rightarrow> False) hs of Some (Some (_, v)) \<Rightarrow> Some v | _ \<Rightarrow> None)"

text \<open>A nil message (\<open>None\<close>) goes to sarama untouched.\<close>

definition isNested :: "'e http_trace \<Rightarrow> producer_message option \<Rightarrow> bool" where
  "isNested q msg =
     (case msg of None \<Rightarrow> True
      | Some m \<Rightarrow> let r = producerHeaderReader_Get (pm_Headers m) in IsInjected r \<and> IsInjectedBy q r)"

definition headerKeys :: "string \<rightharpoonup> string" where
  "headerKeys = map_of (map (\<lambda>k. (k, k)) injectedHeaders)"

definition headerKey :: "string \<Rightarrow> string" where
  "headerKey key = (case headerKeys key of Some b \<Rightarrow> b | None \<Rightarrow> key)"

definition writerProducer_Set :: "string \<Rightarrow> string \<Rightarrow> producer_message \<times> bool \<Rightarrow> producer_message \<times> bool" where
  "writerProducer_Set key v w =
     (let (msg, grown) = w;
          hs = (if grown then pm_Headers msg else filter (\<lambda>(k, _). \<not> IsInjectedHeader k) (pm_Headers msg))
      in (msg\<lparr>pm_Headers := hs @ [(headerKey key, v)]\<rparr>, True))"

definition inject_message :: "(string \<times> string) list \<Rightarrow> producer_message \<Rightarrow> producer_message" where
  "inject_message kvs msg = fst (fold (\<lambda>(k, v). writerProducer_Set k v) kvs (msg, False))"

section \<open>The synchronous producer\<close>

record syncProducer =
  pr_addrs :: "string list"
  pr_noHeaders :: bool

definition describe_send :: "string list \<Rightarrow> string option \<Rightarrow> 'e span \<Rightarrow> 'e span" where
  "describe_send addrs topic sp =
     (let sp = on_top (ev_SetServiceType ServiceTypeKafkaClient) sp;
          sp = (case topic of Some t \<Rightarrow> on_top (ev_annotate (AppendString AnnotationKafkaTopic t)) sp | None \<Rightarrow> sp)
      in case addrs of a # _ \<Rightarrow> SpanEvent_SetDestination a sp | [] \<Rightarrow> sp)"

text \<open>\<open>False\<close>: the noop tracer is returned, and nothing is recorded or ended for this message.\<close>

definition newSyncProducerTracer ::
  "'e agent_env \<Rightarrow> int \<Rightarrow> go_int64 \<Rightarrow> syncProducer \<Rightarrow> producer_message option \<Rightarrow> 'e http_trace \<Rightarrow> bool \<times> producer_message option \<times> 'e http_trace" where
  "newSyncProducerTracer A now nid p msg q =
     (case msg of None \<Rightarrow> (False, msg, q)
      | Some m \<Rightarrow>
          if isNested q msg then (False, msg, q)
          else
            let q = t_NewSpanEvent A now ''sarama.SyncProducer.SendMessage'' q;
                q = on_span (describe_send (pr_addrs p) (Some (pm_Topic m))) q
            in if pr_noHeaders p then (True, msg, q)
               else let (kvs, q) = t_Inject A nid q in (True, Some (inject_message kvs m), q))"

text \<open>
  The answer of sarama's producer: partition and offset, an error, or a panic, which the deferred \<open>EndSpanEvent\<close> records and
  raises again.
\<close>

definition send_end :: "'e agent_env \<Rightarrow> int \<Rightarrow> ('p \<times> 'e) + ('r \<times> 'e option) \<Rightarrow> 'e http_trace \<Rightarrow> 'e http_trace \<times> 'p option" where
  "send_end A now ans q =
     (case ans of Inl p \<Rightarrow> t_EndSpanEvent A now (Some p) q
      | Inr (_, err_opt) \<Rightarrow> t_EndSpanEvent A now None (t_event_SetError A err_opt [] q))"

definition SendMessageContext ::
  "'e agent_env \<Rightarrow> int \<Rightarrow> int \<Rightarrow> go_int64 \<Rightarrow> bool \<Rightarrow> syncProducer \<Rightarrow> (producer_message option \<Rightarrow> ('p \<times> 'e) + ('r \<times> 'e option))
     \<Rightarrow> producer_message option \<Rightarrow> 'e http_trace \<Rightarrow> ('p + ('r \<times> 'e option)) \<times> producer_message option \<times> 'e http_trace" where
  "SendMessageContext A t0 t1 nid enabled p send msg q =
     (if \<not> enabled then (map_sum fst id (send msg), msg, q)
      else
        let (active, msg, q) = newSyncProducerTracer A t0 nid p msg q;
            ans = send msg
        in (map_sum fst id ans, msg, if active then fst (send_end A t1 ans q) else q))"

fun batch_messages ::
  "'e agent_env \<Rightarrow> int \<Rightarrow> syncProducer \<Rightarrow> (go_int64 \<times> producer_message option) list \<Rightarrow> 'e http_trace \<Rightarrow> producer_message option list \<times> 'e http_trace" where
  "batch_messages A now p [] q = ([], q)"
| "batch_messages A now p ((nid, msg) # msgs) q =
     (let (active, msg, q) = newSyncProducerTracer A now nid p msg q;
          q = (if active then fst (t_EndSpanEvent A now (None :: ('e \<times> 'e) option) q) else q);
          (sent, q) = batch_messages A now p msgs q
      in (msg # sent, q))"

text \<open>The ids drawn for the messages come with them. The events of the messages have ended when the error is recorded: the batch's own event is the open one.\<close>

definition SendMessagesContext ::
  "'e agent_env \<Rightarrow> int \<Rightarrow> int \<Rightarrow> bool \<Rightarrow> syncProducer \<Rightarrow> (producer_message option list \<Rightarrow> ('p \<times> 'e) + (unit \<times> 'e option))
     \<Rightarrow> (go_int64 \<times> producer_message option) list \<Rightarrow> 'e http_trace \<Rightarrow> ('p + (unit \<times> 'e option)) \<times> producer_message option list \<times> 'e http_trace" where
  "SendMessagesContext A t0 t1 enabled p send msgs q =
     (if \<not> enabled then (map_sum fst id (send (map snd msgs)), map snd msgs, q)
      else
        let q = t_NewSpanEvent A t0 ''sarama.SyncProducer.SendMessages'' q;
            q = on_span (describe_send (pr_addrs p) None) q;
            (sent, q) = batch_messages A t0 p msgs q;
            ans = send sent
        in (map_sum fst id ans, sent, fst (send_end A t1 ans q)))"

section \<open>The asynchronous producer: a hand-over\<close>

record producer_config =
  pc_headers :: bool
  pc_Successes :: bool
  pc_Errors :: bool

definition headersSupported :: "producer_config \<Rightarrow> bool" where "headersSupported cf = pc_headers cf"
definition trackAcks :: "producer_config \<Rightarrow> bool" where "trackAcks cf \<longleftrightarrow> pc_Successes cf \<and> pc_Errors cf"

definition newAsyncProducerTracer ::
  "'e agent_env \<Rightarrow> int \<Rightarrow> go_int64 \<Rightarrow> string list \<Rightarrow> producer_config \<Rightarrow> producer_message \<Rightarrow> 'e http_trace \<Rightarrow> bool \<times> producer_message \<times> 'e http_trace" where
  "newAsyncProducerTracer A now nid addrs cf m q =
     (let q = on_span (describe_send addrs (Some (pm_Topic m))) (t_NewSpanEvent A now ''sarama.AsyncProducer.SendMessage'' q)
      in if \<not> headersSupported cf then (False, m, q)
         else let (kvs, q) = t_Inject A nid q in (trackAcks cf \<and> IsSampled q, inject_message kvs m, q))"

text \<open>
  \<open>InputContext\<close> up to the send: \<open>None\<close> when the message is sent as it is, else whether its span waits in the table, the message with its
  headers, the span and the caller's trace, the hand-over event open on it.
\<close>

definition InputContext ::
  "'e agent_env \<Rightarrow> int \<Rightarrow> go_int64 \<Rightarrow> go_int32 \<Rightarrow> bool \<Rightarrow> string list \<Rightarrow> producer_config \<Rightarrow> producer_message option \<Rightarrow> 'e http_trace
     \<Rightarrow> (bool \<times> producer_message \<times> 'e http_trace \<times> 'e http_trace \<times> go_int32) option" where
  "InputContext A now nid agen enabled addrs cf msg q =
     (case msg of None \<Rightarrow> None
      | Some m \<Rightarrow>
          if \<not> enabled \<or> isNested q msg then None
          else
            let q = t_NewSpanEvent A now ''sarama.AsyncProducer.Input()'' q;
                (child, q, agen) = t_NewGoroutineTracer A now agen q;
                (track, m, child) = newAsyncProducerTracer A now nid addrs cf m child
            in Some (track, m, child, q, agen))"

section \<open>The consumer\<close>

text \<open>
  The broker addresses in the context: none, a value of another type (\<open>Some None\<close>), or a list.
\<close>

record consumer_message =
  cm_Topic :: string
  cm_Partition :: go_int32
  cm_Offset :: go_int64
  cm_Headers :: "(string \<times> string) option list"

definition consumerMessage :: "consumer_message \<Rightarrow> KafkaConsumerMessage" where
  "consumerMessage msg = \<lparr>km_Topic = cm_Topic msg, km_Partition = cm_Partition msg, km_Offset = cm_Offset msg, km_Broker = []\<rparr>"

definition newConsumerTracer ::
  "'e agent_env \<Rightarrow> entry_env \<Rightarrow> call_site \<Rightarrow> string list option option \<Rightarrow> consumer_message \<Rightarrow> request_agent \<Rightarrow> 'e tracer \<times> request_agent" where
  "newConsumerTracer A E c ctx msg a =
     (let m = consumerMessage msg;
          m = (case ctx of None \<Rightarrow> m | Some v \<Rightarrow> m\<lparr>km_Broker := (case v of Some (addr # _) \<Rightarrow> addr | _ \<Rightarrow> ''Unknown'')\<rparr>)
      in NewKafkaConsumerTracer A E c ''Sarama Consumer Invocation'' m (Some (consumerHeaderReader_Get (cm_Headers msg))) a)"

text \<open>\<open>None\<close>: a nil message, refused with an error before anything is traced.\<close>

definition ConsumeMessageContext ::
  "'e agent_env \<Rightarrow> entry_env \<Rightarrow> call_site \<Rightarrow> trace_times \<Rightarrow> bool \<Rightarrow> int \<Rightarrow> string \<Rightarrow> string list option option
     \<Rightarrow> ('e http_trace \<Rightarrow> ('p \<times> 'e + 'e option) \<times> 'e http_trace) \<Rightarrow> consumer_message option \<Rightarrow> request_agent
     \<Rightarrow> (('p + 'e option) \<times> (UrlStatEntry \<times> int \<times> int \<times> go_int32) option \<times> 'e http_trace) option" where
  "ConsumeMessageContext A E c tm accepted gen name ctx handler msg a =
     (case msg of None \<Rightarrow> None
      | Some msg \<Rightarrow>
          let (t, a) = newConsumerTracer A E c ctx msg a;
              q = \<lparr>ht_tracer = t, ht_nested = False, ht_root = zero_root, ht_gen = gen, ht_agent = a\<rparr>
          in Some (run_handler A c tm accepted (if IsSampled q then Some name else None) handler q))"

section \<open>Lemmas: the headers of a message\<close>

lemma headerKey_eq [simp]: "headerKey key = key"
  by (auto simp: headerKey_def headerKeys_def split: option.split dest!: map_of_SomeD)

lemma producerHeaderReader_map_of: "producerHeaderReader_Get hs = map_of hs"
proof
  show "producerHeaderReader_Get hs k = map_of hs k" for k by (induction hs) (auto simp: producerHeaderReader_Get_def)
qed

lemma consumerHeaderReader_map_of: "consumerHeaderReader_Get (map Some hs) = map_of hs"
proof
  show "consumerHeaderReader_Get (map Some hs) k = map_of hs k" for k by (induction hs) (auto simp: consumerHeaderReader_Get_def)
qed

lemma writer_grown: "fold (\<lambda>(k, v). writerProducer_Set k v) kvs (msg, True) = (msg\<lparr>pm_Headers := pm_Headers msg @ kvs\<rparr>, True)"
  by (induction kvs arbitrary: msg) (auto simp: writerProducer_Set_def Let_def)

lemma inject_message_headers:
  "inject_message kvs msg = (if kvs = [] then msg else msg\<lparr>pm_Headers := filter (\<lambda>(k, _). \<not> IsInjectedHeader k) (pm_Headers msg) @ kvs\<rparr>)"
  by (cases kvs) (auto simp: inject_message_def writerProducer_Set_def writer_grown Let_def)

lemma injected_self: "k \<in> set injectedHeaders \<Longrightarrow> IsInjectedHeader k"
  by (auto simp: IsInjectedHeader_def list_ex_iff EqualFold_def)

lemma injected_not_kept: "k \<in> set injectedHeaders \<Longrightarrow> map_of (filter (\<lambda>(k, _). \<not> IsInjectedHeader k) hs) k = None"
  using injected_self by (auto simp: map_of_eq_None_iff)

text \<open>After an injection the agent's headers are exactly the injected ones.\<close>

lemma message_lookup:
  assumes "kvs \<noteq> []" "k \<in> set injectedHeaders"
  shows "producerHeaderReader_Get (pm_Headers (inject_message kvs msg)) k = map_of kvs k"
  using injected_not_kept [OF assms(2), of "pm_Headers msg"] assms(1)
  by (simp add: inject_message_headers producerHeaderReader_map_of map_add_def split: option.split)

lemma ids_view_describe: "ids_view (describe_send addrs topic sp) = ids_view sp"
  by (auto simp: describe_send_def Let_def ids_view_client split: list.split option.split)

lemma ids_view_Inject: "ids_view (snd (Inject A nid sp)) = (finished sp, sp_txId sp, spanId sp, txIdStr (snd (Inject A nid sp)), spanIdStr (snd (Inject A nid sp)))"
  by (simp add: ids_view_def Inject_def on_top_def Let_def split: option.splits)

lemma Inject_cached: "ids_cached sp \<Longrightarrow> ids_cached (snd (Inject A nid sp))"
  by (auto simp: ids_cached_def Inject_def on_top_def Let_def split: option.splits)

text \<open>What a span is to its messages; sending leaves it alone.\<close>

definition sends_for :: "go_int64 \<Rightarrow> TransactionId \<Rightarrow> 'e http_trace \<Rightarrow> bool" where
  "sends_for sid tx q \<longleftrightarrow> (\<exists>sp st. ht_tracer q = SampledTracer sp st \<and> \<not> finished sp \<and> ids_cached sp \<and> spanId sp = sid \<and> sp_txId sp = tx)"

lemma sends_for_view:
  assumes "sends_for sid tx q" "\<And>sp. ids_view (f sp) = ids_view sp"
  shows "sends_for sid tx (on_span f q)"
proof -
  obtain sp st where sp: "ht_tracer q = SampledTracer sp st" "\<not> finished sp" "ids_cached sp" "spanId sp = sid" "sp_txId sp = tx"
    using assms(1) by (auto simp: sends_for_def)
  then show ?thesis using assms(2) [of sp] by (auto simp: sends_for_def on_span_def ids_view_def ids_cached_def)
qed

lemma sends_for_NewSpanEvent: "sends_for sid tx q \<Longrightarrow> sends_for sid tx (t_NewSpanEvent A now op q)"
  unfolding t_NewSpanEvent_def by (rule sends_for_view) (simp_all add: ids_view_client)

lemma sends_for_describe: "sends_for sid tx q \<Longrightarrow> sends_for sid tx (on_span (describe_send addrs topic) q)"
  by (rule sends_for_view) (simp_all add: ids_view_describe)

lemma sends_for_Inject:
  assumes "sends_for sid tx q" "t_Inject A nid q = (kvs, q')"
  shows "sends_for sid tx q' \<and> kvs \<noteq> [] \<and> map_of kvs HeaderTraceId = Some (TransactionId_String tx)
    \<and> map_of kvs HeaderSpanId = Some (FormatInt64 nid) \<and> map_of kvs HeaderParentSpanId = Some (FormatInt64 sid)"
proof -
  obtain sp st where sp: "ht_tracer q = SampledTracer sp st" "\<not> finished sp" "ids_cached sp" "spanId sp = sid" "sp_txId sp = tx"
    using assms(1) by (auto simp: sends_for_def)
  have r: "kvs = fst (Inject A nid sp)" "q' = q\<lparr>ht_tracer := SampledTracer (snd (Inject A nid sp)) st\<rparr>"
    using assms(2) sp(1) by (simp_all add: t_Inject_def case_prod_beta)
  have "sends_for sid tx q'"
    using sp ids_view_Inject [of A nid sp] Inject_cached [OF sp(3), of A nid] by (auto simp: sends_for_def r(2) ids_view_def)
  then show ?thesis using Inject_values [OF sp(2,3), of A nid] sp(4,5) by (simp add: r(1))
qed

lemma agent_headers: "HeaderTraceId \<in> set injectedHeaders" "HeaderSpanId \<in> set injectedHeaders" "HeaderParentSpanId \<in> set injectedHeaders"
  by (simp_all add: injectedHeaders_def)

lemma nested_own:
  assumes "sends_for sid tx q" "isNested q (Some m)"
  shows "producerHeaderReader_Get (pm_Headers m) HeaderParentSpanId = Some (FormatInt64 sid)"
  using assms by (auto simp: sends_for_def isNested_def IsInjectedBy_def Let_def split: option.splits)

lemma own_nested:
  assumes "sends_for sid tx q" "producerHeaderReader_Get (pm_Headers m) HeaderTraceId \<noteq> None"
    "producerHeaderReader_Get (pm_Headers m) HeaderParentSpanId = Some (FormatInt64 sid)"
  shows "isNested q (Some m)"
  using assms by (auto simp: sends_for_def isNested_def IsInjectedBy_def IsInjected_def Let_def)

text \<open>What either producer leaves in the headers of a message it injects into.\<close>

definition carries :: "go_int64 \<Rightarrow> TransactionId \<Rightarrow> go_int64 \<Rightarrow> producer_message \<Rightarrow> producer_message \<Rightarrow> bool" where
  "carries sid tx nid m m' \<longleftrightarrow> pm_Topic m' = pm_Topic m
     \<and> filter (\<lambda>(k, _). \<not> IsInjectedHeader k) (pm_Headers m') = filter (\<lambda>(k, _). \<not> IsInjectedHeader k) (pm_Headers m)
     \<and> (let Get = consumerHeaderReader_Get (map Some (pm_Headers m'))
        in Get HeaderTraceId = Some (TransactionId_String tx) \<and> Get HeaderSpanId = Some (FormatInt64 nid) \<and> Get HeaderParentSpanId = Some (FormatInt64 sid))"

lemma t_Inject_keys:
  assumes "sends_for sid tx q" "t_Inject A nid q = (kvs, q')"
  shows "fst ` set kvs \<subseteq> set injectedHeaders"
  using assms injected_keys by (force simp: sends_for_def t_Inject_def case_prod_beta)

lemma inject_carries:
  assumes "sends_for sid tx q" "t_Inject A nid q = (kvs, q')"
  shows "carries sid tx nid m (inject_message kvs m) \<and> isNested q' (Some (inject_message kvs m)) \<and> sends_for sid tx q'"
proof -
  note I = sends_for_Inject [OF assms]
  have "filter (\<lambda>(k, _). \<not> IsInjectedHeader k) kvs = []"
    using t_Inject_keys [OF assms] injected_self by (fastforce simp: filter_empty_conv)
  moreover have "filter (\<lambda>x. (case x of (k, _) \<Rightarrow> \<not> IsInjectedHeader k)) (filter (\<lambda>(k, _). \<not> IsInjectedHeader k) hs) =
    filter (\<lambda>(k, _). \<not> IsInjectedHeader k) hs" for hs :: "(string \<times> string) list" by (induction hs) auto
  ultimately have "carries sid tx nid m (inject_message kvs m)"
    using I message_lookup [of kvs _ m] agent_headers
    by (simp add: carries_def Let_def consumerHeaderReader_map_of producerHeaderReader_map_of [symmetric])
      (simp add: inject_message_headers)
  then show ?thesis
    using I message_lookup [of kvs _ m] agent_headers by (simp add: own_nested [of sid tx q'])
qed

lemma sync_tracer:
  assumes "sends_for sid tx q" "\<not> isNested q (Some m)" "\<not> pr_noHeaders p"
  obtains m' q' where "newSyncProducerTracer A now nid p (Some m) q = (True, Some m', q')" "carries sid tx nid m m'"
    "isNested q' (Some m')" "sends_for sid tx q'"
proof -
  let ?q = "on_span (describe_send (pr_addrs p) (Some (pm_Topic m))) (t_NewSpanEvent A now ''sarama.SyncProducer.SendMessage'' q)"
  have q: "sends_for sid tx ?q" by (intro sends_for_describe sends_for_NewSpanEvent assms(1))
  obtain kvs q' where i: "t_Inject A nid ?q = (kvs, q')" by (rule prod.exhaust)
  have r: "newSyncProducerTracer A now nid p (Some m) q = (True, Some (inject_message kvs m), q')"
    using assms(2,3) i by (simp add: newSyncProducerTracer_def Let_def)
  show thesis using that [OF r] inject_carries [OF q i, of m] by blast
qed

section \<open>What travels with a message\<close>

text \<open>
  One context travels with a record. A message sent on an open span, unless an outer layer of the same span has injected it, carries this span's
  transaction, this span as the parent and the id drawn for the consumer, read through the consumer's own reader, whatever
  context of another span its headers held; every other header is sent as it was, in order. Sending the same message again records and
  writes nothing.
\<close>

theorem record_context_travels_once:
  assumes "ht_tracer q = SampledTracer sp st" "\<not> finished sp" "ids_cached sp" "\<not> isNested q (Some m)" "\<not> pr_noHeaders p"
  shows "case newSyncProducerTracer A now nid p (Some m) q of (active, msg, q') \<Rightarrow>
    active \<and> (\<exists>m'. msg = Some m' \<and> carries (spanId sp) (sp_txId sp) nid m m'
      \<and> (\<forall>now2 nid2. newSyncProducerTracer A now2 nid2 p msg q' = (False, msg, q')))"
proof -
  have "sends_for (spanId sp) (sp_txId sp) q" using assms(1-3) by (auto simp: sends_for_def)
  from sync_tracer [OF this assms(4,5)] obtain m' q' where r: "newSyncProducerTracer A now nid p (Some m) q = (True, Some m', q')"
    "carries (spanId sp) (sp_txId sp) nid m m'" "isNested q' (Some m')" .
  then show ?thesis by (simp add: newSyncProducerTracer_def [of A _ _ p "Some m'"])
qed

text \<open>A producer below Kafka 0.11 and a message of a disabled agent keep their headers.\<close>

lemma headers_untouched:
  "pr_noHeaders p \<Longrightarrow> fst (snd (newSyncProducerTracer A now nid p msg q)) = msg"
  "fst (snd (SendMessageContext A t0 t1 nid False p snd_msg msg q)) = msg"
  by (auto simp: newSyncProducerTracer_def SendMessageContext_def Let_def split: option.split)

text \<open>Every message of a batch carries the sender's span as its parent, whichever of them were injected before.\<close>

lemma ids_view_EndSpanEvent:
  "ids_view (fst (fst (EndSpanEvent A now (None :: ('p \<times> 'e) option) (sp, r, gen)))) = ids_view sp"
  by (auto simp: EndSpanEvent_def endSpanEvent_def ids_view_def finish_event_def appendEndedSpanEvent_def newEventChunk_def chunk_enqueue_def Let_def
      split: option.split)

lemma sends_for_EndSpanEvent:
  assumes "sends_for sid tx q"
  shows "sends_for sid tx (fst (t_EndSpanEvent A now (None :: ('p \<times> 'e) option) q))"
proof -
  obtain sp st where sp: "ht_tracer q = SampledTracer sp st" "\<not> finished sp" "ids_cached sp" "spanId sp = sid" "sp_txId sp = tx"
    using assms by (auto simp: sends_for_def)
  let ?s = "fst (fst (EndSpanEvent A now (None :: ('p \<times> 'e) option) (sp, ht_root q, ht_gen q)))"
  have "ht_tracer (fst (t_EndSpanEvent A now (None :: ('p \<times> 'e) option) q)) = SampledTracer ?s st"
    by (simp add: t_EndSpanEvent_def sp(1) case_prod_beta)
  then show ?thesis using sp ids_view_EndSpanEvent [of A now sp "ht_root q" "ht_gen q"] by (auto simp: sends_for_def ids_view_def ids_cached_def)
qed

lemma batch_parents:
  assumes "sends_for sid tx q" "\<not> pr_noHeaders p" "batch_messages A now p msgs q = (sent, q')"
  shows "length sent = length msgs \<and> sends_for sid tx q'
    \<and> (\<forall>m. Some m \<in> set sent \<longrightarrow> producerHeaderReader_Get (pm_Headers m) HeaderParentSpanId = Some (FormatInt64 sid))"
  using assms
proof (induction msgs arbitrary: q sent q')
  case (Cons x msgs)
  obtain nid msg where x: "x = (nid, msg)" by (cases x)
  obtain active msg1 q1 where t: "newSyncProducerTracer A now nid p msg q = (active, msg1, q1)" by (rule prod_cases3)
  have one: "sends_for sid tx q1 \<and> (\<forall>m. msg1 = Some m \<longrightarrow> producerHeaderReader_Get (pm_Headers m) HeaderParentSpanId = Some (FormatInt64 sid))"
  proof (cases "isNested q msg")
    case True
    then have "msg1 = msg" "q1 = q" using t by (auto simp: newSyncProducerTracer_def split: option.splits)
    then show ?thesis using Cons.prems(1) True nested_own by blast
  next
    case False
    then obtain m where m: "msg = Some m" by (cases msg) (auto simp: isNested_def)
    from sync_tracer [OF Cons.prems(1) _ Cons.prems(2), of m A now nid] False t show ?thesis
      unfolding m by (metis Pair_inject nested_own option.inject)
  qed
  define q2 where "q2 = (if active then fst (t_EndSpanEvent A now (None :: ('a \<times> 'a) option) q1) else q1)"
  have q2: "sends_for sid tx q2" using one sends_for_EndSpanEvent by (auto simp: q2_def)
  obtain sent2 q3 where rest: "batch_messages A now p msgs q2 = (sent2, q3)" by (rule prod.exhaust)
  have "sent = msg1 # sent2" "q' = q3" using Cons.prems(3) rest by (simp_all add: x t q2_def Let_def)
  then show ?case using Cons.IH [OF q2 Cons.prems(2) rest] one by auto
qed simp

theorem batch_carries_sender:
  assumes "ht_tracer q = SampledTracer sp st" "\<not> finished sp" "ids_cached sp" "\<not> pr_noHeaders p"
  shows "let sent = fst (snd (SendMessagesContext A t0 t1 True p send msgs q))
    in length sent = length msgs
       \<and> (\<forall>m. Some m \<in> set sent \<longrightarrow> producerHeaderReader_Get (pm_Headers m) HeaderParentSpanId = Some (FormatInt64 (spanId sp)))"
proof -
  let ?q = "on_span (describe_send (pr_addrs p) None) (t_NewSpanEvent A t0 ''sarama.SyncProducer.SendMessages'' q)"
  have "sends_for (spanId sp) (sp_txId sp) q" using assms(1-3) by (auto simp: sends_for_def)
  then have q: "sends_for (spanId sp) (sp_txId sp) ?q" by (intro sends_for_describe sends_for_NewSpanEvent)
  obtain sent q' where b: "batch_messages A t0 p msgs ?q = (sent, q')" by (rule prod.exhaust)
  then have "fst (snd (SendMessagesContext A t0 t1 True p send msgs q)) = sent" by (simp add: SendMessagesContext_def Let_def)
  then show ?thesis using batch_parents [OF q assms(4) b] by (simp add: Let_def)
qed

section \<open>From a producer to a consumer\<close>

text \<open>
  The consumer's span continues the producer's trace: same transaction, the id drawn for it, the sender as its parent - for every message that
  carries a context, with a producer of the same cluster namespace or of none.
\<close>

theorem consumer_continues_sender:
  assumes "carries sid tx nid m m'" "AgentId tx \<noteq> []" "isIDChars (AgentId tx)"
    and "sameClusterNamespace ns (consumerHeaderReader_Get (map Some (pm_Headers m')))"
  shows "let Get = consumerHeaderReader_Get (map Some (pm_Headers m'));
             inb = continueHeaders Get ns;
             callee = span_extract Get inb newTx drawn (newSampledSpan B cf now operation rpc)
    in continued inb \<and> sp_txId callee = tx \<and> spanId callee = nid \<and> parentSpanId callee = sid"
proof -
  let ?Get = "consumerHeaderReader_Get (map Some (pm_Headers m'))"
  have G: "?Get HeaderTraceId = Some (TransactionId_String tx)" "?Get HeaderSpanId = Some (FormatInt64 nid)"
    "?Get HeaderParentSpanId = Some (FormatInt64 sid)" using assms(1) by (simp_all add: carries_def Let_def)
  have nz: "FormatInt64 x \<noteq> []" for x by (simp add: FormatInt64_def FormatInt_def)
  have inb: "continueHeaders ?Get ns = \<lparr>tid = TransactionId_String tx, in_spanId = FormatInt64 nid, in_parentSpanId = FormatInt64 sid,
       txId = tx, continued = True\<rparr>"
    using assms(4) split_String [OF assms(2,3)] by (auto simp: continueHeaders_def get_value_def G split: if_splits)
  show ?thesis unfolding Let_def inb by (simp add: span_extract_def G nz Let_def split: option.split)
qed

end
