(* ===== verification/Kafka_Acks.thy ===== *)
theory Kafka_Acks
  imports Pinpoint_Prelude "HOL-Library.Multiset"
begin

text \<open>
  The table of spans that wait for the broker's acknowledgement in the asynchronous sarama producer
  (\<^verbatim>\<open>src/plugin/sarama-IBM/asyncproducer.go\<close>), in any interleaving of senders, acknowledgements and the shutdown.
  sarama is an input: which messages it acknowledges and when it closes its channels.
\<close>

section \<open>Spans that wait\<close>

datatype 'e producer_error = ErrShuttingDown | BrokerError 'e

text \<open>
  A sender has saved its span and is about to send, was refused by the closed input, or has taken the span out to end it. Its hand-over event
  is open on its own tracer until it leaves. The goroutine of \<open>forwardAcks\<close>: waiting, holding an acknowledgement before and after
  it has taken the span out and after it has ended it, ending what is left, done with both channels closed.
\<close>

datatype ('m, 's) sender = Saved 'm | Refused 'm | SenderEnds 'm "'s option"

datatype ('m, 's, 'e) forwarder = Forwarding | AckTaken 'm "'e producer_error option" | AckEnds 'm "'s option" "'e producer_error option"
  | AckHands 'm "'e producer_error option" | Sweeping "('m \<times> 's) list" | ForwarderDone

text \<open>
  Messages and spans are identities. \<open>in_flight\<close>: what sarama has taken from its input and not acknowledged. The last three fields record what
  has happened: the spans saved, those lost to a second save of the same message object, those ended, with the error recorded.
\<close>

record ('m, 's, 'e) asyncProducer =
  ap_spans :: "('m \<times> 's) list"
  ap_senders :: "('m, 's) sender multiset"
  ap_forwarder :: "('m, 's, 'e) forwarder"
  in_flight :: "'m multiset"
  ap_closeOnce :: bool
  input_closed :: bool
  successes_closed :: bool
  errors_closed :: bool
  ap_acks :: "('m \<times> 'e producer_error option) list"
  ap_out :: "('m \<times> 'e producer_error option) list"
  ap_saved :: "('m \<times> 's) multiset"
  ap_replaced :: "('m \<times> 's) multiset"
  ap_ended :: "(('m \<times> 's) \<times> 'e producer_error option) multiset"

definition wrapAsyncProducer :: "('m, 's, 'e) asyncProducer" where
  "wrapAsyncProducer = \<lparr>ap_spans = [], ap_senders = {#}, ap_forwarder = Forwarding, in_flight = {#}, ap_closeOnce = False, input_closed = False,
     successes_closed = False, errors_closed = False, ap_acks = [], ap_out = [], ap_saved = {#}, ap_replaced = {#}, ap_ended = {#}\<rparr>"

definition table_delete :: "'m \<Rightarrow> ('m \<times> 's) list \<Rightarrow> ('m \<times> 's) list" where
  "table_delete msg spans = filter (\<lambda>(k, _). k \<noteq> msg) spans"

definition saveAsyncProducerTracer :: "'s \<Rightarrow> 'm \<Rightarrow> bool \<Rightarrow> ('m, 's, 'e) asyncProducer \<Rightarrow> ('m, 's, 'e) asyncProducer" where
  "saveAsyncProducerTracer span msg track p =
     (if track
      then p\<lparr>ap_spans := (msg, span) # table_delete msg (ap_spans p), ap_saved := add_mset (msg, span) (ap_saved p),
             ap_replaced := (case map_of (ap_spans p) msg of Some s \<Rightarrow> add_mset (msg, s) (ap_replaced p) | None \<Rightarrow> ap_replaced p)\<rparr>
      else p)"

definition end_tracer :: "'m \<Rightarrow> 's option \<Rightarrow> 'e producer_error option \<Rightarrow> ('m, 's, 'e) asyncProducer \<Rightarrow> ('m, 's, 'e) asyncProducer" where
  "end_tracer msg found err_opt p = (case found of None \<Rightarrow> p | Some s \<Rightarrow> p\<lparr>ap_ended := add_mset ((msg, s), err_opt) (ap_ended p)\<rparr>)"

text \<open>The errors \<open>Close\<close> collects from what comes out after it began: an error only if there are some.\<close>

definition Close_errors :: "('m \<times> 'e producer_error option) list \<Rightarrow> ('m \<times> 'e producer_error) list option" where
  "Close_errors out =
     (let errs = [(m, e). (m, Some e) \<leftarrow> out] in if errs \<noteq> [] then Some errs else None)"

text \<open>
  sarama closes its input on \<open>AsyncClose\<close> and its two channels only after that; it may fail to acknowledge what it has taken.
\<close>

inductive async_step :: "('m, 's, 'e) asyncProducer \<Rightarrow> ('m, 's, 'e) asyncProducer \<Rightarrow> bool" where
  save: "async_step p (saveAsyncProducerTracer span msg track (p\<lparr>ap_senders := add_mset (Saved msg) (ap_senders p)\<rparr>))"
| send: "\<not> input_closed p \<Longrightarrow> ap_senders p = add_mset (Saved msg) S \<Longrightarrow>
    async_step p (p\<lparr>ap_senders := S, in_flight := add_mset msg (in_flight p)\<rparr>)"
| refuse: "input_closed p \<Longrightarrow> ap_senders p = add_mset (Saved msg) S \<Longrightarrow> async_step p (p\<lparr>ap_senders := add_mset (Refused msg) S\<rparr>)"
| refused_take: "ap_senders p = add_mset (Refused msg) S \<Longrightarrow>
    async_step p (p\<lparr>ap_senders := add_mset (SenderEnds msg (map_of (ap_spans p) msg)) S, ap_spans := table_delete msg (ap_spans p)\<rparr>)"
| refused_end: "ap_senders p = add_mset (SenderEnds msg found) S \<Longrightarrow> async_step p (end_tracer msg found (Some ErrShuttingDown) (p\<lparr>ap_senders := S\<rparr>))"
| plain_input: "\<not> input_closed p \<Longrightarrow> async_step p (p\<lparr>in_flight := add_mset msg (in_flight p)\<rparr>)"
| AsyncClose: "async_step p (p\<lparr>ap_closeOnce := True\<rparr>)"
| close_input: "ap_closeOnce p \<Longrightarrow> async_step p (p\<lparr>input_closed := True\<rparr>)"
| close_successes: "input_closed p \<Longrightarrow> async_step p (p\<lparr>successes_closed := True\<rparr>)"
| close_errors: "input_closed p \<Longrightarrow> async_step p (p\<lparr>errors_closed := True\<rparr>)"
| ack: "ap_forwarder p = Forwarding \<Longrightarrow> in_flight p = add_mset msg F \<Longrightarrow>
    \<not> (if err_opt = None then successes_closed p else errors_closed p) \<Longrightarrow>
    async_step p (p\<lparr>ap_forwarder := AckTaken msg err_opt, in_flight := F, ap_acks := ap_acks p @ [(msg, err_opt)]\<rparr>)"
| ack_take: "ap_forwarder p = AckTaken msg err_opt \<Longrightarrow>
    async_step p (p\<lparr>ap_forwarder := AckEnds msg (map_of (ap_spans p) msg) err_opt, ap_spans := table_delete msg (ap_spans p)\<rparr>)"
| ack_end: "ap_forwarder p = AckEnds msg found err_opt \<Longrightarrow> async_step p (end_tracer msg found err_opt (p\<lparr>ap_forwarder := AckHands msg err_opt\<rparr>))"
| ack_hand: "ap_forwarder p = AckHands msg err_opt \<Longrightarrow> async_step p (p\<lparr>ap_forwarder := Forwarding, ap_out := ap_out p @ [(msg, err_opt)]\<rparr>)"
| sweep: "ap_forwarder p = Forwarding \<Longrightarrow> successes_closed p \<Longrightarrow> errors_closed p \<Longrightarrow>
    async_step p (p\<lparr>ap_forwarder := Sweeping (ap_spans p), ap_spans := []\<rparr>)"
| sweep_end: "ap_forwarder p = Sweeping ((msg, s) # rest) \<Longrightarrow>
    async_step p (end_tracer msg (Some s) (Some ErrShuttingDown) (p\<lparr>ap_forwarder := Sweeping rest\<rparr>))"
| close_out: "ap_forwarder p = Sweeping [] \<Longrightarrow> async_step p (p\<lparr>ap_forwarder := ForwarderDone\<rparr>)"

inductive async_reachable :: "('m, 's, 'e) asyncProducer \<Rightarrow> bool" where
  init: "async_reachable wrapAsyncProducer"
| step: "async_reachable p \<Longrightarrow> async_step p p' \<Longrightarrow> async_reachable p'"

section \<open>Lemmas\<close>

text \<open>The spans taken out of the table and not ended yet.\<close>

fun sender_holds :: "('m, 's) sender \<Rightarrow> ('m \<times> 's) multiset" where
  "sender_holds (SenderEnds m (Some s)) = {#(m, s)#}"
| "sender_holds _ = {#}"

fun forwarder_holds :: "('m, 's, 'e) forwarder \<Rightarrow> ('m \<times> 's) multiset" where
  "forwarder_holds (AckEnds m (Some s) _) = {#(m, s)#}"
| "forwarder_holds (Sweeping rest) = mset rest"
| "forwarder_holds _ = {#}"

fun swept :: "('m, 's, 'e) forwarder \<Rightarrow> bool" where
  "swept (Sweeping _) = True"
| "swept ForwarderDone = True"
| "swept _ = False"

text \<open>The acknowledgement the forwarder is dealing with.\<close>

fun ack_at_hand :: "('m, 's, 'e) forwarder \<Rightarrow> ('m \<times> 'e producer_error option) list" where
  "ack_at_hand (AckTaken m e) = [(m, e)]"
| "ack_at_hand (AckEnds m _ e) = [(m, e)]"
| "ack_at_hand (AckHands m e) = [(m, e)]"
| "ack_at_hand _ = []"

text \<open>The message of a span in the table is about to be sent, was just refused, or is with the broker.\<close>

definition on_its_way :: "('m, 's, 'e) asyncProducer \<Rightarrow> 'm \<Rightarrow> bool" where
  "on_its_way p m \<longleftrightarrow> Saved m \<in># ap_senders p \<or> Refused m \<in># ap_senders p
     \<or> (m \<in># in_flight p \<or> (\<exists>e. ap_forwarder p = AckTaken m e)) \<and> \<not> swept (ap_forwarder p)"

definition accounted :: "('m, 's, 'e) asyncProducer \<Rightarrow> bool" where
  "accounted p \<longleftrightarrow> ap_saved p = mset (ap_spans p) + ap_replaced p + (\<Sum>x \<in># ap_senders p. sender_holds x)
     + forwarder_holds (ap_forwarder p) + image_mset fst (ap_ended p)"

definition closed_in_order :: "('m, 's, 'e) asyncProducer \<Rightarrow> bool" where
  "closed_in_order p \<longleftrightarrow> (successes_closed p \<or> errors_closed p \<longrightarrow> input_closed p)
     \<and> (swept (ap_forwarder p) \<longrightarrow> successes_closed p \<and> errors_closed p) \<and> (input_closed p \<longrightarrow> ap_closeOnce p)
     \<and> (\<forall>x \<in># ap_senders p. (\<exists>m. x = Saved m) \<or> input_closed p)"

definition acks_inv :: "('m, 's, 'e) asyncProducer \<Rightarrow> bool" where
  "acks_inv p \<longleftrightarrow> ap_acks p = ap_out p @ ack_at_hand (ap_forwarder p)"

definition ended_inv :: "('m, 's, 'e) asyncProducer \<Rightarrow> bool" where
  "ended_inv p \<longleftrightarrow> (\<forall>x \<in># ap_ended p. (fst (fst x), snd x) \<in> set (ap_acks p) \<or> snd x = Some ErrShuttingDown \<and> input_closed p)"

definition table_inv :: "('m, 's, 'e) asyncProducer \<Rightarrow> bool" where
  "table_inv p \<longleftrightarrow> distinct (map fst (ap_spans p)) \<and> (\<forall>m \<in> fst ` set (ap_spans p). on_its_way p m)"

lemma end_tracer_sel [simp]:
  "ap_spans (end_tracer m f e p) = ap_spans p" "ap_senders (end_tracer m f e p) = ap_senders p" "ap_forwarder (end_tracer m f e p) = ap_forwarder p"
  "in_flight (end_tracer m f e p) = in_flight p" "ap_acks (end_tracer m f e p) = ap_acks p" "ap_out (end_tracer m f e p) = ap_out p"
  "ap_saved (end_tracer m f e p) = ap_saved p" "ap_replaced (end_tracer m f e p) = ap_replaced p" "input_closed (end_tracer m f e p) = input_closed p"
  "successes_closed (end_tracer m f e p) = successes_closed p" "errors_closed (end_tracer m f e p) = errors_closed p"
  "ap_closeOnce (end_tracer m f e p) = ap_closeOnce p"
  "ap_ended (end_tracer m f e p) = (case f of Some s \<Rightarrow> add_mset ((m, s), e) (ap_ended p) | None \<Rightarrow> ap_ended p)"
  by (simp_all add: end_tracer_def split: option.split)

lemma save_sel [simp]:
  "ap_senders (saveAsyncProducerTracer s m track p) = ap_senders p" "ap_forwarder (saveAsyncProducerTracer s m track p) = ap_forwarder p"
  "in_flight (saveAsyncProducerTracer s m track p) = in_flight p" "ap_acks (saveAsyncProducerTracer s m track p) = ap_acks p"
  "ap_out (saveAsyncProducerTracer s m track p) = ap_out p" "ap_ended (saveAsyncProducerTracer s m track p) = ap_ended p"
  "input_closed (saveAsyncProducerTracer s m track p) = input_closed p" "successes_closed (saveAsyncProducerTracer s m track p) = successes_closed p"
  "errors_closed (saveAsyncProducerTracer s m track p) = errors_closed p" "ap_closeOnce (saveAsyncProducerTracer s m track p) = ap_closeOnce p"
  by (simp_all add: saveAsyncProducerTracer_def)

lemma table_delete_absent: "map_of xs k = None \<Longrightarrow> table_delete k xs = xs"
  by (force simp: table_delete_def map_of_eq_None_iff filter_id_conv)

lemma table_delete_mset:
  "distinct (map fst xs) \<Longrightarrow> mset xs = mset (table_delete k xs) + (case map_of xs k of Some s \<Rightarrow> {#(k, s)#} | None \<Rightarrow> {#})"
proof (induction xs)
  case (Cons x xs)
  obtain k1 s1 where x: "x = (k1, s1)" by (cases x)
  show ?case
  proof (cases "k1 = k")
    case True
    then have "map_of xs k = None" using Cons.prems by (simp add: x map_of_eq_None_iff)
    then show ?thesis using True table_delete_absent [of xs k] by (simp add: x table_delete_def del: mset_filter)
  qed (use Cons in \<open>simp add: x table_delete_def del: mset_filter\<close>)
qed (simp add: table_delete_def)

lemma table_delete_keys: "fst ` set (table_delete k xs) = fst ` set xs - {k}"
  by (force simp: table_delete_def)

lemma table_delete_set: "set (table_delete k xs) = {x \<in> set xs. fst x \<noteq> k}"
  by (auto simp: table_delete_def)

lemma table_delete_distinct: "distinct (map fst xs) \<Longrightarrow> distinct (map fst (table_delete k xs))"
  by (simp add: table_delete_def distinct_map inj_on_def)

lemma closed_in_order_step: "async_step p p' \<Longrightarrow> closed_in_order p \<Longrightarrow> closed_in_order p'"
  by (induction rule: async_step.induct) (auto simp: closed_in_order_def split: if_splits)

lemma acks_step: "async_step p p' \<Longrightarrow> acks_inv p \<Longrightarrow> acks_inv p'"
  by (induction rule: async_step.induct) (simp_all add: acks_inv_def)

lemma ended_step: "async_step p p' \<Longrightarrow> closed_in_order p \<Longrightarrow> acks_inv p \<Longrightarrow> ended_inv p \<Longrightarrow> ended_inv p'"
proof (induction rule: async_step.induct)
  case (refused_end p msg found S)
  then show ?case by (cases found) (simp_all add: ended_inv_def closed_in_order_def)
next
  case (ack p msg F err_opt)
  then show ?case by (auto simp: ended_inv_def)
next
  case (ack_end p msg found err_opt)
  then show ?case by (cases found) (simp_all add: ended_inv_def acks_inv_def)
next
  case (sweep_end p msg s rest)
  then show ?case by (simp add: ended_inv_def closed_in_order_def)
next
  case (close_input p)
  then show ?case by (simp add: ended_inv_def) blast
qed (simp_all add: ended_inv_def)

lemma accounted_step: "async_step p p' \<Longrightarrow> table_inv p \<Longrightarrow> accounted p \<Longrightarrow> accounted p'"
proof (induction rule: async_step.induct)
  case (save p span msg track)
  then show ?case using table_delete_mset [of "ap_spans p" msg]
    by (auto simp: accounted_def table_inv_def saveAsyncProducerTracer_def split: option.splits)
next
  case (refused_take p msg S)
  then show ?case using table_delete_mset [of "ap_spans p" msg] by (auto simp: accounted_def table_inv_def split: option.splits)
next
  case (ack_take p msg err_opt)
  then show ?case using table_delete_mset [of "ap_spans p" msg] by (auto simp: accounted_def table_inv_def split: option.splits)
qed (auto simp: accounted_def split: option.splits)

lemma table_step: "async_step p p' \<Longrightarrow> closed_in_order p \<Longrightarrow> table_inv p \<Longrightarrow> table_inv p'"
proof (induction rule: async_step.induct)
  case (save p span msg track)
  then show ?case
    by (auto simp: table_inv_def saveAsyncProducerTracer_def on_its_way_def table_delete_set table_delete_distinct)
next
  case (refused_take p msg S)
  then show ?case by (auto simp: table_inv_def on_its_way_def table_delete_keys table_delete_distinct)
next
  case (ack_take p msg err_opt)
  then show ?case by (auto simp: table_inv_def on_its_way_def table_delete_keys table_delete_distinct)
qed (auto simp: table_inv_def on_its_way_def closed_in_order_def)

lemma async_inv:
  "async_reachable p \<Longrightarrow> closed_in_order p \<and> table_inv p \<and> acks_inv p \<and> ended_inv p \<and> accounted p"
proof (induction rule: async_reachable.induct)
  case init
  show ?case by (simp add: wrapAsyncProducer_def closed_in_order_def table_inv_def acks_inv_def ended_inv_def accounted_def)
qed (blast intro: closed_in_order_step table_step acks_step ended_step accounted_step)

section \<open>Every span ends once\<close>

text \<open>
  In every interleaving of senders, acknowledgements and the shutdown: every saved span is in the table, was replaced by a second
  save of the same message object, is about to be ended or has ended, and none has ended twice; a span waits only while its
  message is about to be sent, was just refused, or is with a broker that may still answer; a span ends with the outcome the
  broker reported for its message, or with the shutdown; the acknowledgements come out of the wrapper as sarama gave them, in order. Once the
  channels are closed and no sender is at work, nothing is left in the table - also not what was saved while or after it was swept.
\<close>

theorem async_spans_end_once:
  assumes "async_reachable p"
  shows "ap_saved p = mset (ap_spans p) + ap_replaced p + (\<Sum>x \<in># ap_senders p. sender_holds x) + forwarder_holds (ap_forwarder p)
       + image_mset fst (ap_ended p)
    \<and> (\<forall>(m, s) \<in> set (ap_spans p). on_its_way p m)
    \<and> (\<forall>((m, s), e) \<in># ap_ended p. (m, e) \<in> set (ap_acks p) \<or> e = Some ErrShuttingDown \<and> ap_closeOnce p)
    \<and> ap_acks p = ap_out p @ ack_at_hand (ap_forwarder p)
    \<and> (ap_forwarder p = ForwarderDone \<and> ap_senders p = {#} \<longrightarrow>
         ap_spans p = [] \<and> ap_out p = ap_acks p \<and> ap_saved p = ap_replaced p + image_mset fst (ap_ended p))"
proof -
  have inv: "closed_in_order p" "table_inv p" "acks_inv p" "ended_inv p" "accounted p" using async_inv [OF assms] by auto
  have left: "ap_spans p = []" if "ap_forwarder p = ForwarderDone" "ap_senders p = {#}"
    using inv(2) that by (cases "ap_spans p") (auto simp: table_inv_def on_its_way_def)
  have ended: "(fst (fst x), snd x) \<in> set (ap_acks p) \<or> snd x = Some ErrShuttingDown \<and> ap_closeOnce p" if "x \<in># ap_ended p" for x
    using inv(1,4) that by (auto simp: closed_in_order_def ended_inv_def)
  show ?thesis using inv(2,3,5) left ended by (fastforce simp: table_inv_def acks_inv_def accounted_def)
qed

text \<open>A message handed over after the shutdown: its span ends with the shutdown.\<close>

theorem late_message_run:
  defines "p1 \<equiv> (wrapAsyncProducer :: (nat, char, string) asyncProducer)\<lparr>ap_closeOnce := True, input_closed := True, successes_closed := True,
    errors_closed := True, ap_forwarder := ForwarderDone\<rparr>"
  defines "p2 \<equiv> p1\<lparr>ap_saved := {#(7, CHR ''s'')#}, ap_ended := {#((7, CHR ''s''), Some ErrShuttingDown)#}\<rparr>"
  shows "async_reachable p2"
proof -
  let ?i = "wrapAsyncProducer :: (nat, char, string) asyncProducer"
  note R = async_reachable.step and W = wrapAsyncProducer_def
  have "async_reachable (?i\<lparr>ap_closeOnce := True\<rparr>)" by (rule R [OF async_reachable.init async_step.AsyncClose])
  from R [OF this async_step.close_input] have "async_reachable (?i\<lparr>ap_closeOnce := True, input_closed := True\<rparr>)" by simp
  from R [OF this async_step.close_successes] have "async_reachable (?i\<lparr>ap_closeOnce := True, input_closed := True, successes_closed := True\<rparr>)" by simp
  from R [OF this async_step.close_errors]
  have "async_reachable (?i\<lparr>ap_closeOnce := True, input_closed := True, successes_closed := True, errors_closed := True\<rparr>)" by simp
  from R [OF this async_step.sweep]
  have "async_reachable (?i\<lparr>ap_closeOnce := True, input_closed := True, successes_closed := True, errors_closed := True, ap_forwarder := Sweeping []\<rparr>)"
    by (simp add: W)
  from R [OF this async_step.close_out] have "async_reachable p1" by (simp add: p1_def W)
  from R [OF this async_step.save [of p1 "CHR ''s''" 7 True]]
  have "async_reachable (p1\<lparr>ap_senders := {#Saved 7#}, ap_spans := [(7, CHR ''s'')], ap_saved := {#(7, CHR ''s'')#}\<rparr>)"
    by (simp add: p1_def W saveAsyncProducerTracer_def table_delete_def)
  from R [OF this async_step.refuse [where msg = 7 and S = "{#}"]]
  have "async_reachable (p1\<lparr>ap_senders := {#Refused 7#}, ap_spans := [(7, CHR ''s'')], ap_saved := {#(7, CHR ''s'')#}\<rparr>)"
    by (simp add: p1_def W)
  from R [OF this async_step.refused_take [where msg = 7 and S = "{#}"]]
  have "async_reachable (p1\<lparr>ap_senders := {#SenderEnds 7 (Some CHR ''s'')#}, ap_saved := {#(7, CHR ''s'')#}\<rparr>)"
    by (simp add: p1_def W table_delete_def)
  from R [OF this async_step.refused_end [where msg = 7 and found = "Some CHR ''s''" and S = "{#}"]]
  show ?thesis by (simp add: p1_def p2_def W end_tracer_def)
qed

end
