(* ===== verification/Grpc_Plugin.thy ===== *)
theory Grpc_Plugin
  imports Plugin_Trace
begin

text \<open>
  The gRPC interceptors (\<^verbatim>\<open>src/plugin/grpc/server.go\<close>, \<^verbatim>\<open>client.go\<close>): the span of a server call, the event and the metadata of a client call,
  and the span of a client stream, which the first of several possible ends of the stream ends. Metadata is a map from
  lower case keys to lists of values, as grpc-go stores it; handlers, invokers and streams are arbitrary.
\<close>

section \<open>Addresses of a peer (tracer.go)\<close>

text \<open>\<open>net.ParseIP\<close> as \<^verbatim>\<open>net/netip\<close> reads it: whether the text is an IPv4 or IPv6 address without a zone.\<close>

fun ipv4_fields :: "string \<Rightarrow> nat \<Rightarrow> nat \<Rightarrow> nat \<Rightarrow> bool" where
  "ipv4_fields [] n digits val \<longleftrightarrow> n = 3 \<and> digits > 0"
| "ipv4_fields (c # cs) n digits val =
     (if isDigit c then
        (if digits = 1 \<and> val = 0 then False
         else let v = val * 10 + (byte_of c - 48) in if v > 255 then False else ipv4_fields cs n (digits + 1) v)
      else if c = CHR ''.'' then (if digits = 0 \<or> cs = [] \<or> n = 3 then False else ipv4_fields cs (n + 1) 0 0)
      else False)"

function ipv6_fields :: "string \<Rightarrow> nat \<Rightarrow> bool \<Rightarrow> bool" where
  "ipv6_fields s i ellipsis =
     (if i \<ge> 16 then s = [] \<and> \<not> ellipsis
      else
        let off = length (takeWhile ishex s); rest = drop off s
        in if off = 0 \<or> off > 4 then False
           else if rest \<noteq> [] \<and> hd rest = CHR ''.'' then
             (if \<not> ellipsis \<and> i \<noteq> 12 then False else if i + 4 > 16 then False
              else ipv4_fields s 0 0 0 \<and> (if i + 4 < 16 then ellipsis else \<not> ellipsis))
           else if rest = [] then (if i + 2 < 16 then ellipsis else \<not> ellipsis)
           else if hd rest \<noteq> CHR '':'' then False
           else if length rest = 1 then False
           else if hd (tl rest) = CHR '':'' then
             (if ellipsis then False
              else if length rest = 2 then i + 2 < 16
              else ipv6_fields (drop 2 rest) (i + 2) True)
           else ipv6_fields (tl rest) (i + 2) ellipsis)"
  by pat_completeness auto
termination
  by (relation "measure (\<lambda>(s, i, e). 16 - i)") auto

definition ParseIP :: "string \<Rightarrow> bool" where
  "ParseIP s =
     (case dropWhile (\<lambda>c. c \<noteq> CHR ''.'' \<and> c \<noteq> CHR '':'' \<and> c \<noteq> CHR ''%'') s of
        [] \<Rightarrow> False
      | c # _ \<Rightarrow>
          if c = CHR ''.'' then ipv4_fields s 0 0 0
          else if c = CHR '':'' then
            (if CHR ''%'' \<in> set s then False
             else if take 2 s = ''::'' then (if length s = 2 then True else ipv6_fields (drop 2 s) 0 True)
             else ipv6_fields s 0 False)
          else False)"

definition RemoteHost :: "string \<Rightarrow> string" where
  "RemoteHost addr = (case SplitHostPort addr of Some host \<Rightarrow> host | None \<Rightarrow> if ParseIP addr then addr else ''127.0.0.1'')"

section \<open>The server\<close>

definition ServiceTypeGrpc :: go_int32 where "ServiceTypeGrpc = 9160"
definition ServiceTypeGrpcServer :: go_int32 where "ServiceTypeGrpcServer = 1130"

type_synonym metadata = "string \<rightharpoonup> string list"

definition loweredKey :: "string \<Rightarrow> string" where
  "loweredKey key = (case loweredHeaderKeys key of Some l \<Rightarrow> l | None \<Rightarrow> ToLower key)"

definition readerMD_Get :: "metadata \<Rightarrow> reader" where
  "readerMD_Get md key = (case md (loweredKey key) of Some (v # _) \<Rightarrow> Some v | _ \<Rightarrow> None)"

text \<open>The peer's address; \<open>None\<close> for a peer that is not known or has none.\<close>

definition peer_remoteAddr :: "string option \<Rightarrow> string" where
  "peer_remoteAddr peer = RemoteHost (case peer of Some addr \<Rightarrow> addr | None \<Rightarrow> [])"

text \<open>\<open>existing\<close>: the tracer of the context, \<open>None\<close> when it is the noop one.\<close>

definition startSpan ::
  "'e agent_env \<Rightarrow> entry_env \<Rightarrow> call_site \<Rightarrow> int \<Rightarrow> metadata \<Rightarrow> string option \<Rightarrow> string \<Rightarrow> 'e http_trace option \<Rightarrow> request_agent \<Rightarrow> 'e http_trace" where
  "startSpan A E c gen md peer rpc existing a =
     (case existing of Some q \<Rightarrow> NestedTracer q
      | None \<Rightarrow>
          let (t, a) = newSpanTracerWithReader A E c ''gRPC Server'' rpc (Some (readerMD_Get md)) a;
              q = \<lparr>ht_tracer = t, ht_nested = False, ht_root = zero_root, ht_gen = gen, ht_agent = a\<rparr>;
              q = on_span (SetServiceType ServiceTypeGrpcServer) q
          in if IsSampled q then on_span (SetRemoteAddress (peer_remoteAddr peer)) q else q)"

definition unknownServiceEvent :: string where "unknownServiceEvent = ''grpc.UnknownServiceHandler()''"

definition serve_rpc ::
  "'e agent_env \<Rightarrow> entry_env \<Rightarrow> call_site \<Rightarrow> trace_times \<Rightarrow> bool \<Rightarrow> int \<Rightarrow> metadata \<Rightarrow> string option \<Rightarrow> string \<Rightarrow> string
     \<Rightarrow> ('e http_trace \<Rightarrow> ('p \<times> 'e + 'e option) \<times> 'e http_trace) \<Rightarrow> 'e http_trace option \<Rightarrow> request_agent
     \<Rightarrow> ('p + 'e option) \<times> (UrlStatEntry \<times> int \<times> int \<times> go_int32) option \<times> 'e http_trace" where
  "serve_rpc A E c tm accepted gen md peer fullMethod event handler existing a =
     (if \<not> tracingEnabled (enable a) then (let (out, q) = handler (context_trace gen existing a) in (map_sum fst id out, None, q))
      else run_handler A c tm accepted (Some event) handler (startSpan A E c gen md peer fullMethod existing a))"

definition UnaryServerInterceptor ::
  "'e agent_env \<Rightarrow> entry_env \<Rightarrow> call_site \<Rightarrow> trace_times \<Rightarrow> bool \<Rightarrow> int \<Rightarrow> metadata \<Rightarrow> string option \<Rightarrow> string
     \<Rightarrow> ('e http_trace \<Rightarrow> ('p \<times> 'e + 'e option) \<times> 'e http_trace) \<Rightarrow> 'e http_trace option \<Rightarrow> request_agent
     \<Rightarrow> ('p + 'e option) \<times> (UrlStatEntry \<times> int \<times> int \<times> go_int32) option \<times> 'e http_trace" where
  "UnaryServerInterceptor A E c tm accepted gen md peer fullMethod = serve_rpc A E c tm accepted gen md peer fullMethod fullMethod"

text \<open>\<open>known\<close>: the stream has a registered service; one of \<^verbatim>\<open>grpc.UnknownServiceHandler\<close> gets a fixed event name.\<close>

definition StreamServerInterceptor ::
  "'e agent_env \<Rightarrow> entry_env \<Rightarrow> call_site \<Rightarrow> trace_times \<Rightarrow> bool \<Rightarrow> int \<Rightarrow> metadata \<Rightarrow> string option \<Rightarrow> bool \<Rightarrow> string
     \<Rightarrow> ('e http_trace \<Rightarrow> ('p \<times> 'e + 'e option) \<times> 'e http_trace) \<Rightarrow> 'e http_trace option \<Rightarrow> request_agent
     \<Rightarrow> ('p + 'e option) \<times> (UrlStatEntry \<times> int \<times> int \<times> go_int32) option \<times> 'e http_trace" where
  "StreamServerInterceptor A E c tm accepted gen md peer known fullMethod =
     serve_rpc A E c tm accepted gen md peer fullMethod (if known then fullMethod else unknownServiceEvent)"

section \<open>The client\<close>

definition makeUrl :: "string \<Rightarrow> string \<Rightarrow> string" where
  "makeUrl remote method = ''grpc://'' @ remote @ method"

definition rpc_remote :: "string \<Rightarrow> string" where
  "rpc_remote target =
     (if HasPrefix target ''unix:'' then ''localhost'' else if HasPrefix target ''dns:///'' then drop 7 target else target)"

definition rpc_event :: "string \<Rightarrow> string \<Rightarrow> 'e span \<Rightarrow> 'e span" where
  "rpc_event method target sp =
     (let sp = on_top (ev_SetServiceType ServiceTypeGrpc) sp;
          sp = SpanEvent_SetDestination (rpc_remote target) sp
      in on_top (ev_annotate (AppendString AnnotationHttpUrl (makeUrl (rpc_remote target) method))) sp)"

definition kvInjectionWriter_Set :: "string \<Rightarrow> string \<Rightarrow> (string \<times> string) list \<Rightarrow> (string \<times> string) list" where
  "kvInjectionWriter_Set key v kv = kv @ [(loweredKey key, v)]"

definition AppendToOutgoingContext :: "(string \<times> string) list \<Rightarrow> metadata option \<Rightarrow> metadata option" where
  "AppendToOutgoingContext kv ctx =
     Some (fold (\<lambda>(k, v) md. md(ToLower k \<mapsto> (case md (ToLower k) of Some vs \<Rightarrow> vs | None \<Rightarrow> []) @ [v])) kv (case ctx of Some md \<Rightarrow> md | None \<Rightarrow> Map.empty))"

text \<open>\<open>False\<close>: the noop tracer is returned, and nothing is recorded or ended for this layer.\<close>

definition newClientTracer ::
  "'e agent_env \<Rightarrow> int \<Rightarrow> go_int64 \<Rightarrow> string \<Rightarrow> string \<Rightarrow> metadata option \<Rightarrow> 'e http_trace \<Rightarrow> metadata option \<times> bool \<times> 'e http_trace" where
  "newClientTracer A now nid method target ctx q =
     (let (ctx, nested) = OutgoingGrpcContext ctx q
      in if nested then (ctx, False, q)
         else
           let q = t_NewSpanEvent A now method q;
               q = (if IsSampled q then on_span (rpc_event method target) q else q);
               (kvs, q) = t_Inject A nid q;
               kv = fold (\<lambda>(k, v). kvInjectionWriter_Set k v) kvs []
           in (if kv \<noteq> [] then AppendToOutgoingContext kv ctx else ctx, True, q))"

text \<open>
  \<open>endSpanEvent\<close>: \<open>eof\<close> is the bare \<^verbatim>\<open>io.EOF\<close>. It runs to its end even while a panic unwinds, so its deferred \<open>EndSpanEvent\<close> recovers nothing.
\<close>

definition grpc_endSpanEvent :: "'e agent_env \<Rightarrow> 'e \<Rightarrow> int \<Rightarrow> 'e option \<Rightarrow> 'e http_trace \<Rightarrow> 'e http_trace" where
  "grpc_endSpanEvent A eof now err_opt q =
     (let q = (if err_opt \<noteq> None \<and> err_opt \<noteq> Some eof then t_event_SetError A err_opt [''grpc error''] q else q)
      in fst (t_EndSpanEvent A now (None :: ('e \<times> 'e) option) q))"

definition UnaryClientInterceptor ::
  "'e agent_env \<Rightarrow> 'e \<Rightarrow> int \<Rightarrow> int \<Rightarrow> go_int64 \<Rightarrow> bool \<Rightarrow> string \<Rightarrow> string \<Rightarrow> (metadata option \<Rightarrow> 'p + 'e option) \<Rightarrow> metadata option \<Rightarrow> 'e http_trace
     \<Rightarrow> ('p + 'e option) \<times> 'e http_trace" where
  "UnaryClientInterceptor A eof t0 t1 nid enabled method target invoker ctx q =
     (if \<not> enabled then (invoker ctx, q)
      else
        let (ctx, active, q) = newClientTracer A t0 nid method target ctx q;
            res = invoker ctx;
            err_opt = (case res of Inl _ \<Rightarrow> None | Inr e \<Rightarrow> e)
        in (res, if active then grpc_endSpanEvent A eof t1 err_opt q else q))"

section \<open>Client streams\<close>

record 'e clientStream =
  cs_once :: bool
  cs_tracer :: "'e http_trace"

definition cs_endSpan :: "'e agent_env \<Rightarrow> 'e \<Rightarrow> call_site \<Rightarrow> bool \<Rightarrow> int \<Rightarrow> 'e option \<Rightarrow> 'e clientStream \<Rightarrow> 'e clientStream" where
  "cs_endSpan A eof c acc now err_opt cs =
     (if cs_once cs then cs
      else cs\<lparr>cs_once := True, cs_tracer := snd (t_EndSpan c now now acc (grpc_endSpanEvent A eof now err_opt (cs_tracer cs)))\<rparr>)"

text \<open>
  What happens on a stream, from any goroutine: the results of its operations, and grpc-go reporting that the call has finished.
\<close>

datatype 'e stream_event = SendMsg "'e option" | RecvMsg "'e option" | CloseSend "'e option" | OnFinish "'e option"

definition stream_event_do :: "'e agent_env \<Rightarrow> 'e \<Rightarrow> call_site \<Rightarrow> bool \<Rightarrow> int \<times> 'e stream_event \<Rightarrow> 'e clientStream \<Rightarrow> 'e clientStream" where
  "stream_event_do A eof c acc ev cs =
     (case ev of
        (now, SendMsg e) \<Rightarrow> if e \<noteq> None \<and> e \<noteq> Some eof then cs_endSpan A eof c acc now e cs else cs
      | (now, RecvMsg e) \<Rightarrow> if e \<noteq> None then cs_endSpan A eof c acc now e cs else cs
      | (now, CloseSend e) \<Rightarrow> if e \<noteq> None then cs_endSpan A eof c acc now e cs else cs
      | (now, OnFinish e) \<Rightarrow> cs_endSpan A eof c acc now e cs)"

text \<open>
  The streamer: what \<^verbatim>\<open>OnFinish\<close> reports before it returns, and a panic, or whether there is a stream and the error. The stream handed to the application
  (\<open>None\<close> with an error) and the stream's trace at the return.
\<close>

definition StreamClientInterceptor ::
  "'e agent_env \<Rightarrow> 'e \<Rightarrow> call_site \<Rightarrow> bool \<Rightarrow> int \<Rightarrow> int \<Rightarrow> go_int64 \<Rightarrow> go_int32 \<Rightarrow> string \<Rightarrow> string
     \<Rightarrow> (metadata option \<Rightarrow> (int \<times> 'e option) list \<times> ('p + bool \<times> 'e option)) \<Rightarrow> metadata option \<Rightarrow> 'e http_trace
     \<Rightarrow> ('p + 'e option) \<times> 'e clientStream \<times> 'e http_trace \<times> go_int32" where
  "StreamClientInterceptor A eof c acc t0 t1 nid agen method target streamer ctx q =
     (let (ctx, active, q) = newClientTracer A t0 nid method target ctx q;
          (child, q, agen) = (if active then t_NewGoroutineTracer A t0 agen q else (q\<lparr>ht_tracer := NoopTracer, ht_nested := False\<rparr>, q, agen));
          child = t_NewSpanEvent A t0 method child;
          child = (if IsSampled child then on_span (on_top (ev_SetServiceType ServiceTypeGrpc)) child else child);
          cs = \<lparr>cs_once = False, cs_tracer = child\<rparr>;
          (early, res) = streamer ctx;
          cs = fold (\<lambda>(now, e). stream_event_do A eof c acc (now, OnFinish e)) early cs;
          (has_stream, err_opt) = (case res of Inl _ \<Rightarrow> (False, None) | Inr r \<Rightarrow> r);
          cs = (if \<not> has_stream then cs_endSpan A eof c acc t1 err_opt cs else cs);
          q = (if active then grpc_endSpanEvent A eof t1 err_opt q else q)
      in (map_sum id snd res, cs, q, agen))"

section \<open>Lemmas\<close>

lemma host_of_peer:
  "RemoteHost ''10.0.0.7:5000'' = ''10.0.0.7''" "RemoteHost ''[::1]:80'' = ''::1''" "RemoteHost ''fe80::1'' = ''fe80::1''"
  "RemoteHost ''1.2.3'' = ''127.0.0.1''" "RemoteHost ''@'' = ''127.0.0.1''" "RemoteHost ''::ffff:1.2.3.4'' = ''::ffff:1.2.3.4''" "peer_remoteAddr None = ''127.0.0.1''"
  by code_simp+

lemma loweredKey_eq: "loweredKey k = ToLower k"
  by (auto simp: loweredKey_def loweredHeaderKeys_def split: option.split dest!: map_of_SomeD)

lemma lowered_twice: "k \<in> set injectedHeaders \<Longrightarrow> ToLower (ToLower k) = ToLower k"
  using injected_ascii [of k] by (simp add: folds_ascii list_all_iff letter_cases comp_def)

lemma lowered_inj: "k \<in> set injectedHeaders \<Longrightarrow> k' \<in> set injectedHeaders \<Longrightarrow> ToLower k = ToLower k' \<Longrightarrow> k = k'"
proof -
  have "distinct (map (map to_lower) injectedHeaders)" by code_simp
  then show "k \<in> set injectedHeaders \<Longrightarrow> k' \<in> set injectedHeaders \<Longrightarrow> ToLower k = ToLower k' \<Longrightarrow> k = k'"
    by (simp add: distinct_map folds_ascii injected_ascii inj_on_def)
qed

lemma kv_collected: "fold (\<lambda>(k, v). kvInjectionWriter_Set k v) kvs kv = kv @ map (\<lambda>(k, v). (ToLower k, v)) kvs"
  by (induction kvs arbitrary: kv) (auto simp: kvInjectionWriter_Set_def loweredKey_eq)

definition values_for :: "string \<Rightarrow> (string \<times> string) list \<Rightarrow> string list" where
  "values_for x kv = map snd (filter (\<lambda>(k, _). ToLower k = x) kv)"

lemma appended_values:
  "fold (\<lambda>(k, v) md. md(ToLower k \<mapsto> (case md (ToLower k) of Some vs \<Rightarrow> vs | None \<Rightarrow> []) @ [v])) kv md x =
   (if values_for x kv = [] then md x else Some ((case md x of Some vs \<Rightarrow> vs | None \<Rightarrow> []) @ values_for x kv))"
  by (induction kv arbitrary: md) (auto simp: values_for_def)

lemma values_for_injected:
  assumes "fst ` set kvs \<subseteq> set injectedHeaders" "k \<in> set injectedHeaders"
  shows "values_for (ToLower k) (map (\<lambda>(k, v). (ToLower k, v)) kvs) = map snd (filter (\<lambda>(k', _). k' = k) kvs)"
  using assms lowered_twice lowered_inj by (induction kvs) (auto simp: values_for_def)

lemma values_for_other:
  assumes "fst ` set kvs \<subseteq> set injectedHeaders" "\<not> IsInjectedHeader x"
  shows "values_for x (map (\<lambda>(k, v). (ToLower k, v)) kvs) = []"
  using assms lowered_twice injected_is_cleared(2) by (force simp: values_for_def filter_empty_conv)

lemma map_of_first: "map_of kvs k = (case map snd (filter (\<lambda>(k', _). k' = k) kvs) of [] \<Rightarrow> None | v # _ \<Rightarrow> Some v)"
  by (induction kvs) auto

text \<open>What the server's reader finds in metadata that held no trace context before.\<close>

lemma outgoing_metadata:
  assumes "fst ` set kvs \<subseteq> set injectedHeaders" "kvs \<noteq> []" "\<forall>k \<in> set injectedHeaders. readerMD_Get md k = None"
  obtains md' where "AppendToOutgoingContext (map (\<lambda>(k, v). (ToLower k, v)) kvs) (Some md) = Some md'"
    "\<forall>k \<in> set injectedHeaders. readerMD_Get md' k = map_of kvs k" "\<forall>x. \<not> IsInjectedHeader x \<longrightarrow> md' x = md x"
proof -
  define md' where "md' = (\<lambda>x. if values_for x (map (\<lambda>(k, v). (ToLower k, v)) kvs) = [] then md x
    else Some ((case md x of Some vs \<Rightarrow> vs | None \<Rightarrow> []) @ values_for x (map (\<lambda>(k, v). (ToLower k, v)) kvs)))"
  have r: "AppendToOutgoingContext (map (\<lambda>(k, v). (ToLower k, v)) kvs) (Some md) = Some md'"
    unfolding AppendToOutgoingContext_def option.case md'_def by (simp only: appended_values [abs_def] option.inject)
  have look: "readerMD_Get md' k = map_of kvs k" if k: "k \<in> set injectedHeaders" for k
  proof -
    have none: "readerMD_Get md k = None" using assms(3) k by blast
    then have old: "(case md (ToLower k) of Some vs \<Rightarrow> vs | None \<Rightarrow> []) = []"
      by (auto simp: readerMD_Get_def loweredKey_eq split: option.splits list.splits)
    show ?thesis using none
      by (simp add: readerMD_Get_def loweredKey_eq md'_def values_for_injected [OF assms(1) k] old map_of_first [of kvs k] split: list.split)
  qed
  show thesis by (rule that [OF r]) (use look in \<open>simp_all add: md'_def values_for_other [OF assms(1)]\<close>)
qed

lemma ids_view_rpc: "ids_view (rpc_event method target sp) = ids_view sp"
  by (simp add: rpc_event_def Let_def ids_view_client)

lemma readers_agree: "outgoingMetadataReader_Get md = readerMD_Get md"
  by (rule ext) (simp add: outgoingMetadataReader_Get_def readerMD_Get_def loweredKey_def)

lemma cleared_metadata: "k \<in> set injectedHeaders \<Longrightarrow> readerMD_Get (clear_injected md) k = None"
  using injected_is_cleared(2) by (simp add: readerMD_Get_def loweredKey_eq clear_injected_def)

section \<open>One context travels\<close>

text \<open>
  A client call on an open span sends metadata from which the server reads this span's transaction, this span as its parent and the span id drawn
  for it, in place of any other span's context the outgoing metadata held; every key that is not the agent's keeps its values. A second
  instrumented layer around the call finds that context and neither records nor writes anything.
\<close>

theorem rpc_context_travels_once:
  assumes "ht_tracer q = SampledTracer sp st" "\<not> finished sp" "ids_cached sp"
    and "if IsInjected (readerMD_Get md) then readerMD_Get md HeaderParentSpanId \<noteq> Some (FormatInt64 (spanId sp))
         else \<forall>k \<in> set injectedHeaders. readerMD_Get md k = None"
  shows "case newClientTracer A now nid method target (Some md) q of (ctx, active, q') \<Rightarrow>
    \<exists>md'. active \<and> ctx = Some md' \<and> readerMD_Get md' HeaderTraceId = Some (TransactionId_String (sp_txId sp))
      \<and> readerMD_Get md' HeaderParentSpanId = Some (FormatInt64 (spanId sp)) \<and> readerMD_Get md' HeaderSpanId = Some (FormatInt64 nid)
      \<and> (\<forall>k. \<not> IsInjectedHeader k \<longrightarrow> md' k = md k)
      \<and> (\<forall>now2 nid2 method2 target2. newClientTracer A now2 nid2 method2 target2 ctx q' = (ctx, False, q'))"
proof -
  define md1 where "md1 = (if IsInjected (readerMD_Get md) then clear_injected md else md)"
  define sp1 where "sp1 = rpc_event method target (NewSpanEvent A now method sp)"
  have "ids_view sp1 = ids_view sp" by (simp add: sp1_def ids_view_rpc ids_view_client)
  then have v: "finished sp1 = finished sp" "sp_txId sp1 = sp_txId sp" "spanId sp1 = spanId sp" "ids_cached sp1 = ids_cached sp"
    by (simp_all add: ids_view_def ids_cached_def)
  have open1: "\<not> finished sp1" "ids_cached sp1" using assms(2,3) v by simp_all
  let ?kvs = "fst (Inject A nid sp1)"
  let ?q = "q\<lparr>ht_tracer := SampledTracer (snd (Inject A nid sp1)) st\<rparr>"
  note vals = Inject_values [OF open1, of A nid]
  have clean: "\<forall>k \<in> set injectedHeaders. readerMD_Get md1 k = None" using assms(4) cleared_metadata by (auto simp: md1_def)
  obtain md' where md': "AppendToOutgoingContext (map (\<lambda>(k, v). (ToLower k, v)) ?kvs) (Some md1) = Some md'"
    "\<forall>k \<in> set injectedHeaders. readerMD_Get md' k = map_of ?kvs k" "\<forall>x. \<not> IsInjectedHeader x \<longrightarrow> md' x = md1 x"
    using outgoing_metadata [OF conjunct2 [OF injected_keys [OF open1, of A nid]] vals(1) clean] .
  have keys: "HeaderTraceId \<in> set injectedHeaders" "HeaderSpanId \<in> set injectedHeaders" "HeaderParentSpanId \<in> set injectedHeaders"
    by (simp_all add: injectedHeaders_def)
  have read: "readerMD_Get md' HeaderTraceId = Some (TransactionId_String (sp_txId sp))" "readerMD_Get md' HeaderSpanId = Some (FormatInt64 nid)"
    "readerMD_Get md' HeaderParentSpanId = Some (FormatInt64 (spanId sp))"
    using vals(2-4) v md'(2) keys by simp_all
  have ctx: "OutgoingGrpcContext (Some md) q = (Some md1, False)"
    using assms(1,4) by (auto simp: OutgoingGrpcContext_def readers_agree md1_def IsInjectedBy_def Let_def split: option.splits)
  have step: "newClientTracer A now nid method target (Some md) q = (Some md', True, ?q)"
    using assms(1) md'(1) vals(1)
    by (simp add: newClientTracer_def ctx t_NewSpanEvent_def on_span_def IsSampled_def t_Inject_def sp1_def [symmetric] kv_collected case_prod_beta Let_def)
  have "IsInjected (readerMD_Get md')" "IsInjectedBy ?q (readerMD_Get md')"
    using read v(3) by (simp_all add: IsInjected_def IsInjectedBy_def Inject_spanId)
  then have "newClientTracer A now2 nid2 method2 target2 (Some md') ?q = (Some md', False, ?q)" for now2 nid2 method2 target2
    by (simp add: newClientTracer_def OutgoingGrpcContext_def readers_agree)
  moreover have "md' k = md k" if "\<not> IsInjectedHeader k" for k using md'(3) that by (simp add: md1_def clear_injected_def)
  ultimately show ?thesis unfolding step prod.case using read by blast
qed

section \<open>A stream's span ends once\<close>

text \<open>The events that end it: any reported finish, any failed receive or close, and a failed send that is not the end of the stream.\<close>

definition stream_end :: "'e \<Rightarrow> int \<times> 'e stream_event \<Rightarrow> (int \<times> 'e option) option" where
  "stream_end eof ev =
     (case ev of (now, SendMsg e) \<Rightarrow> if e \<noteq> None \<and> e \<noteq> Some eof then Some (now, e) else None
      | (now, RecvMsg e) \<Rightarrow> if e \<noteq> None then Some (now, e) else None
      | (now, CloseSend e) \<Rightarrow> if e \<noteq> None then Some (now, e) else None
      | (now, OnFinish e) \<Rightarrow> Some (now, e))"

lemma stream_event_cases:
  "stream_event_do A eof c acc ev cs = (case stream_end eof ev of None \<Rightarrow> cs | Some (now, e) \<Rightarrow> cs_endSpan A eof c acc now e cs)"
  by (cases ev; cases "snd ev") (auto simp: stream_event_do_def stream_end_def)

lemma ended_stays: "cs_once cs \<Longrightarrow> fold (stream_event_do A eof c acc) evs cs = cs"
  by (induction evs) (auto simp: stream_event_cases cs_endSpan_def split: option.split)

text \<open>
  Over any sequence of a stream's events, its span is ended by the first one that ends it, with that one's error, and by no other.
\<close>

theorem first_end_wins:
  assumes "\<not> cs_once cs"
  shows "fold (stream_event_do A eof c acc) evs cs =
    (case List.map_filter (stream_end eof) evs of [] \<Rightarrow> cs | (now, e) # _ \<Rightarrow> cs_endSpan A eof c acc now e cs)"
  using assms
proof (induction evs arbitrary: cs)
  case (Cons ev evs)
  show ?case
  proof (cases "stream_end eof ev")
    case (Some x)
    obtain now e where x: "x = (now, e)" by (cases x)
    have "cs_once (cs_endSpan A eof c acc now e cs)" using Cons.prems by (simp add: cs_endSpan_def)
    moreover have "stream_event_do A eof c acc ev cs = cs_endSpan A eof c acc now e cs" by (simp add: stream_event_cases Some x)
    ultimately show ?thesis by (simp add: Some x map_filter_simps ended_stays)
  next
    case None
    then have "stream_event_do A eof c acc ev cs = cs" by (simp add: stream_event_cases)
    then show ?thesis using Cons None by (simp add: map_filter_simps)
  qed
qed (simp add: map_filter_simps)

text \<open>A call that yields no stream has ended the stream's span when it returns or panics.\<close>

theorem failed_stream_ended:
  assumes "snd (streamer (fst (newClientTracer A t0 nid method target ctx q))) = res" "\<forall>e. res \<noteq> Inr (True, e)"
  shows "case StreamClientInterceptor A eof c acc t0 t1 nid agen method target streamer ctx q of (res', cs, q', agen') \<Rightarrow>
    cs_once cs \<and> res' = map_sum id snd res"
proof -
  have ended: "cs_once (cs_endSpan A eof c acc t1 e cs)" for e cs by (simp add: cs_endSpan_def)
  obtain ctx1 active q1 where n: "newClientTracer A t0 nid method target ctx q = (ctx1, active, q1)" by (rule prod_cases3)
  obtain early where st: "streamer ctx1 = (early, res)" using assms(1) n by (cases "streamer ctx1") simp
  obtain child q2 agen2 where g: "(if active then t_NewGoroutineTracer A t0 agen q1 else (q1\<lparr>ht_tracer := NoopTracer, ht_nested := False\<rparr>, q1, agen)) = (child, q2, agen2)"
    by (rule prod_cases3)
  obtain e where r: "(case res of Inl _ \<Rightarrow> (False, None) | Inr r \<Rightarrow> r) = (False, e)" using assms(2) by (cases res) auto
  show ?thesis unfolding StreamClientInterceptor_def Let_def n prod.case st g r by (simp add: ended)
qed

end
