(* ===== verification/Stats_Sweep.thy ===== *)
theory Stats_Sweep
  imports Stats "HOL-Library.Multiset"
begin

text \<open>
  Requests against the stat worker (\<^verbatim>\<open>src/stats.go\<close>): every atomic access of the shard counters is a step of its own, so
  requests interleave with one another, with the reset the worker makes when it first starts, and with a sweep in progress;
  a sweep whose sample then panics is lost with it. Each value a request puts into a counter is an entry with a number of its own, and
  the ghost fields follow the entries from their counter to the interval that reports them.
\<close>

section \<open>State\<close>

type_synonym stat_cell = "nat \<times> statCounter"
type_synonym stat_entry = "nat \<times> statCounter \<times> go_int64"

text \<open>
  A collection interval: how many entries there were when its sweep began, the snapshot, and the entries the snapshot took up.
\<close>

record stat_interval =
  iv_mark :: nat
  iv_counts :: statsCounterSnapshot
  iv_entries :: "stat_entry list"

text \<open>
  A request in \<open>collectResponseTime\<close>: before its two adds, or in the loop on the maximum, before the load or before the
  compare-and-swap with the value loaded.
\<close>

datatype response_stage = AddTime | AddCount | LoadMax | SwapMax go_int64

text \<open>The worker before its first run, in \<open>reset\<close>, between ticks, in \<open>drainCounters\<close>, and in \<open>getStats\<close> behind it.\<close>

datatype stat_pc = NotStarted | Resetting "stat_cell list" | Idle | Sweeping "stat_cell list" stat_interval | Sampling stat_interval

record stats_run =
  run_shards :: "statShard list"
  responses :: "(nat \<times> go_int64 \<times> response_stage) multiset"
  stat_worker_pc :: stat_pc
  intervals :: "stat_interval list"
  recorded :: "stat_entry list"
  cells :: "stat_cell \<Rightarrow> stat_entry list"
  cleared :: "stat_entry list"
  failed_sweeps :: "stat_interval list"
  answered :: "go_int64 list"

text \<open>
  Ghosts: \<open>recorded\<close> all entries in order, \<open>cells\<close> those in a counter, \<open>cleared\<close> those the first start of the worker threw away,
  \<open>failed_sweeps\<close> the sweeps lost with a panic, \<open>answered\<close> the response times of the requests that are through.
\<close>

definition init_stats_run :: stats_run where
  "init_stats_run = \<lparr>run_shards = replicate statShardCount (\<lambda>_. 0), responses = {#}, stat_worker_pc = NotStarted, intervals = [],
     recorded = [], cells = (\<lambda>_. []), cleared = [], failed_sweeps = [], answered = []\<rparr>"

definition sampling_counters :: "statCounter list" where
  "sampling_counters = [statSampleNew, statUnSampleNew, statSampleCont, statUnSampleCont, statSkipNew, statSkipCont]"

section \<open>Steps\<close>

text \<open>The ghosts of a value put into a counter.\<close>

definition put_entry :: "nat \<Rightarrow> statCounter \<Rightarrow> go_int64 \<Rightarrow> stats_run \<Rightarrow> stats_run" where
  "put_entry i k v s =
     (let e = (length (recorded s), k, v) in s\<lparr>recorded := recorded s @ [e], cells := (cells s)((i, k) := cells s (i, k) @ [e])\<rparr>)"

definition new_interval :: "nat \<Rightarrow> stat_interval" where
  "new_interval m = \<lparr>iv_mark = m, iv_counts = (\<lambda>_. 0), iv_entries = []\<rparr>"

text \<open>\<open>incr\<close>, and \<open>collectResponseTime\<close> access by access.\<close>

inductive request_step :: "stats_run \<Rightarrow> stats_run \<Rightarrow> bool" where
  sampled: "k \<in> set sampling_counters \<Longrightarrow>
    request_step s (put_entry (stat_shard gid) k 1 (s\<lparr>run_shards := incr gid k (run_shards s)\<rparr>))"
| response: "request_step s (s\<lparr>responses := add_mset (stat_shard gid, t, AddTime) (responses s)\<rparr>)"
| add_time: "responses s = add_mset (i, t, AddTime) R \<Longrightarrow>
    request_step s (put_entry i statAccResponseTime t
      (s\<lparr>run_shards := bump i statAccResponseTime t (run_shards s), responses := add_mset (i, t, AddCount) R\<rparr>))"
| add_count: "responses s = add_mset (i, t, AddCount) R \<Longrightarrow>
    request_step s (put_entry i statRequestCount 1
      (s\<lparr>run_shards := bump i statRequestCount 1 (run_shards s), responses := add_mset (i, t, LoadMax) R\<rparr>))"
| load_enough: "responses s = add_mset (i, t, LoadMax) R \<Longrightarrow> sint t \<le> sint ((run_shards s ! i) statMaxResponseTime) \<Longrightarrow>
    request_step s (put_entry i statMaxResponseTime t (s\<lparr>responses := R, answered := answered s @ [t]\<rparr>))"
| load_less: "responses s = add_mset (i, t, LoadMax) R \<Longrightarrow> \<not> sint t \<le> sint ((run_shards s ! i) statMaxResponseTime) \<Longrightarrow>
    request_step s (s\<lparr>responses := add_mset (i, t, SwapMax ((run_shards s ! i) statMaxResponseTime)) R\<rparr>)"
| swap_max: "responses s = add_mset (i, t, SwapMax m) R \<Longrightarrow> (run_shards s ! i) statMaxResponseTime = m \<Longrightarrow>
    request_step s (put_entry i statMaxResponseTime t
      (s\<lparr>run_shards := (run_shards s)[i := (run_shards s ! i)(statMaxResponseTime := t)], responses := R, answered := answered s @ [t]\<rparr>))"
| swap_again: "responses s = add_mset (i, t, SwapMax m) R \<Longrightarrow> (run_shards s ! i) statMaxResponseTime \<noteq> m \<Longrightarrow>
    request_step s (s\<lparr>responses := add_mset (i, t, LoadMax) R\<rparr>)"

text \<open>
  The stat worker: its first start resets every counter, a tick sweeps them, and the sample taken behind the sweep is handed over,
  or lost in the panic that \<open>collect\<close> recovers.
\<close>

inductive sweep_step :: "stats_run \<Rightarrow> stats_run \<Rightarrow> bool" where
  first_start: "stat_worker_pc s = NotStarted \<Longrightarrow>
    sweep_step s (s\<lparr>stat_worker_pc := Resetting (sweep_order (length (run_shards s)))\<rparr>)"
| reset_one: "stat_worker_pc s = Resetting ((i, k) # rest) \<Longrightarrow>
    sweep_step s (s\<lparr>stat_worker_pc := Resetting rest, run_shards := (run_shards s)[i := (run_shards s ! i)(k := 0)],
      cells := (cells s)((i, k) := []), cleared := cleared s @ cells s (i, k)\<rparr>)"
| reset_done: "stat_worker_pc s = Resetting [] \<Longrightarrow> sweep_step s (s\<lparr>stat_worker_pc := Idle\<rparr>)"
| tick: "stat_worker_pc s = Idle \<Longrightarrow>
    sweep_step s (s\<lparr>stat_worker_pc := Sweeping (sweep_order (length (run_shards s))) (new_interval (length (recorded s)))\<rparr>)"
| swap_one: "stat_worker_pc s = Sweeping (ik # rest) iv \<Longrightarrow> drain_one ik (iv_counts iv, run_shards s) = (c, shards) \<Longrightarrow>
    sweep_step s (s\<lparr>stat_worker_pc := Sweeping rest (iv\<lparr>iv_counts := c, iv_entries := iv_entries iv @ cells s ik\<rparr>), run_shards := shards,
      cells := (cells s)(ik := [])\<rparr>)"
| drained: "stat_worker_pc s = Sweeping [] iv \<Longrightarrow> sweep_step s (s\<lparr>stat_worker_pc := Sampling iv\<rparr>)"
| collected: "stat_worker_pc s = Sampling iv \<Longrightarrow> sweep_step s (s\<lparr>stat_worker_pc := Idle, intervals := intervals s @ [iv]\<rparr>)"
| collect_panic: "stat_worker_pc s = Sampling iv \<Longrightarrow>
    sweep_step s (s\<lparr>stat_worker_pc := Idle, failed_sweeps := failed_sweeps s @ [iv]\<rparr>)"

inductive stats_step :: "stats_run \<Rightarrow> stats_run \<Rightarrow> bool" where
  request: "request_step s s' \<Longrightarrow> stats_step s s'"
| worker: "sweep_step s s' \<Longrightarrow> stats_step s s'"

section \<open>Where an entry is\<close>

fun worker_entries :: "stat_pc \<Rightarrow> stat_entry list" where
  "worker_entries (Sweeping left iv) = iv_entries iv"
| "worker_entries (Sampling iv) = iv_entries iv"
| "worker_entries _ = []"

definition all_cells :: "stat_cell list" where
  "all_cells = List.product [0..<statShardCount] statCounters"

definition reported :: "stats_run \<Rightarrow> stat_entry list" where
  "reported s = concat (map iv_entries (intervals s))"

definition dropped :: "stats_run \<Rightarrow> stat_entry list" where
  "dropped s = cleared s @ concat (map iv_entries (failed_sweeps s))"

definition waiting :: "stats_run \<Rightarrow> stat_entry list" where
  "waiting s = concat (map (cells s) all_cells)"

lemma all_cells_sel: "distinct all_cells" "(i, k) \<in> set all_cells \<longleftrightarrow> i < statShardCount"
proof -
  have "distinct statCounters" by (simp add: statCounters_def)
  then show "distinct all_cells" by (simp add: all_cells_def distinct_product)
  show "(i, k) \<in> set all_cells \<longleftrightarrow> i < statShardCount" by (simp add: all_cells_def statCounters_all)
qed

lemma sweep_order_cells: "set (sweep_order statShardCount) = set all_cells"
  using sweep_order_all sweep_order_bound by (auto simp: all_cells_sel(2) statShardCount_def)

lemma concat_update:
  assumes "distinct xs" "x \<in> set xs"
  shows "mset (concat (map (f(x := ys)) xs)) + mset (f x) = mset (concat (map f xs)) + mset ys"
  using assms
proof (induction xs)
  case (Cons a xs)
  show ?case
  proof (cases "a = x")
    case True
    with Cons.prems have "map (f(x := ys)) xs = map f xs" by auto
    then have "concat (map (f(x := ys)) xs) = concat (map f xs)" by (simp only:)
    with True show ?thesis by (simp del: fun_upd_apply add: fun_upd_same)
  next
    case False
    with Cons show ?thesis by simp
  qed
qed simp

lemma waiting_put:
  "i < statShardCount \<Longrightarrow> mset (concat (map ((cells s)((i, k) := cells s (i, k) @ [e])) all_cells)) = add_mset e (mset (waiting s))"
  using concat_update [OF all_cells_sel(1), of "(i, k)" "cells s" "cells s (i, k) @ [e]"] by (simp add: all_cells_sel(2) waiting_def)

lemma waiting_take:
  "ik \<in> set all_cells \<Longrightarrow> cells s' = (cells s)(ik := []) \<Longrightarrow> mset (waiting s) = mset (waiting s') + mset (cells s ik)"
  using concat_update [OF all_cells_sel(1), of ik "cells s" "[]"] by (simp add: waiting_def)

section \<open>Shape\<close>

definition pc_cells :: "stat_pc \<Rightarrow> stat_cell list" where
  "pc_cells pc = (case pc of Resetting left \<Rightarrow> left | Sweeping left iv \<Rightarrow> left | _ \<Rightarrow> [])"

definition shape_inv :: "stats_run \<Rightarrow> bool" where
  "shape_inv s \<longleftrightarrow> length (run_shards s) = statShardCount \<and> set (pc_cells (stat_worker_pc s)) \<subseteq> set all_cells
     \<and> (\<forall>(i, t, st) \<in># responses s. i < statShardCount \<and> (\<forall>m. st = SwapMax m \<longrightarrow> sint m < sint t))
     \<and> map fst (recorded s) = [0..<length (recorded s)]
     \<and> mset (reported s) + mset (dropped s) + mset (worker_entries (stat_worker_pc s)) + mset (waiting s) = mset (recorded s)"

lemma put_entry_sel [simp]:
  "run_shards (put_entry i k v s) = run_shards s" "responses (put_entry i k v s) = responses s"
  "stat_worker_pc (put_entry i k v s) = stat_worker_pc s" "intervals (put_entry i k v s) = intervals s" "cleared (put_entry i k v s) = cleared s"
  "failed_sweeps (put_entry i k v s) = failed_sweeps s" "answered (put_entry i k v s) = answered s" "reported (put_entry i k v s) = reported s"
  "dropped (put_entry i k v s) = dropped s" "recorded (put_entry i k v s) = recorded s @ [(length (recorded s), k, v)]"
  "cells (put_entry i k v s) = (cells s)((i, k) := cells s (i, k) @ [(length (recorded s), k, v)])"
  by (simp_all add: put_entry_def Let_def reported_def dropped_def)

lemma updates_sel [simp]:
  "reported (s\<lparr>run_shards := x\<rparr>) = reported s" "reported (s\<lparr>responses := r\<rparr>) = reported s" "reported (s\<lparr>answered := a\<rparr>) = reported s"
  "dropped (s\<lparr>run_shards := x\<rparr>) = dropped s" "dropped (s\<lparr>responses := r\<rparr>) = dropped s" "dropped (s\<lparr>answered := a\<rparr>) = dropped s"
  "waiting (s\<lparr>run_shards := x\<rparr>) = waiting s" "waiting (s\<lparr>responses := r\<rparr>) = waiting s" "waiting (s\<lparr>answered := a\<rparr>) = waiting s"
  by (simp_all add: reported_def dropped_def waiting_def)

lemma put_entry_waiting: "i < statShardCount \<Longrightarrow> mset (waiting (put_entry i k v s)) = add_mset (length (recorded s), k, v) (mset (waiting s))"
  using waiting_put [of i s k] by (simp add: waiting_def)

lemma length_incr [simp]: "length (incr g k shards) = length shards"
  by (simp add: incr_def)

lemma put_entry_shape: "shape_inv s \<Longrightarrow> i < statShardCount \<Longrightarrow> shape_inv (put_entry i k v s)"
  by (simp add: shape_inv_def put_entry_waiting)

lemma request_step_shape:
  assumes "request_step s s'" "shape_inv s"
  shows "shape_inv s'"
  using assms
proof (cases rule: request_step.cases)
  case (sampled k gid)
  have "shape_inv (s\<lparr>run_shards := incr gid k (run_shards s)\<rparr>)" using assms(2) by (simp add: shape_inv_def)
  then show ?thesis unfolding sampled by (rule put_entry_shape) (rule stat_shard_bound)
next
  case (response gid t)
  then show ?thesis using assms(2) by (simp add: shape_inv_def stat_shard_bound)
next
  case (swap_max i t m R)
  have i: "i < statShardCount" using assms(2) swap_max by (simp add: shape_inv_def)
  show ?thesis unfolding swap_max by (rule put_entry_shape [OF _ i]) (use assms(2) swap_max in \<open>simp add: shape_inv_def\<close>)
qed (use assms(2) in \<open>auto simp: shape_inv_def put_entry_waiting\<close>)

lemma sweep_step_shape:
  assumes "sweep_step s s'" "shape_inv s"
  shows "shape_inv s'"
  using assms
proof (cases rule: sweep_step.cases)
  case first_start
  then show ?thesis using assms(2) by (auto simp: shape_inv_def pc_cells_def sweep_order_cells reported_def dropped_def waiting_def)
next
  case (reset_one i k rest)
  then have "(i, k) \<in> set all_cells" using assms(2) by (auto simp: shape_inv_def pc_cells_def)
  then have w: "mset (waiting s) = mset (waiting s') + mset (cells s (i, k))"
    by (rule waiting_take) (simp add: reset_one)
  have "mset (dropped s') = mset (dropped s) + mset (cells s (i, k))" "reported s' = reported s"
    using reset_one by (simp_all add: dropped_def reported_def)
  then show ?thesis
    using assms(2) reset_one w by (auto simp: shape_inv_def pc_cells_def ac_simps)
next
  case (swap_one ik rest iv c shards)
  then have "ik \<in> set all_cells" using assms(2) by (auto simp: shape_inv_def pc_cells_def)
  then have w: "mset (waiting s) = mset (waiting s') + mset (cells s ik)"
    by (rule waiting_take) (simp add: swap_one)
  have "dropped s' = dropped s" "reported s' = reported s" using swap_one by (simp_all add: dropped_def reported_def)
  moreover have "length shards = length (run_shards s)" using drain_one_length [of ik "(iv_counts iv, run_shards s)"] swap_one(3) by simp
  ultimately show ?thesis
    using assms(2) swap_one w by (auto simp: shape_inv_def pc_cells_def ac_simps)
qed (use assms(2) in \<open>auto simp: shape_inv_def pc_cells_def sweep_order_cells new_interval_def reported_def dropped_def waiting_def ac_simps\<close>)

section \<open>Values\<close>

lemma sint_inj: "sint (a :: go_int64) = sint b \<longleftrightarrow> a = b"
  by (auto intro: signed_word_eqI)

lemma cell_update:
  "j < length shards \<Longrightarrow> (shards[i := (shards ! i)(k := x)] ! j) k' = (if j = i \<and> k' = k then x else (shards ! j) k')"
  by (cases "j = i") auto

text \<open>What entries add up to in a counter.\<close>

definition aggregate :: "statCounter \<Rightarrow> stat_entry list \<Rightarrow> go_int64" where
  "aggregate k es = foldl (combine k) 0 (map (snd \<circ> snd) (filter (\<lambda>e. fst (snd e) = k) es))"

definition counted :: "stat_interval \<Rightarrow> bool" where
  "counted iv \<longleftrightarrow> (\<forall>k. iv_counts iv k = aggregate k (iv_entries iv))"

lemma combine_assoc: "combine k (combine k a b) c = combine k a (combine k b c)"
  by (auto simp: combine_def max_s_def)

lemma aggregate_snoc: "aggregate k (es @ [(n, k', v)]) = (if k' = k then combine k (aggregate k es) v else aggregate k es)"
  by (simp add: aggregate_def)

lemma aggregate_Nil [simp]: "aggregate k [] = 0"
  by (simp add: aggregate_def)

lemma aggregate_zero: "combine k (aggregate k es) 0 = aggregate k es"
proof (induction es rule: rev_induct)
  case (snoc e es)
  show ?case
  proof (cases "fst (snd e) = k")
    case True
    then have "aggregate k (es @ [e]) = combine k (aggregate k es) (snd (snd e))" by (simp add: aggregate_def)
    then show ?thesis using snoc.IH by (auto simp: combine_def max_s_def sint_inj [symmetric] split: if_splits)
  qed (use snoc.IH in \<open>simp add: aggregate_def\<close>)
qed (simp add: aggregate_def combine_def max_s_def)

lemma aggregate_append: "aggregate k (xs @ ys) = combine k (aggregate k xs) (aggregate k ys)"
proof (induction ys rule: rev_induct)
  case Nil
  then show ?case by (simp add: aggregate_zero)
next
  case (snoc e ys)
  obtain n k' v where e: "e = (n, k', v)" by (rule prod_cases3)
  show ?case using snoc.IH by (simp add: e aggregate_snoc combine_assoc flip: append_assoc)
qed

lemma aggregate_other: "\<forall>e \<in> set ys. fst (snd e) \<noteq> k \<Longrightarrow> aggregate k (xs @ ys) = aggregate k xs"
  by (simp add: aggregate_def)

definition pc_interval :: "stat_pc \<Rightarrow> stat_interval option" where
  "pc_interval pc = (case pc of Sweeping left iv \<Rightarrow> Some iv | Sampling iv \<Rightarrow> Some iv | _ \<Rightarrow> None)"

definition cell_ok :: "stats_run \<Rightarrow> nat \<Rightarrow> statCounter \<Rightarrow> bool" where
  "cell_ok s i k \<longleftrightarrow> (run_shards s ! i) k = aggregate k (cells s (i, k)) \<and> (\<forall>e \<in> set (cells s (i, k)). fst (snd e) = k)"

definition value_inv :: "stats_run \<Rightarrow> bool" where
  "value_inv s \<longleftrightarrow> (\<forall>i < statShardCount. \<forall>k. cell_ok s i k) \<and> (\<forall>iv \<in> set (intervals s). counted iv)
     \<and> (\<forall>iv. pc_interval (stat_worker_pc s) = Some iv \<longrightarrow> counted iv)"

text \<open>A request puts a value into one counter, and the counter takes it up.\<close>

lemma value_inv_put:
  assumes "value_inv s" "i < statShardCount"
    and "\<And>j k'. j < statShardCount \<Longrightarrow> (run_shards s' ! j) k' = (if j = i \<and> k' = k then combine k ((run_shards s ! i) k) v else (run_shards s ! j) k')"
    and "cells s' = cells s" "recorded s' = recorded s" "intervals s' = intervals s" "stat_worker_pc s' = stat_worker_pc s"
  shows "value_inv (put_entry i k v s')"
proof -
  have "cell_ok (put_entry i k v s') j k'" if "j < statShardCount" for j k'
    using assms(1,2) assms(3) [OF that, of k'] that
    by (auto simp: value_inv_def cell_ok_def assms(4,5) aggregate_snoc)
  then show ?thesis using assms(1) by (simp add: value_inv_def assms(6,7))
qed

lemma bump_at:
  "j < length shards \<Longrightarrow> (bump i k v shards ! j) k' = (if j = i \<and> k' = k then combine k ((shards ! i) k) v else (shards ! j) k')"
  by (cases "j = i") (auto simp: bump_def)

lemma request_step_value:
  assumes "request_step s s'" "value_inv s" "shape_inv s"
  shows "value_inv s'"
  using assms(1)
proof (cases rule: request_step.cases)
  case (sampled k gid)
  show ?thesis unfolding sampled
    by (rule value_inv_put [OF assms(2) stat_shard_bound]) (use assms(3) in \<open>simp_all add: shape_inv_def incr_def bump_at\<close>)
next
  case (add_time i t R)
  then have "i < statShardCount" using assms(3) by (simp add: shape_inv_def)
  then show ?thesis unfolding add_time by (rule value_inv_put [OF assms(2)]) (use assms(3) in \<open>simp_all add: shape_inv_def bump_at\<close>)
next
  case (add_count i t R)
  then have "i < statShardCount" using assms(3) by (simp add: shape_inv_def)
  then show ?thesis unfolding add_count by (rule value_inv_put [OF assms(2)]) (use assms(3) in \<open>simp_all add: shape_inv_def bump_at\<close>)
next
  case (load_enough i t R)
  then have i: "i < statShardCount" using assms(3) by (simp add: shape_inv_def)
  have "max_s ((run_shards s ! i) statMaxResponseTime) t = (run_shards s ! i) statMaxResponseTime"
    using load_enough(3) by (auto simp: max_s_def sint_inj [symmetric])
  then show ?thesis unfolding load_enough by (intro value_inv_put [OF assms(2) i]) (simp_all add: combine_def)
next
  case (swap_max i t m R)
  then have i: "i < statShardCount" "sint m < sint t" using assms(3) by (simp_all add: shape_inv_def)
  then have "max_s m t = t" by (simp add: max_s_def)
  then show ?thesis unfolding swap_max
    by (intro value_inv_put [OF assms(2) i(1)]) (use assms(3) swap_max(3) in \<open>auto simp: shape_inv_def combine_def cell_update\<close>)
qed (use assms(2) in \<open>auto simp: value_inv_def cell_ok_def\<close>)

lemma swap_counted:
  assumes "counted iv" "cell_ok s i k"
  shows "counted (iv\<lparr>iv_counts := (iv_counts iv)(k := combine k (iv_counts iv k) ((run_shards s ! i) k)), iv_entries := iv_entries iv @ cells s (i, k)\<rparr>)"
proof -
  have "aggregate k' (iv_entries iv @ cells s (i, k)) = aggregate k' (iv_entries iv)" if "k' \<noteq> k" for k'
    using assms(2) that by (intro aggregate_other) (auto simp: cell_ok_def)
  then show ?thesis using assms by (auto simp: counted_def cell_ok_def aggregate_append)
qed

lemma sweep_step_value:
  assumes "sweep_step s s'" "value_inv s" "shape_inv s"
  shows "value_inv s'"
  using assms(1)
proof (cases rule: sweep_step.cases)
  case (reset_one i k rest)
  then show ?thesis
    using assms(2,3) by (auto simp: value_inv_def cell_ok_def pc_interval_def shape_inv_def cell_update)
next
  case (swap_one ik rest iv c shards)
  obtain i k where ik: "ik = (i, k)" by (cases ik)
  then have i: "i < statShardCount" "cell_ok s i k" "counted iv"
    using swap_one assms(2,3) by (auto simp: shape_inv_def pc_cells_def all_cells_sel(2) value_inv_def pc_interval_def)
  have c: "c = (iv_counts iv)(k := combine k (iv_counts iv k) ((run_shards s ! i) k))" "shards = (run_shards s)[i := (run_shards s ! i)(k := 0)]"
    using swap_one(3) by (auto simp: drain_one_def ik)
  have "cell_ok s' j k'" if "j < statShardCount" for j k'
    using assms(2,3) that swap_one(1) by (auto simp: value_inv_def cell_ok_def ik c shape_inv_def cell_update)
  then show ?thesis using swap_counted [OF i(3,2)] assms(2) swap_one(1) by (auto simp: value_inv_def pc_interval_def ik c)
qed (use assms(2) in \<open>auto simp: value_inv_def cell_ok_def pc_interval_def new_interval_def counted_def\<close>)

section \<open>Completeness of a sweep\<close>

definition covered :: "stats_run \<Rightarrow> nat \<Rightarrow> stat_entry set \<Rightarrow> bool" where
  "covered s m E \<longleftrightarrow> m \<le> length (recorded s) \<and> (\<forall>e \<in> set (recorded s). fst e < m \<longrightarrow> e \<in> set (dropped s) \<union> E)"

definition complete_inv :: "stats_run \<Rightarrow> bool" where
  "complete_inv s \<longleftrightarrow>
     (\<forall>j < length (intervals s). covered s (iv_mark (intervals s ! j)) (\<Union>i \<le> j. set (iv_entries (intervals s ! i))))
     \<and> (\<forall>iv. pc_interval (stat_worker_pc s) = Some iv \<longrightarrow> covered s (iv_mark iv)
          (set (reported s) \<union> set (iv_entries iv) \<union> (\<Union>c \<in> set (pc_cells (stat_worker_pc s)). set (cells s c))))"

lemma sweep_covered_mono:
  assumes "covered s m E" "E \<subseteq> set (dropped s') \<union> E'" "set (dropped s) \<subseteq> set (dropped s')" "recorded s' = recorded s"
  shows "covered s' m E'"
  using assms by (auto simp: covered_def)

lemma covered_put:
  assumes "covered s m E" "E \<subseteq> E'" "dropped s' = dropped s" "recorded s' = recorded s @ [(length (recorded s), k, v)]"
  shows "covered s' m E'"
  using assms by (auto simp: covered_def)

lemma complete_inv_same:
  assumes "complete_inv s" "intervals s' = intervals s" "stat_worker_pc s' = stat_worker_pc s" "dropped s' = dropped s"
    "recorded s' = recorded s" "cells s' = cells s"
  shows "complete_inv s'"
  using assms by (simp add: complete_inv_def covered_def reported_def)

lemma complete_inv_put:
  assumes "complete_inv s" "intervals s' = intervals s" "stat_worker_pc s' = stat_worker_pc s" "dropped s' = dropped s"
    "recorded s' = recorded s" "cells s' = cells s"
  shows "complete_inv (put_entry i k v s')"
proof -
  have c: "complete_inv s'" by (rule complete_inv_same [OF assms])
  have d: "dropped (put_entry i k v s') = dropped s'" "recorded (put_entry i k v s') = recorded s' @ [(length (recorded s'), k, v)]" by simp_all
  show ?thesis
    unfolding complete_inv_def put_entry_sel(3,4,8)
  proof (intro conjI allI impI)
    fix j assume "j < length (intervals s')"
    then show "covered (put_entry i k v s') (iv_mark (intervals s' ! j)) (\<Union>i \<le> j. set (iv_entries (intervals s' ! i)))"
      using c by (intro covered_put [OF _ order_refl d]) (simp add: complete_inv_def)
  next
    fix iv assume "pc_interval (stat_worker_pc s') = Some iv"
    then have "covered s' (iv_mark iv) (set (reported s') \<union> set (iv_entries iv) \<union> (\<Union>c \<in> set (pc_cells (stat_worker_pc s')). set (cells s' c)))"
      using c by (simp add: complete_inv_def)
    then show "covered (put_entry i k v s') (iv_mark iv)
        (set (reported s') \<union> set (iv_entries iv) \<union> (\<Union>c \<in> set (pc_cells (stat_worker_pc s')). set (cells (put_entry i k v s') c)))"
      by (rule covered_put [OF _ _ d]) auto
  qed
qed

lemma request_step_complete:
  assumes "request_step s s'" "complete_inv s"
  shows "complete_inv s'"
  using assms(1)
proof (cases rule: request_step.cases)
  case (response gid t)
  show ?thesis unfolding response by (rule complete_inv_same [OF assms(2)]) simp_all
next
  case (load_less i t R)
  show ?thesis unfolding load_less by (rule complete_inv_same [OF assms(2)]) simp_all
next
  case (swap_again i t m R)
  show ?thesis unfolding swap_again by (rule complete_inv_same [OF assms(2)]) simp_all
qed (use complete_inv_put [OF assms(2)] in \<open>simp_all\<close>)

lemma tick_covered:
  assumes "shape_inv s" "stat_worker_pc s = Idle"
  shows "covered s (length (recorded s)) (set (reported s) \<union> (\<Union>c \<in> set all_cells. set (cells s c)))"
proof -
  have "set_mset (mset (reported s) + mset (dropped s) + mset (waiting s)) = set_mset (mset (recorded s))"
    using assms by (simp add: shape_inv_def)
  then have "set (recorded s) = set (reported s) \<union> set (dropped s) \<union> set (waiting s)" by simp
  then show ?thesis by (auto simp: covered_def waiting_def)
qed

text \<open>A step of the worker leaves the intervals so far covered.\<close>

lemma complete_past:
  assumes "complete_inv s" "intervals s' = intervals s" "set (dropped s) \<subseteq> set (dropped s')" "recorded s' = recorded s"
  shows "\<forall>j < length (intervals s'). covered s' (iv_mark (intervals s' ! j)) (\<Union>i \<le> j. set (iv_entries (intervals s' ! i)))"
proof (intro allI impI)
  fix j assume "j < length (intervals s')"
  then have "covered s (iv_mark (intervals s ! j)) (\<Union>i \<le> j. set (iv_entries (intervals s ! i)))"
    using assms(1,2) by (simp add: complete_inv_def)
  then show "covered s' (iv_mark (intervals s' ! j)) (\<Union>i \<le> j. set (iv_entries (intervals s' ! i)))"
    unfolding assms(2) by (rule sweep_covered_mono) (use assms in auto)
qed

lemma sweep_step_complete:
  assumes "sweep_step s s'" "complete_inv s" "shape_inv s"
  shows "complete_inv s'"
  using assms(1)
proof (cases rule: sweep_step.cases)
  case tick
  have "length (run_shards s) = statShardCount" using assms(3) by (simp add: shape_inv_def)
  then have "covered s' (length (recorded s)) (set (reported s') \<union> (\<Union>c \<in> set (sweep_order (length (run_shards s))). set (cells s' c)))"
    using tick_covered [OF assms(3) tick(2)] tick(1) sweep_order_cells by (simp add: covered_def reported_def dropped_def)
  then show ?thesis
    using complete_past [OF assms(2), of s'] tick(1)
    by (simp add: complete_inv_def pc_interval_def pc_cells_def new_interval_def dropped_def)
next
  case (swap_one ik rest iv c shards)
  have "covered s (iv_mark iv) (set (reported s) \<union> set (iv_entries iv) \<union> (\<Union>c \<in> set (ik # rest). set (cells s c)))"
    using assms(2) swap_one(2) by (simp add: complete_inv_def pc_interval_def pc_cells_def)
  then have "covered s' (iv_mark iv) (set (reported s') \<union> (set (iv_entries iv) \<union> set (cells s ik)) \<union> (\<Union>c \<in> set rest. set (cells s' c)))"
    by (rule sweep_covered_mono) (auto simp: swap_one(1) reported_def dropped_def)
  then show ?thesis
    using complete_past [OF assms(2), of s'] swap_one(1)
    by (simp add: complete_inv_def pc_interval_def pc_cells_def dropped_def)
next
  case (collected iv)
  let ?n = "length (intervals s)"
  have cov: "covered s (iv_mark iv) (set (reported s) \<union> set (iv_entries iv))"
    using assms(2) collected(2) by (simp add: complete_inv_def pc_interval_def pc_cells_def)
  have sub: "set (reported s) \<union> set (iv_entries iv) \<subseteq> (\<Union>i \<le> ?n. set (iv_entries (intervals s' ! i)))"
  proof
    fix e
    assume "e \<in> set (reported s) \<union> set (iv_entries iv)"
    then consider iv' where "iv' \<in> set (intervals s)" "e \<in> set (iv_entries iv')" | "e \<in> set (iv_entries iv)"
      by (auto simp: reported_def)
    then show "e \<in> (\<Union>i \<le> ?n. set (iv_entries (intervals s' ! i)))"
    proof cases
      case 1
      then obtain i where "i < ?n" "intervals s ! i = iv'" by (auto simp: in_set_conv_nth)
      then show ?thesis using 1(2) by (intro UN_I [of i]) (simp_all add: collected(1) nth_append)
    next
      case 2
      then show ?thesis by (intro UN_I [of ?n]) (simp_all add: collected(1))
    qed
  qed
  have new: "covered s' (iv_mark iv) (\<Union>i \<le> ?n. set (iv_entries (intervals s' ! i)))"
    by (rule sweep_covered_mono [OF cov le_supI2 [OF sub]]) (simp_all add: collected(1) dropped_def)
  have old: "covered s' (iv_mark (intervals s ! j)) (\<Union>i \<le> j. set (iv_entries (intervals s' ! i)))" if "j < ?n" for j
  proof -
    have "covered s (iv_mark (intervals s ! j)) (\<Union>i \<le> j. set (iv_entries (intervals s ! i)))"
      using assms(2) that by (simp add: complete_inv_def)
    then show ?thesis by (rule sweep_covered_mono) (use that in \<open>auto simp: collected(1) dropped_def nth_append\<close>)
  qed
  show ?thesis
    using new old by (auto simp: complete_inv_def collected(1) pc_interval_def less_Suc_eq nth_append)
next
  case (drained iv)
  then show ?thesis using assms(2) by (simp add: complete_inv_def pc_interval_def pc_cells_def covered_def dropped_def reported_def)
qed (use complete_past [OF assms(2), of s'] in \<open>auto simp: complete_inv_def pc_interval_def dropped_def\<close>)

section \<open>Requests\<close>

definition values_of :: "statCounter \<Rightarrow> stats_run \<Rightarrow> go_int64 list" where
  "values_of k s = map (snd \<circ> snd) (filter (\<lambda>e. fst (snd e) = k) (recorded s))"

text \<open>The requests in progress that have put in their response time, and those that have been counted.\<close>

definition timed :: "stats_run \<Rightarrow> go_int64 multiset" where
  "timed s = image_mset (\<lambda>(i, t, st). t) (filter_mset (\<lambda>(i, t, st). st \<noteq> AddTime) (responses s))"

definition tallied :: "stats_run \<Rightarrow> nat" where
  "tallied s = size (filter_mset (\<lambda>(i, t, st). st \<noteq> AddTime \<and> st \<noteq> AddCount) (responses s))"

definition response_inv :: "stats_run \<Rightarrow> bool" where
  "response_inv s \<longleftrightarrow> mset (values_of statAccResponseTime s) = mset (answered s) + timed s
     \<and> values_of statRequestCount s = replicate (length (answered s) + tallied s) 1
     \<and> mset (values_of statMaxResponseTime s) = mset (answered s)"

lemma values_of_put: "values_of k (put_entry i k' v s) = (if k' = k then values_of k s @ [v] else values_of k s)"
  by (simp add: values_of_def)

lemma values_of_sel [simp]:
  "values_of k (s\<lparr>run_shards := x\<rparr>) = values_of k s" "values_of k (s\<lparr>responses := r\<rparr>) = values_of k s"
  "values_of k (s\<lparr>answered := a\<rparr>) = values_of k s"
  by (simp_all add: values_of_def)

lemma request_step_response: "request_step s s' \<Longrightarrow> response_inv s \<Longrightarrow> response_inv s'"
  by (induction rule: request_step.induct)
    (auto simp: response_inv_def values_of_put timed_def tallied_def sampling_counters_def replicate_append_same)

lemma sweep_step_response: "sweep_step s s' \<Longrightarrow> response_inv s \<Longrightarrow> response_inv s'"
  by (induction rule: sweep_step.induct) (simp_all add: response_inv_def values_of_def timed_def tallied_def)

section \<open>Properties\<close>

definition stats_inv :: "stats_run \<Rightarrow> bool" where
  "stats_inv s \<longleftrightarrow> shape_inv s \<and> value_inv s \<and> complete_inv s \<and> response_inv s"

lemma init_stats_inv: "stats_inv init_stats_run"
  by (simp add: stats_inv_def shape_inv_def value_inv_def complete_inv_def response_inv_def init_stats_run_def pc_cells_def pc_interval_def
      reported_def dropped_def waiting_def cell_ok_def values_of_def timed_def tallied_def concat_eq_Nil_conv)

lemma stats_step_inv:
  assumes "stats_step s s'" "stats_inv s"
  shows "stats_inv s'"
  using assms(1)
proof cases
  case request
  then show ?thesis
    using assms(2) request_step_shape request_step_value request_step_complete request_step_response by (simp add: stats_inv_def)
next
  case worker
  then show ?thesis
    using assms(2) sweep_step_shape sweep_step_value sweep_step_complete sweep_step_response by (simp add: stats_inv_def)
qed

lemma stats_reach_inv: "stats_step\<^sup>*\<^sup>* init_stats_run s \<Longrightarrow> stats_inv s"
  by (induction rule: rtranclp_induct) (auto intro: init_stats_inv stats_step_inv)

text \<open>The worker alone: its reset ends, and its sweep is \<open>drainCounters\<close>.\<close>

lemma reset_alone:
  "stat_worker_pc s = Resetting left \<Longrightarrow> \<exists>s'. sweep_step\<^sup>*\<^sup>* s s' \<and> stat_worker_pc s' = Idle \<and> recorded s' = recorded s \<and> intervals s' = intervals s
     \<and> failed_sweeps s' = failed_sweeps s \<and> responses s' = responses s \<and> length (run_shards s') = length (run_shards s)
     \<and> set (cleared s') \<subseteq> set (cleared s) \<union> (\<Union>c. set (cells s c))"
proof (induction left arbitrary: s)
  case Nil
  from sweep_step.reset_done [OF this] have "sweep_step\<^sup>*\<^sup>* s (s\<lparr>stat_worker_pc := Idle\<rparr>)" by (rule r_into_rtranclp)
  then show ?case by (intro exI [of _ "s\<lparr>stat_worker_pc := Idle\<rparr>"]) auto
next
  case (Cons ik left)
  obtain i k where ik: "ik = (i, k)" by (cases ik)
  let ?s1 = "s\<lparr>stat_worker_pc := Resetting left, run_shards := (run_shards s)[i := (run_shards s ! i)(k := 0)],
      cells := (cells s)((i, k) := []), cleared := cleared s @ cells s (i, k)\<rparr>"
  have "sweep_step s ?s1" using Cons.prems ik by (intro sweep_step.reset_one) simp
  moreover from Cons.IH [of ?s1] obtain s' where s': "sweep_step\<^sup>*\<^sup>* ?s1 s'" "stat_worker_pc s' = Idle" "recorded s' = recorded s"
    "intervals s' = intervals s" "failed_sweeps s' = failed_sweeps s" "responses s' = responses s" "length (run_shards s') = length (run_shards s)"
    "set (cleared s') \<subseteq> set (cleared ?s1) \<union> (\<Union>c. set (cells ?s1 c))"
    by auto
  moreover have "set (cleared s') \<subseteq> set (cleared s) \<union> (\<Union>c. set (cells s c))" using s'(8) by (auto split: if_splits)
  ultimately show ?case by (meson converse_rtranclp_into_rtranclp)
qed

lemma sweep_alone:
  "stat_worker_pc s = Sweeping left iv \<Longrightarrow> \<exists>s' iv'. sweep_step\<^sup>*\<^sup>* s s' \<and> stat_worker_pc s' = Sampling iv' \<and> iv_mark iv' = iv_mark iv
     \<and> (iv_counts iv', run_shards s') = fold drain_one left (iv_counts iv, run_shards s) \<and> recorded s' = recorded s
     \<and> intervals s' = intervals s \<and> failed_sweeps s' = failed_sweeps s \<and> cleared s' = cleared s"
proof (induction left arbitrary: s iv)
  case Nil
  from sweep_step.drained [OF this] have "sweep_step\<^sup>*\<^sup>* s (s\<lparr>stat_worker_pc := Sampling iv\<rparr>)" by (rule r_into_rtranclp)
  then show ?case by (intro exI [of _ "s\<lparr>stat_worker_pc := Sampling iv\<rparr>"] exI [of _ iv]) simp
next
  case (Cons ik left)
  obtain c shards where d: "drain_one ik (iv_counts iv, run_shards s) = (c, shards)" by (rule prod.exhaust)
  let ?iv = "iv\<lparr>iv_counts := c, iv_entries := iv_entries iv @ cells s ik\<rparr>"
  let ?s1 = "s\<lparr>stat_worker_pc := Sweeping left ?iv, run_shards := shards, cells := (cells s)(ik := [])\<rparr>"
  have step: "sweep_step s ?s1" by (rule sweep_step.swap_one [OF Cons.prems d])
  from Cons.IH [of ?s1 ?iv] obtain s' iv' where s': "sweep_step\<^sup>*\<^sup>* ?s1 s'" "stat_worker_pc s' = Sampling iv'" "iv_mark iv' = iv_mark iv"
    "(iv_counts iv', run_shards s') = fold drain_one left (c, shards)" "recorded s' = recorded s" "intervals s' = intervals s"
    "failed_sweeps s' = failed_sweeps s" "cleared s' = cleared s"
    by auto
  have "sweep_step\<^sup>*\<^sup>* s s'" by (rule converse_rtranclp_into_rtranclp [OF step s'(1)])
  then show ?case by (intro exI [of _ s'] exI [of _ iv']) (simp add: s' d)
qed

text \<open>A request alone does what \<open>collectResponseTime\<close> does.\<close>

lemma response_alone:
  assumes "length (run_shards s) = statShardCount"
  shows "\<exists>s'. request_step\<^sup>*\<^sup>* s s' \<and> run_shards s' = collectResponseTime gid t (run_shards s) \<and> responses s' = responses s
    \<and> answered s' = answered s @ [t] \<and> stat_worker_pc s' = stat_worker_pc s"
proof -
  let ?i = "stat_shard gid"
  define s1 where "s1 = s\<lparr>responses := add_mset (?i, t, AddTime) (responses s)\<rparr>"
  define s2 where "s2 = put_entry ?i statAccResponseTime t
    (s1\<lparr>run_shards := bump ?i statAccResponseTime t (run_shards s1), responses := add_mset (?i, t, AddCount) (responses s)\<rparr>)"
  define s3 where "s3 = put_entry ?i statRequestCount 1
    (s2\<lparr>run_shards := bump ?i statRequestCount 1 (run_shards s2), responses := add_mset (?i, t, LoadMax) (responses s)\<rparr>)"
  have "request_step s s1" unfolding s1_def by (rule request_step.response)
  moreover have "request_step s1 s2" unfolding s2_def by (rule request_step.add_time) (simp add: s1_def)
  moreover have "request_step s2 s3" unfolding s3_def by (rule request_step.add_count) (simp add: s2_def)
  ultimately have r3: "request_step\<^sup>*\<^sup>* s s3" by (rule rtranclp.rtrancl_into_rtrancl [OF rtranclp.rtrancl_into_rtrancl [OF r_into_rtranclp]])
  have sel: "responses s3 = add_mset (?i, t, LoadMax) (responses s)" "answered s3 = answered s" "stat_worker_pc s3 = stat_worker_pc s"
    "run_shards s3 = bump ?i statRequestCount 1 (bump ?i statAccResponseTime t (run_shards s))" "length (run_shards s3) = statShardCount"
    using assms by (simp_all add: s3_def s2_def s1_def)
  let ?m = "(run_shards s3 ! ?i) statMaxResponseTime"
  have goal: "collectResponseTime gid t (run_shards s) = (run_shards s3)[?i := (run_shards s3 ! ?i)(statMaxResponseTime := max_s ?m t)]"
    by (simp add: collectResponseTime_def sel(4) bump_def [of _ statMaxResponseTime] combine_def)
  show ?thesis
  proof (cases "sint t \<le> sint ?m")
    case True
    then have "max_s ?m t = ?m" by (auto simp: max_s_def sint_inj [symmetric])
    moreover define s5 where "s5 = put_entry ?i statMaxResponseTime t (s3\<lparr>responses := responses s, answered := answered s3 @ [t]\<rparr>)"
    moreover have "request_step s3 s5" unfolding s5_def by (rule request_step.load_enough [OF sel(1) True])
    then have "request_step\<^sup>*\<^sup>* s s5" by (rule rtranclp.rtrancl_into_rtrancl [OF r3])
    ultimately show ?thesis using goal sel(2,3) by (intro exI [of _ s5]) simp
  next
    case False
    then have m: "max_s ?m t = t" by (simp add: max_s_def)
    define s4 where "s4 = s3\<lparr>responses := add_mset (?i, t, SwapMax ?m) (responses s)\<rparr>"
    have "request_step s3 s4" unfolding s4_def by (rule request_step.load_less [OF sel(1) False])
    moreover define s5 where "s5 = put_entry ?i statMaxResponseTime t (s4\<lparr>run_shards := (run_shards s4)[?i := (run_shards s4 ! ?i)(statMaxResponseTime := t)],
      responses := responses s, answered := answered s4 @ [t]\<rparr>)"
    moreover have "request_step s4 s5" unfolding s5_def by (rule request_step.swap_max [of _ _ _ ?m]) (simp_all add: s4_def)
    ultimately have "request_step\<^sup>*\<^sup>* s s5" using r3 by (meson rtranclp.rtrancl_into_rtrancl)
    then show ?thesis using goal sel(2,3) m by (intro exI [of _ s5]) (simp add: s5_def s4_def)
  qed
qed

text \<open>
  (C8) Each value a request puts into a counter is counted exactly once. In any interleaving of requests with the stat worker's
  reset and sweeps, every entry is at any moment in exactly one place: in one finished interval, in the sweep in progress, still in
  its counter, or dropped, by the reset of the worker's first start or with a sweep whose sample panicked. An interval reports
  exactly its entries, their sum or, for the maximum, their greatest. A sweep misses nothing: what was recorded before it began is
  in its interval or an earlier one, unless dropped. And a request that is through has put in its response time, one count and its
  candidate for the maximum, each once.
\<close>

theorem stats_counted_exactly_once:
  assumes "stats_step\<^sup>*\<^sup>* init_stats_run s"
  shows "mset (reported s) + mset (dropped s) + mset (worker_entries (stat_worker_pc s)) + mset (waiting s) = mset (recorded s)
    \<and> distinct (recorded s)
    \<and> (\<forall>iv \<in> set (intervals s). \<forall>k. iv_counts iv k = aggregate k (iv_entries iv))
    \<and> (\<forall>j < length (intervals s). \<forall>e \<in> set (recorded s). fst e < iv_mark (intervals s ! j) \<longrightarrow>
         e \<in> set (dropped s) \<or> (\<exists>i \<le> j. e \<in> set (iv_entries (intervals s ! i))))
    \<and> mset (values_of statAccResponseTime s) = mset (answered s) + timed s
    \<and> values_of statRequestCount s = replicate (length (answered s) + tallied s) 1
    \<and> mset (values_of statMaxResponseTime s) = mset (answered s)"
proof -
  have inv: "shape_inv s" "value_inv s" "complete_inv s" "response_inv s" using stats_reach_inv [OF assms] by (simp_all add: stats_inv_def)
  have "distinct (map fst (recorded s))" using inv(1) by (simp add: shape_inv_def)
  then have "distinct (recorded s)" by (simp add: distinct_map)
  moreover have "\<forall>j < length (intervals s). \<forall>e \<in> set (recorded s). fst e < iv_mark (intervals s ! j) \<longrightarrow>
      e \<in> set (dropped s) \<or> (\<exists>i \<le> j. e \<in> set (iv_entries (intervals s ! i)))"
    using inv(3) unfolding complete_inv_def covered_def Un_iff UN_iff Bex_def atMost_iff by blast
  ultimately show ?thesis using inv by (simp add: shape_inv_def value_inv_def counted_def response_inv_def)
qed

lemma sweep_steps: "sweep_step\<^sup>*\<^sup>* s s' \<Longrightarrow> stats_step\<^sup>*\<^sup>* s s'"
  by (induction rule: rtranclp_induct) (auto intro: stats_step.worker rtranclp.rtrancl_into_rtrancl)

text \<open>The worker starts, one request is sampled, and a sweep reports it.\<close>

lemma sweep_run:
  "\<exists>s iv. stats_step\<^sup>*\<^sup>* init_stats_run s \<and> intervals s = [iv] \<and> iv_mark iv = 1 \<and> recorded s = [(0, statSampleNew, 1)] \<and> dropped s = []"
proof -
  define s1 where "s1 = init_stats_run\<lparr>stat_worker_pc := Resetting (sweep_order (length (run_shards init_stats_run)))\<rparr>"
  have "sweep_step init_stats_run s1" unfolding s1_def by (rule sweep_step.first_start) (simp add: init_stats_run_def)
  moreover have "stat_worker_pc s1 = Resetting (sweep_order (length (run_shards init_stats_run)))" by (simp add: s1_def)
  from reset_alone [OF this] obtain s2 where s2: "sweep_step\<^sup>*\<^sup>* s1 s2" "stat_worker_pc s2 = Idle" "recorded s2 = []" "intervals s2 = []"
    "failed_sweeps s2 = []" "cleared s2 = []" "length (run_shards s2) = statShardCount"
    by (auto simp: s1_def init_stats_run_def)
  ultimately have r2: "stats_step\<^sup>*\<^sup>* init_stats_run s2" by (meson converse_rtranclp_into_rtranclp sweep_steps)
  define s3 where "s3 = put_entry (stat_shard None) statSampleNew 1 (s2\<lparr>run_shards := incr None statSampleNew (run_shards s2)\<rparr>)"
  have "stats_step s2 s3" unfolding s3_def by (intro stats_step.request request_step.sampled) (simp add: sampling_counters_def)
  with r2 have r3: "stats_step\<^sup>*\<^sup>* init_stats_run s3" by (rule rtranclp.rtrancl_into_rtrancl)
  define s4 where "s4 = s3\<lparr>stat_worker_pc := Sweeping (sweep_order (length (run_shards s3))) (new_interval (length (recorded s3)))\<rparr>"
  have "sweep_step s3 s4" unfolding s4_def by (rule sweep_step.tick) (simp add: s3_def s2)
  moreover have "stat_worker_pc s4 = Sweeping (sweep_order (length (run_shards s3))) (new_interval 1)" by (simp add: s4_def s3_def s2)
  from sweep_alone [OF this] obtain s5 iv where s5: "sweep_step\<^sup>*\<^sup>* s4 s5" "stat_worker_pc s5 = Sampling iv" "iv_mark iv = 1"
    "recorded s5 = [(0, statSampleNew, 1)]" "intervals s5 = []" "failed_sweeps s5 = []" "cleared s5 = []"
    by (auto simp: s4_def s3_def s2 new_interval_def)
  moreover define s6 where "s6 = s5\<lparr>stat_worker_pc := Idle, intervals := intervals s5 @ [iv]\<rparr>"
  moreover have "sweep_step s5 s6" unfolding s6_def by (rule sweep_step.collected [OF s5(2)])
  ultimately have "sweep_step\<^sup>*\<^sup>* s3 s6" by (meson converse_rtranclp_into_rtranclp rtranclp.rtrancl_into_rtrancl)
  with r3 have "stats_step\<^sup>*\<^sup>* init_stats_run s6" by (meson rtranclp_trans sweep_steps)
  then show ?thesis using s5 by (intro exI [of _ s6] exI [of _ iv]) (simp add: s6_def dropped_def)
qed

theorem stats_counted_exactly_once_witness:
  "\<exists>s iv. stats_step\<^sup>*\<^sup>* init_stats_run s \<and> recorded s = [(0, statSampleNew, 1)] \<and> intervals s = [iv] \<and> iv_entries iv = [(0, statSampleNew, 1)]
     \<and> iv_counts iv statSampleNew = 1"
proof -
  obtain s iv where s: "stats_step\<^sup>*\<^sup>* init_stats_run s" "intervals s = [iv]" "iv_mark iv = 1" "recorded s = [(0, statSampleNew, 1)]" "dropped s = []"
    using sweep_run by blast
  note P = stats_counted_exactly_once [OF s(1)]
  have e: "(0, statSampleNew, 1) \<in> set (iv_entries iv)" using P s by simp
  then obtain A where A: "mset (iv_entries iv) = add_mset (0, statSampleNew, 1) A" by (metis insert_DiffM set_mset_mset)
  have "mset (iv_entries iv) + (mset (worker_entries (stat_worker_pc s)) + mset (waiting s)) = {#(0, statSampleNew, 1)#}"
    using P s by (simp add: reported_def add.assoc)
  then have "mset (iv_entries iv) = {#(0, statSampleNew, 1)#}" by (simp add: A)
  then have es: "iv_entries iv = [(0, statSampleNew, 1)]" by simp
  have "iv_counts iv statSampleNew = aggregate statSampleNew (iv_entries iv)" using P s(2) by simp
  then have "iv_counts iv statSampleNew = 1" by (simp add: es aggregate_def combine_def)
  with s es show ?thesis by blast
qed

end
