(* ===== verification/Meta_Sender.thy ===== *)
theory Meta_Sender
  imports Meta
begin

text \<open>
  Metadata registration against its sender (\<^verbatim>\<open>src/meta.go\<close>), action by action: what a request, the sender's worker and a send goroutine
  do between two accesses of shared state is one step, so that the windows between them are states of the model: an id published and
  not queued, a full channel seen and the cache entry not yet released, an item evicted from the retry schedule under its lock and
  released after it, a verdict not yet acted upon. A panic of a send, which the sender recovers, ends its goroutine where it is. The
  drop counters, which none of these goroutines reads, are bumped with the action before.
\<close>

section \<open>Goroutines\<close>

datatype request = ApiReq string int | ErrorReq string | SqlReq sqlHash string | UidReq sqlHash string

fun request_lookup :: "hashes \<Rightarrow> time \<Rightarrow> request \<Rightarrow> 'x metaAgent \<Rightarrow> 'x metaAgent" where
  "request_lookup H now (ApiReq d t) a = snd (lookupMeta (hash_api H) apiCache put_api now (d, t) a)"
| "request_lookup H now (ErrorReq f) a = snd (lookupMeta (hash_str H) errorCache put_error now f a)"
| "request_lookup H now (SqlReq k q) a = snd (lookupMeta (hash_str H) sqlCache put_sql now k a)"
| "request_lookup H now (UidReq k q) a = snd (lookupMeta (hash_str H) sqlUidCache put_uid now k a)"

text \<open>A request mints an id for its key; the metadata that will describe it carries both.\<close>

fun request_mint :: "request \<Rightarrow> 'x metaAgent \<Rightarrow> 'x metaItem option \<times> 'x metaAgent" where
  "request_mint (ApiReq d t) a = (case mint_api a of (v, a) \<Rightarrow> (map_option (\<lambda>i. apiMeta i d t) v, a))"
| "request_mint (ErrorReq f) a = (case mint_error a of (v, a) \<Rightarrow> (map_option (\<lambda>i. stringMeta i f) v, a))"
| "request_mint (SqlReq k q) a = (case mint_sql a of (v, a) \<Rightarrow> (map_option (\<lambda>i. sqlMeta i q k) v, a))"
| "request_mint (UidReq k q) a = (Some (sqlUidMeta k q k), a)"

text \<open>\<open>peekOrAdd\<close> with the minted id: whether it was admitted.\<close>

fun publish_item :: "hashes \<Rightarrow> bool \<Rightarrow> time \<Rightarrow> 'x metaItem \<Rightarrow> 'x metaAgent \<Rightarrow> bool \<times> 'x metaAgent" where
  "publish_item H lk now (apiMeta i d t) a =
     (case cache_peekOrAdd (hash_api H) lk now (d, t) i (apiCache a) of (cached, c) \<Rightarrow> (cached = None, put_api c a))"
| "publish_item H lk now (stringMeta i f) a =
     (case cache_peekOrAdd (hash_str H) lk now f i (errorCache a) of (cached, c) \<Rightarrow> (cached = None, put_error c a))"
| "publish_item H lk now (sqlMeta i q k) a =
     (case cache_peekOrAdd (hash_str H) lk now k i (sqlCache a) of (cached, c) \<Rightarrow> (cached = None, put_sql c a))"
| "publish_item H lk now (sqlUidMeta u q k) a =
     (case cache_peekOrAdd (hash_str H) lk now k u (sqlUidCache a) of (cached, c) \<Rightarrow> (cached = None, put_uid c a))"
| "publish_item H lk now (exceptionMeta tx sp uri es) a = (False, a)"

text \<open>
  Where a goroutine is that holds an item: in \<open>registerMeta\<close> before \<open>peekOrAdd\<close>; in \<open>enqueueMeta\<close> before the look at the phase, and before the
  offer to the channel; before \<open>deleteMetaCache\<close>; in \<open>sendMetadataOnce\<close> waiting for the answer, with the answer, between the two
  counters of a delivery, before it reads the deliveries for a park; in \<open>scheduleMetaRetry\<close> before the look at the phase, and
  before the push; and in \<open>releaseParkedMeta\<close>.
\<close>

datatype 'x holder =
    Adding "'x metaItem" | Queueing "'x metaItem" | Offering "'x metaItem" | Releasing "'x metaItem"
  | Sending "'x pendingMeta" | Handling "'x pendingMeta" "sendError option" | Clearing "'x metaItem" | Parking "'x metaItem"
  | Scheduling "'x pendingMeta" | Pushing "'x pendingMeta" | Parked "'x pendingMeta"

inductive goroutine_step :: "hashes \<Rightarrow> 'x holder \<Rightarrow> 'x metaAgent \<Rightarrow> 'x holder list \<Rightarrow> 'x metaAgent \<Rightarrow> bool" for H where
  admitted: "publish_item H lk now m a = (True, a') \<Longrightarrow> goroutine_step H (Adding m) a [Queueing m] a'"
| present: "publish_item H lk now m a = (False, a') \<Longrightarrow> goroutine_step H (Adding m) a [] a'"
| enabled: "tracingEnabled (ma_phase a) \<Longrightarrow> goroutine_step H (Queueing m) a [Offering m] a"
| disabled: "\<not> tracingEnabled (ma_phase a) \<Longrightarrow> goroutine_step H (Queueing m) a [Releasing m] a"
| offered: "try_send (metaChanCap a) m (metaChan a) = (True, ch) \<Longrightarrow> goroutine_step H (Offering m) a [] (a\<lparr>metaChan := ch\<rparr>)"
| refused: "try_send (metaChanCap a) m (metaChan a) = (False, ch) \<Longrightarrow>
    goroutine_step H (Offering m) a [Releasing m] (a\<lparr>metaDrops := dropReporter_record 1 (metaDrops a)\<rparr>)"
| released: "goroutine_step H (Releasing m) a [] (deleteMetaCache H m a)"
| delivered_one: "goroutine_step H (Handling p None) a [Clearing (pm_md p)] (a\<lparr>metaDeliveredCount := metaDeliveredCount a + 1\<rparr>)"
| cleared: "goroutine_step H (Clearing m) a [] (a\<lparr>metaGiveUps := 0\<rparr>)"
| retry_later: "metaVerdictOf e (attempts p + 1) = metaRetryLater \<Longrightarrow>
    goroutine_step H (Handling p e) a [Scheduling ((fresh_pending (pm_md p))\<lparr>attempts := attempts p + 1\<rparr>)] a"
| give_up_exception: "metaVerdictOf e (attempts p + 1) = metaGiveUp \<Longrightarrow> is_exceptionMeta (pm_md p) \<Longrightarrow>
    goroutine_step H (Handling p e) a [Releasing (pm_md p)] a"
| give_up: "metaVerdictOf e (attempts p + 1) = metaGiveUp \<Longrightarrow> \<not> is_exceptionMeta (pm_md p) \<Longrightarrow>
    goroutine_step H (Handling p e) a [if metaGiveUps a + 1 = 1 then Releasing (pm_md p) else Parking (pm_md p)]
      (a\<lparr>metaGiveUps := metaGiveUps a + 1\<rparr>)"
| park: "goroutine_step H (Parking m) a
    [Scheduling ((fresh_pending m)\<lparr>releaseOnly := True, parks := metaGiveUpParks - 1, pm_delivered := metaDeliveredCount a\<rparr>)] a"
| rejected: "metaVerdictOf e (attempts p + 1) = metaRejected \<Longrightarrow>
    goroutine_step H (Handling p e) a (if is_exceptionMeta (pm_md p) then [] else [Scheduling ((fresh_pending (pm_md p))\<lparr>releaseOnly := True\<rparr>)]) a"
| stopped: "stopping (ma_phase a) \<Longrightarrow> goroutine_step H (Scheduling p) a [] a"
| scheduled: "\<not> stopping (ma_phase a) \<Longrightarrow> goroutine_step H (Scheduling p) a [Pushing (p\<lparr>dueAt := now + retryDelay a\<rparr>)] a"
| pushed: "retry_push p (metaRetry a) = (None, q) \<Longrightarrow> goroutine_step H (Pushing p) a [] (a\<lparr>metaRetry := q\<rparr>)"
| pushed_out: "retry_push p (metaRetry a) = (Some x, q) \<Longrightarrow>
    goroutine_step H (Pushing p) a [Releasing (pm_md x)] (a\<lparr>metaRetry := q, metaRetryDrops := dropReporter_record 1 (metaRetryDrops a)\<rparr>)"
| parked_again: "parks p > 0 \<Longrightarrow> metaDeliveredCount a = pm_delivered p \<Longrightarrow>
    goroutine_step H (Parked p) a [Scheduling (p\<lparr>parks := parks p - 1\<rparr>)] a"
| parked_out: "\<not> (parks p > 0 \<and> metaDeliveredCount a = pm_delivered p) \<Longrightarrow> goroutine_step H (Parked p) a [Releasing (pm_md p)] a"

text \<open>The items a goroutine answers for: an id is in no cache before \<open>peekOrAdd\<close>.\<close>

fun held_items :: "'x holder \<Rightarrow> 'x metaItem list" where
  "held_items (Adding m) = []"
| "held_items (Queueing m) = [m]"
| "held_items (Offering m) = [m]"
| "held_items (Releasing m) = [m]"
| "held_items (Sending p) = [pm_md p]"
| "held_items (Handling p e) = [pm_md p]"
| "held_items (Clearing m) = [m]"
| "held_items (Parking m) = [m]"
| "held_items (Scheduling p) = [pm_md p]"
| "held_items (Pushing p) = [pm_md p]"
| "held_items (Parked p) = [pm_md p]"

text \<open>The goroutines of the sender, whose panics are recovered; a request's panic is the application's.\<close>

fun is_sender :: "'x holder \<Rightarrow> bool" where
  "is_sender (Adding m) = False"
| "is_sender (Queueing m) = False"
| "is_sender (Offering m) = False"
| "is_sender h = True"

text \<open>\<open>delivered\<close> is what the collector has accepted, \<open>panicked\<close> what a panicking goroutine of the sender held.\<close>

record 'x metaRun =
  mr_agent :: "'x metaAgent"
  holders :: "'x holder list"
  delivered :: "'x metaItem list"
  panicked :: "'x metaItem list"

inductive meta_step :: "hashes \<Rightarrow> 'x metaRun \<Rightarrow> 'x metaRun \<Rightarrow> bool" for H where
  look_up: "meta_step H s (s\<lparr>mr_agent := request_lookup H now r (mr_agent s)\<rparr>)"
| mint: "request_mint r (mr_agent s) = (m, a) \<Longrightarrow>
    meta_step H s (s\<lparr>mr_agent := a, holders := holders s @ (case m of None \<Rightarrow> [] | Some x \<Rightarrow> [Adding x])\<rparr>)"
| exceptions: "tracingEnabled (ma_phase (mr_agent s)) \<Longrightarrow> meta_step H s (s\<lparr>holders := holders s @ [Queueing (exceptionMeta tx sp url es)]\<rparr>)"
| take_new: "metaChan (mr_agent s) = m # ms \<Longrightarrow>
    meta_step H s (s\<lparr>mr_agent := (mr_agent s)\<lparr>metaChan := ms\<rparr>, holders := holders s @ [Sending (fresh_pending m)]\<rparr>)"
| take_due: "popDue now (metaRetry (mr_agent s)) = (Some x, q) \<Longrightarrow>
    meta_step H s (s\<lparr>mr_agent := (mr_agent s)\<lparr>metaRetry := q\<rparr>, holders := holders s @ [if releaseOnly x then Parked x else Sending x]\<rparr>)"
| act: "holders s = xs @ h # ys \<Longrightarrow> goroutine_step H h (mr_agent s) hs a \<Longrightarrow>
    meta_step H s (s\<lparr>mr_agent := a, holders := xs @ hs @ ys\<rparr>)"
| rpc: "holders s = xs @ Sending p # ys \<Longrightarrow>
    meta_step H s (s\<lparr>holders := xs @ Handling p e # ys, delivered := delivered s @ (if e = None then [pm_md p] else [])\<rparr>)"
| panic: "holders s = xs @ h # ys \<Longrightarrow> is_sender h \<Longrightarrow>
    meta_step H s (s\<lparr>holders := xs @ ys, panicked := panicked s @ held_items h\<rparr>)"
| change_phase: "(stopping (ma_phase (mr_agent s)) \<Longrightarrow> stopping p) \<Longrightarrow>
    meta_step H s (s\<lparr>mr_agent := (mr_agent s)\<lparr>ma_phase := p\<rparr>\<rparr>)"

definition start_run :: "'x metaAgent \<Rightarrow> 'x metaRun" where
  "start_run a = \<lparr>mr_agent = a, holders = [], delivered = [], panicked = []\<rparr>"

section \<open>No cached id is orphaned\<close>

definition item_refs :: "'x metaItem list \<Rightarrow> metaRef set" where
  "item_refs ms = \<Union> (ref_of ` set ms)"

lemma item_refs_simps [simp]:
  "item_refs [] = {}" "item_refs (m # ms) = ref_of m \<union> item_refs ms" "item_refs (xs @ ys) = item_refs xs \<union> item_refs ys"
  by (auto simp: item_refs_def)

text \<open>Every reference of an agent is covered by its queues and by \<open>hs\<close>, the metadata goroutines hold or have delivered.\<close>

definition covered :: "hashes \<Rightarrow> metaRef set \<Rightarrow> 'x metaAgent \<Rightarrow> bool" where
  "covered H hs a \<longleftrightarrow> caches_ok H a
     \<and> (\<not> stopping (ma_phase a) \<longrightarrow> cached_refs H a \<subseteq> hs \<union> item_refs (metaChan a) \<union> item_refs (map pm_md (rq_items (metaRetry a))))"

lemma covered_counters [simp]:
  "covered H hs (a\<lparr>metaDrops := d\<rparr>) = covered H hs a" "covered H hs (a\<lparr>metaRetryDrops := d\<rparr>) = covered H hs a"
  "covered H hs (a\<lparr>metaGiveUps := n\<rparr>) = covered H hs a" "covered H hs (a\<lparr>metaDeliveredCount := n\<rparr>) = covered H hs a"
  by (simp_all add: covered_def)

lemma queues_sel: "queues_of a = queues_of b \<Longrightarrow> ma_phase a = ma_phase b \<and> metaChan a = metaChan b \<and> metaRetry a = metaRetry b"
  by (simp add: queues_of_def)

lemma covered_same_queues:
  assumes "covered H hs a" "caches_ok H b" "cached_refs H b \<subseteq> cached_refs H a \<union> extra" "queues_of b = queues_of a"
    "hs \<union> extra \<subseteq> hs'"
  shows "covered H hs' b"
  using assms queues_sel [OF assms(4)] unfolding covered_def by auto

lemma delete_covered:
  assumes "covered H (ref_of m \<union> hs) a"
  shows "covered H hs (deleteMetaCache H m a)"
proof -
  have ok: "caches_ok H a" using assms by (simp add: covered_def)
  note d = delete_kept [OF ok, of m]
  show ?thesis using assms d queues_sel [OF d(3)] unfolding covered_def by auto
qed

lemma lookup_covered:
  assumes "covered H hs a"
  shows "covered H hs (request_lookup H now r a)"
proof -
  have ok: "caches_ok H a" using assms by (simp add: covered_def)
  have "caches_ok H (request_lookup H now r a) \<and> cached_refs H (request_lookup H now r a) \<subseteq> cached_refs H a
    \<and> queues_of (request_lookup H now r a) = queues_of a"
    using api_kind.lookup_kept [OF ok prod.collapse [symmetric]] error_kind.lookup_kept [OF ok prod.collapse [symmetric]]
      sql_kind.lookup_kept [OF ok prod.collapse [symmetric]] uid_kind.lookup_kept [OF ok prod.collapse [symmetric]]
    by (cases r) auto
  then show ?thesis using covered_same_queues [OF assms, of _ "{}"] by auto
qed

lemma mints_kept:
  assumes "caches_ok H a"
  shows "caches_ok H (snd (mint_api a))" "cached_refs H (snd (mint_api a)) = cached_refs H a" "queues_of (snd (mint_api a)) = queues_of a"
    "caches_ok H (snd (mint_error a))" "cached_refs H (snd (mint_error a)) = cached_refs H a" "queues_of (snd (mint_error a)) = queues_of a"
    "caches_ok H (snd (mint_sql a))" "cached_refs H (snd (mint_sql a)) = cached_refs H a" "queues_of (snd (mint_sql a)) = queues_of a"
  using assms by (simp_all add: mint_api_def mint_error_def mint_sql_def split: prod.splits)


lemma mint_kept:
  assumes "caches_ok H a" "request_mint r a = (m, a')"
  shows "caches_ok H a' \<and> cached_refs H a' = cached_refs H a \<and> queues_of a' = queues_of a"
proof -
  have "a' = snd (mint_api a) \<or> a' = snd (mint_error a) \<or> a' = snd (mint_sql a) \<or> a' = a"
    using assms(2) by (cases r) (auto split: prod.splits)
  then show ?thesis using mints_kept [OF assms(1)] assms(1) by auto
qed

lemma publish_item_kept:
  assumes "caches_ok H a" "publish_item H lk now m a = (ok, a')"
  shows "caches_ok H a' \<and> cached_refs H a' \<subseteq> cached_refs H a \<union> (if ok then ref_of m else {}) \<and> queues_of a' = queues_of a"
proof (cases m)
  case (apiMeta i d t)
  then show ?thesis
    using assms(2) api_kind.add_kept [OF assms(1), of lk now "(d, t)" i] api_kind.queues_kept by (auto split: prod.splits if_splits)
next
  case (stringMeta i f)
  then show ?thesis
    using assms(2) error_kind.add_kept [OF assms(1), of lk now f i] error_kind.queues_kept by (auto split: prod.splits if_splits)
next
  case (sqlMeta i q k)
  then show ?thesis
    using assms(2) sql_kind.add_kept [OF assms(1), of lk now k i] sql_kind.queues_kept by (auto split: prod.splits if_splits)
next
  case (sqlUidMeta u q k)
  then show ?thesis
    using assms(2) uid_kind.add_kept [OF assms(1), of lk now k u] uid_kind.queues_kept by (auto split: prod.splits if_splits)
qed (use assms in auto)

definition holder_refs :: "'x holder list \<Rightarrow> metaRef set" where
  "holder_refs hs = item_refs (concat (map held_items hs))"

lemma holder_refs_simps [simp]:
  "holder_refs [] = {}" "holder_refs (h # hs) = item_refs (held_items h) \<union> holder_refs hs" "holder_refs (xs @ ys) = holder_refs xs \<union> holder_refs ys"
  by (simp_all add: holder_refs_def)

lemma covered_mono: "covered H hs a \<Longrightarrow> hs \<subseteq> hs' \<Longrightarrow> covered H hs' a"
  by (auto simp: covered_def)

text \<open>An action hands the references of its goroutine on, to the goroutine, to a queue, or out of the cache; a delivery drops them.\<close>

lemma goroutine_step_covered:
  assumes "goroutine_step H h a hs' a'" "covered H (item_refs (held_items h) \<union> hs) a"
  shows "(\<exists>p. h = Clearing p) \<or> covered H (holder_refs hs' \<union> hs) a'"
  using assms
proof (induction rule: goroutine_step.induct)
  case (admitted lk now m a a')
  have ok: "caches_ok H a" using admitted.prems by (simp add: covered_def)
  show ?case
    using covered_same_queues [OF admitted.prems, of a' "ref_of m" "ref_of m \<union> hs"] publish_item_kept [OF ok admitted.hyps] by auto
next
  case (present lk now m a a')
  have ok: "caches_ok H a" using present.prems by (simp add: covered_def)
  show ?case using covered_same_queues [OF present.prems, of a' "{}" hs] publish_item_kept [OF ok present.hyps] by auto
next
  case (released m a)
  then show ?case by (simp add: delete_covered)
next
  case (pushed p a q)
  then have "item_refs (map pm_md (rq_items (metaRetry a))) \<union> ref_of (pm_md p) \<subseteq> item_refs (map pm_md (rq_items q))"
    by (auto simp: retry_push_def split: if_splits list.splits)
  then show ?case using pushed.prems by (auto simp: covered_def)
next
  case (pushed_out p a x q)
  then have "item_refs (map pm_md (rq_items (metaRetry a))) \<union> ref_of (pm_md p) \<subseteq> item_refs (map pm_md (rq_items q)) \<union> ref_of (pm_md x)"
    by (auto simp: retry_push_def split: if_splits list.splits)
  then show ?case using pushed_out.prems by (auto simp: covered_def)
next
  case (rejected e p a)
  then show ?case by (cases "pm_md p") (auto simp: fresh_pending_def)
qed (auto simp: covered_def try_send_def fresh_pending_def split: if_splits)

text \<open>What is being counted as delivered is delivered.\<close>

fun claims_delivery :: "'x holder \<Rightarrow> 'x metaItem option" where
  "claims_delivery (Handling p None) = Some (pm_md p)"
| "claims_delivery (Clearing m) = Some m"
| "claims_delivery h = None"

lemma goroutine_step_claims:
  "goroutine_step H h a hs a' \<Longrightarrow> h' \<in> set hs \<Longrightarrow> claims_delivery h' = Some m \<Longrightarrow> claims_delivery h = Some m"
  by (induction rule: goroutine_step.induct) (auto split: if_splits)

definition run_refs :: "'x metaRun \<Rightarrow> metaRef set" where
  "run_refs s = holder_refs (holders s) \<union> item_refs (delivered s) \<union> item_refs (panicked s)"

definition run_inv :: "hashes \<Rightarrow> 'x metaRun \<Rightarrow> bool" where
  "run_inv H s \<longleftrightarrow> covered H (run_refs s) (mr_agent s)
     \<and> (\<forall>h \<in> set (holders s). \<forall>m. claims_delivery h = Some m \<longrightarrow> m \<in> set (delivered s))"

lemma popDue_refs:
  assumes "popDue now q = (Some x, q')"
  shows "item_refs (map pm_md (rq_items q)) = ref_of (pm_md x) \<union> item_refs (map pm_md (rq_items q'))"
  using assms by (auto simp: popDue_def split: list.splits if_splits)

lemma act_inv:
  assumes "run_inv H s" "holders s = xs @ h # ys" "goroutine_step H h (mr_agent s) hs a"
  shows "run_inv H (s\<lparr>mr_agent := a, holders := xs @ hs @ ys\<rparr>)"
proof -
  let ?rest = "holder_refs (xs @ ys) \<union> item_refs (delivered s) \<union> item_refs (panicked s)"
  let ?s = "s\<lparr>mr_agent := a, holders := xs @ hs @ ys\<rparr>"
  have c: "covered H (item_refs (held_items h) \<union> ?rest) (mr_agent s)"
    by (rule covered_mono [of _ "run_refs s"]) (use assms(1,2) in \<open>auto simp: run_inv_def run_refs_def\<close>)
  have refs: "run_refs ?s = holder_refs hs \<union> ?rest" by (auto simp: run_refs_def)
  have "covered H (run_refs ?s) a"
  proof (cases "\<exists>m. h = Clearing m")
    case True
    then obtain m where h: "h = Clearing m" by blast
    with assms(3) have a: "hs = []" "a = (mr_agent s)\<lparr>metaGiveUps := 0\<rparr>" by (auto elim: goroutine_step.cases)
    have "m \<in> set (delivered s)" using assms(1,2) h by (simp add: run_inv_def)
    then have "ref_of m \<subseteq> item_refs (delivered s)" by (auto simp: item_refs_def)
    then show ?thesis unfolding refs a(2) covered_counters by (intro covered_mono [OF c]) (auto simp: h run_refs_def)
  next
    case False
    then show ?thesis using goroutine_step_covered [OF assms(3) c] refs by auto
  qed
  moreover have "\<forall>h' \<in> set (holders ?s). \<forall>m. claims_delivery h' = Some m \<longrightarrow> m \<in> set (delivered s)"
    using assms(1,2) goroutine_step_claims [OF assms(3)] by (auto simp: run_inv_def)
  ultimately show ?thesis by (simp add: run_inv_def)
qed

lemma meta_step_inv:
  assumes "meta_step H s s'" "run_inv H s"
  shows "run_inv H s'"
proof -
  have ok: "caches_ok H (mr_agent s)" and cov: "covered H (run_refs s) (mr_agent s)" using assms(2) by (auto simp: run_inv_def covered_def)
  from assms(1) show ?thesis
  proof cases
    case (look_up now r)
    then show ?thesis using assms(2) lookup_covered [OF cov] by (simp add: run_inv_def run_refs_def)
  next
    case (mint r m a)
    have "covered H (run_refs s) a"
      using covered_same_queues [OF cov, of a "{}"] mint_kept [OF ok mint(2)] by auto
    then show ?thesis using assms(2) mint(1) by (auto simp: run_inv_def run_refs_def split: option.splits)
  next
    case (exceptions tx sp url es)
    then show ?thesis using assms(2) by (auto simp: run_inv_def run_refs_def covered_def)
  next
    case (take_new m ms)
    then show ?thesis using assms(2) by (auto simp: run_inv_def run_refs_def covered_def fresh_pending_def)
  next
    case (take_due now x q)
    then show ?thesis using assms(2) popDue_refs [OF take_due(2)] by (auto simp: run_inv_def run_refs_def covered_def)
  next
    case (act xs h ys hs a)
    then show ?thesis using act_inv [OF assms(2)] by simp
  next
    case (rpc xs p ys e)
    then show ?thesis using assms(2) by (auto simp: run_inv_def run_refs_def covered_def)
  next
    case (panic xs h ys)
    then show ?thesis using assms(2) by (auto simp: run_inv_def run_refs_def covered_def)
  next
    case (change_phase p)
    then show ?thesis using assms(2) by (auto simp: run_inv_def run_refs_def covered_def)
  qed
qed

lemma new_metaAgent_covered: "0 \<le> t \<Longrightarrow> covered H hs (new_metaAgent n m t qs)"
  by (simp add: covered_def caches_ok_def cached_refs_def refs_in_def new_metaAgent_def Let_def new_cache_inv new_cache_empty)

lemma meta_reach_inv:
  "(meta_step H)\<^sup>*\<^sup>* (start_run (new_metaAgent n m t qs)) s \<Longrightarrow> 0 \<le> t \<Longrightarrow> run_inv H s"
proof (induction rule: rtranclp_induct)
  case base
  then show ?case using new_metaAgent_covered [of t H] by (simp add: run_inv_def start_run_def)
next
  case (step s s')
  then show ?case using meta_step_inv by blast
qed

section \<open>The actions of a goroutine alone\<close>

text \<open>Run without interruption, they compute \<open>enqueueMeta\<close>, \<open>scheduleMetaRetry\<close>, \<open>releaseParkedMeta\<close> and \<open>sendMetadataOnce\<close>.\<close>

inductive alone :: "hashes \<Rightarrow> 'x holder list \<Rightarrow> 'x metaAgent \<Rightarrow> 'x metaAgent \<Rightarrow> bool" for H where
  alone_done: "alone H [] a a"
| alone_act: "goroutine_step H h a hs a' \<Longrightarrow> alone H (hs @ rest) a' a'' \<Longrightarrow> alone H (h # rest) a a''"

lemma alone_one: "goroutine_step H h a [] a' \<Longrightarrow> alone H [h] a a'"
  using alone_act [of H h a "[]" a' "[]" a'] by (simp add: alone_done)

lemma alone_then: "goroutine_step H h a [h'] a' \<Longrightarrow> alone H [h'] a' a'' \<Longrightarrow> alone H [h] a a''"
  using alone_act [of H h a "[h']" a' "[]" a''] by simp

lemma alone_release: "alone H [Releasing m] a (deleteMetaCache H m a)"
  by (rule alone_one) (rule goroutine_step.released)

lemma alone_enqueue: "alone H [Queueing m] a (enqueueMeta H m a)"
proof (cases "tracingEnabled (ma_phase a)")
  case True
  obtain ok ch where t: "try_send (metaChanCap a) m (metaChan a) = (ok, ch)" by (rule prod.exhaust)
  have "alone H [Offering m] a (enqueueMeta H m a)"
  proof (cases ok)
    case True
    then show ?thesis using t \<open>tracingEnabled (ma_phase a)\<close> goroutine_step.offered [of a m ch H] by (simp add: enqueueMeta_def alone_one)
  next
    case False
    then show ?thesis
      using t \<open>tracingEnabled (ma_phase a)\<close> alone_then [OF goroutine_step.refused alone_release, of a m ch H] by (simp add: enqueueMeta_def)
  qed
  then show ?thesis by (rule alone_then [OF goroutine_step.enabled [OF True]])
next
  case False
  then show ?thesis using alone_then [OF goroutine_step.disabled [OF False] alone_release] by (simp add: enqueueMeta_def)
qed

lemma delete_retryDrops:
  "(deleteMetaCache H m a)\<lparr>metaRetryDrops := d\<rparr> = deleteMetaCache H m (a\<lparr>metaRetryDrops := d\<rparr>)"
  by (cases m) (simp_all add: put_api_def put_error_def put_sql_def put_uid_def)

lemma alone_schedule: "alone H [Scheduling p] a (scheduleMetaRetry H now p a)"
proof (cases "stopping (ma_phase a)")
  case True
  then show ?thesis using alone_one [OF goroutine_step.stopped] by (simp add: scheduleMetaRetry_def)
next
  case False
  let ?p = "p\<lparr>dueAt := now + retryDelay a\<rparr>"
  obtain ev q where push: "retry_push ?p (metaRetry a) = (ev, q)" by (rule prod.exhaust)
  have "alone H [Pushing ?p] a (scheduleMetaRetry H now p a)"
  proof (cases ev)
    case None
    then show ?thesis using push False alone_one [OF goroutine_step.pushed, of ?p a q] by (simp add: scheduleMetaRetry_def)
  next
    case (Some x)
    then show ?thesis
      using push False alone_then [OF goroutine_step.pushed_out alone_release, of ?p a x q] by (simp add: scheduleMetaRetry_def delete_retryDrops)
  qed
  then show ?thesis by (rule alone_then [OF goroutine_step.scheduled [OF False]])
qed

lemma alone_parked: "alone H [Parked p] a (releaseParkedMeta H now p a)"
proof (cases "parks p > 0 \<and> metaDeliveredCount a = pm_delivered p")
  case True
  then have "goroutine_step H (Parked p) a [Scheduling (p\<lparr>parks := parks p - 1\<rparr>)] a" by (intro goroutine_step.parked_again) auto
  from alone_then [OF this alone_schedule] show ?thesis using True by (simp add: releaseParkedMeta_def)
next
  case False
  then show ?thesis using alone_then [OF goroutine_step.parked_out [OF False] alone_release] by (auto simp: releaseParkedMeta_def)
qed

lemma alone_send: "alone H [Handling p e] a (sendMetadataOnce H now e p a)"
proof (cases "metaVerdictOf e (attempts p + 1)")
  case metaDelivered
  then have "e = None" by (auto simp: metaVerdictOf_def split: option.splits if_splits)
  then show ?thesis
    using alone_then [OF goroutine_step.delivered_one alone_one [OF goroutine_step.cleared]] by (simp add: sendMetadataOnce_def metaVerdictOf_def)
next
  case metaRetryLater
  then show ?thesis using alone_then [OF goroutine_step.retry_later [OF metaRetryLater] alone_schedule] by (simp add: sendMetadataOnce_def Let_def)
next
  case metaGiveUp
  show ?thesis
  proof (cases "is_exceptionMeta (pm_md p)")
    case True
    then show ?thesis
      using alone_then [OF goroutine_step.give_up_exception [OF metaGiveUp True] alone_release] metaGiveUp by (simp add: sendMetadataOnce_def Let_def)
  next
    case False
    note step = goroutine_step.give_up [OF metaGiveUp False, of H a]
    show ?thesis
    proof (cases "metaGiveUps a + 1 = 1")
      case True
      with step have "goroutine_step H (Handling p e) a [Releasing (pm_md p)] (a\<lparr>metaGiveUps := metaGiveUps a + 1\<rparr>)" by simp
      from alone_then [OF this alone_release] show ?thesis using True False metaGiveUp by (simp add: sendMetadataOnce_def Let_def)
    next
      case more: False
      with step have "goroutine_step H (Handling p e) a [Parking (pm_md p)] (a\<lparr>metaGiveUps := metaGiveUps a + 1\<rparr>)" by simp
      from alone_then [OF this alone_then [OF goroutine_step.park alone_schedule]]
      show ?thesis using more False metaGiveUp by (simp add: sendMetadataOnce_def Let_def)
    qed
  qed
next
  case metaRejected
  note step = goroutine_step.rejected [OF metaRejected, of H a]
  show ?thesis
  proof (cases "is_exceptionMeta (pm_md p)")
    case True
    with step have "goroutine_step H (Handling p e) a [] a" by simp
    from alone_one [OF this] show ?thesis using True metaRejected by (simp add: sendMetadataOnce_def Let_def)
  next
    case False
    with step have "goroutine_step H (Handling p e) a [Scheduling ((fresh_pending (pm_md p))\<lparr>releaseOnly := True\<rparr>)] a" by simp
    from alone_then [OF this alone_schedule] show ?thesis using False metaRejected by (simp add: sendMetadataOnce_def Let_def)
  qed
qed

text \<open>And a request's mint and \<open>peekOrAdd\<close> together are \<open>publishMeta\<close>, here of an error name.\<close>

lemma publish_error:
  "publishMeta (hash_str H) errorCache put_error lk now f mint_error (\<lambda>i. stringMeta i f) a =
     (case request_mint (ErrorReq f) a of (None, a) \<Rightarrow> ((None, None), a)
      | (Some m, a') \<Rightarrow> (case publish_item H lk now m a' of (ok, a'') \<Rightarrow>
          ((if ok then fst (mint_error a) else fst (cache_peekOrAdd (hash_str H) lk now f (the (fst (mint_error a))) (errorCache a')),
            if ok then Some m else None), a'')))"
  by (cases "mint_error a"; cases "fst (mint_error a)") (auto simp: publishMeta_def split: prod.splits option.splits)

section \<open>Properties\<close>

text \<open>
  (C5) No cached id is orphaned. In any interleaving, action by action, of requests with the metadata sender, its sends, its retries
  and releases, while the agent is not stopping, every id or UID that a cache still hands to spans describes metadata the
  collector has accepted, that waits in the channel or on the retry schedule, that a panicking send of the sender held (the
  recovery drops it and leaves its id cached), or that a goroutine holds: the request that published it, a send in progress, or a
  goroutine about to release the entry, as the one that evicted an item from the full schedule. In particular, once these
  goroutines are through, no refused, given-up or evicted item has left its id in a cache.
\<close>

theorem no_cached_id_orphaned:
  assumes "(meta_step H)\<^sup>*\<^sup>* (start_run (new_metaAgent n m t qs)) s" "0 \<le> t" "\<not> stopping (ma_phase (mr_agent s))"
    and "r \<in> cached_refs H (mr_agent s)"
  shows "\<exists>x. r \<in> ref_of x \<and> (x \<in> set (delivered s) \<or> x \<in> set (metaChan (mr_agent s)) \<or> x \<in> pm_md ` set (rq_items (metaRetry (mr_agent s)))
    \<or> x \<in> set (panicked s) \<or> (\<exists>h \<in> set (holders s). x \<in> set (held_items h)))"
proof -
  have "covered H (run_refs s) (mr_agent s)" using meta_reach_inv [OF assms(1,2)] by (simp add: run_inv_def)
  then have "r \<in> run_refs s \<union> item_refs (metaChan (mr_agent s)) \<union> item_refs (map pm_md (rq_items (metaRetry (mr_agent s))))"
    using assms(3,4) by (auto simp: covered_def)
  then show ?thesis unfolding run_refs_def holder_refs_def item_refs_def by auto
qed

text \<open>A request publishes an id, is refused by the full channel, and has not released it yet.\<close>

definition demo_start :: "nat metaRun" where
  "demo_start = start_run (new_metaAgent 4 4 0 0)"

definition demo_minted :: "nat metaRun" where
  "demo_minted = (case request_mint (ErrorReq ''io'') (mr_agent demo_start) of
     (m, a) \<Rightarrow> demo_start\<lparr>mr_agent := a, holders := holders demo_start @ (case m of None \<Rightarrow> [] | Some x \<Rightarrow> [Adding x])\<rparr>)"

definition demo_published :: "nat metaRun" where
  "demo_published = (case publish_item demo_hashes True 0 (stringMeta 1 ''io'') (mr_agent demo_minted) of
     (_, a) \<Rightarrow> demo_minted\<lparr>mr_agent := a, holders := [] @ [Queueing (stringMeta 1 ''io'')] @ []\<rparr>)"

definition demo_enabled :: "nat metaRun" where
  "demo_enabled = demo_published\<lparr>mr_agent := mr_agent demo_published, holders := [] @ [Offering (stringMeta 1 ''io'')] @ []\<rparr>"

definition demo_refused :: "nat metaRun" where
  "demo_refused = demo_enabled\<lparr>mr_agent := (mr_agent demo_enabled)\<lparr>metaDrops := dropReporter_record 1 (metaDrops (mr_agent demo_enabled))\<rparr>,
     holders := [] @ [Releasing (stringMeta 1 ''io'')] @ []\<rparr>"

lemma demo_refused_reached: "(meta_step demo_hashes)\<^sup>*\<^sup>* demo_start demo_refused"
proof -
  have "meta_step demo_hashes demo_start demo_minted"
    unfolding demo_minted_def by (cases "request_mint (ErrorReq ''io'') (mr_agent demo_start)") (simp add: meta_step.mint del: request_mint.simps)
  moreover have h: "holders demo_minted = [] @ Adding (stringMeta 1 ''io'') # []" by code_simp
  moreover have "fst (publish_item demo_hashes True 0 (stringMeta 1 ''io'') (mr_agent demo_minted))" by code_simp
  then have "goroutine_step demo_hashes (Adding (stringMeta 1 ''io'')) (mr_agent demo_minted) [Queueing (stringMeta 1 ''io'')]
      (snd (publish_item demo_hashes True 0 (stringMeta 1 ''io'') (mr_agent demo_minted)))"
    by (intro goroutine_step.admitted [of _ True 0]) (metis prod.collapse)
  from meta_step.act [OF h this] have "meta_step demo_hashes demo_minted demo_published"
    by (simp add: demo_published_def split_def del: publish_item.simps)
  moreover have "meta_step demo_hashes demo_published demo_enabled"
    unfolding demo_enabled_def by (rule meta_step.act [where h = "Queueing (stringMeta 1 ''io'')"])
      (simp add: demo_published_def split_def, rule goroutine_step.enabled, code_simp)
  moreover have "try_send (metaChanCap (mr_agent demo_enabled)) (stringMeta 1 ''io'') (metaChan (mr_agent demo_enabled)) = (False, [])" by code_simp
  then have "meta_step demo_hashes demo_enabled demo_refused"
    unfolding demo_refused_def by (intro meta_step.act [where h = "Offering (stringMeta 1 ''io'')"] goroutine_step.refused) (simp_all add: demo_enabled_def)
  ultimately show ?thesis by (meson r_into_rtranclp rtranclp_trans)
qed

theorem no_cached_id_orphaned_witness:
  "holders demo_refused = [Releasing (stringMeta 1 ''io'')] \<and> ErrorRef ''io'' 1 \<in> cached_refs demo_hashes (mr_agent demo_refused)
   \<and> (\<exists>x. ErrorRef ''io'' 1 \<in> ref_of x \<and> (x \<in> set (delivered demo_refused) \<or> x \<in> set (metaChan (mr_agent demo_refused))
     \<or> x \<in> pm_md ` set (rq_items (metaRetry (mr_agent demo_refused))) \<or> x \<in> set (panicked demo_refused)
     \<or> (\<exists>h \<in> set (holders demo_refused). x \<in> set (held_items h))))"
proof (intro conjI)
  show "holders demo_refused = [Releasing (stringMeta 1 ''io'')]" by (simp add: demo_refused_def)
  have "cache_abs (hash_str demo_hashes) (errorCache (mr_agent demo_refused)) ''io'' = Some 1" by code_simp
  then show r: "ErrorRef ''io'' 1 \<in> cached_refs demo_hashes (mr_agent demo_refused)" by (auto simp: cached_refs_def refs_in_def)
  show "\<exists>x. ErrorRef ''io'' 1 \<in> ref_of x \<and> (x \<in> set (delivered demo_refused) \<or> x \<in> set (metaChan (mr_agent demo_refused))
     \<or> x \<in> pm_md ` set (rq_items (metaRetry (mr_agent demo_refused))) \<or> x \<in> set (panicked demo_refused)
     \<or> (\<exists>h \<in> set (holders demo_refused). x \<in> set (held_items h)))"
  proof (rule no_cached_id_orphaned [OF _ _ _ r])
    show "(meta_step demo_hashes)\<^sup>*\<^sup>* (start_run (new_metaAgent 4 4 0 0)) demo_refused" using demo_refused_reached by (simp add: demo_start_def)
    show "\<not> stopping (ma_phase (mr_agent demo_refused))" by code_simp
  qed simp
qed

end
