(* ===== verification/Spec2Isabelle.thy ===== *)
theory Spec2Isabelle
  imports Span_Sender Sql_Metadata Trace_Propagation Commands Url_Filter Balancer Config_Reload Config_Types Agent_Messages Reconnect Stream_Workers Http_Client Sql_Driver
    Config_Watcher Config_Options Kafka Mongo_Monitor Kafka_Producer Kafka_Acks Grpc_Plugin Stats_Sweep Meta_Sender
begin

text \<open>
  This is a verification library for the Pinpoint Go agent (the Go sources under \<^verbatim>\<open>src/\<close>): the code that runs inside a host
  process, decides which requests to trace, records spans and events, describes them with metadata, aggregates
  statistics, and hands everything to the senders that talk to the Pinpoint collector.

  \<^bold>\<open>The program.\<close> A request enters through \<^verbatim>\<open>agent.NewSpanTracerWithReader\<close> (\<^verbatim>\<open>src/agent.go\<close>), which validates the trace
  headers it carries (\<^verbatim>\<open>src/span.go\<close>, \<^verbatim>\<open>src/tracer.go\<close>), asks the sampler (\<^verbatim>\<open>src/sampler.go\<close>) and hands out a span or an unsampled
  one (\<^verbatim>\<open>src/noop.go\<close>). The application starts and ends events on the span (\<^verbatim>\<open>src/span.go\<close>, \<^verbatim>\<open>src/span_event.go\<close>), reports errors
  (\<^verbatim>\<open>src/errors.go\<close>) and SQL (\<^verbatim>\<open>src/meta.go\<close>, \<^verbatim>\<open>src/sql_util.go\<close>, \<^verbatim>\<open>src/sql_driver.go\<close>). Ended events leave in chunks through the
  sharded span queue (\<^verbatim>\<open>src/span_queue.go\<close>); texts leave once, as metadata, through caches (\<^verbatim>\<open>src/meta_cache.go\<close>) and a retrying
  sender (\<^verbatim>\<open>src/meta.go\<close>, \<^verbatim>\<open>src/grpc.go\<close>); counts leave through the statistics workers (\<^verbatim>\<open>src/stats.go\<close>, \<^verbatim>\<open>src/url_stat.go\<close>). The
  configuration (\<^verbatim>\<open>src/config.go\<close>, \<^verbatim>\<open>src/config_reload.go\<close>, \<^verbatim>\<open>src/objectname.go\<close>) is published as immutable snapshots, and a
  lifecycle (\<^verbatim>\<open>src/lifecycle.go\<close>) orders registration and shutdown.

  \<^bold>\<open>Method.\<close> Go structs are records, tagged values datatypes, fallible calls options or sums. Go strings are byte strings
  (\<open>string\<close>), fixed width integers words where they wrap (\<open>go_int32\<close>, \<open>go_int64\<close>) and \<open>int\<close> or \<open>nat\<close> where the code cannot reach the
  bounds. A loop is a recursion with a termination proof; the one with fuel is \<open>Meta_Cache.evict_loop\<close>, whose fuel is the number of
  entries held, and \<open>evict_loop_within\<close> shows that it is enough. Code under a lock is one step. Code that races is an inductive
  step relation over the program counters of its goroutines, one step per atomic access, and the theorems quantify over
  every interleaving. Time, random numbers, hashes, the collector's answers and the third party packages (grpc-go, yaml,
  logrus, the token bucket of \<^verbatim>\<open>golang.org/x/time/rate\<close>) are arguments.

  \<^bold>\<open>Theories.\<close>
  \<^item> \<open>Pinpoint_Prelude\<close>: machine types, shared lemmas on lists and cyclic indices. \<open>Go_Strings\<close>, \<open>Utf8\<close>: the part of \<^verbatim>\<open>strings\<close>,
    \<^verbatim>\<open>strconv\<close> and \<^verbatim>\<open>unicode/utf8\<close> in use, \<^verbatim>\<open>abbreviateString\<close>, id validation; cuts keep valid UTF-8 valid.
  \<^item> \<open>Span_Queue\<close> (\<^verbatim>\<open>src/span_queue.go\<close>): rings as an interpretation of the locale \<open>bounded_fifo\<close>; the queue with its producers,
    closer and consumer as \<open>queue_step\<close>: nothing is lost uncounted, no wakeup is lost, close strands nothing.
  \<^item> \<open>Trace_Context\<close>, \<open>Trace_Propagation\<close> (\<^verbatim>\<open>src/tracer.go\<close>, \<^verbatim>\<open>src/span.go\<close>): ids and headers, the HTTP carrier as an
    interpretation of the locale \<open>carrier\<close>; what a caller injects a callee extracts.
  \<^item> \<open>Error_Rules\<close>, \<open>Error_Chain\<close> (\<^verbatim>\<open>src/errors.go\<close>, parts of \<^verbatim>\<open>src/config.go\<close>): ignore rules, mark masks, exception chains.
  \<^item> \<open>Span_Event\<close>, \<open>Span\<close>, \<open>Span_Invariants\<close> (\<^verbatim>\<open>src/annotation.go\<close>, \<^verbatim>\<open>src/span_event.go\<close>, \<^verbatim>\<open>src/span.go\<close>): the recorder. Every event
    position handed out is reported exactly once, an ended span is inert, the compression of a chunk is lossless.
  \<^item> \<open>Lifecycle\<close> (\<^verbatim>\<open>src/lifecycle.go\<close>, connect, workers and shutdown of \<^verbatim>\<open>src/agent.go\<close>): the registration loop, the supervised workers and the shutdown
    as \<open>life_step\<close>; the shutdown terminates, although the loops need not, and releases everything.
  \<^item> \<open>Stats\<close>, \<open>Stats_Sweep\<close>, \<open>Sampler\<close>, \<open>Request_Entry\<close> (\<^verbatim>\<open>src/stats.go\<close>, \<^verbatim>\<open>src/sampler.go\<close>, \<^verbatim>\<open>src/request_stats.go\<close>, \<^verbatim>\<open>src/noop.go\<close>): counters
    collected exactly once, access by access against reset, sweep and a panicking sample (\<open>stats_step\<close>); both samplers as interpretations of the locale \<open>proportional_sampler\<close>; the request entry.
  \<^item> \<open>Url_Stat\<close>, \<open>Throttle\<close> (\<^verbatim>\<open>src/url_stat.go\<close>, \<^verbatim>\<open>src/throttle.go\<close>): URL ticks sent once and conserved; head drops accounted for.
  \<^item> \<open>Meta_Cache\<close>, \<open>Id_Gen\<close>, \<open>Meta\<close>, \<open>Meta_Sender\<close>, \<open>Sql_Normalizer\<close>, \<open>Bind_Values\<close>, \<open>Sql_Metadata\<close> (\<^verbatim>\<open>src/meta_cache.go\<close>, \<^verbatim>\<open>src/meta.go\<close>,
    \<^verbatim>\<open>src/sql_util.go\<close>, \<^verbatim>\<open>src/sql_driver.go\<close>): the LRU cache refines a map; the four kinds of metadata as interpretations of the
    locale \<open>meta_kind\<close>; requests and the sender action by action as \<open>meta_step\<close>: no cached id is orphaned; the normalizer equals a tokenizer.
  \<^item> \<open>Url_Filter\<close> (\<^verbatim>\<open>src/plugin/http/url.go\<close>): the Ant matcher decides the language of the patterns.
  \<^item> \<open>Http_Proxy\<close>, \<open>Http_Request\<close>, \<open>Http_Config\<close>, \<open>Response_Writer\<close> (\<^verbatim>\<open>src/plugin/http/server.go\<close>, \<^verbatim>\<open>header.go\<close>, \<^verbatim>\<open>status.go\<close>, \<^verbatim>\<open>config.go\<close> beside it): what is read
    from a request, its numbers at their width; the settings of the plugin as \<open>http_step\<close> over reloads and agents; the status recorder
    over any writer, the locale \<open>response_writer\<close>, with \<^verbatim>\<open>net/http\<close>'s writer and the recorder itself as interpretations.
  \<^item> \<open>Http_Server\<close>, \<open>Http_Client\<close> (\<^verbatim>\<open>src/plugin/http/server.go\<close>, \<^verbatim>\<open>client.go\<close>, \<^verbatim>\<open>src/nested.go\<close>, \<^verbatim>\<open>src/tracer.go\<close>): the trace around a handler and
    around a client call: failures are recorded, and one context travels.
  \<^item> \<open>Sql_Driver\<close> (\<^verbatim>\<open>src/sql_driver.go\<close>): the instrumented driver over any driver, against the way \<^verbatim>\<open>database/sql\<close> converts arguments and uses a connection: with
    arguments that are driver values it cannot be told from the plain one, with others it can (\<open>custom_type_visible\<close>); it records every statement once. \<open>Kafka\<close> (\<^verbatim>\<open>src/kafka.go\<close>): the span of a consumed record.
    \<open>Mongo_Monitor\<close> (\<^verbatim>\<open>src/plugin/mongomonitor/monitor.go\<close>): the commands in flight as \<open>monitor_step\<close>, each ended once.
  \<^item> \<open>Plugin_Trace\<close>, \<open>Kafka_Producer\<close>, \<open>Kafka_Acks\<close>, \<open>Grpc_Plugin\<close> (\<^verbatim>\<open>src/plugin/sarama-IBM\<close>, \<^verbatim>\<open>src/plugin/grpc\<close>): one context travels with a record and with a
    call, and the receiver continues it; the outcome of a handler is kept; spans waiting for a broker as \<open>async_step\<close>, each ended once
    through any shutdown; the first end of a client stream ends its span.
  \<^item> \<open>Balancer\<close> (\<^verbatim>\<open>src/grpc_balancer.go\<close>): no connection leaks, make before break.
  \<^item> \<open>Valid_Utf8\<close>, \<open>Span_Message\<close>, \<open>Span_Sender\<close> (\<^verbatim>\<open>src/grpc_span.go\<close>): the messages of a span, valid and lossless; the batch worker with its
    permits and asynchronous requests as \<open>send_step\<close>, which accounts for every span from the queue to the collector.
  \<^item> \<open>Goroutine_Dump\<close>, \<open>Commands\<close> (\<^verbatim>\<open>src/goroutine.go\<close>, \<^verbatim>\<open>src/command.go\<close>, \<^verbatim>\<open>src/grpc_cmd.go\<close>): the thread dumps; the command service; the active
    thread count streams as \<open>atc_step\<close>, bounded in number and able to leave.
  \<^item> \<open>Agent_Messages\<close>, \<open>Reconnect\<close>, \<open>Stream_Workers\<close> (\<^verbatim>\<open>src/grpc.go\<close>, \<^verbatim>\<open>src/grpc_stat.go\<close>, workers of \<^verbatim>\<open>src/agent.go\<close>): headers, registration and metadata messages; the retry
    loops over any sequence of readings, registration only given up on a stop, and the outages of a channel; the stream handles with the
    statistics and the ping worker, one stream at a time, no message sent again after a success.
  \<^item> \<open>Object_Name\<close>, \<open>Config_Values\<close>, \<open>Config_Registry\<close> (\<^verbatim>\<open>src/objectname.go\<close>, \<^verbatim>\<open>src/uid.go\<close>, \<^verbatim>\<open>src/config.go\<close>): the identity an
    agent sends, option values and their sources, the registered options and the checks of a publish.
  \<^item> \<open>Config\<close>, \<open>Config_Reload\<close>, \<open>Config_Types\<close> (\<^verbatim>\<open>src/config.go\<close>, \<^verbatim>\<open>src/config_reload.go\<close>): the build-up of a configuration, its snapshots and
    reloads; options stay in their range and at their type, and a reload does not depend on those before it. \<open>Config_Watcher\<close>
    (\<^verbatim>\<open>src/config_watcher.go\<close>): the poller of the file as \<open>watch_step\<close>; a file that has settled is in force. \<open>Config_Options\<close>
    (\<^verbatim>\<open>src/config_options.go\<close>, \<^verbatim>\<open>src/plugin/http/config.go\<close>): the option functions, each of which sets a registered option at its type.

  \<^bold>\<open>Not modelled.\<close> Dialing and credentials of grpc-go and the RPCs themselves, whose answers are inputs of the models above; the floating
  point durations of a back-off; the readings of the Go runtime in \<^verbatim>\<open>src/stats.go\<close> and the goroutine id read through unsafe offsets; logging,
  signals, gzip pooling: input and output, or forwarding to packages outside the repository. The other plugins wrap
  third party packages over the operations modelled here. \<open>http_step\<close> has the reloads of an HTTP option but not a \<^verbatim>\<open>Set\<close> of one at
  run time, which runs no callback. \<open>Meta_Cache\<close> has the map and the lists of a shard as one structure and its counters as naturals; \<open>Bind_Values\<close> has finite
  values only; \<open>Response_Writer\<close> leaves \<^verbatim>\<open>Hijack\<close> out. Memory reuse
  (\<^verbatim>\<open>src/span_slab.go\<close>, pools) has no observable result.
\<close>

end
